(* ===== verification/Prelude.thy ===== *)
theory Prelude
  imports Main "HOL-Library.Word"
begin

unbundle bit_operations_syntax

text \<open>
  The shared ground of the development: the machine types of \<^verbatim>\<open>lib/stdint.h\<close>, the outcome of a
  kernel function (a value, or one of the ways in which a call does not come back), and the
  lemmas on 32-bit address arithmetic that the components use.
\<close>

section \<open>Machine types\<close>

type_synonym u8 = "8 word"
type_synonym u16 = "16 word"
type_synonym u32 = "32 word"

text \<open>A pointer of the 32-bit kernel is the number of a byte; \<open>NULL\<close> is address 0.\<close>

type_synonym addr = u32

abbreviation NULL :: addr where
  "NULL \<equiv> 0"

abbreviation PG_SIZE :: u32 where
  "PG_SIZE \<equiv> 4096"

text \<open>The byte-addressed memory; addresses wrap around at \<open>2 ^ 32\<close>, as pointer arithmetic does.\<close>

type_synonym mem = "addr \<Rightarrow> u8"

text \<open>The bytes of a string literal.\<close>

definition text_bytes :: "string \<Rightarrow> u8 list" where
  "text_bytes = map (\<lambda>c. of_nat (of_char c))"

section \<open>Outcomes\<close>

text \<open>
  A call that comes back gives \<open>Inr\<close>. \<open>Panic\<close> is a failed \<open>ASSERT\<close> or a \<open>PANIC\<close>: both end in
  \<open>panic_spin\<close>, which masks interrupts and loops. \<open>Hang\<close> is a loop of the function itself that
  never ends. \<open>PageFault\<close> is an access through an entry of the page tables that is not present.
  \<open>Blocked\<close> is the end of a sequential run of a function that takes a lock: another thread has the
  lock, and the scheduler decides what happens next. \<open>OutOfBounds\<close> is an access past the end of an
  array that the model keeps as a list of its elements; C gives such an access no meaning.
  \<open>DivideError\<close> is the exception of the processor for a division by 0.
\<close>

datatype fault = Panic | Hang | PageFault | Blocked | OutOfBounds | DivideError

type_synonym 'a res = "fault + 'a"

definition bindr :: "'a res \<Rightarrow> ('a \<Rightarrow> 'b res) \<Rightarrow> 'b res" where
  "bindr m f = (case m of Inl e \<Rightarrow> Inl e | Inr x \<Rightarrow> f x)"

definition ASSERT :: "bool \<Rightarrow> unit res" where
  "ASSERT c = (if c then Inr () else Inl Panic)"

text \<open>A loop whose termination is not known returns an \<open>option\<close>; \<open>None\<close> is no return.\<close>

definition returns :: "'a option \<Rightarrow> 'a res" where
  "returns r = (case r of None \<Rightarrow> Inl Hang | Some x \<Rightarrow> Inr x)"

definition settled :: "'a res option \<Rightarrow> 'a res" where
  "settled r = bindr (returns r) (\<lambda>x. x)"

named_theorems outcome \<open>equations of the outcome type\<close>

lemma bindr_Inl [simp, outcome]: "bindr (Inl e) f = Inl e"
  by (simp add: bindr_def)

lemma bindr_Inr [simp, outcome]: "bindr (Inr x) f = f x"
  by (simp add: bindr_def)

lemma bindr_eq_Inr [outcome]: "bindr m f = Inr y \<longleftrightarrow> (\<exists>x. m = Inr x \<and> f x = Inr y)"
  by (cases m) auto

lemma bindr_assoc: "bindr (bindr m f) g = bindr m (\<lambda>x. bindr (f x) g)"
  by (cases m) auto

lemma ASSERT_True [simp, outcome]: "c \<Longrightarrow> ASSERT c = Inr ()"
  by (simp add: ASSERT_def)

lemma ASSERT_False [simp, outcome]: "\<not> c \<Longrightarrow> ASSERT c = Inl Panic"
  by (simp add: ASSERT_def)

lemma ASSERT_eq_Inr [simp]: "ASSERT c = Inr u \<longleftrightarrow> c"
  by (simp add: ASSERT_def)

lemma returns_simps [simp, outcome]:
  "returns None = Inl Hang" "returns (Some x) = Inr x"
  by (simp_all add: returns_def)

lemma settled_simps [simp, outcome]: "settled None = Inl Hang" "settled (Some x) = x"
  by (simp_all add: settled_def)

lemma returns_eq_Inr [simp]: "returns r = Inr x \<longleftrightarrow> r = Some x"
  by (cases r) simp_all

section \<open>Address ranges\<close>

text \<open>
  \<open>within a d n\<close>: the address \<open>a\<close> is one of the \<open>n\<close> bytes that start at \<open>d\<close>, where the range
  may run over the top of the address space.
\<close>

definition within :: "addr \<Rightarrow> addr \<Rightarrow> nat \<Rightarrow> bool" where
  "within a d n \<longleftrightarrow> unat (a - d) < n"

named_theorems range_simps \<open>rewriting address ranges\<close>

lemma unat_u32_bound [simp]: "unat (x :: u32) < 4294967296"
  using unsigned_less [of x, where ?'a = nat] by simp

lemma unat_of_nat_u32 [simp]: "n < 4294967296 \<Longrightarrow> unat (of_nat n :: u32) = n"
  by (simp add: unat_of_nat)

lemma of_nat_u32_inj [simp]:
  "i < 4294967296 \<Longrightarrow> j < 4294967296 \<Longrightarrow> (of_nat i :: u32) = of_nat j \<longleftrightarrow> i = j"
  by (metis unat_of_nat_u32)

lemma of_nat_u32_not_m1: "n < 4294967295 \<Longrightarrow> (of_nat n :: u32) \<noteq> -1"
proof
  assume n: "n < 4294967295" and eq: "(of_nat n :: u32) = -1"
  from eq have "unat (of_nat n :: u32) = 4294967295"
    by (simp add: unsigned_minus_1_eq_mask mask_eq_exp_minus_1)
  with n show False by simp
qed

lemma unat_pred: "unat ((x :: u32) - 1) = (if x = 0 then 4294967295 else unat x - 1)"
  by (simp add: unat_minus_one unsigned_minus_1_eq_mask mask_eq_exp_minus_1)

lemma unat_add_u32:
  "unat (x :: u32) + unat y < 4294967296 \<Longrightarrow> unat (x + y) = unat x + unat y"
  by (simp add: unat_plus_if')

lemma unat_inc:
  fixes i j :: u32
  assumes "i < j"
  shows "unat (i + 1) = Suc (unat i)"
proof -
  have "unat i < unat j" using assms by (simp add: word_less_nat_alt)
  then have "Suc (unat i) < 4294967296"
    using unat_u32_bound [of j] by linarith
  then show ?thesis by (simp add: unat_plus_if')
qed

lemma within_0 [simp, range_simps]: "\<not> within a d 0"
  by (simp add: within_def)

lemma within_self [simp, range_simps]: "within d d n \<longleftrightarrow> 0 < n"
  by (simp add: within_def)

lemma within_Suc:
  assumes "n < 4294967296"
  shows "within a d (Suc n) \<longleftrightarrow> a = d \<or> within a (d + 1) n"
proof (cases "a = d")
  case False
  then have pos: "0 < unat (a - d)"
    by (simp add: unat_gt_0)
  have "unat (a - (d + 1)) = unat (a - d) - 1"
    using False unat_pred [of "a - d"] by (simp add: diff_diff_eq)
  with False pos show ?thesis
    by (auto simp: within_def)
qed simp

lemma within_mono: "within a d n \<Longrightarrow> n \<le> k \<Longrightarrow> within a d k"
  by (simp add: within_def)

lemma within_of_nat [range_simps]:
  "k < 4294967296 \<Longrightarrow> within (d + of_nat k) d n \<longleftrightarrow> k < n"
  by (simp add: within_def)

lemma within_witness:
  assumes "within a d n"
  obtains k where "k < n" and "k < 4294967296" and "a = d + of_nat k"
proof
  show "unat (a - d) < n" using assms by (simp add: within_def)
  show "a = d + of_nat (unat (a - d))" by simp
qed simp

text \<open>Two ranges, one below the other and not running over the top.\<close>

lemma apart:
  assumes "unat d + n \<le> unat s" and "unat s + k \<le> 4294967296" and "within x d n"
  shows "\<not> within x s k"
proof
  assume "within x s k"
  then obtain j where j: "j < k" "x = s + of_nat j" by (auto elim: within_witness)
  obtain i where i: "i < n" "x = d + of_nat i" using assms(3) by (auto elim: within_witness)
  have "unat x = unat s + j" using j assms by (simp add: unat_add_u32)
  moreover have "unat x = unat d + i" using i assms by (simp add: unat_add_u32)
  ultimately show False using assms i by simp
qed

end
