(* ===== verification/Interrupt.thy ===== *)
theory Interrupt
  imports Prelude
begin

unbundle bit_operations_syntax

text \<open>
  The interrupt flag of \<^verbatim>\<open>kernel/interrupt.c\<close>: every list operation, semaphore operation and
  scheduling decision runs between \<open>intr_disable\<close> and \<open>intr_set_status\<close>. The flag is bit 9 of
  \<open>eflags\<close>; \<open>cli\<close> clears it, \<open>sti\<close> sets it.
  The state is an extensible record: the components that follow add their own fields to it.
\<close>

section \<open>The code\<close>

datatype intr_status = INTR_OFF | INTR_ON

record cpu =
  eflags :: u32

definition EFLAGS_IF :: u32 where
  "EFLAGS_IF = 0x00000200"

definition intr_get_status :: "'a cpu_scheme \<Rightarrow> intr_status" where
  "intr_get_status s = (if EFLAGS_IF AND eflags s \<noteq> 0 then INTR_ON else INTR_OFF)"

definition intr_enable :: "'a cpu_scheme \<Rightarrow> intr_status \<times> 'a cpu_scheme" where
  "intr_enable s =
     (if INTR_ON = intr_get_status s then (INTR_ON, s)
      else (INTR_OFF, s\<lparr>eflags := eflags s OR EFLAGS_IF\<rparr>))"

definition intr_disable :: "'a cpu_scheme \<Rightarrow> intr_status \<times> 'a cpu_scheme" where
  "intr_disable s =
     (if INTR_ON = intr_get_status s then (INTR_ON, s\<lparr>eflags := eflags s AND NOT EFLAGS_IF\<rparr>)
      else (INTR_OFF, s))"

definition intr_set_status :: "intr_status \<Rightarrow> 'a cpu_scheme \<Rightarrow> intr_status \<times> 'a cpu_scheme" where
  "intr_set_status status s = (if status = INTR_ON then intr_enable s else intr_disable s)"

section \<open>What the bracket does\<close>

lemma EFLAGS_IF_exp: "EFLAGS_IF = 2 ^ 9"
  by (simp add: EFLAGS_IF_def)

lemma intr_get_status_bit: "intr_get_status s = (if bit (eflags s) 9 then INTR_ON else INTR_OFF)"
  using and_exp_eq_0_iff_not_bit [of "eflags s" 9]
  by (simp add: intr_get_status_def EFLAGS_IF_exp and.commute del: power_numeral)

lemma bit_EFLAGS_IF [simp]: "bit EFLAGS_IF n \<longleftrightarrow> n = 9"
  unfolding EFLAGS_IF_exp bit_exp_iff by auto

lemma flag_set: "bit (w :: u32) 9 \<Longrightarrow> w AND NOT EFLAGS_IF OR EFLAGS_IF = w"
  by (rule bit_word_eqI) (auto simp: bit_simps)

lemma flag_clear [simp]: "\<not> bit (w AND NOT EFLAGS_IF) 9" "bit (w OR EFLAGS_IF) 9"
  by (auto simp: bit_simps)

lemma intr_disable_fst [simp]: "fst (intr_disable s) = intr_get_status s"
  by (cases "intr_get_status s") (simp_all add: intr_disable_def)

lemma intr_disable_off [simp]: "intr_get_status (snd (intr_disable s)) = INTR_OFF"
  by (auto simp: intr_disable_def intr_get_status_bit)

lemma intr_disable_idem: "intr_get_status s = INTR_OFF \<Longrightarrow> intr_disable s = (INTR_OFF, s)"
  by (simp add: intr_disable_def)

lemma intr_set_status_sets [simp]: "intr_get_status (snd (intr_set_status st s)) = st"
  by (cases st) (auto simp: intr_set_status_def intr_enable_def intr_disable_def intr_get_status_bit)

text \<open>
  A change \<open>f\<close> of other fields, bracketed by \<open>intr_disable\<close> and \<open>intr_set_status\<close>, is just \<open>f\<close>:
  the flag comes back as it was.
\<close>

definition keeps_eflags :: "('a cpu_scheme \<Rightarrow> 'a cpu_scheme) \<Rightarrow> bool" where
  "keeps_eflags f \<longleftrightarrow> (\<forall>s e. eflags (f s) = eflags s \<and> f (s\<lparr>eflags := e\<rparr>) = (f s)\<lparr>eflags := e\<rparr>)"

lemma intr_bracket:
  assumes "keeps_eflags f"
  shows "snd (intr_set_status (fst (intr_disable s)) (f (snd (intr_disable s)))) = f s"
proof (cases "bit (eflags s) 9")
  case True
  with assms show ?thesis
    by (simp add: keeps_eflags_def intr_set_status_def intr_enable_def intr_disable_def
        intr_get_status_bit flag_set)
next
  case False
  with assms show ?thesis
    by (simp add: keeps_eflags_def intr_set_status_def intr_disable_def intr_get_status_bit)
qed

section \<open>Properties\<close>

text \<open>The bracket that makes an operation atomic gives the interrupt flag back as it was: after
  \<open>intr_disable\<close>, any change of other fields and \<open>intr_set_status\<close> of the saved status, the state is
  the one the change alone gives; in between interrupts are off.\<close>

theorem intr_bracket_restores:
  fixes f :: "'a cpu_scheme \<Rightarrow> 'a cpu_scheme"
  assumes "\<And>s e. eflags (f s) = eflags s \<and> f (s\<lparr>eflags := e\<rparr>) = (f s)\<lparr>eflags := e\<rparr>"
  shows "let (old_status, s1) = intr_disable s
    in intr_get_status s1 = INTR_OFF \<and> snd (intr_set_status old_status (f s1)) = f s"
proof -
  have "keeps_eflags f" using assms by (simp add: keeps_eflags_def)
  from intr_bracket [OF this] show ?thesis by (simp add: case_prod_beta Let_def)
qed

theorem intr_bracket_restores_witness:
  "snd (intr_set_status INTR_ON (snd (intr_disable \<lparr>eflags = 0x202\<rparr>))) = \<lparr>eflags = 0x202\<rparr>"
  using intr_bracket_restores [of "\<lambda>s. s" "\<lparr>eflags = 0x202\<rparr>"]
  by (simp add: case_prod_beta intr_get_status_def EFLAGS_IF_def)

end
