(* ===== verification/DList.thy ===== *)
theory DList
  imports Interrupt
begin

text \<open>
  \<^verbatim>\<open>lib/kernel/list.c\<close>: the intrusive doubly linked lists behind the ready queue, the waiting
  queues, the free lists of the allocator and the open inodes. A node is an address; its two
  fields are two maps of the state. \<open>struct list\<close> at address \<open>l\<close> holds the sentinel nodes
  \<open>head\<close> (offset 0) and \<open>tail\<close> (offset 8).
\<close>

section \<open>The code\<close>

record nodes = cpu +
  prev :: "addr \<Rightarrow> addr"
  nxt :: "addr \<Rightarrow> addr"

definition head_of :: "addr \<Rightarrow> addr" where
  "head_of plist = plist"

definition tail_of :: "addr \<Rightarrow> addr" where
  "tail_of plist = plist + 8"

definition set_prev :: "addr \<Rightarrow> addr \<Rightarrow> 'a nodes_scheme \<Rightarrow> 'a nodes_scheme" where
  "set_prev n v s = s\<lparr>prev := (prev s)(n := v)\<rparr>"

definition set_nxt :: "addr \<Rightarrow> addr \<Rightarrow> 'a nodes_scheme \<Rightarrow> 'a nodes_scheme" where
  "set_nxt n v s = s\<lparr>nxt := (nxt s)(n := v)\<rparr>"

definition list_init :: "addr \<Rightarrow> 'a nodes_scheme \<Rightarrow> 'a nodes_scheme" where
  "list_init plist s =
     (let s = set_prev (head_of plist) NULL s;
          s = set_nxt (head_of plist) (tail_of plist) s;
          s = set_prev (tail_of plist) (head_of plist) s
      in set_nxt (tail_of plist) NULL s)"

definition insert_body :: "addr \<Rightarrow> addr \<Rightarrow> 'a nodes_scheme \<Rightarrow> 'a nodes_scheme" where
  "insert_body before elem s =
     (let s = set_nxt (prev s before) elem s;
          s = set_prev elem (prev s before) s;
          s = set_nxt elem before s
      in set_prev before elem s)"

definition list_insert_before :: "addr \<Rightarrow> addr \<Rightarrow> 'a nodes_scheme \<Rightarrow> 'a nodes_scheme" where
  "list_insert_before before elem s =
     (let (old_status, s) = intr_disable s;
          s = insert_body before elem s
      in snd (intr_set_status old_status s))"

definition list_push :: "addr \<Rightarrow> addr \<Rightarrow> 'a nodes_scheme \<Rightarrow> 'a nodes_scheme" where
  "list_push plist elem s = list_insert_before (nxt s (head_of plist)) elem s"

definition list_append :: "addr \<Rightarrow> addr \<Rightarrow> 'a nodes_scheme \<Rightarrow> 'a nodes_scheme" where
  "list_append plist elem s = list_insert_before (tail_of plist) elem s"

definition remove_body :: "addr \<Rightarrow> 'a nodes_scheme \<Rightarrow> 'a nodes_scheme" where
  "remove_body pelem s =
     (let s = set_nxt (prev s pelem) (nxt s pelem) s
      in set_prev (nxt s pelem) (prev s pelem) s)"

definition list_remove :: "addr \<Rightarrow> 'a nodes_scheme \<Rightarrow> 'a nodes_scheme" where
  "list_remove pelem s =
     (let (old_status, s) = intr_disable s;
          s = remove_body pelem s
      in snd (intr_set_status old_status s))"

definition list_pop :: "addr \<Rightarrow> 'a nodes_scheme \<Rightarrow> addr \<times> 'a nodes_scheme" where
  "list_pop plist s = (let elem = nxt s (head_of plist) in (elem, list_remove elem s))"

text \<open>The walks follow \<open>next\<close> until they meet the tail sentinel; on a corrupt list they may not end.\<close>

partial_function (option) find_loop :: "(addr \<Rightarrow> addr) \<Rightarrow> addr \<Rightarrow> addr \<Rightarrow> addr \<Rightarrow> bool option" where
  "find_loop nx tail obj_elem elem =
     (if elem = tail then Some False
      else if elem = obj_elem then Some True
      else find_loop nx tail obj_elem (nx elem))"

definition elem_find :: "addr \<Rightarrow> addr \<Rightarrow> 'a nodes_scheme \<Rightarrow> bool res" where
  "elem_find plist obj_elem s =
     returns (find_loop (nxt s) (tail_of plist) obj_elem (nxt s (head_of plist)))"

definition list_empty :: "addr \<Rightarrow> 'a nodes_scheme \<Rightarrow> bool" where
  "list_empty plist s \<longleftrightarrow> nxt s (head_of plist) = tail_of plist"

text \<open>The callback of \<open>list_traversal\<close> may change the state; \<open>func\<close> has its argument \<open>arg\<close> applied.\<close>

partial_function (option) traversal_loop ::
    "(addr \<Rightarrow> 'a nodes_scheme \<Rightarrow> bool \<times> 'a nodes_scheme) \<Rightarrow> addr \<Rightarrow> addr \<Rightarrow> 'a nodes_scheme \<Rightarrow>
     (addr \<times> 'a nodes_scheme) option" where
  "traversal_loop func tail elem s =
     (if elem = tail then Some (NULL, s)
      else let (hit, s') = func elem s
           in if hit then Some (elem, s') else traversal_loop func tail (nxt s' elem) s')"

definition list_traversal ::
    "addr \<Rightarrow> (addr \<Rightarrow> 'a nodes_scheme \<Rightarrow> bool \<times> 'a nodes_scheme) \<Rightarrow> 'a nodes_scheme \<Rightarrow>
     (addr \<times> 'a nodes_scheme) res" where
  "list_traversal plist func s =
     (if list_empty plist s then Inr (NULL, s)
      else returns (traversal_loop func (tail_of plist) (nxt s (head_of plist)) s))"

partial_function (option) len_loop :: "(addr \<Rightarrow> addr) \<Rightarrow> addr \<Rightarrow> addr \<Rightarrow> u32 \<Rightarrow> u32 option" where
  "len_loop nx tail elem len =
     (if elem = tail then Some len else len_loop nx tail (nx elem) (len + 1))"

definition list_len :: "addr \<Rightarrow> 'a nodes_scheme \<Rightarrow> u32 res" where
  "list_len plist s = returns (len_loop (nxt s) (tail_of plist) (nxt s (head_of plist)) 0)"

section \<open>Well-formed lists\<close>

lemma list_insert_before_eq: "list_insert_before before elem = insert_body before elem"
proof
  fix s :: "'a nodes_scheme"
  have "keeps_eflags (insert_body before elem :: 'a nodes_scheme \<Rightarrow> _)"
    by (simp add: keeps_eflags_def insert_body_def set_nxt_def set_prev_def Let_def)
  from intr_bracket [OF this]
  show "list_insert_before before elem s = insert_body before elem s"
    by (simp add: list_insert_before_def case_prod_beta Let_def)
qed

lemma list_remove_eq: "list_remove pelem = remove_body pelem"
proof
  fix s :: "'a nodes_scheme"
  have "keeps_eflags (remove_body pelem :: 'a nodes_scheme \<Rightarrow> _)"
    by (simp add: keeps_eflags_def remove_body_def set_nxt_def set_prev_def Let_def)
  from intr_bracket [OF this]
  show "list_remove pelem s = remove_body pelem s"
    by (simp add: list_remove_def case_prod_beta Let_def)
qed

text \<open>Consecutive nodes point at each other.\<close>

fun linked :: "(addr \<Rightarrow> addr) \<Rightarrow> (addr \<Rightarrow> addr) \<Rightarrow> addr list \<Rightarrow> bool" where
  "linked p n (a # b # r) \<longleftrightarrow> n a = b \<and> p b = a \<and> linked p n (b # r)"
| "linked p n _ \<longleftrightarrow> True"

text \<open>The nodes of the list \<open>l\<close> with elements \<open>xs\<close>: its sentinels and its elements.\<close>

definition ring :: "addr \<Rightarrow> addr list \<Rightarrow> addr list" where
  "ring l xs = head_of l # xs @ [tail_of l]"

definition foot :: "addr \<Rightarrow> addr list \<Rightarrow> addr set" where
  "foot l xs = set (ring l xs)"

definition dlist :: "'a nodes_scheme \<Rightarrow> addr \<Rightarrow> addr list \<Rightarrow> bool" where
  "dlist s l xs \<longleftrightarrow> distinct (ring l xs) \<and> linked (prev s) (nxt s) (ring l xs)"

lemma linked_append:
  "linked p n (xs @ y # ys) \<longleftrightarrow> linked p n (xs @ [y]) \<and> linked p n (y # ys)"
proof (induction xs)
  case (Cons x xs)
  then show ?case by (cases xs) auto
qed auto

lemma linked_cong:
  "(\<And>a. a \<in> set (butlast ns) \<Longrightarrow> n a = n' a) \<Longrightarrow> (\<And>a. a \<in> set (tl ns) \<Longrightarrow> p a = p' a) \<Longrightarrow>
   linked p n ns = linked p' n' ns"
proof (induction p n ns rule: linked.induct)
  case (1 p n a b r)
  have "linked p n (b # r) = linked p' n' (b # r)"
    by (rule "1.IH") (use "1.prems" in auto)
  with "1.prems" show ?case by auto
qed auto

lemma insert_body_linked:
  assumes "linked (prev s) (nxt s) (A @ x # before # B)" and "distinct (A @ x # before # B)"
    and "e \<notin> set (A @ x # before # B)"
  shows "linked (prev (insert_body before e s)) (nxt (insert_body before e s)) (A @ x # e # before # B)"
proof -
  let ?s = "insert_body before e s"
  have L: "linked (prev s) (nxt s) (A @ [x])" "linked (prev s) (nxt s) (before # B)"
    and x: "nxt s x = before" "prev s before = x"
    using assms(1) linked_append [of "prev s" "nxt s" A x "before # B"] by auto
  have upd: "nxt ?s = (nxt s)(x := e, e := before)" "prev ?s = (prev s)(e := x, before := e)"
    using assms x by (auto simp: insert_body_def set_nxt_def set_prev_def Let_def)
  have "linked (prev ?s) (nxt ?s) (A @ [x]) = linked (prev s) (nxt s) (A @ [x])"
  proof (rule linked_cong)
    show "a \<in> set (tl (A @ [x])) \<Longrightarrow> prev ?s a = prev s a" for a
      using assms upd by (cases A) auto
  qed (use assms upd in auto)
  moreover have "linked (prev ?s) (nxt ?s) (before # B) = linked (prev s) (nxt s) (before # B)"
  proof (rule linked_cong)
    show "a \<in> set (butlast (before # B)) \<Longrightarrow> nxt ?s a = nxt s a" for a
      using assms upd in_set_butlastD [of a "before # B"] by auto
  qed (use assms upd in auto)
  ultimately show ?thesis
    using L assms upd by (subst linked_append) auto
qed

lemma remove_body_linked:
  assumes "linked (prev s) (nxt s) (A @ x # e # y # B)" and "distinct (A @ x # e # y # B)"
  shows "linked (prev (remove_body e s)) (nxt (remove_body e s)) (A @ x # y # B)"
proof -
  let ?s = "remove_body e s"
  have L: "linked (prev s) (nxt s) (A @ [x])" "linked (prev s) (nxt s) (y # B)"
    and x: "nxt s x = e" "prev s e = x" "nxt s e = y" "prev s y = e"
    using assms(1) linked_append [of "prev s" "nxt s" A x "e # y # B"] by auto
  have upd: "nxt ?s = (nxt s)(x := y)" "prev ?s = (prev s)(y := x)"
    using assms x by (auto simp: remove_body_def set_nxt_def set_prev_def Let_def)
  have "linked (prev ?s) (nxt ?s) (A @ [x]) = linked (prev s) (nxt s) (A @ [x])"
  proof (rule linked_cong)
    show "a \<in> set (tl (A @ [x])) \<Longrightarrow> prev ?s a = prev s a" for a
      using assms upd by (cases A) auto
  qed (use assms upd in auto)
  moreover have "linked (prev ?s) (nxt ?s) (y # B) = linked (prev s) (nxt s) (y # B)"
  proof (rule linked_cong)
    show "a \<in> set (butlast (y # B)) \<Longrightarrow> nxt ?s a = nxt s a" for a
      using assms upd in_set_butlastD [of a "y # B"] by auto
  qed (use assms upd in auto)
  ultimately show ?thesis
    using L assms upd by (subst linked_append) auto
qed

text \<open>Two states whose nodes agree outside a set.\<close>

definition agree_off :: "addr set \<Rightarrow> 'a nodes_scheme \<Rightarrow> 'a nodes_scheme \<Rightarrow> bool" where
  "agree_off X s t \<longleftrightarrow> (\<forall>a. a \<notin> X \<longrightarrow> nxt t a = nxt s a \<and> prev t a = prev s a)"

lemma agree_off_mono: "agree_off X s t \<Longrightarrow> X \<subseteq> Y \<Longrightarrow> agree_off Y s t"
  by (auto simp: agree_off_def)

lemma agree_off_trans: "agree_off X s t \<Longrightarrow> agree_off X t u \<Longrightarrow> agree_off X s u"
  by (simp add: agree_off_def)

lemma dlist_agree: "agree_off X s t \<Longrightarrow> foot l ys \<inter> X = {} \<Longrightarrow> dlist t l ys = dlist s l ys"
  unfolding dlist_def agree_off_def foot_def
  by (intro conj_cong refl linked_cong) (auto simp: ring_def dest: in_set_butlastD)

lemma tail_neq_head [simp]: "tail_of l \<noteq> head_of l" "head_of l \<noteq> tail_of l"
  by (auto simp: tail_of_def head_of_def)

lemma foot_simps [simp]:
  "foot l (xs @ ys) = foot l xs \<union> set ys" "foot l (x # xs) = insert x (foot l xs)"
  "foot l [] = {head_of l, tail_of l}"
  by (auto simp: foot_def ring_def)

lemma dlist_empty: "dlist (list_init l s) l []"
  by (simp add: dlist_def ring_def list_init_def set_nxt_def set_prev_def Let_def)

lemma list_init_agree: "agree_off (foot l []) s (list_init l s)"
  by (simp add: agree_off_def list_init_def set_nxt_def set_prev_def Let_def)

lemma dlist_append:
  assumes "dlist s l xs" and "e \<notin> foot l xs"
  shows "dlist (list_append l e s) l (xs @ [e])"
    and "agree_off (insert e (foot l xs)) s (list_append l e s)"
proof -
  obtain A x where A: "head_of l # xs = A @ [x]"
    by (metis append_butlast_last_id list.distinct(1))
  have ring: "ring l xs = A @ x # tail_of l # []" "ring l (xs @ [e]) = A @ x # e # tail_of l # []"
    using A by (auto simp: ring_def dest: arg_cong [where f = "\<lambda>ys. ys @ zs" for zs])
  with assms show "dlist (list_append l e s) l (xs @ [e])"
    using insert_body_linked [of s A x "tail_of l" "[]" e]
    by (auto simp: dlist_def foot_def list_append_def list_insert_before_eq)
  have "prev s (tail_of l) = x"
    using assms(1) ring linked_append [of "prev s" "nxt s" A x "[tail_of l]"]
    by (simp add: dlist_def)
  then show "agree_off (insert e (foot l xs)) s (list_append l e s)"
    using ring by (auto simp: agree_off_def foot_def list_append_def list_insert_before_eq
        insert_body_def set_nxt_def set_prev_def Let_def)
qed

lemma dlist_push:
  assumes "dlist s l xs" and "e \<notin> foot l xs"
  shows "dlist (list_push l e s) l (e # xs)"
    and "agree_off (insert e (foot l xs)) s (list_push l e s)"
proof -
  obtain y ys where Y: "xs @ [tail_of l] = y # ys"
    by (cases xs) auto
  have ring: "ring l xs = [] @ head_of l # y # ys" "ring l (e # xs) = [] @ head_of l # e # y # ys"
    using Y by (auto simp: ring_def)
  have y: "nxt s (head_of l) = y" "prev s y = head_of l"
    using assms(1) ring by (auto simp: dlist_def)
  show "dlist (list_push l e s) l (e # xs)"
    using assms insert_body_linked [of s "[]" "head_of l" y ys e] ring y
    by (auto simp: dlist_def foot_def list_push_def list_insert_before_eq)
  show "agree_off (insert e (foot l xs)) s (list_push l e s)"
    using ring y by (auto simp: agree_off_def foot_def list_push_def list_insert_before_eq
        insert_body_def set_nxt_def set_prev_def Let_def)
qed

lemma dlist_remove:
  assumes "dlist s l (as @ e # bs)"
  shows "dlist (list_remove e s) l (as @ bs)"
    and "agree_off (foot l (as @ bs)) s (list_remove e s)"
proof -
  obtain A x where A: "head_of l # as = A @ [x]"
    by (metis append_butlast_last_id list.distinct(1))
  obtain y B where B: "bs @ [tail_of l] = y # B"
    by (cases bs) auto
  have ring: "ring l (as @ e # bs) = A @ x # e # y # B" "ring l (as @ bs) = A @ x # y # B"
    using A B by (simp_all add: ring_def)
  with assms show "dlist (list_remove e s) l (as @ bs)"
    using remove_body_linked [of s A x e y B]
    by (auto simp: dlist_def foot_def list_remove_eq)
  have "prev s e = x" "nxt s e = y"
    using assms(1) ring linked_append [of "prev s" "nxt s" A x "e # y # B"]
    by (auto simp: dlist_def)
  moreover have "x \<noteq> e" using assms ring by (auto simp: dlist_def)
  ultimately show "agree_off (foot l (as @ bs)) s (list_remove e s)"
    using ring by (auto simp: agree_off_def foot_def list_remove_eq
        remove_body_def set_nxt_def set_prev_def Let_def)
qed

lemma dlist_first: "dlist s l (x # xs) \<Longrightarrow> nxt s (head_of l) = x"
  by (simp add: dlist_def ring_def)

lemma dlist_pop:
  assumes "dlist s l (x # xs)"
  shows "fst (list_pop l s) = x" and "dlist (snd (list_pop l s)) l xs"
    and "agree_off (foot l xs) s (snd (list_pop l s))"
  using assms dlist_remove [of s l "[]" x xs] dlist_first [OF assms]
  by (simp_all add: list_pop_def Let_def)

lemma dlist_is_empty: "dlist s l xs \<Longrightarrow> list_empty l s \<longleftrightarrow> xs = []"
  by (cases xs) (auto simp: list_empty_def dlist_def ring_def)

lemma find_loop_linked:
  "linked p n (ys @ [t]) \<Longrightarrow> t \<notin> set ys \<Longrightarrow>
   find_loop n t e (hd (ys @ [t])) = Some (e \<in> set ys)"
proof (induction ys)
  case Nil
  then show ?case by (simp add: find_loop.simps)
next
  case (Cons y ys)
  have n: "n y = hd (ys @ [t])" and L: "linked p n (ys @ [t])"
    using Cons.prems by (cases ys; simp)+
  have "find_loop n t e y = (if y = e then Some True else find_loop n t e (n y))"
    using Cons.prems by (subst find_loop.simps) auto
  with Cons n L show ?case by auto
qed

lemma len_loop_linked:
  "linked p n (ys @ [t]) \<Longrightarrow> t \<notin> set ys \<Longrightarrow>
   len_loop n t (hd (ys @ [t])) k = Some (k + of_nat (length ys))"
proof (induction ys arbitrary: k)
  case Nil
  then show ?case by (simp add: len_loop.simps)
next
  case (Cons y ys)
  have n: "n y = hd (ys @ [t])" and L: "linked p n (ys @ [t])"
    using Cons.prems by (cases ys; simp)+
  have "len_loop n t y k = len_loop n t (n y) (k + 1)"
    using Cons.prems by (subst len_loop.simps) auto
  with Cons n L show ?case by (simp add: add.assoc)
qed

lemma dlist_walk:
  assumes "dlist s l xs"
  shows "linked (prev s) (nxt s) (xs @ [tail_of l])" and "tail_of l \<notin> set xs"
    and "nxt s (head_of l) = hd (xs @ [tail_of l])"
  using assms by (cases xs; auto simp: dlist_def ring_def)+

lemma dlist_find: "dlist s l xs \<Longrightarrow> elem_find l e s = Inr (e \<in> set xs)"
  using dlist_walk [of s l xs] find_loop_linked [of "prev s" "nxt s" xs "tail_of l" e]
  by (simp add: elem_find_def)

lemma dlist_len: "dlist s l xs \<Longrightarrow> list_len l s = Inr (of_nat (length xs))"
  using dlist_walk [of s l xs] len_loop_linked [of "prev s" "nxt s" xs "tail_of l" 0]
  by (simp add: list_len_def)

text \<open>A traversal with a callback that only looks: the first element it accepts, or \<open>NULL\<close>.\<close>

lemma traversal_loop_linked:
  "linked (prev s) (nxt s) (ys @ [t]) \<Longrightarrow> t \<notin> set ys \<Longrightarrow>
   traversal_loop (\<lambda>e s. (f e, s)) t (hd (ys @ [t])) s =
     Some (case List.find f ys of None \<Rightarrow> NULL | Some e \<Rightarrow> e, s)"
proof (induction ys)
  case Nil
  then show ?case by (simp add: traversal_loop.simps)
next
  case (Cons y ys)
  have n: "nxt s y = hd (ys @ [t])" and L: "linked (prev s) (nxt s) (ys @ [t])"
    using Cons.prems by (cases ys; simp)+
  have "traversal_loop (\<lambda>e s. (f e, s)) t y s =
      (if f y then Some (y, s) else traversal_loop (\<lambda>e s. (f e, s)) t (nxt s y) s)"
    using Cons.prems by (subst traversal_loop.simps) auto
  with Cons n L show ?case by auto
qed

lemma dlist_traversal:
  assumes "dlist s l xs"
  shows "list_traversal l (\<lambda>e s. (f e, s)) s =
    Inr (case List.find f xs of None \<Rightarrow> NULL | Some e \<Rightarrow> e, s)"
  using dlist_walk [OF assms] traversal_loop_linked [of s xs "tail_of l" f] dlist_is_empty [OF assms]
  by (cases xs) (simp_all add: list_traversal_def)

section \<open>The interface\<close>

text \<open>
  What the scheduler, the semaphores and the allocator rely on: \<open>Q s l xs\<close> says that the list at
  \<open>l\<close> holds the elements \<open>xs\<close> in order; each operation changes one list and leaves every list
  with other nodes alone.
\<close>

locale intrusive_queue =
  fixes Q :: "'s \<Rightarrow> addr \<Rightarrow> addr list \<Rightarrow> bool"
    and init :: "addr \<Rightarrow> 's \<Rightarrow> 's"
    and append :: "addr \<Rightarrow> addr \<Rightarrow> 's \<Rightarrow> 's"
    and push :: "addr \<Rightarrow> addr \<Rightarrow> 's \<Rightarrow> 's"
    and pop :: "addr \<Rightarrow> 's \<Rightarrow> addr \<times> 's"
    and remove :: "addr \<Rightarrow> 's \<Rightarrow> 's"
    and is_empty :: "addr \<Rightarrow> 's \<Rightarrow> bool"
    and find :: "addr \<Rightarrow> addr \<Rightarrow> 's \<Rightarrow> bool res"
  assumes Q_distinct: "Q s l xs \<Longrightarrow> distinct xs"
    and init_Q: "Q (init l s) l []"
    and init_frame: "Q s k ys \<Longrightarrow> foot k ys \<inter> foot l [] = {} \<Longrightarrow> Q (init l s) k ys"
    and append_Q: "Q s l xs \<Longrightarrow> e \<notin> foot l xs \<Longrightarrow> Q (append l e s) l (xs @ [e])"
    and append_frame: "Q s l xs \<Longrightarrow> e \<notin> foot l xs \<Longrightarrow> Q s k ys \<Longrightarrow>
      foot k ys \<inter> insert e (foot l xs) = {} \<Longrightarrow> Q (append l e s) k ys"
    and push_Q: "Q s l xs \<Longrightarrow> e \<notin> foot l xs \<Longrightarrow> Q (push l e s) l (e # xs)"
    and push_frame: "Q s l xs \<Longrightarrow> e \<notin> foot l xs \<Longrightarrow> Q s k ys \<Longrightarrow>
      foot k ys \<inter> insert e (foot l xs) = {} \<Longrightarrow> Q (push l e s) k ys"
    and pop_fst: "Q s l (x # xs) \<Longrightarrow> fst (pop l s) = x"
    and pop_Q: "Q s l (x # xs) \<Longrightarrow> Q (snd (pop l s)) l xs"
    and pop_frame: "Q s l (x # xs) \<Longrightarrow> Q s k ys \<Longrightarrow>
      foot k ys \<inter> foot l xs = {} \<Longrightarrow> Q (snd (pop l s)) k ys"
    and remove_Q: "Q s l (as @ e # bs) \<Longrightarrow> Q (remove e s) l (as @ bs)"
    and remove_frame: "Q s l (as @ e # bs) \<Longrightarrow> Q s k ys \<Longrightarrow>
      foot k ys \<inter> foot l (as @ bs) = {} \<Longrightarrow> Q (remove e s) k ys"
    and empty_iff: "Q s l xs \<Longrightarrow> is_empty l s \<longleftrightarrow> xs = []"
    and find_eq: "Q s l xs \<Longrightarrow> find l e s = Inr (e \<in> set xs)"
begin

text \<open>Filling an empty list and draining it gives the elements back in order.\<close>

fun append_all :: "addr \<Rightarrow> addr list \<Rightarrow> 's \<Rightarrow> 's" where
  "append_all l [] s = s"
| "append_all l (x # xs) s = append_all l xs (append l x s)"

fun drain :: "addr \<Rightarrow> nat \<Rightarrow> 's \<Rightarrow> addr list \<times> 's" where
  "drain l 0 s = ([], s)"
| "drain l (Suc n) s =
     (let (x, s) = pop l s; (xs, s) = drain l n s in (x # xs, s))"

lemma append_all_Q:
  "Q s l xs \<Longrightarrow> distinct ys \<Longrightarrow> set ys \<inter> foot l xs = {} \<Longrightarrow> Q (append_all l ys s) l (xs @ ys)"
proof (induction ys arbitrary: s xs)
  case (Cons y ys)
  have "Q (append l y s) l (xs @ [y])" using Cons.prems by (intro append_Q) auto
  from Cons.IH [OF this] Cons.prems show ?case by auto
qed simp

lemma drain_Q:
  "Q s l (xs @ ys) \<Longrightarrow> fst (drain l (length xs) s) = xs \<and> Q (snd (drain l (length xs) s)) l ys"
proof (induction xs arbitrary: s)
  case (Cons x xs)
  from Cons.prems have Q: "Q s l (x # (xs @ ys))" by simp
  from Cons.IH [OF pop_Q [OF Q]] pop_fst [OF Q] show ?case
    by (simp add: case_prod_beta Let_def)
qed simp

lemma fifo:
  assumes "distinct xs" and "set xs \<inter> foot l [] = {}"
  shows "fst (drain l (length xs) (append_all l xs (init l s))) = xs"
  using drain_Q [of "append_all l xs (init l s)" l xs "[]"] append_all_Q [OF init_Q assms]
  by simp

text \<open>Rotation: what a time slice does to the ready queue.\<close>

lemma rotate_Q:
  assumes "Q s l (x # xs)" and "e \<notin> foot l (x # xs)"
  shows "fst (pop l (append l e s)) = x" and "Q (snd (pop l (append l e s))) l (xs @ [e])"
proof -
  have "Q (append l e s) l (x # (xs @ [e]))" using append_Q [OF assms] by simp
  then show "fst (pop l (append l e s)) = x" and "Q (snd (pop l (append l e s))) l (xs @ [e])"
    by (rule pop_fst, rule pop_Q)
qed

end

interpretation dl: intrusive_queue dlist list_init list_append list_push list_pop list_remove
  list_empty elem_find
proof unfold_locales
  show "dlist s l xs \<Longrightarrow> distinct xs" for s :: "'a nodes_scheme" and l xs
    by (simp add: dlist_def ring_def)
qed (auto simp: dlist_empty dlist_append(1) dlist_push(1) dlist_pop(1,2) dlist_remove(1)
      dlist_is_empty dlist_find
      dlist_agree [OF list_init_agree] dlist_agree [OF dlist_append(2)]
      dlist_agree [OF dlist_push(2)] dlist_agree [OF dlist_pop(3)] dlist_agree [OF dlist_remove(2)])

section \<open>Properties\<close>

text \<open>Popping \<open>n\<close> times.\<close>

primrec pop_all :: "addr \<Rightarrow> nat \<Rightarrow> 'a nodes_scheme \<Rightarrow> addr list" where
  "pop_all l 0 s = []"
| "pop_all l (Suc n) s = fst (list_pop l s) # pop_all l n (snd (list_pop l s))"

lemma pop_all_drain: "pop_all l n s = fst (dl.drain l n s)"
  by (induction n arbitrary: s) (simp_all add: case_prod_beta Let_def)

lemma fold_append_all: "fold (list_append l) xs s = dl.append_all l xs s"
  by (induction xs arbitrary: s) simp_all

text \<open>The list is a first-in first-out queue: elements appended one after the other to a fresh list
  are popped in the same order.\<close>

theorem list_fifo:
  assumes "distinct xs" and "set xs \<inter> foot l [] = {}"
  shows "pop_all l (length xs) (fold (list_append l) xs (list_init l s)) = xs"
  unfolding pop_all_drain fold_append_all by (rule dl.fifo [OF assms])

theorem list_fifo_witness:
  "pop_all 0x100 (Suc (Suc 0)) (fold (list_append 0x100) [0x300, 0x200] (list_init 0x100 \<lparr>eflags = 0, prev = (\<lambda>_. 0), nxt = (\<lambda>_. 0)\<rparr>))
   = [0x300, 0x200]"
  using list_fifo [of "[0x300, 0x200]" "0x100" "\<lparr>eflags = 0, prev = (\<lambda>_. 0), nxt = (\<lambda>_. 0)\<rparr>"]
  by (simp add: head_of_def tail_of_def)

text \<open>C34 The pointer surgery implements lists: on a well-formed list, appending and pushing a new node,
  removing a node, searching, counting and testing for emptiness do what the operations on the
  sequence of its elements do, and a list with other nodes is not affected.\<close>

theorem list_ops_refine:
  assumes "dlist s l (as @ bs)" and "e \<notin> foot l (as @ bs)"
  shows "dlist (list_append l e s) l ((as @ bs) @ [e]) \<and> dlist (list_push l e s) l (e # as @ bs) \<and>
    (\<forall>x xs. bs = x # xs \<longrightarrow> dlist (list_remove x s) l (as @ xs)) \<and>
    (\<forall>x. elem_find l x s = Inr (x \<in> set (as @ bs))) \<and>
    list_len l s = Inr (of_nat (length (as @ bs))) \<and> (list_empty l s \<longleftrightarrow> as @ bs = []) \<and>
    (\<forall>k ys. dlist s k ys \<longrightarrow> foot k ys \<inter> insert e (foot l (as @ bs)) = {} \<longrightarrow>
       dlist (list_append l e s) k ys \<and> dlist (list_push l e s) k ys \<and>
       (\<forall>x xs. bs = x # xs \<longrightarrow> dlist (list_remove x s) k ys))"
proof (intro conjI allI impI)
  show "dlist (list_append l e s) l ((as @ bs) @ [e])" "dlist (list_push l e s) l (e # as @ bs)"
    by (rule dl.append_Q [OF assms], rule dl.push_Q [OF assms])
  show "elem_find l x s = Inr (x \<in> set (as @ bs))" for x by (rule dl.find_eq [OF assms(1)])
  show "list_len l s = Inr (of_nat (length (as @ bs)))" by (rule dlist_len [OF assms(1)])
  show "list_empty l s \<longleftrightarrow> as @ bs = []" by (rule dl.empty_iff [OF assms(1)])
  show "dlist (list_remove x s) l (as @ xs)" if "bs = x # xs" for x xs
    using dl.remove_Q assms(1) that by blast
  fix k ys assume k: "dlist s k ys" "foot k ys \<inter> insert e (foot l (as @ bs)) = {}"
  show "dlist (list_append l e s) k ys" "dlist (list_push l e s) k ys"
    by (rule dl.append_frame [OF assms k], rule dl.push_frame [OF assms k])
  show "dlist (list_remove x s) k ys" if "bs = x # xs" for x xs
    using dl.remove_frame [of s l as x xs k ys] assms(1) k that by auto
qed

theorem list_ops_refine_witness:
  "dlist (list_append 0x100 0x200 (list_init 0x100 \<lparr>eflags = 0, prev = (\<lambda>_. 0), nxt = (\<lambda>_. 0)\<rparr>)) 0x100 [0x200]"
  using list_ops_refine [of "list_init 0x100 \<lparr>eflags = 0, prev = (\<lambda>_. 0), nxt = (\<lambda>_. 0)\<rparr>" "0x100" "[]" "[]" "0x200"]
    dlist_empty [of "0x100" "\<lparr>eflags = 0, prev = (\<lambda>_. 0), nxt = (\<lambda>_. 0)\<rparr>"]
  by (simp add: head_of_def tail_of_def)

text \<open>A traversal of a well-formed list with a callback that only looks returns the first element
  that the callback accepts, or NULL, and leaves the state alone.\<close>

theorem list_traversal_finds:
  assumes "dlist s l xs"
  shows "list_traversal l (\<lambda>e s. (f e, s)) s = Inr (case List.find f xs of None \<Rightarrow> NULL | Some e \<Rightarrow> e, s)"
  by (rule dlist_traversal [OF assms])

theorem list_traversal_finds_witness:
  "list_traversal 0x100 (\<lambda>e s. (True, s)) (list_init 0x100 \<lparr>eflags = 0, prev = (\<lambda>_. 0), nxt = (\<lambda>_. 0)\<rparr>) =
   Inr (NULL, list_init 0x100 \<lparr>eflags = 0, prev = (\<lambda>_. 0), nxt = (\<lambda>_. 0)\<rparr>)"
  using list_traversal_finds [OF dlist_empty, where f = "\<lambda>_. True"] by simp

end
