(* ===== verification/Paging.thy ===== *)
theory Paging
  imports DList
begin

unbundle bit_operations_syntax

text \<open>
  Two-level x86 paging and the recursive mapping by which \<^verbatim>\<open>kernel/memory.c\<close> reads and writes its
  own page tables: the last entry of a page directory points at the directory itself, so
  \<open>pte_ptr\<close> and \<open>pde_ptr\<close> name entries by virtual addresses at the top of the address space.
  The state has the physical memory (32-bit words by their physical address), the register
  \<open>cr3\<close>, and the bytes of the kernel's own data (bitmaps and buffers).
\<close>

section \<open>The machine\<close>

record hw = nodes +
  phys :: "u32 \<Rightarrow> u32"
  cr3 :: u32
  bytes :: mem

abbreviation PG_P_1 :: u32 where "PG_P_1 \<equiv> 1"
abbreviation PG_RW_W :: u32 where "PG_RW_W \<equiv> 2"
abbreviation PG_US_U :: u32 where "PG_US_U \<equiv> 4"

definition PDE_IDX :: "u32 \<Rightarrow> u32" where
  "PDE_IDX a = drop_bit 22 (a AND 0xffc00000)"

definition PTE_IDX :: "u32 \<Rightarrow> u32" where
  "PTE_IDX a = drop_bit 12 (a AND 0x003ff000)"

text \<open>
  The address translation of the processor: the directory entry of the top ten bits, the table
  entry of the middle ten, and the offset. \<open>None\<close> is a page fault.
\<close>

definition frame_of :: "u32 \<Rightarrow> u32" where
  "frame_of entry = entry AND 0xfffff000"

definition present :: "u32 \<Rightarrow> bool" where
  "present entry \<longleftrightarrow> entry AND 1 \<noteq> 0"

definition mmu :: "'a hw_scheme \<Rightarrow> u32 \<Rightarrow> u32 option" where
  "mmu s v =
     (let pde = phys s (cr3 s + PDE_IDX v * 4)
      in if \<not> present pde then None
         else let pte = phys s (frame_of pde + PTE_IDX v * 4)
              in if \<not> present pte then None else Some (frame_of pte + (v AND 0xfff)))"

text \<open>Reading and writing a 32-bit word through a pointer.\<close>

definition load :: "'a hw_scheme \<Rightarrow> addr \<Rightarrow> u32 res" where
  "load s v = (case mmu s v of None \<Rightarrow> Inl PageFault | Some p \<Rightarrow> Inr (phys s p))"

definition store :: "addr \<Rightarrow> u32 \<Rightarrow> 'a hw_scheme \<Rightarrow> 'a hw_scheme res" where
  "store v x s = (case mmu s v of None \<Rightarrow> Inl PageFault | Some p \<Rightarrow> Inr (s\<lparr>phys := (phys s)(p := x)\<rparr>))"

section \<open>The code\<close>

definition pte_ptr :: "u32 \<Rightarrow> addr" where
  "pte_ptr vaddr = 0xffc00000 + drop_bit 10 (vaddr AND 0xffc00000) + PTE_IDX vaddr * 4"

definition pde_ptr :: "u32 \<Rightarrow> addr" where
  "pde_ptr vaddr = 0xfffff000 + PDE_IDX vaddr * 4"

definition addr_v2p :: "u32 \<Rightarrow> 'a hw_scheme \<Rightarrow> u32 res" where
  "addr_v2p vaddr s =
     bindr (load s (pte_ptr vaddr)) (\<lambda>pte. Inr ((pte AND 0xfffff000) + (vaddr AND 0x00000fff)))"

text \<open>\<open>invlpg\<close> drops a cached translation; the model has no cache.\<close>

definition page_table_pte_remove :: "u32 \<Rightarrow> 'a hw_scheme \<Rightarrow> 'a hw_scheme res" where
  "page_table_pte_remove vaddr s =
     bindr (load s (pte_ptr vaddr)) (\<lambda>pte. store (pte_ptr vaddr) (pte AND NOT PG_P_1) s)"

section \<open>Splitting an address\<close>

lemma mask10_shift: "(0xffc00000 :: u32) = push_bit 22 (mask 10)" "(0x003ff000 :: u32) = push_bit 12 (mask 10)"
    "(0xfff :: u32) = mask 12" "(0xfffff000 :: u32) = push_bit 12 (mask 20)"
  by (simp_all add: mask_eq_exp_minus_1)

lemma PDE_IDX_eq: "PDE_IDX v = drop_bit 22 v"
  unfolding PDE_IDX_def mask10_shift
  by (rule bit_word_eqI) (auto simp: bit_simps dest: bit_imp_le_length)

lemma PTE_IDX_eq: "PTE_IDX v = take_bit 10 (drop_bit 12 v)"
  unfolding PTE_IDX_def mask10_shift
  by (rule bit_word_eqI) (auto simp: bit_simps)

lemma off_eq: "v AND 0xfff = take_bit 12 (v :: u32)"
  unfolding mask10_shift by (simp add: take_bit_eq_mask)

lemma unat_PDE_IDX: "unat (PDE_IDX v) = unat v div 4194304"
  by (simp add: PDE_IDX_eq drop_bit_eq_div unat_div)

lemma unat_PTE_IDX: "unat (PTE_IDX v) = unat v div 4096 mod 1024"
  by (simp add: PTE_IDX_eq drop_bit_eq_div take_bit_eq_mod unat_div unat_mod)

lemma unat_off: "unat (v AND 0xfff) = unat (v :: u32) mod 4096"
  by (simp add: off_eq take_bit_eq_mod unat_mod)

lemma unat_frame_of: "unat (frame_of v) = unat v div 4096 * 4096"
proof -
  have "frame_of v = push_bit 12 (drop_bit 12 v)"
    unfolding frame_of_def mask10_shift
    by (rule bit_word_eqI) (auto simp: bit_simps dest: bit_imp_le_length)
  moreover have "unat (push_bit 12 (drop_bit 12 v)) = unat v div 4096 * 4096"
  proof -
    have "unat v div 4096 * 4096 < 4294967296"
      using unat_u32_bound [of v] div_times_less_eq_dividend [of "unat v" 4096] by linarith
    then show ?thesis
      by (simp add: push_bit_eq_mult drop_bit_eq_div unat_word_ariths unat_div)
  qed
  ultimately show ?thesis by simp
qed

lemma slot_arith:
  fixes d t :: nat
  assumes "t < 1024"
  shows "(4290772992 + d * 4096 + t * 4) div 4096 = 1047552 + d"
    and "(4294963200 + t * 4) div 4096 = 1048575"
    and "(4290772992 + d * 4096 + t * 4) mod 4096 = t * 4"
    and "(4294963200 + t * 4) mod 4096 = t * 4"
proof -
  show d1: "(4290772992 + d * 4096 + t * 4) div 4096 = 1047552 + d" using assms by linarith
  show d2: "(4294963200 + t * 4) div 4096 = 1048575" using assms by linarith
  show "(4290772992 + d * 4096 + t * 4) mod 4096 = t * 4"
    using d1 div_mult_mod_eq [of "4290772992 + d * 4096 + t * 4" 4096] by linarith
  show "(4294963200 + t * 4) mod 4096 = t * 4"
    using d2 div_mult_mod_eq [of "4294963200 + t * 4" 4096] by linarith
qed

lemma pte_ptr_split:
  "PDE_IDX (pte_ptr v) = 1023" "PTE_IDX (pte_ptr v) = PDE_IDX v"
  "pte_ptr v AND 0xfff = PTE_IDX v * 4"
proof -
  let ?d = "unat v div 4194304" and ?t = "unat v div 4096 mod 1024"
  have d: "?d < 1024" using unat_u32_bound [of v] by (simp add: less_mult_imp_div_less)
  have "drop_bit 10 (v AND 0xffc00000) = PDE_IDX v * 4096"
    unfolding PDE_IDX_eq mask10_shift
    by (subst push_bit_eq_mult [symmetric, where n = 12, simplified], rule bit_word_eqI)
      (auto simp: bit_simps dest: bit_imp_le_length)
  then have eq: "pte_ptr v = 0xffc00000 + PDE_IDX v * 4096 + PTE_IDX v * 4"
    by (simp add: pte_ptr_def)
  have "unat (PDE_IDX v * 4096) = ?d * 4096" "unat (PTE_IDX v * 4) = ?t * 4"
    using d by (simp_all add: unat_word_ariths unat_PDE_IDX unat_PTE_IDX)
  then have u: "unat (pte_ptr v) = 4290772992 + ?d * 4096 + ?t * 4"
    using d unfolding eq by (simp add: unat_word_ariths)
  have t: "?t < 1024" by simp
  have "unat (PDE_IDX (pte_ptr v)) = unat (1023 :: u32)"
    using d t by (simp add: unat_PDE_IDX u) 
  then show "PDE_IDX (pte_ptr v) = 1023" by (simp only: word_unat_eq_iff)
  have "unat (PTE_IDX (pte_ptr v)) = unat (PDE_IDX v)"
    using d t by (simp add: unat_PDE_IDX unat_PTE_IDX u slot_arith(1) [OF t] mod_add_eq [symmetric])
  then show "PTE_IDX (pte_ptr v) = PDE_IDX v" by (simp only: word_unat_eq_iff)
  have "unat (pte_ptr v AND 0xfff) = unat (PTE_IDX v * 4)"
    using d t by (simp add: unat_off u unat_word_ariths unat_PTE_IDX slot_arith(3) [OF t])
  then show "pte_ptr v AND 0xfff = PTE_IDX v * 4" by (simp only: word_unat_eq_iff)
qed

lemma pde_ptr_split:
  "PDE_IDX (pde_ptr v) = 1023" "PTE_IDX (pde_ptr v) = 1023"
  "pde_ptr v AND 0xfff = PDE_IDX v * 4"
proof -
  let ?d = "unat v div 4194304"
  have d: "?d < 1024" using unat_u32_bound [of v] by (simp add: less_mult_imp_div_less)
  have "unat (PDE_IDX v * 4) = ?d * 4"
    using d by (simp add: unat_word_ariths unat_PDE_IDX)
  then have u: "unat (pde_ptr v) = 4294963200 + ?d * 4"
    using d unfolding pde_ptr_def by (simp add: unat_word_ariths)
  have "unat (PDE_IDX (pde_ptr v)) = unat (1023 :: u32)"
    using d by (simp add: unat_PDE_IDX u)
  then show "PDE_IDX (pde_ptr v) = 1023" by (simp only: word_unat_eq_iff)
  have "unat (PTE_IDX (pde_ptr v)) = unat (1023 :: u32)"
    using d by (simp add: unat_PTE_IDX u slot_arith(2) [OF d])
  then show "PTE_IDX (pde_ptr v) = 1023" by (simp only: word_unat_eq_iff)
  have "unat (pde_ptr v AND 0xfff) = unat (PDE_IDX v * 4)"
    using d by (simp add: unat_off u unat_word_ariths unat_PDE_IDX slot_arith(4) [OF d])
  then show "pde_ptr v AND 0xfff = PDE_IDX v * 4" by (simp only: word_unat_eq_iff)
qed

section \<open>The recursive mapping\<close>

text \<open>The entries that the processor uses for \<open>v\<close>, and the condition on the last directory entry.\<close>

definition pde_slot :: "'a hw_scheme \<Rightarrow> u32 \<Rightarrow> u32" where
  "pde_slot s v = cr3 s + PDE_IDX v * 4"

definition pte_slot :: "'a hw_scheme \<Rightarrow> u32 \<Rightarrow> u32" where
  "pte_slot s v = frame_of (phys s (pde_slot s v)) + PTE_IDX v * 4"

definition self_mapped :: "'a hw_scheme \<Rightarrow> bool" where
  "self_mapped s \<longleftrightarrow> present (phys s (cr3 s + 4092)) \<and> frame_of (phys s (cr3 s + 4092)) = cr3 s"

lemma mmu_pde_ptr: "self_mapped s \<Longrightarrow> mmu s (pde_ptr v) = Some (pde_slot s v)"
  by (simp add: mmu_def self_mapped_def pde_ptr_split pde_slot_def)

lemma mmu_pte_ptr:
  "self_mapped s \<Longrightarrow>
   mmu s (pte_ptr v) = (if present (phys s (pde_slot s v)) then Some (pte_slot s v) else None)"
  by (simp add: mmu_def self_mapped_def pte_ptr_split pde_slot_def pte_slot_def)

lemma mmu_slots: "mmu s v =
    (if present (phys s (pde_slot s v)) \<and> present (phys s (pte_slot s v))
     then Some (frame_of (phys s (pte_slot s v)) + (v AND 0xfff)) else None)"
  by (simp add: mmu_def pde_slot_def pte_slot_def Let_def)

lemma load_pte: "self_mapped s \<Longrightarrow> load s (pte_ptr v) =
    (if present (phys s (pde_slot s v)) then Inr (phys s (pte_slot s v)) else Inl PageFault)"
  by (simp add: load_def mmu_pte_ptr)

lemma load_pde: "self_mapped s \<Longrightarrow> load s (pde_ptr v) = Inr (phys s (pde_slot s v))"
  by (simp add: load_def mmu_pde_ptr)

lemma addr_v2p_cong: "phys t = phys s \<Longrightarrow> cr3 t = cr3 s \<Longrightarrow> addr_v2p v t = addr_v2p v s"
  by (simp add: addr_v2p_def load_def mmu_def Let_def)

lemma addr_v2p_mmu:
  assumes "self_mapped s" and "mmu s v = Some p"
  shows "addr_v2p v s = Inr p"
  using assms by (auto simp: addr_v2p_def load_pte mmu_slots frame_of_def split: if_splits)

text \<open>
  The entries of other pages are not the entry of \<open>v\<close>, as long as tables are page-aligned and
  distinct from one another and from the directory.
\<close>

lemma frame_of_idem [simp]: "frame_of (frame_of x) = frame_of x"
  by (simp add: word_unat_eq_iff unat_frame_of)

lemma slot_unat:
  assumes "frame_of f = f" and "i < 1024"
  shows "unat (f + of_nat i * 4) = unat f + i * 4"
proof -
  have f: "unat f = unat f div 4096 * 4096" using assms(1) unat_frame_of [of f] by simp
  have "unat f div 4096 < 1048576" using unat_u32_bound [of f] by (simp add: less_mult_imp_div_less)
  then have "unat f + i * 4 < 4294967296" using f assms(2) by linarith
  then show ?thesis using assms(2) by (simp add: unat_word_ariths)
qed

lemma slot_frame:
  assumes "frame_of f = f" and "i < 1024"
  shows "frame_of (f + of_nat i * 4) = f"
proof -
  have f: "unat f = unat f div 4096 * 4096" using assms(1) unat_frame_of [of f] by simp
  have "(unat f + i * 4) div 4096 = unat f div 4096" using f assms(2) by linarith
  then have "unat (frame_of (f + of_nat i * 4)) = unat f"
    using f by (simp add: unat_frame_of slot_unat [OF assms])
  then show ?thesis by (simp only: word_unat_eq_iff)
qed

lemma PDE_IDX_of_nat: obtains i where "i < 1024" "PDE_IDX v = of_nat i"
proof
  show "unat (PDE_IDX v) < 1024"
    using unat_u32_bound [of v] by (simp add: unat_PDE_IDX less_mult_imp_div_less)
qed simp

lemma PTE_IDX_of_nat: obtains i where "i < 1024" "PTE_IDX v = of_nat i"
proof
  show "unat (PTE_IDX v) < 1024" by (simp add: unat_PTE_IDX)
qed simp

lemma frame_pde_slot: "frame_of (cr3 s) = cr3 s \<Longrightarrow> frame_of (pde_slot s v) = cr3 s"
  by (metis PDE_IDX_of_nat slot_frame pde_slot_def)

lemma frame_pte_slot: "frame_of (pte_slot s v) = frame_of (phys s (pde_slot s v))"
  by (metis PTE_IDX_of_nat slot_frame pte_slot_def frame_of_idem)

section \<open>Properties\<close>

text \<open>The recursive mapping: with the last directory entry pointing at the directory, \<open>pde_ptr\<close> and
  \<open>pte_ptr\<close> give virtual addresses at which the processor finds exactly the directory entry and the
  table entry that it uses to translate the address (a table entry only where there is a table).\<close>

theorem table_pointers:
  assumes "self_mapped s"
  shows "mmu s (pde_ptr v) = Some (pde_slot s v) \<and>
    mmu s (pte_ptr v) = (if present (phys s (pde_slot s v)) then Some (pte_slot s v) else None) \<and>
    mmu s v = (if present (phys s (pde_slot s v)) \<and> present (phys s (pte_slot s v))
               then Some (frame_of (phys s (pte_slot s v)) + (v AND 0xfff)) else None)"
  using mmu_pde_ptr [OF assms] mmu_pte_ptr [OF assms] mmu_slots [of s v] by blast

text \<open>C36 \<open>addr_v2p\<close> computes the translation of the processor for every mapped address.\<close>

theorem addr_v2p_translates:
  assumes "self_mapped s" and "mmu s v = Some p"
  shows "addr_v2p v s = Inr p"
  by (rule addr_v2p_mmu [OF assms])

text \<open>A small machine: the directory at 0x100000 maps itself and, through a table at 0x101000, the page
  at 0xc0000000 to the frame 0x5000.\<close>

definition small_hw :: hw where
  "small_hw = \<lparr>eflags = 0, prev = (\<lambda>_. 0), nxt = (\<lambda>_. 0),
     phys = (\<lambda>_. 0)(0x100ffc := 0x100007, 0x100c00 := 0x101007, 0x101000 := 0x5007),
     cr3 = 0x100000, bytes = (\<lambda>_. 0)\<rparr>"

lemma small_self_mapped: "self_mapped small_hw"
  by (simp add: self_mapped_def small_hw_def present_def frame_of_def)

theorem table_pointers_witness: "mmu small_hw (pde_ptr 0xc0000010) = Some 0x100c00"
  using table_pointers [OF small_self_mapped, of "0xc0000010"]
  by (simp add: pde_slot_def PDE_IDX_def small_hw_def)

theorem addr_v2p_translates_witness: "addr_v2p 0xc0000010 small_hw = Inr 0x5010"
  by (rule addr_v2p_translates [OF small_self_mapped])
    (simp add: mmu_def PDE_IDX_def PTE_IDX_def small_hw_def present_def frame_of_def Let_def)

end
