(* ===== verification/CString.thy ===== *)
theory CString
  imports Prelude
begin

unbundle bit_operations_syntax

text \<open>
  \<^verbatim>\<open>lib/string.c\<close>: the memory and string routines, over the byte memory \<open>mem\<close>. A pointer
  argument is an address, a mutating routine returns the new memory, and a scan for the
  terminating 0 is a partial function, since on a memory without a 0 byte it never ends.
  \<open>char\<close> is signed on the target, so comparisons of characters are on \<open>sint\<close>.
\<close>

section \<open>Byte ranges: memset, memcpy, memcmp\<close>

primrec memset_loop :: "mem \<Rightarrow> addr \<Rightarrow> u8 \<Rightarrow> nat \<Rightarrow> mem" where
  "memset_loop m dst v 0 = m"
| "memset_loop m dst v (Suc n) = memset_loop (m(dst := v)) (dst + 1) v n"

definition memset :: "mem \<Rightarrow> addr \<Rightarrow> u8 \<Rightarrow> u32 \<Rightarrow> mem res" where
  "memset m dst v cnt = bindr (ASSERT (dst \<noteq> NULL)) (\<lambda>_. Inr (memset_loop m dst v (unat cnt)))"

primrec memcpy_loop :: "mem \<Rightarrow> addr \<Rightarrow> addr \<Rightarrow> nat \<Rightarrow> mem" where
  "memcpy_loop m dst src 0 = m"
| "memcpy_loop m dst src (Suc n) = memcpy_loop (m(dst := m src)) (dst + 1) (src + 1) n"

definition memcpy :: "mem \<Rightarrow> addr \<Rightarrow> addr \<Rightarrow> u32 \<Rightarrow> mem res" where
  "memcpy m dst src cnt =
     bindr (ASSERT (dst \<noteq> NULL \<and> src \<noteq> NULL)) (\<lambda>_. Inr (memcpy_loop m dst src (unat cnt)))"

primrec memcmp_loop :: "mem \<Rightarrow> addr \<Rightarrow> addr \<Rightarrow> nat \<Rightarrow> int" where
  "memcmp_loop m a b 0 = 0"
| "memcmp_loop m a b (Suc n) =
     (if m a \<noteq> m b then (if sint (m a) > sint (m b) then 1 else -1)
      else memcmp_loop m (a + 1) (b + 1) n)"

definition memcmp :: "mem \<Rightarrow> addr \<Rightarrow> addr \<Rightarrow> u32 \<Rightarrow> int res" where
  "memcmp m a b cnt =
     bindr (ASSERT (a \<noteq> NULL \<or> b \<noteq> NULL)) (\<lambda>_. Inr (memcmp_loop m a b (unat cnt)))"

section \<open>NUL-terminated strings\<close>

text \<open>\<open>while(*p++);\<close> \<open>strlen_loop m p n\<close> is the number of bytes before the terminator, plus \<open>n\<close>.\<close>

partial_function (option) strlen_loop :: "mem \<Rightarrow> addr \<Rightarrow> u32 \<Rightarrow> u32 option" where
  "strlen_loop m p n = (if m p = 0 then Some n else strlen_loop m (p + 1) (n + 1))"

definition strlen :: "mem \<Rightarrow> addr \<Rightarrow> u32 res" where
  "strlen m str = bindr (ASSERT (str \<noteq> NULL)) (\<lambda>_. returns (strlen_loop m str 0))"

partial_function (option) strcpy_loop :: "mem \<Rightarrow> addr \<Rightarrow> addr \<Rightarrow> mem option" where
  "strcpy_loop m dst src =
     (if m src = 0 then Some (m(dst := 0))
      else strcpy_loop (m(dst := m src)) (dst + 1) (src + 1))"

definition strcpy :: "mem \<Rightarrow> addr \<Rightarrow> addr \<Rightarrow> (addr \<times> mem) res" where
  "strcpy m dst src =
     bindr (ASSERT (dst \<noteq> NULL \<and> src \<noteq> NULL)) (\<lambda>_.
     bindr (returns (strcpy_loop m dst src)) (\<lambda>m'. Inr (dst, m')))"

text \<open>The result of \<open>strcmp\<close> is an \<open>int8_t\<close>: -1, 0 or 1.\<close>

partial_function (option) strcmp_loop :: "mem \<Rightarrow> addr \<Rightarrow> addr \<Rightarrow> int option" where
  "strcmp_loop m a b =
     (if m a \<noteq> 0 \<and> m a = m b then strcmp_loop m (a + 1) (b + 1)
      else Some (if sint (m a) < sint (m b) then -1 else if sint (m a) > sint (m b) then 1 else 0))"

definition strcmp :: "mem \<Rightarrow> addr \<Rightarrow> addr \<Rightarrow> int res" where
  "strcmp m a b = bindr (ASSERT (a \<noteq> NULL \<and> b \<noteq> NULL)) (\<lambda>_. returns (strcmp_loop m a b))"

text \<open>
  \<open>*str == ch\<close> compares a (signed) \<open>char\<close> with a \<open>uint8_t\<close> after promotion to \<open>int\<close>: a byte of
  128 or more is negative on the left and positive on the right.
\<close>

definition char_is :: "u8 \<Rightarrow> u8 \<Rightarrow> bool" where
  "char_is c ch \<longleftrightarrow> sint c = uint ch"

partial_function (option) strchr_loop :: "mem \<Rightarrow> addr \<Rightarrow> u8 \<Rightarrow> addr option" where
  "strchr_loop m str ch =
     (if m str = 0 then Some NULL else if char_is (m str) ch then Some str
      else strchr_loop m (str + 1) ch)"

definition strchr :: "mem \<Rightarrow> addr \<Rightarrow> u8 \<Rightarrow> addr res" where
  "strchr m str ch = bindr (ASSERT (str \<noteq> NULL)) (\<lambda>_. returns (strchr_loop m str ch))"

partial_function (option) strrchr_loop :: "mem \<Rightarrow> addr \<Rightarrow> u8 \<Rightarrow> addr \<Rightarrow> addr option" where
  "strrchr_loop m str ch last_char =
     (if m str = 0 then Some last_char
      else strrchr_loop m (str + 1) ch (if char_is (m str) ch then str else last_char))"

definition strrchr :: "mem \<Rightarrow> addr \<Rightarrow> u8 \<Rightarrow> addr res" where
  "strrchr m str ch = bindr (ASSERT (str \<noteq> NULL)) (\<lambda>_. returns (strrchr_loop m str ch NULL))"

text \<open>\<open>while(*str++); --str;\<close> leaves \<open>str\<close> at the terminator.\<close>

partial_function (option) str_end :: "mem \<Rightarrow> addr \<Rightarrow> addr option" where
  "str_end m str = (if m str = 0 then Some str else str_end m (str + 1))"

definition strcat :: "mem \<Rightarrow> addr \<Rightarrow> addr \<Rightarrow> (addr \<times> mem) res" where
  "strcat m dst src =
     bindr (ASSERT (dst \<noteq> NULL \<and> src \<noteq> NULL)) (\<lambda>_.
     bindr (returns (str_end m dst)) (\<lambda>str.
     bindr (returns (strcpy_loop m str src)) (\<lambda>m'. Inr (dst, m'))))"

partial_function (option) strchrs_loop :: "mem \<Rightarrow> addr \<Rightarrow> u8 \<Rightarrow> u32 \<Rightarrow> u32 option" where
  "strchrs_loop m p ch ch_cnt =
     (if m p = 0 then Some ch_cnt
      else strchrs_loop m (p + 1) ch (if char_is (m p) ch then ch_cnt + 1 else ch_cnt))"

definition strchrs :: "mem \<Rightarrow> addr \<Rightarrow> u8 \<Rightarrow> u32 res" where
  "strchrs m str ch = bindr (ASSERT (str \<noteq> NULL)) (\<lambda>_. returns (strchrs_loop m str ch 0))"

section \<open>What the byte-range routines do\<close>

lemma memset_loop_apply:
  "n \<le> 4294967296 \<Longrightarrow> memset_loop m d v n a = (if within a d n then v else m a)"
proof (induction n arbitrary: m d)
  case (Suc n)
  then show ?case by (auto simp: within_Suc)
qed simp

lemma memcpy_loop_apply:
  assumes "n \<le> 4294967296" and "\<And>x. within x d n \<Longrightarrow> \<not> within x s n"
  shows "memcpy_loop m d s n a = (if within a d n then m (s + (a - d)) else m a)"
  using assms
proof (induction n arbitrary: m d s)
  case (Suc n)
  have dis: "\<And>x. within x (d + 1) n \<Longrightarrow> \<not> within x (s + 1) n"
    using Suc.prems by (auto simp: within_Suc)
  have IH: "memcpy_loop (m(d := m s)) (d + 1) (s + 1) n a =
      (if within a (d + 1) n then (m(d := m s)) (s + 1 + (a - (d + 1))) else (m(d := m s)) a)"
    using Suc.prems by (intro Suc.IH dis) simp_all
  have src: "within a (d + 1) n \<Longrightarrow> s + (a - d) \<noteq> d"
  proof
    assume a: "within a (d + 1) n" and eq: "s + (a - d) = d"
    have "within d s (Suc n)"
    proof -
      have "within a d (Suc n)" using a Suc.prems by (simp add: within_Suc)
      moreover have "d - s = a - d" using eq by (metis add_diff_cancel_left')
      ultimately show ?thesis by (simp only: within_def)
    qed
    moreover have "within d d (Suc n)" by simp
    ultimately show False using Suc.prems(2) by blast
  qed
  show ?case
    using Suc.prems IH src by (auto simp: within_Suc algebra_simps)
qed simp

lemma memcmp_loop_eq_0: "memcmp_loop m a b n = 0 \<longleftrightarrow> (\<forall>i<n. m (a + of_nat i) = m (b + of_nat i))"
proof (induction n arbitrary: a b)
  case (Suc n)
  show ?case
    by (auto simp: Suc.IH All_less_Suc2 add.assoc)
qed simp

section \<open>What the string routines do\<close>

text \<open>The memory holds the string \<open>xs\<close>, with its terminator, at \<open>p\<close>.\<close>

fun cstr :: "mem \<Rightarrow> addr \<Rightarrow> u8 list \<Rightarrow> bool" where
  "cstr m p [] \<longleftrightarrow> m p = 0"
| "cstr m p (x # xs) \<longleftrightarrow> m p = x \<and> x \<noteq> 0 \<and> cstr m (p + 1) xs"

lemma cstr_unique: "cstr m p xs \<Longrightarrow> cstr m p ys \<Longrightarrow> xs = ys"
proof (induction xs arbitrary: p ys)
  case Nil
  then show ?case by (cases ys) auto
next
  case (Cons x xs)
  then show ?case by (cases ys) auto
qed

lemma cstr_append: "cstr m p (xs @ ys) \<longleftrightarrow>
    (\<forall>x \<in> set xs. x \<noteq> 0) \<and> (\<forall>i<length xs. m (p + of_nat i) = xs ! i) \<and>
    cstr m (p + of_nat (length xs)) ys"
  by (induction xs arbitrary: p) (auto simp: All_less_Suc2 add.assoc)

lemma cstr_cong:
  "(\<And>i. i \<le> length xs \<Longrightarrow> m (p + of_nat i) = m' (p + of_nat i)) \<Longrightarrow> cstr m p xs = cstr m' p xs"
proof (induction xs arbitrary: p)
  case Nil
  from Nil [of 0] show ?case by simp
next
  case (Cons x xs)
  have "m p = m' p" using Cons.prems [of 0] by simp
  moreover have "cstr m (p + 1) xs = cstr m' (p + 1) xs"
    by (rule Cons.IH) (use Cons.prems [of "Suc i" for i] in \<open>simp add: add.assoc\<close>)
  ultimately show ?case by simp
qed

lemma cstr_upd_outside:
  "\<not> within a p (Suc (length xs)) \<Longrightarrow> length xs < 4294967296 \<Longrightarrow>
   cstr (m(a := v)) p xs = cstr m p xs"
  by (intro cstr_cong) (auto simp: within_of_nat)

lemma strlen_loop_cstr: "cstr m p xs \<Longrightarrow> strlen_loop m p n = Some (n + of_nat (length xs))"
proof (induction xs arbitrary: p n)
  case Nil
  then show ?case by (simp add: strlen_loop.simps)
next
  case (Cons x xs)
  have "strlen_loop m p n = strlen_loop m (p + 1) (n + 1)"
    using Cons.prems by (subst strlen_loop.simps) simp
  with Cons show ?case by (simp add: algebra_simps)
qed

lemma str_end_cstr: "cstr m p xs \<Longrightarrow> str_end m p = Some (p + of_nat (length xs))"
proof (induction xs arbitrary: p)
  case Nil
  then show ?case by (simp add: str_end.simps)
next
  case (Cons x xs)
  have "str_end m p = str_end m (p + 1)"
    using Cons.prems by (subst str_end.simps) simp
  with Cons show ?case by (simp add: algebra_simps)
qed

text \<open>Copying a string to a place that it does not overlap.\<close>

definition disjoint_ranges :: "addr \<Rightarrow> nat \<Rightarrow> addr \<Rightarrow> nat \<Rightarrow> bool" where
  "disjoint_ranges d n s k \<longleftrightarrow> (\<forall>i<n. \<not> within (d + of_nat i) s k)"

lemma disjoint_ranges_Suc:
  "disjoint_ranges d (Suc n) s k \<longleftrightarrow> \<not> within d s k \<and> disjoint_ranges (d + 1) n s k"
  by (auto simp: disjoint_ranges_def All_less_Suc2 add.assoc)

lemma disjoint_ranges_src_Suc:
  "k < 4294967296 \<Longrightarrow> disjoint_ranges d n s (Suc k) \<Longrightarrow> disjoint_ranges d n (s + 1) k"
  by (auto simp: disjoint_ranges_def within_Suc)

lemma strcpy_loop_cstr:
  assumes "cstr m s xs" and "length xs < 4294967295"
    and "disjoint_ranges d (Suc (length xs)) s (Suc (length xs))"
  shows "\<exists>m'. strcpy_loop m d s = Some m' \<and> cstr m' d xs \<and>
           (\<forall>a. \<not> within a d (Suc (length xs)) \<longrightarrow> m' a = m a)"
  using assms
proof (induction xs arbitrary: m d s)
  case Nil
  then show ?case by (auto simp: strcpy_loop.simps within_Suc)
next
  case (Cons x xs)
  let ?m = "m(d := x)"
  have out: "\<not> within d s (Suc (Suc (length xs)))"
    and dis0: "disjoint_ranges (d + 1) (Suc (length xs)) s (Suc (Suc (length xs)))"
    using Cons.prems(3) by (simp_all add: disjoint_ranges_Suc [of _ "Suc (length xs)"])
  have dis: "disjoint_ranges (d + 1) (Suc (length xs)) (s + 1) (Suc (length xs))"
    using Cons.prems(2) by (intro disjoint_ranges_src_Suc dis0) simp
  have "\<not> within d (s + 1) (Suc (length xs))"
    using out Cons.prems by (simp add: within_Suc [of "Suc (length xs)"])
  then have c: "cstr ?m (s + 1) xs"
    using Cons.prems by (simp add: cstr_upd_outside)
  have "length xs < 4294967295" using Cons.prems(2) by simp
  then obtain m' where m': "strcpy_loop ?m (d + 1) (s + 1) = Some m'" "cstr m' (d + 1) xs"
      "\<forall>a. \<not> within a (d + 1) (Suc (length xs)) \<longrightarrow> m' a = ?m a"
    using Cons.IH [OF c _ dis] by blast
  have "\<not> within d (d + 1) (Suc (length xs))"
    using Cons.prems by (simp add: within_def unsigned_minus_1_eq_mask mask_eq_exp_minus_1)
  then have "m' d = x" using m'(3) by simp
  moreover have "strcpy_loop m d s = Some m'"
    using Cons.prems m'(1) by (subst strcpy_loop.simps) simp
  ultimately show ?case
    using Cons.prems m' by (auto simp: within_Suc [of "Suc (length xs)"])
qed

lemma cstr_before_end:
  assumes "i < n" and "n + k < 4294967295"
  shows "\<not> within (d + of_nat i) (d + of_nat n) (Suc k)"
proof -
  obtain j where j: "n = i + j" "0 < j" using assms(1) less_imp_add_positive by blast
  have w: "unat (of_nat j :: u32) = j" using assms j by simp
  have "(d + of_nat i) - (d + of_nat n) = 0 - (of_nat j :: u32)" using j by simp
  moreover have "unat (0 - (of_nat j :: u32)) = 4294967296 - j"
    unfolding unat_sub_if' w using j by simp
  ultimately show ?thesis using assms j by (simp only: within_def)
qed

lemma disjoint_rangesI:
  "unat d + n \<le> unat s \<Longrightarrow> unat s + k \<le> 4294967296 \<Longrightarrow> disjoint_ranges d n s k"
  using apart [of d n s k] unat_u32_bound [of s]
  by (auto simp: disjoint_ranges_def within_of_nat)

text \<open>Comparing strings: the order is lexicographic on signed characters, a prefix first.\<close>

fun str_compare :: "u8 list \<Rightarrow> u8 list \<Rightarrow> int" where
  "str_compare [] [] = 0"
| "str_compare [] (y # ys) = (if 0 < sint y then -1 else 1)"
| "str_compare (x # xs) [] = (if sint x < 0 then -1 else 1)"
| "str_compare (x # xs) (y # ys) =
     (if x = y then str_compare xs ys else if sint x < sint y then -1 else 1)"

lemma sint_eq_u8: "sint (x :: u8) = sint y \<longleftrightarrow> x = y"
  by (metis word_eq_iff_signed)

lemma strcmp_loop_cstr:
  "cstr m a xs \<Longrightarrow> cstr m b ys \<Longrightarrow> strcmp_loop m a b = Some (str_compare xs ys)"
proof (induction xs ys arbitrary: a b rule: str_compare.induct)
  case (4 x xs y ys)
  show ?case
  proof (cases "x = y")
    case True
    then have "strcmp_loop m a b = strcmp_loop m (a + 1) (b + 1)"
      using "4.prems" by (subst strcmp_loop.simps) simp
    with True "4" show ?thesis by simp
  next
    case False
    then have "sint x \<noteq> sint y" by (simp add: sint_eq_u8)
    with False "4.prems" show ?thesis by (simp add: strcmp_loop.simps)
  qed
next
  case (2 y ys)
  then have "sint y \<noteq> 0" using sint_eq_u8 [of y 0] by auto
  with "2.prems" show ?case by (auto simp: strcmp_loop.simps)
next
  case (3 x xs)
  then have "sint x \<noteq> 0" using sint_eq_u8 [of x 0] by auto
  with "3.prems" show ?case by (auto simp: strcmp_loop.simps)
qed (simp add: strcmp_loop.simps)

lemma str_compare_0: "str_compare xs ys = 0 \<longleftrightarrow> xs = ys"
  by (induction xs ys rule: str_compare.induct) auto

text \<open>Searching for a character: the first, the last, the number of occurrences.\<close>

lemma strchr_loop_cstr:
  "cstr m p xs \<Longrightarrow> strchr_loop m p ch =
     Some (if \<exists>x \<in> set xs. char_is x ch
           then p + of_nat (length (takeWhile (\<lambda>x. \<not> char_is x ch) xs)) else NULL)"
proof (induction xs arbitrary: p)
  case Nil
  then show ?case by (simp add: strchr_loop.simps)
next
  case (Cons x xs)
  show ?case
  proof (cases "char_is x ch")
    case True
    with Cons.prems show ?thesis by (simp add: strchr_loop.simps)
  next
    case False
    have "strchr_loop m p ch = strchr_loop m (p + 1) ch"
      using Cons.prems False by (subst strchr_loop.simps) simp
    with Cons False show ?thesis by (simp add: algebra_simps)
  qed
qed

fun last_index :: "(u8 \<Rightarrow> bool) \<Rightarrow> u8 list \<Rightarrow> nat \<Rightarrow> nat option \<Rightarrow> nat option" where
  "last_index P [] i r = r"
| "last_index P (x # xs) i r = last_index P xs (Suc i) (if P x then Some i else r)"

lemma last_index_Some:
  "last_index P xs i r = Some j \<Longrightarrow>
     (\<exists>k<length xs. j = i + k \<and> P (xs ! k) \<and> (\<forall>l<length xs. k < l \<longrightarrow> \<not> P (xs ! l))) \<or>
     r = Some j \<and> (\<forall>x \<in> set xs. \<not> P x)"
proof (induction xs arbitrary: i r)
  case (Cons x xs)
  from Cons.IH [of "Suc i" "if P x then Some i else r"] Cons.prems show ?case
    by (auto simp: All_less_Suc2 Ex_less_Suc2 split: if_splits)
qed simp

lemma last_index_None: "last_index P xs i r = None \<longleftrightarrow> r = None \<and> (\<forall>x \<in> set xs. \<not> P x)"
  by (induction xs arbitrary: i r) auto

lemma strrchr_loop_cstr:
  "cstr m (q + of_nat i) xs \<Longrightarrow>
   strrchr_loop m (q + of_nat i) ch (case r of None \<Rightarrow> NULL | Some j \<Rightarrow> q + of_nat j) =
     Some (case last_index (\<lambda>x. char_is x ch) xs i r of None \<Rightarrow> NULL | Some j \<Rightarrow> q + of_nat j)"
proof (induction xs arbitrary: i r)
  case Nil
  then show ?case by (simp add: strrchr_loop.simps)
next
  case (Cons x xs)
  have next1: "q + of_nat i + 1 = q + of_nat (Suc i)" by simp
  from Cons.IH [of "Suc i" "if char_is x ch then Some i else r"] Cons.prems show ?case
    by (subst strrchr_loop.simps) (auto simp: next1 algebra_simps)
qed

lemma strchrs_loop_cstr:
  "cstr m p xs \<Longrightarrow>
   strchrs_loop m p ch n = Some (n + of_nat (length (filter (\<lambda>x. char_is x ch) xs)))"
proof (induction xs arbitrary: p n)
  case Nil
  then show ?case by (simp add: strchrs_loop.simps)
next
  case (Cons x xs)
  have "strchrs_loop m p ch n = strchrs_loop m (p + 1) ch (if char_is x ch then n + 1 else n)"
    using Cons.prems by (subst strchrs_loop.simps) simp
  with Cons show ?case by (simp add: algebra_simps)
qed

section \<open>Properties\<close>

text \<open>\<open>memcpy\<close> between ranges that do not overlap returns, the destination then holds the bytes of
  the source, and every other byte is as before.\<close>

theorem memcpy_copies:
  assumes "d \<noteq> NULL" and "s \<noteq> NULL" and "\<And>x. within x d (unat n) \<Longrightarrow> \<not> within x s (unat n)"
  shows "\<exists>m'. memcpy m d s n = Inr m' \<and>
    (\<forall>a. m' a = (if within a d (unat n) then m (s + (a - d)) else m a))"
  using memcpy_loop_apply [of "unat n" d s m] assms unat_u32_bound [of n]
  by (simp add: memcpy_def less_imp_le)

theorem memcpy_copies_witness:
  "\<exists>m'. memcpy ((\<lambda>_. 0)(200 := 7)) 100 200 1 = Inr m' \<and> m' 100 = 7"
proof -
  have "\<not> within x 200 (unat (1 :: u32))" if "within x 100 (unat (1 :: u32))" for x
    using apart [OF _ _ that] by simp
  from memcpy_copies [of 100 200 1 "(\<lambda>_. 0)(200 := 7)", OF _ _ this] show ?thesis by auto
qed

text \<open>\<open>strcpy\<close> of a string to a place that it does not overlap returns the destination, which then
  holds the string with its terminator; nothing outside that range changes.\<close>

theorem strcpy_copies:
  assumes "cstr m s xs" and "length xs < 4294967295" and "d \<noteq> NULL" and "s \<noteq> NULL"
    and "disjoint_ranges d (Suc (length xs)) s (Suc (length xs))"
  shows "\<exists>m'. strcpy m d s = Inr (d, m') \<and> cstr m' d xs \<and>
    (\<forall>a. \<not> within a d (Suc (length xs)) \<longrightarrow> m' a = m a)"
  using strcpy_loop_cstr [OF assms(1,2,5)] assms(3,4) by (auto simp: strcpy_def)

theorem strcpy_copies_witness:
  "\<exists>m'. strcpy ((\<lambda>_. 0)(200 := 97, 201 := 98)) 100 200 = Inr (100, m') \<and> cstr m' 100 [97, 98]"
  using strcpy_copies [of "(\<lambda>_. 0)(200 := 97, 201 := 98)" 200 "[97, 98]" 100]
  by (auto simp: disjoint_rangesI)

text \<open>\<open>strcat\<close> appends: when the source does not overlap the bytes behind the destination string,
  the destination afterwards holds the two strings one after the other.\<close>

theorem strcat_appends:
  assumes "cstr m d xs" and "cstr m s ys" and "length ys < 4294967295" and "length xs + length ys < 4294967295"
    and "d \<noteq> NULL" and "s \<noteq> NULL"
    and "disjoint_ranges (d + of_nat (length xs)) (Suc (length ys)) s (Suc (length ys))"
  shows "\<exists>m'. strcat m d s = Inr (d, m') \<and> cstr m' d (xs @ ys) \<and>
    (\<forall>a. \<not> within a (d + of_nat (length xs)) (Suc (length ys)) \<longrightarrow> m' a = m a)"
proof -
  let ?e = "d + of_nat (length xs)"
  obtain m' where m': "strcpy_loop m ?e s = Some m'" "cstr m' ?e ys"
    "\<forall>a. \<not> within a ?e (Suc (length ys)) \<longrightarrow> m' a = m a"
    using strcpy_loop_cstr [OF assms(2,3,7)] by blast
  have "m' (d + of_nat i) = m (d + of_nat i)" if "i < length xs" for i
    using that assms(4) m'(3) cstr_before_end by blast
  with m'(2) assms(1) have "cstr m' d (xs @ ys)"
    using cstr_append [of m d xs "[]"] cstr_append [of m' d xs ys] by simp
  with m' show ?thesis using str_end_cstr [OF assms(1)] assms(5,6) by (auto simp: strcat_def)
qed

theorem strcat_appends_witness:
  "\<exists>m'. strcat ((\<lambda>_. 0)(100 := 97, 200 := 98)) 100 200 = Inr (100, m') \<and> cstr m' 100 [97, 98]"
  using strcat_appends [of "(\<lambda>_. 0)(100 := 97, 200 := 98)" 100 "[97]" 200 "[98]"]
  by (auto simp: disjoint_rangesI)

text \<open>\<open>strcmp\<close> of two strings returns -1, 0 or 1: the lexicographic order on signed characters with a
  prefix first, and 0 exactly for equal strings.\<close>

theorem strcmp_orders:
  assumes "cstr m a xs" and "cstr m b ys" and "a \<noteq> NULL" and "b \<noteq> NULL"
  shows "strcmp m a b = Inr (str_compare xs ys) \<and> (strcmp m a b = Inr 0 \<longleftrightarrow> xs = ys)"
  using strcmp_loop_cstr [OF assms(1,2)] assms(3,4) str_compare_0 [of xs ys] by (simp add: strcmp_def)

theorem strcmp_orders_witness:
  "strcmp ((\<lambda>_. 0)(100 := 97, 200 := 98)) 100 200 = Inr (-1)"
  using strcmp_orders [of "(\<lambda>_. 0)(100 := 97, 200 := 98)" 100 "[97]" 200 "[98]"] by simp

text \<open>\<open>strrchr\<close> returns the address of the last occurrence of an ASCII character, or NULL when the
  string has none.\<close>

theorem strrchr_last:
  assumes "cstr m p xs" and "p \<noteq> NULL" and "\<And>i. i < length xs \<Longrightarrow> p + of_nat i \<noteq> NULL"
  shows "\<exists>r. strrchr m p ch = Inr r \<and>
    (if r = NULL then \<forall>x\<in>set xs. \<not> char_is x ch
     else \<exists>k<length xs. r = p + of_nat k \<and> char_is (xs ! k) ch \<and>
            (\<forall>j<length xs. k < j \<longrightarrow> \<not> char_is (xs ! j) ch))"
proof -
  let ?P = "\<lambda>x. char_is x ch"
  have run: "strrchr m p ch = Inr (case last_index ?P xs 0 None of None \<Rightarrow> NULL | Some j \<Rightarrow> p + of_nat j)"
    using strrchr_loop_cstr [of m p 0 xs ch None] assms(1,2) by (simp add: strrchr_def)
  show ?thesis
  proof (cases "last_index ?P xs 0 None")
    case None
    with run last_index_None [of ?P xs 0 None] show ?thesis by simp
  next
    case (Some j)
    with last_index_Some [OF Some] assms(3) [of j] run show ?thesis by auto
  qed
qed

theorem strrchr_last_witness:
  "\<exists>r. strrchr ((\<lambda>_. 0)(100 := 47, 101 := 97, 102 := 47)) 100 47 = Inr r \<and> r = 102"
proof -
  let ?m = "(\<lambda>_. 0)(100 := 47, 101 := 97, 102 := 47) :: mem"
  have "100 + of_nat i \<noteq> NULL" if "i < length [47 :: u8, 97, 47]" for i
    using that by (auto simp: less_Suc_eq)
  from strrchr_last [of ?m 100 "[47, 97, 47]" 47, OF _ _ this] show ?thesis
    by (auto simp: char_is_def less_Suc_eq split: if_splits)
qed

end
