(* ===== verification/Bitmap.thy ===== *)
theory Bitmap
  imports CString
begin

unbundle bit_operations_syntax

text \<open>
  \<^verbatim>\<open>lib/kernel/bitmap.c\<close>: the bitmaps that manage physical pages, virtual pages, disk blocks and
  inodes. The record keeps the length in bytes and the address of the bytes; the bytes
  themselves are in memory, so a read or a write past the end reaches whatever lies there.
\<close>

section \<open>The code\<close>

record bitmap =
  btmp_bytes_len :: u32
  bits :: addr

definition bitmap_init :: "mem \<Rightarrow> bitmap \<Rightarrow> mem res" where
  "bitmap_init m btmp = memset m (bits btmp) 0 (btmp_bytes_len btmp)"

definition bitmap_scan_test :: "mem \<Rightarrow> bitmap \<Rightarrow> u32 \<Rightarrow> bool" where
  "bitmap_scan_test m btmp bit_idx =
     (let byte_idx = bit_idx div 8; bit_odd = bit_idx mod 8
      in m (bits btmp + byte_idx) AND push_bit (unat bit_odd) 1 \<noteq> 0)"

text \<open>The first loop of \<open>bitmap_scan\<close>: it reads the byte before it looks at the bound.\<close>

function scan_bytes :: "mem \<Rightarrow> bitmap \<Rightarrow> u32 \<Rightarrow> u32" where
  "scan_bytes m btmp idx_byte =
     (if m (bits btmp + idx_byte) = 0xff \<and> idx_byte < btmp_bytes_len btmp
      then scan_bytes m btmp (idx_byte + 1) else idx_byte)"
  by pat_completeness auto
termination
proof (relation "measure (\<lambda>(m, b, i). unat (btmp_bytes_len b) - unat i)")
  fix m :: mem and b :: bitmap and i :: u32
  assume a: "m (bits b + i) = 0xff \<and> i < btmp_bytes_len b"
  then show "((m, b, i + 1), m, b, i) \<in> measure (\<lambda>(m, b, i). unat (btmp_bytes_len b) - unat i)"
    using unat_inc [of i "btmp_bytes_len b"] by (auto simp: word_less_nat_alt)
qed simp

text \<open>The second loop: the first clear bit of the byte.\<close>

lemma mask_bit_u8: "push_bit n 1 AND (w :: u8) \<noteq> 0 \<longleftrightarrow> bit w n" "w AND push_bit n 1 \<noteq> 0 \<longleftrightarrow> bit w n"
  using and_exp_eq_0_iff_not_bit [of w n] by (simp_all add: and.commute)

lemma bit_u8_less: "bit (w :: u8) n \<Longrightarrow> n < 8"
  using bit_imp_le_length [of w n] by simp

function scan_bits :: "u8 \<Rightarrow> nat \<Rightarrow> nat" where
  "scan_bits byte idx_bit =
     (if push_bit idx_bit 1 AND byte \<noteq> 0 then scan_bits byte (Suc idx_bit) else idx_bit)"
  by pat_completeness auto
termination
  by (relation "measure (\<lambda>(byte, i). 8 - i)") (use bit_u8_less in \<open>fastforce simp only: mask_bit_u8 in_measure case_prod_conv wf_measure\<close>)+

text \<open>The third loop: count clear bits from \<open>next_bit\<close> on, for \<open>bit_left\<close> bits.\<close>

primrec scan_run :: "mem \<Rightarrow> bitmap \<Rightarrow> u32 \<Rightarrow> nat \<Rightarrow> u32 \<Rightarrow> u32 \<Rightarrow> u32" where
  "scan_run m btmp cnt 0 next_bit count = -1"
| "scan_run m btmp cnt (Suc bit_left) next_bit count =
     (let count' = (if \<not> bitmap_scan_test m btmp next_bit then count + 1 else 0)
      in if count' = cnt then next_bit - cnt + 1
         else scan_run m btmp cnt bit_left (next_bit + 1) count')"

definition bitmap_scan :: "mem \<Rightarrow> bitmap \<Rightarrow> u32 \<Rightarrow> u32 res" where
  "bitmap_scan m btmp cnt =
     (let idx_byte = scan_bytes m btmp 0
      in bindr (ASSERT (idx_byte < btmp_bytes_len btmp)) (\<lambda>_.
         if idx_byte = btmp_bytes_len btmp then Inr (-1)
         else let idx_bit = scan_bits (m (bits btmp + idx_byte)) 0;
                  bit_idx_start = idx_byte * 8 + of_nat idx_bit
              in if cnt = 1 then Inr bit_idx_start
                 else Inr (scan_run m btmp cnt (unat (btmp_bytes_len btmp * 8 - bit_idx_start))
                             (bit_idx_start + 1) 1)))"

definition bitmap_set :: "mem \<Rightarrow> bitmap \<Rightarrow> u32 \<Rightarrow> u8 \<Rightarrow> mem res" where
  "bitmap_set m btmp bit_idx v =
     bindr (ASSERT (v = 0 \<or> v = 1)) (\<lambda>_.
     let p = bits btmp + bit_idx div 8; mask = push_bit (unat (bit_idx mod 8)) 1
     in Inr (if v \<noteq> 0 then m(p := m p OR mask) else m(p := m p AND NOT mask)))"

section \<open>The bits\<close>

text \<open>Bit \<open>i\<close> of the bitmap: set means taken.\<close>

definition taken :: "mem \<Rightarrow> bitmap \<Rightarrow> nat \<Rightarrow> bool" where
  "taken m b i \<longleftrightarrow> bit (m (bits b + of_nat (i div 8))) (i mod 8)"

definition nbits :: "bitmap \<Rightarrow> nat" where
  "nbits b = 8 * unat (btmp_bytes_len b)"

text \<open>Bit numbers are non-negative \<open>int\<close>s.\<close>

definition bitmap_ok :: "bitmap \<Rightarrow> bool" where
  "bitmap_ok b \<longleftrightarrow> bits b \<noteq> NULL \<and> nbits b < 2147483648"

lemma unat_div_8 [simp]: "unat ((x :: u32) div 8) = unat x div 8"
  by (simp add: unat_div)

lemma unat_mod_8 [simp]: "unat ((x :: u32) mod 8) = unat x mod 8"
  by (simp add: unat_mod)

lemma of_nat_unat_div_8 [simp]: "(of_nat (unat (x :: u32) div 8) :: u32) = x div 8"
  by (simp add: word_arith_nat_div)

lemma bitmap_scan_test_taken [simp]: "bitmap_scan_test m b i = taken m b (unat i)"
  by (simp add: bitmap_scan_test_def taken_def Let_def and_exp_eq_0_iff_not_bit)

lemma bitmap_set_ok: "v = 0 \<or> v = 1 \<Longrightarrow> \<exists>m'. bitmap_set m b i v = Inr m'"
  by (auto simp: bitmap_set_def Let_def)

lemma bitmap_set_taken:
  assumes "bitmap_set m b i v = Inr m'" and "j < 34359738368"
  shows "taken m' b j \<longleftrightarrow> (if j = unat i then v = 1 else taken m b j)"
proof -
  have v: "v = 0 \<or> v = 1"
    using assms(1) by (auto simp: bitmap_set_def bindr_eq_Inr)
  have same: "bits b + i div 8 = bits b + of_nat (j div 8) \<longleftrightarrow> unat i div 8 = j div 8"
  proof -
    have "of_nat (unat i div 8) = (of_nat (j div 8) :: u32) \<longleftrightarrow> unat i div 8 = j div 8"
      using assms(2) by (intro of_nat_u32_inj) (auto intro: le_less_trans [OF div_le_dividend])
    then show ?thesis by simp
  qed
  have idx: "j = unat i \<longleftrightarrow> j div 8 = unat i div 8 \<and> j mod 8 = unat i mod 8"
    by (metis div_mult_mod_eq)
  show ?thesis
  proof (cases "unat i div 8 = j div 8")
    case True
    with v assms(1) same idx show ?thesis
      by (auto simp: bitmap_set_def taken_def Let_def bit_simps)
  next
    case False
    with assms(1) same idx show ?thesis
      by (auto simp: bitmap_set_def taken_def Let_def bindr_eq_Inr split: if_splits)
  qed
qed

lemma bitmap_set_frame:
  "bitmap_set m b i v = Inr m' \<Longrightarrow> a \<noteq> bits b + i div 8 \<Longrightarrow> m' a = m a"
  by (auto simp: bitmap_set_def Let_def bindr_eq_Inr split: if_splits)

declare scan_bytes.simps [simp del] scan_bits.simps [simp del]

section \<open>The scan\<close>

lemma scan_bytes_le: "i \<le> btmp_bytes_len b \<Longrightarrow> scan_bytes m b i \<le> btmp_bytes_len b"
proof (induction m b i rule: scan_bytes.induct)
  case (1 m b i)
  then show ?case
    by (subst scan_bytes.simps) (auto intro: inc_le)
qed

lemma scan_bytes_full:
  "i \<le> k \<Longrightarrow> k < scan_bytes m b i \<Longrightarrow> m (bits b + k) = 0xff"
proof (induction m b i rule: scan_bytes.induct)
  case (1 m b i)
  show ?case
  proof (cases "m (bits b + i) = 0xff \<and> i < btmp_bytes_len b")
    case True
    with "1.prems" have "k < scan_bytes m b (i + 1)"
      by (subst (asm) scan_bytes.simps) simp
    moreover have "i = k \<or> i + 1 \<le> k" using "1.prems" by (auto intro: inc_le)
    ultimately show ?thesis using True "1.IH" by blast
  next
    case False
    with "1.prems" show ?thesis by (subst (asm) scan_bytes.simps) auto
  qed
qed

lemma scan_bytes_stop:
  "scan_bytes m b i < btmp_bytes_len b \<Longrightarrow> m (bits b + scan_bytes m b i) \<noteq> 0xff"
proof (induction m b i rule: scan_bytes.induct)
  case (1 m b i)
  then show ?case
    by (cases "m (bits b + i) = 0xff \<and> i < btmp_bytes_len b")
      (auto simp: scan_bytes.simps [of m b i])
qed

lemma scan_bits_eq: "scan_bits w i = (if bit w i then scan_bits w (Suc i) else i)"
  by (subst scan_bits.simps) (simp add: mask_bit_u8 del: push_bit_of_1)

lemma scan_bits_spec: "i \<le> scan_bits w i \<and> \<not> bit w (scan_bits w i) \<and>
    (\<forall>k. i \<le> k \<and> k < scan_bits w i \<longrightarrow> bit w k)"
proof (induction w i rule: scan_bits.induct)
  case (1 w i)
  show ?case
  proof (cases "bit w i")
    case True
    with "1.IH" have IH: "Suc i \<le> scan_bits w (Suc i)" "\<not> bit w (scan_bits w (Suc i))"
        "\<And>k. Suc i \<le> k \<Longrightarrow> k < scan_bits w (Suc i) \<Longrightarrow> bit w k"
      by (auto simp: mask_bit_u8 simp del: push_bit_of_1)
    have "bit w k" if "i \<le> k" "k < scan_bits w (Suc i)" for k
      using that True IH(3) by (cases "i = k") auto
    with True IH show ?thesis by (auto simp: scan_bits_eq [of w i])
  next
    case False
    then show ?thesis by (auto simp: scan_bits_eq [of w i])
  qed
qed

lemma u8_full: "(w :: u8) = 0xff \<longleftrightarrow> (\<forall>n<8. bit w n)"
proof -
  have "(0xff :: u8) = -1" by simp
  then have "w = 0xff \<longleftrightarrow> w = -1" by metis
  also have "\<dots> \<longleftrightarrow> (\<forall>n<8. bit w n)"
    by (auto simp: bit_simps intro: bit_word_eqI)
  finally show ?thesis .
qed

lemma taken_split: "k < 8 \<Longrightarrow> taken m b (8 * i + k) = bit (m (bits b + of_nat i)) k"
  by (simp add: taken_def)

definition first_bit :: "mem \<Rightarrow> bitmap \<Rightarrow> nat" where
  "first_bit m b = 8 * unat (scan_bytes m b 0) + scan_bits (m (bits b + scan_bytes m b 0)) 0"

lemma first_bit_free:
  assumes "scan_bytes m b 0 < btmp_bytes_len b"
  shows "\<not> taken m b (first_bit m b)" and "\<And>j. j < first_bit m b \<Longrightarrow> taken m b j"
    and "first_bit m b < nbits b"
proof -
  let ?B = "scan_bytes m b 0" and ?k = "scan_bits (m (bits b + scan_bytes m b 0)) 0"
  have k8: "?k < 8"
    using scan_bytes_stop [OF assms] scan_bits_spec [of 0 "m (bits b + ?B)"]
    by (metis u8_full le0 not_le_imp_less order_less_le_trans)
  have B: "unat ?B < unat (btmp_bytes_len b)"
    using assms by (simp add: word_less_nat_alt)
  show "\<not> taken m b (first_bit m b)"
    using scan_bits_spec [of 0 "m (bits b + ?B)"] k8 by (simp add: first_bit_def taken_split)
  show "first_bit m b < nbits b"
    using k8 B by (simp add: first_bit_def nbits_def)
  show "taken m b j" if "j < first_bit m b" for j
  proof (cases "j div 8 < unat ?B")
    case True
    then have lt: "of_nat (j div 8) < ?B"
      by (simp add: word_less_nat_alt unat_of_nat) 
    with scan_bytes_full [of 0 "of_nat (j div 8)" m b] have "m (bits b + of_nat (j div 8)) = 0xff"
      by simp
    then show ?thesis by (simp add: taken_def u8_full)
  next
    case False
    with that k8 have "j div 8 = unat ?B" and "j mod 8 < ?k"
      using div_mult_mod_eq [of j 8] unfolding first_bit_def by linarith+
    then show ?thesis
      using scan_bits_spec [of 0 "m (bits b + ?B)"] by (simp add: taken_def)
  qed
qed

lemma scan_bytes_len:
  assumes "\<not> scan_bytes m b 0 < btmp_bytes_len b" and "j < nbits b"
  shows "taken m b j"
proof -
  have "j div 8 < unat (btmp_bytes_len b)" using assms(2) by (simp add: nbits_def less_mult_imp_div_less mult.commute)
  then have "unat (of_nat (j div 8) :: u32) < unat (btmp_bytes_len b)"
    using unat_u32_bound [of "btmp_bytes_len b"] by (subst unat_of_nat_u32) linarith+
  then have "of_nat (j div 8) < scan_bytes m b 0"
    using assms(1) by (simp add: word_less_nat_alt word_le_nat_alt not_less)
  then have "m (bits b + of_nat (j div 8)) = 0xff"
    using scan_bytes_full [of 0 "of_nat (j div 8)" m b] by simp
  then show ?thesis by (simp add: taken_def u8_full)
qed

text \<open>\<open>cnt\<close> clear bits in a row.\<close>

definition free_run :: "mem \<Rightarrow> bitmap \<Rightarrow> nat \<Rightarrow> nat \<Rightarrow> bool" where
  "free_run m b s cnt \<longleftrightarrow> (\<forall>j. s \<le> j \<and> j < s + cnt \<longrightarrow> \<not> taken m b j)"

text \<open>
  What \<open>scan_run\<close> finds, from a position \<open>n\<close> with \<open>c\<close> clear bits just before it: the first run
  that ends within the next \<open>l\<close> bits, or -1 when there is none.
\<close>

definition run_result :: "mem \<Rightarrow> bitmap \<Rightarrow> nat \<Rightarrow> nat \<Rightarrow> u32 \<Rightarrow> bool" where
  "run_result m b cnt lim r \<longleftrightarrow>
     (if r = -1 then \<forall>s. s + cnt \<le> lim \<longrightarrow> \<not> free_run m b s cnt
      else free_run m b (unat r) cnt \<and> unat r + cnt \<le> lim \<and>
           (\<forall>s < unat r. \<not> free_run m b s cnt))"

lemma scan_run_spec:
  assumes "c < cnt" and "c \<le> n" and "n + l < 4294967295" and "cnt < 4294967296"
    and "free_run m b (n - c) c" and "c < n \<longrightarrow> taken m b (n - c - 1)"
    and "\<And>s. s + cnt \<le> n \<Longrightarrow> \<not> free_run m b s cnt"
  shows "run_result m b cnt (n + l) (scan_run m b (of_nat cnt) l (of_nat n) (of_nat c))"
  using assms
proof (induction l arbitrary: n c)
  case 0
  then show ?case by (simp add: run_result_def)
next
  case (Suc l)
  let ?c = "if taken m b n then 0 else Suc c"
  have n: "unat (of_nat n :: u32) = n" using Suc.prems by simp
  have step: "scan_run m b (of_nat cnt) (Suc l) (of_nat n) (of_nat c) =
      (if ?c = cnt then of_nat n - of_nat cnt + 1
       else scan_run m b (of_nat cnt) l (of_nat (Suc n)) (of_nat ?c))"
    using Suc.prems of_nat_u32_inj [of "Suc c" cnt] of_nat_u32_inj [of 0 cnt]
    by (simp add: n Let_def add.commute)
  show ?case
  proof (cases "?c = cnt")
    case True
    then have free: "\<not> taken m b n" and cnt: "cnt = Suc c" using Suc.prems by (auto split: if_splits)
    obtain d where n_eq: "n = c + d" using Suc.prems(2) le_Suc_ex by blast
    have r: "scan_run m b (of_nat cnt) (Suc l) (of_nat n) (of_nat c) = of_nat d"
      using step True cnt n_eq by simp
    have "(of_nat d :: u32) \<noteq> -1" and "unat (of_nat d :: u32) = d"
      using Suc.prems(3) n_eq by (simp_all add: of_nat_u32_not_m1)
    moreover have "free_run m b d cnt"
      using Suc.prems(5) free cnt n_eq by (auto simp: free_run_def less_Suc_eq add.commute)
    moreover have "\<not> free_run m b s cnt" if "s < d" for s
      using that cnt n_eq by (intro Suc.prems(7)) simp
    ultimately have "run_result m b cnt (n + Suc l) (of_nat d)"
      using cnt n_eq by (simp add: run_result_def)
    with r show ?thesis by (simp only:)
  next
    case False
    have "run_result m b cnt (Suc n + l) (scan_run m b (of_nat cnt) l (of_nat (Suc n)) (of_nat ?c))"
    proof (rule Suc.IH)
      show "free_run m b (Suc n - ?c) ?c"
        using Suc.prems by (auto simp: free_run_def less_Suc_eq)
      show "\<not> free_run m b s cnt" if "s + cnt \<le> Suc n" for s
      proof (cases "s + cnt \<le> n")
        case True
        then show ?thesis by (rule Suc.prems(7))
      next
        case False
        with that have s: "s + cnt = Suc n" by simp
        show ?thesis
        proof (cases "taken m b n")
          case True
          with s Suc.prems(1) show ?thesis by (auto simp: free_run_def intro!: exI [of _ n])
        next
          case False
          with \<open>?c \<noteq> cnt\<close> Suc.prems s have "taken m b (n - c - 1)" and "s \<le> n - c - 1"
            and "n - c - 1 < s + cnt"
            by auto
          then show ?thesis by (auto simp: free_run_def)
        qed
      qed
    qed (use Suc.prems False in auto)
    with step False show ?thesis by simp
  qed
qed

section \<open>The contract of the scan\<close>

lemma unat_first_bit:
  assumes "bitmap_ok b" and "scan_bytes m b 0 < btmp_bytes_len b"
  shows "scan_bytes m b 0 * 8 + of_nat (scan_bits (m (bits b + scan_bytes m b 0)) 0)
           = of_nat (first_bit m b)"
  by (simp add: first_bit_def mult.commute)

lemma bitmap_scan_unfold:
  assumes "bitmap_ok b"
  shows "bitmap_scan m b cnt =
     (if \<forall>j < nbits b. taken m b j then Inl Panic
      else if cnt = 1 then Inr (of_nat (first_bit m b))
      else Inr (scan_run m b cnt (nbits b - first_bit m b) (of_nat (Suc (first_bit m b))) 1))"
proof (cases "scan_bytes m b 0 < btmp_bytes_len b")
  case True
  note ff = first_bit_free [OF True]
  have nb: "unat (btmp_bytes_len b * 8) = nbits b"
    using assms by (simp add: bitmap_ok_def nbits_def unat_word_ariths)
  have "unat (btmp_bytes_len b * 8 - of_nat (first_bit m b)) = nbits b - first_bit m b"
    using ff(3) assms nb by (simp add: bitmap_ok_def unat_sub_if')
  with True ff show ?thesis
    by (auto simp: bitmap_scan_def Let_def unat_first_bit [OF assms True] add.commute)
next
  case False
  then show ?thesis
    using scan_bytes_len [OF False] by (auto simp: bitmap_scan_def Let_def)
qed

lemma first_bit_least:
  assumes "\<not> (\<forall>j < nbits b. taken m b j)"
  shows "first_bit m b < nbits b" and "\<not> taken m b (first_bit m b)"
    and "\<And>j. j < first_bit m b \<Longrightarrow> taken m b j"
proof -
  have "scan_bytes m b 0 < btmp_bytes_len b"
    using assms scan_bytes_len by blast
  note ff = first_bit_free [OF this]
  show "first_bit m b < nbits b" and "\<not> taken m b (first_bit m b)"
    and "\<And>j. j < first_bit m b \<Longrightarrow> taken m b j"
    using ff by auto
qed

lemma bitmap_scan_one:
  assumes "bitmap_ok b" and "bitmap_scan m b 1 = Inr r"
  shows "unat r < nbits b" and "\<not> taken m b (unat r)" and "\<And>j. j < unat r \<Longrightarrow> taken m b j"
proof -
  have ex: "\<not> (\<forall>j < nbits b. taken m b j)" and r: "r = of_nat (first_bit m b)"
    using assms by (auto simp: bitmap_scan_unfold split: if_splits)
  have "unat r = first_bit m b"
    using first_bit_least(1) [OF ex] assms(1) by (simp add: r bitmap_ok_def)
  then show "unat r < nbits b" and "\<not> taken m b (unat r)" and "\<And>j. j < unat r \<Longrightarrow> taken m b j"
    using first_bit_least [OF ex] by auto
qed

lemma bitmap_scan_many:
  assumes "bitmap_ok b" and "2 \<le> cnt" and "bitmap_scan m b cnt = Inr r"
  shows "run_result m b (unat cnt) (nbits b + 1) r"
proof -
  have c1: "cnt \<noteq> 1" using assms(2) by (auto simp: word_le_nat_alt)
  have cnt2: "2 \<le> unat cnt" using assms(2) by (simp add: word_le_nat_alt)
  have ex: "\<not> (\<forall>j < nbits b. taken m b j)"
    and r: "r = scan_run m b cnt (nbits b - first_bit m b) (of_nat (Suc (first_bit m b))) 1"
    using assms c1 by (auto simp: bitmap_scan_unfold split: if_splits)
  note ff = first_bit_least [OF ex]
  have "run_result m b (unat cnt) (Suc (first_bit m b) + (nbits b - first_bit m b))
      (scan_run m b (of_nat (unat cnt)) (nbits b - first_bit m b) (of_nat (Suc (first_bit m b)))
        (of_nat 1))"
  proof (rule scan_run_spec)
    show "free_run m b (Suc (first_bit m b) - 1) 1"
      using ff(2) by (auto simp: free_run_def less_Suc_eq_le dest: antisym)
    show "\<not> free_run m b s (unat cnt)" if "s + unat cnt \<le> Suc (first_bit m b)" for s
      using that cnt2 ff(3) [of s] by (auto simp: free_run_def intro!: exI [of _ s])
  qed (use ff cnt2 assms(1) in \<open>auto simp: bitmap_ok_def\<close>)
  then show ?thesis using ff(1) r by simp
qed

section \<open>Properties\<close>

text \<open>Allocating one unit: when the bitmap has a clear bit, \<open>bitmap_scan\<close> for one bit returns the
  least clear bit of the bitmap.\<close>

theorem bitmap_scan_first_free:
  assumes "bitmap_ok b" and "\<exists>j<nbits b. \<not> taken m b j"
  shows "\<exists>r. bitmap_scan m b 1 = Inr r \<and> unat r < nbits b \<and> \<not> taken m b (unat r) \<and>
    (\<forall>j<unat r. taken m b j)"
proof -
  obtain r where "bitmap_scan m b 1 = Inr r"
    using assms by (auto simp: bitmap_scan_unfold)
  with bitmap_scan_one [OF assms(1) this] show ?thesis by blast
qed

theorem bitmap_scan_first_free_witness:
  "\<exists>r. bitmap_scan ((\<lambda>_. 0)(100 := 0xff, 101 := 7)) \<lparr>btmp_bytes_len = 2, bits = 100\<rparr> 1 = Inr r \<and> unat r < 16"
proof -
  let ?m = "(\<lambda>_. 0)(100 := 0xff, 101 := 7) :: mem" and ?b = "\<lparr>btmp_bytes_len = 2, bits = 100\<rparr>"
  have "\<not> taken ?m ?b 11" by (simp add: taken_def bit_iff_odd)
  then have "\<exists>j<nbits ?b. \<not> taken ?m ?b j" by (intro exI [of _ 11]) (simp add: nbits_def)
  then show ?thesis
    using bitmap_scan_first_free [of ?b ?m] by (auto simp: bitmap_ok_def nbits_def)
qed

text \<open>C35 A request for a run of two or more bits, when some bit is clear, returns the start of the first
  run of that many clear bits or -1 when there is none; the search takes the bit just behind the end
  of the bitmap into account as well.\<close>

theorem bitmap_scan_first_run:
  assumes "bitmap_ok b" and "2 \<le> cnt" and "\<exists>j<nbits b. \<not> taken m b j"
  shows "\<exists>r. bitmap_scan m b cnt = Inr r \<and>
    (if r = -1 then \<forall>s. s + unat cnt \<le> nbits b + 1 \<longrightarrow> \<not> free_run m b s (unat cnt)
     else free_run m b (unat r) (unat cnt) \<and> unat r + unat cnt \<le> nbits b + 1 \<and>
          (\<forall>s<unat r. \<not> free_run m b s (unat cnt)))"
proof -
  have "\<not> (\<forall>j<nbits b. taken m b j)" using assms(3) by blast
  then obtain r where r: "bitmap_scan m b cnt = Inr r"
    using bitmap_scan_unfold [OF assms(1), of m cnt] by (cases "cnt = 1") auto
  then show ?thesis
    using bitmap_scan_many [OF assms(1,2) r] unfolding run_result_def by blast
qed

theorem bitmap_scan_first_run_witness:
  "\<exists>r. bitmap_scan (\<lambda>_. 0) \<lparr>btmp_bytes_len = 2, bits = 100\<rparr> 3 = Inr r"
proof -
  let ?b = "\<lparr>btmp_bytes_len = 2, bits = 100\<rparr>"
  have "\<exists>j<nbits ?b. \<not> taken (\<lambda>_. 0) ?b j" by (intro exI [of _ 0]) (simp add: nbits_def taken_def)
  then show ?thesis
    using bitmap_scan_first_run [of ?b 3 "\<lambda>_. 0"] by (auto simp: bitmap_ok_def nbits_def)
qed

text \<open>A bitmap with no clear bit makes \<open>bitmap_scan\<close> fail its assertion: the branch that returns -1
  is never reached.\<close>

theorem bitmap_scan_full_panics:
  assumes "bitmap_ok b" and "\<forall>j<nbits b. taken m b j"
  shows "bitmap_scan m b cnt = Inl Panic"
  using assms by (simp add: bitmap_scan_unfold)

theorem bitmap_scan_full_panics_witness:
  "bitmap_scan (\<lambda>_. 0xff) \<lparr>btmp_bytes_len = 1, bits = 100\<rparr> 1 = Inl Panic"
proof (rule bitmap_scan_full_panics)
  have "(0xff :: u8) = -1" by simp
  then show "\<forall>j<nbits \<lparr>btmp_bytes_len = 1, bits = 100\<rparr>. taken (\<lambda>_. 0xff) \<lparr>btmp_bytes_len = 1, bits = 100\<rparr> j"
    by (simp only: taken_def bit_minus_1_iff) simp
qed (simp add: bitmap_ok_def nbits_def)

text \<open>The search for a run runs over the end: in a bitmap of one byte whose only clear bit is the last,
  a request for two bits is answered with bit 7 when the byte behind the bitmap is clear.\<close>

theorem bitmap_scan_overrun:
  "bitmap_scan ((\<lambda>_. 0)(100 := 0x7f)) \<lparr>btmp_bytes_len = 1, bits = 100\<rparr> 2 = Inr 7 \<and>
   nbits \<lparr>btmp_bytes_len = 1, bits = 100\<rparr> < 7 + 2"
proof -
  let ?m = "(\<lambda>_. 0)(100 := 0x7f) :: mem" and ?b = "\<lparr>btmp_bytes_len = 1, bits = 100\<rparr>"
  have b0: "scan_bytes ?m ?b 0 = 0" by (simp add: scan_bytes.simps)
  have "(0x7f :: u8) = mask 7" by (simp add: mask_eq_exp_minus_1)
  then have "bit (0x7f :: u8) j \<longleftrightarrow> j < 7" for j by (simp only: bit_mask_iff) auto
  then have bi: "scan_bits 0x7f 0 = 7"
    using scan_bits_spec [of 0 "0x7f"] by (metis le0 linorder_neqE_nat order_less_irrefl)
  have "scan_run ?m ?b 2 1 8 1 = 7" by (simp add: taken_def bit_iff_odd)
  then show ?thesis by (simp add: bitmap_scan_def b0 bi nbits_def)
qed

text \<open>\<open>bitmap_set\<close> sets exactly one bit to the value, leaves all the others as \<open>bitmap_scan_test\<close>
  reads them, and touches one byte only.\<close>

theorem bitmap_set_test:
  assumes "v = 0 \<or> v = 1"
  shows "\<exists>m'. bitmap_set m b i v = Inr m' \<and>
    (\<forall>j. bitmap_scan_test m' b j = (if j = i then v = 1 else bitmap_scan_test m b j)) \<and>
    (\<forall>a. a \<noteq> bits b + i div 8 \<longrightarrow> m' a = m a)"
proof -
  obtain m' where m': "bitmap_set m b i v = Inr m'" using bitmap_set_ok [OF assms] by blast
  have "taken m' b (unat j) = (if j = i then v = 1 else taken m b (unat j))" for j
    using bitmap_set_taken [OF m', of "unat j"] unat_u32_bound [of j] by (simp add: word_unat_eq_iff)
  with m' bitmap_set_frame [OF m'] show ?thesis by auto
qed

theorem bitmap_set_test_witness:
  "\<exists>m'. bitmap_set (\<lambda>_. 0) \<lparr>btmp_bytes_len = 1, bits = 100\<rparr> 3 1 = Inr m' \<and>
     bitmap_scan_test m' \<lparr>btmp_bytes_len = 1, bits = 100\<rparr> 3"
  using bitmap_set_test [of 1 "\<lambda>_. 0" "\<lparr>btmp_bytes_len = 1, bits = 100\<rparr>" 3]
  by (auto simp del: bitmap_scan_test_taken)

end
