(* ===== verification/Thread.thy ===== *)
theory Thread
  imports Paging Bitmap
begin

unbundle bit_operations_syntax

text \<open>
  \<^verbatim>\<open>thread/thread.c\<close> (the scheduler) and the parts of \<^verbatim>\<open>userprog/process.c\<close> and
  \<^verbatim>\<open>userprog/tss.c\<close> that it calls. The process control blocks are a map from the page they lie in
  to their fields; the queue tags are nodes of the list component at their offsets in the block.
  The running thread is, as in the code, the page of the stack pointer.
  A thread that gives up the processor inside \<open>schedule\<close> later continues after its call of
  \<open>schedule\<close>: what it still has to do is kept as a list of frames, one per function that is in
  the middle of its body.
\<close>

section \<open>Threads\<close>

datatype task_status = TASK_RUNNING | TASK_READY | TASK_BLOCKED | TASK_WAITING | TASK_HANGING | TASK_DIED

record virtual_addr =
  vaddr_bitmap :: bitmap
  vaddr_start :: u32

record task_struct =
  self_kstack :: u32
  status :: task_status
  pid :: u16
  priority :: u8
  tname :: "u8 list"
  ticks :: u8
  elapsed_ticks :: u32
  pgdir :: addr
  stack_magic :: u32
  userprog_vaddr :: virtual_addr
  fd_table :: "u32 list"
  cwd_inode_nr :: u32
  parent_pid :: u16

text \<open>
  What is left of a suspended call: the end of \<open>thread_block\<close> or \<open>thread_yield\<close>, the loop of
  \<open>sema_down\<close>, the second half of \<open>lock_acquire\<close>, the \<open>sema_up\<close> of \<open>lock_release\<close>, the loop of
  \<open>ticks_to_sleep\<close>, the \<open>sti; hlt\<close> of the idle thread, the return from the timer interrupt with the
  saved flags.
\<close>

datatype frame =
    F_set_status intr_status
  | F_sema_down addr intr_status
  | F_lock_acquire addr
  | F_sema_up addr
  | F_ticks_to_sleep u32 u32
  | F_sti_hlt
  | F_iret u32

record sched = hw +
  task :: "addr \<Rightarrow> task_struct"
  kont :: "addr \<Rightarrow> frame list"
  esp :: u32
  thread_ready_list :: addr
  thread_all_list :: addr
  idle_thread :: addr
  thread_tag :: addr
  tss_esp0 :: u32

text \<open>The tags lie at offsets 32 and 40 of the block; \<open>elem2entry\<close> goes back.\<close>

definition general_tag :: "addr \<Rightarrow> addr" where
  "general_tag t = t + 32"

definition all_list_tag :: "addr \<Rightarrow> addr" where
  "all_list_tag t = t + 40"

definition entry_of_tag :: "addr \<Rightarrow> addr" where
  "entry_of_tag e = e - 32"

definition upd_task :: "addr \<Rightarrow> (task_struct \<Rightarrow> task_struct) \<Rightarrow> 'a sched_scheme \<Rightarrow> 'a sched_scheme" where
  "upd_task t f s = s\<lparr>task := (task s)(t := f (task s t))\<rparr>"

definition push_frame :: "addr \<Rightarrow> frame \<Rightarrow> 'a sched_scheme \<Rightarrow> 'a sched_scheme" where
  "push_frame t f s = s\<lparr>kont := (kont s)(t := f # kont s t)\<rparr>"

definition running_thread :: "'a sched_scheme \<Rightarrow> addr" where
  "running_thread s = esp s AND 0xfffff000"

definition switch_to :: "addr \<Rightarrow> addr \<Rightarrow> 'a sched_scheme \<Rightarrow> 'a sched_scheme" where
  "switch_to cur next_t s =
     (let s = upd_task cur (self_kstack_update (\<lambda>_. esp s)) s
      in s\<lparr>esp := self_kstack (task s next_t)\<rparr>)"

section \<open>Activating a process\<close>

definition page_dir_activate :: "addr \<Rightarrow> 'a sched_scheme \<Rightarrow> 'a sched_scheme res" where
  "page_dir_activate p_thread s =
     bindr (if pgdir (task s p_thread) \<noteq> NULL then addr_v2p (pgdir (task s p_thread)) s else Inr 0x100000)
       (\<lambda>pagedir_phy_addr. Inr (s\<lparr>cr3 := pagedir_phy_addr\<rparr>))"

definition update_tss_esp :: "addr \<Rightarrow> 'a sched_scheme \<Rightarrow> 'a sched_scheme" where
  "update_tss_esp pthread s = s\<lparr>tss_esp0 := pthread + PG_SIZE\<rparr>"

definition process_activate :: "addr \<Rightarrow> 'a sched_scheme \<Rightarrow> 'a sched_scheme res" where
  "process_activate p_thread s =
     bindr (ASSERT (p_thread \<noteq> NULL)) (\<lambda>_.
     bindr (page_dir_activate p_thread s) (\<lambda>s.
     Inr (if pgdir (task s p_thread) \<noteq> NULL then update_tss_esp p_thread s else s)))"

section \<open>The scheduler\<close>

definition thread_unblock :: "addr \<Rightarrow> 'a sched_scheme \<Rightarrow> 'a sched_scheme res" where
  "thread_unblock pthread s =
     (let (old_status, s) = intr_disable s
      in bindr (ASSERT (status (task s pthread) \<in> {TASK_BLOCKED, TASK_HANGING, TASK_WAITING})) (\<lambda>_.
         bindr (if status (task s pthread) \<noteq> TASK_READY then
                  bindr (elem_find (thread_ready_list s) (general_tag pthread) s) (\<lambda>found.
                  bindr (ASSERT (\<not> found)) (\<lambda>_.
                  bindr (elem_find (thread_ready_list s) (general_tag pthread) s) (\<lambda>again.
                  if again then Inl Panic else
                  let s = list_push (thread_ready_list s) (general_tag pthread) s
                  in Inr (upd_task pthread (status_update (\<lambda>_. TASK_READY)) s))))
                else Inr s) (\<lambda>s.
         Inr (snd (intr_set_status old_status s)))))"

definition schedule :: "'a sched_scheme \<Rightarrow> 'a sched_scheme res" where
  "schedule s =
     bindr (ASSERT (intr_get_status s = INTR_OFF)) (\<lambda>_.
     let cur = running_thread s
     in bindr (if status (task s cur) = TASK_RUNNING then
                 bindr (elem_find (thread_ready_list s) (general_tag cur) s) (\<lambda>found.
                 bindr (ASSERT (\<not> found)) (\<lambda>_.
                 let s = list_append (thread_ready_list s) (general_tag cur) s;
                     s = upd_task cur (\<lambda>t. t\<lparr>ticks := priority t\<rparr>) s
                 in Inr (upd_task cur (status_update (\<lambda>_. TASK_READY)) s)))
               else Inr s) (\<lambda>s.
        bindr (if list_empty (thread_ready_list s) s then thread_unblock (idle_thread s) s
               else Inr s) (\<lambda>s.
        bindr (ASSERT (\<not> list_empty (thread_ready_list s) s)) (\<lambda>_.
        let (tag, s) = list_pop (thread_ready_list s) s;
            s = s\<lparr>thread_tag := tag\<rparr>;
            next_t = entry_of_tag tag;
            s = upd_task next_t (status_update (\<lambda>_. TASK_RUNNING)) s
        in bindr (process_activate next_t s) (\<lambda>s.
           Inr (switch_to cur next_t s))))))"

definition thread_block :: "task_status \<Rightarrow> 'a sched_scheme \<Rightarrow> 'a sched_scheme res" where
  "thread_block stat s =
     bindr (ASSERT (stat = TASK_BLOCKED \<or> stat = TASK_WAITING \<or> stat = TASK_HANGING)) (\<lambda>_.
     let (old_status, s) = intr_disable s;
         cur_thread = running_thread s;
         s = upd_task cur_thread (status_update (\<lambda>_. stat)) s
     in schedule (push_frame cur_thread (F_set_status old_status) s))"

definition thread_yield :: "'a sched_scheme \<Rightarrow> 'a sched_scheme res" where
  "thread_yield s =
     (let cur = running_thread s;
          (old_status, s) = intr_disable s
      in bindr (elem_find (thread_ready_list s) (general_tag cur) s) (\<lambda>found.
         bindr (ASSERT (\<not> found)) (\<lambda>_.
         let s = list_append (thread_ready_list s) (general_tag cur) s;
             s = upd_task cur (status_update (\<lambda>_. TASK_READY)) s
         in schedule (push_frame cur (F_set_status old_status) s))))"

section \<open>What scheduling does\<close>

lemmas node_ops = list_append_def list_push_def list_pop_def list_init_def list_insert_before_eq
  list_remove_eq insert_body_def remove_body_def set_nxt_def set_prev_def Let_def

lemma list_ops_keep [simp]:
  "task (list_append l e s) = task s" "task (list_push l e s) = task s"
  "task (snd (list_pop l s)) = task s"
  "kont (list_append l e s) = kont s" "kont (list_push l e s) = kont s"
  "kont (snd (list_pop l s)) = kont s"
  "esp (list_append l e s) = esp s" "esp (list_push l e s) = esp s"
  "esp (snd (list_pop l s)) = esp s"
  "thread_ready_list (list_append l e s) = thread_ready_list s"
  "thread_ready_list (list_push l e s) = thread_ready_list s"
  "thread_ready_list (snd (list_pop l s)) = thread_ready_list s"
  "idle_thread (list_append l e s) = idle_thread s" "idle_thread (list_push l e s) = idle_thread s"
  "idle_thread (snd (list_pop l s)) = idle_thread s"
  "sched.more (list_append l e s) = sched.more s" "sched.more (list_push l e s) = sched.more s"
  "sched.more (snd (list_pop l s)) = sched.more s"
  by (simp_all add: node_ops)

lemma list_ops_keep_hw [simp]:
  "eflags (list_append l e s) = eflags s" "eflags (list_push l e s) = eflags s"
  "eflags (snd (list_pop l s)) = eflags s"
  "phys (list_append l e t) = phys t" "phys (list_push l e t) = phys t"
  "phys (snd (list_pop l t)) = phys t"
  "cr3 (list_append l e t) = cr3 t" "cr3 (list_push l e t) = cr3 t"
  "cr3 (snd (list_pop l t)) = cr3 t"
  by (simp_all add: node_ops)

lemma upd_task_keep [simp]:
  "prev (upd_task t f s) = prev s" "nxt (upd_task t f s) = nxt s" "eflags (upd_task t f s) = eflags s"
  "kont (upd_task t f s) = kont s" "esp (upd_task t f s) = esp s"
  "thread_ready_list (upd_task t f s) = thread_ready_list s"
  "idle_thread (upd_task t f s) = idle_thread s" "phys (upd_task t f s) = phys s"
  "sched.more (upd_task t f s) = sched.more s"
  "cr3 (upd_task t f s) = cr3 s" "task (upd_task t f s) = (task s)(t := f (task s t))"
  by (simp_all add: upd_task_def)

lemma push_frame_keep [simp]:
  "prev (push_frame t f s) = prev s" "nxt (push_frame t f s) = nxt s"
  "eflags (push_frame t f s) = eflags s" "esp (push_frame t f s) = esp s"
  "thread_ready_list (push_frame t f s) = thread_ready_list s"
  "idle_thread (push_frame t f s) = idle_thread s" "phys (push_frame t f s) = phys s"
  "sched.more (push_frame t f s) = sched.more s"
  "cr3 (push_frame t f s) = cr3 s" "task (push_frame t f s) = task s"
  "kont (push_frame t f s) = (kont s)(t := f # kont s t)"
  by (simp_all add: push_frame_def)

text \<open>Facts about the state depend on few fields.\<close>

lemma dlist_nodes: "prev t = prev s \<Longrightarrow> nxt t = nxt s \<Longrightarrow> dlist t l xs = dlist s l xs"
  by (simp add: dlist_def)

lemma dlist_upd [simp]:
  "dlist (upd_task t f s) l xs = dlist s l xs" "dlist (push_frame t g s) l xs = dlist s l xs"
  by (rule dlist_nodes; simp)+

lemma intr_status_cong: "eflags t = eflags s \<Longrightarrow> intr_get_status t = intr_get_status s"
  by (simp add: intr_get_status_def)

lemma running_thread_cong: "esp t = esp s \<Longrightarrow> running_thread t = running_thread s"
  by (simp add: running_thread_def)

lemma entry_of_general_tag [simp]: "entry_of_tag (general_tag t) = t"
  by (simp add: entry_of_tag_def general_tag_def)

lemma general_tag_inj [simp]: "general_tag a = general_tag b \<longleftrightarrow> a = b"
  by (simp add: general_tag_def)

lemma thread_unblock_spec:
  assumes "intr_get_status s = INTR_OFF"
    and "dlist s (thread_ready_list s) xs" and "general_tag t \<notin> set xs"
    and "status (task s t) \<in> {TASK_BLOCKED, TASK_HANGING, TASK_WAITING}"
  shows "thread_unblock t s =
    Inr (upd_task t (status_update (\<lambda>_. TASK_READY)) (list_push (thread_ready_list s) (general_tag t) s))"
proof -
  let ?u = "upd_task t (status_update (\<lambda>_. TASK_READY)) (list_push (thread_ready_list s) (general_tag t) s)"
  have "intr_get_status ?u = INTR_OFF"
    using assms(1) intr_status_cong [of ?u s] by simp
  then have "snd (intr_set_status INTR_OFF ?u) = ?u"
    by (simp add: intr_set_status_def intr_disable_idem)
  then show ?thesis
    using assms by (auto simp: thread_unblock_def intr_disable_idem dlist_find)
qed

text \<open>
  The queue that \<open>schedule\<close> pops from: the ready queue with the running thread put at its end,
  or the idle thread alone when there is nobody else.
\<close>

definition candidates :: "'a sched_scheme \<Rightarrow> addr list \<Rightarrow> addr list" where
  "candidates s rq =
     (if status (task s (running_thread s)) = TASK_RUNNING then rq @ [running_thread s]
      else if rq = [] then [idle_thread s] else rq)"

definition can_activate :: "'a sched_scheme \<Rightarrow> addr \<Rightarrow> bool" where
  "can_activate s t \<longleftrightarrow> t \<noteq> NULL \<and>
     (pgdir (task s t) \<noteq> NULL \<longrightarrow> (\<exists>p. addr_v2p (pgdir (task s t)) s = Inr p))"

definition schedule_pre :: "'a sched_scheme \<Rightarrow> addr list \<Rightarrow> bool" where
  "schedule_pre s rq \<longleftrightarrow>
     intr_get_status s = INTR_OFF \<and> dlist s (thread_ready_list s) (map general_tag rq) \<and>
     (if status (task s (running_thread s)) = TASK_RUNNING
      then general_tag (running_thread s) \<notin> foot (thread_ready_list s) (map general_tag rq)
      else rq = [] \<longrightarrow> status (task s (idle_thread s)) \<in> {TASK_BLOCKED, TASK_HANGING, TASK_WAITING} \<and>
           general_tag (idle_thread s) \<notin> foot (thread_ready_list s) []) \<and>
     can_activate s (hd (candidates s rq))"

text \<open>The state just before \<open>list_pop\<close>.\<close>

definition requeued :: "'a sched_scheme \<Rightarrow> addr list \<Rightarrow> 'a sched_scheme" where
  "requeued s rq =
     (let cur = running_thread s
      in if status (task s cur) = TASK_RUNNING
         then upd_task cur (status_update (\<lambda>_. TASK_READY)) (upd_task cur (\<lambda>t. t\<lparr>ticks := priority t\<rparr>)
                (list_append (thread_ready_list s) (general_tag cur) s))
         else if rq = [] then upd_task (idle_thread s) (status_update (\<lambda>_. TASK_READY))
                (list_push (thread_ready_list s) (general_tag (idle_thread s)) s)
         else s)"

lemma requeued_dlist:
  assumes "schedule_pre s rq"
  shows "dlist (requeued s rq) (thread_ready_list s) (map general_tag (candidates s rq))"
    and "agree_off (foot (thread_ready_list s) (map general_tag (candidates s rq))) s (requeued s rq)"
  using assms dlist_append [of s "thread_ready_list s" "map general_tag rq" "general_tag (running_thread s)"]
    dlist_push [of s "thread_ready_list s" "[]" "general_tag (idle_thread s)"]
  by (auto simp: schedule_pre_def requeued_def candidates_def Let_def agree_off_def)

lemma requeued_keep [simp]:
  "thread_ready_list (requeued s rq) = thread_ready_list s" "idle_thread (requeued s rq) = idle_thread s"
  "esp (requeued s rq) = esp s" "kont (requeued s rq) = kont s" "eflags (requeued s rq) = eflags s"
  "phys (requeued s rq) = phys s" "cr3 (requeued s rq) = cr3 s"
  "pgdir (task (requeued s rq) t) = pgdir (task s t)"
  "self_kstack (task (requeued s rq) t) = self_kstack (task s t)"
  "stack_magic (task (requeued s rq) t) = stack_magic (task s t)"
  "sched.more (requeued s rq) = sched.more s"
  by (auto simp: requeued_def Let_def)

lemma schedule_upto_pop:
  assumes "schedule_pre s rq"
  shows "schedule s =
     (let (tag, u) = list_pop (thread_ready_list s) (requeued s rq);
          u = u\<lparr>thread_tag := tag\<rparr>; next_t = entry_of_tag tag;
          u = upd_task next_t (status_update (\<lambda>_. TASK_RUNNING)) u
      in bindr (process_activate next_t u) (\<lambda>u. Inr (switch_to (running_thread s) next_t u)))"
proof -
  have cand: "candidates s rq \<noteq> []" by (simp add: candidates_def)
  have ne: "\<not> list_empty (thread_ready_list s) (requeued s rq)"
    using dlist_is_empty [OF requeued_dlist(1) [OF assms]] cand by simp
  have off: "intr_get_status s = INTR_OFF" and Q: "dlist s (thread_ready_list s) (map general_tag rq)"
    using assms by (auto simp: schedule_pre_def)
  show ?thesis
  proof (cases "status (task s (running_thread s)) = TASK_RUNNING")
    case True
    then have "general_tag (running_thread s) \<notin> set (map general_tag rq)"
      using assms by (auto simp: schedule_pre_def foot_def ring_def)
    with True off Q ne show ?thesis
      by (simp add: schedule_def Let_def dlist_find requeued_def)
  next
    case False
    show ?thesis
    proof (cases "rq = []")
      case True
      then have "thread_unblock (idle_thread s) s = Inr (requeued s rq)"
        using thread_unblock_spec [OF off Q] assms False
        by (auto simp: schedule_pre_def requeued_def)
      with False True off ne dlist_is_empty [OF Q] show ?thesis
        by (simp add: schedule_def Let_def)
    next
      case rq: False
      with False off ne dlist_is_empty [OF Q] show ?thesis
        by (simp add: schedule_def Let_def requeued_def)
    qed
  qed
qed

text \<open>Everything that the callers of \<open>schedule\<close> need to know about the state after it.\<close>

definition scheduled :: "'a sched_scheme \<Rightarrow> addr list \<Rightarrow> 'a sched_scheme \<Rightarrow> bool" where
  "scheduled s rq s' \<longleftrightarrow>
     (let nx = hd (candidates s rq); cur = running_thread s
      in dlist s' (thread_ready_list s) (map general_tag (tl (candidates s rq))) \<and>
         agree_off (foot (thread_ready_list s) (map general_tag (candidates s rq))) s s' \<and>
         (\<forall>t. status (task s' t) =
            (if t = nx then TASK_RUNNING
             else if t = cur \<and> status (task s cur) = TASK_RUNNING then TASK_READY else status (task s t)) \<and>
            ticks (task s' t) =
              (if t = cur \<and> status (task s cur) = TASK_RUNNING then priority (task s t) else ticks (task s t)) \<and>
            self_kstack (task s' t) = (if t = cur then esp s else self_kstack (task s t)) \<and>
            pgdir (task s' t) = pgdir (task s t) \<and> stack_magic (task s' t) = stack_magic (task s t)) \<and>
         esp s' = (if nx = cur then esp s else self_kstack (task s nx)) \<and>
         kont s' = kont s \<and> eflags s' = eflags s \<and> phys s' = phys s \<and>
         thread_ready_list s' = thread_ready_list s \<and> idle_thread s' = idle_thread s \<and>
         sched.more s' = sched.more s \<and>
         (if pgdir (task s nx) = NULL then cr3 s' = 0x100000
          else addr_v2p (pgdir (task s nx)) s = Inr (cr3 s')))"

lemma process_activate_spec:
  assumes "can_activate s t"
  shows "\<exists>c e. process_activate t s = Inr (s\<lparr>cr3 := c, tss_esp0 := e\<rparr>) \<and>
    (if pgdir (task s t) = NULL then c = 0x100000 else addr_v2p (pgdir (task s t)) s = Inr c)"
proof (cases "pgdir (task s t) = NULL")
  case True
  then have "process_activate t s = Inr (s\<lparr>cr3 := 0x100000, tss_esp0 := tss_esp0 s\<rparr>)"
    using assms by (simp add: process_activate_def page_dir_activate_def can_activate_def)
  with True show ?thesis by (metis (full_types))
next
  case False
  then obtain p where p: "addr_v2p (pgdir (task s t)) s = Inr p"
    using assms by (auto simp: can_activate_def)
  with False have "process_activate t s = Inr (s\<lparr>cr3 := p, tss_esp0 := t + PG_SIZE\<rparr>)"
    using assms
    by (simp add: process_activate_def page_dir_activate_def can_activate_def update_tss_esp_def)
  with False p show ?thesis by auto
qed

lemma schedule_spec:
  assumes pre: "schedule_pre s rq"
  shows "\<exists>s'. schedule s = Inr s' \<and> scheduled s rq s'"
proof -
  let ?RL = "thread_ready_list s" and ?q = "requeued s rq" and ?nx = "hd (candidates s rq)"
  obtain cs where cs: "candidates s rq = ?nx # cs"
    by (cases "candidates s rq") (auto simp: candidates_def split: if_splits)
  have Q: "dlist ?q ?RL (general_tag ?nx # map general_tag cs)"
    using requeued_dlist(1) [OF pre] by (subst (asm) cs) simp
  note pop = dlist_pop [OF Q]
  let ?u = "upd_task ?nx (status_update (\<lambda>_. TASK_RUNNING))
              ((snd (list_pop ?RL ?q))\<lparr>thread_tag := general_tag ?nx\<rparr>)"
  have v2p: "addr_v2p v ?u = addr_v2p v s" for v
    by (rule addr_v2p_cong) simp_all
  have pg: "pgdir (task ?u ?nx) = pgdir (task s ?nx)" by simp
  have "can_activate ?u ?nx"
    using pre unfolding schedule_pre_def can_activate_def pg v2p by blast
  from process_activate_spec [OF this] obtain c e where
    act: "process_activate ?nx ?u = Inr (?u\<lparr>cr3 := c, tss_esp0 := e\<rparr>)" and
    c: "if pgdir (task s ?nx) = NULL then c = 0x100000 else addr_v2p (pgdir (task s ?nx)) s = Inr c"
    unfolding pg v2p by blast
  let ?s' = "switch_to (running_thread s) ?nx (?u\<lparr>cr3 := c, tss_esp0 := e\<rparr>)"
  have res: "schedule s = Inr ?s'"
    using schedule_upto_pop [OF pre] pop(1) act
    by (simp add: case_prod_beta Let_def)
  have nodes: "prev ?s' = prev (snd (list_pop ?RL ?q))" "nxt ?s' = nxt (snd (list_pop ?RL ?q))"
    by (simp_all add: switch_to_def Let_def)
  have "dlist ?s' ?RL (map general_tag (tl (candidates s rq)))"
    using pop(2) dlist_nodes [OF nodes] by (subst cs) simp
  moreover have "agree_off (foot ?RL (map general_tag (candidates s rq))) s ?s'"
  proof -
    have "foot ?RL (map general_tag cs) \<subseteq> foot ?RL (map general_tag (candidates s rq))"
      using arg_cong [OF cs, of "\<lambda>x. foot ?RL (map general_tag x)"] by auto
    from agree_off_trans [OF requeued_dlist(2) [OF pre] agree_off_mono [OF pop(3) this]]
    show ?thesis using nodes by (simp add: agree_off_def)
  qed
  moreover have "status (task ?q t) = (if t = running_thread s \<and> status (task s t) = TASK_RUNNING
      then TASK_READY else if t = ?nx \<and> status (task s (running_thread s)) \<noteq> TASK_RUNNING \<and> rq = []
      then TASK_READY else status (task s t))" for t
    by (auto simp: requeued_def candidates_def Let_def)
  moreover have "ticks (task ?q t) = (if t = running_thread s \<and> status (task s t) = TASK_RUNNING
      then priority (task s t) else ticks (task s t))" for t
    by (auto simp: requeued_def Let_def)
  ultimately show ?thesis
    using res c
    by (intro exI [of _ ?s'])
      (auto simp: scheduled_def Let_def switch_to_def)
qed

end
