(* ===== verification/Timer.thy ===== *)
theory Timer
  imports Thread
begin

unbundle bit_operations_syntax

text \<open>
  \<^verbatim>\<open>device/timer.c\<close>: the clock interrupt that ends a time slice, sleeping, and the programming of
  the 8253 counter (the bytes it is sent, in order).
\<close>

section \<open>The code\<close>

record timed = sched +
  total_ticks :: u32

definition frequency_set :: "u8 \<Rightarrow> u8 \<Rightarrow> u8 \<Rightarrow> u8 \<Rightarrow> u16 \<Rightarrow> (u16 \<times> u8) list" where
  "frequency_set counter_port counter_no rwl counter_mode counter_value =
     [(0x43, ucast (push_bit 6 (ucast counter_no :: u32) OR push_bit 4 (ucast rwl) OR
                    push_bit 1 (ucast counter_mode))),
      (ucast counter_port, ucast counter_value),
      (ucast counter_port, ucast (drop_bit 8 counter_value))]"

definition timer_init :: "(u16 \<times> u8) list" where
  "timer_init = frequency_set 0x40 0 3 2 (1193180 div 100)"

definition intr_timer_handler :: "'a timed_scheme \<Rightarrow> 'a timed_scheme res" where
  "intr_timer_handler s =
     (let cur_thread = running_thread s
      in bindr (ASSERT (stack_magic (task s cur_thread) = 0x19870916)) (\<lambda>_.
         let s = upd_task cur_thread (\<lambda>t. t\<lparr>elapsed_ticks := elapsed_ticks t + 1\<rparr>) s;
             s = s\<lparr>total_ticks := total_ticks s + 1\<rparr>
         in if ticks (task s cur_thread) = 0 then schedule s
            else Inr (upd_task cur_thread (\<lambda>t. t\<lparr>ticks := ticks t - 1\<rparr>) s)))"

text \<open>
  The clock interrupt as the processor and \<^verbatim>\<open>kernel.S\<close> deliver it: the flags are saved, the gate
  masks interrupts, the handler runs, \<open>iretd\<close> restores the flags.
\<close>

definition timer_interrupt :: "'a timed_scheme \<Rightarrow> 'a timed_scheme res" where
  "timer_interrupt s =
     intr_timer_handler (snd (intr_disable (push_frame (running_thread s) (F_iret (eflags s)) s)))"

text \<open>One turn of the loop of \<open>ticks_to_sleep\<close>; the rest of the loop is a frame while the thread waits.\<close>

definition ticks_to_sleep_loop :: "u32 \<Rightarrow> u32 \<Rightarrow> 'a timed_scheme \<Rightarrow> 'a timed_scheme res" where
  "ticks_to_sleep_loop start_tick sleep_ticks s =
     (if total_ticks s - start_tick < sleep_ticks
      then thread_yield (push_frame (running_thread s) (F_ticks_to_sleep start_tick sleep_ticks) s)
      else Inr s)"

definition ticks_to_sleep :: "u32 \<Rightarrow> 'a timed_scheme \<Rightarrow> 'a timed_scheme res" where
  "ticks_to_sleep sleep_ticks s = ticks_to_sleep_loop (total_ticks s) sleep_ticks s"

definition mtime_sleep :: "u32 \<Rightarrow> 'a timed_scheme \<Rightarrow> 'a timed_scheme res" where
  "mtime_sleep m_seconds s =
     (let sleep_ticks = (m_seconds + 10 - 1) div 10
      in bindr (ASSERT (sleep_ticks > 0)) (\<lambda>_. ticks_to_sleep sleep_ticks s))"

section \<open>Sleeping\<close>

lemma total_ticks_upd [simp]:
  "total_ticks (upd_task t f s) = total_ticks s" "total_ticks (push_frame t g s) = total_ticks s"
  by (simp_all add: upd_task_def push_frame_def)

lemma sleep_ticks_pos:
  assumes "0 < m" and "unat (m :: u32) \<le> 4294967286"
  shows "(0 :: u32) < (m + 10 - 1) div 10"
proof -
  have "unat (m + 9) = unat m + 9"
    using assms by (intro trans [OF unat_add_u32]) simp_all
  moreover have "0 < unat m" using assms by (simp add: unat_gt_0)
  ultimately have "unat ((m + 9) div 10) \<ge> 1" by (simp add: unat_div)
  then show ?thesis by (simp add: word_less_nat_alt add.commute)
qed

end
