(* ===== verification/Sync.thy ===== *)
theory Sync
  imports Timer
begin

text \<open>
  \<^verbatim>\<open>thread/sync.c\<close>: semaphores and the re-entrant lock built on one. \<open>struct semaphore\<close> at
  address \<open>p\<close> has its value at offset 0 and its list of waiting threads at offset 4;
  \<open>struct lock\<close> at \<open>l\<close> has its holder at offset 0, its semaphore at offset 4 and the repeat counter
  after it. The console of \<^verbatim>\<open>device/console.c\<close> is one such lock around the output routines.
\<close>

section \<open>The code\<close>

record sync = timed +
  sem_value :: "addr \<Rightarrow> u8"
  holder :: "addr \<Rightarrow> addr"
  holder_repeat_nr :: "addr \<Rightarrow> u32"

definition waiters :: "addr \<Rightarrow> addr" where
  "waiters psema = psema + 4"

definition semaphore_of :: "addr \<Rightarrow> addr" where
  "semaphore_of plock = plock + 4"

definition set_value :: "addr \<Rightarrow> u8 \<Rightarrow> 'a sync_scheme \<Rightarrow> 'a sync_scheme" where
  "set_value psema v s = s\<lparr>sem_value := (sem_value s)(psema := v)\<rparr>"

definition set_holder :: "addr \<Rightarrow> addr \<Rightarrow> 'a sync_scheme \<Rightarrow> 'a sync_scheme" where
  "set_holder plock t s = s\<lparr>holder := (holder s)(plock := t)\<rparr>"

definition set_repeat :: "addr \<Rightarrow> u32 \<Rightarrow> 'a sync_scheme \<Rightarrow> 'a sync_scheme" where
  "set_repeat plock n s = s\<lparr>holder_repeat_nr := (holder_repeat_nr s)(plock := n)\<rparr>"

definition sema_init :: "addr \<Rightarrow> u8 \<Rightarrow> 'a sync_scheme \<Rightarrow> 'a sync_scheme" where
  "sema_init psema v s = list_init (waiters psema) (set_value psema v s)"

definition lock_init :: "addr \<Rightarrow> 'a sync_scheme \<Rightarrow> 'a sync_scheme" where
  "lock_init plock s =
     (let s = set_holder plock NULL s;
          s = set_repeat plock 0 s
      in sema_init (semaphore_of plock) 1 s)"

text \<open>
  The loop of \<open>sema_down\<close>: it either takes the semaphore and returns, or blocks the thread, which
  comes back to the loop through its frame \<open>F_sema_down\<close>.
\<close>

definition sema_down_loop :: "addr \<Rightarrow> intr_status \<Rightarrow> 'a sync_scheme \<Rightarrow> 'a sync_scheme res" where
  "sema_down_loop psema old_status s =
     (if sem_value s psema = 0 then
        let cur = running_thread s
        in bindr (elem_find (waiters psema) (general_tag cur) s) (\<lambda>found.
           bindr (ASSERT (\<not> found)) (\<lambda>_.
           bindr (elem_find (waiters psema) (general_tag cur) s) (\<lambda>again.
           if again then Inl Panic else
           let s = list_append (waiters psema) (general_tag cur) s
           in thread_block TASK_BLOCKED (push_frame cur (F_sema_down psema old_status) s))))
      else
        let s = set_value psema (sem_value s psema - 1) s
        in bindr (ASSERT (sem_value s psema = 0)) (\<lambda>_.
           Inr (snd (intr_set_status old_status s))))"

definition sema_down :: "addr \<Rightarrow> 'a sync_scheme \<Rightarrow> 'a sync_scheme res" where
  "sema_down psema s =
     (let (old_status, s) = intr_disable s in sema_down_loop psema old_status s)"

definition sema_up :: "addr \<Rightarrow> 'a sync_scheme \<Rightarrow> 'a sync_scheme res" where
  "sema_up psema s =
     (let (old_status, s) = intr_disable s
      in bindr (ASSERT (sem_value s psema = 0)) (\<lambda>_.
         bindr (if \<not> list_empty (waiters psema) s
                then let (tag, s) = list_pop (waiters psema) s;
                         thread_blocked = entry_of_tag tag
                     in thread_unblock thread_blocked s
                else Inr s) (\<lambda>s.
         let s = set_value psema (sem_value s psema + 1) s
         in bindr (ASSERT (sem_value s psema = 1)) (\<lambda>_.
            Inr (snd (intr_set_status old_status s))))))"

text \<open>After \<open>sema_down\<close> has returned, \<open>lock_acquire\<close> becomes the holder.\<close>

definition lock_acquired :: "addr \<Rightarrow> 'a sync_scheme \<Rightarrow> 'a sync_scheme res" where
  "lock_acquired plock s =
     (let s = set_holder plock (running_thread s) s
      in bindr (ASSERT (holder_repeat_nr s plock = 0)) (\<lambda>_. Inr (set_repeat plock 1 s)))"

definition lock_acquire :: "addr \<Rightarrow> 'a sync_scheme \<Rightarrow> 'a sync_scheme res" where
  "lock_acquire plock s =
     (if holder s plock \<noteq> running_thread s
      then sema_down (semaphore_of plock) (push_frame (running_thread s) (F_lock_acquire plock) s)
      else Inr (set_repeat plock (holder_repeat_nr s plock + 1) s))"

text \<open>
  \<open>lock_release\<close> up to its call of \<open>sema_up\<close>, which is left as a frame: with interrupts on, the
  clock may strike between the two.
\<close>

definition lock_release :: "addr \<Rightarrow> 'a sync_scheme \<Rightarrow> 'a sync_scheme res" where
  "lock_release plock s =
     bindr (ASSERT (holder s plock = running_thread s)) (\<lambda>_.
     if holder_repeat_nr s plock > 1
     then Inr (set_repeat plock (holder_repeat_nr s plock - 1) s)
     else bindr (ASSERT (holder_repeat_nr s plock = 1)) (\<lambda>_.
          let s = set_holder plock NULL s;
              s = set_repeat plock 0 s
          in Inr (push_frame (running_thread s) (F_sema_up (semaphore_of plock)) s)))"

text \<open>A thread that is running again goes on with the innermost call it was in.\<close>

fun resume :: "frame \<Rightarrow> 'a sync_scheme \<Rightarrow> 'a sync_scheme res" where
  "resume (F_set_status old_status) s = Inr (snd (intr_set_status old_status s))"
| "resume (F_sema_down psema old_status) s = sema_down_loop psema old_status s"
| "resume (F_lock_acquire plock) s = lock_acquired plock s"
| "resume (F_sema_up psema) s = sema_up psema s"
| "resume (F_ticks_to_sleep start_tick sleep_ticks) s = ticks_to_sleep_loop start_tick sleep_ticks s"
| "resume F_sti_hlt s = Inr (snd (intr_enable s))"
| "resume (F_iret flags) s = Inr (s\<lparr>eflags := flags\<rparr>)"

text \<open>One turn of the loop of the idle thread.\<close>

definition idle :: "'a sync_scheme \<Rightarrow> 'a sync_scheme res" where
  "idle s = thread_block TASK_BLOCKED (push_frame (running_thread s) F_sti_hlt s)"

text \<open>
  The sequential view of a lock for code that runs while no other thread has it: \<open>lock_acquire\<close> and
  the rest of it after \<open>sema_down\<close> in one go. When another thread has the lock the caller is
  suspended, and a sequential run ends there as \<open>Blocked\<close>.
\<close>

definition pop_frame :: "addr \<Rightarrow> 'a sync_scheme \<Rightarrow> 'a sync_scheme" where
  "pop_frame t s = s\<lparr>kont := (kont s)(t := tl (kont s t))\<rparr>"

definition acquire_now :: "addr \<Rightarrow> 'a sync_scheme \<Rightarrow> 'a sync_scheme res" where
  "acquire_now plock s =
     (if holder s plock \<noteq> running_thread s then
        if sem_value s (semaphore_of plock) = 0 then Inl Blocked
        else bindr (lock_acquire plock s) (\<lambda>s. lock_acquired plock (pop_frame (running_thread s) s))
      else lock_acquire plock s)"

definition release_now :: "addr \<Rightarrow> 'a sync_scheme \<Rightarrow> 'a sync_scheme res" where
  "release_now plock s =
     bindr (lock_release plock s) (\<lambda>s'.
       if holder_repeat_nr s plock > 1 then Inr s'
       else sema_up (semaphore_of plock) (pop_frame (running_thread s') s'))"

section \<open>A lock that no other thread wants\<close>

definition lock_free :: "addr \<Rightarrow> 'a sync_scheme \<Rightarrow> bool" where
  "lock_free l s \<longleftrightarrow> holder s l = NULL \<and> sem_value s (semaphore_of l) = 1 \<and> holder_repeat_nr s l = 0 \<and>
     list_empty (waiters (semaphore_of l)) s"

definition lock_mine :: "addr \<Rightarrow> 'a sync_scheme \<Rightarrow> bool" where
  "lock_mine l s \<longleftrightarrow> holder s l = running_thread s \<and> sem_value s (semaphore_of l) = 0 \<and>
     holder_repeat_nr s l = 1 \<and> list_empty (waiters (semaphore_of l)) s"

definition set_lock :: "addr \<Rightarrow> addr \<Rightarrow> u8 \<Rightarrow> u32 \<Rightarrow> 'a sync_scheme \<Rightarrow> 'a sync_scheme" where
  "set_lock l t v n s = s\<lparr>sem_value := (sem_value s)(semaphore_of l := v), holder := (holder s)(l := t),
     holder_repeat_nr := (holder_repeat_nr s)(l := n)\<rparr>"

lemma set_lock_keeps [simp]:
  "eflags (set_lock l t v n s) = eflags s" "prev (set_lock l t v n s) = prev s" "nxt (set_lock l t v n s) = nxt s"
  "phys (set_lock l t v n s) = phys s" "cr3 (set_lock l t v n s) = cr3 s" "bytes (set_lock l t v n s) = bytes s"
  "task (set_lock l t v n s) = task s" "kont (set_lock l t v n s) = kont s" "esp (set_lock l t v n s) = esp s"
  "holder (set_lock l t v n s) = (holder s)(l := t)" "sync.more (set_lock l t v n s) = sync.more s"
  "sem_value (set_lock l t v n s) = (sem_value s)(semaphore_of l := v)"
  "holder_repeat_nr (set_lock l t v n s) = (holder_repeat_nr s)(l := n)"
  "running_thread (set_lock l t v n s) = running_thread s"
  by (simp_all add: set_lock_def running_thread_def)

lemma set_value_bracket: "snd (intr_set_status (intr_get_status s) (set_value p v (snd (intr_disable s)))) = set_value p v s"
proof -
  have "keeps_eflags (set_value p v)" by (simp add: keeps_eflags_def set_value_def)
  from intr_bracket [OF this, of s] show ?thesis by simp
qed

lemma intr_disable_keeps [simp]:
  "sem_value (snd (intr_disable s)) = sem_value s" "nxt (snd (intr_disable t)) = nxt t"
  by (simp_all add: intr_disable_def)

lemma acquire_free:
  assumes "lock_free l s" and "running_thread s \<noteq> NULL"
  shows "acquire_now l s = Inr (set_lock l (running_thread s) 0 1 s)"
proof -
  let ?s = "push_frame (running_thread s) (F_lock_acquire l) s"
  have v: "sem_value ?s (semaphore_of l) = 1" using assms(1) by (simp add: lock_free_def push_frame_def)
  have "sema_down (semaphore_of l) ?s = Inr (set_value (semaphore_of l) 0 ?s)"
    using v set_value_bracket [of ?s "semaphore_of l" 0]
    by (simp add: sema_down_def sema_down_loop_def Let_def case_prod_beta set_value_def)
  moreover have "pop_frame (running_thread s) (set_value (semaphore_of l) 0 ?s) = set_value (semaphore_of l) 0 s"
    by (simp add: pop_frame_def push_frame_def set_value_def)
  ultimately show ?thesis
    using assms by (simp add: acquire_now_def lock_free_def lock_acquire_def lock_acquired_def Let_def
        running_thread_def set_value_def set_holder_def set_repeat_def push_frame_def pop_frame_def set_lock_def)
qed

lemma release_mine:
  assumes "lock_mine l s"
  shows "release_now l s = Inr (set_lock l NULL 1 0 s)"
proof -
  let ?s = "set_repeat l 0 (set_holder l NULL s)"
  have v: "sem_value ?s (semaphore_of l) = 0" "list_empty (waiters (semaphore_of l)) ?s"
    using assms by (simp_all add: lock_mine_def set_repeat_def set_holder_def list_empty_def)
  have pop: "pop_frame (running_thread ?s) (push_frame (running_thread ?s) (F_sema_up (semaphore_of l)) ?s) = ?s"
    by (simp add: pop_frame_def push_frame_def)
  have rt: "running_thread (push_frame t f ?s) = running_thread ?s" for t f by (simp add: running_thread_def)
  have "sema_up (semaphore_of l) ?s = Inr (set_value (semaphore_of l) 1 ?s)"
    using v set_value_bracket [of ?s "semaphore_of l" 1]
    by (simp add: sema_up_def Let_def case_prod_beta list_empty_def) (simp add: set_value_def)
  moreover have "set_value (semaphore_of l) 1 ?s = set_lock l NULL 1 0 s"
    by (simp add: set_lock_def set_value_def set_holder_def set_repeat_def)
  ultimately show ?thesis
    using assms pop rt by (simp add: release_now_def lock_mine_def lock_release_def Let_def)
qed

section \<open>The interface: critical sections\<close>

text \<open>
  What the users of a lock rely on. \<open>near s t\<close> says that the two states differ in the lock alone; a
  free lock has one state.
\<close>

locale mutex =
  fixes free :: "'s \<Rightarrow> bool"
    and mine :: "'s \<Rightarrow> bool"
    and near :: "'s \<Rightarrow> 's \<Rightarrow> bool"
    and grab :: "'s \<Rightarrow> 's res"
    and leave :: "'s \<Rightarrow> 's res"
  assumes grab_free: "free s \<Longrightarrow> \<exists>t. grab s = Inr t \<and> mine t \<and> near s t"
    and leave_mine: "mine s \<Longrightarrow> \<exists>t. leave s = Inr t \<and> free t \<and> near s t"
    and near_trans: "near s t \<Longrightarrow> near t u \<Longrightarrow> near s u"
    and near_free: "near s t \<Longrightarrow> free s \<Longrightarrow> free t \<Longrightarrow> t = s"
begin

definition section_of :: "('s \<Rightarrow> 's res) \<Rightarrow> 's \<Rightarrow> 's res" where
  "section_of body s = bindr (grab s) (\<lambda>s. bindr (body s) leave)"

text \<open>A body that keeps the lock runs between \<open>grab\<close> and \<open>leave\<close>, and the lock is free again.\<close>

lemma bracket:
  assumes "free s"
    and "\<And>t. mine t \<Longrightarrow> near s t \<Longrightarrow> \<exists>u. body t = Inr u \<and> mine u \<and> P t u"
  shows "\<exists>t u v. section_of body s = Inr v \<and> near s t \<and> P t u \<and> near u v \<and> free v"
proof -
  from grab_free [OF assms(1)] obtain t where t: "grab s = Inr t" "mine t" "near s t" by blast
  from assms(2) [OF t(2,3)] obtain u where u: "body t = Inr u" "mine u" "P t u" by blast
  from leave_mine [OF u(2)] obtain v where "leave u = Inr v" "free v" "near u v" by blast
  with t u show ?thesis unfolding section_of_def by auto
qed

text \<open>An empty critical section does nothing.\<close>

lemma empty_section: "free s \<Longrightarrow> section_of Inr s = Inr s"
  using bracket [of s Inr "\<lambda>t u. u = t"] near_trans near_free by fastforce

text \<open>Critical sections one after the other keep an invariant that each body keeps and that does not
  look at the lock.\<close>

lemma sections_keep:
  assumes "\<And>body s. body \<in> set bodies \<Longrightarrow> mine s \<Longrightarrow> I s \<Longrightarrow> \<exists>t. body s = Inr t \<and> mine t \<and> I t"
    and "\<And>s t. near s t \<Longrightarrow> I s \<Longrightarrow> I t"
  shows "free s \<Longrightarrow> I s \<Longrightarrow> \<exists>t. foldl bindr (Inr s) (map section_of bodies) = Inr t \<and> free t \<and> I t"
  using assms(1)
proof (induction bodies arbitrary: s)
  case (Cons body bodies)
  have "\<exists>u. body t = Inr u \<and> mine u \<and> I u" if "mine t" "near s t" for t
    using Cons.prems(3) [of body t] that assms(2) Cons.prems(2) by auto
  from bracket [OF Cons.prems(1), of body "\<lambda>t u. I u", OF this] assms(2) obtain v where
    "section_of body s = Inr v" "free v" "I v" by blast
  with Cons.IH [of v] Cons.prems(3) show ?case by auto
qed simp

end

definition may_lock :: "addr \<Rightarrow> 'a sync_scheme \<Rightarrow> bool" where
  "may_lock l s \<longleftrightarrow> lock_free l s \<and> running_thread s \<noteq> NULL"

definition has_lock :: "addr \<Rightarrow> 'a sync_scheme \<Rightarrow> bool" where
  "has_lock l s \<longleftrightarrow> lock_mine l s \<and> running_thread s \<noteq> NULL"

definition lock_differs :: "addr \<Rightarrow> 'a sync_scheme \<Rightarrow> 'a sync_scheme \<Rightarrow> bool" where
  "lock_differs l s t \<longleftrightarrow> (\<exists>h v n. t = set_lock l h v n s)"

lemma set_lock_twice [simp]: "set_lock l h v n (set_lock l h' v' n' s) = set_lock l h v n s"
  by (simp add: set_lock_def)

lemma set_lock_free: "lock_free l s \<Longrightarrow> set_lock l NULL 1 0 s = s"
  by (cases s) (simp add: set_lock_def lock_free_def fun_upd_idem)

lemma list_empty_lock [simp]: "list_empty p (set_lock l h v n s) = list_empty p s"
  by (simp add: list_empty_def)

text \<open>Every lock of the kernel satisfies the contract, for the thread that runs alone.\<close>

interpretation lk: mutex "may_lock l" "has_lock l" "lock_differs l" "acquire_now l" "release_now l" for l
proof unfold_locales
  fix s t u :: "'a sync_scheme"
  show "\<exists>t. acquire_now l s = Inr t \<and> has_lock l t \<and> lock_differs l s t" if "may_lock l s"
    using that acquire_free [of l s]
    by (auto simp: may_lock_def has_lock_def lock_differs_def lock_mine_def lock_free_def)
  show "\<exists>t. release_now l s = Inr t \<and> may_lock l t \<and> lock_differs l s t" if "has_lock l s"
    using that release_mine [of l s]
    by (auto simp: may_lock_def has_lock_def lock_differs_def lock_mine_def lock_free_def)
  show "lock_differs l s t \<Longrightarrow> lock_differs l t u \<Longrightarrow> lock_differs l s u"
    unfolding lock_differs_def by (metis set_lock_twice)
  show "t = s" if n: "lock_differs l s t" "may_lock l s" "may_lock l t"
  proof -
    obtain h v n where t: "t = set_lock l h v n s" using n(1) unfolding lock_differs_def by blast
    then have "h = NULL" "v = 1" "n = 0" using n(3) by (simp_all add: may_lock_def lock_free_def)
    with t set_lock_free [of l s] n(2) show ?thesis by (simp add: may_lock_def)
  qed
qed

end
