(* ===== verification/Locking.thy ===== *)
theory Locking
  imports Sync
begin

unbundle bit_operations_syntax

text \<open>
  The concurrent kernel: threads that take and release locks, yield, sleep and idle, the clock
  interrupt that may strike whenever interrupts are on, and the scheduler that switches between
  them. A step runs one call of a thread that is in no call, or the innermost unfinished call of
  the running thread, or the clock interrupt. The invariant relates the queues, the states of the
  threads, their unfinished calls and the locks; it gives that no assertion of the scheduler, the
  semaphores or the locks ever fails and that a lock has at most one owner.
\<close>

section \<open>Steps\<close>

datatype kcall = Acquire addr | Release addr | Yield | Sleep u32 | Idle

datatype action = Call kcall | Resume | Clock

fun kcall_exec :: "kcall \<Rightarrow> 'a sync_scheme \<Rightarrow> 'a sync_scheme res" where
  "kcall_exec (Acquire l) s = lock_acquire l s"
| "kcall_exec (Release l) s = lock_release l s"
| "kcall_exec Yield s = thread_yield s"
| "kcall_exec (Sleep m) s = mtime_sleep m s"
| "kcall_exec Idle s = idle s"

fun kexec :: "action \<Rightarrow> 'a sync_scheme \<Rightarrow> 'a sync_scheme res" where
  "kexec (Call c) s = kcall_exec c s"
| "kexec Resume s =
     (case kont s (running_thread s) of [] \<Rightarrow> Inr s
      | f # _ \<Rightarrow> resume f (pop_frame (running_thread s) s))"
| "kexec Clock s = timer_interrupt s"

text \<open>
  The contract of the callers: a thread releases only a lock that it holds, the idle thread takes
  no lock, only it idles, and a lock is not taken \<open>2 ^ 32\<close> times over by its holder, nor is the
  argument of \<open>mtime_sleep\<close> zero or so large that rounding it up overflows.
\<close>

fun call_ok :: "addr set \<Rightarrow> kcall \<Rightarrow> 'a sync_scheme \<Rightarrow> bool" where
  "call_ok L (Acquire l) s \<longleftrightarrow>
     l \<in> L \<and> running_thread s \<noteq> idle_thread s \<and> holder_repeat_nr s l \<noteq> -1"
| "call_ok L (Release l) s \<longleftrightarrow> l \<in> L \<and> holder s l = running_thread s"
| "call_ok L Yield s \<longleftrightarrow> True"
| "call_ok L (Sleep m) s \<longleftrightarrow> 0 < m \<and> unat m \<le> 4294967286"
| "call_ok L Idle s \<longleftrightarrow> running_thread s = idle_thread s"

fun enabled :: "addr set \<Rightarrow> action \<Rightarrow> 'a sync_scheme \<Rightarrow> bool" where
  "enabled L (Call c) s \<longleftrightarrow> kont s (running_thread s) = [] \<and> call_ok L c s"
| "enabled L Resume s \<longleftrightarrow> kont s (running_thread s) \<noteq> []"
| "enabled L Clock s \<longleftrightarrow> intr_get_status s = INTR_ON"

inductive kreach :: "addr set \<Rightarrow> 'a sync_scheme \<Rightarrow> 'a sync_scheme \<Rightarrow> bool" for L s0 where
  start: "kreach L s0 s0"
| step: "kreach L s0 s \<Longrightarrow> enabled L a s \<Longrightarrow> kexec a s = Inr s' \<Longrightarrow> kreach L s0 s'"

section \<open>The invariant\<close>

text \<open>
  The unfinished calls of a thread: on top possibly the end of \<open>thread_block\<close>, \<open>thread_yield\<close> or
  of the clock interrupt; below it the call proper.
\<close>

fun is_tail :: "frame \<Rightarrow> bool" where
  "is_tail (F_set_status _) \<longleftrightarrow> True"
| "is_tail (F_iret _) \<longleftrightarrow> True"
| "is_tail _ \<longleftrightarrow> False"

definition base_of :: "frame list \<Rightarrow> frame list" where
  "base_of k = dropWhile is_tail k"

fun waits_on :: "frame list \<Rightarrow> addr \<Rightarrow> bool" where
  "waits_on [F_sema_down p st, F_lock_acquire l] l' \<longleftrightarrow> l = l' \<and> p = semaphore_of l"
| "waits_on _ _ \<longleftrightarrow> False"

fun simple_base :: "addr set \<Rightarrow> frame list \<Rightarrow> bool" where
  "simple_base L [] \<longleftrightarrow> True"
| "simple_base L [F_lock_acquire l] \<longleftrightarrow> l \<in> L"
| "simple_base L [F_sema_up p] \<longleftrightarrow> p \<in> semaphore_of ` L"
| "simple_base L [F_ticks_to_sleep st n] \<longleftrightarrow> True"
| "simple_base L [F_sti_hlt] \<longleftrightarrow> True"
| "simple_base L _ \<longleftrightarrow> False"

definition any_base :: "addr set \<Rightarrow> frame list \<Rightarrow> bool" where
  "any_base L k \<longleftrightarrow> simple_base L k \<or> (\<exists>l\<in>L. waits_on k l)"

fun kont_ok :: "addr set \<Rightarrow> frame list \<Rightarrow> bool" where
  "kont_ok L (F_set_status INTR_OFF # k) \<longleftrightarrow> any_base L k"
| "kont_ok L (F_set_status INTR_ON # k) \<longleftrightarrow> simple_base L k"
| "kont_ok L (F_iret e # k) \<longleftrightarrow> simple_base L k"
| "kont_ok L k \<longleftrightarrow> any_base L k"

definition suspended :: "frame list \<Rightarrow> bool" where
  "suspended k \<longleftrightarrow> k \<noteq> [] \<and> is_tail (hd k)"

text \<open>With one of these on top, a running thread has interrupts masked.\<close>

fun masked :: "frame list \<Rightarrow> bool" where
  "masked (F_sema_down _ _ # _) \<longleftrightarrow> True"
| "masked (F_set_status _ # _) \<longleftrightarrow> True"
| "masked (F_iret _ # _) \<longleftrightarrow> True"
| "masked _ \<longleftrightarrow> False"

abbreviation st_of :: "'a sched_scheme \<Rightarrow> addr \<Rightarrow> task_status" where
  "st_of s \<equiv> \<lambda>t. status (task s t)"

abbreviation wlist :: "addr \<Rightarrow> addr" where
  "wlist l \<equiv> waiters (semaphore_of l)"

text \<open>The addresses: blocks are pages, no list overlaps another one or a tag, stacks stay in their page.\<close>

definition lists_of :: "addr set \<Rightarrow> 'a sched_scheme \<Rightarrow> addr set" where
  "lists_of L s = insert (thread_ready_list s) (wlist ` L)"

definition layout :: "addr set \<Rightarrow> addr set \<Rightarrow> 'a sched_scheme \<Rightarrow> bool" where
  "layout T L s \<longleftrightarrow>
     (\<forall>t\<in>T. t \<noteq> NULL) \<and> thread_ready_list s \<notin> wlist ` L \<and>
     (\<forall>a\<in>lists_of L s. \<forall>b\<in>lists_of L s. a \<noteq> b \<longrightarrow> foot a [] \<inter> foot b [] = {}) \<and>
     (\<forall>a\<in>lists_of L s. \<forall>t\<in>T. general_tag t \<notin> foot a [])"

text \<open>Every page directory in use translates the addresses of the page directories of all threads.\<close>

definition dirs_ok :: "addr set \<Rightarrow> 'a sched_scheme \<Rightarrow> bool" where
  "dirs_ok T s \<longleftrightarrow>
     (\<exists>D. 0x100000 \<in> D \<and> cr3 s \<in> D \<and>
        (\<forall>c\<in>D. \<forall>t\<in>T. pgdir (task s t) \<noteq> NULL \<longrightarrow>
           (\<exists>p\<in>D. addr_v2p (pgdir (task s t)) (s\<lparr>cr3 := c\<rparr>) = Inr p)))"

definition env_ok :: "addr set \<Rightarrow> addr set \<Rightarrow> 'a sched_scheme \<Rightarrow> bool" where
  "env_ok T L s \<longleftrightarrow> layout T L s \<and> dirs_ok T s \<and>
     (\<forall>t\<in>T. stack_magic (task s t) = 0x19870916 \<and>
        (t \<noteq> running_thread s \<longrightarrow> self_kstack (task s t) AND 0xfffff000 = t))"

definition queues_ok :: "addr set \<Rightarrow> 'a sched_scheme \<Rightarrow> addr list \<Rightarrow> (addr \<Rightarrow> addr list) \<Rightarrow> bool" where
  "queues_ok L s rq wq \<longleftrightarrow>
     dlist s (thread_ready_list s) (map general_tag rq) \<and>
     (\<forall>l\<in>L. dlist s (wlist l) (map general_tag (wq l)))"

text \<open>The states of the threads agree with the queues they are in.\<close>

definition thread_ok :: "addr set \<Rightarrow> bool \<Rightarrow> bool \<Rightarrow> task_status \<Rightarrow> frame list \<Rightarrow> bool \<Rightarrow> bool \<Rightarrow> bool" where
  "thread_ok L is_idle is_cur st k ready waiting \<longleftrightarrow>
     (st = TASK_READY \<longleftrightarrow> ready) \<and> (st = TASK_RUNNING \<longrightarrow> is_cur) \<and>
     (st = TASK_READY \<or> st = TASK_RUNNING \<or> st = TASK_BLOCKED) \<and>
     (st = TASK_BLOCKED \<longrightarrow> is_idle \<or> waiting) \<and> kont_ok L k \<and> (\<not> is_cur \<longrightarrow> suspended k)"

definition waiter_ok :: "addr \<Rightarrow> task_status \<Rightarrow> frame list \<Rightarrow> bool" where
  "waiter_ok l st k \<longleftrightarrow> st = TASK_BLOCKED \<and> suspended k \<and> waits_on (base_of k) l"

definition threads_ok :: "addr set \<Rightarrow> addr set \<Rightarrow> addr \<Rightarrow> addr \<Rightarrow> (addr \<Rightarrow> task_status) \<Rightarrow>
    (addr \<Rightarrow> frame list) \<Rightarrow> addr list \<Rightarrow> (addr \<Rightarrow> addr list) \<Rightarrow> bool" where
  "threads_ok T L idl cur st k rq wq \<longleftrightarrow>
     cur \<in> T \<and> idl \<in> T \<and> set rq \<subseteq> T \<and>
     (\<forall>t\<in>T. thread_ok L (t = idl) (t = cur) (st t) (k t) (t \<in> set rq) (\<exists>l\<in>L. t \<in> set (wq l))) \<and>
     (\<forall>l\<in>L. \<forall>t\<in>set (wq l). t \<in> T \<and> t \<noteq> idl \<and> waiter_ok l (st t) (k t))"

text \<open>
  Who has the semaphore of a lock: the holder, a thread between \<open>sema_down\<close> and becoming the holder,
  a thread between giving the holder up and \<open>sema_up\<close>.
\<close>

definition owns :: "(addr \<Rightarrow> frame list) \<Rightarrow> addr \<Rightarrow> addr \<Rightarrow> addr \<Rightarrow> bool" where
  "owns k h l t \<longleftrightarrow> h = t \<or> base_of (k t) = [F_lock_acquire l] \<or> base_of (k t) = [F_sema_up (semaphore_of l)]"

definition lock_ok :: "addr set \<Rightarrow> (addr \<Rightarrow> frame list) \<Rightarrow> u8 \<Rightarrow> addr \<Rightarrow> u32 \<Rightarrow> addr list \<Rightarrow> addr \<Rightarrow> bool" where
  "lock_ok T k v h r w l \<longleftrightarrow>
     (if v = 0 then \<exists>t. {t \<in> T. owns k h l t} = {t} else v = 1 \<and> {t \<in> T. owns k h l t} = {}) \<and>
     (h = NULL \<longleftrightarrow> r = 0) \<and>
     (h \<noteq> NULL \<longrightarrow> h \<in> T \<and> (\<forall>t\<in>T. base_of (k t) \<noteq> [F_lock_acquire l] \<and>
        base_of (k t) \<noteq> [F_sema_up (semaphore_of l)])) \<and>
     (w \<noteq> [] \<and> v = 1 \<longrightarrow> (\<exists>t\<in>T. t \<notin> set w \<and> waits_on (base_of (k t)) l))"

definition locks_ok :: "addr set \<Rightarrow> addr set \<Rightarrow> 'a sync_scheme \<Rightarrow> (addr \<Rightarrow> addr list) \<Rightarrow> bool" where
  "locks_ok T L s wq \<longleftrightarrow>
     (\<forall>l\<in>L. lock_ok T (kont s) (sem_value s (semaphore_of l)) (holder s l) (holder_repeat_nr s l) (wq l) l)"

text \<open>The idle thread never waits for a lock.\<close>

definition idle_free :: "'a sched_scheme \<Rightarrow> bool" where
  "idle_free s \<longleftrightarrow> (\<forall>l. \<not> waits_on (base_of (kont s (idle_thread s))) l)"

definition core :: "addr set \<Rightarrow> addr set \<Rightarrow> 'a sync_scheme \<Rightarrow> addr list \<Rightarrow> (addr \<Rightarrow> addr list) \<Rightarrow> bool" where
  "core T L s rq wq \<longleftrightarrow> env_ok T L s \<and> queues_ok L s rq wq \<and>
     threads_ok T L (idle_thread s) (running_thread s) (st_of s) (kont s) rq wq \<and> locks_ok T L s wq \<and>
     idle_free s"

definition kinv :: "addr set \<Rightarrow> addr set \<Rightarrow> 'a sync_scheme \<Rightarrow> bool" where
  "kinv T L s \<longleftrightarrow> (\<exists>rq wq. core T L s rq wq) \<and>
     status (task s (running_thread s)) = TASK_RUNNING \<and>
     (masked (kont s (running_thread s)) \<longrightarrow> intr_get_status s = INTR_OFF)"

section \<open>Scheduling keeps the invariant\<close>

lemma more_eq:
  assumes "sched.more s' = sched.more s"
  shows "sem_value s' = sem_value s" "holder s' = holder s" "holder_repeat_nr s' = holder_repeat_nr s"
    "total_ticks s' = total_ticks s"
  using assms by (cases s; cases s'; simp)+

lemma threads_okD:
  assumes "threads_ok T L idl cur st k rq wq"
  shows "cur \<in> T" "idl \<in> T" "set rq \<subseteq> T"
    "\<And>t. t \<in> T \<Longrightarrow> thread_ok L (t = idl) (t = cur) (st t) (k t) (t \<in> set rq) (\<exists>l\<in>L. t \<in> set (wq l))"
    "\<And>l t. l \<in> L \<Longrightarrow> t \<in> set (wq l) \<Longrightarrow> t \<in> T \<and> t \<noteq> idl \<and> waiter_ok l (st t) (k t)"
  using assms unfolding threads_ok_def by blast+

lemma threads_okI:
  assumes "cur \<in> T" and "idl \<in> T" and "set rq \<subseteq> T"
    and "\<And>t. t \<in> T \<Longrightarrow>
      thread_ok L (t = idl) (t = cur) (st t) (k t) (t \<in> set rq) (\<exists>l\<in>L. t \<in> set (wq l))"
    and "\<And>l t. l \<in> L \<Longrightarrow> t \<in> set (wq l) \<Longrightarrow> t \<in> T \<and> t \<noteq> idl \<and> waiter_ok l (st t) (k t)"
  shows "threads_ok T L idl cur st k rq wq"
  unfolding threads_ok_def using assms by blast

lemma ready_iff: "threads_ok T L idl cur st k rq wq \<Longrightarrow> t \<in> T \<Longrightarrow> st t = TASK_READY \<longleftrightarrow> t \<in> set rq"
  using threads_okD(4) by (fastforce simp: thread_ok_def)

lemma waiting_blocked:
  "threads_ok T L idl cur st k rq wq \<Longrightarrow> l \<in> L \<Longrightarrow> t \<in> set (wq l) \<Longrightarrow>
   t \<in> T \<and> t \<noteq> idl \<and> st t = TASK_BLOCKED"
  using threads_okD(5) [of T L idl cur st k rq wq l t] by (simp add: waiter_ok_def)

lemma candidates_in:
  assumes thr: "threads_ok T L (idle_thread s) (running_thread s) (st_of s) k rq wq"
  shows "candidates s rq \<noteq> []" and "set (candidates s rq) \<subseteq> T"
    and "\<And>l. l \<in> L \<Longrightarrow> set (candidates s rq) \<inter> set (wq l) = {}"
proof -
  note D = threads_okD [OF thr]
  show "candidates s rq \<noteq> []" by (simp add: candidates_def)
  show "set (candidates s rq) \<subseteq> T" using D(1-3) by (simp add: candidates_def)
  fix l assume l: "l \<in> L"
  have "t \<notin> set (candidates s rq)" if t: "t \<in> set (wq l)" for t
  proof -
    have "t \<in> T" "t \<noteq> idle_thread s" "st_of s t = TASK_BLOCKED"
      using waiting_blocked [OF thr l t] by auto
    moreover from this ready_iff [OF thr, of t] have "t \<notin> set rq" by simp
    ultimately show ?thesis by (auto simp: candidates_def)
  qed
  then show "set (candidates s rq) \<inter> set (wq l) = {}" by blast
qed

lemma foot_split: "foot a xs = foot a [] \<union> set xs"
  by (auto simp: foot_def ring_def)

lemma layout_foot:
  assumes "layout T L s" and "a \<in> lists_of L s" and "b \<in> lists_of L s" and "a \<noteq> b"
    and "set xs \<subseteq> T" and "set ys \<subseteq> T" and "set xs \<inter> set ys = {}"
  shows "foot a (map general_tag xs) \<inter> foot b (map general_tag ys) = {}"
proof -
  have "foot a [] \<inter> foot b [] = {}" using assms(1-4) unfolding layout_def by blast
  moreover have "foot a [] \<inter> general_tag ` set ys = {}" "foot b [] \<inter> general_tag ` set xs = {}"
    using assms unfolding layout_def by blast+
  moreover have "general_tag ` set xs \<inter> general_tag ` set ys = {}" using assms(7) by auto
  ultimately show ?thesis
    unfolding foot_split [of a "map general_tag xs"] foot_split [of b "map general_tag ys"] by auto
qed

lemma layout_tag:
  "layout T L s \<Longrightarrow> a \<in> lists_of L s \<Longrightarrow> t \<in> T \<Longrightarrow> t \<notin> set xs \<Longrightarrow>
   general_tag t \<notin> foot a (map general_tag xs)"
  unfolding layout_def foot_split [of a "map general_tag xs"] by auto

lemma in_lists_of [simp]:
  "thread_ready_list s \<in> lists_of L s" "l \<in> L \<Longrightarrow> wlist l \<in> lists_of L s"
  by (auto simp: lists_of_def)

lemma layout_ready: "layout T L s \<Longrightarrow> l \<in> L \<Longrightarrow> wlist l \<noteq> thread_ready_list s"
  unfolding layout_def by (metis imageI)

lemma dirs_ok_activate:
  assumes "dirs_ok T s" and "t \<in> T" and "pgdir (task s t) \<noteq> NULL"
  shows "\<exists>p. addr_v2p (pgdir (task s t)) s = Inr p"
proof -
  from assms obtain p where "addr_v2p (pgdir (task s t)) (s\<lparr>cr3 := cr3 s\<rparr>) = Inr p"
    unfolding dirs_ok_def by metis
  then show ?thesis by simp
qed

lemma core_schedule_pre:
  assumes C: "core T L s rq wq" and off: "intr_get_status s = INTR_OFF"
  shows "schedule_pre s rq"
proof -
  have lay: "layout T L s" and dirs: "dirs_ok T s"
    and Q: "dlist s (thread_ready_list s) (map general_tag rq)"
    and thr: "threads_ok T L (idle_thread s) (running_thread s) (st_of s) (kont s) rq wq"
    using C by (auto simp: core_def env_ok_def queues_ok_def)
  note cand = candidates_in [OF thr]
  have nx: "hd (candidates s rq) \<in> T" using cand by (meson hd_in_set subsetD)
  have "can_activate s (hd (candidates s rq))"
    using lay dirs_ok_activate [OF dirs nx] nx by (auto simp: can_activate_def layout_def)
  moreover have "general_tag (running_thread s) \<notin> foot (thread_ready_list s) (map general_tag rq)"
    if "st_of s (running_thread s) = TASK_RUNNING"
    using threads_okD(1) [OF thr] ready_iff [OF thr] that by (intro layout_tag [OF lay]) force+
  moreover have "st_of s (idle_thread s) = TASK_BLOCKED"
      "general_tag (idle_thread s) \<notin> foot (thread_ready_list s) []"
    if "st_of s (running_thread s) \<noteq> TASK_RUNNING" "rq = []"
    using threads_okD(2) [OF thr] threads_okD(4) [OF thr, of "idle_thread s"] that
      layout_tag [OF lay, of "thread_ready_list s" "idle_thread s" "[]"]
    by (auto simp: thread_ok_def)
  ultimately show ?thesis using off Q by (simp add: schedule_pre_def)
qed

lemma threads_ok_schedule:
  assumes thr: "threads_ok T L idl cur st k rq wq" and k: "suspended (k cur)"
    and dist: "distinct cand"
    and cand: "cand = (if st cur = TASK_RUNNING then rq @ [cur] else if rq = [] then [idl] else rq)"
    and st': "\<And>t. st' t = (if t = hd cand then TASK_RUNNING
                else if t = cur \<and> st cur = TASK_RUNNING then TASK_READY else st t)"
  shows "threads_ok T L idl (hd cand) st' k (tl cand) wq"
proof -
  obtain n ns where c: "cand = n # ns" by (cases cand) (auto simp: cand split: if_splits)
  note D = threads_okD [OF thr]
  have sub: "set cand \<subseteq> T" using D(1-3) by (simp add: cand)
  have inc: "t \<in> set cand \<longleftrightarrow> st t = TASK_READY \<or> (t = cur \<and> st cur = TASK_RUNNING) \<or>
      (st cur \<noteq> TASK_RUNNING \<and> rq = [] \<and> t = idl)" if "t \<in> T" for t
    using ready_iff [OF thr that] by (auto simp: cand)
  have mem: "st' t = TASK_READY \<longleftrightarrow> t \<in> set ns" if "t \<in> T" for t
  proof -
    have "t \<in> set ns \<longleftrightarrow> t \<in> set cand \<and> t \<noteq> n" using dist c by auto
    moreover have "n = idl" if "st cur \<noteq> TASK_RUNNING" "rq = []" using that c by (simp add: cand)
    ultimately show ?thesis using c inc [OF that] by (auto simp: st')
  qed
  have wqs: "t \<in> T \<and> t \<noteq> idl \<and> waiter_ok l (st' t) (k t)" if "l \<in> L" "t \<in> set (wq l)" for l t
  proof -
    have "t \<in> T" "t \<noteq> idl" "st t = TASK_BLOCKED" using waiting_blocked [OF thr that] by auto
    moreover from this inc [of t] have "t \<noteq> n" using c by auto
    ultimately show ?thesis using D(5) [OF that] c by (auto simp: st' waiter_ok_def)
  qed
  have n: "n \<in> T" "set ns \<subseteq> T" using sub c by auto
  have per: "thread_ok L (t = idl) (t = n) (st' t) (k t) (t \<in> set ns) (\<exists>l\<in>L. t \<in> set (wq l))"
    if t: "t \<in> T" for t
  proof (cases "t = n")
    case True
    with D(4) [OF t] mem [OF t] c show ?thesis by (simp add: st' thread_ok_def)
  next
    case False
    then have "st' t = (if t = cur \<and> st cur = TASK_RUNNING then TASK_READY else st t)"
      using c by (simp add: st')
    with False show ?thesis
      using D(4) [OF t] mem [OF t] k by (cases "t = cur") (auto simp: thread_ok_def)
  qed
  show ?thesis unfolding c list.sel by (rule threads_okI [OF n(1) D(2) n(2) per wqs])
qed

lemma dirs_ok_cong:
  assumes "dirs_ok T s" and "phys s' = phys s" and pg: "\<And>t. pgdir (task s' t) = pgdir (task s t)"
    and c: "cr3 s' = cr3 s \<or> cr3 s' = 0x100000 \<or>
      (\<exists>t\<in>T. pgdir (task s t) \<noteq> NULL \<and> addr_v2p (pgdir (task s t)) s = Inr (cr3 s'))"
  shows "dirs_ok T s'"
proof -
  from assms(1) obtain D where D: "0x100000 \<in> D" "cr3 s \<in> D"
    "\<And>c t. c \<in> D \<Longrightarrow> t \<in> T \<Longrightarrow> pgdir (task s t) \<noteq> NULL \<Longrightarrow>
       \<exists>p\<in>D. addr_v2p (pgdir (task s t)) (s\<lparr>cr3 := c\<rparr>) = Inr p"
    unfolding dirs_ok_def by blast
  have "addr_v2p v (s'\<lparr>cr3 := c\<rparr>) = addr_v2p v (s\<lparr>cr3 := c\<rparr>)" for v c
    using assms(2) by (intro addr_v2p_cong) simp_all
  moreover have "cr3 s' \<in> D"
    using c D(1,2) D(3) [OF D(2)] by fastforce
  ultimately show ?thesis
    unfolding dirs_ok_def pg using D(1,3) by (intro exI [of _ D]) simp
qed

lemma schedule_kinv:
  assumes C: "core T L s rq wq" and off: "intr_get_status s = INTR_OFF"
    and susp: "suspended (kont s (running_thread s))"
  shows "\<exists>s'. schedule s = Inr s' \<and> kinv T L s'"
proof -
  let ?c = "candidates s rq"
  have env: "env_ok T L s" and Q: "queues_ok L s rq wq" and locks: "locks_ok T L s wq"
    and thr: "threads_ok T L (idle_thread s) (running_thread s) (st_of s) (kont s) rq wq"
    and "idle_free s" using C by (auto simp: core_def)
  have lay: "layout T L s" and dirs: "dirs_ok T s" using env by (auto simp: env_ok_def)
  note pre = core_schedule_pre [OF C off] and cand = candidates_in [OF thr]
  have nx: "hd ?c \<in> T" using cand by (meson hd_in_set subsetD)
  from schedule_spec [OF pre] obtain s' where s': "schedule s = Inr s'" and sch: "scheduled s rq s'"
    by blast
  note S = sch [unfolded scheduled_def Let_def]
  have run: "running_thread s' = hd ?c"
    using S env nx unfolding running_thread_def env_ok_def by auto
  have "dirs_ok T s'"
  proof (rule dirs_ok_cong [OF dirs])
    show "cr3 s' = cr3 s \<or> cr3 s' = 0x100000 \<or>
      (\<exists>t\<in>T. pgdir (task s t) \<noteq> NULL \<and> addr_v2p (pgdir (task s t)) s = Inr (cr3 s'))"
      using S nx by (cases "pgdir (task s (hd ?c)) = NULL") auto
  qed (use S in simp_all)
  moreover have "layout T L s'" using lay S by (simp add: layout_def lists_of_def)
  ultimately have env': "env_ok T L s'"
    using env S run by (auto simp: env_ok_def running_thread_def)
  have dist: "distinct ?c"
    using requeued_dlist(1) [OF pre] dl.Q_distinct distinct_map by blast
  have "dlist s' (wlist l) (map general_tag (wq l)) = dlist s (wlist l) (map general_tag (wq l))"
    if l: "l \<in> L" for l
  proof (rule dlist_agree)
    show "agree_off (foot (thread_ready_list s) (map general_tag ?c)) s s'" using S by simp
    show "foot (wlist l) (map general_tag (wq l)) \<inter>
        foot (thread_ready_list s) (map general_tag ?c) = {}"
      using l cand(2,3) threads_okD(5) [OF thr] layout_ready [OF lay l] by (intro layout_foot [OF lay]) auto
  qed
  then have Q': "queues_ok L s' (tl ?c) wq" using Q S by (simp add: queues_ok_def)
  have thr': "threads_ok T L (idle_thread s') (running_thread s') (st_of s') (kont s') (tl ?c) wq"
    using threads_ok_schedule [OF thr susp dist, of "st_of s'"] S run
    by (simp add: candidates_def)
  have "locks_ok T L s' wq" using locks S more_eq [of s' s] by (simp add: locks_ok_def)
  moreover have "idle_free s'" using \<open>idle_free s\<close> S by (simp add: idle_free_def)
  ultimately have "core T L s' (tl ?c) wq" using env' Q' thr' by (simp add: core_def)
  moreover have "st_of s' (running_thread s') = TASK_RUNNING" using S run by simp
  moreover have "intr_get_status s' = INTR_OFF" using S off intr_status_cong by metis
  ultimately show ?thesis using s' by (auto simp: kinv_def)
qed

section \<open>The locks\<close>

lemma lock_ok_cong:
  assumes "\<And>t. t \<in> T \<Longrightarrow> (base_of (k' t) = [F_lock_acquire l] \<longleftrightarrow> base_of (k t) = [F_lock_acquire l]) \<and>
      (base_of (k' t) = [F_sema_up (semaphore_of l)] \<longleftrightarrow> base_of (k t) = [F_sema_up (semaphore_of l)]) \<and>
      (waits_on (base_of (k' t)) l \<longleftrightarrow> waits_on (base_of (k t)) l)"
  shows "lock_ok T k' v h r w l = lock_ok T k v h r w l"
proof -
  have "{t \<in> T. owns k' h l t} = {t \<in> T. owns k h l t}"
    using assms by (auto simp: owns_def)
  then show ?thesis unfolding lock_ok_def using assms by (simp cong: conj_cong bex_cong)
qed

lemma base_of_simps [simp]:
  "base_of [] = []" "base_of (F_set_status st # k) = base_of k" "base_of (F_iret e # k) = base_of k"
  "base_of (F_lock_acquire l # k) = F_lock_acquire l # k" "base_of (F_sema_up p # k) = F_sema_up p # k"
  "base_of (F_sema_down p st # k) = F_sema_down p st # k"
  "base_of (F_ticks_to_sleep a n # k) = F_ticks_to_sleep a n # k"
  "base_of (F_sti_hlt # k) = F_sti_hlt # k"
  by (simp_all add: base_of_def)

lemma semaphore_of_inj [simp]: "semaphore_of a = semaphore_of b \<longleftrightarrow> a = b"
  by (simp add: semaphore_of_def)

text \<open>\<open>free_of l b\<close>: a call that has nothing to do with the semaphore of the lock \<open>l\<close>.\<close>

definition free_of :: "addr \<Rightarrow> frame list \<Rightarrow> bool" where
  "free_of l b \<longleftrightarrow> b \<noteq> [F_lock_acquire l] \<and> b \<noteq> [F_sema_up (semaphore_of l)]"

lemma free_of_waits: "waits_on b l' \<Longrightarrow> free_of l b"
  by (auto simp: free_of_def elim: waits_on.elims)

lemma waits_on_iff: "waits_on b l \<longleftrightarrow> (\<exists>st. b = [F_sema_down (semaphore_of l) st, F_lock_acquire l])"
  by (auto elim!: waits_on.elims)

lemma lock_others:
  assumes "lock_ok T k v h r w l" and "t \<in> T" and "base_of (k t) = b" and "base_of b' = b'"
    and "free_of l b" and "free_of l b'" and "\<not> waits_on b l" and "\<not> waits_on b' l"
  shows "lock_ok T (k(t := b')) v h r w l"
  using assms lock_ok_cong [of T "k(t := b')" l k v h r w] by (simp add: free_of_def)

lemma lock_wait:
  assumes "lock_ok T k 0 h r w l" and "free_of l (base_of (k t))" and "free_of l (base_of b)"
  shows "lock_ok T (k(t := b)) 0 h r w' l"
proof -
  have "{u \<in> T. owns (k(t := b)) h l u} = {u \<in> T. owns k h l u}"
    using assms by (auto simp: owns_def free_of_def)
  with assms show ?thesis by (auto simp: lock_ok_def free_of_def)
qed

lemma lock_value: "lock_ok T k v h r w l \<Longrightarrow> v = 0 \<or> v = 1"
  by (auto simp: lock_ok_def split: if_splits)

lemma lock_take:
  assumes ok: "lock_ok T k 1 h r w l" and t: "t \<in> T" "base_of (k t) = [] \<or> waits_on (base_of (k t)) l"
    and nn: "\<forall>u\<in>T. u \<noteq> NULL"
  shows "lock_ok T (k(t := [F_lock_acquire l])) 0 h r w l"
proof -
  have none: "\<not> owns k h l u" if "u \<in> T" for u using ok that by (auto simp: lock_ok_def)
  have "h = NULL" using ok none by (auto simp: lock_ok_def owns_def)
  moreover have "{u \<in> T. owns (k(t := [F_lock_acquire l])) h l u} = {t}"
    using none t by (auto simp: owns_def)
  ultimately show ?thesis using ok by (auto simp: lock_ok_def)
qed

lemma lock_owner:
  assumes "lock_ok T k v h r w l" and "t \<in> T" and "owns k h l t"
  shows "v = 0" and "{u \<in> T. owns k h l u} = {t}"
proof -
  have t: "t \<in> {u \<in> T. owns k h l u}" using assms by simp
  then show v: "v = 0" using assms(1) unfolding lock_ok_def by (metis empty_iff)
  with assms(1) obtain u where "{u \<in> T. owns k h l u} = {u}" by (auto simp: lock_ok_def)
  with t show "{u \<in> T. owns k h l u} = {t}" by auto
qed

lemma lock_hold:
  assumes ok: "lock_ok T k v h r w l" and t: "t \<in> T" "t \<noteq> NULL" and f: "base_of (k t) = [F_lock_acquire l]"
  shows "r = 0" and "lock_ok T (k(t := [])) v t 1 w l"
proof -
  have h: "h = NULL" using ok t f by (auto simp: lock_ok_def)
  then show "r = 0" using ok by (simp add: lock_ok_def)
  have "owns k h l t" using f by (simp add: owns_def)
  note v = lock_owner(1) [OF ok t(1) this] and one = lock_owner(2) [OF ok t(1) this]
  have clean: "base_of ((k(t := [])) u) \<noteq> [F_lock_acquire l]"
      "base_of ((k(t := [])) u) \<noteq> [F_sema_up (semaphore_of l)]" if "u \<in> T" for u
    using one that by (auto simp: owns_def)
  moreover have "{u \<in> T. owns (k(t := [])) t l u} = {t}"
    using t one by (auto simp: owns_def)
  ultimately show "lock_ok T (k(t := [])) v t 1 w l" using v t by (auto simp: lock_ok_def)
qed

lemma lock_repeat: "lock_ok T k v h r w l \<Longrightarrow> h \<noteq> NULL \<Longrightarrow> r' \<noteq> 0 \<Longrightarrow> lock_ok T k v h r' w l"
  by (simp add: lock_ok_def)

lemma lock_drop:
  assumes ok: "lock_ok T k v t r w l" and t: "t \<in> T" "t \<noteq> NULL" and nn: "\<forall>u\<in>T. u \<noteq> NULL"
  shows "lock_ok T (k(t := [F_sema_up (semaphore_of l)])) v NULL 0 w l"
proof -
  have "owns k t l t" by (simp add: owns_def)
  note v = lock_owner(1) [OF ok t(1) this] and one = lock_owner(2) [OF ok t(1) this]
  have "{u \<in> T. owns (k(t := [F_sema_up (semaphore_of l)])) NULL l u} = {t}"
    using one nn by (auto simp: owns_def)
  with v show ?thesis by (auto simp: lock_ok_def)
qed

lemma lock_up:
  assumes ok: "lock_ok T k v h r w l" and t: "t \<in> T" and f: "base_of (k t) = [F_sema_up (semaphore_of l)]"
    and nn: "\<forall>u\<in>T. u \<noteq> NULL"
    and w: "distinct w" "\<And>u. u \<in> set w \<Longrightarrow> u \<in> T \<and> waits_on (base_of (k u)) l"
  shows "v = 0" and "lock_ok T (k(t := [])) 1 h r (tl w) l"
proof -
  have h: "h = NULL" using ok t f by (auto simp: lock_ok_def)
  have o: "owns k h l t" using f by (simp add: owns_def)
  show "v = 0" by (rule lock_owner(1) [OF ok t o])
  have "\<not> owns (k(t := [])) h l u" if "u \<in> T" for u
    using lock_owner(2) [OF ok t o] that h nn by (auto simp: owns_def)
  moreover have "\<exists>u\<in>T. u \<notin> set (tl w) \<and> waits_on (base_of ((k(t := [])) u)) l" if "tl w \<noteq> []"
  proof -
    from that obtain x xs where x: "w = x # xs" by (cases w) auto
    have "x \<noteq> t" using f w(2) [of x] x by auto
    then show ?thesis using x w by (intro bexI [of _ x]) auto
  qed
  ultimately show "lock_ok T (k(t := [])) 1 h r (tl w) l"
    using ok h by (auto simp: lock_ok_def)
qed

section \<open>How the parts of the invariant move\<close>

lemma env_ok_cong:
  assumes "env_ok T L s" and "phys s' = phys s" and "cr3 s' = cr3 s" and "esp s' = esp s"
    and "thread_ready_list s' = thread_ready_list s"
    and "\<And>t. pgdir (task s' t) = pgdir (task s t)" and "\<And>t. stack_magic (task s' t) = stack_magic (task s t)"
    and "\<And>t. self_kstack (task s' t) = self_kstack (task s t)"
  shows "env_ok T L s'"
  using assms dirs_ok_cong [of T s s'] running_thread_cong [of s' s]
  by (simp add: env_ok_def layout_def lists_of_def)

lemma running_not_waiting:
  "threads_ok T L idl cur st k rq wq \<Longrightarrow> st t = TASK_RUNNING \<Longrightarrow> l \<in> L \<Longrightarrow> t \<notin> set (wq l)"
  using waiting_blocked by fastforce

lemma threads_ok_kont:
  assumes thr: "threads_ok T L idl cur st k rq wq" and run: "st cur = TASK_RUNNING" and b: "kont_ok L b"
  shows "threads_ok T L idl cur st (k(cur := b)) rq wq"
proof (rule threads_okI)
  note D = threads_okD [OF thr]
  show "cur \<in> T" "idl \<in> T" "set rq \<subseteq> T" by (fact D)+
  show "thread_ok L (t = idl) (t = cur) (st t) ((k(cur := b)) t) (t \<in> set rq) (\<exists>l\<in>L. t \<in> set (wq l))"
    if "t \<in> T" for t
    using D(4) [OF that] b by (cases "t = cur") (auto simp: thread_ok_def)
  show "t \<in> T \<and> t \<noteq> idl \<and> waiter_ok l (st t) ((k(cur := b)) t)" if "l \<in> L" "t \<in> set (wq l)" for l t
    using D(5) [OF that] running_not_waiting [OF thr run that(1)] that(2) by auto
qed

lemma threads_ok_yield:
  assumes thr: "threads_ok T L idl cur st k rq wq" and run: "st cur = TASK_RUNNING"
    and b: "kont_ok L b" "suspended b"
  shows "threads_ok T L idl cur (st(cur := TASK_READY)) (k(cur := b)) (rq @ [cur]) wq"
proof (rule threads_okI)
  note D = threads_okD [OF thr]
  show "cur \<in> T" "idl \<in> T" "set (rq @ [cur]) \<subseteq> T" using D(1-3) by simp_all
  show "thread_ok L (t = idl) (t = cur) ((st(cur := TASK_READY)) t) ((k(cur := b)) t)
      (t \<in> set (rq @ [cur])) (\<exists>l\<in>L. t \<in> set (wq l))" if "t \<in> T" for t
    using D(4) [OF that] b by (cases "t = cur") (auto simp: thread_ok_def)
  show "t \<in> T \<and> t \<noteq> idl \<and> waiter_ok l ((st(cur := TASK_READY)) t) ((k(cur := b)) t)"
    if "l \<in> L" "t \<in> set (wq l)" for l t
    using D(5) [OF that] running_not_waiting [OF thr run that(1)] that(2) by auto
qed

lemma threads_ok_idle:
  assumes thr: "threads_ok T L cur cur st k rq wq" and run: "st cur = TASK_RUNNING"
    and b: "kont_ok L b" "suspended b"
  shows "threads_ok T L cur cur (st(cur := TASK_BLOCKED)) (k(cur := b)) rq wq"
proof (rule threads_okI)
  note D = threads_okD [OF thr]
  show "cur \<in> T" "cur \<in> T" "set rq \<subseteq> T" by (fact D)+
  show "thread_ok L (t = cur) (t = cur) ((st(cur := TASK_BLOCKED)) t) ((k(cur := b)) t)
      (t \<in> set rq) (\<exists>l\<in>L. t \<in> set (wq l))" if "t \<in> T" for t
    using D(4) [OF that] b run by (cases "t = cur") (auto simp: thread_ok_def)
  show "t \<in> T \<and> t \<noteq> cur \<and> waiter_ok l ((st(cur := TASK_BLOCKED)) t) ((k(cur := b)) t)"
    if "l \<in> L" "t \<in> set (wq l)" for l t
    using D(5) [OF that] by auto
qed

lemma threads_ok_wait:
  assumes thr: "threads_ok T L idl cur st k rq wq" and run: "st cur = TASK_RUNNING"
    and b: "kont_ok L b" "suspended b" and l: "l \<in> L" "waits_on (base_of b) l" and ni: "cur \<noteq> idl"
  shows "threads_ok T L idl cur (st(cur := TASK_BLOCKED)) (k(cur := b)) rq (wq(l := wq l @ [cur]))"
proof (rule threads_okI)
  note D = threads_okD [OF thr]
  show "cur \<in> T" "idl \<in> T" "set rq \<subseteq> T" by (fact D)+
  have w: "(\<exists>l'\<in>L. t \<in> set ((wq(l := wq l @ [cur])) l')) \<longleftrightarrow> t = cur \<or> (\<exists>l'\<in>L. t \<in> set (wq l'))" for t
    using l(1) by auto
  show "thread_ok L (t = idl) (t = cur) ((st(cur := TASK_BLOCKED)) t) ((k(cur := b)) t)
      (t \<in> set rq) (\<exists>l'\<in>L. t \<in> set ((wq(l := wq l @ [cur])) l'))" if "t \<in> T" for t
    using D(4) [OF that] b run unfolding w by (cases "t = cur") (auto simp: thread_ok_def)
  show "t \<in> T \<and> t \<noteq> idl \<and> waiter_ok l' ((st(cur := TASK_BLOCKED)) t) ((k(cur := b)) t)"
    if "l' \<in> L" "t \<in> set ((wq(l := wq l @ [cur])) l')" for l' t
  proof (cases "t = cur")
    case True
    with that(2) running_not_waiting [OF thr run that(1)] have "l' = l" by (auto split: if_splits)
    with True b l ni D(1) show ?thesis by (simp add: waiter_ok_def)
  next
    case False
    with that have "t \<in> set (wq l')" by (auto split: if_splits)
    from D(5) [OF that(1) this] False show ?thesis by simp
  qed
qed

lemma threads_ok_wake:
  assumes thr: "threads_ok T L idl cur st k rq wq" and run: "st cur = TASK_RUNNING"
    and l: "l \<in> L" "wq l = x # xs" "x \<notin> set xs"
  shows "threads_ok T L idl cur (st(x := TASK_READY)) k (x # rq) (wq(l := xs))"
proof (rule threads_okI)
  note D = threads_okD [OF thr]
  have x: "x \<in> T" "x \<noteq> idl" "waiter_ok l (st x) (k x)" using D(5) [of l x] l by auto
  have only: "l' = l" if "l' \<in> L" "x \<in> set (wq l')" for l'
    using D(5) [OF that] x(3) by (auto simp: waits_on_iff waiter_ok_def)
  have rest: "t \<in> set ((wq(l := xs)) l') \<longleftrightarrow> t \<in> set (wq l') \<and> t \<noteq> x" if "l' \<in> L" for t l'
    using only [OF that] l by (cases "l' = l") auto
  have w: "(\<exists>l'\<in>L. t \<in> set ((wq(l := xs)) l')) \<longleftrightarrow> t \<noteq> x \<and> (\<exists>l'\<in>L. t \<in> set (wq l'))" for t
    using rest by auto
  show "cur \<in> T" "idl \<in> T" "set (x # rq) \<subseteq> T" using D(1-3) x(1) by simp_all
  show "thread_ok L (t = idl) (t = cur) ((st(x := TASK_READY)) t) (k t) (t \<in> set (x # rq))
      (\<exists>l'\<in>L. t \<in> set ((wq(l := xs)) l'))" if "t \<in> T" for t
    using D(4) [OF that] unfolding w by (cases "t = x") (auto simp: thread_ok_def)
  show "t \<in> T \<and> t \<noteq> idl \<and> waiter_ok l' ((st(x := TASK_READY)) t) (k t)"
    if "l' \<in> L" "t \<in> set ((wq(l := xs)) l')" for l' t
    using D(5) [OF that(1)] that(2) unfolding rest [OF that(1)] by auto
qed

section \<open>How the queues move\<close>

lemma queues_disjoint:
  assumes thr: "threads_ok T L idl cur st k rq wq" and l: "l \<in> L"
  shows "set (wq l) \<subseteq> T" and "set rq \<inter> set (wq l) = {}"
    and "l' \<in> L \<Longrightarrow> l' \<noteq> l \<Longrightarrow> set (wq l') \<inter> set (wq l) = {}"
proof -
  show "set (wq l) \<subseteq> T" using threads_okD(5) [OF thr l] by blast
  have "t \<notin> set rq" if "t \<in> set (wq l)" for t
    using waiting_blocked [OF thr l that] ready_iff [OF thr, of t] by auto
  then show "set rq \<inter> set (wq l) = {}" by blast
  assume l': "l' \<in> L" "l' \<noteq> l"
  have "t \<notin> set (wq l')" if "t \<in> set (wq l)" for t
    using threads_okD(5) [OF thr l that] threads_okD(5) [OF thr l'(1), of t] l'(2)
    by (auto simp: waiter_ok_def waits_on_iff)
  then show "set (wq l') \<inter> set (wq l) = {}" by blast
qed

lemma wlist_inj [simp]: "wlist a = wlist b \<longleftrightarrow> a = b"
  by (simp add: waiters_def)

lemma queues_append_ready:
  assumes Q: "queues_ok L s rq wq" and lay: "layout T L s"
    and thr: "threads_ok T L idl cur st k rq wq" and run: "st cur = TASK_RUNNING"
  shows "queues_ok L (list_append (thread_ready_list s) (general_tag cur) s) (rq @ [cur]) wq"
proof -
  let ?R = "thread_ready_list s"
  have R: "dlist s ?R (map general_tag rq)" and W: "\<And>l. l \<in> L \<Longrightarrow> dlist s (wlist l) (map general_tag (wq l))"
    using Q by (auto simp: queues_ok_def)
  have cur: "cur \<in> T" "cur \<notin> set rq" using threads_okD(1) [OF thr] ready_iff [OF thr, of cur] run by auto
  have new: "general_tag cur \<notin> foot ?R (map general_tag rq)"
    by (rule layout_tag [OF lay _ cur]) simp
  have "dlist (list_append ?R (general_tag cur) s) (wlist l) (map general_tag (wq l))" if l: "l \<in> L" for l
  proof (rule dl.append_frame [OF R new W [OF l]])
    have "set (rq @ [cur]) \<inter> set (wq l) = {}"
      using queues_disjoint(2) [OF thr l] running_not_waiting [OF thr run l] by auto
    then have "foot (wlist l) (map general_tag (wq l)) \<inter> foot ?R (map general_tag (rq @ [cur])) = {}"
      using l cur threads_okD(3) [OF thr] queues_disjoint(1) [OF thr l] layout_ready [OF lay l]
      by (intro layout_foot [OF lay]) auto
    then show "foot (wlist l) (map general_tag (wq l)) \<inter>
        insert (general_tag cur) (foot ?R (map general_tag rq)) = {}" by auto
  qed
  with dlist_append(1) [OF R new] show ?thesis by (simp add: queues_ok_def)
qed

lemma queues_append_wait:
  assumes Q: "queues_ok L s rq wq" and lay: "layout T L s" and l: "l \<in> L"
    and thr: "threads_ok T L idl cur st k rq wq" and run: "st cur = TASK_RUNNING"
  shows "queues_ok L (list_append (wlist l) (general_tag cur) s) rq (wq(l := wq l @ [cur]))"
proof -
  let ?s = "list_append (wlist l) (general_tag cur) s"
  have R: "dlist s (thread_ready_list s) (map general_tag rq)"
    and W: "\<And>l. l \<in> L \<Longrightarrow> dlist s (wlist l) (map general_tag (wq l))"
    using Q by (auto simp: queues_ok_def)
  have cur: "cur \<in> T" "cur \<notin> set rq" using threads_okD(1) [OF thr] ready_iff [OF thr, of cur] run by auto
  have nw: "cur \<notin> set (wq l')" if "l' \<in> L" for l' using running_not_waiting [OF thr run that] .
  have new: "general_tag cur \<notin> foot (wlist l) (map general_tag (wq l))"
    using layout_tag [OF lay _ cur(1) nw [OF l]] l by simp
  have keep: "dlist ?s a (map general_tag xs)"
    if "a \<in> lists_of L s" "a \<noteq> wlist l" "dlist s a (map general_tag xs)" "set xs \<subseteq> T"
      "set xs \<inter> set (wq l @ [cur]) = {}" for a xs
  proof (rule dl.append_frame [OF W [OF l] new that(3)])
    have "foot a (map general_tag xs) \<inter> foot (wlist l) (map general_tag (wq l @ [cur])) = {}"
      using that l cur queues_disjoint(1) [OF thr l] by (intro layout_foot [OF lay]) auto
    then show "foot a (map general_tag xs) \<inter>
        insert (general_tag cur) (foot (wlist l) (map general_tag (wq l))) = {}" by auto
  qed
  have "dlist ?s (thread_ready_list s) (map general_tag rq)"
    using R cur queues_disjoint(2) [OF thr l] threads_okD(3) [OF thr] layout_ready [OF lay l]
    by (intro keep) auto
  moreover have "dlist ?s (wlist l') (map general_tag ((wq(l := wq l @ [cur])) l'))" if l': "l' \<in> L" for l'
  proof (cases "l' = l")
    case True
    with dlist_append(1) [OF W [OF l] new] show ?thesis by simp
  next
    case False
    with keep [OF in_lists_of(2) [OF l'] _ W [OF l'] queues_disjoint(1) [OF thr l']]
      queues_disjoint(3) [OF thr l l' False] nw [OF l'] show ?thesis by simp
  qed
  ultimately show ?thesis by (simp add: queues_ok_def)
qed

lemma queues_wake:
  assumes Q: "queues_ok L s rq wq" and lay: "layout T L s" and l: "l \<in> L" "wq l = x # xs"
    and thr: "threads_ok T L idl cur st k rq wq"
  shows "general_tag x \<notin> foot (thread_ready_list s) (map general_tag rq)"
    and "x \<notin> set xs" and "fst (list_pop (wlist l) s) = general_tag x"
    and "dlist (snd (list_pop (wlist l) s)) (thread_ready_list s) (map general_tag rq)"
    and "queues_ok L (list_push (thread_ready_list s) (general_tag x) (snd (list_pop (wlist l) s)))
          (x # rq) (wq(l := xs))"
proof -
  let ?R = "thread_ready_list s" and ?p = "snd (list_pop (wlist l) s)"
  have R: "dlist s ?R (map general_tag rq)" and W: "\<And>l. l \<in> L \<Longrightarrow> dlist s (wlist l) (map general_tag (wq l))"
    using Q by (auto simp: queues_ok_def)
  have Wl: "dlist s (wlist l) (general_tag x # map general_tag xs)" using W [OF l(1)] l(2) by simp
  have x: "x \<in> T" "x \<notin> set rq" using queues_disjoint(1,2) [OF thr l(1)] l by auto
  have sub: "set xs \<subseteq> T" using queues_disjoint(1) [OF thr l(1)] l by auto
  show new: "general_tag x \<notin> foot ?R (map general_tag rq)" by (rule layout_tag [OF lay _ x]) simp
  show dist: "x \<notin> set xs" using dl.Q_distinct [OF Wl] by auto
  show "fst (list_pop (wlist l) s) = general_tag x" by (rule dl.pop_fst [OF Wl])
  have keep: "dlist ?p a (map general_tag ys)"
    if "a \<in> lists_of L s" "a \<noteq> wlist l" "dlist s a (map general_tag ys)" "set ys \<subseteq> T"
      "set ys \<inter> set xs = {}" for a ys
    using that l sub by (intro dl.pop_frame [OF Wl that(3)] layout_foot [OF lay]) auto
  show R': "dlist ?p ?R (map general_tag rq)"
    using R queues_disjoint(2) [OF thr l(1)] l threads_okD(3) [OF thr] layout_ready [OF lay l(1)]
    by (intro keep) auto
  have "dlist (list_push ?R (general_tag x) ?p) (wlist l') (map general_tag ((wq(l := xs)) l'))"
    if l': "l' \<in> L" for l'
  proof (rule dl.push_frame [OF R' new])
    have in_wq: "set ((wq(l := xs)) l') \<subseteq> set (wq l') - {x}"
      using l dist queues_disjoint(3) [OF thr l(1) l'] by auto
    have "foot (wlist l') (map general_tag ((wq(l := xs)) l')) \<inter> foot ?R (map general_tag (x # rq)) = {}"
      using queues_disjoint(1,2) [OF thr l'] in_wq x threads_okD(3) [OF thr] l' layout_ready [OF lay l']
      by (intro layout_foot [OF lay]) auto
    then show "foot (wlist l') (map general_tag ((wq(l := xs)) l')) \<inter>
        insert (general_tag x) (foot ?R (map general_tag rq)) = {}" by auto
    show "dlist ?p (wlist l') (map general_tag ((wq(l := xs)) l'))"
    proof (cases "l' = l")
      case True
      with dl.pop_Q [OF Wl] show ?thesis by simp
    next
      case False
      with queues_disjoint(1) [OF thr l'] queues_disjoint(3) [OF thr l(1) l'] l l' W [OF l']
      show ?thesis by (simp, intro keep) auto
    qed
  qed
  with dlist_push(1) [OF R' new] show "queues_ok L (list_push ?R (general_tag x) ?p) (x # rq) (wq(l := xs))"
    by (simp add: queues_ok_def)
qed

section \<open>The operations keep the invariant\<close>

text \<open>Two states that differ only in interrupts, unfinished calls, semaphores and accounting.\<close>

definition same_sched :: "'a sync_scheme \<Rightarrow> 'a sync_scheme \<Rightarrow> bool" where
  "same_sched s s' \<longleftrightarrow> phys s' = phys s \<and> cr3 s' = cr3 s \<and> esp s' = esp s \<and> prev s' = prev s \<and> nxt s' = nxt s \<and>
     thread_ready_list s' = thread_ready_list s \<and> idle_thread s' = idle_thread s \<and>
     (\<forall>t. status (task s' t) = status (task s t) \<and> pgdir (task s' t) = pgdir (task s t) \<and>
          stack_magic (task s' t) = stack_magic (task s t) \<and> self_kstack (task s' t) = self_kstack (task s t))"

definition lock_part :: "addr set \<Rightarrow> (addr \<Rightarrow> frame list) \<Rightarrow> 'a sync_scheme \<Rightarrow> (addr \<Rightarrow> addr list) \<Rightarrow> addr \<Rightarrow> bool" where
  "lock_part T k s wq l \<longleftrightarrow>
     lock_ok T k (sem_value s (semaphore_of l)) (holder s l) (holder_repeat_nr s l) (wq l) l"

lemma core_locks: "core T L s rq wq \<Longrightarrow> l \<in> L \<Longrightarrow> lock_part T (kont s) s wq l"
  by (simp add: core_def locks_ok_def lock_part_def)

lemma core_cur: "core T L s rq wq \<Longrightarrow> running_thread s \<in> T"
  by (simp add: core_def threads_ok_def)

lemma core_not_null: "core T L s rq wq \<Longrightarrow> \<forall>u\<in>T. u \<noteq> NULL"
  by (simp add: core_def env_ok_def layout_def)

lemma core_update:
  assumes C: "core T L s rq wq" and run: "st_of s (running_thread s) = TASK_RUNNING"
    and same: "same_sched s s'" and k: "kont s' = (kont s)(running_thread s := b)" and b: "kont_ok L b"
    and locks: "\<And>l. l \<in> L \<Longrightarrow> lock_part T ((kont s)(running_thread s := b)) s' wq l"
    and bw: "base_of b = base_of (kont s (running_thread s)) \<or> (\<forall>l. \<not> waits_on (base_of b) l)"
  shows "core T L s' rq wq"
proof -
  have "env_ok T L s'" using C same env_ok_cong [of T L s s'] by (simp add: core_def same_sched_def)
  moreover have "queues_ok L s' rq wq"
    using C same dlist_nodes [of s' s] by (simp add: core_def queues_ok_def same_sched_def)
  moreover have "threads_ok T L (idle_thread s') (running_thread s') (st_of s') (kont s') rq wq"
    using C same k run b running_thread_cong [of s' s]
      threads_ok_kont [of T L "idle_thread s" "running_thread s" "st_of s" "kont s" rq wq b]
    by (simp add: core_def same_sched_def)
  moreover have "locks_ok T L s' wq" using locks k by (simp add: locks_ok_def lock_part_def)
  moreover have "idle_free s'" using C bw k same by (auto simp: core_def idle_free_def same_sched_def)
  ultimately show ?thesis by (simp add: core_def)
qed

lemma kinvI:
  assumes "core T L s rq wq" and "st_of s (running_thread s) = TASK_RUNNING"
    and "masked (kont s (running_thread s)) \<Longrightarrow> intr_get_status s = INTR_OFF"
  shows "kinv T L s"
  using assms by (auto simp: kinv_def)

lemma simple_kont: "simple_base L k \<Longrightarrow> kont_ok L k \<and> \<not> masked k \<and> base_of k = k"
  by (induction L k rule: simple_base.induct) (auto simp: any_base_def)

lemma any_kont: "any_base L k \<Longrightarrow> kont_ok L k \<and> base_of k = k"
  using simple_kont by (auto simp: any_base_def waits_on_iff)

lemma locks_base:
  assumes "core T L s rq wq" and "base_of b = base_of (kont s (running_thread s))"
    and "sem_value s' = sem_value s" and "holder s' = holder s" and "holder_repeat_nr s' = holder_repeat_nr s"
    and "l \<in> L"
  shows "lock_part T ((kont s)(running_thread s := b)) s' wq l"
proof -
  have "lock_ok T ((kont s)(running_thread s := b)) v h r w l = lock_ok T (kont s) v h r w l" for v h r w
    using assms(2) by (intro lock_ok_cong) auto
  with core_locks [OF assms(1,6)] assms(3-5) show ?thesis by (simp add: lock_part_def)
qed

lemma intr_fields [simp]:
  "kont (snd (intr_disable s)) = kont s" "task (snd (intr_disable s)) = task s"
  "esp (snd (intr_disable s)) = esp s" "thread_ready_list (snd (intr_disable s)) = thread_ready_list s"
  "idle_thread (snd (intr_disable s)) = idle_thread s"
  "kont (snd (intr_set_status st s)) = kont s" "task (snd (intr_set_status st s)) = task s"
  "esp (snd (intr_set_status st s)) = esp s"
  "kont (snd (intr_enable s)) = kont s" "task (snd (intr_enable s)) = task s"
  "esp (snd (intr_enable s)) = esp s"
  by (simp_all add: intr_disable_def intr_enable_def intr_set_status_def)

lemma intr_sync [simp]:
  "sem_value (snd (intr_disable s)) = sem_value s" "holder (snd (intr_disable s)) = holder s"
  "holder_repeat_nr (snd (intr_disable s)) = holder_repeat_nr s"
  "sem_value (snd (intr_set_status st s)) = sem_value s" "holder (snd (intr_set_status st s)) = holder s"
  "holder_repeat_nr (snd (intr_set_status st s)) = holder_repeat_nr s"
  "sem_value (snd (intr_enable s)) = sem_value s" "holder (snd (intr_enable s)) = holder s"
  "holder_repeat_nr (snd (intr_enable s)) = holder_repeat_nr s"
  by (simp_all add: intr_disable_def intr_enable_def intr_set_status_def)

lemma intr_same [simp]:
  "same_sched s (snd (intr_disable s'')) = same_sched s s''"
  "same_sched s (snd (intr_set_status st s'')) = same_sched s s''"
  "same_sched s (snd (intr_enable s'')) = same_sched s s''"
  by (simp_all add: same_sched_def intr_disable_def intr_enable_def intr_set_status_def)

lemma intr_running [simp]:
  "running_thread (snd (intr_disable s)) = running_thread s"
  "running_thread (snd (intr_set_status st s)) = running_thread s"
  "running_thread (snd (intr_enable s)) = running_thread s"
  by (simp_all add: running_thread_def)

lemma core_intr:
  assumes "core T L s rq wq" and "st_of s (running_thread s) = TASK_RUNNING"
  shows "core T L (snd (intr_disable s)) rq wq"
proof (rule core_update [OF assms, where b = "kont s (running_thread s)"])
  have "same_sched s s" by (simp add: same_sched_def)
  then show "same_sched s (snd (intr_disable s))" by simp
  show "kont_ok L (kont s (running_thread s))"
    using assms(1) threads_okD(1,4) unfolding core_def thread_ok_def by metis
  show "lock_part T ((kont s)(running_thread s := kont s (running_thread s))) (snd (intr_disable s)) wq l"
    if "l \<in> L" for l using that by (intro locks_base [OF assms(1)]) simp_all
qed simp_all

text \<open>Giving up the processor: by yielding, by idling, by waiting.\<close>

lemma core_ready_queue:
  assumes "core T L s rq wq" and "st_of s (running_thread s) = TASK_RUNNING"
  shows "dlist s (thread_ready_list s) (map general_tag rq)"
    and "general_tag (running_thread s) \<notin> set (map general_tag rq)"
proof -
  have thr: "threads_ok T L (idle_thread s) (running_thread s) (st_of s) (kont s) rq wq"
    using assms(1) by (simp add: core_def)
  show "dlist s (thread_ready_list s) (map general_tag rq)" using assms(1) by (simp add: core_def queues_ok_def)
  show "general_tag (running_thread s) \<notin> set (map general_tag rq)"
    using ready_iff [OF thr threads_okD(1) [OF thr]] assms(2) by auto
qed

lemma list_ops_sync [simp]:
  "sem_value (list_append l e s) = sem_value s" "holder (list_append l e s) = holder s"
  "holder_repeat_nr (list_append l e s) = holder_repeat_nr s"
  "sem_value (upd_task t f s) = sem_value s" "holder (upd_task t f s) = holder s"
  "holder_repeat_nr (upd_task t f s) = holder_repeat_nr s"
  "sem_value (push_frame t g s) = sem_value s" "holder (push_frame t g s) = holder s"
  "holder_repeat_nr (push_frame t g s) = holder_repeat_nr s"
  "sem_value (list_push l e s) = sem_value s" "holder (list_push l e s) = holder s"
  "holder_repeat_nr (list_push l e s) = holder_repeat_nr s"
  "sem_value (snd (list_pop l s)) = sem_value s" "holder (snd (list_pop l s)) = holder s"
  "holder_repeat_nr (snd (list_pop l s)) = holder_repeat_nr s"
  by (simp_all add: node_ops upd_task_def push_frame_def)

lemma running_keep [simp]:
  "running_thread (list_append l e s) = running_thread s" "running_thread (list_push l e s) = running_thread s"
  "running_thread (snd (list_pop l s)) = running_thread s" "running_thread (upd_task t f s) = running_thread s"
  "running_thread (push_frame t g s) = running_thread s"
  "running_thread (s\<lparr>kont := k\<rparr>) = running_thread s" "running_thread (s\<lparr>eflags := e\<rparr>) = running_thread s"
  by (simp_all add: running_thread_def)

lemma intr_keep [simp]:
  "intr_get_status (list_append l e s) = intr_get_status s" "intr_get_status (list_push l e s) = intr_get_status s"
  "intr_get_status (snd (list_pop l s)) = intr_get_status s" "intr_get_status (upd_task t f s) = intr_get_status s"
  "intr_get_status (push_frame t g s) = intr_get_status s"
  by (rule intr_status_cong, simp)+

lemma thread_yield_kinv:
  assumes C: "core T L s rq wq" and run: "st_of s (running_thread s) = TASK_RUNNING"
    and b: "simple_base L (kont s (running_thread s))"
  shows "\<exists>s'. thread_yield s = Inr s' \<and> kinv T L s'"
proof -
  let ?cur = "running_thread s" and ?d = "snd (intr_disable s)" and ?old = "intr_get_status s"
  let ?b = "F_set_status ?old # kont s ?cur"
  let ?s = "push_frame ?cur (F_set_status ?old) (upd_task ?cur (status_update (\<lambda>_. TASK_READY))
              (list_append (thread_ready_list s) (general_tag ?cur) ?d))"
  have D: "core T L ?d rq wq" by (rule core_intr [OF C run])
  have thr: "threads_ok T L (idle_thread s) ?cur (st_of s) (kont s) rq wq"
    using C by (simp add: core_def)
  have kb: "kont_ok L ?b" "suspended ?b" using b by (cases ?old; simp add: any_base_def suspended_def)+
  have "env_ok T L ?s" using D env_ok_cong [of T L ?d ?s] by (simp add: core_def)
  moreover have "queues_ok L ?s (rq @ [?cur]) wq"
  proof -
    have "queues_ok L (list_append (thread_ready_list ?d) (general_tag ?cur) ?d) (rq @ [?cur]) wq"
      using D thr run by (intro queues_append_ready [where T = T and k = "kont s" and st = "st_of s"
            and idl = "idle_thread s"]) (simp_all add: core_def env_ok_def)
    then show ?thesis by (simp add: queues_ok_def)
  qed
  moreover have "threads_ok T L (idle_thread ?s) (running_thread ?s) (st_of ?s) (kont ?s) (rq @ [?cur]) wq"
  proof -
    have "st_of ?s = (st_of s)(?cur := TASK_READY)" by auto
    then show ?thesis using threads_ok_yield [OF thr _ kb] run by simp
  qed
  moreover have "locks_ok T L ?s wq"
    using locks_base [OF C, of ?b ?s] by (simp add: locks_ok_def lock_part_def)
  moreover have "idle_free ?s" using C by (auto simp: core_def idle_free_def)
  ultimately have core: "core T L ?s (rq @ [?cur]) wq" by (simp add: core_def)
  have susp: "suspended (kont ?s (running_thread ?s))" by (simp add: suspended_def)
  have off: "intr_get_status ?s = INTR_OFF" by simp
  have "thread_yield s = schedule ?s"
    using core_ready_queue [OF D] run by (simp add: thread_yield_def case_prod_beta Let_def dlist_find)
  then show ?thesis using schedule_kinv [OF core off susp] by simp
qed

lemma idle_kinv:
  assumes C: "core T L s rq wq" and run: "st_of s (running_thread s) = TASK_RUNNING"
    and k: "kont s (running_thread s) = []" and i: "running_thread s = idle_thread s"
  shows "\<exists>s'. idle s = Inr s' \<and> kinv T L s'"
proof -
  let ?cur = "running_thread s" and ?old = "intr_get_status s"
  let ?d = "snd (intr_disable (push_frame ?cur F_sti_hlt s))"
  let ?b = "[F_set_status ?old, F_sti_hlt]"
  let ?s = "push_frame ?cur (F_set_status ?old) (upd_task ?cur (status_update (\<lambda>_. TASK_BLOCKED)) ?d)"
  have thr: "threads_ok T L ?cur ?cur (st_of s) (kont s) rq wq" using C i by (simp add: core_def)
  have kb: "kont_ok L ?b" "suspended ?b" by (cases ?old; simp add: any_base_def suspended_def)+
  have flds: "phys ?d = phys s" "cr3 ?d = cr3 s" "prev ?d = prev s" "nxt ?d = nxt s"
    by (simp_all add: intr_disable_def)
  have "env_ok T L ?s" using C env_ok_cong [of T L s ?s] flds by (simp add: core_def)
  moreover have "queues_ok L ?s rq wq"
    using C dlist_nodes [of ?d s] flds by (simp add: core_def queues_ok_def)
  moreover have "threads_ok T L (idle_thread ?s) (running_thread ?s) (st_of ?s) (kont ?s) rq wq"
  proof -
    have "st_of ?s = (st_of s)(?cur := TASK_BLOCKED)" by auto
    then show ?thesis using threads_ok_idle [OF thr _ kb] run k i by simp
  qed
  moreover have "locks_ok T L ?s wq"
  proof -
    have "lock_part T ((kont s)(?cur := F_sti_hlt # [])) ?s wq l" if "l \<in> L" for l
      using core_locks [OF C that] lock_others [OF _ core_cur [OF C], of "kont s" _ _ _ _ l "[]" "[F_sti_hlt]"] k
      by (simp add: lock_part_def free_of_def)
    then have "lock_part T ((kont s)(?cur := ?b)) ?s wq l" if "l \<in> L" for l
      using that lock_ok_cong [of T "(kont s)(?cur := ?b)" l "(kont s)(?cur := [F_sti_hlt])"]
      by (simp add: lock_part_def)
    then show ?thesis using k by (simp add: locks_ok_def lock_part_def)
  qed
  moreover have "idle_free ?s" using C k by (auto simp: core_def idle_free_def)
  ultimately have core: "core T L ?s rq wq" by (simp add: core_def)
  have susp: "suspended (kont ?s (running_thread ?s))" by (simp add: suspended_def)
  have off: "intr_get_status ?s = INTR_OFF" by simp
  have "idle s = schedule ?s" by (simp add: idle_def thread_block_def case_prod_beta Let_def)
  then show ?thesis using schedule_kinv [OF core off susp] by simp
qed

text \<open>
  \<open>sema_down\<close> on the semaphore of a lock, from a call or coming back to the loop: the call so far,
  \<open>k0\<close>, has no part in the ownership of the lock.
\<close>

lemma free_base:
  assumes "k0 = [] \<or> waits_on k0 l"
  shows "base_of k0 = k0" and "free_of l' k0" and "l' \<noteq> l \<Longrightarrow> \<not> waits_on k0 l'"
  using assms by (auto simp: free_of_def waits_on_iff)

lemma sema_down_blocks:
  assumes C: "core T L s0 rq wq" and run: "st_of s0 (running_thread s0) = TASK_RUNNING"
    and l: "l \<in> L" and ni: "running_thread s0 \<noteq> idle_thread s0"
    and k0: "kont s0 (running_thread s0) = [] \<or> waits_on (kont s0 (running_thread s0)) l"
    and s: "s = s0\<lparr>kont := (kont s0)(running_thread s0 := [F_lock_acquire l])\<rparr>"
    and off: "intr_get_status s0 = INTR_OFF" and v: "sem_value s0 (semaphore_of l) = 0"
  shows "\<exists>s'. sema_down_loop (semaphore_of l) old s = Inr s' \<and> kinv T L s'"
proof -
  let ?cur = "running_thread s0" and ?p = "semaphore_of l"
  let ?b = "[F_set_status INTR_OFF, F_sema_down ?p old, F_lock_acquire l]" and ?wq = "wq(l := wq l @ [running_thread s0])"
  let ?s = "push_frame ?cur (F_set_status INTR_OFF) (upd_task ?cur (status_update (\<lambda>_. TASK_BLOCKED))
     (push_frame ?cur (F_sema_down ?p old) (list_append (wlist l) (general_tag ?cur) s)))"
  have thr: "threads_ok T L (idle_thread s0) ?cur (st_of s0) (kont s0) rq wq" using C by (simp add: core_def)
  have env: "env_ok T L s0" and Q: "queues_ok L s0 rq wq" using C by (simp_all add: core_def)
  have kb: "kont_ok L ?b" "suspended ?b" "waits_on (base_of ?b) l" using l by (simp_all add: any_base_def suspended_def)
  have cur [simp]: "running_thread s = ?cur" by (simp add: s running_thread_def)
  have "env_ok T L ?s" using env env_ok_cong [of T L s0 ?s] s by simp
  moreover have "queues_ok L ?s rq ?wq"
  proof -
    have "queues_ok L s rq wq" using Q dlist_nodes [of s s0] s by (simp add: queues_ok_def)
    from queues_append_wait [OF this _ l thr run] env show ?thesis
      by (simp add: env_ok_def queues_ok_def layout_def lists_of_def s)
  qed
  moreover have "threads_ok T L (idle_thread ?s) (running_thread ?s) (st_of ?s) (kont ?s) rq ?wq"
  proof -
    have "st_of ?s = (st_of s0)(?cur := TASK_BLOCKED)" using s by auto
    then show ?thesis using threads_ok_wait [OF thr run kb(1,2) l kb(3) ni] s by simp
  qed
  moreover have "lock_part T ((kont s0)(?cur := ?b)) ?s ?wq l'" if l': "l' \<in> L" for l'
  proof (cases "l' = l")
    case True
    then show ?thesis using core_locks [OF C l] v s free_base(1) [OF k0] free_base(2) [OF k0, of l]
        lock_wait [of T "kont s0" "holder s0 l" "holder_repeat_nr s0 l" "wq l" l ?cur ?b "wq l @ [?cur]"]
      by (simp add: lock_part_def free_of_def)
  next
    case False
    with core_locks [OF C l'] free_base [OF k0] s show ?thesis
      using lock_ok_cong [of T "(kont s0)(?cur := ?b)" l' "kont s0"]
      by (auto simp: lock_part_def free_of_def)
  qed
  then have "locks_ok T L ?s ?wq" using s by (simp add: locks_ok_def lock_part_def)
  moreover have "idle_free ?s" using C ni s by (auto simp: core_def idle_free_def)
  ultimately have core: "core T L ?s rq ?wq" by (simp add: core_def)
  have susp: "suspended (kont ?s (running_thread ?s))" by (simp add: suspended_def)
  have off': "intr_get_status s = INTR_OFF" using off s intr_status_cong [of s s0] by simp
  have "dlist s (wlist l) (map general_tag (wq l))"
    using Q l dlist_nodes [of s s0] s by (simp add: queues_ok_def)
  then have "elem_find (wlist l) (general_tag ?cur) s = Inr False"
    using running_not_waiting [OF thr run l] by (auto simp: dlist_find)
  moreover have "sem_value s ?p = 0" using v s by simp
  ultimately have "sema_down_loop ?p old s = schedule ?s"
    using off' by (simp add: sema_down_loop_def thread_block_def intr_disable_idem Let_def)
  then show ?thesis using schedule_kinv [OF core _ susp] off' by simp
qed

lemma sema_down_takes:
  assumes C: "core T L s0 rq wq" and run: "st_of s0 (running_thread s0) = TASK_RUNNING"
    and l: "l \<in> L"
    and k0: "kont s0 (running_thread s0) = [] \<or> waits_on (kont s0 (running_thread s0)) l"
    and s: "s = s0\<lparr>kont := (kont s0)(running_thread s0 := [F_lock_acquire l])\<rparr>"
    and v: "sem_value s0 (semaphore_of l) \<noteq> 0"
  shows "\<exists>s'. sema_down_loop (semaphore_of l) old s = Inr s' \<and> kinv T L s'"
proof -
  let ?cur = "running_thread s0" and ?p = "semaphore_of l"
  let ?s = "snd (intr_set_status old (set_value ?p 0 s))"
  have v1: "sem_value s0 ?p = 1"
    using core_locks [OF C l] v lock_value unfolding lock_part_def by blast
  have "core T L ?s rq wq"
  proof (rule core_update [OF C run, where b = "[F_lock_acquire l]"])
    show "same_sched s0 ?s" unfolding intr_same by (simp add: same_sched_def s set_value_def)
    show "kont ?s = (kont s0)(?cur := [F_lock_acquire l])" by (simp add: s set_value_def)
    show "kont_ok L [F_lock_acquire l]" using l by (simp add: any_base_def)
    show "lock_part T ((kont s0)(?cur := [F_lock_acquire l])) ?s wq l'" if l': "l' \<in> L" for l'
    proof (cases "l' = l")
      case True
      then show ?thesis
        using core_locks [OF C l] v1 free_base(1) [OF k0] k0 core_cur [OF C] core_not_null [OF C]
          lock_take [of T "kont s0" "holder s0 l" "holder_repeat_nr s0 l" "wq l" l ?cur]
        by (simp add: lock_part_def s set_value_def)
    next
      case False
      with core_locks [OF C l'] free_base [OF k0] s show ?thesis
        using lock_ok_cong [of T "(kont s0)(?cur := [F_lock_acquire l])" l' "kont s0"]
        by (auto simp: lock_part_def free_of_def set_value_def)
    qed
  qed simp
  then have "kinv T L ?s"
    using run by (intro kinvI) (simp_all add: s set_value_def running_thread_def)
  moreover have "sema_down_loop ?p old s = Inr ?s"
    using v1 s by (simp add: sema_down_loop_def set_value_def Let_def)
  ultimately show ?thesis by simp
qed

lemma sema_down_kinv:
  assumes "core T L s0 rq wq" and "st_of s0 (running_thread s0) = TASK_RUNNING"
    and "l \<in> L" and "running_thread s0 \<noteq> idle_thread s0"
    and "kont s0 (running_thread s0) = [] \<or> waits_on (kont s0 (running_thread s0)) l"
    and "intr_get_status s0 = INTR_OFF"
    and "s = s0\<lparr>kont := (kont s0)(running_thread s0 := [F_lock_acquire l])\<rparr>"
  shows "\<exists>s'. sema_down_loop (semaphore_of l) old s = Inr s' \<and> kinv T L s'"
  using sema_down_blocks [OF assms(1-5,7,6)] sema_down_takes [OF assms(1-3,5,7)] by blast

lemma lock_acquire_kinv:
  assumes C: "core T L s rq wq" and run: "st_of s (running_thread s) = TASK_RUNNING"
    and k: "kont s (running_thread s) = []" and c: "call_ok L (Acquire l) s"
  shows "\<exists>s'. lock_acquire l s = Inr s' \<and> kinv T L s'"
proof (cases "holder s l = running_thread s")
  case True
  let ?s = "set_repeat l (holder_repeat_nr s l + 1) s"
  have r: "holder_repeat_nr s l + 1 \<noteq> 0"
    using c by (simp add: eq_neg_iff_add_eq_0)
  have "core T L ?s rq wq"
  proof (rule core_update [OF C run, where b = "[]"])
    show "lock_part T ((kont s)(running_thread s := [])) ?s wq l'" if l': "l' \<in> L" for l'
    proof (cases "l' = l")
      case h: True
      have "holder s l \<noteq> NULL" using True core_cur [OF C] core_not_null [OF C] by auto
      with core_locks [OF C l'] k r h show ?thesis
        by (auto simp: lock_part_def set_repeat_def fun_upd_idem elim: lock_repeat)
    next
      case False
      with core_locks [OF C l'] k show ?thesis
        by (simp add: lock_part_def set_repeat_def fun_upd_idem)
    qed
  qed (simp_all add: same_sched_def set_repeat_def any_base_def k fun_upd_idem)
  then have "kinv T L ?s"
    using run k by (intro kinvI) (simp_all add: set_repeat_def running_thread_def)
  then show ?thesis using True by (simp add: lock_acquire_def)
next
  case False
  let ?d = "snd (intr_disable s)" and ?k = "(kont s)(running_thread s := [F_lock_acquire l])"
  have "intr_disable (push_frame (running_thread s) (F_lock_acquire l) s) =
      (intr_get_status s, ?d\<lparr>kont := (kont ?d)(running_thread ?d := [F_lock_acquire l])\<rparr>)"
    using k by (simp add: intr_disable_def push_frame_def intr_get_status_def)
  then have "lock_acquire l s = sema_down_loop (semaphore_of l) (intr_get_status s)
      (?d\<lparr>kont := (kont ?d)(running_thread ?d := [F_lock_acquire l])\<rparr>)"
    using False by (simp add: lock_acquire_def sema_down_def)
  then show ?thesis
    using sema_down_kinv [OF core_intr [OF C run]] run k c by simp
qed

lemma lock_release_kinv:
  assumes C: "core T L s rq wq" and run: "st_of s (running_thread s) = TASK_RUNNING"
    and k: "kont s (running_thread s) = []" and c: "call_ok L (Release l) s"
  shows "\<exists>s'. lock_release l s = Inr s' \<and> kinv T L s'"
proof -
  let ?cur = "running_thread s"
  have l: "l \<in> L" and h: "holder s l = ?cur" using c by auto
  have nn: "?cur \<noteq> NULL" using core_cur [OF C] core_not_null [OF C] by auto
  have r: "holder_repeat_nr s l \<noteq> 0" using core_locks [OF C l] h nn by (simp add: lock_part_def lock_ok_def)
  have other: "lock_part T (kont s) s' wq l'" if "l' \<in> L" "l' \<noteq> l"
    "sem_value s' = sem_value s" "holder s' l' = holder s l'" "holder_repeat_nr s' l' = holder_repeat_nr s l'" for l' s'
    using core_locks [OF C that(1)] that by (simp add: lock_part_def)
  show ?thesis
  proof (cases "holder_repeat_nr s l > 1")
    case True
    let ?s = "set_repeat l (holder_repeat_nr s l - 1) s"
    have pos: "holder_repeat_nr s l - 1 \<noteq> 0" using True by auto
    have "core T L ?s rq wq"
    proof (rule core_update [OF C run, where b = "[]"])
      show "lock_part T ((kont s)(?cur := [])) ?s wq l'" if l': "l' \<in> L" for l'
        using core_locks [OF C l'] other [OF l', of ?s] k h nn pos
        by (cases "l' = l") (auto simp: lock_part_def set_repeat_def fun_upd_idem elim: lock_repeat)
    qed (simp_all add: same_sched_def set_repeat_def any_base_def k fun_upd_idem)
    then have "kinv T L ?s"
      using run k by (intro kinvI) (simp_all add: set_repeat_def running_thread_def)
    then show ?thesis using True h by (simp add: lock_release_def)
  next
    case False
    then have r1: "holder_repeat_nr s l = 1" using r by unat_arith
    let ?f = "[F_sema_up (semaphore_of l)]"
    let ?s = "push_frame ?cur (F_sema_up (semaphore_of l)) (set_repeat l 0 (set_holder l NULL s))"
    have "core T L ?s rq wq"
    proof (rule core_update [OF C run, where b = ?f])
      show "lock_part T ((kont s)(?cur := ?f)) ?s wq l'" if l': "l' \<in> L" for l'
      proof (cases "l' = l")
        case True
        then show ?thesis
          using core_locks [OF C l] h core_cur [OF C] core_not_null [OF C]
            lock_drop [of T "kont s" _ ?cur "holder_repeat_nr s l" "wq l" l]
          by (simp add: lock_part_def set_repeat_def set_holder_def)
      next
        case False
        with core_locks [OF C l'] k show ?thesis
          using lock_ok_cong [of T "(kont s)(?cur := ?f)" l' "kont s"]
          by (auto simp: lock_part_def set_repeat_def set_holder_def)
      qed
      show "kont_ok L ?f" using l by (simp add: any_base_def)
    qed (simp_all add: same_sched_def set_repeat_def set_holder_def push_frame_def k)
    then have "kinv T L ?s"
      using run k by (intro kinvI) (simp_all add: set_repeat_def set_holder_def running_thread_def)
    then show ?thesis
      using False r1 h by (simp add: lock_release_def Let_def set_repeat_def set_holder_def running_thread_def)
  qed
qed

text \<open>Coming back to an unfinished call.\<close>

lemma pop_frame_fields [simp]:
  "kont (pop_frame t s) = (kont s)(t := tl (kont s t))" "running_thread (pop_frame t s) = running_thread s"
  "sem_value (pop_frame t s) = sem_value s" "holder (pop_frame t s) = holder s"
  "holder_repeat_nr (pop_frame t s) = holder_repeat_nr s" "task (pop_frame t s) = task s"
  "phys (pop_frame t s) = phys s" "cr3 (pop_frame t s) = cr3 s" "esp (pop_frame t s) = esp s"
  "prev (pop_frame t s) = prev s" "nxt (pop_frame t s) = nxt s" "idle_thread (pop_frame t s) = idle_thread s"
  "thread_ready_list (pop_frame t s) = thread_ready_list s"
  "same_sched s (pop_frame t s)" "intr_get_status (pop_frame t s) = intr_get_status s"
  by (simp_all add: pop_frame_def running_thread_def same_sched_def intr_get_status_def)

text \<open>A frame that only restores the flags: what is below it stays.\<close>

lemma pop_tail_core:
  assumes C: "core T L s rq wq" and run: "st_of s (running_thread s) = TASK_RUNNING"
    and k: "kont s (running_thread s) = f # b" and f: "is_tail f" and b: "any_base L b"
  shows "core T L (pop_frame (running_thread s) s) rq wq"
proof (rule core_update [OF C run, where b = b])
  show "kont_ok L b" using any_kont [OF b] by simp
  show "lock_part T ((kont s)(running_thread s := b)) (pop_frame (running_thread s) s) wq l" if "l \<in> L" for l
    using that k f by (intro locks_base [OF C]) (simp_all add: base_of_def)
qed (use k f in \<open>simp_all add: base_of_def\<close>)

lemma core_flags:
  assumes "core T L s rq wq" and "st_of s (running_thread s) = TASK_RUNNING" and "same_sched s s'"
    and "kont s' = kont s" and "sem_value s' = sem_value s" and "holder s' = holder s"
    and "holder_repeat_nr s' = holder_repeat_nr s"
  shows "core T L s' rq wq"
proof (rule core_update [OF assms(1,2,3), where b = "kont s (running_thread s)"])
  show "kont_ok L (kont s (running_thread s))"
    using assms(1) threads_okD(1,4) unfolding core_def thread_ok_def by metis
  show "lock_part T ((kont s)(running_thread s := kont s (running_thread s))) s' wq l"
    if "l \<in> L" for l using that assms by (intro locks_base [OF assms(1)]) simp_all
qed (simp_all add: assms(4))

lemma resume_tail_kinv:
  assumes C: "core T L s rq wq" and run: "st_of s (running_thread s) = TASK_RUNNING"
    and k: "kont s (running_thread s) = f # b" and f: "is_tail f"
  shows "\<exists>s'. resume f (pop_frame (running_thread s) s) = Inr s' \<and> kinv T L s'"
proof -
  let ?p = "pop_frame (running_thread s) s"
  have ok: "kont_ok L (f # b)" using C threads_okD(1,4) k unfolding core_def thread_ok_def by metis
  then have b: "any_base L b" using f by (cases f rule: is_tail.cases) (auto simp: any_base_def elim: kont_ok.elims)
  have P: "core T L ?p rq wq" by (rule pop_tail_core [OF C run k f b])
  have same: "same_sched ?p ?p" by (simp add: same_sched_def)
  show ?thesis
  proof (cases "\<exists>st. f = F_set_status st")
    case True
    then obtain st where st: "f = F_set_status st" by blast
    let ?s = "snd (intr_set_status st ?p)"
    have "core T L ?s rq wq" using run same by (intro core_flags [OF P]) simp_all
    moreover have "\<not> masked b" if "st = INTR_ON" using ok that st simple_kont by auto
    then have "masked (kont ?s (running_thread ?s)) \<Longrightarrow> intr_get_status ?s = INTR_OFF"
      using k by (cases st) auto
    ultimately have "kinv T L ?s" using run by (intro kinvI) simp_all
    then show ?thesis using st by simp
  next
    case False
    then obtain e where e: "f = F_iret e" using f by (cases f rule: is_tail.cases) auto
    let ?s = "?p\<lparr>eflags := e\<rparr>"
    have "core T L ?s rq wq" using run by (intro core_flags [OF P]) (simp_all add: same_sched_def)
    moreover have "\<not> masked b" using ok e simple_kont by auto
    ultimately have "kinv T L ?s" using run k by (intro kinvI) simp_all
    then show ?thesis using e by simp
  qed
qed

lemma lock_acquired_kinv:
  assumes C: "core T L s rq wq" and run: "st_of s (running_thread s) = TASK_RUNNING"
    and k: "kont s (running_thread s) = [F_lock_acquire l]" and l: "l \<in> L"
  shows "\<exists>s'. lock_acquired l (pop_frame (running_thread s) s) = Inr s' \<and> kinv T L s'"
proof -
  let ?cur = "running_thread s" and ?p = "pop_frame (running_thread s) s"
  let ?s = "set_repeat l 1 (set_holder l ?cur ?p)"
  have nn: "?cur \<noteq> NULL" using core_cur [OF C] core_not_null [OF C] by auto
  note hold = lock_hold [OF core_locks [OF C l, unfolded lock_part_def] core_cur [OF C] nn]
  have "core T L ?s rq wq"
  proof (rule core_update [OF C run, where b = "[]"])
    show "lock_part T ((kont s)(?cur := [])) ?s wq l'" if l': "l' \<in> L" for l'
    proof (cases "l' = l")
      case True
      then show ?thesis using hold(2) k by (simp add: lock_part_def set_repeat_def set_holder_def)
    next
      case False
      with core_locks [OF C l'] k show ?thesis
        using lock_ok_cong [of T "(kont s)(?cur := [])" l' "kont s"]
        by (auto simp: lock_part_def set_repeat_def set_holder_def)
    qed
  qed (simp_all add: same_sched_def set_repeat_def set_holder_def pop_frame_def any_base_def k)
  then have "kinv T L ?s"
    using run k by (intro kinvI) (simp_all add: set_repeat_def set_holder_def running_thread_def pop_frame_def)
  moreover have "lock_acquired l ?p = Inr ?s"
    using hold(1) k by (simp add: lock_acquired_def Let_def set_holder_def)
  ultimately show ?thesis by simp
qed

lemma simple_push:
  assumes C: "core T L s rq wq" and run: "st_of s (running_thread s) = TASK_RUNNING"
    and k: "kont s (running_thread s) = [] \<or> kont s (running_thread s) = [F_sti_hlt] \<or>
      (\<exists>a n. kont s (running_thread s) = [F_ticks_to_sleep a n])"
    and b: "b = [] \<or> (\<exists>a n. b = [F_ticks_to_sleep a n])"
    and same: "same_sched s s'" "sem_value s' = sem_value s" "holder s' = holder s"
      "holder_repeat_nr s' = holder_repeat_nr s" "kont s' = (kont s)(running_thread s := b)"
  shows "core T L s' rq wq"
proof (rule core_update [OF C run same(1,5)])
  show "kont_ok L b" "base_of b = base_of (kont s (running_thread s)) \<or> (\<forall>l. \<not> waits_on (base_of b) l)"
    using b by (auto simp: any_base_def)
  show "lock_part T ((kont s)(running_thread s := b)) s' wq l" if "l \<in> L" for l
    using core_locks [OF C that] k b same(2-4)
      lock_ok_cong [of T "(kont s)(running_thread s := b)" l "kont s"]
    by (auto simp: lock_part_def)
qed

lemma ticks_loop_kinv:
  assumes C: "core T L s0 rq wq" and run: "st_of s0 (running_thread s0) = TASK_RUNNING"
    and k: "kont s0 (running_thread s0) = [] \<or> (\<exists>a n. kont s0 (running_thread s0) = [F_ticks_to_sleep a n])"
    and s: "s = s0\<lparr>kont := (kont s0)(running_thread s0 := [])\<rparr>"
  shows "\<exists>s'. ticks_to_sleep_loop a n s = Inr s' \<and> kinv T L s'"
proof (cases "total_ticks s - a < n")
  case True
  let ?s = "push_frame (running_thread s) (F_ticks_to_sleep a n) s"
  have "core T L ?s rq wq"
    by (rule simple_push [OF C run, where b = "[F_ticks_to_sleep a n]"])
      (use k s in \<open>auto simp: same_sched_def push_frame_def\<close>)
  then show ?thesis using thread_yield_kinv [of T L ?s rq wq] True run s
    by (simp add: ticks_to_sleep_loop_def)
next
  case False
  have "core T L s rq wq"
    by (rule simple_push [OF C run, where b = "[]"]) (use k s in \<open>auto simp: same_sched_def\<close>)
  then have "kinv T L s" using run s by (intro kinvI) simp_all
  then show ?thesis using False by (simp add: ticks_to_sleep_loop_def)
qed

lemma sti_hlt_kinv:
  assumes C: "core T L s rq wq" and run: "st_of s (running_thread s) = TASK_RUNNING"
    and k: "kont s (running_thread s) = [F_sti_hlt]"
  shows "\<exists>s'. resume F_sti_hlt (pop_frame (running_thread s) s) = Inr s' \<and> kinv T L s'"
proof -
  let ?s = "snd (intr_enable (pop_frame (running_thread s) s))"
  have "core T L ?s rq wq"
    by (rule simple_push [OF C run, where b = "[]"]) (use k in auto)
  then have "kinv T L ?s" using run k by (intro kinvI) simp_all
  then show ?thesis by simp
qed

lemma set_value_fields [simp]:
  "kont (set_value p v s) = kont s" "task (set_value p v s) = task s" "prev (set_value p v s) = prev s"
  "nxt (set_value p v s) = nxt s" "thread_ready_list (set_value p v s) = thread_ready_list s"
  "idle_thread (set_value p v s) = idle_thread s" "phys (set_value p v s) = phys s" "cr3 (set_value p v s) = cr3 s"
  "esp (set_value p v s) = esp s" "holder (set_value p v s) = holder s"
  "holder_repeat_nr (set_value p v s) = holder_repeat_nr s"
  "sem_value (set_value p v s) = (sem_value s)(p := v)" "running_thread (set_value p v s) = running_thread s"
  by (simp_all add: set_value_def running_thread_def)

lemma intr_nodes [simp]:
  "prev (snd (intr_set_status st t)) = prev t" "nxt (snd (intr_set_status st t)) = nxt t"
  "phys (snd (intr_set_status st u)) = phys u" "cr3 (snd (intr_set_status st u)) = cr3 u"
  "thread_ready_list (snd (intr_set_status st s)) = thread_ready_list s"
  "idle_thread (snd (intr_set_status st s)) = idle_thread s"
  "prev (snd (intr_disable t)) = prev t" "nxt (snd (intr_disable t)) = nxt t"
  "phys (snd (intr_disable u)) = phys u" "cr3 (snd (intr_disable u)) = cr3 u"
  by (simp_all add: intr_disable_def intr_enable_def intr_set_status_def)

lemma lock_up_all:
  assumes C: "core T L s rq wq" and l: "l \<in> L"
    and k: "kont s (running_thread s) = [F_sema_up (semaphore_of l)]"
  shows "sem_value s (semaphore_of l) = 0"
    and "sem_value s' = (sem_value s)(semaphore_of l := 1) \<Longrightarrow> holder s' = holder s \<Longrightarrow>
      holder_repeat_nr s' = holder_repeat_nr s \<Longrightarrow> l' \<in> L \<Longrightarrow>
      lock_part T ((kont s)(running_thread s := [])) s' (wq(l := tl (wq l))) l'"
proof -
  have thr: "threads_ok T L (idle_thread s) (running_thread s) (st_of s) (kont s) rq wq"
    using C by (simp add: core_def)
  have "dlist s (wlist l) (map general_tag (wq l))" using C l by (simp add: core_def queues_ok_def)
  then have dist: "distinct (wq l)" using dl.Q_distinct distinct_map by blast
  have w: "u \<in> T \<and> waits_on (base_of (kont s u)) l" if "u \<in> set (wq l)" for u
    using threads_okD(5) [OF thr l that] by (simp add: waiter_ok_def)
  have f: "base_of (kont s (running_thread s)) = [F_sema_up (semaphore_of l)]" using k by simp
  note up = lock_up [OF core_locks [OF C l, unfolded lock_part_def] core_cur [OF C] f core_not_null [OF C] dist w]
  show "sem_value s (semaphore_of l) = 0" by (rule up(1))
  assume s': "sem_value s' = (sem_value s)(semaphore_of l := 1)" "holder s' = holder s"
    "holder_repeat_nr s' = holder_repeat_nr s" and l': "l' \<in> L"
  show "lock_part T ((kont s)(running_thread s := [])) s' (wq(l := tl (wq l))) l'"
  proof (cases "l' = l")
    case True
    with up(2) s' show ?thesis by (simp add: lock_part_def)
  next
    case False
    with core_locks [OF C l'] k s' show ?thesis
      using lock_ok_cong [of T "(kont s)(running_thread s := [])" l' "kont s"]
      by (auto simp: lock_part_def)
  qed
qed

lemma sema_up_kinv:
  assumes C: "core T L s rq wq" and run: "st_of s (running_thread s) = TASK_RUNNING"
    and k: "kont s (running_thread s) = [F_sema_up (semaphore_of l)]" and l: "l \<in> L"
  shows "\<exists>s'. sema_up (semaphore_of l) (pop_frame (running_thread s) s) = Inr s' \<and> kinv T L s'"
proof -
  let ?cur = "running_thread s" and ?p = "semaphore_of l"
  let ?d = "snd (intr_disable (pop_frame ?cur s))" and ?old = "intr_get_status s"
  note up = lock_up_all [OF C l k]
  have thr: "threads_ok T L (idle_thread s) ?cur (st_of s) (kont s) rq wq"
    and Q: "queues_ok L s rq wq" and env: "env_ok T L s" using C by (simp_all add: core_def)
  have dn: "prev ?d = prev s" "nxt ?d = nxt s" "thread_ready_list ?d = thread_ready_list s"
    "phys ?d = phys s" "cr3 ?d = cr3 s" "idle_thread ?d = idle_thread s" "esp ?d = esp s"
    by (simp_all add: pop_frame_def)
  have Qd: "queues_ok L ?d rq wq" using Q dlist_nodes [OF dn(1,2)] dn by (simp add: queues_ok_def)
  have Wd: "dlist ?d (wlist l) (map general_tag (wq l))" using Qd l by (simp add: queues_ok_def)
  have thr': "threads_ok T L (idle_thread s) ?cur (st_of s) ((kont s)(?cur := [])) rq wq"
    by (rule threads_ok_kont [OF thr]) (use run in \<open>simp_all add: any_base_def\<close>)
  show ?thesis
  proof (cases "wq l")
    case Nil
    let ?s = "snd (intr_set_status ?old (set_value ?p 1 ?d))"
    have "core T L ?s rq wq"
    proof (rule core_update [OF C run, where b = "[]"])
      show "lock_part T ((kont s)(?cur := [])) ?s wq l'" if "l' \<in> L" for l'
        using up(2) [of ?s l'] that Nil by (simp add: fun_upd_idem)
    qed (use k in \<open>simp_all add: same_sched_def dn any_base_def\<close>)
    then have "kinv T L ?s" using run k by (intro kinvI) simp_all
    moreover have "sema_up ?p (pop_frame ?cur s) = Inr ?s"
      using up(1) Nil dlist_is_empty [OF Wd] by (simp add: sema_up_def case_prod_beta Let_def)
    ultimately show ?thesis by simp
  next
    case (Cons x xs)
    have lay: "layout T L ?d" using env dn by (simp add: env_ok_def layout_def lists_of_def)
    note wake = queues_wake [OF Qd lay l Cons thr']
    let ?u = "upd_task x (status_update (\<lambda>_. TASK_READY))
                (list_push (thread_ready_list s) (general_tag x) (snd (list_pop (wlist l) ?d)))"
    let ?s = "snd (intr_set_status ?old (set_value ?p 1 ?u))" and ?wq = "wq(l := xs)"
    have st: "st_of ?s = (st_of s)(x := TASK_READY)" by auto
    have x: "st_of s x = TASK_BLOCKED" "x \<noteq> ?cur"
      using waiting_blocked [OF thr l, of x] Cons run by auto
    have "env_ok T L ?s" using env dn by (intro env_ok_cong [OF env]) simp_all
    moreover have "queues_ok L ?s (x # rq) ?wq"
      using wake(5) dn dlist_nodes [of ?s ?u] by (simp add: queues_ok_def)
    moreover have "threads_ok T L (idle_thread ?s) (running_thread ?s) (st_of ?s) (kont ?s) (x # rq) ?wq"
      using threads_ok_wake [OF thr' run l Cons wake(2)] st dn k by simp
    moreover have "locks_ok T L ?s ?wq"
      using up(2) [of ?s] Cons k by (simp add: locks_ok_def lock_part_def)
    moreover have "idle_free ?s" using C dn k by (auto simp: core_def idle_free_def)
    ultimately have "core T L ?s (x # rq) ?wq" by (simp add: core_def)
    moreover have "thread_unblock x (snd (list_pop (wlist l) ?d)) = Inr ?u"
      using thread_unblock_spec [of "snd (list_pop (wlist l) ?d)" "map general_tag rq" x] wake(1,4) x dn
      by (simp add: foot_def ring_def)
    then have "sema_up ?p (pop_frame ?cur s) = Inr ?s"
      using up(1) Cons dlist_is_empty [OF Wd] wake(3) by (simp add: sema_up_def case_prod_beta Let_def)
    ultimately show ?thesis using run k x by (auto intro!: kinvI)
  qed
qed

lemma unmasked_simple: "kont_ok L k \<Longrightarrow> \<not> masked k \<Longrightarrow> simple_base L k"
  by (induction k rule: masked.induct) (auto simp: any_base_def waits_on_iff)

lemma timer_kinv:
  assumes C: "core T L s rq wq" and run: "st_of s (running_thread s) = TASK_RUNNING"
    and m: "\<not> masked (kont s (running_thread s))"
  shows "\<exists>s'. timer_interrupt s = Inr s' \<and> kinv T L s'"
proof -
  let ?cur = "running_thread s" and ?b = "F_iret (eflags s) # kont s (running_thread s)"
  let ?d = "snd (intr_disable (push_frame ?cur (F_iret (eflags s)) s))"
  let ?s = "(upd_task ?cur (\<lambda>t. t\<lparr>elapsed_ticks := elapsed_ticks t + 1\<rparr>) ?d)
              \<lparr>total_ticks := total_ticks s + 1\<rparr>"
  let ?t = "upd_task ?cur (\<lambda>t. t\<lparr>ticks := ticks t - 1\<rparr>) ?s"
  have ok: "kont_ok L (kont s ?cur)" using C threads_okD(1,4) unfolding core_def thread_ok_def by metis
  have b: "kont_ok L ?b" using unmasked_simple [OF ok m] by simp
  have keep: "core T L s' rq wq" if "same_sched s s'" "sem_value s' = sem_value s" "holder s' = holder s"
      "holder_repeat_nr s' = holder_repeat_nr s" "kont s' = (kont s)(?cur := ?b)" for s'
    using that b by (intro core_update [OF C run that(1,5)] locks_base [OF C]) simp_all
  have flds: "task ?d = task s" "kont ?d = (kont s)(?cur := ?b)" "sem_value ?d = sem_value s"
    "holder ?d = holder s" "holder_repeat_nr ?d = holder_repeat_nr s" "esp ?d = esp s"
    "intr_get_status ?d = INTR_OFF" "phys ?d = phys s" "cr3 ?d = cr3 s" "prev ?d = prev s" "nxt ?d = nxt s"
    "thread_ready_list ?d = thread_ready_list s" "idle_thread ?d = idle_thread s" "total_ticks ?d = total_ticks s"
    "running_thread ?d = ?cur"
    by (simp_all, simp_all add: intr_disable_def push_frame_def)
  have S: "core T L ?s rq wq" by (rule keep) (use flds in \<open>simp_all add: same_sched_def\<close>)
  have St: "core T L ?t rq wq" by (rule keep) (use flds in \<open>simp_all add: same_sched_def\<close>)
  have cur: "running_thread ?s = ?cur" by (simp add: running_thread_def)
  have off: "intr_get_status ?s = INTR_OFF" "intr_get_status ?t = INTR_OFF"
    using flds(7) intr_status_cong [of ?s ?d] intr_status_cong [of ?t ?d] by simp_all
  have magic: "stack_magic (task s ?cur) = 0x19870916"
    using C core_cur [OF C] by (simp add: core_def env_ok_def)
  have eq: "timer_interrupt s = (if ticks (task s ?cur) = 0 then schedule ?s else Inr ?t)"
    using magic flds by (simp add: timer_interrupt_def intr_timer_handler_def Let_def)
  have "\<exists>s'. schedule ?s = Inr s' \<and> kinv T L s'"
    by (rule schedule_kinv [OF S off(1)]) (use flds cur in \<open>simp add: suspended_def\<close>)
  moreover have "kinv T L ?t"
    using off run flds cur by (intro kinvI [OF St]) simp_all
  ultimately show ?thesis unfolding eq by auto
qed

section \<open>Every reachable state\<close>

lemma resume_kinv:
  assumes C: "core T L s rq wq" and run: "st_of s (running_thread s) = TASK_RUNNING"
    and m: "masked (kont s (running_thread s)) \<Longrightarrow> intr_get_status s = INTR_OFF"
    and k: "kont s (running_thread s) = f # b"
  shows "\<exists>s'. resume f (pop_frame (running_thread s) s) = Inr s' \<and> kinv T L s'"
proof (cases "is_tail f")
  case True
  then show ?thesis by (rule resume_tail_kinv [OF C run k])
next
  case False
  have ok: "kont_ok L (f # b)" using C threads_okD(1,4) k unfolding core_def thread_ok_def by metis
  have pop: "pop_frame (running_thread s) s = s\<lparr>kont := (kont s)(running_thread s := b)\<rparr>"
    using k by (simp add: pop_frame_def)
  show ?thesis
  proof (cases f)
    case (F_sema_down p st)
    then obtain l where l: "l \<in> L" "p = semaphore_of l" "b = [F_lock_acquire l]"
      using ok by (auto simp: any_base_def waits_on_iff)
    have "running_thread s \<noteq> idle_thread s"
      using C k F_sema_down l by (auto simp: core_def idle_free_def)
    with l m k F_sema_down pop show ?thesis
      using sema_down_kinv [OF C run l(1), of "pop_frame (running_thread s) s" st] by simp
  next
    case (F_lock_acquire l)
    then have "b = []" "l \<in> L" using ok by (cases b; auto simp: any_base_def)+
    with lock_acquired_kinv [OF C run] k F_lock_acquire show ?thesis by simp
  next
    case (F_sema_up p)
    then obtain l where "b = []" "l \<in> L" "p = semaphore_of l" using ok by (cases b; auto simp: any_base_def)
    with sema_up_kinv [OF C run] k F_sema_up show ?thesis by simp
  next
    case (F_ticks_to_sleep a n)
    then have "b = []" using ok by (cases b; auto simp: any_base_def)
    with ticks_loop_kinv [OF C run, of "pop_frame (running_thread s) s" a n] k pop F_ticks_to_sleep
    show ?thesis by simp
  next
    case F_sti_hlt
    then have "b = []" using ok by (cases b; auto simp: any_base_def)
    with sti_hlt_kinv [OF C run] k F_sti_hlt show ?thesis by simp
  qed (use False in simp_all)
qed

lemma kcall_kinv:
  assumes C: "core T L s rq wq" and run: "st_of s (running_thread s) = TASK_RUNNING"
    and k: "kont s (running_thread s) = []" and c: "call_ok L c s"
  shows "\<exists>s'. kcall_exec c s = Inr s' \<and> kinv T L s'"
proof (cases c)
  case (Sleep m)
  have "0 < (m + 10 - 1) div 10" using sleep_ticks_pos c Sleep by simp
  then have "kcall_exec c s = ticks_to_sleep_loop (total_ticks s) ((m + 10 - 1) div 10) s"
    using Sleep by (simp only: kcall_exec.simps mtime_sleep_def Let_def ASSERT_True bindr_Inr ticks_to_sleep_def)
  then show ?thesis
    using ticks_loop_kinv [OF C run, of s] k by (simp add: fun_upd_idem)
qed (use assms lock_acquire_kinv [OF C run k] lock_release_kinv [OF C run k] thread_yield_kinv [OF C run]
      idle_kinv [OF C run k] in simp_all)

text \<open>The heart of the development of the concurrent kernel: one step.\<close>

lemma kexec_kinv:
  assumes inv: "kinv T L s" and en: "enabled L a s"
  shows "\<exists>s'. kexec a s = Inr s' \<and> kinv T L s'"
proof -
  obtain rq wq where C: "core T L s rq wq" and run: "st_of s (running_thread s) = TASK_RUNNING"
    and m: "masked (kont s (running_thread s)) \<longrightarrow> intr_get_status s = INTR_OFF"
    using inv by (auto simp: kinv_def)
  show ?thesis
  proof (cases a)
    case (Call c)
    with en kcall_kinv [OF C run] show ?thesis by simp
  next
    case Resume
    with en obtain f b where k: "kont s (running_thread s) = f # b" by (cases "kont s (running_thread s)") auto
    with Resume resume_kinv [OF C run _ k] m show ?thesis by simp
  next
    case Clock
    with en m timer_kinv [OF C run] show ?thesis by auto
  qed
qed

lemma kreach_kinv: "kreach L s0 s \<Longrightarrow> kinv T L s0 \<Longrightarrow> kinv T L s"
proof (induction rule: kreach.induct)
  case (step s a s')
  with kexec_kinv [of T L s a] show ?case by auto
qed

lemma kinv_one_owner:
  assumes "kinv T L s" and "l \<in> L" and "t \<in> T" and "u \<in> T"
    and "owns (kont s) (holder s l) l t" and "owns (kont s) (holder s l) l u"
  shows "t = u"
proof -
  obtain rq wq where "core T L s rq wq" using assms(1) by (auto simp: kinv_def)
  from core_locks [OF this assms(2), unfolded lock_part_def]
  have "{x \<in> T. owns (kont s) (holder s l) l x} = {t}" by (rule lock_owner(2)) (fact assms)+
  with assms(4,6) show ?thesis by auto
qed

lemma core_blocked_waits:
  assumes C: "core T L s rq wq" and u: "u \<in> T" "waits_on (base_of (kont s u)) l" "st_of s u = TASK_BLOCKED"
  shows "u \<in> set (wq l)"
proof -
  have thr: "threads_ok T L (idle_thread s) (running_thread s) (st_of s) (kont s) rq wq"
    and "idle_free s" using C by (simp_all add: core_def)
  then have "u \<noteq> idle_thread s" using u(2) by (auto simp: idle_free_def)
  then obtain l' where l': "l' \<in> L" "u \<in> set (wq l')"
    using threads_okD(4) [OF thr u(1)] u(3) by (auto simp: thread_ok_def)
  then have "waits_on (base_of (kont s u)) l'" using threads_okD(5) [OF thr] by (auto simp: waiter_ok_def)
  with u(2) l'(2) show ?thesis by (auto simp: waits_on_iff)
qed

section \<open>A kernel that has just started\<close>

text \<open>
  The main thread runs at the page that \<^verbatim>\<open>loader.S\<close> leaves it, the idle thread is ready and about
  to enable interrupts in \<open>kernel_thread\<close>, one lock is initialised.
\<close>

abbreviation main_pcb :: addr where "main_pcb \<equiv> 0xc009e000"
abbreviation idle_pcb :: addr where "idle_pcb \<equiv> 0xc0100000"
abbreviation ready_at :: addr where "ready_at \<equiv> 0xc0010000"
abbreviation lock_at :: addr where "lock_at \<equiv> 0xc0010100"

definition blank_task :: "addr \<Rightarrow> task_struct" where
  "blank_task t = \<lparr>self_kstack = t + 0x800, status = (if t = main_pcb then TASK_RUNNING else TASK_READY),
     pid = 1, priority = 10, tname = [], ticks = 10, elapsed_ticks = 0, pgdir = NULL,
     stack_magic = 0x19870916, userprog_vaddr = \<lparr>vaddr_bitmap = \<lparr>btmp_bytes_len = 0, bits = 0\<rparr>, vaddr_start = 0\<rparr>,
     fd_table = [0, 1, 2], cwd_inode_nr = 0, parent_pid = -1\<rparr>"

definition blank :: sync where
  "blank = \<lparr>eflags = 0x202, prev = (\<lambda>_. 0), nxt = (\<lambda>_. 0), phys = (\<lambda>_. 0), cr3 = 0x100000, bytes = (\<lambda>_. 0),
     task = blank_task, kont = (\<lambda>t. if t = idle_pcb then [F_set_status INTR_ON] else []),
     esp = main_pcb + 0xf00, thread_ready_list = ready_at, thread_all_list = 0xc0010020,
     idle_thread = idle_pcb, thread_tag = 0, tss_esp0 = 0, total_ticks = 0,
     sem_value = (\<lambda>_. 0), holder = (\<lambda>_. 0), holder_repeat_nr = (\<lambda>_. 0)\<rparr>"

definition started :: sync where
  "started = list_append ready_at (general_tag idle_pcb) (lock_init lock_at (list_init ready_at blank))"

lemma blank_fields [simp]:
  "thread_ready_list blank = ready_at" "idle_thread blank = idle_pcb" "esp blank = main_pcb + 0xf00"
  "cr3 blank = 0x100000" "task blank = blank_task" "eflags blank = 0x202"
  "kont blank = (\<lambda>t. if t = idle_pcb then [F_set_status INTR_ON] else [])"
  by (simp_all add: blank_def)

lemma started_fields:
  "thread_ready_list started = ready_at" "idle_thread started = idle_pcb" "esp started = main_pcb + 0xf00"
  "cr3 started = 0x100000" "task started = blank_task" "eflags started = 0x202"
  "kont started = (\<lambda>t. if t = idle_pcb then [F_set_status INTR_ON] else [])"
  "sem_value started (semaphore_of lock_at) = 1" "holder started lock_at = NULL"
  "holder_repeat_nr started lock_at = 0"
  by (simp_all add: started_def lock_init_def sema_init_def set_value_def set_holder_def set_repeat_def
      list_init_def set_prev_def set_nxt_def Let_def)

lemma started_running: "running_thread started = main_pcb"
  by (simp add: running_thread_def started_fields)

lemma started_layout: "layout {main_pcb, idle_pcb} {lock_at} started"
  by (simp add: layout_def lists_of_def started_fields waiters_def semaphore_of_def head_of_def tail_of_def
      general_tag_def)

lemma fresh_queues:
  "dlist (lock_init lock_at (list_init ready_at s)) ready_at []"
  "dlist (lock_init lock_at (list_init ready_at s)) (wlist lock_at) []"
proof -
  let ?a = "list_init ready_at s"
  let ?v = "set_value (semaphore_of lock_at) 1 (set_repeat lock_at 0 (set_holder lock_at NULL ?a))"
  have fb: "foot ready_at [] \<inter> foot (wlist lock_at) [] = {}"
    by (simp add: waiters_def semaphore_of_def head_of_def tail_of_def)
  have b: "lock_init lock_at ?a = list_init (wlist lock_at) ?v"
    by (simp add: lock_init_def sema_init_def Let_def)
  have "dlist ?a ready_at []" by (rule dlist_empty)
  then have "dlist ?v ready_at []"
    by (simp add: dlist_def set_value_def set_repeat_def set_holder_def)
  then show "dlist (lock_init lock_at ?a) ready_at []"
    unfolding b using dl.init_frame fb by blast
  show "dlist (lock_init lock_at ?a) (wlist lock_at) []" unfolding b by (rule dlist_empty)
qed

lemmas place = waiters_def semaphore_of_def head_of_def tail_of_def general_tag_def

lemma started_queues: "queues_ok {lock_at} started [idle_pcb] (\<lambda>_. [])"
proof -
  have new: "general_tag idle_pcb \<notin> foot ready_at []" by (simp add: place)
  have "foot (wlist lock_at) [] \<inter> insert (general_tag idle_pcb) (foot ready_at []) = {}"
    by (simp add: place)
  from dl.append_frame [OF fresh_queues(1) new fresh_queues(2) this, of blank]
    dl.append_Q [OF fresh_queues(1) new, of blank]
  show ?thesis by (simp add: queues_ok_def started_fields) (simp add: started_def)
qed

lemma started_core: "core {main_pcb, idle_pcb} {lock_at} started [idle_pcb] (\<lambda>_. [])"
proof -
  have "dirs_ok {main_pcb, idle_pcb} started"
    unfolding dirs_ok_def by (intro exI [of _ "{0x100000}"]) (simp add: started_fields blank_task_def)
  then have "env_ok {main_pcb, idle_pcb} {lock_at} started"
    using started_layout by (simp add: env_ok_def started_fields started_running blank_task_def)
  moreover have "threads_ok {main_pcb, idle_pcb} {lock_at} (idle_thread started) (running_thread started)
      (st_of started) (kont started) [idle_pcb] (\<lambda>_. [])"
    by (simp add: threads_ok_def thread_ok_def started_fields started_running blank_task_def
        any_base_def suspended_def)
  moreover have "locks_ok {main_pcb, idle_pcb} {lock_at} started (\<lambda>_. [])"
    by (auto simp: locks_ok_def lock_ok_def owns_def started_fields)
  moreover have "idle_free started" by (simp add: idle_free_def started_fields)
  ultimately show ?thesis using started_queues by (simp add: core_def)
qed

lemma started_kinv: "kinv {main_pcb, idle_pcb} {lock_at} started"
  by (rule kinvI [OF started_core]) (simp_all add: started_fields started_running blank_task_def)

text \<open>
  A state under contention: the lock has just been given back, the first waiting thread has been
  woken and is ready, the second one still waits.
\<close>

abbreviation first_pcb :: addr where "first_pcb \<equiv> 0xc0101000"
abbreviation second_pcb :: addr where "second_pcb \<equiv> 0xc0102000"

definition waiting_frames :: "frame list" where
  "waiting_frames = [F_set_status INTR_OFF, F_sema_down (semaphore_of lock_at) INTR_ON, F_lock_acquire lock_at]"

definition contended :: sync where
  "contended = list_append (wlist lock_at) (general_tag second_pcb)
     (list_append ready_at (general_tag first_pcb) (lock_init lock_at (list_init ready_at
       (blank\<lparr>task := (\<lambda>t. (blank_task t)\<lparr>status := if t = main_pcb then TASK_RUNNING
                            else if t = first_pcb then TASK_READY else TASK_BLOCKED\<rparr>),
              kont := (\<lambda>t. if t = idle_pcb then [F_set_status INTR_ON]
                          else if t = first_pcb \<or> t = second_pcb then waiting_frames else [])\<rparr>))))"

lemma contended_fields:
  "thread_ready_list contended = ready_at" "idle_thread contended = idle_pcb" "esp contended = main_pcb + 0xf00"
  "cr3 contended = 0x100000"
  "task contended = (\<lambda>t. (blank_task t)\<lparr>status := if t = main_pcb then TASK_RUNNING
                            else if t = first_pcb then TASK_READY else TASK_BLOCKED\<rparr>)"
  "kont contended = (\<lambda>t. if t = idle_pcb then [F_set_status INTR_ON]
                          else if t = first_pcb \<or> t = second_pcb then waiting_frames else [])"
  "sem_value contended (semaphore_of lock_at) = 1" "holder contended lock_at = NULL"
  "holder_repeat_nr contended lock_at = 0"
  by (simp_all add: contended_def lock_init_def sema_init_def set_value_def set_holder_def set_repeat_def
      list_init_def set_prev_def set_nxt_def Let_def)

lemma contended_queues: "queues_ok {lock_at} contended [first_pcb] (\<lambda>_. [second_pcb])"
proof -
  have n1: "general_tag first_pcb \<notin> foot ready_at []" and n2: "general_tag second_pcb \<notin> foot (wlist lock_at) []"
    by (simp_all add: place)
  have d1: "foot (wlist lock_at) [] \<inter> insert (general_tag first_pcb) (foot ready_at []) = {}"
    and d2: "foot ready_at [general_tag first_pcb] \<inter> insert (general_tag second_pcb) (foot (wlist lock_at) []) = {}"
    by (simp_all add: place)
  note R = dl.append_Q [OF fresh_queues(1) n1, simplified]
    and W = dl.append_frame [OF fresh_queues(1) n1 fresh_queues(2) d1]
  have "dlist contended (wlist lock_at) [general_tag second_pcb]" "dlist contended ready_at [general_tag first_pcb]"
    unfolding contended_def by (rule dl.append_Q [OF W n2, simplified], rule dl.append_frame [OF W n2 R d2])
  then show ?thesis by (simp add: queues_ok_def contended_fields)
qed

lemma contended_kinv: "kinv {main_pcb, first_pcb, second_pcb, idle_pcb} {lock_at} contended"
proof (rule kinvI)
  let ?T = "{main_pcb, first_pcb, second_pcb, idle_pcb} :: addr set"
  have run: "running_thread contended = main_pcb" by (simp add: running_thread_def contended_fields)
  then show "st_of contended (running_thread contended) = TASK_RUNNING"
    and "masked (kont contended (running_thread contended)) \<Longrightarrow> intr_get_status contended = INTR_OFF"
    by (simp_all add: contended_fields)
  have "dirs_ok ?T contended"
    unfolding dirs_ok_def by (intro exI [of _ "{0x100000}"]) (simp add: contended_fields blank_task_def)
  moreover have "layout ?T {lock_at} contended"
    by (simp add: layout_def lists_of_def contended_fields place)
  ultimately have "env_ok ?T {lock_at} contended"
    by (simp add: env_ok_def contended_fields run blank_task_def)
  moreover have "threads_ok ?T {lock_at} (idle_thread contended) (running_thread contended)
      (st_of contended) (kont contended) [first_pcb] (\<lambda>_. [second_pcb])"
    by (simp add: threads_ok_def thread_ok_def waiter_ok_def contended_fields run
        any_base_def suspended_def waiting_frames_def)
  moreover have "locks_ok ?T {lock_at} contended (\<lambda>_. [second_pcb])"
    by (auto simp: locks_ok_def lock_ok_def owns_def contended_fields waiting_frames_def)
  moreover have "idle_free contended" by (simp add: idle_free_def contended_fields)
  ultimately show "core ?T {lock_at} contended [first_pcb] (\<lambda>_. [second_pcb])"
    using contended_queues by (simp add: core_def)
qed

section \<open>Properties\<close>

text \<open>C21 The concurrent kernel never faults: from a state that satisfies the invariant, whatever
  sequence of lock operations, yields, sleeps and clock interrupts has run, every operation that can
  come next returns; no assertion of the scheduler, the semaphores or the locks fails, no list walk
  hangs, no page directory is missing.\<close>

theorem kernel_never_faults:
  assumes "kreach L s0 s" and "kinv T L s0" and "enabled L a s"
  shows "\<exists>s'. kexec a s = Inr s' \<and> kinv T L s'"
  using kexec_kinv [OF kreach_kinv [OF assms(1,2)] assms(3)] .

theorem kernel_never_faults_witness:
  "\<exists>s'. lock_acquire lock_at started = Inr s' \<and> kinv {main_pcb, idle_pcb} {lock_at} s'"
  using kernel_never_faults [OF kreach.start started_kinv, of "Call (Acquire lock_at)"]
  by (simp add: started_fields started_running)

text \<open>C22 Mutual exclusion: in every reachable state at most one thread owns the semaphore of a lock
  (as its holder, on its way to become the holder, or on its way to give the semaphore back), and
  the value of the semaphore is 1 exactly when nobody owns it.\<close>

theorem lock_mutual_exclusion:
  assumes "kreach L s0 s" and "kinv T L s0" and "l \<in> L"
  shows "(\<forall>t\<in>T. \<forall>u\<in>T. owns (kont s) (holder s l) l t \<longrightarrow> owns (kont s) (holder s l) l u \<longrightarrow> t = u) \<and>
    (sem_value s (semaphore_of l) = 1 \<longleftrightarrow> (\<forall>t\<in>T. \<not> owns (kont s) (holder s l) l t)) \<and>
    (sem_value s (semaphore_of l) = 0 \<or> sem_value s (semaphore_of l) = 1)"
proof -
  have inv: "kinv T L s" by (rule kreach_kinv [OF assms(1,2)])
  then obtain rq wq where "core T L s rq wq" by (auto simp: kinv_def)
  note ok = core_locks [OF this assms(3), unfolded lock_part_def]
  have "\<forall>t\<in>T. \<not> owns (kont s) (holder s l) l t" if "sem_value s (semaphore_of l) = 1"
    using lock_owner(1) [OF ok] that by auto
  moreover have "\<exists>t\<in>T. owns (kont s) (holder s l) l t" if "sem_value s (semaphore_of l) = 0"
    using ok that by (auto simp: lock_ok_def)
  ultimately show ?thesis
    using kinv_one_owner [OF inv assms(3)] lock_value [OF ok] by blast
qed

theorem lock_mutual_exclusion_witness:
  "\<not> owns (kont started) (holder started lock_at) lock_at main_pcb"
  using lock_mutual_exclusion [OF kreach.start started_kinv, of lock_at]
  by (simp add: started_fields)

text \<open>C23 No wakeup is lost: when a thread is blocked on a lock whose semaphore is free, some other
  thread that asked for the same lock has already been woken and is on its way to take it.\<close>

theorem no_lost_wakeup:
  assumes "kreach L s0 s" and "kinv T L s0" and "l \<in> L" and "t \<in> T"
    and "waits_on (base_of (kont s t)) l" and "status (task s t) = TASK_BLOCKED"
    and "sem_value s (semaphore_of l) = 1"
  shows "\<exists>u\<in>T. waits_on (base_of (kont s u)) l \<and> status (task s u) \<noteq> TASK_BLOCKED"
proof -
  from kreach_kinv [OF assms(1,2)] obtain rq wq where C: "core T L s rq wq" by (auto simp: kinv_def)
  have waiting: "u \<in> set (wq l)"
    if u: "u \<in> T" "waits_on (base_of (kont s u)) l" "st_of s u = TASK_BLOCKED" for u
    by (rule core_blocked_waits [OF C u])
  have "wq l \<noteq> []" using waiting [OF assms(4-6)] by auto
  with core_locks [OF C assms(3)] assms(7) obtain u where
    "u \<in> T" "u \<notin> set (wq l)" "waits_on (base_of (kont s u)) l"
    by (auto simp: lock_part_def lock_ok_def)
  with waiting show ?thesis by blast
qed

theorem no_lost_wakeup_witness:
  "\<exists>u\<in>{main_pcb, first_pcb, second_pcb, idle_pcb}.
     waits_on (base_of (kont contended u)) lock_at \<and> status (task contended u) \<noteq> TASK_BLOCKED"
  by (rule no_lost_wakeup [OF kreach.start contended_kinv, of lock_at second_pcb])
    (simp_all add: contended_fields waiting_frames_def)

text \<open>C24 The scheduler's bookkeeping is consistent in every reachable state: exactly the running
  thread has state RUNNING, and walking the ready queue finds exactly the READY threads.\<close>

theorem ready_queue_consistent:
  assumes "kreach L s0 s" and "kinv T L s0" and "t \<in> T"
  shows "(status (task s t) = TASK_RUNNING \<longleftrightarrow> t = running_thread s) \<and>
    elem_find (thread_ready_list s) (general_tag t) s = Inr (status (task s t) = TASK_READY)"
proof -
  have inv: "kinv T L s" by (rule kreach_kinv [OF assms(1,2)])
  then obtain rq wq where C: "core T L s rq wq" by (auto simp: kinv_def)
  then have thr: "threads_ok T L (idle_thread s) (running_thread s) (st_of s) (kont s) rq wq"
    and Q: "dlist s (thread_ready_list s) (map general_tag rq)"
    by (simp_all add: core_def queues_ok_def)
  show ?thesis
    using threads_okD(4) [OF thr assms(3)] inv dlist_find [OF Q, of "general_tag t"]
    by (auto simp: thread_ok_def kinv_def)
qed

theorem ready_queue_consistent_witness:
  "elem_find ready_at (general_tag idle_pcb) started = Inr True"
  using ready_queue_consistent [OF kreach.start started_kinv, of idle_pcb]
  by (simp add: started_fields blank_task_def)

text \<open>C33 One turn of the scheduler on a running thread is a round-robin step: the thread goes to the end
  of the ready queue with its time slice refilled and its stack pointer saved, the first thread of the
  queue runs on its own stack, in its own address space.\<close>

theorem schedule_round_robin:
  assumes "schedule_pre s (x # xs)" and "status (task s (running_thread s)) = TASK_RUNNING"
  shows "\<exists>s'. schedule s = Inr s' \<and>
    dlist s' (thread_ready_list s') (map general_tag (xs @ [running_thread s])) \<and>
    status (task s' x) = TASK_RUNNING \<and> status (task s' (running_thread s)) = TASK_READY \<and>
    ticks (task s' (running_thread s)) = priority (task s (running_thread s)) \<and>
    self_kstack (task s' (running_thread s)) = esp s \<and> esp s' = self_kstack (task s x) \<and>
    (if pgdir (task s x) = NULL then cr3 s' = 0x100000 else addr_v2p (pgdir (task s x)) s = Inr (cr3 s'))"
proof -
  from schedule_spec [OF assms(1)] obtain s' where s': "schedule s = Inr s'" "scheduled s (x # xs) s'" by blast
  have c: "candidates s (x # xs) = x # xs @ [running_thread s]" using assms(2) by (simp add: candidates_def)
  have "x \<noteq> running_thread s" using assms by (auto simp: schedule_pre_def)
  with s' show ?thesis
    unfolding scheduled_def Let_def c by (intro exI [of _ s']) (simp add: assms(2) split: if_splits)
qed

theorem schedule_round_robin_witness:
  "\<exists>s'. schedule (snd (intr_disable started)) = Inr s' \<and> status (task s' idle_pcb) = TASK_RUNNING"
proof -
  have run: "st_of started (running_thread started) = TASK_RUNNING"
    by (simp add: started_running started_fields blank_task_def)
  have "schedule_pre (snd (intr_disable started)) [idle_pcb]"
    by (rule core_schedule_pre [OF core_intr [OF started_core run]]) simp
  with run show ?thesis using schedule_round_robin [of "snd (intr_disable started)" idle_pcb "[]"] by auto
qed

end
