(* ===== verification/PageAlloc.thy ===== *)
theory PageAlloc
  imports Sync
begin

unbundle bit_operations_syntax

text \<open>
  The page allocator of \<^verbatim>\<open>kernel/memory.c\<close>: the two pools of page frames, the pools of virtual
  addresses, the mapping of pages and their release. Page tables are the words of the physical
  memory, reached through the recursive mapping; bitmaps and other data of the kernel are the bytes
  of its address space. Clearing a page writes its words through the page tables and clears the
  bytes and list nodes that lie in it.
\<close>

section \<open>The code\<close>

datatype pool_flags = PF_KERNEL | PF_USER

record pool =
  pool_bitmap :: bitmap
  phy_addr_start :: u32
  pool_size :: u32
  pool_lock :: addr

record mm = sync +
  kernel_pool :: pool
  user_pool :: pool
  kernel_vaddr :: virtual_addr

definition pool_of :: "pool_flags \<Rightarrow> 'a mm_scheme \<Rightarrow> pool" where
  "pool_of pf s = (case pf of PF_KERNEL \<Rightarrow> kernel_pool s | PF_USER \<Rightarrow> user_pool s)"

definition cur_vaddr :: "'a mm_scheme \<Rightarrow> virtual_addr" where
  "cur_vaddr s = userprog_vaddr (task s (running_thread s))"

text \<open>The loops that set \<open>n\<close> bits from bit \<open>i\<close> on to \<open>v\<close>.\<close>

primrec set_run :: "bitmap \<Rightarrow> u32 \<Rightarrow> u8 \<Rightarrow> nat \<Rightarrow> mem \<Rightarrow> mem res" where
  "set_run b i v 0 m = Inr m"
| "set_run b i v (Suc n) m = bindr (bitmap_set m b i v) (set_run b (i + 1) v n)"

definition vaddr_get :: "pool_flags \<Rightarrow> u32 \<Rightarrow> 'a mm_scheme \<Rightarrow> (addr \<times> 'a mm_scheme) res" where
  "vaddr_get pf pg_cnt s =
     (case pf of
        PF_KERNEL \<Rightarrow>
          let btmp = vaddr_bitmap (kernel_vaddr s)
          in bindr (bitmap_scan (bytes s) btmp pg_cnt) (\<lambda>bit_idx_start.
             if bit_idx_start = -1 then Inr (NULL, s)
             else bindr (set_run btmp bit_idx_start 1 (unat pg_cnt) (bytes s)) (\<lambda>m.
                  Inr (vaddr_start (kernel_vaddr s) + bit_idx_start * PG_SIZE, s\<lparr>bytes := m\<rparr>)))
      | PF_USER \<Rightarrow>
          let btmp = vaddr_bitmap (cur_vaddr s)
          in bindr (bitmap_scan (bytes s) btmp pg_cnt) (\<lambda>bit_idx_start.
             if bit_idx_start = -1 then Inr (NULL, s)
             else bindr (set_run btmp bit_idx_start 1 (unat pg_cnt) (bytes s)) (\<lambda>m.
                  let v = vaddr_start (cur_vaddr s) + bit_idx_start + PG_SIZE
                  in bindr (ASSERT (v < 0xc0000000 - PG_SIZE)) (\<lambda>_. Inr (v, s\<lparr>bytes := m\<rparr>)))))"

definition palloc :: "pool_flags \<Rightarrow> 'a mm_scheme \<Rightarrow> (u32 \<times> 'a mm_scheme) res" where
  "palloc pf s =
     (let btmp = pool_bitmap (pool_of pf s)
      in bindr (bitmap_scan (bytes s) btmp 1) (\<lambda>bit_idx.
         if bit_idx = -1 then Inr (NULL, s)
         else bindr (bitmap_set (bytes s) btmp bit_idx 1) (\<lambda>m.
              Inr (bit_idx * PG_SIZE + phy_addr_start (pool_of pf s), s\<lparr>bytes := m\<rparr>))))"

text \<open>Clearing \<open>n\<close> words, each through the page tables.\<close>

primrec zero_words :: "addr \<Rightarrow> nat \<Rightarrow> 'a hw_scheme \<Rightarrow> 'a hw_scheme res" where
  "zero_words v 0 s = Inr s"
| "zero_words v (Suc n) s = bindr (store v 0 s) (zero_words (v + 4) n)"

definition page_table_add :: "addr \<Rightarrow> u32 \<Rightarrow> 'a mm_scheme \<Rightarrow> 'a mm_scheme res" where
  "page_table_add vaddr page_phyaddr s =
     bindr (load s (pde_ptr vaddr)) (\<lambda>pde.
     if pde AND 1 \<noteq> 0 then
       bindr (load s (pte_ptr vaddr)) (\<lambda>pte.
       bindr (ASSERT (pte AND 1 = 0)) (\<lambda>_.
       if pte AND 1 = 0 then store (pte_ptr vaddr) (page_phyaddr OR PG_US_U OR PG_RW_W OR PG_P_1) s
       else Inl Panic))
     else
       bindr (palloc PF_KERNEL s) (\<lambda>(pde_phyaddr, s).
       bindr (store (pde_ptr vaddr) (pde_phyaddr OR PG_US_U OR PG_RW_W OR PG_P_1) s) (\<lambda>s.
       bindr (zero_words (pte_ptr vaddr AND 0xfffff000) 1024 s) (\<lambda>s.
       bindr (load s (pte_ptr vaddr)) (\<lambda>pte.
       bindr (ASSERT (pte AND 1 = 0)) (\<lambda>_.
       store (pte_ptr vaddr) (page_phyaddr OR PG_US_U OR PG_RW_W OR PG_P_1) s))))))"

text \<open>The loop of \<open>malloc_page\<close>; \<open>False\<close> when a frame is missing half-way.\<close>

primrec map_pages :: "pool_flags \<Rightarrow> addr \<Rightarrow> nat \<Rightarrow> 'a mm_scheme \<Rightarrow> (bool \<times> 'a mm_scheme) res" where
  "map_pages pf vaddr 0 s = Inr (True, s)"
| "map_pages pf vaddr (Suc cnt) s =
     bindr (palloc pf s) (\<lambda>(page_phyaddr, s).
     if page_phyaddr = NULL then Inr (False, s)
     else bindr (page_table_add vaddr page_phyaddr s) (map_pages pf (vaddr + PG_SIZE) cnt))"

definition malloc_page :: "pool_flags \<Rightarrow> u32 \<Rightarrow> 'a mm_scheme \<Rightarrow> (addr \<times> 'a mm_scheme) res" where
  "malloc_page pf pg_cnt s =
     bindr (ASSERT (pg_cnt > 0 \<and> pg_cnt < 3840)) (\<lambda>_.
     bindr (vaddr_get pf pg_cnt s) (\<lambda>(vstart, s).
     if vstart = NULL then Inr (NULL, s)
     else bindr (map_pages pf vstart (unat pg_cnt) s) (\<lambda>(done, s).
          Inr (if done then vstart else NULL, s))))"

definition clear_views :: "addr \<Rightarrow> nat \<Rightarrow> 'a hw_scheme \<Rightarrow> 'a hw_scheme" where
  "clear_views v n s = s\<lparr>bytes := memset_loop (bytes s) v 0 n,
     prev := (\<lambda>a. if within a v n then 0 else prev s a),
     nxt := (\<lambda>a. if within (a + 4) v n then 0 else nxt s a)\<rparr>"

definition memset_pages :: "addr \<Rightarrow> u32 \<Rightarrow> 'a hw_scheme \<Rightarrow> 'a hw_scheme res" where
  "memset_pages v pg_cnt s =
     bindr (ASSERT (v \<noteq> NULL)) (\<lambda>_.
     bindr (zero_words v (1024 * unat pg_cnt) s) (\<lambda>s. Inr (clear_views v (4096 * unat pg_cnt) s)))"

definition get_kernel_pages :: "u32 \<Rightarrow> 'a mm_scheme \<Rightarrow> (addr \<times> 'a mm_scheme) res" where
  "get_kernel_pages pg_cnt s =
     bindr (malloc_page PF_KERNEL pg_cnt s) (\<lambda>(vaddr, s).
     if vaddr \<noteq> NULL then bindr (memset_pages vaddr pg_cnt s) (\<lambda>s. Inr (vaddr, s))
     else Inr (vaddr, s))"

definition get_user_pages :: "u32 \<Rightarrow> 'a mm_scheme \<Rightarrow> (addr \<times> 'a mm_scheme) res" where
  "get_user_pages pg_cnt s =
     bindr (acquire_now (pool_lock (user_pool s)) s) (\<lambda>s.
     bindr (malloc_page PF_USER pg_cnt s) (\<lambda>(vaddr, s).
     bindr (memset_pages vaddr pg_cnt s) (\<lambda>s.
     bindr (release_now (pool_lock (user_pool s)) s) (\<lambda>s. Inr (vaddr, s)))))"

definition get_a_page :: "pool_flags \<Rightarrow> addr \<Rightarrow> 'a mm_scheme \<Rightarrow> (addr \<times> 'a mm_scheme) res" where
  "get_a_page pf vaddr s =
     bindr (acquire_now (pool_lock (pool_of pf s)) s) (\<lambda>s.
     let cur = running_thread s
     in bindr (if pgdir (task s cur) \<noteq> NULL \<and> pf = PF_USER then
                 let bit_idx = (vaddr - vaddr_start (cur_vaddr s)) div PG_SIZE
                 in bindr (ASSERT (sint bit_idx > 0)) (\<lambda>_. bitmap_set (bytes s) (vaddr_bitmap (cur_vaddr s)) bit_idx 1)
               else if pgdir (task s cur) = NULL \<and> pf = PF_KERNEL then
                 let bit_idx = (vaddr - vaddr_start (kernel_vaddr s)) div PG_SIZE
                 in bindr (ASSERT (sint bit_idx > 0)) (\<lambda>_. bitmap_set (bytes s) (vaddr_bitmap (kernel_vaddr s)) bit_idx 1)
               else Inl Panic) (\<lambda>m.
        let s = s\<lparr>bytes := m\<rparr>
        in bindr (palloc pf s) (\<lambda>(page_phyaddr, s).
           if page_phyaddr = NULL then Inr (NULL, s)
           else bindr (page_table_add vaddr page_phyaddr s) (\<lambda>s.
                bindr (release_now (pool_lock (pool_of pf s)) s) (\<lambda>s. Inr (vaddr, s))))))"

definition get_a_page_without_opvaddrbitmap :: "pool_flags \<Rightarrow> addr \<Rightarrow> 'a mm_scheme \<Rightarrow> (addr \<times> 'a mm_scheme) res" where
  "get_a_page_without_opvaddrbitmap pf vaddr s =
     bindr (acquire_now (pool_lock (pool_of pf s)) s) (\<lambda>s.
     bindr (palloc pf s) (\<lambda>(page_phyaddr, s).
     if page_phyaddr = NULL then
       bindr (release_now (pool_lock (pool_of pf s)) s) (\<lambda>s. Inr (NULL, s))
     else bindr (page_table_add vaddr page_phyaddr s) (\<lambda>s.
          bindr (release_now (pool_lock (pool_of pf s)) s) (\<lambda>s. Inr (vaddr, s)))))"

definition pfree :: "u32 \<Rightarrow> 'a mm_scheme \<Rightarrow> 'a mm_scheme res" where
  "pfree pg_phy_addr s =
     (let mem_pool = (if pg_phy_addr \<ge> phy_addr_start (user_pool s) then user_pool s else kernel_pool s);
          bit_idx = (pg_phy_addr - phy_addr_start mem_pool) div PG_SIZE
      in bindr (bitmap_set (bytes s) (pool_bitmap mem_pool) bit_idx 0) (\<lambda>m. Inr (s\<lparr>bytes := m\<rparr>)))"

definition vaddr_remove :: "pool_flags \<Rightarrow> addr \<Rightarrow> u32 \<Rightarrow> 'a mm_scheme \<Rightarrow> 'a mm_scheme res" where
  "vaddr_remove pf vaddr pg_cnt s =
     (let va = (if pf = PF_KERNEL then kernel_vaddr s else cur_vaddr s);
          bit_idx_start = (vaddr - vaddr_start va) div PG_SIZE
      in bindr (set_run (vaddr_bitmap va) bit_idx_start 0 (unat pg_cnt) (bytes s)) (\<lambda>m. Inr (s\<lparr>bytes := m\<rparr>)))"

text \<open>The loop of \<open>mfree_page\<close>, with the check of the frame that differs between the two pools.\<close>

primrec free_pages :: "(u32 \<Rightarrow> bool) \<Rightarrow> addr \<Rightarrow> nat \<Rightarrow> 'a mm_scheme \<Rightarrow> 'a mm_scheme res" where
  "free_pages ok vaddr 0 s = Inr s"
| "free_pages ok vaddr (Suc cnt) s =
     bindr (addr_v2p vaddr s) (\<lambda>pg_phy_addr.
     bindr (ASSERT (pg_phy_addr mod PG_SIZE = 0 \<and> ok pg_phy_addr)) (\<lambda>_.
     bindr (pfree pg_phy_addr s) (\<lambda>s.
     bindr (page_table_pte_remove vaddr s) (free_pages ok (vaddr + PG_SIZE) cnt))))"

definition mfree_page :: "pool_flags \<Rightarrow> addr \<Rightarrow> u32 \<Rightarrow> 'a mm_scheme \<Rightarrow> 'a mm_scheme res" where
  "mfree_page pf vaddr pg_cnt s =
     bindr (ASSERT (pg_cnt \<ge> 1 \<and> vaddr mod PG_SIZE = 0)) (\<lambda>_.
     bindr (addr_v2p vaddr s) (\<lambda>pg_phy_addr.
     bindr (ASSERT (pg_phy_addr mod PG_SIZE = 0 \<and> pg_phy_addr \<ge> 0x102000)) (\<lambda>_.
     let kstart = phy_addr_start (kernel_pool s); ustart = phy_addr_start (user_pool s)
     in bindr (if pg_phy_addr \<ge> ustart
               then free_pages (\<lambda>p. p \<ge> ustart) vaddr (unat pg_cnt) s
               else free_pages (\<lambda>p. p \<ge> kstart \<and> p < ustart) vaddr (unat pg_cnt) s)
          (vaddr_remove pf vaddr pg_cnt))))"

text \<open>The messages that \<open>mem_pool_init\<close> prints are left out.\<close>

definition mem_pool_init :: "u32 \<Rightarrow> 'a mm_scheme \<Rightarrow> 'a mm_scheme res" where
  "mem_pool_init all_mem s =
     (let page_table_size = PG_SIZE * 256;
          used_mem = page_table_size + 0x100000;
          free_mem = all_mem - used_mem;
          all_free_pages = (ucast (free_mem div PG_SIZE) :: u16);
          kernel_free_pages = all_free_pages div 2;
          user_free_pages = all_free_pages - kernel_free_pages;
          kbm_length = (ucast (kernel_free_pages div 8) :: u32);
          ubm_length = (ucast (user_free_pages div 8) :: u32);
          kp_start = used_mem;
          up_start = kp_start + ucast kernel_free_pages * PG_SIZE;
          kpool = \<lparr>pool_bitmap = \<lparr>btmp_bytes_len = kbm_length, bits = 0xc009a000\<rparr>, phy_addr_start = kp_start,
                   pool_size = ucast kernel_free_pages * PG_SIZE, pool_lock = pool_lock (kernel_pool s)\<rparr>;
          upool = \<lparr>pool_bitmap = \<lparr>btmp_bytes_len = ubm_length, bits = 0xc009a000 + kbm_length\<rparr>,
                   phy_addr_start = up_start, pool_size = ucast user_free_pages * PG_SIZE,
                   pool_lock = pool_lock (user_pool s)\<rparr>;
          s = s\<lparr>kernel_pool := kpool, user_pool := upool\<rparr>
      in bindr (bitmap_init (bytes s) (pool_bitmap kpool)) (\<lambda>m.
         bindr (bitmap_init m (pool_bitmap upool)) (\<lambda>m.
         let s = lock_init (pool_lock kpool) (s\<lparr>bytes := m\<rparr>);
             s = lock_init (pool_lock upool) s;
             kvaddr = \<lparr>vaddr_bitmap = \<lparr>btmp_bytes_len = kbm_length, bits = 0xc009a000 + kbm_length + ubm_length\<rparr>,
                       vaddr_start = 0xc0100000\<rparr>;
             s = s\<lparr>kernel_vaddr := kvaddr\<rparr>
         in bindr (bitmap_init (bytes s) (vaddr_bitmap kvaddr)) (\<lambda>m. Inr (s\<lparr>bytes := m\<rparr>)))))"

section \<open>Kernel page tables\<close>

text \<open>Addresses of the kernel part, below the recursive window.\<close>

definition kaddr :: "addr \<Rightarrow> bool" where
  "kaddr v \<longleftrightarrow> 0xc0000000 \<le> unat v \<and> unat v < 0xffc00000"

definition pde_of :: "'a hw_scheme \<Rightarrow> addr \<Rightarrow> u32" where
  "pde_of s v = phys s (pde_slot s v)"

definition pte_of :: "'a hw_scheme \<Rightarrow> addr \<Rightarrow> u32" where
  "pte_of s v = phys s (pte_slot s v)"

text \<open>
  The loader gives every kernel directory entry a table of its own, and the recursive entry; no table
  is the directory itself.
\<close>

definition kmap_ok :: "'a hw_scheme \<Rightarrow> bool" where
  "kmap_ok s \<longleftrightarrow> self_mapped s \<and> frame_of (cr3 s) = cr3 s \<and>
     (\<forall>v. kaddr v \<longrightarrow> present (pde_of s v) \<and> frame_of (pde_of s v) \<noteq> cr3 s) \<and>
     (\<forall>v w. kaddr v \<longrightarrow> kaddr w \<longrightarrow> frame_of (pde_of s v) = frame_of (pde_of s w) \<longrightarrow> PDE_IDX v = PDE_IDX w)"

lemma PDE_page: "unat (PDE_IDX v) = unat v div 4096 div 1024"
  by (simp add: unat_PDE_IDX div_mult2_eq [symmetric])

lemma page_index: "unat v div 4096 = unat (PDE_IDX v) * 1024 + unat (PTE_IDX v)"
  by (simp add: PDE_page unat_PTE_IDX)

lemma same_page: "frame_of v = frame_of w \<longleftrightarrow> PDE_IDX v = PDE_IDX w \<and> PTE_IDX v = PTE_IDX w"
proof -
  have "frame_of v = frame_of w \<longleftrightarrow> unat v div 4096 = unat w div 4096"
    by (simp add: word_unat_eq_iff unat_frame_of)
  moreover have "unat v div 4096 = unat w div 4096 \<longleftrightarrow>
      unat (PDE_IDX v) = unat (PDE_IDX w) \<and> unat (PTE_IDX v) = unat (PTE_IDX w)"
  proof
    assume "unat v div 4096 = unat w div 4096"
    then show "unat (PDE_IDX v) = unat (PDE_IDX w) \<and> unat (PTE_IDX v) = unat (PTE_IDX w)"
      by (simp only: PDE_page unat_PTE_IDX)
  next
    assume "unat (PDE_IDX v) = unat (PDE_IDX w) \<and> unat (PTE_IDX v) = unat (PTE_IDX w)"
    then show "unat v div 4096 = unat w div 4096" by (simp only: page_index)
  qed
  ultimately show ?thesis by (simp only: word_unat_eq_iff)
qed

lemma PTE_IDX_mult_inj: "PTE_IDX v * 4 = PTE_IDX w * 4 \<longleftrightarrow> PTE_IDX v = PTE_IDX w"
proof
  assume "PTE_IDX v * 4 = PTE_IDX w * 4"
  then have "unat (PTE_IDX v * 4) = unat (PTE_IDX w * 4)" by simp
  then have "unat (PTE_IDX v) = unat (PTE_IDX w)"
    by (simp add: unat_word_ariths unat_PTE_IDX)
  then show "PTE_IDX v = PTE_IDX w" by (simp add: word_unat_eq_iff)
qed simp

lemma pte_slot_inj:
  assumes "kmap_ok s" and "kaddr v" and "kaddr w" and "pte_slot s v = pte_slot s w"
  shows "frame_of v = frame_of w"
proof -
  have "frame_of (pde_of s v) = frame_of (pde_of s w)"
    using assms(4) frame_pte_slot [of s v] frame_pte_slot [of s w] by (simp add: pde_of_def)
  moreover from this have "PDE_IDX v = PDE_IDX w" using assms(1-3) unfolding kmap_ok_def by blast
  ultimately have "PDE_IDX v = PDE_IDX w" "PTE_IDX v * 4 = PTE_IDX w * 4"
    using assms(4) by (simp_all add: pte_slot_def pde_of_def)
  then show ?thesis by (simp add: same_page PTE_IDX_mult_inj)
qed

text \<open>Writing a table entry of the kernel part leaves the directory and the other entries alone.\<close>

lemma pte_store:
  assumes ok: "kmap_ok s" and v: "kaddr v"
    and t: "t = s\<lparr>phys := (phys s)(pte_slot s v := x)\<rparr>"
  shows "pde_slot t w = pde_slot s w" and "pde_of t w = pde_of s w" and "pte_slot t w = pte_slot s w"
    and "kmap_ok t" and "pte_of t v = x"
    and "kaddr w \<Longrightarrow> frame_of w \<noteq> frame_of v \<Longrightarrow> pte_of t w = pte_of s w"
proof -
  have cr3: "frame_of (cr3 s) = cr3 s" and tab: "frame_of (pde_of s v) \<noteq> cr3 s"
    using ok v by (auto simp: kmap_ok_def)
  have slot: "pte_slot s v \<noteq> pde_slot s w" for w
    using frame_pde_slot [OF cr3, of w] frame_pte_slot [of s v] tab by (auto simp: pde_of_def)
  show d: "pde_slot t w = pde_slot s w" for w by (simp add: t pde_slot_def)
  show p: "pde_of t w = pde_of s w" for w using slot [of w] by (simp add: pde_of_def d) (simp add: t)
  show q: "pte_slot t w = pte_slot s w" for w using p [of w] by (simp add: pte_slot_def pde_of_def)
  have "cr3 s + 4092 = pde_slot s 0xffc00000" by (simp add: pde_slot_def PDE_IDX_def)
  with slot [of "0xffc00000"] have sm: "self_mapped t = self_mapped s"
    by (simp add: self_mapped_def t)
  have c: "cr3 t = cr3 s" by (simp add: t)
  show "kmap_ok t" using ok unfolding kmap_ok_def p sm c .
  show "pte_of t v = x" by (simp add: pte_of_def q) (simp add: t)
  show "pte_of t w = pte_of s w" if "kaddr w" "frame_of w \<noteq> frame_of v"
  proof -
    have "pte_slot s w \<noteq> pte_slot s v" using pte_slot_inj [OF ok that(1) v] that(2) by blast
    then show ?thesis by (simp add: pte_of_def q) (simp add: t)
  qed
qed

lemma mmu_kernel:
  "kmap_ok s \<Longrightarrow> kaddr v \<Longrightarrow> mmu s v =
     (if present (pte_of s v) then Some (frame_of (pte_of s v) + (v AND 0xfff)) else None)"
  by (simp add: mmu_slots kmap_ok_def pde_of_def pte_of_def)

lemma kernel_entries:
  assumes "kmap_ok s" and "kaddr v"
  shows "load s (pde_ptr v) = Inr (pde_of s v)" and "load s (pte_ptr v) = Inr (pte_of s v)"
    and "store (pte_ptr v) x s = Inr (s\<lparr>phys := (phys s)(pte_slot s v := x)\<rparr>)"
  using assms
  by (simp_all add: kmap_ok_def load_pde load_pte pde_of_def pte_of_def store_def mmu_pte_ptr)

lemma page_table_add_kernel:
  assumes "kmap_ok s" and "kaddr v" and "\<not> present (pte_of s v)"
  shows "page_table_add v p s = Inr (s\<lparr>phys := (phys s)(pte_slot s v := p OR PG_US_U OR PG_RW_W OR PG_P_1)\<rparr>)"
proof -
  have "pde_of s v AND 1 \<noteq> 0" using assms by (simp add: kmap_ok_def present_def)
  moreover have "pte_of s v AND 1 = 0" using assms(3) by (simp add: present_def)
  ultimately show ?thesis using kernel_entries [OF assms(1,2)] by (simp add: page_table_add_def)
qed

lemma entry_bits:
  assumes "frame_of p = p"
  shows "frame_of (p OR PG_US_U OR PG_RW_W OR PG_P_1) = p" and "present (p OR PG_US_U OR PG_RW_W OR PG_P_1)"
proof -
  have "(PG_US_U OR PG_RW_W OR PG_P_1) AND 0xfffff000 = 0" by simp
  then show "frame_of (p OR PG_US_U OR PG_RW_W OR PG_P_1) = p"
    using assms by (simp add: frame_of_def bit.conj_disj_distrib2 or.assoc)
  show "present (p OR PG_US_U OR PG_RW_W OR PG_P_1)"
    by (simp add: present_def and_one_eq odd_iff_mod_2_eq_one [symmetric] even_or_iff)
qed

lemma remove_bits: "frame_of (x AND NOT PG_P_1) = frame_of x" "\<not> present (x AND NOT PG_P_1)"
proof -
  show "frame_of (x AND NOT PG_P_1) = frame_of x"
  proof -
    have "NOT PG_P_1 AND 0xfffff000 = 0xfffff000" by simp
    then show ?thesis by (simp only: frame_of_def and.assoc)
  qed
  show "\<not> present (x AND NOT PG_P_1)" by (simp add: present_def and.assoc)
qed

section \<open>The kernel heap\<close>

abbreviation kpb :: "'a mm_scheme \<Rightarrow> bitmap" where "kpb s \<equiv> pool_bitmap (kernel_pool s)"
abbreviation kvb :: "'a mm_scheme \<Rightarrow> bitmap" where "kvb s \<equiv> vaddr_bitmap (kernel_vaddr s)"

definition heap_page :: "'a mm_scheme \<Rightarrow> nat \<Rightarrow> addr" where
  "heap_page s j = vaddr_start (kernel_vaddr s) + of_nat j * PG_SIZE"

definition kframe :: "'a mm_scheme \<Rightarrow> nat \<Rightarrow> u32" where
  "kframe s i = phy_addr_start (kernel_pool s) + of_nat i * PG_SIZE"

definition in_bitmap :: "addr \<Rightarrow> bitmap \<Rightarrow> bool" where
  "in_bitmap a b \<longleftrightarrow> within a (bits b) (unat (btmp_bytes_len b))"

text \<open>The layout of the pools: what \<open>mem_pool_init\<close> and the loader set up and no operation changes.\<close>

definition heap_base :: "'a mm_scheme \<Rightarrow> bool" where
  "heap_base s \<longleftrightarrow> kmap_ok s \<and> bitmap_ok (kpb s) \<and> bitmap_ok (kvb s) \<and>
     (\<forall>v. kaddr v \<longrightarrow> unat (frame_of (pde_of s v)) < unat (phy_addr_start (kernel_pool s))) \<and>
     (\<forall>a. in_bitmap a (kpb s) \<longrightarrow> \<not> in_bitmap a (kvb s)) \<and>
     frame_of (phy_addr_start (kernel_pool s)) = phy_addr_start (kernel_pool s) \<and>
     0x102000 \<le> unat (phy_addr_start (kernel_pool s)) \<and>
     unat (phy_addr_start (kernel_pool s)) + 4096 * nbits (kpb s) \<le> unat (phy_addr_start (user_pool s)) \<and>
     frame_of (vaddr_start (kernel_vaddr s)) = vaddr_start (kernel_vaddr s) \<and>
     0xc0000000 \<le> unat (vaddr_start (kernel_vaddr s)) \<and>
     unat (vaddr_start (kernel_vaddr s)) + 4096 * nbits (kvb s) \<le> 0xffc00000"

text \<open>
  The heap pages \<open>M\<close> are mapped, each to its own frame of the pool, and no other page of the heap is.
\<close>

definition mapped :: "'a mm_scheme \<Rightarrow> nat set \<Rightarrow> bool" where
  "mapped s M \<longleftrightarrow> M \<subseteq> {..<nbits (kvb s)} \<and>
     (\<forall>j<nbits (kvb s). present (pte_of s (heap_page s j)) \<longleftrightarrow> j \<in> M) \<and>
     (\<forall>j\<in>M. \<exists>i<nbits (kpb s). taken (bytes s) (kpb s) i \<and> frame_of (pte_of s (heap_page s j)) = kframe s i) \<and>
     (\<forall>j\<in>M. \<forall>k\<in>M. frame_of (pte_of s (heap_page s j)) = frame_of (pte_of s (heap_page s k)) \<longrightarrow> j = k)"

definition taken_pages :: "'a mm_scheme \<Rightarrow> nat set" where
  "taken_pages s = {j. j < nbits (kvb s) \<and> taken (bytes s) (kvb s) j}"

definition heap_ok :: "'a mm_scheme \<Rightarrow> bool" where
  "heap_ok s \<longleftrightarrow> heap_base s \<and> mapped s (taken_pages s)"

lemma page_offset:
  assumes "frame_of a = a" and "unat a + 4096 * n \<le> 4294967296" and "j < n"
  shows "unat (a + of_nat j * PG_SIZE) = unat a + 4096 * j" and "frame_of (a + of_nat j * PG_SIZE) = a + of_nat j * PG_SIZE"
proof -
  have j: "unat (of_nat j * PG_SIZE) = 4096 * j" using assms by (simp add: unat_word_ariths)
  show u: "unat (a + of_nat j * PG_SIZE) = unat a + 4096 * j"
    using assms by (subst unat_add_u32) (simp_all add: j)
  define q where "q = unat a div 4096"
  have "unat a = q * 4096" unfolding q_def using assms(1) unat_frame_of [of a] by simp
  then have "(unat a + 4096 * j) div 4096 * 4096 = unat a + 4096 * j" by simp
  then show "frame_of (a + of_nat j * PG_SIZE) = a + of_nat j * PG_SIZE"
    by (simp only: word_unat_eq_iff unat_frame_of u)
qed

lemma heap_page_props:
  assumes "heap_base s" and "j < nbits (kvb s)"
  shows "unat (heap_page s j) = unat (vaddr_start (kernel_vaddr s)) + 4096 * j"
    and "frame_of (heap_page s j) = heap_page s j" and "kaddr (heap_page s j)"
proof -
  note po = page_offset [of "vaddr_start (kernel_vaddr s)" "nbits (kvb s)" j]
  show u: "unat (heap_page s j) = unat (vaddr_start (kernel_vaddr s)) + 4096 * j"
    using po(1) assms by (simp add: heap_base_def heap_page_def)
  show "frame_of (heap_page s j) = heap_page s j" using po(2) assms by (simp add: heap_base_def heap_page_def)
  show "kaddr (heap_page s j)" using u assms by (auto simp: kaddr_def heap_base_def)
qed

lemma heap_page_inj:
  assumes "heap_base s" and "j < nbits (kvb s)" and "k < nbits (kvb s)" and "heap_page s j = heap_page s k"
  shows "j = k"
proof -
  have "unat (vaddr_start (kernel_vaddr s)) + 4096 * j = unat (vaddr_start (kernel_vaddr s)) + 4096 * k"
    unfolding heap_page_props(1) [OF assms(1,2), symmetric] heap_page_props(1) [OF assms(1,3), symmetric]
    by (rule arg_cong [OF assms(4)])
  then show ?thesis by simp
qed

lemma kframe_props:
  assumes "heap_base s" and "i < nbits (kpb s)"
  shows "unat (kframe s i) = unat (phy_addr_start (kernel_pool s)) + 4096 * i"
    and "frame_of (kframe s i) = kframe s i" and "kframe s i \<noteq> NULL"
proof -
  have "unat (phy_addr_start (kernel_pool s)) + 4096 * nbits (kpb s) \<le> 4294967296"
    using assms(1) unat_u32_bound [of "phy_addr_start (user_pool s)"] unfolding heap_base_def by linarith
  note po = page_offset [OF _ this assms(2)]
  show u: "unat (kframe s i) = unat (phy_addr_start (kernel_pool s)) + 4096 * i"
    using po(1) assms by (simp add: heap_base_def kframe_def)
  show "frame_of (kframe s i) = kframe s i" using po(2) assms by (simp add: heap_base_def kframe_def)
  show "kframe s i \<noteq> NULL" using u assms(1) by (auto simp: heap_base_def)
qed

lemma kframe_inj:
  assumes "heap_base s" and "i < nbits (kpb s)" and "k < nbits (kpb s)" and "kframe s i = kframe s k"
  shows "i = k"
proof -
  have "unat (phy_addr_start (kernel_pool s)) + 4096 * i = unat (phy_addr_start (kernel_pool s)) + 4096 * k"
    unfolding kframe_props(1) [OF assms(1,2), symmetric] kframe_props(1) [OF assms(1,3), symmetric]
    by (rule arg_cong [OF assms(4)])
  then show ?thesis by simp
qed

text \<open>Bits and bytes.\<close>

lemma bit_in_bitmap: "j < nbits b \<Longrightarrow> in_bitmap (bits b + of_nat (j div 8)) b"
proof -
  assume "j < nbits b"
  then have lt: "j div 8 < unat (btmp_bytes_len b)" by (simp add: nbits_def less_mult_imp_div_less mult.commute)
  then have "j div 8 < 4294967296" using unat_u32_bound [of "btmp_bytes_len b"] by linarith
  then show ?thesis using lt by (simp add: in_bitmap_def within_of_nat)
qed

lemma taken_cong: "(\<And>a. in_bitmap a b \<Longrightarrow> m' a = m a) \<Longrightarrow> j < nbits b \<Longrightarrow> taken m' b j = taken m b j"
  using bit_in_bitmap by (simp add: taken_def)

lemma bitmap_set_spec:
  assumes "i < nbits b" and "bitmap_ok b" and "v = 0 \<or> v = 1"
  shows "\<exists>m'. bitmap_set m b (of_nat i) v = Inr m' \<and>
    (\<forall>k<nbits b. taken m' b k \<longleftrightarrow> (if k = i then v = 1 else taken m b k)) \<and>
    (\<forall>a. \<not> in_bitmap a b \<longrightarrow> m' a = m a)"
proof -
  obtain m' where m': "bitmap_set m b (of_nat i) v = Inr m'" using bitmap_set_ok [OF assms(3)] by blast
  have n: "nbits b < 2147483648" using assms(2) by (simp add: bitmap_ok_def)
  then have i: "unat (of_nat i :: u32) = i" using assms(1) by simp
  have "taken m' b k \<longleftrightarrow> (if k = i then v = 1 else taken m b k)" if "k < nbits b" for k
    using bitmap_set_taken [OF m', of k] that n i by simp
  moreover have "(of_nat i :: u32) div 8 = of_nat (i div 8)"
    by (metis i of_nat_unat_div_8)
  then have "m' a = m a" if "\<not> in_bitmap a b" for a
    using bitmap_set_frame [OF m'] bit_in_bitmap [OF assms(1)] that by metis
  ultimately show ?thesis using m' by blast
qed

lemma palloc_spec:
  assumes "bitmap_ok (pool_bitmap (pool_of pf s))" and "\<exists>i<nbits (pool_bitmap (pool_of pf s)). \<not> taken (bytes s) (pool_bitmap (pool_of pf s)) i"
  shows "\<exists>i m'. i < nbits (pool_bitmap (pool_of pf s)) \<and> \<not> taken (bytes s) (pool_bitmap (pool_of pf s)) i \<and>
    palloc pf s = Inr (phy_addr_start (pool_of pf s) + of_nat i * PG_SIZE, s\<lparr>bytes := m'\<rparr>) \<and>
    (\<forall>k<nbits (pool_bitmap (pool_of pf s)). taken m' (pool_bitmap (pool_of pf s)) k \<longleftrightarrow>
       k = i \<or> taken (bytes s) (pool_bitmap (pool_of pf s)) k) \<and>
    (\<forall>a. \<not> in_bitmap a (pool_bitmap (pool_of pf s)) \<longrightarrow> m' a = bytes s a)"
proof -
  let ?b = "pool_bitmap (pool_of pf s)"
  obtain r where r: "bitmap_scan (bytes s) ?b 1 = Inr r"
    using assms by (auto simp: bitmap_scan_unfold)
  note one = bitmap_scan_one [OF assms(1) r]
  have n: "nbits ?b < 2147483648" using assms(1) by (simp add: bitmap_ok_def)
  then have "r \<noteq> -1" using one(1) of_nat_u32_not_m1 [of "unat r"] by simp
  obtain m' where m': "bitmap_set (bytes s) ?b r 1 = Inr m'"
    "\<forall>k<nbits ?b. taken m' ?b k \<longleftrightarrow> (if k = unat r then (1 :: u8) = 1 else taken (bytes s) ?b k)"
    "\<forall>a. \<not> in_bitmap a ?b \<longrightarrow> m' a = bytes s a"
    using bitmap_set_spec [OF one(1) assms(1), of 1 "bytes s"] by auto
  show ?thesis
    using one m' r \<open>r \<noteq> -1\<close>
    by (intro exI [of _ "unat r"] exI [of _ m']) (auto simp: palloc_def Let_def add.commute)
qed

text \<open>States that differ in bytes and page tables only have the same pools and pages.\<close>

lemma pte_of_bytes [simp]:
  "pte_of (s\<lparr>bytes := m\<rparr>) v = pte_of s v" "pde_of (s\<lparr>bytes := m\<rparr>) v = pde_of s v"
  "pte_slot (s\<lparr>bytes := m\<rparr>) v = pte_slot s v" "kmap_ok (s\<lparr>bytes := m\<rparr>) = kmap_ok s"
  "heap_page (t\<lparr>bytes := m\<rparr>) j = heap_page t j" "heap_page (t\<lparr>phys := ph\<rparr>) j = heap_page t j"
  "kframe (t\<lparr>bytes := m\<rparr>) i = kframe t i" "kframe (t\<lparr>phys := ph\<rparr>) i = kframe t i"
  by (simp_all add: pte_of_def pde_of_def pte_slot_def pde_slot_def kmap_ok_def self_mapped_def
      heap_page_def kframe_def)

lemma heap_base_upd:
  "heap_base s \<Longrightarrow> kmap_ok (s\<lparr>phys := ph\<rparr>) \<Longrightarrow> (\<And>v. pde_of (s\<lparr>phys := ph\<rparr>) v = pde_of s v) \<Longrightarrow>
    heap_base (s\<lparr>bytes := m, phys := ph\<rparr>)"
  by (simp add: heap_base_def kmap_ok_def self_mapped_def pde_of_def pde_slot_def)

lemma map_one:
  assumes base: "heap_base s" and M: "mapped s M" and j: "j < nbits (kvb s)" "j \<notin> M"
    and free: "\<exists>i<nbits (kpb s). \<not> taken (bytes s) (kpb s) i"
  shows "\<exists>i m' s'. i < nbits (kpb s) \<and> \<not> taken (bytes s) (kpb s) i \<and>
    palloc PF_KERNEL s = Inr (kframe s i, s\<lparr>bytes := m'\<rparr>) \<and> kframe s i \<noteq> NULL \<and>
    page_table_add (heap_page s j) (kframe s i) (s\<lparr>bytes := m'\<rparr>) = Inr s' \<and>
    (\<exists>ph. s' = s\<lparr>bytes := m', phys := ph\<rparr>) \<and> heap_base s' \<and> mapped s' (insert j M) \<and>
    frame_of (pte_of s' (heap_page s j)) = kframe s i \<and>
    (\<forall>k\<in>M. pte_of s' (heap_page s k) = pte_of s (heap_page s k)) \<and>
    (\<forall>k<nbits (kpb s). taken m' (kpb s) k \<longleftrightarrow> k = i \<or> taken (bytes s) (kpb s) k) \<and>
    (\<forall>a. \<not> in_bitmap a (kpb s) \<longrightarrow> m' a = bytes s a)"
proof -
  let ?v = "heap_page s j"
  have K: "kmap_ok s" and ok: "bitmap_ok (kpb s)" using base by (simp_all add: heap_base_def)
  from palloc_spec [of PF_KERNEL s] ok free obtain i m' where
    i: "i < nbits (kpb s)" "\<not> taken (bytes s) (kpb s) i" "palloc PF_KERNEL s = Inr (kframe s i, s\<lparr>bytes := m'\<rparr>)"
    and m': "\<forall>k<nbits (kpb s). taken m' (kpb s) k \<longleftrightarrow> k = i \<or> taken (bytes s) (kpb s) k"
      "\<forall>a. \<not> in_bitmap a (kpb s) \<longrightarrow> m' a = bytes s a"
    by (auto simp: pool_of_def kframe_def)
  let ?x = "kframe s i OR PG_US_U OR PG_RW_W OR PG_P_1"
  let ?t = "s\<lparr>phys := (phys s)(pte_slot s ?v := ?x)\<rparr>"
  let ?s = "s\<lparr>bytes := m', phys := (phys s)(pte_slot s ?v := ?x)\<rparr>"
  note fr = kframe_props [OF base i(1)] and pg = heap_page_props [OF base]
  have np: "\<not> present (pte_of s ?v)" using M j by (simp add: mapped_def)
  have add: "page_table_add ?v (kframe s i) (s\<lparr>bytes := m'\<rparr>) = Inr ?s"
    using page_table_add_kernel [of "s\<lparr>bytes := m'\<rparr>" ?v "kframe s i"] K pg(3) [OF j(1)] np by simp
  note st = pte_store [OF K pg(3) [OF j(1)] refl, where x = ?x]
  have pte_t: "pte_of ?s w = pte_of ?t w" for w by (simp add: pte_of_def pte_slot_def pde_slot_def)
  have new: "pte_of ?s ?v = ?x" using st(5) pte_t by simp
  have keep: "pte_of ?s (heap_page s k) = pte_of s (heap_page s k)" if "k < nbits (kvb s)" "k \<noteq> j" for k
    unfolding pte_t using st(6) [of "heap_page s k"] pg(2,3) [OF that(1)] pg(2) [OF j(1)]
      heap_page_inj [OF base that(1) j(1)] that(2) by auto
  have hb: "heap_base ?s" using heap_base_upd [OF base st(4,2)] .
  have entry: "frame_of (pte_of ?s ?v) = kframe s i" "present (pte_of ?s ?v)"
    unfolding new by (rule entry_bits [OF fr(2)])+
  have in_s: "k < nbits (kvb s)" if "k \<in> M" for k using M that by (auto simp: mapped_def)
  have old: "\<exists>i'<nbits (kpb s). i' \<noteq> i \<and> taken m' (kpb s) i' \<and> frame_of (pte_of ?s (heap_page s k)) = kframe s i'"
    if "k \<in> M" for k
  proof -
    obtain i' where "i' < nbits (kpb s)" "taken (bytes s) (kpb s) i'"
      "frame_of (pte_of s (heap_page s k)) = kframe s i'" using M \<open>k \<in> M\<close> by (auto simp: mapped_def)
    moreover have "k \<noteq> j" using that j by auto
    ultimately show ?thesis using i(2) m'(1) keep [OF in_s [OF that]] by metis
  qed
  have fresh: "frame_of (pte_of ?s (heap_page s k)) \<noteq> kframe s i" if "k \<in> M" for k
    using old [OF that] kframe_inj [OF base i(1)] by metis
  have "mapped ?s (insert j M)"
    unfolding mapped_def
  proof (intro conjI allI impI ballI)
    show "insert j M \<subseteq> {..<nbits (kvb ?s)}" using j in_s by auto
    show "present (pte_of ?s (heap_page ?s k)) \<longleftrightarrow> k \<in> insert j M" if "k < nbits (kvb ?s)" for k
      using that keep [of k] entry(2) M by (cases "k = j") (auto simp: mapped_def)
    show "\<exists>i<nbits (kpb ?s). taken (bytes ?s) (kpb ?s) i \<and> frame_of (pte_of ?s (heap_page ?s k)) = kframe ?s i"
      if "k \<in> insert j M" for k
      using that old [of k] entry(1) i(1) m'(1) by (cases "k = j") auto
    show "k = k'" if "k \<in> insert j M" "k' \<in> insert j M"
      "frame_of (pte_of ?s (heap_page ?s k)) = frame_of (pte_of ?s (heap_page ?s k'))" for k k'
    proof (cases "k = j \<or> k' = j")
      case True
      with that fresh [of k] fresh [of k'] entry(1) show ?thesis by auto
    next
      case False
      with that have kM: "k \<in> M" "k' \<in> M" by auto
      with False that(3) keep in_s have "frame_of (pte_of s (heap_page s k)) = frame_of (pte_of s (heap_page s k'))" by auto
      with M kM show ?thesis by (auto simp: mapped_def)
    qed
  qed
  moreover have "\<forall>k\<in>M. pte_of ?s (heap_page s k) = pte_of s (heap_page s k)" using keep in_s j by blast
  ultimately show ?thesis using i m' fr(3) add hb entry(1) by blast
qed

definition free_frames :: "'a mm_scheme \<Rightarrow> nat set" where
  "free_frames s = {i. i < nbits (kpb s) \<and> \<not> taken (bytes s) (kpb s) i}"

text \<open>What mapping \<open>n\<close> pages from page \<open>j\<close> on does to the state.\<close>

definition maps_to :: "'a mm_scheme \<Rightarrow> nat set \<Rightarrow> nat \<Rightarrow> nat \<Rightarrow> 'a mm_scheme \<Rightarrow> bool" where
  "maps_to s M j n s' \<longleftrightarrow> (\<exists>m' ph. s' = s\<lparr>bytes := m', phys := ph\<rparr>) \<and> heap_base s' \<and>
     mapped s' (M \<union> {j..<j + n}) \<and>
     (\<forall>k\<in>M. pte_of s' (heap_page s k) = pte_of s (heap_page s k)) \<and>
     (\<forall>a. \<not> in_bitmap a (kpb s) \<longrightarrow> bytes s' a = bytes s a) \<and>
     free_frames s' \<subseteq> free_frames s \<and>
     (\<forall>k<n. \<exists>i\<in>free_frames s. frame_of (pte_of s' (heap_page s (j + k))) = kframe s i)"

lemma heap_page_Suc: "heap_page s j + PG_SIZE = heap_page s (Suc j)"
  by (simp add: heap_page_def algebra_simps)

lemma map_pages_spec:
  assumes "heap_base s" and "mapped s M" and "\<And>k. k < n \<Longrightarrow> j + k < nbits (kvb s) \<and> j + k \<notin> M"
    and "n \<le> card (free_frames s)"
  shows "\<exists>s'. map_pages PF_KERNEL (heap_page s j) n s = Inr (True, s') \<and> maps_to s M j n s'"
  using assms
proof (induction n arbitrary: s M j)
  case 0
  moreover have "\<exists>m' ph. s = s\<lparr>bytes := m', phys := ph\<rparr>"
    by (intro exI [of _ "bytes s"] exI [of _ "phys s"]) simp
  ultimately have "maps_to s M j 0 s" unfolding maps_to_def by simp
  then show ?case by simp
next
  case (Suc n)
  have fin: "finite (free_frames s)" by (simp add: free_frames_def)
  have "\<exists>i<nbits (kpb s). \<not> taken (bytes s) (kpb s) i"
  proof -
    have "free_frames s \<noteq> {}" using Suc.prems(4) by auto
    then show ?thesis by (auto simp: free_frames_def)
  qed
  with map_one [OF Suc.prems(1,2), of j] Suc.prems(3) [of 0] obtain i m' s1 where
    i: "i < nbits (kpb s)" "\<not> taken (bytes s) (kpb s) i"
    and p: "palloc PF_KERNEL s = Inr (kframe s i, s\<lparr>bytes := m'\<rparr>)" "kframe s i \<noteq> NULL"
    and a: "page_table_add (heap_page s j) (kframe s i) (s\<lparr>bytes := m'\<rparr>) = Inr s1"
    and s1: "\<exists>ph. s1 = s\<lparr>bytes := m', phys := ph\<rparr>" "heap_base s1" "mapped s1 (insert j M)"
      "frame_of (pte_of s1 (heap_page s j)) = kframe s i"
      "\<forall>k\<in>M. pte_of s1 (heap_page s k) = pte_of s (heap_page s k)"
    and m': "\<forall>k<nbits (kpb s). taken m' (kpb s) k \<longleftrightarrow> k = i \<or> taken (bytes s) (kpb s) k"
      "\<forall>a. \<not> in_bitmap a (kpb s) \<longrightarrow> m' a = bytes s a"
    by auto
  from s1(1) obtain ph where ph: "s1 = s\<lparr>bytes := m', phys := ph\<rparr>" by blast
  have ff: "free_frames s1 = free_frames s - {i}" using m'(1) by (auto simp: free_frames_def ph)
  have i_in: "i \<in> free_frames s" using i by (simp add: free_frames_def)
  have pages: "heap_page s1 k = heap_page s k" for k by (simp add: ph)
  have "\<exists>s'. map_pages PF_KERNEL (heap_page s1 (Suc j)) n s1 = Inr (True, s') \<and> maps_to s1 (insert j M) (Suc j) n s'"
  proof (rule Suc.IH [OF s1(2,3)])
    show "Suc j + k < nbits (kvb s1) \<and> Suc j + k \<notin> insert j M" if "k < n" for k
      using Suc.prems(3) [of "Suc k"] that by (simp add: ph)
    show "n \<le> card (free_frames s1)" using Suc.prems(4) i_in fin by (simp add: ff)
  qed
  then obtain s' where s': "map_pages PF_KERNEL (heap_page s (Suc j)) n s1 = Inr (True, s')"
    and mt: "maps_to s1 (insert j M) (Suc j) n s'" by (auto simp: pages)
  have "map_pages PF_KERNEL (heap_page s j) (Suc n) s = Inr (True, s')"
    using p a s' by (simp add: heap_page_Suc)
  moreover have "maps_to s M j (Suc n) s'"
  proof -
    from mt obtain m2 ph2 where s'_eq: "s' = s1\<lparr>bytes := m2, phys := ph2\<rparr>" by (auto simp: maps_to_def)
    have "insert j M \<union> {Suc j..<Suc j + n} = M \<union> {j..<j + Suc n}" by auto
    moreover have "\<exists>i\<in>free_frames s. frame_of (pte_of s' (heap_page s (j + k))) = kframe s i" if "k < Suc n" for k
    proof (cases k)
      case 0
      with mt s1(4) i_in show ?thesis by (auto simp: maps_to_def pages)
    next
      case (Suc k')
      with mt that ff show ?thesis by (auto simp: maps_to_def ph)
    qed
    ultimately show ?thesis
      using mt s1(5) m'(2) ff by (auto simp: maps_to_def pages ph s'_eq)
  qed
  ultimately show ?case by blast
qed

lemma set_run_spec:
  assumes "i + n \<le> nbits b" and "bitmap_ok b" and "v = 0 \<or> v = 1"
  shows "\<exists>m'. set_run b (of_nat i) v n m = Inr m' \<and>
    (\<forall>k<nbits b. taken m' b k \<longleftrightarrow> (if i \<le> k \<and> k < i + n then v = 1 else taken m b k)) \<and>
    (\<forall>a. \<not> in_bitmap a b \<longrightarrow> m' a = m a)"
  using assms(1)
proof (induction n arbitrary: i m)
  case (Suc n)
  then have "i < nbits b" by simp
  from bitmap_set_spec [OF this assms(2,3), of m] obtain m1 where m1: "bitmap_set m b (of_nat i) v = Inr m1"
    "\<forall>k<nbits b. taken m1 b k \<longleftrightarrow> (if k = i then v = 1 else taken m b k)"
    "\<forall>a. \<not> in_bitmap a b \<longrightarrow> m1 a = m a" by blast
  from Suc.IH [of "Suc i" m1] Suc.prems obtain m2 where m2: "set_run b (of_nat (Suc i)) v n m1 = Inr m2"
    "\<forall>k<nbits b. taken m2 b k \<longleftrightarrow> (if Suc i \<le> k \<and> k < Suc i + n then v = 1 else taken m1 b k)"
    "\<forall>a. \<not> in_bitmap a b \<longrightarrow> m2 a = m1 a" by auto
  have "set_run b (of_nat i) v (Suc n) m = Inr m2" using m1(1) m2(1) by (simp add: add.commute)
  then show ?case using m1(2,3) m2(2,3) by (intro exI [of _ m2]) auto
qed auto

lemma bitmap_scan_run:
  assumes ok: "bitmap_ok b" and c: "0 < cnt" and r0: "r0 + unat cnt \<le> nbits b" "free_run m b r0 (unat cnt)"
  shows "\<exists>r. bitmap_scan m b cnt = Inr (of_nat r) \<and> (of_nat r :: u32) \<noteq> -1 \<and> r + unat cnt \<le> nbits b \<and>
    free_run m b r (unat cnt) \<and> (\<forall>r'<r. \<not> free_run m b r' (unat cnt))"
proof -
  have n: "nbits b < 2147483648" using ok by (simp add: bitmap_ok_def)
  have c0: "0 < unat cnt" using c by (simp add: unat_gt_0)
  have "\<not> taken m b r0" "r0 < nbits b" using r0 c0 by (auto simp: free_run_def)
  then have ex: "\<not> (\<forall>j<nbits b. taken m b j)" by blast
  then obtain w where w: "bitmap_scan m b cnt = Inr w"
    using bitmap_scan_unfold [OF ok, of m cnt] by (cases "cnt = 1") auto
  have goal: ?thesis if "unat w + unat cnt \<le> nbits b" "free_run m b (unat w) (unat cnt)"
    "\<forall>r'<unat w. \<not> free_run m b r' (unat cnt)"
    using that w n of_nat_u32_not_m1 [of "unat w"] by (intro exI [of _ "unat w"]) auto
  show ?thesis
  proof (cases "cnt = 1")
    case True
    with bitmap_scan_one [OF ok, of m w] w show ?thesis
      by (intro goal) (auto simp: free_run_def le_less_Suc_eq)
  next
    case False
    then have two: "2 \<le> cnt" using c by unat_arith
    from bitmap_scan_many [OF ok two w] have rr: "run_result m b (unat cnt) (nbits b + 1) w" .
    then have "w \<noteq> -1" using r0 by (fastforce simp: run_result_def)
    with rr have "free_run m b (unat w) (unat cnt)" "\<forall>r'<unat w. \<not> free_run m b r' (unat cnt)"
      by (simp_all add: run_result_def)
    moreover from this(2) r0(2) have "unat w \<le> r0" using not_le_imp_less by blast
    ultimately show ?thesis using r0(1) by (intro goal) auto
  qed
qed

lemma vaddr_get_kernel:
  assumes ok: "bitmap_ok (kvb s)" and c: "0 < cnt"
    and r0: "r0 + unat cnt \<le> nbits (kvb s)" "free_run (bytes s) (kvb s) r0 (unat cnt)"
  shows "\<exists>r m'. vaddr_get PF_KERNEL cnt s = Inr (heap_page s r, s\<lparr>bytes := m'\<rparr>) \<and> r + unat cnt \<le> nbits (kvb s) \<and>
    free_run (bytes s) (kvb s) r (unat cnt) \<and> (\<forall>r'<r. \<not> free_run (bytes s) (kvb s) r' (unat cnt)) \<and>
    (\<forall>k<nbits (kvb s). taken m' (kvb s) k \<longleftrightarrow> r \<le> k \<and> k < r + unat cnt \<or> taken (bytes s) (kvb s) k) \<and>
    (\<forall>a. \<not> in_bitmap a (kvb s) \<longrightarrow> m' a = bytes s a)"
proof -
  from bitmap_scan_run [OF ok c r0] obtain r where r: "bitmap_scan (bytes s) (kvb s) cnt = Inr (of_nat r)"
    "(of_nat r :: u32) \<noteq> -1" "r + unat cnt \<le> nbits (kvb s)" "free_run (bytes s) (kvb s) r (unat cnt)"
    "\<forall>r'<r. \<not> free_run (bytes s) (kvb s) r' (unat cnt)" by blast
  from set_run_spec [OF r(3) ok, of 1 "bytes s"] obtain m' where
    m': "set_run (kvb s) (of_nat r) 1 (unat cnt) (bytes s) = Inr m'"
    "\<forall>k<nbits (kvb s). taken m' (kvb s) k \<longleftrightarrow> (if r \<le> k \<and> k < r + unat cnt then (1 :: u8) = 1 else taken (bytes s) (kvb s) k)"
    "\<forall>a. \<not> in_bitmap a (kvb s) \<longrightarrow> m' a = bytes s a" by auto
  show ?thesis
    using r m' by (intro exI [of _ r] exI [of _ m']) (auto simp: vaddr_get_def Let_def heap_page_def)
qed

lemma heap_base_disjoint: "heap_base s \<Longrightarrow> in_bitmap a (kpb s) \<Longrightarrow> \<not> in_bitmap a (kvb s)"
  by (simp add: heap_base_def)

lemma mapped_bytes:
  assumes "mapped s M" and "\<And>i. i < nbits (kpb s) \<Longrightarrow> taken m (kpb s) i = taken (bytes s) (kpb s) i"
  shows "mapped (s\<lparr>bytes := m\<rparr>) M"
proof -
  have "\<exists>i<nbits (kpb s). taken m (kpb s) i \<and> frame_of (pte_of s (heap_page s j)) = kframe s i" if "j \<in> M" for j
    using assms that unfolding mapped_def by metis
  then show ?thesis using assms(1) by (simp add: mapped_def)
qed

lemma malloc_page_kernel:
  assumes ok: "heap_ok s" and c: "0 < cnt" "cnt < 3840"
    and r0: "r0 + unat cnt \<le> nbits (kvb s)" "free_run (bytes s) (kvb s) r0 (unat cnt)"
    and f: "unat cnt \<le> card (free_frames s)"
  shows "\<exists>r s'. malloc_page PF_KERNEL cnt s = Inr (heap_page s r, s') \<and> r + unat cnt \<le> nbits (kvb s) \<and>
    free_run (bytes s) (kvb s) r (unat cnt) \<and> (\<forall>r'<r. \<not> free_run (bytes s) (kvb s) r' (unat cnt)) \<and>
    heap_ok s' \<and> taken_pages s' = taken_pages s \<union> {r..<r + unat cnt} \<and>
    maps_to s (taken_pages s) r (unat cnt) (s'\<lparr>bytes := (\<lambda>a. if in_bitmap a (kvb s) then bytes s a else bytes s' a)\<rparr>) \<and>
    (\<exists>m ph. s' = s\<lparr>bytes := m, phys := ph\<rparr>)"
proof -
  have base: "heap_base s" and M: "mapped s (taken_pages s)" using ok by (auto simp: heap_ok_def)
  have okb: "bitmap_ok (kvb s)" using base by (simp add: heap_base_def)
  from vaddr_get_kernel [OF okb c(1) r0] obtain r m' where
    v: "vaddr_get PF_KERNEL cnt s = Inr (heap_page s r, s\<lparr>bytes := m'\<rparr>)"
    and r: "r + unat cnt \<le> nbits (kvb s)" "free_run (bytes s) (kvb s) r (unat cnt)"
      "\<forall>r'<r. \<not> free_run (bytes s) (kvb s) r' (unat cnt)"
    and m': "\<forall>k<nbits (kvb s). taken m' (kvb s) k \<longleftrightarrow> r \<le> k \<and> k < r + unat cnt \<or> taken (bytes s) (kvb s) k"
      "\<forall>a. \<not> in_bitmap a (kvb s) \<longrightarrow> m' a = bytes s a" by blast
  let ?s = "s\<lparr>bytes := m'\<rparr>"
  have kp: "taken m' (kpb s) i = taken (bytes s) (kpb s) i" if "i < nbits (kpb s)" for i
    using m'(2) heap_base_disjoint [OF base] that by (intro taken_cong) auto
  have base1: "heap_base ?s" using base by (simp add: heap_base_def)
  have M1: "mapped ?s (taken_pages s)" by (rule mapped_bytes [OF M kp])
  have ff: "free_frames ?s = free_frames s" using kp by (auto simp: free_frames_def)
  have new: "r + k < nbits (kvb ?s) \<and> r + k \<notin> taken_pages s" if "k < unat cnt" for k
    using r that by (auto simp: taken_pages_def free_run_def)
  from map_pages_spec [OF base1 M1 new] f ff obtain s' where
    s': "map_pages PF_KERNEL (heap_page s r) (unat cnt) ?s = Inr (True, s')" "maps_to ?s (taken_pages s) r (unat cnt) s'"
    by auto
  from s'(2) obtain m2 ph where s'_eq: "s' = s\<lparr>bytes := m2, phys := ph\<rparr>" by (auto simp: maps_to_def)
  have m2: "m2 a = m' a" if "\<not> in_bitmap a (kpb s)" for a
    using s'(2) that by (auto simp: maps_to_def s'_eq)
  have nn: "heap_page s r \<noteq> NULL"
    using heap_page_props(1) [OF base, of r] new [of 0] c(1) base
    by (auto simp: heap_base_def unat_gt_0)
  have run: "malloc_page PF_KERNEL cnt s = Inr (heap_page s r, s')"
    using c v nn s'(1) by (simp add: malloc_page_def)
  have bits': "taken m2 (kvb s) k = taken m' (kvb s) k" if "k < nbits (kvb s)" for k
    using m2 heap_base_disjoint [OF base] that by (intro taken_cong) blast+
  have tp: "taken_pages s' = taken_pages s \<union> {r..<r + unat cnt}"
    using bits' m'(1) r(1) by (auto simp: taken_pages_def s'_eq)
  have hok: "heap_ok s'" using s'(2) by (simp add: heap_ok_def maps_to_def tp)
  let ?m3 = "\<lambda>a. if in_bitmap a (kvb s) then bytes s a else bytes s' a"
  have m3: "taken ?m3 (kpb s) i = taken (bytes s') (kpb s) i" if "i < nbits (kpb s)" for i
    using heap_base_disjoint [OF base] that by (intro taken_cong) auto
  have "maps_to s (taken_pages s) r (unat cnt) (s'\<lparr>bytes := ?m3\<rparr>)"
    unfolding maps_to_def
  proof (intro conjI)
    show "\<exists>m' ph. s'\<lparr>bytes := ?m3\<rparr> = s\<lparr>bytes := m', phys := ph\<rparr>"
      by (intro exI [of _ ?m3] exI [of _ ph]) (simp add: s'_eq)
    show "heap_base (s'\<lparr>bytes := ?m3\<rparr>)" using s'(2) by (simp add: maps_to_def heap_base_def)
    show "mapped (s'\<lparr>bytes := ?m3\<rparr>) (taken_pages s \<union> {r..<r + unat cnt})"
      using s'(2) m3 by (intro mapped_bytes) (simp_all add: maps_to_def s'_eq)
    show "\<forall>a. \<not> in_bitmap a (kpb s) \<longrightarrow> bytes (s'\<lparr>bytes := ?m3\<rparr>) a = bytes s a"
      using m2 m'(2) by (simp add: s'_eq)
    have "free_frames (s'\<lparr>bytes := ?m3\<rparr>) = free_frames s'" using m3 by (auto simp: free_frames_def s'_eq)
    then show "free_frames (s'\<lparr>bytes := ?m3\<rparr>) \<subseteq> free_frames s" using s'(2) ff by (simp add: maps_to_def)
  qed (use s'(2) ff in \<open>auto simp: maps_to_def\<close>)
  moreover have "\<exists>m ph. s' = s\<lparr>bytes := m, phys := ph\<rparr>" using s'_eq by blast
  ultimately show ?thesis using run r tp hok by blast
qed

section \<open>Giving pages back\<close>

lemma aligned_mod:
  assumes "frame_of v = v"
  shows "unat v mod 4096 = 0"
proof -
  have "unat (frame_of v) = unat v" by (rule arg_cong [OF assms])
  then obtain q where "unat v = q * 4096" unfolding unat_frame_of by metis
  then show ?thesis by simp
qed

lemma unmap_one:
  assumes base: "heap_base s" and M: "mapped s M" and j: "j \<in> M"
  shows "\<exists>i m' s'. i < nbits (kpb s) \<and> taken (bytes s) (kpb s) i \<and>
    addr_v2p (heap_page s j) s = Inr (kframe s i) \<and> pfree (kframe s i) s = Inr (s\<lparr>bytes := m'\<rparr>) \<and>
    page_table_pte_remove (heap_page s j) (s\<lparr>bytes := m'\<rparr>) = Inr s' \<and>
    (\<exists>ph. s' = s\<lparr>bytes := m', phys := ph\<rparr>) \<and> heap_base s' \<and> mapped s' (M - {j}) \<and>
    (\<forall>k\<in>M - {j}. pte_of s' (heap_page s k) = pte_of s (heap_page s k)) \<and>
    (\<forall>k<nbits (kpb s). taken m' (kpb s) k \<longleftrightarrow> k \<noteq> i \<and> taken (bytes s) (kpb s) k) \<and>
    (\<forall>a. \<not> in_bitmap a (kpb s) \<longrightarrow> m' a = bytes s a)"
proof -
  let ?v = "heap_page s j"
  have K: "kmap_ok s" and ok: "bitmap_ok (kpb s)" using base by (simp_all add: heap_base_def)
  have in_s: "k < nbits (kvb s)" if "k \<in> M" for k using M that by (auto simp: mapped_def)
  note pg = heap_page_props [OF base] and jb = in_s [OF j]
  obtain i where i: "i < nbits (kpb s)" "taken (bytes s) (kpb s) i" "frame_of (pte_of s ?v) = kframe s i"
    using M j by (auto simp: mapped_def)
  have "?v AND 0xfff = 0"
    using aligned_mod [OF pg(2) [OF jb]] unat_off [of ?v] by (simp add: word_unat_eq_iff)
  then have v2p: "addr_v2p ?v s = Inr (kframe s i)"
    using kernel_entries(2) [OF K pg(3) [OF jb]] i(3) by (simp add: addr_v2p_def frame_of_def)
  have below: "\<not> phy_addr_start (user_pool s) \<le> kframe s i"
    using kframe_props(1) [OF base i(1)] base i(1) by (simp add: heap_base_def word_le_nat_alt)
  have "unat (of_nat i * PG_SIZE) = 4096 * i"
    using kframe_props(1) [OF base i(1)] unat_u32_bound [of "kframe s i"] by (simp add: unat_word_ariths)
  then have idx: "(kframe s i - phy_addr_start (kernel_pool s)) div PG_SIZE = of_nat i"
    using i(1) ok by (simp add: kframe_def word_unat_eq_iff unat_div bitmap_ok_def)
  from bitmap_set_spec [OF i(1) ok, of 0 "bytes s"] obtain m' where m': "bitmap_set (bytes s) (kpb s) (of_nat i) 0 = Inr m'"
    "\<forall>k<nbits (kpb s). taken m' (kpb s) k \<longleftrightarrow> k \<noteq> i \<and> taken (bytes s) (kpb s) k"
    "\<forall>a. \<not> in_bitmap a (kpb s) \<longrightarrow> m' a = bytes s a" by auto
  have free: "pfree (kframe s i) s = Inr (s\<lparr>bytes := m'\<rparr>)"
    using below idx m'(1) by (simp add: pfree_def Let_def)
  let ?x = "pte_of s ?v AND NOT PG_P_1"
  let ?t = "s\<lparr>phys := (phys s)(pte_slot s ?v := ?x)\<rparr>"
  let ?s = "s\<lparr>bytes := m', phys := (phys s)(pte_slot s ?v := ?x)\<rparr>"
  have rem: "page_table_pte_remove ?v (s\<lparr>bytes := m'\<rparr>) = Inr ?s"
    using kernel_entries [of "s\<lparr>bytes := m'\<rparr>" ?v] K pg(3) [OF jb] by (simp add: page_table_pte_remove_def)
  note st = pte_store [OF K pg(3) [OF jb] refl, where x = ?x]
  have pte_t: "pte_of ?s w = pte_of ?t w" for w by (simp add: pte_of_def pte_slot_def pde_slot_def)
  have gone: "\<not> present (pte_of ?s ?v)" using st(5) remove_bits(2) pte_t by simp
  have keep: "pte_of ?s (heap_page s k) = pte_of s (heap_page s k)" if "k < nbits (kvb s)" "k \<noteq> j" for k
    unfolding pte_t using st(6) [of "heap_page s k"] pg(2,3) [OF that(1)] pg(2) [OF jb]
      heap_page_inj [OF base that(1) jb] that(2) by auto
  have "mapped ?s (M - {j})"
    unfolding mapped_def
  proof (intro conjI allI impI ballI)
    show "M - {j} \<subseteq> {..<nbits (kvb ?s)}" using in_s by auto
    show "present (pte_of ?s (heap_page ?s k)) \<longleftrightarrow> k \<in> M - {j}" if "k < nbits (kvb ?s)" for k
      using that keep [of k] gone M by (cases "k = j") (auto simp: mapped_def)
    show "\<exists>i<nbits (kpb ?s). taken (bytes ?s) (kpb ?s) i \<and> frame_of (pte_of ?s (heap_page ?s k)) = kframe ?s i"
      if k: "k \<in> M - {j}" for k
    proof -
      obtain i' where i': "i' < nbits (kpb s)" "taken (bytes s) (kpb s) i'"
        "frame_of (pte_of s (heap_page s k)) = kframe s i'" using M k by (auto simp: mapped_def)
      have "frame_of (pte_of s (heap_page s k)) \<noteq> frame_of (pte_of s ?v)" using M j k by (auto simp: mapped_def)
      then have "i' \<noteq> i" using i' i(3) by auto
      then show ?thesis using i' m'(2) keep [of k] in_s k by auto
    qed
    show "k = k'" if "k \<in> M - {j}" "k' \<in> M - {j}"
      "frame_of (pte_of ?s (heap_page ?s k)) = frame_of (pte_of ?s (heap_page ?s k'))" for k k'
      using that keep in_s M by (auto simp: mapped_def)
  qed
  moreover have "\<forall>k\<in>M - {j}. pte_of ?s (heap_page s k) = pte_of s (heap_page s k)" using keep in_s by blast
  moreover have "heap_base ?s" by (rule heap_base_upd [OF base st(4,2)])
  ultimately show ?thesis using i(1,2) v2p free rem m'(2,3) by blast
qed

definition unmaps_to :: "'a mm_scheme \<Rightarrow> nat set \<Rightarrow> nat \<Rightarrow> nat \<Rightarrow> 'a mm_scheme \<Rightarrow> bool" where
  "unmaps_to s M j n s' \<longleftrightarrow> (\<exists>m' ph. s' = s\<lparr>bytes := m', phys := ph\<rparr>) \<and> heap_base s' \<and>
     mapped s' (M - {j..<j + n}) \<and>
     (\<forall>k\<in>M - {j..<j + n}. pte_of s' (heap_page s k) = pte_of s (heap_page s k)) \<and>
     (\<forall>a. \<not> in_bitmap a (kpb s) \<longrightarrow> bytes s' a = bytes s a) \<and>
     free_frames s \<subseteq> free_frames s' \<and> card (free_frames s') = card (free_frames s) + n"

lemma free_pages_spec:
  assumes "heap_base s" and "mapped s M" and "{j..<j + n} \<subseteq> M"
    and "\<And>i. i < nbits (kpb s) \<Longrightarrow> ok (kframe s i)"
  shows "\<exists>s'. free_pages ok (heap_page s j) n s = Inr s' \<and> unmaps_to s M j n s'"
  using assms
proof (induction n arbitrary: s M j)
  case 0
  moreover have "\<exists>m' ph. s = s\<lparr>bytes := m', phys := ph\<rparr>"
    by (intro exI [of _ "bytes s"] exI [of _ "phys s"]) simp
  ultimately show ?case by (simp add: unmaps_to_def)
next
  case (Suc n)
  have jM: "j \<in> M" using Suc.prems(3) by auto
  from unmap_one [OF Suc.prems(1,2) jM] obtain i m' s1 where
    i: "i < nbits (kpb s)" "taken (bytes s) (kpb s) i"
    and p: "addr_v2p (heap_page s j) s = Inr (kframe s i)" "pfree (kframe s i) s = Inr (s\<lparr>bytes := m'\<rparr>)"
      "page_table_pte_remove (heap_page s j) (s\<lparr>bytes := m'\<rparr>) = Inr s1"
    and s1: "\<exists>ph. s1 = s\<lparr>bytes := m', phys := ph\<rparr>" "heap_base s1" "mapped s1 (M - {j})"
      "\<forall>k\<in>M - {j}. pte_of s1 (heap_page s k) = pte_of s (heap_page s k)"
    and m': "\<forall>k<nbits (kpb s). taken m' (kpb s) k \<longleftrightarrow> k \<noteq> i \<and> taken (bytes s) (kpb s) k"
      "\<forall>a. \<not> in_bitmap a (kpb s) \<longrightarrow> m' a = bytes s a" by blast
  from s1(1) obtain ph where ph: "s1 = s\<lparr>bytes := m', phys := ph\<rparr>" by blast
  have ff: "free_frames s1 = insert i (free_frames s)" using m'(1) i(1) by (auto simp: free_frames_def ph)
  have i_out: "i \<notin> free_frames s" and fin: "finite (free_frames s)" using i by (simp_all add: free_frames_def)
  have pages: "heap_page s1 k = heap_page s k" for k by (simp add: ph)
  have "\<exists>s'. free_pages ok (heap_page s1 (Suc j)) n s1 = Inr s' \<and> unmaps_to s1 (M - {j}) (Suc j) n s'"
  proof (rule Suc.IH [OF s1(2,3)])
    show "{Suc j..<Suc j + n} \<subseteq> M - {j}" using Suc.prems(3) by auto
    show "ok (kframe s1 i)" if "i < nbits (kpb s1)" for i using Suc.prems(4) that by (simp add: ph)
  qed
  then obtain s' where s': "free_pages ok (heap_page s (Suc j)) n s1 = Inr s'"
    and un: "unmaps_to s1 (M - {j}) (Suc j) n s'" by (auto simp: pages)
  have "unat (kframe s i) mod 4096 = 0"
    by (rule aligned_mod [OF kframe_props(2) [OF Suc.prems(1) i(1)]])
  then have al: "kframe s i mod PG_SIZE = 0" by (simp add: word_unat_eq_iff unat_mod)
  have "free_pages ok (heap_page s j) (Suc n) s = Inr s'"
    using p al Suc.prems(4) [OF i(1)] s' by (simp add: heap_page_Suc)
  moreover have "unmaps_to s M j (Suc n) s'"
  proof -
    from un obtain m2 ph2 where s'_eq: "s' = s1\<lparr>bytes := m2, phys := ph2\<rparr>" by (auto simp: unmaps_to_def)
    have set_eq: "M - {j..<j + Suc n} = M - {j} - {Suc j..<Suc j + n}" by auto
    show ?thesis
      unfolding unmaps_to_def set_eq
    proof (intro conjI)
      show "\<exists>m' ph. s' = s\<lparr>bytes := m', phys := ph\<rparr>"
        by (intro exI [of _ m2] exI [of _ ph2]) (simp add: s'_eq ph)
      show "heap_base s'" "mapped s' (M - {j} - {Suc j..<Suc j + n})" using un by (simp_all add: unmaps_to_def)
      show "\<forall>k\<in>M - {j} - {Suc j..<Suc j + n}. pte_of s' (heap_page s k) = pte_of s (heap_page s k)"
        using un s1(4) by (simp add: unmaps_to_def pages)
      show "\<forall>a. \<not> in_bitmap a (kpb s) \<longrightarrow> bytes s' a = bytes s a"
        using un m'(2) by (simp add: unmaps_to_def ph)
      show "free_frames s \<subseteq> free_frames s'" using un ff unfolding unmaps_to_def by blast
      show "card (free_frames s') = card (free_frames s) + Suc n"
        using un ff i_out fin by (simp add: unmaps_to_def)
    qed
  qed
  ultimately show ?case by blast
qed

lemma mfree_page_kernel:
  assumes ok: "heap_ok s" and c: "1 \<le> cnt" and j: "{j..<j + unat cnt} \<subseteq> taken_pages s"
  shows "\<exists>s'. mfree_page PF_KERNEL (heap_page s j) cnt s = Inr s' \<and> heap_ok s' \<and>
    taken_pages s' = taken_pages s - {j..<j + unat cnt} \<and>
    card (free_frames s') = card (free_frames s) + unat cnt \<and>
    (\<forall>k\<in>taken_pages s'. pte_of s' (heap_page s k) = pte_of s (heap_page s k)) \<and>
    (\<exists>m ph. s' = s\<lparr>bytes := m, phys := ph\<rparr>)"
proof -
  have base: "heap_base s" and M: "mapped s (taken_pages s)" using ok by (auto simp: heap_ok_def)
  have c0: "0 < unat cnt" using c by (simp add: word_le_nat_alt)
  have jM: "j \<in> taken_pages s" using j c0 by auto
  have top: "j + unat cnt \<le> nbits (kvb s)"
  proof -
    have "j + unat cnt - 1 \<in> taken_pages s" using j c0 by (intro subsetD [OF j]) auto
    then show ?thesis using c0 by (auto simp: taken_pages_def)
  qed
  have jb: "j < nbits (kvb s)" using jM by (simp add: taken_pages_def)
  from unmap_one [OF base M jM] obtain i where
    i: "i < nbits (kpb s)" "addr_v2p (heap_page s j) s = Inr (kframe s i)" by blast
  have fu: "unat (kframe s i) mod 4096 = 0" by (rule aligned_mod [OF kframe_props(2) [OF base i(1)]])
  then have al: "kframe s i mod PG_SIZE = 0" by (simp add: word_unat_eq_iff unat_mod)
  have "unat (heap_page s j) mod 4096 = 0" by (rule aligned_mod [OF heap_page_props(2) [OF base jb]])
  then have va: "heap_page s j mod PG_SIZE = 0" by (simp add: word_unat_eq_iff unat_mod)
  have range: "phy_addr_start (kernel_pool s) \<le> kframe s i \<and> kframe s i < phy_addr_start (user_pool s) \<and>
      0x102000 \<le> kframe s i" if "i < nbits (kpb s)" for i
    using kframe_props(1) [OF base that] that base
    by (simp add: heap_base_def word_le_nat_alt word_less_nat_alt)
  let ?ok = "\<lambda>p. p \<ge> phy_addr_start (kernel_pool s) \<and> p < phy_addr_start (user_pool s)"
  from free_pages_spec [OF base M j, of ?ok] range obtain s1 where
    s1: "free_pages ?ok (heap_page s j) (unat cnt) s = Inr s1" and un: "unmaps_to s (taken_pages s) j (unat cnt) s1"
    by blast
  from un obtain m ph where s1_eq: "s1 = s\<lparr>bytes := m, phys := ph\<rparr>" by (auto simp: unmaps_to_def)
  have m: "m a = bytes s a" if "\<not> in_bitmap a (kpb s)" for a using un that by (auto simp: unmaps_to_def s1_eq)
  have okb: "bitmap_ok (kvb s)" using base by (simp add: heap_base_def)
  from set_run_spec [OF top okb, of 0 m] obtain m' where m': "set_run (kvb s) (of_nat j) 0 (unat cnt) m = Inr m'"
    "\<forall>k<nbits (kvb s). taken m' (kvb s) k \<longleftrightarrow> (if j \<le> k \<and> k < j + unat cnt then (0 :: u8) = 1 else taken m (kvb s) k)"
    "\<forall>a. \<not> in_bitmap a (kvb s) \<longrightarrow> m' a = m a" by auto
  have "unat (of_nat j * PG_SIZE) = 4096 * j"
    using heap_page_props(1) [OF base jb] unat_u32_bound [of "heap_page s j"] by (simp add: unat_word_ariths)
  then have idx: "(heap_page s j - vaddr_start (kernel_vaddr s)) div PG_SIZE = of_nat j"
    using jb okb by (simp add: heap_page_def word_unat_eq_iff unat_div bitmap_ok_def)
  let ?s' = "s1\<lparr>bytes := m'\<rparr>"
  have below: "\<not> phy_addr_start (user_pool s) \<le> kframe s i" using range [OF i(1)] by (simp add: not_le)
  have run: "mfree_page PF_KERNEL (heap_page s j) cnt s = Inr ?s'"
    using c va i al range [OF i(1)] below s1 idx m'(1)
    by (simp add: mfree_page_def Let_def vaddr_remove_def s1_eq)
  have kp: "taken m' (kpb s) i = taken m (kpb s) i" if "i < nbits (kpb s)" for i
    using m'(3) heap_base_disjoint [OF base] that by (intro taken_cong) auto
  have vb: "taken m (kvb s) k = taken (bytes s) (kvb s) k" if "k < nbits (kvb s)" for k
    using m heap_base_disjoint [OF base] that by (intro taken_cong) blast+
  have tp: "taken_pages ?s' = taken_pages s - {j..<j + unat cnt}"
    using m'(2) vb by (auto simp: taken_pages_def s1_eq split: if_splits)
  have "mapped s1 (taken_pages ?s')" using un tp by (simp add: unmaps_to_def)
  then have "mapped ?s' (taken_pages ?s')" by (rule mapped_bytes) (simp add: s1_eq kp)
  moreover have "heap_base ?s'" using un by (simp add: unmaps_to_def heap_base_def)
  ultimately have "heap_ok ?s'" by (simp add: heap_ok_def)
  moreover have "free_frames ?s' = free_frames s1" using kp by (auto simp: free_frames_def s1_eq)
  moreover have "\<exists>m ph. ?s' = s\<lparr>bytes := m, phys := ph\<rparr>"
    by (intro exI [of _ m'] exI [of _ ph]) (simp add: s1_eq)
  ultimately show ?thesis using run tp un by (auto simp: unmaps_to_def)
qed

section \<open>A small kernel\<close>

text \<open>
  The directory at 0x100000 maps itself in its last entry and gives the kernel entries 768 to 1022
  the empty tables at 0x101000 and up; the pools have eight frames and eight pages.
\<close>

definition tiny_phys :: "u32 \<Rightarrow> u32" where
  "tiny_phys a = (if 0x100c00 \<le> unat a \<and> unat a < 0x100ffc then of_nat (0x101007 + (unat a - 0x100c00) * 1024)
     else if a = 0x100ffc then 0x100007 else 0)"

definition tiny :: mm where
  "tiny = \<lparr>eflags = 0, prev = (\<lambda>_. 0), nxt = (\<lambda>_. 0), phys = tiny_phys, cr3 = 0x100000, bytes = (\<lambda>_. 0),
     task = (\<lambda>t. \<lparr>self_kstack = 0, status = TASK_RUNNING, pid = 1, priority = 10, tname = [], ticks = 10,
       elapsed_ticks = 0, pgdir = NULL, stack_magic = 0x19870916,
       userprog_vaddr = \<lparr>vaddr_bitmap = \<lparr>btmp_bytes_len = 1, bits = 0xc009a006\<rparr>, vaddr_start = 0x8048000\<rparr>,
       fd_table = [0, 1, 2], cwd_inode_nr = 0, parent_pid = -1\<rparr>),
     kont = (\<lambda>_. []), esp = 0xc009ef00, thread_ready_list = 0xc0010000, thread_all_list = 0xc0010020,
     idle_thread = 0, thread_tag = 0, tss_esp0 = 0, total_ticks = 0, sem_value = (\<lambda>_. 1), holder = (\<lambda>_. 0),
     holder_repeat_nr = (\<lambda>_. 0),
     kernel_pool = \<lparr>pool_bitmap = \<lparr>btmp_bytes_len = 1, bits = 0xc009a000\<rparr>, phy_addr_start = 0x200000,
       pool_size = 0x8000, pool_lock = 0xc0010040\<rparr>,
     user_pool = \<lparr>pool_bitmap = \<lparr>btmp_bytes_len = 1, bits = 0xc009a002\<rparr>, phy_addr_start = 0x208000,
       pool_size = 0x8000, pool_lock = 0xc0010080\<rparr>,
     kernel_vaddr = \<lparr>vaddr_bitmap = \<lparr>btmp_bytes_len = 1, bits = 0xc009a004\<rparr>, vaddr_start = 0xc0100000\<rparr>\<rparr>"

lemma tiny_fields [simp]:
  "phys tiny = tiny_phys" "cr3 tiny = 0x100000" "bytes tiny = (\<lambda>_. 0)"
  "kernel_pool tiny = \<lparr>pool_bitmap = \<lparr>btmp_bytes_len = 1, bits = 0xc009a000\<rparr>, phy_addr_start = 0x200000,
       pool_size = 0x8000, pool_lock = 0xc0010040\<rparr>"
  "phy_addr_start (user_pool tiny) = 0x208000"
  "kernel_vaddr tiny = \<lparr>vaddr_bitmap = \<lparr>btmp_bytes_len = 1, bits = 0xc009a004\<rparr>, vaddr_start = 0xc0100000\<rparr>"
  by (simp_all add: tiny_def)

lemma tiny_pde:
  assumes "kaddr v"
  shows "unat (pde_of tiny v) = 0x101007 + (unat v div 4194304 - 768) * 4096"
    and "768 \<le> unat v div 4194304" and "unat v div 4194304 < 1023"
proof -
  let ?i = "unat v div 4194304"
  show i: "768 \<le> ?i" "?i < 1023" using assms by (auto simp: kaddr_def less_mult_imp_div_less)
  have "unat (PDE_IDX v * 4) = ?i * 4" using i by (simp add: unat_word_ariths unat_PDE_IDX)
  then have slot: "unat (pde_slot tiny v) = 0x100000 + ?i * 4"
    using i by (simp add: pde_slot_def unat_word_ariths)
  define n where "n = 0x101007 + (unat (pde_slot tiny v) - 0x100c00) * 1024"
  have "unat (pde_slot tiny v) - 0x100c00 = (?i - 768) * 4" using i slot by simp
  then have n: "n = 0x101007 + (?i - 768) * 4096" by (simp add: n_def)
  have "0x100c00 \<le> unat (pde_slot tiny v)" "unat (pde_slot tiny v) < 0x100ffc" using i slot by simp_all
  then have "pde_of tiny v = of_nat n" unfolding pde_of_def n_def tiny_fields tiny_phys_def by (simp only: if_True simp_thms)
  moreover have "unat (of_nat n :: u32) = n" using i n by (intro unat_of_nat_u32) simp
  ultimately show "unat (pde_of tiny v) = 0x101007 + (?i - 768) * 4096" using n by simp
qed

lemma present_odd: "present x \<longleftrightarrow> odd (unat x)"
  by (simp add: present_def and_one_eq word_unat_eq_iff unat_mod odd_iff_mod_2_eq_one)

lemma tiny_kmap: "kmap_ok tiny"
proof -
  have fr: "unat (frame_of (pde_of tiny v)) = 0x101000 + (unat v div 4194304 - 768) * 4096" if "kaddr v" for v
    using tiny_pde [OF that] by (simp add: unat_frame_of)
  have "present (pde_of tiny v) \<and> frame_of (pde_of tiny v) \<noteq> cr3 tiny" if "kaddr v" for v
  proof
    have "odd (unat (pde_of tiny v))" using tiny_pde(1) [OF that] by simp
    then show "present (pde_of tiny v)"
      by (simp add: present_odd)
    show "frame_of (pde_of tiny v) \<noteq> cr3 tiny" using fr [OF that] by auto
  qed
  moreover have "PDE_IDX v = PDE_IDX w"
    if "kaddr v" "kaddr w" "frame_of (pde_of tiny v) = frame_of (pde_of tiny w)" for v w
  proof -
    have "unat v div 4194304 - 768 = unat w div 4194304 - 768"
      using that(3) fr [OF that(1)] fr [OF that(2)] by simp
    then have "unat v div 4194304 = unat w div 4194304"
      using tiny_pde(2) [OF that(1)] tiny_pde(2) [OF that(2)] by linarith
    then show ?thesis by (simp add: word_unat_eq_iff unat_PDE_IDX)
  qed
  moreover have "self_mapped tiny" by (simp add: self_mapped_def tiny_phys_def present_def frame_of_def)
  moreover have "frame_of (cr3 tiny) = cr3 tiny" by (simp add: frame_of_def)
  ultimately show ?thesis unfolding kmap_ok_def by blast
qed

lemma tiny_heap: "heap_ok tiny"
proof -
  have nb: "nbits (kvb tiny) = 8" "nbits (kpb tiny) = 8" by (simp_all add: nbits_def)
  have base: "heap_base tiny"
  proof -
    have "\<not> in_bitmap a (kvb tiny)" if "in_bitmap a (kpb tiny)" for a
      using that apart [of "0xc009a000" 1 "0xc009a004" 1 a] by (simp add: in_bitmap_def)
    moreover have "unat (frame_of (pde_of tiny v)) < 0x200000" if "kaddr v" for v
      using tiny_pde [OF that] by (simp add: unat_frame_of)
    moreover have "frame_of (0x200000 :: u32) = 0x200000" "frame_of (0xc0100000 :: u32) = 0xc0100000"
      by (simp_all add: frame_of_def)
    ultimately show ?thesis using tiny_kmap by (auto simp: heap_base_def bitmap_ok_def nbits_def)
  qed
  have "\<not> present (pte_of tiny (heap_page tiny j))" if "j < 8" for j
  proof -
    let ?v = "heap_page tiny j"
    have u: "unat ?v = 0xc0100000 + 4096 * j" and k: "kaddr ?v"
      using heap_page_props [OF base, of j] that nb by simp_all
    have "unat (frame_of (pde_of tiny ?v)) = 0x101000"
      using tiny_pde(1) [OF k] u that by (simp add: unat_frame_of)
    moreover have "((256 + j) + 768 * 1024) mod 1024 = 256 + j"
      unfolding mod_mult_self1 using that by simp
    then have "(786688 + j) mod 1024 = 256 + j" by simp
    then have "unat (PTE_IDX ?v * 4) = (256 + j) * 4"
      using u that by (simp add: unat_word_ariths unat_PTE_IDX)
    ultimately have "unat (pte_slot tiny ?v) = 0x101400 + j * 4"
      using that by (simp add: pte_slot_def pde_of_def unat_word_ariths)
    then have "pte_of tiny ?v = 0" using that by (auto simp: pte_of_def tiny_phys_def)
    then show ?thesis by (simp add: present_def)
  qed
  moreover have "taken_pages tiny = {}" by (auto simp: taken_pages_def taken_def)
  ultimately have "mapped tiny (taken_pages tiny)" by (simp add: mapped_def nbits_def)
  with base show ?thesis by (simp add: heap_ok_def)
qed

lemma tiny_free: "free_run (bytes tiny) (kvb tiny) 0 n" "free_frames tiny = {..<8}"
  by (auto simp: free_run_def taken_def free_frames_def nbits_def)

section \<open>Setting up the pools\<close>

lemma unat_ucast_16: "unat (ucast (x :: u32) :: u16) = unat x mod 65536"
  by (simp add: unsigned_ucast_eq take_bit_eq_mod)

lemma unat_ucast_32: "unat (ucast (x :: u16) :: u32) = unat x"
proof -
  have "unat x < 65536" using unsigned_less [of x, where ?'a = nat] by simp
  then show ?thesis by (simp add: unsigned_ucast_eq take_bit_eq_mod)
qed

lemma bitmap_init_clears:
  assumes "bits b \<noteq> NULL"
  shows "bitmap_init m b = Inr (\<lambda>a. if in_bitmap a b then 0 else m a)"
proof -
  have "memset_loop m (bits b) 0 (unat (btmp_bytes_len b)) = (\<lambda>a. if in_bitmap a b then 0 else m a)"
    using memset_loop_apply [of "unat (btmp_bytes_len b)" m "bits b" 0] unat_u32_bound [of "btmp_bytes_len b"]
    by (auto simp: in_bitmap_def less_imp_le)
  then show ?thesis using assms by (simp add: bitmap_init_def memset_def)
qed

lemma not_taken_cleared: "j < nbits b \<Longrightarrow> (\<And>a. in_bitmap a b \<Longrightarrow> m a = 0) \<Longrightarrow> \<not> taken m b j"
  using bit_in_bitmap by (simp add: taken_def)

lemma lock_init_pools [simp]:
  "kernel_pool (lock_init l s) = kernel_pool s" "user_pool (lock_init l s) = user_pool s"
  "kernel_vaddr (lock_init l s) = kernel_vaddr s" "bytes (lock_init l s) = bytes s"
  by (simp_all add: lock_init_def sema_init_def set_value_def set_holder_def set_repeat_def
      list_init_def set_prev_def set_nxt_def Let_def)

text \<open>The sizes that \<open>mem_pool_init\<close> computes, as long as the number of free pages fits 16 bits.\<close>

lemma pool_sizes:
  assumes "0x210000 \<le> unat (all_mem :: u32)" and "unat all_mem < 0x10200000"
  defines "fp \<equiv> (ucast ((all_mem - 0x200000) div PG_SIZE) :: u16)"
  defines "N \<equiv> (unat all_mem - 0x200000) div 4096"
  shows "unat fp = N" and "16 \<le> N" and "N < 65536" and "unat (fp div 2) = N div 2"
    and "unat (fp - fp div 2) = N - N div 2"
    and "unat (ucast (fp div 2 div 8) :: u32) = N div 2 div 8"
    and "unat (ucast ((fp - fp div 2) div 8) :: u32) = (N - N div 2) div 8"
    and "unat (0x200000 + ucast (fp div 2) * PG_SIZE) = 0x200000 + N div 2 * 4096"
proof -
  have "unat (all_mem - 0x200000) = unat all_mem - 0x200000"
    using assms(1) by (simp add: unat_sub_if')
  then have d: "unat ((all_mem - 0x200000) div PG_SIZE) = N" by (simp add: unat_div N_def)
  have "unat all_mem - 0x200000 < 65536 * 4096" using assms(2) by simp
  then show N: "N < 65536" unfolding N_def by (simp add: less_mult_imp_div_less)
  have "(16 * 4096) div 4096 \<le> N" unfolding N_def using assms(1) by (intro div_le_mono) simp
  then show "16 \<le> N" by simp
  show f: "unat fp = N" using d N by (simp add: fp_def unat_ucast_16)
  then show h: "unat (fp div 2) = N div 2" by (simp add: unat_div)
  show g: "unat (fp - fp div 2) = N - N div 2" using f h by (simp add: unat_sub_if')
  show "unat (ucast (fp div 2 div 8) :: u32) = N div 2 div 8" by (simp add: unat_ucast_32 unat_div f)
  show "unat (ucast ((fp - fp div 2) div 8) :: u32) = (N - N div 2) div 8"
    unfolding unat_ucast_32 using g by (simp add: unat_div)
  have k: "unat (ucast (fp div 2) :: u32) = N div 2" by (simp add: unat_ucast_32 h)
  have "N div 2 * 4096 < 4294967296" using N by simp
  then show "unat (0x200000 + ucast (fp div 2) * PG_SIZE) = 0x200000 + N div 2 * 4096"
    using N by (simp add: unat_word_ariths k)
qed

lemma bitmap_addr:
  assumes "unat (l :: u32) \<le> 65536"
  shows "unat (0xc009a000 + l) = 0xc009a000 + unat l" and "0xc009a000 + l \<noteq> 0"
proof -
  show u: "unat (0xc009a000 + l) = 0xc009a000 + unat l" using assms by (simp add: unat_word_ariths)
  then show "0xc009a000 + l \<noteq> 0" by auto
qed

section \<open>Properties\<close>

text \<open>C40 \<open>mem_pool_init\<close> divides the free memory: for up to 256 MB of free memory the kernel pool starts
  at 2 MB, the user pool behind it, both end within the memory, no frame and no page is taken, and
  the three bitmaps lie behind one another without overlap.\<close>

theorem mem_pool_init_partition:
  assumes "0x210000 \<le> unat all_mem" and "unat all_mem < 0x10200000"
  shows "\<exists>s'. mem_pool_init all_mem s = Inr s' \<and>
    unat (phy_addr_start (kernel_pool s')) = 0x200000 \<and>
    0x200000 + 4096 * nbits (pool_bitmap (kernel_pool s')) \<le> unat (phy_addr_start (user_pool s')) \<and>
    unat (phy_addr_start (user_pool s')) + 4096 * nbits (pool_bitmap (user_pool s')) \<le> unat all_mem \<and>
    (\<forall>b\<in>{pool_bitmap (kernel_pool s'), pool_bitmap (user_pool s'), vaddr_bitmap (kernel_vaddr s')}.
       \<forall>j<nbits b. \<not> taken (bytes s') b j) \<and>
    (\<forall>a. \<not> (in_bitmap a (pool_bitmap (kernel_pool s')) \<and> in_bitmap a (pool_bitmap (user_pool s'))) \<and>
         \<not> (in_bitmap a (pool_bitmap (kernel_pool s')) \<and> in_bitmap a (vaddr_bitmap (kernel_vaddr s'))) \<and>
         \<not> (in_bitmap a (pool_bitmap (user_pool s')) \<and> in_bitmap a (vaddr_bitmap (kernel_vaddr s'))))"
proof -
  define fp where "fp = (ucast ((all_mem - 0x200000) div PG_SIZE) :: u16)"
  define N where "N = (unat all_mem - 0x200000) div 4096"
  define kl where "kl = (ucast (fp div 2 div 8) :: u32)"
  define ul where "ul = (ucast ((fp - fp div 2) div 8) :: u32)"
  define us where "us = 0x200000 + ucast (fp div 2) * PG_SIZE"
  let ?kb = "\<lparr>btmp_bytes_len = kl, bits = 0xc009a000\<rparr>" and ?ub = "\<lparr>btmp_bytes_len = ul, bits = 0xc009a000 + kl\<rparr>"
  let ?vb = "\<lparr>btmp_bytes_len = kl, bits = 0xc009a000 + kl + ul\<rparr>"
  note sz = pool_sizes [OF assms, folded fp_def N_def, folded kl_def ul_def us_def]
  have n: "unat kl = N div 2 div 8" "unat ul = (N - N div 2) div 8" "N < 65536" "unat us = 0x200000 + N div 2 * 4096"
    using sz by simp_all
  have small: "unat kl \<le> 4096" "unat ul \<le> 4096" using n by simp_all
  have k: "unat (0xc009a000 + kl) = 0xc009a000 + unat kl" "0xc009a000 + kl \<noteq> 0"
    using bitmap_addr [of kl] small by simp_all
  have u: "unat (0xc009a000 + kl + ul) = 0xc009a000 + unat kl + unat ul" "0xc009a000 + kl + ul \<noteq> 0"
    using bitmap_addr [of "kl + ul"] small unat_add_u32 [of kl ul] by (simp_all add: add.assoc)
  define z where "z m b = (\<lambda>a. if in_bitmap a b then 0 else m a)" for m :: mem and b
  have run: "\<exists>s'. mem_pool_init all_mem s = Inr s' \<and> bytes s' = z (z (z (bytes s) ?kb) ?ub) ?vb \<and>
      pool_bitmap (kernel_pool s') = ?kb \<and> pool_bitmap (user_pool s') = ?ub \<and> vaddr_bitmap (kernel_vaddr s') = ?vb \<and>
      phy_addr_start (kernel_pool s') = 0x200000 \<and> phy_addr_start (user_pool s') = us"
    unfolding mem_pool_init_def Let_def
    by (simp add: fp_def [symmetric] kl_def [symmetric] ul_def [symmetric] us_def [symmetric]
        bitmap_init_clears k(2) u(2) z_def [symmetric])
  have dis: "\<not> (in_bitmap a ?kb \<and> in_bitmap a ?ub)" "\<not> (in_bitmap a ?kb \<and> in_bitmap a ?vb)"
    "\<not> (in_bitmap a ?ub \<and> in_bitmap a ?vb)" for a
    using apart [of "0xc009a000" "unat kl" "0xc009a000 + kl" "unat ul" a]
      apart [of "0xc009a000" "unat kl" "0xc009a000 + kl + ul" "unat kl" a]
      apart [of "0xc009a000 + kl" "unat ul" "0xc009a000 + kl + ul" "unat kl" a] k(1) u(1) small
    by (auto simp: in_bitmap_def)
  have clear: "\<not> taken (z (z (z (bytes s) ?kb) ?ub) ?vb) b j" if "b \<in> {?kb, ?ub, ?vb}" "j < nbits b" for b j
    using that by (intro not_taken_cleared) (auto simp: z_def)
  have sizes: "0x200000 + 4096 * nbits ?kb \<le> unat us" "unat us + 4096 * nbits ?ub \<le> unat all_mem"
  proof -
    define q where "q = N div 2"
    define r where "r = (N - q) div 8"
    have "8 * (q div 8) \<le> q" "8 * r \<le> N - q" "q \<le> N" by (simp_all add: r_def q_def)
    moreover have "4096 * N \<le> unat all_mem - 0x200000" by (simp add: N_def)
    moreover have "nbits ?kb = 8 * (q div 8)" "nbits ?ub = 8 * r" "unat us = 0x200000 + q * 4096"
      using n by (simp_all add: nbits_def q_def r_def)
    ultimately show "0x200000 + 4096 * nbits ?kb \<le> unat us" "unat us + 4096 * nbits ?ub \<le> unat all_mem"
      using assms(1) by linarith+
  qed
  from run obtain s' where s': "mem_pool_init all_mem s = Inr s'" "bytes s' = z (z (z (bytes s) ?kb) ?ub) ?vb"
    "pool_bitmap (kernel_pool s') = ?kb" "pool_bitmap (user_pool s') = ?ub" "vaddr_bitmap (kernel_vaddr s') = ?vb"
    "phy_addr_start (kernel_pool s') = 0x200000" "phy_addr_start (user_pool s') = us" by blast
  show ?thesis
    using s' dis clear sizes by (intro exI [of _ s']) simp
qed

theorem mem_pool_init_partition_witness:
  "\<exists>s'. mem_pool_init 0x2000000 tiny = Inr s' \<and> unat (phy_addr_start (kernel_pool s')) = 0x200000"
  using mem_pool_init_partition [of "0x2000000" tiny] by auto

text \<open>With exactly 256 MB of free memory the 16-bit page counter wraps to 0 and both pools are empty,
  although the comments promise support for 512 MB.\<close>

theorem mem_pool_init_wraps:
  "\<exists>s'. mem_pool_init 0x10200000 s = Inr s' \<and> pool_size (kernel_pool s') = 0 \<and> pool_size (user_pool s') = 0 \<and>
    nbits (pool_bitmap (kernel_pool s')) = 0 \<and> nbits (pool_bitmap (user_pool s')) = 0"
  by (simp add: mem_pool_init_def Let_def bitmap_init_clears nbits_def)

text \<open>C37 Allocating kernel pages: in a consistent heap with a long enough run of free pages and enough
  free frames, \<open>malloc_page\<close> returns the first such run; it is now marked, each of its pages is mapped
  to a frame of the kernel pool that was free before, pages that were mapped keep their translation,
  and the heap is consistent again (exactly the marked pages are mapped, no two to one frame).\<close>

theorem malloc_page_maps:
  assumes "heap_ok s" and "0 < cnt" and "cnt < 3840"
    and "r0 + unat cnt \<le> nbits (kvb s)" and "free_run (bytes s) (kvb s) r0 (unat cnt)"
    and "unat cnt \<le> card (free_frames s)"
  shows "\<exists>r s'. malloc_page PF_KERNEL cnt s = Inr (heap_page s r, s') \<and> heap_ok s' \<and>
    free_run (bytes s) (kvb s) r (unat cnt) \<and> (\<forall>r'<r. \<not> free_run (bytes s) (kvb s) r' (unat cnt)) \<and>
    taken_pages s' = taken_pages s \<union> {r..<r + unat cnt} \<and>
    (\<forall>k<unat cnt. \<exists>i\<in>free_frames s. mmu s' (heap_page s (r + k)) = Some (kframe s i)) \<and>
    (\<forall>k\<in>taken_pages s. mmu s' (heap_page s k) = mmu s (heap_page s k))"
proof -
  from malloc_page_kernel [OF assms] obtain r s' where
    r: "malloc_page PF_KERNEL cnt s = Inr (heap_page s r, s')" "r + unat cnt \<le> nbits (kvb s)"
      "free_run (bytes s) (kvb s) r (unat cnt)" "\<forall>r'<r. \<not> free_run (bytes s) (kvb s) r' (unat cnt)"
    and ok: "heap_ok s'" and tp: "taken_pages s' = taken_pages s \<union> {r..<r + unat cnt}"
    and mt: "maps_to s (taken_pages s) r (unat cnt) (s'\<lparr>bytes := (\<lambda>a. if in_bitmap a (kvb s) then bytes s a else bytes s' a)\<rparr>)"
    and form: "\<exists>m ph. s' = s\<lparr>bytes := m, phys := ph\<rparr>"
    by blast
  have base: "heap_base s" and base': "heap_base s'" and M': "mapped s' (taken_pages s')"
    and M: "mapped s (taken_pages s)" using assms(1) ok by (auto simp: heap_ok_def)
  have K: "kmap_ok s" "kmap_ok s'" using base base' by (simp_all add: heap_base_def)
  have off: "heap_page s k AND 0xfff = 0" if "k < nbits (kvb s)" for k
    using aligned_mod [OF heap_page_props(2) [OF base that]] unat_off [of "heap_page s k"]
    by (simp add: word_unat_eq_iff)
  from form obtain ph m where s'_eq: "s' = s\<lparr>bytes := m, phys := ph\<rparr>" by blast
  have hp: "heap_page s' k = heap_page s k" "kvb s' = kvb s" for k by (simp_all add: s'_eq)
  have mm': "mmu s' (heap_page s k) = (if k \<in> taken_pages s' then Some (frame_of (pte_of s' (heap_page s k))) else None)"
    if "k < nbits (kvb s)" for k
    using mmu_kernel [OF K(2) heap_page_props(3) [OF base that]] M' that off [OF that]
    by (simp add: mapped_def hp)
  have mm: "mmu s (heap_page s k) = (if k \<in> taken_pages s then Some (frame_of (pte_of s (heap_page s k))) else None)"
    if "k < nbits (kvb s)" for k
    using mmu_kernel [OF K(1) heap_page_props(3) [OF base that]] M that off [OF that]
    by (simp add: mapped_def)
  have "\<exists>i\<in>free_frames s. mmu s' (heap_page s (r + k)) = Some (kframe s i)" if "k < unat cnt" for k
    using mt that mm' [of "r + k"] r(2) tp by (auto simp: maps_to_def)
  moreover have "mmu s' (heap_page s k) = mmu s (heap_page s k)" if "k \<in> taken_pages s" for k
    using mt that mm [of k] mm' [of k] tp by (auto simp: maps_to_def taken_pages_def)
  ultimately show ?thesis using r ok tp by blast
qed

theorem malloc_page_maps_witness:
  "\<exists>r s'. malloc_page PF_KERNEL 3 tiny = Inr (heap_page tiny r, s') \<and> heap_ok s'"
  using malloc_page_maps [OF tiny_heap, of 3 0] tiny_free by (auto simp: nbits_def)

text \<open>C38 Giving pages back: for marked pages of a consistent heap \<open>mfree_page\<close> returns, the pages are
  neither marked nor mapped any more, as many frames are free as pages were given back, other pages
  keep their translation, and the heap is consistent.\<close>

theorem mfree_page_unmaps:
  assumes "heap_ok s" and "1 \<le> cnt" and "{j..<j + unat cnt} \<subseteq> taken_pages s"
  shows "\<exists>s'. mfree_page PF_KERNEL (heap_page s j) cnt s = Inr s' \<and> heap_ok s' \<and>
    taken_pages s' = taken_pages s - {j..<j + unat cnt} \<and>
    card (free_frames s') = card (free_frames s) + unat cnt \<and>
    (\<forall>k<unat cnt. mmu s' (heap_page s (j + k)) = None) \<and>
    (\<forall>k\<in>taken_pages s'. pte_of s' (heap_page s k) = pte_of s (heap_page s k))"
proof -
  from mfree_page_kernel [OF assms] obtain s' m ph where
    s': "mfree_page PF_KERNEL (heap_page s j) cnt s = Inr s'" "heap_ok s'"
      "taken_pages s' = taken_pages s - {j..<j + unat cnt}"
      "card (free_frames s') = card (free_frames s) + unat cnt"
      "\<forall>k\<in>taken_pages s'. pte_of s' (heap_page s k) = pte_of s (heap_page s k)"
    and eq: "s' = s\<lparr>bytes := m, phys := ph\<rparr>" by blast
  have base: "heap_base s'" and M: "mapped s' (taken_pages s')" using s'(2) by (auto simp: heap_ok_def)
  have "mmu s' (heap_page s (j + k)) = None" if "k < unat cnt" for k
  proof -
    have jk: "j + k < nbits (kvb s')" using subsetD [OF assms(3), of "j + k"] that
      by (simp add: taken_pages_def eq)
    have "j + k \<notin> taken_pages s'" using s'(3) that by simp
    with M jk have np: "\<not> present (pte_of s' (heap_page s' (j + k)))" unfolding mapped_def by blast
    have "kmap_ok s'" using base by (simp add: heap_base_def)
    then have "mmu s' (heap_page s' (j + k)) = None"
      using mmu_kernel [of s' "heap_page s' (j + k)"] heap_page_props(3) [OF base jk] np by simp
    then show ?thesis by (simp add: eq)
  qed
  with s' show ?thesis by blast
qed

theorem mfree_page_unmaps_witness:
  "\<exists>(s :: mm) r s'. taken_pages s = {r..<r + 3} \<and> mfree_page PF_KERNEL (heap_page s (r + 1)) 2 s = Inr s' \<and>
    taken_pages s' = {r} \<and> mmu s' (heap_page s (r + 1)) = None"
proof -
  have "0 + unat (3 :: u32) \<le> nbits (kvb tiny)" "unat (3 :: u32) \<le> card (free_frames tiny)"
    by (simp_all add: nbits_def tiny_free)
  moreover have "free_run (bytes tiny) (kvb tiny) 0 (unat (3 :: u32))" by (simp add: free_run_def taken_def)
  moreover have "(0 :: u32) < 3" "(3 :: u32) < 3840" by simp_all
  ultimately obtain r and s :: mm where
    s: "heap_ok s" "taken_pages s = taken_pages tiny \<union> {r..<r + unat (3 :: u32)}"
    using malloc_page_kernel [OF tiny_heap, of 3 0] by blast
  have tp: "taken_pages s = {r..<r + 3}" using s(2) by (simp add: taken_pages_def taken_def)
  then have "{r + 1..<r + 1 + unat (2 :: u32)} \<subseteq> taken_pages s" by auto
  from mfree_page_unmaps [OF s(1) _ this] obtain s' where
    s': "mfree_page PF_KERNEL (heap_page s (r + 1)) 2 s = Inr s'"
      "taken_pages s' = taken_pages s - {r + 1..<r + 1 + unat (2 :: u32)}"
      "\<forall>k<unat (2 :: u32). mmu s' (heap_page s (r + 1 + k)) = None" by auto
  have "taken_pages s' = {r}" using tp s'(2) by auto
  moreover have "mmu s' (heap_page s (r + 1)) = None" using spec [OF s'(3), of 0] by simp
  ultimately show ?thesis using tp s'(1) by blast
qed

text \<open>Round trip: pages that \<open>malloc_page\<close> has given out can be given back, and afterwards the same
  pages are marked as before the allocation, in a consistent heap.\<close>

theorem malloc_mfree_roundtrip:
  assumes "heap_ok s" and "0 < cnt" and "cnt < 3840"
    and "r0 + unat cnt \<le> nbits (kvb s)" and "free_run (bytes s) (kvb s) r0 (unat cnt)"
    and "unat cnt \<le> card (free_frames s)"
  shows "\<exists>v s1 s2. malloc_page PF_KERNEL cnt s = Inr (v, s1) \<and> mfree_page PF_KERNEL v cnt s1 = Inr s2 \<and>
    taken_pages s2 = taken_pages s \<and> heap_ok s2"
proof -
  from malloc_page_kernel [OF assms] obtain r s1 where
    r: "malloc_page PF_KERNEL cnt s = Inr (heap_page s r, s1)" "r + unat cnt \<le> nbits (kvb s)"
      "free_run (bytes s) (kvb s) r (unat cnt)" and ok: "heap_ok s1"
    and tp: "taken_pages s1 = taken_pages s \<union> {r..<r + unat cnt}"
    and form: "\<exists>m ph. s1 = s\<lparr>bytes := m, phys := ph\<rparr>"
    by blast
  from form have hp: "heap_page s1 r = heap_page s r" by auto
  have c: "1 \<le> cnt" using assms(2) by (simp add: word_le_nat_alt word_less_nat_alt)
  have "{r..<r + unat cnt} \<subseteq> taken_pages s1" using tp by simp
  from mfree_page_kernel [OF ok c this] obtain s2 where
    s2: "mfree_page PF_KERNEL (heap_page s r) cnt s1 = Inr s2" "heap_ok s2"
      "taken_pages s2 = taken_pages s1 - {r..<r + unat cnt}" by (auto simp: hp)
  have "taken_pages s \<inter> {r..<r + unat cnt} = {}" using r(3) by (auto simp: taken_pages_def free_run_def)
  with tp s2(3) have "taken_pages s2 = taken_pages s" by auto
  with r(1) s2 show ?thesis by blast
qed

theorem malloc_mfree_roundtrip_witness:
  "\<exists>v s1 s2. malloc_page PF_KERNEL 2 tiny = Inr (v, s1) \<and> mfree_page PF_KERNEL v 2 s1 = Inr s2 \<and>
    taken_pages s2 = taken_pages tiny \<and> heap_ok s2"
  by (rule malloc_mfree_roundtrip [OF tiny_heap, of 2 0]) (use tiny_free in \<open>simp_all add: nbits_def\<close>)

text \<open>User pages overlap: for the user pool \<open>vaddr_get\<close> adds the page size where it should multiply by
  it, so two successive requests for one page get addresses that are one byte apart.\<close>

theorem user_pages_overlap:
  "\<exists>s1 s2. vaddr_get PF_USER 1 tiny = Inr (0x8049000, s1) \<and> vaddr_get PF_USER 1 s1 = Inr (0x8049001, s2)"
proof -
  let ?b = "\<lparr>btmp_bytes_len = 1, bits = 0xc009a006\<rparr>" and ?m = "(\<lambda>_. 0)(0xc009a006 := 1) :: mem"
  have "scan_bits 0 0 = 0" by (subst scan_bits_eq) simp
  moreover have "scan_bytes (\<lambda>_. 0) ?b 0 = 0" by (subst scan_bytes.simps) simp
  ultimately have s0: "bitmap_scan (\<lambda>_. 0) ?b 1 = Inr 0"
    by (simp add: bitmap_scan_def)
  have set0: "bitmap_set (\<lambda>_. 0) ?b 0 1 = Inr ?m" by (simp add: bitmap_set_def Let_def)
  have "scan_bits 1 1 = 1" by (subst scan_bits_eq) (simp add: bit_1_iff)
  then have "scan_bits 1 0 = 1" by (subst scan_bits_eq) simp
  moreover have "scan_bytes ?m ?b 0 = 0" by (subst scan_bytes.simps) simp
  ultimately have s1: "bitmap_scan ?m ?b 1 = Inr 1" by (simp add: bitmap_scan_def)
  obtain m2 where set1: "bitmap_set ?m ?b 1 1 = Inr m2" by (simp add: bitmap_set_def Let_def)
  have va: "cur_vaddr (tiny\<lparr>bytes := m\<rparr>) = \<lparr>vaddr_bitmap = ?b, vaddr_start = 0x8048000\<rparr>"
    "cur_vaddr tiny = \<lparr>vaddr_bitmap = ?b, vaddr_start = 0x8048000\<rparr>" for m
    by (simp_all add: cur_vaddr_def tiny_def)
  have "vaddr_get PF_USER 1 tiny = Inr (0x8049000, tiny\<lparr>bytes := ?m\<rparr>)"
    using s0 set0 by (simp add: vaddr_get_def va)
  moreover have "vaddr_get PF_USER 1 (tiny\<lparr>bytes := ?m\<rparr>) = Inr (0x8049001, tiny\<lparr>bytes := m2\<rparr>)"
    using s1 set1 by (simp add: vaddr_get_def va)
  ultimately show ?thesis by blast
qed

end
