(* ===== verification/Arena.thy ===== *)
theory Arena
  imports PageAlloc
begin

unbundle bit_operations_syntax

text \<open>
  The block allocator of \<^verbatim>\<open>kernel/memory.c\<close>: \<open>sys_malloc\<close> and \<open>sys_free\<close>. Requests of up to 1024
  bytes are served from arenas, pages that are cut into blocks of one of seven sizes and linked into
  the free list of their size; larger ones get pages of their own. The fields of \<open>struct arena\<close> and
  \<open>struct mem_block_desc\<close> are maps from the address of the structure; the free list of a descriptor
  lies at its offset 8, a block of a free list is the node at its address.
\<close>

section \<open>The code\<close>

record arenas = mm +
  k_block_descs :: addr
  block_size :: "addr \<Rightarrow> u32"
  blocks_per_arena :: "addr \<Rightarrow> u32"
  arena_desc :: "addr \<Rightarrow> addr"
  arena_cnt :: "addr \<Rightarrow> u32"
  arena_large :: "addr \<Rightarrow> u32"

definition desc_at :: "addr \<Rightarrow> u32 \<Rightarrow> addr" where
  "desc_at desc_array idx = desc_array + idx * 24"

definition free_list :: "addr \<Rightarrow> addr" where
  "free_list desc = desc + 8"

definition u_block_desc :: "addr \<Rightarrow> addr" where
  "u_block_desc thread = thread + 68"

text \<open>The loop of \<open>block_desc_init\<close>, with the number of turns that are left.\<close>

primrec desc_init_loop :: "addr \<Rightarrow> nat \<Rightarrow> u16 \<Rightarrow> u16 \<Rightarrow> 'a arenas_scheme \<Rightarrow> 'a arenas_scheme" where
  "desc_init_loop desc_array 0 desc_idx sz s = s"
| "desc_init_loop desc_array (Suc n) desc_idx sz s =
     (let d = desc_at desc_array (ucast desc_idx);
          s = s\<lparr>block_size := (block_size s)(d := ucast sz)\<rparr>;
          s = s\<lparr>blocks_per_arena := (blocks_per_arena s)(d := (PG_SIZE - 12) div ucast sz)\<rparr>;
          s = list_init (free_list d) s
      in desc_init_loop desc_array n (desc_idx + 1) (sz * 2) s)"

definition block_desc_init :: "addr \<Rightarrow> 'a arenas_scheme \<Rightarrow> 'a arenas_scheme" where
  "block_desc_init desc_array s = desc_init_loop desc_array 7 0 16 s"

definition arena2block :: "addr \<Rightarrow> u32 \<Rightarrow> 'a arenas_scheme \<Rightarrow> addr" where
  "arena2block a idx s = a + 12 + idx * block_size s (arena_desc s a)"

definition block2arena :: "addr \<Rightarrow> addr" where
  "block2arena b = b AND 0xfffff000"

definition set_arena :: "addr \<Rightarrow> addr \<Rightarrow> u32 \<Rightarrow> u32 \<Rightarrow> 'a arenas_scheme \<Rightarrow> 'a arenas_scheme" where
  "set_arena a desc cnt large s = s\<lparr>arena_desc := (arena_desc s)(a := desc),
     arena_cnt := (arena_cnt s)(a := cnt), arena_large := (arena_large s)(a := large)\<rparr>"

definition set_cnt :: "addr \<Rightarrow> u32 \<Rightarrow> 'a arenas_scheme \<Rightarrow> 'a arenas_scheme" where
  "set_cnt a cnt s = s\<lparr>arena_cnt := (arena_cnt s)(a := cnt)\<rparr>"

text \<open>\<open>memset (v, 0, n)\<close> on the heap: the words, and what lies in the range as bytes, nodes, arenas.\<close>

definition memset_heap :: "addr \<Rightarrow> nat \<Rightarrow> 'a arenas_scheme \<Rightarrow> 'a arenas_scheme res" where
  "memset_heap v n s =
     bindr (ASSERT (v \<noteq> NULL)) (\<lambda>_.
     bindr (zero_words v (n div 4) s) (\<lambda>s.
     let s = clear_views v n s
     in Inr (s\<lparr>arena_desc := (\<lambda>a. if within a v n then 0 else arena_desc s a),
          arena_cnt := (\<lambda>a. if within (a + 4) v n then 0 else arena_cnt s a),
          arena_large := (\<lambda>a. if within (a + 8) v n then 0 else arena_large s a)\<rparr>)))"

text \<open>The search for the first descriptor whose blocks are large enough; 7 when there is none.\<close>

primrec find_desc :: "addr \<Rightarrow> u32 \<Rightarrow> nat \<Rightarrow> u8 \<Rightarrow> 'a arenas_scheme \<Rightarrow> u8" where
  "find_desc descs sz 0 desc_idx s = desc_idx"
| "find_desc descs sz (Suc n) desc_idx s =
     (if sz \<le> block_size s (desc_at descs (ucast desc_idx)) then desc_idx
      else find_desc descs sz n (desc_idx + 1) s)"

primrec add_blocks :: "addr \<Rightarrow> nat \<Rightarrow> u32 \<Rightarrow> 'a arenas_scheme \<Rightarrow> 'a arenas_scheme res" where
  "add_blocks a 0 block_idx s = Inr s"
| "add_blocks a (Suc n) block_idx s =
     (let b = arena2block a block_idx s;
          l = free_list (arena_desc s a)
      in bindr (elem_find l b s) (\<lambda>found.
         bindr (ASSERT (\<not> found)) (\<lambda>_. add_blocks a n (block_idx + 1) (list_append l b s))))"

primrec remove_blocks :: "addr \<Rightarrow> nat \<Rightarrow> u32 \<Rightarrow> 'a arenas_scheme \<Rightarrow> 'a arenas_scheme res" where
  "remove_blocks a 0 block_idx s = Inr s"
| "remove_blocks a (Suc n) block_idx s =
     (let b = arena2block a block_idx s
      in bindr (elem_find (free_list (arena_desc s a)) b s) (\<lambda>found.
         bindr (ASSERT found) (\<lambda>_. remove_blocks a n (block_idx + 1) (list_remove b s))))"

definition malloc_large :: "pool_flags \<Rightarrow> u32 \<Rightarrow> 'a arenas_scheme \<Rightarrow> (addr \<times> 'a arenas_scheme) res" where
  "malloc_large pf sz s =
     (let page_cnt = (sz + 12 + PG_SIZE - 1) div PG_SIZE
      in bindr (malloc_page pf page_cnt s) (\<lambda>(a, s).
         if a \<noteq> NULL then
           bindr (memset_heap a (unat (page_cnt * PG_SIZE)) s) (\<lambda>s.
           bindr (release_now (pool_lock (pool_of pf s)) (set_arena a NULL page_cnt 1 s)) (\<lambda>s.
           Inr (a + 12, s)))
         else bindr (release_now (pool_lock (pool_of pf s)) s) (\<lambda>s. Inr (NULL, s))))"

text \<open>A new arena for the descriptor \<open>d\<close>; \<open>False\<close> when there is no page.\<close>

definition new_arena :: "pool_flags \<Rightarrow> addr \<Rightarrow> 'a arenas_scheme \<Rightarrow> (bool \<times> 'a arenas_scheme) res" where
  "new_arena pf d s =
     bindr (malloc_page pf 1 s) (\<lambda>(a, s).
     if a = NULL then Inr (False, s)
     else bindr (memset_heap a 4096 s) (\<lambda>s.
          let s = set_arena a d (blocks_per_arena s d) 0 s;
              (old_status, s) = intr_disable s
          in bindr (add_blocks a (unat (blocks_per_arena s d)) 0 s) (\<lambda>s.
             Inr (True, snd (intr_set_status old_status s)))))"

text \<open>The first block of the free list of \<open>d\<close>.\<close>

definition take_block :: "addr \<Rightarrow> 'a arenas_scheme \<Rightarrow> (addr \<times> 'a arenas_scheme) res" where
  "take_block d s =
     (let (b, s) = list_pop (free_list d) s
      in bindr (memset_heap b (unat (block_size s d)) s) (\<lambda>s.
         let a = block2arena b
         in Inr (b, set_cnt a (arena_cnt s a - 1) s)))"

definition malloc_small :: "pool_flags \<Rightarrow> addr \<Rightarrow> u32 \<Rightarrow> 'a arenas_scheme \<Rightarrow> (addr \<times> 'a arenas_scheme) res" where
  "malloc_small pf descs sz s =
     (let desc_idx = find_desc descs sz 7 0 s;
          d = desc_at descs (ucast desc_idx)
      in bindr (if list_empty (free_list d) s then new_arena pf d s else Inr (True, s)) (\<lambda>(have_block, s).
         if \<not> have_block then bindr (release_now (pool_lock (pool_of pf s)) s) (\<lambda>s. Inr (NULL, s))
         else bindr (take_block d s) (\<lambda>(b, s).
              bindr (release_now (pool_lock (pool_of pf s)) s) (\<lambda>s. Inr (b, s)))))"

definition sys_malloc :: "u32 \<Rightarrow> 'a arenas_scheme \<Rightarrow> (addr \<times> 'a arenas_scheme) res" where
  "sys_malloc sz s =
     (let cur_thread = running_thread s;
          kernel = (pgdir (task s cur_thread) = NULL);
          pf = (if kernel then PF_KERNEL else PF_USER);
          descs = (if kernel then k_block_descs s else u_block_desc cur_thread)
      in if \<not> (sz > 0 \<and> sz < pool_size (pool_of pf s)) then Inr (NULL, s)
         else bindr (acquire_now (pool_lock (pool_of pf s)) s) (\<lambda>s.
              if sz > 1024 then malloc_large pf sz s else malloc_small pf descs sz s))"

definition sys_free :: "addr \<Rightarrow> 'a arenas_scheme \<Rightarrow> 'a arenas_scheme res" where
  "sys_free ptr s =
     bindr (ASSERT (ptr \<noteq> NULL)) (\<lambda>_.
     let kernel = (pgdir (task s (running_thread s)) = NULL);
         pf = (if kernel then PF_KERNEL else PF_USER)
     in bindr (ASSERT (kernel \<longrightarrow> ptr \<ge> 0xc0100000)) (\<lambda>_.
        bindr (acquire_now (pool_lock (pool_of pf s)) s) (\<lambda>s.
        let b = ptr; a = block2arena b
        in bindr (ASSERT (arena_large s a = 0 \<or> arena_large s a = 1)) (\<lambda>_.
           bindr (if arena_desc s a = NULL \<and> arena_large s a = 1 then mfree_page pf a (arena_cnt s a) s
                  else let d = arena_desc s a;
                           s = list_append (free_list d) b s;
                           s = set_cnt a (arena_cnt s a + 1) s
                       in if arena_cnt s a = blocks_per_arena s d then
                            bindr (remove_blocks a (unat (blocks_per_arena s d)) 0 s) (mfree_page pf a 1)
                          else Inr s) (\<lambda>s.
           release_now (pool_lock (pool_of pf s)) s)))))"

section \<open>Clearing heap memory\<close>

text \<open>Page tables lie below the kernel pool: writes to frames of the pool leave them alone.\<close>

definition keeps_tables :: "'a mm_scheme \<Rightarrow> (u32 \<Rightarrow> u32) \<Rightarrow> bool" where
  "keeps_tables s ph \<longleftrightarrow> (\<forall>a. unat (frame_of a) < unat (phy_addr_start (kernel_pool s)) \<longrightarrow> ph a = phys s a)"

lemma frame_off: "frame_of f = f \<Longrightarrow> frame_of (f + (v AND 0xfff)) = f"
proof -
  assume a: "frame_of f = f"
  have f: "unat f = unat f div 4096 * 4096" using a unat_frame_of [of f] by simp
  have "unat f div 4096 < 1048576" using unat_u32_bound [of f] by (simp add: less_mult_imp_div_less)
  moreover have o: "unat (v AND 0xfff) < 4096" by (simp add: unat_off)
  ultimately have "unat f + unat (v AND 0xfff) < 4294967296" using f by linarith
  then have "unat (f + (v AND 0xfff)) = unat f + unat (v AND 0xfff)" by (rule unat_add_u32)
  moreover have "(unat f + unat (v AND 0xfff)) div 4096 = unat f div 4096" using f o by linarith
  ultimately have "unat (frame_of (f + (v AND 0xfff))) = unat f"
    using f by (simp only: unat_frame_of)
  then show ?thesis by (simp only: word_unat_eq_iff)
qed

lemma same_frame_pte: "frame_of v = frame_of w \<Longrightarrow> pte_of s v = pte_of s w"
  by (simp add: same_page pte_of_def pte_slot_def pde_slot_def)

lemma same_frame_kaddr: "frame_of v = frame_of w \<Longrightarrow> kaddr w \<Longrightarrow> kaddr v"
proof -
  assume a: "frame_of v = frame_of w" and k: "kaddr w"
  have "unat v div 4096 * 4096 = unat w div 4096 * 4096" using a by (metis unat_frame_of)
  then have "unat v div 4096 = unat w div 4096" by simp
  moreover have "786432 * 4096 \<le> unat u \<longleftrightarrow> 786432 \<le> unat u div 4096" "unat u < 1047552 * 4096 \<longleftrightarrow> unat u div 4096 < 1047552"
    for u :: u32 by linarith+
  ultimately show ?thesis using k unfolding kaddr_def by simp
qed

lemma mmu_heap:
  assumes base: "heap_base s" and M: "mapped s M" and j: "j \<in> M" and v: "frame_of v = heap_page s j"
  obtains i where "i < nbits (kpb s)" and "mmu s v = Some (kframe s i + (v AND 0xfff))"
proof -
  have jb: "j < nbits (kvb s)" using M j by (auto simp: mapped_def)
  note pg = heap_page_props [OF base jb]
  have fv: "frame_of v = frame_of (heap_page s j)" using v pg(2) by simp
  obtain i where i: "i < nbits (kpb s)" "frame_of (pte_of s (heap_page s j)) = kframe s i"
    using M j by (auto simp: mapped_def)
  have "present (pte_of s (heap_page s j))" using M j jb by (simp add: mapped_def)
  moreover have "kmap_ok s" using base by (simp add: heap_base_def)
  ultimately have "mmu s v = Some (kframe s i + (v AND 0xfff))"
    using mmu_kernel [of s v] same_frame_kaddr [OF fv pg(3)] same_frame_pte [OF fv, of s] i(2) by simp
  with i(1) that show ?thesis by blast
qed

lemma tables_kept:
  assumes base: "heap_base s" and c: "unat (cr3 s) < unat (phy_addr_start (kernel_pool s))"
    and k: "keeps_tables s ph"
  shows "pde_of (s\<lparr>phys := ph\<rparr>) v = pde_of s v"
    and "kaddr v \<Longrightarrow> pte_of (s\<lparr>phys := ph\<rparr>) v = pte_of s v"
    and "kmap_ok (s\<lparr>phys := ph\<rparr>)" and "heap_base (s\<lparr>phys := ph\<rparr>)"
proof -
  let ?t = "s\<lparr>phys := ph\<rparr>"
  have K0: "kmap_ok s" using base unfolding heap_base_def by blast
  then have "frame_of (cr3 s) = cr3 s" unfolding kmap_ok_def by blast
  note K = K0 this
  have slot: "pde_slot ?t v = pde_slot s v" for v by (simp add: pde_slot_def)
  have d: "ph (pde_slot s v) = phys s (pde_slot s v)" for v
  proof -
    have "unat (frame_of (pde_slot s v)) < unat (phy_addr_start (kernel_pool s))"
      unfolding frame_pde_slot [OF K(2)] by (rule c)
    then show ?thesis using k unfolding keeps_tables_def by blast
  qed
  show p: "pde_of ?t v = pde_of s v" for v by (simp add: pde_of_def slot d)
  have q: "pte_slot ?t v = pte_slot s v" for v by (simp add: pte_slot_def slot d)
  show "pte_of ?t v = pte_of s v" if "kaddr v"
  proof -
    have "unat (frame_of (pte_slot s v)) < unat (phy_addr_start (kernel_pool s))"
      using base that by (simp add: frame_pte_slot heap_base_def pde_of_def)
    then show ?thesis using k by (simp add: pte_of_def q keeps_tables_def)
  qed
  have "cr3 s + 4092 = pde_slot s 0xffc00000" by (simp add: pde_slot_def PDE_IDX_def)
  then have sm: "self_mapped ?t = self_mapped s" using d [of "0xffc00000"] by (simp add: self_mapped_def)
  have c3: "cr3 ?t = cr3 s" by simp
  show km: "kmap_ok ?t" using K(1) unfolding kmap_ok_def p sm c3 .
  show "heap_base ?t" using heap_base_upd [OF base km p, of "bytes s"] by simp
qed

lemma mapped_kept:
  assumes base: "heap_base s" and c: "unat (cr3 s) < unat (phy_addr_start (kernel_pool s))"
    and k: "keeps_tables s ph" and M: "mapped s M"
  shows "mapped (s\<lparr>phys := ph\<rparr>) M"
proof -
  have "pte_of (s\<lparr>phys := ph\<rparr>) (heap_page s j) = pte_of s (heap_page s j)" if "j < nbits (kvb s)" for j
    by (rule tables_kept(2) [OF base c k heap_page_props(3) [OF base that]])
  then show ?thesis using M unfolding mapped_def by (auto simp: subset_iff)
qed

lemma zero_words_heap:
  assumes "heap_base s" and "mapped s M" and "unat (cr3 s) < unat (phy_addr_start (kernel_pool s))"
    and "\<And>k. k < n \<Longrightarrow> \<exists>j\<in>M. frame_of (v + of_nat k * 4) = heap_page s j"
  shows "\<exists>ph. zero_words v n s = Inr (s\<lparr>phys := ph\<rparr>) \<and> keeps_tables s ph"
  using assms
proof (induction n arbitrary: v s)
  case 0
  then show ?case by (intro exI [of _ "phys s"]) (simp add: keeps_tables_def)
next
  case (Suc n)
  obtain j where j: "j \<in> M" "frame_of v = heap_page s j" using Suc.prems(4) [of 0] by auto
  obtain i where i: "i < nbits (kpb s)" "mmu s v = Some (kframe s i + (v AND 0xfff))"
    by (rule mmu_heap [OF Suc.prems(1,2) j])
  let ?ph = "(phys s)(kframe s i + (v AND 0xfff) := 0)"
  note fr = kframe_props [OF Suc.prems(1) i(1)]
  have k: "keeps_tables s ?ph" using frame_off [OF fr(2), of v] fr(1) by (auto simp: keeps_tables_def)
  let ?s = "s\<lparr>phys := ?ph\<rparr>"
  have "\<exists>ph. zero_words (v + 4) n ?s = Inr (?s\<lparr>phys := ph\<rparr>) \<and> keeps_tables ?s ph"
  proof (rule Suc.IH)
    show "heap_base ?s" by (rule tables_kept(4) [OF Suc.prems(1,3) k])
    show "mapped ?s M" by (rule mapped_kept [OF Suc.prems(1,3) k Suc.prems(2)])
    show "unat (cr3 ?s) < unat (phy_addr_start (kernel_pool ?s))" using Suc.prems(3) by simp
    show "\<exists>j\<in>M. frame_of (v + 4 + of_nat ka * 4) = heap_page ?s j" if "ka < n" for ka
      using Suc.prems(4) [of "Suc ka"] that by (simp add: algebra_simps)
  qed
  then obtain ph where "zero_words (v + 4) n ?s = Inr (s\<lparr>phys := ph\<rparr>)" "keeps_tables ?s ph" by auto
  with k i(2) show ?case by (intro exI [of _ ph]) (auto simp: store_def keeps_tables_def)
qed

section \<open>The consistency of the heap\<close>

text \<open>The seven sizes, how many blocks of a size an arena has, and where they lie.\<close>

definition bsize :: "nat \<Rightarrow> nat" where
  "bsize i = 16 * 2 ^ i"

definition nblk :: "nat \<Rightarrow> nat" where
  "nblk i = 4084 div bsize i"

definition desc :: "'a arenas_scheme \<Rightarrow> nat \<Rightarrow> addr" where
  "desc s i = desc_at (k_block_descs s) (of_nat i)"

definition blk :: "'a mm_scheme \<Rightarrow> nat \<Rightarrow> nat \<Rightarrow> nat \<Rightarrow> addr" where
  "blk s j i k = heap_page s j + 12 + of_nat (k * bsize i)"

abbreviation heap_start :: "'a mm_scheme \<Rightarrow> nat" where
  "heap_start s \<equiv> unat (vaddr_start (kernel_vaddr s))"

text \<open>
  \<open>A\<close> gives the pages that are arenas their size class, \<open>G\<close> the first pages of large requests their
  number of pages, \<open>F\<close> the free list of each class.
\<close>

definition static_ok :: "'a arenas_scheme \<Rightarrow> bool" where
  "static_ok s \<longleftrightarrow> heap_ok s \<and> unat (cr3 s) < unat (phy_addr_start (kernel_pool s)) \<and>
     k_block_descs s \<noteq> NULL \<and> unat (k_block_descs s) + 168 \<le> heap_start s \<and>
     (\<forall>a. in_bitmap a (kpb s) \<or> in_bitmap a (kvb s) \<longrightarrow> unat a < heap_start s) \<and>
     (\<forall>i<7. block_size s (desc s i) = of_nat (bsize i) \<and> blocks_per_arena s (desc s i) = of_nat (nblk i))"

definition blocks_ok :: "'a arenas_scheme \<Rightarrow> (nat \<Rightarrow> nat option) \<Rightarrow> (nat \<Rightarrow> addr list) \<Rightarrow> bool" where
  "blocks_ok s A F \<longleftrightarrow> (\<forall>i<7. \<forall>b\<in>set (F i). \<exists>j k. A j = Some i \<and> k < nblk i \<and> b = blk s j i k)"

definition lists_ok :: "'a arenas_scheme \<Rightarrow> (nat \<Rightarrow> nat option) \<Rightarrow> (nat \<Rightarrow> addr list) \<Rightarrow> bool" where
  "lists_ok s A F \<longleftrightarrow> (\<forall>i<7. dlist s (free_list (desc s i)) (F i)) \<and> blocks_ok s A F"

definition arenas_ok :: "'a arenas_scheme \<Rightarrow> (nat \<Rightarrow> nat option) \<Rightarrow> bool" where
  "arenas_ok s A \<longleftrightarrow> (\<forall>j i. A j = Some i \<longrightarrow> i < 7 \<and> j \<in> taken_pages s \<and>
     arena_desc s (heap_page s j) = desc s i \<and> arena_large s (heap_page s j) = 0)"

definition free_count :: "'a mm_scheme \<Rightarrow> nat \<Rightarrow> nat \<Rightarrow> (nat \<Rightarrow> addr list) \<Rightarrow> nat" where
  "free_count s j i F = card {k. k < nblk i \<and> blk s j i k \<in> set (F i)}"

definition counts_ok :: "'a arenas_scheme \<Rightarrow> (nat \<Rightarrow> nat option) \<Rightarrow> (nat \<Rightarrow> addr list) \<Rightarrow> bool" where
  "counts_ok s A F \<longleftrightarrow> (\<forall>j i. A j = Some i \<longrightarrow> arena_cnt s (heap_page s j) = of_nat (free_count s j i F))"

definition larges_ok :: "'a arenas_scheme \<Rightarrow> (nat \<Rightarrow> nat option) \<Rightarrow> (nat \<Rightarrow> nat option) \<Rightarrow> bool" where
  "larges_ok s A G \<longleftrightarrow> (\<forall>j n. G j = Some n \<longrightarrow> 0 < n \<and> {j..<j + n} \<subseteq> taken_pages s \<and>
       arena_desc s (heap_page s j) = NULL \<and> arena_large s (heap_page s j) = 1 \<and>
       arena_cnt s (heap_page s j) = of_nat n \<and> (\<forall>j'\<in>{j..<j + n}. A j' = None)) \<and>
     (\<forall>j n j' n'. G j = Some n \<longrightarrow> G j' = Some n' \<longrightarrow> j \<noteq> j' \<longrightarrow> {j..<j + n} \<inter> {j'..<j' + n'} = {})"

definition pages_inv :: "'a arenas_scheme \<Rightarrow> (nat \<Rightarrow> nat option) \<Rightarrow> (nat \<Rightarrow> nat option) \<Rightarrow> (nat \<Rightarrow> addr list) \<Rightarrow> bool" where
  "pages_inv s A G F \<longleftrightarrow> static_ok s \<and> lists_ok s A F \<and> arenas_ok s A \<and> larges_ok s A G"

definition heap_inv :: "'a arenas_scheme \<Rightarrow> (nat \<Rightarrow> nat option) \<Rightarrow> (nat \<Rightarrow> nat option) \<Rightarrow> (nat \<Rightarrow> addr list) \<Rightarrow> bool" where
  "heap_inv s A G F \<longleftrightarrow> pages_inv s A G F \<and> counts_ok s A F"

subsection \<open>Where things lie\<close>

lemma within_nat:
  assumes "unat v + n \<le> 4294967296"
  shows "within a v n \<longleftrightarrow> unat v \<le> unat a \<and> unat a < unat v + n"
proof (cases "v \<le> a")
  case True
  then have "unat (a - v) = unat a - unat v" by (simp add: unat_sub_if' word_le_nat_alt)
  with True show ?thesis by (auto simp: within_def word_le_nat_alt)
next
  case False
  then have lt: "unat a < unat v" by (simp add: word_le_nat_alt)
  then have "unat (a - v) = unat a + 4294967296 - unat v" by (simp add: unat_sub_if' not_le)
  with lt assms show ?thesis unfolding within_def by linarith
qed

lemma bsize_pos [simp]: "0 < bsize i" "bsize i \<noteq> 0" by (simp_all add: bsize_def)

lemma bsize_le: "i < 7 \<Longrightarrow> bsize i \<le> 1024" "16 \<le> bsize i" "4 dvd bsize i"
proof -
  show "bsize i \<le> 1024" if "i < 7"
  proof -
    have "(2 :: nat) ^ i \<le> 2 ^ 6" using that by (intro power_increasing) simp_all
    then show ?thesis by (simp add: bsize_def)
  qed
  have "(2 :: nat) ^ 0 \<le> 2 ^ i" by (intro power_increasing) simp_all
  then show "16 \<le> bsize i" by (simp add: bsize_def)
  show "4 dvd bsize i" unfolding bsize_def by (intro dvd_mult2) simp
qed

lemma nblk_le: "nblk i \<le> 256"
proof -
  have "nblk i \<le> 4084 div 16" unfolding nblk_def using bsize_le(2) by (intro div_le_mono2) simp_all
  then show ?thesis by simp
qed

lemma nblk_pos: "i < 7 \<Longrightarrow> 0 < nblk i"
  using bsize_le(1) [of i] by (simp add: nblk_def div_greater_zero_iff)

lemma blk_fits: "k < nblk i \<Longrightarrow> k * bsize i + bsize i \<le> 4084"
proof -
  assume "k < nblk i"
  then have "Suc k * bsize i \<le> nblk i * bsize i" by (intro mult_le_mono1) simp
  also have "\<dots> \<le> 4084" unfolding nblk_def by (rule div_times_less_eq_dividend)
  finally show ?thesis by simp
qed

lemma static_base: "static_ok s \<Longrightarrow> heap_base s" "static_ok s \<Longrightarrow> mapped s (taken_pages s)"
  by (simp_all add: static_ok_def heap_ok_def)

lemma taken_nbits: "j \<in> taken_pages s \<Longrightarrow> j < nbits (kvb s)"
  by (simp add: taken_pages_def)

lemma heap_end:
  assumes "heap_base s" and "j < nbits (kvb s)"
  shows "heap_start s + 4096 * j + 4096 \<le> 0xffc00000" and "0xc0000000 \<le> heap_start s"
proof -
  have "4096 * j + 4096 \<le> 4096 * nbits (kvb s)" using assms(2) by simp
  then show "heap_start s + 4096 * j + 4096 \<le> 0xffc00000"
    using assms(1) unfolding heap_base_def by linarith
  show "0xc0000000 \<le> heap_start s" using assms(1) unfolding heap_base_def by simp
qed

lemma page_nat:
  assumes "static_ok s" and "j \<in> taken_pages s" and "n \<le> 4096"
  shows "unat (heap_page s j + of_nat n) = heap_start s + 4096 * j + n"
    and "n < 4096 \<Longrightarrow> frame_of (heap_page s j + of_nat n) = heap_page s j"
proof -
  note base = static_base(1) [OF assms(1)] and jb = taken_nbits [OF assms(2)]
  note pg = heap_page_props [OF base jb]
  have "unat (heap_page s j) + unat (of_nat n :: u32) = heap_start s + 4096 * j + n"
    using pg(1) assms(3) by simp
  then show u: "unat (heap_page s j + of_nat n) = heap_start s + 4096 * j + n"
    using heap_end(1) [OF base jb] assms(3) by (subst unat_add_u32) simp_all
  show "frame_of (heap_page s j + of_nat n) = heap_page s j" if "n < 4096"
  proof -
    have al: "unat (heap_page s j) = unat (heap_page s j) div 4096 * 4096"
      using unat_frame_of [of "heap_page s j"] pg(2) by simp
    have "(unat (heap_page s j) + n) div 4096 = unat (heap_page s j) div 4096"
      using al that by linarith
    then have "unat (frame_of (heap_page s j + of_nat n)) = unat (heap_page s j)"
      using al u pg(1) by (simp only: unat_frame_of)
    then show ?thesis by (simp only: word_unat_eq_iff)
  qed
qed

lemma blk_nat:
  assumes "static_ok s" and "j \<in> taken_pages s" and "k < nblk i" and "n < bsize i"
  shows "unat (blk s j i k + of_nat n) = heap_start s + 4096 * j + 12 + k * bsize i + n"
    and "frame_of (blk s j i k + of_nat n) = heap_page s j"
proof -
  let ?n = "12 + k * bsize i + n"
  have lt: "?n < 4096" using blk_fits [OF assms(3)] assms(4) by simp
  have eq: "blk s j i k + of_nat n = heap_page s j + of_nat ?n" by (simp add: blk_def)
  show "unat (blk s j i k + of_nat n) = heap_start s + 4096 * j + 12 + k * bsize i + n"
    unfolding eq using page_nat(1) [OF assms(1,2), of ?n] lt by simp
  show "frame_of (blk s j i k + of_nat n) = heap_page s j"
    unfolding eq using page_nat(2) [OF assms(1,2), of ?n] lt by simp
qed

lemma blk_unat:
  "static_ok s \<Longrightarrow> j \<in> taken_pages s \<Longrightarrow> k < nblk i \<Longrightarrow>
    unat (blk s j i k) = heap_start s + 4096 * j + 12 + k * bsize i"
  "static_ok s \<Longrightarrow> j \<in> taken_pages s \<Longrightarrow> k < nblk i \<Longrightarrow> frame_of (blk s j i k) = heap_page s j"
  using blk_nat [of s j k i 0] by simp_all

lemma page_unat: "static_ok s \<Longrightarrow> j \<in> taken_pages s \<Longrightarrow> unat (heap_page s j) = heap_start s + 4096 * j"
  using page_nat(1) [of s j 0] by simp

lemma page_eq:
  "static_ok s \<Longrightarrow> j \<in> taken_pages s \<Longrightarrow> j' \<in> taken_pages s \<Longrightarrow> heap_page s j = heap_page s j' \<longleftrightarrow> j = j'"
  by (metis heap_page_inj static_base(1) taken_nbits)

lemma blk_eq:
  assumes "static_ok s" and "j \<in> taken_pages s" and "j' \<in> taken_pages s" and "k < nblk i" and "k' < nblk i'"
    and "blk s j i k = blk s j' i' k'"
  shows "j = j'" and "i = i' \<Longrightarrow> k = k'"
proof -
  have "heap_page s j = heap_page s j'"
    using blk_unat(2) [OF assms(1,2,4)] blk_unat(2) [OF assms(1,3,5)] assms(6) by simp
  then show j: "j = j'" using page_eq [OF assms(1-3)] by simp
  show "k = k'" if "i = i'"
  proof -
    have "heap_start s + 4096 * j + 12 + k * bsize i = heap_start s + 4096 * j' + 12 + k' * bsize i'"
      unfolding blk_unat(1) [OF assms(1,2,4), symmetric] blk_unat(1) [OF assms(1,3,5), symmetric]
      by (simp only: assms(6))
    then show ?thesis using j that by simp
  qed
qed

lemma desc_unat:
  assumes "static_ok s" and "i < 7" and "n \<le> 24"
  shows "unat (desc s i + of_nat n) = unat (k_block_descs s) + 24 * i + n"
proof -
  define N where "N = 24 * i + n"
  have eq: "desc s i + of_nat n = k_block_descs s + of_nat N"
    by (simp add: desc_def desc_at_def mult.commute N_def)
  have N: "N \<le> 168" using assms(2,3) by (simp add: N_def)
  then have u: "unat (of_nat N :: u32) = N" by simp
  have "unat (k_block_descs s) + N < 4294967296"
    using N assms(1) unat_u32_bound [of "vaddr_start (kernel_vaddr s)"] unfolding static_ok_def by linarith
  then have "unat (k_block_descs s + of_nat N) = unat (k_block_descs s) + N"
    using unat_add_u32 [of "k_block_descs s" "of_nat N"] u by simp
  then show ?thesis unfolding eq by (simp add: N_def)
qed

lemma desc_inj:
  assumes "static_ok s" and "i < 7" and "i' < 7" and "desc s i = desc s i'"
  shows "i = i'"
proof -
  have "unat (k_block_descs s) + 24 * i = unat (k_block_descs s) + 24 * i'"
    using desc_unat [OF assms(1,2), of 0] desc_unat [OF assms(1,3), of 0] assms(4) by simp
  then show ?thesis by simp
qed

lemma desc_not_null: "static_ok s \<Longrightarrow> i < 7 \<Longrightarrow> desc s i \<noteq> NULL"
proof
  assume ok: "static_ok s" and i: "i < 7" and "desc s i = NULL"
  then have "unat (k_block_descs s) + 24 * i = 0" using desc_unat [OF ok i, of 0] by simp
  then show False using ok by (simp add: static_ok_def unat_eq_0)
qed

text \<open>The nodes of the free lists.\<close>

lemma free_foot:
  assumes "static_ok s" and "blocks_ok s A F" and "arenas_ok s A" and "i < 7" and "a \<in> foot (free_list (desc s i)) (F i)"
  shows "unat a = unat (k_block_descs s) + 24 * i + 8 \<or> unat a = unat (k_block_descs s) + 24 * i + 16 \<or> a \<in> set (F i)"
  using assms(5) desc_unat [OF assms(1,4), of 8] desc_unat [OF assms(1,4), of 16]
  by (auto simp: foot_def ring_def head_of_def tail_of_def free_list_def add.assoc)

lemma free_block:
  assumes "static_ok s" and "blocks_ok s A F" and "arenas_ok s A" and "i < 7" and "b \<in> set (F i)"
  obtains j k where "A j = Some i" "j \<in> taken_pages s" "k < nblk i" "b = blk s j i k"
    "unat b = heap_start s + 4096 * j + 12 + k * bsize i"
proof -
  obtain j k where jk: "A j = Some i" "k < nblk i" "b = blk s j i k" using assms(2,4,5) unfolding blocks_ok_def by blast
  then have "j \<in> taken_pages s" using assms(3) unfolding arenas_ok_def by blast
  with jk that blk_unat(1) [OF assms(1) this jk(2)] show thesis by blast
qed

lemma foot_heads [simp]: "free_list d \<in> foot (free_list d) xs" "free_list d + 8 \<in> foot (free_list d) xs"
  by (simp_all add: foot_def ring_def head_of_def tail_of_def)

lemma free_feet_disjoint:
  assumes "static_ok s" and "blocks_ok s A F" and "arenas_ok s A" and "i < 7" and "i' < 7" and "i \<noteq> i'"
  shows "foot (free_list (desc s i)) (F i) \<inter> foot (free_list (desc s i')) (F i') = {}"
proof (rule ccontr)
  assume "foot (free_list (desc s i)) (F i) \<inter> foot (free_list (desc s i')) (F i') \<noteq> {}"
  then obtain a where a: "a \<in> foot (free_list (desc s i)) (F i)" "a \<in> foot (free_list (desc s i')) (F i')" by blast
  have kb: "unat (k_block_descs s) + 168 \<le> heap_start s" using assms(1) by (simp add: static_ok_def)
  have low: "unat a \<ge> heap_start s" if "a \<in> set (F i)" "i < 7" for i
    by (rule free_block [OF assms(1-3) that(2,1)]) simp
  have "a \<in> set (F i) \<and> a \<in> set (F i')"
    using free_foot [OF assms(1-4) a(1)] free_foot [OF assms(1-3,5) a(2)] low [of i] low [of i'] kb assms(4-6)
    by linarith
  then have ai: "a \<in> set (F i)" and ai': "a \<in> set (F i')" by simp_all
  obtain j k where jk: "A j = Some i" "j \<in> taken_pages s" "k < nblk i" "a = blk s j i k"
    by (rule free_block [OF assms(1-4) ai])
  obtain j' k' where jk': "A j' = Some i'" "j' \<in> taken_pages s" "k' < nblk i'" "a = blk s j' i' k'"
    by (rule free_block [OF assms(1-3,5) ai'])
  have "j = j'" using blk_eq(1) [OF assms(1) jk(2) jk'(2) jk(3) jk'(3)] jk(4) jk'(4) by simp
  with jk(1) jk'(1) assms(6) show False by simp
qed

text \<open>What an operation on the heap leaves alone.\<close>

definition outside :: "'a arenas_scheme \<Rightarrow> addr \<Rightarrow> bool" where
  "outside s a \<longleftrightarrow> unat a + 8 \<le> heap_start s \<and>
     (unat a < unat (k_block_descs s) \<or> unat (k_block_descs s) + 168 \<le> unat a)"

definition rest_kept :: "'a arenas_scheme \<Rightarrow> 'a arenas_scheme \<Rightarrow> bool" where
  "rest_kept s t \<longleftrightarrow> eflags t = eflags s \<and> cr3 t = cr3 s \<and> task t = task s \<and> kont t = kont s \<and> esp t = esp s \<and>
     thread_ready_list t = thread_ready_list s \<and> sem_value t = sem_value s \<and> holder t = holder s \<and>
     holder_repeat_nr t = holder_repeat_nr s \<and>
     kernel_pool t = kernel_pool s \<and> user_pool t = user_pool s \<and> kernel_vaddr t = kernel_vaddr s \<and>
     k_block_descs t = k_block_descs s \<and> block_size t = block_size s \<and> blocks_per_arena t = blocks_per_arena s \<and>
     (\<forall>a. outside s a \<longrightarrow> nxt t a = nxt s a)"

lemma rest_kept_trans: "rest_kept s t \<Longrightarrow> rest_kept t u \<Longrightarrow> rest_kept s u"
  by (auto simp: rest_kept_def outside_def)

lemma rest_kept_refl [simp]: "rest_kept s s"
  by (simp add: rest_kept_def)

lemma rest_names:
  assumes "rest_kept s t"
  shows "desc t i = desc s i" and "heap_page t j = heap_page s j" and "blk t j i k = blk s j i k"
    and "kvb t = kvb s" and "kpb t = kpb s" and "heap_start t = heap_start s" and "free_count t j i F = free_count s j i F"
  using assms by (simp_all add: rest_kept_def desc_def heap_page_def blk_def free_count_def)

text \<open>The heap of two states with the same memory.\<close>

lemma heap_cong:
  assumes "phys t = phys s" and "cr3 t = cr3 s" and "bytes t = bytes s" and "kernel_pool t = kernel_pool s"
    and "user_pool t = user_pool s" and "kernel_vaddr t = kernel_vaddr s"
  shows "heap_ok t = heap_ok s" and "taken_pages t = taken_pages s" and "free_frames t = free_frames s"
proof -
  show tp: "taken_pages t = taken_pages s" "free_frames t = free_frames s"
    using assms by (simp_all add: taken_pages_def free_frames_def)
  have e: "pte_of t v = pte_of s v" "pde_of t v = pde_of s v" "heap_page t j = heap_page s j" "kframe t i = kframe s i" for v j i
    using assms by (simp_all add: pte_of_def pde_of_def pte_slot_def pde_slot_def heap_page_def kframe_def)
  have "kmap_ok t = kmap_ok s" unfolding kmap_ok_def self_mapped_def e using assms by simp
  then show "heap_ok t = heap_ok s" unfolding heap_ok_def heap_base_def mapped_def tp e using assms by simp
qed

lemma memset_loop_outside: "\<not> within a v n \<Longrightarrow> n \<le> 4294967296 \<Longrightarrow> memset_loop m v 0 n a = m a"
  using memset_loop_apply [of n m v 0] by simp

lemma within_high:
  assumes "unat v + n \<le> 4294967296" and "h \<le> unat v" and "unat a + c < h" and "c < 4294967296"
  shows "\<not> within (a + of_nat c) v n"
proof -
  have "unat a + c < 4294967296" using assms(1-3) unat_u32_bound [of v] by linarith
  then have "unat (a + of_nat c) = unat a + c" using unat_add_u32 [of a "of_nat c"] assms(4) by simp
  with assms show ?thesis by (simp add: within_nat)
qed

lemma clear_lists:
  fixes s t :: "'a arenas_scheme"
  assumes inv: "pages_inv s A G F" and range: "unat v + n \<le> 4294967296" "heap_start s \<le> unat v"
    and nodes: "\<And>i b. i < 7 \<Longrightarrow> b \<in> set (F i) \<Longrightarrow> \<not> within b v n \<and> \<not> within (b + 4) v n"
    and t: "prev t = (\<lambda>a. if within a v n then 0 else prev s a)"
      "nxt t = (\<lambda>a. if within (a + 4) v n then 0 else nxt s a)" and i: "i < 7"
  shows "dlist t (free_list (desc s i)) (F i)"
proof -
  have ok: "static_ok s" "blocks_ok s A F" "arenas_ok s A" and lo: "lists_ok s A F"
    using inv by (simp_all add: pages_inv_def lists_ok_def)
  have kb: "unat (k_block_descs s) + 168 \<le> heap_start s" using ok(1) by (simp add: static_ok_def)
  have "\<not> within a v n \<and> \<not> within (a + 4) v n" if "a \<in> foot (free_list (desc s i)) (F i)" for a
  proof -
    have "unat a + 4 < heap_start s \<or> a \<in> set (F i)" using free_foot [OF ok i that] kb i by linarith
    then consider "unat a + 4 < heap_start s" | "a \<in> set (F i)" by blast
    then show ?thesis
    proof cases
      case 1
      with within_high [OF range, of a 0] within_high [OF range, of a 4] show ?thesis by simp
    next
      case 2
      with nodes [OF i] show ?thesis by blast
    qed
  qed
  then have "agree_off (- foot (free_list (desc s i)) (F i)) s t" by (simp add: agree_off_def t)
  from dlist_agree [OF this, of "free_list (desc s i)" "F i"] show ?thesis
    using lo i by (simp add: lists_ok_def)
qed

lemma memset_heap_ok:
  assumes inv: "pages_inv s A G F" and v: "v \<noteq> NULL" and range: "unat v + n \<le> 4294967296" "heap_start s \<le> unat v"
    and words: "\<And>k. k < n div 4 \<Longrightarrow> \<exists>j\<in>taken_pages s. frame_of (v + of_nat k * 4) = heap_page s j"
    and nodes: "\<And>i b. i < 7 \<Longrightarrow> b \<in> set (F i) \<Longrightarrow> \<not> within b v n \<and> \<not> within (b + 4) v n"
    and heads: "\<And>j. A j \<noteq> None \<or> G j \<noteq> None \<Longrightarrow> \<not> within (heap_page s j) v n \<and>
      \<not> within (heap_page s j + 4) v n \<and> \<not> within (heap_page s j + 8) v n"
  shows "\<exists>t. memset_heap v n s = Inr t \<and> pages_inv t A G F \<and> rest_kept s t \<and> taken_pages t = taken_pages s \<and>
    free_frames t = free_frames s \<and>
    (\<forall>j. A j \<noteq> None \<or> G j \<noteq> None \<longrightarrow> arena_cnt t (heap_page s j) = arena_cnt s (heap_page s j))"
proof -
  have ok: "static_ok s" "lists_ok s A F" "arenas_ok s A" "larges_ok s A G" using inv by (simp_all add: pages_inv_def)
  have c: "unat (cr3 s) < unat (phy_addr_start (kernel_pool s))" using ok(1) by (simp add: static_ok_def)
  note base = static_base [OF ok(1)]
  from zero_words_heap [OF base c words] obtain ph where
    ph: "zero_words v (n div 4) s = Inr (s\<lparr>phys := ph\<rparr>)" "keeps_tables s ph" by blast
  let ?s1 = "s\<lparr>phys := ph\<rparr>"
  define t where "t = (let u = clear_views v n ?s1 in
    u\<lparr>arena_desc := (\<lambda>a. if within a v n then 0 else arena_desc u a),
      arena_cnt := (\<lambda>a. if within (a + 4) v n then 0 else arena_cnt u a),
      arena_large := (\<lambda>a. if within (a + 8) v n then 0 else arena_large u a)\<rparr>)"
  have run: "memset_heap v n s = Inr t" using v ph(1) by (simp add: memset_heap_def t_def Let_def)
  have nx: "nxt t a = (if within (a + 4) v n then 0 else nxt s a)" for a by (simp add: t_def Let_def clear_views_def)
  have rest: "rest_kept s t"
  proof -
    have "nxt t a = nxt s a" if "outside s a" for a
      using within_high [OF range, of a 4] that by (simp add: nx outside_def)
    then show ?thesis by (simp add: rest_kept_def t_def Let_def clear_views_def)
  qed
  note nm = rest_names [OF rest]
  have by': "bytes t a = bytes s a" if "unat a < heap_start s" for a
    using that within_high [OF range, of a 0] range(1)
    by (simp add: t_def Let_def clear_views_def memset_loop_outside)
  have low: "unat a < heap_start s" if "in_bitmap a (kpb s) \<or> in_bitmap a (kvb s)" for a
    using ok(1) that unfolding static_ok_def by blast
  have kp: "taken (bytes t) (kpb s) i = taken (bytes s) (kpb s) i" if "i < nbits (kpb s)" for i
    using by' low that by (intro taken_cong) auto
  have vb: "taken (bytes t) (kvb s) i = taken (bytes s) (kvb s) i" if "i < nbits (kvb s)" for i
    using by' low that by (intro taken_cong) auto
  have tp: "taken_pages t = taken_pages s" "free_frames t = free_frames s"
    using kp vb by (auto simp: taken_pages_def free_frames_def nm)
  have "heap_ok t"
  proof -
    let ?u = "?s1\<lparr>bytes := bytes t\<rparr>"
    have cong: "heap_ok t = heap_ok ?u" "taken_pages t = taken_pages ?u"
      by (intro heap_cong; simp add: t_def Let_def clear_views_def)+
    have "mapped ?u (taken_pages s)"
      by (rule mapped_bytes [OF mapped_kept [OF base(1) c ph(2) base(2)]]) (simp add: kp)
    moreover have "heap_base ?u" using tables_kept(4) [OF base(1) c ph(2)] by (simp add: heap_base_def)
    moreover have "taken_pages ?u = taken_pages s" using cong(2) tp(1) by simp
    ultimately have "heap_ok ?u" by (simp only: heap_ok_def simp_thms)
    then show ?thesis by (simp only: cong(1))
  qed
  then have st: "static_ok t" using ok(1) rest by (simp add: static_ok_def nm) (simp add: rest_kept_def)
  have li: "lists_ok t A F"
    unfolding lists_ok_def
  proof (intro allI impI conjI)
    show "dlist t (free_list (desc t i)) (F i)" if "i < 7" for i
      unfolding nm(1) by (rule clear_lists [OF inv range nodes _ _ that]) (auto simp: t_def Let_def clear_views_def)
    show "blocks_ok t A F" using ok(2) unfolding lists_ok_def blocks_ok_def nm by blast
  qed
  have hd: "arena_desc t (heap_page s j) = arena_desc s (heap_page s j)"
    "arena_cnt t (heap_page s j) = arena_cnt s (heap_page s j)"
    "arena_large t (heap_page s j) = arena_large s (heap_page s j)" if "A j \<noteq> None \<or> G j \<noteq> None" for j
    using heads [OF that] by (simp_all add: t_def Let_def clear_views_def)
  have "arenas_ok t A" using ok(3) hd unfolding arenas_ok_def tp nm by simp
  moreover have "larges_ok t A G"
    unfolding larges_ok_def tp nm
  proof (rule conjI)
    show "\<forall>j n. G j = Some n \<longrightarrow> 0 < n \<and> {j..<j + n} \<subseteq> taken_pages s \<and> arena_desc t (heap_page s j) = NULL \<and>
        arena_large t (heap_page s j) = 1 \<and> arena_cnt t (heap_page s j) = of_nat n \<and> (\<forall>j'\<in>{j..<j + n}. A j' = None)"
      using conjunct1 [OF ok(4) [unfolded larges_ok_def]] hd by simp
  qed (rule conjunct2 [OF ok(4) [unfolded larges_ok_def]])
  ultimately show ?thesis using run st li rest tp hd(2) by (auto simp: pages_inv_def)
qed

subsection \<open>Steps on one free list\<close>

lemma nodes_rest:
  assumes ok: "static_ok s" "blocks_ok s A F" "arenas_ok s A" and i: "i < 7"
    and t: "t = s\<lparr>prev := p, nxt := n\<rparr>" "agree_off (foot (free_list (desc s i)) (F i)) s t"
  shows "rest_kept s t" and "static_ok t" and "taken_pages t = taken_pages s" and "free_frames t = free_frames s"
    and "arenas_ok t A' = arenas_ok s A'" and "larges_ok t A' G = larges_ok s A' G"
proof -
  have kb: "unat (k_block_descs s) + 168 \<le> heap_start s" using ok(1) by (simp add: static_ok_def)
  have "a \<notin> foot (free_list (desc s i)) (F i)" if a: "outside s a" for a
  proof
    assume f: "a \<in> foot (free_list (desc s i)) (F i)"
    have "heap_start s \<le> unat a" if "a \<in> set (F i)" by (rule free_block [OF ok i that]) simp
    then show False using free_foot [OF ok i f] a kb i unfolding outside_def by linarith
  qed
  then have "\<forall>a. outside s a \<longrightarrow> nxt t a = nxt s a" using t(2) by (simp add: agree_off_def)
  then show rest: "rest_kept s t" by (simp add: rest_kept_def t(1))
  have c: "heap_ok t = heap_ok s" "taken_pages t = taken_pages s" "free_frames t = free_frames s"
    by (rule heap_cong; simp add: t(1))+
  then show "taken_pages t = taken_pages s" "free_frames t = free_frames s" by simp_all
  note nm = rest_names [OF rest]
  show "static_ok t" using ok(1) c(1) unfolding static_ok_def nm by (simp add: t(1))
  show "arenas_ok t A' = arenas_ok s A'" unfolding arenas_ok_def nm c by (simp add: t(1))
  show "larges_ok t A' G = larges_ok s A' G" unfolding larges_ok_def nm c by (simp add: t(1))
qed

lemma lists_step:
  assumes ok: "static_ok s" "arenas_ok s A" and lo: "lists_ok s A F" and i: "i < 7"
    and b: "A j = Some i" "k < nblk i"
    and t: "t = s\<lparr>prev := p, nxt := n\<rparr>"
      "agree_off (insert (blk s j i k) (foot (free_list (desc s i)) (F i))) s t"
      "dlist t (free_list (desc s i)) xs" "set xs \<subseteq> insert (blk s j i k) (set (F i))"
  shows "lists_ok t A (F(i := xs))" and "rest_kept s t" and "static_ok t"
    and "taken_pages t = taken_pages s" and "free_frames t = free_frames s"
    and "arenas_ok t A' = arenas_ok s A'" and "larges_ok t A' G = larges_ok s A' G"
proof -
  let ?F = "F(i := blk s j i k # F i)"
  have bo: "blocks_ok s A ?F" using lo b unfolding lists_ok_def blocks_ok_def by auto
  have t2: "agree_off (foot (free_list (desc s i)) (?F i)) s t" using t(2) by simp
  note nr = nodes_rest [OF ok(1) bo ok(2) i t(1) t2]
  show rest: "rest_kept s t" "static_ok t" "taken_pages t = taken_pages s" "free_frames t = free_frames s"
    "arenas_ok t A' = arenas_ok s A'" "larges_ok t A' G = larges_ok s A' G" using nr by simp_all
  note nm = rest_names [OF rest(1)]
  have "dlist t (free_list (desc s i')) (F i')" if i': "i' < 7" "i' \<noteq> i" for i'
  proof -
    have "foot (free_list (desc s i')) (?F i') \<inter> foot (free_list (desc s i)) (?F i) = {}"
      by (rule free_feet_disjoint [OF ok(1) bo ok(2) i'(1) i i'(2)])
    then have "foot (free_list (desc s i')) (F i') \<inter> foot (free_list (desc s i)) (?F i) = {}" using i'(2) by simp
    from dlist_agree [OF t2 this] show ?thesis using lo i'(1) by (simp add: lists_ok_def)
  qed
  moreover have "blocks_ok s A (F(i := xs))" using bo t(4) i unfolding blocks_ok_def by (auto split: if_splits)
  ultimately show "lists_ok t A (F(i := xs))" using t(3) unfolding lists_ok_def blocks_ok_def nm by simp
qed

lemma append_form: "\<exists>p n. list_append l e s = s\<lparr>prev := p, nxt := n\<rparr>"
  by (rule exI [of _ "prev (list_append l e s)"], rule exI [of _ "nxt (list_append l e s)"]) (simp add: node_ops)

lemma remove_form: "\<exists>p n. list_remove e s = s\<lparr>prev := p, nxt := n\<rparr>"
  by (rule exI [of _ "prev (list_remove e s)"], rule exI [of _ "nxt (list_remove e s)"]) (simp add: node_ops)

lemma blk_new:
  assumes "static_ok s" and "j \<in> taken_pages s" and "k < nblk i" and "i' < 7" and "blk s j i k \<notin> set xs"
  shows "blk s j i k \<notin> foot (free_list (desc s i')) xs"
proof
  assume "blk s j i k \<in> foot (free_list (desc s i')) xs"
  then have "blk s j i k = desc s i' + of_nat 8 \<or> blk s j i k = desc s i' + of_nat 16"
    using assms(5) by (auto simp: foot_def ring_def head_of_def tail_of_def free_list_def add.assoc)
  then have "unat (blk s j i k) < unat (k_block_descs s) + 168"
    using desc_unat [OF assms(1,4), of 8] desc_unat [OF assms(1,4), of 16] assms(4) by auto
  moreover have "unat (k_block_descs s) + 168 \<le> heap_start s" using assms(1) by (simp add: static_ok_def)
  ultimately show False using blk_unat(1) [OF assms(1-3)] by simp
qed

lemma arena2block_eq:
  assumes "static_ok s" and "arenas_ok s A" and "A j = Some i"
  shows "arena2block (heap_page s j) (of_nat k) s = blk s j i k" and "i < 7" and "j \<in> taken_pages s"
    and "arena_desc s (heap_page s j) = desc s i"
  using assms by (auto simp: arenas_ok_def static_ok_def arena2block_def blk_def)

lemma add_blocks_ok:
  assumes "static_ok s" and "arenas_ok s A" and "lists_ok s A F" and "A r = Some i" and "m + n \<le> nblk i"
    and "\<And>k. m \<le> k \<Longrightarrow> k < nblk i \<Longrightarrow> blk s r i k \<notin> set (F i)"
  shows "\<exists>p nx. add_blocks (heap_page s r) n (of_nat m) s = Inr (s\<lparr>prev := p, nxt := nx\<rparr>) \<and>
    lists_ok (s\<lparr>prev := p, nxt := nx\<rparr>) A (F(i := F i @ map (blk s r i) [m..<m + n])) \<and>
    rest_kept s (s\<lparr>prev := p, nxt := nx\<rparr>)"
  using assms
proof (induction n arbitrary: s F m)
  case 0
  then show ?case by (intro exI [of _ "prev s"] exI [of _ "nxt s"]) simp
next
  case (Suc n)
  note ar = arena2block_eq [OF Suc.prems(1,2,4)]
  let ?l = "free_list (desc s i)" and ?b = "blk s r i m"
  have m: "m < nblk i" using Suc.prems(5) by simp
  have dl: "dlist s ?l (F i)" using Suc.prems(3) ar(2) by (simp add: lists_ok_def)
  have b: "?b \<notin> set (F i)" using Suc.prems(6) m by simp
  have nf: "?b \<notin> foot ?l (F i)" by (rule blk_new [OF Suc.prems(1) ar(3) m ar(2) b])
  let ?t = "list_append ?l ?b s"
  obtain p nx where t: "?t = s\<lparr>prev := p, nxt := nx\<rparr>" using append_form by blast
  note ls = lists_step [OF Suc.prems(1,2,3) ar(2) Suc.prems(4) m t dlist_append(2,1) [OF dl nf]]
  have lo: "lists_ok ?t A (F(i := F i @ [?b]))" by (rule ls(1)) auto
  have rest: "rest_kept s ?t" and st: "static_ok ?t" and ao: "arenas_ok ?t A"
    using ls(2,3) ls(6) [of A] Suc.prems(2) by auto
  note nm = rest_names [OF rest]
  have up: "?t\<lparr>prev := q, nxt := w\<rparr> = s\<lparr>prev := q, nxt := w\<rparr>" for q w by (simp add: t)
  have inj: "blk s r i k \<noteq> ?b" if "Suc m \<le> k" "k < nblk i" for k
    using blk_eq(2) [OF Suc.prems(1) ar(3,3) that(2) m] that(1) by auto
  have "\<exists>p nx. add_blocks (heap_page ?t r) n (of_nat (Suc m)) ?t = Inr (?t\<lparr>prev := p, nxt := nx\<rparr>) \<and>
      lists_ok (?t\<lparr>prev := p, nxt := nx\<rparr>) A ((F(i := F i @ [?b]))(i := (F(i := F i @ [?b])) i @ map (blk ?t r i) [Suc m..<Suc m + n])) \<and>
      rest_kept ?t (?t\<lparr>prev := p, nxt := nx\<rparr>)"
  proof (rule Suc.IH [OF st ao lo Suc.prems(4)])
    show "Suc m + n \<le> nblk i" using Suc.prems(5) by simp
    show "blk ?t r i k \<notin> set ((F(i := F i @ [?b])) i)" if "Suc m \<le> k" "k < nblk i" for k
      using Suc.prems(6) [of k] inj [OF that] that by (simp add: nm)
  qed
  then obtain p' nx' where r: "add_blocks (heap_page s r) n (of_nat (Suc m)) ?t = Inr (s\<lparr>prev := p', nxt := nx'\<rparr>)"
      "lists_ok (s\<lparr>prev := p', nxt := nx'\<rparr>) A (F(i := F i @ ?b # map (blk s r i) [Suc m..<Suc m + n]))"
      "rest_kept ?t (s\<lparr>prev := p', nxt := nx'\<rparr>)"
    unfolding nm up by auto
  have "add_blocks (heap_page s r) (Suc n) (of_nat m) s = Inr (s\<lparr>prev := p', nxt := nx'\<rparr>)"
    using r(1) dlist_find [OF dl, of ?b] b by (simp add: ar(1,4) add.commute)
  moreover have "?b # map (blk s r i) [Suc m..<Suc m + n] = map (blk s r i) [m..<m + Suc n]"
    by (simp add: upt_conv_Cons del: upt_Suc)
  ultimately show ?case using r(2) rest_kept_trans [OF rest r(3)] by metis
qed

lemma remove_blocks_ok:
  assumes "static_ok s" and "arenas_ok s A" and "lists_ok s A F" and "A r = Some i" and "m + n \<le> nblk i"
    and "\<And>k. m \<le> k \<Longrightarrow> k < m + n \<Longrightarrow> blk s r i k \<in> set (F i)"
  shows "\<exists>p nx xs. remove_blocks (heap_page s r) n (of_nat m) s = Inr (s\<lparr>prev := p, nxt := nx\<rparr>) \<and>
    lists_ok (s\<lparr>prev := p, nxt := nx\<rparr>) A (F(i := xs)) \<and> set xs = set (F i) - blk s r i ` {m..<m + n} \<and>
    rest_kept s (s\<lparr>prev := p, nxt := nx\<rparr>)"
  using assms
proof (induction n arbitrary: s F m)
  case 0
  then show ?case by (intro exI [of _ "prev s"] exI [of _ "nxt s"] exI [of _ "F i"]) simp
next
  case (Suc n)
  note ar = arena2block_eq [OF Suc.prems(1,2,4)]
  let ?l = "free_list (desc s i)" and ?b = "blk s r i m"
  have m: "m < nblk i" using Suc.prems(5) by simp
  have dl: "dlist s ?l (F i)" using Suc.prems(3) ar(2) by (simp add: lists_ok_def)
  have b: "?b \<in> set (F i)" using Suc.prems(6) by simp
  then obtain xs ys where xy: "F i = xs @ ?b # ys" by (meson split_list)
  have dist: "?b \<notin> set (xs @ ys)" using dl by (auto simp: dlist_def ring_def xy)
  let ?t = "list_remove ?b s"
  obtain p nx where t: "?t = s\<lparr>prev := p, nxt := nx\<rparr>" using remove_form by blast
  note dr = dlist_remove [OF dl [unfolded xy]]
  have ag: "agree_off (insert ?b (foot ?l (F i))) s ?t" by (rule agree_off_mono [OF dr(2)]) (auto simp: xy)
  note ls = lists_step [OF Suc.prems(1,2,3) ar(2) Suc.prems(4) m t ag dr(1)]
  have lo: "lists_ok ?t A (F(i := xs @ ys))" by (rule ls(1)) (auto simp: xy)
  have rest: "rest_kept s ?t" and st: "static_ok ?t" and ao: "arenas_ok ?t A"
    using ls(2,3) ls(6) [of A] Suc.prems(2) by (auto simp: xy)
  note nm = rest_names [OF rest]
  have up: "?t\<lparr>prev := q, nxt := w\<rparr> = s\<lparr>prev := q, nxt := w\<rparr>" for q w by (simp add: t)
  have inj: "blk s r i k \<noteq> ?b" if "Suc m \<le> k" "k < nblk i" for k
    using blk_eq(2) [OF Suc.prems(1) ar(3,3) that(2) m] that(1) by auto
  have "\<exists>p nx zs. remove_blocks (heap_page ?t r) n (of_nat (Suc m)) ?t = Inr (?t\<lparr>prev := p, nxt := nx\<rparr>) \<and>
      lists_ok (?t\<lparr>prev := p, nxt := nx\<rparr>) A ((F(i := xs @ ys))(i := zs)) \<and>
      set zs = set ((F(i := xs @ ys)) i) - blk ?t r i ` {Suc m..<Suc m + n} \<and>
      rest_kept ?t (?t\<lparr>prev := p, nxt := nx\<rparr>)"
  proof (rule Suc.IH [OF st ao lo Suc.prems(4)])
    show "Suc m + n \<le> nblk i" using Suc.prems(5) by simp
    show "blk ?t r i k \<in> set ((F(i := xs @ ys)) i)" if "Suc m \<le> k" "k < Suc m + n" for k
      using Suc.prems(6) [of k] inj [of k] that Suc.prems(5) by (auto simp: nm xy)
  qed
  then obtain p' nx' zs where r: "remove_blocks (heap_page s r) n (of_nat (Suc m)) ?t = Inr (s\<lparr>prev := p', nxt := nx'\<rparr>)"
      "lists_ok (s\<lparr>prev := p', nxt := nx'\<rparr>) A (F(i := zs))"
      "set zs = set (xs @ ys) - blk s r i ` {Suc m..<Suc m + n}"
      "rest_kept ?t (s\<lparr>prev := p', nxt := nx'\<rparr>)"
    unfolding nm up by auto
  have "remove_blocks (heap_page s r) (Suc n) (of_nat m) s = Inr (s\<lparr>prev := p', nxt := nx'\<rparr>)"
    using r(1) dlist_find [OF dl, of ?b] b by (simp add: ar(1,4) add.commute)
  moreover have "{m..<m + Suc n} = insert m {Suc m..<Suc m + n}" by auto
  then have "set zs = set (F i) - blk s r i ` {m..<m + Suc n}" using r(3) dist by (auto simp: xy)
  ultimately show ?case using r(2) rest_kept_trans [OF rest r(4)] by blast
qed

subsection \<open>Taking a block\<close>

lemma mult_apart: "k \<noteq> k' \<Longrightarrow> k * b + b \<le> k' * b \<or> k' * b + b \<le> k * (b :: nat)"
proof -
  assume "k \<noteq> k'"
  then have "Suc k \<le> k' \<or> Suc k' \<le> k" by linarith
  then have "Suc k * b \<le> k' * b \<or> Suc k' * b \<le> k * b" by (metis mult_le_mono1)
  then show ?thesis by (auto simp: add.commute)
qed

text \<open>Different blocks do not overlap, and no block reaches the header of an arena.\<close>

lemma blocks_apart:
  assumes ok: "static_ok s" and j: "j \<in> taken_pages s" "j' \<in> taken_pages s" and k: "k < nblk i" "k' < nblk i'"
    and ne: "j \<noteq> j' \<or> i = i' \<and> k \<noteq> k'" and n: "n < bsize i'"
  shows "\<not> within (blk s j' i' k' + of_nat n) (blk s j i k) (bsize i)"
proof -
  have e: "unat (blk s j i k) + bsize i \<le> 4294967296"
    using blk_unat(1) [OF ok j(1) k(1)] blk_fits [OF k(1)] heap_end(1) [OF static_base(1) [OF ok] taken_nbits [OF j(1)]]
    by linarith
  have "heap_start s + 4096 * j' + 12 + k' * bsize i' + n < heap_start s + 4096 * j + 12 + k * bsize i \<or>
      heap_start s + 4096 * j + 12 + k * bsize i + bsize i \<le> heap_start s + 4096 * j' + 12 + k' * bsize i' + n"
  proof (cases "j = j'")
    case True
    with ne have i: "i' = i" and "k \<noteq> k'" by auto
    from mult_apart [OF this(2), of "bsize i"] n show ?thesis unfolding i True by linarith
  next
    case False
    then have "j < j' \<or> j' < j" by linarith
    then show ?thesis using blk_fits [OF k(1)] blk_fits [OF k(2)] n by linarith
  qed
  then show ?thesis
    unfolding within_nat [OF e] blk_nat(1) [OF ok j(2) k(2) n] blk_unat(1) [OF ok j(1) k(1)] by linarith
qed

lemma header_apart:
  assumes ok: "static_ok s" and j: "j \<in> taken_pages s" "j' \<in> taken_pages s" and k: "k < nblk i" and n: "n < 12"
  shows "\<not> within (heap_page s j' + of_nat n) (blk s j i k) (bsize i)"
proof -
  have e: "unat (blk s j i k) + bsize i \<le> 4294967296"
    using blk_unat(1) [OF ok j(1) k(1)] blk_fits [OF k(1)] heap_end(1) [OF static_base(1) [OF ok] taken_nbits [OF j(1)]]
    by linarith
  have "unat (heap_page s j' + of_nat n) = heap_start s + 4096 * j' + n" using page_nat(1) [OF ok j(2), of n] n by simp
  moreover have "heap_start s + 4096 * j' + n < heap_start s + 4096 * j + 12 + k * bsize i \<or>
      heap_start s + 4096 * j + 12 + k * bsize i + bsize i \<le> heap_start s + 4096 * j' + n"
    using blk_fits [OF k(1)] n by (cases "j' \<le> j") linarith+
  ultimately show ?thesis unfolding within_nat [OF e] blk_unat(1) [OF ok j(1) k] by linarith
qed

lemma known_taken:
  assumes "arenas_ok s A" and "larges_ok s A G" and "A j \<noteq> None \<or> G j \<noteq> None"
  shows "j \<in> taken_pages s"
proof (cases "A j")
  case None
  then obtain n where "G j = Some n" using assms(3) by auto
  then have "0 < n" "{j..<j + n} \<subseteq> taken_pages s" using assms(2) unfolding larges_ok_def by blast+
  then show ?thesis by auto
qed (use assms(1) in \<open>auto simp: arenas_ok_def\<close>)

lemma set_cnt_keeps:
  assumes inv: "pages_inv s A G F" and j: "A j = Some i"
  shows "pages_inv (set_cnt (heap_page s j) c s) A G F" and "rest_kept s (set_cnt (heap_page s j) c s)"
    and "taken_pages (set_cnt (heap_page s j) c s) = taken_pages s"
    and "free_frames (set_cnt (heap_page s j) c s) = free_frames s"
proof -
  let ?t = "set_cnt (heap_page s j) c s"
  have ok: "static_ok s" "lists_ok s A F" "arenas_ok s A" "larges_ok s A G" using inv by (simp_all add: pages_inv_def)
  show rest: "rest_kept s ?t" by (simp add: rest_kept_def set_cnt_def)
  note nm = rest_names [OF rest]
  have c: "heap_ok ?t = heap_ok s" "taken_pages ?t = taken_pages s" "free_frames ?t = free_frames s"
    by (rule heap_cong; simp add: set_cnt_def)+
  then show "taken_pages ?t = taken_pages s" "free_frames ?t = free_frames s" by simp_all
  have f: "arena_desc ?t = arena_desc s" "arena_large ?t = arena_large s" "prev ?t = prev s" "nxt ?t = nxt s"
    "block_size ?t = block_size s" "blocks_per_arena ?t = blocks_per_arena s" "cr3 ?t = cr3 s"
    "kernel_pool ?t = kernel_pool s" "k_block_descs ?t = k_block_descs s" by (simp_all add: set_cnt_def)
  have jt: "j \<in> taken_pages s" using ok(3) j by (auto simp: arenas_ok_def)
  have dl: "dlist ?t l xs = dlist s l xs" for l xs by (rule dlist_nodes) (simp_all add: f)
  have cnt: "arena_cnt ?t (heap_page s g) = arena_cnt s (heap_page s g)" if g: "G g = Some n" for g n
  proof -
    have "0 < n" "\<forall>j'\<in>{g..<g + n}. A j' = None" using ok(4) g unfolding larges_ok_def by blast+
    then have "g \<noteq> j" using j by auto
    moreover have "g \<in> taken_pages s" by (rule known_taken [OF ok(3,4)]) (simp add: g)
    ultimately have "heap_page s g \<noteq> heap_page s j" using page_eq [OF ok(1) _ jt] by blast
    then show ?thesis by (simp add: set_cnt_def)
  qed
  have "static_ok ?t" using ok(1) unfolding static_ok_def nm c f .
  moreover have "lists_ok ?t A F" using ok(2) unfolding lists_ok_def blocks_ok_def nm dl .
  moreover have "arenas_ok ?t A" using ok(3) unfolding arenas_ok_def nm c f .
  moreover have "larges_ok ?t A G"
    unfolding larges_ok_def c nm f
  proof (rule conjI)
    show "\<forall>j n. G j = Some n \<longrightarrow> 0 < n \<and> {j..<j + n} \<subseteq> taken_pages s \<and> arena_desc s (heap_page s j) = NULL \<and>
        arena_large s (heap_page s j) = 1 \<and> arena_cnt ?t (heap_page s j) = of_nat n \<and> (\<forall>j'\<in>{j..<j + n}. A j' = None)"
      using conjunct1 [OF ok(4) [unfolded larges_ok_def]] cnt by simp
  qed (rule conjunct2 [OF ok(4) [unfolded larges_ok_def]])
  ultimately show "pages_inv ?t A G F" by (simp add: pages_inv_def)
qed

lemma finite_free: "finite {k. k < nblk i \<and> P k}"
  by (rule finite_subset [of _ "{..<nblk i}"]) auto

lemma free_count_insert:
  assumes "static_ok s" and "j \<in> taken_pages s" and "j' \<in> taken_pages s" and "k < nblk i"
    and "blk s j i k \<notin> set xs" and "set ys = insert (blk s j i k) (set xs)"
  shows "free_count s j' i' (F(i := ys)) = (if i' = i \<and> j' = j then Suc (free_count s j i (F(i := xs)))
    else free_count s j' i' (F(i := xs)))"
proof (cases "i' = i \<and> j' = j")
  case True
  have "{k. k < nblk i \<and> blk s j i k \<in> set ys} = insert k {k. k < nblk i \<and> blk s j i k \<in> set xs}"
    using assms(4,6) blk_eq(2) [OF assms(1,2,2) _ assms(4)] by auto
  then show ?thesis using True assms(5) finite_free by (simp add: free_count_def)
next
  case False
  have "blk s j' i' k' \<noteq> blk s j i k" if "i' = i" "k' < nblk i'" for k'
    using blk_eq(1) [OF assms(1,3,2) that(2) assms(4)] False that(1) by auto
  then have "{k'. k' < nblk i \<and> blk s j' i k' \<in> set ys} = {k'. k' < nblk i \<and> blk s j' i k' \<in> set xs}" if "i' = i"
    using that assms(6) by auto
  then show ?thesis using False by (cases "i' = i") (auto simp: free_count_def)
qed

lemma take_block_ok:
  assumes inv: "heap_inv s A G F" and i: "i < 7" and F: "F i = b # xs"
  shows "\<exists>t. take_block (desc s i) s = Inr (b, t) \<and> heap_inv t A G (F(i := xs)) \<and> rest_kept s t \<and>
    taken_pages t = taken_pages s \<and> free_frames t = free_frames s"
proof -
  have ok: "static_ok s" "lists_ok s A F" "arenas_ok s A" "larges_ok s A G" and cnt: "counts_ok s A F"
    using inv by (simp_all add: heap_inv_def pages_inv_def)
  have bo: "blocks_ok s A F" using ok(2) by (simp add: lists_ok_def)
  obtain j k where jk: "A j = Some i" "j \<in> taken_pages s" "k < nblk i" "b = blk s j i k"
    "unat b = heap_start s + 4096 * j + 12 + k * bsize i"
    by (rule free_block [OF ok(1) bo ok(3) i, of b]) (auto simp: F)
  let ?l = "free_list (desc s i)" and ?F = "F(i := xs)"
  have "dlist s ?l (F i)" using ok(2) i by (simp add: lists_ok_def)
  then have dl: "dlist s ?l (b # xs)" unfolding F .
  have b_new: "b \<notin> set xs" using dl by (auto simp: dlist_def ring_def)
  obtain s1 where pop: "list_pop ?l s = (b, s1)" using dlist_pop(1) [OF dl] by (metis prod.collapse)
  have s1: "s1 = list_remove b s" "dlist s1 ?l xs" "agree_off (foot ?l xs) s s1"
    using pop dlist_pop [OF dl] dlist_first [OF dl] by (auto simp: list_pop_def Let_def)
  obtain p n where form: "s1 = s\<lparr>prev := p, nxt := n\<rparr>" using remove_form s1(1) by blast
  have ag: "agree_off (insert (blk s j i k) (foot ?l (F i))) s s1"
    by (rule agree_off_mono [OF s1(3)]) (auto simp: F)
  note ls = lists_step [OF ok(1,3,2) i jk(1,3) form ag s1(2)]
  have sub: "set xs \<subseteq> insert (blk s j i k) (set (F i))" by (auto simp: F)
  have pi1: "pages_inv s1 A G ?F" and rest1: "rest_kept s s1"
    using ls(1,2,3,6,7) sub ok(3,4) by (simp_all add: pages_inv_def)
  have tp1: "taken_pages s1 = taken_pages s" "free_frames s1 = free_frames s" using ls(4,5) sub by simp_all
  note nm = rest_names [OF rest1]
  have st1: "static_ok s1" using pi1 by (simp add: pages_inv_def)
  have bs: "unat (block_size s1 (desc s i)) = bsize i"
    using ok(1) i bsize_le(1) [OF i] by (simp add: form static_ok_def)
  have hs: "heap_start s + 4096 * j + 4096 \<le> 0xffc00000" "0xc0000000 \<le> heap_start s"
    using heap_end [OF static_base(1) [OF ok(1)] taken_nbits [OF jk(2)]] .
  note bf = blk_fits [OF jk(3)]
  have j1: "j \<in> taken_pages s1" by (simp add: tp1 jk(2))
  have "\<exists>t. memset_heap b (bsize i) s1 = Inr t \<and> pages_inv t A G ?F \<and> rest_kept s1 t \<and> taken_pages t = taken_pages s1 \<and>
    free_frames t = free_frames s1 \<and>
    (\<forall>j. A j \<noteq> None \<or> G j \<noteq> None \<longrightarrow> arena_cnt t (heap_page s1 j) = arena_cnt s1 (heap_page s1 j))"
  proof (rule memset_heap_ok [OF pi1])
    show "b \<noteq> NULL" using jk(5) hs(2) by auto
    show "unat b + bsize i \<le> 4294967296" using jk(5) bf hs(1) by linarith
    show "heap_start s1 \<le> unat b" using jk(5) by (simp add: nm)
    show "\<exists>j\<in>taken_pages s1. frame_of (b + of_nat q * 4) = heap_page s1 j" if "q < bsize i div 4" for q
    proof -
      have "q * 4 < bsize i" using that bsize_le(3) [of i] by auto
      from blk_nat(2) [OF ok(1) jk(2,3) this] show ?thesis
        using jk(2,4) by (intro bexI [of _ j]) (simp_all add: nm tp1)
    qed
    show "\<not> within c b (bsize i) \<and> \<not> within (c + 4) b (bsize i)" if cF: "i' < 7" "c \<in> set (?F i')" for i' c
    proof -
      have bF: "blocks_ok s A ?F" using pi1 unfolding pages_inv_def lists_ok_def blocks_ok_def nm by blast
      obtain j' k' where c: "A j' = Some i'" "j' \<in> taken_pages s" "k' < nblk i'" "c = blk s j' i' k'"
        by (rule free_block [OF ok(1) bF ok(3) cF])
      have ne: "j \<noteq> j' \<or> i = i' \<and> k \<noteq> k'"
      proof (cases "j = j'")
        case True
        with c(1) jk(1) have "i' = i" by simp
        with cF(2) b_new jk(4) c(4) True show ?thesis by auto
      qed simp
      note ba = blocks_apart [OF ok(1) jk(2) c(2) jk(3) c(3) ne]
      have "4 < bsize i'" using bsize_le(2) [of i'] by linarith
      then show ?thesis using ba [of 0] ba [of 4] c(4) jk(4) by simp
    qed
    show "\<not> within (heap_page s1 g) b (bsize i) \<and> \<not> within (heap_page s1 g + 4) b (bsize i) \<and>
        \<not> within (heap_page s1 g + 8) b (bsize i)" if "A g \<noteq> None \<or> G g \<noteq> None" for g
    proof -
      note ha = header_apart [OF ok(1) jk(2) known_taken [OF ok(3,4) that] jk(3)]
      show ?thesis using ha [of 0] ha [of 4] ha [of 8] by (simp add: nm jk(4))
    qed
  qed
  moreover have cnt1: "arena_cnt s1 = arena_cnt s" by (simp add: form)
  ultimately obtain t where t: "memset_heap b (bsize i) s1 = Inr t" "pages_inv t A G ?F" "rest_kept s1 t"
      "taken_pages t = taken_pages s" "free_frames t = free_frames s"
      "\<And>j. A j \<noteq> None \<or> G j \<noteq> None \<Longrightarrow> arena_cnt t (heap_page s j) = arena_cnt s (heap_page s j)"
    unfolding tp1 nm cnt1 by blast
  have rest: "rest_kept s t" by (rule rest_kept_trans [OF rest1 t(3)])
  have page: "block2arena b = heap_page s j"
    using blk_unat(2) [OF ok(1) jk(2,3)] jk(4) by (simp add: block2arena_def frame_of_def)
  have pt: "heap_page t g = heap_page s g" for g using rest_names(2) [OF rest] .
  let ?u = "set_cnt (heap_page s j) (arena_cnt t (heap_page s j) - 1) t"
  have run: "take_block (desc s i) s = Inr (b, ?u)"
    unfolding take_block_def pop by (simp add: bs t(1) page Let_def)
  note sk = set_cnt_keeps [OF t(2) jk(1), unfolded pt]
  have ne: "heap_page s g \<noteq> heap_page s j" if "A g \<noteq> None" "g \<noteq> j" for g
    using page_eq [OF ok(1) known_taken [OF ok(3,4)] jk(2)] that by blast
  have fc: "free_count s g i' F = (if i' = i \<and> g = j then Suc (free_count s j i ?F) else free_count s g i' ?F)"
    if "A g = Some i'" for g i'
  proof -
    have "F(i := b # xs) = F" using F by auto
    moreover have "g \<in> taken_pages s" using known_taken [OF ok(3,4)] that by auto
    ultimately show ?thesis
      using free_count_insert [OF ok(1) jk(2) _ jk(3), of g xs "b # xs" i' F] b_new jk(4) by simp
  qed
  have "counts_ok ?u A ?F"
    unfolding counts_ok_def
  proof (intro allI impI)
    fix g i' assume g: "A g = Some i'"
    have old: "arena_cnt t (heap_page s g) = of_nat (free_count s g i' F)"
      using t(6) [of g] cnt g by (simp add: counts_ok_def)
    have n: "free_count ?u g i' ?F = free_count s g i' ?F"
      using rest_names(7) [OF rest_kept_trans [OF rest sk(2)]] .
    have pu: "heap_page ?u g = heap_page s g" by (rule rest_names(2) [OF rest_kept_trans [OF rest sk(2)]])
    show "arena_cnt ?u (heap_page ?u g) = of_nat (free_count ?u g i' ?F)"
    proof (cases "g = j")
      case True
      then have "i' = i" using g jk(1) by simp
      then show ?thesis unfolding n pu using old fc [OF g] True by (simp add: set_cnt_def)
    next
      case False
      then show ?thesis unfolding n pu using old fc [OF g] ne [of g] g by (simp add: set_cnt_def)
    qed
  qed
  then show ?thesis using run sk rest_kept_trans [OF rest sk(2)] t(4,5)
    by (intro exI [of _ ?u]) (simp add: heap_inv_def)
qed

subsection \<open>States with the same heap\<close>

definition same_heap :: "'a arenas_scheme \<Rightarrow> 'a arenas_scheme \<Rightarrow> bool" where
  "same_heap s t \<longleftrightarrow> phys t = phys s \<and> cr3 t = cr3 s \<and> bytes t = bytes s \<and> kernel_pool t = kernel_pool s \<and>
     user_pool t = user_pool s \<and> kernel_vaddr t = kernel_vaddr s \<and> prev t = prev s \<and> nxt t = nxt s \<and>
     k_block_descs t = k_block_descs s \<and> block_size t = block_size s \<and> blocks_per_arena t = blocks_per_arena s \<and>
     arena_desc t = arena_desc s \<and> arena_cnt t = arena_cnt s \<and> arena_large t = arena_large s"

lemma same_heap_eq:
  fixes s t :: "'a arenas_scheme"
  assumes "same_heap s t"
  shows "static_ok t = static_ok s" and "lists_ok t A F = lists_ok s A F" and "arenas_ok t A = arenas_ok s A"
    and "larges_ok t A G = larges_ok s A G" and "counts_ok t A F = counts_ok s A F"
    and "taken_pages t = taken_pages s" and "free_frames t = free_frames s" and "heap_page t j = heap_page s j"
    and "desc t i = desc s i" and "blk t j i k = blk s j i k" and "heap_ok t = heap_ok s"
    and "free_run (bytes t) (kvb t) r n = free_run (bytes s) (kvb s) r n"
proof -
  have f: "phys t = phys s" "cr3 t = cr3 s" "bytes t = bytes s" "kernel_pool t = kernel_pool s"
    "user_pool t = user_pool s" "kernel_vaddr t = kernel_vaddr s" "prev t = prev s" "nxt t = nxt s"
    "k_block_descs t = k_block_descs s" "block_size t = block_size s" "blocks_per_arena t = blocks_per_arena s"
    "arena_desc t = arena_desc s" "arena_cnt t = arena_cnt s" "arena_large t = arena_large s"
    using assms by (simp_all add: same_heap_def)
  show c: "heap_ok t = heap_ok s" "taken_pages t = taken_pages s" "free_frames t = free_frames s"
    by (rule heap_cong; simp add: f)+
  show n: "heap_page t j = heap_page s j" "desc t i = desc s i" "blk t j i k = blk s j i k" for j i k
    by (simp_all add: heap_page_def desc_def blk_def f)
  have dl: "dlist t l xs = dlist s l xs" for l xs by (rule dlist_nodes) (simp_all add: f)
  have fc: "free_count t j i F = free_count s j i F" for j i by (simp add: free_count_def n)
  show "static_ok t = static_ok s" unfolding static_ok_def c n f ..
  show "lists_ok t A F = lists_ok s A F" unfolding lists_ok_def blocks_ok_def n dl ..
  show "arenas_ok t A = arenas_ok s A" unfolding arenas_ok_def c n f ..
  show "larges_ok t A G = larges_ok s A G" unfolding larges_ok_def c n f ..
  show "counts_ok t A F = counts_ok s A F" unfolding counts_ok_def n f fc ..
  show "free_run (bytes t) (kvb t) r n = free_run (bytes s) (kvb s) r n" by (simp add: f)
qed

lemma same_heap_inv: "same_heap s t \<Longrightarrow> heap_inv t A G F = heap_inv s A G F" "same_heap s t \<Longrightarrow> pages_inv t A G F = pages_inv s A G F"
  by (simp_all add: heap_inv_def pages_inv_def same_heap_eq)

lemma same_heap_eflags: "same_heap s (s\<lparr>eflags := e\<rparr>)"
  by (simp add: same_heap_def)

lemma same_heap_lock: "same_heap s (set_lock l t v n s)"
  by (simp add: same_heap_def set_lock_def)

text \<open>After pages have been added or taken away.\<close>

lemma inv_mem:
  assumes inv: "pages_inv s A G F" and t: "t = s\<lparr>bytes := m, phys := ph\<rparr>" and ok: "heap_ok t"
    and A: "\<forall>j. A j \<noteq> None \<longrightarrow> j \<in> taken_pages t" and G: "\<forall>g n. G g = Some n \<longrightarrow> {g..<g + n} \<subseteq> taken_pages t"
  shows "pages_inv t A G F" and "counts_ok t A F = counts_ok s A F" and "rest_kept s t"
proof -
  have p: "static_ok s" "lists_ok s A F" "arenas_ok s A" "larges_ok s A G" using inv by (simp_all add: pages_inv_def)
  show rest: "rest_kept s t" by (simp add: rest_kept_def t)
  note nm = rest_names [OF rest]
  have f: "arena_desc t = arena_desc s" "arena_cnt t = arena_cnt s" "arena_large t = arena_large s"
    "block_size t = block_size s" "blocks_per_arena t = blocks_per_arena s" "cr3 t = cr3 s"
    "kernel_pool t = kernel_pool s" "k_block_descs t = k_block_descs s" by (simp_all add: t)
  have dl: "dlist t l xs = dlist s l xs" for l xs by (rule dlist_nodes) (simp_all add: t)
  have "static_ok t" using p(1) ok unfolding static_ok_def nm f by blast
  moreover have "lists_ok t A F" using p(2) unfolding lists_ok_def blocks_ok_def nm dl .
  moreover have "arenas_ok t A" using p(3) A unfolding arenas_ok_def nm f by blast
  moreover have "larges_ok t A G"
    unfolding larges_ok_def nm f
  proof (rule conjI)
    show "\<forall>j n. G j = Some n \<longrightarrow> 0 < n \<and> {j..<j + n} \<subseteq> taken_pages t \<and> arena_desc s (heap_page s j) = NULL \<and>
        arena_large s (heap_page s j) = 1 \<and> arena_cnt s (heap_page s j) = of_nat n \<and> (\<forall>j'\<in>{j..<j + n}. A j' = None)"
      using conjunct1 [OF p(4) [unfolded larges_ok_def]] G by blast
  qed (rule conjunct2 [OF p(4) [unfolded larges_ok_def]])
  ultimately show "pages_inv t A G F" by (simp add: pages_inv_def)
  show "counts_ok t A F = counts_ok s A F" unfolding counts_ok_def nm f ..
qed

text \<open>Pages that belong to no arena and to no large request.\<close>

definition unused :: "(nat \<Rightarrow> nat option) \<Rightarrow> (nat \<Rightarrow> nat option) \<Rightarrow> nat \<Rightarrow> bool" where
  "unused A G q \<longleftrightarrow> A q = None \<and> (\<forall>g n. G g = Some n \<longrightarrow> q \<notin> {g..<g + n})"

lemma unused_new:
  assumes "arenas_ok s A" and "larges_ok s A G" and "q \<notin> taken_pages s"
  shows "unused A G q"
proof -
  have "A q = None" using assms(1,3) unfolding arenas_ok_def by (cases "A q") auto
  moreover have "q \<notin> {g..<g + n}" if "G g = Some n" for g n using assms(2,3) that unfolding larges_ok_def by blast
  ultimately show ?thesis by (simp add: unused_def)
qed

lemma unused_header:
  assumes "unused A G q" and "larges_ok s A G" and "A g \<noteq> None \<or> G g \<noteq> None"
  shows "g \<noteq> q"
proof (cases "G g")
  case None
  then show ?thesis using assms(1,3) by (auto simp: unused_def)
next
  case (Some n)
  then have "0 < n" using assms(2) unfolding larges_ok_def by blast
  then have "g \<in> {g..<g + n}" by simp
  with Some show ?thesis using assms(1) unfolding unused_def by blast
qed

lemma page_split: "heap_page s r + of_nat k * 4 = heap_page s (r + k div 1024) + of_nat (4 * (k mod 1024))"
proof -
  have "k = 1024 * (k div 1024) + k mod 1024" by simp
  then have "(of_nat k :: u32) = 1024 * of_nat (k div 1024) + of_nat (k mod 1024)"
    by (metis of_nat_add of_nat_mult of_nat_numeral)
  then have "(of_nat k * 4 :: u32) = of_nat (k div 1024) * PG_SIZE + of_nat (4 * (k mod 1024))"
    by (simp add: algebra_simps)
  then show ?thesis by (simp only: heap_page_def of_nat_add algebra_simps)
qed

lemma page_range:
  assumes "static_ok s" and "{r..<r + c} \<subseteq> taken_pages s" and "0 < c"
  shows "unat (heap_page s r) = heap_start s + 4096 * r" and "heap_start s + 4096 * (r + c) \<le> 0xffc00000"
proof -
  have r: "r \<in> taken_pages s" "r + c - 1 \<in> taken_pages s" using assms(2,3) by (auto intro: subsetD [OF assms(2)])
  show "unat (heap_page s r) = heap_start s + 4096 * r" by (rule page_unat [OF assms(1) r(1)])
  have "heap_start s + 4096 * (r + c - 1) + 4096 \<le> 0xffc00000"
    by (rule heap_end(1) [OF static_base(1) [OF assms(1)] taken_nbits [OF r(2)]])
  then show "heap_start s + 4096 * (r + c) \<le> 0xffc00000" using assms(3) by (cases c) simp_all
qed

lemma memset_new_pages:
  assumes inv: "pages_inv s A G F" and tk: "{r..<r + c} \<subseteq> taken_pages s" "0 < c"
    and un: "\<And>q. q \<in> {r..<r + c} \<Longrightarrow> unused A G q"
  shows "\<exists>t. memset_heap (heap_page s r) (4096 * c) s = Inr t \<and> pages_inv t A G F \<and> rest_kept s t \<and>
    taken_pages t = taken_pages s \<and> free_frames t = free_frames s \<and>
    (\<forall>j. A j \<noteq> None \<or> G j \<noteq> None \<longrightarrow> arena_cnt t (heap_page s j) = arena_cnt s (heap_page s j))"
proof -
  have ok: "static_ok s" "arenas_ok s A" "larges_ok s A G" and lo: "lists_ok s A F" using inv by (simp_all add: pages_inv_def)
  have bo: "blocks_ok s A F" using lo by (simp add: lists_ok_def)
  note pr = page_range [OF ok(1) tk]
  have e: "unat (heap_page s r) + 4096 * c \<le> 4294967296" using pr by simp
  have out: "\<not> within a (heap_page s r) (4096 * c)"
    if a: "unat a = heap_start s + 4096 * q + n" and q: "q \<notin> {r..<r + c}" and n: "n < 4096" for a q n
  proof -
    have "q < r \<or> r + c \<le> q" using q by auto
    then show ?thesis unfolding within_nat [OF e] a pr(1) using n by linarith
  qed
  show ?thesis
  proof (rule memset_heap_ok [OF inv _ e])
    have "0xc0000000 \<le> heap_start s" using heap_end(2) [OF static_base(1) [OF ok(1)]] tk by (force dest: taken_nbits)
    then show "heap_page s r \<noteq> NULL" using pr(1) by auto
    show "heap_start s \<le> unat (heap_page s r)" using pr(1) by simp
    show "\<exists>j\<in>taken_pages s. frame_of (heap_page s r + of_nat k * 4) = heap_page s j" if "k < 4096 * c div 4" for k
    proof
      have "k div 1024 < c" using that by (simp add: less_mult_imp_div_less)
      then show j: "r + k div 1024 \<in> taken_pages s" using tk(1) by auto
      show "frame_of (heap_page s r + of_nat k * 4) = heap_page s (r + k div 1024)"
        unfolding page_split by (rule page_nat(2) [OF ok(1) j]) simp_all
    qed
    show "\<not> within b (heap_page s r) (4096 * c) \<and> \<not> within (b + 4) (heap_page s r) (4096 * c)"
      if bF: "i < 7" "b \<in> set (F i)" for i b
    proof -
      obtain j k where jk: "A j = Some i" "j \<in> taken_pages s" "k < nblk i" "b = blk s j i k"
        "unat b = heap_start s + 4096 * j + 12 + k * bsize i" by (rule free_block [OF ok(1) bo ok(2) bF])
      have j: "j \<notin> {r..<r + c}" using un jk(1) by (auto simp: unused_def)
      have "4 < bsize i" using bsize_le(2) [of i] by linarith
      from blk_nat(1) [OF ok(1) jk(2,3) this] have "unat (b + 4) = heap_start s + 4096 * j + (12 + k * bsize i + 4)"
        using jk(4) by simp
      moreover have "unat b = heap_start s + 4096 * j + (12 + k * bsize i)" using jk(5) by simp
      moreover have "12 + k * bsize i + 4 < 4096" using blk_fits [OF jk(3)] bsize_le(2) [of i] by linarith
      ultimately show ?thesis using out [OF _ j] by simp
    qed
    show "\<not> within (heap_page s g) (heap_page s r) (4096 * c) \<and> \<not> within (heap_page s g + 4) (heap_page s r) (4096 * c) \<and>
        \<not> within (heap_page s g + 8) (heap_page s r) (4096 * c)" if g: "A g \<noteq> None \<or> G g \<noteq> None" for g
    proof -
      have "g \<notin> {r..<r + c}" using un unused_header [OF _ ok(3) g] by blast
      note o = out [OF page_nat(1) [OF ok(1) known_taken [OF ok(2,3) g]] this]
      show ?thesis using o [of 0] o [of 4] o [of 8] by simp
    qed
  qed
qed

subsection \<open>New arenas and large requests\<close>

lemma set_arena_keeps:
  assumes inv: "pages_inv s A G F" and r: "r \<in> taken_pages s" "unused A G r"
  shows "rest_kept s (set_arena (heap_page s r) d c l s)"
    and "taken_pages (set_arena (heap_page s r) d c l s) = taken_pages s"
    and "free_frames (set_arena (heap_page s r) d c l s) = free_frames s"
    and "pages_inv (set_arena (heap_page s r) d c l s) A G F"
    and "counts_ok s A F \<Longrightarrow> counts_ok (set_arena (heap_page s r) d c l s) A F"
proof -
  let ?t = "set_arena (heap_page s r) d c l s"
  have ok: "static_ok s" "lists_ok s A F" "arenas_ok s A" "larges_ok s A G" using inv by (simp_all add: pages_inv_def)
  show rest: "rest_kept s ?t" by (simp add: rest_kept_def set_arena_def)
  note nm = rest_names [OF rest]
  have c: "heap_ok ?t = heap_ok s" "taken_pages ?t = taken_pages s" "free_frames ?t = free_frames s"
    by (rule heap_cong; simp add: set_arena_def)+
  then show "taken_pages ?t = taken_pages s" "free_frames ?t = free_frames s" by simp_all
  have f: "block_size ?t = block_size s" "blocks_per_arena ?t = blocks_per_arena s" "cr3 ?t = cr3 s"
    "kernel_pool ?t = kernel_pool s" "k_block_descs ?t = k_block_descs s" by (simp_all add: set_arena_def)
  have dl: "dlist ?t l xs = dlist s l xs" for l xs by (rule dlist_nodes) (simp_all add: set_arena_def)
  have hd: "arena_desc ?t (heap_page s g) = arena_desc s (heap_page s g)"
    "arena_cnt ?t (heap_page s g) = arena_cnt s (heap_page s g)"
    "arena_large ?t (heap_page s g) = arena_large s (heap_page s g)" if g: "A g \<noteq> None \<or> G g \<noteq> None" for g
  proof -
    have "heap_page s g \<noteq> heap_page s r"
      using page_eq [OF ok(1) known_taken [OF ok(3,4) g] r(1)] unused_header [OF r(2) ok(4) g] by simp
    then show "arena_desc ?t (heap_page s g) = arena_desc s (heap_page s g)"
      "arena_cnt ?t (heap_page s g) = arena_cnt s (heap_page s g)"
      "arena_large ?t (heap_page s g) = arena_large s (heap_page s g)" by (simp_all add: set_arena_def)
  qed
  have "static_ok ?t" using ok(1) unfolding static_ok_def nm c f .
  moreover have "lists_ok ?t A F" using ok(2) unfolding lists_ok_def blocks_ok_def nm dl .
  moreover have "arenas_ok ?t A" using ok(3) hd unfolding arenas_ok_def nm c by simp
  moreover have "larges_ok ?t A G"
    unfolding larges_ok_def c nm
  proof (rule conjI)
    show "\<forall>j n. G j = Some n \<longrightarrow> 0 < n \<and> {j..<j + n} \<subseteq> taken_pages s \<and> arena_desc ?t (heap_page s j) = NULL \<and>
        arena_large ?t (heap_page s j) = 1 \<and> arena_cnt ?t (heap_page s j) = of_nat n \<and> (\<forall>j'\<in>{j..<j + n}. A j' = None)"
      using conjunct1 [OF ok(4) [unfolded larges_ok_def]] hd by simp
  qed (rule conjunct2 [OF ok(4) [unfolded larges_ok_def]])
  ultimately show "pages_inv ?t A G F" by (simp add: pages_inv_def)
  show "counts_ok ?t A F" if "counts_ok s A F" using that hd unfolding counts_ok_def nm by simp
qed

text \<open>An arena whose blocks are not yet in the list, and a large request.\<close>

lemma set_arena_small:
  assumes inv: "pages_inv s A G F" and r: "r \<in> taken_pages s" "unused A G r" and i: "i < 7"
  shows "pages_inv (set_arena (heap_page s r) (desc s i) c 0 s) (A(r \<mapsto> i)) G F"
proof -
  let ?t = "set_arena (heap_page s r) (desc s i) c 0 s"
  note sk = set_arena_keeps [OF inv r, of "desc s i" c 0]
  note nm = rest_names [OF sk(1)]
  have ok: "static_ok ?t" "lists_ok ?t A F" "arenas_ok ?t A" "larges_ok ?t A G" using sk(4) by (simp_all add: pages_inv_def)
  have A: "A r = None" using r(2) by (simp add: unused_def)
  have ext: "A j = Some i' \<Longrightarrow> (A(r \<mapsto> i)) j = Some i'" for j i' using A by auto
  have "lists_ok ?t (A(r \<mapsto> i)) F" using ok(2) unfolding lists_ok_def blocks_ok_def by (meson ext)
  moreover have "arenas_ok ?t (A(r \<mapsto> i))"
  proof -
    have "arena_desc ?t (heap_page s r) = desc s i" "arena_large ?t (heap_page s r) = 0" by (simp_all add: set_arena_def)
    then show ?thesis using ok(3) r(1) i unfolding arenas_ok_def nm sk(2) by simp
  qed
  moreover have "larges_ok ?t (A(r \<mapsto> i)) G"
    unfolding larges_ok_def
  proof (rule conjI; intro allI impI)
    show "0 < n \<and> {j..<j + n} \<subseteq> taken_pages ?t \<and> arena_desc ?t (heap_page ?t j) = NULL \<and>
        arena_large ?t (heap_page ?t j) = 1 \<and> arena_cnt ?t (heap_page ?t j) = of_nat n \<and>
        (\<forall>j'\<in>{j..<j + n}. (A(r \<mapsto> i)) j' = None)" if g: "G j = Some n" for j n
    proof -
      have "r \<notin> {j..<j + n}" using r(2) g unfolding unused_def by blast
      with conjunct1 [OF ok(4) [unfolded larges_ok_def], rule_format, OF g] show ?thesis by auto
    qed
  qed (rule conjunct2 [OF ok(4) [unfolded larges_ok_def], rule_format])
  ultimately show ?thesis using ok(1) by (simp add: pages_inv_def)
qed

lemma set_arena_large:
  assumes inv: "pages_inv s A G F" and r: "{r..<r + c} \<subseteq> taken_pages s" "0 < c"
    and un: "\<And>q. q \<in> {r..<r + c} \<Longrightarrow> unused A G q"
  shows "pages_inv (set_arena (heap_page s r) NULL (of_nat c) 1 s) A (G(r \<mapsto> c)) F"
proof -
  let ?t = "set_arena (heap_page s r) NULL (of_nat c) 1 s"
  have rt: "r \<in> taken_pages s" "unused A G r" using r un by auto
  note sk = set_arena_keeps [OF inv rt, of NULL "of_nat c" 1]
  note nm = rest_names [OF sk(1)]
  have ok: "static_ok ?t" "lists_ok ?t A F" "arenas_ok ?t A" "larges_ok ?t A G" using sk(4) by (simp_all add: pages_inv_def)
  have hd: "arena_desc ?t (heap_page s r) = NULL" "arena_large ?t (heap_page s r) = 1" "arena_cnt ?t (heap_page s r) = of_nat c"
    by (simp_all add: set_arena_def)
  have apart: "{r..<r + c} \<inter> {g..<g + n} = {}" if "G g = Some n" for g n
    using un that unfolding unused_def by blast
  have noA: "A q = None" if "q \<in> {r..<r + c}" for q using un [OF that] by (simp add: unused_def)
  have "larges_ok ?t A (G(r \<mapsto> c))"
    unfolding larges_ok_def
  proof (rule conjI; intro allI impI)
    show "0 < n \<and> {j..<j + n} \<subseteq> taken_pages ?t \<and> arena_desc ?t (heap_page ?t j) = NULL \<and>
        arena_large ?t (heap_page ?t j) = 1 \<and> arena_cnt ?t (heap_page ?t j) = of_nat n \<and> (\<forall>j'\<in>{j..<j + n}. A j' = None)"
      if "(G(r \<mapsto> c)) j = Some n" for j n
    proof (cases "j = r")
      case True
      with that have "n = c" by simp
      then show ?thesis unfolding True nm sk(2) using hd r noA by blast
    next
      case False
      with that have "G j = Some n" by simp
      from conjunct1 [OF ok(4) [unfolded larges_ok_def], rule_format, OF this] show ?thesis by blast
    qed
    show "{j..<j + n} \<inter> {j'..<j' + n'} = {}"
      if g: "(G(r \<mapsto> c)) j = Some n" "(G(r \<mapsto> c)) j' = Some n'" and ne: "j \<noteq> j'" for j n j' n'
    proof -
      consider "j = r" | "j' = r" "j \<noteq> r" | "j \<noteq> r" "j' \<noteq> r" by blast
      then show ?thesis
      proof cases
        case 1
        with g ne have "n = c" "G j' = Some n'" by simp_all
        with 1 apart show ?thesis by blast
      next
        case 2
        with g ne have "n' = c" "G j = Some n" by simp_all
        with 2 apart show ?thesis by blast
      next
        case 3
        with g have "G j = Some n" "G j' = Some n'" by simp_all
        then show ?thesis by (rule conjunct2 [OF ok(4) [unfolded larges_ok_def], rule_format, OF _ _ ne])
      qed
    qed
  qed
  then show ?thesis using ok by (simp add: pages_inv_def)
qed

end
