(* ===== verification/Malloc.thy ===== *)
theory Malloc
  imports Arena
begin

unbundle bit_operations_syntax

text \<open>
  The correctness of \<open>sys_malloc\<close> and \<open>sys_free\<close> for kernel threads, on top of the steps of the arena
  component: the abstract view of the heap is the set of the chunks that are handed out, each an
  address and a size.
\<close>

section \<open>New arenas\<close>

lemma small_alloc:
  assumes ok: "heap_ok s" and r0: "r0 < nbits (kvb s)" "free_run (bytes s) (kvb s) r0 1" and f: "free_frames s \<noteq> {}"
  shows "\<exists>r s'. malloc_page PF_KERNEL 1 s = Inr (heap_page s r, s') \<and> heap_page s r \<noteq> NULL \<and> r \<notin> taken_pages s \<and>
    heap_ok s' \<and> taken_pages s' = insert r (taken_pages s) \<and> (\<exists>m ph. s' = s\<lparr>bytes := m, phys := ph\<rparr>)"
proof -
  have c: "(0 :: u32) < 1" "(1 :: u32) < 3840" "r0 + unat (1 :: u32) \<le> nbits (kvb s)"
    "free_run (bytes s) (kvb s) r0 (unat (1 :: u32))" using r0 by simp_all
  have "finite (free_frames s)" by (simp add: free_frames_def)
  then have "0 < card (free_frames s)" using f by (simp add: card_gt_0_iff)
  then have "unat (1 :: u32) \<le> card (free_frames s)" by simp
  from malloc_page_kernel [OF ok c this] obtain r s' where
    r: "malloc_page PF_KERNEL 1 s = Inr (heap_page s r, s')" "r + unat (1 :: u32) \<le> nbits (kvb s)"
      "free_run (bytes s) (kvb s) r (unat (1 :: u32))" and s': "heap_ok s'"
      "taken_pages s' = taken_pages s \<union> {r..<r + unat (1 :: u32)}" "\<exists>m ph. s' = s\<lparr>bytes := m, phys := ph\<rparr>" by blast
  have "r \<notin> taken_pages s" using r(3) by (simp add: taken_pages_def free_run_def)
  moreover have "heap_page s r \<noteq> NULL"
  proof -
    have hb: "heap_base s" "r < nbits (kvb s)" using ok r(2) by (simp_all add: heap_ok_def)
    then have "unat (heap_page s r) \<ge> 0xc0000000" using heap_page_props(1) [OF hb] heap_end(2) [OF hb] by simp
    then show ?thesis by auto
  qed
  ultimately show ?thesis using r(1) s' by auto
qed

lemma add_blocks_bracket:
  assumes ok: "static_ok s" "arenas_ok s A" "lists_ok s A F" and r: "A r = Some i"
    and new: "\<And>k. k < nblk i \<Longrightarrow> blk s r i k \<notin> set (F i)"
  shows "\<exists>s1 t. add_blocks (heap_page s r) (nblk i) 0 (snd (intr_disable s)) = Inr s1 \<and>
    snd (intr_set_status (fst (intr_disable s)) s1) = t \<and> (\<exists>p n. t = s\<lparr>prev := p, nxt := n\<rparr>) \<and>
    lists_ok t A (F(i := F i @ map (blk s r i) [0..<nblk i])) \<and> rest_kept s t"
proof -
  obtain e where e: "snd (intr_disable s) = s\<lparr>eflags := e\<rparr>"
  proof
    show "snd (intr_disable s) = s\<lparr>eflags := eflags (snd (intr_disable s))\<rparr>" by (simp add: intr_disable_def)
  qed
  let ?s = "s\<lparr>eflags := e\<rparr>"
  note sh = same_heap_eq [OF same_heap_eflags [of s e]]
  have "\<exists>p nx. add_blocks (heap_page ?s r) (nblk i) (of_nat 0) ?s = Inr (?s\<lparr>prev := p, nxt := nx\<rparr>) \<and>
    lists_ok (?s\<lparr>prev := p, nxt := nx\<rparr>) A (F(i := F i @ map (blk ?s r i) [0..<0 + nblk i])) \<and>
    rest_kept ?s (?s\<lparr>prev := p, nxt := nx\<rparr>)"
    using ok r new by (intro add_blocks_ok) (simp_all add: sh)
  then obtain p nx where a: "add_blocks (heap_page s r) (nblk i) 0 ?s = Inr (?s\<lparr>prev := p, nxt := nx\<rparr>)"
    "lists_ok (?s\<lparr>prev := p, nxt := nx\<rparr>) A (F(i := F i @ map (blk s r i) [0..<nblk i]))"
    "rest_kept ?s (?s\<lparr>prev := p, nxt := nx\<rparr>)" unfolding sh by auto
  let ?t = "s\<lparr>prev := p, nxt := nx\<rparr>"
  have "keeps_eflags (\<lambda>s. s\<lparr>prev := p, nxt := nx\<rparr>)" by (simp add: keeps_eflags_def)
  from intr_bracket [OF this, of s] have t: "snd (intr_set_status (fst (intr_disable s)) (?s\<lparr>prev := p, nxt := nx\<rparr>)) = ?t"
    by (simp add: e)
  have "same_heap (?s\<lparr>prev := p, nxt := nx\<rparr>) ?t" by (simp add: same_heap_def)
  from same_heap_eq(2) [OF this] a(2) have "lists_ok ?t A (F(i := F i @ map (blk s r i) [0..<nblk i]))" by simp
  moreover have "rest_kept s ?t" using a(3) by (simp add: rest_kept_def outside_def)
  ultimately show ?thesis using a(1) t e by auto
qed

lemma nodes_same:
  fixes s t :: "'a arenas_scheme"
  assumes t: "t = s\<lparr>prev := p, nxt := n\<rparr>"
  shows "static_ok t = static_ok s" and "arenas_ok t A = arenas_ok s A" and "larges_ok t A G = larges_ok s A G"
    and "taken_pages t = taken_pages s" and "free_frames t = free_frames s"
proof -
  have c: "heap_ok t = heap_ok s" "taken_pages t = taken_pages s" "free_frames t = free_frames s"
    by (rule heap_cong; simp add: t)+
  then show "taken_pages t = taken_pages s" "free_frames t = free_frames s" by simp_all
  have n: "heap_page t j = heap_page s j" "desc t i = desc s i" for j i by (simp_all add: heap_page_def desc_def t)
  have f: "kernel_pool t = kernel_pool s" "kernel_vaddr t = kernel_vaddr s" "cr3 t = cr3 s"
    "k_block_descs t = k_block_descs s" "block_size t = block_size s" "blocks_per_arena t = blocks_per_arena s"
    "arena_desc t = arena_desc s" "arena_cnt t = arena_cnt s" "arena_large t = arena_large s" by (simp_all add: t)
  show "static_ok t = static_ok s" unfolding static_ok_def c n f ..
  show "arenas_ok t A = arenas_ok s A" unfolding arenas_ok_def c n f ..
  show "larges_ok t A G = larges_ok s A G" unfolding larges_ok_def c n f ..
qed

lemma new_arena_ok:
  assumes inv: "heap_inv s A G F" and i: "i < 7"
    and r0: "r0 < nbits (kvb s)" "free_run (bytes s) (kvb s) r0 1" and f: "free_frames s \<noteq> {}"
  shows "\<exists>r t. new_arena PF_KERNEL (desc s i) s = Inr (True, t) \<and> A r = None \<and> r \<in> taken_pages t \<and>
    heap_inv t (A(r \<mapsto> i)) G (F(i := F i @ map (blk s r i) [0..<nblk i])) \<and> rest_kept s t"
proof -
  have p: "static_ok s" "lists_ok s A F" "arenas_ok s A" "larges_ok s A G" and inv0: "pages_inv s A G F"
    and cnt: "counts_ok s A F" using inv by (simp_all add: heap_inv_def pages_inv_def)
  have hok: "heap_ok s" using p(1) by (simp add: static_ok_def)
  from small_alloc [OF hok r0 f] obtain r s1 where
    r: "malloc_page PF_KERNEL 1 s = Inr (heap_page s r, s1)" "heap_page s r \<noteq> NULL" "r \<notin> taken_pages s"
    and s1: "heap_ok s1" "taken_pages s1 = insert r (taken_pages s)" and form: "\<exists>m ph. s1 = s\<lparr>bytes := m, phys := ph\<rparr>" by blast
  from form obtain m ph where s1_eq: "s1 = s\<lparr>bytes := m, phys := ph\<rparr>" by blast
  have un: "unused A G r" by (rule unused_new [OF p(3,4) r(3)])
  have AG: "\<forall>j. A j \<noteq> None \<longrightarrow> j \<in> taken_pages s1" "\<forall>g n. G g = Some n \<longrightarrow> {g..<g + n} \<subseteq> taken_pages s1"
    using known_taken [OF p(3,4)] p(4) s1(2) unfolding larges_ok_def by blast+
  note m1 = inv_mem [OF inv0 s1_eq s1(1) AG]
  note nm1 = rest_names [OF m1(3)]
  have "\<exists>t. memset_heap (heap_page s1 r) (4096 * 1) s1 = Inr t \<and> pages_inv t A G F \<and> rest_kept s1 t \<and>
      taken_pages t = taken_pages s1 \<and> free_frames t = free_frames s1 \<and>
      (\<forall>j. A j \<noteq> None \<or> G j \<noteq> None \<longrightarrow> arena_cnt t (heap_page s1 j) = arena_cnt s1 (heap_page s1 j))"
    using un s1(2) by (intro memset_new_pages [OF m1(1)]) simp_all
  then obtain s2 where s2: "memset_heap (heap_page s r) 4096 s1 = Inr s2" "pages_inv s2 A G F" "rest_kept s1 s2"
    "taken_pages s2 = insert r (taken_pages s)"
    "\<forall>j. A j \<noteq> None \<or> G j \<noteq> None \<longrightarrow> arena_cnt s2 (heap_page s j) = arena_cnt s1 (heap_page s j)"
    unfolding nm1 s1(2) by auto
  have rest2: "rest_kept s s2" by (rule rest_kept_trans [OF m1(3) s2(3)])
  note nm2 = rest_names [OF rest2]
  have cnt2: "counts_ok s2 A F" using cnt s2(5) unfolding counts_ok_def nm2 by (simp add: s1_eq)
  let ?s3 = "set_arena (heap_page s r) (desc s i) (of_nat (nblk i)) 0 s2"
  have rt2: "r \<in> taken_pages s2" using s2(4) by simp
  note sk = set_arena_keeps [OF s2(2) rt2 un, of "desc s i" "of_nat (nblk i)" 0, unfolded nm2]
  have p3: "pages_inv ?s3 (A(r \<mapsto> i)) G F" using set_arena_small [OF s2(2) rt2 un i] unfolding nm2 .
  note nm3 = rest_names [OF rest_kept_trans [OF rest2 sk(1)]]
  have st: "static_ok ?s3" "arenas_ok ?s3 (A(r \<mapsto> i))" "lists_ok ?s3 (A(r \<mapsto> i)) F" and lg: "larges_ok ?s3 (A(r \<mapsto> i)) G"
    using p3 by (simp_all add: pages_inv_def)
  have none: "A r = None" using un by (simp add: unused_def)
  have rt3: "r \<in> taken_pages ?s3" using sk(2) rt2 by simp
  have new: "blk ?s3 r i' k \<notin> set (F i)" if "k < nblk i'" for k i'
  proof
    assume "blk ?s3 r i' k \<in> set (F i)"
    then have bF: "blk s r i' k \<in> set (F i)" by (simp add: nm3)
    have bo: "blocks_ok s A F" using p(2) by (simp add: lists_ok_def)
    obtain j k' where j: "A j = Some i" "j \<in> taken_pages s" "k' < nblk i" "blk s r i' k = blk s j i k'"
      by (rule free_block [OF p(1) bo p(3) i bF])
    have "j \<in> taken_pages ?s3" using sk(2) s2(4) j(2) by simp
    moreover have "blk ?s3 r i' k = blk ?s3 j i k'" using j(4) by (simp add: nm3)
    ultimately have "r = j" using blk_eq(1) [OF st(1) rt3 _ that j(3)] by blast
    with none j(1) show False by simp
  qed
  from add_blocks_bracket [OF st, of r i] new obtain s4 t where
    t: "add_blocks (heap_page ?s3 r) (nblk i) 0 (snd (intr_disable ?s3)) = Inr s4"
      "snd (intr_set_status (fst (intr_disable ?s3)) s4) = t" "lists_ok t (A(r \<mapsto> i)) (F(i := F i @ map (blk ?s3 r i) [0..<nblk i]))"
      "rest_kept ?s3 t" and form4: "\<exists>p n. t = ?s3\<lparr>prev := p, nxt := n\<rparr>" by (auto simp: nm3)
  from form4 obtain q n where t_eq: "t = ?s3\<lparr>prev := q, nxt := n\<rparr>" by blast
  let ?F = "F(i := F i @ map (blk s r i) [0..<nblk i])" and ?A = "A(r \<mapsto> i)"
  have bpa: "blocks_per_arena s (desc s i) = of_nat (nblk i)" using p(1) i by (simp add: static_ok_def)
  have bpa2: "blocks_per_arena s2 = blocks_per_arena s" "blocks_per_arena ?s3 = blocks_per_arena s"
    using rest2 by (simp_all add: rest_kept_def set_arena_def)
  have un_n: "unat (of_nat (nblk i) :: u32) = nblk i" using nblk_le [of i] by (intro unat_of_nat_u32) linarith
  have bpa3: "blocks_per_arena (snd (intr_disable u)) = blocks_per_arena u" for u :: "'a arenas_scheme"
    by (simp add: intr_disable_def)
  have run: "new_arena PF_KERNEL (desc s i) s = Inr (True, t)"
    using r(1,2) s2(1) t(1,2) un_n
    by (simp add: new_arena_def bpa bpa2 bpa3 Let_def nm3 case_prod_beta)
  have rest: "rest_kept s t" using rest_kept_trans [OF rest_kept_trans [OF rest2 sk(1)] t(4)] .
  note nm = rest_names [OF rest]
  note ns = nodes_same [OF t_eq]
  have stt: "static_ok t" "arenas_ok t ?A" "larges_ok t ?A G"
    using st(1,2) lg by (simp_all only: ns)
  have "blk ?s3 r i = blk s r i" by (rule ext) (rule nm3(3))
  then have lt: "lists_ok t ?A ?F" using t(3) by simp
  have "counts_ok t ?A ?F"
    unfolding counts_ok_def nm
  proof (intro allI impI)
    fix j i' assume j: "?A j = Some i'"
    have ct: "arena_cnt t = arena_cnt ?s3" by (simp add: t_eq)
    show "arena_cnt t (heap_page s j) = of_nat (free_count s j i' ?F)"
    proof (cases "j = r")
      case True
      then have "i' = i" using j by simp
      moreover have "{k. k < nblk i \<and> blk s r i k \<in> set (?F i)} = {..<nblk i}" by auto
      ultimately show ?thesis unfolding ct True free_count_def by (simp add: set_arena_def)
    next
      case False
      then have jA: "A j = Some i'" using j by simp
      then have jt: "j \<in> taken_pages s" using known_taken [OF p(3,4)] by blast
      have jt3: "j \<in> taken_pages ?s3" using sk(2) s2(4) jt by simp
      have "blk s j i' k \<noteq> blk s r i k'" if "k < nblk i'" "k' < nblk i" for k k'
        using blk_eq(1) [OF st(1) jt3 rt3 that] False by (auto simp: nm3)
      then have "{k. k < nblk i' \<and> blk s j i' k \<in> set (?F i')} = {k. k < nblk i' \<and> blk s j i' k \<in> set (F i')}"
        by auto
      moreover have "arena_cnt ?s3 (heap_page s j) = of_nat (free_count s j i' F)"
        using sk(5) [OF cnt2] jA unfolding counts_ok_def nm3 by blast
      ultimately show ?thesis unfolding ct free_count_def by simp
    qed
  qed
  then have "heap_inv t ?A G ?F" using stt lt by (simp add: heap_inv_def pages_inv_def)
  moreover have "r \<in> taken_pages t" using rt3 by (simp only: ns)
  ultimately show ?thesis using run none rest by blast
qed

section \<open>The chunks that are handed out\<close>

definition chunks :: "'a mm_scheme \<Rightarrow> (nat \<Rightarrow> nat option) \<Rightarrow> (nat \<Rightarrow> nat option) \<Rightarrow> (nat \<Rightarrow> addr list) \<Rightarrow> (addr \<times> nat) set" where
  "chunks s A G F = {(blk s j i k, bsize i) | j i k. A j = Some i \<and> k < nblk i \<and> blk s j i k \<notin> set (F i)} \<union>
     {(heap_page s j + 12, 4096 * n - 12) | j n. G j = Some n}"

lemma chunks_cong:
  assumes "\<And>j i k. A j = Some i \<Longrightarrow> k < nblk i \<Longrightarrow> blk s j i k \<in> set (F i) \<longleftrightarrow> blk s j i k \<in> set (F' i)"
  shows "chunks s A G F = chunks s A G F'"
  using assms unfolding chunks_def by blast

lemma rest_chunks: "rest_kept s t \<Longrightarrow> chunks t A G F = chunks s A G F"
  unfolding chunks_def by (simp add: rest_names)

lemma same_heap_chunks: "same_heap s t \<Longrightarrow> chunks t A G F = chunks s A G F"
  unfolding chunks_def by (simp add: same_heap_eq)

text \<open>A new arena hands out nothing; taking a block hands out that block.\<close>

lemma chunks_new_arena:
  assumes t: "static_ok t" "r \<in> taken_pages t" and A: "A r = None" and i: "i < 7"
    and tk: "\<forall>j i. A j = Some i \<longrightarrow> j \<in> taken_pages t"
  shows "chunks t (A(r \<mapsto> i)) G (F(i := F i @ map (blk t r i) [0..<nblk i])) = chunks t A G F"
proof -
  let ?F = "F(i := F i @ map (blk t r i) [0..<nblk i])"
  have old: "blk t j i' k \<in> set (?F i') \<longleftrightarrow> blk t j i' k \<in> set (F i')" if "A j = Some i'" "k < nblk i'" for j i' k
  proof -
    have "j \<noteq> r" using that(1) A by auto
    moreover have jt: "j \<in> taken_pages t" using tk that(1) by blast
    ultimately have "blk t j i' k \<notin> blk t r i ` {0..<nblk i}"
      using blk_eq(1) [OF t(1) jt t(2) that(2), of _ i] by force
    then show ?thesis by auto
  qed
  have full: "\<not> (k < nblk i \<and> blk t r i k \<notin> set (?F i))" for k by auto
  have iff: "(A(r \<mapsto> i)) j = Some i' \<and> k < nblk i' \<and> blk t j i' k \<notin> set (?F i') \<longleftrightarrow>
      A j = Some i' \<and> k < nblk i' \<and> blk t j i' k \<notin> set (?F i')" for j i' k
  proof (cases "j = r")
    case True
    then show ?thesis using full [of k] A by (cases "i' = i") simp_all
  qed simp
  have "chunks t (A(r \<mapsto> i)) G ?F = chunks t A G ?F"
    unfolding chunks_def by (simp only: iff)
  also have "\<dots> = chunks t A G F" by (rule chunks_cong) (rule old)
  finally show ?thesis .
qed

lemma chunks_take:
  assumes s: "static_ok s" "blocks_ok s A F" "arenas_ok s A" and i: "i < 7" and F: "F i = b # xs" and d: "b \<notin> set xs"
  shows "chunks s A G (F(i := xs)) = insert (b, bsize i) (chunks s A G F)" and "(b, bsize i) \<notin> chunks s A G F"
proof -
  obtain j k where jk: "A j = Some i" "j \<in> taken_pages s" "k < nblk i" "b = blk s j i k"
    by (rule free_block [OF s i, of b]) (auto simp: F)
  have tk: "j' \<in> taken_pages s" if "A j' = Some i'" for j' i' using s(3) that by (auto simp: arenas_ok_def)
  have same: "j' = j" if "A j' = Some i'" "k' < nblk i'" "blk s j' i' k' = b" for j' i' k'
    using blk_eq(1) [OF s(1) tk [OF that(1)] jk(2) that(2) jk(3)] that(3) jk(4) by simp
  have mem: "blk s j' i' k' \<notin> set ((F(i := xs)) i') \<longleftrightarrow> blk s j' i' k' = b \<or> blk s j' i' k' \<notin> set (F i')"
    if "A j' = Some i'" "k' < nblk i'" for j' i' k'
  proof (cases "i' = i")
    case True
    then show ?thesis using F d by auto
  next
    case False
    then show ?thesis using same [OF that] that(1) jk(1) by auto
  qed
  show "chunks s A G (F(i := xs)) = insert (b, bsize i) (chunks s A G F)"
  proof (intro equalityI subsetI)
    fix c assume "c \<in> chunks s A G (F(i := xs))"
    then consider (small) j' i' k' where "c = (blk s j' i' k', bsize i')" "A j' = Some i'" "k' < nblk i'"
        "blk s j' i' k' \<notin> set ((F(i := xs)) i')" | (large) j' n where "c = (heap_page s j' + 12, 4096 * n - 12)" "G j' = Some n"
      unfolding chunks_def by blast
    then show "c \<in> insert (b, bsize i) (chunks s A G F)"
    proof cases
      case small
      then consider "blk s j' i' k' = b" | "blk s j' i' k' \<notin> set (F i')" using mem by blast
      then show ?thesis
      proof cases
        case 1
        then have "i' = i" using same [OF small(2,3)] small(2) jk(1) by simp
        with 1 small(1) show ?thesis by simp
      next
        case 2
        with small show ?thesis unfolding chunks_def by blast
      qed
    qed (auto simp: chunks_def)
  next
    fix c assume "c \<in> insert (b, bsize i) (chunks s A G F)"
    then consider "c = (b, bsize i)" | (small) j' i' k' where "c = (blk s j' i' k', bsize i')" "A j' = Some i'" "k' < nblk i'"
        "blk s j' i' k' \<notin> set (F i')" | (large) j' n where "c = (heap_page s j' + 12, 4096 * n - 12)" "G j' = Some n"
      unfolding chunks_def by blast
    then show "c \<in> chunks s A G (F(i := xs))"
    proof cases
      case 1
      have "blk s j i k \<notin> set ((F(i := xs)) i)" using mem [OF jk(1,3)] jk(4) by blast
      with 1 jk show ?thesis unfolding chunks_def by blast
    next
      case small
      then have "blk s j' i' k' \<notin> set ((F(i := xs)) i')" using mem by blast
      with small show ?thesis unfolding chunks_def by blast
    next
      case large
      then show ?thesis unfolding chunks_def by blast
    qed
  qed
  show "(b, bsize i) \<notin> chunks s A G F"
  proof
    assume "(b, bsize i) \<in> chunks s A G F"
    then consider (small) j' i' k' where "b = blk s j' i' k'" "A j' = Some i'" "k' < nblk i'" "b \<notin> set (F i')"
      | (large) n where "bsize i = 4096 * n - 12"
      unfolding chunks_def by blast
    then show False
    proof cases
      case small
      then have "i' = i" using same [OF small(2,3)] small(2) jk(1) by simp
      with small(4) F show False by simp
    next
      case large
      have "4 dvd bsize i" "16 \<le> bsize i" "bsize i \<le> 1024" using bsize_le [of i] i by simp_all
      with large show False by (cases n) simp_all
    qed
  qed
qed

lemma get_block:
  assumes inv: "heap_inv s A G F" and i: "i < 7"
    and room: "F i \<noteq> [] \<or> (r0 < nbits (kvb s) \<and> free_run (bytes s) (kvb s) r0 1 \<and> free_frames s \<noteq> {})"
  shows "\<exists>b t A' F' s1. (if list_empty (free_list (desc s i)) s then new_arena PF_KERNEL (desc s i) s else Inr (True, s)) = Inr (True, s1) \<and>
    take_block (desc s i) s1 = Inr (b, t) \<and> heap_inv t A' G F' \<and> rest_kept s t \<and>
    chunks t A' G F' = insert (b, bsize i) (chunks s A G F) \<and> (b, bsize i) \<notin> chunks s A G F \<and> b \<noteq> NULL"
proof -
  have p: "static_ok s" "lists_ok s A F" "arenas_ok s A" "larges_ok s A G" using inv by (simp_all add: heap_inv_def pages_inv_def)
  have dl: "dlist s (free_list (desc s i)) (F i)" using p(2) i by (simp add: lists_ok_def)
  have "\<exists>s1 A1 F1. (if list_empty (free_list (desc s i)) s then new_arena PF_KERNEL (desc s i) s else Inr (True, s)) = Inr (True, s1) \<and>
    heap_inv s1 A1 G F1 \<and> rest_kept s s1 \<and> F1 i \<noteq> [] \<and> chunks s1 A1 G F1 = chunks s A G F"
  proof (cases "F i = []")
    case True
    with room have r: "r0 < nbits (kvb s)" "free_run (bytes s) (kvb s) r0 1" "free_frames s \<noteq> {}" by simp_all
    from new_arena_ok [OF inv i r] obtain r t where t: "new_arena PF_KERNEL (desc s i) s = Inr (True, t)" "A r = None"
      "r \<in> taken_pages t" "heap_inv t (A(r \<mapsto> i)) G (F(i := F i @ map (blk s r i) [0..<nblk i]))" "rest_kept s t" by blast
    have be: "blk t r i = blk s r i" by (rule ext) (rule rest_names(3) [OF t(5)])
    have pt: "static_ok t" "arenas_ok t (A(r \<mapsto> i))" using t(4) by (simp_all add: heap_inv_def pages_inv_def)
    have tk: "\<forall>j i'. A j = Some i' \<longrightarrow> j \<in> taken_pages t"
    proof (intro allI impI)
      fix j i' assume "A j = Some i'"
      with t(2) have "(A(r \<mapsto> i)) j = Some i'" by auto
      then show "j \<in> taken_pages t" using pt(2) unfolding arenas_ok_def by blast
    qed
    have "chunks t (A(r \<mapsto> i)) G (F(i := F i @ map (blk s r i) [0..<nblk i])) = chunks s A G F"
      using chunks_new_arena [OF pt(1) t(3,2) i tk, of G F] rest_chunks [OF t(5)] by (simp add: be)
    moreover have "[0..<nblk i] \<noteq> []" using nblk_pos [OF i] by simp
    ultimately show ?thesis using t True dlist_is_empty [OF dl]
      by (intro exI [of _ t] exI [of _ "A(r \<mapsto> i)"] exI [of _ "F(i := F i @ map (blk s r i) [0..<nblk i])"]) simp
  next
    case False
    then show ?thesis using dlist_is_empty [OF dl] inv by (intro exI [of _ s] exI [of _ A] exI [of _ F]) simp
  qed
  then obtain s1 A1 F1 where s1: "(if list_empty (free_list (desc s i)) s then new_arena PF_KERNEL (desc s i) s else Inr (True, s)) = Inr (True, s1)"
    "heap_inv s1 A1 G F1" "rest_kept s s1" "F1 i \<noteq> []" "chunks s1 A1 G F1 = chunks s A G F" by blast
  from s1(4) obtain b xs where F1: "F1 i = b # xs" by (cases "F1 i") auto
  have p1: "static_ok s1" "lists_ok s1 A1 F1" "blocks_ok s1 A1 F1" "arenas_ok s1 A1"
    using s1(2) by (simp_all add: heap_inv_def pages_inv_def lists_ok_def)
  have "dlist s1 (free_list (desc s1 i)) (F1 i)" using p1(2) i by (simp add: lists_ok_def)
  then have d: "b \<notin> set xs" by (auto simp: dlist_def ring_def F1)
  have b: "b \<noteq> NULL"
  proof -
    have bF: "b \<in> set (F1 i)" by (simp add: F1)
    obtain j k where "unat b = heap_start s1 + 4096 * j + 12 + k * bsize i" by (rule free_block [OF p1(1,3,4) i bF])
    then show ?thesis by auto
  qed
  have ds: "desc s1 i = desc s i" by (rule rest_names(1) [OF s1(3)])
  from take_block_ok [OF s1(2) i F1] obtain t where t: "take_block (desc s i) s1 = Inr (b, t)"
    "heap_inv t A1 G (F1(i := xs))" "rest_kept s1 t" unfolding ds by blast
  note ct = chunks_take [OF p1(1,3,4) i F1 d, of G]
  have "chunks t A1 G (F1(i := xs)) = insert (b, bsize i) (chunks s A G F)"
    using ct(1) rest_chunks [OF t(3)] s1(5) by simp
  with s1(1) t b ct(2) s1(5) rest_kept_trans [OF s1(3) t(3)] show ?thesis by metis
qed

section \<open>Allocation\<close>

lemma ucast_8_32: "m < 256 \<Longrightarrow> (ucast (of_nat m :: u8) :: u32) = of_nat m"
  by (simp add: word_unat_eq_iff unsigned_ucast_eq unat_of_nat take_bit_eq_mod)

lemma find_desc_ok:
  assumes s: "static_ok s" and sz: "unat sz \<le> 1024"
  shows "m + n = 7 \<Longrightarrow> (\<forall>i<m. bsize i < unat sz) \<Longrightarrow> \<exists>i<7. find_desc (k_block_descs s) sz n (of_nat m) s = of_nat i \<and>
    unat sz \<le> bsize i \<and> (\<forall>i'<i. bsize i' < unat sz)"
proof (induction n arbitrary: m)
  case 0
  then have "bsize 6 < unat sz" by simp
  then show ?case using sz by (simp add: bsize_def)
next
  case (Suc n)
  then have m: "m < 7" by simp
  then have ds: "desc_at (k_block_descs s) (ucast (of_nat m :: u8)) = desc s m"
    by (simp add: desc_def ucast_8_32)
  have "bsize m \<le> 1024" using bsize_le(1) [OF m] .
  then have "unat (of_nat (bsize m) :: u32) = bsize m" by (intro unat_of_nat_u32) linarith
  moreover have "block_size s (desc s m) = of_nat (bsize m)" using s m by (simp add: static_ok_def)
  ultimately have le: "sz \<le> block_size s (desc s m) \<longleftrightarrow> unat sz \<le> bsize m" by (simp add: word_le_nat_alt)
  show ?case
  proof (cases "unat sz \<le> bsize m")
    case True
    then show ?thesis using m Suc.prems(2) by (intro exI [of _ m]) (simp add: ds le)
  next
    case False
    have "\<forall>i<Suc m. bsize i < unat sz" using Suc.prems(2) False by (auto simp: less_Suc_eq)
    then show ?thesis using Suc.IH [of "Suc m"] Suc.prems(1) False by (simp add: ds le add.commute)
  qed
qed

text \<open>The caller is a kernel thread and no other thread uses the heap.\<close>

definition kernel_caller :: "'a arenas_scheme \<Rightarrow> bool" where
  "kernel_caller s \<longleftrightarrow> running_thread s \<noteq> NULL \<and> pgdir (task s (running_thread s)) = NULL \<and>
     lock_free (pool_lock (kernel_pool s)) s \<and> outside s (pool_lock (kernel_pool s) + 8) \<and>
     0xc0100000 \<le> heap_start s"

definition heap_state :: "'a arenas_scheme \<Rightarrow> (addr \<times> nat) set \<Rightarrow> bool" where
  "heap_state s C \<longleftrightarrow> kernel_caller s \<and> (\<exists>A G F. heap_inv s A G F \<and> C = chunks s A G F)"

lemma locked_run:
  assumes kc: "kernel_caller s"
  defines "s' \<equiv> set_lock (pool_lock (kernel_pool s)) (running_thread s) 0 1 s"
  shows "acquire_now (pool_lock (kernel_pool s)) s = Inr s'" and "same_heap s s'"
    and "rest_kept s' t \<Longrightarrow> \<exists>u. release_now (pool_lock (kernel_pool t)) t = Inr u \<and> same_heap t u \<and> kernel_caller u"
proof -
  let ?l = "pool_lock (kernel_pool s)"
  show "acquire_now ?l s = Inr s'" using kc acquire_free [of ?l s] by (simp add: kernel_caller_def s'_def)
  show "same_heap s s'" by (simp add: s'_def same_heap_lock)
  assume rest: "rest_kept s' t"
  have r: "kernel_pool t = kernel_pool s" "kernel_vaddr t = kernel_vaddr s" "k_block_descs t = k_block_descs s" "esp t = esp s"
    "holder t = (holder s)(?l := running_thread s)" "sem_value t = (sem_value s)(semaphore_of ?l := 0)"
    "holder_repeat_nr t = (holder_repeat_nr s)(?l := 1)" "task t = task s"
    "\<And>a. outside s a \<Longrightarrow> nxt t a = nxt s a"
    using rest by (simp_all add: rest_kept_def s'_def set_lock_def outside_def)
  have rt: "running_thread t = running_thread s" by (simp add: running_thread_def r)
  have head: "head_of (waiters (semaphore_of ?l)) = ?l + 8" by (simp add: head_of_def waiters_def semaphore_of_def add.assoc)
  have nx: "nxt t (?l + 8) = nxt s (?l + 8)" using kc by (simp add: r(9) kernel_caller_def)
  have "list_empty (waiters (semaphore_of ?l)) s" using kc by (simp add: kernel_caller_def lock_free_def)
  then have le: "list_empty (waiters (semaphore_of ?l)) t" by (simp add: list_empty_def head nx)
  then have "lock_mine ?l t" by (simp add: lock_mine_def r rt)
  note rel = release_mine [OF this]
  let ?u = "set_lock ?l NULL 1 0 t"
  have "lock_free ?l ?u" using le by (simp add: lock_free_def list_empty_def)
  moreover have "outside ?u (?l + 8)" using kc by (simp add: kernel_caller_def outside_def r set_lock_def)
  moreover have "heap_start ?u = heap_start s" "kernel_pool ?u = kernel_pool s" by (simp_all add: set_lock_def r)
  ultimately have "kernel_caller ?u" using kc by (simp add: kernel_caller_def rt r)
  then show "\<exists>u. release_now (pool_lock (kernel_pool t)) t = Inr u \<and> same_heap t u \<and> kernel_caller u"
    using rel by (intro exI [of _ ?u]) (simp add: r same_heap_lock)
qed

lemma malloc_small_ok:
  assumes inv: "heap_inv s A G F" and sz: "0 < unat sz" "unat sz \<le> 1024"
    and room: "r0 < nbits (kvb s)" "free_run (bytes s) (kvb s) r0 1" "free_frames s \<noteq> {}"
  shows "\<exists>b n t A' F'. malloc_small PF_KERNEL (k_block_descs s) sz s =
      bindr (release_now (pool_lock (kernel_pool t)) t) (\<lambda>u. Inr (b, u)) \<and>
    heap_inv t A' G F' \<and> rest_kept s t \<and> unat sz \<le> n \<and> b \<noteq> NULL \<and>
    chunks t A' G F' = insert (b, n) (chunks s A G F) \<and> (b, n) \<notin> chunks s A G F"
proof -
  have st: "static_ok s" using inv by (simp add: heap_inv_def pages_inv_def)
  from find_desc_ok [OF st sz(2), of 0 7] obtain i where
    i: "i < 7" "find_desc (k_block_descs s) sz 7 0 s = of_nat i" "unat sz \<le> bsize i" by auto
  have ds: "desc_at (k_block_descs s) (ucast (of_nat i :: u8)) = desc s i"
    using i(1) by (simp add: desc_def ucast_8_32)
  have "F i \<noteq> [] \<or> (r0 < nbits (kvb s) \<and> free_run (bytes s) (kvb s) r0 1 \<and> free_frames s \<noteq> {})" using room by blast
  from get_block [OF inv i(1) this] obtain b t A' F' s1 where
    b: "(if list_empty (free_list (desc s i)) s then new_arena PF_KERNEL (desc s i) s else Inr (True, s)) = Inr (True, s1)"
      "take_block (desc s i) s1 = Inr (b, t)" "heap_inv t A' G F'" "rest_kept s t"
      "chunks t A' G F' = insert (b, bsize i) (chunks s A G F)" "(b, bsize i) \<notin> chunks s A G F" "b \<noteq> NULL" by blast
  have "malloc_small PF_KERNEL (k_block_descs s) sz s = bindr (release_now (pool_lock (kernel_pool t)) t) (\<lambda>u. Inr (b, u))"
    unfolding malloc_small_def i(2) Let_def ds b(1) by (simp add: b(2) pool_of_def)
  with b i(3) show ?thesis by blast
qed

lemma header_frame:
  assumes "static_ok s" and "j \<in> taken_pages s"
  shows "block2arena (heap_page s j + 12) = heap_page s j"
  using page_nat(2) [OF assms, of 12] by (simp add: block2arena_def frame_of_def)

lemma chunks_large:
  assumes s: "static_ok s" "arenas_ok s A" "larges_ok s A G" and r: "r \<in> taken_pages s" "unused A G r"
  shows "chunks s A (G(r \<mapsto> n)) F = insert (heap_page s r + 12, 4096 * n - 12) (chunks s A G F)"
    and "(heap_page s r + 12, m) \<notin> chunks s A G F"
proof -
  have hd: "g \<noteq> r" if "A g \<noteq> None \<or> G g \<noteq> None" for g by (rule unused_header [OF r(2) s(3) that])
  then have "G r = None" by blast
  then have iff: "(G(r \<mapsto> n)) j = Some k \<longleftrightarrow> j = r \<and> k = n \<or> G j = Some k" for j k by auto
  show "chunks s A (G(r \<mapsto> n)) F = insert (heap_page s r + 12, 4096 * n - 12) (chunks s A G F)"
    unfolding chunks_def iff by blast
  show "(heap_page s r + 12, m) \<notin> chunks s A G F"
  proof
    assume "(heap_page s r + 12, m) \<in> chunks s A G F"
    then consider (small) j i k where "heap_page s r + 12 = blk s j i k" "A j = Some i" "k < nblk i"
      | (large) j n where "heap_page s r + 12 = heap_page s j + 12" "G j = Some n" unfolding chunks_def by blast
    then obtain j where j: "heap_page s r = heap_page s j" "A j \<noteq> None \<or> G j \<noteq> None"
    proof cases
      case small
      have "heap_page s r = heap_page s j"
        using header_frame [OF s(1) r(1)] blk_unat(2) [OF s(1) known_taken [OF s(2,3)] small(3)] small(1,2)
        by (simp add: block2arena_def frame_of_def)
      with small(2) that show thesis by blast
    qed auto
    have "r = j" using page_eq [OF s(1) r(1) known_taken [OF s(2,3) j(2)]] j(1) by simp
    with hd [OF j(2)] show False by simp
  qed
qed

lemma malloc_large_ok:
  assumes inv: "heap_inv s A G F" and sz: "1024 < unat sz" "unat sz + 4107 < 4294967296"
    and c: "c = (unat sz + 4107) div 4096" "c < 3840"
    and room: "r0 + c \<le> nbits (kvb s)" "free_run (bytes s) (kvb s) r0 c" "c \<le> card (free_frames s)"
  shows "\<exists>b n t G'. malloc_large PF_KERNEL sz s = bindr (release_now (pool_lock (kernel_pool t)) t) (\<lambda>u. Inr (b, u)) \<and>
    heap_inv t A G' F \<and> rest_kept s t \<and> unat sz \<le> n \<and> b \<noteq> NULL \<and>
    chunks t A G' F = insert (b, n) (chunks s A G F) \<and> (b, n) \<notin> chunks s A G F"
proof -
  have p: "static_ok s" "lists_ok s A F" "arenas_ok s A" "larges_ok s A G" and inv0: "pages_inv s A G F"
    and cnt: "counts_ok s A F" using inv by (simp_all add: heap_inv_def pages_inv_def)
  have c0: "0 < c" using sz(1) c(1) by (simp add: div_greater_zero_iff)
  have fits: "unat sz + 12 \<le> 4096 * c" using c(1) by linarith
  define w where "w = (of_nat c :: u32)"
  have w: "unat w = c" using c(2) by (simp add: w_def)
  have cnt_w: "(sz + 12 + PG_SIZE - 1) div PG_SIZE = w"
  proof -
    have "unat (sz + 4107) = unat sz + 4107" using sz(2) by (subst unat_add_u32) simp_all
    moreover have "unat (v div PG_SIZE) = unat v div 4096" for v :: u32 by (simp add: unat_div)
    moreover have "sz + 12 + PG_SIZE - 1 = sz + 4107" by simp
    ultimately have "unat ((sz + 12 + PG_SIZE - 1) div PG_SIZE) = unat w" using w c(1) by (simp only:)
    then show ?thesis by (simp add: word_unat_eq_iff)
  qed
  have w2: "0 < w" "w < 3840" using w c0 c(2) by (simp_all add: word_less_nat_alt)
  have hok: "heap_ok s" using p(1) by (simp add: static_ok_def)
  from malloc_page_kernel [OF hok w2, unfolded w, OF room] obtain r s1 where
    r: "malloc_page PF_KERNEL w s = Inr (heap_page s r, s1)" "r + c \<le> nbits (kvb s)" "free_run (bytes s) (kvb s) r c"
    and s1: "heap_ok s1" "taken_pages s1 = taken_pages s \<union> {r..<r + c}" and form: "\<exists>m ph. s1 = s\<lparr>bytes := m, phys := ph\<rparr>" by blast
  from form obtain m ph where s1_eq: "s1 = s\<lparr>bytes := m, phys := ph\<rparr>" by blast
  have nt: "q \<notin> taken_pages s" if "q \<in> {r..<r + c}" for q using r(3) that by (auto simp: taken_pages_def free_run_def)
  have un: "unused A G q" if "q \<in> {r..<r + c}" for q by (rule unused_new [OF p(3,4) nt [OF that]])
  have AG: "\<forall>j. A j \<noteq> None \<longrightarrow> j \<in> taken_pages s1" "\<forall>g n. G g = Some n \<longrightarrow> {g..<g + n} \<subseteq> taken_pages s1"
    using known_taken [OF p(3,4)] p(4) s1(2) unfolding larges_ok_def by blast+
  note m1 = inv_mem [OF inv0 s1_eq s1(1) AG]
  note nm1 = rest_names [OF m1(3)]
  have tk1: "{r..<r + c} \<subseteq> taken_pages s1" using s1(2) by simp
  from memset_new_pages [OF m1(1) tk1 c0 un] obtain s2 where
    s2: "memset_heap (heap_page s r) (4096 * c) s1 = Inr s2" "pages_inv s2 A G F" "rest_kept s1 s2"
      "taken_pages s2 = taken_pages s1" "\<forall>j. A j \<noteq> None \<or> G j \<noteq> None \<longrightarrow> arena_cnt s2 (heap_page s j) = arena_cnt s1 (heap_page s j)"
    unfolding nm1 by blast
  have rest2: "rest_kept s s2" by (rule rest_kept_trans [OF m1(3) s2(3)])
  note nm2 = rest_names [OF rest2]
  have cnt2: "counts_ok s2 A F" using cnt s2(5) unfolding counts_ok_def nm2 by (simp add: s1_eq)
  let ?t = "set_arena (heap_page s r) NULL w 1 s2" and ?b = "heap_page s r + 12" and ?n = "4096 * c - 12"
  have tk2: "{r..<r + c} \<subseteq> taken_pages s2" using s2(4) tk1 by simp
  have r2: "r \<in> taken_pages s2" "unused A G r" using tk2 un c0 by auto
  note sk = set_arena_keeps [OF s2(2) r2, of NULL w 1, unfolded nm2]
  have inv_t: "heap_inv ?t A (G(r \<mapsto> c)) F"
    using set_arena_large [OF s2(2) tk2 c0 un] sk(5) [OF cnt2] by (simp add: heap_inv_def nm2 w_def)
  have rest: "rest_kept s ?t" by (rule rest_kept_trans [OF rest2 sk(1)])
  have st2: "static_ok s2" using s2(2) by (simp add: pages_inv_def)
  have nn: "heap_page s r \<noteq> NULL" "?b \<noteq> NULL"
  proof -
    have "unat (heap_page s r) = heap_start s + 4096 * r" "unat (heap_page s r + 12) = heap_start s + 4096 * r + 12"
      using page_nat(1) [OF st2 r2(1), of 0] page_nat(1) [OF st2 r2(1), of 12] by (simp_all add: nm2)
    moreover have "0xc0000000 \<le> heap_start s"
      using heap_end(2) [OF static_base(1) [OF st2] taken_nbits [OF r2(1)]] by (simp add: nm2)
    ultimately have "0 < unat (heap_page s r)" "0 < unat (heap_page s r + 12)" by linarith+
    then show "heap_page s r \<noteq> NULL" "?b \<noteq> NULL" by (simp_all only: unat_gt_0 simp_thms)
  qed
  have bytes_n: "unat (w * PG_SIZE) = 4096 * c" using w c(2) by (simp add: unat_word_ariths)
  have "malloc_large PF_KERNEL sz s = bindr (release_now (pool_lock (kernel_pool ?t)) ?t) (\<lambda>u. Inr (?b, u))"
  proof -
    have "kernel_pool ?t = kernel_pool s2" by (simp add: set_arena_def)
    then show ?thesis unfolding malloc_large_def cnt_w Let_def r(1) using nn(1) s2(1) bytes_n by (simp add: pool_of_def)
  qed
  moreover have "chunks ?t A (G(r \<mapsto> c)) F = insert (?b, ?n) (chunks s A G F)" "(?b, ?n) \<notin> chunks s A G F"
  proof -
    have "arenas_ok s2 A" "larges_ok s2 A G" using s2(2) by (simp_all add: pages_inv_def)
    note cl = chunks_large [OF st2 this r2, unfolded rest_chunks [OF rest2] nm2]
    show "chunks ?t A (G(r \<mapsto> c)) F = insert (?b, ?n) (chunks s A G F)" "(?b, ?n) \<notin> chunks s A G F"
      unfolding rest_chunks [OF rest] by (rule cl)+
  qed
  moreover have "unat sz \<le> ?n" using fits by simp
  ultimately show ?thesis using inv_t rest nn(2) by blast
qed

section \<open>Giving chunks back\<close>

definition free_body :: "addr \<Rightarrow> 'a arenas_scheme \<Rightarrow> 'a arenas_scheme res" where
  "free_body b s =
     (let a = block2arena b
      in if arena_desc s a = NULL \<and> arena_large s a = 1 then mfree_page PF_KERNEL a (arena_cnt s a) s
         else let d = arena_desc s a;
                  s = list_append (free_list d) b s;
                  s = set_cnt a (arena_cnt s a + 1) s
              in if arena_cnt s a = blocks_per_arena s d then
                   bindr (remove_blocks a (unat (blocks_per_arena s d)) 0 s) (mfree_page PF_KERNEL a 1)
                 else Inr s)"

lemma free_large_ok:
  assumes inv: "heap_inv s A G F" and g: "G r = Some n"
  shows "\<exists>t. free_body (heap_page s r + 12) s = Inr t \<and> heap_inv t A (G(r := None)) F \<and> rest_kept s t \<and>
    chunks t A (G(r := None)) F = chunks s A G F - {(heap_page s r + 12, 4096 * n - 12)}"
proof -
  have p: "static_ok s" "lists_ok s A F" "arenas_ok s A" "larges_ok s A G" and inv0: "pages_inv s A G F"
    and cnt: "counts_ok s A F" using inv by (simp_all add: heap_inv_def pages_inv_def)
  have L: "0 < n" "{r..<r + n} \<subseteq> taken_pages s" "arena_desc s (heap_page s r) = NULL"
    "arena_large s (heap_page s r) = 1" "arena_cnt s (heap_page s r) = of_nat n" "\<forall>q\<in>{r..<r + n}. A q = None"
    using conjunct1 [OF p(4) [unfolded larges_ok_def], rule_format, OF g] by blast+
  note disj = conjunct2 [OF p(4) [unfolded larges_ok_def], rule_format, OF g]
  have rt: "r \<in> taken_pages s" using L(1,2) by auto
  have hok: "heap_ok s" using p(1) by (simp add: static_ok_def)
  have "n < 4294967296" using page_range(2) [OF p(1) L(2,1)] by simp
  then have u: "unat (of_nat n :: u32) = n" by simp
  have c: "(1 :: u32) \<le> of_nat n" using u L(1) by (simp add: word_le_nat_alt)
  have "{r..<r + unat (of_nat n :: u32)} \<subseteq> taken_pages s" using L(2) u by simp
  from mfree_page_kernel [OF hok c this] obtain t m ph where
    t: "mfree_page PF_KERNEL (heap_page s r) (of_nat n) s = Inr t" "heap_ok t" "taken_pages t = taken_pages s - {r..<r + n}"
    and t_eq: "t = s\<lparr>bytes := m, phys := ph\<rparr>" unfolding u by blast
  have l': "larges_ok s A (G(r := None))" using p(4) unfolding larges_ok_def by (auto split: if_splits)
  then have inv1: "pages_inv s A (G(r := None)) F" using p by (simp add: pages_inv_def)
  have AG: "\<forall>j. A j \<noteq> None \<longrightarrow> j \<in> taken_pages t" "\<forall>g k. (G(r := None)) g = Some k \<longrightarrow> {g..<g + k} \<subseteq> taken_pages t"
  proof -
    show "\<forall>j. A j \<noteq> None \<longrightarrow> j \<in> taken_pages t"
    proof (intro allI impI)
      fix j assume j: "A j \<noteq> None"
      then have "j \<in> taken_pages s" using known_taken [OF p(3,4)] by blast
      moreover have "j \<notin> {r..<r + n}" using L(6) j by auto
      ultimately show "j \<in> taken_pages t" using t(3) by simp
    qed
    show "\<forall>g k. (G(r := None)) g = Some k \<longrightarrow> {g..<g + k} \<subseteq> taken_pages t"
    proof (intro allI impI)
      fix g k assume "(G(r := None)) g = Some k"
      then have gk: "G g = Some k" "r \<noteq> g" by (auto split: if_splits)
      have "{g..<g + k} \<subseteq> taken_pages s" using p(4) gk(1) unfolding larges_ok_def by blast
      then show "{g..<g + k} \<subseteq> taken_pages t" using disj [OF gk] t(3) by blast
    qed
  qed
  note m1 = inv_mem [OF inv1 t_eq t(2) AG]
  have run: "free_body (heap_page s r + 12) s = Inr t"
    unfolding free_body_def header_frame [OF p(1) rt] Let_def using L(3-5) t(1) by simp
  have "r \<notin> {g..<g + k}" if gk: "(G(r := None)) g = Some k" for g k
  proof -
    have "G g = Some k" "r \<noteq> g" using gk by (auto split: if_splits)
    from disj [OF this] show ?thesis using L(1) by auto
  qed
  moreover have "A r = None" using L(1,6) by simp
  ultimately have "unused A (G(r := None)) r" unfolding unused_def by blast
  note cl = chunks_large [OF p(1,3) l' rt this]
  have "(G(r := None))(r \<mapsto> n) = G" using g by auto
  from cl(1) [of n F, unfolded this] cl(2) [of "4096 * n - 12" F]
  have "chunks s A (G(r := None)) F = chunks s A G F - {(heap_page s r + 12, 4096 * n - 12)}" by auto
  then have "chunks t A (G(r := None)) F = chunks s A G F - {(heap_page s r + 12, 4096 * n - 12)}"
    by (simp only: rest_chunks [OF m1(3)])
  moreover have "heap_inv t A (G(r := None)) F" unfolding heap_inv_def m1(2) using m1(1) cnt by blast
  ultimately show ?thesis using run m1(3) by blast
qed

lemma append_block_ok:
  assumes inv: "heap_inv s A G F" and b: "A j = Some i" "k < nblk i" "b = blk s j i k" "b \<notin> set (F i)"
  defines "t \<equiv> (let s' = list_append (free_list (desc s i)) b s in set_cnt (heap_page s j) (arena_cnt s' (heap_page s j) + 1) s')"
  shows "heap_inv t A G (F(i := F i @ [b]))" and "rest_kept s t"
    and "chunks t A G (F(i := F i @ [b])) = chunks s A G F - {(b, bsize i)}"
    and "arena_cnt t (heap_page s j) = of_nat (free_count s j i (F(i := F i @ [b])))"
proof -
  have p: "static_ok s" "lists_ok s A F" "arenas_ok s A" "larges_ok s A G" and cnt: "counts_ok s A F"
    using inv by (simp_all add: heap_inv_def pages_inv_def)
  have i: "i < 7" and jt: "j \<in> taken_pages s" using p(3) b(1) by (auto simp: arenas_ok_def)
  let ?l = "free_list (desc s i)" and ?F = "F(i := F i @ [b])"
  let ?s = "list_append ?l b s"
  have dl: "dlist s ?l (F i)" using p(2) i by (simp add: lists_ok_def)
  have nf: "b \<notin> foot ?l (F i)" unfolding b(3) by (rule blk_new [OF p(1) jt b(2) i]) (use b(3,4) in simp)
  obtain q nx where form: "?s = s\<lparr>prev := q, nxt := nx\<rparr>" using append_form by blast
  note da = dlist_append [OF dl nf]
  have ag: "agree_off (insert (blk s j i k) (foot ?l (F i))) s ?s" using da(2) by (simp only: b(3))
  note ls = lists_step [OF p(1,3,2) i b(1,2) form ag da(1), folded b(3)]
  have sub: "set (F i @ [b]) \<subseteq> insert b (set (F i))" by auto
  have pi: "pages_inv ?s A G ?F" and rest1: "rest_kept s ?s" using ls(1,2,3,6,7) [OF sub] p(3,4) by (simp_all add: pages_inv_def)
  note nm1 = rest_names [OF rest1]
  have t_eq: "t = set_cnt (heap_page s j) (arena_cnt s (heap_page s j) + 1) ?s"
    by (simp add: t_def Let_def form)
  note sk = set_cnt_keeps [OF pi b(1), of "arena_cnt s (heap_page s j) + 1", unfolded nm1, folded t_eq]
  show rest: "rest_kept s t" by (rule rest_kept_trans [OF rest1 sk(2)])
  note nm = rest_names [OF rest]
  have tk: "j' \<in> taken_pages s" if "A j' = Some i'" for j' i' using p(3) that by (auto simp: arenas_ok_def)
  have fc: "free_count s j' i' ?F = (if i' = i \<and> j' = j then Suc (free_count s j i F) else free_count s j' i' F)"
    if "A j' = Some i'" for j' i'
    using free_count_insert [OF p(1) jt tk [OF that] b(2), of "F i" "F i @ [b]" i' F] b(3,4) by simp
  have ct: "arena_cnt t a = (if a = heap_page s j then arena_cnt s (heap_page s j) + 1 else arena_cnt s a)" for a
    by (simp add: t_eq set_cnt_def form)
  have old: "arena_cnt s (heap_page s j') = of_nat (free_count s j' i' F)" if "A j' = Some i'" for j' i'
    using cnt that by (simp add: counts_ok_def)
  show new: "arena_cnt t (heap_page s j) = of_nat (free_count s j i ?F)"
    using ct old [OF b(1)] fc [OF b(1)] by simp
  have "counts_ok t A ?F"
    unfolding counts_ok_def nm
  proof (intro allI impI)
    fix g i' assume g: "A g = Some i'"
    show "arena_cnt t (heap_page s g) = of_nat (free_count s g i' ?F)"
    proof (cases "g = j")
      case True
      then show ?thesis using new g b(1) by simp
    next
      case False
      then have "heap_page s g \<noteq> heap_page s j" using page_eq [OF p(1) tk [OF g] jt] by simp
      then show ?thesis using ct fc [OF g] old [OF g] False by simp
    qed
  qed
  then show "heap_inv t A G ?F" using sk(1) by (simp add: heap_inv_def)
  let ?H = "\<lambda>ys. F(i := ys)"
  have bo: "blocks_ok s A (F(i := b # F i))" using p(2) b by (auto simp: lists_ok_def blocks_ok_def)
  have sw: "chunks s A G ?F = chunks s A G (F(i := b # F i))" by (rule chunks_cong) auto
  have "chunks s A G ((F(i := b # F i))(i := F i)) = insert (b, bsize i) (chunks s A G (F(i := b # F i)))"
    and "(b, bsize i) \<notin> chunks s A G (F(i := b # F i))"
    by (rule chunks_take [OF p(1) bo p(3) i _ b(4)]; simp)+
  then have "chunks s A G ?F = chunks s A G F - {(b, bsize i)}" unfolding sw by auto
  then show "chunks t A G ?F = chunks s A G F - {(b, bsize i)}" by (simp only: rest_chunks [OF rest])
qed

lemma larges_fewer:
  assumes l: "larges_ok s A G" and A': "\<And>j. A j = None \<Longrightarrow> A' j = None"
  shows "larges_ok s A' G"
  unfolding larges_ok_def
proof (rule conjI; intro allI impI)
  show "0 < n \<and> {j..<j + n} \<subseteq> taken_pages s \<and> arena_desc s (heap_page s j) = NULL \<and>
      arena_large s (heap_page s j) = 1 \<and> arena_cnt s (heap_page s j) = of_nat n \<and> (\<forall>j'\<in>{j..<j + n}. A' j' = None)"
    if "G j = Some n" for j n
    using conjunct1 [OF l [unfolded larges_ok_def], rule_format, OF that] A' by simp
qed (rule conjunct2 [OF l [unfolded larges_ok_def], rule_format])

lemma release_arena_ok:
  assumes inv: "heap_inv s A G F" and j: "A j = Some i" and full: "free_count s j i F = nblk i"
  shows "\<exists>s1 t F'. remove_blocks (heap_page s j) (nblk i) 0 s = Inr s1 \<and> mfree_page PF_KERNEL (heap_page s j) 1 s1 = Inr t \<and>
    heap_inv t (A(j := None)) G F' \<and> rest_kept s t \<and> chunks t (A(j := None)) G F' = chunks s A G F"
proof -
  have p: "static_ok s" "lists_ok s A F" "arenas_ok s A" "larges_ok s A G" and cnt: "counts_ok s A F"
    using inv by (simp_all add: heap_inv_def pages_inv_def)
  have i: "i < 7" and jt: "j \<in> taken_pages s" using p(3) j by (auto simp: arenas_ok_def)
  have "{k. k < nblk i \<and> blk s j i k \<in> set (F i)} = {..<nblk i}"
    using full unfolding free_count_def by (intro card_subset_eq) auto
  then have all: "blk s j i k \<in> set (F i)" if "k < nblk i" for k using that by blast
  have "\<exists>p nx xs. remove_blocks (heap_page s j) (nblk i) (of_nat 0) s = Inr (s\<lparr>prev := p, nxt := nx\<rparr>) \<and>
    lists_ok (s\<lparr>prev := p, nxt := nx\<rparr>) A (F(i := xs)) \<and> set xs = set (F i) - blk s j i ` {0..<0 + nblk i} \<and>
    rest_kept s (s\<lparr>prev := p, nxt := nx\<rparr>)"
    by (rule remove_blocks_ok [OF p(1,3,2) j]) (simp_all add: all)
  then obtain q nx xs where rem: "remove_blocks (heap_page s j) (nblk i) 0 s = Inr (s\<lparr>prev := q, nxt := nx\<rparr>)"
    "lists_ok (s\<lparr>prev := q, nxt := nx\<rparr>) A (F(i := xs))" "set xs = set (F i) - blk s j i ` {0..<nblk i}"
    "rest_kept s (s\<lparr>prev := q, nxt := nx\<rparr>)" by auto
  define s1 where "s1 = s\<lparr>prev := q, nxt := nx\<rparr>"
  let ?A = "A(j := None)" and ?F = "F(i := xs)"
  note ns = nodes_same [OF s1_def] and rest1 = rem(4) [folded s1_def]
  note nm1 = rest_names [OF rest1]
  have notj: "blk s j i k \<notin> set xs" if "k < nblk i" for k using rem(3) that by auto
  have lists: "lists_ok s1 ?A ?F"
  proof -
    have "blocks_ok s1 ?A ?F"
      unfolding blocks_ok_def
    proof (intro allI impI ballI)
      fix i' b assume b: "i' < 7" "b \<in> set (?F i')"
      then obtain j' k' where jk: "A j' = Some i'" "k' < nblk i'" "b = blk s1 j' i' k'"
        using rem(2) unfolding lists_ok_def blocks_ok_def s1_def by blast
      have "j' \<noteq> j"
      proof
        assume "j' = j"
        then have "i' = i" using jk(1) j by simp
        then show False using notj [OF jk(2) [unfolded \<open>i' = i\<close>]] b(2) jk(3) \<open>j' = j\<close> by (simp add: nm1)
      qed
      then show "\<exists>j k. ?A j = Some i' \<and> k < nblk i' \<and> b = blk s1 j i' k" using jk by auto
    qed
    then show ?thesis using rem(2) unfolding lists_ok_def s1_def by blast
  qed
  have "arenas_ok s1 A" using p(3) by (simp only: ns)
  then have ar: "arenas_ok s1 ?A" unfolding arenas_ok_def by simp
  have "larges_ok s1 A G" using p(4) by (simp only: ns)
  then have lg: "larges_ok s1 ?A G" by (rule larges_fewer) simp
  have inv1: "pages_inv s1 ?A G ?F" using p(1) lists ar lg by (simp add: pages_inv_def ns)
  have fc: "free_count s g i' ?F = free_count s g i' F" if g: "?A g = Some i'" for g i'
  proof -
    have gj: "g \<noteq> j" "A g = Some i'" using g by (auto split: if_splits)
    have gt: "g \<in> taken_pages s" using known_taken [OF p(3,4)] gj(2) by blast
    have "blk s g i k \<noteq> blk s j i k'" if "k < nblk i" "k' < nblk i" for k k'
      using blk_eq(1) [OF p(1) gt jt that] gj(1) by blast
    then have "{k. k < nblk i \<and> blk s g i k \<in> set xs} = {k. k < nblk i \<and> blk s g i k \<in> set (F i)}"
      using rem(3) by auto
    then show ?thesis by (cases "i' = i") (simp_all add: free_count_def)
  qed
  have cnt1: "counts_ok s1 ?A ?F"
    unfolding counts_ok_def nm1
  proof (intro allI impI)
    fix g i' assume g: "?A g = Some i'"
    then have "A g = Some i'" by (auto split: if_splits)
    then show "arena_cnt s1 (heap_page s g) = of_nat (free_count s g i' ?F)"
      unfolding fc [OF g] using cnt by (simp add: counts_ok_def s1_def)
  qed
  have hok: "heap_ok s1" using inv1 by (simp add: pages_inv_def static_ok_def)
  have "{j..<j + unat (1 :: u32)} \<subseteq> taken_pages s1" using jt by (simp add: ns)
  from mfree_page_kernel [OF hok _ this] obtain t m ph where
    t: "mfree_page PF_KERNEL (heap_page s j) 1 s1 = Inr t" "heap_ok t" "taken_pages t = taken_pages s1 - {j..<j + unat (1 :: u32)}"
    and t_eq: "t = s1\<lparr>bytes := m, phys := ph\<rparr>" unfolding nm1 by auto
  have tk: "taken_pages t = taken_pages s - {j}" using t(3) by (simp add: ns)
  have AG: "\<forall>j'. ?A j' \<noteq> None \<longrightarrow> j' \<in> taken_pages t" "\<forall>g n. G g = Some n \<longrightarrow> {g..<g + n} \<subseteq> taken_pages t"
  proof -
    show "\<forall>j'. ?A j' \<noteq> None \<longrightarrow> j' \<in> taken_pages t" using known_taken [OF p(3,4)] tk by auto
    show "\<forall>g n. G g = Some n \<longrightarrow> {g..<g + n} \<subseteq> taken_pages t"
    proof (intro allI impI)
      fix g n assume "G g = Some n"
      from conjunct1 [OF p(4) [unfolded larges_ok_def], rule_format, OF this]
      have "{g..<g + n} \<subseteq> taken_pages s" "\<forall>q\<in>{g..<g + n}. A q = None" by blast+
      then show "{g..<g + n} \<subseteq> taken_pages t" using tk j by auto
    qed
  qed
  note m1 = inv_mem [OF inv1 t_eq t(2) AG]
  have inv_t: "heap_inv t ?A G ?F" unfolding heap_inv_def m1(2) using m1(1) cnt1 by blast
  have rest: "rest_kept s t" by (rule rest_kept_trans [OF rest1 m1(3)])
  have iff: "?A g = Some i' \<and> k < nblk i' \<and> blk s g i' k \<notin> set (?F i') \<longleftrightarrow>
      A g = Some i' \<and> k < nblk i' \<and> blk s g i' k \<notin> set (F i')" for g i' k
  proof (cases "g = j")
    case True
    then show ?thesis using j all by auto
  next
    case False
    show ?thesis
    proof (cases "A g = Some i' \<and> k < nblk i' \<and> i' = i")
      case True
      have gt: "g \<in> taken_pages s" using known_taken [OF p(3,4)] True by blast
      have "blk s g i k \<notin> blk s j i ` {0..<nblk i}"
        using blk_eq(1) [OF p(1) gt jt, of k i _ i] True False by force
      then show ?thesis using True False rem(3) by auto
    qed (use False in auto)
  qed
  have "chunks t ?A G ?F = chunks s A G F"
    unfolding rest_chunks [OF rest] unfolding chunks_def by (simp only: iff)
  then show ?thesis using rem(1) t(1) inv_t rest unfolding s1_def by blast
qed

lemma free_small_ok:
  assumes inv: "heap_inv s A G F" and b: "A j = Some i" "k < nblk i" "b = blk s j i k" "b \<notin> set (F i)"
  shows "\<exists>t A' F'. free_body b s = Inr t \<and> heap_inv t A' G F' \<and> rest_kept s t \<and>
    chunks t A' G F' = chunks s A G F - {(b, bsize i)}"
proof -
  have p: "static_ok s" "lists_ok s A F" "arenas_ok s A" using inv by (simp_all add: heap_inv_def pages_inv_def)
  have i: "i < 7" and jt: "j \<in> taken_pages s" and ad: "arena_desc s (heap_page s j) = desc s i"
    using p(3) b(1) by (auto simp: arenas_ok_def)
  let ?t = "(let s' = list_append (free_list (desc s i)) b s in set_cnt (heap_page s j) (arena_cnt s' (heap_page s j) + 1) s')"
  let ?F = "F(i := F i @ [b])"
  note ab = append_block_ok [OF inv b]
  note nm = rest_names [OF ab(2)]
  have ba: "block2arena b = heap_page s j"
    using blk_unat(2) [OF p(1) jt b(2)] b(3) by (simp add: block2arena_def frame_of_def)
  have bpa: "blocks_per_arena ?t (desc s i) = of_nat (nblk i)"
    using ab(2) p(1) i by (simp add: rest_kept_def static_ok_def)
  have fc_le: "free_count s j i ?F \<le> nblk i"
  proof -
    have "card {k. k < nblk i \<and> blk s j i k \<in> set (?F i)} \<le> card {..<nblk i}" by (intro card_mono) auto
    then show ?thesis by (simp add: free_count_def)
  qed
  have eq: "arena_cnt ?t (heap_page s j) = blocks_per_arena ?t (desc s i) \<longleftrightarrow> free_count s j i ?F = nblk i"
    unfolding ab(4) bpa using fc_le nblk_le [of i] by (intro of_nat_u32_inj) linarith+
  have un: "unat (blocks_per_arena ?t (desc s i)) = nblk i"
    unfolding bpa using nblk_le [of i] by (intro unat_of_nat_u32) linarith
  have body: "free_body b s = (if free_count s j i ?F = nblk i
      then bindr (remove_blocks (heap_page s j) (nblk i) 0 ?t) (mfree_page PF_KERNEL (heap_page s j) 1) else Inr ?t)"
  proof -
    have "desc s i \<noteq> NULL" by (rule desc_not_null [OF p(1) i])
    then show ?thesis unfolding free_body_def Let_def ba ad using eq un unfolding Let_def by simp
  qed
  show ?thesis
  proof (cases "free_count s j i ?F = nblk i")
    case True
    then have "free_count ?t j i ?F = nblk i" by (simp only: nm)
    from release_arena_ok [OF ab(1) b(1) this, unfolded nm] obtain s1 t F' where
      t: "remove_blocks (heap_page s j) (nblk i) 0 ?t = Inr s1" "mfree_page PF_KERNEL (heap_page s j) 1 s1 = Inr t"
        "heap_inv t (A(j := None)) G F'" "rest_kept ?t t" "chunks t (A(j := None)) G F' = chunks ?t A G ?F" by blast
    have "free_body b s = Inr t" unfolding body using True t(1,2) by simp
    then show ?thesis using t(3) rest_kept_trans [OF ab(2) t(4)] t(5) ab(3) by blast
  next
    case False
    then have "free_body b s = Inr ?t" unfolding body by simp
    then show ?thesis using ab(1-3) by blast
  qed
qed

section \<open>The descriptors\<close>

abbreviation desc_addr :: "addr \<Rightarrow> nat \<Rightarrow> addr" where
  "desc_addr base i \<equiv> desc_at base (of_nat i)"

lemma desc_addr_nat:
  assumes "unat base + 168 \<le> 4294967296" and "i < 7" and "n < 24"
  shows "unat (desc_addr base i + of_nat n) = unat base + 24 * i + n"
proof -
  define N where "N = 24 * i + n"
  have eq: "desc_addr base i + of_nat n = base + of_nat N" by (simp add: desc_at_def mult.commute N_def)
  have N: "N < 168" using assms(2,3) by (simp add: N_def)
  then have u: "unat (of_nat N :: u32) = N" by simp
  have "unat base + N < 4294967296" using N assms(1) by linarith
  then have "unat (base + of_nat N) = unat base + N" using unat_add_u32 [of base "of_nat N"] u by simp
  then show ?thesis unfolding eq by (simp add: N_def)
qed

lemma block_count:
  assumes "i < 7"
  shows "(ucast (of_nat (bsize i) :: u16) :: u32) = of_nat (bsize i)"
    and "(PG_SIZE - 12) div ucast (of_nat (bsize i) :: u16) = (of_nat (nblk i) :: u32)"
proof -
  have b: "bsize i \<le> 1024" using bsize_le(1) [OF assms] .
  then have "unat (of_nat (bsize i) :: u16) = bsize i" by (simp add: unat_of_nat)
  then show u: "(ucast (of_nat (bsize i) :: u16) :: u32) = of_nat (bsize i)"
    using b by (simp add: word_unat_eq_iff unat_ucast_32)
  have "unat ((PG_SIZE - 12) div of_nat (bsize i)) = 4084 div bsize i"
    using b by (simp add: unat_div)
  moreover have "unat (of_nat (nblk i) :: u32) = nblk i" using nblk_le [of i] by (intro unat_of_nat_u32) linarith
  ultimately show "(PG_SIZE - 12) div ucast (of_nat (bsize i) :: u16) = (of_nat (nblk i) :: u32)"
    unfolding u by (simp only: word_unat_eq_iff nblk_def)
qed

lemma desc_init_loop_ok:
  assumes "unat base + 168 \<le> 4294967296"
  shows "m + n = 7 \<Longrightarrow> \<exists>p q x y. desc_init_loop base n (of_nat m) (of_nat (bsize m)) s =
      s\<lparr>prev := p, nxt := q, block_size := x, blocks_per_arena := y\<rparr> \<and>
    (\<forall>i. m \<le> i \<longrightarrow> i < 7 \<longrightarrow> x (desc_addr base i) = of_nat (bsize i) \<and> y (desc_addr base i) = of_nat (nblk i) \<and>
       dlist (s\<lparr>prev := p, nxt := q\<rparr>) (free_list (desc_addr base i)) []) \<and>
    (\<forall>i<m. x (desc_addr base i) = block_size s (desc_addr base i) \<and> y (desc_addr base i) = blocks_per_arena s (desc_addr base i)) \<and>
    (\<forall>a. unat a < unat base + 24 * m \<or> unat base + 168 \<le> unat a \<longrightarrow> p a = prev s a \<and> q a = nxt s a)"
proof (induction n arbitrary: m s)
  case 0
  show ?case
    by (rule exI [of _ "prev s"], rule exI [of _ "nxt s"], rule exI [of _ "block_size s"], rule exI [of _ "blocks_per_arena s"])
      (use 0 in auto)
next
  case (Suc n)
  then have m: "m < 7" by simp
  let ?d = "desc_addr base m"
  let ?s = "s\<lparr>block_size := (block_size s)(?d := of_nat (bsize m)), blocks_per_arena := (blocks_per_arena s)(?d := of_nat (nblk m))\<rparr>"
  let ?t = "list_init (free_list ?d) ?s"
  have idx: "ucast (of_nat m :: u16) = (of_nat m :: u32)" using m by (simp add: word_unat_eq_iff unat_ucast_32 unat_of_nat)
  have next_size: "(of_nat (bsize m) :: u16) * 2 = of_nat (bsize (Suc m))" by (simp add: bsize_def)
  have step: "desc_init_loop base (Suc n) (of_nat m) (of_nat (bsize m)) s = desc_init_loop base n (of_nat (Suc m)) (of_nat (bsize (Suc m))) ?t"
    using block_count(2) [OF m] by (simp add: idx block_count(1) [OF m] next_size Let_def add.commute)
  have "Suc m + n = 7" using Suc.prems by simp
  from Suc.IH [OF this, of ?t] obtain p q x y where
    IHs: "desc_init_loop base n (of_nat (Suc m)) (of_nat (bsize (Suc m))) ?t = ?t\<lparr>prev := p, nxt := q, block_size := x, blocks_per_arena := y\<rparr>"
      "\<forall>i. Suc m \<le> i \<longrightarrow> i < 7 \<longrightarrow> x (desc_addr base i) = of_nat (bsize i) \<and> y (desc_addr base i) = of_nat (nblk i) \<and>
        dlist (?t\<lparr>prev := p, nxt := q\<rparr>) (free_list (desc_addr base i)) []"
      "\<forall>i<Suc m. x (desc_addr base i) = block_size ?t (desc_addr base i) \<and> y (desc_addr base i) = blocks_per_arena ?t (desc_addr base i)"
      "\<forall>a. unat a < unat base + 24 * Suc m \<or> unat base + 168 \<le> unat a \<longrightarrow> p a = prev ?t a \<and> q a = nxt ?t a" by blast
  note IH = IHs(1) IHs(2) [rule_format] IHs(3) [rule_format] IHs(4) [rule_format]
  have t_form: "?t = s\<lparr>prev := prev ?t, nxt := nxt ?t, block_size := block_size ?s, blocks_per_arena := blocks_per_arena ?s\<rparr>"
    by (simp add: list_init_def set_prev_def set_nxt_def Let_def)
  have form: "?t\<lparr>prev := p, nxt := q, block_size := x, blocks_per_arena := y\<rparr> = s\<lparr>prev := p, nxt := q, block_size := x, blocks_per_arena := y\<rparr>"
    by (subst t_form) simp
  have addr: "unat (free_list (desc_addr base i)) = unat base + 24 * i + 8" "unat (free_list (desc_addr base i) + 8) = unat base + 24 * i + 16"
    if "i < 7" for i
    using desc_addr_nat [OF assms that, of 8] desc_addr_nat [OF assms that, of 16] by (simp_all add: free_list_def add.assoc)
  have dnat: "unat (desc_addr base i) = unat base + 24 * i" if "i < 7" for i using desc_addr_nat [OF assms that, of 0] by simp
  have dl: "dlist (u :: 'a arenas_scheme) l [] = dlist v l []" if "prev u = prev v" "nxt u = nxt v" for u v l
    by (rule dlist_nodes [OF that])
  have here: "dlist (s\<lparr>prev := p, nxt := q\<rparr>) (free_list ?d) []"
  proof -
    have "agree_off (- foot (free_list ?d) []) ?t (s\<lparr>prev := p, nxt := q\<rparr>)"
      using IH(4) [of "free_list ?d"] IH(4) [of "free_list ?d + 8"] addr [OF m]
      by (auto simp: agree_off_def head_of_def tail_of_def)
    from dlist_agree [OF this, of "free_list ?d" "[]"] show ?thesis using dlist_empty by auto
  qed
  have ne: "desc_addr base i \<noteq> ?d" if "i < 7" "i \<noteq> m" for i using dnat [OF that(1)] dnat [OF m] that(2) by auto
  have keep: "p a = prev s a \<and> q a = nxt s a" if a: "unat a < unat base + 24 * m \<or> unat base + 168 \<le> unat a" for a
  proof -
    have "a \<noteq> free_list ?d" "a \<noteq> free_list ?d + 8" using addr [OF m] a m by auto
    then have "prev ?t a = prev s a \<and> nxt ?t a = nxt s a"
      by (simp add: list_init_def set_prev_def set_nxt_def head_of_def tail_of_def Let_def)
    then show ?thesis using IH(4) [of a] a by auto
  qed
  have bs: "block_size ?t = (block_size s)(?d := of_nat (bsize m))" "blocks_per_arena ?t = (blocks_per_arena s)(?d := of_nat (nblk m))"
    by (simp_all add: list_init_def set_prev_def set_nxt_def Let_def)
  have later: "x (desc_addr base i) = of_nat (bsize i) \<and> y (desc_addr base i) = of_nat (nblk i) \<and>
      dlist (s\<lparr>prev := p, nxt := q\<rparr>) (free_list (desc_addr base i)) []" if i: "m \<le> i" "i < 7" for i
  proof (cases "i = m")
    case True
    then show ?thesis using IH(3) [of m] here by (simp add: bs)
  next
    case False
    then have "Suc m \<le> i" using i(1) by simp
    from IH(2) [OF this i(2)] dl [of "?t\<lparr>prev := p, nxt := q\<rparr>" "s\<lparr>prev := p, nxt := q\<rparr>"] show ?thesis by simp
  qed
  have earlier: "x (desc_addr base i) = block_size s (desc_addr base i) \<and> y (desc_addr base i) = blocks_per_arena s (desc_addr base i)"
    if "i < m" for i
    using IH(3) [of i] ne [of i] that m by (simp add: bs)
  show ?case
    unfolding step IH(1) form using later earlier keep by blast
qed

lemma block_desc_init_ok:
  assumes "unat base + 168 \<le> 4294967296"
  shows "\<exists>p q x y. block_desc_init base s = s\<lparr>prev := p, nxt := q, block_size := x, blocks_per_arena := y\<rparr> \<and>
    (\<forall>i<7. x (desc_addr base i) = of_nat (bsize i) \<and> y (desc_addr base i) = of_nat (nblk i) \<and>
       dlist (s\<lparr>prev := p, nxt := q\<rparr>) (free_list (desc_addr base i)) []) \<and>
    (\<forall>a. unat a < unat base \<or> unat base + 168 \<le> unat a \<longrightarrow> p a = prev s a \<and> q a = nxt s a)"
proof -
  have "\<exists>p q x y. desc_init_loop base 7 (of_nat 0) (of_nat (bsize 0)) s =
      s\<lparr>prev := p, nxt := q, block_size := x, blocks_per_arena := y\<rparr> \<and>
    (\<forall>i. 0 \<le> i \<longrightarrow> i < 7 \<longrightarrow> x (desc_addr base i) = of_nat (bsize i) \<and> y (desc_addr base i) = of_nat (nblk i) \<and>
       dlist (s\<lparr>prev := p, nxt := q\<rparr>) (free_list (desc_addr base i)) []) \<and>
    (\<forall>i<0. x (desc_addr base i) = block_size s (desc_addr base i) \<and> y (desc_addr base i) = blocks_per_arena s (desc_addr base i)) \<and>
    (\<forall>a. unat a < unat base + 24 * 0 \<or> unat base + 168 \<le> unat a \<longrightarrow> p a = prev s a \<and> q a = nxt s a)"
    by (rule desc_init_loop_ok [OF assms]) simp
  moreover have "bsize 0 = 16" by (simp add: bsize_def)
  ultimately show ?thesis unfolding block_desc_init_def by (simp only: of_nat_0 of_nat_numeral add_0_right mult_0_right not_less0) simp
qed

section \<open>A small heap\<close>

lemma heap_ok_truncate: "heap_ok s = heap_ok (mm.truncate s)"
proof -
  have f: "phys (mm.truncate s) = phys s" "cr3 (mm.truncate s) = cr3 s" "bytes (mm.truncate s) = bytes s"
    "kernel_pool (mm.truncate s) = kernel_pool s" "user_pool (mm.truncate s) = user_pool s"
    "kernel_vaddr (mm.truncate s) = kernel_vaddr s" by (simp_all add: mm.truncate_def)
  have e: "pte_of (mm.truncate s) v = pte_of s v" "pde_of (mm.truncate s) v = pde_of s v"
    "heap_page (mm.truncate s) j = heap_page s j" "kframe (mm.truncate s) i = kframe s i" for v j i
    by (simp_all add: pte_of_def pde_of_def pte_slot_def pde_slot_def heap_page_def kframe_def f)
  have tp: "taken_pages (mm.truncate s) = taken_pages s" by (simp add: taken_pages_def f)
  have "kmap_ok (mm.truncate s) = kmap_ok s" unfolding kmap_ok_def self_mapped_def e f ..
  then show ?thesis unfolding heap_ok_def heap_base_def mapped_def tp e f by simp
qed

definition tiny_raw :: arenas where
  "tiny_raw = mm.extend tiny \<lparr>k_block_descs = 0xc0020000, block_size = (\<lambda>_. 0), blocks_per_arena = (\<lambda>_. 0),
     arena_desc = (\<lambda>_. 0), arena_cnt = (\<lambda>_. 0), arena_large = (\<lambda>_. 0)\<rparr>"

definition tiny_arenas :: arenas where
  "tiny_arenas = block_desc_init 0xc0020000 (lock_init 0xc0010040 tiny_raw)"

lemma tiny_raw_fields [simp]:
  "phys tiny_raw = tiny_phys" "cr3 tiny_raw = 0x100000" "bytes tiny_raw = (\<lambda>_. 0)"
  "kernel_pool tiny_raw = kernel_pool tiny" "user_pool tiny_raw = user_pool tiny"
  "kernel_vaddr tiny_raw = kernel_vaddr tiny" "k_block_descs tiny_raw = 0xc0020000" "task tiny_raw = task tiny"
  "esp tiny_raw = 0xc009ef00" "mm.truncate tiny_raw = tiny"
  by (simp_all add: tiny_raw_def mm.extend_def tiny_def mm.truncate_def)

lemma tiny_arenas_form:
  "\<exists>p q x y. tiny_arenas = (lock_init 0xc0010040 tiny_raw)\<lparr>prev := p, nxt := q, block_size := x, blocks_per_arena := y\<rparr> \<and>
    (\<forall>i<7. x (desc_addr 0xc0020000 i) = of_nat (bsize i) \<and> y (desc_addr 0xc0020000 i) = of_nat (nblk i) \<and>
       dlist tiny_arenas (free_list (desc_addr 0xc0020000 i)) []) \<and>
    nxt tiny_arenas 0xc0010048 = 0xc0010050"
proof -
  let ?s = "lock_init 0xc0010040 tiny_raw"
  have "unat (0xc0020000 :: u32) + 168 \<le> 4294967296" by simp
  from block_desc_init_ok [OF this, of ?s] obtain p q x y where
    t: "tiny_arenas = ?s\<lparr>prev := p, nxt := q, block_size := x, blocks_per_arena := y\<rparr>"
    and d: "\<And>i. i < 7 \<Longrightarrow> x (desc_addr 0xc0020000 i) = of_nat (bsize i) \<and> y (desc_addr 0xc0020000 i) = of_nat (nblk i) \<and>
       dlist (?s\<lparr>prev := p, nxt := q\<rparr>) (free_list (desc_addr 0xc0020000 i)) []"
    and o: "\<And>a. unat a < unat (0xc0020000 :: u32) \<Longrightarrow> q a = nxt ?s a"
    unfolding tiny_arenas_def by blast
  have "dlist tiny_arenas l [] = dlist (?s\<lparr>prev := p, nxt := q\<rparr>) l []" for l
    by (rule dlist_nodes) (simp_all add: t)
  moreover have "nxt ?s 0xc0010048 = 0xc0010050"
    by (simp add: lock_init_def sema_init_def set_value_def set_holder_def set_repeat_def list_init_def
        set_prev_def set_nxt_def head_of_def tail_of_def waiters_def semaphore_of_def Let_def)
  moreover have "nxt tiny_arenas 0xc0010048 = nxt ?s 0xc0010048" using o [of "0xc0010048"] by (simp add: t)
  ultimately show ?thesis using t d by (intro exI conjI) auto
qed

lemma lock_init_keeps:
  "\<exists>p q. lock_init l s = s\<lparr>prev := p, nxt := q, sem_value := (sem_value s)(semaphore_of l := 1),
     holder := (holder s)(l := NULL), holder_repeat_nr := (holder_repeat_nr s)(l := 0)\<rparr>"
  by (rule exI [of _ "prev (lock_init l s)"], rule exI [of _ "nxt (lock_init l s)"])
    (simp add: lock_init_def sema_init_def set_value_def set_holder_def set_repeat_def list_init_def set_prev_def set_nxt_def Let_def)

lemma tiny_arenas_state: "heap_state tiny_arenas {}"
proof -
  from tiny_arenas_form obtain p q x y where
    t: "tiny_arenas = (lock_init 0xc0010040 tiny_raw)\<lparr>prev := p, nxt := q, block_size := x, blocks_per_arena := y\<rparr>"
    and d: "\<And>i. i < 7 \<Longrightarrow> x (desc_addr 0xc0020000 i) = of_nat (bsize i) \<and> y (desc_addr 0xc0020000 i) = of_nat (nblk i) \<and>
       dlist tiny_arenas (free_list (desc_addr 0xc0020000 i)) []" and w: "nxt tiny_arenas 0xc0010048 = 0xc0010050" by blast
  obtain p' q' where li: "lock_init 0xc0010040 tiny_raw = tiny_raw\<lparr>prev := p', nxt := q',
     sem_value := (sem_value tiny_raw)(semaphore_of 0xc0010040 := 1), holder := (holder tiny_raw)(0xc0010040 := NULL),
     holder_repeat_nr := (holder_repeat_nr tiny_raw)(0xc0010040 := 0)\<rparr>"
    using lock_init_keeps [of "0xc0010040" tiny_raw] by blast
  have f: "phys tiny_arenas = tiny_phys" "cr3 tiny_arenas = 0x100000" "bytes tiny_arenas = (\<lambda>_. 0)"
    "kernel_pool tiny_arenas = kernel_pool tiny" "user_pool tiny_arenas = user_pool tiny"
    "kernel_vaddr tiny_arenas = kernel_vaddr tiny" "k_block_descs tiny_arenas = 0xc0020000"
    "block_size tiny_arenas = x" "blocks_per_arena tiny_arenas = y" "holder tiny_arenas 0xc0010040 = NULL"
    "sem_value tiny_arenas (semaphore_of 0xc0010040) = 1" "holder_repeat_nr tiny_arenas 0xc0010040 = 0"
    "running_thread tiny_arenas = 0xc009e000" "task tiny_arenas = task tiny"
    by (simp_all add: t li running_thread_def)
  have c: "heap_ok tiny_arenas = heap_ok tiny_raw" "taken_pages tiny_arenas = taken_pages tiny_raw"
    by (rule heap_cong; simp add: f)+
  have hok: "heap_ok tiny_arenas" unfolding c(1) heap_ok_truncate [of tiny_raw] by (simp add: tiny_heap)
  have ds: "desc tiny_arenas i = desc_addr 0xc0020000 i" for i by (simp add: desc_def f)
  have low: "unat a < 0xc0100000" if "in_bitmap a \<lparr>btmp_bytes_len = 1, bits = 0xc009a000\<rparr> \<or> in_bitmap a \<lparr>btmp_bytes_len = 1, bits = 0xc009a004\<rparr>" for a
    using that by (auto simp: in_bitmap_def within_nat)
  have "static_ok tiny_arenas" using hok d low by (simp add: static_ok_def f ds)
  moreover have "lists_ok tiny_arenas (\<lambda>_. None) (\<lambda>_. [])" using d by (simp add: lists_ok_def blocks_ok_def ds)
  ultimately have "heap_inv tiny_arenas (\<lambda>_. None) (\<lambda>_. None) (\<lambda>_. [])"
    by (simp add: heap_inv_def pages_inv_def arenas_ok_def larges_ok_def counts_ok_def)
  moreover have "chunks tiny_arenas (\<lambda>_. None) (\<lambda>_. None) (\<lambda>_. []) = {}" by (simp add: chunks_def)
  moreover have "kernel_caller tiny_arenas"
  proof -
    have "list_empty (waiters (semaphore_of 0xc0010040)) tiny_arenas"
      using w by (simp add: list_empty_def waiters_def semaphore_of_def head_of_def tail_of_def)
    moreover have "pgdir (task tiny t) = NULL" for t by (simp add: tiny_def)
    ultimately show ?thesis by (simp add: kernel_caller_def lock_free_def f outside_def)
  qed
  ultimately show ?thesis unfolding heap_state_def by blast
qed

lemma tiny_arenas_room: "free_run (bytes tiny_arenas) (kvb tiny_arenas) 0 n" "free_frames tiny_arenas = {..<8}"
  "nbits (kvb tiny_arenas) = 8" "pool_size (kernel_pool tiny_arenas) = 0x8000"
proof -
  from tiny_arenas_form obtain p q x y where
    t: "tiny_arenas = (lock_init 0xc0010040 tiny_raw)\<lparr>prev := p, nxt := q, block_size := x, blocks_per_arena := y\<rparr>" by blast
  have f: "bytes tiny_arenas = (\<lambda>_. 0)" "kernel_vaddr tiny_arenas = kernel_vaddr tiny" "kernel_pool tiny_arenas = kernel_pool tiny"
    by (simp_all add: t)
  show "free_run (bytes tiny_arenas) (kvb tiny_arenas) 0 n" "free_frames tiny_arenas = {..<8}"
    "nbits (kvb tiny_arenas) = 8" "pool_size (kernel_pool tiny_arenas) = 0x8000"
    by (auto simp: f free_run_def taken_def free_frames_def nbits_def)
qed

text \<open>A heap with one arena of blocks of 1024 bytes, all of them handed out.\<close>

lemma busy_heap: "\<exists>(s :: arenas) C b b'. heap_state s C \<and> (b, 1024) \<in> C \<and> (b', 1024) \<in> C \<and> b \<noteq> b'"
proof -
  from tiny_arenas_state obtain A G F where kc: "kernel_caller tiny_arenas" and inv: "heap_inv tiny_arenas A G F"
    and C: "chunks tiny_arenas A G F = {}" by (auto simp: heap_state_def)
  have p: "static_ok tiny_arenas" "arenas_ok tiny_arenas A" "larges_ok tiny_arenas A G" and inv0: "pages_inv tiny_arenas A G F"
    and cnt: "counts_ok tiny_arenas A F" using inv by (simp_all add: heap_inv_def pages_inv_def)
  have hok: "heap_ok tiny_arenas" using p(1) by (simp add: static_ok_def)
  have "0 < nbits (kvb tiny_arenas)" by (simp add: tiny_arenas_room)
  moreover have "0 \<in> free_frames tiny_arenas" by (simp add: tiny_arenas_room)
  then have "free_frames tiny_arenas \<noteq> {}" by blast
  note this = calculation this
  from small_alloc [OF hok this(1) tiny_arenas_room(1) this(2)] obtain r s1 where
    r: "r \<notin> taken_pages tiny_arenas" "heap_ok s1" "taken_pages s1 = insert r (taken_pages tiny_arenas)"
    and form: "\<exists>m ph. s1 = tiny_arenas\<lparr>bytes := m, phys := ph\<rparr>" by blast
  from form obtain m ph where s1_eq: "s1 = tiny_arenas\<lparr>bytes := m, phys := ph\<rparr>" by blast
  have un: "unused A G r" by (rule unused_new [OF p(2,3) r(1)])
  have AG: "\<forall>j. A j \<noteq> None \<longrightarrow> j \<in> taken_pages s1" "\<forall>g n. G g = Some n \<longrightarrow> {g..<g + n} \<subseteq> taken_pages s1"
    using known_taken [OF p(2,3)] p(3) r(3) unfolding larges_ok_def by blast+
  note m1 = inv_mem [OF inv0 s1_eq r(2) AG]
  have rt: "r \<in> taken_pages s1" using r(3) by simp
  let ?t = "set_arena (heap_page s1 r) (desc s1 6) 0 0 s1" and ?A = "A(r \<mapsto> 6)"
  note sk = set_arena_keeps [OF m1(1) rt un, of "desc s1 6" 0 0]
  have pt: "pages_inv ?t ?A G F" by (rule set_arena_small [OF m1(1) rt un]) simp
  have st: "static_ok ?t" "arenas_ok ?t ?A" "lists_ok ?t ?A F" using pt by (simp_all add: pages_inv_def)
  have rt': "r \<in> taken_pages ?t" using rt sk(2) by simp
  note nm = rest_names [OF sk(1)]
  have none: "blk ?t r 6 k \<notin> set (F 6)" if "k < nblk 6" for k
  proof
    assume b: "blk ?t r 6 k \<in> set (F 6)"
    have bo: "blocks_ok s1 A F" and sa: "static_ok s1" "arenas_ok s1 A" using m1(1) by (simp_all add: pages_inv_def lists_ok_def)
    have b1: "blk s1 r 6 k \<in> set (F 6)" using b by (simp add: nm)
    obtain j k' where "A j = Some 6" "j \<in> taken_pages s1" "k' < nblk 6" "blk s1 r 6 k = blk s1 j 6 k'"
      by (rule free_block [OF sa(1) bo sa(2) _ b1]) simp_all
    moreover from this have "r = j" using blk_eq(1) [OF sa(1) rt _ that] by blast
    ultimately show False using un by (simp add: unused_def)
  qed
  have cnt_t: "counts_ok ?t ?A F"
  proof -
    have "free_count ?t r 6 F = 0" using none by (simp add: free_count_def)
    moreover have "arena_cnt ?t (heap_page ?t r) = 0" unfolding nm by (simp add: set_arena_def)
    moreover have "counts_ok ?t A F" using sk(5) m1(2) cnt by simp
    ultimately show ?thesis unfolding counts_ok_def by (auto split: if_splits)
  qed
  have kct: "kernel_caller ?t"
  proof -
    have f: "running_thread ?t = running_thread tiny_arenas" "task ?t = task tiny_arenas" "kernel_pool ?t = kernel_pool tiny_arenas"
      "holder ?t = holder tiny_arenas" "sem_value ?t = sem_value tiny_arenas" "holder_repeat_nr ?t = holder_repeat_nr tiny_arenas"
      "kernel_vaddr ?t = kernel_vaddr tiny_arenas" "k_block_descs ?t = k_block_descs tiny_arenas" "nxt ?t = nxt tiny_arenas"
      by (simp_all add: set_arena_def s1_eq running_thread_def)
    show ?thesis using kc unfolding kernel_caller_def lock_free_def outside_def list_empty_def f .
  qed
  have n6: "nblk 6 = 3" "bsize 6 = 1024" by (simp_all add: nblk_def bsize_def)
  have mem: "(blk ?t r 6 k, 1024) \<in> chunks ?t ?A G F" if "k < 3" for k
  proof -
    have "?A r = Some 6 \<and> k < nblk 6 \<and> blk ?t r 6 k \<notin> set (F 6)" using none that n6 by simp
    then have "(blk ?t r 6 k, bsize 6) \<in> chunks ?t ?A G F" unfolding chunks_def by blast
    then show ?thesis by (simp only: n6)
  qed
  have "blk ?t r 6 0 \<noteq> blk ?t r 6 1" using blk_eq(2) [OF st(1) rt' rt', of 0 6 1 6] n6 by auto
  moreover have "heap_state ?t (chunks ?t ?A G F)"
    unfolding heap_state_def using kct pt cnt_t by (auto simp: heap_inv_def)
  ultimately show ?thesis using mem [of 0] mem [of 1] by fastforce
qed

lemma chunks_apart:
  assumes "heap_state s C" and "(b, n) \<in> C" and "(b', n') \<in> C" and "(b, n) \<noteq> (b', n')"
  shows "{unat b..<unat b + n} \<inter> {unat b'..<unat b' + n'} = {}"
proof -
  from assms(1) obtain A G F where inv: "heap_inv s A G F" and C: "C = chunks s A G F"
    by (auto simp: heap_state_def)
  have p: "static_ok s" "arenas_ok s A" "larges_ok s A G" using inv by (simp_all add: heap_inv_def pages_inv_def)
  have lg: "0 < k \<and> {g..<g + k} \<subseteq> taken_pages s \<and> (\<forall>q\<in>{g..<g + k}. A q = None) \<and>
      unat (heap_page s g + 12) = heap_start s + 4096 * g + 12" if "G g = Some k" for g k
  proof -
    from conjunct1 [OF p(3) [unfolded larges_ok_def], rule_format, OF that]
    have h: "0 < k" "{g..<g + k} \<subseteq> taken_pages s" "\<forall>q\<in>{g..<g + k}. A q = None" by blast+
    moreover have "g \<in> taken_pages s" using h(1,2) by auto
    from page_nat(1) [OF p(1) this, of 12] have "unat (heap_page s g + 12) = heap_start s + 4096 * g + 12" by simp
    ultimately show ?thesis by blast
  qed
  have sm: "j \<in> taken_pages s \<and> unat (blk s j i k) = heap_start s + 4096 * j + 12 + k * bsize i \<and> k * bsize i + bsize i \<le> 4084"
    if "A j = Some i" "k < nblk i" for j i k
    using known_taken [OF p(2,3), of j] blk_unat(1) [OF p(1) _ that(2)] blk_fits [OF that(2)] that(1) by blast
  have mixed: "{unat (blk s j i k)..<unat (blk s j i k) + bsize i} \<inter> {unat (heap_page s g + 12)..<unat (heap_page s g + 12) + (4096 * m - 12)} = {}"
    if h: "A j = Some i" "k < nblk i" "G g = Some m" for j i k g m
  proof -
    have "j \<notin> {g..<g + m}" using lg [OF h(3)] h(1) by auto
    then have "j < g \<or> g + m \<le> j" by auto
    then show ?thesis using sm [OF h(1,2)] lg [OF h(3)] by (auto simp: disjoint_iff)
  qed
  from assms(2) C consider (small) j i k where "(b, n) = (blk s j i k, bsize i)" "A j = Some i" "k < nblk i"
    | (large) g m where "(b, n) = (heap_page s g + 12, 4096 * m - 12)" "G g = Some m" unfolding chunks_def by blast
  then show ?thesis
  proof cases
    case s1: small
    from assms(3) C consider (small) j' i' k' where "(b', n') = (blk s j' i' k', bsize i')" "A j' = Some i'" "k' < nblk i'"
      | (large) g m where "(b', n') = (heap_page s g + 12, 4096 * m - 12)" "G g = Some m" unfolding chunks_def by blast
    then show ?thesis
    proof cases
      case s2: small
      note a = sm [OF s1(2,3)] and b = sm [OF s2(2,3)]
      show ?thesis
      proof (cases "j = j'")
        case True
        then have ii: "i' = i" using s1(2) s2(2) by simp
        have "k \<noteq> k'" using assms(4) s1(1) s2(1) True ii by auto
        from mult_apart [OF this, of "bsize i"] show ?thesis using a b s1(1) s2(1) True ii by (auto simp: disjoint_iff)
      next
        case False
        then have "j < j' \<or> j' < j" by linarith
        then show ?thesis using a b s1(1) s2(1) by (auto simp: disjoint_iff)
      qed
    next
      case large
      then show ?thesis using mixed [OF s1(2,3) large(2)] s1(1) by simp
    qed
  next
    case l1: large
    from assms(3) C consider (small) j' i' k' where "(b', n') = (blk s j' i' k', bsize i')" "A j' = Some i'" "k' < nblk i'"
      | (large) g' m' where "(b', n') = (heap_page s g' + 12, 4096 * m' - 12)" "G g' = Some m'" unfolding chunks_def by blast
    then show ?thesis
    proof cases
      case small
      then show ?thesis using mixed [OF small(2,3) l1(2)] l1(1) by auto
    next
      case l2: large
      have ne: "g \<noteq> g'" using assms(4) l1 l2 by auto
      have "{g..<g + m} \<inter> {g'..<g' + m'} = {}"
        by (rule conjunct2 [OF p(3) [unfolded larges_ok_def], rule_format, OF l1(2) l2(2) ne])
      then have "g + m \<le> g' \<or> g' + m' \<le> g" using lg [OF l1(2)] lg [OF l2(2)] by (auto simp: disjoint_iff)
      then show ?thesis using lg [OF l1(2)] lg [OF l2(2)] l1(1) l2(1) by (auto simp: disjoint_iff)
    qed
  qed
qed

lemma sys_malloc_ok:
  assumes "heap_state s C" and "0 < sz" and "sz < pool_size (kernel_pool s)"
    and "c = (if unat sz \<le> 1024 then 1 else (unat sz + 12 + 4095) div 4096)" and "c < 3840"
    and "r0 + c \<le> nbits (kvb s)" and "free_run (bytes s) (kvb s) r0 c" and "c \<le> card (free_frames s)"
  shows "\<exists>b n s'. sys_malloc sz s = Inr (b, s') \<and> b \<noteq> NULL \<and> unat sz \<le> n \<and> (b, n) \<notin> C \<and>
    heap_state s' (insert (b, n) C)"
proof -
  from assms(1) obtain A G F where kc: "kernel_caller s" and inv: "heap_inv s A G F" and C: "C = chunks s A G F"
    by (auto simp: heap_state_def)
  let ?s = "set_lock (pool_lock (kernel_pool s)) (running_thread s) 0 1 s"
  note lr = locked_run [OF kc] and sh = same_heap_eq [OF locked_run(2) [OF kc]]
  have inv': "heap_inv ?s A G F" using inv same_heap_inv(1) [OF lr(2)] by simp
  have room: "free_run (bytes ?s) (kvb ?s) r0 c" "free_frames ?s = free_frames s" "kvb ?s = kvb s"
    using assms(7) by (simp_all add: sh) (simp_all add: set_lock_def)
  have fin: "finite (free_frames s)" by (simp add: free_frames_def)
  have zpos: "0 < unat sz" using assms(2) by (simp add: unat_gt_0)
  have kp: "pool_of PF_KERNEL u = kernel_pool u" for u :: "'a arenas_scheme" by (simp add: pool_of_def)
  have kd: "k_block_descs s = k_block_descs ?s" by (simp add: set_lock_def)
  have pg: "pgdir (task s (running_thread s)) = NULL" using kc by (simp add: kernel_caller_def)
  have "\<exists>b n t A' G' F'. (if sz > 1024 then malloc_large PF_KERNEL sz ?s else malloc_small PF_KERNEL (k_block_descs ?s) sz ?s) =
      bindr (release_now (pool_lock (kernel_pool t)) t) (\<lambda>u. Inr (b, u)) \<and> heap_inv t A' G' F' \<and> rest_kept ?s t \<and>
      unat sz \<le> n \<and> b \<noteq> NULL \<and> chunks t A' G' F' = insert (b, n) (chunks ?s A G F) \<and> (b, n) \<notin> chunks ?s A G F"
  proof (cases "unat sz \<le> 1024")
    case True
    then have small: "\<not> 1024 < sz" by (simp add: word_less_nat_alt)
    have c: "c = 1" using assms(4) True by simp
    have "r0 < nbits (kvb ?s)" "free_run (bytes ?s) (kvb ?s) r0 1" "free_frames ?s \<noteq> {}"
      using assms(6,8) room c fin by (auto simp: card_gt_0_iff)
    from malloc_small_ok [OF inv' zpos True this] show ?thesis unfolding if_not_P [OF small] by blast
  next
    case False
    then have large: "1024 < sz" "1024 < unat sz" by (simp_all add: word_less_nat_alt)
    have c: "c = (unat sz + 4107) div 4096" using assms(4) False by simp
    then have "unat sz + 4107 < 4294967296" using assms(5) by linarith
    moreover have "r0 + c \<le> nbits (kvb ?s)" "c \<le> card (free_frames ?s)" using assms(6,8) room by simp_all
    ultimately obtain b n t G' where
      "malloc_large PF_KERNEL sz ?s = bindr (release_now (pool_lock (kernel_pool t)) t) (\<lambda>u. Inr (b, u)) \<and>
      heap_inv t A G' F \<and> rest_kept ?s t \<and> unat sz \<le> n \<and> b \<noteq> NULL \<and>
      chunks t A G' F = insert (b, n) (chunks ?s A G F) \<and> (b, n) \<notin> chunks ?s A G F"
      using malloc_large_ok [OF inv' large(2) _ c assms(5) _ room(1)] by blast
    then show ?thesis unfolding if_P [OF large(1)] by blast
  qed
  then obtain b n t A' G' F' where
    run: "(if sz > 1024 then malloc_large PF_KERNEL sz ?s else malloc_small PF_KERNEL (k_block_descs ?s) sz ?s) =
      bindr (release_now (pool_lock (kernel_pool t)) t) (\<lambda>u. Inr (b, u))"
    and t: "heap_inv t A' G' F'" "rest_kept ?s t" "unat sz \<le> n" "b \<noteq> NULL"
      "chunks t A' G' F' = insert (b, n) (chunks ?s A G F)" "(b, n) \<notin> chunks ?s A G F" by blast
  from lr(3) [OF t(2)] obtain u where u: "release_now (pool_lock (kernel_pool t)) t = Inr u" "same_heap t u" "kernel_caller u" by blast
  have "sys_malloc sz s = Inr (b, u)"
    unfolding sys_malloc_def Let_def pg simp_thms if_True kp lr(1) bindr_Inr kd run u(1)
    using assms(2,3) by simp
  moreover have "chunks ?s A G F = C" using C same_heap_chunks [OF lr(2)] by simp
  moreover have "heap_state u (insert (b, n) C)"
    unfolding heap_state_def using u(3) t(1,5) same_heap_inv(1) [OF u(2)] same_heap_chunks [OF u(2)] calculation(2) by metis
  ultimately show ?thesis using t(3,4,6) by metis
qed

lemma sys_free_ok:
  assumes "heap_state s C" and "(b, n) \<in> C"
  shows "\<exists>s'. sys_free b s = Inr s' \<and> heap_state s' (C - {(b, n)})"
proof -
  from assms(1) obtain A G F where kc: "kernel_caller s" and inv: "heap_inv s A G F" and C: "C = chunks s A G F"
    by (auto simp: heap_state_def)
  let ?s = "set_lock (pool_lock (kernel_pool s)) (running_thread s) 0 1 s"
  note lr = locked_run [OF kc] and sh = same_heap_eq [OF locked_run(2) [OF kc]]
  have inv': "heap_inv ?s A G F" using inv same_heap_inv(1) [OF lr(2)] by simp
  have p: "static_ok s" "arenas_ok s A" "larges_ok s A G" using inv by (simp_all add: heap_inv_def pages_inv_def)
  have kp: "pool_of PF_KERNEL u = kernel_pool u" for u :: "'a arenas_scheme" by (simp add: pool_of_def)
  have pg: "pgdir (task s (running_thread s)) = NULL" using kc by (simp add: kernel_caller_def)
  have "\<exists>t A' G' F'. free_body b ?s = Inr t \<and> heap_inv t A' G' F' \<and> rest_kept ?s t \<and>
      chunks t A' G' F' = chunks ?s A G F - {(b, n)} \<and> heap_start s \<le> unat b \<and>
      (arena_large ?s (block2arena b) = 0 \<or> arena_large ?s (block2arena b) = 1)"
  proof -
    from assms(2) C consider (small) j i k where "(b, n) = (blk s j i k, bsize i)" "A j = Some i" "k < nblk i" "blk s j i k \<notin> set (F i)"
      | (large) g m where "(b, n) = (heap_page s g + 12, 4096 * m - 12)" "G g = Some m" unfolding chunks_def by blast
    then show ?thesis
    proof cases
      case small
      have jt: "j \<in> taken_pages s" using known_taken [OF p(2,3), of j] small(2) by simp
      have "arena_large ?s (block2arena b) = 0"
        using blk_unat(2) [OF p(1) jt small(3)] small(1,2) p(2)
        by (simp add: block2arena_def frame_of_def arenas_ok_def set_lock_def)
      moreover have "heap_start s \<le> unat b" using blk_unat(1) [OF p(1) jt small(3)] small(1) by simp
      moreover have "\<exists>t A' F'. free_body b ?s = Inr t \<and> heap_inv t A' G F' \<and> rest_kept ?s t \<and>
          chunks t A' G F' = chunks ?s A G F - {(b, bsize i)}"
        by (rule free_small_ok [OF inv' small(2,3)]) (use small(1,4) in \<open>simp_all add: sh\<close>)
      ultimately show ?thesis using small(1) by blast
    next
      case large
      have gt: "g \<in> taken_pages s" using known_taken [OF p(2,3), of g] large(2) by simp
      have b: "b = heap_page s g + 12" "n = 4096 * m - 12" using large(1) by simp_all
      have "arena_large s (heap_page s g) = 1"
        using conjunct1 [OF p(3) [unfolded larges_ok_def], rule_format, OF large(2)] by blast
      then have "arena_large ?s (block2arena b) = 1" unfolding b(1) header_frame [OF p(1) gt] by (simp add: set_lock_def)
      moreover have "heap_start s \<le> unat b" unfolding b(1) using page_nat(1) [OF p(1) gt, of 12] by simp
      moreover from free_large_ok [OF inv' large(2), unfolded sh]
      have "\<exists>t. free_body b ?s = Inr t \<and> heap_inv t A (G(g := None)) F \<and> rest_kept ?s t \<and>
          chunks t A (G(g := None)) F = chunks ?s A G F - {(b, n)}" unfolding b .
      ultimately show ?thesis by blast
    qed
  qed
  then obtain t A' G' F' where t: "free_body b ?s = Inr t" "heap_inv t A' G' F'" "rest_kept ?s t"
      "chunks t A' G' F' = chunks ?s A G F - {(b, n)}" and low: "heap_start s \<le> unat b"
      and lg: "arena_large ?s (block2arena b) = 0 \<or> arena_large ?s (block2arena b) = 1" by blast
  from lr(3) [OF t(3)] obtain u where u: "release_now (pool_lock (kernel_pool t)) t = Inr u" "same_heap t u" "kernel_caller u" by blast
  have "0xc0100000 \<le> unat b" using low kc by (simp add: kernel_caller_def)
  then have b: "b \<noteq> NULL" "0xc0100000 \<le> b" by (auto simp: word_le_nat_alt)
  have "sys_free b s = Inr u"
  proof -
    have "sys_free b s = bindr (free_body b ?s) (\<lambda>s. release_now (pool_lock (kernel_pool s)) s)"
      unfolding sys_free_def free_body_def Let_def pg simp_thms if_True kp lr(1) bindr_Inr
      using b lg by simp
    then show ?thesis by (simp add: t(1) u(1))
  qed
  moreover have "heap_state u (C - {(b, n)})"
  proof -
    have "chunks ?s A G F = C" using C same_heap_chunks [OF lr(2)] by simp
    then show ?thesis
      unfolding heap_state_def using u(3) t(2,4) same_heap_inv(1) [OF u(2)] same_heap_chunks [OF u(2)] by metis
  qed
  ultimately show ?thesis by blast
qed

section \<open>Requests in sequence\<close>

text \<open>The kernel heap has the pages and the frames that a request for \<open>sz\<close> bytes takes.\<close>

definition room_for :: "u32 \<Rightarrow> 'a arenas_scheme \<Rightarrow> bool" where
  "room_for sz s \<longleftrightarrow> 0 < sz \<and> sz < pool_size (kernel_pool s) \<and>
     (let c = (if unat sz \<le> 1024 then 1 else (unat sz + 12 + 4095) div 4096)
      in c < 3840 \<and> c \<le> card (free_frames s) \<and> (\<exists>r0. r0 + c \<le> nbits (kvb s) \<and> free_run (bytes s) (kvb s) r0 c))"

text \<open>The states that requests and releases lead to, with the blocks that are in use: their addresses and the sizes
  that were asked for.\<close>

inductive in_use :: "'a arenas_scheme \<Rightarrow> (addr \<times> nat) set \<Rightarrow> 'a arenas_scheme \<Rightarrow> (addr \<times> nat) set \<Rightarrow> bool" for s0 C0 where
  in_use_start: "in_use s0 C0 s0 C0"
| in_use_malloc: "in_use s0 C0 s L \<Longrightarrow> room_for sz s \<Longrightarrow> sys_malloc sz s = Inr (b, s') \<Longrightarrow>
    in_use s0 C0 s' (insert (b, unat sz) L)"
| in_use_free: "in_use s0 C0 s L \<Longrightarrow> (b, n) \<in> L \<Longrightarrow> sys_free b s = Inr s' \<Longrightarrow> in_use s0 C0 s' (L - {(b, n)})"

lemma chunk_size_pos: "heap_state s C \<Longrightarrow> (b, n) \<in> C \<Longrightarrow> 0 < n"
  by (fastforce simp: heap_state_def chunks_def heap_inv_def pages_inv_def larges_ok_def)

text \<open>The blocks in use lie in chunks that are handed out, each in its own.\<close>

definition covered :: "(addr \<times> nat) set \<Rightarrow> (addr \<times> nat) set \<Rightarrow> bool" where
  "covered L C \<longleftrightarrow> (\<forall>(b, n)\<in>L. 0 < n \<and> (\<exists>m\<ge>n. (b, m) \<in> C)) \<and> inj_on fst L"

lemma chunk_unique: "heap_state s C \<Longrightarrow> (b, n) \<in> C \<Longrightarrow> (b, m) \<in> C \<Longrightarrow> n = m"
  using chunks_apart [of s C b n b m] chunk_size_pos [of s C b] by fastforce

lemma coveredD: "covered L C \<Longrightarrow> (b, n) \<in> L \<Longrightarrow> 0 < n \<and> (\<exists>m\<ge>n. (b, m) \<in> C)"
  by (auto simp: covered_def)

lemma covered_inj: "covered L C \<Longrightarrow> (b, n) \<in> L \<Longrightarrow> (b, m) \<in> L \<Longrightarrow> n = m"
proof -
  assume "covered L C" and l: "(b, n) \<in> L" "(b, m) \<in> L"
  then have "inj_on fst L" by (simp add: covered_def)
  from inj_onD [OF this _ l] show "n = m" by simp
qed

lemma covered_malloc:
  assumes "covered L C" and "heap_state s' (insert (b, m) C)" and "(b, m) \<notin> C" and "0 < n" and "n \<le> m"
  shows "covered (insert (b, n) L) (insert (b, m) C)"
proof -
  have "(b, k) \<notin> C" for k using chunk_unique [OF assms(2), of b m k] assms(3) by auto
  then have "b \<notin> fst ` L" using assms(1) by (fastforce simp: covered_def)
  then show ?thesis using assms(1,4,5) unfolding covered_def by (auto simp: inj_on_insert)
qed

lemma covered_free:
  assumes "covered L C" and "heap_state s C" and "(b, n) \<in> L"
  obtains m where "(b, m) \<in> C" and "covered (L - {(b, n)}) (C - {(b, m)})"
proof -
  obtain m where m: "(b, m) \<in> C" using assms(1,3) by (auto simp: covered_def)
  have "b' \<noteq> b" if "(b', n') \<in> L - {(b, n)}" for b' n'
    using covered_inj [OF assms(1,3), of n'] that by auto
  note other = this
  have "covered (L - {(b, n)}) (C - {(b, m)})" unfolding covered_def
  proof (intro conjI ballI)
    show "case x of (c, k) \<Rightarrow> 0 < k \<and> (\<exists>l\<ge>k. (c, l) \<in> C - {(b, m)})" if "x \<in> L - {(b, n)}" for x
    proof (cases x)
      case (Pair c k)
      then show ?thesis using coveredD [OF assms(1), of c k] other [of c k] that by auto
    qed
    show "inj_on fst (L - {(b, n)})" using assms(1) inj_on_subset unfolding covered_def by blast
  qed
  with m show ?thesis by (rule that)
qed

lemma malloc_room:
  assumes "heap_state s C" and "room_for sz s"
  shows "\<exists>b n s'. sys_malloc sz s = Inr (b, s') \<and> unat sz \<le> n \<and> (b, n) \<notin> C \<and> heap_state s' (insert (b, n) C)"
proof -
  define c where "c = (if unat sz \<le> 1024 then 1 else (unat sz + 12 + 4095) div 4096)"
  have r: "0 < sz" "sz < pool_size (kernel_pool s)" "c < 3840" "c \<le> card (free_frames s)"
    and "\<exists>r0. r0 + c \<le> nbits (kvb s) \<and> free_run (bytes s) (kvb s) r0 c"
    using assms(2) unfolding room_for_def Let_def c_def by blast+
  then obtain r0 where "r0 + c \<le> nbits (kvb s)" "free_run (bytes s) (kvb s) r0 c" by blast
  from sys_malloc_ok [OF assms(1) r(1,2) c_def r(3) this r(4)] show ?thesis by blast
qed

lemma in_use_covered:
  assumes "in_use s0 C0 s L" and "heap_state s0 C0"
  shows "\<exists>C. heap_state s C \<and> covered L C"
  using assms(1)
proof induction
  case in_use_start
  have "inj_on fst C0" using chunk_unique [OF assms(2)] by (auto simp: inj_on_def)
  then show ?case using assms(2) chunk_size_pos [OF assms(2)] by (auto simp: covered_def)
next
  case (in_use_malloc s L sz b s')
  then obtain C n where C: "heap_state s C" "covered L C" and n: "unat sz \<le> n" "(b, n) \<notin> C" "heap_state s' (insert (b, n) C)"
    using malloc_room by fastforce
  have "0 < unat sz" using in_use_malloc.hyps(2) by (auto simp: room_for_def unat_gt_0)
  then show ?case using covered_malloc [OF C(2) n(3,2) _ n(1)] n(3) by blast
next
  case (in_use_free s L b n s')
  then obtain C where C: "heap_state s C" "covered L C" by blast
  obtain m where m: "(b, m) \<in> C" "covered (L - {(b, n)}) (C - {(b, m)})"
    by (rule covered_free [OF C(2,1) in_use_free.hyps(2)])
  then show ?case using sys_free_ok [OF C(1) m(1)] in_use_free.hyps(3) by auto
qed

section \<open>Properties\<close>

text \<open>\<open>block_desc_init\<close> sets up the seven descriptors: block sizes 16 to 1024, as many blocks as fit in
  a page behind the arena header, and empty free lists; other nodes are left alone.\<close>

theorem block_desc_init_sizes:
  assumes "unat base + 168 \<le> 4294967296" and "i < 7"
  shows "block_size (block_desc_init base s) (desc_at base (of_nat i)) = of_nat (16 * 2 ^ i) \<and>
    blocks_per_arena (block_desc_init base s) (desc_at base (of_nat i)) = of_nat ((4096 - 12) div (16 * 2 ^ i)) \<and>
    dlist (block_desc_init base s) (free_list (desc_at base (of_nat i))) []"
proof -
  from block_desc_init_ok [OF assms(1), of s] obtain p q x y where
    t: "block_desc_init base s = s\<lparr>prev := p, nxt := q, block_size := x, blocks_per_arena := y\<rparr>"
    and d: "x (desc_addr base i) = of_nat (bsize i)" "y (desc_addr base i) = of_nat (nblk i)"
      "dlist (s\<lparr>prev := p, nxt := q\<rparr>) (free_list (desc_addr base i)) []" using assms(2) by blast
  have "dlist (block_desc_init base s) l [] = dlist (s\<lparr>prev := p, nxt := q\<rparr>) l []" for l
    by (rule dlist_nodes) (simp_all add: t)
  with d show ?thesis by (simp add: t bsize_def nblk_def)
qed

theorem block_desc_init_sizes_witness:
  "blocks_per_arena (block_desc_init 0xc0020000 tiny_raw) (desc_at 0xc0020000 6) = 3"
proof -
  have "(6 :: nat) < 7" "unat (0xc0020000 :: u32) + 168 \<le> 4294967296" by simp_all
  from block_desc_init_sizes [OF this(2,1), of tiny_raw] show ?thesis by simp
qed

text \<open>C30 \<open>sys_malloc\<close> for a kernel thread: in a consistent heap with enough free pages and frames it returns
  a chunk at least as large as the request that was not handed out before; the chunks handed out are
  then the old ones and this one, and the heap is consistent again with its lock free.\<close>

theorem sys_malloc_hands_out:
  assumes "heap_state s C" and "0 < sz" and "sz < pool_size (kernel_pool s)"
    and "c = (if unat sz \<le> 1024 then 1 else (unat sz + 12 + 4095) div 4096)" and "c < 3840"
    and "r0 + c \<le> nbits (kvb s)" and "free_run (bytes s) (kvb s) r0 c" and "c \<le> card (free_frames s)"
  shows "\<exists>b n s'. sys_malloc sz s = Inr (b, s') \<and> b \<noteq> NULL \<and> unat sz \<le> n \<and> (b, n) \<notin> C \<and>
    heap_state s' (insert (b, n) C)"
  using assms by (rule sys_malloc_ok)

theorem sys_malloc_hands_out_witness:
  "(\<exists>b n s'. sys_malloc 100 tiny_arenas = Inr (b, s') \<and> 100 \<le> n \<and> heap_state s' {(b, n)}) \<and>
   (\<exists>b n s'. sys_malloc 5000 tiny_arenas = Inr (b, s') \<and> 5000 \<le> n \<and> heap_state s' {(b, n)})"
proof
  have h: "(0 :: u32) < 100" "(100 :: u32) < pool_size (kernel_pool tiny_arenas)" "(0 :: u32) < 5000"
    "(5000 :: u32) < pool_size (kernel_pool tiny_arenas)" by (simp_all add: tiny_arenas_room)
  show "\<exists>b n s'. sys_malloc 100 tiny_arenas = Inr (b, s') \<and> 100 \<le> n \<and> heap_state s' {(b, n)}"
    using sys_malloc_hands_out [OF tiny_arenas_state h(1,2), of 1 0] tiny_arenas_room by auto
  show "\<exists>b n s'. sys_malloc 5000 tiny_arenas = Inr (b, s') \<and> 5000 \<le> n \<and> heap_state s' {(b, n)}"
    using sys_malloc_hands_out [OF tiny_arenas_state h(3,4), of 2 0] tiny_arenas_room by auto
qed

text \<open>C32 Over any sequence of requests and releases from a consistent heap, each request made while the heap has room
  for it: the blocks in use never overlap, on the bytes that were asked for; and the next request for which there
  is room, and the release of any block in use, return.\<close>

theorem chunks_do_not_overlap:
  assumes "heap_state s0 C0" and "in_use s0 C0 s L"
  shows "(\<forall>(b, n)\<in>L. \<forall>(b', n')\<in>L. (b, n) \<noteq> (b', n') \<longrightarrow> {unat b..<unat b + n} \<inter> {unat b'..<unat b' + n'} = {}) \<and>
    (\<forall>sz. room_for sz s \<longrightarrow> (\<exists>b s'. sys_malloc sz s = Inr (b, s') \<and> in_use s0 C0 s' (insert (b, unat sz) L))) \<and>
    (\<forall>(b, n)\<in>L. \<exists>s'. sys_free b s = Inr s' \<and> in_use s0 C0 s' (L - {(b, n)}))"
proof -
  obtain C where C: "heap_state s C" "covered L C" using in_use_covered [OF assms(2,1)] by blast
  have apart: "{unat b..<unat b + n} \<inter> {unat b'..<unat b' + n'} = {}" if h: "(b, n) \<in> L" "(b', n') \<in> L" "(b, n) \<noteq> (b', n')" for b n b' n'
  proof -
    obtain m m' where m: "(b, m) \<in> C" "n \<le> m" "(b', m') \<in> C" "n' \<le> m'" using coveredD [OF C(2) h(1)] coveredD [OF C(2) h(2)] by blast
    have "b \<noteq> b'" using covered_inj [OF C(2) h(1), of n'] h(2,3) by blast
    then have "{unat b..<unat b + m} \<inter> {unat b'..<unat b' + m'} = {}" using chunks_apart [OF C(1) m(1,3)] by simp
    then show ?thesis using m(2,4) by (auto simp: disjoint_iff)
  qed
  have "\<exists>b s'. sys_malloc sz s = Inr (b, s') \<and> in_use s0 C0 s' (insert (b, unat sz) L)" if "room_for sz s" for sz
    using malloc_room [OF C(1) that] in_use_malloc [OF assms(2) that] by blast
  moreover have "\<exists>s'. sys_free b s = Inr s' \<and> in_use s0 C0 s' (L - {(b, n)})" if "(b, n) \<in> L" for b n
    using covered_free [OF C(2,1) that] sys_free_ok [OF C(1)] in_use_free [OF assms(2) that] by metis
  ultimately show ?thesis using apart by blast
qed

theorem chunks_do_not_overlap_witness:
  "\<exists>(s :: arenas) C b b' s'. heap_state s C \<and> (b, 1024) \<in> C \<and> (b', 1024) \<in> C \<and> b \<noteq> b' \<and>
    {unat b..<unat b + 1024} \<inter> {unat b'..<unat b' + 1024} = {} \<and> sys_free b s = Inr s' \<and> in_use s C s' (C - {(b, 1024)})"
proof -
  obtain s :: arenas and C b b' where h: "heap_state s C" "(b, 1024) \<in> C" "(b', 1024) \<in> C" "b \<noteq> b'"
    using busy_heap by blast
  from chunks_do_not_overlap [OF h(1) in_use_start] h show ?thesis by fastforce
qed

text \<open>C31 \<open>sys_free\<close> for a kernel thread takes back any chunk that is handed out: it returns, exactly this
  chunk is gone from the chunks handed out, and the heap is consistent with its lock free.\<close>

theorem sys_free_takes_back:
  assumes "heap_state s C" and "(b, n) \<in> C"
  shows "\<exists>s'. sys_free b s = Inr s' \<and> heap_state s' (C - {(b, n)})"
  using assms by (rule sys_free_ok)

theorem sys_free_takes_back_witness:
  "\<exists>(s :: arenas) C b s'. heap_state s C \<and> (b, 1024) \<in> C \<and> sys_free b s = Inr s' \<and> heap_state s' (C - {(b, 1024)})"
proof -
  obtain s :: arenas and C b where h: "heap_state s C" "(b, 1024) \<in> C" using busy_heap by blast
  from sys_free_takes_back [OF h] h show ?thesis by blast
qed

text \<open>A request of no bytes, or of as many bytes as the pool has or more, is refused: \<open>sys_malloc\<close>
  returns \<open>NULL\<close> and changes nothing, in any state.\<close>

theorem sys_malloc_refuses:
  assumes "sz = 0 \<or> pool_size (pool_of (if pgdir (task s (running_thread s)) = NULL then PF_KERNEL else PF_USER) s) \<le> sz"
  shows "sys_malloc sz s = Inr (NULL, s)"
  using assms by (auto simp: sys_malloc_def Let_def not_less)

theorem sys_malloc_refuses_witness: "sys_malloc 0x8000 tiny_arenas = Inr (NULL, tiny_arenas)"
proof -
  have "pgdir (task tiny_arenas (running_thread tiny_arenas)) = NULL"
    using tiny_arenas_state by (simp add: heap_state_def kernel_caller_def)
  then show ?thesis by (intro sys_malloc_refuses) (simp add: pool_of_def tiny_arenas_room)
qed

end
