(* ===== verification/Stdio.thy ===== *)
theory Stdio
  imports CString
begin

text \<open>
  \<^verbatim>\<open>lib/stdio.c\<close>: printing numbers and formatted strings into memory. The argument list of a variadic
  call is the function \<open>args\<close> of the words that follow the format on the stack, \<open>ap\<close> the number of the
  next one.
\<close>

section \<open>The code\<close>

text \<open>\<open>itoa\<close> recurs on the quotient; with the base 1 it never ends, and with the base 0 the processor faults.\<close>

partial_function (option) itoa :: "mem \<Rightarrow> u32 \<Rightarrow> addr \<Rightarrow> u8 \<Rightarrow> (mem \<times> addr) res option" where
  "itoa m val buf_ptr base =
     (if base = 0 then Some (Inl DivideError)
      else let r = val mod ucast base; i = val div ucast base;
               c = (if r < 10 then ucast (r + 0x30) else ucast (r - 10 + 0x41))
           in if i \<noteq> 0 then
                Option.bind (itoa m i buf_ptr base) (\<lambda>q. Some (bindr q (\<lambda>(m, buf_ptr). Inr (m(buf_ptr := c), buf_ptr + 1))))
              else Some (Inr (m(buf_ptr := c), buf_ptr + 1)))"

text \<open>One directive: the character after the percent sign, with the rest of the state.\<close>

definition directive :: "mem \<Rightarrow> addr \<Rightarrow> u8 \<Rightarrow> u32 \<Rightarrow> (mem \<times> addr) res" where
  "directive m buf_ptr c arg =
     (if c = 0x78 then settled (itoa m arg buf_ptr 16)
      else if c = 0x73 then
        bindr (strcpy m buf_ptr arg) (\<lambda>(_, m).
        bindr (strlen m arg) (\<lambda>n. Inr (m, buf_ptr + n)))
      else if c = 0x63 then Inr (m(buf_ptr := ucast arg), buf_ptr + 1)
      else if sint arg < 0 then settled (itoa (m(buf_ptr := 0x2d)) (0 - arg) (buf_ptr + 1) 10)
      else settled (itoa m arg buf_ptr 10))"

partial_function (option) vsprintf_loop ::
  "mem \<Rightarrow> addr \<Rightarrow> addr \<Rightarrow> u8 \<Rightarrow> (nat \<Rightarrow> u32) \<Rightarrow> nat \<Rightarrow> mem res option" where
  "vsprintf_loop m buf_ptr index_ptr index_char args ap =
     (if index_char = 0 then Some (Inr m)
      else if index_char \<noteq> 0x25 then
        let m = m(buf_ptr := index_char)
        in vsprintf_loop m (buf_ptr + 1) (index_ptr + 1) (m (index_ptr + 1)) args ap
      else let index_ptr = index_ptr + 1; index_char = m index_ptr
           in if index_char \<in> {0x78, 0x73, 0x63, 0x64} then
                (case directive m buf_ptr index_char (args ap) of Inl e \<Rightarrow> Some (Inl e)
                 | Inr (m, buf_ptr) \<Rightarrow>
                     vsprintf_loop m buf_ptr (index_ptr + 1) (m (index_ptr + 1)) args (Suc ap))
              else vsprintf_loop m buf_ptr index_ptr index_char args ap)"

definition vsprintf :: "mem \<Rightarrow> addr \<Rightarrow> addr \<Rightarrow> (nat \<Rightarrow> u32) \<Rightarrow> (u32 \<times> mem) res" where
  "vsprintf m str format args =
     (case vsprintf_loop m str format (m format) args 0 of None \<Rightarrow> Inl Hang
      | Some r \<Rightarrow> bindr r (\<lambda>m. bindr (strlen m str) (\<lambda>n. Inr (n, m))))"

definition sprintf :: "mem \<Rightarrow> addr \<Rightarrow> addr \<Rightarrow> (nat \<Rightarrow> u32) \<Rightarrow> (u32 \<times> mem) res" where
  "sprintf m buf format args = vsprintf m buf format args"

text \<open>\<open>printf\<close> clears a buffer on its stack, fills it, and hands it to \<open>write\<close>: here the bytes written.\<close>

definition printf :: "mem \<Rightarrow> addr \<Rightarrow> addr \<Rightarrow> (nat \<Rightarrow> u32) \<Rightarrow> (addr \<times> u32 \<times> mem) res" where
  "printf m buf format args =
     (let m = memset_loop m buf 0 1024
      in bindr (vsprintf m buf format args) (\<lambda>(_, m).
         bindr (strlen m buf) (\<lambda>n. Inr (buf, n, m))))"

section \<open>Digits\<close>

text \<open>The digits of a number, the most significant one first, and the number that digits stand for.\<close>

definition digit_char :: "nat \<Rightarrow> u8" where
  "digit_char d = (if d < 10 then of_nat (d + 48) else of_nat (d + 55))"

definition char_digit :: "u8 \<Rightarrow> nat" where
  "char_digit c = (if unat c < 58 then unat c - 48 else unat c - 55)"

function digits :: "nat \<Rightarrow> nat \<Rightarrow> nat list" where
  "digits b n = (if n div b = 0 \<or> b \<le> 1 then [n mod b] else digits b (n div b) @ [n mod b])"
  by pat_completeness auto
termination
proof (relation "measure snd")
  fix b n :: nat
  assume "\<not> (n div b = 0 \<or> b \<le> 1)"
  then have "n \<noteq> 0" "1 < b" by (auto intro: gr0I)
  then show "((b, n div b), b, n) \<in> measure snd" by simp
qed simp

declare digits.simps [simp del]

definition numeral_of :: "nat \<Rightarrow> nat \<Rightarrow> u8 list" where
  "numeral_of b n = map digit_char (digits b n)"

definition value_of :: "nat \<Rightarrow> u8 list \<Rightarrow> nat" where
  "value_of b cs = foldl (\<lambda>v c. v * b + char_digit c) 0 cs"

lemma unat_of_nat_u8: "n < 256 \<Longrightarrow> unat (of_nat n :: u8) = n"
  by (simp add: unat_of_nat)

lemma digit_char_inverse: "d < 36 \<Longrightarrow> char_digit (digit_char d) = d"
  using unat_of_nat_u8 [of "d + 48"] unat_of_nat_u8 [of "d + 55"]
  by (simp add: char_digit_def digit_char_def del: of_nat_add)

lemma value_of_numeral:
  assumes "1 < b" and "b \<le> 36"
  shows "value_of b (numeral_of b n) = n"
  using assms
proof (induction b n rule: digits.induct)
  case (1 b n)
  have m: "char_digit (digit_char (n mod b)) = n mod b"
    using 1(2,3) by (intro digit_char_inverse) (metis less_le_trans mod_less_divisor zero_less_one less_trans)
  show ?case
  proof (cases "n div b = 0")
    case True
    then have "numeral_of b n = [digit_char (n mod b)]" by (subst numeral_of_def, subst digits.simps) simp
    moreover have "n mod b = n" using True 1(2) by (simp add: div_eq_0_iff)
    ultimately show ?thesis using m by (simp add: value_of_def)
  next
    case False
    then have d: "numeral_of b n = numeral_of b (n div b) @ [digit_char (n mod b)]"
      using 1(2) by (subst numeral_of_def, subst digits.simps) (simp add: numeral_of_def)
    have "value_of b (numeral_of b (n div b)) = n div b" using False 1 by auto
    then show ?thesis using m by (simp add: d value_of_def)
  qed
qed

section \<open>What itoa writes\<close>

definition put_bytes :: "mem \<Rightarrow> addr \<Rightarrow> u8 list \<Rightarrow> mem" where
  "put_bytes m p xs = (\<lambda>a. if within a p (length xs) then xs ! unat (a - p) else m a)"

lemma put_bytes_Nil [simp]: "put_bytes m p [] = m"
  by (simp add: put_bytes_def)

lemma put_bytes_snoc:
  assumes "length xs < 4294967296"
  shows "(put_bytes m p xs)(p + of_nat (length xs) := c) = put_bytes m p (xs @ [c])"
proof
  fix a
  have "unat (a - p) = length xs \<longleftrightarrow> a = p + of_nat (length xs)"
  proof
    assume "unat (a - p) = length xs"
    then have "a - p = of_nat (length xs)" by (metis word_unat_eq_iff unat_of_nat_u32 assms)
    then show "a = p + of_nat (length xs)" by (metis add_diff_cancel_left' diff_add_cancel add.commute)
  next
    assume "a = p + of_nat (length xs)"
    then show "unat (a - p) = length xs" using assms by simp
  qed
  then show "((put_bytes m p xs)(p + of_nat (length xs) := c)) a = put_bytes m p (xs @ [c]) a"
    by (auto simp: put_bytes_def within_def nth_append)
qed

lemma length_digits_le: "1 < b \<Longrightarrow> n < 2 ^ k \<Longrightarrow> 0 < k \<Longrightarrow> length (digits b n) \<le> k"
proof (induction k arbitrary: n)
  case (Suc k)
  show ?case
  proof (cases "n div b = 0")
    case True
    then show ?thesis by (subst digits.simps) simp
  next
    case False
    have "n div b \<le> n div 2" using Suc.prems(1) by (intro div_le_mono2) auto
    also have "n div 2 < 2 ^ k" using Suc.prems(2) by (intro less_mult_imp_div_less) (simp add: mult.commute)
    finally have n: "n div b < 2 ^ k" .
    have "0 < k" using n False by (cases k) auto
    then have "length (digits b (n div b)) \<le> k" using Suc.IH Suc.prems(1) n by simp
    with False Suc.prems(1) show ?thesis by (subst digits.simps) simp
  qed
qed simp

lemma digit_char_u32:
  assumes "unat (r :: u32) < 256"
  shows "(if r < 10 then ucast (r + 0x30) else ucast (r - 10 + 0x41)) = digit_char (unat r)"
proof -
  have "unat (r + 48) = unat r + 48" "unat (r + 55) = unat r + 55"
    using assms by (simp_all add: unat_add_u32)
  moreover have "ucast (r + 48) = (of_nat (unat (r + 48)) :: u8)" "ucast (r + 55) = (of_nat (unat (r + 55)) :: u8)"
    by simp_all
  ultimately have "ucast (r + 48) = (of_nat (unat r + 48) :: u8)" "ucast (r + 55) = (of_nat (unat r + 55) :: u8)"
    by (simp_all only:)
  moreover have "r - 10 + 0x41 = r + 55" by simp
  moreover have "r < 10 \<longleftrightarrow> unat r < 10" by (simp add: word_less_nat_alt)
  ultimately show ?thesis by (simp only: digit_char_def)
qed

lemma itoa_writes:
  assumes b: "1 < unat base"
  shows "itoa m val p base = Some (Inr (put_bytes m p (numeral_of (unat base) (unat val)),
     p + of_nat (length (numeral_of (unat base) (unat val)))))"
proof (induction "unat val" arbitrary: val rule: less_induct)
  case less
  let ?b = "unat base"
  have b0: "base \<noteq> 0" using b by auto
  have ub: "unat (ucast base :: u32) = ?b" by (simp add: unsigned_ucast_eq take_bit_nat_eq_self_iff less_le_trans [OF unsigned_less])
  have r: "unat (val mod ucast base) = unat val mod ?b" "unat (val div ucast base) = unat val div ?b"
    by (simp_all add: unat_mod unat_div ub)
  then have "unat (val mod ucast base) < ?b" using b by simp
  then have "unat (val mod ucast base) < 256" using unsigned_less [of base, where ?'a = nat] by simp
  note c = digit_char_u32 [OF this, unfolded r]
  show ?case
  proof (cases "val div ucast base = 0")
    case True
    then have "unat val div ?b = 0" using r by simp
    then have "numeral_of ?b (unat val) = [digit_char (unat val mod ?b)]"
      by (subst numeral_of_def, subst digits.simps) simp
    with True c put_bytes_snoc [of "[]" m p] b0 show ?thesis by (subst itoa.simps) (simp add: Let_def)
  next
    case False
    then have nz: "unat val div ?b \<noteq> 0" using r by (metis unat_eq_0)
    then have d: "numeral_of ?b (unat val) = numeral_of ?b (unat val div ?b) @ [digit_char (unat val mod ?b)]"
      using b by (subst numeral_of_def, subst digits.simps) (simp add: numeral_of_def)
    have lt: "unat (val div ucast base) < unat val" using nz b r by (cases "unat val") auto
    have len: "length (numeral_of ?b (unat val div ?b)) < 4294967296"
    proof -
      have "length (digits ?b (unat val div ?b)) \<le> 32"
        using b unat_u32_bound [of val] by (intro length_digits_le) (auto intro: le_less_trans [OF div_le_dividend])
      then show ?thesis by (simp add: numeral_of_def)
    qed
    show ?thesis using False less [OF lt] c put_bytes_snoc [OF len, of m p] b0
      by (subst itoa.simps) (simp add: Let_def r d)
  qed
qed

section \<open>What a format stands for\<close>

text \<open>
  The text that a directive produces and the text of a whole format; \<open>strs\<close> gives the string at the
  address that is passed for \<open>%s\<close>. An unknown directive loses its percent sign and the character after
  it is treated as if it stood alone.
\<close>

definition directive_text :: "(addr \<Rightarrow> u8 list) \<Rightarrow> u8 \<Rightarrow> u32 \<Rightarrow> u8 list" where
  "directive_text strs c arg =
     (if c = 0x78 then numeral_of 16 (unat arg) else if c = 0x73 then strs arg
      else if c = 0x63 then [ucast arg]
      else if sint arg < 0 then 0x2d # numeral_of 10 (unat (0 - arg)) else numeral_of 10 (unat arg))"

fun render :: "(addr \<Rightarrow> u8 list) \<Rightarrow> (nat \<Rightarrow> u32) \<Rightarrow> u8 list \<Rightarrow> nat \<Rightarrow> u8 list" where
  "render strs args [] ap = []"
| "render strs args [c] ap = (if c \<noteq> 0x25 then [c] else [])"
| "render strs args (c # d # cs) ap =
     (if c \<noteq> 0x25 then c # render strs args (d # cs) ap
      else if d \<in> {0x78, 0x73, 0x63, 0x64} then directive_text strs d (args ap) @ render strs args cs (Suc ap)
      else render strs args (d # cs) ap)"

text \<open>The addresses that are passed for \<open>%s\<close>.\<close>

fun str_args :: "(nat \<Rightarrow> u32) \<Rightarrow> u8 list \<Rightarrow> nat \<Rightarrow> addr list" where
  "str_args args [] ap = []"
| "str_args args [c] ap = []"
| "str_args args (c # d # cs) ap =
     (if c \<noteq> 0x25 then str_args args (d # cs) ap
      else if d \<in> {0x78, 0x73, 0x63, 0x64} then (if d = 0x73 then [args ap] else []) @ str_args args cs (Suc ap)
      else str_args args (d # cs) ap)"

definition wrote :: "mem \<Rightarrow> mem \<Rightarrow> addr \<Rightarrow> u8 list \<Rightarrow> bool" where
  "wrote m m' p xs \<longleftrightarrow> (\<forall>i<length xs. m' (p + of_nat i) = xs ! i) \<and>
     m' (p + of_nat (length xs)) \<in> {0, m (p + of_nat (length xs))} \<and>
     (\<forall>a. \<not> within a p (Suc (length xs)) \<longrightarrow> m' a = m a)"

lemma within_shift:
  assumes "within a (p + of_nat n) k" and "n + k \<le> 4294967296"
  shows "within a p (n + k)"
proof -
  obtain j where j: "j < k" "a = p + of_nat n + of_nat j" using assms(1) by (auto elim: within_witness)
  then have "a = p + of_nat (n + j)" by (simp add: add.assoc)
  moreover have "within (p + of_nat (n + j)) p (n + k)"
    using j assms(2) by (simp add: within_of_nat del: of_nat_add)
  ultimately show ?thesis by simp
qed

lemma wrote_trans:
  assumes a: "wrote m m1 p xs" and b: "wrote m1 m2 (p + of_nat (length xs)) ys"
    and n: "length xs + length ys < 4294967295"
  shows "wrote m m2 p (xs @ ys)"
  unfolding wrote_def
proof (intro conjI allI impI)
  let ?q = "p + of_nat (length xs)"
  fix i assume i: "i < length (xs @ ys)"
  show "m2 (p + of_nat i) = (xs @ ys) ! i"
  proof (cases "i < length xs")
    case True
    then have "\<not> within (p + of_nat i) ?q (Suc (length ys))" using n by (rule cstr_before_end)
    with True a b show ?thesis by (simp add: wrote_def nth_append)
  next
    case False
    then have e: "p + of_nat i = ?q + of_nat (i - length xs)" by (simp add: of_nat_diff)
    have "i - length xs < length ys" using False i by simp
    with b have "m2 (?q + of_nat (i - length xs)) = ys ! (i - length xs)" by (simp add: wrote_def)
    with False show ?thesis unfolding e by (simp add: nth_append)
  qed
next
  have e: "p + of_nat (length (xs @ ys)) = p + of_nat (length xs) + of_nat (length ys)" by simp
  show "m2 (p + of_nat (length (xs @ ys))) \<in> {0, m (p + of_nat (length (xs @ ys)))}"
  proof (cases "ys = []")
    case True
    with a b show ?thesis by (auto simp: wrote_def)
  next
    case False
    have "\<not> within (p + of_nat (length (xs @ ys))) p (Suc (length xs))"
      using False n unfolding within_def by (simp del: of_nat_add)
    with a b show ?thesis unfolding e by (auto simp: wrote_def)
  qed
next
  fix a' assume o: "\<not> within a' p (Suc (length (xs @ ys)))"
  then have "\<not> within a' p (Suc (length xs))" using within_mono [of a' p "Suc (length xs)"] by auto
  moreover have "\<not> within a' (p + of_nat (length xs)) (Suc (length ys))"
    using o n within_shift [of a' p "length xs" "Suc (length ys)"] by auto
  ultimately show "m2 a' = m a'" using a b by (simp add: wrote_def)
qed

lemma wrote_put: "length xs < 4294967295 \<Longrightarrow> wrote m (put_bytes m p xs) p xs"
  by (auto simp: wrote_def put_bytes_def within_of_nat within_def)

lemma length_numeral: "1 < b \<Longrightarrow> length (numeral_of b (unat (x :: u32))) \<le> 32"
  using length_digits_le [of b "unat x" 32] by (simp add: numeral_of_def)

lemma itoa_wrote:
  assumes "1 < unat base"
  shows "\<exists>m'. itoa m val p base = Some (Inr (m', p + of_nat (length (numeral_of (unat base) (unat val))))) \<and>
    wrote m m' p (numeral_of (unat base) (unat val))"
  using itoa_writes [OF assms, of m val p] wrote_put length_numeral [OF assms, of val] by fastforce

text \<open>The string at \<open>p\<close> is apart from the output that starts at \<open>q\<close> and may take \<open>n\<close> bytes.\<close>

definition source_ok :: "mem \<Rightarrow> addr \<Rightarrow> u8 list \<Rightarrow> addr \<Rightarrow> nat \<Rightarrow> bool" where
  "source_ok m p xs q n \<longleftrightarrow> cstr m p xs \<and> length xs < 4294967295 \<and>
     (\<forall>a. within a q n \<longrightarrow> \<not> within a p (Suc (length xs)))"

lemma source_ok_mono:
  assumes "source_ok m p xs q n" and "n' + k \<le> n" and "n \<le> 4294967296"
  shows "source_ok m p xs (q + of_nat k) n'"
proof -
  have "within a q n" if "within a (q + of_nat k) n'" for a
    using within_shift [OF that] assms(2,3) within_mono [of a q "k + n'" n] by simp
  then show ?thesis using assms(1) by (auto simp: source_ok_def)
qed

lemma source_ok_wrote:
  assumes "source_ok m p xs q n" and "wrote m m' q ys" and "Suc (length ys) \<le> n"
  shows "source_ok m' p xs q n"
proof -
  have "cstr m' p xs = cstr m p xs"
  proof (rule cstr_cong)
    fix i assume "i \<le> length xs"
    then have "within (p + of_nat i) p (Suc (length xs))"
      using assms(1) by (intro within_of_nat [THEN iffD2]) (auto simp: source_ok_def)
    then have "\<not> within (p + of_nat i) q n" using assms(1) by (auto simp: source_ok_def)
    then have "\<not> within (p + of_nat i) q (Suc (length ys))" using assms(3) within_mono by blast
    then show "m' (p + of_nat i) = m (p + of_nat i)" using assms(2) by (simp add: wrote_def)
  qed
  with assms(1) show ?thesis by (simp add: source_ok_def)
qed

lemma source_ok_tail: "source_ok m p (x # xs) q n \<Longrightarrow> source_ok m (p + 1) xs q n"
  using within_Suc [of "Suc (length xs)" _ p] by (auto simp: source_ok_def)

lemma output_step:
  assumes "wrote m m' q xs" and "length xs + k \<le> n" and "n < 4294967295" and "0 < k"
    and "unat q + n \<le> 4294967296" and "q \<noteq> NULL" and "Suc (length xs) \<le> n"
  shows "source_ok m p ys q n \<Longrightarrow> source_ok m' p ys (q + of_nat (length xs)) k"
    and "unat (q + of_nat (length xs)) + k \<le> 4294967296" and "q + of_nat (length xs) \<noteq> NULL"
proof -
  show "source_ok m' p ys (q + of_nat (length xs)) k" if "source_ok m p ys q n"
    using source_ok_mono [OF source_ok_wrote [OF that assms(1,7)], of k "length xs"] assms by simp
  have u: "unat (q + of_nat (length xs)) = unat q + length xs"
    using assms by (subst unat_add_u32) simp_all
  show "unat (q + of_nat (length xs)) + k \<le> 4294967296" using u assms by simp
  show "q + of_nat (length xs) \<noteq> NULL" using u assms(6) by (metis add_is_0 unat_eq_0)
qed

lemma directive_writes:
  assumes c: "c \<in> {0x78, 0x73, 0x63, 0x64}" and q: "q \<noteq> NULL"
    and s: "c = 0x73 \<Longrightarrow> arg \<noteq> NULL \<and> source_ok m arg (strs arg) q n"
    and n: "Suc (length (directive_text strs c arg)) \<le> n" "n < 4294967295"
  shows "\<exists>m'. directive m q c arg = Inr (m', q + of_nat (length (directive_text strs c arg))) \<and>
    wrote m m' q (directive_text strs c arg)"
proof -
  consider "c = 0x78" | "c = 0x73" | "c = 0x63" | "c = 0x64" "sint arg < 0" | "c = 0x64" "\<not> sint arg < 0"
    using c by auto
  then show ?thesis
  proof cases
    case 1
    then show ?thesis using itoa_wrote [of 16 m arg q] by (auto simp: directive_def directive_text_def)
  next
    case 2
    let ?xs = "strs arg"
    have o: "source_ok m arg ?xs q n" "arg \<noteq> NULL" using s 2 by auto
    have len: "Suc (length ?xs) \<le> n" using n 2 by (simp add: directive_text_def)
    have "disjoint_ranges q (Suc (length ?xs)) arg (Suc (length ?xs))"
      using o(1) len n by (auto simp: disjoint_ranges_def source_ok_def within_of_nat)
    then obtain m' where m': "strcpy_loop m q arg = Some m'" "cstr m' q ?xs"
        "\<forall>a. \<not> within a q (Suc (length ?xs)) \<longrightarrow> m' a = m a"
      using strcpy_loop_cstr [of m arg ?xs q] o(1) by (auto simp: source_ok_def)
    have w: "wrote m m' q ?xs"
      using m' cstr_append [of m' q ?xs "[]"] by (simp add: wrote_def)
    then have "cstr m' arg ?xs" using source_ok_wrote [OF o(1)] len by (simp add: source_ok_def)
    then have "strlen m' arg = Inr (of_nat (length ?xs))"
      using o(2) strlen_loop_cstr [of m' arg ?xs 0] by (simp add: strlen_def)
    with w m'(1) 2 q o(2) show ?thesis by (simp add: directive_def directive_text_def strcpy_def)
  next
    case 3
    then show ?thesis using wrote_put [of "[ucast arg]" m q] put_bytes_snoc [of "[]" m q "ucast arg"]
      by (simp add: directive_def directive_text_def)
  next
    case 4
    let ?xs = "numeral_of 10 (unat (0 - arg))"
    obtain m' where "itoa (m(q := 0x2d)) (0 - arg) (q + 1) 10 = Some (Inr (m', q + 1 + of_nat (length ?xs)))"
        "wrote (m(q := 0x2d)) m' (q + 1) ?xs"
      using itoa_wrote [of 10 "m(q := 0x2d)" "0 - arg" "q + 1"] by auto
    moreover have "wrote m (m(q := 0x2d)) q [0x2d]"
      using wrote_put [of "[0x2d]" m q] put_bytes_snoc [of "[]" m q "0x2d"] by simp
    moreover have t: "directive_text strs c arg = 0x2d # ?xs" using 4 by (simp add: directive_text_def)
    moreover have "wrote m m' q (0x2d # ?xs)"
      using wrote_trans [of m "m(q := 0x2d)" q "[0x2d]" m' ?xs] calculation(2,3) n unfolding t by simp
    moreover have "directive m q c arg = settled (itoa (m(q := 0x2d)) (0 - arg) (q + 1) 10)"
      using 4 by (simp add: directive_def)
    ultimately show ?thesis by (simp add: add.assoc)
  next
    case 5
    then show ?thesis using itoa_wrote [of 10 m arg q] by (auto simp: directive_def directive_text_def)
  qed
qed

lemma vsprintf_loop_writes:
  assumes "source_ok m fp fmt q n" and "Suc (length (render strs args fmt ap)) \<le> n" and "n < 4294967295"
    and "\<forall>p\<in>set (str_args args fmt ap). p \<noteq> NULL \<and> source_ok m p (strs p) q n"
    and "unat q + n \<le> 4294967296" and "q \<noteq> NULL"
  shows "\<exists>m'. vsprintf_loop m q fp (m fp) args ap = Some (Inr m') \<and> wrote m m' q (render strs args fmt ap)"
  using assms
proof (induction strs args fmt ap arbitrary: m q fp n rule: render.induct)
  case (1 strs args ap)
  then show ?case by (subst vsprintf_loop.simps) (auto simp: source_ok_def wrote_def)
next
  case (2 strs args c ap)
  have m: "m fp = c" "m (fp + 1) = 0" "c \<noteq> 0" using 2 by (auto simp: source_ok_def)
  show ?case
  proof (cases "c = 0x25")
    case True
    then have "vsprintf_loop m q fp (m fp) args ap = Some (Inr m)"
      by (subst vsprintf_loop.simps) (use m in \<open>simp add: vsprintf_loop.simps\<close>)
    then show ?thesis using True by (auto simp: wrote_def)
  next
    case False
    have "\<not> within q fp 2" using 2 by (auto simp: source_ok_def numeral_2_eq_2)
    then have "q \<noteq> fp + 1" by (auto simp: within_def)
    then have "vsprintf_loop m q fp (m fp) args ap = Some (Inr (m(q := c)))"
      by (subst vsprintf_loop.simps) (use m False in \<open>simp add: vsprintf_loop.simps Let_def\<close>)
    moreover have "wrote m (m(q := c)) q [c]"
      using wrote_put [of "[c]" m q] put_bytes_snoc [of "[]" m q c] by simp
    ultimately show ?thesis using False by simp
  qed
next
  case (3 strs args c d cs ap)
  have m: "m fp = c" "m (fp + 1) = d" "c \<noteq> 0" "d \<noteq> 0" using 3(4) by (auto simp: source_ok_def)
  note n = 3(5-7) and b = 3(8,9)
  show ?case
  proof (cases "c = 0x25")
    case False
    let ?m = "m(q := c)" and ?k = "n - 1"
    have w: "wrote m ?m q [c]"
      using wrote_put [of "[c]" m q] put_bytes_snoc [of "[]" m q c] by simp
    have l: "Suc (length (render strs args (d # cs) ap)) \<le> ?k" using n(1) False by simp
    have k: "length [c] + ?k \<le> n" "0 < ?k" "Suc (length [c]) \<le> n" using l by auto
    note step = output_step [OF w k(1) n(2) k(2) b k(3)]
    have o: "source_ok ?m (fp + 1) (d # cs) (q + 1) ?k"
      using step(1) [OF source_ok_tail [OF 3(4)]] by simp
    have "?m (fp + 1) = d" using o by (simp add: source_ok_def)
    moreover obtain m' where "vsprintf_loop ?m (q + 1) (fp + 1) (?m (fp + 1)) args ap = Some (Inr m')"
        "wrote ?m m' (q + 1) (render strs args (d # cs) ap)"
    proof (atomize_elim, rule 3(1) [OF False o l])
      show "\<forall>p\<in>set (str_args args (d # cs) ap). p \<noteq> NULL \<and> source_ok ?m p (strs p) (q + 1) ?k"
        using n(3) False step(1) l by auto
    qed (use n step l in auto)
    ultimately show ?thesis
      using wrote_trans [of m ?m q "[c]" m' "render strs args (d # cs) ap"] w n m False
      by (subst vsprintf_loop.simps) (simp add: Let_def)
  next
    case c: True
    show ?thesis
    proof (cases "d \<in> {0x78, 0x73, 0x63, 0x64}")
      case True
      let ?t = "directive_text strs d (args ap)"
      let ?k = "n - length ?t"
      have a: "d = 0x73 \<Longrightarrow> args ap \<noteq> NULL \<and> source_ok m (args ap) (strs (args ap)) q n"
        using n(3) c by simp
      have l: "Suc (length ?t) \<le> n" "Suc (length (render strs args cs (Suc ap))) \<le> ?k"
        using n(1) c True by (auto simp del: insert_iff)
      obtain m1 where m1: "directive m q d (args ap) = Inr (m1, q + of_nat (length ?t))" "wrote m m1 q ?t"
        using directive_writes [OF True b(2) a l(1) n(2)] by blast
      have k: "length ?t + ?k \<le> n" "0 < ?k" using l by auto
      note step = output_step [OF m1(2) k(1) n(2) k(2) b l(1)]
      have o: "source_ok m1 (fp + 1 + 1) cs (q + of_nat (length ?t)) ?k"
        by (rule step(1) [OF source_ok_tail [OF source_ok_tail [OF 3(4)]]])
      obtain m' where m': "vsprintf_loop m1 (q + of_nat (length ?t)) (fp + 1 + 1) (m1 (fp + 1 + 1)) args (Suc ap) = Some (Inr m')"
          "wrote m1 m' (q + of_nat (length ?t)) (render strs args cs (Suc ap))"
      proof (atomize_elim, rule 3(2) [OF _ True o l(2)])
        show "\<forall>p\<in>set (str_args args cs (Suc ap)). p \<noteq> NULL \<and>
            source_ok m1 p (strs p) (q + of_nat (length ?t)) ?k"
          using n(3) c True step(1) l by auto
      qed (use c n step l in auto)
      have "vsprintf_loop m q fp (m fp) args ap = Some (Inr m')"
        using m c True m1(1) m'(1) by (subst vsprintf_loop.simps) (simp add: Let_def del: insert_iff)
      moreover have "render strs args (c # d # cs) ap = ?t @ render strs args cs (Suc ap)"
        using c True by (simp del: insert_iff)
      ultimately show ?thesis using wrote_trans [OF m1(2) m'(2)] l n by simp
    next
      case False
      obtain m' where m': "vsprintf_loop m q (fp + 1) (m (fp + 1)) args ap = Some (Inr m')"
          "wrote m m' q (render strs args (d # cs) ap)"
        using 3(3) [OF _ False source_ok_tail [OF 3(4)], of] n b c False by (auto simp del: insert_iff)
      moreover have "vsprintf_loop m q fp (m fp) args ap = vsprintf_loop m q (fp + 1) (m (fp + 1)) args ap"
        using m c False by (subst vsprintf_loop.simps) (simp add: Let_def del: insert_iff)
      moreover have "render strs args (c # d # cs) ap = render strs args (d # cs) ap"
        using c False by (simp del: insert_iff)
      ultimately show ?thesis by simp
    qed
  qed
qed

lemma vsprintf_ok:
  assumes "source_ok m fmt f buf n" and "Suc (length (render strs args f 0)) \<le> n" and "n < 4294967295"
    and "\<forall>p\<in>set (str_args args f 0). p \<noteq> NULL \<and> source_ok m p (strs p) buf n"
    and "unat buf + n \<le> 4294967296" and "buf \<noteq> NULL"
    and "0 \<notin> set (render strs args f 0)" and "m (buf + of_nat (length (render strs args f 0))) = 0"
  shows "\<exists>m'. vsprintf m buf fmt args = Inr (of_nat (length (render strs args f 0)), m') \<and>
    cstr m' buf (render strs args f 0) \<and>
    (\<forall>a. \<not> within a buf (Suc (length (render strs args f 0))) \<longrightarrow> m' a = m a)"
proof -
  let ?out = "render strs args f 0"
  obtain m' where m': "vsprintf_loop m buf fmt (m fmt) args 0 = Some (Inr m')" "wrote m m' buf ?out"
    using vsprintf_loop_writes [OF assms(1-6)] by blast
  have "cstr m' buf ?out"
    using m'(2) assms(7,8) cstr_append [of m' buf ?out "[]"] by (auto simp: wrote_def)
  with m' assms(6) strlen_loop_cstr [of m' buf ?out 0] show ?thesis
    by (auto simp: vsprintf_def strlen_def wrote_def)
qed

section \<open>Properties\<close>

lemma itoa_base_1: "itoa m val p base = Some r \<Longrightarrow> base = 1 \<longrightarrow> val = 0"
  by (rule itoa.raw_induct [where P = "\<lambda>m val p base r. base = 1 \<longrightarrow> val = 0"])
    (auto simp: Let_def split: if_splits bind_splits)

text \<open>C20 \<open>itoa\<close> returns for every base from 2 on, with the digits of the value written at the buffer and the pointer
  behind them (the digits from 36 on are the characters behind \<open>Z\<close>). The base 0 is a division by 0. With the
  base 1 it ends only on the value 0; on every other value it calls itself forever.\<close>

theorem itoa_terminates:
  "(if base = 0 then itoa m val p base = Some (Inl DivideError)
    else if base = 1 then itoa m val p base = (if val = 0 then Some (Inr (m(p := 0x30), p + 1)) else None)
    else itoa m val p base = Some (Inr (put_bytes m p (numeral_of (unat base) (unat val)),
      p + of_nat (length (numeral_of (unat base) (unat val))))))"
proof -
  have "itoa m val p 0 = Some (Inl DivideError)" by (subst itoa.simps) simp
  moreover have "itoa m 0 p 1 = Some (Inr (m(p := 0x30), p + 1))" by (subst itoa.simps) (simp add: Let_def)
  moreover have "itoa m val p 1 = None" if "val \<noteq> 0" using itoa_base_1 [of m val p 1] that by (cases "itoa m val p 1") auto
  moreover have "1 < unat base" if "base \<noteq> 0" "base \<noteq> 1"
    using that by (metis One_nat_def Suc_lessI neq0_conv unat_eq_0 unsigned_1 word_unat_eq_iff)
  ultimately show ?thesis using itoa_writes [of base m val p] by auto
qed

text \<open>Reading back what \<open>itoa\<close> prints gives the number: the characters that it puts at the buffer,
  at most 32, are the digits of the value in the base, and nothing else changes.\<close>

theorem itoa_roundtrip:
  assumes "1 < unat base" and "unat base \<le> 36"
  shows "\<exists>m' cs. itoa m val p base = Some (Inr (m', p + of_nat (length cs))) \<and> length cs \<le> 32 \<and>
    map (\<lambda>i. m' (p + of_nat i)) [0..<length cs] = cs \<and> value_of (unat base) cs = unat val \<and>
    (\<forall>a. \<not> within a p (length cs) \<longrightarrow> m' a = m a)"
proof -
  let ?cs = "numeral_of (unat base) (unat val)"
  have l: "length ?cs \<le> 32" using length_numeral assms(1) by blast
  then have "map (\<lambda>i. put_bytes m p ?cs (p + of_nat i)) [0..<length ?cs] = ?cs"
    by (intro nth_equalityI) (auto simp: put_bytes_def within_of_nat)
  with l show ?thesis
    using itoa_writes [OF assms(1), of m val p] value_of_numeral [OF assms]
    by (intro exI [of _ "put_bytes m p ?cs"] exI [of _ ?cs]) (simp add: put_bytes_def)
qed

theorem itoa_roundtrip_witness:
  "\<exists>m' cs. itoa (\<lambda>_. 0) 1234 100 10 = Some (Inr (m', 100 + of_nat (length cs))) \<and> value_of 10 cs = 1234"
  using itoa_roundtrip [of 10 "\<lambda>_. 0" 1234 100] by auto

text \<open>\<open>sprintf\<close> writes the text that the format stands for, when neither the format nor a string
  argument overlaps the output. The terminator is not written: the result is that text only where the
  byte after it was 0 before.\<close>

theorem sprintf_renders:
  assumes "source_ok m fmt f buf n" and "Suc (length (render strs args f 0)) \<le> n" and "n < 4294967295"
    and "\<forall>p\<in>set (str_args args f 0). p \<noteq> NULL \<and> source_ok m p (strs p) buf n"
    and "unat buf + n \<le> 4294967296" and "buf \<noteq> NULL"
    and "0 \<notin> set (render strs args f 0)" and "m (buf + of_nat (length (render strs args f 0))) = 0"
  shows "\<exists>m'. sprintf m buf fmt args = Inr (of_nat (length (render strs args f 0)), m') \<and>
    cstr m' buf (render strs args f 0) \<and>
    (\<forall>a. \<not> within a buf (Suc (length (render strs args f 0))) \<longrightarrow> m' a = m a)"
  using vsprintf_ok [OF assms] by (simp add: sprintf_def)

text \<open>The name of the first primary partition: the format \<open>%s%d\<close> on \<open>sdb\<close> and 1.\<close>

definition name_memory :: mem where
  "name_memory = (\<lambda>_. 0)(200 := 0x25, 201 := 0x73, 202 := 0x25, 203 := 0x64,
     300 := 0x73, 301 := 0x64, 302 := 0x62)"

theorem sprintf_renders_witness:
  "\<exists>m'. sprintf name_memory 100 200 (\<lambda>i. if i = 0 then 300 else 1) = Inr (4, m') \<and>
     cstr m' 100 [0x73, 0x64, 0x62, 0x31]"
proof -
  let ?args = "\<lambda>i::nat. if i = 0 then 300 else (1 :: u32)" and ?strs = "\<lambda>_. [0x73, 0x64, 0x62] :: u8 list"
  let ?f = "[0x25, 0x73, 0x25, 0x64] :: u8 list"
  have r: "render ?strs ?args ?f 0 = [0x73, 0x64, 0x62, 0x31]"
    by (simp add: directive_text_def numeral_of_def digits.simps digit_char_def)
  have a: "str_args ?args ?f 0 = [300]" by simp
  have s: "source_ok name_memory 200 ?f 100 50" "source_ok name_memory 300 [0x73, 0x64, 0x62] 100 50"
  proof -
    have "Suc (length ?f) = 5" "Suc (length ([0x73, 0x64, 0x62] :: u8 list)) = 4" by simp_all
    then show "source_ok name_memory 200 ?f 100 50" "source_ok name_memory 300 [0x73, 0x64, 0x62] 100 50"
      using apart [of 100 50 200 5] apart [of 100 50 300 4]
      unfolding source_ok_def by (simp_all only:) (simp_all add: name_memory_def)
  qed
  have "name_memory (100 + of_nat (length [0x73, 0x64, 0x62, 0x31 :: u8])) = 0" by (simp add: name_memory_def)
  then have "\<exists>m'. sprintf name_memory 100 200 ?args = Inr (of_nat (length [0x73, 0x64, 0x62, 0x31 :: u8]), m') \<and>
     cstr m' 100 [0x73, 0x64, 0x62, 0x31]"
    using sprintf_renders [of name_memory 200 ?f 100 50 ?strs ?args] s unfolding r a by auto
  then show ?thesis by simp
qed

end
