(* ===== verification/Ide.thy ===== *)
theory Ide
  imports Stdio
begin

unbundle bit_operations_syntax

text \<open>
  \<^verbatim>\<open>device/ide.c\<close>: the disk driver. The state holds the device registers as last written, the sectors
  of the disks, the status readings that the drives are going to give, and the driver's channels and
  partition tables. A transfer happens as the ATA standard says: the sector count register (0 for 256)
  and the 28 bits of the block address in four registers select the sectors that the data port delivers
  or takes. Other threads do not run: a lock of a channel is a flag, and when the driver waits for the
  disk the disk interrupts.
\<close>

section \<open>The state\<close>

text \<open>A disk is the number of its channel and its number there, 1 for the slave.\<close>

type_synonym disk_id = "nat \<times> u8"

record ide_channel =
  port_base :: u16
  irq_no :: u8
  chan_lock :: bool
  expecting_intr :: bool
  disk_done :: u32

record part_entry =
  part_start :: u32
  part_sects :: u32
  part_disk :: disk_id
  part_name :: "u8 list"

record ata =
  regs :: "u16 \<Rightarrow> u8"
  sectors :: "disk_id \<Rightarrow> u32 \<Rightarrow> u8 list"
  identity :: "disk_id \<Rightarrow> u8 list"
  status :: "nat \<Rightarrow> u8"
  status_no :: nat
  channels :: "nat \<Rightarrow> ide_channel"
  channel_cnt :: u8
  prim_parts :: "disk_id \<Rightarrow> part_entry list"
  logic_parts :: "disk_id \<Rightarrow> part_entry list"
  partition_list :: "(disk_id \<times> bool \<times> nat) list"
  ext_lba_base :: u32
  p_no :: u8
  l_no :: u8

abbreviation max_lba :: u32 where
  "max_lba \<equiv> 163839"

section \<open>The device\<close>

definition outb :: "u16 \<Rightarrow> u8 \<Rightarrow> ata \<Rightarrow> ata" where
  "outb port v s = s\<lparr>regs := (regs s)(port := v)\<rparr>"

definition inb_status :: "ata \<Rightarrow> u8 \<times> ata" where
  "inb_status s = (status s (status_no s), s\<lparr>status_no := Suc (status_no s)\<rparr>)"

definition port_of :: "nat \<Rightarrow> ata \<Rightarrow> u16" where
  "port_of ch s = port_base (channels s ch)"

text \<open>What the registers of a channel select.\<close>

definition selected_disk :: "nat \<Rightarrow> ata \<Rightarrow> disk_id" where
  "selected_disk ch s = (ch, if bit (regs s (port_of ch s + 6)) 4 then 1 else 0)"

definition selected_lba :: "nat \<Rightarrow> ata \<Rightarrow> u32" where
  "selected_lba ch s = ucast (regs s (port_of ch s + 3)) OR push_bit 8 (ucast (regs s (port_of ch s + 4)))
     OR push_bit 16 (ucast (regs s (port_of ch s + 5))) OR push_bit 24 (ucast (regs s (port_of ch s + 6) AND 0xf))"

definition selected_count :: "nat \<Rightarrow> ata \<Rightarrow> nat" where
  "selected_count ch s = (let n = unat (regs s (port_of ch s + 2)) in if n = 0 then 256 else n)"

definition command :: "nat \<Rightarrow> ata \<Rightarrow> u8" where
  "command ch s = regs s (port_of ch s + 7)"

text \<open>The bytes of consecutive sectors, and storing them.\<close>

definition get_sectors :: "(u32 \<Rightarrow> u8 list) \<Rightarrow> u32 \<Rightarrow> nat \<Rightarrow> u8 list" where
  "get_sectors d lba n = concat (map (\<lambda>i. d (lba + of_nat i)) [0..<n])"

definition put_sectors :: "(u32 \<Rightarrow> u8 list) \<Rightarrow> u32 \<Rightarrow> nat \<Rightarrow> u8 list \<Rightarrow> u32 \<Rightarrow> u8 list" where
  "put_sectors d lba n xs = (\<lambda>a. let i = unat (a - lba) in if i < n then take 512 (drop (512 * i) xs) else d a)"

text \<open>\<open>insw\<close> and \<open>outsw\<close> on the data port; a transfer that the command did not announce hangs.\<close>

definition insw :: "nat \<Rightarrow> nat \<Rightarrow> ata \<Rightarrow> u8 list res" where
  "insw ch word_cnt s =
     (if command ch s = 0x20 \<and> 2 * word_cnt \<le> 512 * selected_count ch s
      then Inr (take (2 * word_cnt)
             (get_sectors (sectors s (selected_disk ch s)) (selected_lba ch s) (selected_count ch s)))
      else if command ch s = 0xec \<and> word_cnt = 256 then Inr (take 512 (identity s (selected_disk ch s)))
      else Inl Hang)"

definition outsw :: "nat \<Rightarrow> u8 list \<Rightarrow> nat \<Rightarrow> ata \<Rightarrow> ata res" where
  "outsw ch buf word_cnt s =
     (if command ch s = 0x30 \<and> 2 * word_cnt = 512 * selected_count ch s
      then let d = selected_disk ch s
           in Inr (s\<lparr>sectors := (sectors s)(d := put_sectors (sectors s d) (selected_lba ch s)
                (selected_count ch s) (take (2 * word_cnt) buf))\<rparr>)
      else Inl Hang)"

section \<open>The code\<close>

definition select_disk :: "disk_id \<Rightarrow> ata \<Rightarrow> ata" where
  "select_disk dk s =
     (let reg_device = 0xa0 OR 0x40;
          reg_device = (if snd dk = 1 then reg_device OR 0x10 else reg_device)
      in outb (port_of (fst dk) s + 6) reg_device s)"

definition select_sector :: "disk_id \<Rightarrow> u32 \<Rightarrow> u8 \<Rightarrow> ata \<Rightarrow> ata res" where
  "select_sector dk lba sec_cnt s =
     bindr (ASSERT (lba \<le> max_lba)) (\<lambda>_.
     let p = port_of (fst dk) s;
         s = outb (p + 2) sec_cnt s;
         s = outb (p + 3) (ucast lba) s;
         s = outb (p + 4) (ucast (drop_bit 8 lba)) s;
         s = outb (p + 5) (ucast (drop_bit 16 lba)) s
     in Inr (outb (p + 6) (0xa0 OR 0x40 OR (if snd dk = 1 then 0x10 else 0) OR ucast (drop_bit 24 lba)) s))"

definition set_channel :: "nat \<Rightarrow> ide_channel \<Rightarrow> ata \<Rightarrow> ata" where
  "set_channel ch c s = s\<lparr>channels := (channels s)(ch := c)\<rparr>"

definition cmd_out :: "nat \<Rightarrow> u8 \<Rightarrow> ata \<Rightarrow> ata" where
  "cmd_out ch cmd s =
     (let s = set_channel ch (channels s ch\<lparr>expecting_intr := True\<rparr>) s
      in outb (port_of ch s + 7) cmd s)"

definition bytes_of_sectors :: "u8 \<Rightarrow> u32" where
  "bytes_of_sectors sec_cnt = (if sec_cnt = 0 then 256 * 512 else ucast sec_cnt * 512)"

definition read_from_sector :: "disk_id \<Rightarrow> u8 \<Rightarrow> ata \<Rightarrow> u8 list res" where
  "read_from_sector dk sec_cnt s = insw (fst dk) (unat (bytes_of_sectors sec_cnt div 2)) s"

definition write2sector :: "disk_id \<Rightarrow> u8 list \<Rightarrow> u8 \<Rightarrow> ata \<Rightarrow> ata res" where
  "write2sector dk buf sec_cnt s = outsw (fst dk) buf (unat (bytes_of_sectors sec_cnt div 2)) s"

text \<open>
  The condition of the loop assigns \<open>time_limit - (10 >= 0)\<close>: it counts by 1, and 0 is the end. A turn
  with a busy disk sleeps for 10 ms.
\<close>

primrec busy_wait_loop :: "nat \<Rightarrow> ata \<Rightarrow> bool \<times> ata" where
  "busy_wait_loop 0 s = (False, s)"
| "busy_wait_loop (Suc n) s =
     (if n = 0 then (False, s)
      else let (v, s) = inb_status s
           in if v AND 0x80 = 0 then let (v, s) = inb_status s in (v AND 0x8 \<noteq> 0, s)
              else busy_wait_loop n s)"

definition busy_wait :: "disk_id \<Rightarrow> ata \<Rightarrow> bool \<times> ata" where
  "busy_wait dk s = (let time_limit = 30 * 1000 in busy_wait_loop time_limit s)"

definition intr_hd_handler :: "u8 \<Rightarrow> ata \<Rightarrow> ata res" where
  "intr_hd_handler irq s =
     bindr (ASSERT (irq = 0x2e \<or> irq = 0x2f)) (\<lambda>_.
     let ch_no = unat (irq - 0x2e); channel = channels s ch_no
     in bindr (ASSERT (irq_no channel = irq)) (\<lambda>_.
        if expecting_intr channel then
          let s = set_channel ch_no (channel\<lparr>expecting_intr := False, disk_done := disk_done channel + 1\<rparr>) s
          in Inr (snd (inb_status s))
        else Inr s))"

text \<open>\<open>sema_down\<close> on the channel's semaphore: the disk interrupts while the thread waits.\<close>

definition wait_disk :: "nat \<Rightarrow> ata \<Rightarrow> ata res" where
  "wait_disk ch s =
     bindr (intr_hd_handler (irq_no (channels s ch)) s) (\<lambda>s.
     let channel = channels s ch
     in if disk_done channel = 0 then Inl Blocked
        else Inr (set_channel ch (channel\<lparr>disk_done := disk_done channel - 1\<rparr>) s))"

definition lock_channel :: "nat \<Rightarrow> ata \<Rightarrow> ata res" where
  "lock_channel ch s =
     (if chan_lock (channels s ch) then Inl Blocked
      else Inr (set_channel ch (channels s ch\<lparr>chan_lock := True\<rparr>) s))"

definition unlock_channel :: "nat \<Rightarrow> ata \<Rightarrow> ata res" where
  "unlock_channel ch s =
     bindr (ASSERT (chan_lock (channels s ch))) (\<lambda>_.
     Inr (set_channel ch (channels s ch\<lparr>chan_lock := False\<rparr>) s))"

definition secs_op :: "u32 \<Rightarrow> u32 \<Rightarrow> u32" where
  "secs_op secs_done sec_cnt = (if secs_done + 256 \<le> sec_cnt then 256 else sec_cnt - secs_done)"

text \<open>The loops over the sectors, as functions of the number of turns that are allowed; each turn does
  at least one of at most \<open>2 ^ 32\<close> sectors.\<close>

primrec ide_read_loop :: "nat \<Rightarrow> disk_id \<Rightarrow> u32 \<Rightarrow> u32 \<Rightarrow> u32 \<Rightarrow> u8 list \<Rightarrow> ata \<Rightarrow> (u8 list \<times> ata) res" where
  "ide_read_loop 0 dk lba sec_cnt secs_done buf s = Inl Hang"
| "ide_read_loop (Suc n) dk lba sec_cnt secs_done buf s =
     (if \<not> secs_done < sec_cnt then Inr (buf, s)
      else let op = secs_op secs_done sec_cnt
           in bindr (select_sector dk (lba + secs_done) (ucast op) s) (\<lambda>s.
              let s = cmd_out (fst dk) 0x20 s
              in bindr (wait_disk (fst dk) s) (\<lambda>s.
                 let (ready, s) = busy_wait dk s
                 in if \<not> ready then Inl Panic
                    else bindr (read_from_sector dk (ucast op) s) (\<lambda>data.
                         ide_read_loop n dk lba sec_cnt (secs_done + op) (buf @ data) s))))"

definition ide_read :: "disk_id \<Rightarrow> u32 \<Rightarrow> u32 \<Rightarrow> ata \<Rightarrow> (u8 list \<times> ata) res" where
  "ide_read dk lba sec_cnt s =
     bindr (ASSERT (lba \<le> max_lba)) (\<lambda>_.
     bindr (ASSERT (sec_cnt > 0)) (\<lambda>_.
     bindr (lock_channel (fst dk) s) (\<lambda>s.
     let s = select_disk dk s
     in bindr (ide_read_loop (Suc (unat sec_cnt)) dk lba sec_cnt 0 [] s) (\<lambda>(buf, s).
        bindr (unlock_channel (fst dk) s) (\<lambda>s. Inr (buf, s))))))"

primrec ide_write_loop :: "nat \<Rightarrow> disk_id \<Rightarrow> u32 \<Rightarrow> u8 list \<Rightarrow> u32 \<Rightarrow> u32 \<Rightarrow> ata \<Rightarrow> ata res" where
  "ide_write_loop 0 dk lba buf sec_cnt secs_done s = Inl Hang"
| "ide_write_loop (Suc n) dk lba buf sec_cnt secs_done s =
     (if \<not> secs_done < sec_cnt then Inr s
      else let op = secs_op secs_done sec_cnt
           in bindr (select_sector dk (lba + secs_done) (ucast op) s) (\<lambda>s.
              let s = cmd_out (fst dk) 0x30 s; (ready, s) = busy_wait dk s
              in if \<not> ready then Inl Panic
                 else bindr (write2sector dk (drop (unat (secs_done * 512)) buf) (ucast op) s) (\<lambda>s.
                      bindr (wait_disk (fst dk) s) (\<lambda>s.
                      ide_write_loop n dk lba buf sec_cnt (secs_done + op) s))))"

definition ide_write :: "disk_id \<Rightarrow> u32 \<Rightarrow> u8 list \<Rightarrow> u32 \<Rightarrow> ata \<Rightarrow> ata res" where
  "ide_write dk lba buf sec_cnt s =
     bindr (ASSERT (lba \<le> max_lba)) (\<lambda>_.
     bindr (ASSERT (sec_cnt > 0)) (\<lambda>_.
     bindr (lock_channel (fst dk) s) (\<lambda>s.
     let s = select_disk dk s
     in bindr (ide_write_loop (Suc (unat sec_cnt)) dk lba buf sec_cnt 0 s) (\<lambda>s.
        unlock_channel (fst dk) s))))"

section \<open>The partition tables\<close>

text \<open>A little-endian word.\<close>

definition le32 :: "u8 list \<Rightarrow> u32" where
  "le32 xs = ucast (xs ! 0) OR push_bit 8 (ucast (xs ! 1)) OR push_bit 16 (ucast (xs ! 2)) OR push_bit 24 (ucast (xs ! 3))"

record table_entry =
  fs_type :: u8
  entry_start :: u32
  entry_sects :: u32

text \<open>The four entries of a boot sector, each of 16 bytes, from byte 446 on.\<close>

definition partition_table :: "u8 list \<Rightarrow> table_entry list" where
  "partition_table bs = map (\<lambda>i. let e = drop (446 + 16 * i) bs
     in \<lparr>fs_type = e ! 4, entry_start = le32 (drop 8 e), entry_sects = le32 (drop 12 e)\<rparr>) [0..<4]"

definition disk_name :: "disk_id \<Rightarrow> u8 list" where
  "disk_name dk = [0x73, 0x64, 0x61 + of_nat (fst dk) * 2 + snd dk]"

definition add_prim :: "disk_id \<Rightarrow> u32 \<Rightarrow> table_entry \<Rightarrow> ata \<Rightarrow> ata" where
  "add_prim dk ext_lba p s =
     (let i = unat (p_no s);
          part = \<lparr>part_start = ext_lba + entry_start p, part_sects = entry_sects p, part_disk = dk,
            part_name = disk_name dk @ numeral_of 10 (i + 1)\<rparr>
      in s\<lparr>prim_parts := (prim_parts s)(dk := (prim_parts s dk)[i := part]),
           partition_list := partition_list s @ [(dk, False, i)], p_no := p_no s + 1\<rparr>)"

definition add_logic :: "disk_id \<Rightarrow> u32 \<Rightarrow> table_entry \<Rightarrow> ata \<Rightarrow> ata" where
  "add_logic dk ext_lba p s =
     (let i = unat (l_no s);
          part = \<lparr>part_start = ext_lba + entry_start p, part_sects = entry_sects p, part_disk = dk,
            part_name = disk_name dk @ numeral_of 10 (i + 5)\<rparr>
      in s\<lparr>logic_parts := (logic_parts s)(dk := (logic_parts s dk)[i := part]),
           partition_list := partition_list s @ [(dk, True, i)], l_no := l_no s + 1\<rparr>)"

text \<open>The loop over the entries of a table; an extended partition has a table of its own.\<close>

partial_function (option) scan_entries :: "disk_id \<Rightarrow> u32 \<Rightarrow> table_entry list \<Rightarrow> ata \<Rightarrow> ata res option" where
  "scan_entries dk ext_lba ps s =
     (if ps = [] then Some (Inr s)
      else let p = hd ps; rest = tl ps
      in if fs_type p = 0x5 then
           let first = (ext_lba_base s = 0);
               lba = (if first then entry_start p else entry_start p + ext_lba_base s);
               s = (if first then s\<lparr>ext_lba_base := entry_start p\<rparr> else s)
           in (case ide_read dk lba 1 s of Inl e \<Rightarrow> Some (Inl e)
               | Inr (bs, s) \<Rightarrow> Option.bind (scan_entries dk lba (partition_table bs) s) (\<lambda>r.
                   (case r of Inl e \<Rightarrow> Some (Inl e) | Inr s \<Rightarrow> scan_entries dk ext_lba rest s)))
         else if fs_type p \<noteq> 0 then
           if ext_lba = 0 then
             if 4 \<le> p_no s then Some (Inl OutOfBounds)
             else let s = add_prim dk ext_lba p s
                  in if p_no s < 4 then scan_entries dk ext_lba rest s else Some (Inl Panic)
           else if 8 \<le> l_no s then Some (Inl OutOfBounds)
           else let s = add_logic dk ext_lba p s
                in if 8 \<le> l_no s then Some (Inr s) else scan_entries dk ext_lba rest s
         else scan_entries dk ext_lba rest s)"

definition partition_scan :: "disk_id \<Rightarrow> u32 \<Rightarrow> ata \<Rightarrow> ata res" where
  "partition_scan dk ext_lba s =
     bindr (ide_read dk ext_lba 1 s) (\<lambda>(bs, s).
     bindr (returns (scan_entries dk ext_lba (partition_table bs) s)) id)"

section \<open>Finding the disks\<close>

text \<open>\<open>idx\<close> is a byte: it never reaches a bound of 255 or more.\<close>

partial_function (option) swap_pairs_loop :: "mem \<Rightarrow> addr \<Rightarrow> addr \<Rightarrow> u8 \<Rightarrow> u32 \<Rightarrow> mem option" where
  "swap_pairs_loop m dst buf idx len =
     (if ucast idx < len then
        let m = m(buf + (ucast idx + 1) := m dst); m = m(buf + ucast idx := m (dst + 1))
        in swap_pairs_loop m (dst + 2) buf (idx + 2) len
      else Some (m(buf + ucast idx := 0)))"

definition swap_pairs_bytes :: "mem \<Rightarrow> addr \<Rightarrow> addr \<Rightarrow> u32 \<Rightarrow> mem res" where
  "swap_pairs_bytes m dst buf len = returns (swap_pairs_loop m dst buf 0 len)"

text \<open>The arrays \<open>id_info\<close> and \<open>buf\<close> lie on the stack; the number of sectors is what is printed last.\<close>

definition identify_disk :: "disk_id \<Rightarrow> addr \<Rightarrow> addr \<Rightarrow> mem \<Rightarrow> ata \<Rightarrow> (u32 \<times> mem \<times> ata) res" where
  "identify_disk dk id_info buf m s =
     (let s = select_disk dk s; s = cmd_out (fst dk) 0xec s
      in bindr (wait_disk (fst dk) s) (\<lambda>s.
         let (ready, s) = busy_wait dk s
         in if \<not> ready then Inl Panic
            else bindr (read_from_sector dk 1 s) (\<lambda>data.
              let m = put_bytes m id_info data; sn_start = 10 * 2; sn_len = 20; md_start = 27 * 2; md_len = 40
              in bindr (swap_pairs_bytes m (id_info + sn_start) buf sn_len) (\<lambda>m.
                 bindr (memset m buf 0 64) (\<lambda>m.
                 bindr (swap_pairs_bytes m (id_info + md_start) buf md_len) (\<lambda>m.
                 Inr (le32 (map (\<lambda>i. m (id_info + 60 * 2 + of_nat i)) [0..<4]), m, s)))))))"

definition init_channel :: "nat \<Rightarrow> ata \<Rightarrow> ata" where
  "init_channel ch s =
     (let c = channels s ch;
          c = (if ch = 0 then c\<lparr>port_base := 0x1f0, irq_no := 0x20 + 14\<rparr>
               else if ch = 1 then c\<lparr>port_base := 0x170, irq_no := 0x20 + 15\<rparr> else c)
      in set_channel ch (c\<lparr>expecting_intr := False, chan_lock := False, disk_done := 0\<rparr>) s)"

text \<open>One turn of the inner loop: the kernel's own disk, number 0, is not scanned.\<close>

definition init_disk :: "disk_id \<Rightarrow> addr \<Rightarrow> addr \<Rightarrow> mem \<Rightarrow> ata \<Rightarrow> (mem \<times> ata) res" where
  "init_disk dk id_info buf m s =
     bindr (identify_disk dk id_info buf m s) (\<lambda>(_, m, s).
     bindr (if snd dk \<noteq> 0 then partition_scan dk 0 s else Inr s) (\<lambda>s.
     Inr (m, s\<lparr>p_no := 0, l_no := 0\<rparr>)))"

primrec init_channels :: "nat \<Rightarrow> nat \<Rightarrow> addr \<Rightarrow> addr \<Rightarrow> mem \<Rightarrow> ata \<Rightarrow> (mem \<times> ata) res" where
  "init_channels 0 ch id_info buf m s = Inr (m, s)"
| "init_channels (Suc n) ch id_info buf m s =
     (if 2 \<le> ch then Inl OutOfBounds
      else let s = init_channel ch s
           in bindr (init_disk (ch, 0) id_info buf m s) (\<lambda>(m, s).
              bindr (init_disk (ch, 1) id_info buf m s) (\<lambda>(m, s).
              init_channels n (Suc ch) id_info buf m s)))"

text \<open>The number of disks is what the BIOS left at address \<open>0x475\<close>.\<close>

definition ide_init :: "addr \<Rightarrow> addr \<Rightarrow> mem \<Rightarrow> ata \<Rightarrow> (mem \<times> ata) res" where
  "ide_init id_info buf m s =
     (let hd_cnt = m 0x475
      in bindr (ASSERT (hd_cnt > 0)) (\<lambda>_.
         let n = (unat hd_cnt + 1) div 2
         in init_channels n 0 id_info buf m (s\<lparr>channel_cnt := of_nat n\<rparr>)))"

section \<open>What a transfer does\<close>

text \<open>
  The effect of the driver on a disk alone: a transfer is refused with a failed assertion when it starts
  past the last supported sector, in its first or in a later piece of 256 sectors, or is empty.
\<close>

definition transfer_ok :: "u32 \<Rightarrow> nat \<Rightarrow> bool" where
  "transfer_ok lba n \<longleftrightarrow> 0 < n \<and> unat lba + 256 * ((n - 1) div 256) \<le> unat max_lba"

definition read_sectors :: "(u32 \<Rightarrow> u8 list) \<Rightarrow> u32 \<Rightarrow> u32 \<Rightarrow> u8 list res" where
  "read_sectors d lba n = bindr (ASSERT (transfer_ok lba (unat n))) (\<lambda>_. Inr (get_sectors d lba (unat n)))"

definition write_sectors :: "(u32 \<Rightarrow> u8 list) \<Rightarrow> u32 \<Rightarrow> u8 list \<Rightarrow> u32 \<Rightarrow> (u32 \<Rightarrow> u8 list) res" where
  "write_sectors d lba buf n = bindr (ASSERT (transfer_ok lba (unat n))) (\<lambda>_. Inr (put_sectors d lba (unat n) buf))"

text \<open>A channel in working order with drives that are never busy.\<close>

definition driver_ok :: "disk_id \<Rightarrow> ata \<Rightarrow> bool" where
  "driver_ok dk s \<longleftrightarrow> fst dk < 2 \<and> snd dk \<in> {0, 1} \<and> irq_no (channels s (fst dk)) = 0x2e + of_nat (fst dk) \<and>
     disk_done (channels s (fst dk)) \<noteq> -1 \<and> (\<forall>n. status s n AND 0x80 = 0 \<and> status s n AND 0x8 \<noteq> 0)"

definition channel_ok :: "disk_id \<Rightarrow> ata \<Rightarrow> bool" where
  "channel_ok dk s \<longleftrightarrow> driver_ok dk s \<and> (\<forall>a. length (sectors s dk a) = 512)"

text \<open>What a transfer leaves as it was.\<close>

definition same_driver :: "ata \<Rightarrow> ata \<Rightarrow> bool" where
  "same_driver s t \<longleftrightarrow> status t = status s \<and> identity t = identity s \<and> channel_cnt t = channel_cnt s \<and>
     prim_parts t = prim_parts s \<and> logic_parts t = logic_parts s \<and> partition_list t = partition_list s \<and>
     ext_lba_base t = ext_lba_base s \<and> p_no t = p_no s \<and> l_no t = l_no s \<and>
     (\<forall>ch. port_base (channels t ch) = port_base (channels s ch) \<and> irq_no (channels t ch) = irq_no (channels s ch) \<and>
        chan_lock (channels t ch) = chan_lock (channels s ch) \<and> disk_done (channels t ch) = disk_done (channels s ch))"

lemma same_driver_refl [simp]: "same_driver s s"
  by (simp add: same_driver_def)

lemma same_driver_trans: "same_driver s t \<Longrightarrow> same_driver t u \<Longrightarrow> same_driver s u"
  by (simp add: same_driver_def)

lemma same_driver_ok': "driver_ok dk s \<Longrightarrow> same_driver s t \<Longrightarrow> driver_ok dk t"
  by (simp add: driver_ok_def same_driver_def)

lemma same_driver_ok: "channel_ok dk s \<Longrightarrow> same_driver s t \<Longrightarrow> (\<And>a. length (sectors t dk a) = 512) \<Longrightarrow> channel_ok dk t"
  using same_driver_ok' [of dk s t] by (simp add: channel_ok_def)

lemma get_sectors_add: "get_sectors d lba (m + n) = get_sectors d lba m @ get_sectors d (lba + of_nat m) n"
proof -
  have "[0..<m + n] = [0..<m] @ map (\<lambda>i. i + m) [0..<n]"
    by (metis add.commute add_0 map_add_upt upt_add_eq_append zero_le)
  then show ?thesis by (simp add: get_sectors_def o_def add.assoc add.commute [of "of_nat m"])
qed

lemma length_get_sectors: "(\<And>a. length (d a) = 512) \<Longrightarrow> length (get_sectors d lba n) = 512 * n"
  by (induction n) (simp_all add: get_sectors_def)

lemma get_sectors_0 [simp]: "get_sectors d lba 0 = []"
  by (simp add: get_sectors_def)

subsection \<open>Selecting sectors\<close>

lemma high_bits_clear:
  assumes "unat (x :: u32) < 2 ^ n" and "n \<le> i"
  shows "\<not> bit x i"
proof -
  have "(2 :: nat) ^ n \<le> 2 ^ i" using assms(2) by (rule power_increasing) simp
  then have "unat x div 2 ^ i = 0" by (rule div_less [OF less_le_trans [OF assms(1)]])
  then have "\<not> bit (unat x) i" by (simp add: bit_iff_odd)
  then show ?thesis by (simp add: bit_unsigned_iff)
qed

lemma drop_bit_small: "unat (x :: u32) < 2 ^ n \<Longrightarrow> drop_bit n x = 0"
  by (rule bit_word_eqI) (simp add: bit_drop_bit_eq high_bits_clear)

lemma lba_bytes:
  assumes "unat (x :: u32) < 2 ^ 24"
  shows "ucast (ucast x :: u8) OR push_bit 8 (ucast (ucast (drop_bit 8 x) :: u8))
    OR push_bit 16 (ucast (ucast (drop_bit 16 x) :: u8)) = x"
proof (rule bit_word_eqI)
  fix n assume "n < LENGTH(32)"
  then show "bit (ucast (ucast x :: u8) OR push_bit 8 (ucast (ucast (drop_bit 8 x) :: u8))
      OR push_bit 16 (ucast (ucast (drop_bit 16 x) :: u8)) :: u32) n = bit x n"
    using high_bits_clear [OF assms, of n]
    by (cases "n < 8"; cases "n < 16"; cases "n < 24") (auto simp: bit_simps)
qed

lemma select_sector_regs:
  assumes "lba \<le> max_lba" and "snd dk \<in> {0, 1}"
  shows "\<exists>t. select_sector dk lba n s = Inr t \<and> t = s\<lparr>regs := regs t\<rparr> \<and> selected_lba (fst dk) t = lba \<and>
    selected_disk (fst dk) t = dk \<and> regs t (port_of (fst dk) s + 2) = n"
proof -
  let ?p = "port_of (fst dk) s"
  let ?dev = "if snd dk = 1 then 0xf0 else 0xe0 :: u8"
  let ?r = "(regs s)(?p + 2 := n, ?p + 3 := ucast lba, ?p + 4 := ucast (drop_bit 8 lba),
    ?p + 5 := ucast (drop_bit 16 lba), ?p + 6 := ?dev)"
  have small: "unat lba < 2 ^ 24" using assms(1) by (simp add: word_le_nat_alt)
  have e: "select_sector dk lba n s = Inr (s\<lparr>regs := ?r\<rparr>)"
    using assms(1) drop_bit_small [OF small] by (auto simp: select_sector_def outb_def Let_def)
  have "selected_lba (fst dk) (s\<lparr>regs := ?r\<rparr>) = lba"
    using lba_bytes [OF small] by (auto simp: selected_lba_def port_of_def)
  moreover have "selected_disk (fst dk) (s\<lparr>regs := ?r\<rparr>) = dk"
    using assms(2) by (cases dk) (auto simp: selected_disk_def port_of_def bit_numeral_word_iff)
  ultimately show ?thesis using e by (intro exI [of _ "s\<lparr>regs := ?r\<rparr>"]) simp
qed

subsection \<open>One piece of a transfer\<close>

text \<open>The state after the disk has interrupted and the driver has read its status.\<close>

definition after_wait :: "nat \<Rightarrow> ata \<Rightarrow> ata" where
  "after_wait ch s = (set_channel ch (channels s ch\<lparr>expecting_intr := False\<rparr>) s)\<lparr>status_no := Suc (status_no s)\<rparr>"

lemma wait_disk_ok:
  assumes "driver_ok dk s" and "expecting_intr (channels s (fst dk))"
  shows "wait_disk (fst dk) s = Inr (after_wait (fst dk) s)"
proof -
  let ?ch = "fst dk"
  have c: "?ch = 0 \<or> ?ch = 1" using assms(1) by (auto simp: driver_ok_def)
  then have i: "irq_no (channels s ?ch) = 0x2e \<or> irq_no (channels s ?ch) = 0x2f"
      "unat (irq_no (channels s ?ch) - 0x2e) = ?ch"
    using assms(1) by (auto simp: driver_ok_def)
  have d: "disk_done (channels s ?ch) + 1 \<noteq> 0"
    using assms(1) by (metis add.right_neutral add_eq_0_iff driver_ok_def minus_unique add.commute)
  show ?thesis using i d assms(2)
    by (simp add: wait_disk_def intr_hd_handler_def after_wait_def set_channel_def inb_status_def Let_def)
qed

lemma busy_wait_ok:
  assumes "driver_ok dk s"
  shows "busy_wait dk s = (True, s\<lparr>status_no := status_no s + 2\<rparr>)"
proof -
  have "busy_wait_loop (Suc (Suc n)) s = (True, s\<lparr>status_no := status_no s + 2\<rparr>)" for n
    using assms by (simp add: driver_ok_def inb_status_def)
  from this [of 29998] show ?thesis by (simp add: busy_wait_def)
qed

lemma unat_bytes_of_sectors:
  assumes "0 < op" and "op \<le> 256"
  shows "unat (bytes_of_sectors (of_nat op) div 2) = 256 * op"
proof (cases "op = 256")
  case False
  then have op: "unat (of_nat op :: u8) = op" "(of_nat op :: u8) \<noteq> 0"
    using assms by (auto simp: unat_of_nat_u8 dest: arg_cong [where f = unat])
  then have "unat (ucast (of_nat op :: u8) * 512 :: u32) = op * 512"
    using assms False by (simp add: unat_word_ariths unsigned_ucast_eq take_bit_nat_eq_self)
  with op show ?thesis by (simp add: bytes_of_sectors_def unat_div)
qed (simp add: bytes_of_sectors_def)

lemma selected_count_op:
  assumes "0 < op" and "op \<le> 256" and "regs s (port_of ch s + 2) = of_nat op"
  shows "selected_count ch s = op"
proof (cases "op = 256")
  case False
  then have "unat (of_nat op :: u8) = op" using assms by (simp add: unat_of_nat_u8)
  with assms show ?thesis by (simp add: selected_count_def)
qed (simp add: selected_count_def assms)

lemma ucast_of_nat_u8: "(ucast (of_nat n :: u32) :: u8) = of_nat n"
proof (rule bit_word_eqI)
  fix i assume "i < LENGTH(8)"
  then show "bit (ucast (of_nat n :: u32) :: u8) i = bit (of_nat n :: u8) i"
    by (simp add: bit_simps)
qed

text \<open>After the command: the registers select the piece, the disk is about to interrupt.\<close>

lemma piece_selected:
  assumes "channel_ok dk s" and "lba \<le> max_lba" and "0 < op" and "op \<le> 256"
  shows "\<exists>t. select_sector dk lba (ucast (of_nat op :: u32)) s = Inr t \<and>
    (\<forall>cmd u. u = cmd_out (fst dk) cmd t \<longrightarrow> same_driver s u \<and> sectors u = sectors s \<and>
       expecting_intr (channels u (fst dk)) \<and> command (fst dk) u = cmd \<and> selected_disk (fst dk) u = dk \<and>
       selected_lba (fst dk) u = lba \<and> selected_count (fst dk) u = op)"
proof -
  have d: "snd dk \<in> {0, 1}" using assms(1) unfolding channel_ok_def driver_ok_def by blast
  obtain t where t: "select_sector dk lba (of_nat op) s = Inr t" "t = s\<lparr>regs := regs t\<rparr>"
      "selected_lba (fst dk) t = lba" "selected_disk (fst dk) t = dk" "regs t (port_of (fst dk) s + 2) = of_nat op"
    using select_sector_regs [OF assms(2) d, of "of_nat op" s] by auto
  have p: "port_of ch (cmd_out (fst dk) cmd t) = port_of ch s" "port_of ch t = port_of ch s" for ch cmd
    by (subst t(2), simp add: port_of_def cmd_out_def set_channel_def outb_def)+
  have r: "regs (cmd_out (fst dk) cmd t) = (regs t)(port_of (fst dk) s + 7 := cmd)" for cmd
    using p(2) by (simp add: cmd_out_def Let_def outb_def set_channel_def port_of_def)
  have "selected_count (fst dk) t = op" using selected_count_op [OF assms(3,4)] t(5) p(2) by simp
  then have sel: "command (fst dk) (cmd_out (fst dk) cmd t) = cmd \<and>
      selected_disk (fst dk) (cmd_out (fst dk) cmd t) = dk \<and>
      selected_lba (fst dk) (cmd_out (fst dk) cmd t) = lba \<and> selected_count (fst dk) (cmd_out (fst dk) cmd t) = op" for cmd
    using t(3,4) p by (simp add: command_def selected_disk_def selected_lba_def selected_count_def r)
  have "same_driver s (cmd_out (fst dk) cmd t) \<and> sectors (cmd_out (fst dk) cmd t) = sectors s \<and>
      expecting_intr (channels (cmd_out (fst dk) cmd t) (fst dk))" for cmd
    by (subst t(2), subst t(2), subst t(2)) (simp add: same_driver_def cmd_out_def outb_def set_channel_def Let_def)
  with sel t(1) show ?thesis by (auto simp: ucast_of_nat_u8)
qed

lemma after_wait_props:
  "same_driver s (after_wait ch s)" "sectors (after_wait ch s) = sectors s" "regs (after_wait ch s) = regs s"
  "port_of c (after_wait ch s) = port_of c s"
  by (simp_all add: after_wait_def same_driver_def set_channel_def port_of_def)

lemma status_no_props:
  "same_driver s (s\<lparr>status_no := n\<rparr>)" "sectors (s\<lparr>status_no := n\<rparr>) = sectors s"
  "regs (s\<lparr>status_no := n\<rparr>) = regs s" "port_of c (s\<lparr>status_no := n\<rparr>) = port_of c s"
  by (simp_all add: same_driver_def port_of_def)

lemmas selection_defs = command_def selected_disk_def selected_lba_def selected_count_def

lemma read_piece:
  assumes ok: "channel_ok dk s" and "lba \<le> max_lba" and op: "0 < op" "op \<le> 256"
  shows "\<exists>t. same_driver s t \<and> sectors t = sectors s \<and>
    (\<forall>k. bindr (select_sector dk lba (ucast (of_nat op :: u32)) s) (\<lambda>s.
       let s = cmd_out (fst dk) 0x20 s
       in bindr (wait_disk (fst dk) s) (\<lambda>s.
          let (ready, s) = busy_wait dk s
          in if \<not> ready then Inl Panic
             else bindr (read_from_sector dk (ucast (of_nat op :: u32)) s) (\<lambda>data. k data s))) =
     k (get_sectors (sectors s dk) lba op) t)"
proof -
  obtain t where t: "select_sector dk lba (ucast (of_nat op :: u32)) s = Inr t"
    and u: "\<And>cmd u. u = cmd_out (fst dk) cmd t \<Longrightarrow> same_driver s u \<and> sectors u = sectors s \<and>
       expecting_intr (channels u (fst dk)) \<and> command (fst dk) u = cmd \<and> selected_disk (fst dk) u = dk \<and>
       selected_lba (fst dk) u = lba \<and> selected_count (fst dk) u = op"
    using piece_selected [OF ok assms(2) op] by blast
  define u where "u = cmd_out (fst dk) 0x20 t"
  note u = u [OF this]
  have len: "length (sectors s dk a) = 512" for a using ok by (simp add: channel_ok_def)
  have uok: "channel_ok dk u" using same_driver_ok [OF ok] u len by auto
  define v where "v = after_wait (fst dk) u"
  have w: "wait_disk (fst dk) u = Inr v" using wait_disk_ok [of dk u] uok u by (simp add: v_def channel_ok_def)
  have v: "same_driver u v" "sectors v = sectors s" "regs v = regs u" "port_of c v = port_of c u" for c
    using after_wait_props u by (simp_all add: v_def)
  have vok: "channel_ok dk v" using same_driver_ok [OF uok v(1)] v(2) len by auto
  define x where "x = v\<lparr>status_no := status_no v + 2\<rparr>"
  note b = busy_wait_ok [OF vok [unfolded channel_ok_def, THEN conjunct1], folded x_def]
  have x: "same_driver v x" "sectors x = sectors s" "regs x = regs u" "port_of c x = port_of c u" for c
    using status_no_props v by (simp_all add: x_def)
  have "command (fst dk) x = 0x20 \<and> selected_disk (fst dk) x = dk \<and> selected_lba (fst dk) x = lba \<and>
      selected_count (fst dk) x = op"
    using u x by (simp add: selection_defs)
  moreover have "length (get_sectors (sectors s dk) lba op) = 512 * op" by (rule length_get_sectors [OF len])
  ultimately have "read_from_sector dk (of_nat op) x = Inr (get_sectors (sectors s dk) lba op)"
    using op x(2) unat_bytes_of_sectors [OF op] by (simp add: read_from_sector_def insw_def)
  then have "\<forall>k. bindr (select_sector dk lba (ucast (of_nat op :: u32)) s) (\<lambda>s.
       let s = cmd_out (fst dk) 0x20 s
       in bindr (wait_disk (fst dk) s) (\<lambda>s.
          let (ready, s) = busy_wait dk s
          in if \<not> ready then Inl Panic
             else bindr (read_from_sector dk (ucast (of_nat op :: u32)) s) (\<lambda>data. k data s))) =
     k (get_sectors (sectors s dk) lba op) x"
    by (simp add: t [unfolded ucast_of_nat_u8] Let_def u_def [symmetric] w b ucast_of_nat_u8)
  moreover have "same_driver s x" using u v(1) x(1) same_driver_trans by blast
  ultimately show ?thesis using x(2) by blast
qed

lemma write_piece:
  assumes ok: "channel_ok dk s" and "lba \<le> max_lba" and op: "0 < op" "op \<le> 256"
  shows "\<exists>t. same_driver s t \<and>
      sectors t = (sectors s)(dk := put_sectors (sectors s dk) lba op (take (512 * op) buf)) \<and>
    (\<forall>k. bindr (select_sector dk lba (ucast (of_nat op :: u32)) s) (\<lambda>s.
       let s = cmd_out (fst dk) 0x30 s; (ready, s) = busy_wait dk s
       in if \<not> ready then Inl Panic
          else bindr (write2sector dk buf (ucast (of_nat op :: u32)) s) (\<lambda>s. bindr (wait_disk (fst dk) s) k)) = k t)"
proof -
  obtain t where t: "select_sector dk lba (ucast (of_nat op :: u32)) s = Inr t"
    and u: "\<And>cmd u. u = cmd_out (fst dk) cmd t \<Longrightarrow> same_driver s u \<and> sectors u = sectors s \<and>
       expecting_intr (channels u (fst dk)) \<and> command (fst dk) u = cmd \<and> selected_disk (fst dk) u = dk \<and>
       selected_lba (fst dk) u = lba \<and> selected_count (fst dk) u = op"
    using piece_selected [OF ok assms(2) op] by blast
  define u where "u = cmd_out (fst dk) 0x30 t"
  note u = u [OF this]
  have len: "length (sectors s dk a) = 512" for a using ok by (simp add: channel_ok_def)
  have uok: "channel_ok dk u" using same_driver_ok [OF ok] u len by auto
  define v where "v = u\<lparr>status_no := status_no u + 2\<rparr>"
  note b = busy_wait_ok [OF uok [unfolded channel_ok_def, THEN conjunct1], folded v_def]
  have v: "same_driver u v" "sectors v = sectors s" "regs v = regs u" "port_of c v = port_of c u"
      "expecting_intr (channels v (fst dk))" for c
    using status_no_props u by (simp_all add: v_def)
  have sel: "command (fst dk) v = 0x30 \<and> selected_disk (fst dk) v = dk \<and> selected_lba (fst dk) v = lba \<and>
      selected_count (fst dk) v = op"
    using u v by (simp add: selection_defs)
  let ?d = "put_sectors (sectors s dk) lba op (take (512 * op) buf)"
  define w where "w = v\<lparr>sectors := (sectors s)(dk := ?d)\<rparr>"
  have wr: "write2sector dk buf (of_nat op) v = Inr w"
    using sel v(2) unat_bytes_of_sectors [OF op] by (simp add: write2sector_def outsw_def w_def)
  have w: "same_driver v w" "expecting_intr (channels w (fst dk))"
    using v(5) by (simp_all add: w_def same_driver_def)
  have "driver_ok dk w" 
    using uok same_driver_ok' [OF same_driver_ok' [OF _ v(1)] w(1)] by (simp add: channel_ok_def)
  then have irq: "wait_disk (fst dk) w = Inr (after_wait (fst dk) w)" using wait_disk_ok w(2) by blast
  have "same_driver s (after_wait (fst dk) w)"
    using u v(1) w(1) after_wait_props(1) same_driver_trans by blast
  moreover have "sectors (after_wait (fst dk) w) = (sectors s)(dk := ?d)"
    by (simp add: after_wait_props w_def)
  ultimately show ?thesis
    using t wr irq by (intro exI [of _ "after_wait (fst dk) w"])
      (simp add: t [unfolded ucast_of_nat_u8] Let_def u_def [symmetric] b ucast_of_nat_u8)
qed

subsection \<open>Whole transfers\<close>

text \<open>The pieces that are left start within the supported sectors.\<close>

definition pieces_ok :: "u32 \<Rightarrow> nat \<Rightarrow> nat \<Rightarrow> bool" where
  "pieces_ok lba n d \<longleftrightarrow> d = n \<or> unat lba + d + 256 * ((n - d - 1) div 256) \<le> unat max_lba"

lemma next_piece:
  assumes "unat (secs_done :: u32) < unat n" and "unat (lba :: u32) + unat secs_done \<le> unat max_lba"
  defines "op \<equiv> min 256 (unat n - unat secs_done)"
  shows "secs_op secs_done n = of_nat op" "unat (secs_done + of_nat op) = unat secs_done + op"
    "0 < op" "op \<le> 256" "unat secs_done + op \<le> unat n"
    "pieces_ok lba (unat n) (unat secs_done) = pieces_ok lba (unat n) (unat secs_done + op)"
proof -
  let ?D = "unat secs_done" and ?N = "unat n"
  have D: "?D + 256 < 4294967296" using assms(2) by simp
  then have u: "unat (secs_done + 256) = ?D + 256" by (simp add: unat_add_u32)
  show "secs_op secs_done n = of_nat op"
  proof (cases "?D + 256 \<le> ?N")
    case True
    then show ?thesis using u by (simp add: secs_op_def op_def word_le_nat_alt)
  next
    case False
    have "n - secs_done = of_nat (?N - ?D)"
      using assms(1) by (metis less_imp_le word_le_nat_alt word_unat_eq_iff unat_sub unat_of_nat_u32
        less_imp_diff_less unat_u32_bound)
    then show ?thesis using u False by (simp add: secs_op_def op_def word_le_nat_alt)
  qed
  show op: "0 < op" "op \<le> 256" "?D + op \<le> ?N" using assms(1) by (auto simp: op_def)
  then show "unat (secs_done + of_nat op) = ?D + op" using D by (simp add: unat_add_u32)
  show "pieces_ok lba ?N ?D = pieces_ok lba ?N (?D + op)"
  proof (cases "?N - ?D \<le> 256")
    case True
    then have "op = ?N - ?D" "(?N - ?D - 1) div 256 = 0" by (simp_all add: op_def)
    with assms(1,2) show ?thesis by (simp add: pieces_ok_def)
  next
    case False
    then have op: "op = 256" "?N - ?D - 1 = (?N - (?D + 256) - 1) + 256" "?D \<noteq> ?N" "?D + 256 \<noteq> ?N"
      by (simp_all add: op_def)
    have "(m + 256) div 256 = Suc (m div 256)" for m :: nat by simp
    then have "(?N - ?D - 1) div 256 = Suc ((?N - (?D + 256) - 1) div 256)" by (simp only: op(2))
    then show ?thesis using op(3,4) unfolding pieces_ok_def op(1) by (simp only: mult_Suc_right) linarith
  qed
qed

lemma no_more_pieces:
  assumes "unat (secs_done :: u32) < unat n" and "\<not> unat (lba :: u32) + unat secs_done \<le> unat max_lba"
    and "unat lba + unat secs_done \<le> unat max_lba + 256"
  shows "\<not> lba + secs_done \<le> max_lba" "\<not> pieces_ok lba (unat n) (unat secs_done)"
proof -
  have "unat (lba + secs_done) = unat lba + unat secs_done" using assms(3) by (simp add: unat_add_u32)
  then show "\<not> lba + secs_done \<le> max_lba" using assms(2) by (simp add: word_le_nat_alt)
  show "\<not> pieces_ok lba (unat n) (unat secs_done)" using assms(1,2) by (simp add: pieces_ok_def)
qed

lemma ide_read_loop_reads:
  assumes "channel_ok dk s" and "unat secs_done \<le> unat n" and "unat lba + unat secs_done \<le> unat max_lba + 256"
    and "unat n - unat secs_done < k"
  shows "if pieces_ok lba (unat n) (unat secs_done)
    then \<exists>t. same_driver s t \<and> sectors t = sectors s \<and> ide_read_loop k dk lba n secs_done buf s =
      Inr (buf @ get_sectors (sectors s dk) (lba + secs_done) (unat n - unat secs_done), t)
    else ide_read_loop k dk lba n secs_done buf s = Inl Panic"
  using assms
proof (induction k arbitrary: secs_done buf s)
  case (Suc k)
  let ?D = "unat secs_done" and ?d = "sectors s dk"
  show ?case
  proof (cases "?D < unat n")
    case False
    then have "?D = unat n" using Suc.prems(2) by simp
    then have "\<not> secs_done < n" "pieces_ok lba (unat n) ?D" by (simp_all add: word_less_nat_alt pieces_ok_def)
    with \<open>?D = unat n\<close> show ?thesis by auto
  next
    case True
    then have lt: "secs_done < n" by (simp add: word_less_nat_alt)
    show ?thesis
    proof (cases "unat lba + ?D \<le> unat max_lba")
      case False
      note no = no_more_pieces [OF True False Suc.prems(3)]
      then have "ide_read_loop (Suc k) dk lba n secs_done buf s = Inl Panic"
        using lt by (simp add: select_sector_def Let_def)
      with no show ?thesis by simp
    next
      case le: True
      define op where "op = min 256 (unat n - ?D)"
      note np = next_piece [OF True le, folded op_def]
      have "unat (lba + secs_done) = unat lba + ?D" using le by (simp add: unat_add_u32)
      then have "lba + secs_done \<le> max_lba" using le by (simp add: word_le_nat_alt)
      from read_piece [OF Suc.prems(1) this np(3,4)]
      obtain t where t: "same_driver s t" "sectors t = sectors s"
        and p: "\<And>k :: u8 list \<Rightarrow> ata \<Rightarrow> (u8 list \<times> ata) res. bindr (select_sector dk (lba + secs_done) (ucast (of_nat op :: u32)) s) (\<lambda>s.
           let s = cmd_out (fst dk) 0x20 s
           in bindr (wait_disk (fst dk) s) (\<lambda>s.
              let (ready, s) = busy_wait dk s
              in if \<not> ready then Inl Panic
                 else bindr (read_from_sector dk (ucast (of_nat op :: u32)) s) (\<lambda>data. k data s))) =
          k (get_sectors ?d (lba + secs_done) op) t" by blast
      have r: "ide_read_loop (Suc k) dk lba n secs_done buf s =
          ide_read_loop k dk lba n (secs_done + of_nat op) (buf @ get_sectors ?d (lba + secs_done) op) t"
        using lt p [of "\<lambda>data s. ide_read_loop k dk lba n (secs_done + of_nat op) (buf @ data) s"]
        by (simp add: Let_def np(1) ucast_of_nat_u8)
      have "channel_ok dk t" using same_driver_ok [OF Suc.prems(1) t(1)] t(2) Suc.prems(1) by (simp add: channel_ok_def)
      note IH = Suc.IH [OF this, of "secs_done + of_nat op" "buf @ get_sectors ?d (lba + secs_done) op", unfolded np(2)]
      have g: "get_sectors ?d (lba + secs_done) op @ get_sectors ?d (lba + (secs_done + of_nat op)) (unat n - (?D + op)) =
          get_sectors ?d (lba + secs_done) (unat n - ?D)"
        using get_sectors_add [of ?d "lba + secs_done" op "unat n - (?D + op)"] np(5) by (simp add: add.assoc)
      have k: "unat n - (?D + op) < k" using np(3,5) Suc.prems(4) by linarith
      show ?thesis
      proof (cases "pieces_ok lba (unat n) ?D")
        case True
        obtain u where "same_driver t u" "sectors u = sectors t" "ide_read_loop k dk lba n (secs_done + of_nat op)
            (buf @ get_sectors ?d (lba + secs_done) op) t = Inr ((buf @ get_sectors ?d (lba + secs_done) op) @
              get_sectors (sectors t dk) (lba + (secs_done + of_nat op)) (unat n - (?D + op)), u)"
          using IH True np k le by auto
        then show ?thesis using True r t g same_driver_trans by (auto intro!: exI [of _ u])
      next
        case False
        then show ?thesis using IH np k le r by auto
      qed
    qed
  qed
qed simp

lemma set_channel_fields [simp]:
  "status (set_channel ch c s) = status s" "sectors (set_channel ch c s) = sectors s"
  "channels (set_channel ch c s) = (channels s)(ch := c)" "regs (set_channel ch c s) = regs s"
  by (simp_all add: set_channel_def)

lemma locked_channel:
  assumes "channel_ok dk s" and "\<not> chan_lock (channels s (fst dk))"
  shows "\<exists>t. lock_channel (fst dk) s = Inr t \<and> channel_ok dk (select_disk dk t) \<and>
    sectors (select_disk dk t) = sectors s \<and> chan_lock (channels (select_disk dk t) (fst dk)) \<and>
    (\<forall>u. same_driver (select_disk dk t) u \<longrightarrow> (\<exists>v. unlock_channel (fst dk) u = Inr v \<and> same_driver s v \<and> sectors v = sectors u))"
proof -
  let ?t = "set_channel (fst dk) (channels s (fst dk)\<lparr>chan_lock := True\<rparr>) s"
  have l: "lock_channel (fst dk) s = Inr ?t" using assms(2) by (simp add: lock_channel_def)
  have "channel_ok dk (select_disk dk ?t)" "sectors (select_disk dk ?t) = sectors s" "chan_lock (channels (select_disk dk ?t) (fst dk))"
    using assms(1) by (auto simp: channel_ok_def driver_ok_def select_disk_def outb_def Let_def)
  moreover have "\<exists>v. unlock_channel (fst dk) u = Inr v \<and> same_driver s v \<and> sectors v = sectors u"
    if "same_driver (select_disk dk ?t) u" for u
    using that assms(2)
    by (auto simp: unlock_channel_def same_driver_def select_disk_def outb_def set_channel_def Let_def ASSERT_def)
  ultimately show ?thesis using l by blast
qed

lemma put_sectors_add:
  assumes "m + k \<le> 4294967296"
  shows "put_sectors (put_sectors d lba m buf) (lba + of_nat m) k (take (512 * k) (drop (512 * m) buf)) =
    put_sectors d lba (m + k) buf"
proof
  fix a
  let ?i = "unat (a - lba)"
  have j: "a - (lba + of_nat m) = (a - lba) - of_nat m" by (simp add: diff_diff_eq)
  have ib: "?i < 4294967296" by simp
  show "put_sectors (put_sectors d lba m buf) (lba + of_nat m) k (take (512 * k) (drop (512 * m) buf)) a =
      put_sectors d lba (m + k) buf a"
  proof (cases "m \<le> ?i")
    case True
    then have m: "unat (of_nat m :: u32) = m" using ib by (meson le_less_trans unat_of_nat_u32)
    have "unat (a - (lba + of_nat m)) = ?i - m"
      unfolding j using True m by (subst unat_sub) (simp_all add: word_le_nat_alt)
    moreover have "take 512 (drop (512 * (?i - m)) (take (512 * k) (drop (512 * m) buf))) = take 512 (drop (512 * ?i) buf)"
      if "?i - m < k"
    proof -
      have "512 * (?i - m) + 512 * m = 512 * ?i" using True by simp
      moreover have "min 512 (512 * k - 512 * (?i - m)) = 512" using that by simp
      ultimately show ?thesis by (simp add: drop_take)
    qed
    ultimately show ?thesis using True by (auto simp: put_sectors_def Let_def)
  next
    case False
    have "\<not> unat (a - (lba + of_nat m)) < k"
    proof (cases "m = 4294967296")
      case True
      then show ?thesis using assms by simp
    next
      case m: False
      then have u: "unat (of_nat m :: u32) = m" using assms by simp
      have "unat (a - (lba + of_nat m)) = 4294967296 + ?i - m"
        unfolding j unat_sub_if' [of "a - lba"] u using False by simp
      then show ?thesis using assms by simp
    qed
    with False show ?thesis by (simp add: put_sectors_def Let_def)
  qed
qed

lemma put_sectors_0 [simp]: "put_sectors d lba 0 buf = d"
  by (simp add: put_sectors_def)

lemma length_put_sectors:
  "(\<And>a. length (d a) = 512) \<Longrightarrow> 512 * n \<le> length buf \<Longrightarrow> length (put_sectors d lba n buf a) = 512"
  by (auto simp: put_sectors_def Let_def)

lemma ide_write_loop_writes:
  assumes "channel_ok dk s" and "unat secs_done \<le> unat n" and "unat lba + unat secs_done \<le> unat max_lba + 256"
    and "unat n - unat secs_done < k" and "512 * unat n \<le> length buf"
    and "sectors s = S(dk := put_sectors (S dk) lba (unat secs_done) buf)" and "\<And>a. length (S dk a) = 512"
  shows "if pieces_ok lba (unat n) (unat secs_done)
    then \<exists>t. same_driver s t \<and> sectors t = S(dk := put_sectors (S dk) lba (unat n) buf) \<and>
      ide_write_loop k dk lba buf n secs_done s = Inr t
    else ide_write_loop k dk lba buf n secs_done s = Inl Panic"
  using assms
proof (induction k arbitrary: secs_done s)
  case (Suc k)
  let ?D = "unat secs_done"
  show ?case
  proof (cases "?D < unat n")
    case False
    then have "?D = unat n" using Suc.prems(2) by simp
    then have "\<not> secs_done < n" "pieces_ok lba (unat n) ?D" by (simp_all add: word_less_nat_alt pieces_ok_def)
    with \<open>?D = unat n\<close> Suc.prems(6) show ?thesis by auto
  next
    case True
    then have lt: "secs_done < n" by (simp add: word_less_nat_alt)
    show ?thesis
    proof (cases "unat lba + ?D \<le> unat max_lba")
      case False
      note no = no_more_pieces [OF True False Suc.prems(3)]
      then have "ide_write_loop (Suc k) dk lba buf n secs_done s = Inl Panic"
        using lt by (simp add: select_sector_def Let_def)
      with no show ?thesis by simp
    next
      case le: True
      define op where "op = min 256 (unat n - ?D)"
      note np = next_piece [OF True le, folded op_def]
      have "unat (lba + secs_done) = unat lba + ?D" using le by (simp add: unat_add_u32)
      then have "lba + secs_done \<le> max_lba" using le by (simp add: word_le_nat_alt)
      from write_piece [OF Suc.prems(1) this np(3,4), of "drop (512 * ?D) buf"]
      obtain t where t: "same_driver s t" "sectors t = (sectors s)(dk := put_sectors (sectors s dk) (lba + secs_done) op
          (take (512 * op) (drop (512 * ?D) buf)))"
        and p: "\<And>k :: ata \<Rightarrow> ata res. bindr (select_sector dk (lba + secs_done) (ucast (of_nat op :: u32)) s) (\<lambda>s.
           let s = cmd_out (fst dk) 0x30 s; (ready, s) = busy_wait dk s
           in if \<not> ready then Inl Panic
              else bindr (write2sector dk (drop (512 * ?D) buf) (ucast (of_nat op :: u32)) s) (\<lambda>s.
                bindr (wait_disk (fst dk) s) k)) = k t" by blast
      have u: "unat (secs_done * 512) = 512 * ?D" using le by (simp add: unat_word_ariths)
      have r: "ide_write_loop (Suc k) dk lba buf n secs_done s = ide_write_loop k dk lba buf n (secs_done + of_nat op) t"
        using lt p [of "\<lambda>s. ide_write_loop k dk lba buf n (secs_done + of_nat op) s"]
        by (simp add: Let_def np(1) ucast_of_nat_u8 u cong: if_cong)
      have "lba + secs_done = lba + of_nat ?D" by simp
      then have sec: "sectors t = S(dk := put_sectors (S dk) lba (?D + op) buf)"
        using put_sectors_add [of ?D op "S dk" lba buf] le_trans [OF np(5) less_imp_le [OF unat_u32_bound]]
        unfolding t(2) Suc.prems(6) by (simp only: fun_upd_same fun_upd_upd)
      have "512 * (?D + op) \<le> length buf" by (rule le_trans [OF mult_le_mono2 [OF np(5)] Suc.prems(5)])
      then have "channel_ok dk t"
        using same_driver_ok [OF Suc.prems(1) t(1)] length_put_sectors [OF Suc.prems(7)] by (simp add: sec)
      note IH = Suc.IH [OF this, of "secs_done + of_nat op", unfolded np(2)]
      have k: "unat n - (?D + op) < k" using np(3,5) Suc.prems(4) by linarith
      show ?thesis
      proof (cases "pieces_ok lba (unat n) ?D")
        case True
        then have "pieces_ok lba (unat n) (?D + op)" using np(6) by simp
        then obtain u where "same_driver t u" "sectors u = S(dk := put_sectors (S dk) lba (unat n) buf)"
            "ide_write_loop k dk lba buf n (secs_done + of_nat op) t = Inr u"
          using IH [OF _ _ k Suc.prems(5) sec Suc.prems(7)] np(3-5) le by auto
        then show ?thesis using True r t same_driver_trans by (auto intro!: exI [of _ u])
      next
        case False
        then show ?thesis using IH [OF _ _ k Suc.prems(5) sec Suc.prems(7)] np le r by auto
      qed
    qed
  qed
qed simp

section \<open>Properties\<close>

lemma pieces_ok_start: "0 < n \<Longrightarrow> pieces_ok lba n 0 = transfer_ok lba n"
  by (simp add: pieces_ok_def transfer_ok_def)

lemma transfer_starts: "transfer_ok lba (unat n) \<Longrightarrow> lba \<le> max_lba \<and> 0 < n"
  by (simp add: transfer_ok_def word_le_nat_alt word_less_nat_alt)

lemma ide_read_agrees:
  assumes "channel_ok dk s" and "\<not> chan_lock (channels s (fst dk))"
  shows "case read_sectors (sectors s dk) lba n of
      Inl e \<Rightarrow> ide_read dk lba n s = Inl e
    | Inr xs \<Rightarrow> \<exists>t. ide_read dk lba n s = Inr (xs, t) \<and> same_driver s t \<and> sectors t = sectors s"
proof (cases "lba \<le> max_lba \<and> 0 < n")
  case False
  then have "\<not> transfer_ok lba (unat n)" using transfer_starts by blast
  with False show ?thesis by (auto simp: read_sectors_def ide_read_def ASSERT_def)
next
  case True
  obtain t where t: "lock_channel (fst dk) s = Inr t" "channel_ok dk (select_disk dk t)"
      "sectors (select_disk dk t) = sectors s"
    and un: "\<And>u. same_driver (select_disk dk t) u \<Longrightarrow>
        \<exists>v. unlock_channel (fst dk) u = Inr v \<and> same_driver s v \<and> sectors v = sectors u"
    using locked_channel [OF assms] by blast
  have "unat lba \<le> unat max_lba" using True by (simp only: word_le_nat_alt)
  note loop = ide_read_loop_reads [OF t(2), of 0 n lba "Suc (unat n)" "[]"]
  have n: "0 < unat n" using True by (simp add: word_less_nat_alt)
  show ?thesis
  proof (cases "transfer_ok lba (unat n)")
    case False
    then have "ide_read_loop (Suc (unat n)) dk lba n 0 [] (select_disk dk t) = Inl Panic"
      using loop \<open>unat lba \<le> unat max_lba\<close> pieces_ok_start [OF n] by (simp del: ide_read_loop.simps)
    with False True t(1) show ?thesis by (simp add: read_sectors_def ide_read_def Let_def del: ide_read_loop.simps)
  next
    case ok: True
    obtain u where u: "same_driver (select_disk dk t) u" "sectors u = sectors s"
        "ide_read_loop (Suc (unat n)) dk lba n 0 [] (select_disk dk t) = Inr (get_sectors (sectors s dk) lba (unat n), u)"
      using loop \<open>unat lba \<le> unat max_lba\<close> pieces_ok_start [OF n] t(3) ok by (auto simp del: ide_read_loop.simps)
    obtain v where "unlock_channel (fst dk) u = Inr v" "same_driver s v" "sectors v = sectors s" using un [OF u(1)] u(2) by auto
    with ok True t(1) u(3) show ?thesis
      by (simp add: read_sectors_def ide_read_def Let_def del: ide_read_loop.simps)
  qed
qed

text \<open>\<open>ide_read\<close> delivers the bytes of the sectors that are asked for, however many commands it
  takes, and changes no sector; it panics exactly when a piece of 256 sectors starts past the supported
  end of the disk, or on an empty transfer. So it agrees with \<open>read_sectors\<close>.\<close>

theorem ide_read_sectors:
  assumes "channel_ok dk s" and "\<not> chan_lock (channels s (fst dk))"
  shows "case read_sectors (sectors s dk) lba n of
      Inl e \<Rightarrow> ide_read dk lba n s = Inl e
    | Inr xs \<Rightarrow> \<exists>t. ide_read dk lba n s = Inr (xs, t) \<and> same_driver s t \<and> sectors t = sectors s"
  using assms by (rule ide_read_agrees)

lemma ide_write_agrees:
  assumes "channel_ok dk s" and "\<not> chan_lock (channels s (fst dk))" and "512 * unat n \<le> length buf"
  shows "case write_sectors (sectors s dk) lba buf n of
      Inl e \<Rightarrow> ide_write dk lba buf n s = Inl e
    | Inr d \<Rightarrow> \<exists>t. ide_write dk lba buf n s = Inr t \<and> same_driver s t \<and> sectors t = (sectors s)(dk := d)"
proof (cases "lba \<le> max_lba \<and> 0 < n")
  case False
  then have "\<not> transfer_ok lba (unat n)" using transfer_starts by blast
  with False show ?thesis by (auto simp: write_sectors_def ide_write_def ASSERT_def)
next
  case True
  obtain t where t: "lock_channel (fst dk) s = Inr t" "channel_ok dk (select_disk dk t)"
      "sectors (select_disk dk t) = sectors s"
    and un: "\<And>u. same_driver (select_disk dk t) u \<Longrightarrow>
        \<exists>v. unlock_channel (fst dk) u = Inr v \<and> same_driver s v \<and> sectors v = sectors u"
    using locked_channel [OF assms(1,2)] by blast
  have "unat lba \<le> unat max_lba" using True by (simp only: word_le_nat_alt)
  have len: "\<And>a. length (sectors s dk a) = 512" using assms(1) by (simp add: channel_ok_def)
  note loop = ide_write_loop_writes [OF t(2), of 0 n lba "Suc (unat n)" buf "sectors s", OF _ _ _ assms(3) _ len]
  have n: "0 < unat n" using True by (simp add: word_less_nat_alt)
  show ?thesis
  proof (cases "transfer_ok lba (unat n)")
    case False
    then have "ide_write_loop (Suc (unat n)) dk lba buf n 0 (select_disk dk t) = Inl Panic"
      using loop \<open>unat lba \<le> unat max_lba\<close> pieces_ok_start [OF n] t(3) by (simp del: ide_write_loop.simps)
    with False True t(1) show ?thesis by (simp add: write_sectors_def ide_write_def Let_def del: ide_write_loop.simps)
  next
    case ok: True
    obtain u where u: "same_driver (select_disk dk t) u"
        "sectors u = (sectors s)(dk := put_sectors (sectors s dk) lba (unat n) buf)"
        "ide_write_loop (Suc (unat n)) dk lba buf n 0 (select_disk dk t) = Inr u"
      using loop \<open>unat lba \<le> unat max_lba\<close> pieces_ok_start [OF n] t(3) ok by (auto simp del: ide_write_loop.simps)
    obtain v where "unlock_channel (fst dk) u = Inr v" "same_driver s v" "sectors v = sectors u" using un [OF u(1)] by auto
    with ok True t(1) u(2,3) show ?thesis
      by (simp add: write_sectors_def ide_write_def Let_def del: ide_write_loop.simps)
  qed
qed

text \<open>\<open>ide_write\<close> stores the buffer in the sectors that are asked for and leaves the other sectors and
  the other disks alone; it panics exactly when \<open>ide_read\<close> does. So it agrees with \<open>write_sectors\<close>.\<close>

theorem ide_write_sectors:
  assumes "channel_ok dk s" and "\<not> chan_lock (channels s (fst dk))" and "512 * unat n \<le> length buf"
  shows "case write_sectors (sectors s dk) lba buf n of
      Inl e \<Rightarrow> ide_write dk lba buf n s = Inl e
    | Inr d \<Rightarrow> \<exists>t. ide_write dk lba buf n s = Inr t \<and> same_driver s t \<and> sectors t = (sectors s)(dk := d)"
  using assms by (rule ide_write_agrees)

text \<open>A driver with one channel, as \<open>ide_init\<close> leaves it, and disks that hold zeros.\<close>

definition no_part :: part_entry where
  "no_part = \<lparr>part_start = 0, part_sects = 0, part_disk = (0, 0), part_name = []\<rparr>"

definition idle_driver :: ata where
  "idle_driver = \<lparr>regs = \<lambda>_. 0, sectors = \<lambda>_ _. replicate 512 0, identity = \<lambda>_. replicate 512 0, status = \<lambda>_. 0x8,
     status_no = 0, channels = \<lambda>ch. \<lparr>port_base = if ch = 0 then 0x1f0 else 0x170, irq_no = if ch = 0 then 0x2e else 0x2f,
       chan_lock = False, expecting_intr = False, disk_done = 0\<rparr>, channel_cnt = 2,
     prim_parts = \<lambda>_. replicate 4 no_part, logic_parts = \<lambda>_. replicate 8 no_part, partition_list = [], ext_lba_base = 0, p_no = 0, l_no = 0\<rparr>"

lemma idle_driver_ok: "channel_ok (0, 1) idle_driver" "\<not> chan_lock (channels idle_driver (fst (0, 1)))"
  by (simp_all add: channel_ok_def driver_ok_def idle_driver_def)

theorem ide_read_sectors_witness:
  "\<exists>t. ide_read (0, 1) 5 300 idle_driver = Inr (get_sectors (\<lambda>_. replicate 512 0) 5 300, t)"
  using ide_read_sectors [OF idle_driver_ok, of 5 300]
  by (auto simp: read_sectors_def transfer_ok_def idle_driver_def)

theorem ide_write_sectors_witness:
  "\<exists>t. ide_write (0, 1) 5 (replicate 153600 7) 300 idle_driver = Inr t \<and> sectors t (0, 0) 5 = replicate 512 0"
proof -
  have "512 * unat (300 :: u32) \<le> length (replicate 153600 (7 :: u8))" by simp
  from ide_write_sectors [OF idle_driver_ok this, of 5]
  obtain t where "ide_write (0, 1) 5 (replicate 153600 7) 300 idle_driver = Inr t"
      "\<exists>d. sectors t = (sectors idle_driver)((0, 1) := d)"
    by (auto simp: write_sectors_def transfer_ok_def)
  moreover have "sectors idle_driver (0, 0) 5 = replicate 512 0" by (simp add: idle_driver_def)
  ultimately show ?thesis by auto
qed

lemma ide_read_one:
  assumes "channel_ok dk s" and "\<not> chan_lock (channels s (fst dk))" and "lba \<le> max_lba"
  shows "\<exists>t. ide_read dk lba 1 s = Inr (sectors s dk lba, t) \<and> same_driver s t \<and> sectors t = sectors s"
  using ide_read_agrees [OF assms(1,2), of lba 1] assms(3)
  by (simp add: read_sectors_def transfer_ok_def word_le_nat_alt get_sectors_def)

lemma scan_primary:
  assumes "\<forall>p\<in>set ps. fs_type p \<noteq> 5" and "unat (p_no s) < 4"
  shows "scan_entries dk 0 ps s = Some (if unat (p_no s) + length (filter (\<lambda>p. fs_type p \<noteq> 0) ps) < 4
    then Inr (fold (add_prim dk 0) (filter (\<lambda>p. fs_type p \<noteq> 0) ps) s) else Inl Panic)"
  using assms
proof (induction ps arbitrary: s)
  case (Cons p ps)
  have n: "p_no (add_prim dk 0 p s) = p_no s + 1" by (simp add: add_prim_def Let_def)
  have u: "unat (p_no s + 1) = Suc (unat (p_no s))" using Cons.prems(2) by (simp add: unat_plus_if')
  have "\<not> 4 \<le> p_no s" "p_no s + 1 < 4 \<longleftrightarrow> Suc (unat (p_no s)) < 4"
    using Cons.prems(2) u by (simp_all add: word_le_nat_alt word_less_nat_alt)
  with Cons n u show ?case by (subst scan_entries.simps) (auto simp: Let_def)
qed (simp add: scan_entries.simps)

text \<open>Scanning a disk without extended partitions records the used entries of its partition table
  in their order; a table with four used entries panics.\<close>

theorem partition_scan_primary:
  assumes "channel_ok dk s" and "\<not> chan_lock (channels s (fst dk))" and "p_no s = 0"
    and "\<forall>p\<in>set (partition_table (sectors s dk 0)). fs_type p \<noteq> 5"
  shows "let used = filter (\<lambda>p. fs_type p \<noteq> 0) (partition_table (sectors s dk 0))
    in if length used < 4 then \<exists>t. partition_scan dk 0 s = Inr (fold (add_prim dk 0) used t) \<and>
           same_driver s t \<and> sectors t = sectors s
       else partition_scan dk 0 s = Inl Panic"
proof -
  obtain t where t: "ide_read dk 0 1 s = Inr (sectors s dk 0, t)" "same_driver s t" "sectors t = sectors s"
    using ide_read_one [OF assms(1,2), of 0] by auto
  then have "p_no t = 0" using assms(3) by (simp add: same_driver_def)
  with t show ?thesis using scan_primary [OF assms(4), of t dk]
    by (auto simp: partition_scan_def Let_def)
qed

theorem partition_scan_primary_witness:
  "\<exists>t. partition_scan (0, 1) 0 idle_driver = Inr t \<and> sectors t = sectors idle_driver"
proof -
  have t: "partition_table (sectors idle_driver (0, 1) 0) = replicate 4 \<lparr>fs_type = 0, entry_start = 0, entry_sects = 0\<rparr>"
    by (simp add: partition_table_def idle_driver_def le32_def upt_rec numeral_eq_Suc)
  have "\<forall>p\<in>set (partition_table (sectors idle_driver (0, 1) 0)). fs_type p \<noteq> 5" unfolding t by simp
  then show ?thesis using partition_scan_primary [OF idle_driver_ok] unfolding t
    by (auto simp: idle_driver_def)
qed

section \<open>The interface to the file system\<close>

text \<open>
  What a client of a disk relies on: it behaves like \<open>read_sectors\<close> and \<open>write_sectors\<close> on its
  sectors, refusals included, and stays in working order. A script is a sequence of transfers; its
  result is the data that were read.
\<close>

datatype transfer = Fetch u32 u32 | Store u32 "u8 list" u32

fun run_script :: "(u32 \<Rightarrow> u32 \<Rightarrow> 's \<Rightarrow> (u8 list \<times> 's) res) \<Rightarrow> (u32 \<Rightarrow> u8 list \<Rightarrow> u32 \<Rightarrow> 's \<Rightarrow> 's res) \<Rightarrow>
    transfer list \<Rightarrow> 's \<Rightarrow> (u8 list list \<times> 's) res" where
  "run_script get put [] s = Inr ([], s)"
| "run_script get put (Fetch lba n # ts) s =
     bindr (get lba n s) (\<lambda>(xs, s). bindr (run_script get put ts s) (\<lambda>(ys, s). Inr (xs # ys, s)))"
| "run_script get put (Store lba buf n # ts) s = bindr (put lba buf n s) (run_script get put ts)"

abbreviation run_sectors :: "transfer list \<Rightarrow> (u32 \<Rightarrow> u8 list) \<Rightarrow> (u8 list list \<times> (u32 \<Rightarrow> u8 list)) res" where
  "run_sectors \<equiv> run_script (\<lambda>lba n d. bindr (read_sectors d lba n) (\<lambda>xs. Inr (xs, d))) (\<lambda>lba buf n d. write_sectors d lba buf n)"

text \<open>The buffers hold what is to be written.\<close>

fun covered :: "transfer \<Rightarrow> bool" where
  "covered (Fetch lba n) \<longleftrightarrow> True"
| "covered (Store lba buf n) \<longleftrightarrow> 512 * unat n \<le> length buf"

lemma get_put_sectors:
  assumes "n < 4294967296" and "length buf = 512 * n"
  shows "get_sectors (put_sectors d lba n buf) lba n = buf"
proof -
  have "map (\<lambda>i. put_sectors d lba n buf (lba + of_nat i)) [0..<n] = map (\<lambda>i. take 512 (drop (512 * i) buf)) [0..<n]"
    using assms(1) by (auto simp: put_sectors_def unat_of_nat_u32)
  then have "get_sectors (put_sectors d lba n buf) lba n = concat (map (\<lambda>i. take 512 (drop (512 * i) buf)) [0..<n])"
    by (simp only: get_sectors_def)
  moreover have "concat (map (\<lambda>i. take 512 (drop (512 * i) buf)) [0..<n]) = take (512 * n) buf"
    by (induction n) (simp_all add: add.commute [of 512] take_add)
  ultimately show ?thesis using assms(2) by simp
qed

locale block_device =
  fixes ok :: "'s \<Rightarrow> bool"
    and content :: "'s \<Rightarrow> u32 \<Rightarrow> u8 list"
    and get :: "u32 \<Rightarrow> u32 \<Rightarrow> 's \<Rightarrow> (u8 list \<times> 's) res"
    and put :: "u32 \<Rightarrow> u8 list \<Rightarrow> u32 \<Rightarrow> 's \<Rightarrow> 's res"
  assumes get_refused: "ok s \<Longrightarrow> read_sectors (content s) lba n = Inl e \<Longrightarrow> get lba n s = Inl e"
    and get_done: "ok s \<Longrightarrow> read_sectors (content s) lba n = Inr xs \<Longrightarrow>
      \<exists>t. get lba n s = Inr (xs, t) \<and> ok t \<and> content t = content s"
    and put_refused: "ok s \<Longrightarrow> 512 * unat n \<le> length buf \<Longrightarrow> write_sectors (content s) lba buf n = Inl e \<Longrightarrow>
      put lba buf n s = Inl e"
    and put_done: "ok s \<Longrightarrow> 512 * unat n \<le> length buf \<Longrightarrow> write_sectors (content s) lba buf n = Inr d \<Longrightarrow>
      \<exists>t. put lba buf n s = Inr t \<and> ok t \<and> content t = d"
begin

text \<open>A script runs on the device as on the sectors alone.\<close>

lemma script_agrees:
  "ok s \<Longrightarrow> list_all covered ts \<Longrightarrow>
    (case run_sectors ts (content s) of
       Inl e \<Rightarrow> run_script get put ts s = Inl e
     | Inr (ys, d) \<Rightarrow> \<exists>t. run_script get put ts s = Inr (ys, t) \<and> ok t \<and> content t = d)"
proof (induction ts arbitrary: s)
  case (Cons x ts)
  have rest: "list_all covered ts" using Cons.prems(2) by simp
  show ?case
  proof (cases x)
    case (Fetch lba n)
    show ?thesis
    proof (cases "read_sectors (content s) lba n")
      case (Inl e)
      with get_refused [OF Cons.prems(1) Inl] show ?thesis by (simp add: Fetch)
    next
      case (Inr xs)
      from get_done [OF Cons.prems(1) Inr] obtain t where t: "get lba n s = Inr (xs, t)" "ok t" "content t = content s" by blast
      from Cons.IH [OF t(2) rest] show ?thesis
        by (cases "run_sectors ts (content s)") (auto simp: Fetch Inr t)
    qed
  next
    case (Store lba buf n)
    then have len: "512 * unat n \<le> length buf" using Cons.prems(2) by simp
    show ?thesis
    proof (cases "write_sectors (content s) lba buf n")
      case (Inl e)
      with put_refused [OF Cons.prems(1) len Inl] show ?thesis by (simp add: Store)
    next
      case (Inr d)
      from put_done [OF Cons.prems(1) len Inr] obtain t where t: "put lba buf n s = Inr t" "ok t" "content t = d" by blast
      from Cons.IH [OF t(2) rest] show ?thesis
        by (cases "run_sectors ts d") (auto simp: Store Inr t)
    qed
  qed
qed simp

text \<open>What was written is read back.\<close>

lemma put_get:
  assumes "ok s" and "length buf = 512 * unat n" and "transfer_ok lba (unat n)"
  shows "\<exists>t u. put lba buf n s = Inr t \<and> get lba n t = Inr (buf, u) \<and> ok u"
proof -
  let ?d = "put_sectors (content s) lba (unat n) buf"
  have "write_sectors (content s) lba buf n = Inr ?d" using assms(3) by (simp add: write_sectors_def)
  from put_done [OF assms(1) _ this] assms(2) obtain t where t: "put lba buf n s = Inr t" "ok t" "content t = ?d" by auto
  have "read_sectors (content t) lba n = Inr buf"
    using assms(3) get_put_sectors [OF _ assms(2)] unsigned_less [of n] by (simp add: read_sectors_def t(3))
  from get_done [OF t(2) this] t(1) show ?thesis by auto
qed

end

definition working :: "disk_id \<Rightarrow> ata \<Rightarrow> bool" where
  "working dk s \<longleftrightarrow> channel_ok dk s \<and> \<not> chan_lock (channels s (fst dk))"

lemma working_same:
  assumes "working dk s" and "same_driver s t" and "\<And>a. length (sectors t dk a) = 512"
  shows "working dk t"
  using assms same_driver_ok [of dk s t] by (simp add: working_def same_driver_def)

text \<open>The driver is a block device, for each of its disks.\<close>

interpretation drv: block_device "working dk" "\<lambda>s. sectors s dk" "ide_read dk" "ide_write dk" for dk
proof unfold_locales
  fix s lba n
  assume w: "working dk s"
  then have c: "channel_ok dk s" "\<not> chan_lock (channels s (fst dk))" "\<And>a. length (sectors s dk a) = 512"
    by (simp_all add: working_def channel_ok_def)
  note r = ide_read_agrees [OF c(1,2), of lba n]
  show "read_sectors (sectors s dk) lba n = Inl e \<Longrightarrow> ide_read dk lba n s = Inl e" for e
    using r by simp
  show "\<exists>t. ide_read dk lba n s = Inr (xs, t) \<and> working dk t \<and> sectors t dk = sectors s dk"
    if "read_sectors (sectors s dk) lba n = Inr xs" for xs
    using r that working_same [OF w] c(3) by auto
  fix buf :: "u8 list"
  assume len: "512 * unat n \<le> length buf"
  note p = ide_write_agrees [OF c(1,2) len, of lba]
  show "write_sectors (sectors s dk) lba buf n = Inl e \<Longrightarrow> ide_write dk lba buf n s = Inl e" for e
    using p by simp
  show "\<exists>t. ide_write dk lba buf n s = Inr t \<and> working dk t \<and> sectors t dk = d"
    if d: "write_sectors (sectors s dk) lba buf n = Inr d" for d
  proof -
    have "d = put_sectors (sectors s dk) lba (unat n) buf"
      using d by (auto simp: write_sectors_def ASSERT_def bindr_def split: if_splits sum.splits)
    then have "length (d a) = 512" for a using length_put_sectors [OF c(3) len] by simp
    then show ?thesis using p d working_same [OF w] by auto
  qed
qed

end
