(* ===== verification/Inode.thy ===== *)
theory Inode
  imports Ide Bitmap
begin

unbundle bit_operations_syntax

text \<open>
  The state of the file system and the inodes of \<^verbatim>\<open>fs/inode.c\<close>, with the bitmap functions of
  \<^verbatim>\<open>fs/file.c\<close> that they use. The disk is the map of its sectors, on which \<open>read_sectors\<close> and
  \<open>write_sectors\<close> are the driver; the two bitmaps of the mounted partition are bytes of memory. An inode
  or a directory in memory is the value at its address. A buffer that a function allocates and frees is a
  value of the function; \<open>mallocs\<close> are the addresses that the next calls of \<open>sys_malloc\<close> answer with, 0
  for a request that is refused. \<open>garbage\<close> are the bytes of a local variable that is not initialised. The partition argument of the functions is always \<open>cur_part\<close>.
\<close>

section \<open>The state\<close>

record inode =
  i_no :: u32
  i_size :: u32
  i_open_cnts :: u32
  write_deny :: u32
  i_sectors :: "u32 list"

record super_block =
  magic :: u32
  sb_sec_cnt :: u32
  inode_cnt :: u32
  part_lba_base :: u32
  block_bitmap_lba :: u32
  block_bitmap_sects :: u32
  inode_bitmap_lba :: u32
  inode_bitmap_sects :: u32
  inode_table_lba :: u32
  inode_table_sects :: u32
  data_start_lba :: u32
  root_inode_no :: u32
  dir_entry_size :: u32

record partition =
  start_lba :: u32
  sec_cnt :: u32
  my_disk :: disk_id
  sb :: super_block
  block_bitmap :: bitmap
  inode_bitmap :: bitmap
  open_inodes :: "addr list"

record dir =
  dir_inode :: addr
  dir_pos :: u32

record open_file =
  fd_pos :: u32
  fd_flag :: u32
  fd_inode :: addr

record fs =
  fs_bytes :: mem
  disks :: "disk_id \<Rightarrow> u32 \<Rightarrow> u8 list"
  cur_part :: partition
  inodes :: "addr \<Rightarrow> inode"
  dirs :: "addr \<Rightarrow> dir"
  root_dir :: addr
  file_table :: "open_file list"
  fd_table :: "u32 list"
  cwd_inode_nr :: u32
  mallocs :: "addr list"
  garbage :: "nat \<Rightarrow> u8"

definition heap_alloc :: "fs \<Rightarrow> addr \<times> fs" where
  "heap_alloc s = (case mallocs s of [] \<Rightarrow> (NULL, s) | a # as \<Rightarrow> (a, s\<lparr>mallocs := as\<rparr>))"

definition read_disk :: "u32 \<Rightarrow> u32 \<Rightarrow> fs \<Rightarrow> u8 list res" where
  "read_disk lba n s = read_sectors (disks s (my_disk (cur_part s))) lba n"

definition write_disk :: "u32 \<Rightarrow> u8 list \<Rightarrow> u32 \<Rightarrow> fs \<Rightarrow> fs res" where
  "write_disk lba buf n s =
     (let dk = my_disk (cur_part s)
      in bindr (write_sectors (disks s dk) lba buf n) (\<lambda>d. Inr (s\<lparr>disks := (disks s)(dk := d)\<rparr>)))"

definition set_inode :: "addr \<Rightarrow> inode \<Rightarrow> fs \<Rightarrow> fs" where
  "set_inode p i s = s\<lparr>inodes := (inodes s)(p := i)\<rparr>"

text \<open>Writing bytes into a buffer, from an offset on.\<close>

definition splice :: "u8 list \<Rightarrow> nat \<Rightarrow> u8 list \<Rightarrow> u8 list" where
  "splice buf off xs = take off buf @ xs @ drop (off + length xs) buf"

section \<open>Words on disk\<close>

definition bytes32 :: "u32 \<Rightarrow> u8 list" where
  "bytes32 w = [ucast w, ucast (drop_bit 8 w), ucast (drop_bit 16 w), ucast (drop_bit 24 w)]"

fun words_of :: "u8 list \<Rightarrow> u32 list" where
  "words_of (a # b # c # d # xs) = le32 [a, b, c, d] # words_of xs"
| "words_of xs = []"

definition bytes_of :: "u32 list \<Rightarrow> u8 list" where
  "bytes_of ws = concat (map bytes32 ws)"

text \<open>\<open>struct inode\<close> on disk: 76 bytes, the last 8 are the list element.\<close>

definition encode_inode :: "inode \<Rightarrow> u8 list" where
  "encode_inode i = bytes_of ([i_no i, i_size i, i_open_cnts i, write_deny i] @ i_sectors i) @ replicate 8 0"

definition decode_inode :: "u8 list \<Rightarrow> inode" where
  "decode_inode bs = (let ws = words_of bs in \<lparr>i_no = ws ! 0, i_size = ws ! 1, i_open_cnts = ws ! 2,
     write_deny = ws ! 3, i_sectors = take 13 (drop 4 ws)\<rparr>)"

section \<open>The bitmaps\<close>

datatype bitmap_type = INODE_BITMAP | BLOCK_BITMAP

definition inode_bitmap_alloc :: "fs \<Rightarrow> (u32 \<times> fs) res" where
  "inode_bitmap_alloc s =
     (let b = inode_bitmap (cur_part s)
      in bindr (bitmap_scan (fs_bytes s) b 1) (\<lambda>bit_idx.
         if bit_idx = -1 then Inr (-1, s)
         else bindr (bitmap_set (fs_bytes s) b bit_idx 1) (\<lambda>m. Inr (bit_idx, s\<lparr>fs_bytes := m\<rparr>))))"

definition block_bitmap_alloc :: "fs \<Rightarrow> (u32 \<times> fs) res" where
  "block_bitmap_alloc s =
     (let b = block_bitmap (cur_part s)
      in bindr (bitmap_scan (fs_bytes s) b 1) (\<lambda>bit_idx.
         if bit_idx = -1 then Inr (-1, s)
         else bindr (bitmap_set (fs_bytes s) b bit_idx 1) (\<lambda>m.
              Inr (data_start_lba (sb (cur_part s)) + bit_idx, s\<lparr>fs_bytes := m\<rparr>))))"

definition bitmap_sync :: "u32 \<Rightarrow> bitmap_type \<Rightarrow> fs \<Rightarrow> fs res" where
  "bitmap_sync bit_idx btmp s =
     (let part = cur_part s; off_sec = bit_idx div 4096; off_size = off_sec * 512;
          (sec_lba, bitmap_off) = (case btmp of
             INODE_BITMAP \<Rightarrow> (inode_bitmap_lba (sb part) + off_sec, bits (inode_bitmap part) + off_size)
           | BLOCK_BITMAP \<Rightarrow> (block_bitmap_lba (sb part) + off_sec, bits (block_bitmap part) + off_size))
      in write_disk sec_lba (map (\<lambda>i. fs_bytes s (bitmap_off + of_nat i)) [0..<512]) 1 s)"

text \<open>Giving a block back: its bit is cleared in memory and on disk.\<close>

definition free_block :: "u32 \<Rightarrow> fs \<Rightarrow> fs res" where
  "free_block lba s =
     (let block_bitmap_idx = lba - data_start_lba (sb (cur_part s))
      in bindr (ASSERT (block_bitmap_idx > 0)) (\<lambda>_.
         bindr (bitmap_set (fs_bytes s) (block_bitmap (cur_part s)) block_bitmap_idx 0) (\<lambda>m.
         bitmap_sync block_bitmap_idx BLOCK_BITMAP (s\<lparr>fs_bytes := m\<rparr>))))"

section \<open>inode.c\<close>

record inode_position =
  two_sec :: bool
  sec_lba :: u32
  off_size :: u32

definition inode_locate :: "u32 \<Rightarrow> fs \<Rightarrow> inode_position res" where
  "inode_locate inode_no s =
     bindr (ASSERT (inode_no < 4096)) (\<lambda>_.
     let inode_size = 76; off = inode_no * inode_size; off_sec = off div 512; off_in_sec = off mod 512;
         left_in_sec = 512 - off_in_sec
     in Inr \<lparr>two_sec = left_in_sec < inode_size, sec_lba = inode_table_lba (sb (cur_part s)) + off_sec,
          off_size = off_in_sec\<rparr>)"

text \<open>Reading the sectors of an inode, changing its bytes, and writing them back.\<close>

definition patch_inode :: "inode_position \<Rightarrow> u8 list \<Rightarrow> fs \<Rightarrow> fs res" where
  "patch_inode pos xs s =
     (let n = (if two_sec pos then 2 else 1)
      in bindr (read_disk (sec_lba pos) n s) (\<lambda>buf.
         write_disk (sec_lba pos) (splice buf (unat (off_size pos)) xs) n s))"

definition inode_sync :: "inode \<Rightarrow> fs \<Rightarrow> fs res" where
  "inode_sync inode s =
     (let inode_no = ucast (ucast (i_no inode) :: u8)
      in bindr (inode_locate inode_no s) (\<lambda>pos.
         bindr (ASSERT (sec_lba pos \<le> start_lba (cur_part s) + sec_cnt (cur_part s))) (\<lambda>_.
         let pure_inode = inode\<lparr>i_open_cnts := 0, write_deny := 0\<rparr>
         in patch_inode pos (encode_inode pure_inode) s)))"

definition inode_open :: "u32 \<Rightarrow> fs \<Rightarrow> (addr \<times> fs) res" where
  "inode_open inode_no s =
     (case find (\<lambda>p. i_no (inodes s p) = inode_no) (open_inodes (cur_part s)) of
        Some p \<Rightarrow> let i = inodes s p in Inr (p, set_inode p (i\<lparr>i_open_cnts := i_open_cnts i + 1\<rparr>) s)
      | None \<Rightarrow>
          bindr (inode_locate inode_no s) (\<lambda>pos.
          let (inode_found, s) = heap_alloc s; (inode_buf, s) = heap_alloc s
          in if inode_buf = NULL then Inl OutOfBounds
             else bindr (read_disk (sec_lba pos) (if two_sec pos then 2 else 1) s) (\<lambda>buf.
                  bindr (ASSERT (inode_found \<noteq> NULL)) (\<lambda>_.
                  let i = decode_inode (take 76 (drop (unat (off_size pos)) buf));
                      part = cur_part s;
                      s = s\<lparr>cur_part := part\<lparr>open_inodes := inode_found # open_inodes part\<rparr>\<rparr>
                  in Inr (inode_found, set_inode inode_found (i\<lparr>i_open_cnts := 1\<rparr>) s)))))"

definition inode_close :: "addr \<Rightarrow> fs \<Rightarrow> fs res" where
  "inode_close p s =
     (let i = inodes s p; cnt = i_open_cnts i - 1; s = set_inode p (i\<lparr>i_open_cnts := cnt\<rparr>) s
      in if cnt = 0 then
           let part = cur_part s
           in bindr (ASSERT (p \<noteq> NULL)) (\<lambda>_. Inr (s\<lparr>cur_part := part\<lparr>open_inodes := remove1 p (open_inodes part)\<rparr>\<rparr>))
         else Inr s)"

definition inode_delete :: "u32 \<Rightarrow> fs \<Rightarrow> fs res" where
  "inode_delete inode_no s =
     bindr (ASSERT (inode_no < 4096)) (\<lambda>_.
     bindr (inode_locate inode_no s) (\<lambda>pos.
     bindr (ASSERT (sec_lba pos \<le> start_lba (cur_part s) + sec_cnt (cur_part s))) (\<lambda>_.
     patch_inode pos (replicate 76 0) s)))"

text \<open>The loop over the blocks of the file.\<close>

primrec free_blocks :: "u32 list \<Rightarrow> fs \<Rightarrow> fs res" where
  "free_blocks [] s = Inr s"
| "free_blocks (b # bs) s =
     (if b \<noteq> 0 then bindr (free_block b s) (free_blocks bs) else free_blocks bs s)"

definition inode_release :: "u32 \<Rightarrow> fs \<Rightarrow> fs res" where
  "inode_release inode_no s =
     bindr (inode_open inode_no s) (\<lambda>(inode_to_del, s).
     let i = inodes s inode_to_del
     in bindr (ASSERT (i_no i = inode_no)) (\<lambda>_.
        let direct = take 12 (i_sectors i); table = i_sectors i ! 12
        in bindr (if table \<noteq> 0 then bindr (read_disk table 1 s) (\<lambda>bs.
               bindr (free_block table s) (\<lambda>s. Inr (direct @ words_of bs, s)))
             else Inr (direct, s)) (\<lambda>(all_blocks, s).
        bindr (free_blocks all_blocks s) (\<lambda>s.
        bindr (bitmap_set (fs_bytes s) (inode_bitmap (cur_part s)) inode_no 0) (\<lambda>m.
        bindr (bitmap_sync inode_no INODE_BITMAP (s\<lparr>fs_bytes := m\<rparr>)) (\<lambda>s.
        let (io_buf, s) = heap_alloc s
        in if io_buf = NULL then Inl OutOfBounds
           else bindr (inode_delete inode_no s) (inode_close inode_to_del)))))))"

definition inode_init :: "u32 \<Rightarrow> inode" where
  "inode_init inode_no = \<lparr>i_no = inode_no, i_size = 0, i_open_cnts = 0, write_deny = 0, i_sectors = replicate 13 0\<rparr>"

section \<open>Bytes and words\<close>

lemma le32_bytes32 [simp]: "le32 (bytes32 w) = w"
proof (rule bit_word_eqI)
  fix n assume "n < LENGTH(32)"
  then show "bit (le32 (bytes32 w)) n = bit w n"
    by (cases "n < 8"; cases "n < 16"; cases "n < 24") (auto simp: le32_def bytes32_def bit_simps)
qed

lemma length_bytes32 [simp]: "length (bytes32 w) = 4"
  by (simp add: bytes32_def)

lemma words_of_append: "words_of (bytes32 w @ xs) = w # words_of xs"
  using le32_bytes32 [of w] by (simp add: bytes32_def)

lemma words_of_bytes_of [simp]: "words_of (bytes_of ws @ xs) = ws @ words_of xs"
  by (induction ws) (simp_all add: bytes_of_def words_of_append)

lemma words_of_bytes_of' [simp]: "words_of (bytes_of ws) = ws"
  using words_of_bytes_of [of ws "[]"] by simp

lemma length_bytes_of [simp]: "length (bytes_of ws) = 4 * length ws"
  by (induction ws) (simp_all add: bytes_of_def)

lemma length_words_of: "length (words_of xs) = length xs div 4"
  by (induction xs rule: words_of.induct) simp_all

lemma length_encode: "length (i_sectors i) = 13 \<Longrightarrow> length (encode_inode i) = 76"
  by (simp add: encode_inode_def)

lemma decode_encode: "length (i_sectors i) = 13 \<Longrightarrow> decode_inode (encode_inode i) = i"
  unfolding decode_inode_def encode_inode_def words_of_bytes_of by (simp add: Let_def)

lemma length_splice [simp]: "off + length xs \<le> length buf \<Longrightarrow> length (splice buf off xs) = length buf"
  by (simp add: splice_def)

lemma nth_splice:
  assumes "off + length xs \<le> length buf" and "j < length buf"
  shows "splice buf off xs ! j = (if off \<le> j \<and> j < off + length xs then xs ! (j - off) else buf ! j)"
  using assms by (auto simp: splice_def nth_append)

section \<open>The inode table as bytes\<close>

text \<open>Byte \<open>k\<close> of the sectors from \<open>lba\<close> on.\<close>

definition byte_at :: "(u32 \<Rightarrow> u8 list) \<Rightarrow> u32 \<Rightarrow> nat \<Rightarrow> u8" where
  "byte_at d lba k = d (lba + of_nat (k div 512)) ! (k mod 512)"

definition sectors_512 :: "(u32 \<Rightarrow> u8 list) \<Rightarrow> bool" where
  "sectors_512 d \<longleftrightarrow> (\<forall>a. length (d a) = 512)"

lemma concat_512_nth:
  "(\<And>x. x \<in> set xs \<Longrightarrow> length x = 512) \<Longrightarrow> j < 512 * length xs \<Longrightarrow> concat xs ! j = (xs ! (j div 512) ! (j mod 512) :: u8)"
proof (induction xs arbitrary: j)
  case (Cons x xs)
  show ?case
  proof (cases "j < 512")
    case False
    then have "j div 512 = Suc ((j - 512) div 512)" "j mod 512 = (j - 512) mod 512"
      by (simp_all add: le_div_geq le_mod_geq)
    with Cons False show ?thesis by (simp add: nth_append)
  qed (use Cons in \<open>simp add: nth_append\<close>)
qed simp

lemma get_sectors_nth:
  assumes "sectors_512 d" and "j < 512 * n"
  shows "get_sectors d lba n ! j = byte_at d lba j"
proof -
  have "j div 512 < n" using assms(2) by simp
  moreover have "concat (map (\<lambda>i. d (lba + of_nat i)) [0..<n]) ! j =
      map (\<lambda>i. d (lba + of_nat i)) [0..<n] ! (j div 512) ! (j mod 512)"
    using assms by (intro concat_512_nth) (auto simp: sectors_512_def)
  ultimately show ?thesis by (simp add: get_sectors_def byte_at_def)
qed

lemma length_sectors: "sectors_512 d \<Longrightarrow> length (get_sectors d lba n) = 512 * n"
  by (simp add: sectors_512_def length_get_sectors)

lemma put_sectors_512: "sectors_512 d \<Longrightarrow> 512 * n \<le> length xs \<Longrightarrow> sectors_512 (put_sectors d lba n xs)"
  by (auto simp: sectors_512_def put_sectors_def Let_def)

lemma sector_bound: "a < n \<Longrightarrow> r < 512 \<Longrightarrow> 512 * n \<le> l \<Longrightarrow> 512 * a + r < (l :: nat)"
  by linarith

lemma byte_at_put:
  assumes "512 * n \<le> length xs" and "k div 512 < 4294967296" and "q + n \<le> 4294967296"
  shows "byte_at (put_sectors d (lba + of_nat q) n xs) lba k =
    (if q \<le> k div 512 \<and> k div 512 < q + n then xs ! (k - 512 * q) else byte_at d lba k)"
proof -
  let ?a = "lba + of_nat (k div 512)"
  have w: "?a - (lba + of_nat q) = of_nat (k div 512) - of_nat q" by simp
  show ?thesis
  proof (cases "q \<le> k div 512 \<and> k div 512 < q + n")
    case True
    then have d: "of_nat (k div 512) - of_nat q = (of_nat (k div 512 - q) :: u32)" by (simp add: of_nat_diff)
    have i: "unat (?a - (lba + of_nat q)) = k div 512 - q"
      unfolding w d by (rule unat_of_nat_u32) (use assms(2) in linarith)
    have k: "k = 512 * (k div 512) + k mod 512" by simp
    have "512 * (k div 512 - q) = 512 * (k div 512) - 512 * q" by (rule diff_mult_distrib2)
    moreover have "512 * q \<le> 512 * (k div 512)" using True by simp
    ultimately have e: "512 * (k div 512 - q) + k mod 512 = k - 512 * q" using k by linarith
    have b: "512 * (k div 512 - q) + k mod 512 < length xs"
      by (rule sector_bound [of _ n]) (use True assms(1) in auto)
    have "k div 512 - q < n" using True by auto
    then show ?thesis using True i b e by (simp add: byte_at_def put_sectors_def Let_def)
  next
    case False
    have "\<not> unat (?a - (lba + of_nat q)) < n"
    proof
      assume "unat (?a - (lba + of_nat q)) < n"
      then have l: "unat (of_nat (k div 512) - of_nat q :: u32) < n" unfolding w .
      show False
      proof (cases "q \<le> k div 512")
        case True
        then have d: "of_nat (k div 512) - of_nat q = (of_nat (k div 512 - q) :: u32)" by (simp add: of_nat_diff)
        have "unat (of_nat (k div 512 - q) :: u32) = k div 512 - q" by (rule unat_of_nat_u32) (use assms(2) in linarith)
        then show False using l True False unfolding d by simp
      next
        case lt: False
        show False
        proof (cases "n = 0")
          case n: False
          have q: "unat (of_nat q :: u32) = q" using assms(3) n by simp
          have "unat (of_nat (k div 512) - of_nat q :: u32) = k div 512 + 4294967296 - q"
            unfolding unat_sub_if' q using lt assms(2) by simp
          then show False using l assms(3) by simp
        qed (use l in simp)
      qed
    qed
    with False show ?thesis by (auto simp: byte_at_def put_sectors_def Let_def)
  qed
qed

section \<open>The inodes on disk\<close>

abbreviation disk_of :: "fs \<Rightarrow> u32 \<Rightarrow> u8 list" where
  "disk_of s \<equiv> disks s (my_disk (cur_part s))"

abbreviation table_lba :: "fs \<Rightarrow> u32" where
  "table_lba s \<equiv> inode_table_lba (sb (cur_part s))"

text \<open>The table of 4096 inodes takes 608 sectors; they lie in the partition and below the last sector.\<close>

definition table_ok :: "fs \<Rightarrow> bool" where
  "table_ok s \<longleftrightarrow> sectors_512 (disk_of s) \<and> unat (table_lba s) + 608 \<le> unat max_lba \<and>
     unat (table_lba s) + 608 \<le> unat (start_lba (cur_part s) + sec_cnt (cur_part s))"

definition slot_bytes :: "(u32 \<Rightarrow> u8 list) \<Rightarrow> u32 \<Rightarrow> nat \<Rightarrow> u8 list" where
  "slot_bytes d lba no = map (\<lambda>k. byte_at d lba (76 * no + k)) [0..<76]"

text \<open>The inode that is stored under a number.\<close>

definition inode_at :: "fs \<Rightarrow> u32 \<Rightarrow> inode" where
  "inode_at s no = decode_inode (slot_bytes (disk_of s) (table_lba s) (unat no))"

definition position :: "fs \<Rightarrow> u32 \<Rightarrow> inode_position" where
  "position s no = \<lparr>two_sec = 512 - 76 * unat no mod 512 < 76,
     sec_lba = table_lba s + of_nat (76 * unat no div 512), off_size = of_nat (76 * unat no mod 512)\<rparr>"

lemma inode_locate_ok:
  assumes "no < 4096"
  shows "inode_locate no s = Inr (position s no)"
proof -
  have n: "unat no < 4096" using assms by (simp add: word_less_nat_alt)
  then have u: "unat (no * 76) = 76 * unat no" by (simp add: unat_word_ariths)
  have d: "no * 76 div 512 = of_nat (76 * unat no div 512)" "no * 76 mod 512 = of_nat (76 * unat no mod 512)"
    unfolding word_unat_eq_iff using n by (simp_all add: unat_div unat_mod u)
  have m: "unat (no * 76 mod 512) = 76 * unat no mod 512" using u by (simp add: unat_mod)
  have "unat (512 - no * 76 mod 512) = 512 - 76 * unat no mod 512"
    by (subst unat_sub) (simp_all add: m word_le_nat_alt)
  then have "512 - no * 76 mod 512 < 76 \<longleftrightarrow> 512 - 76 * unat no mod 512 < 76" by (simp add: word_less_nat_alt)
  with assms show ?thesis by (simp add: inode_locate_def position_def Let_def d)
qed

lemma read_disk_ok:
  assumes "sectors_512 (disk_of s)" and "transfer_ok lba (unat n)"
  shows "read_disk lba n s = Inr (get_sectors (disk_of s) lba (unat n))"
  using assms by (simp add: read_disk_def read_sectors_def)

lemma write_disk_ok:
  assumes "transfer_ok lba (unat n)"
  shows "write_disk lba buf n s = Inr (s\<lparr>disks := (disks s)(my_disk (cur_part s) := put_sectors (disk_of s) lba (unat n) buf)\<rparr>)"
  using assms by (simp add: write_disk_def write_sectors_def Let_def)

lemma position_bounds:
  assumes "table_ok s" and "no < 4096"
  defines "n \<equiv> (if two_sec (position s no) then 2 else 1 :: nat)" and "q \<equiv> 76 * unat no div 512"
  shows "transfer_ok (sec_lba (position s no)) n" "sec_lba (position s no) = table_lba s + of_nat q"
    "sec_lba (position s no) \<le> start_lba (cur_part s) + sec_cnt (cur_part s)"
    "unat (off_size (position s no)) = 76 * unat no mod 512" "76 * unat no mod 512 + 76 \<le> 512 * n" "q + n \<le> 4294967296"
proof -
  have no: "unat no < 4096" using assms(2) by (simp add: word_less_nat_alt)
  then have q: "q \<le> 607" by (simp add: q_def)
  show "sec_lba (position s no) = table_lba s + of_nat q" by (simp add: position_def q_def)
  moreover have "unat (table_lba s + of_nat q) = unat (table_lba s) + q"
    using assms(1) q by (subst unat_add_u32) (simp_all add: table_ok_def)
  ultimately have u: "unat (sec_lba (position s no)) = unat (table_lba s) + q" by simp
  with assms(1) q show "transfer_ok (sec_lba (position s no)) n"
    by (simp add: transfer_ok_def table_ok_def n_def)
  show "sec_lba (position s no) \<le> start_lba (cur_part s) + sec_cnt (cur_part s)"
    using assms(1) q by (simp add: word_le_nat_alt u table_ok_def)
  show "unat (off_size (position s no)) = 76 * unat no mod 512"
    by (simp add: position_def)
  have "76 * unat no mod 512 < 512" by simp
  then show "76 * unat no mod 512 + 76 \<le> 512 * n" unfolding n_def position_def by simp linarith
  show "q + n \<le> 4294967296" using q by (simp add: n_def)
qed

lemma div_sub_512: "512 * q \<le> k \<Longrightarrow> (k - 512 * q) div 512 = k div 512 - q \<and> (k - 512 * q) mod 512 = k mod (512 :: nat)"
  by (auto dest!: le_Suc_ex)

text \<open>Patching the bytes of one inode.\<close>

lemma patch_inode_ok:
  assumes t: "table_ok s" and no: "no < 4096" and xs: "length xs = 76"
  shows "\<exists>d. patch_inode (position s no) xs s = Inr (s\<lparr>disks := (disks s)(my_disk (cur_part s) := d)\<rparr>) \<and> sectors_512 d \<and>
    (\<forall>k. k div 512 < 4294967296 \<longrightarrow> byte_at d (table_lba s) k =
       (if 76 * unat no \<le> k \<and> k < 76 * unat no + 76 then xs ! (k - 76 * unat no) else byte_at (disk_of s) (table_lba s) k))"
proof -
  define n where "n = (if two_sec (position s no) then 2 else 1 :: nat)"
  define q where "q = 76 * unat no div 512"
  define r where "r = 76 * unat no mod 512"
  note pos = position_bounds [OF t no, folded n_def q_def r_def]
  have no_qr: "76 * unat no = 512 * q + r" unfolding q_def r_def by (rule mult_div_mod_eq [symmetric])
  have s512: "sectors_512 (disk_of s)" using t by (simp add: table_ok_def)
  let ?buf = "get_sectors (disk_of s) (sec_lba (position s no)) n"
  let ?new = "splice ?buf r xs"
  have len: "length ?buf = 512 * n" by (rule length_sectors [OF s512])
  then have len': "length ?new = 512 * n" using pos(5) xs by simp
  have n: "unat (if two_sec (position s no) then 2 else 1 :: u32) = n" by (simp add: n_def)
  let ?d = "put_sectors (disk_of s) (table_lba s + of_nat q) n ?new"
  have "patch_inode (position s no) xs s = Inr (s\<lparr>disks := (disks s)(my_disk (cur_part s) := ?d)\<rparr>)"
    using read_disk_ok [OF s512, of _ "if two_sec (position s no) then 2 else 1", unfolded n, OF pos(1)]
      write_disk_ok [of _ "if two_sec (position s no) then 2 else 1", unfolded n, OF pos(1)] pos(2,4)
    by (simp add: patch_inode_def Let_def)
  moreover have "sectors_512 ?d" by (rule put_sectors_512 [OF s512]) (simp add: len')
  moreover have "byte_at ?d (table_lba s) k =
       (if 76 * unat no \<le> k \<and> k < 76 * unat no + 76 then xs ! (k - 76 * unat no) else byte_at (disk_of s) (table_lba s) k)"
    if k: "k div 512 < 4294967296" for k
  proof (cases "q \<le> k div 512 \<and> k div 512 < q + n")
    case True
    then have j: "512 * q \<le> k" "k - 512 * q < 512 * n" by (auto simp: less_mult_imp_div_less)
    have "?buf ! (k - 512 * q) = byte_at (disk_of s) (table_lba s) k"
    proof -
      have e: "(k - 512 * q) div 512 = k div 512 - q" "(k - 512 * q) mod 512 = k mod 512"
        using div_sub_512 [OF j(1)] by simp_all
      have "sec_lba (position s no) + of_nat ((k - 512 * q) div 512) = table_lba s + of_nat (k div 512)"
        unfolding e(1) using True pos(2) by (simp add: of_nat_diff)
      then show ?thesis using get_sectors_nth [OF s512 j(2)] by (simp add: byte_at_def e(2))
    qed
    then have "?new ! (k - 512 * q) = (if 76 * unat no \<le> k \<and> k < 76 * unat no + 76 then xs ! (k - 76 * unat no)
        else byte_at (disk_of s) (table_lba s) k)"
      using j pos(5) xs by (subst nth_splice) (auto simp: len no_qr)
    with True k pos(6) show ?thesis by (simp add: byte_at_put len')
  next
    case False
    moreover have "\<not> (76 * unat no \<le> k \<and> k < 76 * unat no + 76)"
    proof
      assume a: "76 * unat no \<le> k \<and> k < 76 * unat no + 76"
      then have "512 * q \<le> k" "k < 512 * q + r + 76" unfolding no_qr by linarith+
      then have "512 * q \<le> k" "k < 512 * q + 512 * n" using pos(5) by linarith+
      then have "512 * q \<le> k" "k < 512 * (q + n)" by (simp_all add: distrib_left)
      then have "q \<le> k div 512" "k div 512 < q + n" by (auto simp: less_mult_imp_div_less)
      with False show False by simp
    qed
    ultimately show ?thesis using k pos(6) by (auto simp: byte_at_put len')
  qed
  ultimately show ?thesis by blast
qed

lemma slot_patched:
  assumes "\<forall>k. k div 512 < 4294967296 \<longrightarrow> byte_at d' lba k =
      (if 76 * no \<le> k \<and> k < 76 * no + 76 then xs ! (k - 76 * no) else byte_at d lba k)"
    and "length xs = 76" and "m < 4096"
  shows "slot_bytes d' lba m = (if m = no then xs else slot_bytes d lba m)"
proof -
  have b: "(76 * m + k) div 512 < 4294967296" if "k < 76" for k
  proof -
    have "76 * m + k \<le> 512 * 608" using that assms(3) by linarith
    then have "(76 * m + k) div 512 \<le> 512 * 608 div 512" by (rule div_le_mono)
    then show ?thesis by simp
  qed
  show ?thesis
  proof (cases "m = no")
    case True
    then show ?thesis using assms(1,2) b by (intro nth_equalityI) (simp_all add: slot_bytes_def)
  next
    case False
    have "\<not> (76 * no \<le> 76 * m + k \<and> 76 * m + k < 76 * no + 76)" if "k < 76" for k
      using False that by (cases "m < no") linarith+
    then have "byte_at d' lba (76 * m + k) = byte_at d lba (76 * m + k)" if "k < 76" for k
      using that assms(1) b by auto
    with False show ?thesis by (simp add: slot_bytes_def)
  qed
qed

text \<open>What happens to the disk when the inode \<open>i\<close> is stored in the slot \<open>no\<close>.\<close>

definition inode_stored :: "fs \<Rightarrow> fs \<Rightarrow> u32 \<Rightarrow> u8 list \<Rightarrow> bool" where
  "inode_stored s s' no xs \<longleftrightarrow> (\<exists>d. s' = s\<lparr>disks := (disks s)(my_disk (cur_part s) := d)\<rparr> \<and> sectors_512 d \<and>
     slot_bytes d (table_lba s) (unat no) = xs \<and>
     (\<forall>m<4096. m \<noteq> unat no \<longrightarrow> slot_bytes d (table_lba s) m = slot_bytes (disk_of s) (table_lba s) m) \<and>
     (\<forall>a. 608 \<le> unat (a - table_lba s) \<longrightarrow> d a = disk_of s a))"

lemma patch_stores:
  assumes t: "table_ok s" and no: "no < 4096" and xs: "length xs = 76"
  shows "\<exists>s'. patch_inode (position s no) xs s = Inr s' \<and> inode_stored s s' no xs"
proof -
  have n: "unat no < 4096" using no by (simp add: word_less_nat_alt)
  obtain d where d: "patch_inode (position s no) xs s = Inr (s\<lparr>disks := (disks s)(my_disk (cur_part s) := d)\<rparr>)" "sectors_512 d"
    and b: "\<forall>k. k div 512 < 4294967296 \<longrightarrow> byte_at d (table_lba s) k =
       (if 76 * unat no \<le> k \<and> k < 76 * unat no + 76 then xs ! (k - 76 * unat no) else byte_at (disk_of s) (table_lba s) k)"
    using patch_inode_ok [OF assms] by blast
  have "d a = disk_of s a" if a: "608 \<le> unat (a - table_lba s)" for a
  proof (rule nth_equalityI)
    show "length (d a) = length (disk_of s a)" using d(2) t by (simp add: sectors_512_def table_ok_def)
    fix j assume "j < length (d a)"
    then have j: "j < 512" using d(2) by (simp add: sectors_512_def)
    let ?k = "512 * unat (a - table_lba s) + j"
    have "\<not> ?k < 76 * unat no + 76" using a n by linarith
    moreover have "?k div 512 = unat (a - table_lba s)" "?k mod 512 = j" using j by simp_all
    ultimately show "d a ! j = disk_of s a ! j" using b [rule_format, of ?k] by (simp add: byte_at_def)
  qed
  with d slot_patched [OF b xs] n show ?thesis unfolding inode_stored_def by (intro exI conjI) auto
qed

lemma low_byte: "unat (ucast (ucast (x :: u32) :: u8) :: u32) = unat x mod 256"
  by (simp add: unsigned_ucast_eq unsigned_take_bit_eq take_bit_eq_mod unat_mod)

lemma inode_sync_stores:
  assumes "table_ok s" and "length (i_sectors i) = 13"
  shows "\<exists>s'. inode_sync i s = Inr s' \<and>
    inode_stored s s' (ucast (ucast (i_no i) :: u8)) (encode_inode (i\<lparr>i_open_cnts := 0, write_deny := 0\<rparr>))"
proof -
  let ?no = "ucast (ucast (i_no i) :: u8) :: u32"
  have "unat ?no < 256" unfolding low_byte by simp
  then have no: "?no < 4096" by (simp add: word_less_nat_alt)
  with patch_stores [OF assms(1) no, of "encode_inode (i\<lparr>i_open_cnts := 0, write_deny := 0\<rparr>)"] show ?thesis
    using assms(2) position_bounds(3) [OF assms(1) no]
    by (simp add: inode_sync_def inode_locate_ok [OF no] length_encode Let_def)
qed

lemma stored_inode_at:
  assumes "inode_stored s s' no xs" and "m < 4096"
  shows "inode_at s' m = (if m = no then decode_inode xs else inode_at s m)"
proof -
  have "unat m < 4096" using assms(2) by (simp add: word_less_nat_alt)
  moreover have "m \<noteq> no \<Longrightarrow> unat m \<noteq> unat no" by (simp add: word_unat_eq_iff)
  ultimately show ?thesis using assms(1) by (auto simp: inode_stored_def inode_at_def)
qed

lemma stored_table_ok: "table_ok s \<Longrightarrow> inode_stored s s' no xs \<Longrightarrow> table_ok s'"
  by (auto simp: inode_stored_def table_ok_def)

text \<open>Opening an inode that is not open yet.\<close>

lemma inode_open_reads:
  assumes t: "table_ok s" and no: "no < 4096" and "\<forall>p\<in>set (open_inodes (cur_part s)). i_no (inodes s p) \<noteq> no"
    and "mallocs s = a # b # ms" and "a \<noteq> NULL" and "b \<noteq> NULL"
  shows "inode_open no s = Inr (a, s\<lparr>mallocs := ms, cur_part := (cur_part s)\<lparr>open_inodes := a # open_inodes (cur_part s)\<rparr>,
     inodes := (inodes s)(a := (inode_at s no)\<lparr>i_open_cnts := 1\<rparr>)\<rparr>)"
proof -
  define n where "n = (if two_sec (position s no) then 2 else 1 :: nat)"
  define q where "q = 76 * unat no div 512"
  define r where "r = 76 * unat no mod 512"
  note pos = position_bounds [OF t no, folded n_def q_def r_def]
  have s512: "sectors_512 (disk_of s)" using t by (simp add: table_ok_def)
  let ?buf = "get_sectors (disk_of s) (sec_lba (position s no)) n"
  have len: "length ?buf = 512 * n" by (rule length_sectors [OF s512])
  have n: "unat (if two_sec (position s no) then 2 else 1 :: u32) = n" by (simp add: n_def)
  have rd: "read_disk (sec_lba (position s no)) (if two_sec (position s no) then 2 else 1) (s\<lparr>mallocs := ms\<rparr>) = Inr ?buf"
    using read_disk_ok [of "s\<lparr>mallocs := ms\<rparr>" _ "if two_sec (position s no) then 2 else 1", unfolded n, OF _ pos(1)] s512 by simp
  have "take 76 (drop r ?buf) = slot_bytes (disk_of s) (table_lba s) (unat no)"
  proof (rule nth_equalityI)
    show "length (take 76 (drop r ?buf)) = length (slot_bytes (disk_of s) (table_lba s) (unat no))"
      using pos(5) by (simp add: len slot_bytes_def)
    fix j assume "j < length (take 76 (drop r ?buf))"
    then have j: "j < 76" by simp
    have "76 * unat no + j = 512 * q + (r + j)" using mult_div_mod_eq [of 512 "76 * unat no"] by (simp add: q_def r_def)
    then have "byte_at (disk_of s) (table_lba s + of_nat q) (r + j) = byte_at (disk_of s) (table_lba s) (76 * unat no + j)"
      by (simp add: byte_at_def add.assoc)
    then show "take 76 (drop r ?buf) ! j = slot_bytes (disk_of s) (table_lba s) (unat no) ! j"
      using j pos(5) get_sectors_nth [OF s512, of "r + j" n "sec_lba (position s no)", folded pos(2)]
        nth_drop [of r ?buf j] len by (simp add: slot_bytes_def pos(2))
  qed
  moreover have "find (\<lambda>p. i_no (inodes s p) = no) (open_inodes (cur_part s)) = None"
    using assms(3) by (auto simp: find_None_iff)
  ultimately show ?thesis using assms(4-6) rd pos(4)
    by (simp add: inode_open_def inode_locate_ok [OF no] heap_alloc_def Let_def set_inode_def inode_at_def)
qed

section \<open>Properties\<close>

text \<open>C16 Round trip of an inode through the disk: an inode that \<open>inode_sync\<close> stores and that is not open
  comes back from \<open>inode_open\<close> with the same number, size and blocks, opened once and writable, and the
  other inodes on disk are as before. This holds for the first 256 inodes only.\<close>

theorem inode_sync_open_roundtrip:
  assumes "table_ok s" and "length (i_sectors i) = 13" and "i_no i < 256"
    and "\<forall>p\<in>set (open_inodes (cur_part s)). i_no (inodes s p) \<noteq> i_no i"
    and "mallocs s = a # b # ms" and "a \<noteq> NULL" and "b \<noteq> NULL"
  shows "\<exists>s1 s2. inode_sync i s = Inr s1 \<and> inode_open (i_no i) s1 = Inr (a, s2) \<and>
    inodes s2 a = i\<lparr>i_open_cnts := 1, write_deny := 0\<rparr> \<and>
    (\<forall>m<4096. m \<noteq> i_no i \<longrightarrow> inode_at s2 m = inode_at s m)"
proof -
  have no: "i_no i < 4096" using assms(3) by (simp add: word_less_nat_alt)
  have u: "ucast (ucast (i_no i) :: u8) = i_no i"
  proof -
    have "unat (i_no i) < 256" using assms(3) by (simp add: word_less_nat_alt)
    then show ?thesis unfolding word_unat_eq_iff low_byte by simp
  qed
  obtain s1 where s1: "inode_sync i s = Inr s1"
    and st: "inode_stored s s1 (i_no i) (encode_inode (i\<lparr>i_open_cnts := 0, write_deny := 0\<rparr>))"
    using inode_sync_stores [OF assms(1,2)] u by auto
  have e: "inode_at s1 (i_no i) = i\<lparr>i_open_cnts := 0, write_deny := 0\<rparr>"
    using stored_inode_at [OF st no] assms(2) by (simp add: decode_encode)
  obtain d where d: "s1 = s\<lparr>disks := (disks s)(my_disk (cur_part s) := d)\<rparr>" using st by (auto simp: inode_stored_def)
  have "inode_open (i_no i) s1 = Inr (a, s1\<lparr>mallocs := ms, cur_part := (cur_part s1)\<lparr>open_inodes := a # open_inodes (cur_part s1)\<rparr>,
     inodes := (inodes s1)(a := (inode_at s1 (i_no i))\<lparr>i_open_cnts := 1\<rparr>)\<rparr>)"
    using inode_open_reads [OF stored_table_ok [OF assms(1) st] no] assms(4-7) by (simp add: d)
  moreover have "inode_at (s1\<lparr>mallocs := ms, cur_part := (cur_part s1)\<lparr>open_inodes := a # open_inodes (cur_part s1)\<rparr>,
     inodes := (inodes s1)(a := (inode_at s1 (i_no i))\<lparr>i_open_cnts := 1\<rparr>)\<rparr>) m = inode_at s1 m" for m
    by (simp add: inode_at_def)
  ultimately show ?thesis using s1 e stored_inode_at [OF st] by auto
qed

text \<open>\<open>inode_sync\<close> keeps only the low 8 bits of the inode number: from 256 on the inode is stored in the
  slot of another inode, and its own slot keeps what it had.\<close>

theorem inode_sync_wrong_slot:
  assumes "table_ok s" and "length (i_sectors i) = 13" and "256 \<le> i_no i" and "i_no i < 4096"
  shows "\<exists>s'. inode_sync i s = Inr s' \<and> inode_at s' (i_no i) = inode_at s (i_no i) \<and>
    inode_at s' (i_no i mod 256) = i\<lparr>i_open_cnts := 0, write_deny := 0\<rparr>"
proof -
  let ?no = "ucast (ucast (i_no i) :: u8) :: u32"
  have u: "?no = i_no i mod 256"
    unfolding word_unat_eq_iff low_byte by (simp add: unat_mod)
  have m: "i_no i mod 256 < 256" by (simp add: word_less_nat_alt unat_mod)
  then have no: "?no < 4096" "?no \<noteq> i_no i" unfolding u using assms(3) by (auto simp: word_less_nat_alt word_le_nat_alt)
  obtain s' where s': "inode_sync i s = Inr s'"
    and st: "inode_stored s s' ?no (encode_inode (i\<lparr>i_open_cnts := 0, write_deny := 0\<rparr>))"
    using inode_sync_stores [OF assms(1,2)] by blast
  show ?thesis using s' stored_inode_at [OF st assms(4)] stored_inode_at [OF st no(1)] no(2) assms(2)
    by (simp add: decode_encode u)
qed

text \<open>A mounted partition on an empty disk.\<close>

definition blank_part :: partition where
  "blank_part = \<lparr>start_lba = 2048, sec_cnt = 20000, my_disk = (0, 1),
     sb = \<lparr>magic = 0x19590318, sb_sec_cnt = 20000, inode_cnt = 4096, part_lba_base = 2048,
       block_bitmap_lba = 2050, block_bitmap_sects = 5, inode_bitmap_lba = 2055, inode_bitmap_sects = 1,
       inode_table_lba = 2056, inode_table_sects = 608, data_start_lba = 2664, root_inode_no = 0, dir_entry_size = 24\<rparr>,
     block_bitmap = \<lparr>btmp_bytes_len = 512, bits = 0xc0200000\<rparr>,
     inode_bitmap = \<lparr>btmp_bytes_len = 512, bits = 0xc0201000\<rparr>, open_inodes = []\<rparr>"

definition blank_fs :: fs where
  "blank_fs = \<lparr>fs_bytes = \<lambda>_. 0, disks = \<lambda>_ _. replicate 512 0, cur_part = blank_part,
     inodes = \<lambda>_. inode_init 0, dirs = \<lambda>_. \<lparr>dir_inode = 0, dir_pos = 0\<rparr>, root_dir = 0xc0300000,
     file_table = replicate 32 \<lparr>fd_pos = 0, fd_flag = 0, fd_inode = 0\<rparr>, fd_table = [0, 1, 2, -1, -1, -1, -1, -1],
     cwd_inode_nr = 0, mallocs = [0xc0400000, 0xc0400100, 0xc0400200, 0xc0400300], garbage = \<lambda>_. 0\<rparr>"

lemma blank_table_ok: "table_ok blank_fs"
  by (simp add: table_ok_def blank_fs_def blank_part_def sectors_512_def)

theorem inode_sync_open_roundtrip_witness:
  "\<exists>s1 s2. inode_sync ((inode_init 7)\<lparr>i_size := 99\<rparr>) blank_fs = Inr s1 \<and> inode_open 7 s1 = Inr (0xc0400000, s2) \<and>
    i_size (inodes s2 0xc0400000) = 99"
  using inode_sync_open_roundtrip [OF blank_table_ok, of "(inode_init 7)\<lparr>i_size := 99\<rparr>" "0xc0400000" "0xc0400100" "[0xc0400200, 0xc0400300]"]
  by (auto simp: inode_init_def blank_fs_def blank_part_def)

theorem inode_sync_wrong_slot_witness:
  "\<exists>s'. inode_sync (inode_init 259) blank_fs = Inr s' \<and> inode_at s' 3 = inode_init 259"
  using inode_sync_wrong_slot [OF blank_table_ok, of "inode_init 259"] by (auto simp: inode_init_def)

text \<open>The open inodes: each is in memory once, under its number, and is in use.\<close>

definition open_ok :: "fs \<Rightarrow> bool" where
  "open_ok s \<longleftrightarrow> distinct (map (\<lambda>p. i_no (inodes s p)) (open_inodes (cur_part s))) \<and> distinct (open_inodes (cur_part s)) \<and>
     (\<forall>p\<in>set (open_inodes (cur_part s)). p \<noteq> NULL \<and> i_open_cnts (inodes s p) \<noteq> 0)"

text \<open>C17 The cache of open inodes stays consistent: \<open>inode_open\<close> shares an inode that is open, counting its
  users, and reads any other one into memory that is not in use; \<open>inode_close\<close> drops the inode with its last
  user.\<close>

theorem open_inodes_consistent:
  assumes "open_ok s" and "table_ok s" and "no < 4096" and "i_no (inode_at s no) = no"
    and "mallocs s = a # b # ms" and "a \<noteq> NULL" and "b \<noteq> NULL" and "a \<notin> set (open_inodes (cur_part s))"
    and "\<forall>p\<in>set (open_inodes (cur_part s)). i_open_cnts (inodes s p) \<noteq> -1"
  shows "\<exists>p s1. inode_open no s = Inr (p, s1) \<and> open_ok s1 \<and> p \<in> set (open_inodes (cur_part s1)) \<and>
    i_no (inodes s1 p) = no \<and>
    (\<exists>s2. inode_close p s1 = Inr s2 \<and> open_ok s2 \<and> open_inodes (cur_part s2) = open_inodes (cur_part s))"
proof (cases "\<exists>p\<in>set (open_inodes (cur_part s)). i_no (inodes s p) = no")
  case True
  let ?f = "find (\<lambda>p. i_no (inodes s p) = no) (open_inodes (cur_part s))"
  obtain p where p: "?f = Some p" using True by (cases ?f) (auto simp: find_None_iff)
  then have mem: "p \<in> set (open_inodes (cur_part s))" "i_no (inodes s p) = no"
    by (auto simp: find_Some_iff)
  let ?s1 = "set_inode p (inodes s p\<lparr>i_open_cnts := i_open_cnts (inodes s p) + 1\<rparr>) s"
  have op: "inode_open no s = Inr (p, ?s1)" using p by (simp add: inode_open_def Let_def)
  have nos: "map (\<lambda>q. i_no (inodes ?s1 q)) xs = map (\<lambda>q. i_no (inodes s q)) xs" for xs
    by (simp add: set_inode_def)
  have "i_open_cnts (inodes s p) + 1 \<noteq> 0"
    using assms(9) mem(1) by (metis add_eq_0_iff add.commute)
  then have ok: "open_ok ?s1" using assms(1) unfolding open_ok_def nos by (auto simp: set_inode_def)
  have "i_open_cnts (inodes s p) \<noteq> 0" using assms(1) mem by (simp add: open_ok_def)
  then have "inode_close p ?s1 = Inr (set_inode p (inodes s p) s)"
    by (simp add: inode_close_def set_inode_def Let_def)
  moreover have "set_inode p (inodes s p) s = s" by (simp add: set_inode_def)
  ultimately show ?thesis using op ok mem assms(1) by (auto simp: set_inode_def)
next
  case False
  let ?s1 = "s\<lparr>mallocs := ms, cur_part := (cur_part s)\<lparr>open_inodes := a # open_inodes (cur_part s)\<rparr>,
     inodes := (inodes s)(a := (inode_at s no)\<lparr>i_open_cnts := 1\<rparr>)\<rparr>"
  have op: "inode_open no s = Inr (a, ?s1)" using inode_open_reads [OF assms(2,3)] False assms(5-7) by blast
  have m: "map (\<lambda>q. i_no (inodes ?s1 q)) (open_inodes (cur_part s)) = map (\<lambda>q. i_no (inodes s q)) (open_inodes (cur_part s))"
    using assms(8) by (intro map_cong) auto
  have e: "map (\<lambda>q. i_no (inodes ?s1 q)) (open_inodes (cur_part ?s1)) = no # map (\<lambda>q. i_no (inodes s q)) (open_inodes (cur_part s))"
    using m assms(4) by simp
  have d: "distinct (map (\<lambda>q. i_no (inodes ?s1 q)) (open_inodes (cur_part ?s1)))"
    unfolding e using assms(1) False by (auto simp: open_ok_def)
  have r: "distinct (open_inodes (cur_part ?s1))" "\<forall>p\<in>set (open_inodes (cur_part ?s1)). p \<noteq> NULL \<and> i_open_cnts (inodes ?s1 p) \<noteq> 0"
    using assms(1,6,8) by (auto simp: open_ok_def)
  have ok: "open_ok ?s1" unfolding open_ok_def by (intro conjI d r)
  obtain s2 where s2: "inode_close a ?s1 = Inr s2" "cur_part s2 = cur_part s"
      "\<forall>q. q \<noteq> a \<longrightarrow> inodes s2 q = inodes s q"
    using assms(6) by (simp add: inode_close_def set_inode_def Let_def)
  have "map (\<lambda>q. i_no (inodes s2 q)) (open_inodes (cur_part s)) = map (\<lambda>q. i_no (inodes s q)) (open_inodes (cur_part s))"
    using assms(8) s2(3) by (intro map_cong) auto
  then have "open_ok s2" using assms(1,8) s2(2,3) by (metis (no_types, lifting) open_ok_def)
  then show ?thesis using op ok s2 assms(4) by auto
qed

theorem open_inodes_consistent_witness:
  "\<exists>p s1. inode_open 0 blank_fs = Inr (p, s1) \<and> open_ok s1 \<and> p \<in> set (open_inodes (cur_part s1))"
proof -
  have "slot_bytes (disk_of blank_fs) (table_lba blank_fs) (unat 0) = replicate 76 0"
    by (simp add: slot_bytes_def byte_at_def blank_fs_def map_replicate_const)
  moreover have "decode_inode (replicate 76 0) = inode_init 0" by code_simp
  ultimately have "inode_at blank_fs 0 = inode_init 0" by (simp add: inode_at_def)
  then show ?thesis
    using open_inodes_consistent [OF _ blank_table_ok, of 0 "0xc0400000" "0xc0400100" "[0xc0400200, 0xc0400300]"]
    by (auto simp: open_ok_def blank_fs_def blank_part_def inode_init_def)
qed

section \<open>The disk under the file system\<close>

definition fetch :: "u32 \<Rightarrow> u32 \<Rightarrow> fs \<Rightarrow> (u8 list \<times> fs) res" where
  "fetch lba n s = bindr (read_disk lba n s) (\<lambda>xs. Inr (xs, s))"

text \<open>The disk accesses of the file system satisfy the contract of the driver.\<close>

interpretation fsd: block_device "\<lambda>_. True" disk_of fetch write_disk
  by unfold_locales (simp_all add: fetch_def read_disk_def write_disk_def Let_def)

text \<open>C18 The disk that the file system works on is the disk behind the driver: a sequence of reads and
  writes gives the same data, fails at the same access in the same way and leaves the same sectors,
  whether it is run with \<open>read_disk\<close> and \<open>write_disk\<close> or with \<open>ide_read\<close> and \<open>ide_write\<close>, commands,
  interrupts and registers included.\<close>

theorem fs_disk_is_driver:
  assumes "channel_ok dk v" and "\<not> chan_lock (channels v (fst dk))" and "sectors v dk = disk_of s"
    and "list_all covered ts"
  shows "case run_script fetch write_disk ts s of
      Inl e \<Rightarrow> run_script (ide_read dk) (ide_write dk) ts v = Inl e
    | Inr (ys, s') \<Rightarrow> \<exists>v'. run_script (ide_read dk) (ide_write dk) ts v = Inr (ys, v') \<and>
        sectors v' dk = disk_of s'"
proof -
  have "working dk v" using assms(1,2) by (simp add: working_def)
  from drv.script_agrees [OF this assms(4)] fsd.script_agrees [OF TrueI assms(4), of s] show ?thesis
    by (cases "run_sectors ts (disk_of s)") (auto simp: assms(3))
qed

theorem fs_disk_is_driver_witness:
  "\<exists>v'. run_script (ide_read (0, 1)) (ide_write (0, 1)) [Store 5 (replicate 512 7) 1, Fetch 5 1] idle_driver =
     Inr ([replicate 512 7], v')"
proof -
  let ?ts = "[Store 5 (replicate 512 7) 1, Fetch 5 1]"
  define s where "s = blank_fs\<lparr>disks := (\<lambda>_ _. replicate 512 0)\<rparr>"
  have "sectors idle_driver (0, 1) = disk_of s" by (simp add: idle_driver_def s_def)
  moreover have "list_all covered ?ts" by simp
  moreover have "\<exists>s'. run_script fetch write_disk ?ts s = Inr ([replicate 512 7], s')"
    by (simp add: fetch_def read_disk_def write_disk_def read_sectors_def write_sectors_def transfer_ok_def
        Let_def get_sectors_def put_sectors_def)
  ultimately show ?thesis using fs_disk_is_driver [OF idle_driver_ok, of s ?ts] by auto
qed

end
