(* ===== verification/Dir.thy ===== *)
theory Dir
  imports Inode
begin

text \<open>
  Directories: \<^verbatim>\<open>fs/dir.c\<close>. A directory is an inode whose blocks hold entries of 24 bytes: a name of 16,
  the inode number, and the type. A block in the buffer of a function is its list of bytes; a string is
  the list of its characters, and two strings are equal as \<open>strcmp\<close> says when a name with its terminator
  stands at the start of the entry.
\<close>

section \<open>Entries\<close>

abbreviation FT_UNKNOWN :: u32 where "FT_UNKNOWN \<equiv> 0"
abbreviation FT_REGULAR :: u32 where "FT_REGULAR \<equiv> 1"
abbreviation FT_DIRECTORY :: u32 where "FT_DIRECTORY \<equiv> 2"

record dir_entry =
  filename :: "u8 list"
  e_no :: u32
  f_type :: u32

definition encode_entry :: "dir_entry \<Rightarrow> u8 list" where
  "encode_entry e = filename e @ bytes32 (e_no e) @ bytes32 (f_type e)"

definition entry_bytes :: "u8 list \<Rightarrow> nat \<Rightarrow> u8 list" where
  "entry_bytes buf k = take 24 (drop (24 * k) buf)"

definition entry_at :: "u8 list \<Rightarrow> nat \<Rightarrow> dir_entry" where
  "entry_at buf k = (let bs = entry_bytes buf k
     in \<lparr>filename = take 16 bs, e_no = le32 (drop 16 bs), f_type = le32 (drop 20 bs)\<rparr>)"

definition entry_named :: "u8 list \<Rightarrow> nat \<Rightarrow> u8 list \<Rightarrow> bool" where
  "entry_named buf k name \<longleftrightarrow> take (Suc (length name)) (drop (24 * k) buf) = name @ [0]"

text \<open>\<open>512 / dir_entry_size\<close>; C gives the division by 0 no meaning.\<close>

definition entries_per_sec :: "fs \<Rightarrow> nat res" where
  "entries_per_sec s =
     (let n = dir_entry_size (sb (cur_part s)) in if n = 0 then Inl OutOfBounds else Inr (unat (512 div n)))"

definition heap_free :: "addr \<Rightarrow> unit res" where
  "heap_free p = ASSERT (p \<noteq> NULL)"

text \<open>The addresses of the 140 blocks of a file, the indirect ones read from their table.\<close>

definition all_blocks :: "inode \<Rightarrow> fs \<Rightarrow> u32 list res" where
  "all_blocks i s =
     (if i_sectors i ! 12 \<noteq> 0 then
        bindr (read_disk (i_sectors i ! 12) 1 s) (\<lambda>bs. Inr (take 12 (i_sectors i) @ words_of bs))
      else Inr (take 12 (i_sectors i) @ replicate 128 0))"

section \<open>Opening and closing\<close>

definition open_root_dir :: "fs \<Rightarrow> fs res" where
  "open_root_dir s =
     bindr (inode_open (root_inode_no (sb (cur_part s))) s) (\<lambda>(p, s).
     Inr (s\<lparr>dirs := (dirs s)(root_dir s := \<lparr>dir_inode = p, dir_pos = 0\<rparr>)\<rparr>))"

definition dir_open :: "u32 \<Rightarrow> fs \<Rightarrow> (addr \<times> fs) res" where
  "dir_open inode_no s =
     (let (pdir, s) = heap_alloc s
      in bindr (inode_open inode_no s) (\<lambda>(p, s).
         if pdir = NULL then Inl OutOfBounds
         else Inr (pdir, s\<lparr>dirs := (dirs s)(pdir := \<lparr>dir_inode = p, dir_pos = 0\<rparr>)\<rparr>)))"

definition dir_close :: "addr \<Rightarrow> fs \<Rightarrow> fs res" where
  "dir_close dir s =
     (if dir = root_dir s then Inr s
      else bindr (inode_close (dir_inode (dirs s dir)) s) (\<lambda>s. bindr (heap_free dir) (\<lambda>_. Inr s)))"

section \<open>Searching\<close>

primrec find_entry :: "u8 list \<Rightarrow> u8 list \<Rightarrow> nat \<Rightarrow> nat \<Rightarrow> nat option res" where
  "find_entry buf name 0 k = Inr None"
| "find_entry buf name (Suc n) k =
     (if length buf < 24 * k + 24 then Inl OutOfBounds
      else if entry_named buf k name then Inr (Some k) else find_entry buf name n (Suc k))"

primrec search_blocks :: "u32 list \<Rightarrow> u8 list \<Rightarrow> nat \<Rightarrow> addr \<Rightarrow> fs \<Rightarrow> dir_entry option res" where
  "search_blocks [] name n buf s = bindr (heap_free buf) (\<lambda>_. Inr None)"
| "search_blocks (b # bs) name n buf s =
     (if b = 0 then search_blocks bs name n buf s
      else if buf = NULL then Inl OutOfBounds
      else bindr (read_disk b 1 s) (\<lambda>data.
           bindr (find_entry data name n 0) (\<lambda>found.
           case found of Some k \<Rightarrow> Inr (Some (entry_at data k)) | None \<Rightarrow> search_blocks bs name n buf s)))"

definition search_dir_entry :: "addr \<Rightarrow> u8 list \<Rightarrow> fs \<Rightarrow> (dir_entry option \<times> fs) res" where
  "search_dir_entry pdir name s =
     (let (blocks, s) = heap_alloc s
      in if blocks = NULL then Inr (None, s)
         else bindr (all_blocks (inodes s (dir_inode (dirs s pdir))) s) (\<lambda>bs.
              let (buf, s) = heap_alloc s
              in bindr (entries_per_sec s) (\<lambda>n.
                 bindr (search_blocks bs name n buf s) (\<lambda>r. Inr (r, s)))))"

section \<open>Adding an entry\<close>

definition create_dir_entry :: "u8 list \<Rightarrow> u32 \<Rightarrow> u8 \<Rightarrow> dir_entry res" where
  "create_dir_entry name inode_no file_type =
     bindr (ASSERT (length name \<le> 16)) (\<lambda>_.
     Inr \<lparr>filename = name @ replicate (16 - length name) 0, e_no = inode_no, f_type = ucast file_type\<rparr>)"

text \<open>The first free entry of a block.\<close>

primrec free_entry :: "u8 list \<Rightarrow> nat \<Rightarrow> nat \<Rightarrow> nat option res" where
  "free_entry buf 0 k = Inr None"
| "free_entry buf (Suc n) k =
     (if length buf < 24 * k + 24 then Inl OutOfBounds
      else if f_type (entry_at buf k) = FT_UNKNOWN then Inr (Some k) else free_entry buf n (Suc k))"

definition set_sector :: "addr \<Rightarrow> nat \<Rightarrow> u32 \<Rightarrow> fs \<Rightarrow> fs" where
  "set_sector p k lba s = set_inode p (inodes s p\<lparr>i_sectors := (i_sectors (inodes s p))[k := lba]\<rparr>) s"

definition grow_dir :: "addr \<Rightarrow> fs \<Rightarrow> fs" where
  "grow_dir p s = set_inode p (inodes s p\<lparr>i_size := i_size (inodes s p) + dir_entry_size (sb (cur_part s))\<rparr>) s"

text \<open>The block of \<open>bytes32\<close>s that is written to the table of indirect blocks.\<close>

definition write_table :: "u32 \<Rightarrow> u32 list \<Rightarrow> fs \<Rightarrow> fs res" where
  "write_table table blocks s = write_disk table (bytes_of (drop 12 blocks)) 1 s"

text \<open>A new block for the directory, as number \<open>block_idx\<close>; \<open>None\<close> when the disk is full.\<close>

definition new_dir_block :: "addr \<Rightarrow> nat \<Rightarrow> u32 list \<Rightarrow> fs \<Rightarrow> (u32 list option \<times> fs) res" where
  "new_dir_block p block_idx blocks s =
     bindr (block_bitmap_alloc s) (\<lambda>(block_lba, s).
     if block_lba = -1 then Inr (None, s)
     else let data = data_start_lba (sb (cur_part s))
          in bindr (ASSERT (block_lba - data \<noteq> -1)) (\<lambda>_.
             bindr (bitmap_sync (block_lba - data) BLOCK_BITMAP s) (\<lambda>s.
             if block_idx < 12 then Inr (Some (blocks[block_idx := block_lba]), set_sector p block_idx block_lba s)
             else if block_idx = 12 then
               let s = set_sector p 12 block_lba s
               in bindr (block_bitmap_alloc s) (\<lambda>(block_lba, s).
                  let table = i_sectors (inodes s p) ! 12
                  in if block_lba = -1 then
                       bindr (bitmap_set (fs_bytes s) (block_bitmap (cur_part s)) (table - data) 0) (\<lambda>m.
                       Inr (None, set_sector p 12 0 (s\<lparr>fs_bytes := m\<rparr>)))
                     else bindr (ASSERT (block_lba - data \<noteq> -1)) (\<lambda>_.
                          bindr (bitmap_sync (block_lba - data) BLOCK_BITMAP s) (\<lambda>s.
                          let blocks = blocks[12 := block_lba]
                          in bindr (write_table table blocks s) (\<lambda>s. Inr (Some blocks, s)))))
             else let blocks = blocks[block_idx := block_lba]
                  in bindr (write_table (i_sectors (inodes s p) ! 12) blocks s) (\<lambda>s. Inr (Some blocks, s)))))"

primrec sync_loop :: "nat \<Rightarrow> nat \<Rightarrow> addr \<Rightarrow> dir_entry \<Rightarrow> nat \<Rightarrow> u32 list \<Rightarrow> fs \<Rightarrow> (bool \<times> fs) res" where
  "sync_loop 0 block_idx p e n blocks s = Inr (False, s)"
| "sync_loop (Suc m) block_idx p e n blocks s =
     (if blocks ! block_idx = 0 then
        bindr (new_dir_block p block_idx blocks s) (\<lambda>(r, s).
        case r of None \<Rightarrow> Inr (False, s)
        | Some blocks \<Rightarrow>
            bindr (write_disk (blocks ! block_idx) (splice (replicate 512 0) 0 (encode_entry e)) 1 s) (\<lambda>s.
            Inr (True, grow_dir p s)))
      else bindr (read_disk (blocks ! block_idx) 1 s) (\<lambda>buf.
           bindr (free_entry buf n 0) (\<lambda>found.
           case found of
             Some k \<Rightarrow> bindr (write_disk (blocks ! block_idx) (splice buf (24 * k) (encode_entry e)) 1 s) (\<lambda>s.
                       Inr (True, grow_dir p s))
           | None \<Rightarrow> sync_loop m (Suc block_idx) p e n blocks s)))"

text \<open>Only the direct blocks are collected: the table of indirect blocks is not read.\<close>

definition sync_dir_entry :: "addr \<Rightarrow> dir_entry \<Rightarrow> fs \<Rightarrow> (bool \<times> fs) res" where
  "sync_dir_entry parent_dir e s =
     (let p = dir_inode (dirs s parent_dir); i = inodes s p
      in bindr (entries_per_sec s) (\<lambda>n.
         bindr (ASSERT (i_size i mod dir_entry_size (sb (cur_part s)) = 0)) (\<lambda>_.
         sync_loop 140 0 p e n (take 12 (i_sectors i) @ replicate 128 0) s)))"

section \<open>Deleting an entry\<close>

text \<open>What the scan of a block finds: whether it is the first block of a directory, the number of its
  entries (a byte), and the entry to delete.\<close>

primrec scan_block :: "u8 list \<Rightarrow> u32 \<Rightarrow> nat \<Rightarrow> nat \<Rightarrow> bool \<times> u8 \<times> nat option \<Rightarrow> (bool \<times> u8 \<times> nat option) res" where
  "scan_block buf inode_no 0 k r = Inr r"
| "scan_block buf inode_no (Suc n) k r =
     (if length buf < 24 * k + 24 then Inl OutOfBounds
      else let (is_dir_first_block, dir_entry_cnt, dir_entry_found) = r
           in if f_type (entry_at buf k) = FT_UNKNOWN then scan_block buf inode_no n (Suc k) r
              else if entry_named buf k [46] then
                scan_block buf inode_no n (Suc k) (True, dir_entry_cnt, dir_entry_found)
              else if entry_named buf k [46, 46] then scan_block buf inode_no n (Suc k) r
              else if e_no (entry_at buf k) = inode_no then
                bindr (ASSERT (dir_entry_found = None)) (\<lambda>_.
                scan_block buf inode_no n (Suc k) (is_dir_first_block, dir_entry_cnt + 1, Some k))
              else scan_block buf inode_no n (Suc k) (is_dir_first_block, dir_entry_cnt + 1, dir_entry_found))"

text \<open>The block loses its last entry: it is given back. For an indirect block the loop that counts the
  indirect blocks does not advance.\<close>

definition drop_dir_block :: "addr \<Rightarrow> nat \<Rightarrow> u32 \<Rightarrow> fs \<Rightarrow> fs res" where
  "drop_dir_block p block_idx lba s =
     (let block_bitmap_idx = lba - data_start_lba (sb (cur_part s))
      in bindr (bitmap_set (fs_bytes s) (block_bitmap (cur_part s)) block_bitmap_idx 0) (\<lambda>m.
         bindr (bitmap_sync block_bitmap_idx BLOCK_BITMAP (s\<lparr>fs_bytes := m\<rparr>)) (\<lambda>s.
         if block_idx < 12 then Inr (set_sector p block_idx 0 s) else Inl Hang)))"

primrec delete_loop :: "nat \<Rightarrow> nat \<Rightarrow> addr \<Rightarrow> u32 \<Rightarrow> nat \<Rightarrow> u32 list \<Rightarrow> fs \<Rightarrow> (bool \<times> fs) res" where
  "delete_loop 0 block_idx p inode_no n blocks s = Inr (False, s)"
| "delete_loop (Suc m) block_idx p inode_no n blocks s =
     (let lba = blocks ! block_idx
      in if lba = 0 then delete_loop m (Suc block_idx) p inode_no n blocks s
         else bindr (read_disk lba 1 s) (\<lambda>buf.
              bindr (scan_block buf inode_no n 0 (False, 0, None)) (\<lambda>(is_dir_first_block, dir_entry_cnt, found).
              case found of None \<Rightarrow> delete_loop m (Suc block_idx) p inode_no n blocks s
              | Some k \<Rightarrow>
                  bindr (ASSERT (dir_entry_cnt \<ge> 1)) (\<lambda>_.
                  bindr (if dir_entry_cnt = 1 \<and> \<not> is_dir_first_block then drop_dir_block p block_idx lba s
                         else write_disk lba (splice buf (24 * k) (replicate (unat (dir_entry_size (sb (cur_part s)))) 0)) 1 s)
                    (\<lambda>s. let i = inodes s p; sz = dir_entry_size (sb (cur_part s))
                      in bindr (ASSERT (i_size i \<ge> sz)) (\<lambda>_.
                         let s = set_inode p (i\<lparr>i_size := i_size i - sz\<rparr>) s
                         in bindr (inode_sync (inodes s p) s) (\<lambda>s. Inr (True, s))))))))"

definition delete_dir_entry :: "addr \<Rightarrow> u32 \<Rightarrow> fs \<Rightarrow> (bool \<times> fs) res" where
  "delete_dir_entry pdir inode_no s =
     (let p = dir_inode (dirs s pdir)
      in bindr (all_blocks (inodes s p) s) (\<lambda>blocks.
         bindr (entries_per_sec s) (\<lambda>n. delete_loop 140 0 p inode_no n blocks s)))"

section \<open>Reading and removing a directory\<close>

text \<open>The entries of one block; the function never returns one of them.\<close>

primrec read_entries :: "u8 list \<Rightarrow> nat \<Rightarrow> nat \<Rightarrow> u32 \<Rightarrow> u32 \<Rightarrow> u32 \<Rightarrow> (u32 \<times> u32) res" where
  "read_entries buf 0 k sz cur_pos pos = Inr (cur_pos, pos)"
| "read_entries buf (Suc n) k sz cur_pos pos =
     (if length buf < 24 * k + 24 then Inl OutOfBounds
      else if f_type (entry_at buf k) \<noteq> 0 then
        if cur_pos < pos then read_entries buf n (Suc k) sz (cur_pos + sz) pos
        else bindr (ASSERT (cur_pos = pos)) (\<lambda>_. read_entries buf n (Suc k) sz cur_pos (pos + of_nat k))
      else read_entries buf n (Suc k) sz cur_pos pos)"

text \<open>The loop compares the position with the address of the inode; past the last block it reads on.\<close>

primrec read_loop :: "u32 list \<Rightarrow> addr \<Rightarrow> nat \<Rightarrow> u32 \<Rightarrow> fs \<Rightarrow> fs res" where
  "read_loop [] dir n cur_pos s =
     (let d = dirs s dir
      in if \<not> dir_pos d < dir_inode d \<or> dir_pos d \<ge> i_size (inodes s (dir_inode d)) then Inr s else Inl OutOfBounds)"
| "read_loop (b # bs) dir n cur_pos s =
     (let d = dirs s dir
      in if \<not> dir_pos d < dir_inode d \<or> dir_pos d \<ge> i_size (inodes s (dir_inode d)) then Inr s
         else if b = 0 then read_loop bs dir n cur_pos s
         else bindr (read_disk b 1 s) (\<lambda>buf.
              bindr (read_entries buf n 0 (dir_entry_size (sb (cur_part s))) cur_pos (dir_pos d)) (\<lambda>(cur_pos, pos).
              read_loop bs dir n cur_pos (s\<lparr>dirs := (dirs s)(dir := d\<lparr>dir_pos := pos\<rparr>)\<rparr>))))"

text \<open>The only value that \<open>dir_read\<close> returns is \<open>NULL\<close>.\<close>

definition dir_read :: "addr \<Rightarrow> fs \<Rightarrow> (addr \<times> fs) res" where
  "dir_read dir s =
     bindr (all_blocks (inodes s (dir_inode (dirs s dir))) s) (\<lambda>blocks.
     bindr (entries_per_sec s) (\<lambda>n.
     bindr (read_loop blocks dir n 0 s) (\<lambda>s. Inr (NULL, s))))"

definition dir_is_empty :: "addr \<Rightarrow> fs \<Rightarrow> bool" where
  "dir_is_empty dir s \<longleftrightarrow> i_size (inodes s (dir_inode (dirs s dir))) = dir_entry_size (sb (cur_part s))"

definition dir_remove :: "addr \<Rightarrow> addr \<Rightarrow> fs \<Rightarrow> (u32 \<times> fs) res" where
  "dir_remove parent_dir child_dir s =
     (let child = dir_inode (dirs s child_dir)
      in bindr (ASSERT (\<forall>k\<in>{1..<13}. i_sectors (inodes s child) ! k = 0)) (\<lambda>_.
         let (io_buf, s) = heap_alloc s
         in if io_buf = NULL then Inr (-1, s)
            else bindr (delete_dir_entry parent_dir (i_no (inodes s child)) s) (\<lambda>(_, s).
                 bindr (inode_release (i_no (inodes s child)) s) (\<lambda>s. Inr (0, s)))))"

end
