(* ===== verification/File.thy ===== *)
theory File
  imports Dir
begin

unbundle bit_operations_syntax

text \<open>
  Open files: \<^verbatim>\<open>fs/file.c\<close>. The file table of the system has 32 entries, each task has a table of 8 file
  descriptors; a pointer to an entry of the file table is its index. The functions answer with an
  \<open>int32_t\<close>: -1 is an error.
\<close>

section \<open>Descriptors\<close>

abbreviation O_WRONLY :: u32 where "O_WRONLY \<equiv> 1"
abbreviation O_RDWR :: u32 where "O_RDWR \<equiv> 2"
abbreviation O_CREAT :: u32 where "O_CREAT \<equiv> 4"

text \<open>The loops look for the first free entry from number 3 on.\<close>

fun free_slot :: "open_file list \<Rightarrow> nat \<Rightarrow> nat \<Rightarrow> u32" where
  "free_slot files 0 fd_idx = -1"
| "free_slot files (Suc n) fd_idx =
     (if fd_inode (files ! fd_idx) = NULL then of_nat fd_idx else free_slot files n (Suc fd_idx))"

definition get_free_slot_in_global :: "fs \<Rightarrow> u32" where
  "get_free_slot_in_global s = free_slot (file_table s) (32 - 3) 3"

fun free_fd :: "u32 list \<Rightarrow> nat \<Rightarrow> nat \<Rightarrow> nat option" where
  "free_fd fds 0 local_fd_idx = None"
| "free_fd fds (Suc n) local_fd_idx =
     (if fds ! local_fd_idx = -1 then Some local_fd_idx else free_fd fds n (Suc local_fd_idx))"

definition pcb_fd_install :: "u32 \<Rightarrow> fs \<Rightarrow> u32 \<times> fs" where
  "pcb_fd_install global_fd_idx s =
     (case free_fd (fd_table s) (8 - 3) 3 of
        Some k \<Rightarrow> (of_nat k, s\<lparr>fd_table := (fd_table s)[k := global_fd_idx]\<rparr>)
      | None \<Rightarrow> (-1, s))"

definition set_file :: "nat \<Rightarrow> open_file \<Rightarrow> fs \<Rightarrow> fs" where
  "set_file k f s = s\<lparr>file_table := (file_table s)[k := f]\<rparr>"

section \<open>Creating, opening, closing\<close>

text \<open>What a failed creation undoes, by the step that it reached.\<close>

definition rollback :: "nat \<Rightarrow> u32 \<Rightarrow> nat \<Rightarrow> addr \<Rightarrow> addr \<Rightarrow> fs \<Rightarrow> (u32 \<times> fs) res" where
  "rollback step inode_no fd_idx new_inode io_buf s =
     (let s = (if step = 3 then set_file fd_idx \<lparr>fd_pos = 0, fd_flag = 0, fd_inode = 0\<rparr> s else s)
      in bindr (if step \<ge> 2 then heap_free new_inode else Inr ()) (\<lambda>_.
         bindr (bitmap_set (fs_bytes s) (inode_bitmap (cur_part s)) inode_no 0) (\<lambda>m.
         bindr (heap_free io_buf) (\<lambda>_. Inr (-1, s\<lparr>fs_bytes := m\<rparr>)))))"

definition file_create :: "addr \<Rightarrow> u8 list \<Rightarrow> u8 \<Rightarrow> fs \<Rightarrow> (u32 \<times> fs) res" where
  "file_create parent_dir name flag s =
     (let (io_buf, s) = heap_alloc s
      in if io_buf = NULL then Inr (-1, s)
         else bindr (inode_bitmap_alloc s) (\<lambda>(inode_no, s).
           if inode_no = -1 then Inr (-1, s)
           else let (p, s) = heap_alloc s
                in if p = NULL then rollback 1 inode_no 0 p io_buf s
                   else let s = set_inode p (inode_init inode_no) s; slot = get_free_slot_in_global s
                        in if slot = -1 then rollback 2 inode_no 0 p io_buf s
                           else let fd_idx = unat slot;
                                    s = set_file fd_idx \<lparr>fd_pos = 0, fd_flag = ucast flag, fd_inode = p\<rparr> s;
                                    s = set_inode p (inodes s p\<lparr>write_deny := 0\<rparr>) s
                                in bindr (create_dir_entry name inode_no (ucast FT_REGULAR)) (\<lambda>e.
                                   bindr (sync_dir_entry parent_dir e s) (\<lambda>(ok, s).
                                   if \<not> ok then rollback 3 inode_no fd_idx p io_buf s
                                   else bindr (inode_sync (inodes s (dir_inode (dirs s parent_dir))) s) (\<lambda>s.
                                        bindr (inode_sync (inodes s p) s) (\<lambda>s.
                                        bindr (bitmap_sync inode_no INODE_BITMAP s) (\<lambda>s.
                                        let part = cur_part s;
                                            s = s\<lparr>cur_part := part\<lparr>open_inodes := p # open_inodes part\<rparr>\<rparr>;
                                            s = set_inode p (inodes s p\<lparr>i_open_cnts := 1\<rparr>) s
                                        in Inr (pcb_fd_install slot s))))))))"

definition file_open :: "u32 \<Rightarrow> u8 \<Rightarrow> fs \<Rightarrow> (u32 \<times> fs) res" where
  "file_open inode_no flag s =
     (let slot = get_free_slot_in_global s
      in if slot = -1 then Inr (-1, s)
         else bindr (inode_open inode_no s) (\<lambda>(p, s).
           let s = set_file (unat slot) \<lparr>fd_pos = 0, fd_flag = ucast flag, fd_inode = p\<rparr> s
           in if ucast flag AND O_WRONLY \<noteq> 0 \<or> ucast flag AND O_RDWR \<noteq> 0 then
                if write_deny (inodes s p) = 0 then
                  Inr (pcb_fd_install slot (set_inode p (inodes s p\<lparr>write_deny := 1\<rparr>) s))
                else Inr (-1, s)
              else Inr (pcb_fd_install slot s)))"

definition file_close :: "nat \<Rightarrow> fs \<Rightarrow> (u32 \<times> fs) res" where
  "file_close fd s =
     (let f = file_table s ! fd; p = fd_inode f; s = set_inode p (inodes s p\<lparr>write_deny := 0\<rparr>) s
      in bindr (inode_close p s) (\<lambda>s. Inr (0, set_file fd (f\<lparr>fd_inode := NULL\<rparr>) s)))"

section \<open>Writing\<close>

text \<open>Bringing the bit of a new block to disk.\<close>

definition sync_block :: "u32 \<Rightarrow> fs \<Rightarrow> fs res" where
  "sync_block block_lba s = bitmap_sync (block_lba - data_start_lba (sb (cur_part s))) BLOCK_BITMAP s"

text \<open>The first block of an empty file; \<open>False\<close> when there is none.\<close>

definition first_block :: "addr \<Rightarrow> fs \<Rightarrow> (bool \<times> fs) res" where
  "first_block p s =
     (if i_sectors (inodes s p) ! 0 = 0 then
        bindr (block_bitmap_alloc s) (\<lambda>(block_lba, s).
        if block_lba = -1 then Inr (False, s)
        else let s = set_sector p 0 block_lba s
             in bindr (ASSERT (block_lba - data_start_lba (sb (cur_part s)) \<noteq> 0)) (\<lambda>_.
                bindr (sync_block block_lba s) (\<lambda>s. Inr (True, s))))
      else Inr (True, s))"

text \<open>The loops that allocate the blocks from \<open>block_idx\<close> on, \<open>n\<close> of them: direct blocks, a mixture, and
  indirect blocks.\<close>

primrec add_direct :: "nat \<Rightarrow> nat \<Rightarrow> addr \<Rightarrow> u32 list \<Rightarrow> fs \<Rightarrow> (u32 list option \<times> fs) res" where
  "add_direct 0 block_idx p blocks s = Inr (Some blocks, s)"
| "add_direct (Suc n) block_idx p blocks s =
     bindr (block_bitmap_alloc s) (\<lambda>(block_lba, s).
     if block_lba = -1 then Inr (None, s)
     else bindr (ASSERT (i_sectors (inodes s p) ! block_idx = 0)) (\<lambda>_.
          bindr (sync_block block_lba (set_sector p block_idx block_lba s)) (\<lambda>s.
          add_direct n (Suc block_idx) p (blocks[block_idx := block_lba]) s)))"

primrec add_mixed :: "nat \<Rightarrow> nat \<Rightarrow> addr \<Rightarrow> u32 list \<Rightarrow> fs \<Rightarrow> (u32 list option \<times> fs) res" where
  "add_mixed 0 block_idx p blocks s = Inr (Some blocks, s)"
| "add_mixed (Suc n) block_idx p blocks s =
     bindr (block_bitmap_alloc s) (\<lambda>(block_lba, s).
     if block_lba = -1 then Inr (None, s)
     else bindr (if block_idx < 12 then
            bindr (ASSERT (i_sectors (inodes s p) ! block_idx = 0)) (\<lambda>_. Inr (set_sector p block_idx block_lba s))
          else Inr s) (\<lambda>s.
          bindr (sync_block block_lba s) (\<lambda>s.
          add_mixed n (Suc block_idx) p (blocks[block_idx := block_lba]) s)))"

primrec add_indirect :: "nat \<Rightarrow> nat \<Rightarrow> u32 list \<Rightarrow> fs \<Rightarrow> (u32 list option \<times> fs) res" where
  "add_indirect 0 block_idx blocks s = Inr (Some blocks, s)"
| "add_indirect (Suc n) block_idx blocks s =
     bindr (block_bitmap_alloc s) (\<lambda>(block_lba, s).
     if block_lba = -1 then Inr (None, s)
     else bindr (sync_block block_lba s) (\<lambda>s.
          add_indirect n (Suc block_idx) (blocks[block_idx := block_lba]) s))"

text \<open>The addresses that a write needs, with new blocks where the file grows.\<close>

definition read_table :: "u32 \<Rightarrow> u32 list \<Rightarrow> fs \<Rightarrow> u32 list res" where
  "read_table table blocks s = bindr (read_disk table 1 s) (\<lambda>bs. Inr (take 12 blocks @ words_of bs))"

definition write_blocks :: "addr \<Rightarrow> nat \<Rightarrow> nat \<Rightarrow> fs \<Rightarrow> (u32 list option \<times> fs) res" where
  "write_blocks p has will s =
     (let blocks = replicate 140 0; sects = i_sectors (inodes s p); n = will - has
      in if will = has then
           if will \<le> 12 then Inr (Some (blocks[has - 1 := sects ! (has - 1)]), s)
           else bindr (ASSERT (sects ! 12 \<noteq> 0)) (\<lambda>_.
                bindr (read_table (sects ! 12) blocks s) (\<lambda>blocks. Inr (Some blocks, s)))
         else if will \<le> 12 then
           bindr (ASSERT (sects ! (has - 1) \<noteq> 0)) (\<lambda>_.
           add_direct n has p (blocks[has - 1 := sects ! (has - 1)]) s)
         else if has \<le> 12 then
           bindr (block_bitmap_alloc s) (\<lambda>(table, s).
           if table = -1 then Inr (None, s)
           else bindr (ASSERT (sects ! 12 = 0)) (\<lambda>_.
                bindr (sync_block table (set_sector p 12 table s)) (\<lambda>s.
                bindr (add_mixed n has p (blocks[has - 1 := sects ! (has - 1)]) s) (\<lambda>(r, s).
                case r of None \<Rightarrow> Inr (None, s)
                | Some blocks \<Rightarrow> bindr (write_table table blocks s) (\<lambda>s. Inr (Some blocks, s))))))
         else bindr (ASSERT (sects ! 12 \<noteq> 0)) (\<lambda>_.
              bindr (read_table (sects ! 12) blocks s) (\<lambda>blocks.
              bindr (add_indirect n has blocks s) (\<lambda>(r, s).
              case r of None \<Rightarrow> Inr (None, s)
              | Some blocks \<Rightarrow> bindr (write_table (sects ! 12) blocks s) (\<lambda>s. Inr (Some blocks, s))))))"

text \<open>The loop over the sectors; each turn writes at least one byte, so it needs at most one turn more
  than there are bytes.\<close>

primrec write_loop :: "nat \<Rightarrow> nat \<Rightarrow> u32 list \<Rightarrow> bool \<Rightarrow> u8 list \<Rightarrow> u32 \<Rightarrow> fs \<Rightarrow> (u32 \<times> fs) res" where
  "write_loop 0 fd blocks first_write_block src bytes_written s = Inl Hang"
| "write_loop (Suc n) fd blocks first_write_block src bytes_written s =
     (if src = [] then Inr (bytes_written, s)
      else let f = file_table s ! fd; p = fd_inode f; i = inodes s p;
               sec_idx = unat (i_size i div 512); sec_lba = blocks ! sec_idx;
               sec_off_bytes = unat (i_size i mod 512); sec_left_bytes = 512 - sec_off_bytes;
               chunk_size = min (length src) sec_left_bytes
           in if length blocks \<le> sec_idx then Inl OutOfBounds
              else bindr (if first_write_block then read_disk sec_lba 1 s else Inr (replicate 512 0)) (\<lambda>io_buf.
                   bindr (write_disk sec_lba (splice io_buf sec_off_bytes (take chunk_size src)) 1 s) (\<lambda>s.
                   let s = set_inode p (i\<lparr>i_size := i_size i + of_nat chunk_size\<rparr>) s;
                       s = set_file fd (f\<lparr>fd_pos := fd_pos f + of_nat chunk_size\<rparr>) s
                   in write_loop n fd blocks False (drop chunk_size src) (bytes_written + of_nat chunk_size) s)))"

text \<open>\<open>buf\<close> holds the \<open>count\<close> bytes to write.\<close>

definition file_write :: "nat \<Rightarrow> u8 list \<Rightarrow> fs \<Rightarrow> (u32 \<times> fs) res" where
  "file_write fd buf s =
     (let p = fd_inode (file_table s ! fd); cnt = of_nat (length buf)
      in if i_size (inodes s p) + cnt > 512 * 140 then Inr (-1, s)
         else let (io_buf, s) = heap_alloc s
              in if io_buf = NULL then Inr (-1, s)
                 else let (table, s) = heap_alloc s
                      in if table = NULL then Inr (-1, s)
                         else bindr (first_block p s) (\<lambda>(ok, s).
                           if \<not> ok then Inr (-1, s)
                           else let has = i_size (inodes s p) div 512 + 1;
                                    will = (i_size (inodes s p) + cnt) div 512 + 1
                                in bindr (ASSERT (will \<le> 140)) (\<lambda>_.
                                   bindr (write_blocks p (unat has) (unat will) s) (\<lambda>(r, s).
                                   case r of None \<Rightarrow> Inr (-1, s)
                                   | Some blocks \<Rightarrow>
                                       let f = file_table s ! fd;
                                           s = set_file fd (f\<lparr>fd_pos := i_size (inodes s p) - 1\<rparr>) s
                                       in bindr (write_loop (Suc (length buf)) fd blocks True buf 0 s) (\<lambda>(n, s).
                                          bindr (inode_sync (inodes s p) s) (\<lambda>s. Inr (n, s)))))))"

section \<open>Reading\<close>

text \<open>The addresses of the blocks with the numbers \<open>start\<close> to \<open>end_idx\<close>.\<close>

definition read_blocks :: "inode \<Rightarrow> nat \<Rightarrow> nat \<Rightarrow> fs \<Rightarrow> u32 list res" where
  "read_blocks i start end_idx s =
     (let blocks = replicate 140 0; sects = i_sectors i
      in if start = end_idx then
           if end_idx < 12 then Inr (blocks[end_idx := sects ! end_idx]) else read_table (sects ! 12) blocks s
         else if end_idx < 12 then Inr (map (\<lambda>k. if start \<le> k \<and> k \<le> end_idx then sects ! k else 0) [0..<140])
         else bindr (ASSERT (sects ! 12 \<noteq> 0)) (\<lambda>_.
              if start < 12 then
                read_table (sects ! 12) (map (\<lambda>k. if start \<le> k \<and> k < 12 then sects ! k else 0) [0..<140]) s
              else read_table (sects ! 12) blocks s))"

primrec read_bytes :: "nat \<Rightarrow> u32 list \<Rightarrow> u32 \<Rightarrow> u32 \<Rightarrow> fs \<Rightarrow> (u8 list \<times> u32) res" where
  "read_bytes 0 blocks pos size_left s = Inl Hang"
| "read_bytes (Suc n) blocks pos size_left s =
     (if size_left = 0 then Inr ([], pos)
      else let sec_idx = unat (pos div 512); sec_lba = blocks ! sec_idx;
               sec_off_bytes = pos mod 512; sec_left_bytes = 512 - sec_off_bytes;
               chunk_size = (if size_left < sec_left_bytes then size_left else sec_left_bytes)
           in if length blocks \<le> sec_idx then Inl OutOfBounds
              else bindr (read_disk sec_lba 1 s) (\<lambda>io_buf.
                   bindr (read_bytes n blocks (pos + chunk_size) (size_left - chunk_size) s)
                     (\<lambda>(rest, pos). Inr (take (unat chunk_size) (drop (unat sec_off_bytes) io_buf) @ rest, pos))))"

text \<open>The answer, the bytes that are read, and the state.\<close>

definition file_read :: "nat \<Rightarrow> u32 \<Rightarrow> fs \<Rightarrow> (u32 \<times> u8 list \<times> fs) res" where
  "file_read fd cnt s =
     (let f = file_table s ! fd; i = inodes s (fd_inode f);
          sz = (if fd_pos f + cnt > i_size i then i_size i - fd_pos f else cnt)
      in if fd_pos f + cnt > i_size i \<and> sz = 0 then Inr (-1, [], s)
         else let (io_buf, s) = heap_alloc s
              in if io_buf = NULL then Inr (-1, [], s)
                 else let (table, s) = heap_alloc s
                      in if table = NULL then Inr (-1, [], s)
                         else let start = fd_pos f div 512; end_idx = (fd_pos f + sz) div 512
                              in bindr (ASSERT (start < 139 \<and> end_idx < 139)) (\<lambda>_.
                                 bindr (read_blocks i (unat start) (unat end_idx) s) (\<lambda>blocks.
                                 bindr (read_bytes (Suc (unat sz)) blocks (fd_pos f) sz s) (\<lambda>(data, pos).
                                 Inr (sz, data, set_file fd (f\<lparr>fd_pos := pos\<rparr>) s)))))"

end
