(* ===== verification/Path.thy ===== *)
theory Path
  imports File
begin

unbundle bit_operations_syntax

text \<open>
  Paths: \<open>path_parse\<close>, \<open>path_depth_cnt\<close> and \<open>search_file\<close> of \<^verbatim>\<open>fs/fs.c\<close>. A string is the list of its
  characters; a pointer into a path is the rest of the path, \<open>None\<close> is \<open>NULL\<close>. The array for a name has
  16 bytes; a longer name, which the code writes past its end, is \<open>OutOfBounds\<close>.
\<close>

section \<open>The code\<close>

abbreviation slash :: u8 where
  "slash \<equiv> 47"

definition path_parse :: "u8 list \<Rightarrow> u8 list \<Rightarrow> (u8 list option \<times> u8 list) res" where
  "path_parse pathname name_store =
     (let pathname = dropWhile (\<lambda>c. c = slash) pathname;
          name = takeWhile (\<lambda>c. c \<noteq> slash) pathname; rest = dropWhile (\<lambda>c. c \<noteq> slash) pathname
      in if length name_store < length name then Inl OutOfBounds
         else Inr (if rest = [] then None else Some rest, splice name_store 0 name))"

text \<open>The next name of a path, in an array that was cleared.\<close>

definition next_name :: "u8 list option \<Rightarrow> (u8 list option \<times> u8 list) res" where
  "next_name p = (case p of None \<Rightarrow> Inr (None, replicate 16 0) | Some q \<Rightarrow> path_parse q (replicate 16 0))"

text \<open>How much of a path is left: the measure of the loops.\<close>

definition path_left :: "u8 list option \<Rightarrow> u8 list \<Rightarrow> nat" where
  "path_left p name = (case p of Some q \<Rightarrow> length q + 2 | None \<Rightarrow> if name ! 0 = 0 then 0 else 1)"

lemma bindr_cong [fundef_cong]:
  "m = m' \<Longrightarrow> (\<And>x. m' = Inr x \<Longrightarrow> f x = g x) \<Longrightarrow> bindr m f = bindr m' g"
  by (cases m') auto

lemma parse_cases:
  "(if b then Inl e else Inr (if rest = [] then None else Some rest, ns)) = Inr (Some r, ns') \<Longrightarrow> r = rest \<and> r \<noteq> []"
  by (auto split: if_splits)

lemma path_parse_shorter:
  assumes "path_parse q name = Inr (Some r, name')"
  shows "length r < length q"
proof -
  let ?q = "dropWhile (\<lambda>c. c = slash) q"
  have r: "r = dropWhile (\<lambda>c. c \<noteq> slash) ?q" "r \<noteq> []"
    using assms unfolding path_parse_def Let_def by (blast dest: parse_cases)+
  have "length (takeWhile (\<lambda>c. c = slash) q) + length ?q = length q"
    by (simp only: length_append [symmetric] takeWhile_dropWhile_id)
  moreover have "length (takeWhile (\<lambda>c. c \<noteq> slash) ?q) + length r = length ?q"
    unfolding r(1) by (simp only: length_append [symmetric] takeWhile_dropWhile_id)
  moreover have "takeWhile (\<lambda>c. c = slash) q \<noteq> [] \<or> takeWhile (\<lambda>c. c \<noteq> slash) ?q \<noteq> []"
    using r by (cases q) auto
  ultimately show ?thesis unfolding length_greater_0_conv [symmetric] by linarith
qed

lemma next_name_left:
  assumes "next_name p = Inr (p', name')" and "name ! 0 \<noteq> 0"
  shows "path_left p' name' < path_left p name"
  using assms path_parse_shorter
  by (auto simp: next_name_def path_left_def split: option.splits)

function depth_loop :: "u8 list option \<Rightarrow> u8 list \<Rightarrow> u32 \<Rightarrow> u32 res" where
  "depth_loop p name depth =
     (if name ! 0 = 0 then Inr depth
      else bindr (next_name p) (\<lambda>(p, name). depth_loop p name (depth + 1)))"
  by pat_completeness auto
termination
  by (relation "measure (\<lambda>(p, name, depth). path_left p name)") (use next_name_left in auto)

declare depth_loop.simps [simp del]

text \<open>The array \<open>name\<close> is not initialised when the first name is stored.\<close>

definition path_depth_cnt :: "u8 list \<Rightarrow> fs \<Rightarrow> u32 res" where
  "path_depth_cnt pathname s =
     bindr (path_parse pathname (map (garbage s) [0..<16])) (\<lambda>(p, name). depth_loop p name 0)"

record path_search_record =
  searched_path :: "u8 list"
  parent_dir :: addr
  file_type :: u32

text \<open>\<open>dir_e_no\<close> is the inode number of the last entry that was found.\<close>

function search_loop :: "u8 list option \<Rightarrow> u8 list \<Rightarrow> u32 \<Rightarrow> u32 \<Rightarrow> path_search_record \<Rightarrow> fs \<Rightarrow>
    (u32 \<times> path_search_record \<times> fs) res" where
  "search_loop sub_path name parent_inode_no dir_e_no r s =
     (if name ! 0 = 0 then
        bindr (dir_close (parent_dir r) s) (\<lambda>s.
        bindr (dir_open parent_inode_no s) (\<lambda>(d, s).
        Inr (dir_e_no, r\<lparr>parent_dir := d, file_type := FT_DIRECTORY\<rparr>, s)))
      else if 0 \<notin> set name then Inl OutOfBounds
      else let nm = takeWhile (\<lambda>c. c \<noteq> 0) name
           in bindr (ASSERT (length (searched_path r) < 512)) (\<lambda>_.
              let r = r\<lparr>searched_path := searched_path r @ [slash] @ nm\<rparr>
              in if 512 \<le> length (searched_path r) then Inl OutOfBounds
                 else bindr (search_dir_entry (parent_dir r) nm s) (\<lambda>(found, s).
                   case found of None \<Rightarrow> Inr (-1, r, s)
                   | Some e \<Rightarrow>
                       bindr (next_name sub_path) (\<lambda>(sub_path, name).
                       if f_type e = FT_DIRECTORY then
                         let parent_inode_no = i_no (inodes s (dir_inode (dirs s (parent_dir r))))
                         in bindr (dir_close (parent_dir r) s) (\<lambda>s.
                            bindr (dir_open (e_no e) s) (\<lambda>(d, s).
                            search_loop sub_path name parent_inode_no (e_no e) (r\<lparr>parent_dir := d\<rparr>) s))
                       else if f_type e = FT_REGULAR then Inr (e_no e, r\<lparr>file_type := FT_REGULAR\<rparr>, s)
                       else search_loop sub_path name parent_inode_no (e_no e) r s))))"
  by pat_completeness auto
termination
  by (relation "measure (\<lambda>(p, name, _). path_left p name)") (use next_name_left in auto)

declare search_loop.simps [simp del]

definition search_file :: "u8 list \<Rightarrow> fs \<Rightarrow> (u32 \<times> path_search_record \<times> fs) res" where
  "search_file pathname s =
     (if pathname \<in> {[slash], [slash, 46], [slash, 46, 46]} then
        Inr (0, \<lparr>searched_path = [], parent_dir = root_dir s, file_type = FT_DIRECTORY\<rparr>, s)
      else bindr (ASSERT (pathname \<noteq> [] \<and> hd pathname = slash \<and> 1 < length pathname \<and> length pathname < 512)) (\<lambda>_.
           let r = \<lparr>searched_path = [], parent_dir = root_dir s, file_type = FT_UNKNOWN\<rparr>
           in bindr (path_parse pathname (replicate 16 0)) (\<lambda>(sub_path, name).
              search_loop sub_path name 0 (le32 (map (garbage s) [0..<4])) r s)))"

section \<open>The names of a path\<close>

text \<open>The reference: cut at the slashes, leave out what is empty.\<close>

fun pieces :: "u8 list \<Rightarrow> u8 list list" where
  "pieces [] = [[]]"
| "pieces (c # cs) = (if c = slash then [] # pieces cs else (c # hd (pieces cs)) # tl (pieces cs))"

definition names :: "u8 list \<Rightarrow> u8 list list" where
  "names path = filter (\<lambda>n. n \<noteq> []) (pieces path)"

lemma pieces_not_Nil [simp]: "pieces path \<noteq> []"
  by (cases path) auto

lemma pieces_append:
  "slash \<notin> set w \<Longrightarrow> pieces (w @ rest) = (w @ hd (pieces rest)) # tl (pieces rest)"
  by (induction w) simp_all

lemma names_slashes: "names (dropWhile (\<lambda>c. c = slash) path) = names path"
  by (induction path) (simp_all add: names_def)

lemma names_Nil:
  assumes "dropWhile (\<lambda>c. c = slash) path = []"
  shows "names path = []"
  using names_slashes [of path, unfolded assms] by (simp add: names_def)

lemma names_word:
  assumes "slash \<notin> set w" and "w \<noteq> []" and "r = [] \<or> hd r = slash"
  shows "names (w @ r) = w # names r"
proof -
  have h: "hd (pieces r) = []" using assms(3) by (cases r) auto
  obtain ps where ps: "pieces r = [] # ps" using h pieces_not_Nil [of r] by (cases "pieces r") auto
  have "pieces (w @ r) = w # ps" using pieces_append [OF assms(1), of r] ps by simp
  then show ?thesis using assms(2) ps by (simp add: names_def)
qed

lemma names_Cons:
  assumes "dropWhile (\<lambda>c. c = slash) path = q" and "q \<noteq> []"
    and "takeWhile (\<lambda>c. c \<noteq> slash) q = w" and "dropWhile (\<lambda>c. c \<noteq> slash) q = r"
  shows "names path = w # names r" "w \<noteq> []"
proof -
  have "hd q \<noteq> slash" using assms(1,2) hd_dropWhile by blast
  then show w: "w \<noteq> []" using assms(2,3) by (cases q) auto
  have "slash \<notin> set w" using assms(3) by (auto dest: set_takeWhileD)
  moreover have "r = [] \<or> hd r = slash" using assms(4) hd_dropWhile by blast
  ultimately have "names (w @ r) = w # names r" using w names_word by blast
  moreover have "w @ r = q" using assms(3,4) by auto
  ultimately show "names path = w # names r" using names_slashes [of path] assms(1) by simp
qed

text \<open>A path whose names fit into the array and have no terminator.\<close>

definition path_ok :: "u8 list \<Rightarrow> bool" where
  "path_ok path \<longleftrightarrow> 0 \<notin> set path \<and> (\<forall>n\<in>set (names path). length n \<le> 16)"

text \<open>What the array holds after a name was stored in it.\<close>

definition stored :: "u8 list \<Rightarrow> u8 list \<Rightarrow> u8 list" where
  "stored n arr = n @ drop (length n) arr"

lemma path_parse_names:
  assumes "path_ok path" and "length arr = 16"
  shows "case names path of
      [] \<Rightarrow> path_parse path arr = Inr (None, arr)
    | n # ns \<Rightarrow> \<exists>p. path_parse path arr = Inr (p, stored n arr) \<and> n \<noteq> [] \<and> 0 \<notin> set n \<and>
        (case p of None \<Rightarrow> ns = [] | Some r \<Rightarrow> path_ok r \<and> names r = ns)"
proof -
  obtain q where q: "dropWhile (\<lambda>c. c = slash) path = q" by blast
  obtain w where w: "takeWhile (\<lambda>c. c \<noteq> slash) q = w" by blast
  obtain r where r: "dropWhile (\<lambda>c. c \<noteq> slash) q = r" by blast
  have p: "path_parse path arr = (if length arr < length w then Inl OutOfBounds
      else Inr (if r = [] then None else Some r, splice arr 0 w))"
    by (simp only: path_parse_def Let_def q w r)
  show ?thesis
  proof (cases "q = []")
    case True
    then have "w = []" "r = []" using w r by auto
    then show ?thesis using p names_Nil [of path] q True by (simp add: splice_def)
  next
    case False
    note n = names_Cons [OF q False w r]
    have "set w \<subseteq> set path" "set r \<subseteq> set path"
      using q w r set_takeWhileD set_dropWhileD by (metis subsetI)+
    then have z: "0 \<notin> set w" "0 \<notin> set r" using assms(1) by (auto simp: path_ok_def)
    have "length w \<le> 16" "path_ok r" using assms(1) n z(2) by (simp_all add: path_ok_def)
    moreover have "r = [] \<Longrightarrow> names r = []" by (simp add: names_def)
    ultimately show ?thesis using p assms(2) n z(1) by (simp add: splice_def stored_def)
  qed
qed

lemma next_name_names:
  assumes "path_ok path"
  shows "case names path of
      [] \<Rightarrow> next_name (Some path) = Inr (None, replicate 16 0)
    | n # ns \<Rightarrow> \<exists>p. next_name (Some path) = Inr (p, stored n (replicate 16 0)) \<and> n \<noteq> [] \<and> 0 \<notin> set n \<and>
        (case p of None \<Rightarrow> ns = [] | Some r \<Rightarrow> path_ok r \<and> names r = ns)"
  using path_parse_names [OF assms, of "replicate 16 0"] by (cases "names path") (simp_all add: next_name_def)

text \<open>\<open>p\<close> is where the parsing stands when the names \<open>ns\<close> are still to come.\<close>

definition to_come :: "u8 list option \<Rightarrow> u8 list list \<Rightarrow> bool" where
  "to_come p ns \<longleftrightarrow> (case p of None \<Rightarrow> ns = [] | Some r \<Rightarrow> path_ok r \<and> names r = ns)"

lemma stored_0: "n \<noteq> [] \<Longrightarrow> stored n arr ! 0 = hd n"
  by (cases n) (simp_all add: stored_def)

lemma next_name_to_come:
  assumes "to_come p ns"
  shows "case ns of [] \<Rightarrow> next_name p = Inr (None, replicate 16 0)
    | n # ns' \<Rightarrow> \<exists>p'. next_name p = Inr (p', stored n (replicate 16 0)) \<and> to_come p' ns' \<and> n \<noteq> [] \<and> 0 \<notin> set n"
proof (cases p)
  case None
  with assms show ?thesis by (simp add: to_come_def next_name_def)
next
  case (Some r)
  then have "path_ok r" "names r = ns" using assms by (simp_all add: to_come_def)
  from next_name_names [OF this(1)] this(2) Some show ?thesis
    by (auto simp: to_come_def split: list.splits)
qed

lemma depth_loop_names:
  assumes "to_come p ns" and "name ! 0 \<noteq> 0"
  shows "depth_loop p name depth = Inr (depth + 1 + of_nat (length ns))"
  using assms
proof (induction ns arbitrary: p name depth)
  case Nil
  then have "next_name p = Inr (None, replicate 16 0)" using next_name_to_come [OF Nil(1)] by simp
  with Nil show ?case by (subst depth_loop.simps) (simp add: depth_loop.simps [of None])
next
  case (Cons n ns)
  then obtain p' where p: "next_name p = Inr (p', stored n (replicate 16 0))" "to_come p' ns" "n \<noteq> []" "0 \<notin> set n"
    using next_name_to_come [OF Cons(2)] by auto
  then have "stored n (replicate 16 0) ! 0 \<noteq> 0" by (cases n) (auto simp: stored_0)
  from Cons.IH [OF p(2) this, of "depth + 1"] p(1) Cons.prems(2) show ?case
    by (subst depth_loop.simps) (simp add: add.assoc)
qed

section \<open>Properties\<close>

text \<open>\<open>path_depth_cnt\<close> counts the names of a path, however many slashes stand between them and at the
  end. For a path without a name the answer depends on a variable that is not initialised.\<close>

theorem path_depth_counts:
  assumes "path_ok path"
  shows "path_depth_cnt path s =
    (if names path \<noteq> [] then Inr (of_nat (length (names path))) else if garbage s 0 = 0 then Inr 0 else Inr 1)"
proof -
  let ?g = "map (garbage s) [0..<16]"
  have g: "length ?g = 16" "?g ! 0 = garbage s 0" by simp_all
  show ?thesis
  proof (cases "names path")
    case Nil
    then have "path_parse path ?g = Inr (None, ?g)" using path_parse_names [OF assms g(1)] by simp
    moreover have "depth_loop None ?g 0 = (if garbage s 0 = 0 then Inr 0 else Inr 1)"
      using depth_loop_names [of None "[]" ?g 0] g(2) by (subst depth_loop.simps) (auto simp: to_come_def depth_loop.simps [of None] next_name_def)
    ultimately show ?thesis using Nil by (simp add: path_depth_cnt_def)
  next
    case (Cons n ns)
    then obtain p where p: "path_parse path ?g = Inr (p, stored n ?g)" "n \<noteq> []" "0 \<notin> set n" "to_come p ns"
      using path_parse_names [OF assms g(1)] by (auto simp: to_come_def)
    then have "stored n ?g ! 0 \<noteq> 0" by (cases n) (auto simp: stored_0)
    from depth_loop_names [OF p(4) this, of 0] p(1) Cons show ?thesis by (simp add: path_depth_cnt_def)
  qed
qed

theorem path_depth_counts_witness: "path_depth_cnt [47, 97, 47, 47, 98, 99, 47] blank_fs = Inr 2"
proof -
  have "path_ok [47, 97, 47, 47, 98, 99, 47]" by (simp add: path_ok_def names_def)
  from path_depth_counts [OF this] show ?thesis by (simp add: names_def)
qed

end
