(* ===== verification/Fs.thy ===== *)
theory Fs
  imports Path
begin

unbundle bit_operations_syntax

text \<open>
  The system calls of \<^verbatim>\<open>fs/fs.c\<close> on files and directories. What they print is left out. A descriptor
  is an \<open>int32_t\<close>, so comparisons with 0 are on \<open>sint\<close>. The keyboard is the list of the characters that
  it is going to deliver.
\<close>

section \<open>Files\<close>

text \<open>\<open>strrchr (path, '/') + 1\<close>\<close>

definition last_name :: "u8 list \<Rightarrow> u8 list" where
  "last_name path = rev (takeWhile (\<lambda>c. c \<noteq> slash) (rev path))"

definition sys_open :: "u8 list \<Rightarrow> u8 \<Rightarrow> fs \<Rightarrow> (u32 \<times> fs) res" where
  "sys_open pathname flags s =
     (if pathname = [] then Inl OutOfBounds
      else if List.last pathname = slash then Inr (-1, s)
      else bindr (ASSERT (flags \<le> 7)) (\<lambda>_.
           bindr (path_depth_cnt pathname s) (\<lambda>pathname_depth.
           bindr (search_file pathname s) (\<lambda>(inode_no, r, s).
           let found = (inode_no \<noteq> -1); create = (ucast flags AND O_CREAT \<noteq> 0)
           in if file_type r = FT_DIRECTORY then bindr (dir_close (parent_dir r) s) (\<lambda>s. Inr (-1, s))
              else bindr (path_depth_cnt (searched_path r) s) (\<lambda>path_searched_depth.
                if pathname_depth \<noteq> path_searched_depth then Inr (-1, s)
                else if (\<not> found \<and> \<not> create) \<or> (found \<and> create) then
                  bindr (dir_close (parent_dir r) s) (\<lambda>s. Inr (-1, s))
                else if create then
                  bindr (file_create (parent_dir r) (last_name pathname) flags s) (\<lambda>(fd, s).
                  bindr (dir_close (parent_dir r) s) (\<lambda>s. Inr (fd, s)))
                else file_open inode_no flags s)))))"

definition fd_local2global :: "u32 \<Rightarrow> fs \<Rightarrow> u32 res" where
  "fd_local2global local_fd s =
     (if 8 \<le> local_fd then Inl OutOfBounds
      else let global_fd = fd_table s ! unat local_fd
           in bindr (ASSERT (0 \<le> sint global_fd \<and> sint global_fd < 32)) (\<lambda>_. Inr global_fd))"

definition sys_close :: "u32 \<Rightarrow> fs \<Rightarrow> (u32 \<times> fs) res" where
  "sys_close fd s =
     (if sint fd > 2 then
        bindr (fd_local2global fd s) (\<lambda>g.
        bindr (file_close (unat g) s) (\<lambda>(ret, s).
        Inr (ret, s\<lparr>fd_table := (fd_table s)[unat fd := -1]\<rparr>)))
      else Inr (-1, s))"

definition sys_write :: "u32 \<Rightarrow> u8 list \<Rightarrow> fs \<Rightarrow> (u32 \<times> fs) res" where
  "sys_write fd buf s =
     (if sint fd < 0 then Inr (-1, s)
      else if fd = 1 then if 1024 \<le> length buf then Inl OutOfBounds else Inr (of_nat (length buf), s)
      else bindr (fd_local2global fd s) (\<lambda>g.
           let flag = fd_flag (file_table s ! unat g)
           in if flag AND O_WRONLY \<noteq> 0 \<or> flag AND O_RDWR \<noteq> 0 then file_write (unat g) buf s
              else Inr (-1, s)))"

definition sys_read :: "u32 \<Rightarrow> u32 \<Rightarrow> u8 list \<Rightarrow> fs \<Rightarrow> (u32 \<times> u8 list \<times> fs) res" where
  "sys_read fd cnt keys s =
     (if sint fd < 0 \<or> fd = 1 \<or> fd = 2 then Inr (-1, [], s)
      else if fd = 0 then
        if length keys < unat cnt then Inl Blocked
        else Inr (if cnt = 0 then -1 else cnt, take (unat cnt) keys, s)
      else bindr (fd_local2global fd s) (\<lambda>g. file_read (unat g) cnt s))"

definition sys_lseek :: "u32 \<Rightarrow> u32 \<Rightarrow> u8 \<Rightarrow> fs \<Rightarrow> (u32 \<times> fs) res" where
  "sys_lseek fd offset whence s =
     (if sint fd < 0 then Inr (-1, s)
      else bindr (ASSERT (whence > 0 \<and> whence < 4)) (\<lambda>_.
           bindr (fd_local2global fd s) (\<lambda>g.
           let pf = file_table s ! unat g; file_size = i_size (inodes s (fd_inode pf));
               new_pos = (if whence = 1 then offset else if whence = 2 then fd_pos pf + offset else file_size + offset)
           in if sint new_pos < 0 \<or> sint new_pos > sint (file_size - 1) then Inr (-1, s)
              else Inr (new_pos, set_file (unat g) (pf\<lparr>fd_pos := new_pos\<rparr>) s))))"

definition sys_unlink :: "u8 list \<Rightarrow> fs \<Rightarrow> (u32 \<times> fs) res" where
  "sys_unlink pathname s =
     bindr (ASSERT (length pathname < 512)) (\<lambda>_.
     bindr (search_file pathname s) (\<lambda>(inode_no, r, s).
     bindr (ASSERT (inode_no \<noteq> 0)) (\<lambda>_.
     if inode_no = -1 \<or> file_type r = FT_DIRECTORY then bindr (dir_close (parent_dir r) s) (\<lambda>s. Inr (-1, s))
     else if \<exists>f\<in>set (file_table s). fd_inode f \<noteq> NULL \<and> inode_no = i_no (inodes s (fd_inode f)) then
       bindr (dir_close (parent_dir r) s) (\<lambda>s. Inr (-1, s))
     else let (io_buf, s) = heap_alloc s
          in if io_buf = NULL then bindr (dir_close (parent_dir r) s) (\<lambda>s. Inr (-1, s))
             else bindr (delete_dir_entry (parent_dir r) inode_no s) (\<lambda>(_, s).
                  bindr (inode_release inode_no s) (\<lambda>s.
                  bindr (dir_close (parent_dir r) s) (\<lambda>s. Inr (0, s)))))))"

section \<open>Directories\<close>

text \<open>The entries \<open>.\<close> and \<open>..\<close> of a new directory, in a cleared sector.\<close>

definition dot_entries :: "u32 \<Rightarrow> u32 \<Rightarrow> u8 list" where
  "dot_entries self parent =
     splice (splice (replicate 512 0) 0
         (encode_entry \<lparr>filename = 46 # replicate 15 0, e_no = self, f_type = FT_DIRECTORY\<rparr>)) 24
       (encode_entry \<lparr>filename = 46 # 46 # replicate 14 0, e_no = parent, f_type = FT_DIRECTORY\<rparr>)"

definition mkdir_rollback :: "nat \<Rightarrow> u32 \<Rightarrow> addr \<Rightarrow> fs \<Rightarrow> (u32 \<times> fs) res" where
  "mkdir_rollback step inode_no parent s =
     bindr (if step = 2 then bitmap_set (fs_bytes s) (inode_bitmap (cur_part s)) inode_no 0 else Inr (fs_bytes s)) (\<lambda>m.
     bindr (dir_close parent (s\<lparr>fs_bytes := m\<rparr>)) (\<lambda>s. Inr (-1, s)))"

definition sys_mkdir :: "u8 list \<Rightarrow> fs \<Rightarrow> (u32 \<times> fs) res" where
  "sys_mkdir pathname s =
     (let (io_buf, s) = heap_alloc s
      in if io_buf = NULL then Inr (-1, s)
         else bindr (search_file pathname s) (\<lambda>(inode_no, r, s).
           if inode_no \<noteq> -1 then mkdir_rollback 1 0 (parent_dir r) s
           else bindr (path_depth_cnt pathname s) (\<lambda>pathname_depth.
                bindr (path_depth_cnt (searched_path r) s) (\<lambda>path_searched_depth.
                if pathname_depth \<noteq> path_searched_depth then mkdir_rollback 1 0 (parent_dir r) s
                else bindr (inode_bitmap_alloc s) (\<lambda>(inode_no, s).
                  if inode_no = -1 then mkdir_rollback 1 0 (parent_dir r) s
                  else bindr (block_bitmap_alloc s) (\<lambda>(block_lba, s).
                    if block_lba = -1 then mkdir_rollback 2 inode_no (parent_dir r) s
                    else let i = inode_init inode_no; i = i\<lparr>i_sectors := (i_sectors i)[0 := block_lba]\<rparr>;
                             block_bitmap_idx = block_lba - data_start_lba (sb (cur_part s))
                         in bindr (ASSERT (block_bitmap_idx \<noteq> 0)) (\<lambda>_.
                            bindr (bitmap_sync block_bitmap_idx BLOCK_BITMAP s) (\<lambda>s.
                            let parent = dir_inode (dirs s (parent_dir r))
                            in bindr (write_disk block_lba (dot_entries inode_no (i_no (inodes s parent))) 1 s) (\<lambda>s.
                               let i = i\<lparr>i_size := 2 * dir_entry_size (sb (cur_part s))\<rparr>
                               in bindr (create_dir_entry (last_name (searched_path r)) inode_no (ucast FT_DIRECTORY)) (\<lambda>e.
                                  bindr (sync_dir_entry (parent_dir r) e s) (\<lambda>(ok, s).
                                  if \<not> ok then mkdir_rollback 2 inode_no (parent_dir r) s
                                  else bindr (inode_sync (inodes s parent) s) (\<lambda>s.
                                       bindr (inode_sync i s) (\<lambda>s.
                                       bindr (bitmap_sync inode_no INODE_BITMAP s) (\<lambda>s.
                                       bindr (dir_close (parent_dir r) s) (\<lambda>s. Inr (0, s))))))))))))))))"

definition sys_opendir :: "u8 list \<Rightarrow> fs \<Rightarrow> (addr \<times> fs) res" where
  "sys_opendir name s =
     bindr (ASSERT (length name < 512)) (\<lambda>_.
     if name = [slash] then Inr (root_dir s, s)
     else bindr (search_file name s) (\<lambda>(inode_no, r, s).
          bindr (if inode_no \<noteq> -1 \<and> file_type r = FT_DIRECTORY then dir_open inode_no s else Inr (NULL, s)) (\<lambda>(ret, s).
          bindr (dir_close (parent_dir r) s) (\<lambda>s. Inr (ret, s)))))"

definition sys_closedir :: "addr \<Rightarrow> fs \<Rightarrow> (u32 \<times> fs) res" where
  "sys_closedir dir s =
     (if dir \<noteq> NULL then bindr (dir_close dir s) (\<lambda>s. Inr (0, s)) else Inr (-1, s))"

definition sys_readdir :: "addr \<Rightarrow> fs \<Rightarrow> (addr \<times> fs) res" where
  "sys_readdir dir s = bindr (ASSERT (dir \<noteq> NULL)) (\<lambda>_. dir_read dir s)"

definition sys_rewinddir :: "addr \<Rightarrow> fs \<Rightarrow> fs" where
  "sys_rewinddir dir s = s\<lparr>dirs := (dirs s)(dir := (dirs s dir)\<lparr>dir_pos := 0\<rparr>)\<rparr>"

definition sys_rmdir :: "u8 list \<Rightarrow> fs \<Rightarrow> (u32 \<times> fs) res" where
  "sys_rmdir pathname s =
     bindr (search_file pathname s) (\<lambda>(inode_no, r, s).
     bindr (ASSERT (inode_no \<noteq> 0)) (\<lambda>_.
     bindr (if inode_no = -1 \<or> file_type r = FT_REGULAR then Inr (-1, s)
            else bindr (dir_open inode_no s) (\<lambda>(dir, s).
                 bindr (if \<not> dir_is_empty dir s then Inr (-1, s) else dir_remove (parent_dir r) dir s) (\<lambda>(ret, s).
                 bindr (dir_close dir s) (\<lambda>s. Inr (if ret = 0 then 0 else -1, s))))) (\<lambda>(retval, s).
     bindr (dir_close (parent_dir r) s) (\<lambda>s. Inr (retval, s)))))"

section \<open>The working directory\<close>

definition get_parent_dir_inode_nr :: "u32 \<Rightarrow> fs \<Rightarrow> (u32 \<times> fs) res" where
  "get_parent_dir_inode_nr child_inode_nr s =
     bindr (inode_open child_inode_nr s) (\<lambda>(p, s).
     let block_lba = i_sectors (inodes s p) ! 0
     in bindr (ASSERT (block_lba \<ge> data_start_lba (sb (cur_part s)))) (\<lambda>_.
        bindr (inode_close p s) (\<lambda>s.
        bindr (read_disk block_lba 1 s) (\<lambda>buf.
        let e = entry_at buf 1
        in bindr (ASSERT (e_no e < 4096 \<and> f_type e = FT_DIRECTORY)) (\<lambda>_. Inr (e_no e, s))))))"

primrec entry_numbered :: "u8 list \<Rightarrow> u32 \<Rightarrow> nat \<Rightarrow> nat \<Rightarrow> nat option res" where
  "entry_numbered buf no 0 k = Inr None"
| "entry_numbered buf no (Suc n) k =
     (if length buf < 24 * k + 24 then Inl OutOfBounds
      else if e_no (entry_at buf k) = no then Inr (Some k) else entry_numbered buf no n (Suc k))"

primrec child_name :: "u32 list \<Rightarrow> u32 \<Rightarrow> nat \<Rightarrow> fs \<Rightarrow> u8 list option res" where
  "child_name [] no n s = Inr None"
| "child_name (b # bs) no n s =
     (if b = 0 then child_name bs no n s
      else bindr (read_disk b 1 s) (\<lambda>buf.
           bindr (entry_numbered buf no n 0) (\<lambda>found.
           case found of Some k \<Rightarrow> Inr (Some (takeWhile (\<lambda>c. c \<noteq> 0) (drop (24 * k) buf)))
           | None \<Rightarrow> child_name bs no n s)))"

text \<open>The path is a string in an array of 512 bytes.\<close>

definition get_child_dir_name :: "u32 \<Rightarrow> u32 \<Rightarrow> u8 list \<Rightarrow> fs \<Rightarrow> (u8 list option \<times> fs) res" where
  "get_child_dir_name p_inode_nr c_inode_nr path s =
     bindr (inode_open p_inode_nr s) (\<lambda>(p, s).
     bindr (all_blocks (inodes s p) s) (\<lambda>blocks.
     bindr (inode_close p s) (\<lambda>s.
     bindr (entries_per_sec s) (\<lambda>n.
     bindr (child_name blocks c_inode_nr n s) (\<lambda>r.
     case r of None \<Rightarrow> Inr (None, s)
     | Some name \<Rightarrow>
         let path = path @ [slash] @ name
         in if 512 \<le> length path then Inl OutOfBounds else Inr (Some path, s))))))"

text \<open>The way up to the root; it does not end when the parents go round in a circle.\<close>

partial_function (option) cwd_loop :: "u32 \<Rightarrow> u8 list \<Rightarrow> fs \<Rightarrow> (u8 list option \<times> fs) res option" where
  "cwd_loop child path s =
     (if child = 0 then Some (Inr (Some path, s))
      else case get_parent_dir_inode_nr child s of
        Inl e \<Rightarrow> Some (Inl e)
      | Inr (parent, s) \<Rightarrow>
          (case get_child_dir_name parent child path s of
             Inl e \<Rightarrow> Some (Inl e)
           | Inr (None, s) \<Rightarrow> Some (Inr (None, s))
           | Inr (Some path, s) \<Rightarrow> cwd_loop parent path s))"

text \<open>The loop that is to turn the path round: \<open>strchr\<close> finds the first slash.\<close>

function turn_path :: "u8 list \<Rightarrow> u8 list \<Rightarrow> u8 list" where
  "turn_path full buf =
     (if slash \<in> set full then
        let k = length (takeWhile (\<lambda>c. c \<noteq> slash) full) in turn_path (take k full) (buf @ drop k full)
      else buf)"
  by pat_completeness auto
termination
proof (relation "measure (\<lambda>(full, buf). length full)")
  fix full :: "u8 list" and buf :: "u8 list" and k
  assume a: "slash \<in> set full" "k = length (takeWhile (\<lambda>c. c \<noteq> slash) full)"
  have "length (takeWhile (\<lambda>c. c \<noteq> slash) full) < length full"
    using a(1) by (metis (mono_tags, lifting) length_takeWhile_le nat_less_le takeWhile_eq_all_conv takeWhile_eq_take take_all order_refl)
  with a show "((take k full, buf @ drop k full), full, buf) \<in> measure (\<lambda>(full, buf). length full)" by simp
qed simp

declare turn_path.simps [simp del]

text \<open>The answer is the string in the buffer of \<open>sz\<close> bytes, or \<open>NULL\<close>.\<close>

definition sys_getcwd :: "u32 \<Rightarrow> fs \<Rightarrow> (u8 list option \<times> fs) res" where
  "sys_getcwd sz s =
     (let (io_buf, s) = heap_alloc s
      in if io_buf = NULL then Inr (None, s)
         else let child = cwd_inode_nr s
              in bindr (ASSERT (0 \<le> sint child \<and> sint child < 4096)) (\<lambda>_.
                 if child = 0 then Inr (Some [slash], s)
                 else bindr (returns (cwd_loop child [] s)) (\<lambda>x. bindr x (\<lambda>(r, s).
                      case r of None \<Rightarrow> Inr (None, s)
                      | Some full \<Rightarrow>
                          bindr (ASSERT (length full \<le> unat sz)) (\<lambda>_.
                          if length full = unat sz then Inl OutOfBounds else Inr (Some (turn_path full []), s))))))"

definition sys_chdir :: "u8 list \<Rightarrow> fs \<Rightarrow> (u32 \<times> fs) res" where
  "sys_chdir path s =
     bindr (search_file path s) (\<lambda>(inode_no, r, s).
     let ok = (inode_no \<noteq> -1 \<and> file_type r = FT_DIRECTORY); s = (if ok then s\<lparr>cwd_inode_nr := inode_no\<rparr> else s)
     in bindr (dir_close (parent_dir r) s) (\<lambda>s. Inr (if ok then 0 else -1, s)))"

record stat =
  st_ino :: u32
  st_size :: u32
  st_filetype :: u32

definition sys_stat :: "u8 list \<Rightarrow> fs \<Rightarrow> (stat option \<times> fs) res" where
  "sys_stat path s =
     (if path \<in> {[slash], [slash, 46], [slash, 46, 46]} then
        Inr (Some \<lparr>st_ino = 0, st_size = i_size (inodes s (dir_inode (dirs s (root_dir s)))), st_filetype = FT_DIRECTORY\<rparr>, s)
      else bindr (search_file path s) (\<lambda>(inode_no, r, s).
           bindr (if inode_no \<noteq> -1 then
                bindr (inode_open inode_no s) (\<lambda>(p, s).
                let sz = i_size (inodes s p)
                in bindr (inode_close p s) (\<lambda>s. Inr (Some \<lparr>st_ino = inode_no, st_size = sz, st_filetype = file_type r\<rparr>, s)))
              else Inr (None, s)) (\<lambda>(ret, s).
           bindr (dir_close (parent_dir r) s) (\<lambda>s. Inr (ret, s)))))"

end
