(* ===== verification/Format.thy ===== *)
theory Format
  imports Fs
begin

unbundle bit_operations_syntax

text \<open>
  Creating and mounting a file system: \<open>partition_format\<close>, \<open>mount_partition\<close> and \<open>filesys_init\<close> of
  \<^verbatim>\<open>fs/fs.c\<close>. The partitions are those that the driver's scan left in its tables. The super block that
  \<open>partition_format\<close> fills in is a local variable: two of its fields are read before they are set.
\<close>

section \<open>The super block on disk\<close>

definition encode_sb :: "super_block \<Rightarrow> u8 list" where
  "encode_sb b = bytes_of [magic b, sb_sec_cnt b, inode_cnt b, part_lba_base b, block_bitmap_lba b,
     block_bitmap_sects b, inode_bitmap_lba b, inode_bitmap_sects b, inode_table_lba b, inode_table_sects b,
     data_start_lba b, root_inode_no b, dir_entry_size b]"

definition decode_sb :: "u8 list \<Rightarrow> super_block" where
  "decode_sb bs = (let w = (\<lambda>k. words_of bs ! k)
     in \<lparr>magic = w 0, sb_sec_cnt = w 1, inode_cnt = w 2, part_lba_base = w 3, block_bitmap_lba = w 4,
       block_bitmap_sects = w 5, inode_bitmap_lba = w 6, inode_bitmap_sects = w 7, inode_table_lba = w 8,
       inode_table_sects = w 9, data_start_lba = w 10, root_inode_no = w 11, dir_entry_size = w 12\<rparr>)"

definition DIV_ROUND_UP :: "u32 \<Rightarrow> u32 \<Rightarrow> u32" where
  "DIV_ROUND_UP x step = (x + step - 1) div step"

definition write_to :: "disk_id \<Rightarrow> u32 \<Rightarrow> u8 list \<Rightarrow> u32 \<Rightarrow> fs \<Rightarrow> fs res" where
  "write_to dk lba buf n s =
     bindr (write_sectors (disks s dk) lba buf n) (\<lambda>d. Inr (s\<lparr>disks := (disks s)(dk := d)\<rparr>))"

section \<open>Formatting\<close>

text \<open>The number of data blocks, and the sectors of their bitmap.\<close>

definition free_sects :: "u32 \<Rightarrow> u32" where
  "free_sects sects = sects - (1 + 1 + DIV_ROUND_UP 4096 4096 + DIV_ROUND_UP (76 * 4096) 512)"

definition block_bitmap_bit_len :: "u32 \<Rightarrow> u32" where
  "block_bitmap_bit_len sects = free_sects sects - DIV_ROUND_UP (free_sects sects) 4096"

text \<open>The fields in the order in which they are set; \<open>b\<close> is what the variable holds before.\<close>

definition fill_super_block :: "part_entry \<Rightarrow> super_block \<Rightarrow> super_block" where
  "fill_super_block part b =
     (let b = b\<lparr>magic := 0x19590318, sb_sec_cnt := part_sects part, inode_cnt := 4096, part_lba_base := part_start part\<rparr>;
          b = b\<lparr>block_bitmap_lba := part_lba_base b + 2\<rparr>;
          b = b\<lparr>block_bitmap_sects := DIV_ROUND_UP (block_bitmap_bit_len (part_sects part)) 4096\<rparr>;
          b = b\<lparr>inode_bitmap_lba := block_bitmap_lba b + inode_bitmap_sects b\<rparr>;
          b = b\<lparr>inode_bitmap_sects := DIV_ROUND_UP 4096 4096\<rparr>;
          b = b\<lparr>inode_table_lba := inode_bitmap_lba b + inode_table_sects b\<rparr>;
          b = b\<lparr>inode_table_sects := DIV_ROUND_UP (76 * 4096) 512\<rparr>;
          b = b\<lparr>data_start_lba := inode_table_lba b + inode_table_sects b\<rparr>
      in b\<lparr>root_inode_no := 0, dir_entry_size := 24\<rparr>)"

text \<open>The loop that clears the bits up to \<open>last_bit\<close> of the last byte.\<close>

primrec clear_bits :: "nat \<Rightarrow> nat \<Rightarrow> u8 \<Rightarrow> u8" where
  "clear_bits 0 bit_idx v = v"
| "clear_bits (Suc n) bit_idx v = clear_bits n (Suc bit_idx) (v AND NOT (push_bit bit_idx 1))"

text \<open>The block bitmap of a fresh partition, in a buffer of \<open>n\<close> bytes.\<close>

definition fresh_block_bitmap :: "nat \<Rightarrow> u32 \<Rightarrow> u8 list res" where
  "fresh_block_bitmap n bit_len =
     (let buf = (replicate n 0)[0 := 0x01];
          last_byte = unat (bit_len div 8); last_bit = unat (bit_len mod 8);
          last_size = 512 - last_byte mod 512
      in if n < last_byte + last_size then Inl OutOfBounds
         else let buf = splice buf last_byte (replicate last_size 0xff)
              in Inr (buf[last_byte := clear_bits (Suc last_bit) 0 (buf ! last_byte)]))"

definition partition_format :: "part_entry \<Rightarrow> super_block \<Rightarrow> fs \<Rightarrow> fs res" where
  "partition_format part garbage_sb s =
     (let dk = part_disk part; b = fill_super_block part garbage_sb
      in bindr (write_to dk (part_start part + 1) (encode_sb b @ map (garbage s) [0..<460]) 1 s) (\<lambda>s.
         let buf_size = max (max (block_bitmap_sects b) (inode_bitmap_sects b)) (inode_table_sects b) * 512;
             n = unat buf_size; (buf, s) = heap_alloc s
         in if buf = NULL then Inl OutOfBounds
            else bindr (fresh_block_bitmap n (block_bitmap_bit_len (part_sects part))) (\<lambda>bitmap.
                 bindr (write_to dk (block_bitmap_lba b) bitmap (block_bitmap_sects b) s) (\<lambda>s.
                 bindr (write_to dk (inode_bitmap_lba b) ((replicate n 0)[0 := 0x1]) (inode_bitmap_sects b) s) (\<lambda>s.
                 let i = (inode_init 0)\<lparr>i_size := dir_entry_size b * 2, i_sectors := (replicate 13 0)[0 := data_start_lba b]\<rparr>
                 in bindr (write_to dk (inode_table_lba b) (splice (replicate n 0) 0 (encode_inode i)) (inode_table_sects b) s) (\<lambda>s.
                    write_to dk (data_start_lba b) (dot_entries 0 0) 1 s))))))"

section \<open>Mounting\<close>

text \<open>The sector that is read into the inode bitmap is the first one of the block bitmap.\<close>

definition mount :: "part_entry \<Rightarrow> fs \<Rightarrow> fs res" where
  "mount part s =
     (let dk = part_disk part; (sb_buf, s) = heap_alloc s; (b_ptr, s) = heap_alloc s
      in bindr (ASSERT (b_ptr \<noteq> NULL)) (\<lambda>_.
         bindr (ASSERT (sb_buf \<noteq> NULL)) (\<lambda>_.
         bindr (read_sectors (disks s dk) (part_start part + 1) 1) (\<lambda>bs.
         let b = decode_sb bs; (block_bits, s) = heap_alloc s
         in bindr (ASSERT (block_bits \<noteq> NULL)) (\<lambda>_.
            let (inode_bits, s) = heap_alloc s
            in bindr (ASSERT (inode_bits \<noteq> NULL)) (\<lambda>_.
               let m = memset_loop (fs_bytes s) block_bits 0 (unat (block_bitmap_sects b * 512))
               in bindr (read_sectors (disks s dk) (block_bitmap_lba b) (inode_bitmap_sects b)) (\<lambda>data.
                  Inr (s\<lparr>fs_bytes := put_bytes m inode_bits data,
                    cur_part := \<lparr>start_lba = part_start part, sec_cnt = part_sects part, my_disk = dk, sb = b,
                      block_bitmap = \<lparr>btmp_bytes_len = block_bitmap_sects b * 512, bits = block_bits\<rparr>,
                      inode_bitmap = \<lparr>btmp_bytes_len = inode_bitmap_sects b * 512, bits = inode_bits\<rparr>,
                      open_inodes = []\<rparr>\<rparr>))))))))"

definition listed_part :: "ata \<Rightarrow> disk_id \<times> bool \<times> nat \<Rightarrow> part_entry" where
  "listed_part a x = (let (dk, logic, k) = x in if logic then logic_parts a dk ! k else prim_parts a dk ! k)"

text \<open>The callback of \<open>list_traversal\<close>, for the partitions in their order.\<close>

primrec mount_partition :: "(disk_id \<times> bool \<times> nat) list \<Rightarrow> ata \<Rightarrow> u8 list \<Rightarrow> fs \<Rightarrow> fs res" where
  "mount_partition [] a name s = Inl OutOfBounds"
| "mount_partition (x # xs) a name s =
     (let part = listed_part a x in if part_name part = name then mount part s else mount_partition xs a name s)"

section \<open>Starting the file system\<close>

text \<open>The loop over the 4 primary and 8 logical partitions of a disk, \<open>n\<close> of which are left.\<close>

primrec format_parts :: "nat \<Rightarrow> nat \<Rightarrow> disk_id \<Rightarrow> ata \<Rightarrow> super_block \<Rightarrow> fs \<Rightarrow> fs res" where
  "format_parts 0 part_idx dk a garbage_sb s = Inr s"
| "format_parts (Suc n) part_idx dk a garbage_sb s =
     (let part = (if part_idx < 4 then prim_parts a dk ! part_idx else logic_parts a dk ! (part_idx - 4))
      in bindr (if part_sects part \<noteq> 0 then
             bindr (read_sectors (disks s dk) (part_start part + 1) 1) (\<lambda>bs.
             if magic (decode_sb bs) = 0x19590318 then Inr s else partition_format part garbage_sb s)
           else Inr s) (format_parts n (Suc part_idx) dk a garbage_sb))"

text \<open>The index of the partition is not reset: only the disk of the first channel is looked at.\<close>

primrec format_disks :: "nat \<Rightarrow> nat \<Rightarrow> nat \<Rightarrow> ata \<Rightarrow> super_block \<Rightarrow> fs \<Rightarrow> fs res" where
  "format_disks 0 channel_no part_idx a garbage_sb s = Inr s"
| "format_disks (Suc n) channel_no part_idx a garbage_sb s =
     bindr (format_parts (12 - part_idx) part_idx (channel_no, 1) a garbage_sb s) (\<lambda>s.
     format_disks n (Suc channel_no) (max 12 part_idx) a garbage_sb s)"

definition filesys_init :: "ata \<Rightarrow> super_block \<Rightarrow> fs \<Rightarrow> fs res" where
  "filesys_init a garbage_sb s =
     (let (sb_buf, s) = heap_alloc s
      in bindr (ASSERT (sb_buf \<noteq> NULL)) (\<lambda>_.
         bindr (format_disks (unat (channel_cnt a)) 0 0 a garbage_sb s) (\<lambda>s.
         bindr (mount_partition (partition_list a) a [0x73, 0x64, 0x62, 0x31] s) (\<lambda>s.
         bindr (open_root_dir s) (\<lambda>s.
         Inr (s\<lparr>file_table := map (\<lambda>f. f\<lparr>fd_inode := NULL\<rparr>) (file_table s)\<rparr>))))))"

section \<open>The fresh block bitmap\<close>

lemma bit_clear_bits: "bit (clear_bits n i v) k \<longleftrightarrow> bit v k \<and> \<not> (i \<le> k \<and> k < i + n)"
proof (induction n arbitrary: i v)
  case (Suc n)
  have "bit (v AND NOT (push_bit i 1)) k \<longleftrightarrow> bit v k \<and> k \<noteq> i"
    by (auto simp: bit_and_iff bit_not_iff bit_push_bit_iff bit_1_iff bit_exp_iff dest: bit_imp_le_length)
  with Suc show ?case by auto
qed simp

lemma bit_ff: "bit (0xff :: u8) k \<longleftrightarrow> k < 8"
proof -
  have e: "(0xff :: u8) = - 1" by simp
  show ?thesis unfolding e by simp
qed

text \<open>Bit \<open>j\<close> of a buffer.\<close>

definition buf_bit :: "u8 list \<Rightarrow> nat \<Rightarrow> bool" where
  "buf_bit buf j = bit (buf ! (j div 8)) (j mod 8)"

lemma fresh_bits:
  assumes "q + ls \<le> n" and "0 < ls" and "r < 8" and "k < n" and "m < (8 :: nat)"
  defines "b1 \<equiv> splice ((replicate n 0)[0 := 0x01]) q (replicate ls (0xff :: u8))"
  shows "bit (b1[q := clear_bits (Suc r) 0 (b1 ! q)] ! k) m \<longleftrightarrow> k = 0 \<and> m = 0 \<and> 0 < q \<or> 8 * q + r < 8 * k + m \<and> k < q + ls"
proof -
  have l1: "length b1 = n" unfolding b1_def using assms(1,2) by (subst length_splice) simp_all
  have b1: "b1 ! i = (if q \<le> i \<and> i < q + ls then 0xff else if i = 0 then 1 else 0)" if "i < n" for i
    unfolding b1_def using that assms(1) by (subst nth_splice) (auto simp: nth_list_update)
  have b: "b1[q := clear_bits (Suc r) 0 (b1 ! q)] ! k = (if k = q then clear_bits (Suc r) 0 0xff else b1 ! k)"
    using assms(1,2,4) l1 b1 [of q] by (simp add: nth_list_update)
  consider "k < q" | "k = q" | "q < k" by linarith
  then show ?thesis
  proof cases
    case 1
    then have "\<not> 8 * q + r < 8 * k + m" using assms(5) by linarith
    then show ?thesis using 1 unfolding b using b1 [OF assms(4)] by (auto simp: bit_1_iff)
  next
    case 2
    have "bit (clear_bits (Suc r) 0 (0xff :: u8)) m \<longleftrightarrow> r < m"
      unfolding bit_clear_bits bit_ff using assms(5) by auto
    then show ?thesis unfolding b using 2 assms(2) by (auto simp del: clear_bits.simps)
  next
    case 3
    then have "8 * q + r < 8 * k + m" using assms(3) by linarith
    moreover have "bit (0xff :: u8) m" unfolding bit_ff by (rule assms(5))
    ultimately show ?thesis using 3 unfolding b using b1 [OF assms(4)] by auto
  qed
qed

lemma fresh_block_bitmap_ok:
  assumes "512 * (unat len div 4096 + 1) \<le> n"
  shows "\<exists>buf. fresh_block_bitmap n len = Inr buf \<and> length buf = n \<and>
    (\<forall>j<8 * n. buf_bit buf j \<longleftrightarrow>
       j = 0 \<and> 8 \<le> unat len \<or> unat len < j \<and> j < 4096 * (unat len div 4096 + 1))"
proof -
  define q r where "q = unat len div 8" and "r = unat len mod 8"
  define ls where "ls = 512 - q mod 512"
  have L: "8 * q + r = unat len" "r < 8" by (simp_all add: q_def r_def)
  have qe: "q div 512 = unat len div 4096" by (simp add: q_def div_mult2_eq [symmetric])
  have round: "q = 512 * a + b \<Longrightarrow> b < 512 \<Longrightarrow> q + (512 - b) = 512 * (a + 1)" for q a b :: nat by simp
  have m512: "q mod 512 < 512" by simp
  then have e: "q + ls = 512 * (unat len div 4096 + 1)" "0 < ls"
    using round [OF mult_div_mod_eq [symmetric] m512] unfolding qe ls_def by simp_all
  have qn: "q + ls \<le> n" using assms e by simp
  let ?b1 = "splice ((replicate n 0)[0 := 0x01]) q (replicate ls (0xff :: u8))"
  let ?buf = "?b1[q := clear_bits (Suc r) 0 (?b1 ! q)]"
  have "length ?b1 = n" using qn e(2) by (subst length_splice) simp_all
  have "fresh_block_bitmap n len = Inr ?buf"
    unfolding fresh_block_bitmap_def Let_def unat_div unat_mod
    using qn by (simp add: q_def [symmetric] r_def [symmetric] ls_def [symmetric] del: clear_bits.simps)
  moreover have "buf_bit ?buf j \<longleftrightarrow> j = 0 \<and> 8 \<le> unat len \<or> unat len < j \<and> j < 4096 * (unat len div 4096 + 1)" if "j < 8 * n" for j
  proof -
    define k m where "k = j div 8" and "m = j mod 8"
    have j: "j = 8 * k + m" "m < 8" "k < n" using that by (auto simp: k_def m_def)
    have "buf_bit ?buf j \<longleftrightarrow> k = 0 \<and> m = 0 \<and> 0 < q \<or> 8 * q + r < 8 * k + m \<and> k < q + ls"
      unfolding buf_bit_def k_def [symmetric] m_def [symmetric] by (rule fresh_bits [OF qn e(2) L(2) j(3,2)])
    moreover have "0 < q \<longleftrightarrow> 8 \<le> unat len" using L by linarith
    moreover have "k < q + ls \<longleftrightarrow> j < 4096 * (unat len div 4096 + 1)" unfolding e(1) using j(1,2) by simp linarith
    ultimately show ?thesis unfolding L j(1) by auto
  qed
  ultimately show ?thesis using \<open>length ?b1 = n\<close> by (intro exI [of _ ?buf]) simp
qed

section \<open>Formatting and mounting\<close>

lemma decode_encode_sb [simp]: "decode_sb (encode_sb b @ xs) = b"
  by (simp add: decode_sb_def encode_sb_def Let_def)

lemma length_encode_sb [simp]: "length (encode_sb b) = 52"
  by (simp add: encode_sb_def)

text \<open>The regions that formatting writes behind the super block. Two addresses come from fields that were not
  set, so it takes a hypothesis that the driver accepts the regions and that they miss the super block.\<close>

definition regions :: "super_block \<Rightarrow> (u32 \<times> u32) list" where
  "regions b = [(block_bitmap_lba b, block_bitmap_sects b), (inode_bitmap_lba b, inode_bitmap_sects b),
     (inode_table_lba b, inode_table_sects b), (data_start_lba b, 1)]"

definition formattable :: "part_entry \<Rightarrow> super_block \<Rightarrow> bool" where
  "formattable part b \<longleftrightarrow> part_start part + 1 \<le> max_lba \<and> unat (block_bitmap_bit_len (part_sects part)) < 2490368 \<and>
     (\<forall>(lba, n)\<in>set (regions b). transfer_ok lba (unat n) \<and> unat n \<le> unat (part_start part + 1 - lba))"

lemma write_to_ok:
  assumes "transfer_ok lba (unat n)"
  shows "write_to dk lba buf n s = Inr (s\<lparr>disks := (disks s)(dk := put_sectors (disks s dk) lba (unat n) buf)\<rparr>)"
  using assms by (simp add: write_to_def write_sectors_def)

lemma put_sectors_misses: "n \<le> unat (a - lba) \<Longrightarrow> put_sectors d lba n xs a = d a"
  by (simp add: put_sectors_def)

lemma filled_fields:
  "inode_bitmap_sects (fill_super_block part g) = 1" "inode_table_sects (fill_super_block part g) = 608"
  "block_bitmap_lba (fill_super_block part g) = part_start part + 2" "magic (fill_super_block part g) = 0x19590318"
  "block_bitmap_sects (fill_super_block part g) = DIV_ROUND_UP (block_bitmap_bit_len (part_sects part)) 4096"
  by (simp_all add: fill_super_block_def Let_def DIV_ROUND_UP_def)

lemma partition_format_ok:
  assumes f: "formattable part (fill_super_block part g)" and m: "mallocs s = a # ms" "a \<noteq> NULL"
  shows "\<exists>s'. partition_format part g s = Inr s' \<and> s' = s\<lparr>disks := disks s', mallocs := ms\<rparr> \<and>
    (\<forall>dk. dk \<noteq> part_disk part \<longrightarrow> disks s' dk = disks s dk) \<and>
    disks s' (part_disk part) (part_start part + 1) = encode_sb (fill_super_block part g) @ map (garbage s) [0..<460]"
proof -
  let ?b = "fill_super_block part g" and ?dk = "part_disk part"
  let ?sb = "encode_sb ?b @ map (garbage s) [0..<460]"
  define n where "n = unat (max (max (block_bitmap_sects ?b) (inode_bitmap_sects ?b)) (inode_table_sects ?b) * 512)"
  let ?len = "block_bitmap_bit_len (part_sects part)"
  have lim: "unat ?len < 2490368" using f by (simp add: formattable_def)
  have bbs: "unat (block_bitmap_sects ?b) \<le> 608"
  proof -
    have "unat (?len + 4096 - 1) = unat ?len + 4095" using lim by (simp add: unat_plus_if' unat_sub_if')
    then show ?thesis using lim by (simp add: filled_fields DIV_ROUND_UP_def unat_div)
  qed
  have "max (max (block_bitmap_sects ?b) (inode_bitmap_sects ?b)) (inode_table_sects ?b) = 608"
    using bbs by (simp add: filled_fields(1,2) max_def word_le_nat_alt)
  then have n: "n = 311296" by (simp add: n_def)
  have "512 * (unat ?len div 4096 + 1) \<le> n" using lim n by (simp add: less_mult_imp_div_less)
  then obtain bm where bm: "fresh_block_bitmap n ?len = Inr bm" using fresh_block_bitmap_ok by blast
  have tr: "transfer_ok lba (unat k)" "unat k \<le> unat (part_start part + 1 - lba)" if "(lba, k) \<in> set (regions ?b)" for lba k
    using f that by (auto simp: formattable_def)
  have t1: "transfer_ok (part_start part + 1) (unat (1 :: u32))"
    using f by (simp add: formattable_def transfer_ok_def word_le_nat_alt)
  note w = write_to_ok [OF tr(1)] and miss = put_sectors_misses [OF tr(2)]
  have r: "(block_bitmap_lba ?b, block_bitmap_sects ?b) \<in> set (regions ?b)" "(inode_bitmap_lba ?b, inode_bitmap_sects ?b) \<in> set (regions ?b)"
    "(inode_table_lba ?b, inode_table_sects ?b) \<in> set (regions ?b)" "(data_start_lba ?b, 1) \<in> set (regions ?b)"
    by (simp_all add: regions_def)
  let ?d0 = "disks s ?dk"
  define d1 where "d1 = put_sectors ?d0 (part_start part + 1) (unat (1 :: u32)) ?sb"
  define d2 where "d2 = put_sectors d1 (block_bitmap_lba ?b) (unat (block_bitmap_sects ?b)) bm"
  define d3 where "d3 = put_sectors d2 (inode_bitmap_lba ?b) (unat (inode_bitmap_sects ?b)) ((replicate n 0)[0 := 1])"
  define i where "i = (inode_init 0)\<lparr>i_size := dir_entry_size ?b * 2, i_sectors := (replicate 13 0)[0 := data_start_lba ?b]\<rparr>"
  define d4 where "d4 = put_sectors d3 (inode_table_lba ?b) (unat (inode_table_sects ?b)) (splice (replicate n 0) 0 (encode_inode i))"
  define d5 where "d5 = put_sectors d4 (data_start_lba ?b) (unat (1 :: u32)) (dot_entries 0 0)"
  let ?s' = "s\<lparr>disks := (disks s)(?dk := d5), mallocs := ms\<rparr>"
  have "partition_format part g s = Inr ?s'"
    unfolding partition_format_def Let_def n_def [symmetric] write_to_ok [OF t1] bindr_Inr i_def [symmetric]
    using m bm w [OF r(1)] w [OF r(2)] w [OF r(3)] w [OF r(4)]
    by (simp add: heap_alloc_def d1_def d2_def d3_def d4_def d5_def)
  moreover have "d5 (part_start part + 1) = ?sb"
  proof -
    have "d5 (part_start part + 1) = d1 (part_start part + 1)"
      unfolding d5_def d4_def d3_def d2_def miss [OF r(1)] miss [OF r(2)] miss [OF r(3)] miss [OF r(4)] ..
    then show ?thesis by (simp add: d1_def put_sectors_def)
  qed
  ultimately show ?thesis by (intro exI [of _ ?s']) simp
qed

definition mounted :: "part_entry \<Rightarrow> super_block \<Rightarrow> addr \<Rightarrow> addr \<Rightarrow> partition" where
  "mounted part b block_bits inode_bits = \<lparr>start_lba = part_start part, sec_cnt = part_sects part, my_disk = part_disk part, sb = b,
     block_bitmap = \<lparr>btmp_bytes_len = block_bitmap_sects b * 512, bits = block_bits\<rparr>,
     inode_bitmap = \<lparr>btmp_bytes_len = inode_bitmap_sects b * 512, bits = inode_bits\<rparr>, open_inodes = []\<rparr>"

lemma mount_ok:
  assumes "mallocs s = a1 # a2 # a3 # a4 # ms" and "NULL \<notin> {a1, a2, a3, a4}" and "part_start part + 1 \<le> max_lba"
  defines "b \<equiv> decode_sb (disks s (part_disk part) (part_start part + 1))"
  assumes "transfer_ok (block_bitmap_lba b) (unat (inode_bitmap_sects b))"
  shows "mount part s = Inr (s\<lparr>mallocs := ms, cur_part := mounted part b a3 a4,
    fs_bytes := put_bytes (memset_loop (fs_bytes s) a3 0 (unat (block_bitmap_sects b * 512))) a4
      (get_sectors (disks s (part_disk part)) (block_bitmap_lba b) (unat (inode_bitmap_sects b)))\<rparr>)"
proof -
  have "transfer_ok (part_start part + 1) (unat (1 :: u32))"
    using assms(3) by (simp add: transfer_ok_def word_le_nat_alt)
  then have r: "read_sectors (disks s (part_disk part)) (part_start part + 1) 1 = Inr (disks s (part_disk part) (part_start part + 1))"
    by (simp add: read_sectors_def get_sectors_def)
  have r': "read_sectors (disks s (part_disk part)) (block_bitmap_lba b) (inode_bitmap_sects b) =
      Inr (get_sectors (disks s (part_disk part)) (block_bitmap_lba b) (unat (inode_bitmap_sects b)))"
    using assms(5) by (simp add: read_sectors_def)
  show ?thesis unfolding mount_def Let_def heap_alloc_def
    using assms(1,2) r by (simp add: b_def [symmetric] r' mounted_def)
qed

text \<open>The bitmap in use is wrong: that of the blocks is empty, and that of the inodes is the one of the blocks.\<close>

lemma mount_wrong_bitmaps:
  assumes "mallocs s = a1 # a2 # a3 # a4 # ms" and "NULL \<notin> {a1, a2, a3, a4}" and "part_start part + 1 \<le> max_lba"
    and "b = decode_sb (disks s (part_disk part) (part_start part + 1))" and "inode_bitmap_sects b = 1"
    and "block_bitmap_lba b \<le> max_lba" and "length (disks s (part_disk part) (block_bitmap_lba b)) = 512"
    and "\<forall>k<unat (block_bitmap_sects b * 512). \<not> within (a3 + of_nat k) a4 512"
  shows "\<exists>s'. mount part s = Inr s' \<and>
    (\<forall>k<512. fs_bytes s' (a4 + of_nat k) = disks s (part_disk part) (block_bitmap_lba b) ! k) \<and>
    (\<forall>k<unat (block_bitmap_sects b * 512). fs_bytes s' (a3 + of_nat k) = 0)"
proof -
  have t: "transfer_ok (block_bitmap_lba b) (unat (inode_bitmap_sects b))"
    using assms(5,6) by (simp add: transfer_ok_def word_le_nat_alt)
  have g: "get_sectors d lba (unat (inode_bitmap_sects b)) = d lba" for d lba
    using assms(5) by (simp add: get_sectors_def)
  have "unat (block_bitmap_sects b * 512) \<le> 4294967296" by (rule less_imp_le [OF unat_u32_bound])
  then have z: "memset_loop (fs_bytes s) a3 0 (unat (block_bitmap_sects b * 512)) (a3 + of_nat k) = 0"
    if "k < unat (block_bitmap_sects b * 512)" for k
    using that by (simp add: memset_loop_apply within_def unat_of_nat_u32)
  show ?thesis
    using mount_ok [OF assms(1-3), unfolded assms(4) [symmetric], OF t] z assms(7,8)
    by (simp add: g put_bytes_def within_def unat_of_nat_u32)
qed

text \<open>A disk is formatted when its partitions have super blocks.\<close>

definition part_at :: "ata \<Rightarrow> disk_id \<Rightarrow> nat \<Rightarrow> part_entry" where
  "part_at a dk k = (if k < 4 then prim_parts a dk ! k else logic_parts a dk ! (k - 4))"

definition formatted :: "ata \<Rightarrow> fs \<Rightarrow> bool" where
  "formatted a s \<longleftrightarrow> (\<forall>k<12. part_sects (part_at a (0, 1) k) \<noteq> 0 \<longrightarrow>
     part_start (part_at a (0, 1) k) + 1 \<le> max_lba \<and>
     magic (decode_sb (disks s (0, 1) (part_start (part_at a (0, 1) k) + 1))) = 0x19590318)"

lemma format_parts_kept:
  assumes "formatted a s" and "k + n \<le> 12"
  shows "format_parts n k (0, 1) a g s = Inr s"
  using assms(2)
proof (induction n arbitrary: k)
  case (Suc n)
  have r: "transfer_ok lba (unat (1 :: u32))" if "lba \<le> max_lba" for lba
    using that by (simp add: transfer_ok_def word_le_nat_alt)
  have "part_sects (part_at a (0, 1) k) \<noteq> 0 \<longrightarrow> part_start (part_at a (0, 1) k) + 1 \<le> max_lba \<and>
     magic (decode_sb (disks s (0, 1) (part_start (part_at a (0, 1) k) + 1))) = 0x19590318"
    using assms(1) Suc.prems by (simp add: formatted_def)
  then show ?case using Suc r unfolding format_parts.simps part_at_def [symmetric] Let_def
    by (simp add: read_sectors_def get_sectors_def)
qed simp

lemma format_disks_kept:
  "formatted a s \<Longrightarrow> ch = 0 \<and> k = 0 \<or> 12 \<le> k \<Longrightarrow> format_disks n ch k a g s = Inr s"
proof (induction n arbitrary: ch k)
  case (Suc n)
  have "format_parts (12 - k) k (ch, 1) a g s = Inr s"
    using Suc.prems format_parts_kept [of a s 0 12] by auto
  with Suc show ?case by simp
qed simp

section \<open>Properties\<close>

text \<open>In the bitmap of a fresh partition of \<open>len\<close> blocks, the blocks that do not exist are taken up to the end
  of the sector, but for one: block \<open>len\<close> itself is free. The root directory's block is taken, unless there are
  fewer than 8.\<close>

lemma fresh_block_bitmap_bits:
  assumes "512 * (unat len div 4096 + 1) \<le> n"
  shows "\<exists>buf. fresh_block_bitmap n len = Inr buf \<and> length buf = n \<and> \<not> buf_bit buf (unat len) \<and>
    (\<forall>j<8 * n. j \<noteq> unat len \<longrightarrow> (buf_bit buf j \<longleftrightarrow>
       j = 0 \<and> 8 \<le> unat len \<or> unat len \<le> j \<and> j < 4096 * (unat len div 4096 + 1)))"
proof -
  have "unat len < 4096 * (unat len div 4096 + 1)" by (simp add: dividend_less_times_div)
  then have "unat len < 8 * n" using assms by simp
  then show ?thesis using fresh_block_bitmap_ok [OF assms] by auto
qed

text \<open>C15 Formatting a partition and mounting it: the file system in use has the super block that was written,
  its position and size are those of the partition, and mounting changes no sector. This holds where
  the regions that formatting writes, two of which start at addresses that were not set, miss the super block.\<close>

theorem format_mount_roundtrip:
  assumes "formattable part (fill_super_block part g)" and "mallocs s = a # a1 # a2 # a3 # a4 # ms" and "NULL \<notin> {a, a1, a2, a3, a4}"
  shows "\<exists>s1 s2. partition_format part g s = Inr s1 \<and> mount part s1 = Inr s2 \<and>
    cur_part s2 = mounted part (fill_super_block part g) a3 a4 \<and> disks s2 = disks s1 \<and>
    (\<forall>dk. dk \<noteq> part_disk part \<longrightarrow> disks s2 dk = disks s dk)"
proof -
  let ?b = "fill_super_block part g"
  obtain s1 where s1: "partition_format part g s = Inr s1" "s1 = s\<lparr>disks := disks s1, mallocs := a1 # a2 # a3 # a4 # ms\<rparr>"
    "\<forall>dk. dk \<noteq> part_disk part \<longrightarrow> disks s1 dk = disks s dk"
    "disks s1 (part_disk part) (part_start part + 1) = encode_sb ?b @ map (garbage s) [0..<460]"
    using partition_format_ok [OF assms(1,2)] assms(3) by auto
  have m: "mallocs s1 = a1 # a2 # a3 # a4 # ms" by (subst s1(2)) simp
  have d: "decode_sb (disks s1 (part_disk part) (part_start part + 1)) = ?b" by (simp add: s1(4))
  have "transfer_ok (block_bitmap_lba ?b) (unat (block_bitmap_sects ?b))" using assms(1) by (simp add: formattable_def regions_def)
  then have "transfer_ok (block_bitmap_lba ?b) (unat (inode_bitmap_sects ?b))"
    by (auto simp: transfer_ok_def filled_fields(1))
  then have "\<exists>s2. mount part s1 = Inr s2 \<and> cur_part s2 = mounted part ?b a3 a4 \<and> disks s2 = disks s1"
    using mount_ok [OF m, of part, unfolded d] assms(1,3) by (simp add: formattable_def)
  then show ?thesis using s1(1,3) by auto
qed

definition demo_part :: part_entry where
  "demo_part = \<lparr>part_start = 1000, part_sects = 20000, part_disk = (0, 1), part_name = [0x73, 0x64, 0x62, 0x31]\<rparr>"

definition zero_sb :: super_block where
  "zero_sb = decode_sb (replicate 52 0)"

lemma zero_sb_fields: "inode_bitmap_sects zero_sb = 0" "inode_table_sects zero_sb = 0"
  unfolding zero_sb_def decode_sb_def by code_simp+

lemma demo_formattable: "formattable demo_part (fill_super_block demo_part zero_sb)"
  by (simp add: formattable_def regions_def fill_super_block_def Let_def demo_part_def zero_sb_fields DIV_ROUND_UP_def
      block_bitmap_bit_len_def free_sects_def transfer_ok_def unsigned_minus_1_eq_mask mask_eq_exp_minus_1)

theorem format_mount_roundtrip_witness:
  "\<exists>s1 s2. partition_format demo_part zero_sb (blank_fs\<lparr>mallocs := [1, 2, 3, 4, 5]\<rparr>) = Inr s1 \<and> mount demo_part s1 = Inr s2 \<and>
    sec_cnt (cur_part s2) = 20000"
  using format_mount_roundtrip [OF demo_formattable, of "blank_fs\<lparr>mallocs := [1, 2, 3, 4, 5]\<rparr>" 1 2 3 4 5 "[]"]
  by (auto simp: mounted_def demo_part_def)

text \<open>The start of the file system leaves partitions that have a super block as they are.\<close>

lemma formatted_disks_kept: "formatted a s \<Longrightarrow> format_disks n 0 0 a g s = Inr s"
  by (simp add: format_disks_kept)

end
