(* ===== verification/Layout.thy ===== *)
theory Layout
  imports File
begin

unbundle bit_operations_syntax

text \<open>
  What the operations on files and directories rest on: the regions of a partition, the blocks that are
  not in use, and how \<open>block_bitmap_alloc\<close> and \<open>bitmap_sync\<close> act on them. A data block is
  named by the number of its bit.
\<close>

section \<open>The regions of a partition\<close>

text \<open>The bitmaps of the blocks and of the inodes, the table of inodes and the data blocks follow each
  other, below the last sector that the driver accepts.\<close>

definition layout_ok :: "fs \<Rightarrow> bool" where
  "layout_ok s \<longleftrightarrow> table_ok s \<and> bitmap_ok (block_bitmap (cur_part s)) \<and>
     unat (block_bitmap_lba (sb (cur_part s))) + (nbits (block_bitmap (cur_part s)) + 4095) div 4096 \<le> unat (table_lba s) \<and>
     unat (table_lba s) + 608 \<le> unat (data_start_lba (sb (cur_part s))) \<and>
     unat (data_start_lba (sb (cur_part s))) + nbits (block_bitmap (cur_part s)) \<le> unat max_lba"

abbreviation bb :: "fs \<Rightarrow> bitmap" where
  "bb s \<equiv> block_bitmap (cur_part s)"

abbreviation data_lba :: "fs \<Rightarrow> u32" where
  "data_lba s \<equiv> data_start_lba (sb (cur_part s))"

definition blkno :: "fs \<Rightarrow> nat \<Rightarrow> u32" where
  "blkno s j = data_lba s + of_nat j"

text \<open>The blocks that are not in use.\<close>

definition spare :: "fs \<Rightarrow> nat set" where
  "spare s = {j. j < nbits (bb s) \<and> \<not> taken (fs_bytes s) (bb s) j}"

text \<open>The fields that reading and writing files leave alone.\<close>

definition same_setup :: "fs \<Rightarrow> fs \<Rightarrow> bool" where
  "same_setup s s' \<longleftrightarrow> cur_part s' = cur_part s \<and> dirs s' = dirs s \<and> root_dir s' = root_dir s \<and>
     fd_table s' = fd_table s \<and> cwd_inode_nr s' = cwd_inode_nr s \<and> mallocs s' = mallocs s \<and> garbage s' = garbage s"

lemma same_setup_refl [simp]: "same_setup s s"
  by (simp add: same_setup_def)

lemma same_setup_trans: "same_setup s s' \<Longrightarrow> same_setup s' s'' \<Longrightarrow> same_setup s s''"
  by (simp add: same_setup_def)

lemma same_setup_updates [simp]:
  "same_setup s (s'\<lparr>fs_bytes := m\<rparr>) = same_setup s s'" "same_setup s (s'\<lparr>disks := d\<rparr>) = same_setup s s'"
  "same_setup s (set_inode p i s') = same_setup s s'" "same_setup s (set_file k f s') = same_setup s s'"
  by (simp_all add: same_setup_def set_inode_def set_file_def)

lemma same_setup_part: "same_setup s s' \<Longrightarrow> cur_part s' = cur_part s"
  by (simp add: same_setup_def)

lemma blkno_setup: "same_setup s s' \<Longrightarrow> blkno s' = blkno s"
  by (simp add: fun_eq_iff blkno_def same_setup_def)

lemma finite_spare [simp]: "finite (spare s)"
  by (simp add: spare_def)

lemma spare_less: "j \<in> spare s \<Longrightarrow> j < nbits (bb s)"
  by (simp add: spare_def)

lemma blkno_bounds:
  assumes "layout_ok s" and "j < nbits (bb s)"
  shows "unat (blkno s j) = unat (data_lba s) + j" "blkno s j \<le> max_lba" "data_lba s \<le> blkno s j" "blkno s j \<noteq> 0" "blkno s j \<noteq> -1"
proof -
  have l: "unat (data_lba s) + nbits (bb s) \<le> 163839" "608 \<le> unat (data_lba s)" using assms(1) by (simp_all add: layout_ok_def)
  with assms(2) show u: "unat (blkno s j) = unat (data_lba s) + j"
    unfolding blkno_def by (subst unat_add_u32) simp_all
  show "blkno s j \<le> max_lba" "data_lba s \<le> blkno s j" "blkno s j \<noteq> 0"
    using l assms(2) u by (auto simp: word_le_nat_alt)
  show "blkno s j \<noteq> -1"
  proof
    assume "blkno s j = -1"
    then have "unat (blkno s j) = 4294967295" by (simp add: unsigned_minus_1_eq_mask mask_eq_exp_minus_1)
    with u l assms(2) show False by linarith
  qed
qed

lemma blkno_inj: "layout_ok s \<Longrightarrow> i < nbits (bb s) \<Longrightarrow> j < nbits (bb s) \<Longrightarrow> blkno s i = blkno s j \<longleftrightarrow> i = j"
  using blkno_bounds(1) by (metis add_left_cancel)

lemma transfer_one: "a \<le> max_lba \<Longrightarrow> transfer_ok a (unat (1 :: u32))"
  by (simp add: transfer_ok_def word_le_nat_alt)

lemma get_one: "get_sectors d a (unat (1 :: u32)) = d a"
  by (simp add: get_sectors_def)

lemma put_one: "length xs = 512 \<Longrightarrow> put_sectors d a (unat (1 :: u32)) xs = d(a := xs)"
  by (auto simp: fun_eq_iff put_sectors_def Let_def unat_eq_0)

lemma read_block:
  assumes "sectors_512 (disk_of s)" and "a \<le> max_lba"
  shows "read_disk a 1 s = Inr (disk_of s a)"
  using read_disk_ok [OF assms(1) transfer_one [OF assms(2)]] by (simp only: get_one)

lemma write_block:
  assumes "a \<le> max_lba" and "length xs = 512"
  shows "write_disk a xs 1 s = Inr (s\<lparr>disks := (disks s)(my_disk (cur_part s) := (disk_of s)(a := xs))\<rparr>)"
  using write_disk_ok [OF transfer_one [OF assms(1)]] by (simp only: put_one [OF assms(2)])

lemma layout_512: "layout_ok s \<Longrightarrow> sectors_512 (disk_of s)"
  by (simp add: layout_ok_def table_ok_def)

lemma layout_setup:
  assumes "layout_ok s" and "same_setup s s'" and "sectors_512 (disk_of s')"
  shows "layout_ok s'"
  using assms by (simp add: layout_ok_def table_ok_def same_setup_def)

section \<open>Taking a block\<close>

lemma block_bitmap_alloc_ok:
  assumes "layout_ok s" and "spare s \<noteq> {}"
  shows "\<exists>j m. j \<in> spare s \<and> block_bitmap_alloc s = Inr (blkno s j, s\<lparr>fs_bytes := m\<rparr>) \<and>
    spare (s\<lparr>fs_bytes := m\<rparr>) = spare s - {j}"
proof -
  have ok: "bitmap_ok (bb s)" using assms(1) by (simp add: layout_ok_def)
  have "\<not> (\<forall>j<nbits (bb s). taken (fs_bytes s) (bb s) j)" using assms(2) by (auto simp: spare_def)
  then obtain r where r: "bitmap_scan (fs_bytes s) (bb s) 1 = Inr r" using bitmap_scan_unfold [OF ok] by auto
  note least = bitmap_scan_one [OF ok r]
  have lim: "nbits (bb s) \<le> 163839" using assms(1) by (simp add: layout_ok_def)
  have "r \<noteq> -1"
  proof
    assume "r = -1"
    then have "unat r = 4294967295" by (simp add: unsigned_minus_1_eq_mask mask_eq_exp_minus_1)
    then show False using least(1) lim by linarith
  qed
  moreover obtain m where m: "bitmap_set (fs_bytes s) (bb s) r 1 = Inr m" using bitmap_set_ok by blast
  ultimately have "block_bitmap_alloc s = Inr (blkno s (unat r), s\<lparr>fs_bytes := m\<rparr>)"
    using r by (simp add: block_bitmap_alloc_def Let_def blkno_def)
  moreover have "unat r \<in> spare s" using least by (simp add: spare_def)
  moreover have "spare (s\<lparr>fs_bytes := m\<rparr>) = spare s - {unat r}"
    using bitmap_set_taken [OF m] lim by (auto simp: spare_def split: if_splits)
  ultimately show ?thesis by blast
qed

text \<open>Bringing a bit to disk changes a sector of the bitmap only.\<close>

lemma sync_block_ok:
  assumes "layout_ok s" and "j < nbits (bb s)"
  shows "\<exists>d. sync_block (blkno s j) s = Inr (s\<lparr>disks := (disks s)(my_disk (cur_part s) := d)\<rparr>) \<and> sectors_512 d \<and>
    (\<forall>a. table_lba s \<le> a \<longrightarrow> d a = disk_of s a)"
proof -
  let ?b = "block_bitmap_lba (sb (cur_part s))"
  let ?xs = "map (\<lambda>i. fs_bytes s (bits (bb s) + (blkno s j - data_lba s) div 4096 * 512 + of_nat i)) [0..<512]"
  have l: "unat ?b + (nbits (bb s) + 4095) div 4096 \<le> unat (table_lba s)" "unat (table_lba s) \<le> 163839"
    using assms(1) by (simp_all add: layout_ok_def)
  have "j div 4096 < (nbits (bb s) + 4095) div 4096" using assms(2) by linarith
  then have lt: "unat ?b + j div 4096 < unat (table_lba s)" using l(1) by linarith
  have nb: "j < 4294967296" using assms by (simp add: layout_ok_def)
  have idx: "(blkno s j - data_lba s) div 4096 = of_nat (j div 4096)"
    using nb by (simp add: blkno_def word_unat_eq_iff unat_div unat_of_nat)
  have j4: "j div 4096 < 4294967296" using nb by (rule le_less_trans [OF div_le_dividend])
  have a: "unat (?b + of_nat (j div 4096)) = unat ?b + j div 4096"
    using lt l(2) j4 by (subst unat_add_u32) simp_all
  have b: "?b + of_nat (j div 4096) < table_lba s" "?b + of_nat (j div 4096) \<le> max_lba"
    using lt l(2) by (simp_all add: word_less_nat_alt word_le_nat_alt a)
  let ?d = "(disk_of s)(?b + of_nat (j div 4096) := ?xs)"
  have "sync_block (blkno s j) s = Inr (s\<lparr>disks := (disks s)(my_disk (cur_part s) := ?d)\<rparr>)"
    using write_block [OF b(2), of ?xs s] by (simp add: sync_block_def bitmap_sync_def Let_def idx add.assoc)
  moreover have "sectors_512 ?d" using layout_512 [OF assms(1)] by (simp add: sectors_512_def)
  moreover have "\<forall>a. table_lba s \<le> a \<longrightarrow> ?d a = disk_of s a" using b(1) by auto
  ultimately show ?thesis by blast
qed

end
