(* ===== verification/Content.thy ===== *)
theory Content
  imports Layout
begin

unbundle bit_operations_syntax

text \<open>
  The contents of a file: \<open>file_read\<close> and \<open>file_write\<close> against the sequence of bytes that the blocks of an
  inode hold.
\<close>

section \<open>The blocks and the bytes of a file\<close>

definition file_blk :: "(u32 \<Rightarrow> u8 list) \<Rightarrow> inode \<Rightarrow> nat \<Rightarrow> u32" where
  "file_blk d i k = (if k < 12 then i_sectors i ! k else words_of (d (i_sectors i ! 12)) ! (k - 12))"

definition file_byte :: "(u32 \<Rightarrow> u8 list) \<Rightarrow> (nat \<Rightarrow> u32) \<Rightarrow> nat \<Rightarrow> u8" where
  "file_byte d b j = d (b (j div 512)) ! (j mod 512)"

definition contents :: "fs \<Rightarrow> inode \<Rightarrow> u8 list" where
  "contents s i = map (file_byte (disk_of s) (file_blk (disk_of s) i)) [0..<unat (i_size i)]"

text \<open>The blocks in use.\<close>

definition used :: "fs \<Rightarrow> u32 set" where
  "used s = blkno s ` {j. j < nbits (bb s) \<and> taken (fs_bytes s) (bb s) j}"

text \<open>A file that was written has one block more than its size fills, each a block in use of its own; so is
  the table of indirect blocks, from the thirteenth block on.\<close>

definition extent_ok :: "fs \<Rightarrow> inode \<Rightarrow> bool" where
  "extent_ok s i \<longleftrightarrow> (let sz = unat (i_size i); b = file_blk (disk_of s) i in
     length (i_sectors i) = 13 \<and> sz < 71680 \<and>
     (\<forall>k \<le> sz div 512. b k \<in> used s) \<and> inj_on b {..sz div 512} \<and>
     (\<forall>k. sz div 512 < k \<and> k < 12 \<longrightarrow> i_sectors i ! k = 0) \<and>
     (if sz div 512 < 12 then i_sectors i ! 12 = 0 else i_sectors i ! 12 \<in> used s - b ` {..sz div 512}))"

definition file_ok :: "fs \<Rightarrow> inode \<Rightarrow> bool" where
  "file_ok s i \<longleftrightarrow> (if i_sectors i = replicate 13 0 then i_size i = 0 else extent_ok s i)"

lemma used_bounds:
  assumes "layout_ok s" and "a \<in> used s"
  shows "a \<le> max_lba" "data_lba s \<le> a" "a \<noteq> 0" "a \<noteq> -1"
  using assms blkno_bounds by (auto simp: used_def)

lemma length_contents [simp]: "length (contents s i) = unat (i_size i)"
  by (simp add: contents_def)

lemma unat_div_512 [simp]: "unat ((x :: u32) div 512) = unat x div 512"
  by (simp add: unat_div)

lemma unat_mod_512 [simp]: "unat ((x :: u32) mod 512) = unat x mod 512"
  by (simp add: unat_mod)

section \<open>Reading\<close>

lemma table_blocks:
  assumes "sectors_512 (disk_of s)" and "t \<le> max_lba" and "length blocks = 140"
  shows "\<exists>bs. read_table t blocks s = Inr bs \<and> length bs = 140 \<and>
    (\<forall>k<140. bs ! k = (if k < 12 then blocks ! k else words_of (disk_of s t) ! (k - 12)))"
  using read_block [OF assms(1,2)] assms
  by (simp add: read_table_def sectors_512_def length_words_of nth_append)

lemma read_blocks_ok:
  assumes "sectors_512 (disk_of s)" and "start \<le> end_idx" and "end_idx < 140"
    and "12 \<le> end_idx \<longrightarrow> i_sectors i ! 12 \<noteq> 0 \<and> i_sectors i ! 12 \<le> max_lba"
  shows "\<exists>bs. read_blocks i start end_idx s = Inr bs \<and> length bs = 140 \<and>
    (\<forall>k. start \<le> k \<and> k \<le> end_idx \<longrightarrow> bs ! k = file_blk (disk_of s) i k)"
proof (cases "end_idx < 12")
  case True
  then show ?thesis using assms(2) by (auto simp: read_blocks_def Let_def file_blk_def)
next
  case False
  have t: "i_sectors i ! 12 \<noteq> 0" "i_sectors i ! 12 \<le> max_lba" using assms(4) False by auto
  note rt = table_blocks [OF assms(1) t(2)]
  let ?zero = "replicate 140 (0 :: u32)"
  let ?dir = "map (\<lambda>k. if start \<le> k \<and> k < 12 then i_sectors i ! k else 0) [0..<140]"
  show ?thesis
  proof (cases "start < 12")
    case True
    obtain bs where "read_table (i_sectors i ! 12) ?dir s = Inr bs" "length bs = 140"
      "\<forall>k<140. bs ! k = (if k < 12 then ?dir ! k else words_of (disk_of s (i_sectors i ! 12)) ! (k - 12))"
      using rt [of ?dir] by auto
    with True False t assms(3) show ?thesis by (auto simp: read_blocks_def Let_def file_blk_def)
  next
    case start: False
    obtain bs where "read_table (i_sectors i ! 12) ?zero s = Inr bs" "length bs = 140"
      "\<forall>k<140. bs ! k = (if k < 12 then ?zero ! k else words_of (disk_of s (i_sectors i ! 12)) ! (k - 12))"
      using rt [of ?zero] by auto
    with start False t assms(2,3) show ?thesis by (auto simp: read_blocks_def Let_def file_blk_def)
  qed
qed

lemma sector_piece:
  assumes "length xs = 512" and "pos mod 512 + c \<le> 512"
    and "\<And>j. pos \<le> j \<Longrightarrow> j < pos + c \<Longrightarrow> f j = xs ! (j mod 512)"
  shows "take c (drop (pos mod 512) xs) = map f [pos..<pos + c]"
proof (rule nth_equalityI)
  fix j assume "j < length (take c (drop (pos mod 512) xs))"
  then have j: "j < c" "pos mod 512 + j < 512" using assms by auto
  have "(pos + j) mod 512 = (pos mod 512 + j) mod 512" by (simp add: mod_simps)
  then have "(pos + j) mod 512 = pos mod 512 + j" using j by simp
  then show "take c (drop (pos mod 512) xs) ! j = map f [pos..<pos + c] ! j" using j assms(1,3) by simp
qed (use assms in simp)

lemma piece_div:
  assumes "pos \<le> j" and "j < pos + c" and "pos mod 512 + c \<le> (512 :: nat)"
  shows "j div 512 = pos div 512"
proof -
  have "pos = 512 * (pos div 512) + pos mod 512" by simp
  then have "512 * (pos div 512) \<le> j" "j < 512 * (pos div 512) + 512" using assms by linarith+
  then show ?thesis by simp
qed

lemma read_bytes_ok:
  assumes "sectors_512 (disk_of s)" and "length blocks = 140" and "unat sz < n" and "unat pos + unat sz < 71680"
    and "\<And>k. unat pos div 512 \<le> k \<Longrightarrow> 512 * k < unat pos + unat sz \<Longrightarrow> blocks ! k \<le> max_lba"
  shows "read_bytes n blocks pos sz s =
    Inr (map (file_byte (disk_of s) ((!) blocks)) [unat pos..<unat pos + unat sz], pos + sz)"
  using assms(3-)
proof (induction n arbitrary: pos sz)
  case (Suc n)
  show ?case
  proof (cases "sz = 0")
    case False
    let ?off = "unat pos mod 512"
    let ?c = "if sz < 512 - pos mod 512 then sz else 512 - pos mod 512"
    have left: "unat (512 - pos mod 512) = 512 - ?off" by (subst unat_sub) (simp_all add: word_le_nat_alt)
    define c where "c = min (unat sz) (512 - ?off)"
    have c: "unat ?c = c" by (auto simp: c_def word_less_nat_alt left)
    have off: "?off < 512" by simp
    have bounds: "0 < c" "c \<le> unat sz" "?off + c \<le> 512" using False off by (auto simp: c_def unat_gt_0)
    have sum: "unat (pos + ?c) = unat pos + c" using Suc.prems(2) bounds by (subst unat_add_u32) (simp_all add: c)
    have rest: "unat (sz - ?c) = unat sz - c" using bounds by (subst unat_sub) (simp_all add: word_le_nat_alt c)
    let ?f = "file_byte (disk_of s) ((!) blocks)"
    have k: "512 * (unat pos div 512) \<le> unat pos" by simp
    have le: "blocks ! (unat pos div 512) \<le> max_lba"
      using Suc.prems(3) [of "unat pos div 512"] bounds k by linarith
    have "unat pos div 512 < 140" using Suc.prems(2) by (simp add: less_mult_imp_div_less)
    then have in_b: "\<not> length blocks \<le> unat pos div 512" using assms(2) by simp
    have "read_bytes n blocks (pos + ?c) (sz - ?c) s =
        Inr (map ?f [unat pos + c..<unat pos + unat sz], pos + sz)"
    proof -
      have "read_bytes n blocks (pos + ?c) (sz - ?c) s =
        Inr (map ?f [unat (pos + ?c)..<unat (pos + ?c) + unat (sz - ?c)], pos + ?c + (sz - ?c))"
      proof (rule Suc.IH)
        show "unat (sz - ?c) < n" using Suc.prems(1) rest bounds by linarith
        show "unat (pos + ?c) + unat (sz - ?c) < 71680" using Suc.prems(2) rest sum bounds by linarith
        fix k assume "unat (pos + ?c) div 512 \<le> k" "512 * k < unat (pos + ?c) + unat (sz - ?c)"
        moreover have "unat pos div 512 \<le> unat (pos + ?c) div 512" unfolding sum by (rule div_le_mono) simp
        ultimately show "blocks ! k \<le> max_lba" using Suc.prems(3) [of k] rest sum bounds by linarith
      qed
      then show ?thesis using rest sum bounds by simp
    qed
    moreover have "take c (drop ?off (disk_of s (blocks ! (unat pos div 512)))) = map ?f [unat pos..<unat pos + c]"
    proof (rule sector_piece)
      show "length (disk_of s (blocks ! (unat pos div 512))) = 512" using assms(1) by (simp add: sectors_512_def)
      fix j assume "unat pos \<le> j" "j < unat pos + c"
      then have "j div 512 = unat pos div 512" by (rule piece_div [OF _ _ bounds(3)])
      then show "?f j = disk_of s (blocks ! (unat pos div 512)) ! (j mod 512)" by (simp only: file_byte_def)
    qed (rule bounds(3))
    moreover have "[unat pos..<unat pos + unat sz] = [unat pos..<unat pos + c] @ [unat pos + c..<unat pos + unat sz]"
      using upt_add_eq_append [of "unat pos" "unat pos + c" "unat sz - c"] bounds by simp
    moreover have "read_bytes (Suc n) blocks pos sz s = bindr (read_bytes n blocks (pos + ?c) (sz - ?c) s)
        (\<lambda>(rest, q). Inr (take (unat ?c) (drop ?off (disk_of s (blocks ! (unat pos div 512)))) @ rest, q))"
      by (simp only: read_bytes.simps Let_def unat_div_512 unat_mod_512 read_block [OF assms(1) le] in_b False if_False bindr_Inr)
    ultimately show ?thesis by (simp only: c bindr_Inr prod.case map_append)
  qed simp
qed simp

text \<open>What a call of \<open>file_read\<close> does with the file and its descriptor.\<close>

lemma file_read_ok:
  assumes "layout_ok s" and "extent_ok s i" and f: "f = file_table s ! fd" and i: "i = inodes s (fd_inode f)"
    and "unat (fd_pos f) + unat cnt < 4294967296" and "fd_pos f < i_size i"
    and "sz = min (unat cnt) (unat (i_size i) - unat (fd_pos f))" and "unat (fd_pos f) + sz < 71168"
    and "mallocs s = a # b # ms" and "a \<noteq> NULL" and "b \<noteq> NULL"
  shows "file_read fd cnt s = Inr (of_nat sz, take sz (drop (unat (fd_pos f)) (contents s i)),
    set_file fd (f\<lparr>fd_pos := fd_pos f + of_nat sz\<rparr>) (s\<lparr>mallocs := ms\<rparr>))"
proof -
  define pos where "pos = fd_pos f"
  let ?d = "disk_of s"
  have s512: "sectors_512 ?d" by (rule layout_512 [OF assms(1)])
  have sz: "sz \<le> unat cnt" "unat pos + sz \<le> unat (i_size i)" "unat pos < unat (i_size i)"
    using assms(6,7) by (auto simp: pos_def word_less_nat_alt)
  define w where "w = (if pos + cnt > i_size i then i_size i - pos else cnt)"
  have "unat (pos + cnt) = unat pos + unat cnt" using assms(5) by (subst unat_add_u32) (simp_all add: pos_def)
  moreover have "unat (i_size i - pos) = unat (i_size i) - unat pos"
    using sz(3) by (subst unat_sub) (simp_all add: word_le_nat_alt)
  ultimately have u: "unat w = sz" unfolding assms(7) w_def pos_def [symmetric] by (auto simp: word_less_nat_alt)
  have "\<And>w :: u32. of_nat (unat w) = w" by simp
  from this [of w] have szw: "w = of_nat sz" unfolding u by (rule sym)
  have no: "\<not> (pos + cnt > i_size i \<and> w = 0)"
    using sz(3) \<open>unat (i_size i - pos) = _\<close> by (auto simp: word_unat_eq_iff w_def)
  have sum: "unat (pos + w) = unat pos + sz" using u assms(8) by (subst unat_add_u32) (simp_all add: pos_def)
  let ?st = "unat pos div 512" and ?en = "(unat pos + sz) div 512"
  have en: "?st \<le> ?en" "?en < 139"
    using assms(8) by (simp_all add: div_le_mono pos_def less_mult_imp_div_less)
  have sizes: "unat (i_size i) < 71680" "?en \<le> unat (i_size i) div 512"
    using assms(2) sz by (simp_all add: extent_ok_def Let_def div_le_mono)
  have used: "\<And>k. k \<le> unat (i_size i) div 512 \<Longrightarrow> file_blk ?d i k \<in> used s"
    and tab: "12 \<le> ?en \<Longrightarrow> i_sectors i ! 12 \<in> used s"
    using assms(2) sizes by (auto simp: extent_ok_def Let_def split: if_splits)
  obtain bs where bs: "read_blocks i ?st ?en (s\<lparr>mallocs := ms\<rparr>) = Inr bs" "length bs = 140"
      "\<And>k. ?st \<le> k \<Longrightarrow> k \<le> ?en \<Longrightarrow> bs ! k = file_blk ?d i k"
    using read_blocks_ok [of "s\<lparr>mallocs := ms\<rparr>" ?st ?en i] s512 en used_bounds [OF assms(1) tab] by auto
  have in_en: "k \<le> ?en" if "512 * k \<le> unat pos + sz" for k using that by simp
  have rd: "read_bytes (Suc (unat w)) bs pos w (s\<lparr>mallocs := ms\<rparr>) =
      Inr (map (file_byte ?d ((!) bs)) [unat pos..<unat pos + unat w], pos + w)"
  proof (rule read_bytes_ok [of "s\<lparr>mallocs := ms\<rparr>", simplified])
    fix k assume "unat pos div 512 \<le> k" "512 * k < unat pos + unat w"
    with u in_en [of k] bs(3) [of k] sizes(2) show "bs ! k \<le> max_lba"
      using used_bounds(1) [OF assms(1) used, of k] by simp
  qed (use s512 bs(2) assms(8) u in \<open>simp_all add: pos_def\<close>)
  have "map (file_byte ?d ((!) bs)) [unat pos..<unat pos + sz] = take sz (drop (unat pos) (contents s i))"
  proof -
    have "map (file_byte ?d ((!) bs)) [unat pos..<unat pos + sz] = map (file_byte ?d (file_blk ?d i)) [unat pos..<unat pos + sz]"
      using bs(3) by (intro map_cong) (auto simp: file_byte_def div_le_mono)
    then show ?thesis using sz by (simp add: contents_def drop_map take_map)
  qed
  with rd have "read_bytes (Suc (unat w)) bs pos w (s\<lparr>mallocs := ms\<rparr>) =
      Inr (take sz (drop (unat pos) (contents s i)), pos + w)" by (simp only: u)
  then show ?thesis
    using bs(1) no en assms(9-11)
    unfolding file_read_def Let_def f [symmetric] i [symmetric] pos_def [symmetric] w_def [symmetric]
    by (simp add: heap_alloc_def sum word_less_nat_alt) (simp add: szw)
qed

section \<open>Allocating blocks\<close>

text \<open>The three loops are one: it only differs whether a number goes to the inode.\<close>

lemma add_direct_mixed: "block_idx + n \<le> 12 \<Longrightarrow> add_direct n block_idx p blocks s = add_mixed n block_idx p blocks s"
proof (induction n arbitrary: block_idx blocks s)
  case (Suc n)
  have "sync_block lba (set_sector p block_idx lba s) = bindr (Inr (set_sector p block_idx lba s)) (sync_block lba)" for lba s
    by simp
  with Suc show ?case by (simp add: bindr_assoc cong: if_cong)
qed simp

lemma add_indirect_mixed: "12 \<le> block_idx \<Longrightarrow> add_indirect n block_idx blocks s = add_mixed n block_idx p blocks s"
  by (induction n arbitrary: block_idx blocks s) (simp_all add: split_def cong: if_cong)

text \<open>The new state after blocks were taken: the numbers are those of bits that were clear, the data blocks and the inode table on
  disk are as before.\<close>

definition took :: "nat set \<Rightarrow> fs \<Rightarrow> fs \<Rightarrow> bool" where
  "took js s s' \<longleftrightarrow> same_setup s s' \<and> file_table s' = file_table s \<and> js \<subseteq> spare s \<and> spare s' = spare s - js \<and>
     sectors_512 (disk_of s') \<and> (\<forall>a. table_lba s \<le> a \<longrightarrow> disk_of s' a = disk_of s a)"

lemma took_layout: "layout_ok s \<Longrightarrow> took js s s' \<Longrightarrow> layout_ok s'"
  unfolding took_def using layout_setup by blast

lemma took_trans: "took js s s' \<Longrightarrow> took ks s' s'' \<Longrightarrow> took (js \<union> ks) s s''"
  by (auto simp: took_def same_setup_def)

lemma took_disjoint: "took js s s' \<Longrightarrow> took ks s' s'' \<Longrightarrow> js \<inter> ks = {}"
  by (auto simp: took_def)

lemma spare_set_inode [simp]: "spare (set_inode p i s) = spare s" "spare (set_sector p k a s) = spare s"
  by (simp_all add: spare_def set_inode_def set_sector_def)

lemma took_set_sector: "took js s s' \<Longrightarrow> took js s (set_sector p k a s')"
  by (simp add: took_def set_sector_def) (simp add: set_inode_def)

text \<open>One block: its bit is set in memory and brought to disk, and in between its number may go to the inode.\<close>

lemma take_one:
  assumes "layout_ok s" and "spare s \<noteq> {}"
  shows "\<exists>j s1. block_bitmap_alloc s = Inr (blkno s j, s1) \<and> inodes s1 = inodes s \<and> j \<in> spare s \<and>
    (\<forall>k. (\<exists>s2. sync_block (blkno s j) s1 = Inr s2 \<and> inodes s2 = inodes s \<and> took {j} s s2) \<and>
      (\<exists>s2. sync_block (blkno s j) (set_sector p k (blkno s j) s1) = Inr s2 \<and>
        inodes s2 = inodes (set_sector p k (blkno s j) s) \<and> took {j} s s2))"
proof -
  obtain j m where j: "j \<in> spare s" "block_bitmap_alloc s = Inr (blkno s j, s\<lparr>fs_bytes := m\<rparr>)"
      "spare (s\<lparr>fs_bytes := m\<rparr>) = spare s - {j}"
    using block_bitmap_alloc_ok [OF assms] by blast
  let ?s1 = "s\<lparr>fs_bytes := m\<rparr>"
  have nb: "j < nbits (bb s)" by (rule spare_less [OF j(1)])
  have sync: "\<exists>s2. sync_block (blkno s j) t = Inr s2 \<and> inodes s2 = inodes t \<and> took {j} s s2"
    if t: "same_setup s t" "fs_bytes t = m" "disks t = disks s" "file_table t = file_table s" for t
  proof -
    have l: "layout_ok t" using layout_setup [OF assms(1) t(1)] layout_512 [OF assms(1)] same_setup_part [OF t(1)] t(3) by simp
    have b: "blkno t j = blkno s j" using blkno_setup [OF t(1)] by simp
    have "j < nbits (bb t)" using nb same_setup_part [OF t(1)] by simp
    from sync_block_ok [OF l this] obtain d where
      d: "sync_block (blkno t j) t = Inr (t\<lparr>disks := (disks t)(my_disk (cur_part t) := d)\<rparr>)" "sectors_512 d"
        "\<forall>a. table_lba t \<le> a \<longrightarrow> d a = disk_of t a" by blast
    let ?s2 = "t\<lparr>disks := (disks t)(my_disk (cur_part t) := d)\<rparr>"
    have "spare ?s2 = spare s - {j}" unfolding j(3) [symmetric] using same_setup_part [OF t(1)] t(2) by (simp add: spare_def)
    then have "took {j} s ?s2" using d t j(1) same_setup_part [OF t(1)] by (simp add: took_def)
    then show ?thesis using d(1) b by auto
  qed
  have "same_setup s (set_sector p k (blkno s j) ?s1)" for k by (simp add: set_sector_def)
  note sync [OF this]
  then have "\<exists>s2. sync_block (blkno s j) (set_sector p k (blkno s j) ?s1) = Inr s2 \<and>
        inodes s2 = inodes (set_sector p k (blkno s j) s) \<and> took {j} s s2" for k
    by (simp add: set_sector_def set_inode_def)
  moreover have "\<exists>s2. sync_block (blkno s j) ?s1 = Inr s2 \<and> inodes s2 = inodes s \<and> took {j} s s2"
    using sync [of ?s1] by simp
  ultimately show ?thesis using j(1,2) by (intro exI [of _ j] exI [of _ ?s1]) simp
qed

lemma inj_on_Suc:
  fixes b :: nat
  assumes "inj_on g {Suc b..<Suc b + n}" and "j \<notin> g ` {Suc b..<Suc b + n}"
  shows "inj_on (g(b := j)) {b..<b + Suc n}" "(g(b := j)) ` {b..<b + Suc n} = insert j (g ` {Suc b..<Suc b + n})"
proof -
  have e: "{b..<b + Suc n} = insert b {Suc b..<Suc b + n}" by auto
  have g: "(g(b := j)) k = g k" if "k \<in> {Suc b..<Suc b + n}" for k using that by simp
  then have "(g(b := j)) ` {Suc b..<Suc b + n} = g ` {Suc b..<Suc b + n}" by (intro image_cong) auto
  moreover have "inj_on (g(b := j)) {Suc b..<Suc b + n}" using assms(1) g by (subst inj_on_cong) auto
  ultimately show "inj_on (g(b := j)) {b..<b + Suc n}" "(g(b := j)) ` {b..<b + Suc n} = insert j (g ` {Suc b..<Suc b + n})"
    unfolding e using assms(2) by auto
qed

lemma add_mixed_ok:
  assumes "layout_ok s" and "n \<le> card (spare s)" and "length blocks = 140" and "b + n \<le> 140"
    and "length (i_sectors (inodes s p)) = 13" and "\<forall>k. b \<le> k \<and> k < 12 \<longrightarrow> i_sectors (inodes s p) ! k = 0"
  shows "\<exists>bs s' g. add_mixed n b p blocks s = Inr (Some bs, s') \<and> inj_on g {b..<b + n} \<and> took (g ` {b..<b + n}) s s' \<and>
    length bs = 140 \<and> (\<forall>k<140. bs ! k = (if b \<le> k \<and> k < b + n then blkno s (g k) else blocks ! k)) \<and>
    (\<exists>xs. inodes s' = (inodes s)(p := inodes s p\<lparr>i_sectors := xs\<rparr>) \<and> length xs = 13 \<and>
      (\<forall>k<13. xs ! k = (if b \<le> k \<and> k < b + n \<and> k < 12 then blkno s (g k) else i_sectors (inodes s p) ! k)))"
  using assms
proof (induction n arbitrary: b blocks s)
  case 0
  have "took {} s s" using layout_512 [OF 0(1)] by (simp add: took_def)
  then show ?case using 0
    by (intro exI [of _ blocks] exI [of _ s] exI [of _ "\<lambda>_. 0"] exI [of _ "i_sectors (inodes s p)"] conjI) auto
next
  case (Suc n)
  have "spare s \<noteq> {}" using Suc.prems(2) by auto
  from take_one [OF Suc.prems(1) this, of p] obtain j s1 where
    j: "block_bitmap_alloc s = Inr (blkno s j, s1)" "inodes s1 = inodes s" "j \<in> spare s"
      "\<forall>k. (\<exists>s2. sync_block (blkno s j) s1 = Inr s2 \<and> inodes s2 = inodes s \<and> took {j} s s2) \<and>
      (\<exists>s2. sync_block (blkno s j) (set_sector p k (blkno s j) s1) = Inr s2 \<and>
        inodes s2 = inodes (set_sector p k (blkno s j) s) \<and> took {j} s s2)" by blast
  note bj = blkno_bounds [OF Suc.prems(1) spare_less [OF j(3)]]
  define ys where "ys = (if b < 12 then (i_sectors (inodes s p))[b := blkno s j] else i_sectors (inodes s p))"
  obtain s2 where s2: "inodes s2 = (inodes s)(p := inodes s p\<lparr>i_sectors := ys\<rparr>)" "took {j} s s2"
    and step: "add_mixed (Suc n) b p blocks s = add_mixed n (Suc b) p (blocks[b := blkno s j]) s2"
  proof (cases "b < 12")
    case True
    obtain s2 where "sync_block (blkno s j) (set_sector p b (blkno s j) s1) = Inr s2"
        "inodes s2 = inodes (set_sector p b (blkno s j) s)" "took {j} s s2" using j(4) by blast
    with True j bj Suc.prems(6) that show ?thesis by (simp add: ys_def set_sector_def set_inode_def)
  next
    case False
    obtain s2 where "sync_block (blkno s j) s1 = Inr s2" "inodes s2 = inodes s" "took {j} s s2" using j(4) by blast
    with False j bj that show ?thesis by (simp add: ys_def)
  qed
  have sam: "same_setup s s2" "spare s2 = spare s - {j}" using s2(2) by (simp_all add: took_def)
  have c: "n \<le> card (spare s2)" "length (blocks[b := blkno s j]) = 140" "Suc b + n \<le> 140"
    using Suc.prems(2-4) j(3) by (simp_all add: sam(2))
  have z: "length (i_sectors (inodes s2 p)) = 13" "\<forall>k. Suc b \<le> k \<and> k < 12 \<longrightarrow> i_sectors (inodes s2 p) ! k = 0"
    using Suc.prems(5,6) by (auto simp: s2(1) ys_def)
  from Suc.IH [OF took_layout [OF Suc.prems(1) s2(2)] c z] obtain bs s' g xs where
    IH: "add_mixed n (Suc b) p (blocks[b := blkno s j]) s2 = Inr (Some bs, s')" "inj_on g {Suc b..<Suc b + n}"
      "took (g ` {Suc b..<Suc b + n}) s2 s'" "length bs = 140"
      "\<forall>k<140. bs ! k = (if Suc b \<le> k \<and> k < Suc b + n then blkno s2 (g k) else blocks[b := blkno s j] ! k)"
      "inodes s' = (inodes s2)(p := inodes s2 p\<lparr>i_sectors := xs\<rparr>)" "length xs = 13"
      "\<forall>k<13. xs ! k = (if Suc b \<le> k \<and> k < Suc b + n \<and> k < 12 then blkno s2 (g k) else i_sectors (inodes s2 p) ! k)"
    by (elim exE conjE) (rule that)
  have "j \<notin> g ` {Suc b..<Suc b + n}" using took_disjoint [OF s2(2) IH(3)] by blast
  note inj = inj_on_Suc [OF IH(2) this]
  have r1: "took ((g(b := j)) ` {b..<b + Suc n}) s s'" unfolding inj(2) using took_trans [OF s2(2) IH(3)] by simp
  have r2: "\<forall>k<140. bs ! k = (if b \<le> k \<and> k < b + Suc n then blkno s ((g(b := j)) k) else blocks ! k)"
    using IH(5) Suc.prems(3,4) by (auto simp: blkno_setup [OF sam(1)] nth_list_update)
  have r3: "inodes s' = (inodes s)(p := inodes s p\<lparr>i_sectors := xs\<rparr>)" by (simp add: IH(6) s2(1))
  have r4: "\<forall>k<13. xs ! k = (if b \<le> k \<and> k < b + Suc n \<and> k < 12 then blkno s ((g(b := j)) k) else i_sectors (inodes s p) ! k)"
    using IH(8) Suc.prems(5) by (auto simp: blkno_setup [OF sam(1)] nth_list_update s2(1) ys_def)
  show ?case
    by (rule exI [of _ bs], rule exI [of _ s'], rule exI [of _ "g(b := j)"], intro conjI exI [of _ xs])
      (rule trans [OF step IH(1)] inj(1) r1 IH(4) r2 r3 IH(7) r4)+
qed

lemma used_alt: "used s = blkno s ` ({..<nbits (bb s)} - spare s)"
  unfolding used_def spare_def by (rule image_cong) auto

lemma used_spare: "layout_ok s \<Longrightarrow> j \<in> spare s \<Longrightarrow> blkno s j \<notin> used s"
  unfolding used_alt by (auto simp: blkno_inj spare_less)

lemma used_took:
  assumes "took js s s'"
  shows "used s' = used s \<union> blkno s ` js"
proof -
  have a: "same_setup s s'" "spare s' = spare s - js" "js \<subseteq> spare s" using assms by (simp_all add: took_def)
  have "{..<nbits (bb s)} - spare s' = ({..<nbits (bb s)} - spare s) \<union> js"
    using a(2,3) spare_less by auto
  then show ?thesis unfolding used_alt using blkno_setup [OF a(1)] same_setup_part [OF a(1)] by (simp add: image_Un)
qed

lemma used_setup:
  "same_setup s s' \<Longrightarrow> fs_bytes s' = fs_bytes s \<Longrightarrow> used s' = used s"
  "same_setup s s' \<Longrightarrow> fs_bytes s' = fs_bytes s \<Longrightarrow> spare s' = spare s"
  by (simp_all add: used_def spare_def blkno_setup same_setup_part)

lemma inj_grown:
  fixes a b :: nat
  assumes "layout_ok s" and "inj_on f {..<a}" and "f ` {..<a} \<subseteq> used s" and "inj_on g {a..<b}" and "g ` {a..<b} \<subseteq> spare s"
    and "\<And>k. k < a \<Longrightarrow> h k = f k" and "\<And>k. a \<le> k \<Longrightarrow> k < b \<Longrightarrow> h k = blkno s (g k)" and "a \<le> b"
  shows "inj_on h {..<b}" "h ` {..<b} \<subseteq> used s \<union> blkno s ` g ` {a..<b}"
proof -
  have e: "{..<b} = {..<a} \<union> {a..<b}" using assms(8) by auto
  have l: "inj_on h {..<a}" using assms(2,6) by (subst inj_on_cong) auto
  have r: "inj_on h {a..<b}"
  proof (rule inj_onI)
    fix x y assume xy: "x \<in> {a..<b}" "y \<in> {a..<b}" "h x = h y"
    then have "blkno s (g x) = blkno s (g y)" using assms(7) by auto
    moreover have "g x \<in> spare s" "g y \<in> spare s" using xy assms(5) by blast+
    ultimately have "g x = g y" using blkno_inj [OF assms(1)] spare_less by blast
    then show "x = y" using assms(4) xy by (auto dest: inj_onD)
  qed
  have x: "h x \<in> used s" if "x < a" for x using that assms(3,6) by auto
  have y: "h y \<in> blkno s ` g ` {a..<b}" if "y \<in> {a..<b}" for y using that assms(7) by auto
  have "h x \<noteq> h y" if "x < a" "y \<in> {a..<b}" for x y
    using x [OF that(1)] y [OF that(2)] used_spare [OF assms(1)] assms(5) by auto
  then show "inj_on h {..<b}" unfolding e inj_on_Un using l r by auto
  show "h ` {..<b} \<subseteq> used s \<union> blkno s ` g ` {a..<b}" unfolding e using x y by auto
qed

text \<open>What \<open>write_blocks\<close> does to the file at \<open>p\<close>, which has \<open>has\<close> blocks and gets \<open>will\<close>.\<close>

definition extended :: "addr \<Rightarrow> nat \<Rightarrow> nat \<Rightarrow> fs \<Rightarrow> u32 list \<Rightarrow> fs \<Rightarrow> bool" where
  "extended p has will s bs s' \<longleftrightarrow> same_setup s s' \<and> file_table s' = file_table s \<and> spare s' \<subseteq> spare s \<and> used s \<subseteq> used s' \<and>
     sectors_512 (disk_of s') \<and> (\<exists>xs. inodes s' = (inodes s)(p := inodes s p\<lparr>i_sectors := xs\<rparr>)) \<and> length bs = 140 \<and>
     (\<forall>k. has - 1 \<le> k \<and> k < will \<longrightarrow> bs ! k = file_blk (disk_of s') (inodes s' p) k) \<and>
     (\<forall>k<has. file_blk (disk_of s') (inodes s' p) k = file_blk (disk_of s) (inodes s p) k) \<and>
     (\<forall>k<will. has \<le> k \<longrightarrow> file_blk (disk_of s') (inodes s' p) k \<notin> used s) \<and>
     (\<forall>a. table_lba s \<le> a \<and> (12 < will \<longrightarrow> a \<noteq> i_sectors (inodes s' p) ! 12) \<longrightarrow> disk_of s' a = disk_of s a) \<and>
     (i_sectors (inodes s' p) ! 12 = i_sectors (inodes s p) ! 12 \<or> i_sectors (inodes s' p) ! 12 \<notin> used s) \<and>
     (\<forall>sz. Suc (unat sz div 512) = will \<longrightarrow> extent_ok s' (inodes s' p\<lparr>i_size := sz\<rparr>))"

lemma file_blk_size [simp]: "file_blk d (i\<lparr>i_size := sz\<rparr>) = file_blk d i"
  by (simp add: fun_eq_iff file_blk_def)

text \<open>The same in one condition on the blocks \<open>h\<close> of the file afterwards.\<close>

lemma extendedI:
  assumes l: "layout_ok s" and i: "i = inodes s p" and ok: "extent_ok s i" and has: "has = Suc (unat (i_size i) div 512)"
    and will: "has \<le> will" "will \<le> 140"
    and g: "inj_on g {has..<will}" "g ` {has..<will} \<subseteq> js" and js: "js \<subseteq> spare s"
    and s': "same_setup s s'" "file_table s' = file_table s" "spare s' = spare s - js" "used s' = used s \<union> blkno s ` js"
      "sectors_512 (disk_of s')" "inodes s' = (inodes s)(p := i\<lparr>i_sectors := xs\<rparr>)" "length xs = 13"
    and disk: "\<And>a. table_lba s \<le> a \<Longrightarrow> (12 < will \<Longrightarrow> a \<noteq> xs ! 12) \<Longrightarrow> disk_of s' a = disk_of s a"
    and bs: "length bs = 140" "\<And>k. has - 1 \<le> k \<Longrightarrow> k < will \<Longrightarrow> bs ! k = file_blk (disk_of s') (inodes s' p) k"
    and h: "\<And>k. k < has \<Longrightarrow> file_blk (disk_of s') (inodes s' p) k = file_blk (disk_of s) i k"
      "\<And>k. has \<le> k \<Longrightarrow> k < will \<Longrightarrow> file_blk (disk_of s') (inodes s' p) k = blkno s (g k)"
    and xs: "\<And>k. will \<le> k \<Longrightarrow> k < 12 \<Longrightarrow> xs ! k = 0"
      "if will \<le> 12 then xs ! 12 = 0 else if has \<le> 12 then xs ! 12 \<in> blkno s ` (js - g ` {has..<will}) else xs ! 12 = i_sectors i ! 12"
  shows "extended p has will s bs s'"
proof -
  let ?b = "file_blk (disk_of s) i" and ?h = "file_blk (disk_of s') (inodes s' p)"
  have at: "{..unat (i_size i) div 512} = {..<has}" unfolding has by auto
  have b: "inj_on ?b {..<has}" "?b ` {..<has} \<subseteq> used s"
    and tab: "if has \<le> 12 then i_sectors i ! 12 = 0 else i_sectors i ! 12 \<in> used s - ?b ` {..<has}"
    using ok unfolding extent_ok_def Let_def at [symmetric] by (auto simp: has split: if_splits)
  have gs: "g ` {has..<will} \<subseteq> spare s" using g(2) js by blast
  note hh = inj_grown [OF l b g(1) gs h will(1)]
  have hu: "?h k \<in> used s'" if "k < will" for k using hh(2) that g(2) s'(4) by auto
  have new: "?h k \<notin> used s" if "k < will" "has \<le> k" for k
  proof -
    have "g k \<in> spare s" using that gs by auto
    then show ?thesis using h(2) [OF that(2,1)] used_spare [OF l] by simp
  qed
  have t: "if will \<le> 12 then xs ! 12 = 0 else xs ! 12 \<in> used s' - ?h ` {..<will}"
  proof (cases "will \<le> 12")
    case False
    show ?thesis
    proof (cases "has \<le> 12")
      case True
      then obtain j where j: "j \<in> js" "j \<notin> g ` {has..<will}" "xs ! 12 = blkno s j" using xs(2) False by auto
      then have "xs ! 12 \<notin> used s" using used_spare [OF l] js by auto
      moreover have "xs ! 12 \<notin> blkno s ` g ` {has..<will}"
      proof
        assume "xs ! 12 \<in> blkno s ` g ` {has..<will}"
        then obtain x where x: "x \<in> g ` {has..<will}" "blkno s j = blkno s x" using j(3) by auto
        then have "j = x" using blkno_inj [OF l, of j x] spare_less j(1) js gs by blast
        then show False using j(2) x(1) by simp
      qed
      ultimately show ?thesis using False hh(2) j s'(4) by auto
    next
      case has12: False
      then have x: "xs ! 12 = i_sectors i ! 12" "xs ! 12 \<in> used s" "xs ! 12 \<notin> ?b ` {..<has}" using xs(2) tab False by auto
      have "xs ! 12 \<notin> ?h ` {..<will}"
      proof
        assume "xs ! 12 \<in> ?h ` {..<will}"
        then obtain k where k: "k < will" "xs ! 12 = ?h k" by auto
        show False
        proof (cases "k < has")
          case True
          then have "xs ! 12 \<in> ?b ` {..<has}" using k(2) h(1) [OF True] by simp
          then show False using x(3) by simp
        next
          case False
          then show False using x(2) k new [of k] by simp
        qed
      qed
      then show ?thesis using False x(2) s'(4) by simp
    qed
  qed (use xs(2) in simp)
  have sec: "i_sectors (inodes s' p) = xs" by (simp add: s'(6))
  have ok': "extent_ok s' (inodes s' p\<lparr>i_size := sz\<rparr>)" if sz: "Suc (unat sz div 512) = will" for sz
  proof -
    have "{..unat sz div 512} = {..<will}" "unat sz < 71680" "unat sz div 512 < 12 \<longleftrightarrow> will \<le> 12"
      using will(2) unfolding sz [symmetric] by auto
    moreover have "\<forall>k\<le>unat sz div 512. ?h k \<in> used s'" "\<forall>k. unat sz div 512 < k \<and> k < 12 \<longrightarrow> xs ! k = 0"
      using hu xs(1) sz by auto
    ultimately show ?thesis using hh(1) t s'(7) by (simp add: extent_ok_def Let_def sec split: if_splits)
  qed
  have x12: "xs ! 12 = i_sectors i ! 12 \<or> xs ! 12 \<notin> used s"
    using xs(2) tab js used_spare [OF l] will(1) by (auto split: if_splits)
  have sub: "spare s' \<subseteq> spare s" "used s \<subseteq> used s'" "\<exists>xs. inodes s' = (inodes s)(p := i\<lparr>i_sectors := xs\<rparr>)"
    using s'(3,4,6) by auto
  have "\<forall>k. has - 1 \<le> k \<and> k < will \<longrightarrow> bs ! k = ?h k" "\<forall>k<has. ?h k = ?b k" "\<forall>k<will. has \<le> k \<longrightarrow> ?h k \<notin> used s"
    using bs(2) h(1) new by blast+
  moreover have "\<forall>a. table_lba s \<le> a \<and> (12 < will \<longrightarrow> a \<noteq> xs ! 12) \<longrightarrow> disk_of s' a = disk_of s a"
    using disk by blast
  moreover have "\<forall>sz. Suc (unat sz div 512) = will \<longrightarrow> extent_ok s' (inodes s' p\<lparr>i_size := sz\<rparr>)" using ok' by blast
  ultimately show ?thesis unfolding extended_def i [symmetric] sec
    by (intro conjI s'(1,2,5) sub bs(1) x12)
qed

lemma extent_okD:
  assumes "layout_ok s" and "extent_ok s i" and "has = Suc (unat (i_size i) div 512)"
  shows "length (i_sectors i) = 13" "\<And>k. k < has \<Longrightarrow> file_blk (disk_of s) i k \<in> used s" "\<And>k. has \<le> k \<Longrightarrow> k < 12 \<Longrightarrow> i_sectors i ! k = 0"
    "has \<le> 12 \<Longrightarrow> i_sectors i ! 12 = 0" "12 < has \<Longrightarrow> i_sectors i ! 12 \<in> used s" "has \<le> 140" "0 < has"
  using assms(2) by (auto simp: extent_ok_def Let_def assms(3) split: if_splits)

lemma last_known:
  assumes "has - Suc 0 \<le> k" and "\<not> has \<le> k" and "has \<le> 12"
  shows "(replicate 140 0)[has - Suc 0 := xs ! (has - Suc 0)] ! k = (xs ! k :: u32)"
proof -
  have "k = has - Suc 0" "has - Suc 0 < 140" using assms by linarith+
  then show ?thesis by simp
qed

lemma write_same:
  assumes l: "layout_ok s" and i: "i = inodes s p" and ok: "extent_ok s i" and has: "has = Suc (unat (i_size i) div 512)"
  shows "\<exists>bs s'. write_blocks p has has s = Inr (Some bs, s') \<and> extended p has has s bs s'"
proof -
  note D = extent_okD [OF l ok has]
  have ext: "extended p has has s bs s"
    if "length bs = 140" "\<And>k. has - 1 \<le> k \<Longrightarrow> k < has \<Longrightarrow> bs ! k = file_blk (disk_of s) i k" for bs
  proof (rule extendedI [OF l i ok has order_refl D(6), of "\<lambda>_. 0" "{}" s "i_sectors i"])
    show "if has \<le> 12 then i_sectors i ! 12 = 0 else if has \<le> 12 then i_sectors i ! 12 \<in> blkno s ` ({} - (\<lambda>_. 0) ` {has..<has})
        else i_sectors i ! 12 = i_sectors i ! 12" using D(4) by auto
  qed (use that layout_512 [OF l] D(1,3) in \<open>auto simp: i\<close>)
  show ?thesis
  proof (cases "has \<le> 12")
    case True
    let ?bs = "(replicate 140 0)[has - 1 := i_sectors i ! (has - 1)]"
    have "?bs ! k = file_blk (disk_of s) i k" if "has - 1 \<le> k" "k < has" for k
      using last_known [of has k "i_sectors i"] that True by (simp add: file_blk_def)
    then have "extended p has has s ?bs s" by (intro ext) simp_all
    then show ?thesis using True by (simp add: write_blocks_def Let_def i)
  next
    case False
    then have t: "i_sectors i ! 12 \<in> used s" using D(5) by simp
    note tb = used_bounds [OF l t]
    obtain bs where bs: "read_table (i_sectors i ! 12) (replicate 140 0) s = Inr bs" "length bs = 140"
      "\<forall>k<140. bs ! k = (if k < 12 then replicate 140 0 ! k else words_of (disk_of s (i_sectors i ! 12)) ! (k - 12))"
      using table_blocks [OF layout_512 [OF l] tb(1), of "replicate 140 0"] by auto
    have "bs ! k = file_blk (disk_of s) i k" if "has - 1 \<le> k" "k < has" for k
    proof -
      have "12 \<le> k" "k < 140" using that False D(6) by linarith+
      then show ?thesis using bs(3) by (simp add: file_blk_def)
    qed
    with bs(2) have "extended p has has s bs s" by (rule ext)
    then show ?thesis using bs(1) False tb(3) by (simp add: write_blocks_def Let_def i)
  qed
qed

lemma write_direct:
  assumes l: "layout_ok s" and i: "i = inodes s p" and ok: "extent_ok s i" and has: "has = Suc (unat (i_size i) div 512)"
    and will: "has < will" "will \<le> 12" and "will - has \<le> card (spare s)"
  shows "\<exists>bs s'. write_blocks p has will s = Inr (Some bs, s') \<and> extended p has will s bs s'"
proof -
  note D = extent_okD [OF l ok has]
  let ?bs = "(replicate 140 0)[has - 1 := i_sectors i ! (has - 1)]"
  have z: "\<forall>k. has \<le> k \<and> k < 12 \<longrightarrow> i_sectors (inodes s p) ! k = 0" using D(3) i by simp
  obtain bs s' g xs where m: "add_mixed (will - has) has p ?bs s = Inr (Some bs, s')" "inj_on g {has..<will}"
      "took (g ` {has..<will}) s s'" "length bs = 140"
      "\<forall>k<140. bs ! k = (if has \<le> k \<and> k < will then blkno s (g k) else ?bs ! k)"
      "inodes s' = (inodes s)(p := inodes s p\<lparr>i_sectors := xs\<rparr>)" "length xs = 13"
      "\<forall>k<13. xs ! k = (if has \<le> k \<and> k < will \<and> k < 12 then blkno s (g k) else i_sectors (inodes s p) ! k)"
    using add_mixed_ok [OF l assms(7), of ?bs has p] will D(1) z i by auto
  have i': "i_sectors (inodes s' p) = xs" by (simp add: m(6))
  have "has - 1 < 12" using will by linarith
  then have "i_sectors i ! (has - 1) = file_blk (disk_of s) i (has - 1)" by (simp add: file_blk_def)
  then have "i_sectors i ! (has - 1) \<noteq> 0" using used_bounds(3) [OF l D(2), of "has - 1"] D(7) by simp
  then have "write_blocks p has will s = Inr (Some bs, s')"
    using will m(1) by (simp add: write_blocks_def Let_def i add_direct_mixed)
  moreover have "extended p has will s bs s'"
  proof (rule extendedI [OF l i ok has _ _ m(2) order_refl])
    show "if will \<le> 12 then xs ! 12 = 0 else if has \<le> 12 then xs ! 12 \<in> blkno s ` (g ` {has..<will} - g ` {has..<will})
        else xs ! 12 = i_sectors i ! 12" using m(8) will D(4) by (simp add: i)
    show "used s' = used s \<union> blkno s ` g ` {has..<will}" by (rule used_took [OF m(3)])
    fix k assume k: "has - 1 \<le> k" "k < will"
    then show "bs ! k = file_blk (disk_of s') (inodes s' p) k"
      using m(5,8) will last_known [of has k "i_sectors i"] by (auto simp: file_blk_def i' i)
  qed (use m will D(3) in \<open>auto simp: took_def file_blk_def i\<close>)
  ultimately show ?thesis by blast
qed

text \<open>Writing the table of indirect blocks.\<close>

lemma write_table_ok:
  assumes "t \<le> max_lba" and "length bs = 140"
  shows "\<exists>xs. write_table t bs s = Inr (s\<lparr>disks := (disks s)(my_disk (cur_part s) := (disk_of s)(t := xs))\<rparr>) \<and>
    length xs = 512 \<and> (\<forall>k. 12 \<le> k \<and> k < 140 \<longrightarrow> words_of xs ! (k - 12) = bs ! k)"
  using write_block [OF assms(1), of "bytes_of (drop 12 bs)" s] assms(2)
  by (intro exI [of _ "bytes_of (drop 12 bs)"]) (auto simp: write_table_def)

text \<open>The state after the table was written, against the state in which the blocks were taken.\<close>

lemma write_indirect:
  assumes l: "layout_ok s" and i: "i = inodes s p" and ok: "extent_ok s i" and has: "has = Suc (unat (i_size i) div 512)"
    and will: "has < will" "will \<le> 140" "12 < has" and "will - has \<le> card (spare s)"
  shows "\<exists>bs s'. write_blocks p has will s = Inr (Some bs, s') \<and> extended p has will s bs s'"
proof -
  note D = extent_okD [OF l ok has]
  let ?t = "i_sectors i ! 12"
  have t: "?t \<in> used s" using D(5) will(3) by simp
  note tb = used_bounds [OF l t]
  obtain cs where cs: "read_table ?t (replicate 140 0) s = Inr cs" "length cs = 140"
      "\<forall>k<140. cs ! k = (if k < 12 then replicate 140 0 ! k else words_of (disk_of s ?t) ! (k - 12))"
    using table_blocks [OF layout_512 [OF l] tb(1), of "replicate 140 0"] by auto
  have z: "\<forall>k. has \<le> k \<and> k < 12 \<longrightarrow> i_sectors (inodes s p) ! k = 0" using will(3) by auto
  obtain bs s2 g xs where m: "add_mixed (will - has) has p cs s = Inr (Some bs, s2)" "inj_on g {has..<will}"
      "took (g ` {has..<will}) s s2" "length bs = 140"
      "\<forall>k<140. bs ! k = (if has \<le> k \<and> k < will then blkno s (g k) else cs ! k)"
      "inodes s2 = (inodes s)(p := inodes s p\<lparr>i_sectors := xs\<rparr>)" "length xs = 13"
      "\<forall>k<13. xs ! k = (if has \<le> k \<and> k < will \<and> k < 12 then blkno s (g k) else i_sectors (inodes s p) ! k)"
    using add_mixed_ok [OF l assms(8), of cs has p] will D(1) i cs(2) z by auto
  obtain ys where ys: "write_table ?t bs s2 = Inr (s2\<lparr>disks := (disks s2)(my_disk (cur_part s2) := (disk_of s2)(?t := ys))\<rparr>)"
      "length ys = 512" "\<forall>k. 12 \<le> k \<and> k < 140 \<longrightarrow> words_of ys ! (k - 12) = bs ! k"
    using write_table_ok [OF tb(1) m(4)] by blast
  let ?s' = "s2\<lparr>disks := (disks s2)(my_disk (cur_part s2) := (disk_of s2)(?t := ys))\<rparr>"
  have x12: "xs ! 12 = ?t" using m(8) by (simp add: i)
  have b: "file_blk (disk_of ?s') (inodes ?s' p) k = (if k < 12 then xs ! k else bs ! k)" if "k < 140" for k
    using that ys(3) by (simp add: file_blk_def m(6) x12)
  have old: "cs ! k = file_blk (disk_of s) i k" if "12 \<le> k" "k < 140" for k using that cs(3) by (simp add: file_blk_def)
  have sam: "same_setup s s2" "file_table s2 = file_table s" "spare s2 = spare s - g ` {has..<will}" "sectors_512 (disk_of s2)"
      "g ` {has..<will} \<subseteq> spare s" "\<forall>a. table_lba s \<le> a \<longrightarrow> disk_of s2 a = disk_of s a" using m(3) by (simp_all add: took_def)
  have "write_blocks p has will s = Inr (Some bs, ?s')"
    using will m(1) tb(3) cs(1) ys(1) add_indirect_mixed [of has "will - has" cs s p]
    by (simp add: write_blocks_def Let_def i)
  moreover have "extended p has will s bs ?s'"
  proof (rule extendedI [OF l i ok has _ will(2) m(2) order_refl sam(5)])
    show "used ?s' = used s \<union> blkno s ` g ` {has..<will}" using used_took [OF m(3)] used_setup(1) [of s2 ?s'] by simp
    show "spare ?s' = spare s - g ` {has..<will}" using sam(3) used_setup(2) [of s2 ?s'] by simp
    show "sectors_512 (disk_of ?s')" using sam(4) ys(2) by (simp add: sectors_512_def)
    show "if will \<le> 12 then xs ! 12 = 0 else if has \<le> 12 then xs ! 12 \<in> blkno s ` (g ` {has..<will} - g ` {has..<will})
        else xs ! 12 = ?t" using will x12 by simp
    fix a assume "table_lba s \<le> a" "12 < will \<Longrightarrow> a \<noteq> xs ! 12"
    then show "disk_of ?s' a = disk_of s a" using sam(6) x12 will by simp
  next
    fix k assume k: "has - 1 \<le> k" "k < will"
    then have "12 \<le> k" "k < 140" using will by linarith+
    then show "bs ! k = file_blk (disk_of ?s') (inodes ?s' p) k" using b [of k] by simp
  next
    fix k assume k: "k < has"
    then have "k < 140" using will by linarith
    then show "file_blk (disk_of ?s') (inodes ?s' p) k = file_blk (disk_of s) i k"
      using b [of k] m(5,8) k will(3) old [of k] by (simp add: file_blk_def i)
  next
    fix k assume k: "has \<le> k" "k < will"
    then have "k < 140" "12 \<le> k" using will by linarith+
    then show "file_blk (disk_of ?s') (inodes ?s' p) k = blkno s (g k)" using b [of k] m(5) k by simp
  qed (use m(4,6,7) sam(1,2) will i in auto)
  ultimately show ?thesis by blast
qed

text \<open>The file gets its table of indirect blocks.\<close>

lemma write_mixed:
  assumes l: "layout_ok s" and i: "i = inodes s p" and ok: "extent_ok s i" and has: "has = Suc (unat (i_size i) div 512)"
    and will: "has \<le> 12" "12 < will" "will \<le> 140" and "Suc (will - has) \<le> card (spare s)"
  shows "\<exists>bs s'. write_blocks p has will s = Inr (Some bs, s') \<and> extended p has will s bs s'"
proof -
  note D = extent_okD [OF l ok has]
  have "spare s \<noteq> {}" using assms(8) by auto
  from take_one [OF l this, of p] obtain j s1 where
    j: "block_bitmap_alloc s = Inr (blkno s j, s1)" "inodes s1 = inodes s" "j \<in> spare s"
      "\<forall>k. (\<exists>s2. sync_block (blkno s j) s1 = Inr s2 \<and> inodes s2 = inodes s \<and> took {j} s s2) \<and>
      (\<exists>s2. sync_block (blkno s j) (set_sector p k (blkno s j) s1) = Inr s2 \<and>
        inodes s2 = inodes (set_sector p k (blkno s j) s) \<and> took {j} s s2)" by blast
  let ?t = "blkno s j"
  note tb = blkno_bounds [OF l spare_less [OF j(3)]]
  from j(4) obtain s2 where s2: "sync_block ?t (set_sector p 12 ?t s1) = Inr s2"
    "inodes s2 = inodes (set_sector p 12 ?t s)" "took {j} s s2" by blast
  have i2: "inodes s2 = (inodes s)(p := i\<lparr>i_sectors := (i_sectors i)[12 := ?t]\<rparr>)"
    using s2(2) by (simp add: set_sector_def set_inode_def i)
  have l2: "layout_ok s2" by (rule took_layout [OF l s2(3)])
  let ?cs = "(replicate 140 0)[has - 1 := i_sectors i ! (has - 1)]"
  have "spare s2 = spare s - {j}" using s2(3) by (simp add: took_def)
  then have "will - has \<le> card (spare s2)" using assms(8) j(3) by simp
  moreover have "length (i_sectors (inodes s2 p)) = 13" "\<forall>k. has \<le> k \<and> k < 12 \<longrightarrow> i_sectors (inodes s2 p) ! k = 0"
    using D(1,3) by (simp_all add: i2)
  moreover have bk: "blkno s2 = blkno s" using s2(3) by (simp add: took_def blkno_setup)
  ultimately obtain bs s3 g xs where m: "add_mixed (will - has) has p ?cs s2 = Inr (Some bs, s3)" "inj_on g {has..<will}"
      "took (g ` {has..<will}) s2 s3" "length bs = 140"
      "\<forall>k<140. bs ! k = (if has \<le> k \<and> k < will then blkno s (g k) else ?cs ! k)"
      "inodes s3 = (inodes s2)(p := inodes s2 p\<lparr>i_sectors := xs\<rparr>)" "length xs = 13"
      "\<forall>k<13. xs ! k = (if has \<le> k \<and> k < will \<and> k < 12 then blkno s (g k) else i_sectors (inodes s2 p) ! k)"
    using add_mixed_ok [OF l2, of "will - has" ?cs has p] will by auto
  have x: "xs ! 12 = ?t" "\<And>k. k < 12 \<Longrightarrow> xs ! k = (if has \<le> k then blkno s (g k) else i_sectors i ! k)"
    using m(8) D(1) will by (simp_all add: i2)
  have tk: "took ({j} \<union> g ` {has..<will}) s s3" by (rule took_trans [OF s2(3) m(3)])
  have jg: "j \<notin> g ` {has..<will}" using took_disjoint [OF s2(3) m(3)] by blast
  obtain ys where ys: "write_table ?t bs s3 = Inr (s3\<lparr>disks := (disks s3)(my_disk (cur_part s3) := (disk_of s3)(?t := ys))\<rparr>)"
      "length ys = 512" "\<forall>k. 12 \<le> k \<and> k < 140 \<longrightarrow> words_of ys ! (k - 12) = bs ! k"
    using write_table_ok [OF tb(2) m(4)] by blast
  let ?s' = "s3\<lparr>disks := (disks s3)(my_disk (cur_part s3) := (disk_of s3)(?t := ys))\<rparr>"
  have b: "file_blk (disk_of ?s') (inodes ?s' p) k = (if k < 12 then xs ! k else bs ! k)" if "k < 140" for k
    using that ys(3) by (simp add: file_blk_def m(6) x(1))
  have sam: "same_setup s s3" "file_table s3 = file_table s" "spare s3 = spare s - ({j} \<union> g ` {has..<will})" "sectors_512 (disk_of s3)"
      "{j} \<union> g ` {has..<will} \<subseteq> spare s" "\<forall>a. table_lba s \<le> a \<longrightarrow> disk_of s3 a = disk_of s a"
    using tk by (auto simp: took_def)
  have "write_blocks p has will s = Inr (Some bs, ?s')"
    using will j(1) tb(5) D(4) s2(1) m(1) ys(1) by (simp add: write_blocks_def Let_def i)
  moreover have "extended p has will s bs ?s'"
  proof (rule extendedI [OF l i ok has _ will(3) m(2) Un_upper2 sam(5)])
    show "used ?s' = used s \<union> blkno s ` ({j} \<union> g ` {has..<will})" using used_took [OF tk] used_setup(1) [of s3 ?s'] by simp
    show "spare ?s' = spare s - ({j} \<union> g ` {has..<will})" using sam(3) used_setup(2) [of s3 ?s'] by simp
    show "sectors_512 (disk_of ?s')" using sam(4) ys(2) by (simp add: sectors_512_def)
    show "inodes ?s' = (inodes s)(p := i\<lparr>i_sectors := xs\<rparr>)" by (simp add: m(6) i2)
    show "if will \<le> 12 then xs ! 12 = 0 else if has \<le> 12 then xs ! 12 \<in> blkno s ` ({j} \<union> g ` {has..<will} - g ` {has..<will})
        else xs ! 12 = i_sectors i ! 12" using will x(1) jg by auto
    fix a assume "table_lba s \<le> a" "12 < will \<Longrightarrow> a \<noteq> xs ! 12"
    then show "disk_of ?s' a = disk_of s a" using sam(6) x(1) will by simp
  next
    fix k assume k: "has - 1 \<le> k" "k < will"
    then show "bs ! k = file_blk (disk_of ?s') (inodes ?s' p) k"
      using b [of k] m(5) x(2) [of k] will last_known [of has k "i_sectors i"] by auto
  next
    fix k assume k: "k < has"
    then have "k < 140" "k < 12" using will by linarith+
    then show "file_blk (disk_of ?s') (inodes ?s' p) k = file_blk (disk_of s) i k"
      using b [of k] x(2) [of k] k by (simp add: file_blk_def)
  next
    fix k assume k: "has \<le> k" "k < will"
    then show "file_blk (disk_of ?s') (inodes ?s' p) k = blkno s (g k)" using b [of k] m(5) x(2) [of k] will by auto
  qed (use m(4,7) sam(1,2) will in auto)
  ultimately show ?thesis by blast
qed

lemma write_blocks_ok:
  assumes "layout_ok s" and "extent_ok s (inodes s p)" and "has = Suc (unat (i_size (inodes s p)) div 512)"
    and "has \<le> will" and "will \<le> 140" and "Suc (will - has) \<le> card (spare s)"
  shows "\<exists>bs s'. write_blocks p has will s = Inr (Some bs, s') \<and> extended p has will s bs s'"
proof -
  consider "will = has" | "has < will" "will \<le> 12" | "has \<le> 12" "12 < will" | "has < will" "12 < has" using assms(4) by linarith
  then show ?thesis
    using write_same [OF assms(1) refl assms(2,3)] write_direct [OF assms(1) refl assms(2,3)]
      write_mixed [OF assms(1) refl assms(2,3)] write_indirect [OF assms(1) refl assms(2,3)] assms(5,6)
    by cases simp_all
qed

section \<open>Writing the sectors\<close>

lemma splice_nth:
  assumes "length buf = 512" and "off + length xs \<le> 512" and "j < 512"
  shows "splice buf off xs ! j = (if off \<le> j \<and> j < off + length xs then xs ! (j - off) else buf ! j)"
  using assms by (intro nth_splice) simp_all

text \<open>What one turn of the loop does to the bytes of the file.\<close>

lemma turn_bytes:
  fixes b :: "nat \<Rightarrow> u32"
  assumes "sectors_512 d" and "c \<le> length src" and "c \<le> 512 - sz mod 512" and "inj_on b {..(sz + length src) div 512}"
    and "length buf = 512" and "\<And>j. j < sz mod 512 \<Longrightarrow> buf ! j = d (b (sz div 512)) ! j" and "j < sz + c"
  shows "file_byte (d(b (sz div 512) := splice buf (sz mod 512) (take c src))) b j =
    (if j < sz then file_byte d b j else src ! (j - sz))"
proof (cases "j div 512 = sz div 512")
  case True
  have e: "j = 512 * (sz div 512) + j mod 512" "sz = 512 * (sz div 512) + sz mod 512"
    using True mult_div_mod_eq [of 512 j] mult_div_mod_eq [of 512 sz] by simp_all
  have "j mod 512 < 512" by simp
  then have "splice buf (sz mod 512) (take c src) ! (j mod 512) =
      (if sz mod 512 \<le> j mod 512 \<and> j mod 512 < sz mod 512 + c then take c src ! (j mod 512 - sz mod 512) else buf ! (j mod 512))"
    using splice_nth [OF assms(5), of "sz mod 512" "take c src" "j mod 512"] assms(2,3) by (simp add: min_absorb2)
  moreover have "j < sz \<longleftrightarrow> j mod 512 < sz mod 512" using e by linarith
  moreover have "j mod 512 - sz mod 512 = j - sz" "j mod 512 < sz mod 512 + c" using e assms(7) by linarith+
  moreover have "\<not> j < sz \<Longrightarrow> take c src ! (j - sz) = src ! (j - sz)" using assms(7) by simp
  ultimately show ?thesis using True assms(6) by (auto simp: file_byte_def)
next
  case False
  have "c \<le> 512 - sz mod 512" "sz = 512 * (sz div 512) + sz mod 512" using assms(3) by simp_all
  then have "sz + c \<le> 512 * (sz div 512) + 512" using mod_less_divisor [of 512 sz] by linarith
  then have "j < 512 * Suc (sz div 512)" using assms(7) by simp
  then have lt: "j div 512 < Suc (sz div 512)" by (simp add: less_mult_imp_div_less mult.commute)
  then have "j div 512 < sz div 512" using False by simp
  then have j: "j < sz" by (meson div_le_mono leD not_le)
  have "sz div 512 \<le> (sz + length src) div 512" by (rule div_le_mono) simp
  then have "b (j div 512) \<noteq> b (sz div 512)" using False lt assms(4) by (auto dest: inj_onD)
  then show ?thesis using j by (simp add: file_byte_def)
qed

lemma write_loop_ok:
  assumes "layout_ok s" and "length src < n" and "f = file_table s ! fd" and "fd < length (file_table s)" and "p = fd_inode f"
    and "i = inodes s p" and "sz = unat (i_size i)" and "sz + length src < 71680" and "length blocks = 140"
    and "\<And>k. sz div 512 \<le> k \<Longrightarrow> k \<le> (sz + length src) div 512 \<Longrightarrow> blocks ! k = b k"
    and "inj_on b {..(sz + length src) div 512}" and "\<And>k. k \<le> (sz + length src) div 512 \<Longrightarrow> b k \<in> used s"
    and "\<not> first \<Longrightarrow> sz mod 512 = 0"
  shows "\<exists>d. write_loop n fd blocks first src w s = Inr (w + of_nat (length src),
      set_file fd (f\<lparr>fd_pos := fd_pos f + of_nat (length src)\<rparr>) (set_inode p (i\<lparr>i_size := i_size i + of_nat (length src)\<rparr>)
        (s\<lparr>disks := (disks s)(my_disk (cur_part s) := d)\<rparr>))) \<and> sectors_512 d \<and>
    (\<forall>a. a \<notin> b ` {..(sz + length src) div 512} \<longrightarrow> d a = disk_of s a) \<and>
    (\<forall>j < sz + length src. file_byte d b j = (if j < sz then file_byte (disk_of s) b j else src ! (j - sz)))"
  using assms
proof (induction n arbitrary: src first w s f i sz)
  case (Suc n)
  note l = Suc.prems(1)
  show ?case
  proof (cases "src = []")
    case True
    have "s = set_file fd f (set_inode p i (s\<lparr>disks := (disks s)(my_disk (cur_part s) := disk_of s)\<rparr>))"
      using Suc.prems(3,6) by (simp add: set_file_def set_inode_def)
    then show ?thesis using True layout_512 [OF l] by (intro exI [of _ "disk_of s"]) simp
  next
    case False
    define c where "c = min (length src) (512 - sz mod 512)"
    have off: "sz mod 512 < 512" by simp
    have c: "0 < c" "c \<le> length src" "c \<le> 512 - sz mod 512" using False off by (auto simp: c_def)
    let ?q = "sz div 512" and ?top = "(sz + length src) div 512"
    have q: "?q \<le> ?top" by (rule div_le_mono) simp
    have top140: "?top < 140" using Suc.prems(8) by (simp add: less_mult_imp_div_less)
    define io where "io = (if first then disk_of s (b ?q) else replicate 512 0)"
    define sec where "sec = splice io (sz mod 512) (take c src)"
    have len_io: "length io = 512" using layout_512 [OF l] by (simp add: sectors_512_def io_def)
    have len_sec: "length sec = 512" unfolding sec_def using len_io c off by (subst length_splice) (simp_all add: min_absorb2)
    have old: "io ! j = disk_of s (b ?q) ! j" if "j < sz mod 512" for j using that Suc.prems(13) by (auto simp: io_def)
    note turn = turn_bytes [OF layout_512 [OF l] c(2,3) Suc.prems(11) len_io old, folded sec_def]
    have bq: "b ?q \<le> max_lba" using used_bounds(1) [OF l Suc.prems(12) [OF q]] .
    let ?d1 = "(disk_of s)(b ?q := sec)"
    let ?f1 = "f\<lparr>fd_pos := fd_pos f + of_nat c\<rparr>" and ?i1 = "i\<lparr>i_size := i_size i + of_nat c\<rparr>"
    let ?s1 = "set_file fd ?f1 (set_inode p ?i1 (s\<lparr>disks := (disks s)(my_disk (cur_part s) := ?d1)\<rparr>))"
    have u: "unat (i_size i div 512) = ?q" "unat (i_size i mod 512) = sz mod 512" by (simp_all add: Suc.prems(7))
    have bl: "blocks ! ?q = b ?q" using Suc.prems(10) [of ?q] q by simp
    have rd: "(if first then read_disk (b ?q) 1 s else Inr (replicate 512 0)) = Inr io"
      using read_block [OF layout_512 [OF l] bq] by (simp add: io_def)
    have step: "write_loop (Suc n) fd blocks first src w s = write_loop n fd blocks False (drop c src) (w + of_nat c) ?s1"
      unfolding write_loop.simps Suc.prems(3) [symmetric] Suc.prems(5) [symmetric] Suc.prems(6) [symmetric] Let_def u
        c_def [symmetric] bl rd bindr_Inr sec_def [symmetric] write_block [OF bq len_sec]
      using False top140 q Suc.prems(9) by simp
    have sz1: "unat (i_size ?i1) = sz + c"
      using Suc.prems(7,8) c by (simp add: unat_add_u32)
    have sum: "sz + c + length (drop c src) = sz + length src" using c by simp
    have l1: "layout_ok ?s1"
      using layout_512 [OF l] len_sec by (intro layout_setup [OF l]) (simp_all add: same_setup_def set_file_def set_inode_def sectors_512_def)
    have u1: "used ?s1 = used s" by (rule used_setup) (simp_all add: same_setup_def set_file_def set_inode_def)
    have ft: "file_table ?s1 ! fd = ?f1" "fd < length (file_table ?s1)" "fd_inode ?f1 = p" "inodes ?s1 p = ?i1"
      using Suc.prems(4,5) by (simp_all add: set_file_def set_inode_def)
    have mod0: "(sz + c) mod 512 = 0" if "drop c src \<noteq> []"
    proof -
      have "c = 512 - sz mod 512" using that by (auto simp: c_def min_def split: if_splits)
      then have "sz + c = 512 * Suc ?q" unfolding mult_Suc_right using off mult_div_mod_eq [of 512 sz] by linarith
      then show ?thesis by simp
    qed
    show ?thesis
    proof (cases "drop c src = []")
      case True
      then have cl: "c = length src" using c by simp
      have n: "n = Suc (n - 1)" using Suc.prems(2) False by (cases n) auto
      have w1: "write_loop n fd blocks False [] w' t = Inr (w', t)" for w' t
        by (subst n) simp
      show ?thesis unfolding step True w1
      proof (intro exI [of _ ?d1] conjI)
        show "sectors_512 ?d1" using layout_512 [OF l] len_sec by (simp add: sectors_512_def)
        show "\<forall>a. a \<notin> b ` {..?top} \<longrightarrow> ?d1 a = disk_of s a" using q by auto
        show "\<forall>j < sz + length src. file_byte ?d1 b j = (if j < sz then file_byte (disk_of s) b j else src ! (j - sz))"
          using turn cl by simp
      qed (simp add: cl fun_upd_def)
    next
      case more: False
      note IH = Suc.IH [OF l1 _ ft(1) [symmetric] ft(2) ft(3) [symmetric] ft(4) [symmetric] sz1 [symmetric], of "drop c src" False "w + of_nat c",
        unfolded sum u1, OF _ Suc.prems(8,9) _ Suc.prems(11,12) mod0 [OF more]]
      have "length (drop c src) < n" using Suc.prems(2) c by simp
      moreover have "blocks ! k = b k" if "(sz + c) div 512 \<le> k" "k \<le> ?top" for k
      proof -
        have "?q \<le> (sz + c) div 512" by (rule div_le_mono) simp
        then show ?thesis using that Suc.prems(10) by simp
      qed
      ultimately obtain d where d: "write_loop n fd blocks False (drop c src) (w + of_nat c) ?s1 = Inr (w + of_nat c + of_nat (length (drop c src)),
          set_file fd (?f1\<lparr>fd_pos := fd_pos ?f1 + of_nat (length (drop c src))\<rparr>) (set_inode p (?i1\<lparr>i_size := i_size ?i1 + of_nat (length (drop c src))\<rparr>)
          (?s1\<lparr>disks := (disks ?s1)(my_disk (cur_part ?s1) := d)\<rparr>)))" "sectors_512 d"
        "\<forall>a. a \<notin> b ` {..?top} \<longrightarrow> d a = disk_of ?s1 a"
        "\<forall>j < sz + length src. file_byte d b j = (if j < sz + c then file_byte (disk_of ?s1) b j else drop c src ! (j - (sz + c)))"
        using IH by blast
      have d1: "disk_of ?s1 = ?d1" by (simp add: set_file_def set_inode_def)
      have "(of_nat c :: u32) + of_nat (length (drop c src)) = of_nat (length src)" using c by (simp add: of_nat_diff)
      then have "write_loop (Suc n) fd blocks first src w s = Inr (w + of_nat (length src),
        set_file fd (f\<lparr>fd_pos := fd_pos f + of_nat (length src)\<rparr>) (set_inode p (i\<lparr>i_size := i_size i + of_nat (length src)\<rparr>)
        (s\<lparr>disks := (disks s)(my_disk (cur_part s) := d)\<rparr>)))"
        unfolding step d(1) by (simp add: add.assoc) (simp add: set_file_def set_inode_def)
      moreover have "\<forall>a. a \<notin> b ` {..?top} \<longrightarrow> d a = disk_of s a" using d(3) q unfolding d1 by auto
      moreover have "file_byte d b j = (if j < sz then file_byte (disk_of s) b j else src ! (j - sz))" if j: "j < sz + length src" for j
      proof (cases "j < sz + c")
        case True
        have "file_byte d b j = file_byte ?d1 b j" using d(4) j True unfolding d1 by auto
        also have "\<dots> = (if j < sz then file_byte (disk_of s) b j else src ! (j - sz))"
          using turn [OF _ True] by simp
        finally show ?thesis .
      next
        case False
        then show ?thesis using d(4) j by (auto simp: nth_drop)
      qed
      ultimately show ?thesis using d(2) by blast
    qed
  qed
qed simp

end
