(* ===== verification/Files.thy ===== *)
theory Files
  imports Content
begin

unbundle bit_operations_syntax

text \<open>
  Whole calls of \<open>file_read\<close> and \<open>file_write\<close>: a write appends to the contents and leaves every other file
  alone, a read delivers a piece of the contents.
\<close>

section \<open>The blocks that belong to a file\<close>

definition file_blocks :: "fs \<Rightarrow> inode \<Rightarrow> u32 set" where
  "file_blocks s i = (if i_sectors i = replicate 13 0 then {}
     else file_blk (disk_of s) i ` {..unat (i_size i) div 512} \<union> (if unat (i_size i) div 512 < 12 then {} else {i_sectors i ! 12}))"

lemma mallocs_simps [simp]:
  "used (s\<lparr>mallocs := ms\<rparr>) = used s" "spare (s\<lparr>mallocs := ms\<rparr>) = spare s" "layout_ok (s\<lparr>mallocs := ms\<rparr>) = layout_ok s"
  "contents (s\<lparr>mallocs := ms\<rparr>) i = contents s i" "file_blocks (s\<lparr>mallocs := ms\<rparr>) i = file_blocks s i"
  "inode_at (s\<lparr>mallocs := ms\<rparr>) m = inode_at s m"
  by (simp_all add: used_alt spare_def blkno_def [abs_def] layout_ok_def table_ok_def contents_def file_blocks_def inode_at_def)

lemma file_blocks_used:
  assumes "file_ok s i"
  shows "file_blocks s i \<subseteq> used s"
  using assms by (auto simp: file_ok_def file_blocks_def extent_ok_def Let_def split: if_splits)

text \<open>What only depends on the blocks of the file.\<close>

lemma file_blk_same:
  assumes "d' (i_sectors i ! 12) = d (i_sectors i ! 12) \<or> k < 12"
  shows "file_blk d' i k = file_blk d i k"
  using assms by (auto simp: file_blk_def)

lemma blocks_kept:
  assumes "extent_ok s i" and "\<And>k. k \<le> unat (i_size i) div 512 \<Longrightarrow> file_blk (disk_of s') i k = file_blk (disk_of s) i k"
    and "file_blk (disk_of s) i ` {..unat (i_size i) div 512} \<subseteq> used s'" and "12 \<le> unat (i_size i) div 512 \<Longrightarrow> i_sectors i ! 12 \<in> used s'"
  shows "extent_ok s' i" "file_blocks s' i = file_blocks s i"
proof -
  have im: "file_blk (disk_of s') i ` {..unat (i_size i) div 512} = file_blk (disk_of s) i ` {..unat (i_size i) div 512}"
    using assms(2) by (intro image_cong) auto
  have inj: "inj_on (file_blk (disk_of s') i) {..unat (i_size i) div 512} = inj_on (file_blk (disk_of s) i) {..unat (i_size i) div 512}"
    using assms(2) by (intro inj_on_cong) auto
  show "extent_ok s' i" using assms im unfolding extent_ok_def Let_def inj by (auto split: if_splits)
  show "file_blocks s' i = file_blocks s i" using im by (simp add: file_blocks_def)
qed

lemma blocks_cong:
  assumes b: "extent_ok s i" and "\<And>k. k \<le> unat (i_size i) div 512 \<Longrightarrow> file_blk (disk_of s') i k = file_blk (disk_of s) i k" and u: "used s \<subseteq> used s'"
  shows "extent_ok s' i" "file_blocks s' i = file_blocks s i"
proof -
  have "file_blk (disk_of s) i ` {..unat (i_size i) div 512} \<subseteq> used s'" "12 \<le> unat (i_size i) div 512 \<Longrightarrow> i_sectors i ! 12 \<in> used s'"
    using b u by (auto simp: extent_ok_def Let_def)
  from blocks_kept [OF b assms(2) this] show "extent_ok s' i" "file_blocks s' i = file_blocks s i" by simp_all
qed

lemma file_kept:
  assumes ok: "file_ok s i" and d: "\<And>a. a \<in> file_blocks s i \<Longrightarrow> disk_of s' a = disk_of s a" and u: "file_blocks s i \<subseteq> used s'"
  shows "file_ok s' i" "contents s' i = contents s i" "file_blocks s' i = file_blocks s i"
proof -
  have "file_ok s' i \<and> contents s' i = contents s i \<and> file_blocks s' i = file_blocks s i"
  proof (cases "i_sectors i = replicate 13 0")
    case True
    then show ?thesis using ok by (simp add: file_ok_def contents_def file_blocks_def)
  next
    case False
    then have b: "extent_ok s i" using ok by (simp add: file_ok_def)
    have bk: "file_blk (disk_of s') i k = file_blk (disk_of s) i k" if "k \<le> unat (i_size i) div 512" for k
    proof (rule file_blk_same)
      show "disk_of s' (i_sectors i ! 12) = disk_of s (i_sectors i ! 12) \<or> k < 12"
        using that d [of "i_sectors i ! 12"] False by (auto simp: file_blocks_def split: if_splits)
    qed
    have "file_blk (disk_of s) i ` {..unat (i_size i) div 512} \<subseteq> used s'" "12 \<le> unat (i_size i) div 512 \<Longrightarrow> i_sectors i ! 12 \<in> used s'"
      using u False by (auto simp: file_blocks_def)
    note c = blocks_kept [OF b bk this]
    have "file_byte (disk_of s') (file_blk (disk_of s') i) j = file_byte (disk_of s) (file_blk (disk_of s) i) j"
      if "j < unat (i_size i)" for j
    proof -
      have k: "j div 512 \<le> unat (i_size i) div 512" using that by (intro div_le_mono) simp
      then have "file_blk (disk_of s) i (j div 512) \<in> file_blocks s i" using False by (auto simp: file_blocks_def)
      then show ?thesis using bk [OF k] d by (simp add: file_byte_def)
    qed
    then show ?thesis using False c by (simp add: file_ok_def contents_def)
  qed
  then show "file_ok s' i" "contents s' i = contents s i" "file_blocks s' i = file_blocks s i" by simp_all
qed

lemma file_same:
  assumes ok: "file_ok s i" and "\<And>a. a \<in> file_blocks s i \<Longrightarrow> disk_of s' a = disk_of s a" and u: "used s \<subseteq> used s'"
  shows "file_ok s' i" "contents s' i = contents s i" "file_blocks s' i = file_blocks s i"
proof -
  have "file_blocks s i \<subseteq> used s'" using file_blocks_used [OF ok] u by blast
  from file_kept [OF ok assms(2) this] show "file_ok s' i" "contents s' i = contents s i" "file_blocks s' i = file_blocks s i" by simp_all
qed

section \<open>The first block\<close>

text \<open>Afterwards the file has at least one block; nothing else is different.\<close>

definition begun :: "addr \<Rightarrow> fs \<Rightarrow> fs \<Rightarrow> bool" where
  "begun p s s' \<longleftrightarrow> same_setup s s' \<and> file_table s' = file_table s \<and> layout_ok s' \<and> used s \<subseteq> used s' \<and>
     spare s' \<subseteq> spare s \<and> card (spare s) \<le> Suc (card (spare s')) \<and>
     (\<exists>xs. inodes s' = (inodes s)(p := inodes s p\<lparr>i_sectors := xs\<rparr>)) \<and> extent_ok s' (inodes s' p) \<and>
     contents s' (inodes s' p) = contents s (inodes s p) \<and> (\<forall>a. table_lba s \<le> a \<longrightarrow> disk_of s' a = disk_of s a) \<and>
     file_blocks s' (inodes s' p) \<inter> used s = file_blocks s (inodes s p)"

lemma first_block_ok:
  assumes l: "layout_ok s" and ok: "file_ok s (inodes s p)" and "0 \<notin> spare s" and "spare s \<noteq> {}"
  shows "\<exists>s'. first_block p s = Inr (True, s') \<and> begun p s s'"
proof (cases "i_sectors (inodes s p) = replicate 13 0")
  case True
  then have sz: "i_size (inodes s p) = 0" using ok by (simp add: file_ok_def)
  from take_one [OF l assms(4), of p] obtain j s1 where
    j: "block_bitmap_alloc s = Inr (blkno s j, s1)" "inodes s1 = inodes s" "j \<in> spare s"
      "\<forall>k. (\<exists>s2. sync_block (blkno s j) s1 = Inr s2 \<and> inodes s2 = inodes s \<and> took {j} s s2) \<and>
      (\<exists>s2. sync_block (blkno s j) (set_sector p k (blkno s j) s1) = Inr s2 \<and>
        inodes s2 = inodes (set_sector p k (blkno s j) s) \<and> took {j} s s2)" by blast
  note tb = blkno_bounds [OF l spare_less [OF j(3)]]
  from j(4) obtain s2 where s2: "sync_block (blkno s j) (set_sector p 0 (blkno s j) s1) = Inr s2"
    "inodes s2 = inodes (set_sector p 0 (blkno s j) s)" "took {j} s s2" by blast
  have cp: "cur_part s1 = cur_part s" using j(1) by (auto simp: block_bitmap_alloc_def Let_def bindr_eq_Inr split: if_splits)
  have "unat (blkno s j - data_lba s) = j" using spare_less [OF j(3)] l by (simp add: blkno_def layout_ok_def)
  then have "blkno s j - data_lba s \<noteq> 0" using assms(3) j(3) by (cases j) auto
  then have "first_block p s = Inr (True, s2)"
    using True j(1) tb(5) s2(1) cp by (simp add: first_block_def Let_def set_sector_def set_inode_def)
  moreover have "begun p s s2"
  proof -
    let ?xs = "(replicate 13 0)[0 := blkno s j]"
    have i2: "inodes s2 = (inodes s)(p := inodes s p\<lparr>i_sectors := ?xs\<rparr>)"
      using s2(2) True by (simp add: set_sector_def set_inode_def)
    have sam: "same_setup s s2" "file_table s2 = file_table s" "spare s2 = spare s - {j}"
      "\<forall>a. table_lba s \<le> a \<longrightarrow> disk_of s2 a = disk_of s a" using s2(3) by (simp_all add: took_def)
    have us: "used s2 = insert (blkno s j) (used s)" using used_took [OF s2(3)] by simp
    have nz: "?xs \<noteq> replicate 13 0" using tb(4) by (metis length_replicate list_update_id nth_list_update_eq nth_replicate zero_less_numeral)
    have b0: "file_blk d (inodes s p\<lparr>i_sectors := ?xs\<rparr>) 0 = blkno s j" for d by (simp add: file_blk_def)
    have "extent_ok s2 (inodes s2 p)" using us b0 sz by (simp add: extent_ok_def Let_def i2 nth_list_update)
    moreover have "file_blocks s2 (inodes s2 p) \<inter> used s = file_blocks s (inodes s p)"
      using nz b0 sz True used_spare [OF l j(3)] by (auto simp: file_blocks_def i2)
    moreover have "contents s2 (inodes s2 p) = contents s (inodes s p)" using sz by (simp add: contents_def i2)
    moreover have "card (spare s) \<le> Suc (card (spare s2))" unfolding sam(3) using j(3) by (simp add: card_Diff_singleton)
    ultimately show ?thesis unfolding begun_def
      using sam us i2 took_layout [OF l s2(3)] by (intro conjI exI [of _ ?xs]) auto
  qed
  ultimately show ?thesis by blast
next
  case False
  then have b: "extent_ok s (inodes s p)" using ok by (simp add: file_ok_def)
  then have "file_blk (disk_of s) (inodes s p) 0 \<in> used s" by (simp add: extent_ok_def Let_def)
  then have "i_sectors (inodes s p) ! 0 \<noteq> 0" using used_bounds(3) [OF l] by (simp add: file_blk_def)
  then have "first_block p s = Inr (True, s)" by (simp add: first_block_def)
  moreover have "file_blocks s (inodes s p) \<inter> used s = file_blocks s (inodes s p)" using file_blocks_used [OF ok] by blast
  moreover have "\<exists>xs. inodes s = (inodes s)(p := inodes s p\<lparr>i_sectors := xs\<rparr>)"
    by (rule exI [of _ "i_sectors (inodes s p)"]) simp
  ultimately show ?thesis using b l unfolding begun_def by (intro exI [of _ s] conjI) auto
qed

section \<open>A whole write\<close>

lemma slot_same:
  assumes "layout_ok s" and "\<And>a. table_lba s \<le> a \<Longrightarrow> a < data_lba s \<Longrightarrow> d' a = d a" and "m < 4096"
  shows "slot_bytes d' (table_lba s) m = slot_bytes d (table_lba s) m"
proof -
  have "byte_at d' (table_lba s) (76 * m + k) = byte_at d (table_lba s) (76 * m + k)" if "k < 76" for k
  proof -
    have "76 * m + k \<le> 512 * 607 + 511" using that assms(3) by linarith
    then have "(76 * m + k) div 512 \<le> (512 * 607 + 511) div 512" by (rule div_le_mono)
    then have q: "(76 * m + k) div 512 \<le> 607" by simp
    have l: "unat (table_lba s) + 608 \<le> unat (data_lba s)" "unat (data_lba s) \<le> 163839" using assms(1) by (simp_all add: layout_ok_def)
    have "unat (table_lba s + of_nat ((76 * m + k) div 512)) = unat (table_lba s) + (76 * m + k) div 512"
      using q l by (subst unat_add_u32) simp_all
    then have "table_lba s \<le> table_lba s + of_nat ((76 * m + k) div 512)" "table_lba s + of_nat ((76 * m + k) div 512) < data_lba s"
      using q l by (simp_all add: word_le_nat_alt word_less_nat_alt)
    then show ?thesis using assms(2) by (simp add: byte_at_def)
  qed
  then show ?thesis by (simp add: slot_bytes_def)
qed

lemma stored_data:
  assumes l: "layout_ok s" and "inode_stored s s' no xs" and "data_lba s \<le> a"
  shows "disk_of s' a = disk_of s a"
proof -
  have "unat (table_lba s) + 608 \<le> unat a" using l assms(3) unfolding layout_ok_def word_le_nat_alt by linarith
  then have "608 \<le> unat (a - table_lba s)" by (subst unat_sub) (simp_all add: word_le_nat_alt)
  then show ?thesis using assms(2) by (auto simp: inode_stored_def)
qed

lemma inode_sync_ok:
  assumes l: "layout_ok s" and "length (i_sectors i) = 13"
  shows "\<exists>d. inode_sync i s = Inr (s\<lparr>disks := (disks s)(my_disk (cur_part s) := d)\<rparr>) \<and> sectors_512 d \<and>
    (\<forall>a. data_lba s \<le> a \<longrightarrow> d a = disk_of s a) \<and>
    (\<forall>m<4096. decode_inode (slot_bytes d (table_lba s) (unat (m :: u32))) =
       (if m = ucast (ucast (i_no i) :: u8) then i\<lparr>i_open_cnts := 0, write_deny := 0\<rparr> else inode_at s m))"
proof -
  have t: "table_ok s" using l by (simp add: layout_ok_def)
  obtain s' where s': "inode_sync i s = Inr s'"
    "inode_stored s s' (ucast (ucast (i_no i) :: u8)) (encode_inode (i\<lparr>i_open_cnts := 0, write_deny := 0\<rparr>))"
    using inode_sync_stores [OF t assms(2)] by blast
  then obtain d where d: "s' = s\<lparr>disks := (disks s)(my_disk (cur_part s) := d)\<rparr>" "sectors_512 d" by (auto simp: inode_stored_def)
  have "d a = disk_of s a" if "data_lba s \<le> a" for a using stored_data [OF l s'(2) that] d(1) by simp
  moreover have "decode_inode (slot_bytes d (table_lba s) (unat m)) =
       (if m = ucast (ucast (i_no i) :: u8) then i\<lparr>i_open_cnts := 0, write_deny := 0\<rparr> else inode_at s m)" if "m < 4096" for m
    using stored_inode_at [OF s'(2) that] d(1) assms(2) by (simp add: inode_at_def decode_encode)
  ultimately show ?thesis using s'(1) d by blast
qed

lemma file_blocks_alt:
  assumes l: "layout_ok s" and b: "extent_ok s i" and has: "has = Suc (unat (i_size i) div 512)"
  shows "i_sectors i \<noteq> replicate 13 0" "file_blocks s i = file_blk (disk_of s) i ` {..<has} \<union> (if has \<le> 12 then {} else {i_sectors i ! 12})"
    "i_sectors i ! 12 \<in> used s \<Longrightarrow> 12 < has \<and> i_sectors i ! 12 \<notin> file_blk (disk_of s) i ` {..<has}"
proof -
  note D = extent_okD [OF l b has]
  have at: "{..unat (i_size i) div 512} = {..<has}" unfolding has by auto
  have "file_blk (disk_of s) i 0 \<noteq> 0" using used_bounds(3) [OF l D(2) [OF D(7)]] .
  then show nz: "i_sectors i \<noteq> replicate 13 0" by (auto simp: file_blk_def)
  show "file_blocks s i = file_blk (disk_of s) i ` {..<has} \<union> (if has \<le> 12 then {} else {i_sectors i ! 12})"
    using nz unfolding file_blocks_def at by (auto simp: has)
  show "12 < has \<and> i_sectors i ! 12 \<notin> file_blk (disk_of s) i ` {..<has}" if "i_sectors i ! 12 \<in> used s"
  proof -
    have "\<not> has \<le> 12" using D(4) used_bounds(3) [OF l that] by auto
    moreover have "i_sectors i ! 12 \<notin> file_blk (disk_of s) i ` {..<has}"
      using b \<open>\<not> has \<le> 12\<close> unfolding extent_ok_def Let_def at by (auto simp: has split: if_splits)
    ultimately show ?thesis by simp
  qed
qed

text \<open>The state in which the sectors are written: blocks were taken, the contents are as before.\<close>

lemma blocks_before:
  assumes l: "layout_ok s" and b: "extent_ok s (inodes s p)" and has: "has = Suc (unat (i_size (inodes s p)) div 512)"
    and e: "extended p has will s bs s'" and sz: "Suc (unat sz div 512) = will"
  shows "file_blocks s' (inodes s' p\<lparr>i_size := sz\<rparr>) \<inter> used s \<subseteq> file_blocks s (inodes s p)"
    "\<And>j. j < unat (i_size (inodes s p)) \<Longrightarrow>
      file_byte (disk_of s') (file_blk (disk_of s') (inodes s' p)) j = contents s (inodes s p) ! j"
    "\<And>a. a \<in> used s \<Longrightarrow> a \<notin> file_blocks s (inodes s p) \<Longrightarrow> disk_of s' a = disk_of s a"
proof -
  let ?i = "inodes s p" and ?i' = "inodes s' p"
  let ?b = "file_blk (disk_of s) ?i" and ?h = "file_blk (disk_of s') ?i'"
  note D = extent_okD [OF l b has]
  note F = file_blocks_alt [OF l b has]
  have E: "\<And>k. k < has \<Longrightarrow> ?h k = ?b k" "\<And>k. k < will \<Longrightarrow> has \<le> k \<Longrightarrow> ?h k \<notin> used s"
      "\<And>a. table_lba s \<le> a \<Longrightarrow> (12 < will \<Longrightarrow> a \<noteq> i_sectors ?i' ! 12) \<Longrightarrow> disk_of s' a = disk_of s a"
      "i_sectors ?i' ! 12 = i_sectors ?i ! 12 \<or> i_sectors ?i' ! 12 \<notin> used s"
      "extent_ok s' (?i'\<lparr>i_size := sz\<rparr>)" "layout_ok s'"
    using e sz layout_setup [OF l] unfolding extended_def by auto
  have tab: "12 < has \<and> i_sectors ?i' ! 12 \<in> file_blocks s ?i - ?b ` {..<has}" if "i_sectors ?i' ! 12 \<in> used s"
    using that E(4) F(2,3) by auto
  have le: "table_lba s \<le> a" if "a \<in> used s" for a
    using used_bounds(2) [OF l that] l unfolding layout_ok_def word_le_nat_alt by linarith
  have "file_blocks s' (?i'\<lparr>i_size := sz\<rparr>) = ?h ` {..<will} \<union> (if will \<le> 12 then {} else {i_sectors ?i' ! 12})"
    using file_blocks_alt(2) [OF E(6,5), of will] sz by simp
  moreover have "?h k \<in> file_blocks s ?i" if "k < will" "?h k \<in> used s" for k
    using E(1,2) [of k] that unfolding F(2) by (cases "k < has") auto
  ultimately show "file_blocks s' (?i'\<lparr>i_size := sz\<rparr>) \<inter> used s \<subseteq> file_blocks s ?i" using tab by (auto split: if_splits)
  show "file_byte (disk_of s') ?h j = contents s ?i ! j" if j: "j < unat (i_size ?i)" for j
  proof -
    have k: "j div 512 < has" unfolding has using j by (simp add: div_le_mono less_Suc_eq_le)
    then have u: "?b (j div 512) \<in> used s" by (rule D(2))
    have im: "?b (j div 512) \<in> ?b ` {..<has}" using k by simp
    have "disk_of s' (?b (j div 512)) = disk_of s (?b (j div 512))"
      by (rule E(3) [OF le [OF u]]) (use tab u im in auto)
    then show ?thesis using j E(1) [OF k] by (simp add: file_byte_def contents_def)
  qed
  show "disk_of s' a = disk_of s a" if "a \<in> used s" "a \<notin> file_blocks s ?i" for a
    by (rule E(3) [OF le [OF that(1)]]) (use tab that in auto)
qed

text \<open>What a write leaves behind: the file at \<open>p\<close> has \<open>xs\<close> appended, other files are as they were.\<close>

definition appended :: "addr \<Rightarrow> u8 list \<Rightarrow> fs \<Rightarrow> fs \<Rightarrow> bool" where
  "appended p xs s s' \<longleftrightarrow> (let i = inodes s p; i' = inodes s' p in
     same_setup s s' \<and> layout_ok s' \<and> file_ok s' i' \<and> contents s' i' = contents s i @ xs \<and>
     (\<exists>bs. inodes s' = (inodes s)(p := i\<lparr>i_size := i_size i + of_nat (length xs), i_sectors := bs\<rparr>)) \<and>
     (\<forall>m<4096. inode_at s' m = (if m = ucast (ucast (i_no i) :: u8) then i'\<lparr>i_open_cnts := 0, write_deny := 0\<rparr> else inode_at s m)) \<and>
     used s \<subseteq> used s' \<and> file_blocks s' i' \<inter> used s \<subseteq> file_blocks s i \<and>
     (\<forall>a\<in>used s - file_blocks s i. disk_of s' a = disk_of s a))"

lemma sizes_div: "(n + m) div 512 \<le> n div 512 + (m div 512 + 1)" for n m :: nat
  by linarith

text \<open>From a file with its first block on.\<close>

lemma write_rest:
  assumes l: "layout_ok s" and b: "extent_ok s (inodes s p)" and i: "i = inodes s p" and sz: "sz = unat (i_size i)"
    and room: "sz + length xs < 71680" and card: "length xs div 512 + 2 \<le> card (spare s)"
    and ft: "f = file_table s ! fd" "fd < length (file_table s)" "p = fd_inode f"
  shows "\<exists>bs s2 s4 s'. write_blocks p (Suc (sz div 512)) (Suc ((sz + length xs) div 512)) s = Inr (Some bs, s2) \<and>
    file_table s2 ! fd = f \<and> i_size (inodes s2 p) = i_size i \<and>
    write_loop (Suc (length xs)) fd bs True xs 0 (set_file fd (f\<lparr>fd_pos := i_size i - 1\<rparr>) s2) = Inr (of_nat (length xs), s4) \<and>
    inode_sync (inodes s4 p) s4 = Inr s' \<and> appended p xs s s' \<and>
    file_table s' = (file_table s)[fd := f\<lparr>fd_pos := i_size i - 1 + of_nat (length xs)\<rparr>]"
proof -
  let ?has = "Suc (sz div 512)" and ?will = "Suc ((sz + length xs) div 512)"
  have has: "?has = Suc (unat (i_size (inodes s p)) div 512)" by (simp add: sz i)
  have le: "?has \<le> ?will" "?will \<le> 140" "Suc (?will - ?has) \<le> card (spare s)"
    using room card sizes_div [of sz "length xs"] by (simp_all add: div_le_mono less_mult_imp_div_less Suc_le_eq)
  obtain bs s2 where w: "write_blocks p ?has ?will s = Inr (Some bs, s2)" and e: "extended p ?has ?will s bs s2"
    using write_blocks_ok [OF l b has le] by blast
  let ?sz' = "i_size i + of_nat (length xs)"
  have sz': "unat ?sz' = sz + length xs" using room by (subst unat_add_u32) (simp_all add: sz)
  have e': "same_setup s s2" "file_table s2 = file_table s" "used s \<subseteq> used s2" "sectors_512 (disk_of s2)" "length bs = 140"
      "\<forall>k. ?has - 1 \<le> k \<and> k < ?will \<longrightarrow> bs ! k = file_blk (disk_of s2) (inodes s2 p) k" "extent_ok s2 (inodes s2 p\<lparr>i_size := ?sz'\<rparr>)"
      "\<forall>a. table_lba s \<le> a \<and> (12 < ?will \<longrightarrow> a \<noteq> i_sectors (inodes s2 p) ! 12) \<longrightarrow> disk_of s2 a = disk_of s a"
    using e sz' unfolding extended_def by simp_all
  obtain ys where i2: "inodes s2 = (inodes s)(p := i\<lparr>i_sectors := ys\<rparr>)" using e by (auto simp: extended_def i)
  have l2: "layout_ok s2" by (rule layout_setup [OF l e'(1,4)])
  let ?b = "file_blk (disk_of s2) (inodes s2 p)"
  have "?will = Suc (unat (i_size (inodes s2 p\<lparr>i_size := ?sz'\<rparr>)) div 512)" by (simp add: sz')
  note D2 = extent_okD [OF l2 e'(7) this, unfolded file_blk_size inode.simps]
  have inj: "inj_on ?b {..(sz + length xs) div 512}" and tab: "i_sectors (inodes s2 p) ! 12 \<notin> ?b ` {..(sz + length xs) div 512}"
    using e'(7) D2 used_bounds(3) [OF l2] by (auto simp: extent_ok_def Let_def sz' split: if_splits)
  let ?f = "f\<lparr>fd_pos := i_size i - 1\<rparr>"
  let ?s3 = "set_file fd ?f s2"
  have s3: "inodes ?s3 = inodes s2" "disks ?s3 = disks s2" "cur_part ?s3 = cur_part s2" "fs_bytes ?s3 = fs_bytes s2"
      "file_table ?s3 = (file_table s)[fd := ?f]" by (simp_all add: set_file_def e'(2))
  have l3: "layout_ok ?s3" using layout_setup [OF l2, of ?s3] e'(4) s3 by simp
  have "\<exists>d. write_loop (Suc (length xs)) fd bs True xs 0 ?s3 = Inr (0 + of_nat (length xs),
      set_file fd (?f\<lparr>fd_pos := fd_pos ?f + of_nat (length xs)\<rparr>) (set_inode p (inodes s2 p\<lparr>i_size := i_size (inodes s2 p) + of_nat (length xs)\<rparr>)
        (?s3\<lparr>disks := (disks ?s3)(my_disk (cur_part ?s3) := d)\<rparr>))) \<and> sectors_512 d \<and>
    (\<forall>a. a \<notin> ?b ` {..(sz + length xs) div 512} \<longrightarrow> d a = disk_of ?s3 a) \<and>
    (\<forall>j < sz + length xs. file_byte d ?b j = (if j < sz then file_byte (disk_of ?s3) ?b j else xs ! (j - sz)))"
  proof (rule write_loop_ok [OF l3])
    show "sz = unat (i_size (inodes s2 p))" by (simp add: sz i2)
    show "?b k \<in> used ?s3" if "k \<le> (sz + length xs) div 512" for k
      using D2(2) [of k] that used_setup(1) [of s2 ?s3] s3 by (simp add: less_Suc_eq_le)
  qed (use room e'(5,6) inj ft s3 in \<open>auto simp: less_Suc_eq_le\<close>)
  then obtain d where d: "write_loop (Suc (length xs)) fd bs True xs 0 ?s3 = Inr (of_nat (length xs),
      set_file fd (?f\<lparr>fd_pos := fd_pos ?f + of_nat (length xs)\<rparr>) (set_inode p (inodes s2 p\<lparr>i_size := i_size (inodes s2 p) + of_nat (length xs)\<rparr>)
        (?s3\<lparr>disks := (disks ?s3)(my_disk (cur_part ?s3) := d)\<rparr>)))" "sectors_512 d"
    "\<forall>a. a \<notin> ?b ` {..(sz + length xs) div 512} \<longrightarrow> d a = disk_of s2 a"
    "\<forall>j < sz + length xs. file_byte d ?b j = (if j < sz then file_byte (disk_of s2) ?b j else xs ! (j - sz))"
    unfolding s3 by auto
  define s4 where "s4 = set_file fd (?f\<lparr>fd_pos := fd_pos ?f + of_nat (length xs)\<rparr>) (set_inode p (inodes s2 p\<lparr>i_size := i_size (inodes s2 p) + of_nat (length xs)\<rparr>)
        (?s3\<lparr>disks := (disks ?s3)(my_disk (cur_part ?s3) := d)\<rparr>))"
  have s4: "cur_part s4 = cur_part s2" "disk_of s4 = d" "fs_bytes s4 = fs_bytes s2" "same_setup s2 s4"
      "inodes s4 = (inodes s2)(p := inodes s2 p\<lparr>i_size := ?sz'\<rparr>)"
      "file_table s4 = (file_table s)[fd := f\<lparr>fd_pos := i_size i - 1 + of_nat (length xs)\<rparr>]"
    by (simp_all add: s4_def set_file_def set_inode_def same_setup_def e'(2) i2)
  have l4: "layout_ok s4" by (rule layout_setup [OF l2 s4(4)]) (simp only: s4(2) d(2))
  have part: "cur_part s2 = cur_part s" by (rule same_setup_part [OF e'(1)])
  have i4: "inodes s4 p = i\<lparr>i_sectors := ys, i_size := ?sz'\<rparr>" by (simp add: s4(5) i2)
  have len: "length (i_sectors (inodes s4 p)) = 13" using D2(1) by (simp add: i4 i2)
  obtain d' where d': "inode_sync (inodes s4 p) s4 = Inr (s4\<lparr>disks := (disks s4)(my_disk (cur_part s4) := d')\<rparr>)" "sectors_512 d'"
    "\<forall>a. data_lba s4 \<le> a \<longrightarrow> d' a = disk_of s4 a"
    "\<forall>m<4096. decode_inode (slot_bytes d' (table_lba s4) (unat (m :: u32))) =
       (if m = ucast (ucast (i_no (inodes s4 p)) :: u8) then inodes s4 p\<lparr>i_open_cnts := 0, write_deny := 0\<rparr> else inode_at s4 m)"
    using inode_sync_ok [OF l4 len] by blast
  let ?s' = "s4\<lparr>disks := (disks s4)(my_disk (cur_part s4) := d')\<rparr>"
  have "appended p xs s ?s'"
  proof -
    let ?i' = "inodes s2 p\<lparr>i_size := ?sz'\<rparr>" and ?n = "(sz + length xs) div 512"
    have i': "inodes ?s' p = ?i'" by (simp add: s4(5))
    have c': "cur_part ?s' = cur_part s" by (simp add: s4(1) part)
    have us: "used ?s' = used s2" using used_setup(1) [of s2 ?s'] s4(3,4) by simp
    have ge: "data_lba s \<le> a" if "a \<in> used s2" for a using used_bounds(2) [OF l2 that] by (simp add: part)
    have dd: "d' a = d a" if "data_lba s \<le> a" for a using d'(3) that unfolding s4(2) by (simp add: s4(1) part)
    have bu: "?b k \<in> used s2" if "k \<le> ?n" for k using D2(2) [of k] that by simp
    have bk: "file_blk d' ?i' k = ?b k" if "k \<le> ?n" for k
    proof (cases "k < 12")
      case False
      then have t: "i_sectors (inodes s2 p) ! 12 \<in> used s2" using D2(5) that by simp
      then have "d' (i_sectors (inodes s2 p) ! 12) = disk_of s2 (i_sectors (inodes s2 p) ! 12)"
        using dd [OF ge [OF t]] d(3) tab by simp
      then show ?thesis by (simp add: file_blk_def)
    qed (simp add: file_blk_def)
    have cg: "extent_ok ?s' ?i'" "file_blocks ?s' ?i' = file_blocks s2 ?i'"
      using blocks_cong [OF e'(7), of ?s'] bk us by (simp_all add: sz')
    note B = blocks_before [OF l b has e, of ?sz', unfolded sz', OF refl]
    have "contents ?s' ?i' = contents s i @ xs"
    proof (rule nth_equalityI)
      show "length (contents ?s' ?i') = length (contents s i @ xs)" by (simp add: sz' sz)
      fix j assume "j < length (contents ?s' ?i')"
      then have j: "j < sz + length xs" by (simp add: sz')
      then have k: "j div 512 \<le> ?n" by (simp add: div_le_mono)
      have "contents ?s' ?i' ! j = file_byte d' (file_blk d' ?i') j" using j by (simp add: contents_def sz')
      also have "\<dots> = file_byte d ?b j" using bk [OF k] dd [OF ge [OF bu [OF k]]] by (simp add: file_byte_def)
      also have "\<dots> = (contents s i @ xs) ! j" using d(4) j B(2) [of j] by (simp add: nth_append sz i)
      finally show "contents ?s' ?i' ! j = (contents s i @ xs) ! j" .
    qed
    moreover have "inode_at ?s' m = (if m = ucast (ucast (i_no i) :: u8) then ?i'\<lparr>i_open_cnts := 0, write_deny := 0\<rparr> else inode_at s m)"
      if m: "m < 4096" for m
    proof -
      have "d a = disk_of s a" if a: "table_lba s \<le> a" "a < data_lba s" for a
      proof -
        have no: "a \<notin> used s2" using ge a(2) leD by blast
        then have "a \<notin> ?b ` {..?n}" using bu by auto
        moreover have "12 < ?will \<Longrightarrow> a \<noteq> i_sectors (inodes s2 p) ! 12" using D2(5) no by auto
        ultimately show ?thesis using d(3) e'(8) a(1) by simp
      qed
      moreover have "unat m < 4096" using m by (simp add: word_less_nat_alt)
      ultimately have "slot_bytes d (table_lba s) (unat m) = slot_bytes (disk_of s) (table_lba s) (unat m)"
        by (intro slot_same [OF l])
      then have "inode_at s4 m = inode_at s m" unfolding inode_at_def s4(2) by (simp add: s4(1) part)
      then show ?thesis using d'(4) m by (simp add: inode_at_def s4(1) part i4 i2)
    qed
    moreover have "disk_of ?s' a = disk_of s a" if a: "a \<in> used s" "a \<notin> file_blocks s i" for a
    proof -
      have "file_blk (disk_of s2) ?i' k \<in> file_blocks s2 ?i'" if "k \<le> ?n" for k
        using that file_blocks_alt(2) [OF l2 e'(7), of ?will] by (auto simp: sz')
      then have "a \<notin> ?b ` {..?n}" using B(1) a by (auto simp: i)
      moreover have "data_lba s \<le> a" using ge e'(3) a(1) by blast
      ultimately show ?thesis using dd d(3) B(3) a by (simp add: i)
    qed
    moreover have "layout_ok ?s'" using layout_setup [OF l4, of ?s'] d'(2) by simp
    moreover have "same_setup s ?s'" using same_setup_trans [OF e'(1) s4(4)] by simp
    moreover have "\<exists>bs. inodes ?s' = (inodes s)(p := i\<lparr>i_size := ?sz', i_sectors := bs\<rparr>)"
      by (rule exI [of _ ys], cases i) (simp add: s4(5) i2)
    moreover have "file_ok ?s' ?i'" using cg(1) file_blocks_alt(1) [OF l2 e'(7) refl] by (simp add: file_ok_def)
    moreover have "file_blocks ?s' ?i' \<inter> used s \<subseteq> file_blocks s i" using cg(2) B(1) by (simp add: i)
    ultimately show ?thesis unfolding appended_def Let_def i' i [symmetric]
      using us e'(3) by (intro conjI) auto
  qed
  then show ?thesis using w e'(2) ft i2 d(1) s4_def d'(1) s4(6) by auto
qed

lemma begun_appended:
  assumes l: "layout_ok s" and st: "begun p s s1" and a: "appended p xs s1 s'"
  shows "appended p xs s s'"
proof -
  have st': "same_setup s s1" "used s \<subseteq> used s1" "\<exists>ys. inodes s1 = (inodes s)(p := inodes s p\<lparr>i_sectors := ys\<rparr>)"
      "contents s1 (inodes s1 p) = contents s (inodes s p)" "\<forall>a. table_lba s \<le> a \<longrightarrow> disk_of s1 a = disk_of s a"
      "file_blocks s1 (inodes s1 p) \<inter> used s = file_blocks s (inodes s p)"
    using st by (simp_all add: begun_def)
  obtain ys where i1: "inodes s1 = (inodes s)(p := inodes s p\<lparr>i_sectors := ys\<rparr>)" using st'(3) by blast
  have a': "same_setup s1 s'" "layout_ok s'" "file_ok s' (inodes s' p)"
      "contents s' (inodes s' p) = contents s1 (inodes s1 p) @ xs"
      "\<exists>bs. inodes s' = (inodes s1)(p := inodes s1 p\<lparr>i_size := i_size (inodes s1 p) + of_nat (length xs), i_sectors := bs\<rparr>)"
      "\<forall>m<4096. inode_at s' m = (if m = ucast (ucast (i_no (inodes s1 p)) :: u8) then inodes s' p\<lparr>i_open_cnts := 0, write_deny := 0\<rparr>
        else inode_at s1 m)"
      "used s1 \<subseteq> used s'" "file_blocks s' (inodes s' p) \<inter> used s1 \<subseteq> file_blocks s1 (inodes s1 p)"
      "\<forall>a\<in>used s1 - file_blocks s1 (inodes s1 p). disk_of s' a = disk_of s1 a"
    using a by (simp_all add: appended_def Let_def)
  have at: "inode_at s1 m = inode_at s m" if "m < 4096" for m
  proof -
    have "unat m < 4096" using that by (simp add: word_less_nat_alt)
    then have "slot_bytes (disk_of s1) (table_lba s) (unat m) = slot_bytes (disk_of s) (table_lba s) (unat m)"
      using st'(5) by (intro slot_same [OF l]) simp
    then show ?thesis using same_setup_part [OF st'(1)] by (simp add: inode_at_def)
  qed
  have ge: "table_lba s \<le> a" if "a \<in> used s" for a
    using used_bounds(2) [OF l that] l unfolding layout_ok_def word_le_nat_alt by linarith
  have "\<exists>bs. inodes s' = (inodes s)(p := inodes s p\<lparr>i_size := i_size (inodes s p) + of_nat (length xs), i_sectors := bs\<rparr>)"
    using a'(5) by (auto simp: i1)
  moreover have "disk_of s' a = disk_of s a" if "a \<in> used s - file_blocks s (inodes s p)" for a
  proof -
    have "a \<in> used s1 - file_blocks s1 (inodes s1 p)" using that st'(2,6) by blast
    then show ?thesis using a'(9) st'(5) ge that by simp
  qed
  moreover have "\<forall>m<4096. inode_at s' m = (if m = ucast (ucast (i_no (inodes s p)) :: u8) then inodes s' p\<lparr>i_open_cnts := 0, write_deny := 0\<rparr>
        else inode_at s m)"
    using a'(6) at by (simp add: i1)
  moreover have "same_setup s s'" by (rule same_setup_trans [OF st'(1) a'(1)])
  moreover have "used s \<subseteq> used s'" "file_blocks s' (inodes s' p) \<inter> used s \<subseteq> file_blocks s (inodes s p)"
    using st'(2,6) a'(7,8) by blast+
  ultimately show ?thesis unfolding appended_def Let_def using a'(2,3,4) st'(4) by (intro conjI) auto
qed

lemma file_write_ok:
  assumes l: "layout_ok s" and ft: "f = file_table s ! fd" "fd < length (file_table s)" "p = fd_inode f"
    and ok: "file_ok s (inodes s p)" and "0 \<notin> spare s" and card: "length xs div 512 + 3 \<le> card (spare s)"
    and room: "unat (i_size (inodes s p)) + length xs < 71680" and "mallocs s = a # b # ms" and "a \<noteq> NULL" and "b \<noteq> NULL"
  shows "\<exists>s'. file_write fd xs s = Inr (of_nat (length xs), s') \<and> appended p xs (s\<lparr>mallocs := ms\<rparr>) s' \<and>
    file_table s' = (file_table s)[fd := f\<lparr>fd_pos := i_size (inodes s p) - 1 + of_nat (length xs)\<rparr>]"
proof -
  let ?s0 = "s\<lparr>mallocs := ms\<rparr>" and ?i = "inodes s p"
  let ?sz = "unat (i_size ?i)"
  have sp: "spare ?s0 = spare s" by (simp add: spare_def)
  have l0: "layout_ok ?s0" using l by (simp add: layout_ok_def table_ok_def)
  have us0: "used ?s0 = used s" by (simp add: used_alt sp blkno_def [abs_def])
  have ok0: "file_ok ?s0 (inodes ?s0 p)" using file_same(1) [OF ok, of ?s0] us0 by simp
  have "spare ?s0 \<noteq> {}" using card sp by auto
  then obtain s1 where s1: "first_block p ?s0 = Inr (True, s1)" and st: "begun p ?s0 s1"
    using first_block_ok [OF l0 ok0] assms(6) sp by auto
  have st': "layout_ok s1" "extent_ok s1 (inodes s1 p)" "card (spare s) \<le> Suc (card (spare s1))" "file_table s1 = file_table s"
    using st sp by (simp_all add: begun_def)
  have sz1: "i_size (inodes s1 p) = i_size ?i" using st by (auto simp: begun_def)
  have "length xs div 512 + 2 \<le> card (spare s1)" using card st'(3) by linarith
  from write_rest [OF st'(1,2) refl refl, of xs f fd, unfolded sz1 st'(4), OF room this ft]
  obtain bs s2 s4 s' where w: "write_blocks p (Suc (?sz div 512)) (Suc ((?sz + length xs) div 512)) s1 = Inr (Some bs, s2)"
      "file_table s2 ! fd = f" "i_size (inodes s2 p) = i_size ?i"
      "write_loop (Suc (length xs)) fd bs True xs 0 (set_file fd (f\<lparr>fd_pos := i_size ?i - 1\<rparr>) s2) = Inr (of_nat (length xs), s4)"
      "inode_sync (inodes s4 p) s4 = Inr s'" "appended p xs s1 s'"
      "file_table s' = (file_table s)[fd := f\<lparr>fd_pos := i_size ?i - 1 + of_nat (length xs)\<rparr>]" by blast
  have sum: "unat (i_size ?i + of_nat (length xs)) = ?sz + length xs" using room by (subst unat_add_u32) simp_all
  have small: "\<not> i_size ?i + of_nat (length xs) > 512 * 140" using room by (simp add: word_less_nat_alt sum)
  have has: "unat (i_size ?i div 512 + 1) = Suc (?sz div 512)"
    using room by (subst unat_add_u32) (simp_all add: less_mult_imp_div_less)
  have d140: "(?sz + length xs) div 512 < 140" using room by (simp add: less_mult_imp_div_less)
  then have will: "unat ((i_size ?i + of_nat (length xs)) div 512 + 1) = Suc ((?sz + length xs) div 512)"
    by (subst unat_add_u32) (simp_all add: sum)
  then have le: "(i_size ?i + of_nat (length xs)) div 512 + 1 \<le> 140" using d140 by (simp only: word_le_nat_alt) simp
  have "file_write fd xs s = Inr (of_nat (length xs), s')"
    unfolding file_write_def Let_def ft(1) [symmetric] ft(3) [symmetric]
    using small assms(9-11) s1 w(1-5) sz1 has will le by (simp add: heap_alloc_def del: write_loop.simps)
  moreover have "appended p xs ?s0 s'" by (rule begun_appended [OF l0 st w(6)])
  ultimately show ?thesis using w(7) by blast
qed

section \<open>A state with an empty file\<close>

definition file_fs :: fs where
  "file_fs = blank_fs\<lparr>fs_bytes := (\<lambda>_. 0)(0xc0200000 := 1), inodes := \<lambda>_. inode_init 7,
     file_table := (replicate 32 \<lparr>fd_pos = 0, fd_flag = 0, fd_inode = 0\<rparr>)[3 := \<lparr>fd_pos = 0, fd_flag = 2, fd_inode = 0xc0500000\<rparr>]\<rparr>"

lemma file_fs_layout: "layout_ok file_fs"
  using blank_table_ok
  by (simp add: layout_ok_def table_ok_def file_fs_def blank_fs_def blank_part_def bitmap_ok_def nbits_def)

lemma file_fs_file: "file_ok file_fs (inodes file_fs p)"
  by (simp add: file_ok_def file_fs_def inode_init_def)

lemma file_fs_taken: "j < 4096 \<Longrightarrow> taken (fs_bytes file_fs) (bb file_fs) j \<longleftrightarrow> j = 0"
proof -
  assume j: "j < 4096"
  have "(of_nat (j div 8) :: u32) = 0 \<longleftrightarrow> j div 8 = 0"
    using of_nat_u32_inj [of "j div 8" 0] j by simp
  then show ?thesis using j by (auto simp: taken_def file_fs_def blank_fs_def blank_part_def bit_1_iff div_eq_0_iff)
qed

lemma file_fs_spare: "spare file_fs = {1..<4096}"
proof -
  have "nbits (bb file_fs) = 4096" by (simp add: nbits_def file_fs_def blank_fs_def blank_part_def)
  then show ?thesis using file_fs_taken by (auto simp: spare_def Suc_le_eq)
qed

lemmas file_fs_fields = file_fs_def blank_fs_def blank_part_def inode_init_def

text \<open>A write and a read of the same piece.\<close>

lemma file_write_read_ok:
  assumes "layout_ok s" and "fd < length (file_table s)" and "p = fd_inode (file_table s ! fd)" and "file_ok s (inodes s p)"
    and "0 \<notin> spare s" and "length xs div 512 + 3 \<le> card (spare s)" and "unat (i_size (inodes s p)) + length xs < 71168"
    and "xs \<noteq> []" and "mallocs s = a # b # c # d # ms" and "0 \<notin> {a, b, c, d}"
  shows "\<exists>s1 s2. file_write fd xs s = Inr (of_nat (length xs), s1) \<and>
    file_read fd (of_nat (length xs)) (set_file fd ((file_table s1 ! fd)\<lparr>fd_pos := i_size (inodes s p)\<rparr>) s1) =
      Inr (of_nat (length xs), xs, s2)"
proof -
  let ?f = "file_table s ! fd" and ?sz = "i_size (inodes s p)"
  have "unat ?sz + length xs < 71680" using assms(7) by simp
  from file_write_ok [OF assms(1) refl assms(2,3,4,5,6) this assms(9)] assms(10)
  obtain s1 where s1: "file_write fd xs s = Inr (of_nat (length xs), s1)" "appended p xs (s\<lparr>mallocs := c # d # ms\<rparr>) s1"
      "file_table s1 = (file_table s)[fd := ?f\<lparr>fd_pos := ?sz - 1 + of_nat (length xs)\<rparr>]" by auto
  note a = s1(2) [unfolded appended_def Let_def, simplified]
  define g where "g = (file_table s1 ! fd)\<lparr>fd_pos := ?sz\<rparr>"
  let ?t = "set_file fd g s1"
  have g: "fd_pos g = ?sz" "fd_inode g = p" "file_table ?t ! fd = g" "inodes ?t = inodes s1"
    using assms(2,3) by (simp_all add: g_def s1(3) set_file_def)
  have sz1: "unat (i_size (inodes s1 p)) = unat ?sz + length xs"
    using a assms(7) by (auto simp: unat_add_u32)
  have t: "same_setup s1 ?t" "fs_bytes ?t = fs_bytes s1" "disks ?t = disks s1" by (simp_all add: set_file_def same_setup_def)
  have l: "layout_ok ?t" using layout_setup [of s1 ?t] a layout_512 [of s1] t same_setup_part [OF t(1)] by simp
  have ok: "file_ok ?t (inodes s1 p)" "contents ?t (inodes s1 p) = contents s1 (inodes s1 p)"
    using file_same(1,2) [of s1 "inodes s1 p" ?t] a used_setup(1) [OF t(1,2)] t(3) same_setup_part [OF t(1)] by simp_all
  have m: "mallocs ?t = c # d # ms" using a by (simp add: same_setup_def set_file_def)
  have len: "unat (of_nat (length xs) :: u32) = length xs" using assms(7) by simp
  have "?sz < i_size (inodes s1 p)" using sz1 assms(8) by (simp add: word_less_nat_alt)
  then have "extent_ok ?t (inodes s1 p)" using ok(1) by (auto simp: file_ok_def word_less_nat_alt split: if_splits)
  note rd = file_read_ok [OF l this g(3) [symmetric], of "of_nat (length xs)" "length xs" c d ms]
  have cd: "c \<noteq> 0" "d \<noteq> 0" using assms(10) by simp_all
  have p: "unat (fd_pos g) + unat (of_nat (length xs) :: u32) < 4294967296" "unat (fd_pos g) + length xs < 71168"
      "length xs = min (unat (of_nat (length xs) :: u32)) (unat (i_size (inodes s1 p)) - unat (fd_pos g))"
    using assms(7) by (simp_all add: g(1) len sz1)
  have lt: "fd_pos g < i_size (inodes s1 p)" "inodes s1 p = inodes ?t (fd_inode g)"
    using \<open>?sz < i_size (inodes s1 p)\<close> by (simp_all add: g)
  have "contents s1 (inodes s1 p) = contents s (inodes s p) @ xs" using a by blast
  then have "take (length xs) (drop (unat (fd_pos g)) (contents ?t (inodes s1 p))) = xs" by (simp add: ok(2) g(1))
  then have "\<exists>s2. file_read fd (of_nat (length xs)) ?t = Inr (of_nat (length xs), xs, s2)"
    using rd [OF lt(2) p(1) lt(1) p(3) p(2) m cd] by simp
  then show ?thesis using s1(1) unfolding g_def by blast
qed

section \<open>Properties\<close>


lemma file_fs_hyps:
  "3 < length (file_table file_fs)" "fd_inode (file_table file_fs ! 3) = 0xc0500000" "0 \<notin> spare file_fs" "3 \<le> card (spare file_fs)"
  "unat (i_size (inodes file_fs p)) = 0" "i_no (inodes file_fs p) = 7"
  "mallocs file_fs = [0xc0400000, 0xc0400100, 0xc0400200, 0xc0400300]" "contents file_fs (inodes file_fs p) = []"
  by (simp_all add: file_fs_spare contents_def) (simp_all add: file_fs_fields)


text \<open>C4 \<open>file_read\<close> delivers the bytes of the contents from the position of the descriptor on, as many as
  were asked for or as there are, and moves the position behind them; nothing else changes.\<close>

theorem file_read_delivers:
  assumes "layout_ok s" and "file_ok s i" and "f = file_table s ! fd" and "i = inodes s (fd_inode f)"
    and "unat (fd_pos f) + unat cnt < 4294967296" and "fd_pos f < i_size i"
    and "sz = min (unat cnt) (unat (i_size i) - unat (fd_pos f))" and "unat (fd_pos f) + sz < 71168"
    and "mallocs s = a # b # ms" and "a \<noteq> NULL" and "b \<noteq> NULL"
  shows "file_read fd cnt s = Inr (of_nat sz, take sz (drop (unat (fd_pos f)) (contents s i)),
    set_file fd (f\<lparr>fd_pos := fd_pos f + of_nat sz\<rparr>) (s\<lparr>mallocs := ms\<rparr>))"
proof -
  have "i_size i \<noteq> 0" using assms(6) by (auto simp: word_less_nat_alt)
  then have "extent_ok s i" using assms(2) by (auto simp: file_ok_def split: if_splits)
  from file_read_ok [OF assms(1) this assms(3-11)] show ?thesis .
qed

text \<open>What was written is read back: after a write, with the position set to where the file ended before, a
  read of as many bytes delivers what was written.\<close>

theorem file_write_read_roundtrip:
  assumes "layout_ok s" and "fd < length (file_table s)" and "p = fd_inode (file_table s ! fd)" and "file_ok s (inodes s p)"
    and "0 \<notin> spare s" and "length xs div 512 + 3 \<le> card (spare s)" and "unat (i_size (inodes s p)) + length xs < 71168"
    and "xs \<noteq> []" and "mallocs s = a # b # c # d # ms" and "0 \<notin> {a, b, c, d}"
  shows "\<exists>s1 s2. file_write fd xs s = Inr (of_nat (length xs), s1) \<and>
    file_read fd (of_nat (length xs)) (set_file fd ((file_table s1 ! fd)\<lparr>fd_pos := i_size (inodes s p)\<rparr>) s1) =
      Inr (of_nat (length xs), xs, s2)"
  using assms by (rule file_write_read_ok)

theorem file_write_read_roundtrip_witness:
  "\<exists>s1 s2. file_write 3 [104, 105] file_fs = Inr (2, s1) \<and>
    file_read 3 2 (set_file 3 ((file_table s1 ! 3)\<lparr>fd_pos := 0\<rparr>) s1) = Inr (2, [104, 105], s2)"
proof -
  have "i_size (inodes file_fs 0xc0500000) = 0" by (simp add: file_fs_fields)
  then show ?thesis
    using file_write_read_roundtrip [OF file_fs_layout file_fs_hyps(1) file_fs_hyps(2) [symmetric] file_fs_file file_fs_hyps(3), of "[104, 105]"
      "0xc0400000" "0xc0400100" "0xc0400200" "0xc0400300" "[]"] file_fs_hyps(4-) by simp
qed

theorem file_read_delivers_witness:
  "\<exists>s1 s2. file_write 3 [104, 105] file_fs = Inr (2, s1) \<and> file_read 3 5 s1 = Inr (1, [105], s2)"
proof -
  have z: "i_size (inodes file_fs 0xc0500000) = 0" "length (file_table file_fs) = 32" by (simp_all add: file_fs_fields)
  obtain s1 where s1: "file_write 3 [104, 105] file_fs = Inr (2, s1)"
      "appended 0xc0500000 [104, 105] (file_fs\<lparr>mallocs := [0xc0400200, 0xc0400300]\<rparr>) s1"
      "file_table s1 = (file_table file_fs)[3 := (file_table file_fs ! 3)\<lparr>fd_pos := 1\<rparr>]"
    using file_write_ok [OF file_fs_layout refl file_fs_hyps(1) file_fs_hyps(2) [symmetric] file_fs_file file_fs_hyps(3), of "[104, 105]"
      "0xc0400000" "0xc0400100" "[0xc0400200, 0xc0400300]"] file_fs_hyps(4-) z by auto
  note a = s1(2) [unfolded appended_def Let_def, simplified]
  have f: "fd_pos (file_table s1 ! 3) = 1" "fd_inode (file_table s1 ! 3) = 0xc0500000"
    using z file_fs_hyps(2) by (simp_all add: s1(3))
  have sz: "i_size (inodes s1 0xc0500000) = 2" using a z by auto
  have c: "contents s1 (inodes s1 0xc0500000) = [104, 105]" "mallocs s1 = [0xc0400200, 0xc0400300]"
    using a file_fs_hyps(8) by (simp_all add: same_setup_def)
  have ok: "layout_ok s1" "file_ok s1 (inodes s1 0xc0500000)" using a by blast+
  have i: "inodes s1 0xc0500000 = inodes s1 (fd_inode (file_table s1 ! 3))" by (simp add: f(2))
  have "file_read 3 5 s1 = Inr (of_nat 1, take 1 (drop 1 [104, 105]),
      set_file 3 ((file_table s1 ! 3)\<lparr>fd_pos := 1 + of_nat 1\<rparr>) (s1\<lparr>mallocs := []\<rparr>))"
    using file_read_delivers [OF ok refl i _ _ _ _ c(2), of 5 1] unfolding f(1) sz c(1) by simp
  then show ?thesis using s1(1) by auto
qed

text \<open>C14 The limit of a file: a write that would bring it over 71680 bytes is refused, but one that fills it to
  exactly 71680 bytes, which the test admits, fails an assertion.\<close>

theorem file_write_limit:
  assumes "layout_ok s" and "file_ok s (inodes s p)" and "p = fd_inode (file_table s ! fd)" and "0 \<notin> spare s" and "spare s \<noteq> {}"
    and "mallocs s = a # b # ms" and "a \<noteq> NULL" and "b \<noteq> NULL" and "71680 \<le> unat (i_size (inodes s p)) + length xs"
    and "unat (i_size (inodes s p)) + length xs < 4294967296"
  shows "file_write fd xs s = (if unat (i_size (inodes s p)) + length xs = 71680 then Inl Panic else Inr (-1, s))"
proof -
  let ?s0 = "s\<lparr>mallocs := ms\<rparr>" and ?i = "inodes s p"
  have sum: "unat (i_size ?i + of_nat (length xs)) = unat (i_size ?i) + length xs" using assms(10) by (subst unat_add_u32) simp_all
  show ?thesis
  proof (cases "unat (i_size ?i) + length xs = 71680")
    case False
    then have "i_size ?i + of_nat (length xs) > 512 * 140" using assms(9) by (simp add: word_less_nat_alt sum)
    then show ?thesis using False by (simp add: file_write_def Let_def assms(3) [symmetric])
  next
    case True
    then have e: "i_size ?i + of_nat (length xs) = 71680" by (simp add: word_unat_eq_iff sum)
    have "file_ok ?s0 (inodes ?s0 p)" using file_same(1) [OF assms(2), of ?s0] by simp
    then obtain s1 where s1: "first_block p ?s0 = Inr (True, s1)" and st: "begun p ?s0 s1"
      using first_block_ok [of ?s0 p] assms(1,4,5) by auto
    have "i_size (inodes s1 p) = i_size ?i" using st by (auto simp: begun_def)
    then show ?thesis using True e s1 assms(6-8) unfolding file_write_def Let_def assms(3) [symmetric]
      by (simp add: heap_alloc_def)
  qed
qed

theorem file_write_limit_witness: "file_write 3 (replicate 71680 0) file_fs = Inl Panic \<and> file_write 3 (replicate 71681 0) file_fs = Inr (-1, file_fs)"
proof -
  have ne: "spare file_fs \<noteq> {}" by (simp add: file_fs_spare)
  note lim = file_write_limit [OF file_fs_layout file_fs_file file_fs_hyps(2) [symmetric] file_fs_hyps(3) ne file_fs_hyps(7)]
  show ?thesis using lim [of "replicate 71680 0"] lim [of "replicate 71681 0"] file_fs_hyps(5) by simp
qed

end
