(* ===== verification/Entries.thy ===== *)
theory Entries
  imports Content "HOL-Library.Multiset"
begin

text \<open>
  A directory as a collection of entries: \<open>search_dir_entry\<close> against a search of the list of all entries,
  and \<open>sync_dir_entry\<close> against the multiset of the entries that are in use.
\<close>

section \<open>The entries of a directory\<close>

definition dir_blocks :: "fs \<Rightarrow> inode \<Rightarrow> u32 list" where
  "dir_blocks s i = filter (\<lambda>b. b \<noteq> 0) (take 12 (i_sectors i) @
     (if i_sectors i ! 12 = 0 then [] else words_of (disk_of s (i_sectors i ! 12))))"

definition block_entries :: "u8 list \<Rightarrow> dir_entry list" where
  "block_entries buf = map (entry_at buf) [0..<21]"

definition dir_entries :: "fs \<Rightarrow> inode \<Rightarrow> dir_entry list" where
  "dir_entries s i = concat (map (\<lambda>b. block_entries (disk_of s b)) (dir_blocks s i))"

definition entry_name :: "dir_entry \<Rightarrow> u8 list" where
  "entry_name e = takeWhile (\<lambda>c. c \<noteq> 0) (filename e)"

definition live :: "dir_entry \<Rightarrow> bool" where
  "live e \<longleftrightarrow> f_type e \<noteq> FT_UNKNOWN"

text \<open>The entries in use.\<close>

definition entries :: "fs \<Rightarrow> inode \<Rightarrow> dir_entry multiset" where
  "entries s i = mset (filter live (dir_entries s i))"

section \<open>Searching\<close>

lemma takeWhile_name:
  assumes "length name < n" and "0 \<notin> set name" and "n \<le> length xs"
  shows "takeWhile (\<lambda>c. c \<noteq> (0 :: u8)) (take n xs) = name \<longleftrightarrow> take (Suc (length name)) xs = name @ [0]"
  using assms
proof (induction name arbitrary: n xs)
  case Nil
  then show ?case by (cases xs; cases n) auto
next
  case (Cons c name)
  then obtain x ys m where xs: "xs = x # ys" "n = Suc m" by (cases xs; cases n) auto
  with Cons show ?case by auto
qed

lemma entry_named_eq:
  assumes "length name < 16" and "0 \<notin> set name" and "24 * k + 24 \<le> length buf"
  shows "entry_named buf k name \<longleftrightarrow> entry_name (entry_at buf k) = name"
proof -
  have "filename (entry_at buf k) = take 16 (drop (24 * k) buf)"
    by (simp add: entry_at_def entry_bytes_def Let_def min_absorb1)
  then show ?thesis using takeWhile_name [OF assms(1,2), of "drop (24 * k) buf"] assms(3)
    by (simp add: entry_named_def entry_name_def)
qed

lemma find_append: "find P (xs @ ys) = (case find P xs of None \<Rightarrow> find P ys | Some x \<Rightarrow> Some x)"
  by (induction xs) simp_all

lemma find_entry_ok:
  assumes "length name < 16" and "0 \<notin> set name" and "24 * (k + n) \<le> length buf"
  shows "\<exists>r. find_entry buf name n k = Inr r \<and>
    map_option (entry_at buf) r = find (\<lambda>e. entry_name e = name) (map (entry_at buf) [k..<k + n])"
  using assms(3)
proof (induction n arbitrary: k)
  case (Suc n)
  have e: "entry_named buf k name \<longleftrightarrow> entry_name (entry_at buf k) = name"
    using Suc.prems by (intro entry_named_eq assms(1,2)) simp
  have u: "[k..<k + Suc n] = k # [Suc k..<Suc k + n]" by (simp add: upt_conv_Cons)
  have len: "\<not> length buf < 24 * k + 24" using Suc.prems by simp
  have "24 * (Suc k + n) \<le> length buf" using Suc.prems by simp
  from Suc.IH [OF this] e len show ?case unfolding u by auto
qed simp

lemma search_blocks_ok:
  assumes "sectors_512 (disk_of s)" and "length name < 16" and "0 \<notin> set name" and "buf \<noteq> NULL"
    and "\<forall>b\<in>set bs. b \<noteq> 0 \<longrightarrow> b \<le> max_lba"
  shows "search_blocks bs name 21 buf s =
    Inr (find (\<lambda>e. entry_name e = name) (concat (map (\<lambda>b. block_entries (disk_of s b)) (filter (\<lambda>b. b \<noteq> 0) bs))))"
  using assms(5)
proof (induction bs)
  case Nil
  then show ?case using assms(4) by (simp add: heap_free_def)
next
  case (Cons b bs)
  show ?case
  proof (cases "b = 0")
    case False
    have rd: "read_disk b 1 s = Inr (disk_of s b)" using Cons.prems False by (intro read_block assms(1)) simp
    have "length (disk_of s b) = 512" using assms(1) by (simp add: sectors_512_def)
    then obtain r where r: "find_entry (disk_of s b) name 21 0 = Inr r"
        "map_option (entry_at (disk_of s b)) r = find (\<lambda>e. entry_name e = name) (block_entries (disk_of s b))"
      using find_entry_ok [OF assms(2,3), of 0 21 "disk_of s b"] by (auto simp: block_entries_def)
    then show ?thesis using Cons rd False assms(4) by (cases r) (auto simp: find_append simp flip: r(2))
  qed (use Cons in simp)
qed

text \<open>The numbers of the blocks are sectors of the disk.\<close>

definition dir_readable :: "fs \<Rightarrow> inode \<Rightarrow> bool" where
  "dir_readable s i \<longleftrightarrow> sectors_512 (disk_of s) \<and> dir_entry_size (sb (cur_part s)) = 24 \<and>
     i_sectors i ! 12 \<le> max_lba \<and> (\<forall>b\<in>set (dir_blocks s i). b \<le> max_lba)"

lemma search_dir_entry_ok:
  assumes "dir_readable s (inodes s (dir_inode (dirs s pdir)))" and "length name < 16" and "0 \<notin> set name"
    and "mallocs s = a # b # ms" and "a \<noteq> NULL" and "b \<noteq> NULL"
  shows "search_dir_entry pdir name s =
    Inr (find (\<lambda>e. entry_name e = name) (dir_entries s (inodes s (dir_inode (dirs s pdir)))), s\<lparr>mallocs := ms\<rparr>)"
proof -
  let ?i = "inodes s (dir_inode (dirs s pdir))"
  let ?bs = "take 12 (i_sectors ?i) @ (if i_sectors ?i ! 12 = 0 then replicate 128 0 else words_of (disk_of s (i_sectors ?i ! 12)))"
  have r: "sectors_512 (disk_of s)" "dir_entry_size (sb (cur_part s)) = 24" "i_sectors ?i ! 12 \<le> max_lba"
      "\<forall>b\<in>set (dir_blocks s ?i). b \<le> max_lba" using assms(1) by (simp_all add: dir_readable_def)
  have ab: "all_blocks ?i (s\<lparr>mallocs := b # ms\<rparr>) = Inr ?bs"
    using read_block [of "s\<lparr>mallocs := b # ms\<rparr>"] r(1,3) by (simp add: all_blocks_def)
  have bs: "filter (\<lambda>b. b \<noteq> 0) ?bs = dir_blocks s ?i" by (simp add: dir_blocks_def)
  have "\<forall>b\<in>set ?bs. b \<noteq> 0 \<longrightarrow> b \<le> max_lba" using r(4) unfolding bs [symmetric] by auto
  from search_blocks_ok [of "s\<lparr>mallocs := ms\<rparr>", OF _ assms(2,3,6) this]
  have "search_blocks ?bs name 21 b (s\<lparr>mallocs := ms\<rparr>) = Inr (find (\<lambda>e. entry_name e = name) (dir_entries s ?i))"
    unfolding bs dir_entries_def using r(1) by simp
  then show ?thesis using assms(4,5) ab r(2)
    by (simp add: search_dir_entry_def heap_alloc_def entries_per_sec_def)
qed

section \<open>Entries as bytes\<close>

lemma length_encode_entry: "length (filename e) = 16 \<Longrightarrow> length (encode_entry e) = 24"
  by (simp add: encode_entry_def)

lemma drop_splice:
  assumes "length buf = 512" and "length xs = 24" and "j < 21" and "k < 21"
  shows "take 24 (drop (24 * j) (splice buf (24 * k) xs)) = (if j = k then xs else take 24 (drop (24 * j) buf))"
proof (rule nth_equalityI)
  have k: "24 * k + 24 \<le> 512" "24 * j + 24 \<le> 512" using assms by simp_all
  then have len: "length (splice buf (24 * k) xs) = 512" using assms by (subst length_splice) simp_all
  then show "length (take 24 (drop (24 * j) (splice buf (24 * k) xs))) = length (if j = k then xs else take 24 (drop (24 * j) buf))"
    using assms k by simp
  fix m assume "m < length (take 24 (drop (24 * j) (splice buf (24 * k) xs)))"
  then have m: "m < 24" by simp
  have "splice buf (24 * k) xs ! (24 * j + m) =
      (if 24 * k \<le> 24 * j + m \<and> 24 * j + m < 24 * k + 24 then xs ! (24 * j + m - 24 * k) else buf ! (24 * j + m))"
    using nth_splice [of "24 * k" xs buf "24 * j + m"] assms k m by simp
  moreover have "24 * k \<le> 24 * j + m \<and> 24 * j + m < 24 * k + 24 \<longleftrightarrow> j = k" using m by (cases j k rule: linorder_cases) auto
  ultimately show "take 24 (drop (24 * j) (splice buf (24 * k) xs)) ! m = (if j = k then xs else take 24 (drop (24 * j) buf)) ! m"
    using m len assms k by auto
qed

lemma le32_append: "le32 (bytes32 w @ xs) = w"
  using le32_bytes32 [of w] by (simp add: le32_def bytes32_def)

lemma entry_at_splice:
  assumes "length buf = 512" and "length (filename e) = 16" and "j < 21" and "k < 21"
  shows "entry_at (splice buf (24 * k) (encode_entry e)) j = (if j = k then e else entry_at buf j)"
  using drop_splice [OF assms(1) length_encode_entry [OF assms(2)] assms(3,4)] assms(2)
  by (simp add: entry_at_def entry_bytes_def Let_def encode_entry_def le32_append)

lemma block_entries_splice:
  assumes "length buf = 512" and "length (filename e) = 16" and "k < 21"
  shows "block_entries (splice buf (24 * k) (encode_entry e)) = (block_entries buf)[k := e]"
  by (rule nth_equalityI) (use assms in \<open>auto simp: block_entries_def entry_at_splice nth_list_update\<close>)

lemma length_block_entries [simp]: "length (block_entries buf) = 21"
  by (simp add: block_entries_def)

lemma mset_live_update:
  assumes "k < length xs" and "\<not> live (xs ! k)" and "live e"
  shows "mset (filter live (xs[k := e])) = add_mset e (mset (filter live xs))"
  using assms by (subst (2) id_take_nth_drop [OF assms(1)]) (simp add: upd_conv_take_nth_drop)

lemma zero_entry: "k < 21 \<Longrightarrow> entry_at (replicate 512 0) k = \<lparr>filename = replicate 16 0, e_no = 0, f_type = 0\<rparr>"
proof -
  assume "k < 21"
  then have "take 24 (drop (24 * k) (replicate 512 (0 :: u8))) = replicate 24 0" by (simp add: min_def)
  then have "entry_at (replicate 512 0) k = \<lparr>filename = replicate 16 0, e_no = le32 (replicate 8 0), f_type = le32 (replicate 4 0)\<rparr>"
    by (simp add: entry_at_def entry_bytes_def Let_def)
  moreover have "le32 (replicate 8 0) = 0" "le32 (replicate 4 0) = 0" by code_simp+
  ultimately show ?thesis by simp
qed

lemma zero_block: "filter live (block_entries (replicate 512 0)) = []"
  using zero_entry by (auto simp: block_entries_def live_def)

lemma free_entry_ok:
  assumes "24 * (k + n) \<le> length buf"
  shows "free_entry buf n k = Inr (find (\<lambda>j. \<not> live (entry_at buf j)) [k..<k + n])"
  using assms
proof (induction n arbitrary: k)
  case (Suc n)
  have u: "[k..<k + Suc n] = k # [Suc k..<Suc k + n]" by (simp add: upt_conv_Cons)
  have "24 * (Suc k + n) \<le> length buf" using Suc.prems by simp
  from Suc.IH [OF this] Suc.prems show ?case unfolding u by (simp add: live_def)
qed simp

section \<open>Adding an entry\<close>

text \<open>A directory that has direct blocks only, each a block in use of its own.\<close>

definition dir_ok :: "fs \<Rightarrow> inode \<Rightarrow> bool" where
  "dir_ok s i \<longleftrightarrow> length (i_sectors i) = 13 \<and> i_sectors i ! 12 = 0 \<and> unat (i_size i) mod 24 = 0 \<and>
     dir_entry_size (sb (cur_part s)) = 24 \<and> distinct (dir_blocks s i) \<and>
     (\<forall>b\<in>set (dir_blocks s i). \<exists>j<nbits (bb s). b = blkno s j \<and> j \<notin> spare s)"

lemma dir_blocks_direct: "i_sectors i ! 12 = 0 \<Longrightarrow> dir_blocks s i = filter (\<lambda>b. b \<noteq> 0) (take 12 (i_sectors i))"
  by (simp add: dir_blocks_def)

lemma dir_ok_block:
  assumes "layout_ok s" and "dir_ok s i" and "k < 12" and "i_sectors i ! k \<noteq> 0"
  shows "i_sectors i ! k \<in> set (dir_blocks s i)" "i_sectors i ! k \<le> max_lba" "data_lba s \<le> i_sectors i ! k"
proof -
  show m: "i_sectors i ! k \<in> set (dir_blocks s i)"
    using assms(2-4) by (auto simp: dir_ok_def dir_blocks_direct in_set_conv_nth intro!: exI [of _ k])
  then show "i_sectors i ! k \<le> max_lba" "data_lba s \<le> i_sectors i ! k"
    using assms(1,2) blkno_bounds [OF assms(1)] by (auto simp: dir_ok_def)
qed

text \<open>A block without a free entry.\<close>

definition full_block :: "u8 list \<Rightarrow> bool" where
  "full_block buf \<longleftrightarrow> (\<forall>e\<in>set (block_entries buf). live e)"

lemma find_SomeD: "find P xs = Some x \<Longrightarrow> P x \<and> x \<in> set xs"
  by (auto simp: find_Some_iff)

lemma free_entry_full:
  assumes "length buf = 512"
  shows "full_block buf \<Longrightarrow> free_entry buf 21 0 = Inr None"
    "\<not> full_block buf \<Longrightarrow> \<exists>k<21. free_entry buf 21 0 = Inr (Some k) \<and> \<not> live (block_entries buf ! k)"
proof -
  let ?f = "find (\<lambda>j. \<not> live (entry_at buf j)) [0..<21]"
  have f: "free_entry buf 21 0 = Inr ?f" using free_entry_ok [of 0 21 buf] assms by simp
  show "full_block buf \<Longrightarrow> free_entry buf 21 0 = Inr None"
    using f by (auto simp: full_block_def block_entries_def find_None_iff)
  assume "\<not> full_block buf"
  then have "?f \<noteq> None" by (auto simp: full_block_def block_entries_def find_None_iff)
  then obtain k where k: "?f = Some k" by blast
  with find_SomeD [OF k] f show "\<exists>k<21. free_entry buf 21 0 = Inr (Some k) \<and> \<not> live (block_entries buf ! k)"
    by (auto simp: block_entries_def)
qed

text \<open>The loop passes over the full blocks.\<close>

lemma sync_loop_skip:
  assumes "layout_ok s" and "dir_ok s i" and "k \<le> 12" and "take 12 blocks = take 12 (i_sectors i)" and "length blocks = 140"
    and "\<forall>j<k. i_sectors i ! j \<noteq> 0 \<and> full_block (disk_of s (i_sectors i ! j))" and "k \<le> m"
  shows "sync_loop m 0 p e 21 blocks s = sync_loop (m - k) k p e 21 blocks s"
  using assms(3,6,7)
proof (induction k)
  case (Suc k)
  then have IH: "sync_loop m 0 p e 21 blocks s = sync_loop (m - k) k p e 21 blocks s" by simp
  have k: "k < 12" "i_sectors i ! k \<noteq> 0" "full_block (disk_of s (i_sectors i ! k))" using Suc.prems by auto
  have b: "blocks ! k = i_sectors i ! k" using assms(4) k(1) by (metis nth_take)
  have rd: "read_disk (i_sectors i ! k) 1 s = Inr (disk_of s (i_sectors i ! k))"
    by (rule read_block [OF layout_512 [OF assms(1)] dir_ok_block(2) [OF assms(1,2) k(1,2)]])
  have "length (disk_of s (i_sectors i ! k)) = 512" using layout_512 [OF assms(1)] by (simp add: sectors_512_def)
  note free_entry_full(1) [OF this k(3)]
  moreover have "m - k = Suc (m - Suc k)" using Suc.prems by simp
  ultimately have "sync_loop (m - k) k p e 21 blocks s = sync_loop (m - Suc k) (Suc k) p e 21 blocks s"
    using b k(2) rd by simp
  with IH show ?case by simp
qed simp

section \<open>The entries before and after\<close>

lemma entries_sum: "entries s i = (\<Sum>b\<leftarrow>dir_blocks s i. mset (filter live (block_entries (disk_of s b))))"
  unfolding entries_def dir_entries_def by (induction "dir_blocks s i" rule: rev_induct) (simp_all add: filter_concat mset_concat o_def)

definition no_entry :: dir_entry where
  "no_entry = \<lparr>filename = replicate 16 0, e_no = 0, f_type = 0\<rparr>"

lemma zero_entries: "block_entries (replicate 512 0) = replicate 21 no_entry"
  by (rule nth_equalityI) (simp_all add: block_entries_def zero_entry no_entry_def)

definition dot :: "dir_entry \<Rightarrow> bool" where
  "dot e \<longleftrightarrow> live e \<and> entry_name e = [46]"

text \<open>\<open>..\<close> stands only in a block with \<open>.\<close>, the first one.\<close>

definition dots_first :: "fs \<Rightarrow> inode \<Rightarrow> bool" where
  "dots_first s i \<longleftrightarrow> (\<forall>b\<in>set (dir_blocks s i).
     list_ex (\<lambda>e. live e \<and> entry_name e = [46, 46]) (block_entries (disk_of s b)) \<longrightarrow> list_ex dot (block_entries (disk_of s b)))"

text \<open>The fields of an inode that do not speak of its blocks.\<close>

definition same_header :: "inode \<Rightarrow> inode \<Rightarrow> bool" where
  "same_header i i' \<longleftrightarrow> i_no i' = i_no i \<and> i_open_cnts i' = i_open_cnts i \<and> write_deny i' = write_deny i"

text \<open>What adding \<open>e\<close> does to the directory at \<open>p\<close>.\<close>

definition entry_added :: "addr \<Rightarrow> dir_entry \<Rightarrow> fs \<Rightarrow> fs \<Rightarrow> bool" where
  "entry_added p e s s' \<longleftrightarrow> same_setup s s' \<and> layout_ok s' \<and> dir_ok s' (inodes s' p) \<and>
     entries s' (inodes s' p) = add_mset e (entries s (inodes s p)) \<and>
     set (dir_entries s' (inodes s' p)) \<subseteq> insert e (insert no_entry (set (dir_entries s (inodes s p)))) \<and>
     i_size (inodes s' p) = i_size (inodes s p) + 24 \<and> (\<forall>q. q \<noteq> p \<longrightarrow> inodes s' q = inodes s q) \<and>
     file_table s' = file_table s \<and> spare s' \<subseteq> spare s \<and> card (spare s) \<le> Suc (card (spare s')) \<and>
     same_header (inodes s p) (inodes s' p) \<and> (entry_name e \<noteq> [46, 46] \<longrightarrow> dots_first s (inodes s p) \<longrightarrow> dots_first s' (inodes s' p)) \<and>
     (\<forall>a. data_lba s \<le> a \<longrightarrow> a \<notin> set (dir_blocks s' (inodes s' p)) \<longrightarrow> disk_of s' a = disk_of s a) \<and>
     (\<forall>b\<in>set (dir_blocks s' (inodes s' p)). b \<in> set (dir_blocks s (inodes s p)) \<or> b \<notin> used s) \<and>
     (\<forall>a. table_lba s \<le> a \<longrightarrow> a < data_lba s \<longrightarrow> disk_of s' a = disk_of s a)"

lemma size_24: "unat (x :: u32) mod 24 = 0 \<Longrightarrow> unat x + 24 < 4294967296 \<Longrightarrow> unat (x + 24) mod 24 = 0"
  by (subst unat_add_u32) simp_all

lemma dots_update:
  assumes "list_ex (\<lambda>e. live e \<and> entry_name e = [46, 46]) (es[j := e])" and "entry_name e \<noteq> [46, 46]" and "j < length es" and "\<not> live (es ! j)"
    and "list_ex (\<lambda>e. live e \<and> entry_name e = [46, 46]) es \<Longrightarrow> list_ex dot es"
  shows "list_ex dot (es[j := e])"
proof -
  obtain k where k: "k < length es" "live (es[j := e] ! k)" "entry_name (es[j := e] ! k) = [46, 46]"
    using assms(1) by (auto simp: list_ex_length)
  then have "k \<noteq> j" using assms(2) by auto
  then have "list_ex dot es" using k assms(5) by (auto simp: list_ex_length)
  then obtain m where "m < length es" "dot (es ! m)" by (auto simp: list_ex_length)
  moreover then have "m \<noteq> j" using assms(4) by (auto simp: dot_def)
  ultimately show ?thesis by (auto simp: list_ex_length)
qed

lemma add_in_block:
  assumes l: "layout_ok s" and d: "dir_ok s (inodes s p)" and k: "k < 12" "i_sectors (inodes s p) ! k = b" "b \<noteq> 0"
    and j: "j < 21" "\<not> live (block_entries (disk_of s b) ! j)" and e: "length (filename e) = 16" "live e"
    and sz: "unat (i_size (inodes s p)) + 24 < 4294967296"
  shows "\<exists>s'. write_disk b (splice (disk_of s b) (24 * j) (encode_entry e)) 1 s = Inr s' \<and> entry_added p e s (grow_dir p s')"
proof -
  let ?i = "inodes s p" and ?buf = "splice (disk_of s b) (24 * j) (encode_entry e)"
  have b: "b \<in> set (dir_blocks s ?i)" "b \<le> max_lba" using dir_ok_block [OF l d k(1)] k by simp_all
  have len: "length (disk_of s b) = 512" using layout_512 [OF l] by (simp add: sectors_512_def)
  have len': "length ?buf = 512" using len j(1) length_encode_entry [OF e(1)] by (subst length_splice) simp_all
  let ?s1 = "s\<lparr>disks := (disks s)(my_disk (cur_part s) := (disk_of s)(b := ?buf))\<rparr>"
  let ?s' = "grow_dir p ?s1"
  have i': "inodes ?s' p = ?i\<lparr>i_size := i_size ?i + 24\<rparr>" "disk_of ?s' = (disk_of s)(b := ?buf)" "same_setup s ?s'" "fs_bytes ?s' = fs_bytes s"
    using d by (simp_all add: grow_dir_def set_inode_def dir_ok_def same_setup_def)
  have l': "layout_ok ?s'" using layout_setup [OF l i'(3)] layout_512 [OF l] len' by (simp add: i'(2) sectors_512_def)
  have db: "dir_blocks ?s' (inodes ?s' p) = dir_blocks s ?i" using d by (simp add: i'(1) dir_blocks_direct dir_ok_def)
  have be: "block_entries ?buf = (block_entries (disk_of s b))[j := e]" by (rule block_entries_splice [OF len e(1) j(1)])
  obtain xs ys where bs: "dir_blocks s ?i = xs @ b # ys" "b \<notin> set xs" "b \<notin> set ys"
    using b(1) d by (auto simp: dir_ok_def dest!: split_list)
  have m: "map (\<lambda>c. block_entries (((disk_of s)(b := ?buf)) c)) zs = map (\<lambda>c. block_entries (disk_of s c)) zs" if "b \<notin> set zs" for zs
    using that by (intro map_cong) auto
  have es: "dir_entries ?s' (inodes ?s' p) = concat (map (\<lambda>c. block_entries (disk_of s c)) xs) @ (block_entries (disk_of s b))[j := e] @
      concat (map (\<lambda>c. block_entries (disk_of s c)) ys)"
    unfolding dir_entries_def db bs(1) i'(2) map_append list.map m [OF bs(2)] m [OF bs(3)] by (simp add: be)
  have es0: "dir_entries s ?i = concat (map (\<lambda>c. block_entries (disk_of s c)) xs) @ block_entries (disk_of s b) @
      concat (map (\<lambda>c. block_entries (disk_of s c)) ys)"
    by (simp add: dir_entries_def bs(1))
  have "entries ?s' (inodes ?s' p) = add_mset e (entries s ?i)"
    unfolding entries_def es es0 using mset_live_update [of j "block_entries (disk_of s b)" e] j e(2) by simp
  moreover have "set (dir_entries ?s' (inodes ?s' p)) \<subseteq> insert e (insert no_entry (set (dir_entries s ?i)))"
    unfolding es es0 using set_update_subset_insert [of "block_entries (disk_of s b)" j e] by auto
  moreover have "dir_ok ?s' (inodes ?s' p)"
    using d db size_24 [OF _ sz] used_setup(2) [OF i'(3,4)] blkno_setup [OF i'(3)] same_setup_part [OF i'(3)]
    by (simp add: dir_ok_def i'(1))
  moreover have "\<forall>q. q \<noteq> p \<longrightarrow> inodes ?s' q = inodes s q" "file_table ?s' = file_table s"
    by (simp_all add: grow_dir_def set_inode_def)
  moreover have "spare ?s' = spare s" by (rule used_setup(2) [OF i'(3,4)])
  moreover have "dots_first ?s' (inodes ?s' p)" if "entry_name e \<noteq> [46, 46]" "dots_first s ?i"
    unfolding dots_first_def db i'(2) using dots_update [OF _ that(1), of "block_entries (disk_of s b)" j] j that(2) be by (auto simp: dots_first_def)
  moreover have "data_lba s \<le> b" using dir_ok_block(3) [OF l d k(1)] k by simp
  then have "\<forall>a. table_lba s \<le> a \<longrightarrow> a < data_lba s \<longrightarrow> disk_of ?s' a = disk_of s a" unfolding i'(2) by auto
  ultimately have "entry_added p e s ?s'" unfolding entry_added_def db using l' i'(1-3) b(1) by (simp add: same_header_def)
  then show ?thesis using write_block [OF b(2) len'] by blast
qed

lemma dir_blocks_new:
  assumes "length xs = 13" and "xs ! 12 = 0" and "k < 12" and "xs ! k = 0" and "b \<noteq> 0"
  shows "filter (\<lambda>b. b \<noteq> 0) (take 12 (xs[k := b])) =
      filter (\<lambda>b. b \<noteq> 0) (take k xs) @ b # filter (\<lambda>b. b \<noteq> 0) (drop (Suc k) (take 12 xs))"
    "filter (\<lambda>b. b \<noteq> 0) (take 12 xs) = filter (\<lambda>b. b \<noteq> 0) (take k xs) @ filter (\<lambda>b. b \<noteq> 0) (drop (Suc k) (take 12 xs))"
proof -
  have "take 12 (xs[k := b]) = (take 12 xs)[k := b]" by (rule take_update_swap)
  also have "\<dots> = take k (take 12 xs) @ b # drop (Suc k) (take 12 xs)"
    by (rule upd_conv_take_nth_drop) (use assms in simp)
  also have "take k (take 12 xs) = take k xs" using assms(3) by (simp add: min_absorb1)
  finally have t: "take 12 (xs[k := b]) = take k xs @ b # drop (Suc k) (take 12 xs)" .
  have "take 12 xs = take k xs @ xs ! k # drop (Suc k) (take 12 xs)"
    using id_take_nth_drop [of k "take 12 xs"] assms by (simp add: min_absorb1)
  then have "take 12 xs = take k xs @ 0 # drop (Suc k) (take 12 xs)" using assms(4) by simp
  from arg_cong [OF this, of "filter (\<lambda>b. b \<noteq> 0)"]
  show "filter (\<lambda>b. b \<noteq> 0) (take 12 xs) = filter (\<lambda>b. b \<noteq> 0) (take k xs) @ filter (\<lambda>b. b \<noteq> 0) (drop (Suc k) (take 12 xs))"
    by simp
  show "filter (\<lambda>b. b \<noteq> 0) (take 12 (xs[k := b])) =
      filter (\<lambda>b. b \<noteq> 0) (take k xs) @ b # filter (\<lambda>b. b \<noteq> 0) (drop (Suc k) (take 12 xs))"
    unfolding t using assms(5) by simp
qed

lemma add_new_block:
  assumes l: "layout_ok s" and d: "dir_ok s (inodes s p)" and k: "k < 12" "i_sectors (inodes s p) ! k = 0" and "spare s \<noteq> {}"
    and e: "length (filename e) = 16" "live e" and sz: "unat (i_size (inodes s p)) + 24 < 4294967296" and bl: "length blocks = 140"
  shows "\<exists>blocks' s1 s'. new_dir_block p k blocks s = Inr (Some blocks', s1) \<and>
    write_disk (blocks' ! k) (splice (replicate 512 0) 0 (encode_entry e)) 1 s1 = Inr s' \<and> entry_added p e s (grow_dir p s')"
proof -
  let ?i = "inodes s p"
  define buf where "buf = splice (replicate 512 0) 0 (encode_entry e)"
  from take_one [OF l assms(5), of p] obtain j s1 where
    j: "block_bitmap_alloc s = Inr (blkno s j, s1)" "inodes s1 = inodes s" "j \<in> spare s"
      "\<exists>s2. sync_block (blkno s j) s1 = Inr s2 \<and> inodes s2 = inodes s \<and> took {j} s s2" by blast
  let ?b = "blkno s j"
  note tb = blkno_bounds [OF l spare_less [OF j(3)]]
  obtain s2 where s2: "sync_block ?b s1 = Inr s2" "inodes s2 = inodes s" "took {j} s s2" using j(4) by blast
  have sam: "same_setup s s2" "spare s2 = spare s - {j}" "sectors_512 (disk_of s2)" "\<forall>a. table_lba s \<le> a \<longrightarrow> disk_of s2 a = disk_of s a"
      "file_table s2 = file_table s"
    using s2(3) by (simp_all add: took_def)
  have cp: "cur_part s1 = cur_part s" using j(1) by (auto simp: block_bitmap_alloc_def Let_def bindr_eq_Inr split: if_splits)
  have "?b - data_lba s \<noteq> -1"
  proof
    assume "?b - data_lba s = -1"
    then have "(of_nat j :: u32) = -1" by (simp add: blkno_def)
    then show False using of_nat_u32_not_m1 [of j] spare_less [OF j(3)] l by (simp add: layout_ok_def)
  qed
  then have nb: "new_dir_block p k blocks s = Inr (Some (blocks[k := ?b]), set_sector p k ?b s2)"
    using j(1) s2(1) tb(5) k(1) cp by (simp add: new_dir_block_def Let_def sync_block_def)
  have len': "length buf = 512" unfolding buf_def using length_encode_entry [OF e(1)] by (subst length_splice) simp_all
  let ?s1 = "(set_sector p k ?b s2)\<lparr>disks := (disks s2)(my_disk (cur_part s2) := (disk_of s2)(?b := buf))\<rparr>"
  let ?s' = "grow_dir p ?s1"
  have "write_disk ?b buf 1 (set_sector p k ?b s2) = Inr ?s1"
    using write_block [OF tb(2) len', of "set_sector p k ?b s2"] by (simp add: set_sector_def set_inode_def)
  moreover have i': "inodes ?s' p = ?i\<lparr>i_sectors := (i_sectors ?i)[k := ?b], i_size := i_size ?i + 24\<rparr>"
      "disk_of ?s' = (disk_of s2)(?b := buf)" "same_setup s ?s'" "fs_bytes ?s' = fs_bytes s2"
      "\<forall>q. q \<noteq> p \<longrightarrow> inodes ?s' q = inodes s q" "file_table ?s' = file_table s"
    using d sam(1,5) same_setup_part [OF sam(1)] by (simp_all add: grow_dir_def set_sector_def set_inode_def dir_ok_def same_setup_def s2(2))
  moreover have "sectors_512 (disk_of ?s')" unfolding i'(2) using sam(3) len' by (simp add: sectors_512_def)
  moreover from layout_setup [OF l i'(3) this] have "layout_ok ?s'" .
  moreover have len: "length (i_sectors ?i) = 13" "i_sectors ?i ! 12 = 0" using d by (simp_all add: dir_ok_def)
  define A where "A = filter (\<lambda>b. b \<noteq> 0) (take k (i_sectors ?i))"
  define C where "C = filter (\<lambda>b. b \<noteq> 0) (drop (Suc k) (take 12 (i_sectors ?i)))"
  note nw = dir_blocks_new [OF len k tb(4), folded A_def C_def]
  have db0: "dir_blocks s ?i = A @ C" using nw(2) len(2) by (simp add: dir_blocks_direct)
  have db: "dir_blocks ?s' (inodes ?s' p) = A @ ?b # C" using nw(1) len(2) k(1) by (simp add: i'(1) dir_blocks_direct)
  have notin: "?b \<notin> set (A @ C)"
    using d j(3) blkno_inj [OF l _ spare_less [OF j(3)]] unfolding dir_ok_def db0 by metis
  have old: "((disk_of s2)(?b := buf)) c = disk_of s c" if "c \<in> set (A @ C)" for c
  proof -
    have "data_lba s \<le> c" using d that blkno_bounds(3) [OF l] unfolding dir_ok_def db0 by metis
    then have "table_lba s \<le> c" using l unfolding layout_ok_def word_le_nat_alt by linarith
    then show ?thesis using sam(4) notin that by auto
  qed
  have m: "map (\<lambda>c. block_entries (((disk_of s2)(?b := buf)) c)) A = map (\<lambda>c. block_entries (disk_of s c)) A"
    "map (\<lambda>c. block_entries (((disk_of s2)(?b := buf)) c)) C = map (\<lambda>c. block_entries (disk_of s c)) C"
    using old by (auto intro!: map_cong)
  have be: "block_entries buf = (block_entries (replicate 512 0))[0 := e]"
    using block_entries_splice [of "replicate 512 0" e 0] by (simp add: e(1) buf_def)
  have es: "dir_entries ?s' (inodes ?s' p) = concat (map (\<lambda>c. block_entries (disk_of s c)) A) @ (block_entries (replicate 512 0))[0 := e] @
      concat (map (\<lambda>c. block_entries (disk_of s c)) C)"
    unfolding dir_entries_def db i'(2) map_append list.map m by (simp add: be)
  have es0: "dir_entries s ?i = concat (map (\<lambda>c. block_entries (disk_of s c)) A) @ concat (map (\<lambda>c. block_entries (disk_of s c)) C)"
    by (simp add: dir_entries_def db0)
  have nl: "\<not> live no_entry" by (simp add: live_def no_entry_def)
  have "entries ?s' (inodes ?s' p) = add_mset e (entries s ?i)"
    unfolding entries_def es es0 using mset_live_update [of 0 "replicate 21 no_entry" e] e(2) nl by (simp add: zero_entries)
  moreover have "set (dir_entries ?s' (inodes ?s' p)) \<subseteq> insert e (insert no_entry (set (dir_entries s ?i)))"
    unfolding es es0 zero_entries using set_update_subset_insert [of "replicate 21 no_entry" 0 e] by auto
  moreover have "dir_ok ?s' (inodes ?s' p)"
  proof -
    have sp: "spare ?s' = spare s - {j}" using sam(2) used_setup(2) [of s2 ?s'] i'(3,4) sam(1) by (simp add: same_setup_def)
    have "\<forall>b\<in>set (A @ C). \<exists>j<nbits (bb s). b = blkno s j \<and> j \<notin> spare s" "distinct (A @ C)" using d unfolding dir_ok_def db0 by blast+
    then have "\<forall>b\<in>set (A @ ?b # C). \<exists>j'<nbits (bb s). b = blkno s j' \<and> j' \<notin> spare s - {j}" "distinct (A @ ?b # C)"
      using notin spare_less [OF j(3)] by auto
    then show ?thesis unfolding dir_ok_def db sp
      using d len k(1) size_24 [OF _ sz] blkno_setup [OF i'(3)] same_setup_part [OF i'(3)] by (simp add: i'(1) dir_ok_def)
  qed
  moreover have "spare ?s' = spare s - {j}" using sam(2) used_setup(2) [of s2 ?s'] i'(3,4) sam(1) by (simp add: same_setup_def)
  then have "spare ?s' \<subseteq> spare s" "card (spare s) \<le> Suc (card (spare ?s'))" using j(3) by (auto simp: card_Diff_singleton)
  moreover have "dots_first ?s' (inodes ?s' p)" if nd: "entry_name e \<noteq> [46, 46]" "dots_first s ?i"
  proof -
    have "\<not> list_ex (\<lambda>e. live e \<and> entry_name e = [46, 46]) (block_entries buf)"
      using nd(1) nl unfolding be zero_entries by (auto simp: list_ex_iff numeral_eq_Suc)
    then show ?thesis using nd(2) old notin unfolding dots_first_def db db0 i'(2) by auto
  qed
  moreover have "disk_of ?s' a = disk_of s a" if "data_lba s \<le> a" "a \<notin> set (dir_blocks ?s' (inodes ?s' p))" for a
  proof -
    have "table_lba s \<le> a" using that(1) l unfolding layout_ok_def word_le_nat_alt by linarith
    then show ?thesis using that(2) sam(4) unfolding db i'(2) by simp
  qed
  moreover have "\<forall>c\<in>set (dir_blocks ?s' (inodes ?s' p)). c \<in> set (dir_blocks s ?i) \<or> c \<notin> used s"
    using used_spare [OF l j(3)] unfolding db db0 by auto
  moreover have "\<forall>a. table_lba s \<le> a \<longrightarrow> a < data_lba s \<longrightarrow> disk_of ?s' a = disk_of s a"
    unfolding i'(2) using sam(4) tb(3) by auto
  ultimately have "entry_added p e s ?s'" unfolding entry_added_def by (simp add: same_header_def)
  moreover have "write_disk ((blocks[k := ?b]) ! k) (splice (replicate 512 0) 0 (encode_entry e)) 1 (set_sector p k ?b s2) = Inr ?s1"
    using \<open>write_disk ?b buf 1 _ = _\<close> bl k(1) by (simp add: buf_def)
  ultimately show ?thesis using nb by blast
qed

text \<open>There is room in one of the direct blocks, or for one more.\<close>

definition dir_room :: "fs \<Rightarrow> inode \<Rightarrow> bool" where
  "dir_room s i \<longleftrightarrow> (\<exists>k<12. i_sectors i ! k = 0 \<or> \<not> full_block (disk_of s (i_sectors i ! k)))"

lemma sync_dir_entry_ok:
  assumes l: "layout_ok s" and p: "p = dir_inode (dirs s pd)" and d: "dir_ok s (inodes s p)" and "dir_room s (inodes s p)" and "spare s \<noteq> {}"
    and e: "length (filename e) = 16" "live e" and sz: "unat (i_size (inodes s p)) + 24 < 4294967296"
  shows "\<exists>s'. sync_dir_entry pd e s = Inr (True, s') \<and> entry_added p e s s'"
proof -
  let ?i = "inodes s p" and ?bs = "take 12 (i_sectors (inodes s p)) @ replicate 128 0"
  let ?P = "\<lambda>k. k < 12 \<and> (i_sectors ?i ! k = 0 \<or> \<not> full_block (disk_of s (i_sectors ?i ! k)))"
  define k where "k = (LEAST k. ?P k)"
  have P: "\<exists>k. ?P k" using assms(4) by (auto simp: dir_room_def)
  have k: "k < 12" "i_sectors ?i ! k = 0 \<or> \<not> full_block (disk_of s (i_sectors ?i ! k))"
    using LeastI_ex [OF P] by (simp_all add: k_def)
  have "\<forall>j<k. i_sectors ?i ! j \<noteq> 0 \<and> full_block (disk_of s (i_sectors ?i ! j))"
    using not_less_Least [of _ ?P] k(1) unfolding k_def by (metis (no_types, lifting) order.strict_trans)
  moreover have len: "length ?bs = 140" "take 12 ?bs = take 12 (i_sectors ?i)" using d by (simp_all add: dir_ok_def)
  ultimately have skip: "sync_loop 140 0 p e 21 ?bs s = sync_loop (140 - k) k p e 21 ?bs s"
    using k(1) by (intro sync_loop_skip [OF l d]) simp_all
  have m: "140 - k = Suc (139 - k)" using k(1) by simp
  have b: "?bs ! k = i_sectors ?i ! k" using d k(1) by (simp add: nth_append dir_ok_def)
  have "\<exists>s'. sync_loop (Suc (139 - k)) k p e 21 ?bs s = Inr (True, s') \<and> entry_added p e s s'"
  proof (cases "i_sectors ?i ! k = 0")
    case True
    then show ?thesis using add_new_block [OF l d k(1) True assms(5) e sz len(1)] b by auto
  next
    case False
    have rd: "read_disk (i_sectors ?i ! k) 1 s = Inr (disk_of s (i_sectors ?i ! k))"
      by (rule read_block [OF layout_512 [OF l] dir_ok_block(2) [OF l d k(1) False]])
    have len: "length (disk_of s (i_sectors ?i ! k)) = 512" using layout_512 [OF l] by (simp add: sectors_512_def)
    obtain j where j: "j < 21" "free_entry (disk_of s (i_sectors ?i ! k)) 21 0 = Inr (Some j)"
        "\<not> live (block_entries (disk_of s (i_sectors ?i ! k)) ! j)"
      using free_entry_full(2) [OF len] k(2) False by blast
    obtain s' where "write_disk (i_sectors ?i ! k) (splice (disk_of s (i_sectors ?i ! k)) (24 * j) (encode_entry e)) 1 s = Inr s'"
        "entry_added p e s (grow_dir p s')"
      using add_in_block [OF l d k(1) refl False j(1,3) e sz] by blast
    then show ?thesis using b False rd j(2) by simp
  qed
  moreover have "(i_size ?i mod 24) = 0" using d by (simp add: word_unat_eq_iff unat_mod dir_ok_def)
  ultimately show ?thesis using d unfolding sync_dir_entry_def Let_def p [symmetric]
    by (simp add: entries_per_sec_def dir_ok_def skip [unfolded m])
qed

section \<open>A state with an empty directory\<close>

text \<open>The directory at the address 0xc0600000 has its inode at 0xc0500000 and no block yet.\<close>

definition dir_fs :: fs where
  "dir_fs = blank_fs\<lparr>fs_bytes := (\<lambda>_. 0)(0xc0200000 := 1, 0xc0201000 := 1), inodes := \<lambda>_. inode_init 0,
     dirs := \<lambda>_. \<lparr>dir_inode = 0xc0500000, dir_pos = 0\<rparr>\<rparr>"

lemmas dir_fs_fields = dir_fs_def blank_fs_def blank_part_def inode_init_def

lemma dir_fs_layout: "layout_ok dir_fs"
  using blank_table_ok
  by (simp add: layout_ok_def table_ok_def dir_fs_def blank_fs_def blank_part_def bitmap_ok_def nbits_def)

lemma dir_fs_blocks: "dir_blocks dir_fs (inodes dir_fs p) = []" "dir_entries dir_fs (inodes dir_fs p) = []"
proof -
  show "dir_blocks dir_fs (inodes dir_fs p) = []" by (simp add: dir_blocks_def dir_fs_fields)
  then show "dir_entries dir_fs (inodes dir_fs p) = []" by (simp add: dir_entries_def)
qed

lemma dir_fs_dir: "dir_ok dir_fs (inodes dir_fs p)" "dir_room dir_fs (inodes dir_fs p)"
proof -
  show "dir_ok dir_fs (inodes dir_fs p)" unfolding dir_ok_def dir_fs_blocks by (simp add: dir_fs_fields)
  show "dir_room dir_fs (inodes dir_fs p)" unfolding dir_room_def by (rule exI [of _ 0]) (simp add: dir_fs_fields)
qed

lemma dir_fs_spare: "1 \<in> spare dir_fs"
  by (simp add: spare_def taken_def dir_fs_fields nbits_def bit_1_iff)

definition sample_entry :: dir_entry where
  "sample_entry = \<lparr>filename = 97 # replicate 15 0, e_no = 5, f_type = FT_REGULAR\<rparr>"

section \<open>Properties\<close>

text \<open>\<open>search_dir_entry\<close> is a search of the list of all the entries of the directory: it answers with the
  first one of the name, whichever block, direct or indirect, it is in, or with nothing.\<close>

theorem search_dir_entry_first:
  assumes "dir_readable s i" and "i = inodes s (dir_inode (dirs s pdir))" and "length name < 16" and "0 \<notin> set name"
    and "mallocs s = a # b # ms" and "a \<noteq> NULL" and "b \<noteq> NULL"
  shows "search_dir_entry pdir name s = Inr (find (\<lambda>e. entry_name e = name) (dir_entries s i), s\<lparr>mallocs := ms\<rparr>)"
  using search_dir_entry_ok assms by blast

theorem search_dir_entry_first_witness:
  "search_dir_entry 0xc0600000 [97] dir_fs = Inr (None, dir_fs\<lparr>mallocs := [0xc0400200, 0xc0400300]\<rparr>)"
proof -
  let ?i = "inodes dir_fs (dir_inode (dirs dir_fs 0xc0600000))"
  have "dir_readable dir_fs ?i" using layout_512 [OF dir_fs_layout] unfolding dir_readable_def dir_fs_blocks by (simp add: dir_fs_fields)
  then show ?thesis
    using search_dir_entry_first [of dir_fs ?i "0xc0600000" "[97]" "0xc0400000" "0xc0400100" "[0xc0400200, 0xc0400300]"]
    by (simp add: dir_fs_blocks) (simp add: dir_fs_fields)
qed

text \<open>C9 \<open>sync_dir_entry\<close> implements the addition to a multiset: in a directory with direct blocks only, with
  room in one of them or a block to spare, the entries in use afterwards are those before and the new
  one, wherever it was put; the size grows by one entry.\<close>

theorem sync_dir_entry_adds:
  assumes "layout_ok s" and "p = dir_inode (dirs s pd)" and "dir_ok s (inodes s p)" and "dir_room s (inodes s p)" and "spare s \<noteq> {}"
    and "length (filename e) = 16" and "live e" and "unat (i_size (inodes s p)) + 24 < 4294967296"
  shows "\<exists>s'. sync_dir_entry pd e s = Inr (True, s') \<and> entries s' (inodes s' p) = add_mset e (entries s (inodes s p)) \<and>
    i_size (inodes s' p) = i_size (inodes s p) + 24 \<and> layout_ok s' \<and> dir_ok s' (inodes s' p) \<and>
    (\<forall>q. q \<noteq> p \<longrightarrow> inodes s' q = inodes s q)"
  using sync_dir_entry_ok [OF assms] unfolding entry_added_def by blast

lemma dir_fs_hyps: "dir_inode (dirs dir_fs pd) = 0xc0500000" "spare dir_fs \<noteq> {}" "length (filename sample_entry) = 16" "live sample_entry"
    "unat (i_size (inodes dir_fs p)) + 24 < 4294967296"
  using dir_fs_spare by (auto simp: sample_entry_def live_def) (simp_all add: dir_fs_fields)

theorem sync_dir_entry_adds_witness:
  "\<exists>s'. sync_dir_entry 0xc0600000 sample_entry dir_fs = Inr (True, s') \<and> entries s' (inodes s' 0xc0500000) = {#sample_entry#}"
proof -
  have "entries dir_fs (inodes dir_fs 0xc0500000) = {#}" by (simp add: entries_def dir_fs_blocks)
  then show ?thesis
    using sync_dir_entry_adds [OF dir_fs_layout dir_fs_hyps(1) [of "0xc0600000", symmetric] dir_fs_dir dir_fs_hyps(2-5)] by auto
qed

lemma dir_ok_readable:
  assumes "layout_ok s" and "dir_ok s i"
  shows "dir_readable s i"
proof -
  have "\<forall>b\<in>set (dir_blocks s i). b \<le> max_lba"
    using assms(2) blkno_bounds(2) [OF assms(1)] unfolding dir_ok_def by metis
  then show ?thesis using assms(2) layout_512 [OF assms(1)] by (simp add: dir_readable_def dir_ok_def)
qed

text \<open>The only entry of its name is the one that a search finds.\<close>

lemma find_new_entry:
  assumes "e \<in> set es'" and "set es' \<subseteq> insert e (insert no_entry (set es))"
    and "entry_name e \<noteq> []" and "\<forall>x\<in>set es. entry_name x \<noteq> entry_name e"
  shows "find (\<lambda>x. entry_name x = entry_name e) es' = Some e"
proof (cases "find (\<lambda>x. entry_name x = entry_name e) es'")
  case None
  then show ?thesis using assms(1) by (auto simp: find_None_iff)
next
  case (Some x)
  have "entry_name no_entry = []" by (simp add: entry_name_def no_entry_def)
  then show ?thesis using assms(2-4) find_SomeD [OF Some] Some by auto
qed

text \<open>An entry that was added is found: a search for its name, which was not in use before, answers with
  the entry as it was given.\<close>

theorem dir_entry_roundtrip:
  assumes "layout_ok s" and "p = dir_inode (dirs s pd)" and "dir_ok s (inodes s p)" and "dir_room s (inodes s p)" and "spare s \<noteq> {}"
    and "length (filename e) = 16" and "live e" and "unat (i_size (inodes s p)) + 24 < 4294967296"
    and "length (entry_name e) < 16" and "entry_name e \<noteq> []" and "\<forall>x\<in>set (dir_entries s (inodes s p)). entry_name x \<noteq> entry_name e"
    and "mallocs s = a # b # ms" and "a \<noteq> NULL" and "b \<noteq> NULL"
  shows "\<exists>s1 s2. sync_dir_entry pd e s = Inr (True, s1) \<and> search_dir_entry pd (entry_name e) s1 = Inr (Some e, s2)"
proof -
  obtain s1 where s1: "sync_dir_entry pd e s = Inr (True, s1)" "entry_added p e s s1"
    using sync_dir_entry_ok [OF assms(1-8)] by blast
  let ?i = "inodes s1 p"
  have a: "same_setup s s1" "layout_ok s1" "dir_ok s1 ?i" "entries s1 ?i = add_mset e (entries s (inodes s p))"
      "set (dir_entries s1 ?i) \<subseteq> insert e (insert no_entry (set (dir_entries s (inodes s p))))"
    using s1(2) by (simp_all add: entry_added_def)
  have "e \<in># entries s1 ?i" by (simp add: a(4))
  then have mem: "e \<in> set (dir_entries s1 ?i)" by (simp add: entries_def)
  have "find (\<lambda>x. entry_name x = entry_name e) (dir_entries s1 ?i) = Some e"
    by (rule find_new_entry [OF mem a(5) assms(10,11)])
  moreover have "dir_readable s1 ?i" by (rule dir_ok_readable [OF a(2,3)])
  moreover have "0 \<notin> set (entry_name e)" by (auto simp: entry_name_def dest: set_takeWhileD)
  moreover have "dirs s1 = dirs s" "mallocs s1 = a # b # ms" using a(1) assms(12) by (simp_all add: same_setup_def)
  ultimately show ?thesis
    using s1(1) search_dir_entry_ok [of s1 pd "entry_name e" a b ms] assms(2,9,13,14) by auto
qed

theorem dir_entry_roundtrip_witness:
  "\<exists>s1 s2. sync_dir_entry 0xc0600000 sample_entry dir_fs = Inr (True, s1) \<and>
    search_dir_entry 0xc0600000 [97] s1 = Inr (Some sample_entry, s2)"
proof -
  have "entry_name sample_entry = [97]" by (simp add: entry_name_def sample_entry_def)
  moreover have "mallocs dir_fs = 0xc0400000 # 0xc0400100 # [0xc0400200, 0xc0400300]" by (simp add: dir_fs_fields)
  ultimately show ?thesis
    using dir_entry_roundtrip [OF dir_fs_layout dir_fs_hyps(1) [of "0xc0600000", symmetric] dir_fs_dir dir_fs_hyps(2-5),
      of "0xc0400000" "0xc0400100" "[0xc0400200, 0xc0400300]"] by (simp add: dir_fs_blocks)
qed

end
