(* ===== verification/Removal.thy ===== *)
theory Removal
  imports Files Entries
begin

unbundle bit_operations_syntax

text \<open>
  Deleting an entry of a directory, \<open>delete_dir_entry\<close> of \<^verbatim>\<open>fs/dir.c\<close>, against the multiset of the entries
  that are in use: the entry of the inode disappears, whether it is cleared in its block or the block, of
  which it was the last one, is given back.
\<close>

section \<open>Scanning a block\<close>

definition ordinary :: "dir_entry \<Rightarrow> bool" where
  "ordinary e \<longleftrightarrow> live e \<and> entry_name e \<noteq> [46] \<and> entry_name e \<noteq> [46, 46]"

definition sought :: "u32 \<Rightarrow> dir_entry \<Rightarrow> bool" where
  "sought no e \<longleftrightarrow> ordinary e \<and> e_no e = no"

lemma named_dots:
  assumes "24 * k + 24 \<le> length buf"
  shows "entry_named buf k [46] \<longleftrightarrow> entry_name (entry_at buf k) = [46]"
    "entry_named buf k [46, 46] \<longleftrightarrow> entry_name (entry_at buf k) = [46, 46]"
  using assms by (simp_all add: entry_named_eq)

lemma scan_block_ok:
  assumes "24 * (k + n) \<le> length buf"
    and "length (filter (sought no) (map (entry_at buf) [k..<k + n])) + (if found = None then 0 else 1) \<le> 1"
  shows "scan_block buf no n k (first, cnt, found) =
    Inr (first \<or> list_ex dot (map (entry_at buf) [k..<k + n]),
         cnt + of_nat (length (filter ordinary (map (entry_at buf) [k..<k + n]))),
         if found = None then find (\<lambda>j. sought no (entry_at buf j)) [k..<k + n] else found)"
  using assms
proof (induction n arbitrary: k first cnt found)
  case (Suc n)
  have u: "[k..<k + Suc n] = k # [Suc k..<Suc k + n]" by (simp add: upt_conv_Cons)
  have len: "\<not> length buf < 24 * k + 24" "24 * (Suc k + n) \<le> length buf" using Suc.prems(1) by simp_all
  then have dots: "entry_named buf k [46] \<longleftrightarrow> entry_name (entry_at buf k) = [46]"
    "entry_named buf k [46, 46] \<longleftrightarrow> entry_name (entry_at buf k) = [46, 46]"
    by (simp_all add: named_dots)
  note IH = Suc.IH [OF len(2)]
  show ?case
  proof (cases "sought no (entry_at buf k)")
    case True
    then have o: "ordinary (entry_at buf k)" "e_no (entry_at buf k) = no" "\<not> dot (entry_at buf k)" "live (entry_at buf k)"
      by (auto simp: sought_def ordinary_def dot_def)
    have f: "found = None" "length (filter (sought no) (map (entry_at buf) [Suc k..<Suc k + n])) = 0"
      using Suc.prems(2) True unfolding u by (auto split: if_splits)
    have "scan_block buf no (Suc n) k (first, cnt, found) = scan_block buf no n (Suc k) (first, cnt + 1, Some k)"
      using len(1) dots o f(1) by (simp add: ordinary_def live_def)
    also have "\<dots> = Inr (first \<or> list_ex dot (map (entry_at buf) [Suc k..<Suc k + n]),
         (cnt + 1) + of_nat (length (filter ordinary (map (entry_at buf) [Suc k..<Suc k + n]))), Some k)"
      using IH [of "Some k" first "cnt + 1"] f(2) by simp
    finally show ?thesis unfolding u using o True f(1) by (simp add: add.assoc)
  next
    case False
    then have one: "length (filter (sought no) (map (entry_at buf) [Suc k..<Suc k + n])) + (if found = None then 0 else 1) \<le> 1"
      using Suc.prems(2) unfolding u by simp
    have "scan_block buf no (Suc n) k (first, cnt, found) =
      scan_block buf no n (Suc k) (first \<or> dot (entry_at buf k), cnt + (if ordinary (entry_at buf k) then 1 else 0), found)"
      using len(1) dots False by (auto simp: sought_def ordinary_def dot_def live_def)
    also have "\<dots> = Inr ((first \<or> dot (entry_at buf k)) \<or> list_ex dot (map (entry_at buf) [Suc k..<Suc k + n]),
         (cnt + (if ordinary (entry_at buf k) then 1 else 0)) + of_nat (length (filter ordinary (map (entry_at buf) [Suc k..<Suc k + n]))),
         if found = None then find (\<lambda>j. sought no (entry_at buf j)) [Suc k..<Suc k + n] else found)"
      by (rule IH [OF one])
    finally show ?thesis unfolding u using False by (simp add: add.assoc)
  qed
qed simp

lemma scan_block_512:
  assumes "length buf = 512" and "length (filter (sought no) (block_entries buf)) \<le> 1"
  shows "scan_block buf no 21 0 (False, 0, None) =
    Inr (list_ex dot (block_entries buf), of_nat (length (filter ordinary (block_entries buf))),
         find (\<lambda>j. sought no (entry_at buf j)) [0..<21])"
  using scan_block_ok [of 0 21 buf no None False 0] assms by (simp add: block_entries_def)

section \<open>The entries before and after\<close>

abbreviation live_in :: "fs \<Rightarrow> u32 \<Rightarrow> dir_entry multiset" where
  "live_in s b \<equiv> mset (filter live (block_entries (disk_of s b)))"

lemma live_sum_cong:
  "(\<And>c. c \<in> set zs \<Longrightarrow> disk_of s' c = disk_of s c) \<Longrightarrow> (\<Sum>b\<leftarrow>zs. live_in s' b) = (\<Sum>b\<leftarrow>zs. live_in s b)"
  by (rule arg_cong [where f = sum_list], rule map_cong) simp_all

lemma entries_replace:
  assumes "b \<in> set (dir_blocks s i)" and "distinct (dir_blocks s i)" and "dir_blocks s' i' = dir_blocks s i"
    and "\<And>c. c \<in> set (dir_blocks s i) \<Longrightarrow> c \<noteq> b \<Longrightarrow> disk_of s' c = disk_of s c"
  shows "entries s' i' + live_in s b = entries s i + live_in s' b"
proof -
  obtain xs ys where bs: "dir_blocks s i = xs @ b # ys" using assms(1) by (auto dest: split_list)
  have "(\<Sum>b\<leftarrow>xs. live_in s' b) = (\<Sum>b\<leftarrow>xs. live_in s b)" "(\<Sum>b\<leftarrow>ys. live_in s' b) = (\<Sum>b\<leftarrow>ys. live_in s b)"
    by (rule live_sum_cong; use assms(2,4) in \<open>auto simp: bs\<close>)+
  then show ?thesis unfolding entries_sum assms(3) bs map_append list.map sum_list_append sum_list.Cons by simp
qed

lemma entries_drop:
  assumes "dir_blocks s i = xs @ b # ys" and "dir_blocks s' i' = xs @ ys"
    and "\<And>c. c \<in> set (xs @ ys) \<Longrightarrow> disk_of s' c = disk_of s c"
  shows "entries s i = entries s' i' + live_in s b"
proof -
  have "(\<Sum>b\<leftarrow>xs. live_in s' b) = (\<Sum>b\<leftarrow>xs. live_in s b)" "(\<Sum>b\<leftarrow>ys. live_in s' b) = (\<Sum>b\<leftarrow>ys. live_in s b)"
    by (rule live_sum_cong; use assms(3) in \<open>auto\<close>)+
  then show ?thesis unfolding entries_sum assms(1,2) map_append list.map sum_list_append sum_list.Cons by simp
qed

lemma mset_live_clear:
  assumes "k < length xs" and "live (xs ! k)"
  shows "mset (filter live xs) = add_mset (xs ! k) (mset (filter live (xs[k := no_entry])))"
proof -
  have "\<not> live no_entry" by (simp add: live_def no_entry_def)
  then show ?thesis using mset_live_update [of k "xs[k := no_entry]" "xs ! k"] assms by simp
qed

lemma cleared_entry: "replicate 24 0 = encode_entry no_entry"
  by (simp add: encode_entry_def no_entry_def bytes32_def) (simp add: numeral_eq_Suc)

lemma dir_ok_data:
  assumes "layout_ok s" and "dir_ok s i" and "b \<in> set (dir_blocks s i)"
  shows "data_lba s \<le> b" "table_lba s \<le> b" "b \<le> max_lba"
proof -
  obtain j where j: "j < nbits (bb s)" "b = blkno s j" using assms(2,3) by (auto simp: dir_ok_def)
  with blkno_bounds [OF assms(1)] show d: "data_lba s \<le> b" "b \<le> max_lba" by auto
  have "unat (table_lba s) + 608 \<le> unat (data_lba s)" using assms(1) by (simp add: layout_ok_def)
  with d(1) show "table_lba s \<le> b" unfolding word_le_nat_alt by linarith
qed

section \<open>Giving blocks back\<close>

text \<open>The bytes of the bitmap of the blocks.\<close>

definition other_bytes :: "fs \<Rightarrow> fs \<Rightarrow> bool" where
  "other_bytes s s' \<longleftrightarrow> (\<forall>x. (\<forall>j<nbits (bb s). x \<noteq> bits (bb s) + of_nat (j div 8)) \<longrightarrow> fs_bytes s' x = fs_bytes s x)"

lemma other_bytes_trans: "same_setup s t \<Longrightarrow> other_bytes s t \<Longrightarrow> other_bytes t u \<Longrightarrow> other_bytes s u"
  using same_setup_part [of s t] by (simp add: other_bytes_def)

text \<open>The blocks \<open>js\<close> are given back: their bits are cleared, in memory and on the disk.\<close>

definition gave :: "nat set \<Rightarrow> fs \<Rightarrow> fs \<Rightarrow> bool" where
  "gave js s s' \<longleftrightarrow> same_setup s s' \<and> inodes s' = inodes s \<and> file_table s' = file_table s \<and> spare s' = js \<union> spare s \<and>
     sectors_512 (disk_of s') \<and> (\<forall>a. table_lba s \<le> a \<longrightarrow> disk_of s' a = disk_of s a) \<and> other_bytes s s'"

lemma gave_trans:
  assumes "gave js s t" and "gave ks t u"
  shows "gave (js \<union> ks) s u"
proof -
  have "same_setup s t" "same_setup t u" using assms by (simp_all add: gave_def)
  moreover from same_setup_part [OF this(1)] have "cur_part t = cur_part s" .
  ultimately show ?thesis using assms same_setup_trans [of s t u] other_bytes_trans [of s t u] by (auto simp: gave_def)
qed

lemma gave_layout: "layout_ok s \<Longrightarrow> gave js s s' \<Longrightarrow> layout_ok s'"
  unfolding gave_def using layout_setup by blast

lemma gave_inode_at:
  assumes "layout_ok s" and "gave js s s'" and "m < 4096"
  shows "inode_at s' m = inode_at s m"
proof -
  have "cur_part s' = cur_part s" using assms(2) by (simp add: gave_def same_setup_def)
  moreover have "disk_of s' a = disk_of s a" if "table_lba s \<le> a" for a using assms(2) that unfolding gave_def by blast
  ultimately show ?thesis using slot_same [OF assms(1), of "disk_of s'" "disk_of s" "unat m"] assms(3)
    by (simp add: inode_at_def word_less_nat_alt)
qed

lemma free_bit_ok:
  assumes l: "layout_ok s" and j: "j < nbits (bb s)"
  shows "\<exists>m s'. bitmap_set (fs_bytes s) (bb s) (of_nat j) 0 = Inr m \<and>
    bitmap_sync (of_nat j) BLOCK_BITMAP (s\<lparr>fs_bytes := m\<rparr>) = Inr s' \<and> gave {j} s s'"
proof -
  have lim: "nbits (bb s) \<le> 163839" using l by (simp add: layout_ok_def)
  have uj: "unat (of_nat j :: u32) = j" by (rule unat_of_nat_u32) (use j lim in linarith)
  obtain m where m: "bitmap_set (fs_bytes s) (bb s) (of_nat j) 0 = Inr m" using bitmap_set_ok by blast
  let ?t = "s\<lparr>fs_bytes := m\<rparr>"
  have st: "same_setup s ?t" by (simp add: same_setup_def)
  have lt: "layout_ok ?t" using layout_setup [OF l st] layout_512 [OF l] by simp
  have "taken m (bb s) k' \<longleftrightarrow> k' \<noteq> j \<and> taken (fs_bytes s) (bb s) k'" if "k' < nbits (bb s)" for k'
    using bitmap_set_taken [OF m, of k'] that lim by (simp add: uj)
  then have spt: "spare ?t = insert j (spare s)" using j by (auto simp: spare_def)
  obtain dd where dd: "sync_block (blkno ?t j) ?t = Inr (?t\<lparr>disks := (disks ?t)(my_disk (cur_part ?t) := dd)\<rparr>)" "sectors_512 dd"
      "\<forall>a. table_lba ?t \<le> a \<longrightarrow> dd a = disk_of ?t a"
    using sync_block_ok [OF lt, of j] j by auto
  let ?u = "?t\<lparr>disks := (disks ?t)(my_disk (cur_part ?t) := dd)\<rparr>"
  have "unat (of_nat (j div 8) :: u32) = j div 8" by (rule unat_of_nat_u32) (use j lim in linarith)
  then have "of_nat j div 8 = (of_nat (j div 8) :: u32)" by (simp add: word_unat_eq_iff unat_div uj)
  then have "other_bytes s ?u" using bitmap_set_frame [OF m] j by (auto simp: other_bytes_def)
  moreover have "spare ?u = insert j (spare s)" using spt by (simp add: spare_def)
  moreover have "same_setup s ?u" by (simp add: same_setup_def)
  ultimately have "gave {j} s ?u" using dd(2,3) by (simp add: gave_def)
  moreover have "bitmap_sync (of_nat j) BLOCK_BITMAP ?t = Inr ?u" using dd(1) by (simp add: sync_block_def blkno_def)
  ultimately show ?thesis using m by blast
qed

section \<open>One step of the deletion\<close>

text \<open>What the deletion in the directory at \<open>p\<close> leaves alone: the sectors that are not blocks of the directory,
  the other inodes on the disk, and all of the memory but the bitmap of the blocks.\<close>

definition dir_frame :: "addr \<Rightarrow> fs \<Rightarrow> fs \<Rightarrow> bool" where
  "dir_frame p s s' \<longleftrightarrow> file_table s' = file_table s \<and> same_header (inodes s p) (inodes s' p) \<and>
     set (dir_blocks s' (inodes s' p)) \<subseteq> set (dir_blocks s (inodes s p)) \<and>
     (\<forall>a. data_lba s \<le> a \<longrightarrow> a \<notin> set (dir_blocks s (inodes s p)) \<longrightarrow> disk_of s' a = disk_of s a) \<and>
     (\<forall>j\<in>spare s'. j \<in> spare s \<or> blkno s j \<in> set (dir_blocks s (inodes s p))) \<and>
     (\<forall>m<4096. m \<noteq> ucast (ucast (i_no (inodes s p)) :: u8) \<longrightarrow> inode_at s' m = inode_at s m) \<and> other_bytes s s'"

lemma dir_frame_trans:
  assumes "dir_frame p s t" and "dir_frame p t u" and "same_setup s t"
  shows "dir_frame p s u"
proof -
  note eq = same_setup_part [OF assms(3)] blkno_setup [OF assms(3)]
  have "i_no (inodes t p) = i_no (inodes s p)" using assms(1) by (simp add: dir_frame_def same_header_def)
  then show ?thesis using assms(1,2) other_bytes_trans [OF assms(3)] unfolding dir_frame_def eq by (auto simp: same_header_def)
qed

text \<open>What one step of the deletion does to the directory at \<open>p\<close>: \<open>M\<close> are the entries that it takes away.\<close>

definition entries_taken :: "addr \<Rightarrow> dir_entry multiset \<Rightarrow> u32 \<Rightarrow> fs \<Rightarrow> fs \<Rightarrow> bool" where
  "entries_taken p M n s s' \<longleftrightarrow> same_setup s s' \<and> layout_ok s' \<and> dir_ok s' (inodes s' p) \<and>
     entries s (inodes s p) = M + entries s' (inodes s' p) \<and> i_size (inodes s' p) = i_size (inodes s p) - n \<and>
     spare s \<subseteq> spare s' \<and> (\<forall>q. q \<noteq> p \<longrightarrow> inodes s' q = inodes s q) \<and> dir_frame p s s'"

lemma entries_taken_trans:
  "entries_taken p M m s t \<Longrightarrow> entries_taken p N n t u \<Longrightarrow> entries_taken p (M + N) (m + n) s u"
  unfolding entries_taken_def using same_setup_trans dir_frame_trans [of p s t u] by (auto simp: algebra_simps)

text \<open>Clearing the entry in its block.\<close>

lemma clear_entry:
  assumes l: "layout_ok s" and d: "dir_ok s (inodes s p)" and b: "b \<in> set (dir_blocks s (inodes s p))"
    and j: "j < 21" "live (block_entries (disk_of s b) ! j)"
  shows "\<exists>s'. write_disk b (splice (disk_of s b) (24 * j) (replicate 24 0)) 1 s = Inr s' \<and>
    entries_taken p {#block_entries (disk_of s b) ! j#} 0 s s'"
proof -
  let ?i = "inodes s p" and ?buf = "splice (disk_of s b) (24 * j) (replicate 24 0)"
  have len: "length (disk_of s b) = 512" using layout_512 [OF l] by (simp add: sectors_512_def)
  have len': "length ?buf = 512" using len j(1) by (subst length_splice) simp_all
  let ?s' = "s\<lparr>disks := (disks s)(my_disk (cur_part s) := (disk_of s)(b := ?buf))\<rparr>"
  have i': "inodes ?s' = inodes s" "disk_of ?s' = (disk_of s)(b := ?buf)" "same_setup s ?s'" "fs_bytes ?s' = fs_bytes s"
    by (simp_all add: same_setup_def)
  have l': "layout_ok ?s'" using layout_setup [OF l i'(3)] layout_512 [OF l] len' by (simp add: i'(2) sectors_512_def)
  have db: "dir_blocks ?s' ?i = dir_blocks s ?i" using d by (simp add: dir_blocks_direct dir_ok_def)
  have fn: "length (filename no_entry) = 16" by (simp add: no_entry_def)
  have be: "block_entries ?buf = (block_entries (disk_of s b))[j := no_entry]"
    unfolding cleared_entry by (rule block_entries_splice [OF len fn j(1)])
  have "entries ?s' ?i + live_in s b = entries s ?i + mset (filter live (block_entries ?buf))"
    using entries_replace [OF b _ db] d by (simp add: dir_ok_def i'(2))
  moreover have "live_in s b =
      add_mset (block_entries (disk_of s b) ! j) (mset (filter live (block_entries ?buf)))"
    unfolding be using j by (intro mset_live_clear) simp_all
  ultimately have "entries s ?i = {#block_entries (disk_of s b) ! j#} + entries ?s' ?i" by simp
  moreover have sp: "spare ?s' = spare s" by (rule used_setup(2) [OF i'(3,4)])
  moreover have "dir_ok ?s' ?i" using d unfolding dir_ok_def db sp blkno_setup [OF i'(3)] by simp
  moreover have "dir_frame p s ?s'"
  proof -
    have "inode_at ?s' m = inode_at s m" if "m < 4096" for m :: u32
    proof -
      have "unat m < 4096" using that by (simp add: word_less_nat_alt)
      moreover have "((disk_of s)(b := ?buf)) a = disk_of s a" if "a < data_lba s" for a
        using that dir_ok_data(1) [OF l d b] by auto
      ultimately show ?thesis using slot_same [OF l, of "(disk_of s)(b := ?buf)" "disk_of s"] by (simp add: inode_at_def)
    qed
    then show ?thesis using b sp by (simp add: dir_frame_def same_header_def other_bytes_def db)
  qed
  ultimately have "entries_taken p {#block_entries (disk_of s b) ! j#} 0 s ?s'"
    unfolding entries_taken_def using l' i'(1,3) by simp
  then show ?thesis using write_block [OF dir_ok_data(3) [OF l d b] len'] by blast
qed

text \<open>Giving the block back.\<close>

lemma drop_block:
  assumes l: "layout_ok s" and d: "dir_ok s (inodes s p)" and k: "k < 12" "i_sectors (inodes s p) ! k = b" "b \<noteq> 0"
  shows "\<exists>s'. drop_dir_block p k b s = Inr s' \<and>
    entries_taken p (live_in s b) 0 s s'"
proof -
  let ?i = "inodes s p"
  have bm: "b \<in> set (dir_blocks s ?i)" using dir_ok_block(1) [OF l d k(1)] k(2,3) by simp
  obtain j where j: "j < nbits (bb s)" "b = blkno s j" "j \<notin> spare s" using d bm by (auto simp: dir_ok_def)
  have idx: "b - data_lba s = of_nat j" by (simp add: j(2) blkno_def)
  obtain m u where u: "bitmap_set (fs_bytes s) (bb s) (of_nat j) 0 = Inr m" "bitmap_sync (of_nat j) BLOCK_BITMAP (s\<lparr>fs_bytes := m\<rparr>) = Inr u"
    "gave {j} s u" using free_bit_ok [OF l j(1)] by blast
  note g = u(3) [unfolded gave_def]
  let ?s' = "set_sector p k 0 u"
  have "drop_dir_block p k b s = Inr ?s'"
    using u(1,2) k(1) by (simp add: drop_dir_block_def Let_def idx)
  have i': "inodes ?s' p = ?i\<lparr>i_sectors := (i_sectors ?i)[k := 0]\<rparr>" "disk_of ?s' = disk_of u" "same_setup s ?s'"
      "\<forall>q. q \<noteq> p \<longrightarrow> inodes ?s' q = inodes s q" "file_table ?s' = file_table s" "fs_bytes ?s' = fs_bytes u"
    using g by (simp_all add: set_sector_def set_inode_def same_setup_def)
  have "sectors_512 (disk_of ?s')" using g by (simp only: i'(2))
  from layout_setup [OF l i'(3) this] have l': "layout_ok ?s'" .
  have sp: "spare ?s' = insert j (spare s)" using g by (simp only: spare_set_inode set_sector_def) simp
  have len: "length (i_sectors ?i) = 13" "i_sectors ?i ! 12 = 0" using d by (simp_all add: dir_ok_def)
  let ?xs = "(i_sectors ?i)[k := 0]"
  have xs: "length ?xs = 13" "?xs ! 12 = 0" "?xs ! k = 0" "?xs[k := b] = i_sectors ?i"
    using len k by auto
  define A where "A = filter (\<lambda>b. b \<noteq> 0) (take k ?xs)"
  define C where "C = filter (\<lambda>b. b \<noteq> 0) (drop (Suc k) (take 12 ?xs))"
  note nw = dir_blocks_new [OF xs(1,2) k(1) xs(3) k(3), folded A_def C_def, unfolded xs(4)]
  have db0: "dir_blocks s ?i = A @ b # C" using nw(1) len(2) by (simp add: dir_blocks_direct)
  have db: "dir_blocks ?s' (inodes ?s' p) = A @ C"
    unfolding i'(1) using nw(2) xs(2) by (simp add: dir_blocks_direct)
  have old: "disk_of ?s' c = disk_of s c" if "c \<in> set (A @ C)" for c
    unfolding i'(2) using g dir_ok_data(2) [OF l d, of c] that by (auto simp: db0)
  have "entries s ?i = entries ?s' (inodes ?s' p) + live_in s b"
    by (rule entries_drop [OF db0 db old])
  moreover have "dir_ok ?s' (inodes ?s' p)"
  proof -
    have "distinct (A @ b # C)" "\<forall>c\<in>set (A @ b # C). \<exists>j<nbits (bb s). c = blkno s j \<and> j \<notin> spare s"
      using d unfolding dir_ok_def db0 by blast+
    then have "distinct (A @ C)" "\<forall>c\<in>set (A @ C). \<exists>j'<nbits (bb s). c = blkno s j' \<and> j' \<notin> insert j (spare s)"
      using j(2) by (auto 4 3)
    then show ?thesis unfolding dir_ok_def db sp
      unfolding blkno_setup [OF i'(3)] same_setup_part [OF i'(3)] i'(1) using d xs by (simp add: dir_ok_def)
  qed
  moreover have "dir_frame p s ?s'"
  proof -
    have "inode_at ?s' m = inode_at s m" if "m < 4096" for m :: u32
      using gave_inode_at [OF l u(3) that] by (simp add: inode_at_def set_sector_def set_inode_def)
    moreover have "table_lba s \<le> a" if "data_lba s \<le> a" for a
      using that l unfolding layout_ok_def word_le_nat_alt by linarith
    moreover have "other_bytes s ?s'" using g by (simp add: other_bytes_def i'(6))
    ultimately show ?thesis using g bm j(2) sp i' unfolding dir_frame_def db db0 by (auto simp: same_header_def)
  qed
  ultimately have "entries_taken p (live_in s b) 0 s ?s'"
    unfolding entries_taken_def using l' i' sp by auto
  then show ?thesis using \<open>drop_dir_block p k b s = Inr ?s'\<close> by blast
qed

section \<open>Writes outside the data blocks\<close>

text \<open>What the updates of the bitmap of the inodes and of the inodes on the disk leave alone.\<close>

definition meta_only :: "fs \<Rightarrow> fs \<Rightarrow> bool" where
  "meta_only s s' \<longleftrightarrow> same_setup s s' \<and> inodes s' = inodes s \<and> file_table s' = file_table s \<and> fs_bytes s' = fs_bytes s \<and> spare s' = spare s \<and>
     sectors_512 (disk_of s') \<and> (\<forall>a. data_lba s \<le> a \<longrightarrow> disk_of s' a = disk_of s a)"

lemma meta_only_trans:
  assumes "meta_only s t" and "meta_only t u"
  shows "meta_only s u"
proof -
  have "same_setup s t" "same_setup t u" using assms by (simp_all add: meta_only_def)
  moreover from same_setup_part [OF this(1)] same_setup_part [OF this(2)] have "cur_part t = cur_part s" "cur_part u = cur_part s" by simp_all
  ultimately show ?thesis using assms same_setup_trans [of s t u] by (simp add: meta_only_def)
qed

lemma meta_only_dir:
  assumes l: "layout_ok s" and m: "meta_only s s'" and d: "dir_ok s i"
  shows "dir_ok s' i" and "entries s' i = entries s i" and "dir_entries s' i = dir_entries s i"
    and "dots_first s' i = dots_first s i" and "dir_blocks s' i = dir_blocks s i"
proof -
  have m': "same_setup s s'" "spare s' = spare s" "\<And>a. data_lba s \<le> a \<Longrightarrow> disk_of s' a = disk_of s a"
    using m by (simp_all add: meta_only_def)
  have db: "dir_blocks s' i = dir_blocks s i" using d by (simp add: dir_blocks_direct dir_ok_def)
  show "dir_ok s' i" using d unfolding dir_ok_def db m'(2) blkno_setup [OF m'(1)] same_setup_part [OF m'(1)] .
  show "dir_blocks s' i = dir_blocks s i" by (rule db)
  show "dots_first s' i = dots_first s i"
    unfolding dots_first_def db by (intro ball_cong refl) (simp only: m'(3) [OF dir_ok_data(1) [OF l d]])
  have "map (\<lambda>b. block_entries (disk_of s' b)) (dir_blocks s i) = map (\<lambda>b. block_entries (disk_of s b)) (dir_blocks s i)"
    by (intro map_cong refl) (simp add: m'(3) [OF dir_ok_data(1) [OF l d]])
  then show "dir_entries s' i = dir_entries s i" unfolding dir_entries_def db by (simp only:)
  then show "entries s' i = entries s i" by (simp add: entries_def)
qed

lemma meta_only_layout: "layout_ok s \<Longrightarrow> meta_only s s' \<Longrightarrow> layout_ok s'"
  unfolding meta_only_def using layout_setup by blast

lemma meta_onlyI:
  assumes "sectors_512 d" and "\<forall>a. data_lba s \<le> a \<longrightarrow> d a = disk_of s a"
  shows "meta_only s (s\<lparr>disks := (disks s)(my_disk (cur_part s) := d)\<rparr>)"
  using assms by (simp add: meta_only_def spare_def)

lemma inode_sync_meta:
  assumes "layout_ok s" and "length (i_sectors i) = 13"
  shows "\<exists>s'. inode_sync i s = Inr s' \<and> meta_only s s' \<and>
    (\<forall>no<4096. inode_at s' no = (if no = ucast (ucast (i_no i) :: u8) then i\<lparr>i_open_cnts := 0, write_deny := 0\<rparr> else inode_at s no))"
proof -
  obtain d where d: "inode_sync i s = Inr (s\<lparr>disks := (disks s)(my_disk (cur_part s) := d)\<rparr>)" "sectors_512 d"
    "\<forall>a. data_lba s \<le> a \<longrightarrow> d a = disk_of s a"
    "\<forall>no<4096. decode_inode (slot_bytes d (table_lba s) (unat (no :: u32))) =
       (if no = ucast (ucast (i_no i) :: u8) then i\<lparr>i_open_cnts := 0, write_deny := 0\<rparr> else inode_at s no)"
    using inode_sync_ok [OF assms] by blast
  then show ?thesis using meta_onlyI [OF d(2,3)] by (simp add: inode_at_def)
qed

section \<open>Shrinking the directory\<close>

text \<open>The end of the operation: the size of the directory, and its inode on the disk.\<close>

lemma shrink_dir:
  assumes l: "layout_ok s" and d: "dir_ok s (inodes s p)" and sz: "24 \<le> i_size (inodes s p)"
  defines "t \<equiv> set_inode p (inodes s p\<lparr>i_size := i_size (inodes s p) - 24\<rparr>) s"
  shows "\<exists>s'. inode_sync (inodes t p) t = Inr s' \<and> entries_taken p {#} 24 s s'"
proof -
  have t: "same_setup s t" "disk_of t = disk_of s" "inodes t p = inodes s p\<lparr>i_size := i_size (inodes s p) - 24\<rparr>"
      "spare t = spare s" "\<forall>q. q \<noteq> p \<longrightarrow> inodes t q = inodes s q"
    by (simp_all add: t_def) (simp_all add: set_inode_def same_setup_def)
  have "sectors_512 (disk_of t)" unfolding t(2) by (rule layout_512 [OF l])
  from layout_setup [OF l t(1) this] have lt: "layout_ok t" .
  have db: "dir_blocks t (inodes t p) = dir_blocks s (inodes s p)" using d t(3) by (simp add: dir_blocks_direct dir_ok_def)
  have et: "entries t (inodes t p) = entries s (inodes s p)" unfolding entries_sum db t(2) ..
  have m: "unat (i_size (inodes s p) - 24) mod 24 = 0"
  proof -
    have "unat (i_size (inodes s p) - 24) = unat (i_size (inodes s p)) - 24" using sz by (simp add: unat_sub)
    moreover have "24 \<le> unat (i_size (inodes s p))" using sz by (simp add: word_le_nat_alt)
    moreover have "unat (i_size (inodes s p)) mod 24 = 0" using d by (simp add: dir_ok_def)
    ultimately show ?thesis by (simp add: le_mod_geq)
  qed
  have dt: "dir_ok t (inodes t p)"
    unfolding dir_ok_def db t(4) blkno_setup [OF t(1)] same_setup_part [OF t(1)] unfolding t(3) using d m by (simp add: dir_ok_def)
  have "length (i_sectors (inodes t p)) = 13" using dt by (simp add: dir_ok_def)
  from inode_sync_meta [OF lt this] obtain s' where s': "inode_sync (inodes t p) t = Inr s'" "meta_only t s'"
    "\<forall>no<4096. inode_at s' no = (if no = ucast (ucast (i_no (inodes t p)) :: u8)
       then (inodes t p)\<lparr>i_open_cnts := 0, write_deny := 0\<rparr> else inode_at t no)" by blast
  note mo = s'(2) [unfolded meta_only_def]
  have "same_setup t s'" "inodes s' = inodes t" "spare s' = spare t" using mo by simp_all
  moreover have "dir_frame p s s'"
  proof -
    have cp: "cur_part t = cur_part s" by (rule same_setup_part [OF t(1)])
    have "inode_at t m = inode_at s m" for m unfolding inode_at_def cp t(2) [unfolded cp] ..
    moreover have "dir_blocks s' (inodes s' p) = dir_blocks s (inodes s p)" using d mo t(3) by (simp add: dir_blocks_direct dir_ok_def)
    moreover have "file_table t = file_table s" "fs_bytes t = fs_bytes s" by (simp_all add: t_def set_inode_def)
    ultimately show ?thesis using s'(3) mo t(2,3,4) cp unfolding dir_frame_def other_bytes_def by (simp add: same_header_def)
  qed
  ultimately have "entries_taken p {#} 24 s s'"
    using meta_only_dir [OF lt s'(2) dt] meta_only_layout [OF lt s'(2)] same_setup_trans [OF t(1)] et t(3-5)
    by (simp add: entries_taken_def)
  with s'(1) show ?thesis by blast
qed

section \<open>Finding the block\<close>

text \<open>The loop passes over the blocks without the entry.\<close>

lemma delete_loop_skip:
  assumes "sectors_512 (disk_of s)" and "k \<le> m"
    and "\<forall>j<k. blocks ! j = 0 \<or> blocks ! j \<le> max_lba \<and> \<not> list_ex (sought no) (block_entries (disk_of s (blocks ! j)))"
  shows "delete_loop m 0 p no 21 blocks s = delete_loop (m - k) k p no 21 blocks s"
  using assms(2,3)
proof (induction k)
  case (Suc k)
  then have IH: "delete_loop m 0 p no 21 blocks s = delete_loop (m - k) k p no 21 blocks s" by simp
  have m: "m - k = Suc (m - Suc k)" using Suc.prems(1) by simp
  have "delete_loop (m - k) k p no 21 blocks s = delete_loop (m - Suc k) (Suc k) p no 21 blocks s"
  proof (cases "blocks ! k = 0")
    case False
    let ?buf = "disk_of s (blocks ! k)"
    have b: "blocks ! k \<le> max_lba" "\<not> list_ex (sought no) (block_entries ?buf)" using Suc.prems(2) False by auto
    have "length ?buf = 512" using assms(1) by (simp add: sectors_512_def)
    moreover have "filter (sought no) (block_entries ?buf) = []" using b(2) by (auto simp: filter_empty_conv list_ex_iff)
    moreover have "find (\<lambda>j. sought no (entry_at ?buf j)) [0..<21] = None"
      using b(2) by (auto simp: find_None_iff list_ex_iff block_entries_def)
    ultimately show ?thesis using False read_block [OF assms(1) b(1)] scan_block_512 [of ?buf no] by (simp add: m)
  qed (simp add: m)
  with IH show ?case by simp
qed simp

text \<open>The block of the entry: it holds the entry once, and nothing else in use when it counts one and is
  not the first.\<close>

lemma sought_block:
  assumes one: "filter_mset (sought no) (entries s i) = {#e#}" and b: "b \<in> set (dir_blocks s i)"
    and ex: "list_ex (sought no) (block_entries (disk_of s b))" and len: "length (disk_of s b) = 512" and dots: "dots_first s i"
  defines "es \<equiv> block_entries (disk_of s b)"
  shows "\<exists>k c. scan_block (disk_of s b) no 21 0 (False, 0, None) = Inr (list_ex dot es, c, Some k) \<and> k < 21 \<and> es ! k = e \<and>
    live e \<and> 1 \<le> c \<and> (c = 1 \<and> \<not> list_ex dot es \<longrightarrow> live_in s b = {#e#})"
proof -
  have sl: "sought no x \<Longrightarrow> live x" "sought no x \<Longrightarrow> ordinary x" "ordinary x \<Longrightarrow> live x" for x
    by (simp_all add: sought_def ordinary_def)
  obtain xs ys where "dir_blocks s i = xs @ b # ys" using b by (auto dest: split_list)
  then have "live_in s b \<subseteq># entries s i"
    unfolding entries_sum map_append list.map sum_list_append sum_list.Cons by simp
  then have "filter_mset (sought no) (live_in s b) \<subseteq># {#e#}" using one multiset_filter_mono by metis
  moreover have "filter_mset (sought no) (live_in s b) = mset (filter (sought no) es)"
    using sl(1) by (simp add: es_def filter_filter_mset) (metis (no_types, lifting) filter_mset_cong)
  ultimately have sub: "mset (filter (sought no) es) \<subseteq># {#e#}" by simp
  then have n1: "length (filter (sought no) es) \<le> 1"
    using size_mset_mono [OF sub] unfolding size_mset by simp
  let ?f = "find (\<lambda>j. sought no (entry_at (disk_of s b) j)) [0..<21]"
  have "?f \<noteq> None" using ex by (auto simp: find_None_iff list_ex_iff block_entries_def)
  then obtain k where k: "?f = Some k" by blast
  then have "k < 21" "sought no (es ! k)" using find_SomeD [OF k] by (auto simp: es_def block_entries_def)
  moreover from this have "es ! k \<in># mset (filter (sought no) es)" by (simp add: es_def)
  then have ek: "es ! k = e" using mset_subset_eqD [OF sub] by force
  define c :: u8 where "c = of_nat (length (filter ordinary es))"
  have "length (filter ordinary es) \<le> 21" using length_filter_le [of ordinary es] by (simp add: es_def)
  then have uc: "unat c = length (filter ordinary es)" by (simp add: c_def unat_of_nat)
  have eo: "e \<in> set (filter ordinary es)" using ek \<open>k < 21\<close> \<open>sought no (es ! k)\<close> sl(2) by (auto simp: es_def)
  then have "0 < length (filter ordinary es)" by (meson length_pos_if_in_set)
  then have "1 \<le> unat c" unfolding uc by linarith
  then have "1 \<le> c" by (simp add: word_le_nat_alt)
  moreover have "live_in s b = {#e#}" if "c = 1" "\<not> list_ex dot es"
  proof -
    have "\<not> list_ex (\<lambda>e. live e \<and> entry_name e = [46, 46]) es" using dots b that(2) by (auto simp: dots_first_def es_def)
    then have "filter live es = filter ordinary es"
      using that(2) by (intro filter_cong) (auto simp: list_ex_iff ordinary_def dot_def)
    moreover have "length (filter ordinary es) = 1" using uc that(1) by simp
    ultimately have "filter live es = [e]" using eo by (cases "filter ordinary es") auto
    then show ?thesis by (simp only: es_def mset.simps)
  qed
  moreover have "scan_block (disk_of s b) no 21 0 (False, 0, None) = Inr (list_ex dot es, c, Some k)"
    using scan_block_512 [OF len n1 [unfolded es_def]] k by (simp add: es_def c_def)
  ultimately show ?thesis using ek sl(1) by blast
qed

lemma delete_dir_entry_ok:
  assumes l: "layout_ok s" and p: "p = dir_inode (dirs s pd)" and d: "dir_ok s (inodes s p)" and dots: "dots_first s (inodes s p)"
    and one: "filter_mset (sought no) (entries s (inodes s p)) = {#e#}" and sz: "24 \<le> i_size (inodes s p)"
  shows "\<exists>s'. delete_dir_entry pd no s = Inr (True, s') \<and> entries_taken p {#e#} 24 s s'"
proof -
  let ?i = "inodes s p" and ?bs = "take 12 (i_sectors (inodes s p)) @ replicate 128 0"
  have len: "length (i_sectors ?i) = 13" "i_sectors ?i ! 12 = 0" "dir_entry_size (sb (cur_part s)) = 24"
    using d by (simp_all add: dir_ok_def)
  have s512: "sectors_512 (disk_of s)" by (rule layout_512 [OF l])
  have nth: "?bs ! j = i_sectors ?i ! j" if "j < 12" for j using len(1) that by (simp add: nth_append)
  let ?P = "\<lambda>k. k < 12 \<and> i_sectors ?i ! k \<noteq> 0 \<and> list_ex (sought no) (block_entries (disk_of s (i_sectors ?i ! k)))"
  have "e \<in># filter_mset (sought no) (entries s ?i)" using one by simp
  then have "sought no e" "e \<in> set (dir_entries s ?i)" by (simp_all add: entries_def)
  then obtain b where b: "b \<in> set (dir_blocks s ?i)" "list_ex (sought no) (block_entries (disk_of s b))"
    by (auto simp: dir_entries_def list_ex_iff)
  have "\<exists>k. ?P k" using b len by (auto simp: dir_blocks_direct in_set_conv_nth)
  define k where "k = (LEAST k. ?P k)"
  have k: "k < 12" "i_sectors ?i ! k \<noteq> 0" "list_ex (sought no) (block_entries (disk_of s (i_sectors ?i ! k)))"
    using LeastI_ex [OF \<open>\<exists>k. ?P k\<close>] by (simp_all add: k_def)
  let ?b = "i_sectors ?i ! k"
  have bm: "?b \<in> set (dir_blocks s ?i)" by (rule dir_ok_block(1) [OF l d k(1,2)])
  have "\<forall>j<k. ?bs ! j = 0 \<or> ?bs ! j \<le> max_lba \<and> \<not> list_ex (sought no) (block_entries (disk_of s (?bs ! j)))"
  proof (intro allI impI)
    fix j assume j: "j < k"
    then have "\<not> ?P j" using not_less_Least [of j ?P] unfolding k_def by blast
    then show "?bs ! j = 0 \<or> ?bs ! j \<le> max_lba \<and> \<not> list_ex (sought no) (block_entries (disk_of s (?bs ! j)))"
      using j k(1) dir_ok_block(2) [OF l d, of j] nth [of j] by auto
  qed
  note skip = delete_loop_skip [OF s512 _ this, of 140 p]
  have m: "140 - k = Suc (139 - k)" using k(1) by simp
  from skip have skip: "delete_loop 140 0 p no 21 ?bs s = delete_loop (Suc (139 - k)) k p no 21 ?bs s"
    unfolding m using k(1) by (simp del: delete_loop.simps)
  let ?buf = "disk_of s ?b" and ?es = "block_entries (disk_of s ?b)"
  have lb: "length ?buf = 512" using s512 by (simp add: sectors_512_def)
  obtain j c where j: "scan_block ?buf no 21 0 (False, 0, None) = Inr (list_ex dot ?es, c, Some j)" "j < 21" "?es ! j = e"
    "live e" "1 \<le> c" "c = 1 \<and> \<not> list_ex dot ?es \<Longrightarrow> live_in s ?b = {#e#}"
    using sought_block [OF one bm k(3) lb dots] by blast
  let ?do = "if c = 1 \<and> \<not> list_ex dot ?es then drop_dir_block p k ?b s
    else write_disk ?b (splice ?buf (24 * j) (replicate 24 0)) 1 s"
  have "\<exists>t. ?do = Inr t \<and> entries_taken p {#e#} 0 s t"
  proof (cases "c = 1 \<and> \<not> list_ex dot ?es")
    case True
    show ?thesis using drop_block [OF l d k(1) refl k(2)] j(6) [OF True] by (simp add: True)
  next
    case False
    have "live (?es ! j)" using j(3,4) by simp
    from clear_entry [OF l d bm j(2) this] False show ?thesis by (simp only: j(3) if_False)
  qed
  then obtain t where t: "?do = Inr t" "entries_taken p {#e#} 0 s t" by blast
  then have tt: "layout_ok t" "dir_ok t (inodes t p)" "24 \<le> i_size (inodes t p)"
    using sz by (simp_all add: entries_taken_def)
  then have t24: "dir_entry_size (sb (cur_part t)) = 24" by (simp add: dir_ok_def)
  obtain s' where s': "inode_sync (inodes (set_inode p (inodes t p\<lparr>i_size := i_size (inodes t p) - 24\<rparr>) t) p)
      (set_inode p (inodes t p\<lparr>i_size := i_size (inodes t p) - 24\<rparr>) t) = Inr s'" "entries_taken p {#} 24 t s'"
    using shrink_dir [OF tt(1-3)] by blast
  have "read_disk ?b 1 s = Inr ?buf" by (rule read_block [OF s512 dir_ok_data(3) [OF l d bm]])
  then have "delete_loop (Suc (139 - k)) k p no 21 ?bs s = Inr (True, s')"
    using nth [OF k(1)] k(2) j(1,5) t(1) tt(3) t24 s'(1) len(3) by (auto simp: Let_def split: if_splits)
  then have "delete_dir_entry pd no s = Inr (True, s')"
    unfolding delete_dir_entry_def Let_def p [symmetric] using len(2,3) skip by (simp add: all_blocks_def entries_per_sec_def)
  moreover have "entries_taken p {#e#} 24 s s'" using entries_taken_trans [OF t(2) s'(2)] by simp
  ultimately show ?thesis by blast
qed

section \<open>Properties\<close>

text \<open>C10 \<open>delete_dir_entry\<close> implements the removal from a multiset: in a directory with direct blocks only, where
  one entry in use (other than \<open>.\<close> and \<open>..\<close>) has the inode number, the entries in use afterwards are the others,
  the size shrinks by one entry, no other inode changes and no block is lost.\<close>

theorem delete_dir_entry_removes:
  assumes "layout_ok s" and "p = dir_inode (dirs s pd)" and "dir_ok s (inodes s p)" and "dots_first s (inodes s p)"
    and "filter_mset (sought no) (entries s (inodes s p)) = {#e#}" and "24 \<le> i_size (inodes s p)"
  shows "\<exists>s'. delete_dir_entry pd no s = Inr (True, s') \<and>
    entries s (inodes s p) = add_mset e (entries s' (inodes s' p)) \<and> i_size (inodes s' p) = i_size (inodes s p) - 24 \<and>
    layout_ok s' \<and> dir_ok s' (inodes s' p) \<and> spare s \<subseteq> spare s' \<and> (\<forall>q. q \<noteq> p \<longrightarrow> inodes s' q = inodes s q)"
  using delete_dir_entry_ok [OF assms] unfolding entries_taken_def by auto

theorem delete_dir_entry_removes_witness:
  "\<exists>s1 s2. sync_dir_entry 0xc0600000 sample_entry dir_fs = Inr (True, s1) \<and> delete_dir_entry 0xc0600000 5 s1 = Inr (True, s2) \<and>
    entries s2 (inodes s2 0xc0500000) = {#}"
proof -
  let ?p = "0xc0500000"
  obtain s1 where s1: "sync_dir_entry 0xc0600000 sample_entry dir_fs = Inr (True, s1)" "entry_added ?p sample_entry dir_fs s1"
    using sync_dir_entry_ok [OF dir_fs_layout dir_fs_hyps(1) [of "0xc0600000", symmetric] dir_fs_dir dir_fs_hyps(2-5)] by blast
  have a: "layout_ok s1" "dir_ok s1 (inodes s1 ?p)" "dirs s1 = dirs dir_fs" "entries s1 (inodes s1 ?p) = {#sample_entry#}"
    "set (dir_entries s1 (inodes s1 ?p)) \<subseteq> {sample_entry, no_entry}" "i_size (inodes s1 ?p) = i_size (inodes dir_fs ?p) + 24"
    using s1(2) by (simp_all add: entry_added_def same_setup_def dir_fs_blocks entries_def)
  have n: "entry_name sample_entry = [97]" "entry_name no_entry = []" "live sample_entry" "e_no sample_entry = 5"
    by (simp_all add: entry_name_def sample_entry_def no_entry_def live_def)
  have "entry_name x \<noteq> [46, 46]" if "b \<in> set (dir_blocks s1 (inodes s1 ?p))" "x \<in> set (block_entries (disk_of s1 b))" for b x
    using a(5) that n(1,2) by (fastforce simp: dir_entries_def)
  then have "dots_first s1 (inodes s1 ?p)" by (auto simp: dots_first_def list_ex_iff)
  moreover have "filter_mset (sought 5) (entries s1 (inodes s1 ?p)) = {#sample_entry#}"
    using n by (simp add: a(4) sought_def ordinary_def)
  moreover have "24 \<le> i_size (inodes s1 ?p)" by (simp add: a(6) dir_fs_fields)
  moreover have "?p = dir_inode (dirs s1 0xc0600000)" using a(3) dir_fs_hyps(1) by simp
  ultimately obtain s2 where "delete_dir_entry 0xc0600000 5 s1 = Inr (True, s2)"
    "entries s1 (inodes s1 ?p) = add_mset sample_entry (entries s2 (inodes s2 ?p))"
    using delete_dir_entry_removes [OF a(1) _ a(2)] by blast
  then show ?thesis using s1(1) a(4) by auto
qed

end
