(* ===== verification/Creation.thy ===== *)
theory Creation
  imports Removal
begin

unbundle bit_operations_syntax

text \<open>
  Whole calls of \<open>file_create\<close> in \<^verbatim>\<open>fs/file.c\<close>: an inode number and an entry of the directory are taken, the
  inode is brought to the disk and a descriptor is installed.
\<close>

section \<open>The bitmap of the inodes\<close>

abbreviation ib :: "fs \<Rightarrow> bitmap" where
  "ib s \<equiv> inode_bitmap (cur_part s)"

definition inode_spare :: "fs \<Rightarrow> nat set" where
  "inode_spare s = {n. n < nbits (ib s) \<and> \<not> taken (fs_bytes s) (ib s) n}"

text \<open>One sector of bits before the table of the inodes, in memory apart from the bitmap of the blocks.\<close>

definition inode_map_ok :: "fs \<Rightarrow> bool" where
  "inode_map_ok s \<longleftrightarrow> bitmap_ok (ib s) \<and> nbits (ib s) \<le> 4096 \<and> inode_bitmap_lba (sb (cur_part s)) < table_lba s \<and>
     (\<forall>i<nbits (ib s). \<forall>j<nbits (bb s). bits (ib s) + of_nat (i div 8) \<noteq> bits (bb s) + of_nat (j div 8))"

lemma inode_alloc_ok:
  assumes l: "layout_ok s" and im: "inode_map_ok s" and "inode_spare s \<noteq> {}"
  shows "\<exists>no m. inode_bitmap_alloc s = Inr (no, s\<lparr>fs_bytes := m\<rparr>) \<and> no \<noteq> -1 \<and> unat no \<in> inode_spare s \<and> unat no < 4096 \<and>
    spare (s\<lparr>fs_bytes := m\<rparr>) = spare s \<and> (\<forall>n\<in>inode_spare s. unat no \<le> n)"
proof -
  have ok: "bitmap_ok (ib s)" "nbits (ib s) \<le> 4096" using im by (simp_all add: inode_map_ok_def)
  have "\<not> (\<forall>j<nbits (ib s). taken (fs_bytes s) (ib s) j)" using assms(3) by (auto simp: inode_spare_def)
  then obtain r where r: "bitmap_scan (fs_bytes s) (ib s) 1 = Inr r" using bitmap_scan_unfold [OF ok(1)] by auto
  note least = bitmap_scan_one [OF ok(1) r]
  have r4: "unat r < 4096" using least(1) ok(2) by linarith
  then have "r \<noteq> -1" by (auto simp: unsigned_minus_1_eq_mask mask_eq_exp_minus_1)
  moreover obtain m where m: "bitmap_set (fs_bytes s) (ib s) r 1 = Inr m" using bitmap_set_ok by blast
  have keep: "taken m (bb s) j \<longleftrightarrow> taken (fs_bytes s) (bb s) j" if "j < nbits (bb s)" for j
  proof -
    have "bits (ib s) + of_nat (unat r div 8) \<noteq> bits (bb s) + of_nat (j div 8)"
      using im least(1) that unfolding inode_map_ok_def by blast
    then have "bits (bb s) + of_nat (j div 8) \<noteq> bits (ib s) + r div 8" by simp
    then show ?thesis unfolding taken_def using bitmap_set_frame [OF m] by metis
  qed
  then have "spare (s\<lparr>fs_bytes := m\<rparr>) = spare s" by (auto simp: spare_def)
  moreover have "inode_bitmap_alloc s = Inr (r, s\<lparr>fs_bytes := m\<rparr>)"
    using r m \<open>r \<noteq> -1\<close> by (simp add: inode_bitmap_alloc_def Let_def)
  moreover have "unat r \<in> inode_spare s" using least by (simp add: inode_spare_def)
  moreover have "\<forall>n\<in>inode_spare s. unat r \<le> n" using least(3) by (auto simp: inode_spare_def not_less [symmetric])
  ultimately show ?thesis using r4 by blast
qed

lemma inode_bitmap_sync_ok:
  assumes l: "layout_ok s" and im: "inode_map_ok s" and "unat no < 4096"
  shows "\<exists>s'. bitmap_sync no INODE_BITMAP s = Inr s' \<and> meta_only s s' \<and> (\<forall>no<4096. inode_at s' no = inode_at s no)"
proof -
  let ?a = "inode_bitmap_lba (sb (cur_part s))"
  let ?xs = "map (\<lambda>i. fs_bytes s (bits (ib s) + of_nat i)) [0..<512]"
  have q: "no div 4096 = 0" using assms(3) by (simp add: word_unat_eq_iff unat_div)
  have lim: "unat (table_lba s) + 608 \<le> unat (data_lba s)" "unat (data_lba s) \<le> 163839" "?a < table_lba s"
    using l im by (simp_all add: layout_ok_def inode_map_ok_def)
  then have a: "?a \<le> max_lba" "?a < data_lba s" unfolding word_le_nat_alt word_less_nat_alt by simp_all
  let ?d = "(disk_of s)(?a := ?xs)"
  have "bitmap_sync no INODE_BITMAP s = Inr (s\<lparr>disks := (disks s)(my_disk (cur_part s) := ?d)\<rparr>)"
    using write_block [OF a(1), of ?xs s] by (simp add: bitmap_sync_def Let_def q)
  moreover have "sectors_512 ?d" using layout_512 [OF l] by (simp add: sectors_512_def)
  moreover have "\<forall>b. data_lba s \<le> b \<longrightarrow> ?d b = disk_of s b" using a(2) by auto
  moreover have "slot_bytes ?d (table_lba s) n = slot_bytes (disk_of s) (table_lba s) n" if "n < 4096" for n
    by (rule slot_same [OF l _ that]) (use lim(3) in auto)
  ultimately show ?thesis using meta_onlyI [of ?d s] by (simp add: inode_at_def word_less_nat_alt)
qed

section \<open>Creating a file\<close>

definition file_entry :: "u8 list \<Rightarrow> u32 \<Rightarrow> dir_entry" where
  "file_entry name no = \<lparr>filename = name @ replicate (16 - length name) 0, e_no = no, f_type = FT_REGULAR\<rparr>"

lemma create_file_entry: "length name \<le> 16 \<Longrightarrow> create_dir_entry name no (ucast FT_REGULAR) = Inr (file_entry name no)"
  by (simp add: create_dir_entry_def file_entry_def)

lemma file_entry_ok: "length name \<le> 16 \<Longrightarrow> length (filename (file_entry name no)) = 16 \<and> live (file_entry name no)"
  by (simp add: file_entry_def live_def)

lemma dir_room_same: "disk_of s' = disk_of s \<Longrightarrow> dir_room s' i = dir_room s i"
  by (simp add: dir_room_def)

text \<open>What the creation of a file does: \<open>p\<close> is the inode of the directory, \<open>q\<close> the new inode in memory, \<open>no\<close> its
  number, \<open>k\<close> the descriptor and \<open>slot\<close> the place in the table of open files.\<close>

definition created :: "addr \<Rightarrow> addr \<Rightarrow> u8 list \<Rightarrow> u32 \<Rightarrow> nat \<Rightarrow> u32 \<Rightarrow> u8 \<Rightarrow> fs \<Rightarrow> fs \<Rightarrow> bool" where
  "created p q name no k slot flag s s' \<longleftrightarrow> unat no \<in> inode_spare s \<and> (\<forall>n\<in>inode_spare s. unat no \<le> n) \<and>
     entries s' (inodes s' p) = add_mset (file_entry name no) (entries s (inodes s p)) \<and>
     set (dir_entries s' (inodes s' p)) \<subseteq> insert (file_entry name no) (insert no_entry (set (dir_entries s (inodes s p)))) \<and>
     dir_ok s' (inodes s' p) \<and> layout_ok s' \<and> inodes s' q = (inode_init no)\<lparr>i_open_cnts := 1\<rparr> \<and>
     (no < 256 \<longrightarrow> inode_at s' no = inode_init no) \<and> (\<forall>x. x \<noteq> p \<longrightarrow> x \<noteq> q \<longrightarrow> inodes s' x = inodes s x) \<and>
     file_table s' = (file_table s)[unat slot := \<lparr>fd_pos = 0, fd_flag = ucast flag, fd_inode = q\<rparr>] \<and>
     fd_table s' = (fd_table s)[k := slot] \<and> cur_part s' = (cur_part s)\<lparr>open_inodes := q # open_inodes (cur_part s)\<rparr> \<and>
     dirs s' = dirs s \<and> root_dir s' = root_dir s \<and> i_size (inodes s' p) = i_size (inodes s p) + 24 \<and>
     spare s' \<subseteq> spare s \<and> card (spare s) \<le> Suc (card (spare s')) \<and> same_header (inodes s p) (inodes s' p) \<and>
     (entry_name (file_entry name no) \<noteq> [46, 46] \<longrightarrow> dots_first s (inodes s p) \<longrightarrow> dots_first s' (inodes s' p)) \<and>
     (\<forall>a. data_lba s \<le> a \<longrightarrow> a \<notin> set (dir_blocks s' (inodes s' p)) \<longrightarrow> disk_of s' a = disk_of s a) \<and>
     (\<forall>b\<in>set (dir_blocks s' (inodes s' p)). b \<in> set (dir_blocks s (inodes s p)) \<or> b \<notin> used s)"

lemma file_create_ok:
  assumes l: "layout_ok s" and im: "inode_map_ok s" and ns: "inode_spare s \<noteq> {}"
    and p: "p = dir_inode (dirs s pd)" and d: "dir_ok s (inodes s p)" and rm: "dir_room s (inodes s p)" and sp: "spare s \<noteq> {}"
    and sz: "unat (i_size (inodes s p)) + 24 < 4294967296" and name: "length name \<le> 16"
    and m: "mallocs s = io # q # ms" "io \<noteq> NULL" "q \<noteq> NULL" "q \<noteq> p"
    and slot: "get_free_slot_in_global s \<noteq> -1" and fd: "free_fd (fd_table s) (8 - 3) 3 = Some k"
  shows "\<exists>no s'. file_create pd name flag s = Inr (of_nat k, s') \<and>
    created p q name no k (get_free_slot_in_global s) flag s s' \<and> mallocs s' = ms"
proof -
  let ?slot = "get_free_slot_in_global s"
  let ?s1 = "s\<lparr>mallocs := q # ms\<rparr>"
  have s1: "layout_ok ?s1" "inode_map_ok ?s1" "inode_spare ?s1 = inode_spare s"
    using l im by (simp_all add: layout_ok_def table_ok_def inode_map_ok_def inode_spare_def)
  then obtain no mm where a: "inode_bitmap_alloc ?s1 = Inr (no, ?s1\<lparr>fs_bytes := mm\<rparr>)" "no \<noteq> -1" "unat no \<in> inode_spare s" "unat no < 4096"
    "spare (?s1\<lparr>fs_bytes := mm\<rparr>) = spare ?s1" "\<forall>n\<in>inode_spare s. unat no \<le> n" using inode_alloc_ok [of ?s1] ns by auto
  let ?s4 = "set_inode q ((inode_init no)\<lparr>write_deny := 0\<rparr>) (set_file (unat ?slot) \<lparr>fd_pos = 0, fd_flag = ucast flag, fd_inode = q\<rparr>
     (set_inode q (inode_init no) (s\<lparr>mallocs := ms, fs_bytes := mm\<rparr>)))"
  have s4: "cur_part ?s4 = cur_part s" "disk_of ?s4 = disk_of s" "dirs ?s4 = dirs s" "fd_table ?s4 = fd_table s" "inodes ?s4 p = inodes s p"
    "inodes ?s4 q = inode_init no" "file_table ?s4 = (file_table s)[unat ?slot := \<lparr>fd_pos = 0, fd_flag = ucast flag, fd_inode = q\<rparr>]"
    "\<forall>x. x \<noteq> q \<longrightarrow> inodes ?s4 x = inodes s x" "fs_bytes ?s4 = mm"
    using m(4) by (simp_all add: set_inode_def set_file_def inode_init_def)
  have sp4: "spare ?s4 = spare s" using a(5) by (simp add: spare_def set_inode_def set_file_def)
  have l4: "layout_ok ?s4" using l s4(1,2) by (simp add: layout_ok_def table_ok_def)
  have im4: "inode_map_ok ?s4" using im s4(1) by (simp add: inode_map_ok_def)
  have d4: "dir_ok ?s4 (inodes s p)" "entries ?s4 (inodes s p) = entries s (inodes s p)" "dir_entries ?s4 (inodes s p) = dir_entries s (inodes s p)"
    "dir_blocks ?s4 (inodes s p) = dir_blocks s (inodes s p)" "dots_first ?s4 (inodes s p) = dots_first s (inodes s p)" "used ?s4 = used s"
  proof -
    have db: "dir_blocks ?s4 (inodes s p) = dir_blocks s (inodes s p)" using d by (simp add: dir_blocks_direct dir_ok_def)
    show "dir_entries ?s4 (inodes s p) = dir_entries s (inodes s p)" unfolding dir_entries_def db s4(2) ..
    then show "entries ?s4 (inodes s p) = entries s (inodes s p)" by (simp add: entries_def)
    have "blkno ?s4 = blkno s" using s4(1) by (simp add: blkno_def fun_eq_iff)
    then show "dir_ok ?s4 (inodes s p)" "used ?s4 = used s" using d unfolding dir_ok_def used_alt db sp4 s4(1) by simp_all
    show "dir_blocks ?s4 (inodes s p) = dir_blocks s (inodes s p)" by (rule db)
    show "dots_first ?s4 (inodes s p) = dots_first s (inodes s p)" unfolding dots_first_def db s4(2) ..
  qed
  let ?e = "file_entry name no"
  obtain s5 where s5: "sync_dir_entry pd ?e ?s4 = Inr (True, s5)" "entry_added p ?e ?s4 s5"
    using sync_dir_entry_ok [OF l4, of p pd ?e] p d4(1) rm sp sz file_entry_ok [OF name] s4(3,5) sp4 dir_room_same [OF s4(2)] by auto
  have e5: "same_setup ?s4 s5" "layout_ok s5" "dir_ok s5 (inodes s5 p)" "entries s5 (inodes s5 p) = add_mset ?e (entries s (inodes s p))"
    "\<forall>x. x \<noteq> p \<longrightarrow> inodes s5 x = inodes ?s4 x" "file_table s5 = file_table ?s4" "i_size (inodes s5 p) = i_size (inodes s p) + 24" "same_header (inodes s p) (inodes s5 p)"
    using s5(2) d4(2) s4(5) by (simp_all add: entry_added_def)
  have q5: "inodes s5 q = inode_init no" using e5(5) m(4) s4(6) by simp
  have dirs5: "dirs s5 = dirs s" "fd_table s5 = fd_table s" "cur_part s5 = cur_part s"
    using e5(1) s4(1,3,4) by (simp_all add: same_setup_def)
  obtain s6 where s6: "inode_sync (inodes s5 p) s5 = Inr s6" "meta_only s5 s6"
    using inode_sync_meta [OF e5(2), of "inodes s5 p"] e5(3) by (auto simp: dir_ok_def)
  have l6: "layout_ok s6" by (rule meta_only_layout [OF e5(2) s6(2)])
  have i6: "inodes s6 = inodes s5" using s6(2) by (simp add: meta_only_def)
  have len: "length (i_sectors (inode_init no)) = 13" by (simp add: inode_init_def)
  obtain s7 where s7: "inode_sync (inode_init no) s6 = Inr s7" "meta_only s6 s7"
    "\<forall>n<4096. inode_at s7 n = (if n = ucast (ucast (i_no (inode_init no)) :: u8)
        then (inode_init no)\<lparr>i_open_cnts := 0, write_deny := 0\<rparr> else inode_at s6 n)"
    using inode_sync_meta [OF l6 len] by blast
  have l7: "layout_ok s7" by (rule meta_only_layout [OF l6 s7(2)])
  have m57: "meta_only s5 s7" by (rule meta_only_trans [OF s6(2) s7(2)])
  have "inode_map_ok s7" using im4 m57 e5(1) by (simp add: meta_only_def same_setup_def inode_map_ok_def)
  then obtain s8 where s8: "bitmap_sync no INODE_BITMAP s7 = Inr s8" "meta_only s7 s8" "\<forall>n<4096. inode_at s8 n = inode_at s7 n"
    using inode_bitmap_sync_ok [OF l7 _ a(4)] by blast
  have m58: "meta_only s5 s8" by (rule meta_only_trans [OF m57 s8(2)])
  then have e8: "inodes s8 = inodes s5" "file_table s8 = file_table s5" "fd_table s8 = fd_table s5" "cur_part s8 = cur_part s5"
    by (simp_all add: meta_only_def same_setup_def)
  let ?s9 = "set_inode q ((inode_init no)\<lparr>i_open_cnts := 1\<rparr>) (s8\<lparr>cur_part := (cur_part s8)\<lparr>open_inodes := q # open_inodes (cur_part s8)\<rparr>\<rparr>)"
  let ?s' = "?s9\<lparr>fd_table := (fd_table s)[k := ?slot]\<rparr>"
  have in7: "inodes s7 = inodes s5" "dirs s5 pd = dirs s pd" using m57 dirs5(1) by (simp_all add: meta_only_def)
  have alloc: "heap_alloc s = (io, ?s1)" "heap_alloc (?s1\<lparr>fs_bytes := mm\<rparr>) = (q, s\<lparr>mallocs := ms, fs_bytes := mm\<rparr>)"
    using m(1) by (simp_all add: heap_alloc_def)
  have sl: "get_free_slot_in_global (set_inode q (inode_init no) (s\<lparr>mallocs := ms, fs_bytes := mm\<rparr>)) = ?slot"
    by (simp add: get_free_slot_in_global_def set_inode_def)
  have "inodes (set_file (unat ?slot) f (set_inode q (inode_init no) (s\<lparr>mallocs := ms, fs_bytes := mm\<rparr>))) q = inode_init no" for f
    by (simp add: set_inode_def set_file_def)
  then have fc: "file_create pd name flag s = Inr (pcb_fd_install ?slot ?s9)"
    using m(2,3) a(1,2) slot s5(1) s6(1) s7(1) s8(1) create_file_entry [OF name] q5 i6 in7 e8(1)
    by (simp add: file_create_def alloc sl Let_def p)
  have inst: "pcb_fd_install ?slot ?s9 = (of_nat k, ?s')"
    using fd e8(3) dirs5(2) by (simp add: pcb_fd_install_def set_inode_def)
  have "disk_of ?s' = disk_of s8" "spare ?s' = spare s8" "inodes ?s' p = inodes s5 p" "blkno ?s' = blkno s8"
    "sb (cur_part ?s') = sb (cur_part s8)" "bb ?s' = bb s8" "inodes ?s' q = (inode_init no)\<lparr>i_open_cnts := 1\<rparr>"
    using m(4) e8(1) by (simp_all add: set_inode_def spare_def blkno_def fun_eq_iff)
  note f = this
  note dir8 = meta_only_dir [OF e5(2) m58 e5(3)]
  have db: "dir_blocks ?s' (inodes s5 p) = dir_blocks s8 (inodes s5 p)" using dir8(1) by (simp add: dir_blocks_direct dir_ok_def)
  have dots: "dots_first ?s' (inodes s5 p)" if "entry_name ?e \<noteq> [46, 46]" "dots_first s (inodes s p)"
    using s5(2) that d4(5) s4(5) dir8(4) unfolding dots_first_def [of ?s'] db f(1) dots_first_def [of s8, symmetric] by (simp add: entry_added_def)
  have keep: "disk_of ?s' a = disk_of s a" if "data_lba s \<le> a" "a \<notin> set (dir_blocks ?s' (inodes s5 p))" for a
  proof -
    have a: "data_lba ?s4 \<le> a" "data_lba s5 \<le> a" "a \<notin> set (dir_blocks s5 (inodes s5 p))"
      using that s4(1) dirs5(3) db dir8(5) by simp_all
    have "disk_of s8 a = disk_of s5 a" using m58 a(2) unfolding meta_only_def by blast
    moreover have "disk_of s5 a = disk_of ?s4 a" using s5(2) a(1,3) unfolding entry_added_def by blast
    ultimately show ?thesis unfolding f(1) s4(2) by (rule trans)
  qed
  have own: "\<forall>b\<in>set (dir_blocks ?s' (inodes s5 p)). b \<in> set (dir_blocks s (inodes s p)) \<or> b \<notin> used s"
    using s5(2) d4(4,6) s4(5) unfolding db dir8(5) entry_added_def by simp
  have de: "dir_entries ?s' (inodes s5 p) = dir_entries s8 (inodes s5 p)" unfolding dir_entries_def db f(1) ..
  then have "entries ?s' (inodes s5 p) = entries s8 (inodes s5 p)" by (simp add: entries_def)
  moreover have "dir_ok ?s' (inodes s5 p)" using dir8(1) unfolding dir_ok_def db f(2,4,5,6) .
  moreover have "layout_ok ?s'" using meta_only_layout [OF e5(2) m58] unfolding layout_ok_def table_ok_def f(1,5,6)
    by (simp add: set_inode_def)
  moreover have "inode_at ?s' no = inode_init no" if "no < 256"
  proof -
    have "unat no < 256" using that by (simp add: word_less_nat_alt)
    then have "ucast (ucast no :: u8) = no" by (simp add: word_unat_eq_iff unsigned_ucast_eq unsigned_take_bit_eq take_bit_nat_eq_self_iff)
    moreover have "no < 4096" using a(4) by (simp add: word_less_nat_alt)
    moreover have "inode_at ?s' no = inode_at s8 no" unfolding inode_at_def f(1,5) ..
    ultimately show ?thesis using s8(3) s7(3) by (simp add: inode_init_def)
  qed
  moreover have "\<forall>x. x \<noteq> p \<longrightarrow> x \<noteq> q \<longrightarrow> inodes ?s' x = inodes s x" using e5(5) s4(8) e8(1) by (simp add: set_inode_def)
  moreover have "file_table ?s' = (file_table s)[unat ?slot := \<lparr>fd_pos = 0, fd_flag = ucast flag, fd_inode = q\<rparr>]"
    using e8(2) e5(6) s4(7) by (simp add: set_inode_def)
  moreover have "cur_part ?s' = (cur_part s)\<lparr>open_inodes := q # open_inodes (cur_part s)\<rparr>" "fd_table ?s' = (fd_table s)[k := ?slot]"
    using e8(4) dirs5(3) by (simp_all add: set_inode_def)
  moreover have "spare ?s' = spare s5" "mallocs ?s' = ms" "dirs ?s' = dirs s" "root_dir ?s' = root_dir s"
    using f(2) m58 e5(1) by (simp_all add: meta_only_def) (simp_all add: set_inode_def set_file_def same_setup_def)
  moreover have "spare s5 \<subseteq> spare s" "card (spare s) \<le> Suc (card (spare s5))"
    "set (dir_entries s5 (inodes s5 p)) \<subseteq> insert ?e (insert no_entry (set (dir_entries s (inodes s p))))"
    using s5(2) sp4 s4(5) d4(3) by (simp_all add: entry_added_def)
  ultimately have "created p q name no k ?slot flag s ?s'" "mallocs ?s' = ms"
    using a(3,6) e5(4,7,8) dir8(2,3) f(3,7) de dots keep own unfolding created_def by simp_all
  then show ?thesis using fc inst by (intro exI [of _ no] exI [of _ ?s']) simp
qed

text \<open>The other files are left alone.\<close>

lemma created_used:
  assumes "created p q name no k slot flag s s'"
  shows "used s \<subseteq> used s'"
proof -
  note c = assms [unfolded created_def]
  have cp: "cur_part s' = (cur_part s)\<lparr>open_inodes := q # open_inodes (cur_part s)\<rparr>" using c by blast
  then have "blkno s' = blkno s" "nbits (bb s') = nbits (bb s)" by (simp_all add: blkno_def fun_eq_iff)
  moreover have "spare s' \<subseteq> spare s" using c by blast
  ultimately show ?thesis by (auto simp: used_alt)
qed

lemma created_files:
  assumes l: "layout_ok s" and c: "created p q name no k slot flag s s'" and f: "file_ok s i" "file_blocks s i \<inter> set (dir_blocks s (inodes s p)) = {}"
  shows "file_ok s' i" "contents s' i = contents s i" "file_blocks s' i = file_blocks s i"
proof -
  have "disk_of s' a = disk_of s a" if "a \<in> file_blocks s i" for a
  proof -
    have "a \<in> used s" "a \<notin> set (dir_blocks s (inodes s p))" using file_blocks_used [OF f(1)] f(2) that by auto
    then have "data_lba s \<le> a" "a \<notin> set (dir_blocks s' (inodes s' p))" using used_bounds(2) [OF l] c by (auto simp: created_def)
    then show ?thesis using c unfolding created_def by blast
  qed
  from file_same [OF f(1) this created_used [OF c]] show "file_ok s' i" "contents s' i = contents s i" "file_blocks s' i = file_blocks s i"
    by simp_all
qed

section \<open>Properties\<close>

text \<open>C5 \<open>file_create\<close> makes an empty file: its name goes into the directory with a number that was free, the
  other entries stay, the inode is in memory, open, and on the disk (under its number when that is below 256, see
  \<open>inode_sync\<close>), and the descriptor that is returned leads over the table of open files to it, at position 0. The
  contents of the other files are as they were.\<close>

theorem file_create_makes_file:
  assumes "layout_ok s" and "inode_map_ok s" and "inode_spare s \<noteq> {}"
    and "p = dir_inode (dirs s pd)" and "dir_ok s (inodes s p)" and "dir_room s (inodes s p)" and "spare s \<noteq> {}"
    and "unat (i_size (inodes s p)) + 24 < 4294967296" and "length name \<le> 16"
    and "mallocs s = io # q # ms" and "io \<noteq> NULL" and "q \<noteq> NULL" and "q \<noteq> p"
    and "get_free_slot_in_global s \<noteq> -1" and "free_fd (fd_table s) (8 - 3) 3 = Some k"
  shows "\<exists>no s'. file_create pd name flag s = Inr (of_nat k, s') \<and> unat no \<in> inode_spare s \<and>
    entries s' (inodes s' p) = add_mset (file_entry name no) (entries s (inodes s p)) \<and> dir_ok s' (inodes s' p) \<and> layout_ok s' \<and>
    inodes s' q = (inode_init no)\<lparr>i_open_cnts := 1\<rparr> \<and> (no < 256 \<longrightarrow> inode_at s' no = inode_init no) \<and>
    (\<forall>x. x \<noteq> p \<longrightarrow> x \<noteq> q \<longrightarrow> inodes s' x = inodes s x) \<and>
    file_table s' = (file_table s)[unat (get_free_slot_in_global s) := \<lparr>fd_pos = 0, fd_flag = ucast flag, fd_inode = q\<rparr>] \<and>
    fd_table s' = (fd_table s)[k := get_free_slot_in_global s] \<and> open_inodes (cur_part s') = q # open_inodes (cur_part s) \<and>
    (\<forall>i. file_ok s i \<and> file_blocks s i \<inter> set (dir_blocks s (inodes s p)) = {} \<longrightarrow> file_ok s' i \<and> contents s' i = contents s i)"
proof -
  obtain no s' where s': "file_create pd name flag s = Inr (of_nat k, s')" "created p q name no k (get_free_slot_in_global s) flag s s'"
    using file_create_ok [OF assms] by blast
  from created_files [OF assms(1) s'(2)] s' show ?thesis unfolding created_def by (intro exI [of _ no] exI [of _ s']) simp
qed

lemma dir_fs_inode_map: "inode_map_ok dir_fs"
proof -
  have b: "bits (ib dir_fs) = 0xc0201000" "bits (bb dir_fs) = 0xc0200000" "nbits (ib dir_fs) = 4096" "nbits (bb dir_fs) = 4096"
    by (simp_all add: dir_fs_fields nbits_def)
  have "0xc0201000 + of_nat (i div 8) \<noteq> (0xc0200000 + of_nat (j div 8) :: u32)" if "i < 4096" "j < 4096" for i j :: nat
  proof -
    have "i div 8 < 512" "j div 8 < 512" using that by (simp_all add: less_mult_imp_div_less)
    then have "unat (0xc0201000 + of_nat (i div 8) :: u32) = 3223326720 + i div 8" "unat (0xc0200000 + of_nat (j div 8) :: u32) = 3223322624 + j div 8"
      by (subst unat_add_u32, simp_all)+
    moreover have "3223326720 + i div 8 \<noteq> 3223322624 + j div 8" using \<open>j div 8 < 512\<close> by linarith
    ultimately show ?thesis by (metis (no_types))
  qed
  then show ?thesis unfolding inode_map_ok_def b by (simp add: bitmap_ok_def dir_fs_fields nbits_def)
qed

lemma dir_fs_inode_spare: "inode_spare dir_fs \<noteq> {}"
proof -
  have "1 \<in> inode_spare dir_fs" by (simp add: inode_spare_def taken_def dir_fs_fields nbits_def)
  then show ?thesis by blast
qed

lemma dir_fs_slot: "get_free_slot_in_global dir_fs = 3"
proof -
  have "32 - 3 = Suc 28" by simp
  then show ?thesis by (simp only: get_free_slot_in_global_def free_slot.simps) (simp add: dir_fs_fields)
qed

lemma dir_fs_fd: "free_fd (fd_table dir_fs) (8 - 3) 3 = Some 3"
proof -
  have "8 - 3 = Suc 4" by simp
  then show ?thesis by (simp only: free_fd.simps) (simp add: dir_fs_fields)
qed

theorem file_create_makes_file_witness:
  "\<exists>no s'. file_create 0xc0600000 [97] 2 dir_fs = Inr (3, s') \<and>
    entries s' (inodes s' 0xc0500000) = {#file_entry [97] no#} \<and> inodes s' 0xc0400100 = (inode_init no)\<lparr>i_open_cnts := 1\<rparr>"
proof -
  have ms: "mallocs dir_fs = 0xc0400000 # 0xc0400100 # [0xc0400200, 0xc0400300]" by (simp add: dir_fs_fields)
  have slot: "get_free_slot_in_global dir_fs \<noteq> -1" by (simp add: dir_fs_slot)
  have "entries dir_fs (inodes dir_fs 0xc0500000) = {#}" by (simp add: entries_def dir_fs_blocks)
  then show ?thesis
    using file_create_makes_file [OF dir_fs_layout dir_fs_inode_map dir_fs_inode_spare dir_fs_hyps(1) [of "0xc0600000", symmetric] dir_fs_dir
      dir_fs_hyps(2,5) _ ms _ _ _ slot dir_fs_fd, of "[97]" 2]
    by fastforce
qed

lemma free_slot_range: "free_slot files n k \<noteq> -1 \<Longrightarrow> k + n \<le> 4294967296 \<Longrightarrow> unat (free_slot files n k) < k + n"
proof (induction files n k rule: free_slot.induct)
  case (2 files n k)
  then show ?case by (cases "fd_inode (files ! k) = NULL") auto
qed simp

text \<open>A file that is created, written and read: the bytes come back, through the directory entry, the bitmaps,
  the inode, the blocks (direct and indirect) and the table of open files.\<close>

theorem create_write_read:
  assumes "layout_ok s" and "inode_map_ok s" and "inode_spare s \<noteq> {}"
    and "p = dir_inode (dirs s pd)" and "dir_ok s (inodes s p)" and "dir_room s (inodes s p)" and "0 \<notin> spare s"
    and "unat (i_size (inodes s p)) + 24 < 4294967296" and "length name \<le> 16"
    and "mallocs s = io # q # a # b # c # d # ms" and "0 \<notin> {io, q, a, b, c, d}" and "q \<noteq> p"
    and "get_free_slot_in_global s \<noteq> -1" and "length (file_table s) = 32" and "free_fd (fd_table s) (8 - 3) 3 = Some k"
    and "xs \<noteq> []" and "length xs < 71168" and "length xs div 512 + 4 \<le> card (spare s)"
  defines "slot \<equiv> unat (get_free_slot_in_global s)"
  shows "\<exists>no s1 s2 s3. file_create pd name flag s = Inr (of_nat k, s1) \<and>
    entries s1 (inodes s1 p) = add_mset (file_entry name no) (entries s (inodes s p)) \<and>
    fd_table s1 = (fd_table s)[k := of_nat slot] \<and> file_write slot xs s1 = Inr (of_nat (length xs), s2) \<and>
    file_read slot (of_nat (length xs)) (set_file slot ((file_table s2 ! slot)\<lparr>fd_pos := 0\<rparr>) s2) =
      Inr (of_nat (length xs), xs, s3)"
proof -
  have sp: "spare s \<noteq> {}" using assms(18) by (metis add_is_0 card.empty le_zero_eq zero_neq_numeral)
  have nz: "io \<noteq> 0" "q \<noteq> 0" "0 \<notin> {a, b, c, d}" using assms(11) by auto
  obtain no s1 where s1: "file_create pd name flag s = Inr (of_nat k, s1)"
    "entries s1 (inodes s1 p) = add_mset (file_entry name no) (entries s (inodes s p))" "layout_ok s1"
    "inodes s1 q = (inode_init no)\<lparr>i_open_cnts := 1\<rparr>"
    "file_table s1 = (file_table s)[slot := \<lparr>fd_pos = 0, fd_flag = ucast flag, fd_inode = q\<rparr>]"
    "fd_table s1 = (fd_table s)[k := get_free_slot_in_global s]"
    "spare s1 \<subseteq> spare s" "card (spare s) \<le> Suc (card (spare s1))" "mallocs s1 = a # b # c # d # ms"
    using file_create_ok [OF assms(1-6) sp assms(8-10) nz(1,2) assms(12,13,15), of flag] unfolding created_def slot_def [symmetric] by blast
  have slot: "slot < 32" using free_slot_range [of "file_table s" "32 - 3" 3] assms(13)
    by (simp add: slot_def get_free_slot_in_global_def)
  then have f: "slot < length (file_table s1)" "q = fd_inode (file_table s1 ! slot)" using s1(5) assms(14) by simp_all
  have ok: "file_ok s1 (inodes s1 q)" "i_size (inodes s1 q) = 0" by (simp_all add: s1(4) file_ok_def inode_init_def)
  have room: "0 \<notin> spare s1" "length xs div 512 + 3 \<le> card (spare s1)" using assms(7,18) s1(7,8) by auto
  have sz: "unat (i_size (inodes s1 q)) + length xs < 71168" using ok(2) assms(17) by simp
  obtain s2 s3 where "file_write slot xs s1 = Inr (of_nat (length xs), s2)"
    "file_read slot (of_nat (length xs)) (set_file slot ((file_table s2 ! slot)\<lparr>fd_pos := 0\<rparr>) s2) = Inr (of_nat (length xs), xs, s3)"
    using file_write_read_ok [OF s1(3) f ok(1) room sz assms(16) s1(9) nz(3)] unfolding ok(2) by blast
  moreover have "of_nat slot = get_free_slot_in_global s" by (simp add: slot_def)
  ultimately show ?thesis using s1(1,2,6) by auto
qed

theorem create_write_read_witness:
  "\<exists>s1 s2 s3. file_create 0xc0600000 [97] 2 (dir_fs\<lparr>mallocs := [1, 2, 3, 4, 5, 6]\<rparr>) = Inr (3, s1) \<and> file_write 3 [104, 105] s1 = Inr (2, s2) \<and>
    file_read 3 2 (set_file 3 ((file_table s2 ! 3)\<lparr>fd_pos := 0\<rparr>) s2) = Inr (2, [104, 105], s3)"
proof -
  let ?s = "dir_fs\<lparr>mallocs := [1, 2, 3, 4, 5, 6]\<rparr>"
  have k: "layout_ok ?s" "inode_map_ok ?s" "inode_spare ?s \<noteq> {}" "dir_ok ?s (inodes ?s 0xc0500000)" "dir_room ?s (inodes ?s 0xc0500000)"
    using dir_fs_layout dir_fs_inode_map dir_fs_inode_spare dir_fs_dir [of "0xc0500000"]
    by (simp_all add: inode_map_ok_def inode_spare_def dir_ok_def dir_room_def dir_blocks_def blkno_def)
  have "{1, 2, 3, 4} \<subseteq> spare ?s" "0 \<notin> spare ?s"
    by (auto simp: spare_def taken_def dir_fs_fields nbits_def bit_1_iff)
  then have sp: "0 \<notin> spare ?s" "length [104, 105 :: u8] div 512 + 4 \<le> card (spare ?s)"
    using card_mono [of "spare ?s" "{1, 2, 3, 4}"] by simp_all
  have slot: "get_free_slot_in_global ?s = 3" using dir_fs_slot by (simp add: get_free_slot_in_global_def)
  then have slot': "get_free_slot_in_global ?s \<noteq> -1" by simp
  have rest: "0xc0500000 = dir_inode (dirs ?s 0xc0600000)" "unat (i_size (inodes ?s 0xc0500000)) + 24 < 4294967296"
    "length (file_table ?s) = 32" "free_fd (fd_table ?s) (8 - 3) 3 = Some 3"
    using dir_fs_fd by (simp_all add: dir_fs_fields)
  have m: "mallocs ?s = 1 # 2 # 3 # 4 # 5 # 6 # []" by simp
  obtain s1 s2 s3 where "file_create 0xc0600000 [97] 2 ?s = Inr (3, s1)" "file_write 3 [104, 105] s1 = Inr (of_nat (length [104, 105 :: u8]), s2)"
    "file_read 3 (of_nat (length [104, 105 :: u8])) (set_file 3 ((file_table s2 ! 3)\<lparr>fd_pos := 0\<rparr>) s2) =
      Inr (of_nat (length [104, 105 :: u8]), [104, 105], s3)"
    using create_write_read [OF k(1-3) rest(1) k(4,5) sp(1) rest(2) _ m _ _ slot' rest(3,4) _ _ sp(2), of "[97]" 2]
    unfolding slot by auto
  then show ?thesis by auto
qed

end
