(* ===== verification/Release.thy ===== *)
theory Release
  imports Creation
begin

unbundle bit_operations_syntax

text \<open>
  Giving an inode back, \<open>inode_release\<close> of \<^verbatim>\<open>fs/inode.c\<close>: the bits of its blocks and of its number are cleared, in
  memory and on the disk, its place in the table of inodes is filled with zeros, and it leaves the memory.
\<close>

section \<open>What only depends on the sectors and the bitmaps\<close>

definition same_volume :: "fs \<Rightarrow> fs \<Rightarrow> bool" where
  "same_volume s s' \<longleftrightarrow> disk_of s' = disk_of s \<and> fs_bytes s' = fs_bytes s \<and>
     cur_part s' = (cur_part s)\<lparr>open_inodes := open_inodes (cur_part s')\<rparr>"

lemma same_volume_part:
  assumes "same_volume s s'"
  shows "sb (cur_part s') = sb (cur_part s)" "bb s' = bb s" "ib s' = ib s" "start_lba (cur_part s') = start_lba (cur_part s)"
    "sec_cnt (cur_part s') = sec_cnt (cur_part s)" "disk_of s' = disk_of s" "fs_bytes s' = fs_bytes s"
proof -
  obtain os where "cur_part s' = (cur_part s)\<lparr>open_inodes := os\<rparr>" using assms unfolding same_volume_def by blast
  then show "sb (cur_part s') = sb (cur_part s)" "bb s' = bb s" "ib s' = ib s" "start_lba (cur_part s') = start_lba (cur_part s)"
    "sec_cnt (cur_part s') = sec_cnt (cur_part s)" by simp_all
  show "disk_of s' = disk_of s" "fs_bytes s' = fs_bytes s" using assms by (simp_all add: same_volume_def)
qed

lemma same_volume_facts:
  assumes "same_volume s s'"
  shows "layout_ok s' = layout_ok s" "table_ok s' = table_ok s" "spare s' = spare s" "inode_spare s' = inode_spare s" "blkno s' = blkno s"
    "dir_blocks s' = dir_blocks s" "dir_ok s' = dir_ok s" "dir_entries s' = dir_entries s" "entries s' = entries s"
    "inode_at s' = inode_at s" "contents s' = contents s" "used s' = used s" "inode_map_ok s' = inode_map_ok s" "dir_room s' = dir_room s"
    "dots_first s' = dots_first s"
proof -
  note v = same_volume_part [OF assms]
  show b: "blkno s' = blkno s" and sp: "spare s' = spare s" by (simp_all add: blkno_def spare_def v fun_eq_iff)
  show db: "dir_blocks s' = dir_blocks s" unfolding dir_blocks_def [abs_def] v ..
  show "dir_ok s' = dir_ok s" unfolding dir_ok_def [abs_def] db v b sp ..
  show de: "dir_entries s' = dir_entries s" unfolding dir_entries_def [abs_def] db v ..
  show "entries s' = entries s" unfolding entries_def [abs_def] de ..
  show "layout_ok s' = layout_ok s" "table_ok s' = table_ok s" unfolding layout_ok_def table_ok_def v by (rule refl)+
  show "inode_spare s' = inode_spare s" unfolding inode_spare_def v ..
  show "inode_at s' = inode_at s" unfolding inode_at_def [abs_def] v ..
  show "contents s' = contents s" unfolding contents_def [abs_def] v ..
  show "used s' = used s" unfolding used_def v b ..
  show "inode_map_ok s' = inode_map_ok s" unfolding inode_map_ok_def v ..
  show "dots_first s' = dots_first s" unfolding dots_first_def [abs_def] db v ..
  show "dir_room s' = dir_room s" unfolding dir_room_def [abs_def] v ..
qed

lemma extent_cong:
  assumes "same_volume s s'" and "i_sectors i' = i_sectors i" and "i_size i' = i_size i"
  shows "extent_ok s' i' = extent_ok s i" "file_ok s' i' = file_ok s i" "contents s' i' = contents s i" "file_blocks s' i' = file_blocks s i"
proof -
  note v = same_volume_facts [OF assms(1)] same_volume_part [OF assms(1)]
  have b: "file_blk d i' = file_blk d i" for d by (simp add: fun_eq_iff file_blk_def assms(2))
  show x: "extent_ok s' i' = extent_ok s i" unfolding extent_ok_def Let_def b v assms(2,3) ..
  show "file_ok s' i' = file_ok s i" unfolding file_ok_def x assms(2,3) ..
  show "contents s' i' = contents s i" unfolding v(11) contents_def b assms(3) ..
  show "file_blocks s' i' = file_blocks s i" unfolding file_blocks_def b v assms(2,3) ..
qed

section \<open>The blocks of an inode\<close>

text \<open>The blocks that an inode names, with its table of indirect blocks.\<close>

definition held :: "fs \<Rightarrow> inode \<Rightarrow> u32 set" where
  "held s i = set (dir_blocks s i) \<union> (if i_sectors i ! 12 = 0 then {} else {i_sectors i ! 12})"

definition bits_of :: "fs \<Rightarrow> u32 set \<Rightarrow> nat set" where
  "bits_of s B = {j. j < nbits (bb s) \<and> blkno s j \<in> B}"

text \<open>Each is a data block after the first, which is that of the root directory.\<close>

definition held_ok :: "fs \<Rightarrow> inode \<Rightarrow> bool" where
  "held_ok s i \<longleftrightarrow> (\<forall>b\<in>held s i. \<exists>j. 0 < j \<and> j < nbits (bb s) \<and> b = blkno s j)"

text \<open>A file without indirect blocks names exactly the blocks that hold its bytes.\<close>

lemma held_small:
  assumes l: "layout_ok s" and f: "file_ok s i" and sz: "unat (i_size i) < 6144"
  shows "held s i = file_blocks s i"
proof (cases "i_sectors i = replicate 13 0")
  case True
  then show ?thesis by (auto simp: held_def dir_blocks_def file_blocks_def)
next
  case False
  then have e: "extent_ok s i" using f by (simp add: file_ok_def)
  let ?n = "unat (i_size i) div 512"
  have n: "?n < 12" using sz by (simp add: less_mult_imp_div_less)
  have b: "length (i_sectors i) = 13" "\<forall>k\<le>?n. i_sectors i ! k \<in> used s" "\<forall>k. ?n < k \<and> k < 12 \<longrightarrow> i_sectors i ! k = 0" "i_sectors i ! 12 = 0"
    using e n by (auto simp: extent_ok_def Let_def file_blk_def)
  have iff: "k \<le> ?n \<longleftrightarrow> i_sectors i ! k \<noteq> 0" if "k < 12" for k
    using b(2,3) that used_bounds(3) [OF l] by (cases "k \<le> ?n") auto
  have "set (filter (\<lambda>b. b \<noteq> 0) (take 12 (i_sectors i))) = {b \<in> (!) (i_sectors i) ` {0..<12}. b \<noteq> 0}"
    using nth_image [of 12 "i_sectors i"] b(1) by simp
  also have "\<dots> = (!) (i_sectors i) ` {k. k < 12 \<and> i_sectors i ! k \<noteq> 0}" by auto
  also have "{k. k < 12 \<and> i_sectors i ! k \<noteq> 0} = {..?n}" using iff n by (auto intro: le_less_trans)
  finally have "set (filter (\<lambda>b. b \<noteq> 0) (take 12 (i_sectors i))) = (!) (i_sectors i) ` {..?n}" .
  moreover have "file_blk d i ` {..?n} = (!) (i_sectors i) ` {..?n}" for d
    using n by (intro image_cong) (auto simp: file_blk_def)
  ultimately show ?thesis using b(4) n False by (simp add: held_def dir_blocks_def file_blocks_def)
qed

lemma bits_of_setup: "same_setup s s' \<Longrightarrow> bits_of s' B = bits_of s B"
  by (simp add: bits_of_def blkno_setup same_setup_part)

lemma bits_of_Un: "bits_of s (A \<union> B) = bits_of s A \<union> bits_of s B"
  by (auto simp: bits_of_def)

lemma bits_of_one: "layout_ok s \<Longrightarrow> j < nbits (bb s) \<Longrightarrow> bits_of s {blkno s j} = {j}"
  by (auto simp: bits_of_def blkno_inj)

lemma free_block_ok:
  assumes l: "layout_ok s" and j: "0 < j" "j < nbits (bb s)"
  shows "\<exists>s'. free_block (blkno s j) s = Inr s' \<and> gave {j} s s'"
proof -
  have lim: "nbits (bb s) \<le> 163839" using l by (simp add: layout_ok_def)
  have "unat (of_nat j :: u32) = j" by (rule unat_of_nat_u32) (use j(2) lim in linarith)
  then have "0 < (of_nat j :: u32)" using j(1) by (simp add: word_less_nat_alt)
  moreover have "blkno s j - data_lba s = of_nat j" by (simp add: blkno_def)
  ultimately show ?thesis using free_bit_ok [OF l j(2)] by (auto simp: free_block_def Let_def)
qed

lemma free_blocks_ok:
  assumes "layout_ok s" and "\<forall>b\<in>set bs. b \<noteq> 0 \<longrightarrow> (\<exists>j. 0 < j \<and> j < nbits (bb s) \<and> b = blkno s j)"
  shows "\<exists>s'. free_blocks bs s = Inr s' \<and> gave (bits_of s (set bs - {0})) s s'"
  using assms
proof (induction bs arbitrary: s)
  case Nil
  then show ?case using layout_512 [OF Nil(1)] by (simp add: gave_def bits_of_def other_bytes_def)
next
  case (Cons b bs)
  show ?case
  proof (cases "b = 0")
    case True
    then show ?thesis using Cons.IH [OF Cons.prems(1)] Cons.prems(2) by simp
  next
    case False
    then obtain j where j: "0 < j" "j < nbits (bb s)" "b = blkno s j" using Cons.prems(2) by auto
    obtain t where t: "free_block b s = Inr t" "gave {j} s t" using free_block_ok [OF Cons.prems(1) j(1,2)] j(3) by blast
    have st: "same_setup s t" using t(2) by (simp add: gave_def)
    have "\<forall>b\<in>set bs. b \<noteq> 0 \<longrightarrow> (\<exists>j. 0 < j \<and> j < nbits (bb t) \<and> b = blkno t j)"
      using Cons.prems(2) unfolding same_setup_part [OF st] blkno_setup [OF st] by simp
    from Cons.IH [OF gave_layout [OF Cons.prems(1) t(2)] this] obtain s' where
      s': "free_blocks bs t = Inr s'" "gave (bits_of s (set bs - {0})) t s'" unfolding bits_of_setup [OF st] by blast
    have "set (b # bs) - {0} = {b} \<union> (set bs - {0})" using False by auto
    then have "bits_of s (set (b # bs) - {0}) = {j} \<union> bits_of s (set bs - {0})"
      using bits_of_one [OF Cons.prems(1) j(2)] by (simp only: bits_of_Un j(3))
    then show ?thesis using t(1) s'(1) gave_trans [OF t(2) s'(2)] False by simp
  qed
qed

section \<open>The bitmap of the inodes\<close>

lemma other_bytes_inodes:
  assumes "inode_map_ok s" and "other_bytes s s'" and "same_setup s s'"
  shows "inode_map_ok s'" and "inode_spare s' = inode_spare s"
proof -
  note cp = same_setup_part [OF assms(3)]
  show "inode_map_ok s'" using assms(1) by (simp add: inode_map_ok_def cp)
  have "fs_bytes s' (bits (ib s) + of_nat (n div 8)) = fs_bytes s (bits (ib s) + of_nat (n div 8))" if "n < nbits (ib s)" for n
    using assms(1,2) that unfolding inode_map_ok_def other_bytes_def by blast
  then show "inode_spare s' = inode_spare s" by (auto simp: inode_spare_def taken_def cp)
qed

lemma free_inode_ok:
  assumes l: "layout_ok s" and im: "inode_map_ok s" and no: "unat no < nbits (ib s)"
  shows "\<exists>m s'. bitmap_set (fs_bytes s) (ib s) no 0 = Inr m \<and> bitmap_sync no INODE_BITMAP (s\<lparr>fs_bytes := m\<rparr>) = Inr s' \<and>
    meta_only (s\<lparr>fs_bytes := m\<rparr>) s' \<and> spare s' = spare s \<and> inode_spare s' = insert (unat no) (inode_spare s) \<and>
    (\<forall>n<4096. inode_at s' n = inode_at s n)"
proof -
  have n4: "nbits (ib s) \<le> 4096" using im by (simp add: inode_map_ok_def)
  obtain m where m: "bitmap_set (fs_bytes s) (ib s) no 0 = Inr m" using bitmap_set_ok by blast
  let ?t = "s\<lparr>fs_bytes := m\<rparr>"
  have keep: "taken m (bb s) j \<longleftrightarrow> taken (fs_bytes s) (bb s) j" if "j < nbits (bb s)" for j
  proof -
    have "bits (ib s) + of_nat (unat no div 8) \<noteq> bits (bb s) + of_nat (j div 8)"
      using im no that unfolding inode_map_ok_def by blast
    then have "bits (bb s) + of_nat (j div 8) \<noteq> bits (ib s) + no div 8" by simp
    then show ?thesis unfolding taken_def using bitmap_set_frame [OF m] by metis
  qed
  then have sp: "spare ?t = spare s" by (auto simp: spare_def)
  have "taken m (ib s) k \<longleftrightarrow> k \<noteq> unat no \<and> taken (fs_bytes s) (ib s) k" if "k < nbits (ib s)" for k
    using bitmap_set_taken [OF m, of k] that n4 by simp
  then have isp: "inode_spare ?t = insert (unat no) (inode_spare s)" using no by (auto simp: inode_spare_def)
  have t: "layout_ok ?t" "inode_map_ok ?t" using l im by (simp_all add: layout_ok_def table_ok_def inode_map_ok_def)
  obtain s' where s': "bitmap_sync no INODE_BITMAP ?t = Inr s'" "meta_only ?t s'" "\<forall>n<4096. inode_at s' n = inode_at ?t n"
    using inode_bitmap_sync_ok [OF t, of no] no n4 by auto
  have "spare s' = spare s" "inode_spare s' = insert (unat no) (inode_spare s)"
    using s'(2) sp isp by (auto simp: meta_only_def same_setup_def inode_spare_def)
  moreover have "inode_at ?t n = inode_at s n" for n by (simp add: inode_at_def)
  ultimately show ?thesis using m s' by auto
qed

section \<open>Releasing an inode\<close>

lemma release_blocks_ok:
  assumes l: "layout_ok s" and h: "held_ok s i"
  shows "\<exists>bs s1 s2. (if i_sectors i ! 12 \<noteq> 0 then bindr (read_disk (i_sectors i ! 12) 1 s) (\<lambda>ws.
        bindr (free_block (i_sectors i ! 12) s) (\<lambda>s. Inr (take 12 (i_sectors i) @ words_of ws, s)))
      else Inr (take 12 (i_sectors i), s)) = Inr (bs, s1) \<and> free_blocks bs s1 = Inr s2 \<and> gave (bits_of s (held s i)) s s2"
proof (cases "i_sectors i ! 12 = 0")
  case True
  have "set (take 12 (i_sectors i)) - {0} = held s i" using True by (auto simp: held_def dir_blocks_def)
  then show ?thesis using free_blocks_ok [OF l, of "take 12 (i_sectors i)"] h True by (auto simp: held_ok_def)
next
  case False
  let ?b = "i_sectors i ! 12"
  let ?bs = "take 12 (i_sectors i) @ words_of (disk_of s ?b)"
  have bs: "set ?bs - {0} = set (dir_blocks s i)" using False by (auto simp: dir_blocks_def)
  have held: "held s i = {?b} \<union> set (dir_blocks s i)" using False by (simp add: held_def)
  then obtain j where j: "0 < j" "j < nbits (bb s)" "?b = blkno s j" using h by (auto simp: held_ok_def)
  have rd: "read_disk ?b 1 s = Inr (disk_of s ?b)" using blkno_bounds(2) [OF l j(2)] by (intro read_block layout_512 [OF l]) (simp add: j(3))
  obtain t where t: "free_block ?b s = Inr t" "gave {j} s t" using free_block_ok [OF l j(1,2)] j(3) by auto
  have st: "same_setup s t" using t(2) by (simp add: gave_def)
  have "\<forall>b\<in>set ?bs. b \<noteq> 0 \<longrightarrow> (\<exists>j. 0 < j \<and> j < nbits (bb t) \<and> b = blkno t j)"
    using h bs held unfolding held_ok_def same_setup_part [OF st] blkno_setup [OF st] by blast
  from free_blocks_ok [OF gave_layout [OF l t(2)] this] obtain s2 where
    s2: "free_blocks ?bs t = Inr s2" "gave (bits_of s (set (dir_blocks s i))) t s2" unfolding bs bits_of_setup [OF st] by blast
  have "gave (bits_of s (held s i)) s s2"
    using gave_trans [OF t(2) s2(2)] bits_of_one [OF l j(2)] unfolding held bits_of_Un j(3) by simp
  then show ?thesis using False rd t(1) s2(1) by simp
qed

text \<open>What the release of the inode \<open>no\<close> does, when \<open>B\<close> are the blocks that it names.\<close>

definition released :: "u32 \<Rightarrow> u32 set \<Rightarrow> fs \<Rightarrow> fs \<Rightarrow> bool" where
  "released no B s s' \<longleftrightarrow> layout_ok s' \<and> inode_map_ok s' \<and> spare s' = bits_of s B \<union> spare s \<and>
     inode_spare s' = insert (unat no) (inode_spare s) \<and> (\<forall>a. data_lba s \<le> a \<longrightarrow> disk_of s' a = disk_of s a) \<and>
     (\<forall>m<4096. inode_at s' m = (if m = no then inode_init 0 else inode_at s m)) \<and>
     cur_part s' = cur_part s \<and> dirs s' = dirs s \<and> root_dir s' = root_dir s \<and> fd_table s' = fd_table s \<and> file_table s' = file_table s"

lemma zero_inode: "decode_inode (replicate 76 0) = inode_init 0"
  by code_simp

lemma inode_release_ok:
  assumes l: "layout_ok s" and im: "inode_map_ok s" and no: "unat no < nbits (ib s)" "i_no (inode_at s no) = no"
    and shut: "\<forall>p\<in>set (open_inodes (cur_part s)). i_no (inodes s p) \<noteq> no" and h: "held_ok s (inode_at s no)"
    and m: "mallocs s = a # b # io # ms" "0 \<notin> {a, b, io}"
  shows "\<exists>s'. inode_release no s = Inr s' \<and> released no (held s (inode_at s no)) s s' \<and> (\<forall>x. x \<noteq> a \<longrightarrow> inodes s' x = inodes s x) \<and>
    mallocs s' = ms"
proof -
  have "nbits (ib s) \<le> 4096" using im by (simp add: inode_map_ok_def)
  then have n4: "no < 4096" using no(1) by (simp add: word_less_nat_alt)
  have nz: "a \<noteq> NULL" "b \<noteq> NULL" "io \<noteq> NULL" using m(2) by auto
  have tok: "table_ok s" using l by (simp add: layout_ok_def)
  define s0 where "s0 = s\<lparr>mallocs := io # ms, cur_part := (cur_part s)\<lparr>open_inodes := a # open_inodes (cur_part s)\<rparr>,
    inodes := (inodes s)(a := (inode_at s no)\<lparr>i_open_cnts := 1\<rparr>)\<rparr>"
  note op = inode_open_reads [OF tok n4 shut m(1) nz(1,2), folded s0_def]
  have o: "cur_part s0 = (cur_part s)\<lparr>open_inodes := a # open_inodes (cur_part s)\<rparr>" "inodes s0 a = (inode_at s no)\<lparr>i_open_cnts := 1\<rparr>"
    "\<And>x. x \<noteq> a \<Longrightarrow> inodes s0 x = inodes s x" "mallocs s0 = io # ms" "dirs s0 = dirs s" "root_dir s0 = root_dir s" "fd_table s0 = fd_table s"
    "file_table s0 = file_table s" by (simp_all add: s0_def)
  have vol: "same_volume s s0" by (simp add: same_volume_def s0_def)
  let ?i = "inodes s0 a"
  note vf = same_volume_facts [OF vol] and vp = same_volume_part [OF vol]
  have held: "held s0 ?i = held s (inode_at s no)" by (simp add: o(2) held_def dir_blocks_def vp)
  have h0: "held_ok s0 ?i" using h by (simp only: held_ok_def held vf(5) vp(2))
  have l0: "layout_ok s0" "inode_map_ok s0" using l im by (simp_all only: vf)
  obtain bs s1 s2 where s2: "(if i_sectors ?i ! 12 \<noteq> 0 then bindr (read_disk (i_sectors ?i ! 12) 1 s0) (\<lambda>ws.
        bindr (free_block (i_sectors ?i ! 12) s0) (\<lambda>s. Inr (take 12 (i_sectors ?i) @ words_of ws, s)))
      else Inr (take 12 (i_sectors ?i), s0)) = Inr (bs, s1)" "free_blocks bs s1 = Inr s2" "gave (bits_of s0 (held s0 ?i)) s0 s2"
    using release_blocks_ok [OF l0(1) h0] by blast
  note g = s2(3) [unfolded gave_def]
  have l2: "layout_ok s2" by (rule gave_layout [OF l0(1) s2(3)])
  have st2: "same_setup s0 s2" "other_bytes s0 s2" using g by blast+
  note im2 = other_bytes_inodes [OF l0(2) st2(2,1)]
  have cp2: "cur_part s2 = cur_part s0" by (rule same_setup_part [OF st2(1)])
  have no2: "unat no < nbits (ib s2)" using no(1) cp2 vp(3) by simp
  obtain mm s3 where s3: "bitmap_set (fs_bytes s2) (ib s2) no 0 = Inr mm" "bitmap_sync no INODE_BITMAP (s2\<lparr>fs_bytes := mm\<rparr>) = Inr s3"
    "meta_only (s2\<lparr>fs_bytes := mm\<rparr>) s3" "spare s3 = spare s2" "inode_spare s3 = insert (unat no) (inode_spare s2)"
    "\<forall>n<4096. inode_at s3 n = inode_at s2 n" using free_inode_ok [OF l2 im2(1) no2] by blast
  note mo = s3(3) [unfolded meta_only_def same_setup_def, simplified]
  let ?s4 = "s3\<lparr>mallocs := ms\<rparr>"
  have m3: "heap_alloc s3 = (io, ?s4)" using mo st2(1) o(4) by (simp add: heap_alloc_def same_setup_def)
  have l3: "layout_ok s3" using meta_only_layout [OF _ s3(3)] l2 by (simp add: layout_ok_def table_ok_def)
  then have l4: "layout_ok ?s4" "table_ok ?s4" by (simp_all add: layout_ok_def table_ok_def)
  obtain s5 where s5: "patch_inode (position ?s4 no) (replicate 76 0) ?s4 = Inr s5" "inode_stored ?s4 s5 no (replicate 76 0)"
    using patch_stores [OF l4(2) n4, of "replicate 76 0"] by auto
  obtain d where d: "s5 = ?s4\<lparr>disks := (disks ?s4)(my_disk (cur_part ?s4) := d)\<rparr>" "sectors_512 d" using s5(2) by (auto simp: inode_stored_def)
  have in5: "inodes s5 = inodes s0" "cur_part s5 = cur_part s0" using d(1) mo g cp2 by simp_all
  have "inode_delete no ?s4 = Inr s5"
    using n4 s5(1) position_bounds(3) [OF l4(2) n4] by (simp add: inode_delete_def inode_locate_ok [OF n4])
  moreover let ?s6 = "s5\<lparr>inodes := (inodes s5)(a := (inode_at s no)\<lparr>i_open_cnts := 0\<rparr>), cur_part := cur_part s\<rparr>"
  have "inode_close a s5 = Inr ?s6"
    using in5 nz(1) by (simp add: inode_close_def Let_def set_inode_def o(1,2))
  moreover have "i_no ?i = no" using no(2) by (simp add: o(2))
  ultimately have "inode_release no s = Inr ?s6"
    using op s2(1,2) s3(1,2) m3 nz(3) by (simp add: inode_release_def Let_def split del: if_split)
  moreover have "released no (held s (inode_at s no)) s ?s6"
  proof -
    have v6: "same_volume s5 ?s6" using in5(2) by (simp add: same_volume_def o(1))
    note f6 = same_volume_facts [OF v6]
    have l5: "layout_ok s5" using layout_setup [OF l4(1), of s5] d by (simp add: same_setup_def)
    have sp5: "spare s5 = spare s3" "inode_spare s5 = inode_spare s3" using d(1) by (simp_all add: spare_def inode_spare_def)
    have "inode_map_ok s5" using im2(1) in5(2) cp2 by (simp add: inode_map_ok_def)
    moreover have "spare s5 = bits_of s (held s (inode_at s no)) \<union> spare s"
      using sp5(1) s3(4) g held vf(3) by (simp add: bits_of_def vf(5) vp(2))
    moreover have "inode_spare s5 = insert (unat no) (inode_spare s)" using sp5(2) s3(5) im2(2) vf(4) by simp
    moreover have "disk_of s5 x = disk_of s x" if x: "data_lba s \<le> x" for x
    proof -
      have dl: "table_lba s0 \<le> x" "data_lba (s2\<lparr>fs_bytes := mm\<rparr>) \<le> x" "data_lba ?s4 \<le> x"
        using x l mo cp2 vp(1) unfolding layout_ok_def word_le_nat_alt by simp_all
      have "disk_of s2 x = disk_of s0 x" using g dl(1) by blast
      moreover have "disk_of s3 x = disk_of (s2\<lparr>fs_bytes := mm\<rparr>) x" using s3(3) dl(2) unfolding meta_only_def by blast
      moreover have "disk_of s5 x = disk_of ?s4 x" by (rule stored_data [OF l4(1) s5(2) dl(3)])
      moreover have "disk_of ?s4 x = disk_of s3 x" "disk_of (s2\<lparr>fs_bytes := mm\<rparr>) x = disk_of s2 x" by simp_all
      ultimately show ?thesis using fun_cong [OF vp(6), of x] by (simp only:)
    qed
    moreover have "inode_at s5 n = (if n = no then inode_init 0 else inode_at s n)" if n: "n < 4096" for n
    proof -
      have "inode_at ?s4 n = inode_at s3 n" by (simp add: inode_at_def)
      then show ?thesis using stored_inode_at [OF s5(2) n] s3(6) gave_inode_at [OF l0(1) s2(3) n] n zero_inode by (simp add: vf(10))
    qed
    moreover have "disk_of ?s6 = disk_of s5" using in5(2) by (simp add: o(1))
    ultimately show ?thesis unfolding released_def f6 using l5 d(1) mo g st2(1) o(5-8) by (simp add: same_setup_def)
  qed
  moreover have "\<forall>x. x \<noteq> a \<longrightarrow> inodes ?s6 x = inodes s x" "mallocs ?s6 = ms" using in5(1) d(1) o(3) by simp_all
  ultimately show ?thesis by blast
qed

text \<open>A directory whose blocks are others stays.\<close>

lemma released_dir:
  assumes l: "layout_ok s" and r: "released no B s s'" and d: "dir_ok s i" and "B \<inter> set (dir_blocks s i) = {}"
  shows "dir_ok s' i" and "dir_entries s' i = dir_entries s i"
proof -
  note rl = r [unfolded released_def]
  have cp: "cur_part s' = cur_part s" using rl by simp
  have bk: "blkno s' = blkno s" by (simp add: blkno_def fun_eq_iff cp)
  have db: "dir_blocks s' i = dir_blocks s i" using d by (simp add: dir_blocks_direct dir_ok_def)
  have "\<exists>j<nbits (bb s). b = blkno s j \<and> j \<notin> spare s'" if b: "b \<in> set (dir_blocks s i)" for b
  proof -
    obtain j where j: "j < nbits (bb s)" "b = blkno s j" "j \<notin> spare s" using d b by (auto simp: dir_ok_def)
    then have "j \<notin> bits_of s B" using b assms(4) by (auto simp: bits_of_def)
    then show ?thesis using rl j by auto
  qed
  then show "dir_ok s' i" using d unfolding dir_ok_def db bk cp by simp
  have "disk_of s' b = disk_of s b" if "b \<in> set (dir_blocks s i)" for b using rl dir_ok_data(1) [OF l d that] by blast
  then have "map (\<lambda>b. block_entries (disk_of s' b)) (dir_blocks s i) = map (\<lambda>b. block_entries (disk_of s b)) (dir_blocks s i)"
    by (intro map_cong refl arg_cong [where f = block_entries])
  then show "dir_entries s' i = dir_entries s i" unfolding dir_entries_def db by (simp only:)
qed

end
