(* ===== verification/Calls.thy ===== *)
theory Calls
  imports Fs Release
begin

unbundle bit_operations_syntax

text \<open>
  The system calls of \<^verbatim>\<open>fs/fs.c\<close> working together on the files of the root directory: a path is parsed, its
  last name is looked up, and what the calls on files do is seen through the descriptors of the task.
\<close>

section \<open>Paths with one name\<close>

definition plain_name :: "u8 list \<Rightarrow> bool" where
  "plain_name n \<longleftrightarrow> n \<notin> {[], [46], [46, 46]} \<and> length n < 16 \<and> 0 \<notin> set n \<and> slash \<notin> set n"

abbreviation root_at :: "fs \<Rightarrow> addr" where
  "root_at s \<equiv> dir_inode (dirs s (root_dir s))"

abbreviation root_inode :: "fs \<Rightarrow> inode" where
  "root_inode s \<equiv> inodes s (root_at s)"

abbreviation named :: "u8 list \<Rightarrow> dir_entry list \<Rightarrow> dir_entry option" where
  "named n \<equiv> find (\<lambda>e. entry_name e = n)"

lemma names_single: "plain_name n \<Longrightarrow> names (slash # n) = [n]"
  using names_word [of n "[]"] names_slashes [of "slash # n"] names_slashes [of n] by (simp add: plain_name_def names_def)

lemma path_ok_single: "plain_name n \<Longrightarrow> path_ok (slash # n)"
  using names_single [of n] by (auto simp: path_ok_def plain_name_def)

lemma depth_single: "plain_name n \<Longrightarrow> path_depth_cnt (slash # n) s = Inr 1"
  using path_depth_counts [OF path_ok_single] names_single [of n] by simp

lemma last_name_single: "plain_name n \<Longrightarrow> last_name (slash # n) = n"
  by (subst last_name_def, simp, subst takeWhile_append2) (auto simp: plain_name_def)

lemma plain_first:
  assumes "plain_name n"
  shows "path_parse (slash # n) (replicate 16 0) = Inr (None, stored n (replicate 16 0))"
    and "stored n (replicate 16 0) ! 0 \<noteq> 0" and "0 \<in> set (stored n (replicate 16 0))"
    and "takeWhile (\<lambda>c. c \<noteq> 0) (stored n (replicate 16 0)) = n"
proof -
  have n: "n \<noteq> []" "length n < 16" "0 \<notin> set n" "\<forall>c\<in>set n. c \<noteq> slash" using assms by (auto simp: plain_name_def)
  have "dropWhile (\<lambda>c. c = slash) n = n" using n(1,4) by (cases n) auto
  moreover note takeWhile_eq_all_conv [THEN iffD2, OF n(4)] dropWhile_eq_Nil_conv [THEN iffD2, OF n(4)]
  ultimately show "path_parse (slash # n) (replicate 16 0) = Inr (None, stored n (replicate 16 0))"
    using n(2) unfolding path_parse_def Let_def by (simp only: dropWhile.simps simp_thms if_True) (simp add: splice_def stored_def)
  have "stored n (replicate 16 0) = n @ replicate (16 - length n) 0" by (simp add: stored_def)
  moreover obtain m where "16 - length n = Suc m" using n(2) by (cases "16 - length n") auto
  ultimately have s: "stored n (replicate 16 0) = n @ 0 # replicate m 0" by simp
  show "stored n (replicate 16 0) ! 0 \<noteq> 0" unfolding s using n(1,3) by (cases n) auto
  show "0 \<in> set (stored n (replicate 16 0))" unfolding s by simp
  show "takeWhile (\<lambda>c. c \<noteq> 0) (stored n (replicate 16 0)) = n" unfolding s using n(3) by (subst takeWhile_append2) auto
qed

text \<open>A name of the root directory is missing, or it is that of a file.\<close>

lemma search_single:
  assumes "plain_name n" and "dir_readable s (root_inode s)" and "mallocs s = a # b # ms" and "a \<noteq> NULL" and "b \<noteq> NULL"
  defines "r \<equiv> \<lparr>searched_path = slash # n, parent_dir = root_dir s, file_type = FT_UNKNOWN\<rparr>"
  shows "named n (dir_entries s (root_inode s)) = None \<Longrightarrow> search_file (slash # n) s = Inr (-1, r, s\<lparr>mallocs := ms\<rparr>)"
    and "named n (dir_entries s (root_inode s)) = Some e \<Longrightarrow> f_type e = FT_REGULAR \<Longrightarrow>
      search_file (slash # n) s = Inr (e_no e, r\<lparr>file_type := FT_REGULAR\<rparr>, s\<lparr>mallocs := ms\<rparr>)"
proof -
  have n: "n \<notin> {[], [46], [46, 46]}" "length n < 16" "0 \<notin> set n" using assms(1) by (auto simp: plain_name_def)
  note se = search_dir_entry_ok [OF assms(2) n(2,3) assms(3-5)]
  note pf = plain_first [OF assms(1)]
  have s: "search_file (slash # n) s = search_loop None (stored n (replicate 16 0)) 0 (le32 (map (garbage s) [0..<4])) (r\<lparr>searched_path := []\<rparr>) s"
    using n(1,2) pf(1) by (simp add: search_file_def r_def Let_def)
  show "search_file (slash # n) s = Inr (-1, r, s\<lparr>mallocs := ms\<rparr>)" if "named n (dir_entries s (root_inode s)) = None"
    unfolding s search_loop.simps [of None] using pf(2-) n(2) se that by (simp add: r_def Let_def)
  show "search_file (slash # n) s = Inr (e_no e, r\<lparr>file_type := FT_REGULAR\<rparr>, s\<lparr>mallocs := ms\<rparr>)"
    if "named n (dir_entries s (root_inode s)) = Some e" "f_type e = FT_REGULAR"
    unfolding s search_loop.simps [of None] using pf(2-) n(2) se that by (simp add: r_def Let_def next_name_def)
qed

section \<open>Opening\<close>

text \<open>The volume that the calls work on, with its root directory in memory; the inodes that are open have
  numbers that are in use.\<close>

definition volume_ok :: "fs \<Rightarrow> bool" where
  "volume_ok s \<longleftrightarrow> layout_ok s \<and> inode_map_ok s \<and> dir_ok s (root_inode s) \<and> 0 \<notin> spare s \<and>
     unat (i_size (root_inode s)) + 24 < 4294967296 \<and> length (file_table s) = 32 \<and> length (fd_table s) = 8 \<and>
     (\<forall>p\<in>set (open_inodes (cur_part s)). unat (i_no (inodes s p)) \<notin> inode_spare s) \<and>
     (\<forall>f\<in>set (file_table s). fd_inode f \<noteq> NULL \<longrightarrow> fd_inode f \<in> set (open_inodes (cur_part s)))"

definition fresh_name :: "fs \<Rightarrow> u8 list \<Rightarrow> bool" where
  "fresh_name s n \<longleftrightarrow> plain_name n \<and> named n (dir_entries s (root_inode s)) = None"

lemma volume_mallocs [simp]:
  "volume_ok (s\<lparr>mallocs := ms\<rparr>) = volume_ok s" "inode_spare (s\<lparr>mallocs := ms\<rparr>) = inode_spare s"
  "dir_ok (s\<lparr>mallocs := ms\<rparr>) i = dir_ok s i" "dir_room (s\<lparr>mallocs := ms\<rparr>) i = dir_room s i"
  "dir_entries (s\<lparr>mallocs := ms\<rparr>) i = dir_entries s i" "entries (s\<lparr>mallocs := ms\<rparr>) i = entries s i"
  "get_free_slot_in_global (s\<lparr>mallocs := ms\<rparr>) = get_free_slot_in_global s"
  "dots_first (s\<lparr>mallocs := ms\<rparr>) i = dots_first s i" "dir_blocks (s\<lparr>mallocs := ms\<rparr>) i = dir_blocks s i"
  by (simp_all add: dots_first_def volume_ok_def inode_map_ok_def inode_spare_def dir_ok_def dir_blocks_def dir_room_def
      dir_entries_def entries_def get_free_slot_in_global_def blkno_def [abs_def])

lemma created_mallocs [simp]: "created p q n no k slot f (s\<lparr>mallocs := ms\<rparr>) s' = created p q n no k slot f s s'"
  by (simp add: created_def)

lemma sys_open_creates_ok:
  assumes v: "volume_ok s" and n: "fresh_name s n" and flags: "flags \<le> 7" "ucast flags AND O_CREAT \<noteq> 0"
    and room: "dir_room s (root_inode s)" "spare s \<noteq> {}" "inode_spare s \<noteq> {}"
    and m: "mallocs s = a # b # io # q # ms" "0 \<notin> {a, b, io, q}" "q \<noteq> root_at s"
    and slot: "get_free_slot_in_global s \<noteq> -1" and fd: "free_fd (fd_table s) (8 - 3) 3 = Some k"
  shows "\<exists>no s'. sys_open (slash # n) flags s = Inr (of_nat k, s') \<and>
    created (root_at s) q n no k (get_free_slot_in_global s) flags s s' \<and> mallocs s' = ms"
proof -
  have pl: "plain_name n" and none: "named n (dir_entries s (root_inode s)) = None" using n by (simp_all add: fresh_name_def)
  have nn: "n \<noteq> []" "slash \<notin> set n" "length n \<le> 16" using pl by (auto simp: plain_name_def)
  have l: "layout_ok s" "inode_map_ok s" "dir_ok s (root_inode s)" "unat (i_size (root_inode s)) + 24 < 4294967296"
    using v by (simp_all add: volume_ok_def)
  have nz: "a \<noteq> NULL" "b \<noteq> NULL" "io \<noteq> NULL" "q \<noteq> NULL" using m(2) by auto
  let ?t = "s\<lparr>mallocs := io # q # ms\<rparr>"
  have t: "layout_ok ?t" "inode_map_ok ?t" using l by (simp_all add: inode_map_ok_def)
  obtain no s' where s': "file_create (root_dir s) n flags ?t = Inr (of_nat k, s')" "created (root_at s) q n no k (get_free_slot_in_global s) flags ?t s'"
    "mallocs s' = ms"
    using file_create_ok [OF t, of "root_at s" "root_dir s" n io q ms k flags] l(3,4) room nn(3) nz m(3) slot fd by auto
  have "root_dir s' = root_dir s" using s'(2) by (simp add: created_def)
  then have close: "dir_close (root_dir s) s' = Inr s'" by (simp add: dir_close_def)
  have "List.last (slash # n) \<noteq> slash" using nn(1,2) last_in_set by fastforce
  then have "sys_open (slash # n) flags s = Inr (of_nat k, s')"
    using search_single(1) [OF pl dir_ok_readable [OF l(1,3)] m(1) nz(1,2) none] flags depth_single [OF pl] last_name_single [OF pl] s'(1) close
    by (simp add: sys_open_def)
  moreover have "created (root_at s) q n no k (get_free_slot_in_global s) flags s s'" using s'(2) by simp
  ultimately show ?thesis using s'(3) by blast
qed



section \<open>Through the descriptors\<close>

lemma free_fd_range: "free_fd fds n j = Some k \<Longrightarrow> j \<le> k \<and> k < j + n \<and> fds ! k = -1"
  by (induction fds n j rule: free_fd.induct) (auto split: if_splits)

lemma free_slot_null: "free_slot files n j \<noteq> -1 \<Longrightarrow> j + n \<le> 4294967296 \<Longrightarrow>
  j \<le> unat (free_slot files n j) \<and> unat (free_slot files n j) < j + n \<and> fd_inode (files ! unat (free_slot files n j)) = NULL"
proof (induction files n j rule: free_slot.induct)
  case (2 files n j)
  then show ?case by (cases "fd_inode (files ! j) = NULL") auto
qed simp


text \<open>A descriptor \<open>k\<close> of the task that leads to the file at \<open>slot\<close>.\<close>

definition leads_to :: "nat \<Rightarrow> nat \<Rightarrow> fs \<Rightarrow> bool" where
  "leads_to k slot s \<longleftrightarrow> 3 \<le> k \<and> k < 8 \<and> slot < 32 \<and> fd_table s ! k = of_nat slot"

lemma fd_word:
  assumes "leads_to k slot s"
  shows "sint (of_nat k :: u32) = int k" "of_nat k \<noteq> (0 :: u32)" "of_nat k \<noteq> (1 :: u32)" "of_nat k \<noteq> (2 :: u32)" "unat (of_nat k :: u32) = k"
    "fd_local2global (of_nat k) s = Inr (of_nat slot)" "unat (of_nat slot :: u32) = slot"
proof -
  have k: "3 \<le> k" "k < 8" "slot < 32" "fd_table s ! k = of_nat slot" using assms by (simp_all add: leads_to_def)
  have u: "unat (of_nat j :: u32) = j" if "j < 32" for j using that by (simp add: unat_of_nat_u32)
  have i: "sint (of_nat j :: u32) = int j" if "j < 32" for j
    using that u [OF that] by (simp add: sint_uint uint_nat signed_take_bit_int_eq_self)
  show "unat (of_nat slot :: u32) = slot" "unat (of_nat k :: u32) = k" "sint (of_nat k :: u32) = int k" using u i k by simp_all
  have "\<not> 8 \<le> (of_nat k :: u32)" using k(2) u [of k] by (simp add: word_le_nat_alt)
  then show "fd_local2global (of_nat k) s = Inr (of_nat slot)" using i [of slot] u [of k] k by (simp add: fd_local2global_def)
  have "unat (of_nat k :: u32) \<notin> {0, 1, 2}" using u [of k] k(1,2) by auto
  then show "of_nat k \<noteq> (0 :: u32)" "of_nat k \<noteq> (1 :: u32)" "of_nat k \<noteq> (2 :: u32)" by auto
qed

lemma sys_write_file:
  assumes "leads_to k slot s" and "fd_flag (file_table s ! slot) AND O_WRONLY \<noteq> 0 \<or> fd_flag (file_table s ! slot) AND O_RDWR \<noteq> 0"
  shows "sys_write (of_nat k) xs s = file_write slot xs s"
  using fd_word [OF assms(1)] assms(2) by (simp add: sys_write_def Let_def)


text \<open>The last user closes the file: its inode leaves the memory.\<close>

lemma sys_close_last:
  assumes "leads_to k slot s" and "q = fd_inode (file_table s ! slot)" and "q \<noteq> NULL" and "i_open_cnts (inodes s q) = 1"
  shows "sys_close (of_nat k) s = Inr (0, s\<lparr>inodes := (inodes s)(q := (inodes s q)\<lparr>write_deny := 0, i_open_cnts := 0\<rparr>),
     cur_part := (cur_part s)\<lparr>open_inodes := remove1 q (open_inodes (cur_part s))\<rparr>,
     file_table := (file_table s)[slot := (file_table s ! slot)\<lparr>fd_inode := NULL\<rparr>], fd_table := (fd_table s)[k := -1]\<rparr>)"
proof -
  have "3 \<le> k" using assms(1) by (simp add: leads_to_def)
  then show ?thesis using fd_word [OF assms(1)] assms(2-4)
    by (simp add: sys_close_def file_close_def inode_close_def set_inode_def set_file_def Let_def)
qed

text \<open>Writing to a file leaves the directories alone.\<close>

lemma appended_dir:
  assumes "layout_ok s" and "appended q xs s s'" and "dir_ok s i" and "file_blocks s (inodes s q) \<inter> set (dir_blocks s i) = {}"
  shows "dir_ok s' i" and "dir_entries s' i = dir_entries s i" and "dots_first s' i = dots_first s i"
proof -
  note a = assms(2) [unfolded appended_def Let_def]
  have su: "same_setup s s'" using a by simp
  have us: "used s \<subseteq> used s'" using a by blast
  have db: "dir_blocks s' i = dir_blocks s i" using assms(3) by (simp add: dir_blocks_direct dir_ok_def)
  have in_use: "\<exists>j<nbits (bb s). b = blkno s j \<and> j \<notin> spare s" if "b \<in> set (dir_blocks s i)" for b
    using assms(3) that by (simp add: dir_ok_def)
  have keep: "j \<notin> spare s'" if "j < nbits (bb s)" "j \<notin> spare s" for j
  proof -
    have "blkno s j \<in> used s" using that by (auto simp: used_alt)
    then have "blkno s' j \<in> used s'" using us blkno_setup [OF su] by auto
    moreover have "layout_ok s'" using a by blast
    ultimately show ?thesis using used_spare by blast
  qed
  show "dir_ok s' i" using assms(3) in_use keep unfolding dir_ok_def db blkno_setup [OF su] same_setup_part [OF su] by metis
  have same: "disk_of s' b = disk_of s b" if "b \<in> set (dir_blocks s i)" for b
  proof -
    have "b \<in> used s" using in_use [OF that] by (auto simp: used_alt)
    then show ?thesis using a that assms(4) by blast
  qed
  then show "dots_first s' i = dots_first s i" unfolding dots_first_def db by (intro ball_cong refl) (simp only:)
  from same have "map (\<lambda>b. block_entries (disk_of s' b)) (dir_blocks s i) = map (\<lambda>b. block_entries (disk_of s b)) (dir_blocks s i)"
    by (intro map_cong refl) simp
  then show "dir_entries s' i = dir_entries s i" unfolding dir_entries_def db by (simp only:)
qed

section \<open>Creating, writing and closing\<close>

text \<open>A file of the root directory is on the disk: its entry is the one that a search finds, and its number leads
  to an inode that is not in memory, with the contents \<open>xs\<close>.\<close>

definition file_on_disk :: "u8 list \<Rightarrow> u32 \<Rightarrow> u8 list \<Rightarrow> fs \<Rightarrow> bool" where
  "file_on_disk n no xs s \<longleftrightarrow> named n (dir_entries s (root_inode s)) = Some (file_entry n no) \<and>
     i_no (inode_at s no) = no \<and> i_open_cnts (inode_at s no) = 0 \<and> write_deny (inode_at s no) = 0 \<and>
     file_ok s (inode_at s no) \<and> contents s (inode_at s no) = xs \<and>
     (\<forall>p\<in>set (open_inodes (cur_part s)). i_no (inodes s p) \<noteq> no)"

text \<open>The tasks and their files are as before.\<close>

definition same_users :: "fs \<Rightarrow> fs \<Rightarrow> bool" where
  "same_users s s' \<longleftrightarrow> cur_part s' = cur_part s \<and> dirs s' = dirs s \<and> root_dir s' = root_dir s \<and> fd_table s' = fd_table s \<and>
     length (file_table s') = length (file_table s) \<and> (\<forall>i. fd_inode (file_table s' ! i) = fd_inode (file_table s ! i))"


lemma entry_name_file: "plain_name n \<Longrightarrow> entry_name (file_entry n no) = n"
  by (subst entry_name_def, simp add: file_entry_def, subst takeWhile_append2) (auto simp: plain_name_def)

lemma created_entry:
  assumes "created p q n no k slot flags s s'" and "plain_name n" and "named n (dir_entries s (inodes s p)) = None"
  shows "named n (dir_entries s' (inodes s' p)) = Some (file_entry n no)"
proof -
  let ?e = "file_entry n no"
  have nm: "entry_name ?e = n" "n \<noteq> []" using entry_name_file [OF assms(2)] assms(2) by (auto simp: plain_name_def)
  have c: "entries s' (inodes s' p) = add_mset ?e (entries s (inodes s p))"
    "set (dir_entries s' (inodes s' p)) \<subseteq> insert ?e (insert no_entry (set (dir_entries s (inodes s p))))"
    using assms(1) by (simp_all add: created_def)
  have "?e \<in># entries s' (inodes s' p)" by (simp add: c(1))
  then have "?e \<in> set (dir_entries s' (inodes s' p))" by (simp add: entries_def)
  from find_new_entry [OF this c(2)] nm assms(3) show ?thesis by (auto simp: find_None_iff)
qed

lemma small_no:
  fixes no :: u32
  assumes "unat no < 256"
  shows "ucast (ucast no :: u8) = no" "no < 4096" "no \<noteq> -1" "no < 256"
  using assms by (auto simp: word_unat_eq_iff low_byte word_less_nat_alt unsigned_minus_1_eq_mask mask_eq_exp_minus_1)

text \<open>What lies between the states before and after a file with the number \<open>no\<close> was stored under the name \<open>n\<close>.\<close>

definition file_stored :: "u8 list \<Rightarrow> u32 \<Rightarrow> fs \<Rightarrow> fs \<Rightarrow> bool" where
  "file_stored n no s s' \<longleftrightarrow> same_users s s' \<and> layout_ok s' \<and> inode_map_ok s' \<and> dir_ok s' (root_inode s') \<and>
     (dots_first s (root_inode s) \<longrightarrow> dots_first s' (root_inode s')) \<and> same_header (root_inode s) (root_inode s') \<and>
     i_size (root_inode s') = i_size (root_inode s) + 24 \<and>
     entries s' (root_inode s') = add_mset (file_entry n no) (entries s (root_inode s)) \<and>
     file_blocks s' (inode_at s' no) \<inter> (used s \<union> set (dir_blocks s' (root_inode s'))) = {} \<and>
     set (dir_blocks s' (root_inode s')) \<inter> used s \<subseteq> set (dir_blocks s (root_inode s)) \<and>
     (\<forall>i. file_ok s i \<and> file_blocks s i \<inter> set (dir_blocks s (root_inode s)) = {} \<longrightarrow>
       file_ok s' i \<and> contents s' i = contents s i \<and> file_blocks s' i = file_blocks s i)"

lemma open_write_close_ok:
  assumes v: "volume_ok s" and n: "fresh_name s n" and flags: "flags \<le> 7" "ucast flags AND O_CREAT \<noteq> 0"
    and wr: "ucast flags AND O_WRONLY \<noteq> (0 :: u32) \<or> ucast flags AND O_RDWR \<noteq> (0 :: u32)"
    and room: "dir_room s (root_inode s)" "\<exists>m\<in>inode_spare s. m < 256" "length xs div 512 + 4 \<le> card (spare s)"
    and m: "mallocs s = a # b # io # q # c # d # ms" "0 \<notin> {a, b, io, q, c, d}" "q \<noteq> root_at s" "q \<notin> set (open_inodes (cur_part s))"
    and slot: "get_free_slot_in_global s \<noteq> -1" and fd: "free_fd (fd_table s) (8 - 3) 3 = Some k" and xs: "length xs < 71680"
  shows "\<exists>no s1 s2 s3. sys_open (slash # n) flags s = Inr (of_nat k, s1) \<and> sys_write (of_nat k) xs s1 = Inr (of_nat (length xs), s2) \<and>
    sys_close (of_nat k) s2 = Inr (0, s3) \<and> unat no \<in> inode_spare s \<and> unat no < 256 \<and> file_on_disk n no xs s3 \<and> file_stored n no s s3 \<and> mallocs s3 = ms"
proof -
  let ?p = "root_at s"
  define sl where "sl = unat (get_free_slot_in_global s)"
  have pl: "plain_name n" "named n (dir_entries s (root_inode s)) = None" using n by (simp_all add: fresh_name_def)
  have vk: "length (file_table s) = 32" "length (fd_table s) = 8" "0 \<notin> spare s"
    "\<forall>p\<in>set (open_inodes (cur_part s)). unat (i_no (inodes s p)) \<notin> inode_spare s" using v by (simp_all add: volume_ok_def)
  have sp: "spare s \<noteq> {}" "inode_spare s \<noteq> {}" using room(2,3) by (auto simp: card_gt_0_iff)
  have nz: "0 \<notin> {a, b, io, q}" "c \<noteq> NULL" "d \<noteq> NULL" "q \<noteq> NULL" using m(2) by auto
  obtain no s1 where s1: "sys_open (slash # n) flags s = Inr (of_nat k, s1)" "created ?p q n no k (get_free_slot_in_global s) flags s s1"
    "mallocs s1 = c # d # ms"
    using sys_open_creates_ok [OF v n flags room(1) sp m(1) nz(1) m(3) slot fd] by blast
  note cr = s1(2) [unfolded created_def]
  have no: "unat no < 256" "unat no \<in> inode_spare s" using cr room(2) by force+
  have sr: "3 \<le> sl" "sl < 32" "fd_inode (file_table s ! sl) = NULL"
    using free_slot_null [of "file_table s" "32 - 3" 3] slot by (simp_all add: sl_def get_free_slot_in_global_def)
  have kr: "3 \<le> k" "k < 8" "fd_table s ! k = -1" using free_fd_range [OF fd] by simp_all
  have ft1: "file_table s1 = (file_table s)[sl := \<lparr>fd_pos = 0, fd_flag = ucast flags, fd_inode = q\<rparr>]" using cr by (simp add: sl_def)
  have lead: "leads_to k sl s1" using cr kr sr vk(2) by (simp add: leads_to_def sl_def)
  have f1: "sl < length (file_table s1)" "fd_inode (file_table s1 ! sl) = q" "fd_flag (file_table s1 ! sl) = ucast flags"
    using ft1 vk(1) sr(2) by simp_all
  have i1: "inodes s1 q = (inode_init no)\<lparr>i_open_cnts := 1\<rparr>" "layout_ok s1" "spare s1 \<subseteq> spare s" "card (spare s) \<le> Suc (card (spare s1))"
    using cr by blast+
  have ok1: "file_ok s1 (inodes s1 q)" "file_blocks s1 (inodes s1 q) = {}" "contents s1 (inodes s1 q) = []"
    by (simp_all add: i1(1) file_ok_def inode_init_def file_blocks_def contents_def)
  have z1: "0 \<notin> spare s1" using vk(3) i1(3) by auto
  obtain s2 where s2: "file_write sl xs s1 = Inr (of_nat (length xs), s2)" "appended q xs (s1\<lparr>mallocs := ms\<rparr>) s2"
    "\<exists>x. file_table s2 = (file_table s1)[sl := (file_table s1 ! sl)\<lparr>fd_pos := x\<rparr>]"
    using file_write_ok [OF i1(2) refl f1(1) f1(2) [symmetric] ok1(1) z1, of xs c d ms] room(3) i1(4) xs s1(3) nz(2,3)
    by (auto simp: i1(1) inode_init_def)
  have w2: "sys_write (of_nat k) xs s1 = Inr (of_nat (length xs), s2)" using sys_write_file [OF lead] s2(1) wr f1(3) by simp
  note a2 = s2(2) [unfolded appended_def Let_def, simplified]
  have in2: "same_header (inodes s1 q) (inodes s2 q)" "\<forall>x. x \<noteq> q \<longrightarrow> inodes s2 x = inodes s1 x" using a2 by (auto simp: same_header_def)
  have h2: "i_no (inodes s2 q) = no" "i_open_cnts (inodes s2 q) = 1" using in2(1) by (simp_all add: same_header_def i1(1) inode_init_def)
  have su2: "cur_part s2 = cur_part s1" "dirs s2 = dirs s1" "root_dir s2 = root_dir s1" "fd_table s2 = fd_table s1" "mallocs s2 = ms"
    using a2 by (simp_all add: same_setup_def)
  have at2: "inode_at s2 no = (inodes s2 q)\<lparr>i_open_cnts := 0, write_deny := 0\<rparr>"
    using a2 small_no [OF no(1)] i1(1) by (simp add: inode_init_def)
  obtain g where g: "file_table s2 = (file_table s)[sl := g]" "fd_inode g = q" using s2(3) ft1 f1(2) by auto
  have lead2: "leads_to k sl s2" using lead su2(4) by (simp add: leads_to_def)
  have g2: "q = fd_inode (file_table s2 ! sl)" using g vk(1) sr(2) by simp
  let ?s3 = "s2\<lparr>inodes := (inodes s2)(q := (inodes s2 q)\<lparr>write_deny := 0, i_open_cnts := 0\<rparr>),
     cur_part := (cur_part s2)\<lparr>open_inodes := remove1 q (open_inodes (cur_part s2))\<rparr>,
     file_table := (file_table s2)[sl := (file_table s2 ! sl)\<lparr>fd_inode := NULL\<rparr>], fd_table := (fd_table s2)[k := -1]\<rparr>"
  have c3: "sys_close (of_nat k) s2 = Inr (0, ?s3)" by (rule sys_close_last [OF lead2 g2 nz(4) h2(2)])
  have cp1: "cur_part s1 = (cur_part s)\<lparr>open_inodes := q # open_inodes (cur_part s)\<rparr>" using cr by blast
  have cp3: "cur_part ?s3 = cur_part s" using su2(1) by (simp add: cp1)
  have users: "same_users s ?s3"
  proof -
    have "(fd_table s)[k := -1] = fd_table s" using kr(3) by (metis list_update_id)
    moreover have "fd_table s2 = (fd_table s)[k := get_free_slot_in_global s]" "dirs s2 = dirs s" "root_dir s2 = root_dir s"
      using su2 cr by simp_all
    moreover have "fd_inode ((file_table s)[sl := h] ! i) = fd_inode (file_table s ! i)" if "fd_inode h = NULL" for h i
      using that sr(3) vk(1) sr(2) by (cases "i = sl") simp_all
    ultimately show ?thesis using cp3 vk(1) sr(2) by (simp add: same_users_def g(1))
  qed
  have vol: "same_volume s2 ?s3" by (simp add: same_volume_def)
  note vf = same_volume_facts [OF vol]
  have root: "inodes ?s3 ?p = inodes s1 ?p" "inodes s2 ?p = inodes s1 ?p" "root_at ?s3 = ?p"
    using in2(2) m(3) users by (auto simp: same_users_def)
  have dir1: "layout_ok (s1\<lparr>mallocs := ms\<rparr>)" "dir_ok (s1\<lparr>mallocs := ms\<rparr>) (inodes s1 ?p)"
    "file_blocks (s1\<lparr>mallocs := ms\<rparr>) (inodes (s1\<lparr>mallocs := ms\<rparr>) q) \<inter> set (dir_blocks (s1\<lparr>mallocs := ms\<rparr>) (inodes s1 ?p)) = {}"
    using cr ok1(2) by simp_all
  note ad = appended_dir [OF dir1(1) s2(2) dir1(2,3)]
  have d3: "dir_ok ?s3 (root_inode ?s3)" "dir_entries ?s3 (root_inode ?s3) = dir_entries s1 (inodes s1 ?p)"
    using ad unfolding root(1,3) vf by simp_all
  have e3: "entries ?s3 (root_inode ?s3) = add_mset (file_entry n no) (entries s (root_inode s))"
    using cr unfolding entries_def d3(2) by simp
  have db3: "dir_blocks ?s3 (root_inode ?s3) = dir_blocks s1 (inodes s1 ?p)"
    using cr unfolding root(1,3) by (simp add: dir_blocks_direct dir_ok_def)
  have at3: "inode_at ?s3 no = (inodes s2 q)\<lparr>i_open_cnts := 0, write_deny := 0\<rparr>" unfolding vf at2 ..
  have ex: "file_ok ?s3 (inode_at ?s3 no)" "contents ?s3 (inode_at ?s3 no) = xs" "file_blocks ?s3 (inode_at ?s3 no) \<inter> used s1 = {}"
    using a2 ok1(2,3) extent_cong [OF vol, of "inode_at ?s3 no" "inodes s2 q"] unfolding at3 by auto
  have stored: "file_stored n no s ?s3"
  proof -
    have l3: "layout_ok ?s3" "inode_map_ok ?s3" using a2 v unfolding vf by (simp_all add: volume_ok_def inode_map_ok_def su2(1) cp1)
    have "entry_name (file_entry n no) \<noteq> [46, 46]" using entry_name_file [OF pl(1)] pl(1) by (auto simp: plain_name_def)
    then have "dots_first s1 (inodes s1 ?p)" if "dots_first s (root_inode s)" using cr that by blast
    then have dots: "dots_first ?s3 (root_inode ?s3)" if "dots_first s (root_inode s)"
      using that ad(3) unfolding root(1,3) vf by simp
    have hd: "same_header (root_inode s) (root_inode ?s3)" "i_size (root_inode ?s3) = i_size (root_inode s) + 24"
      using cr unfolding root(1,3) by blast+
    have "set (dir_blocks s1 (inodes s1 ?p)) \<subseteq> used s1" using cr by (auto simp: dir_ok_def used_alt)
    then have apart: "file_blocks ?s3 (inode_at ?s3 no) \<inter> (used s \<union> set (dir_blocks ?s3 (root_inode ?s3))) = {}"
      using ex(3) created_used [OF s1(2)] unfolding db3 by blast
    have own: "set (dir_blocks ?s3 (root_inode ?s3)) \<inter> used s \<subseteq> set (dir_blocks s (root_inode s))" using cr unfolding db3 by blast
    have "file_ok ?s3 i \<and> contents ?s3 i = contents s i \<and> file_blocks ?s3 i = file_blocks s i"
      if i: "file_ok s i" "file_blocks s i \<inter> set (dir_blocks s (root_inode s)) = {}" for i
    proof -
      have "layout_ok s" using v by (simp add: volume_ok_def)
      note f1 = created_files [OF this s1(2) i]
      have "disk_of s2 b = disk_of s1 b" if "b \<in> file_blocks s1 i" for b
        using a2 file_blocks_used [OF f1(1)] that ok1(2) by blast
      moreover have "used s1 \<subseteq> used s2" using a2 by blast
      ultimately have "file_ok s2 i" "contents s2 i = contents s1 i" "file_blocks s2 i = file_blocks s1 i"
        using file_same [OF f1(1), of s2] by blast+
      then show ?thesis using f1 extent_cong [OF vol refl refl] by simp
    qed
    then show ?thesis unfolding file_stored_def using users l3 d3(1) dots apart own e3 hd by blast
  qed
  have others: "i_no (inodes ?s3 x) \<noteq> no" if x: "x \<in> set (open_inodes (cur_part s))" for x
  proof -
    have "x \<noteq> q" using x m(4) by blast
    moreover have "i_no (inodes s1 x) = i_no (inodes s x)" using cr calculation by (cases "x = ?p") (auto simp: same_header_def)
    ultimately have "i_no (inodes ?s3 x) = i_no (inodes s x)" using in2(2) by simp
    then show ?thesis using vk(4) x no(2) by metis
  qed
  have "file_on_disk n no xs ?s3" unfolding file_on_disk_def cp3
    using created_entry [OF s1(2) pl] d3(2) ex others at3 h2(1) by simp
  then show ?thesis using s1(1) w2 c3 no stored su2(5) by (intro exI [of _ no] exI [of _ s1] exI [of _ s2] exI [of _ ?s3]) simp
qed

section \<open>Opening again and reading\<close>

lemma named_file_entry: "e_no (file_entry n no) = no" "f_type (file_entry n no) = FT_REGULAR"
  by (simp_all add: file_entry_def)


section \<open>Removing a file\<close>

text \<open>No file that is open has the number \<open>no\<close>.\<close>

definition not_open :: "u32 \<Rightarrow> fs \<Rightarrow> bool" where
  "not_open no s \<longleftrightarrow> (\<forall>f\<in>set (file_table s). fd_inode f \<noteq> NULL \<longrightarrow> no \<noteq> i_no (inodes s (fd_inode f)))"

text \<open>The blocks that a removal may touch: those of the file and those of the root directory.\<close>

abbreviation touched :: "fs \<Rightarrow> u32 \<Rightarrow> u32 set" where
  "touched s no \<equiv> held s (inode_at s no) \<union> set (dir_blocks s (root_inode s))"

lemma sys_unlink_ok:
  assumes l: "layout_ok s" and im: "inode_map_ok s" and d: "dir_ok s (root_inode s)" "dots_first s (root_inode s)"
      "24 \<le> i_size (root_inode s)" "i_no (root_inode s) = 0"
    and pl: "plain_name n" and f: "file_on_disk n no xs s" and no: "unat no < nbits (ib s)" "no \<noteq> 0"
    and one: "filter_mset (sought no) (entries s (root_inode s)) = {#file_entry n no#}"
    and h: "held_ok s (inode_at s no)" "held s (inode_at s no) \<inter> set (dir_blocks s (root_inode s)) = {}" and shut: "not_open no s"
    and m: "mallocs s = a # b # io # c # e # g # ms" "0 \<notin> {a, b, io, c, e, g}" "c \<noteq> root_at s"
  shows "\<exists>s'. sys_unlink (slash # n) s = Inr (0, s') \<and> layout_ok s' \<and> dir_ok s' (root_inode s') \<and> same_users s s' \<and>
    entries s (root_inode s) = add_mset (file_entry n no) (entries s' (root_inode s')) \<and> unat no \<in> inode_spare s' \<and>
    spare s \<union> bits_of s (held s (inode_at s no)) \<subseteq> spare s' \<and> (\<forall>m<4096. m \<noteq> 0 \<longrightarrow> m \<noteq> no \<longrightarrow> inode_at s' m = inode_at s m) \<and>
    (\<forall>i. file_ok s i \<and> file_blocks s i \<inter> touched s no = {} \<longrightarrow> file_ok s' i \<and> contents s' i = contents s i)"
proof -
  have n4: "nbits (ib s) \<le> 4096" using im by (simp add: inode_map_ok_def)
  then have no4: "no < 4096" "no \<noteq> -1" using no(1) by (auto simp: word_less_nat_alt unsigned_minus_1_eq_mask mask_eq_exp_minus_1)
  note fo = f [unfolded file_on_disk_def]
  have nz: "a \<noteq> NULL" "b \<noteq> NULL" "io \<noteq> NULL" "0 \<notin> {c, e, g}" using m(2) by auto
  have len: "length (slash # n) < 512" using pl by (simp add: plain_name_def)
  let ?i = "inode_at s no" and ?t = "s\<lparr>mallocs := c # e # g # ms\<rparr>" and ?r = "\<lparr>searched_path = slash # n, parent_dir = root_dir s, file_type = FT_REGULAR\<rparr>"
  have "search_file (slash # n) s = Inr (no, ?r, s\<lparr>mallocs := io # c # e # g # ms\<rparr>)"
    using search_single(2) [OF pl dir_ok_readable [OF l d(1)] m(1) nz(1,2)] fo by (simp add: named_file_entry)
  moreover have "\<not> (\<exists>f\<in>set (file_table s). fd_inode f \<noteq> NULL \<and> no = i_no (inodes s (fd_inode f)))" using shut by (auto simp: not_open_def)
  moreover have "heap_alloc (s\<lparr>mallocs := io # c # e # g # ms\<rparr>) = (io, ?t)" by (simp add: heap_alloc_def)
  ultimately have u: "sys_unlink (slash # n) s = bindr (delete_dir_entry (root_dir s) no ?t) (\<lambda>(_, s').
      bindr (inode_release no s') (\<lambda>s'. bindr (dir_close (root_dir s) s') (\<lambda>s'. Inr (0, s'))))"
    using len no(2) no4(2) nz(3) by (auto simp: sys_unlink_def)
  have lt: "layout_ok ?t" using l by (simp add: layout_ok_def table_ok_def)
  have dt: "dir_ok ?t (inodes ?t (root_at s))" "dots_first ?t (inodes ?t (root_at s))" "24 \<le> i_size (inodes ?t (root_at s))"
    "filter_mset (sought no) (entries ?t (inodes ?t (root_at s))) = {#file_entry n no#}"
    using d(1-3) one by (simp_all add: dots_first_def dir_blocks_def)
  obtain s1 where s1: "delete_dir_entry (root_dir s) no ?t = Inr (True, s1)" "entries_taken (root_at s) {#file_entry n no#} 24 ?t s1"
    using delete_dir_entry_ok [OF lt _ dt(1,2,4,3)] by auto
  have vt: "same_volume s ?t" by (simp add: same_volume_def)
  note et = s1(2) [unfolded entries_taken_def]
    and fr = s1(2) [unfolded entries_taken_def dir_frame_def same_volume_facts [OF vt] same_volume_part [OF vt], simplified]
  have st: "same_setup ?t s1" "cur_part s1 = cur_part s" "dirs s1 = dirs s" "root_dir s1 = root_dir s" "fd_table s1 = fd_table s"
    "mallocs s1 = c # e # g # ms" "blkno s1 = blkno s" using et by (simp_all add: same_setup_def blkno_def fun_eq_iff)
  have at1: "inode_at s1 k = inode_at s k" if "k < 4096" "k \<noteq> 0" for k
    using fr that d(4) by (simp add: inode_at_def)
  have im1: "inode_map_ok s1" "inode_spare s1 = inode_spare s"
    using other_bytes_inodes [of ?t s1] im fr st(1) by (simp_all add: inode_map_ok_def inode_spare_def)
  have disk1: "disk_of s1 x = disk_of s x" if "data_lba s \<le> x" "x \<notin> set (dir_blocks s (root_inode s))" for x
    using fr that by blast
  have held1: "held s1 ?i = held s ?i"
  proof (cases "i_sectors ?i ! 12 = 0")
    case False
    then have b: "i_sectors ?i ! 12 \<in> held s ?i" by (simp add: held_def)
    then obtain j where "j < nbits (bb s)" "i_sectors ?i ! 12 = blkno s j" using h(1) by (auto simp: held_ok_def)
    then have "data_lba s \<le> i_sectors ?i ! 12" using blkno_bounds(3) [OF l] by simp
    then have "disk_of s1 (i_sectors ?i ! 12) = disk_of s (i_sectors ?i ! 12)" using disk1 b h(2) by blast
    then show ?thesis by (simp add: held_def dir_blocks_def)
  qed (simp add: held_def dir_blocks_def)
  have "i_no (inodes s1 x) = i_no (inodes s x)" for x using fr by (cases "x = root_at s") (simp_all add: same_header_def)
  then have r1: "layout_ok s1" "unat no < nbits (ib s1)" "i_no (inode_at s1 no) = no" "held_ok s1 (inode_at s1 no)"
    "\<forall>p\<in>set (open_inodes (cur_part s1)). i_no (inodes s1 p) \<noteq> no"
    using et st(2,7) no at1 [OF no4(1) no(2)] fo h(1) by (simp_all add: held_ok_def held1)
  obtain s2 where s2: "inode_release no s1 = Inr s2" "released no (held s ?i) s1 s2" "\<forall>x. x \<noteq> c \<longrightarrow> inodes s2 x = inodes s1 x"
    using inode_release_ok [OF r1(1) im1(1) r1(2,3,5,4) st(6) nz(4)] held1 at1 [OF no4(1) no(2)] by auto
  note rl = s2(2) [unfolded released_def]
  have "root_dir s2 = root_dir s" using rl st(4) by simp
  then have "sys_unlink (slash # n) s = Inr (0, s2)" using s1(1) s2(1) by (simp add: u dir_close_def)
  moreover have "same_users s s2" using rl st fr by (simp add: same_users_def)
  moreover have root: "root_at s2 = root_at s" "root_inode s2 = inodes s1 (root_at s)" using rl st s2(3) m(3) by simp_all
  moreover have "set (dir_blocks s1 (inodes s1 (root_at s))) \<subseteq> set (dir_blocks s (root_inode s))" using fr by blast
  then have apart: "held s ?i \<inter> set (dir_blocks s1 (inodes s1 (root_at s))) = {}" using h(2) by blast
  moreover have dir1: "dir_ok s1 (inodes s1 (root_at s))" using et by simp
  note rd = released_dir [OF r1(1) s2(2) dir1 apart]
  have "entries s (root_inode s) = add_mset (file_entry n no) (entries s2 (root_inode s2))"
    using et rd(2) unfolding root(2) entries_def by simp
  moreover have "spare s \<union> bits_of s (held s ?i) \<subseteq> spare s2" using rl et st by (auto simp: bits_of_def)
  moreover have "inode_at s2 k = inode_at s k" if "k < 4096" "k \<noteq> 0" "k \<noteq> no" for k using rl at1 that by simp
  moreover have "file_ok s2 i \<and> contents s2 i = contents s i" if i: "file_ok s i" "file_blocks s i \<inter> touched s no = {}" for i
  proof -
    have "disk_of s2 x = disk_of s x \<and> x \<in> used s2" if x: "x \<in> file_blocks s i" for x
    proof -
      have xu: "x \<in> used s" "x \<notin> touched s no" using x i file_blocks_used [OF i(1)] by auto
      then have "data_lba s \<le> x" using used_bounds(2) [OF l] by simp
      then have "data_lba s1 \<le> x" "disk_of s1 x = disk_of s x" using disk1 xu(2) st(2) by simp_all
      then have "disk_of s2 x = disk_of s x" using rl by metis
      moreover obtain j where j: "x = blkno s j" "j < nbits (bb s)" "j \<notin> spare s" using xu(1) by (auto simp: used_alt)
      then have "j \<notin> spare s1" using fr xu(2) by blast
      then have "j \<notin> spare s2" using rl xu(2) j(1) st(7) by (auto simp: bits_of_def)
      then have "x \<in> used s2" using j rl st(2) by (auto simp: used_alt blkno_def)
      ultimately show ?thesis by simp
    qed
    then show ?thesis using file_kept [OF i(1), of s2] by blast
  qed
  ultimately show ?thesis using rl rd(1) im1(2) by (intro exI [of _ s2]) simp
qed

text \<open>What was stored can be removed.\<close>

lemma stored_removable:
  assumes v: "volume_ok s" and sp: "spare s \<noteq> {}" and pl: "plain_name n" and f3: "file_on_disk n no xs s3" and st: "file_stored n no s s3"
    and nos: "unat no \<in> inode_spare s" and xs: "length xs < 6144" and root: "dots_first s (root_inode s)" "i_no (root_inode s) = 0"
    and ino: "0 \<notin> inode_spare s" "\<forall>x\<in>#entries s (root_inode s). unat (e_no x) \<notin> inode_spare s"
  shows "layout_ok s3" "inode_map_ok s3" "dir_ok s3 (root_inode s3)" "dots_first s3 (root_inode s3)" "24 \<le> i_size (root_inode s3)"
    "i_no (root_inode s3) = 0" "unat no < nbits (ib s3)" "no \<noteq> 0"
    "filter_mset (sought no) (entries s3 (root_inode s3)) = {#file_entry n no#}" "held_ok s3 (inode_at s3 no)"
    "held s3 (inode_at s3 no) \<inter> set (dir_blocks s3 (root_inode s3)) = {}" "not_open no s3"
    "held s3 (inode_at s3 no) = file_blocks s3 (inode_at s3 no)"
proof -
  note us = st [unfolded file_stored_def same_users_def]
  note st = st [unfolded file_stored_def]
  show "unat no < nbits (ib s3)" "no \<noteq> 0" using nos us ino(1) by (auto simp: inode_spare_def)
  show l3: "layout_ok s3" and "inode_map_ok s3" "dir_ok s3 (root_inode s3)" "dots_first s3 (root_inode s3)" using st root(1) by blast+
  have "unat (i_size (root_inode s3)) = unat (i_size (root_inode s)) + 24" using st v by (simp add: volume_ok_def unat_add_u32)
  then show "24 \<le> i_size (root_inode s3)" by (simp add: word_le_nat_alt)
  show "i_no (root_inode s3) = 0" using st root(2) by (simp add: same_header_def)
  have "filter_mset (sought no) (entries s (root_inode s)) = {#}" using ino(2) nos by (auto simp: sought_def)
  moreover have "sought no (file_entry n no)" using entry_name_file [OF pl, of no] pl file_entry_ok [of n no]
    by (auto simp: sought_def ordinary_def plain_name_def named_file_entry)
  ultimately show "filter_mset (sought no) (entries s3 (root_inode s3)) = {#file_entry n no#}" using st by simp
  note f3 = f3 [unfolded file_on_disk_def]
  have "unat (i_size (inode_at s3 no)) = length xs" using f3 length_contents [of s3 "inode_at s3 no"] by simp
  then show held: "held s3 (inode_at s3 no) = file_blocks s3 (inode_at s3 no)" using held_small [OF l3] f3 xs by simp
  have "0 < nbits (bb s)" using sp by (auto simp: spare_def)
  moreover have "0 \<notin> spare s" using v by (simp add: volume_ok_def)
  ultimately have "blkno s 0 \<in> used s" by (auto simp: used_alt)
  then have first: "blkno s3 0 \<notin> file_blocks s3 (inode_at s3 no)" using st us by (auto simp: blkno_def)
  have "\<exists>j. 0 < j \<and> j < nbits (bb s3) \<and> b = blkno s3 j" if b: "b \<in> file_blocks s3 (inode_at s3 no)" for b
  proof -
    obtain j where j: "j < nbits (bb s3)" "b = blkno s3 j" using b f3 file_blocks_used [of s3 "inode_at s3 no"] by (auto simp: used_alt)
    with first b show ?thesis by (cases j) auto
  qed
  then show "held_ok s3 (inode_at s3 no)" "held s3 (inode_at s3 no) \<inter> set (dir_blocks s3 (root_inode s3)) = {}"
    using st by (auto simp: held_ok_def held)
  have "fd_inode f \<in> set (open_inodes (cur_part s3))" if "f \<in> set (file_table s3)" "fd_inode f \<noteq> NULL" for f
    using that us v unfolding volume_ok_def by (metis in_set_conv_nth)
  then show "not_open no s3" using f3 by (auto simp: not_open_def)
qed

section \<open>Properties\<close>


text \<open>C11 \<open>sys_unlink\<close> removes a file of the root directory that is not open: its entry leaves the directory, the bits of its
  blocks and of its number are cleared, and all the other files, and the other inodes on the disk, are as they were.\<close>

theorem sys_unlink_removes:
  assumes "layout_ok s" and "inode_map_ok s" and "dir_ok s (root_inode s)" and "dots_first s (root_inode s)"
    and "24 \<le> i_size (root_inode s)" and "i_no (root_inode s) = 0" and "plain_name n" and "file_on_disk n no xs s"
    and "unat no < nbits (ib s)" and "no \<noteq> 0" and "filter_mset (sought no) (entries s (root_inode s)) = {#file_entry n no#}"
    and "held_ok s (inode_at s no)" and "held s (inode_at s no) \<inter> set (dir_blocks s (root_inode s)) = {}" and "not_open no s"
    and "mallocs s = a # b # io # c # e # g # ms" and "0 \<notin> {a, b, io, c, e, g}" and "c \<noteq> root_at s"
  shows "\<exists>s'. sys_unlink (slash # n) s = Inr (0, s') \<and>
    entries s (root_inode s) = add_mset (file_entry n no) (entries s' (root_inode s')) \<and> unat no \<in> inode_spare s' \<and>
    spare s \<union> bits_of s (held s (inode_at s no)) \<subseteq> spare s' \<and> (\<forall>m<4096. m \<noteq> 0 \<longrightarrow> m \<noteq> no \<longrightarrow> inode_at s' m = inode_at s m) \<and>
    (\<forall>i. file_ok s i \<and> file_blocks s i \<inter> touched s no = {} \<longrightarrow> file_ok s' i \<and> contents s' i = contents s i)"
  using sys_unlink_ok [OF assms] by blast


lemma dir_fs_volume: "volume_ok dir_fs"
proof -
  have "0 \<notin> spare dir_fs" by (simp add: spare_def taken_def dir_fs_fields nbits_def)
  moreover have "length (file_table dir_fs) = 32" "length (fd_table dir_fs) = 8" "open_inodes (cur_part dir_fs) = []"
    "\<forall>f\<in>set (file_table dir_fs). fd_inode f = NULL"
    by (simp_all add: dir_fs_fields)
  ultimately show ?thesis using dir_fs_layout dir_fs_inode_map dir_fs_dir(1) dir_fs_hyps(5) by (simp add: volume_ok_def)
qed

lemma dir_fs_fresh: "plain_name n \<Longrightarrow> fresh_name dir_fs n"
  by (simp add: fresh_name_def dir_fs_blocks)

lemma dir_fs_room: "{1, 2, 3, 4} \<subseteq> spare dir_fs" "1 \<in> inode_spare dir_fs" "root_at dir_fs = 0xc0500000"
  by (auto simp: spare_def inode_spare_def taken_def dir_fs_fields nbits_def bit_1_iff)

lemma dir_fs_four: "length [104, 105 :: u8] div 512 + 4 \<le> card (spare dir_fs)"
  using card_mono [OF finite_spare dir_fs_room(1)] by simp

definition root_fs :: "addr list \<Rightarrow> fs" where
  "root_fs ms = dir_fs\<lparr>mallocs := ms\<rparr>"

lemma root_fs_ok:
  "volume_ok (root_fs ms)" "fresh_name (root_fs ms) [97]" "dir_room (root_fs ms) (root_inode (root_fs ms))"
  "\<exists>m\<in>inode_spare (root_fs ms). m < 256" "length [104, 105 :: u8] div 512 + 4 \<le> card (spare (root_fs ms))"
  "get_free_slot_in_global (root_fs ms) \<noteq> -1" "free_fd (fd_table (root_fs ms)) (8 - 3) 3 = Some 3" "mallocs (root_fs ms) = ms"
  "root_at (root_fs ms) = 0xc0500000" "open_inodes (cur_part (root_fs ms)) = []" "dots_first (root_fs ms) (root_inode (root_fs ms))"
  "i_no (root_inode (root_fs ms)) = 0" "0 \<notin> inode_spare (root_fs ms)" "entries (root_fs ms) (root_inode (root_fs ms)) = {#}"
  "plain_name [97]" "spare (root_fs ms) \<noteq> {}"
proof -
  have pl: "plain_name [97]" by (simp add: plain_name_def)
  then show "volume_ok (root_fs ms)" "fresh_name (root_fs ms) [97]" "dir_room (root_fs ms) (root_inode (root_fs ms))" "plain_name [97]"
    "length [104, 105 :: u8] div 512 + 4 \<le> card (spare (root_fs ms))" "spare (root_fs ms) \<noteq> {}"
    using dir_fs_volume dir_fs_fresh [OF pl] dir_fs_dir(2) dir_fs_four dir_fs_room(1) by (auto simp: root_fs_def fresh_name_def)
  show "\<exists>m\<in>inode_spare (root_fs ms). m < 256" using dir_fs_room(2) unfolding root_fs_def by (intro bexI [of _ 1]) simp_all
  show "get_free_slot_in_global (root_fs ms) \<noteq> -1" "free_fd (fd_table (root_fs ms)) (8 - 3) 3 = Some 3" "mallocs (root_fs ms) = ms"
    "root_at (root_fs ms) = 0xc0500000" "open_inodes (cur_part (root_fs ms)) = []" "i_no (root_inode (root_fs ms)) = 0"
    using dir_fs_fd dir_fs_slot dir_fs_room(3) unfolding root_fs_def by simp_all (simp_all add: dir_fs_fields)
  show "dots_first (root_fs ms) (root_inode (root_fs ms))" "entries (root_fs ms) (root_inode (root_fs ms)) = {#}"
    unfolding root_fs_def by (simp_all add: dots_first_def entries_def dir_fs_blocks)
  show "0 \<notin> inode_spare (root_fs ms)" unfolding root_fs_def by simp (simp add: inode_spare_def taken_def dir_fs_fields nbits_def)
qed


lemma root_fs_entries: "\<forall>x\<in>#entries (root_fs ms) (root_inode (root_fs ms)). unat (e_no x) \<notin> inode_spare (root_fs ms)"
  unfolding root_fs_ok(14) by simp


theorem sys_unlink_removes_witness:
  "\<exists>no s3 s4. file_on_disk [97] no [104, 105] s3 \<and> sys_unlink [47, 97] s3 = Inr (0, s4) \<and>
    entries s3 (root_inode s3) = add_mset (file_entry [97] no) (entries s4 (root_inode s4))"
proof -
  let ?s = "root_fs [1, 2, 3, 4, 5, 6, 7, 8, 9, 10, 11, 12]"
  have a: "(4 :: u32) \<noteq> root_at ?s" "4 \<notin> set (open_inodes (cur_part ?s))" by (simp_all add: root_fs_ok)
  obtain no s3 where s: "unat no \<in> inode_spare ?s" "file_on_disk [97] no [104, 105] s3" "file_stored [97] no ?s s3" "mallocs s3 = [7, 8, 9, 10, 11, 12]"
    using open_write_close_ok [OF root_fs_ok(1,2) _ _ _ root_fs_ok(3-5,8) _ a root_fs_ok(6,7), of 6] by auto
  have "length [104, 105 :: u8] < 6144" by simp
  note rm = stored_removable [OF root_fs_ok(1,16,15) s(2,3,1) this root_fs_ok(11-13) root_fs_entries]
  have "root_at s3 = root_at ?s" using s(3) by (simp add: file_stored_def same_users_def)
  then have "10 \<noteq> root_at s3" by (simp add: root_fs_ok)
  then show ?thesis using sys_unlink_removes [OF rm(1-6) root_fs_ok(15) s(2) rm(7-12) s(4)] s(2) by auto
qed

end
