(* ===== verification/Walk.thy ===== *)
theory Walk
  imports Path Release
begin

unbundle bit_operations_syntax

text \<open>
  Paths through directories: \<open>search_file\<close> of \<^verbatim>\<open>fs/fs.c\<close> against a walk down the tree of the directories that are
  on the disk. On its way it opens and closes directories; what it leaves in memory is one more user of the
  directory that it ends in.
\<close>

section \<open>The walk\<close>

text \<open>The entries of the directory with a number.\<close>

definition dir_at :: "fs \<Rightarrow> u32 \<Rightarrow> dir_entry list" where
  "dir_at s d = dir_entries s (inode_at s d)"

text \<open>The reference: the entry of the last name that is looked up, the directory where that is, and the names
  on the way. A file ends the walk, whatever follows it.\<close>

fun walk :: "(u32 \<Rightarrow> dir_entry list) \<Rightarrow> u32 \<Rightarrow> u8 list list \<Rightarrow> dir_entry option \<times> u32 \<times> u8 list list" where
  "walk D d [] = (None, d, [])"
| "walk D d (n # ns) =
     (case find (\<lambda>e. entry_name e = n) (D d) of
        None \<Rightarrow> (None, d, [n])
      | Some e \<Rightarrow>
          if f_type e = FT_DIRECTORY \<and> ns \<noteq> [] then (case walk D (e_no e) ns of (r, d', ms) \<Rightarrow> (r, d', n # ms))
          else (Some e, d, [n]))"

text \<open>\<open>T\<close> are the numbers of the directories; every entry in use is that of a file or of one of them.\<close>

definition tree_ok :: "fs \<Rightarrow> u32 set \<Rightarrow> bool" where
  "tree_ok s T \<longleftrightarrow> table_ok s \<and> 0 \<in> T \<and> (\<forall>d\<in>T. d < 4096 \<and> i_no (inode_at s d) = d \<and> dir_readable s (inode_at s d) \<and>
     (\<forall>e\<in>set (dir_at s d). entry_name e \<noteq> [] \<longrightarrow>
       e_no e < 4096 \<and> (f_type e = FT_REGULAR \<or> f_type e = FT_DIRECTORY \<and> e_no e \<in> T)))"

text \<open>The directories that are in memory name the same blocks as on the disk; the root directory is in memory.\<close>

definition cache_ok :: "fs \<Rightarrow> u32 set \<Rightarrow> bool" where
  "cache_ok s T \<longleftrightarrow> open_ok s \<and>
     (\<forall>p\<in>set (open_inodes (cur_part s)). i_open_cnts (inodes s p) \<noteq> -1 \<and>
       (i_no (inodes s p) \<in> T \<longrightarrow> i_sectors (inodes s p) = i_sectors (inode_at s (i_no (inodes s p))))) \<and>
     dir_inode (dirs s (root_dir s)) \<in> set (open_inodes (cur_part s)) \<and> i_no (inodes s (dir_inode (dirs s (root_dir s)))) = 0 \<and>
     root_dir s \<noteq> NULL"

text \<open>Addresses that are not in use.\<close>

definition unused :: "fs \<Rightarrow> addr list \<Rightarrow> bool" where
  "unused s ms \<longleftrightarrow> 0 \<notin> set ms \<and> root_dir s \<notin> set ms \<and> set ms \<inter> set (open_inodes (cur_part s)) = {}"

section \<open>Opening and closing directories\<close>

text \<open>The same disk and the same open inodes.\<close>

definition same_memory :: "fs \<Rightarrow> fs \<Rightarrow> bool" where
  "same_memory s t \<longleftrightarrow> disks t = disks s \<and> fs_bytes t = fs_bytes s \<and> cur_part t = cur_part s \<and>
     (\<forall>p\<in>set (open_inodes (cur_part s)). inodes t p = inodes s p) \<and> root_dir t = root_dir s \<and>
     dirs t (root_dir s) = dirs s (root_dir s) \<and> file_table t = file_table s \<and> fd_table t = fd_table s \<and>
     cwd_inode_nr t = cwd_inode_nr s \<and> garbage t = garbage s"

lemma same_memory_volume: "same_memory s t \<Longrightarrow> same_volume s t"
  by (simp add: same_memory_def same_volume_def)

text \<open>In \<open>s\<close> the directory \<open>pd\<close> is open on top of what was open in \<open>s0\<close>: it is the root directory, or closing it
  leads back to \<open>s0\<close>.\<close>

definition holding :: "fs \<Rightarrow> fs \<Rightarrow> addr \<Rightarrow> u32 \<Rightarrow> bool" where
  "holding s0 s pd d \<longleftrightarrow> same_volume s0 s \<and> root_dir s = root_dir s0 \<and> pd \<noteq> NULL \<and>
     (if pd = root_dir s0 then same_memory s0 s
      else \<exists>t. inode_close (dir_inode (dirs s pd)) s = Inr t \<and> same_memory s0 t \<and> mallocs t = mallocs s) \<and>
     i_no (inodes s (dir_inode (dirs s pd))) = d \<and>
     i_sectors (inodes s (dir_inode (dirs s pd))) = i_sectors (inode_at s0 d)"

lemma inode_close_mallocs: "inode_close p s = Inr t \<Longrightarrow> inode_close p (s\<lparr>mallocs := ms\<rparr>) = Inr (t\<lparr>mallocs := ms\<rparr>)"
  by (cases "p = NULL") (auto simp: inode_close_def Let_def set_inode_def ASSERT_def split: if_splits)

lemma holding_mallocs: "holding s0 s pd d \<Longrightarrow> holding s0 (s\<lparr>mallocs := ms\<rparr>) pd d"
  unfolding holding_def using inode_close_mallocs [of _ s _ ms] by (fastforce simp: same_volume_def same_memory_def)

lemma holding_close:
  assumes "holding s0 s pd d"
  shows "\<exists>t. dir_close pd s = Inr t \<and> same_memory s0 t \<and> mallocs t = mallocs s"
  using assms by (auto simp: holding_def dir_close_def heap_free_def split: if_splits)

lemma sectors_entries:
  assumes "i_sectors i = i_sectors j"
  shows "dir_entries s i = dir_entries s j" "dir_readable s i = dir_readable s j"
  using assms by (simp_all add: dir_entries_def dir_blocks_def dir_readable_def)

lemma dir_open_ok:
  assumes t: "tree_ok s0 T" and c: "cache_ok s0 T" and m: "same_memory s0 s" and d: "d \<in> T"
    and ms: "mallocs s = x # a # b # ms" and u: "unused s0 (mallocs s)"
  shows "\<exists>s'. dir_open d s = Inr (x, s') \<and> holding s0 s' x d \<and> (mallocs s' = a # b # ms \<or> mallocs s' = ms)"
proof -
  let ?t = "s\<lparr>mallocs := a # b # ms\<rparr>"
  have nz: "x \<noteq> NULL" "x \<noteq> root_dir s0" "a \<noteq> NULL" "b \<noteq> NULL" "a \<notin> set (open_inodes (cur_part s0))"
    using u ms by (auto simp: unused_def)
  note mm = m [unfolded same_memory_def] and cc = c [unfolded cache_ok_def open_ok_def]
  have td: "d < 4096" "i_no (inode_at s0 d) = d" "table_ok s0" using t d by (auto simp: tree_ok_def)
  have at: "inode_at ?t d = inode_at s0 d" "table_ok ?t" using mm td(3) by (simp_all add: inode_at_def table_ok_def)
  let ?f = "find (\<lambda>p. i_no (inodes s p) = d) (open_inodes (cur_part s))"
  show ?thesis
  proof (cases ?f)
    case (Some p)
    then have p: "p \<in> set (open_inodes (cur_part s0))" "i_no (inodes s p) = d" using mm by (auto simp: find_Some_iff)
    have ip: "inodes s p = inodes s0 p" using mm p(1) by blast
    have cn: "i_open_cnts (inodes s0 p) \<noteq> 0" "i_open_cnts (inodes s0 p) + 1 \<noteq> 0" "i_sectors (inodes s0 p) = i_sectors (inode_at s0 d)"
      using cc p d ip by (auto simp: add_eq_0_iff add.commute)
    let ?s' = "(set_inode p (inodes s p\<lparr>i_open_cnts := i_open_cnts (inodes s p) + 1\<rparr>) ?t)\<lparr>dirs := (dirs s)(x := \<lparr>dir_inode = p, dir_pos = 0\<rparr>)\<rparr>"
    have "dir_open d s = Inr (x, ?s')"
      using Some nz(1) by (simp add: dir_open_def heap_alloc_def ms inode_open_def set_inode_def Let_def)
    moreover have "inode_close p ?s' = Inr (?t\<lparr>dirs := (dirs s)(x := \<lparr>dir_inode = p, dir_pos = 0\<rparr>)\<rparr>)"
      using cn(1) ip [symmetric] by (simp add: inode_close_def set_inode_def Let_def)
    then have "holding s0 ?s' x d"
      using mm nz(1,2) p(2) cn(3) ip by (simp add: holding_def same_volume_def same_memory_def set_inode_def)
    moreover have "mallocs ?s' = a # b # ms" by (simp add: set_inode_def)
    ultimately show ?thesis by blast
  next
    case None
    then have shut: "\<forall>p\<in>set (open_inodes (cur_part ?t)). i_no (inodes ?t p) \<noteq> d" by (auto simp: find_None_iff)
    have "mallocs ?t = a # b # ms" by simp
    note op = inode_open_reads [OF at(2) td(1) shut this nz(3,4), unfolded at(1)]
    let ?s' = "s\<lparr>mallocs := ms, cur_part := (cur_part s)\<lparr>open_inodes := a # open_inodes (cur_part s)\<rparr>,
       inodes := (inodes s)(a := (inode_at s0 d)\<lparr>i_open_cnts := 1\<rparr>), dirs := (dirs s)(x := \<lparr>dir_inode = a, dir_pos = 0\<rparr>)\<rparr>"
    have "dir_open d s = Inr (x, ?s')"
      using op nz(1) by (simp add: dir_open_def heap_alloc_def ms)
    moreover have "inode_close a ?s' = Inr (?s'\<lparr>inodes := (inodes s)(a := (inode_at s0 d)\<lparr>i_open_cnts := 0\<rparr>), cur_part := cur_part s\<rparr>)"
      using nz(3) by (simp add: inode_close_def set_inode_def Let_def)
    then have "holding s0 ?s' x d"
      using mm nz td(2) by (auto simp: holding_def same_volume_def same_memory_def)
    ultimately show ?thesis by auto
  qed
qed

lemma holding_search:
  assumes h: "holding s0 s pd d" and t: "tree_ok s0 T" "d \<in> T" and n: "length n < 16" "0 \<notin> set n"
    and ms: "mallocs s = a # b # ms" and u: "unused s0 (mallocs s)"
  shows "search_dir_entry pd n s = Inr (find (\<lambda>e. entry_name e = n) (dir_at s0 d), s\<lparr>mallocs := ms\<rparr>)"
    and "i_no (inodes s (dir_inode (dirs s pd))) = d"
proof -
  let ?i = "inodes s (dir_inode (dirs s pd))"
  have h': "same_volume s0 s" "i_no ?i = d" "i_sectors ?i = i_sectors (inode_at s0 d)" using h by (auto simp: holding_def)
  note v = same_volume_facts [OF h'(1)] same_volume_part [OF h'(1)]
  have "dir_readable s0 (inode_at s0 d)" using t by (simp add: tree_ok_def)
  then have "dir_readable s (inode_at s0 d)" unfolding dir_readable_def v .
  then have "dir_readable s ?i" using sectors_entries(2) [OF h'(3)] by simp
  moreover have "dir_entries s ?i = dir_at s0 d" unfolding sectors_entries(1) [OF h'(3)] v dir_at_def ..
  moreover have "a \<noteq> NULL" "b \<noteq> NULL" using u ms by (auto simp: unused_def)
  ultimately show "search_dir_entry pd n s = Inr (find (\<lambda>e. entry_name e = n) (dir_at s0 d), s\<lparr>mallocs := ms\<rparr>)"
    using search_dir_entry_ok [OF _ n ms] by simp
  show "i_no ?i = d" by (rule h'(2))
qed

section \<open>The loop\<close>

lemma first_three:
  assumes "3 \<le> length xs"
  obtains a b c ys where "xs = a # b # c # ys"
  using assms by (auto simp: numeral_3_eq_3 Suc_le_length_iff)

lemma unused_suffix: "unused s0 ms \<Longrightarrow> set ms' \<subseteq> set ms \<Longrightarrow> unused s0 ms'"
  by (auto simp: unused_def)

lemma stored_name:
  assumes "n \<noteq> []" and "0 \<notin> set n" and "length n < 16"
  shows "stored n (replicate 16 0) ! 0 \<noteq> 0" "0 \<in> set (stored n (replicate 16 0))"
    "takeWhile (\<lambda>c. c \<noteq> 0) (stored n (replicate 16 0)) = n"
proof -
  have "takeWhile (\<lambda>c. c \<noteq> 0) n = n" using assms(2) by (simp add: takeWhile_eq_all_conv) blast
  moreover have "\<forall>c\<in>set n. c \<noteq> 0" using assms(2) by blast
  ultimately show "takeWhile (\<lambda>c. c \<noteq> 0) (stored n (replicate 16 0)) = n"
    using assms(3) by (simp add: stored_def takeWhile_append2)
  show "0 \<in> set (stored n (replicate 16 0))" using assms(3) by (simp add: stored_def)
  show "stored n (replicate 16 0) ! 0 \<noteq> 0" using assms(1,2) by (cases n) (auto simp: stored_def)
qed

text \<open>What the search answers, for the entry that the walk ends at, the directory of that entry and the names.\<close>

definition answers :: "fs \<Rightarrow> u8 list \<Rightarrow> dir_entry option \<times> u32 \<times> u8 list list \<Rightarrow> (u32 \<times> path_search_record \<times> fs) res \<Rightarrow> bool" where
  "answers s0 sp w R \<longleftrightarrow> (case w of (e, d, ms) \<Rightarrow> \<exists>pd s'.
     R = Inr (case e of None \<Rightarrow> -1 | Some e \<Rightarrow> e_no e,
       \<lparr>searched_path = sp @ concat (map ((#) slash) ms), parent_dir = pd, file_type = (case e of None \<Rightarrow> FT_UNKNOWN | Some e \<Rightarrow> f_type e)\<rparr>, s') \<and>
     holding s0 s' pd d)"

text \<open>The last name is that of a directory: the search closes it and opens the directory where it was found.\<close>

lemma search_ends:
  assumes t: "tree_ok s0 T" and c: "cache_ok s0 T" and h: "holding s0 s pd d" and d: "d' \<in> T"
    and u: "unused s0 (mallocs s)" and ms: "3 \<le> length (mallocs s)"
  shows "\<exists>x s'. search_loop None (replicate 16 0) d' no \<lparr>searched_path = sp, parent_dir = pd, file_type = ft\<rparr> s =
     Inr (no, \<lparr>searched_path = sp, parent_dir = x, file_type = FT_DIRECTORY\<rparr>, s') \<and> holding s0 s' x d'"
proof -
  obtain t1 where t1: "dir_close pd s = Inr t1" "same_memory s0 t1" "mallocs t1 = mallocs s" using holding_close [OF h] by blast
  obtain x a b m where m: "mallocs t1 = x # a # b # m" using ms unfolding t1(3) by (rule first_three)
  from dir_open_ok [OF t c t1(2) d m] u t1(3) obtain s' where "dir_open d' t1 = Inr (x, s')" "holding s0 s' x d'" by auto
  then show ?thesis using t1(1) by (subst search_loop.simps) simp
qed

text \<open>One name: it is not there, or it is a file, or the loop goes on in its directory.\<close>

lemma search_name:
  fixes pno eno :: u32
  assumes t: "tree_ok s0 T" and c: "cache_ok s0 T" and h: "holding s0 s pd d" and d: "d \<in> T" and nx: "next_name p = Inr (p', nm')"
    and n: "n \<noteq> []" "0 \<notin> set n" "length n < 16" "length sp + length n + 1 < 512"
    and u: "unused s0 (mallocs s)" and ms: "5 \<le> length (mallocs s)"
  defines "R \<equiv> search_loop p (stored n (replicate 16 0)) pno eno \<lparr>searched_path = sp, parent_dir = pd, file_type = FT_UNKNOWN\<rparr> s"
  shows "case find (\<lambda>e. entry_name e = n) (dir_at s0 d) of None \<Rightarrow> answers s0 sp (None, d, [n]) R
    | Some e \<Rightarrow> if f_type e = FT_DIRECTORY then e_no e \<in> T \<and> (\<exists>x s2. R =
          search_loop p' nm' d (e_no e) \<lparr>searched_path = sp @ slash # n, parent_dir = x, file_type = FT_UNKNOWN\<rparr> s2 \<and>
          holding s0 s2 x (e_no e) \<and> unused s0 (mallocs s2) \<and> length (mallocs s) \<le> length (mallocs s2) + 5)
        else answers s0 sp (Some e, d, [n]) R"
proof -
  note nm = stored_name [OF n(1-3)]
  have "3 \<le> length (mallocs s)" using ms by linarith
  then obtain a b x m where m: "mallocs s = a # b # x # m" by (rule first_three)
  let ?e = "find (\<lambda>e. entry_name e = n) (dir_at s0 d)"
  let ?s = "s\<lparr>mallocs := x # m\<rparr>"
  note found = holding_search [OF h t d n(3,2) m u]
  have h1: "holding s0 ?s pd d" by (rule holding_mallocs [OF h])
  show ?thesis
  proof (cases ?e)
    case None
    then show ?thesis unfolding R_def using h1 found(1) nm n(4)
      by (subst search_loop.simps) (auto simp: answers_def)
  next
    case (Some e)
    then have "e \<in> set (dir_at s0 d)" "entry_name e \<noteq> []" using n(1) by (auto simp: find_Some_iff)
    then have ft: "f_type e = FT_REGULAR \<or> f_type e = FT_DIRECTORY \<and> e_no e \<in> T" using t d by (auto simp: tree_ok_def)
    show ?thesis
    proof (cases "f_type e = FT_DIRECTORY")
      case False
      then have "f_type e = FT_REGULAR" using ft by blast
      then show ?thesis unfolding R_def using Some False h1 found(1) nm n(4) nx
        by (subst search_loop.simps) (auto simp: answers_def)
    next
      case True
      then have T: "e_no e \<in> T" using ft by auto
      obtain t1 where t1: "dir_close pd ?s = Inr t1" "same_memory s0 t1" "mallocs t1 = x # m" using holding_close [OF h1] by auto
      obtain y z m' where m': "m = y # z # m'" using ms m by (cases m; cases "tl m") auto
      have "unused s0 (x # m)" using u by (rule unused_suffix) (auto simp: m)
      from dir_open_ok [OF t c t1(2) T t1(3) [unfolded m']] this t1(3) m' obtain s2 where
        s2: "dir_open (e_no e) t1 = Inr (x, s2)" "holding s0 s2 x (e_no e)" "mallocs s2 = y # z # m' \<or> mallocs s2 = m'" by auto
      have "unused s0 (mallocs s2)" using u by (rule unused_suffix) (use s2(3) m m' in auto)
      moreover have "length (mallocs s) \<le> length (mallocs s2) + 5" using s2(3) m m' by auto
      moreover have "R = search_loop p' nm' d (e_no e) \<lparr>searched_path = sp @ slash # n, parent_dir = x, file_type = FT_UNKNOWN\<rparr> s2"
        unfolding R_def using Some True found nm n(4) nx t1(1) s2(1) by (subst search_loop.simps) simp
      ultimately show ?thesis using Some True T s2(2) by auto
    qed
  qed
qed

lemma search_loop_ok:
  assumes t: "tree_ok s0 T" and c: "cache_ok s0 T"
  shows "holding s0 s pd d \<Longrightarrow> d \<in> T \<Longrightarrow> to_come p ns \<Longrightarrow> n \<noteq> [] \<Longrightarrow> 0 \<notin> set n \<Longrightarrow> \<forall>m\<in>set (n # ns). length m < 16 \<Longrightarrow>
    unused s0 (mallocs s) \<Longrightarrow> 5 * length (n # ns) + 3 \<le> length (mallocs s) \<Longrightarrow>
    length sp + sum_list (map (\<lambda>m. length m + 1) (n # ns)) < 512 \<Longrightarrow>
    answers s0 sp (walk (dir_at s0) d (n # ns))
      (search_loop p (stored n (replicate 16 0)) pno eno \<lparr>searched_path = sp, parent_dir = pd, file_type = FT_UNKNOWN\<rparr> s)"
proof (induction ns arbitrary: n p pd d sp s pno eno)
  case Nil
  have nx: "next_name p = Inr (None, replicate 16 0)" using next_name_to_come [OF Nil.prems(3)] by simp
  have b: "length n < 16" "length sp + length n + 1 < 512" "5 \<le> length (mallocs s)" using Nil.prems(6,8,9) by auto
  let ?f = "find (\<lambda>e. entry_name e = n) (dir_at s0 d)"
  note st = search_name [OF t c Nil.prems(1,2) nx Nil.prems(4,5) b(1,2) Nil.prems(7) b(3), of pno eno]
  show ?case
  proof (cases "\<exists>e. ?f = Some e \<and> f_type e = FT_DIRECTORY")
    case True
    then obtain e where e: "?f = Some e" "f_type e = FT_DIRECTORY" by blast
    from st obtain x s2 where s2: "search_loop p (stored n (replicate 16 0)) pno eno \<lparr>searched_path = sp, parent_dir = pd, file_type = FT_UNKNOWN\<rparr> s =
          search_loop None (replicate 16 0) d (e_no e) \<lparr>searched_path = sp @ slash # n, parent_dir = x, file_type = FT_UNKNOWN\<rparr> s2"
        "holding s0 s2 x (e_no e)" "unused s0 (mallocs s2)" "length (mallocs s) \<le> length (mallocs s2) + 5" using e by auto
    have "3 \<le> length (mallocs s2)" using s2(4) Nil.prems(8) by simp
    from search_ends [OF t c s2(2) Nil.prems(2) s2(3) this] show ?thesis unfolding s2(1) using e by (auto simp: answers_def)
  next
    case False
    then show ?thesis using st by (cases ?f) auto
  qed
next
  case (Cons n' ns)
  obtain p' where p': "next_name p = Inr (p', stored n' (replicate 16 0))" "to_come p' ns" "n' \<noteq> []" "0 \<notin> set n'"
    using next_name_to_come [OF Cons.prems(3)] by auto
  have b: "length n < 16" "length sp + length n + 1 < 512" "5 \<le> length (mallocs s)" using Cons.prems(6,8,9) by auto
  let ?f = "find (\<lambda>e. entry_name e = n) (dir_at s0 d)"
  note st = search_name [OF t c Cons.prems(1,2) p'(1) Cons.prems(4,5) b(1,2) Cons.prems(7) b(3), of pno eno]
  show ?case
  proof (cases "\<exists>e. ?f = Some e \<and> f_type e = FT_DIRECTORY")
    case True
    then obtain e where e: "?f = Some e" "f_type e = FT_DIRECTORY" by blast
    from st obtain x s2 where s2: "search_loop p (stored n (replicate 16 0)) pno eno \<lparr>searched_path = sp, parent_dir = pd, file_type = FT_UNKNOWN\<rparr> s =
          search_loop p' (stored n' (replicate 16 0)) d (e_no e) \<lparr>searched_path = sp @ slash # n, parent_dir = x, file_type = FT_UNKNOWN\<rparr> s2"
        "holding s0 s2 x (e_no e)" "unused s0 (mallocs s2)" "length (mallocs s) \<le> length (mallocs s2) + 5" "e_no e \<in> T" using e by auto
    have "5 * length (n' # ns) + 3 \<le> length (mallocs s2)" using s2(4) Cons.prems(8) by simp
    moreover have "\<forall>m\<in>set (n' # ns). length m < 16" using Cons.prems(6) by simp
    moreover have "length (sp @ slash # n) + sum_list (map (\<lambda>m. length m + 1) (n' # ns)) < 512" using Cons.prems(9) by simp
    ultimately have "answers s0 (sp @ slash # n) (walk (dir_at s0) (e_no e) (n' # ns))
        (search_loop p' (stored n' (replicate 16 0)) d (e_no e) \<lparr>searched_path = sp @ slash # n, parent_dir = x, file_type = FT_UNKNOWN\<rparr> s2)"
      by (intro Cons.IH s2(2,3,5) p'(2-4))
    moreover obtain r d' ms where "walk (dir_at s0) (e_no e) (n' # ns) = (r, d', ms)" by (cases "walk (dir_at s0) (e_no e) (n' # ns)")
    ultimately show ?thesis unfolding s2(1) using e by (auto simp: answers_def simp del: walk.simps(2) simp: walk.simps(2) [of _ d n])
  next
    case False
    then show ?thesis using st by (cases ?f) auto
  qed
qed

section \<open>The names of a path\<close>

lemma pieces_length: "sum_list (map (\<lambda>m. length m + 1) (pieces path)) = length path + 1"
proof (induction path)
  case (Cons c path)
  obtain p ps where "pieces path = p # ps" by (cases "pieces path") auto
  then show ?case using Cons by simp
qed simp

lemma names_length: "sum_list (map (\<lambda>m. length m + 1) (names path)) \<le> length path + 1"
proof -
  have "sum_list (map (\<lambda>m. length m + 1) (filter P ps)) \<le> sum_list (map (\<lambda>m. length m + 1) ps)" for P and ps :: "u8 list list"
    by (induction ps) auto
  from this [of "\<lambda>n. n \<noteq> []" "pieces path"] show ?thesis unfolding pieces_length names_def .
qed

lemma names_slash_length:
  assumes "path \<noteq> []" and "hd path = slash"
  shows "sum_list (map (\<lambda>m. length m + 1) (names path)) \<le> length path"
proof -
  obtain p where p: "path = slash # p" using assms by (cases path) auto
  have "names path = names p" by (simp add: p names_def)
  then show ?thesis using names_length [of p] by (simp add: p)
qed

lemma holding_root: "cache_ok s T \<Longrightarrow> 0 \<in> T \<Longrightarrow> holding s s (root_dir s) 0"
  by (auto simp: holding_def cache_ok_def same_volume_def same_memory_def)

text \<open>An absolute path with a name that fits into the buffers, and memory for the search.\<close>

definition good_path :: "fs \<Rightarrow> u8 list \<Rightarrow> bool" where
  "good_path s path \<longleftrightarrow> path \<noteq> [] \<and> hd path = slash \<and> length path < 512 \<and> 0 \<notin> set path \<and> path \<notin> {[slash, 46], [slash, 46, 46]} \<and>
     names path \<noteq> [] \<and> (\<forall>n\<in>set (names path). length n < 16) \<and> 5 * length (names path) + 3 \<le> length (mallocs s)"

lemma search_file_ok:
  assumes "tree_ok s T" and "cache_ok s T" and "unused s (mallocs s)" and "good_path s path"
  shows "answers s [] (walk (dir_at s) 0 (names path)) (search_file path s)"
proof -
  have g: "path \<noteq> []" "hd path = slash" "length path < 512" "0 \<notin> set path" "path \<notin> {[slash, 46], [slash, 46, 46]}"
    "names path \<noteq> []" "\<forall>n\<in>set (names path). length n < 16" "5 * length (names path) + 3 \<le> length (mallocs s)"
    using assms(4) by (simp_all add: good_path_def)
  have T: "0 \<in> T" using assms(1) by (simp add: tree_ok_def)
  obtain n ns where ns: "names path = n # ns" using g(6) by (cases "names path") auto
  have ok: "path_ok path" using g(4,7) by (auto simp: path_ok_def)
  obtain p where p: "path_parse path (replicate 16 0) = Inr (p, stored n (replicate 16 0))" "n \<noteq> []" "0 \<notin> set n" "to_come p ns"
    using path_parse_names [OF ok, of "replicate 16 0"] ns by (auto simp: to_come_def)
  have "1 < length path"
  proof (rule ccontr)
    assume "\<not> ?thesis"
    then have "path = [slash]" using g(1,2) by (cases path) auto
    then show False using g(6) by (simp add: names_def)
  qed
  then have sf: "search_file path s = search_loop p (stored n (replicate 16 0)) 0 (le32 (map (garbage s) [0..<4]))
      \<lparr>searched_path = [], parent_dir = root_dir s, file_type = FT_UNKNOWN\<rparr> s"
    using g(1-3,5) p(1) by (auto simp: search_file_def)
  have "length ([] :: u8 list) + sum_list (map (\<lambda>m. length m + 1) (n # ns)) < 512"
    using names_slash_length [OF g(1,2)] g(3) unfolding ns by simp
  then show ?thesis unfolding sf ns
    using assms(3) g(7,8) unfolding ns by (intro search_loop_ok [OF assms(1,2) holding_root [OF assms(2) T] T p(4,2,3)])
qed

text \<open>What the walk finds is the number of a file or of a directory.\<close>

lemma walk_entry:
  assumes "tree_ok s T"
  shows "d \<in> T \<Longrightarrow> [] \<notin> set ns \<Longrightarrow> walk (dir_at s) d ns = (Some e, d', ms) \<Longrightarrow>
    e_no e < 4096 \<and> (f_type e = FT_REGULAR \<or> f_type e = FT_DIRECTORY \<and> e_no e \<in> T)"
proof (induction ns arbitrary: d ms)
  case (Cons n ns)
  have nn: "n \<noteq> []" using Cons.prems(2) by auto
  obtain e1 where e1: "find (\<lambda>e. entry_name e = n) (dir_at s d) = Some e1"
    using Cons.prems(3) by (cases "find (\<lambda>e. entry_name e = n) (dir_at s d)") auto
  then have "e1 \<in> set (dir_at s d)" "entry_name e1 \<noteq> []" using nn by (auto simp: find_Some_iff)
  then have ft: "e_no e1 < 4096 \<and> (f_type e1 = FT_REGULAR \<or> f_type e1 = FT_DIRECTORY \<and> e_no e1 \<in> T)" using assms Cons.prems(1) by (auto simp: tree_ok_def)
  show ?case
  proof (cases "f_type e1 = FT_DIRECTORY \<and> ns \<noteq> []")
    case True
    then have "e_no e1 \<in> T" using ft by auto
    moreover obtain ms' where "walk (dir_at s) (e_no e1) ns = (Some e, d', ms')"
      using Cons.prems(3) e1 True by (auto split: prod.splits)
    ultimately show ?thesis using Cons.IH Cons.prems(2) by auto
  next
    case False
    then show ?thesis using Cons.prems(3) e1 ft by auto
  qed
qed simp

text \<open>Whatever follows the name of a file is ignored: \<open>sys_unlink\<close> and \<open>sys_stat\<close>, which do not count the names,
  take \<^verbatim>\<open>/f/x\<close> for \<^verbatim>\<open>/f\<close>.\<close>

lemma walk_file_ends:
  "walk D d ns = (Some e, d', ms) \<Longrightarrow> f_type e \<noteq> FT_DIRECTORY \<Longrightarrow> walk D d (ns @ ns') = (Some e, d', ms)"
  by (induction ns arbitrary: d ms) (auto split: option.splits if_splits prod.splits)

lemma walk_names: "walk D d ns = (e, d', ms) \<Longrightarrow> set ms \<subseteq> set ns \<and> length ms \<le> length ns \<and> (ns \<noteq> [] \<longrightarrow> ms \<noteq> [])"
proof (induction ns arbitrary: d ms)
  case (Cons n ns)
  then show ?case by (fastforce split: option.splits if_splits prod.splits)
qed simp

lemma names_no_Nil: "[] \<notin> set (names path)"
  by (simp add: names_def)

lemma names_chars: "n \<in> set (names path) \<Longrightarrow> set n \<subseteq> set path - {slash}"
proof -
  have "n \<in> set (pieces path) \<Longrightarrow> set n \<subseteq> set path - {slash}" for n
  proof (induction path arbitrary: n)
    case (Cons c path)
    obtain p ps where ps: "pieces path = p # ps" by (cases "pieces path") auto
    have "set p \<subseteq> set path - {slash}" "\<forall>q\<in>set ps. set q \<subseteq> set path - {slash}" using Cons.IH by (auto simp: ps)
    then show ?case using Cons.prems by (fastforce simp: ps split: if_splits)
  qed simp
  then show "n \<in> set (names path) \<Longrightarrow> set n \<subseteq> set path - {slash}" by (simp add: names_def)
qed

lemma names_joined: "\<forall>m\<in>set ms. slash \<notin> set m \<and> m \<noteq> [] \<Longrightarrow> names (concat (map ((#) slash) ms)) = ms"
proof (induction ms)
  case Nil
  then show ?case by (simp add: names_def)
next
  case (Cons m ms)
  have "names (slash # m @ concat (map ((#) slash) ms)) = names (m @ concat (map ((#) slash) ms))" by (simp add: names_def)
  also have "\<dots> = m # names (concat (map ((#) slash) ms))" using Cons.prems by (intro names_word) (cases ms; simp)+
  finally show ?case using Cons by simp
qed

lemma dir_close_cwd: "dir_close d s = Inr t \<Longrightarrow> dir_close d (s\<lparr>cwd_inode_nr := n\<rparr>) = Inr (t\<lparr>cwd_inode_nr := n\<rparr>)"
  by (cases "dir_inode (dirs s d) = NULL")
    (auto simp: dir_close_def heap_free_def inode_close_def Let_def set_inode_def ASSERT_def split: if_splits)

section \<open>Properties\<close>

text \<open>C6 \<open>search_file\<close> answers what the walk down the tree of the directories on the disk answers, for every path
  with a name: the number of the last entry, or -1 when a name is not in its directory, the names that were
  looked up and the type of the entry; the directory where the last name belongs is open, and closing it leaves
  the disk and the open inodes as before. A file ends the walk, whatever names follow it.\<close>

theorem search_file_walks:
  assumes "tree_ok s T" and "cache_ok s T" and "unused s (mallocs s)" and "good_path s path"
  shows "case walk (dir_at s) 0 (names path) of (e, d, ms) \<Rightarrow> \<exists>r s' t.
    search_file path s = Inr (case e of None \<Rightarrow> -1 | Some e \<Rightarrow> e_no e, r, s') \<and>
    searched_path r = concat (map ((#) slash) ms) \<and> file_type r = (case e of None \<Rightarrow> FT_UNKNOWN | Some e \<Rightarrow> f_type e) \<and>
    i_no (inodes s' (dir_inode (dirs s' (parent_dir r)))) = d \<and> dir_close (parent_dir r) s' = Inr t \<and> same_memory s t"
proof -
  obtain e d ms pd s' where w: "walk (dir_at s) 0 (names path) = (e, d, ms)"
      "search_file path s = Inr (case e of None \<Rightarrow> -1 | Some e \<Rightarrow> e_no e,
        \<lparr>searched_path = concat (map ((#) slash) ms), parent_dir = pd, file_type = (case e of None \<Rightarrow> FT_UNKNOWN | Some e \<Rightarrow> f_type e)\<rparr>, s')"
      "holding s s' pd d" using search_file_ok [OF assms] unfolding answers_def by (auto split: prod.splits)
  have "i_no (inodes s' (dir_inode (dirs s' pd))) = d" using w(3) by (simp add: holding_def)
  with holding_close [OF w(3)] show ?thesis unfolding w(1,2) by auto
qed

text \<open>A disk with the directory \<^verbatim>\<open>/a\<close> and the file \<^verbatim>\<open>/a/f\<close>.\<close>

definition tree_inode :: "u32 \<Rightarrow> u32 \<Rightarrow> inode" where
  "tree_inode no b = (inode_init no)\<lparr>i_size := 72, i_sectors := b # replicate 12 0\<rparr>"

definition tree_entry :: "u8 list \<Rightarrow> u32 \<Rightarrow> u32 \<Rightarrow> dir_entry" where
  "tree_entry n no t = \<lparr>filename = n @ replicate (16 - length n) 0, e_no = no, f_type = t\<rparr>"

definition tree_block :: "u32 \<Rightarrow> u32 \<Rightarrow> dir_entry \<Rightarrow> u8 list" where
  "tree_block d up e = splice (splice (splice (replicate 512 0) (24 * 0) (encode_entry (tree_entry [46] d FT_DIRECTORY)))
     (24 * 1) (encode_entry (tree_entry [46, 46] up FT_DIRECTORY))) (24 * 2) (encode_entry e)"

definition tree_disk :: "u32 \<Rightarrow> u8 list" where
  "tree_disk = (\<lambda>_. replicate 512 0)(2056 := encode_inode (tree_inode 0 2664) @ encode_inode (tree_inode 1 2665) @ replicate 360 0,
     2664 := tree_block 0 0 (tree_entry [97] 1 FT_DIRECTORY), 2665 := tree_block 1 0 (tree_entry [102] 2 FT_REGULAR))"

definition tree_fs :: fs where
  "tree_fs = blank_fs\<lparr>disks := \<lambda>_. tree_disk, cur_part := blank_part\<lparr>open_inodes := [0xc0500000]\<rparr>,
     inodes := \<lambda>_. (tree_inode 0 2664)\<lparr>i_open_cnts := 1\<rparr>, dirs := \<lambda>_. \<lparr>dir_inode = 0xc0500000, dir_pos = 0\<rparr>,
     mallocs := [1, 2, 3, 4, 5, 6, 7, 8, 9, 10, 11, 12, 13]\<rparr>"

lemma tree_filename: "length n \<le> 16 \<Longrightarrow> length (filename (tree_entry n no t)) = 16"
  by (simp add: tree_entry_def)

lemma tree_block_ok:
  assumes "length (filename e) = 16"
  shows "length (tree_block d up e) = 512"
    "block_entries (tree_block d up e) = [tree_entry [46] d FT_DIRECTORY, tree_entry [46, 46] up FT_DIRECTORY, e] @ replicate 18 no_entry"
proof -
  have en: "length (encode_entry e') = 24" if "length (filename e') = 16" for e' using that by (simp add: encode_entry_def bytes32_def)
  note f = tree_filename [of "[46]"] tree_filename [of "[46, 46]"] assms
  define b0 where "b0 = splice (replicate 512 0) (24 * 0) (encode_entry (tree_entry [46] d FT_DIRECTORY))"
  define b1 where "b1 = splice b0 (24 * 1) (encode_entry (tree_entry [46, 46] up FT_DIRECTORY))"
  have t: "tree_block d up e = splice b1 (24 * 2) (encode_entry e)" by (simp add: tree_block_def b0_def b1_def)
  have l: "length b0 = 512" unfolding b0_def by (simp add: length_splice en f)
  then have l1: "length b1 = 512" unfolding b1_def by (simp add: length_splice en f)
  then show "length (tree_block d up e) = 512" unfolding t by (simp add: length_splice en f)
  have "block_entries b0 = (replicate 21 no_entry)[0 := tree_entry [46] d FT_DIRECTORY]"
    unfolding b0_def zero_entries [symmetric] by (rule block_entries_splice) (simp_all add: f)
  moreover have "block_entries b1 = (block_entries b0)[1 := tree_entry [46, 46] up FT_DIRECTORY]"
    unfolding b1_def by (rule block_entries_splice) (simp_all add: f l)
  moreover have "block_entries (tree_block d up e) = (block_entries b1)[2 := e]"
    unfolding t by (rule block_entries_splice) (simp_all add: f l1)
  ultimately have "block_entries (tree_block d up e) =
      (replicate 21 no_entry)[0 := tree_entry [46] d FT_DIRECTORY, 1 := tree_entry [46, 46] up FT_DIRECTORY, 2 := e]" by simp
  then show "block_entries (tree_block d up e) = [tree_entry [46] d FT_DIRECTORY, tree_entry [46, 46] up FT_DIRECTORY, e] @ replicate 18 no_entry"
    by (simp add: numeral_eq_Suc)
qed

lemma tree_inodes: "inode_at tree_fs 0 = tree_inode 0 2664" "inode_at tree_fs 1 = tree_inode 1 2665"
  by code_simp+

lemma tree_blocks: "dir_blocks tree_fs (tree_inode 0 2664) = [2664]" "dir_blocks tree_fs (tree_inode 1 2665) = [2665]"
  by code_simp+

lemma tree_entries:
  "dir_at tree_fs 0 = [tree_entry [46] 0 FT_DIRECTORY, tree_entry [46, 46] 0 FT_DIRECTORY, tree_entry [97] 1 FT_DIRECTORY] @ replicate 18 no_entry"
  "dir_at tree_fs 1 = [tree_entry [46] 1 FT_DIRECTORY, tree_entry [46, 46] 0 FT_DIRECTORY, tree_entry [102] 2 FT_REGULAR] @ replicate 18 no_entry"
proof -
  have "disk_of tree_fs = tree_disk" by (simp add: tree_fs_def)
  then have "disk_of tree_fs 2664 = tree_block 0 0 (tree_entry [97] 1 FT_DIRECTORY)" "disk_of tree_fs 2665 = tree_block 1 0 (tree_entry [102] 2 FT_REGULAR)"
    by (simp_all add: tree_disk_def)
  then show "dir_at tree_fs 0 = [tree_entry [46] 0 FT_DIRECTORY, tree_entry [46, 46] 0 FT_DIRECTORY, tree_entry [97] 1 FT_DIRECTORY] @ replicate 18 no_entry"
    "dir_at tree_fs 1 = [tree_entry [46] 1 FT_DIRECTORY, tree_entry [46, 46] 0 FT_DIRECTORY, tree_entry [102] 2 FT_REGULAR] @ replicate 18 no_entry"
    unfolding dir_at_def dir_entries_def tree_inodes tree_blocks by (simp_all add: tree_block_ok(2) tree_filename)
qed

lemma tree_fs_ok: "tree_ok tree_fs {0, 1}" "cache_ok tree_fs {0, 1}" "unused tree_fs (mallocs tree_fs)"
proof -
  have "length (encode_inode (tree_inode 0 2664) @ encode_inode (tree_inode 1 2665) @ replicate 360 0) = 512" by code_simp
  then have "sectors_512 (disk_of tree_fs)"
    by (simp add: sectors_512_def tree_fs_def tree_disk_def tree_block_ok(1) tree_filename)
  moreover have "table_lba tree_fs = 2056" "start_lba (cur_part tree_fs) = 2048" "sec_cnt (cur_part tree_fs) = 20000" "dir_entry_size (sb (cur_part tree_fs)) = 24"
    by (simp_all add: tree_fs_def blank_part_def)
  moreover have "i_sectors (tree_inode no b) ! 12 = 0" "i_no (tree_inode no b) = no" for no b
    by (simp_all add: tree_inode_def inode_init_def numeral_eq_Suc)
  ultimately show "tree_ok tree_fs {0, 1}"
    unfolding tree_ok_def table_ok_def dir_readable_def
    by (auto simp: tree_inodes tree_blocks tree_entries tree_entry_def no_entry_def entry_name_def)
  have ip: "inodes tree_fs p = (tree_inode 0 2664)\<lparr>i_open_cnts := 1\<rparr>" "dir_inode (dirs tree_fs p) = 0xc0500000" for p by (simp_all add: tree_fs_def)
  have os: "open_inodes (cur_part tree_fs) = [0xc0500000]" "root_dir tree_fs = 0xc0300000" by (simp_all add: tree_fs_def blank_fs_def)
  show "cache_ok tree_fs {0, 1}" unfolding cache_ok_def open_ok_def ip os
    by (simp add: tree_inodes) (simp add: tree_inode_def inode_init_def)
  show "unused tree_fs (mallocs tree_fs)" unfolding unused_def os by (simp add: tree_fs_def)
qed

lemma tree_walk: "walk (dir_at tree_fs) 0 [[97], [102]] = (Some (tree_entry [102] 2 FT_REGULAR), 1, [[97], [102]])"
  by (simp add: tree_entries tree_entry_def entry_name_def)

theorem search_file_walks_witness:
  "\<exists>r s' t. search_file [47, 97, 47, 47, 102] tree_fs = Inr (2, r, s') \<and> searched_path r = [47, 97, 47, 102] \<and> file_type r = FT_REGULAR \<and>
    i_no (inodes s' (dir_inode (dirs s' (parent_dir r)))) = 1 \<and> dir_close (parent_dir r) s' = Inr t \<and> same_memory tree_fs t"
proof -
  have n: "names [47, 97, 47, 47, 102] = [[97], [102]]" by (simp add: names_def)
  have "length (mallocs tree_fs) = 13" by (simp add: tree_fs_def)
  then have "good_path tree_fs [47, 97, 47, 47, 102]" by (simp add: good_path_def n)
  from search_file_walks [OF tree_fs_ok this] show ?thesis unfolding n tree_walk by (simp add: tree_entry_def)
qed

end
