(* ===== verification/Lookup.thy ===== *)
theory Lookup
  imports Fs Walk
begin

unbundle bit_operations_syntax

text \<open>
  System calls of \<^verbatim>\<open>fs/fs.c\<close> on a path, by the walk down the tree of the directories on the disk: where
  \<open>sys_chdir\<close> goes, and the paths that \<open>sys_open\<close> refuses.
\<close>

section \<open>The search and the directory that it leaves open\<close>

definition found_dir :: "dir_entry option \<Rightarrow> bool" where
  "found_dir e \<longleftrightarrow> (\<exists>x. e = Some x \<and> f_type x = FT_DIRECTORY)"

lemma search_found:
  assumes "tree_ok s T" and "cache_ok s T" and "unused s (mallocs s)" and "good_path s path"
    and "walk (dir_at s) 0 (names path) = (e, d, ms)"
  obtains r s' t where "search_file path s = Inr (case e of None \<Rightarrow> -1 | Some e \<Rightarrow> e_no e, r, s')"
    "searched_path r = concat (map ((#) slash) ms)" "file_type r = (case e of None \<Rightarrow> FT_UNKNOWN | Some e \<Rightarrow> f_type e)"
    "dir_close (parent_dir r) s' = Inr t" "same_memory s t" "same_volume s s'" "holding s s' (parent_dir r) d"
    "e \<noteq> None \<longleftrightarrow> (case e of None \<Rightarrow> -1 | Some e \<Rightarrow> e_no e) \<noteq> -1" "file_type r = FT_DIRECTORY \<longleftrightarrow> found_dir e"
proof -
  have T: "0 \<in> T" using assms(1) by (simp add: tree_ok_def)
  from search_file_ok [OF assms(1-4)] obtain pd s' where s': "search_file path s = Inr (case e of None \<Rightarrow> -1 | Some e \<Rightarrow> e_no e,
      \<lparr>searched_path = concat (map ((#) slash) ms), parent_dir = pd, file_type = (case e of None \<Rightarrow> FT_UNKNOWN | Some e \<Rightarrow> f_type e)\<rparr>, s')"
    "holding s s' pd d" unfolding assms(5) answers_def by auto
  obtain t where t: "dir_close pd s' = Inr t" "same_memory s t" using holding_close [OF s'(2)] by blast
  have "e_no x \<noteq> -1" if "e = Some x" for x
    using walk_entry [OF assms(1) T names_no_Nil assms(5) [unfolded that]] by auto
  then have "e \<noteq> None \<longleftrightarrow> (case e of None \<Rightarrow> -1 | Some e \<Rightarrow> e_no e) \<noteq> -1" by (cases e) auto
  then show thesis using s' t by (intro that [of "\<lparr>searched_path = concat (map ((#) slash) ms), parent_dir = pd,
      file_type = (case e of None \<Rightarrow> FT_UNKNOWN | Some e \<Rightarrow> f_type e)\<rparr>" s' t]) (auto simp: found_dir_def holding_def split: option.splits)
qed

text \<open>How many names the search looked up.\<close>

lemma depth_of_path: "good_path s path \<Longrightarrow> path_depth_cnt path s' = Inr (of_nat (length (names path)))"
  using path_depth_counts [of path s'] by (auto simp: good_path_def path_ok_def less_imp_le)

lemma depth_of_searched:
  assumes g: "good_path s path" and w: "walk D d (names path) = (e, d', ms)"
  shows "path_depth_cnt (concat (map ((#) slash) ms)) s' = Inr (of_nat (length ms))"
    and "(of_nat (length (names path)) :: u32) = of_nat (length ms) \<longleftrightarrow> length ms = length (names path)"
proof -
  have m: "set ms \<subseteq> set (names path)" "length ms \<le> length (names path)" "ms \<noteq> []"
    using walk_names [OF w] g by (auto simp: good_path_def)
  have n: "slash \<notin> set m" "m \<noteq> []" "0 \<notin> set m" "length m < 16" if "m \<in> set ms" for m
    using names_chars [of m path] names_no_Nil [of path] m(1) that g by (auto simp: good_path_def)
  then have j: "names (concat (map ((#) slash) ms)) = ms" by (intro names_joined) blast
  moreover have "path_ok (concat (map ((#) slash) ms))" unfolding path_ok_def j using n by (auto intro: less_imp_le)
  ultimately show "path_depth_cnt (concat (map ((#) slash) ms)) s' = Inr (of_nat (length ms))"
    using path_depth_counts [of _ s'] m(3) by simp
  have "length ns \<le> sum_list (map (\<lambda>m. length m + 1) ns)" for ns :: "u8 list list" by (induction ns) auto
  from this [of "names path"]
  have "length (names path) < 512" using names_slash_length [of path] g by (auto simp: good_path_def)
  then have "unat (of_nat (length (names path)) :: u32) = length (names path)" "unat (of_nat (length ms) :: u32) = length ms"
    using m(2) by (simp_all add: unat_of_nat_u32)
  then show "(of_nat (length (names path)) :: u32) = of_nat (length ms) \<longleftrightarrow> length ms = length (names path)"
    unfolding word_unat_eq_iff by (simp only: eq_commute)
qed

lemma sys_chdir_ok:
  assumes "tree_ok s T" and "cache_ok s T" and "unused s (mallocs s)" and "good_path s path"
    and "walk (dir_at s) 0 (names path) = (e, d, ms)"
  shows "\<exists>t. sys_chdir path s = Inr (if found_dir e then 0 else -1, t) \<and>
    same_memory (if found_dir e then s\<lparr>cwd_inode_nr := e_no (the e)\<rparr> else s) t"
proof -
  obtain r s' t where r: "search_file path s = Inr (case e of None \<Rightarrow> -1 | Some e \<Rightarrow> e_no e, r, s')"
    "dir_close (parent_dir r) s' = Inr t" "same_memory s t" "e \<noteq> None \<longleftrightarrow> (case e of None \<Rightarrow> -1 | Some e \<Rightarrow> e_no e) \<noteq> -1"
    "file_type r = FT_DIRECTORY \<longleftrightarrow> found_dir e" using search_found [OF assms] by metis
  show ?thesis
  proof (cases "found_dir e")
    case True
    then obtain x where x: "e = Some x" by (auto simp: found_dir_def)
    have "same_memory (s\<lparr>cwd_inode_nr := e_no x\<rparr>) (t\<lparr>cwd_inode_nr := e_no x\<rparr>)" using r(3) by (simp add: same_memory_def)
    then show ?thesis using r(1,4,5) True x dir_close_cwd [OF r(2), of "e_no x"] by (simp add: sys_chdir_def)
  next
    case False
    then show ?thesis using r by (simp add: sys_chdir_def)
  qed
qed

section \<open>Properties\<close>

text \<open>C13 \<open>sys_chdir\<close> makes the directory at the end of the path the working directory, and nothing else changes;
  for any other path the answer is -1 and the working directory stays.\<close>

theorem sys_chdir_walks:
  assumes "tree_ok s T" and "cache_ok s T" and "unused s (mallocs s)" and "good_path s path"
    and "walk (dir_at s) 0 (names path) = (e, d, ms)"
  shows "\<exists>t. sys_chdir path s = Inr (if found_dir e then 0 else -1, t) \<and>
    same_memory (if found_dir e then s\<lparr>cwd_inode_nr := e_no (the e)\<rparr> else s) t"
  by (rule sys_chdir_ok [OF assms])

text \<open>C12 \<open>sys_open\<close> answers -1 for a directory, for a file that is there when it is to be created, for a name that is not
  there when it is not to be created, and for a path that goes on behind a missing directory or a file. Nothing
  has changed then, but in the last case the directory where the search ended stays open.\<close>

theorem sys_open_refuses:
  assumes "tree_ok s T" and "cache_ok s T" and "unused s (mallocs s)" and "good_path s path"
    and "walk (dir_at s) 0 (names path) = (e, d, ms)" and "List.last path \<noteq> slash" and "flags \<le> 7"
    and "found_dir e \<or> length ms < length (names path) \<or> (e \<noteq> None) = (ucast flags AND O_CREAT \<noteq> 0)"
  shows "\<exists>t. sys_open path flags s = Inr (-1, t) \<and>
    (if found_dir e \<or> length ms = length (names path) then same_memory s t else same_volume s t)"
proof -
  obtain r s' t where r: "search_file path s = Inr (case e of None \<Rightarrow> -1 | Some e \<Rightarrow> e_no e, r, s')"
    "dir_close (parent_dir r) s' = Inr t" "same_memory s t" "e \<noteq> None \<longleftrightarrow> (case e of None \<Rightarrow> -1 | Some e \<Rightarrow> e_no e) \<noteq> -1"
    "file_type r = FT_DIRECTORY \<longleftrightarrow> found_dir e" "searched_path r = concat (map ((#) slash) ms)" "same_volume s s'"
    using search_found [OF assms(1-5)] by metis
  note dp = depth_of_path [OF assms(4)] depth_of_searched [OF assms(4,5)]
  have ne: "path \<noteq> []" using assms(4) by (simp add: good_path_def)
  define no where "no = (case e of None \<Rightarrow> -1 | Some e \<Rightarrow> e_no e)"
  have no: "no = -1 \<longleftrightarrow> e = None" using r(4) unfolding no_def by blast
  have so: "sys_open path flags s =
    (if found_dir e then bindr (dir_close (parent_dir r) s') (\<lambda>s. Inr (-1, s))
     else if length ms \<noteq> length (names path) then Inr (-1, s')
     else if e = None \<and> ucast flags AND O_CREAT = 0 \<or> e \<noteq> None \<and> ucast flags AND O_CREAT \<noteq> 0 then bindr (dir_close (parent_dir r) s') (\<lambda>s. Inr (-1, s))
     else sys_open path flags s)"
    unfolding sys_open_def using ne assms(6,7) dp r(1,5,6) no unfolding no_def [symmetric] by (simp add: ASSERT_def)
  have "length ms \<le> length (names path)" using walk_names [OF assms(5)] by blast
  then show ?thesis using so r(2,3,7) assms(8) by (auto split: if_splits)
qed

lemma tree_paths:
  "names [47, 97] = [[97]]" "names [47, 97, 47, 103] = [[97], [103]]" "good_path tree_fs [47, 97]" "good_path tree_fs [47, 97, 47, 103]"
proof -
  show n: "names [47, 97] = [[97]]" "names [47, 97, 47, 103] = [[97], [103]]" by (simp_all add: names_def)
  have "length (mallocs tree_fs) = 13" by (simp add: tree_fs_def)
  then show "good_path tree_fs [47, 97]" "good_path tree_fs [47, 97, 47, 103]" by (simp_all add: good_path_def n)
qed

lemma find_replicate: "\<not> P x \<Longrightarrow> find P (replicate n x) = None"
  by (auto simp: find_None_iff)

lemma tree_lookups:
  "walk (dir_at tree_fs) 0 [[97]] = (Some (tree_entry [97] 1 FT_DIRECTORY), 0, [[97]])"
  "walk (dir_at tree_fs) 0 [[97], [103]] = (None, 1, [[97], [103]])"
  by (simp_all add: tree_entries tree_entry_def entry_name_def no_entry_def find_replicate)

theorem sys_chdir_walks_witness:
  "\<exists>t. sys_chdir [47, 97] tree_fs = Inr (0, t) \<and> same_memory (tree_fs\<lparr>cwd_inode_nr := 1\<rparr>) t"
proof -
  have "found_dir (Some (tree_entry [97] 1 FT_DIRECTORY))" "e_no (tree_entry [97] 1 FT_DIRECTORY) = 1"
    by (simp_all add: found_dir_def tree_entry_def)
  then show ?thesis using sys_chdir_walks [OF tree_fs_ok tree_paths(3)] unfolding tree_paths tree_lookups by fastforce
qed

theorem sys_open_refuses_witness:
  "\<exists>t. sys_open [47, 97, 47, 103] 2 tree_fs = Inr (-1, t) \<and> same_memory tree_fs t"
  using sys_open_refuses [OF tree_fs_ok tree_paths(4), of None 1 "[[97], [103]]" 2] unfolding tree_paths tree_lookups by simp

end
