(* ===== verification/Mkdir.thy ===== *)
theory Mkdir
  imports Calls Lookup
begin

unbundle bit_operations_syntax

text \<open>
  Making a directory, \<open>sys_mkdir\<close> of \<^verbatim>\<open>fs/fs.c\<close>: the tree of the directories on the disk gets one more, with the
  entries \<open>.\<close> and \<open>..\<close>.
\<close>

section \<open>The block of a new directory\<close>

definition subdir_entry :: "u8 list \<Rightarrow> u32 \<Rightarrow> dir_entry" where
  "subdir_entry name no = \<lparr>filename = name @ replicate (16 - length name) 0, e_no = no, f_type = FT_DIRECTORY\<rparr>"

lemma create_subdir_entry: "length name \<le> 16 \<Longrightarrow> create_dir_entry name no (ucast FT_DIRECTORY) = Inr (subdir_entry name no)"
  by (simp add: create_dir_entry_def subdir_entry_def)

lemma subdir_entry_ok:
  assumes "length name \<le> 16"
  shows "length (filename (subdir_entry name no)) = 16" "live (subdir_entry name no)" "e_no (subdir_entry name no) = no"
    "f_type (subdir_entry name no) = FT_DIRECTORY"
  using assms by (simp_all add: subdir_entry_def live_def)

lemma entry_name_subdir: "0 \<notin> set n \<Longrightarrow> entry_name (subdir_entry n no) = n"
  by (subst entry_name_def, simp add: subdir_entry_def, subst takeWhile_append2) auto

lemma dot_block:
  shows "length (dot_entries self up) = 512"
    and "block_entries (dot_entries self up) = [subdir_entry [46] self, subdir_entry [46, 46] up] @ replicate 19 no_entry"
proof -
  define b0 where "b0 = splice (replicate 512 0) (24 * 0) (encode_entry (subdir_entry [46] self))"
  have f: "length (filename (subdir_entry [46] self)) = 16" "length (filename (subdir_entry [46, 46] up)) = 16"
    by (simp_all add: subdir_entry_def)
  have t: "dot_entries self up = splice b0 (24 * 1) (encode_entry (subdir_entry [46, 46] up))"
    by (simp add: dot_entries_def b0_def subdir_entry_def)
  have l: "length b0 = 512" unfolding b0_def using length_encode_entry [OF f(1)] by simp
  then show "length (dot_entries self up) = 512" unfolding t using length_encode_entry [OF f(2)] by simp
  have "block_entries b0 = (replicate 21 no_entry)[0 := subdir_entry [46] self]"
    unfolding b0_def zero_entries [symmetric] by (rule block_entries_splice) (simp_all add: f)
  moreover have "block_entries (dot_entries self up) = (block_entries b0)[1 := subdir_entry [46, 46] up]"
    unfolding t by (rule block_entries_splice) (simp_all add: f l)
  ultimately show "block_entries (dot_entries self up) = [subdir_entry [46] self, subdir_entry [46, 46] up] @ replicate 19 no_entry"
    by (simp add: numeral_eq_Suc)
qed

section \<open>Taking the number and the block\<close>

text \<open>The number \<open>no\<close> and the block \<open>j\<close> are taken, and \<open>xs\<close> is in the block.\<close>

definition begun :: "u32 \<Rightarrow> nat \<Rightarrow> u8 list \<Rightarrow> fs \<Rightarrow> fs \<Rightarrow> bool" where
  "begun no j xs s t \<longleftrightarrow> unat no \<in> inode_spare s \<and> (\<forall>n\<in>inode_spare s. unat no \<le> n) \<and> no < 4096 \<and> j \<in> spare s \<and>
     same_setup s t \<and> inodes t = inodes s \<and> file_table t = file_table s \<and> layout_ok t \<and> inode_map_ok t \<and> spare t = spare s - {j} \<and>
     disk_of t (blkno s j) = xs \<and> (\<forall>a. table_lba s \<le> a \<longrightarrow> a \<noteq> blkno s j \<longrightarrow> disk_of t a = disk_of s a)"

lemma begin_ok:
  assumes l: "layout_ok s" and im: "inode_map_ok s" and "inode_spare s \<noteq> {}" and "spare s \<noteq> {}" and xs: "\<And>no. length (xs no) = 512"
  shows "\<exists>no j s1 s2 s3 t. inode_bitmap_alloc s = Inr (no, s1) \<and> no \<noteq> -1 \<and> block_bitmap_alloc s1 = Inr (blkno s j, s2) \<and>
    cur_part s2 = cur_part s \<and> bitmap_sync (blkno s j - data_lba s) BLOCK_BITMAP s2 = Inr s3 \<and> inodes s3 = inodes s \<and> dirs s3 = dirs s \<and>
    write_disk (blkno s j) (xs no) 1 s3 = Inr t \<and> begun no j (xs no) s t"
proof -
  obtain no m where a: "inode_bitmap_alloc s = Inr (no, s\<lparr>fs_bytes := m\<rparr>)" "no \<noteq> -1" "unat no \<in> inode_spare s" "unat no < 4096"
    "spare (s\<lparr>fs_bytes := m\<rparr>) = spare s" "\<forall>n\<in>inode_spare s. unat no \<le> n" using inode_alloc_ok [OF l im assms(3)] by blast
  let ?s = "s\<lparr>fs_bytes := m\<rparr>"
  have l1: "layout_ok ?s" using l by (simp add: layout_ok_def table_ok_def)
  have b: "blkno ?s = blkno s" by (simp add: blkno_def fun_eq_iff)
  have "spare ?s \<noteq> {}" using assms(4) a(5) by simp
  from take_one [OF l1 this, of NULL] obtain j s2 where j0: "block_bitmap_alloc ?s = Inr (blkno ?s j, s2)" "inodes s2 = inodes ?s" "j \<in> spare ?s"
      "\<exists>s3. sync_block (blkno ?s j) s2 = Inr s3 \<and> inodes s3 = inodes ?s \<and> took {j} ?s s3" by blast
  have "inodes ?s = inodes s" by simp
  note j = j0 [unfolded b a(5) this]
  then obtain s3 where s3: "sync_block (blkno s j) s2 = Inr s3" "inodes s3 = inodes s" "took {j} ?s s3" by blast
  have cp: "cur_part s2 = cur_part s" using j(1) by (auto simp: block_bitmap_alloc_def Let_def bindr_eq_Inr split: if_splits)
  have t3: "same_setup s s3" "file_table s3 = file_table s" "spare s3 = spare s - {j}" using s3(3) a(5) by (simp_all add: took_def same_setup_def)
  have d3: "\<forall>a. table_lba s \<le> a \<longrightarrow> disk_of s3 a = disk_of s a" using s3(3) by (simp add: took_def)
  have l3: "layout_ok s3" by (rule took_layout [OF l1 s3(3)])
  note bb = blkno_bounds [OF l spare_less [OF j(3)]]
  let ?t = "s3\<lparr>disks := (disks s3)(my_disk (cur_part s3) := (disk_of s3)(blkno s j := xs no))\<rparr>"
  have st: "same_setup s ?t" using t3(1) by simp
  have "sectors_512 (disk_of ?t)" using layout_512 [OF l3] xs by (simp add: sectors_512_def)
  from layout_setup [OF l st this] have "layout_ok ?t" .
  moreover have "inode_map_ok ?t" using im same_setup_part [OF t3(1)] by (simp add: inode_map_ok_def)
  moreover have "spare ?t = spare s - {j}" using t3(3) by (simp add: spare_def)
  moreover have "no < 4096" using a(4) by (simp add: word_less_nat_alt)
  ultimately have "begun no j (xs no) s ?t" unfolding begun_def using a(3,6) j(3) st s3(2) t3(2) d3 by simp
  moreover have "write_disk (blkno s j) (xs no) 1 s3 = Inr ?t" by (rule write_block [OF bb(2) xs])
  moreover have "bitmap_sync (blkno s j - data_lba s) BLOCK_BITMAP s2 = Inr s3" using s3(1) cp by (simp add: sync_block_def)
  moreover have "dirs s3 = dirs s" using t3(1) by (simp add: same_setup_def)
  ultimately show ?thesis using a(1,2) j(1) cp s3(2) by blast
qed

text \<open>The directories are as before.\<close>

lemma same_table:
  assumes "layout_ok s" and "cur_part t = cur_part s" and "\<And>a. table_lba s \<le> a \<Longrightarrow> a < data_lba s \<Longrightarrow> disk_of t a = disk_of s a" and "m < 4096"
  shows "inode_at t m = inode_at s m"
proof -
  have sl: "slot_bytes (disk_of t) (table_lba s) (unat m) = slot_bytes (disk_of s) (table_lba s) (unat m)"
    using assms(4) by (intro slot_same [OF assms(1)] assms(3)) (simp_all add: word_less_nat_alt)
  have "table_lba t = table_lba s" using assms(2) by (rule arg_cong)
  then show ?thesis unfolding inode_at_def sl [symmetric] by (rule arg_cong)
qed

lemma begun_inode_at:
  assumes "layout_ok s" and "begun no j xs s t" and "m < 4096"
  shows "inode_at t m = inode_at s m"
proof (rule same_table [OF assms(1) _ _ assms(3)])
  show "cur_part t = cur_part s" using assms(2) by (simp add: begun_def same_setup_def)
  fix a assume a: "table_lba s \<le> a" "a < data_lba s"
  have "j \<in> spare s" using assms(2) by (simp add: begun_def)
  then have "a \<noteq> blkno s j" using blkno_bounds(3) [OF assms(1) spare_less, of j] a(2) by (auto simp: not_le [symmetric])
  then show "disk_of t a = disk_of s a" using assms(2) a(1) unfolding begun_def by blast
qed

text \<open>A directory whose blocks are left alone.\<close>

lemma dir_same:
  assumes "\<forall>a\<in>held s i. disk_of t a = disk_of s a"
  shows "dir_blocks t i = dir_blocks s i" and "dir_entries t i = dir_entries s i"
proof -
  have db: "dir_blocks t i = dir_blocks s i" unfolding dir_blocks_def using assms by (simp add: held_def split: if_splits)
  then show "dir_blocks t i = dir_blocks s i" .
  have "map (\<lambda>b. block_entries (disk_of t b)) (dir_blocks s i) = map (\<lambda>b. block_entries (disk_of s b)) (dir_blocks s i)"
    using assms by (intro map_cong refl) (simp add: held_def)
  then show "dir_entries t i = dir_entries s i" unfolding dir_entries_def db by (simp only:)
qed

lemma begun_dir:
  assumes l: "layout_ok s" and b: "begun no j xs s t" and d: "dir_ok s i"
  shows "dir_ok t i" "dir_entries t i = dir_entries s i" "dir_blocks t i = dir_blocks s i" "blkno s j \<notin> set (dir_blocks s i)"
    "dir_room s i \<Longrightarrow> dir_room t i"
proof -
  have t: "same_setup s t" "spare t = spare s - {j}" "j \<in> spare s" using b by (simp_all add: begun_def)
  have fr: "disk_of t a = disk_of s a" if "table_lba s \<le> a" "a \<noteq> blkno s j" for a using b that unfolding begun_def by blast
  have tab: "table_lba s \<le> a" if "data_lba s \<le> a" for a using l that unfolding layout_ok_def word_le_nat_alt by linarith
  show n: "blkno s j \<notin> set (dir_blocks s i)"
    using d t(3) blkno_inj [OF l _ spare_less [OF t(3)]] unfolding dir_ok_def by metis
  have i: "i_sectors i ! 12 = 0" using d by (simp add: dir_ok_def)
  have db: "data_lba s \<le> a" if "a \<in> set (dir_blocks s i)" for a
    using d that blkno_bounds(3) [OF l] unfolding dir_ok_def by metis
  have same: "disk_of t a = disk_of s a" if "a \<in> set (dir_blocks s i)" for a
    by (rule fr [OF tab [OF db [OF that]]]) (use n that in auto)
  then have "\<forall>a\<in>held s i. disk_of t a = disk_of s a" using i by (simp add: held_def)
  note ds = dir_same [OF this]
  show "dir_entries t i = dir_entries s i" by (rule ds(2))
  show "dir_blocks t i = dir_blocks s i" by (rule ds(1))
  show "dir_ok t i" using d unfolding dir_ok_def ds(1) t(2) blkno_setup [OF t(1)] same_setup_part [OF t(1)] by auto
  have "disk_of t (i_sectors i ! k) = disk_of s (i_sectors i ! k)" if "k < 12" "i_sectors i ! k \<noteq> 0" for k
    by (rule same [OF dir_ok_block(1) [OF l d that]])
  then show "dir_room s i \<Longrightarrow> dir_room t i" unfolding dir_room_def by metis
qed

section \<open>Making a directory\<close>

text \<open>The inode of a new directory in the block \<open>b\<close>.\<close>

definition subdir_inode :: "u32 \<Rightarrow> u32 \<Rightarrow> inode" where
  "subdir_inode no b = (inode_init no)\<lparr>i_size := 48, i_sectors := b # replicate 12 0\<rparr>"

text \<open>What lies between the states before and after the directory \<open>n\<close> was made in the root directory.\<close>

definition dir_made :: "u8 list \<Rightarrow> u32 \<Rightarrow> nat \<Rightarrow> fs \<Rightarrow> fs \<Rightarrow> bool" where
  "dir_made n no j s s' \<longleftrightarrow> (let p = root_at s in
     unat no \<in> inode_spare s \<and> (\<forall>n\<in>inode_spare s. unat no \<le> n) \<and> no < 4096 \<and> j \<in> spare s \<and> layout_ok s' \<and> inode_map_ok s' \<and>
     dir_ok s' (inodes s' p) \<and> entries s' (inodes s' p) = add_mset (subdir_entry n no) (entries s (inodes s p)) \<and>
     set (dir_entries s' (inodes s' p)) \<subseteq> insert (subdir_entry n no) (insert no_entry (set (dir_entries s (inodes s p)))) \<and>
     (\<forall>q. q \<noteq> p \<longrightarrow> inodes s' q = inodes s q) \<and> same_header (inodes s p) (inodes s' p) \<and>
     cur_part s' = cur_part s \<and> dirs s' = dirs s \<and> root_dir s' = root_dir s \<and> file_table s' = file_table s \<and> fd_table s' = fd_table s \<and>
     cwd_inode_nr s' = cwd_inode_nr s \<and> spare s' \<subseteq> spare s - {j} \<and>
     (\<forall>m<4096. inode_at s' m = (if m = ucast (ucast no :: u8) then subdir_inode no (blkno s j)
        else if m = ucast (ucast (i_no (inodes s p)) :: u8) then (inodes s' p)\<lparr>i_open_cnts := 0, write_deny := 0\<rparr> else inode_at s m)) \<and>
     blkno s j \<notin> set (dir_blocks s' (inodes s' p)) \<and>
     (\<forall>a. data_lba s \<le> a \<longrightarrow> a \<notin> set (dir_blocks s' (inodes s' p)) \<longrightarrow>
        disk_of s' a = (if a = blkno s j then dot_entries no (i_no (inodes s p)) else disk_of s a)) \<and>
     (\<forall>b\<in>set (dir_blocks s' (inodes s' p)). b \<in> set (dir_blocks s (inodes s p)) \<or> b \<notin> used s))"

lemma sys_mkdir_ok:
  assumes v: "volume_ok s" and n: "fresh_name s n" and room: "dir_room s (root_inode s)" "2 \<le> card (spare s)" "inode_spare s \<noteq> {}"
    and m: "mallocs s = io # a # b # ms" "0 \<notin> {io, a, b}"
  shows "\<exists>no j s'. sys_mkdir (slash # n) s = Inr (0, s') \<and> dir_made n no j s s' \<and> mallocs s' = ms"
proof -
  let ?p = "root_at s"
  have pl: "plain_name n" and none: "named n (dir_entries s (root_inode s)) = None" using n by (simp_all add: fresh_name_def)
  have l: "layout_ok s" "inode_map_ok s" "dir_ok s (root_inode s)" "0 \<notin> spare s" "unat (i_size (root_inode s)) + 24 < 4294967296"
    using v by (simp_all add: volume_ok_def)
  have nz: "io \<noteq> NULL" "a \<noteq> NULL" "b \<noteq> NULL" using m(2) by auto
  have len: "length n \<le> 16" using pl by (simp add: plain_name_def)
  let ?s = "s\<lparr>mallocs := a # b # ms\<rparr>" and ?t = "s\<lparr>mallocs := ms\<rparr>"
  have "search_file (slash # n) ?s = Inr (-1, \<lparr>searched_path = slash # n, parent_dir = root_dir s, file_type = FT_UNKNOWN\<rparr>, ?t)"
    using search_single(1) [OF pl, of ?s a b ms] dir_ok_readable [of ?s] l(1,3) none nz by simp
  note sf = this
  have lt: "layout_ok ?t" "inode_map_ok ?t" "inode_spare ?t \<noteq> {}" "spare ?t = spare s" "spare ?t \<noteq> {}" "blkno ?t = blkno s"
    using l room by (auto simp: inode_map_ok_def blkno_def fun_eq_iff)
  define up where "up = i_no (root_inode s)"
  from begin_ok [OF lt(1-3,5), of "\<lambda>no. dot_entries no up"] obtain no j s1 s2 s3 t where
    g: "inode_bitmap_alloc ?t = Inr (no, s1)" "no \<noteq> -1" "block_bitmap_alloc s1 = Inr (blkno s j, s2)" "cur_part s2 = cur_part s"
      "bitmap_sync (blkno s j - data_lba s) BLOCK_BITMAP s2 = Inr s3" "inodes s3 = inodes s" "dirs s3 = dirs s"
      "write_disk (blkno s j) (dot_entries no up) 1 s3 = Inr t" "begun no j (dot_entries no up) ?t t"
    unfolding lt(6) by (auto simp: dot_block(1))
  have dk: "dir_ok ?t (root_inode s)" "dir_room ?t (root_inode s)" using l(3) room(1) by simp_all
  note bd = begun_dir [OF lt(1) g(9) dk(1)]
  have tt: "same_setup ?t t" "inodes t = inodes s" "file_table t = file_table s" "layout_ok t" "inode_map_ok t" "spare t = spare s - {j}"
    "unat no \<in> inode_spare s" "no < 4096" "j \<in> spare s" "\<forall>n\<in>inode_spare s. unat no \<le> n"
    using g(9) lt(4) by (simp_all add: begun_def)
  have td: "dirs t = dirs s" "root_dir t = root_dir s" "cur_part t = cur_part s" using tt(1) by (simp_all add: same_setup_def)
  let ?e = "subdir_entry n no"
  have "spare t \<noteq> {}"
  proof
    assume "spare t = {}"
    then have "spare s = {j}" using tt(6,9) by blast
    then show False using room(2) by simp
  qed
  then obtain s4 where s4: "sync_dir_entry (root_dir s) ?e t = Inr (True, s4)" "entry_added ?p ?e t s4"
    using sync_dir_entry_ok [OF tt(4), of ?p "root_dir s" ?e] bd(1,5) dk(2) l(5) subdir_entry_ok [OF len] td tt(2) by auto
  have e4: "same_setup t s4" "layout_ok s4" "dir_ok s4 (inodes s4 ?p)" "\<forall>q. q \<noteq> ?p \<longrightarrow> inodes s4 q = inodes s q" "file_table s4 = file_table s"
    "same_header (root_inode s) (inodes s4 ?p)" "spare s4 \<subseteq> spare s - {j}"
    using s4(2) tt(2,3,6) by (simp_all add: entry_added_def)
  have x4: "entries s4 (inodes s4 ?p) = add_mset ?e (entries s (root_inode s))"
    "set (dir_entries s4 (inodes s4 ?p)) \<subseteq> insert ?e (insert no_entry (set (dir_entries s (root_inode s))))"
    using s4(2) tt(2) bd(2) by (simp_all add: entry_added_def entries_def)
  obtain s5 where s5: "inode_sync (inodes s4 ?p) s4 = Inr s5" "meta_only s4 s5"
    "\<forall>m<4096. inode_at s5 m = (if m = ucast (ucast (i_no (inodes s4 ?p)) :: u8) then (inodes s4 ?p)\<lparr>i_open_cnts := 0, write_deny := 0\<rparr> else inode_at s4 m)"
    using inode_sync_meta [OF e4(2), of "inodes s4 ?p"] e4(3) by (auto simp: dir_ok_def)
  have l5: "layout_ok s5" by (rule meta_only_layout [OF e4(2) s5(2)])
  let ?i = "subdir_inode no (blkno s j)"
  have "length (i_sectors ?i) = 13" by (simp add: subdir_inode_def)
  then obtain s6 where s6: "inode_sync ?i s5 = Inr s6" "meta_only s5 s6"
    "\<forall>m<4096. inode_at s6 m = (if m = ucast (ucast (i_no ?i) :: u8) then ?i\<lparr>i_open_cnts := 0, write_deny := 0\<rparr> else inode_at s5 m)"
    using inode_sync_meta [OF l5, of ?i] by blast
  have m46: "meta_only s4 s6" by (rule meta_only_trans [OF s5(2) s6(2)])
  have l6: "layout_ok s6" "inode_map_ok s6"
    using meta_only_layout [OF e4(2) m46] tt(5) m46 e4(1) by (simp_all add: meta_only_def same_setup_def inode_map_ok_def)
  have no4: "unat no < 4096" using tt(8) by (simp add: word_less_nat_alt)
  obtain s7 where s7: "bitmap_sync no INODE_BITMAP s6 = Inr s7" "meta_only s6 s7" "\<forall>m<4096. inode_at s7 m = inode_at s6 m"
    using inode_bitmap_sync_ok [OF l6 no4] by blast
  have m47: "meta_only s4 s7" by (rule meta_only_trans [OF m46 s7(2)])
  have e7: "inodes s7 = inodes s4" "file_table s7 = file_table s" "same_setup t s7" "spare s7 = spare s4"
    using m47 e4(1,5) same_setup_trans by (auto simp: meta_only_def)
  have "root_dir s7 = root_dir s" using e7(3) td(2) by (simp add: same_setup_def)
  then have close: "dir_close (root_dir s) s7 = Inr s7" by (simp add: dir_close_def)
  have j0: "blkno s j - data_lba s \<noteq> 0"
  proof -
    have "j \<noteq> 0" using l(4) tt(9) by (metis)
    moreover have "unat (blkno s j) = unat (data_lba s) + j" by (rule blkno_bounds(1) [OF l(1) spare_less [OF tt(9)]])
    ultimately show ?thesis by auto
  qed
  have bm: "blkno s j \<noteq> -1" by (rule blkno_bounds(5) [OF l(1) spare_less [OF tt(9)]])
  have "replicate 13 (0 :: u32) = 0 # replicate 12 0" by (simp add: numeral_eq_Suc)
  then have i: "(inode_init no)\<lparr>i_sectors := (i_sectors (inode_init no))[0 := blkno s j], i_size := 2 * dir_entry_size (sb (cur_part s))\<rparr> = ?i"
    using l(3) by (simp add: subdir_inode_def inode_init_def dir_ok_def)
  have alloc: "heap_alloc s = (io, ?s)" using m(1) by (simp add: heap_alloc_def)
  have run: "sys_mkdir (slash # n) s = Inr (0, s7)"
    using sf depth_single [OF pl] g(1-8) s4(1) s5(1) s6(1) s7(1) j0 bm create_subdir_entry [OF len] i td nz(1) close
    by (simp add: sys_mkdir_def alloc last_name_single [OF pl] up_def [symmetric] Let_def)
  note d47 = meta_only_dir [OF e4(2) m47 e4(3)]
  have d7: "dir_ok s7 (inodes s7 ?p)" "entries s7 (inodes s7 ?p) = entries s4 (inodes s4 ?p)" "dir_entries s7 (inodes s7 ?p) = dir_entries s4 (inodes s4 ?p)"
    "dir_blocks s7 (inodes s7 ?p) = dir_blocks s4 (inodes s4 ?p)" unfolding e7(1) by (rule d47)+
  have part: "cur_part s7 = cur_part s" "cur_part s4 = cur_part t" "dirs s7 = dirs s" "root_dir s7 = root_dir s" "fd_table s7 = fd_table s"
      "cwd_inode_nr s7 = cwd_inode_nr s" "mallocs s7 = ms"
    using e7(3) tt(1) e4(1) by (simp_all add: same_setup_def)
  have base: "data_lba s4 = data_lba s" "data_lba t = data_lba s" "blkno ?t = blkno s" "used ?t = used s" "dir_blocks ?t (root_inode s) = dir_blocks s (root_inode s)"
    "blkno t = blkno s" "bb t = bb s"
    using part(2) td(3) lt(6) by (simp_all add: used_alt blkno_def fun_eq_iff spare_def)
  have ut: "used s \<subseteq> used t" unfolding used_alt base(6,7) tt(6) by auto
  have bt: "blkno s j \<in> used t" unfolding used_alt base(6,7) tt(6) using spare_less [OF tt(9)] by auto
  have own: "\<forall>b\<in>set (dir_blocks s7 (inodes s7 ?p)). b \<in> set (dir_blocks s (root_inode s)) \<or> b \<notin> used t"
    using s4(2) bd(3) base(5) tt(2) unfolding d7(4) entry_added_def by simp
  have nb: "blkno s j \<notin> set (dir_blocks s7 (inodes s7 ?p))" using own bt bd(4) base(3,5) by auto
  have disk: "disk_of s7 x = (if x = blkno s j then dot_entries no up else disk_of s x)"
    if x: "data_lba s \<le> x" "x \<notin> set (dir_blocks s7 (inodes s7 ?p))" for x
  proof -
    have "table_lba s \<le> x" using l(1) x(1) unfolding layout_ok_def word_le_nat_alt by linarith
    then have xt: "table_lba ?t \<le> x" by simp
    have "data_lba s4 \<le> x" "data_lba t \<le> x" using x(1) by (simp_all only: base)
    then have "disk_of s7 x = disk_of s4 x" "disk_of s4 x = disk_of t x"
      using m47 s4(2) x(2) unfolding meta_only_def entry_added_def d7(4) by blast+
    moreover have "disk_of t x = (if x = blkno ?t j then dot_entries no up else disk_of ?t x)"
      using g(9) xt unfolding begun_def by (cases "x = blkno ?t j") simp_all
    ultimately show ?thesis unfolding base(3) by simp
  qed
  have table: "inode_at s7 m = (if m = ucast (ucast no :: u8) then ?i
      else if m = ucast (ucast (i_no (root_inode s)) :: u8) then (inodes s7 ?p)\<lparr>i_open_cnts := 0, write_deny := 0\<rparr> else inode_at s m)"
    if m: "m < 4096" for m
  proof -
    have "inode_at s4 m = inode_at t m"
      by (rule same_table [OF tt(4) part(2) _ m]) (use s4(2) in \<open>simp add: entry_added_def\<close>)
    also have "\<dots> = inode_at ?t m" by (rule begun_inode_at [OF lt(1) g(9) m])
    also have "\<dots> = inode_at s m" by (simp add: inode_at_def)
    finally have "inode_at s4 m = inode_at s m" .
    moreover have "?i\<lparr>i_open_cnts := 0, write_deny := 0\<rparr> = ?i" "i_no ?i = no" by (simp_all add: subdir_inode_def inode_init_def)
    moreover have "i_no (inodes s4 ?p) = i_no (root_inode s)" using e4(6) by (simp add: same_header_def)
    ultimately show ?thesis using s7(3) s6(3) s5(3) m e7(1) by simp
  qed
  have im7: "inode_map_ok s7" using l(2) part(1) by (simp add: inode_map_ok_def)
  have "dir_made n no j s s7"
    unfolding dir_made_def Let_def up_def [symmetric]
    using tt(7-10) meta_only_layout [OF e4(2) m47] im7 d7(1-3) x4 e4(4,6,7) part(1,3-6) e7 table [unfolded up_def [symmetric]] nb disk own ut by auto
  then show ?thesis using run part(7) by blast
qed

section \<open>The tree\<close>

text \<open>The numbers and the blocks of the directories are in use, apart from those of the root directory.\<close>

definition tree_used :: "fs \<Rightarrow> u32 set \<Rightarrow> bool" where
  "tree_used s T \<longleftrightarrow> (\<forall>d\<in>T. unat d \<notin> inode_spare s \<and>
     (d \<noteq> 0 \<longrightarrow> held s (inode_at s d) \<subseteq> used s - set (dir_blocks s (inode_at s 0))))"

lemma subdir_blocks: "b \<noteq> 0 \<Longrightarrow> dir_blocks s (subdir_inode no b) = [b]"
proof -
  have "replicate 12 (0 :: u32) = replicate 11 0 @ [0]" by (simp add: numeral_eq_Suc)
  then have "take 12 (b # replicate 12 0) = b # replicate 11 (0 :: u32)" by simp
  moreover have "(b # replicate 12 0) ! 12 = (0 :: u32)" by (simp add: nth_Cons')
  ultimately show "b \<noteq> 0 \<Longrightarrow> dir_blocks s (subdir_inode no b) = [b]" by (simp add: dir_blocks_def subdir_inode_def)
qed

lemma made_dirs:
  assumes v: "volume_ok s" and t: "tree_ok s T" and c: "cache_ok s T" and u: "tree_used s T" and md: "dir_made n no j s s'" and no: "no < 256"
  shows "no \<notin> T" and "inode_at s' no = subdir_inode no (blkno s j)" and "d \<in> T \<Longrightarrow> d \<noteq> 0 \<Longrightarrow> inode_at s' d = inode_at s d"
    and "inode_at s' 0 = (root_inode s')\<lparr>i_open_cnts := 0, write_deny := 0\<rparr>"
    and "d \<in> T \<Longrightarrow> d \<noteq> 0 \<Longrightarrow> dir_at s' d = dir_at s d \<and> dir_blocks s' (inode_at s' d) = dir_blocks s (inode_at s d)"
    and "dir_at s' no = [subdir_entry [46] no, subdir_entry [46, 46] 0] @ replicate 19 no_entry"
    and "dir_at s' 0 = dir_entries s' (root_inode s')" and "dir_at s 0 = dir_entries s (root_inode s)"
proof -
  let ?p = "root_at s"
  have l: "layout_ok s" using v by (simp add: volume_ok_def)
  note m = md [unfolded dir_made_def Let_def]
  have T: "0 \<in> T" "\<forall>d\<in>T. d < 4096" using t by (auto simp: tree_ok_def)
  have r0: "i_no (root_inode s) = 0" "i_sectors (root_inode s) = i_sectors (inode_at s 0)" using c T(1) by (auto simp: cache_ok_def)
  have ns: "unat no \<in> inode_spare s" using m by blast
  then show nT: "no \<notin> T" using u by (auto simp: tree_used_def)
  have n8: "ucast (ucast no :: u8) = no" "no < 4096" using small_no [of no] no by (simp_all add: word_less_nat_alt)
  have rs: "root_at s' = ?p" using m by simp
  have j: "j \<in> spare s" using m by blast
  have at: "inode_at s' d = (if d = no then subdir_inode no (blkno s j)
        else if d = 0 then (inodes s' ?p)\<lparr>i_open_cnts := 0, write_deny := 0\<rparr> else inode_at s d)" if "d < 4096" for d
    using m that unfolding n8 r0 by simp
  show a1: "inode_at s' no = subdir_inode no (blkno s j)" using at [OF n8(2)] by simp
  show ad: "inode_at s' d = inode_at s d" if "d \<in> T" "d \<noteq> 0" for d using at [of d] T(2) that nT by auto
  show a0: "inode_at s' 0 = (root_inode s')\<lparr>i_open_cnts := 0, write_deny := 0\<rparr>" unfolding rs using at [of 0] T(1) nT by auto
  have sec: "i_sectors (inode_at s' 0) = i_sectors (root_inode s')" using a0 by simp
  show "dir_at s' 0 = dir_entries s' (root_inode s')" unfolding dir_at_def by (rule sectors_entries(1) [OF sec])
  show "dir_at s 0 = dir_entries s (root_inode s)" unfolding dir_at_def by (rule sectors_entries(1) [OF r0(2) [symmetric]])
  have b0: "dir_blocks s (inode_at s 0) = dir_blocks s (root_inode s)" by (simp add: dir_blocks_def r0(2))
  show "dir_at s' d = dir_at s d \<and> dir_blocks s' (inode_at s' d) = dir_blocks s (inode_at s d)" if "d \<in> T" "d \<noteq> 0" for d
  proof -
    have "disk_of s' a = disk_of s a" if a: "a \<in> held s (inode_at s d)" for a
    proof -
      have "a \<in> used s" "a \<notin> set (dir_blocks s (root_inode s))" using u that \<open>d \<in> T\<close> \<open>d \<noteq> 0\<close> unfolding tree_used_def b0 by blast+
      moreover have "data_lba s \<le> a" using used_bounds(2) [OF l calculation(1)] .
      moreover have "a \<noteq> blkno s j" using used_spare [OF l j] calculation(1) by blast
      ultimately show ?thesis using m by metis
    qed
    then show ?thesis using dir_same [of s "inode_at s d" s'] ad [OF that] by (simp add: dir_at_def)
  qed
  note bb = blkno_bounds [OF l spare_less [OF j]]
  have md: "\<forall>a. data_lba s \<le> a \<longrightarrow> a \<notin> set (dir_blocks s' (inodes s' ?p)) \<longrightarrow>
      disk_of s' a = (if a = blkno s j then dot_entries no (i_no (root_inode s)) else disk_of s a)"
    "blkno s j \<notin> set (dir_blocks s' (inodes s' ?p))" using m by blast+
  have "disk_of s' (blkno s j) = dot_entries no 0" using md(1) [rule_format, OF bb(3) md(2)] by (simp only: r0(1) if_True simp_thms)
  then show "dir_at s' no = [subdir_entry [46] no, subdir_entry [46, 46] 0] @ replicate 19 no_entry"
    unfolding dir_at_def a1 dir_entries_def subdir_blocks [OF bb(4)] by (simp add: dot_block(2))
qed

lemma subdir_names: "entry_name (subdir_entry [46] no) = [46]" "entry_name (subdir_entry [46, 46] no) = [46, 46]" "entry_name no_entry = []"
  by (simp_all add: entry_name_subdir) (simp add: entry_name_def no_entry_def)

lemma made_tree:
  assumes v: "volume_ok s" and t: "tree_ok s T" and c: "cache_ok s T" and u: "tree_used s T" and md: "dir_made n no j s s'" and no: "no < 256"
    and n: "0 \<notin> set n" "length n \<le> 16"
  shows "tree_ok s' (insert no T)" and "cache_ok s' (insert no T)"
proof -
  let ?p = "root_at s"
  note d = made_dirs [OF assms(1-6)]
  note m = md [unfolded dir_made_def Let_def]
  have rs: "root_at s' = ?p" "cur_part s' = cur_part s" "root_dir s' = root_dir s" "dirs s' = dirs s" using m by simp_all
  have l: "layout_ok s'" "dir_ok s' (root_inode s')" "layout_ok s" using m v rs(1) by (simp_all add: volume_ok_def)
  have T: "0 \<in> T" "\<forall>x\<in>T. x < 4096 \<and> i_no (inode_at s x) = x \<and> dir_readable s (inode_at s x)"
      "\<forall>x\<in>T. \<forall>e\<in>set (dir_at s x). entry_name e \<noteq> [] \<longrightarrow> e_no e < 4096 \<and> (f_type e = FT_REGULAR \<or> f_type e = FT_DIRECTORY \<and> e_no e \<in> T)"
    using t by (simp_all add: tree_ok_def)
  have r0: "i_no (root_inode s') = 0" using c rs m by (simp add: cache_ok_def same_header_def)
  have n4: "no < 4096" and j: "j \<in> spare s" using m by blast+
  note bb = blkno_bounds [OF l(3) spare_less [OF j]]
  have z: "dir_entry_size (sb (cur_part s')) = 24" "sectors_512 (disk_of s')" "table_ok s'"
    using l by (simp_all add: dir_ok_def layout_512) (simp add: layout_ok_def)
  have "x < 4096 \<and> i_no (inode_at s' x) = x \<and> dir_readable s' (inode_at s' x) \<and>
      (\<forall>e\<in>set (dir_at s' x). entry_name e \<noteq> [] \<longrightarrow>
        e_no e < 4096 \<and> (f_type e = FT_REGULAR \<or> f_type e = FT_DIRECTORY \<and> e_no e \<in> insert no T))" if xi: "x \<in> insert no T" for x
  proof -
    consider "x = no" | "x = 0" "x \<noteq> no" | "x \<in> T" "x \<noteq> 0" using xi by blast
    then show ?thesis
    proof cases
      case 1
      have "i_sectors (subdir_inode no (blkno s j)) ! 12 = 0" by (simp add: subdir_inode_def nth_Cons')
      then have "dir_readable s' (subdir_inode no (blkno s j))"
        using z(1,2) bb(2) unfolding dir_readable_def subdir_blocks [OF bb(4)] by simp
      moreover have "i_no (subdir_inode no (blkno s j)) = no" by (simp add: subdir_inode_def inode_init_def)
      ultimately show ?thesis using n4 T(1) unfolding 1 d(6) d(2) by (auto simp: subdir_names subdir_entry_ok)
    next
      case 2
      have sec: "i_sectors (inode_at s' 0) = i_sectors (root_inode s')" "i_no (inode_at s' 0) = 0" using d(4) r0 by simp_all
      have "dir_readable s' (inode_at s' 0)" unfolding sectors_entries(2) [OF sec(1)] by (rule dir_ok_readable [OF l(1,2)])
      moreover have sub: "set (dir_at s' 0) \<subseteq> insert (subdir_entry n no) (insert no_entry (set (dir_at s 0)))"
        unfolding d(7,8) rs(1) using m by blast
      have "e_no e < 4096 \<and> (f_type e = FT_REGULAR \<or> f_type e = FT_DIRECTORY \<and> e_no e \<in> insert no T)"
        if "e \<in> set (dir_at s' 0)" "entry_name e \<noteq> []" for e
      proof -
        have "e = subdir_entry n no \<or> e \<in> set (dir_at s 0)" using sub that subdir_names(3) by auto
        then show ?thesis using T(1,3) n4 subdir_entry_ok [OF n(2)] that(2) by auto
      qed
      ultimately show ?thesis unfolding 2(1) using sec(2) by auto
    next
      case 3
      note dd = d(3) [OF 3] d(5) [OF 3]
      have "dir_readable s' (inode_at s x)" using T(2) 3(1) z(1,2) dd unfolding dir_readable_def by auto
      then show ?thesis using T(2,3) 3(1) dd by auto
    qed
  qed
  then show "tree_ok s' (insert no T)" unfolding tree_ok_def using z(3) T(1) by blast
  show "cache_ok s' (insert no T)"
  proof -
    note cc = c [unfolded cache_ok_def open_ok_def]
    let ?O = "open_inodes (cur_part s)"
    have no': "i_no (inodes s' q) = i_no (inodes s q)" "i_open_cnts (inodes s' q) = i_open_cnts (inodes s q)" for q
      using m unfolding same_header_def by metis+
    have p: "?p \<in> set ?O" "i_no (inodes s ?p) = 0" using cc by blast+
    have in_map: "inj_on (\<lambda>q. i_no (inodes s q)) (set ?O)" using cc by (simp add: distinct_map)
    have "i_sectors (inodes s' q) = i_sectors (inode_at s' (i_no (inodes s' q)))" if q: "q \<in> set ?O" "i_no (inodes s' q) \<in> insert no T" for q
    proof (cases "q = ?p")
      case True
      then show ?thesis using d(4) r0 rs(1) by simp
    next
      case False
      then have "i_no (inodes s q) \<noteq> 0" using in_map p q(1) by (metis inj_onD)
      moreover have "i_no (inodes s q) \<noteq> no" using v q(1) m unfolding volume_ok_def by metis
      ultimately have "i_no (inodes s q) \<in> T" "i_no (inodes s q) \<noteq> 0" using q(2) no' by auto
      moreover have "inodes s' q = inodes s q" using m False by blast
      ultimately show ?thesis using d(3) cc q(1) by simp
    qed
    then show ?thesis using cc unfolding cache_ok_def open_ok_def rs no' by simp
  qed
qed

lemma made_files:
  assumes v: "volume_ok s" and md: "dir_made n no j s s'" and f: "file_ok s i" "file_blocks s i \<inter> set (dir_blocks s (root_inode s)) = {}"
  shows "file_ok s' i" "contents s' i = contents s i"
proof -
  have l: "layout_ok s" using v by (simp add: volume_ok_def)
  note m = md [unfolded dir_made_def Let_def]
  have cp: "cur_part s' = cur_part s" "spare s' \<subseteq> spare s - {j}" and j: "j \<in> spare s" using m by blast+
  have "blkno s' = blkno s" "bb s' = bb s" using cp(1) by (simp_all add: blkno_def fun_eq_iff)
  then have us: "used s \<subseteq> used s'" unfolding used_alt using cp(2) by auto
  have "disk_of s' a = disk_of s a" if a: "a \<in> file_blocks s i" for a
  proof -
    have "a \<in> used s" "a \<notin> set (dir_blocks s (root_inode s))" using file_blocks_used [OF f(1)] f(2) a by auto
    moreover have "data_lba s \<le> a" using used_bounds(2) [OF l calculation(1)] .
    moreover have "a \<noteq> blkno s j" using used_spare [OF l j] calculation(1) by blast
    ultimately show ?thesis using m by metis
  qed
  from file_same [OF f(1) this us] show "file_ok s' i" "contents s' i = contents s i" by simp_all
qed

lemma made_entry:
  assumes "volume_ok s" and "tree_ok s T" and "cache_ok s T" and "tree_used s T" and "dir_made n no j s s'" and "no < 256" and "fresh_name s n"
  shows "named n (dir_at s' 0) = Some (subdir_entry n no)"
    and "mset (filter live (dir_at s' 0)) = add_mset (subdir_entry n no) (mset (filter live (dir_at s 0)))"
proof -
  note d = made_dirs [OF assms(1-6)]
  note m = assms(5) [unfolded dir_made_def Let_def]
  have rs: "root_at s' = root_at s" using m by simp
  show e: "mset (filter live (dir_at s' 0)) = add_mset (subdir_entry n no) (mset (filter live (dir_at s 0)))"
    using m unfolding d(7,8) rs entries_def by blast
  have n: "n \<noteq> []" "0 \<notin> set n" "named n (dir_at s 0) = None" using assms(7) unfolding d(8) by (auto simp: fresh_name_def plain_name_def)
  have "subdir_entry n no \<in># mset (filter live (dir_at s' 0))" unfolding e by simp
  then have "subdir_entry n no \<in> set (dir_at s' 0)" by simp
  moreover have "set (dir_at s' 0) \<subseteq> insert (subdir_entry n no) (insert no_entry (set (dir_at s 0)))"
    unfolding d(7,8) rs using m by blast
  moreover have "entry_name (subdir_entry n no) = n" by (rule entry_name_subdir [OF n(2)])
  ultimately show "named n (dir_at s' 0) = Some (subdir_entry n no)"
    using find_new_entry [of "subdir_entry n no" "dir_at s' 0" "dir_at s 0"] n(1,3) by (auto simp: find_None_iff)
qed

lemma good_single: "plain_name n \<Longrightarrow> 8 \<le> length (mallocs s) \<Longrightarrow> good_path s (slash # n)"
  using names_single [of n] by (auto simp: good_path_def plain_name_def)

section \<open>Properties\<close>

text \<open>C7 \<open>sys_mkdir\<close> makes a directory: the tree of the directories on the disk has one more, under a number that was
  free; its entries are \<open>.\<close> and \<open>..\<close>, its name goes into the root directory, the other directories and the contents of
  the files are as they were, and the directories in memory still agree with the disk.\<close>

theorem sys_mkdir_grows_tree:
  assumes "volume_ok s" and "tree_ok s T" and "cache_ok s T" and "tree_used s T" and "fresh_name s n" and "dir_room s (root_inode s)"
    and "2 \<le> card (spare s)" and "\<exists>m\<in>inode_spare s. m < 256" and "mallocs s = io # a # b # ms" and "0 \<notin> {io, a, b}"
  shows "\<exists>no s'. sys_mkdir (slash # n) s = Inr (0, s') \<and> unat no \<in> inode_spare s \<and> no \<notin> T \<and>
    tree_ok s' (insert no T) \<and> cache_ok s' (insert no T) \<and>
    mset (filter live (dir_at s' 0)) = add_mset (subdir_entry n no) (mset (filter live (dir_at s 0))) \<and>
    dir_at s' no = [subdir_entry [46] no, subdir_entry [46, 46] 0] @ replicate 19 no_entry \<and> (\<forall>d\<in>T. d \<noteq> 0 \<longrightarrow> dir_at s' d = dir_at s d) \<and>
    (\<forall>i. file_ok s i \<and> file_blocks s i \<inter> set (dir_blocks s (root_inode s)) = {} \<longrightarrow> file_ok s' i \<and> contents s' i = contents s i)"
proof -
  have "inode_spare s \<noteq> {}" using assms(8) by blast
  from sys_mkdir_ok [OF assms(1,5-7) this assms(9,10)] obtain no j s' where s': "sys_mkdir (slash # n) s = Inr (0, s')" "dir_made n no j s s'" by blast
  have ns: "unat no \<in> inode_spare s" "\<forall>m\<in>inode_spare s. unat no \<le> m" using s'(2) by (simp_all add: dir_made_def Let_def)
  then have "unat no < 256" using assms(8) by (meson le_less_trans)
  then have n8: "no < 256" by (rule small_no(4))
  have pl: "0 \<notin> set n" "length n \<le> 16" using assms(5) by (auto simp: fresh_name_def plain_name_def)
  note d = made_dirs [OF assms(1-4) s'(2) n8] and t = made_tree [OF assms(1-4) s'(2) n8 pl] and e = made_entry [OF assms(1-4) s'(2) n8 assms(5)]
  show ?thesis using s'(1) ns(1) d(1,5,6) t e(2) made_files [OF assms(1) s'(2)] by blast
qed

text \<open>C8 A directory that was made can be entered: \<open>sys_chdir\<close> finds its name in the root directory and makes its
  number the working directory.\<close>

theorem mkdir_then_chdir:
  assumes "volume_ok s" and "tree_ok s T" and "cache_ok s T" and "tree_used s T" and "fresh_name s n" and "dir_room s (root_inode s)"
    and "2 \<le> card (spare s)" and "\<exists>m\<in>inode_spare s. m < 256" and "mallocs s = io # a # b # ms" and "unused s (mallocs s)" and "8 \<le> length ms"
  shows "\<exists>no s' t. sys_mkdir (slash # n) s = Inr (0, s') \<and> sys_chdir (slash # n) s' = Inr (0, t) \<and>
    unat no \<in> inode_spare s \<and> cwd_inode_nr t = no \<and> i_no (inode_at t no) = no"
proof -
  have "inode_spare s \<noteq> {}" "0 \<notin> {io, a, b}" using assms(8-10) by (auto simp: unused_def)
  from sys_mkdir_ok [OF assms(1,5-7) this(1) assms(9) this(2)] obtain no j s' where
    s': "sys_mkdir (slash # n) s = Inr (0, s')" "dir_made n no j s s'" "mallocs s' = ms" by blast
  have ns: "unat no \<in> inode_spare s" "\<forall>m\<in>inode_spare s. unat no \<le> m" using s'(2) by (simp_all add: dir_made_def Let_def)
  then have "unat no < 256" using assms(8) by (meson le_less_trans)
  then have n8: "no < 256" by (rule small_no(4))
  have pl: "plain_name n" "0 \<notin> set n" "length n \<le> 16" using assms(5) by (auto simp: fresh_name_def plain_name_def)
  note d = made_dirs [OF assms(1-4) s'(2) n8] and t = made_tree [OF assms(1-4) s'(2) n8 pl(2,3)] and e = made_entry [OF assms(1-4) s'(2) n8 assms(5)]
  have "unused s' (mallocs s')" using assms(9,10) s'(2,3) by (simp add: unused_def dir_made_def Let_def)
  moreover have "good_path s' (slash # n)" using good_single [OF pl(1)] assms(11) s'(3) by simp
  moreover have "walk (dir_at s') 0 (names (slash # n)) = (Some (subdir_entry n no), 0, [n])" unfolding names_single [OF pl(1)] using e(1) by simp
  moreover have "found_dir (Some (subdir_entry n no))" using subdir_entry_ok(4) [OF pl(3)] by (simp add: found_dir_def)
  ultimately obtain t where t: "sys_chdir (slash # n) s' = Inr (0, t)" "same_memory (s'\<lparr>cwd_inode_nr := no\<rparr>) t"
    using sys_chdir_ok [OF t] subdir_entry_ok(3) [OF pl(3)] by fastforce
  have "cwd_inode_nr t = no" "disks t = disks s'" "cur_part t = cur_part s'" using t(2) by (simp_all add: same_memory_def)
  moreover have "i_no (inode_at s' no) = no" unfolding d(2) by (simp add: subdir_inode_def inode_init_def)
  ultimately show ?thesis using s'(1) t(1) ns(1) by (auto simp: inode_at_def)
qed

text \<open>The disk with \<^verbatim>\<open>/a\<close> and \<^verbatim>\<open>/a/f\<close>, with the numbers and blocks that they take.\<close>

definition mk_fs :: fs where
  "mk_fs = tree_fs\<lparr>fs_bytes := (\<lambda>_. 0)(0xc0200000 := 3, 0xc0201000 := 7), mallocs := [1, 2, 3, 4, 5, 6, 7, 8, 9, 10, 11]\<rparr>"

lemma mk_fs_part: "sb (cur_part mk_fs) = sb (cur_part dir_fs)" "bb mk_fs = bb dir_fs" "ib mk_fs = ib dir_fs"
    "start_lba (cur_part mk_fs) = start_lba (cur_part dir_fs)" "sec_cnt (cur_part mk_fs) = sec_cnt (cur_part dir_fs)"
    "open_inodes (cur_part mk_fs) = [0xc0500000]" "inodes mk_fs p = (tree_inode 0 2664)\<lparr>i_open_cnts := 1\<rparr>" "dir_inode (dirs mk_fs p) = 0xc0500000"
    "root_dir mk_fs = 0xc0300000" "file_table mk_fs = file_table dir_fs" "fd_table mk_fs = fd_table dir_fs" "mallocs mk_fs = [1, 2, 3, 4, 5, 6, 7, 8, 9, 10, 11]"
    "disk_of mk_fs = disk_of tree_fs" "inode_at mk_fs = inode_at tree_fs" "dir_blocks mk_fs i = dir_blocks tree_fs i"
    "dir_entries mk_fs i = dir_entries tree_fs i" "dir_at mk_fs = dir_at tree_fs" "table_ok mk_fs = table_ok tree_fs" "held mk_fs i = held tree_fs i"
    "dir_readable mk_fs i = dir_readable tree_fs i"
  by (simp_all add: mk_fs_def tree_fs_def dir_fs_def blank_fs_def blank_part_def fun_eq_iff inode_at_def dir_blocks_def dir_entries_def dir_at_def
      table_ok_def held_def dir_readable_def)

lemma mk_fs_bits: "nbits (bb dir_fs) = 4096" "nbits (ib dir_fs) = 4096" "taken (fs_bytes mk_fs) (bb dir_fs) 0" "taken (fs_bytes mk_fs) (bb dir_fs) 1"
    "\<not> taken (fs_bytes mk_fs) (bb dir_fs) 2" "\<not> taken (fs_bytes mk_fs) (bb dir_fs) 3" "taken (fs_bytes mk_fs) (ib dir_fs) 0" "taken (fs_bytes mk_fs) (ib dir_fs) 1"
    "\<not> taken (fs_bytes mk_fs) (ib dir_fs) 3"
  by (simp_all add: mk_fs_def dir_fs_fields taken_def nbits_def)

lemma mk_fs_spare: "j \<in> spare mk_fs \<longleftrightarrow> j < 4096 \<and> \<not> taken (fs_bytes mk_fs) (bb dir_fs) j"
    "k \<in> inode_spare mk_fs \<longleftrightarrow> k < 4096 \<and> \<not> taken (fs_bytes mk_fs) (ib dir_fs) k" "blkno mk_fs j = 2664 + of_nat j"
  by (simp_all add: spare_def inode_spare_def mk_fs_part mk_fs_bits blkno_def) (simp add: dir_fs_fields)

lemma mk_fs_root: "dir_blocks tree_fs (inodes mk_fs p) = [2664]" "dir_entries tree_fs (inodes mk_fs p) = dir_at tree_fs 0"
    "held tree_fs (tree_inode 1 2665) = {2665}"
proof -
  have s: "i_sectors (inodes mk_fs p) = i_sectors (tree_inode 0 2664)" by (simp add: mk_fs_part)
  have "dir_blocks tree_fs (inodes mk_fs p) = dir_blocks tree_fs (tree_inode 0 2664)" unfolding dir_blocks_def s ..
  then show "dir_blocks tree_fs (inodes mk_fs p) = [2664]" by (simp only: tree_blocks)
  show "dir_entries tree_fs (inodes mk_fs p) = dir_at tree_fs 0" unfolding dir_at_def tree_inodes by (rule sectors_entries(1) [OF s])
  have "i_sectors (tree_inode 1 2665) ! 12 = 0" by (simp add: tree_inode_def nth_Cons')
  then show "held tree_fs (tree_inode 1 2665) = {2665}" by (simp add: held_def tree_blocks)
qed

lemma mk_fs_ok:
  "volume_ok mk_fs" "tree_ok mk_fs {0, 1}" "cache_ok mk_fs {0, 1}" "tree_used mk_fs {0, 1}" "fresh_name mk_fs [98]"
  "dir_room mk_fs (root_inode mk_fs)" "2 \<le> card (spare mk_fs)" "\<exists>m\<in>inode_spare mk_fs. m < 256" "unused mk_fs (mallocs mk_fs)"
proof -
  note t = tree_fs_ok(1,2) [unfolded tree_ok_def cache_ok_def open_ok_def]
  show tr: "tree_ok mk_fs {0, 1}" unfolding tree_ok_def mk_fs_part by (rule t(1))
  have "layout_ok mk_fs" using dir_fs_layout tr unfolding layout_ok_def tree_ok_def mk_fs_part by blast
  moreover have "inode_map_ok mk_fs" using dir_fs_inode_map unfolding inode_map_ok_def mk_fs_part .
  moreover have "dir_ok mk_fs (root_inode mk_fs)"
  proof -
    have b: "\<exists>j<4096. (2664 :: u32) = blkno mk_fs j \<and> j \<notin> spare mk_fs" by (rule exI [of _ 0]) (simp add: mk_fs_spare mk_fs_bits)
    have "length (i_sectors (root_inode mk_fs)) = 13" "i_sectors (root_inode mk_fs) ! 12 = 0" "unat (i_size (root_inode mk_fs)) mod 24 = 0"
      "dir_entry_size (sb (cur_part mk_fs)) = 24" by (simp_all add: mk_fs_part tree_inode_def nth_Cons') (simp add: dir_fs_fields)
    then show ?thesis using b unfolding dir_ok_def mk_fs_part(15) mk_fs_root(1) by (simp add: mk_fs_part(2) mk_fs_bits(1))
  qed
  moreover have "0 \<notin> spare mk_fs" "0 \<notin> inode_spare mk_fs" by (simp_all add: mk_fs_spare mk_fs_bits)
  moreover have "i_size (root_inode mk_fs) = 72" "i_no (inodes mk_fs p) = 0" for p by (simp_all add: mk_fs_part tree_inode_def inode_init_def)
  moreover have "length (file_table mk_fs) = 32" "length (fd_table mk_fs) = 8" "\<forall>f\<in>set (file_table mk_fs). fd_inode f = NULL"
    by (simp_all add: mk_fs_part) (simp_all add: dir_fs_fields)
  ultimately show "volume_ok mk_fs" by (simp add: volume_ok_def)
  have s: "i_sectors (inodes mk_fs p) = i_sectors (tree_inode 0 2664)" "i_no (inodes mk_fs p) = 0" "i_open_cnts (inodes mk_fs p) = 1" for p
    by (simp_all add: mk_fs_part tree_inode_def inode_init_def)
  show "cache_ok mk_fs {0, 1}" unfolding cache_ok_def open_ok_def s mk_fs_part(6,8,9) by (simp add: s mk_fs_part(14) tree_inodes)
  have "blkno mk_fs 1 \<in> used mk_fs" unfolding used_alt mk_fs_part(2) mk_fs_bits(1) by (intro imageI) (use mk_fs_bits(4) in \<open>simp add: mk_fs_spare\<close>)
  then have "2665 \<in> used mk_fs" by (simp add: mk_fs_spare)
  then show "tree_used mk_fs {0, 1}"
    using mk_fs_bits(7,8) by (simp add: tree_used_def mk_fs_spare) (simp add: mk_fs_part tree_inodes mk_fs_root tree_blocks)
  have "named [98] (dir_at tree_fs 0) = None" by (simp add: tree_entries tree_entry_def entry_name_def no_entry_def find_replicate)
  then show "fresh_name mk_fs [98]" unfolding fresh_name_def mk_fs_part(16) mk_fs_root(2) by (simp add: plain_name_def)
  show "dir_room mk_fs (root_inode mk_fs)" unfolding dir_room_def by (rule exI [of _ 1]) (simp add: s tree_inode_def)
  have "{2, 3} \<subseteq> spare mk_fs" by (simp add: mk_fs_spare mk_fs_bits)
  from card_mono [OF finite_spare this] show "2 \<le> card (spare mk_fs)" by simp
  show "\<exists>m\<in>inode_spare mk_fs. m < 256" by (rule bexI [of _ 3]) (simp_all add: mk_fs_spare mk_fs_bits)
  show "unused mk_fs (mallocs mk_fs)" unfolding unused_def mk_fs_part(6,9,12) by simp
qed

theorem sys_mkdir_grows_tree_witness:
  "\<exists>no s'. sys_mkdir [47, 98] mk_fs = Inr (0, s') \<and> no \<notin> {0, 1} \<and> tree_ok s' {no, 0, 1} \<and>
    dir_at s' no = [subdir_entry [46] no, subdir_entry [46, 46] 0] @ replicate 19 no_entry \<and> dir_at s' 1 = dir_at mk_fs 1"
  using sys_mkdir_grows_tree [OF mk_fs_ok(1-8) mk_fs_part(12)] by fastforce

theorem mkdir_then_chdir_witness:
  "\<exists>no s' t. sys_mkdir [47, 98] mk_fs = Inr (0, s') \<and> sys_chdir [47, 98] s' = Inr (0, t) \<and> cwd_inode_nr t = no"
  using mkdir_then_chdir [OF mk_fs_ok(1-8) mk_fs_part(12) mk_fs_ok(9)] by auto

end
