(* ===== verification/Screen.thy ===== *)
theory Screen
  imports Sync
begin

unbundle bit_operations_syntax

text \<open>
  The screen: the routines of \<^verbatim>\<open>lib/kernel/print.S\<close> that write to the memory of the display, and
  \<^verbatim>\<open>device/console.c\<close>, which brackets them with a lock. The display shows 25 rows of 80 cells of two bytes,
  the character and its attribute, from the start of the video segment on; the segment has 32 kilobytes,
  and an access behind it is \<open>OutOfBounds\<close>. The position of the cursor is a register of the display.
\<close>

section \<open>print.S\<close>

record screen = sync +
  video :: "u16 \<Rightarrow> u8"
  cursor :: u16

definition write_video :: "u16 \<Rightarrow> u8 \<Rightarrow> 'a screen_scheme \<Rightarrow> 'a screen_scheme res" where
  "write_video off v s = (if off < 0x8000 then Inr (s\<lparr>video := (video s)(off := v)\<rparr>) else Inl OutOfBounds)"

definition set_cursor :: "u16 \<Rightarrow> 'a screen_scheme \<Rightarrow> 'a screen_scheme" where
  "set_cursor bx s = s\<lparr>cursor := bx\<rparr>"

text \<open>A cell at the position \<open>bx\<close>; the shift drops the upper bit.\<close>

definition put_cell :: "u16 \<Rightarrow> u8 \<Rightarrow> 'a screen_scheme \<Rightarrow> 'a screen_scheme res" where
  "put_cell bx c s = bindr (write_video (push_bit 1 bx) c s) (write_video (push_bit 1 bx + 1) 0x07)"

text \<open>Rows 1 to 24 move up, the last row is blank.\<close>

definition roll_screen :: "'a screen_scheme \<Rightarrow> 'a screen_scheme" where
  "roll_screen s = s\<lparr>video := (\<lambda>off. if off < 3840 then video s (off + 160)
     else if off < 4000 then (if off mod 2 = 0 then 0x20 else 0x07) else video s off), cursor := 1920\<rparr>"

text \<open>\<open>cmp\<close> and \<open>jl\<close> compare as signed numbers.\<close>

definition new_line :: "u16 \<Rightarrow> 'a screen_scheme \<Rightarrow> 'a screen_scheme" where
  "new_line bx s = (let bx = bx - bx mod 80 + 80 in if sint bx < 2000 then set_cursor bx s else roll_screen s)"

definition put_char :: "u8 \<Rightarrow> 'a screen_scheme \<Rightarrow> 'a screen_scheme res" where
  "put_char c s =
     (let bx = cursor s
      in if c = 0x0d \<or> c = 0x0a then Inr (new_line bx s)
         else if c = 0x08 then
           bindr (put_cell (bx - 1) 0x20 s) (\<lambda>s. Inr (set_cursor (drop_bit 1 (push_bit 1 (bx - 1) + 1)) s))
         else bindr (put_cell bx c s) (\<lambda>s.
              let bx = drop_bit 1 (push_bit 1 bx + 1) + 1
              in Inr (if sint bx < 2000 then set_cursor bx s else new_line bx s)))"

primrec put_str :: "u8 list \<Rightarrow> 'a screen_scheme \<Rightarrow> 'a screen_scheme res" where
  "put_str [] s = Inr s"
| "put_str (c # cs) s = bindr (put_char c s) (put_str cs)"

text \<open>The hexadecimal digits of a number, most significant first, without leading zeros.\<close>

definition hex_digit :: "u32 \<Rightarrow> u8" where
  "hex_digit edx = (if edx \<le> 9 then ucast edx + 48 else ucast (edx - 10) + 65)"

definition put_int_buffer :: "u32 \<Rightarrow> u8 list" where
  "put_int_buffer eax = map (\<lambda>k. hex_digit (drop_bit (4 * (7 - k)) eax AND 0xf)) [0..<8]"

definition put_int :: "u32 \<Rightarrow> 'a screen_scheme \<Rightarrow> 'a screen_scheme res" where
  "put_int eax s =
     (let ds = dropWhile (\<lambda>c. c = 48) (put_int_buffer eax) in put_str (if ds = [] then [48] else ds) s)"

definition cls_screen :: "'a screen_scheme \<Rightarrow> 'a screen_scheme" where
  "cls_screen s = s\<lparr>video := (\<lambda>off. if off < 4000 then (if off mod 2 = 0 then 0x20 else 0x07) else video s off), cursor := 0\<rparr>"

section \<open>console.c\<close>

definition console_init :: "addr \<Rightarrow> 'a screen_scheme \<Rightarrow> 'a screen_scheme" where
  "console_init console_lock s = lock_init console_lock s"

definition console_acquire :: "addr \<Rightarrow> 'a screen_scheme \<Rightarrow> 'a screen_scheme res" where
  "console_acquire console_lock s = acquire_now console_lock s"

definition console_release :: "addr \<Rightarrow> 'a screen_scheme \<Rightarrow> 'a screen_scheme res" where
  "console_release console_lock s = release_now console_lock s"

definition console_put_str :: "addr \<Rightarrow> u8 list \<Rightarrow> 'a screen_scheme \<Rightarrow> 'a screen_scheme res" where
  "console_put_str console_lock str s =
     bindr (console_acquire console_lock s) (\<lambda>s. bindr (put_str str s) (console_release console_lock))"

definition console_put_char :: "addr \<Rightarrow> u8 \<Rightarrow> 'a screen_scheme \<Rightarrow> 'a screen_scheme res" where
  "console_put_char console_lock c s =
     bindr (console_acquire console_lock s) (\<lambda>s. bindr (put_char c s) (console_release console_lock))"

definition console_put_int :: "addr \<Rightarrow> u32 \<Rightarrow> 'a screen_scheme \<Rightarrow> 'a screen_scheme res" where
  "console_put_int console_lock num s =
     bindr (console_acquire console_lock s) (\<lambda>s. bindr (put_int num s) (console_release console_lock))"

text \<open>The system call of \<^verbatim>\<open>fs/fs.c\<close> that shows one character.\<close>

definition sys_putchar :: "addr \<Rightarrow> u8 \<Rightarrow> 'a screen_scheme \<Rightarrow> 'a screen_scheme res" where
  "sys_putchar console_lock char_asci s = console_put_char console_lock char_asci s"

section \<open>The screen as text\<close>

text \<open>The reference: the text is the characters of the 2000 cells, and typing is an operation on the list.\<close>

definition text_of :: "'a screen_scheme \<Rightarrow> u8 list" where
  "text_of s = map (\<lambda>k. video s (of_nat (2 * k))) [0..<2000]"

definition next_row :: "u8 list \<times> nat \<Rightarrow> u8 list \<times> nat" where
  "next_row tp = (let (t, pos) = tp; p = pos - pos mod 80 + 80
     in if p < 2000 then (t, p) else (drop 80 t @ replicate 80 0x20, 1920))"

definition type_char :: "u8 \<Rightarrow> u8 list \<times> nat \<Rightarrow> u8 list \<times> nat" where
  "type_char c tp = (let (t, pos) = tp
     in if c = 0x0d \<or> c = 0x0a then next_row (t, pos)
        else if c = 0x08 then (t[pos - 1 := 0x20], pos - 1)
        else if pos + 1 < 2000 then (t[pos := c], pos + 1) else next_row (t[pos := c], pos + 1))"

lemma unat_u16: "n < 65536 \<Longrightarrow> unat (of_nat n :: u16) = n"
  by (simp add: unat_of_nat)

lemma sint_u16: "unat (x :: u16) < 32768 \<Longrightarrow> sint x = int (unat x)"
proof -
  assume a: "unat x < 32768"
  have u: "uint x = int (unat x)" by simp
  then have "- 32768 \<le> uint x" "uint x < 32768" using a by linarith+
  then have "signed_take_bit 15 (uint x) = uint x" by (intro signed_take_bit_int_eq_self) simp_all
  moreover have "sint x = signed_take_bit 15 (uint x)" by (simp add: sint_uint)
  ultimately show ?thesis by (simp only: u)
qed

lemma unat_pos: "n < 2000 \<Longrightarrow> unat (of_nat n :: u16) = n"
  by (simp add: unat_u16)

lemma shift_pos: "n < 2000 \<Longrightarrow> unat (push_bit 1 (of_nat n :: u16)) = 2 * n"
  by (simp add: push_bit_eq_mult unat_word_ariths unat_u16)

lemma video_pos: "n < 2000 \<Longrightarrow> push_bit 1 (of_nat n :: u16) = of_nat (2 * n)"
  by (simp add: push_bit_eq_mult)

lemma shift_back: "n < 2000 \<Longrightarrow> drop_bit 1 (push_bit 1 (of_nat n :: u16) + 1) = of_nat n"
proof -
  assume n: "n < 2000"
  have U: "unat (push_bit 1 (of_nat n :: u16) + 1) = 2 * n + 1"
    unfolding video_pos [OF n] using n by (simp add: unat_word_ariths unat_u16)
  have "unat (drop_bit 1 (push_bit 1 (of_nat n :: u16) + 1)) = n"
    by (simp only: unat_drop_bit_eq U) (simp add: drop_bit_eq_div)
  then show ?thesis using n unat_pos [OF n] by (simp only: word_unat_eq_iff)
qed

lemma put_cell_ok:
  assumes "n < 2000"
  shows "\<exists>s'. put_cell (of_nat n) c s = Inr s' \<and> cursor s' = cursor s \<and> text_of s' = (text_of s)[n := c] \<and>
    s' = s\<lparr>video := video s'\<rparr>"
proof -
  let ?o = "of_nat (2 * n) :: u16"
  have u: "unat ?o = 2 * n" by (rule unat_u16) (use assms in simp)
  then have u: "unat ?o = 2 * n" "unat (?o + 1) = 2 * n + 1" using assms by (simp_all add: unat_word_ariths del: of_nat_mult)
  then have lt: "?o < 0x8000" "?o + 1 < 0x8000" using assms by (simp_all add: word_less_nat_alt del: of_nat_mult)
  let ?s = "s\<lparr>video := (video s)(?o := c, ?o + 1 := 0x07)\<rparr>"
  have "put_cell (of_nat n) c s = Inr ?s"
    unfolding put_cell_def video_pos [OF assms] by (simp only: write_video_def lt if_True bindr_Inr) simp
  moreover have "text_of ?s = (text_of s)[n := c]"
  proof (rule nth_equalityI)
    fix k assume "k < length (text_of ?s)"
    then have k: "k < 2000" by (simp add: text_of_def)
    have "unat (of_nat (2 * k) :: u16) = 2 * k" by (rule unat_u16) (use k in simp)
    then have "(of_nat (2 * k) :: u16) = ?o \<longleftrightarrow> k = n" "(of_nat (2 * k) :: u16) \<noteq> ?o + 1"
      using u by (auto simp: word_unat_eq_iff simp del: of_nat_mult) presburger+
    then show "text_of ?s ! k = (text_of s)[n := c] ! k" using k by (simp add: text_of_def nth_list_update del: of_nat_mult)
  qed (simp add: text_of_def)
  ultimately show ?thesis by (intro exI [of _ ?s]) simp
qed

lemma text_of_cursor [simp]: "text_of (set_cursor b s) = text_of s"
  by (simp add: text_of_def set_cursor_def)

lemma roll_screen_text: "text_of (roll_screen s) = drop 80 (text_of s) @ replicate 80 0x20"
proof (rule nth_equalityI)
  fix k assume "k < length (text_of (roll_screen s))"
  then have k: "k < 2000" by (simp add: text_of_def)
  then have u: "unat (of_nat (2 * k) :: u16) = 2 * k" by (intro unat_u16) simp
  have lt: "(of_nat (2 * k) :: u16) < 3840 \<longleftrightarrow> k < 1920" "(of_nat (2 * k) :: u16) < 4000"
    using k u by (simp_all add: word_less_nat_alt del: of_nat_mult)
  have ev: "(of_nat (2 * k) :: u16) mod 2 = 0"
    using u by (simp add: word_unat_eq_iff unat_mod del: of_nat_mult)
  have "of_nat (2 * k) + 160 = (of_nat (2 * (k + 80)) :: u16)" by simp
  then show "text_of (roll_screen s) ! k = (drop 80 (text_of s) @ replicate 80 0x20) ! k"
    using k lt ev by (simp add: text_of_def roll_screen_def nth_append add.commute del: of_nat_mult)
qed (simp add: text_of_def)

definition screen_rel :: "'a screen_scheme \<Rightarrow> u8 list \<times> nat \<Rightarrow> bool" where
  "screen_rel s tp \<longleftrightarrow> fst tp = text_of s \<and> cursor s = of_nat (snd tp) \<and> snd tp < 2000"

lemma new_line_next_row:
  assumes "p \<le> 2000"
  shows "screen_rel (new_line (of_nat p) s) (next_row (text_of s, p)) \<and>
    new_line (of_nat p) s = s\<lparr>video := video (new_line (of_nat p) s), cursor := cursor (new_line (of_nat p) s)\<rparr>"
proof -
  define q where "q = p - p mod 80 + 80"
  have q: "q \<le> 2080" "p mod 80 \<le> p" using assms by (auto simp: q_def)
  have m: "of_nat p mod 80 = (of_nat (p mod 80) :: u16)"
    using assms by (simp add: word_unat_eq_iff unat_mod unat_u16)
  have b: "(of_nat p :: u16) - of_nat p mod 80 + 80 = of_nat q"
    unfolding m q_def using q(2) by (simp add: of_nat_diff)
  have "unat (of_nat q :: u16) = q" by (rule unat_u16) (use q in simp)
  then have c: "sint (of_nat q :: u16) < 2000 \<longleftrightarrow> q < 2000" using q sint_u16 [of "of_nat q"] by simp
  show ?thesis
  proof (cases "q < 2000")
    case True
    have "new_line (of_nat p) s = set_cursor (of_nat q) s" using b c True unfolding new_line_def Let_def by (simp only: if_True)
    moreover have "next_row (text_of s, p) = (text_of s, q)"
      using True unfolding next_row_def Let_def q_def by (simp only: prod.case if_True)
    ultimately show ?thesis using True by (simp add: screen_rel_def) (simp add: set_cursor_def)
  next
    case False
    have "new_line (of_nat p) s = roll_screen s" using b c False unfolding new_line_def Let_def by (simp only: if_False)
    moreover have "next_row (text_of s, p) = (drop 80 (text_of s) @ replicate 80 0x20, 1920)"
      using False unfolding next_row_def Let_def q_def by (simp only: prod.case if_False)
    ultimately show ?thesis using roll_screen_text [of s]
      by (simp add: screen_rel_def) (simp add: roll_screen_def)
  qed
qed

lemma put_char_type_char:
  assumes "screen_rel s tp" and "c = 8 \<Longrightarrow> 0 < snd tp"
  shows "\<exists>s'. put_char c s = Inr s' \<and> screen_rel s' (type_char c tp) \<and> s' = s\<lparr>video := video s', cursor := cursor s'\<rparr>"
proof -
  obtain t p where tp: "tp = (t, p)" by (cases tp)
  have t: "t = text_of s" and p: "p < 2000" and cu: "cursor s = of_nat p"
    using assms(1) by (simp_all add: screen_rel_def tp)
  consider "c = 0x0d \<or> c = 0x0a" | "c = 8" | "c \<noteq> 0x0d" "c \<noteq> 0x0a" "c \<noteq> 8" by blast
  then show ?thesis
  proof cases
    case 1
    then show ?thesis
      using new_line_next_row [of p s] p by (intro exI [of _ "new_line (of_nat p) s"]) (simp add: put_char_def cu type_char_def tp t)
  next
    case 2
    then have p0: "0 < p" using assms(2) tp by simp
    then have b: "(of_nat p :: u16) - 1 = of_nat (p - 1)" by (simp add: of_nat_diff)
    have lt: "p - 1 < 2000" using p by simp
    from put_cell_ok [OF lt, where c = "0x20" and s = s] obtain s1 where s1: "put_cell (of_nat (p - 1)) 0x20 s = Inr s1"
      "text_of s1 = (text_of s)[p - 1 := 0x20]" "s1 = s\<lparr>video := video s1\<rparr>" by blast
    define s2 where "s2 = set_cursor (of_nat (p - 1)) s1"
    have "put_char c s = Inr s2"
      unfolding put_char_def Let_def cu b 2 s1(1) bindr_Inr shift_back [OF lt] s2_def by simp
    moreover have "screen_rel s2 (type_char c tp)"
      using 2 lt s1(2) by (simp add: s2_def screen_rel_def type_char_def tp t set_cursor_def text_of_def)
    moreover have "s2 = s\<lparr>video := video s2, cursor := cursor s2\<rparr>"
      using s1(3) by (cases s, cases s1) (simp add: s2_def set_cursor_def)
    ultimately show ?thesis by blast
  next
    case 3
    from put_cell_ok [OF p, where c = c and s = s] obtain s1 where s1: "put_cell (of_nat p) c s = Inr s1"
      "text_of s1 = (text_of s)[p := c]" "s1 = s\<lparr>video := video s1\<rparr>" by blast
    have "unat (of_nat (p + 1) :: u16) = p + 1" by (rule unat_u16) (use p in simp)
    then have c': "sint (of_nat (p + 1) :: u16) < 2000 \<longleftrightarrow> p + 1 < 2000"
      using sint_u16 [of "of_nat (p + 1)"] p by simp
    have n1: "(of_nat p :: u16) + 1 = of_nat (p + 1)" by simp
    define s2 where "s2 = (if p + 1 < 2000 then set_cursor (of_nat (p + 1)) s1 else new_line (of_nat (p + 1)) s1)"
    have "put_char c s = Inr s2"
      using 3 c' unfolding put_char_def Let_def cu s1(1) bindr_Inr shift_back [OF p] n1 s2_def
      by (simp del: of_nat_Suc of_nat_add)
    moreover have "screen_rel s2 (type_char c tp) \<and> s2 = s\<lparr>video := video s2, cursor := cursor s2\<rparr>"
    proof (cases "p + 1 < 2000")
      case True
      then show ?thesis using 3 s1 unfolding s2_def
        by (simp add: screen_rel_def type_char_def tp t) (cases s, cases s1, simp add: set_cursor_def)
    next
      case False
      have n: "screen_rel (new_line (of_nat (p + 1)) s1) (next_row (text_of s1, p + 1))"
        "new_line (of_nat (p + 1)) s1 = s1\<lparr>video := video (new_line (of_nat (p + 1)) s1),
           cursor := cursor (new_line (of_nat (p + 1)) s1)\<rparr>"
        using new_line_next_row [of "p + 1" s1] p by (auto simp del: of_nat_Suc of_nat_add)
      from n(2) have "s2 = s1\<lparr>video := video s2, cursor := cursor s2\<rparr>" unfolding s2_def if_not_P [OF False] .
      then have "s2 = s\<lparr>video := video s2, cursor := cursor s2\<rparr>" using s1(3) by (cases s, cases s1, cases s2) simp
      moreover have "type_char c tp = next_row (text_of s1, p + 1)" using 3 False by (simp add: type_char_def tp t s1(2))
      ultimately show ?thesis using n(1) False by (simp add: s2_def)
    qed
    ultimately show ?thesis by blast
  qed
qed

definition shown :: "'a screen_scheme \<Rightarrow> 'a screen_scheme \<Rightarrow> bool" where
  "shown s s' \<longleftrightarrow> s' = s\<lparr>video := video s', cursor := cursor s'\<rparr>"

lemma shown_refl [simp]: "shown s s"
  by (simp add: shown_def)

lemma shown_trans: "shown s t \<Longrightarrow> shown t u \<Longrightarrow> shown s u"
  unfolding shown_def by (cases s, cases t, cases u) simp

lemma put_char_shown:
  assumes "screen_rel s tp" and "c = 8 \<Longrightarrow> 0 < snd tp"
  obtains s' where "put_char c s = Inr s'" and "screen_rel s' (type_char c tp)" and "shown s s'"
  using put_char_type_char [OF assms] by (auto simp: shown_def)

lemma put_str_typed:
  "screen_rel s tp \<Longrightarrow> 8 \<notin> set cs \<Longrightarrow>
    \<exists>s'. put_str cs s = Inr s' \<and> screen_rel s' (fold type_char cs tp) \<and> shown s s'"
proof (induction cs arbitrary: s tp)
  case Nil
  then show ?case by simp
next
  case (Cons c cs)
  have "c \<noteq> 8" using Cons.prems(2) by auto
  then obtain s1 where s1: "put_char c s = Inr s1" "screen_rel s1 (type_char c tp)" "shown s s1"
    by (elim put_char_shown [OF Cons.prems(1), rotated]) simp
  from Cons.IH [OF s1(2)] Cons.prems(2) obtain s2 where
    "put_str cs s1 = Inr s2" "screen_rel s2 (fold type_char cs (type_char c tp))" "shown s1 s2" by auto
  then show ?case using s1 by (auto intro: shown_trans)
qed

lemma screen_rel_lock [simp]: "screen_rel (set_lock l t v n s) tp = screen_rel s tp"
  by (simp add: screen_rel_def text_of_def set_lock_def)

lemma shown_keeps:
  assumes "shown (s :: 'a screen_scheme) s'"
  shows "has_lock l s' = has_lock l s" and "may_lock l s' = may_lock l s"
    and "shown (set_lock l h v n s) (set_lock l h v n s')"
proof -
  have e: "s' = s\<lparr>video := video s', cursor := cursor s'\<rparr>" using assms by (simp add: shown_def)
  have "holder s' = holder s" "sem_value s' = sem_value s" "holder_repeat_nr s' = holder_repeat_nr s"
    "nxt s' = nxt s" "esp s' = esp s" by (subst e, simp)+
  then show "has_lock l s' = has_lock l s" "may_lock l s' = may_lock l s"
    by (simp_all add: has_lock_def lock_mine_def may_lock_def lock_free_def running_thread_def list_empty_def)
  show "shown (set_lock l h v n s) (set_lock l h v n s')" unfolding shown_def
    by (subst e) (simp add: set_lock_def)
qed

text \<open>A lock around an operation that changes the screen alone.\<close>

lemma console_bracket:
  assumes "lock_free l s" and "running_thread s \<noteq> NULL"
    and "\<And>s. screen_rel s tp \<Longrightarrow> \<exists>s'. out s = Inr s' \<and> screen_rel s' tp' \<and> shown s s'" and "screen_rel s tp"
  shows "\<exists>s'. bindr (console_acquire l s) (\<lambda>s. bindr (out s) (console_release l)) = Inr s' \<and>
    screen_rel s' tp' \<and> shown s s'"
proof -
  have free: "may_lock l s" using assms(1,2) by (simp add: may_lock_def)
  have body: "\<exists>u. out t = Inr u \<and> has_lock l u \<and> screen_rel u tp' \<and> shown t u"
    if "has_lock l t" "lock_differs l s t" for t
    using assms(3) [of t] assms(4) that shown_keeps(1) by (fastforce simp: lock_differs_def)
  obtain t u v where r: "lk.section_of l out s = Inr v" "lock_differs l s t" "screen_rel u tp'" "shown t u"
    "lock_differs l u v" "may_lock l v"
    using lk.bracket [OF free, of out "\<lambda>t u. screen_rel u tp' \<and> shown t u"] body by blast
  obtain h n m where v: "v = set_lock l h n m u" using r(5) by (auto simp: lock_differs_def)
  define w where "w = set_lock l h n m t"
  have "shown w v" unfolding v w_def by (rule shown_keeps(3) [OF r(4)])
  then have "may_lock l w" using r(6) shown_keeps(2) by blast
  moreover have "lock_differs l s w" using r(2) unfolding w_def lock_differs_def by (metis set_lock_twice)
  ultimately have "w = s" using lk.near_free free by blast
  with \<open>shown w v\<close> have "shown s v" by simp
  moreover have "screen_rel v tp'" using r(3) v by simp
  ultimately show ?thesis
    using r(1) unfolding lk.section_of_def console_acquire_def console_release_def by blast
qed

section \<open>Properties\<close>

definition boot_task :: task_struct where
  "boot_task = \<lparr>self_kstack = 0, status = TASK_RUNNING, pid = 1, priority = 10, tname = [], ticks = 10,
     elapsed_ticks = 0, pgdir = NULL, stack_magic = 0x19870916,
     userprog_vaddr = \<lparr>vaddr_bitmap = \<lparr>btmp_bytes_len = 0, bits = 0\<rparr>, vaddr_start = 0\<rparr>,
     fd_table = [0, 1, 2], cwd_inode_nr = 0, parent_pid = -1\<rparr>"

definition fresh_screen :: screen where
  "fresh_screen = (list_init (waiters (semaphore_of 0x500))
     \<lparr>eflags = 0, prev = (\<lambda>_. 0), nxt = (\<lambda>_. 0), phys = (\<lambda>_. 0), cr3 = 0, bytes = (\<lambda>_. 0),
      task = (\<lambda>_. boot_task), kont = (\<lambda>_. []),
      esp = 0xc009efff, thread_ready_list = 0, thread_all_list = 0, idle_thread = 0, thread_tag = 0, tss_esp0 = 0,
      total_ticks = 0, sem_value = (\<lambda>_. 1), holder = (\<lambda>_. NULL), holder_repeat_nr = (\<lambda>_. 0),
      video = (\<lambda>_. 0x20), cursor = 0\<rparr>)"

text \<open>\<open>console_put_str\<close> types the characters of the string one after the other on the text of the screen,
  at the cursor, with line feeds and scrolling, for a string without backspaces; it changes nothing else, and
  in particular gives the lock back.\<close>

theorem console_put_str_types:
  assumes "lock_free console_lock s" and "running_thread s \<noteq> NULL" and "screen_rel s tp" and "8 \<notin> set str"
  shows "\<exists>s'. console_put_str console_lock str s = Inr s' \<and> screen_rel s' (fold type_char str tp) \<and>
    s' = s\<lparr>video := video s', cursor := cursor s'\<rparr>"
  unfolding console_put_str_def shown_def [symmetric]
  by (rule console_bracket [OF assms(1,2) put_str_typed [OF _ assms(4)] assms(3)])

theorem console_put_str_types_witness:
  "\<exists>s'. console_put_str 0x500 [72, 105, 10] fresh_screen = Inr s' \<and>
    screen_rel s' ((text_of fresh_screen)[0 := 72, 1 := 105], 80)"
proof -
  have "lock_free 0x500 fresh_screen"
    unfolding lock_free_def fresh_screen_def by (simp add: list_init_def list_empty_def set_nxt_def set_prev_def Let_def)
  moreover have "running_thread fresh_screen \<noteq> NULL"
    by (simp add: running_thread_def fresh_screen_def list_init_def set_nxt_def set_prev_def Let_def)
  moreover have "screen_rel fresh_screen (text_of fresh_screen, 0)"
    by (simp add: screen_rel_def fresh_screen_def list_init_def set_nxt_def set_prev_def Let_def)
  ultimately obtain s' where "console_put_str 0x500 [72, 105, 10] fresh_screen = Inr s'"
    and "screen_rel s' (fold type_char [72, 105, 10] (text_of fresh_screen, 0))"
    using console_put_str_types [where str = "[72, 105, 10]"] by fastforce
  then show ?thesis by (simp add: type_char_def next_row_def)
qed

text \<open>A backspace at the top left corner writes behind the video segment.\<close>

lemma put_char_home: "cursor s = 0 \<Longrightarrow> put_char 8 s = Inl OutOfBounds"
  by (simp add: put_char_def put_cell_def write_video_def push_bit_eq_mult)

end
