(* ===== verification/Printk.thy ===== *)
theory Printk
  imports Screen Stdio
begin

text \<open>
  The output of the kernel: \<open>printk\<close> of \<^verbatim>\<open>lib/kernel/stdio-kernel.c\<close>, which formats into a buffer on the stack and
  gives it to the console, the report of a failed assertion in \<^verbatim>\<open>kernel/debug.c\<close> and, for the programs,
  \<^verbatim>\<open>lib/user/assert.c\<close>. The strings are in memory, the words that follow the format on the stack are the
  function \<open>args\<close>.
\<close>

section \<open>The code\<close>

text \<open>The string at an address, as the output routines walk over it.\<close>

definition string_at :: "mem \<Rightarrow> addr \<Rightarrow> u8 list res" where
  "string_at m p = bindr (returns (strlen_loop m p 0)) (\<lambda>n. Inr (map (\<lambda>i. m (p + of_nat i)) [0..<unat n]))"

text \<open>\<open>buf\<close> is the address of the array of 1024 bytes on the stack.\<close>

definition printk :: "addr \<Rightarrow> addr \<Rightarrow> addr \<Rightarrow> (nat \<Rightarrow> u32) \<Rightarrow> 'a screen_scheme \<Rightarrow> 'a screen_scheme res" where
  "printk console_lock buf format args s =
     (let m = memset_loop (bytes s) buf 0 1024
      in bindr (vsprintf m buf format args) (\<lambda>(_, m).
         bindr (string_at m buf) (\<lambda>str. console_put_str console_lock str (s\<lparr>bytes := m\<rparr>))))"

text \<open>\<open>partition_info\<close> of \<^verbatim>\<open>device/ide.c\<close>, for a partition with its name at \<open>name\<close>: what \<open>ide_init\<close> prints of each
  partition; the answer goes on with the next one.\<close>

definition partition_info :: "addr \<Rightarrow> addr \<Rightarrow> addr \<Rightarrow> addr \<Rightarrow> u32 \<Rightarrow> u32 \<Rightarrow> 'a screen_scheme \<Rightarrow> (bool \<times> 'a screen_scheme) res" where
  "partition_info console_lock buf format name start_lba sec_cnt s =
     bindr (printk console_lock buf format (\<lambda>i. if i = 0 then name else if i = 1 then start_lba else sec_cnt) s) (\<lambda>s. Inr (False, s))"

text \<open>
  \<open>panic_spin\<close> up to the loop in which it stays: the state in which the machine stops. It does not take the
  lock of the console.
\<close>

definition panic_line :: "u8 list \<Rightarrow> addr \<Rightarrow> 'a screen_scheme \<Rightarrow> 'a screen_scheme res" where
  "panic_line label p s =
     bindr (put_str label s) (\<lambda>s.
     bindr (string_at (bytes s) p) (\<lambda>str.
     bindr (put_str str s) (put_str [10])))"

definition panic_spin :: "addr \<Rightarrow> u32 \<Rightarrow> addr \<Rightarrow> addr \<Rightarrow> 'a screen_scheme \<Rightarrow> 'a screen_scheme res" where
  "panic_spin filename line func condition s =
     (let s = snd (intr_disable s)
      in bindr (put_str ([10, 10, 10] @ text_bytes '' !!!!!!-----------------------error---------------------------!!!!!'' @ [10]) s) (\<lambda>s.
         bindr (panic_line (text_bytes ''filename:'') filename s) (\<lambda>s.
         bindr (put_str (text_bytes ''line:0x'') s) (\<lambda>s.
         bindr (put_int line s) (\<lambda>s.
         bindr (put_str [10] s) (\<lambda>s.
         bindr (panic_line (text_bytes ''function:'') func s) (panic_line (text_bytes ''condition:'') condition)))))))"

text \<open>\<open>user_spin\<close> up to its loop: the bytes that \<open>printf\<close> hands to \<open>write\<close>; \<open>format\<close> is the address of its literal.\<close>

definition user_spin :: "addr \<Rightarrow> addr \<Rightarrow> addr \<Rightarrow> u32 \<Rightarrow> addr \<Rightarrow> addr \<Rightarrow> mem \<Rightarrow> (addr \<times> u32 \<times> mem) res" where
  "user_spin buf format filename line func condition m =
     printf m buf format (\<lambda>i. if i = 0 then filename else if i = 1 then line else if i = 2 then func else condition)"

section \<open>The output\<close>

lemma string_at_cstr:
  assumes "cstr m p xs" and "length xs < 4294967296"
  shows "string_at m p = Inr xs"
proof -
  have "m (p + of_nat i) = xs ! i" if "i < length xs" for i
    using assms(1) that
  proof (induction xs arbitrary: p i)
    case (Cons x xs)
    then show ?case by (cases i) (auto simp: add.assoc [symmetric])
  qed simp
  then have "map (\<lambda>i. m (p + of_nat i)) [0..<length xs] = xs" by (intro nth_equalityI) simp_all
  then show ?thesis using strlen_loop_cstr [OF assms(1), of 0] assms(2) by (simp add: string_at_def)
qed

lemma source_ok_cleared:
  assumes "source_ok m p xs buf n" and "n \<le> 4294967296"
  shows "source_ok (memset_loop m buf 0 n) p xs buf n"
proof -
  have "cstr (memset_loop m buf 0 n) p xs = cstr m p xs"
  proof (rule cstr_cong)
    fix i assume "i \<le> length xs"
    then have "within (p + of_nat i) p (Suc (length xs))"
      using assms(1) by (intro within_of_nat [THEN iffD2]) (auto simp: source_ok_def)
    then have "\<not> within (p + of_nat i) buf n" using assms(1) by (auto simp: source_ok_def)
    then show "memset_loop m buf 0 n (p + of_nat i) = m (p + of_nat i)" using assms(2) by (simp add: memset_loop_apply)
  qed
  with assms(1) show ?thesis by (simp add: source_ok_def)
qed

lemma bytes_keep [simp]:
  "lock_free l (s\<lparr>bytes := m\<rparr>) = lock_free l s" "running_thread (s\<lparr>bytes := m\<rparr>) = running_thread s"
  "screen_rel (t\<lparr>bytes := m\<rparr>) tp = screen_rel t tp"
  by (simp_all add: lock_free_def list_empty_def running_thread_def screen_rel_def text_of_def)

lemma shown_bytes:
  assumes "shown s t"
  shows "bytes t = bytes s"
proof -
  have e: "t = s\<lparr>video := video t, cursor := cursor t\<rparr>" using assms by (simp add: shown_def)
  show ?thesis by (subst e) simp
qed

lemma printk_ok:
  assumes free: "lock_free l s" "running_thread s \<noteq> NULL" and rel: "screen_rel s tp"
    and src: "source_ok (bytes s) fmt f buf 1024" "\<forall>p\<in>set (str_args args f 0). p \<noteq> NULL \<and> source_ok (bytes s) p (strs p) buf 1024"
    and buf: "unat buf + 1024 \<le> 4294967296" "buf \<noteq> NULL"
    and out: "length (render strs args f 0) < 1024" "0 \<notin> set (render strs args f 0)" "8 \<notin> set (render strs args f 0)"
  shows "\<exists>s'. printk l buf fmt args s = Inr s' \<and> screen_rel s' (fold type_char (render strs args f 0) tp) \<and>
    (\<forall>a. \<not> within a buf 1024 \<longrightarrow> bytes s' a = bytes s a) \<and>
    s' = s\<lparr>bytes := bytes s', video := video s', cursor := cursor s'\<rparr>"
proof -
  let ?out = "render strs args f 0" and ?m = "memset_loop (bytes s) buf 0 1024"
  have "within (buf + of_nat (length ?out)) buf 1024" using out(1) by (simp add: within_of_nat)
  then have z: "?m (buf + of_nat (length ?out)) = 0" by (simp add: memset_loop_apply)
  have "source_ok ?m fmt f buf 1024" "\<forall>p\<in>set (str_args args f 0). p \<noteq> NULL \<and> source_ok ?m p (strs p) buf 1024"
    using src by (simp_all add: source_ok_cleared)
  then obtain m' where m': "vsprintf ?m buf fmt args = Inr (of_nat (length ?out), m')" "cstr m' buf ?out"
    "\<forall>a. \<not> within a buf (Suc (length ?out)) \<longrightarrow> m' a = ?m a"
    using vsprintf_ok [of ?m fmt f buf 1024 strs args] out(1,2) buf z by auto
  have str: "string_at m' buf = Inr ?out" using string_at_cstr [OF m'(2)] out(1) by simp
  have "\<exists>s'. console_put_str l ?out (s\<lparr>bytes := m'\<rparr>) = Inr s' \<and> screen_rel s' (fold type_char ?out tp) \<and> shown (s\<lparr>bytes := m'\<rparr>) s'"
    unfolding console_put_str_def
    by (rule console_bracket [OF _ _ put_str_typed [OF _ out(3)]]) (use free rel in simp_all)
  then obtain s' where s': "console_put_str l ?out (s\<lparr>bytes := m'\<rparr>) = Inr s'" "screen_rel s' (fold type_char ?out tp)"
    "shown (s\<lparr>bytes := m'\<rparr>) s'" by blast
  then have e: "s' = s\<lparr>bytes := m', video := video s', cursor := cursor s'\<rparr>" by (simp add: shown_def)
  have b: "bytes s' = m'" using shown_bytes [OF s'(3)] by simp
  have "m' a = bytes s a" if "\<not> within a buf 1024" for a
  proof -
    have "\<not> within a buf (Suc (length ?out))" using that out(1) within_mono [of a buf "Suc (length ?out)" 1024] by auto
    then show ?thesis using m'(3) that by (simp add: memset_loop_apply)
  qed
  moreover have "printk l buf fmt args s = Inr s'"
    by (simp add: printk_def Let_def m'(1) str s'(1))
  ultimately show ?thesis using s'(2) e b by auto
qed

section \<open>The report of a failed assertion\<close>

definition int_text :: "u32 \<Rightarrow> u8 list" where
  "int_text n = (let ds = dropWhile (\<lambda>c. c = 48) (put_int_buffer n) in if ds = [] then [48] else ds)"

definition panic_text :: "u8 list \<Rightarrow> u32 \<Rightarrow> u8 list \<Rightarrow> u8 list \<Rightarrow> u8 list" where
  "panic_text filename line func condition =
     ([10, 10, 10] @ text_bytes '' !!!!!!-----------------------error---------------------------!!!!!'' @ [10]) @
     text_bytes ''filename:'' @ filename @ [10] @ text_bytes ''line:0x'' @ int_text line @ [10] @
     text_bytes ''function:'' @ func @ [10] @ text_bytes ''condition:'' @ condition @ [10]"

lemma panic_spin_steps:
  assumes "string_at (bytes s) filename = Inr fs" and "string_at (bytes s) func = Inr gs" and "string_at (bytes s) condition = Inr cs"
    and rel: "screen_rel s tp" and no8: "8 \<notin> set (panic_text fs line gs cs)"
  shows "\<exists>s'. panic_spin filename line func condition s = Inr s' \<and> screen_rel s' (fold type_char (panic_text fs line gs cs) tp) \<and>
    shown (snd (intr_disable s)) s'"
proof -
  let ?d = "snd (intr_disable s)"
  have same: "bytes ?d = bytes s" "screen_rel ?d tp = screen_rel s tp"
    by (simp_all add: intr_disable_def screen_rel_def text_of_def)
  let ?P = "\<lambda>tx t. screen_rel t (fold type_char tx tp) \<and> shown ?d t"
  have go: "\<exists>u. put_str xs t = Inr u \<and> ?P (tx @ xs) u" if "?P tx t" "8 \<notin> set xs" for tx xs t
    using put_str_typed [of t "fold type_char tx tp" xs] that shown_trans by fastforce
  have ln: "\<exists>u. panic_line lab p t = Inr u \<and> ?P (tx @ lab @ str @ [10]) u"
    if hp: "?P tx t" "string_at (bytes s) p = Inr str" "8 \<notin> set lab" "8 \<notin> set str" for tx lab p t str
  proof -
    obtain u where u: "put_str lab t = Inr u" "?P (tx @ lab) u" using go [OF hp(1,3)] by blast
    have "string_at (bytes u) p = Inr str" using u(2) shown_bytes same(1) hp(2) by metis
    moreover obtain v where v: "put_str str u = Inr v" "?P ((tx @ lab) @ str) v" using go [OF u(2) hp(4)] by blast
    moreover obtain w where "put_str [10] v = Inr w" "?P (((tx @ lab) @ str) @ [10]) w" using go [OF v(2), of "[10]"] by auto
    ultimately show ?thesis using u(1) by (simp add: panic_line_def)
  qed
  define B where "B = [10, 10, 10] @ text_bytes '' !!!!!!-----------------------error---------------------------!!!!!'' @ [10]"
  define F G C L where "F = text_bytes ''filename:''" and "G = text_bytes ''function:''" and "C = text_bytes ''condition:''"
    and "L = text_bytes ''line:0x''"
  have tx: "panic_text fs line gs cs = B @ F @ fs @ [10] @ L @ int_text line @ [10] @ G @ gs @ [10] @ C @ cs @ [10]"
    by (simp add: panic_text_def B_def F_def G_def C_def L_def)
  note n8 = no8 [unfolded tx set_append Un_iff de_Morgan_disj]
  have s0: "?P [] ?d" using rel same(2) by simp
  obtain s1 where s1: "put_str B ?d = Inr s1" "?P ([] @ B) s1" using go [OF s0, of B] n8 by blast
  obtain s2 where s2: "panic_line F filename s1 = Inr s2" "?P (([] @ B) @ F @ fs @ [10]) s2" using ln [OF s1(2) assms(1), of F] n8 by blast
  obtain s3 where s3: "put_str L s2 = Inr s3" "?P ((([] @ B) @ F @ fs @ [10]) @ L) s3" using go [OF s2(2), of L] n8 by blast
  obtain s4 where s4: "put_int line s3 = Inr s4" "?P (((([] @ B) @ F @ fs @ [10]) @ L) @ int_text line) s4"
    using go [OF s3(2), of "int_text line"] n8 by (auto simp: put_int_def int_text_def Let_def)
  obtain s5 where s5: "put_str [10] s4 = Inr s5" "?P ((((([] @ B) @ F @ fs @ [10]) @ L) @ int_text line) @ [10]) s5"
    using go [OF s4(2), of "[10]"] n8 by blast
  obtain s6 where s6: "panic_line G func s5 = Inr s6"
    "?P (((((([] @ B) @ F @ fs @ [10]) @ L) @ int_text line) @ [10]) @ G @ gs @ [10]) s6" using ln [OF s5(2) assms(2), of G] n8 by blast
  obtain s7 where s7: "panic_line C condition s6 = Inr s7"
    "?P ((((((([] @ B) @ F @ fs @ [10]) @ L) @ int_text line) @ [10]) @ G @ gs @ [10]) @ C @ cs @ [10]) s7"
    using ln [OF s6(2) assms(3), of C] n8 by blast
  have "panic_spin filename line func condition s = Inr s7"
    unfolding panic_spin_def Let_def B_def [symmetric] F_def [symmetric] G_def [symmetric] C_def [symmetric] L_def [symmetric]
    by (simp only: s1(1) s2(1) s3(1) s4(1) s5(1) s6(1) s7(1) bindr_Inr)
  then show ?thesis using s7(2) by (intro exI [of _ s7]) (simp only: tx append_assoc append_Nil simp_thms)
qed

section \<open>Properties\<close>

text \<open>C19 \<open>printk\<close> types the text that its format stands for on the screen, at the cursor: with a format and strings
  apart from its buffer, a text that fits in 1024 bytes with its terminator and has no backspace, and a console
  that is free. It changes nothing but its buffer and the screen.\<close>

theorem printk_types:
  assumes "lock_free l s" and "running_thread s \<noteq> NULL" and "screen_rel s tp"
    and "source_ok (bytes s) fmt f buf 1024" and "\<forall>p\<in>set (str_args args f 0). p \<noteq> NULL \<and> source_ok (bytes s) p (strs p) buf 1024"
    and "unat buf + 1024 \<le> 4294967296" and "buf \<noteq> NULL"
    and "length (render strs args f 0) < 1024" and "0 \<notin> set (render strs args f 0)" and "8 \<notin> set (render strs args f 0)"
  shows "\<exists>s'. printk l buf fmt args s = Inr s' \<and> screen_rel s' (fold type_char (render strs args f 0) tp) \<and>
    (\<forall>a. \<not> within a buf 1024 \<longrightarrow> bytes s' a = bytes s a) \<and>
    s' = s\<lparr>bytes := bytes s', video := video s', cursor := cursor s'\<rparr>"
  using assms by (rule printk_ok)

theorem printk_types_witness:
  "\<exists>s'. printk 0x500 4096 200 (\<lambda>i. if i = 0 then 300 else 1) (fresh_screen\<lparr>bytes := name_memory\<rparr>) = Inr s' \<and>
    screen_rel s' (fold type_char [0x73, 0x64, 0x62, 0x31] (text_of fresh_screen, 0))"
proof -
  let ?args = "\<lambda>i::nat. if i = 0 then 300 else (1 :: u32)" and ?strs = "\<lambda>_. [0x73, 0x64, 0x62] :: u8 list"
  let ?f = "[0x25, 0x73, 0x25, 0x64] :: u8 list" and ?s = "fresh_screen\<lparr>bytes := name_memory\<rparr>"
  have r: "render ?strs ?args ?f 0 = [0x73, 0x64, 0x62, 0x31]"
    by (simp add: directive_text_def numeral_of_def digits.simps digit_char_def)
  have a: "str_args ?args ?f 0 = [300]" by simp
  have s: "source_ok (bytes ?s) 200 ?f 4096 1024" "source_ok (bytes ?s) 300 [0x73, 0x64, 0x62] 4096 1024"
  proof -
    have "Suc (length ?f) = 5" "Suc (length ([0x73, 0x64, 0x62] :: u8 list)) = 4" by simp_all
    then show "source_ok (bytes ?s) 200 ?f 4096 1024" "source_ok (bytes ?s) 300 [0x73, 0x64, 0x62] 4096 1024"
      using apart [of 200 5 4096 1024] apart [of 300 4 4096 1024]
      unfolding source_ok_def by (simp_all only:) (auto simp: name_memory_def)
  qed
  have k: "lock_free 0x500 ?s" "running_thread ?s \<noteq> NULL" "screen_rel ?s (text_of fresh_screen, 0)"
    by (simp_all add: lock_free_def list_empty_def running_thread_def screen_rel_def text_of_def)
      (simp_all add: fresh_screen_def list_init_def list_empty_def set_nxt_def set_prev_def Let_def)
  have "\<exists>s'. printk 0x500 4096 200 ?args ?s = Inr s' \<and> screen_rel s' (fold type_char (render ?strs ?args ?f 0) (text_of fresh_screen, 0))"
    using printk_types [OF k, of 200 ?f 4096 ?args ?strs] s unfolding a r by auto
  then show ?thesis unfolding r .
qed

text \<open>A failed assertion ends with the report on the screen and the interrupts off.\<close>

lemma panic_spin_reports:
  assumes "cstr (bytes s) filename fs" and "cstr (bytes s) func gs" and "cstr (bytes s) condition cs"
    and "length fs < 4294967296" and "length gs < 4294967296" and "length cs < 4294967296"
    and "screen_rel s tp" and "8 \<notin> set (panic_text fs line gs cs)"
  shows "\<exists>s'. panic_spin filename line func condition s = Inr s' \<and> intr_get_status s' = INTR_OFF \<and>
    screen_rel s' (fold type_char (panic_text fs line gs cs) tp)"
proof -
  obtain s' where s': "panic_spin filename line func condition s = Inr s'" "screen_rel s' (fold type_char (panic_text fs line gs cs) tp)"
    "shown (snd (intr_disable s)) s'"
    using panic_spin_steps [OF string_at_cstr [OF assms(1,4)] string_at_cstr [OF assms(2,5)] string_at_cstr [OF assms(3,6)] assms(7,8)] by blast
  have e: "s' = snd (intr_disable s)\<lparr>video := video s', cursor := cursor s'\<rparr>" using s'(3) by (simp add: shown_def)
  have "eflags s' = eflags (snd (intr_disable s))" by (subst e) simp
  then have "intr_get_status s' = INTR_OFF" using intr_disable_off [of s] by (simp add: intr_get_status_def)
  with s' show ?thesis by blast
qed

end
