(* ===== verification/Ioqueue.thy ===== *)
theory Ioqueue
  imports Screen "HOL-Library.Signed_Division"
begin

unbundle bit_operations_syntax

text \<open>
  \<^verbatim>\<open>device/ioqueue.c\<close>: the ring buffer between the keyboard and the programs that read it. The kernel has
  one such queue, \<open>kbd_buf\<close>, which is the field of the state here; its lock is at the address \<open>io_lock\<close>.
  A call that finds the queue empty (or full) gives the processor away and answers \<open>None\<close>; when the
  thread runs again it goes on with \<open>ioq_getchar_woken\<close> (or \<open>ioq_putchar_woken\<close>), which gives the lock
  back and turns to the loop again.
\<close>

section \<open>The code\<close>

record ioqueue =
  io_lock :: addr
  producer :: addr
  consumer :: addr
  ioq_buf :: "u8 list"
  ioq_head :: u32
  ioq_tail :: u32

record io = screen +
  kbd_buf :: ioqueue

datatype side = Producer | Consumer

fun waiter_of :: "side \<Rightarrow> ioqueue \<Rightarrow> addr" where
  "waiter_of Producer q = producer q"
| "waiter_of Consumer q = consumer q"

fun set_waiter :: "side \<Rightarrow> addr \<Rightarrow> ioqueue \<Rightarrow> ioqueue" where
  "set_waiter Producer t q = q\<lparr>producer := t\<rparr>"
| "set_waiter Consumer t q = q\<lparr>consumer := t\<rparr>"

definition ioqueue_init :: "'a io_scheme \<Rightarrow> 'a io_scheme" where
  "ioqueue_init s =
     (let s = lock_init (io_lock (kbd_buf s)) s
      in s\<lparr>kbd_buf := (kbd_buf s)\<lparr>producer := NULL, consumer := NULL, ioq_head := 0, ioq_tail := 0\<rparr>\<rparr>)"

definition next_pos :: "u32 \<Rightarrow> u32" where
  "next_pos pos = word_of_int (sint (pos + 1) smod 64)"

definition ioq_full :: "'a io_scheme \<Rightarrow> bool res" where
  "ioq_full s = bindr (ASSERT (intr_get_status s = INTR_OFF)) (\<lambda>_.
     Inr (next_pos (ioq_head (kbd_buf s)) = ioq_tail (kbd_buf s)))"

definition ioq_empty :: "'a io_scheme \<Rightarrow> bool res" where
  "ioq_empty s = bindr (ASSERT (intr_get_status s = INTR_OFF)) (\<lambda>_.
     Inr (ioq_head (kbd_buf s) = ioq_tail (kbd_buf s)))"

definition ioq_wait :: "side \<Rightarrow> 'a io_scheme \<Rightarrow> 'a io_scheme res" where
  "ioq_wait w s = bindr (ASSERT (waiter_of w (kbd_buf s) = NULL)) (\<lambda>_.
     thread_block TASK_BLOCKED (s\<lparr>kbd_buf := set_waiter w (running_thread s) (kbd_buf s)\<rparr>))"

definition wakeup :: "side \<Rightarrow> 'a io_scheme \<Rightarrow> 'a io_scheme res" where
  "wakeup w s = bindr (ASSERT (waiter_of w (kbd_buf s) \<noteq> NULL)) (\<lambda>_.
     bindr (thread_unblock (waiter_of w (kbd_buf s)) s) (\<lambda>s.
     Inr (s\<lparr>kbd_buf := set_waiter w NULL (kbd_buf s)\<rparr>)))"

definition buf_at :: "u32 \<Rightarrow> 'a io_scheme \<Rightarrow> u8 res" where
  "buf_at i s = (if unat i < length (ioq_buf (kbd_buf s)) then Inr (ioq_buf (kbd_buf s) ! unat i) else Inl OutOfBounds)"

definition set_buf_at :: "u32 \<Rightarrow> u8 \<Rightarrow> 'a io_scheme \<Rightarrow> 'a io_scheme res" where
  "set_buf_at i b s =
     (if unat i < length (ioq_buf (kbd_buf s))
      then Inr (s\<lparr>kbd_buf := (kbd_buf s)\<lparr>ioq_buf := (ioq_buf (kbd_buf s))[unat i := b]\<rparr>\<rparr>) else Inl OutOfBounds)"

definition ioq_getchar :: "'a io_scheme \<Rightarrow> (u8 option \<times> 'a io_scheme) res" where
  "ioq_getchar s =
     bindr (ASSERT (intr_get_status s = INTR_OFF)) (\<lambda>_.
     bindr (ioq_empty s) (\<lambda>empty.
     if empty then
       bindr (acquire_now (io_lock (kbd_buf s)) s) (\<lambda>s. bindr (ioq_wait Consumer s) (\<lambda>s. Inr (None, s)))
     else
       bindr (buf_at (ioq_tail (kbd_buf s)) s) (\<lambda>byte.
       let s = s\<lparr>kbd_buf := (kbd_buf s)\<lparr>ioq_tail := next_pos (ioq_tail (kbd_buf s))\<rparr>\<rparr>
       in bindr (if producer (kbd_buf s) \<noteq> NULL then wakeup Producer s else Inr s) (\<lambda>s. Inr (Some byte, s)))))"

definition ioq_getchar_woken :: "'a io_scheme \<Rightarrow> (u8 option \<times> 'a io_scheme) res" where
  "ioq_getchar_woken s = bindr (release_now (io_lock (kbd_buf s)) s) ioq_getchar"

definition ioq_putchar :: "u8 \<Rightarrow> 'a io_scheme \<Rightarrow> (unit option \<times> 'a io_scheme) res" where
  "ioq_putchar byte s =
     bindr (ASSERT (intr_get_status s = INTR_OFF)) (\<lambda>_.
     bindr (ioq_full s) (\<lambda>full.
     if full then
       bindr (acquire_now (io_lock (kbd_buf s)) s) (\<lambda>s. bindr (ioq_wait Producer s) (\<lambda>s. Inr (None, s)))
     else
       bindr (set_buf_at (ioq_head (kbd_buf s)) byte s) (\<lambda>s.
       let s = s\<lparr>kbd_buf := (kbd_buf s)\<lparr>ioq_head := next_pos (ioq_head (kbd_buf s))\<rparr>\<rparr>
       in bindr (if consumer (kbd_buf s) \<noteq> NULL then wakeup Consumer s else Inr s) (\<lambda>s. Inr (Some (), s)))))"

definition ioq_putchar_woken :: "u8 \<Rightarrow> 'a io_scheme \<Rightarrow> (unit option \<times> 'a io_scheme) res" where
  "ioq_putchar_woken byte s = bindr (release_now (io_lock (kbd_buf s)) s) (ioq_putchar byte)"

section \<open>The ring as a sequence\<close>

definition ring_ok :: "ioqueue \<Rightarrow> bool" where
  "ring_ok q \<longleftrightarrow> length (ioq_buf q) = 64 \<and> unat (ioq_head q) < 64 \<and> unat (ioq_tail q) < 64"

definition ring_len :: "ioqueue \<Rightarrow> nat" where
  "ring_len q = (unat (ioq_head q) + 64 - unat (ioq_tail q)) mod 64"

definition queued :: "ioqueue \<Rightarrow> u8 list" where
  "queued q = map (\<lambda>k. ioq_buf q ! ((unat (ioq_tail q) + k) mod 64)) [0..<ring_len q]"

lemma sint_u32: "unat (x :: u32) < 2147483648 \<Longrightarrow> sint x = int (unat x)"
proof -
  assume a: "unat x < 2147483648"
  have u: "uint x = int (unat x)" by simp
  then have "- 2147483648 \<le> uint x" "uint x < 2147483648" using a by linarith+
  then have "signed_take_bit 31 (uint x) = uint x" by (intro signed_take_bit_int_eq_self) simp_all
  moreover have "sint x = signed_take_bit 31 (uint x)" by (simp add: sint_uint)
  ultimately show ?thesis by (simp only: u)
qed

lemma next_pos_unat:
  assumes "unat pos < 64"
  shows "unat (next_pos pos) = (unat pos + 1) mod 64"
proof -
  have u: "unat (pos + 1) = unat pos + 1" using assms by (simp add: unat_plus_if')
  then have "sint (pos + 1) = int (unat pos + 1)" using assms sint_u32 [of "pos + 1"] by simp
  then have "sint (pos + 1) smod 64 = int ((unat pos + 1) mod 64)"
    by (simp add: smod_mod_positive zmod_int)
  then have "next_pos pos = of_nat ((unat pos + 1) mod 64)" by (simp only: next_pos_def of_int_of_nat_eq)
  then show ?thesis by (simp del: of_nat_Suc add: unat_of_nat_u32)
qed

lemma length_queued [simp]: "length (queued q) = ring_len q"
  by (simp add: queued_def)

text \<open>Positions on the ring, as numbers below 64.\<close>

definition gap :: "nat \<Rightarrow> nat \<Rightarrow> nat" where
  "gap h t = (h + 64 - t) mod 64"

lemma ring_len_gap: "ring_len q = gap (unat (ioq_head q)) (unat (ioq_tail q))"
  by (simp add: ring_len_def gap_def)

lemma gap_less: "gap h t < 64"
  by (simp add: gap_def)

lemma gap_facts:
  assumes "h < 64" and "t < 64"
  shows "(t + gap h t) mod 64 = h" and "gap h t = 0 \<longleftrightarrow> h = t" and "(h + 1) mod 64 = t \<longleftrightarrow> gap h t = 63"
proof -
  have e: "gap h t = (if t \<le> h then h - t else h + 64 - t)"
    using assms by (auto simp: gap_def mod_if)
  show "(t + gap h t) mod 64 = h" using assms by (auto simp: e)
  show "gap h t = 0 \<longleftrightarrow> h = t" using assms by (auto simp: e)
  show "(h + 1) mod 64 = t \<longleftrightarrow> gap h t = 63" using assms by (auto simp: e mod_if)
qed

lemma gap_put: "h < 64 \<Longrightarrow> t < 64 \<Longrightarrow> gap h t < 63 \<Longrightarrow> gap ((h + 1) mod 64) t = gap h t + 1"
  by (auto simp: gap_def mod_if split: if_splits)

lemma gap_take: "h < 64 \<Longrightarrow> t < 64 \<Longrightarrow> gap h t = Suc n \<Longrightarrow> gap h ((t + 1) mod 64) = n"
  by (auto simp: gap_def mod_if split: if_splits)

lemma ring_slot: "t < 64 \<Longrightarrow> k < n \<Longrightarrow> n < 64 \<Longrightarrow> (t + k) mod 64 \<noteq> (t + n) mod (64 :: nat)"
  by (auto simp: mod_if)

lemma queued_put:
  assumes "ring_ok q" and "ring_len q < 63"
  shows "queued (q\<lparr>ioq_buf := (ioq_buf q)[unat (ioq_head q) := b], ioq_head := next_pos (ioq_head q)\<rparr>) = queued q @ [b]"
proof -
  let ?h = "unat (ioq_head q)" let ?t = "unat (ioq_tail q)" let ?n = "gap ?h ?t"
  have r: "?h < 64" "?t < 64" "length (ioq_buf q) = 64" using assms(1) by (simp_all add: ring_ok_def)
  have n: "?n < 63" using assms(2) by (simp add: ring_len_gap)
  let ?f = "\<lambda>k. (ioq_buf q)[?h := b] ! ((?t + k) mod 64)"
  have old: "?f k = ioq_buf q ! ((?t + k) mod 64)" if "k < ?n" for k
  proof -
    have "(?t + k) mod 64 \<noteq> ?h" using ring_slot [OF r(2) that] gap_facts(1) [OF r(1,2)] n by simp
    then show ?thesis by simp
  qed
  have "?f ?n = b" using r by (simp add: gap_facts(1) [OF r(1,2)])
  then have "map ?f [0..<Suc ?n] = map (\<lambda>k. ioq_buf q ! ((?t + k) mod 64)) [0..<?n] @ [b]"
    using old by simp
  moreover have "gap ((?h + 1) mod 64) ?t = Suc ?n" using gap_put [OF r(1,2) n] by simp
  ultimately show ?thesis using next_pos_unat [OF r(1)] by (simp add: queued_def ring_len_gap del: upt_Suc)
qed

lemma queued_take:
  assumes "ring_ok q" and "queued q = c # cs"
  shows "ioq_buf q ! unat (ioq_tail q) = c" and "queued (q\<lparr>ioq_tail := next_pos (ioq_tail q)\<rparr>) = cs"
proof -
  let ?h = "unat (ioq_head q)" let ?t = "unat (ioq_tail q)"
  have r: "?h < 64" "?t < 64" using assms(1) by (simp_all add: ring_ok_def)
  have "ring_len q = Suc (length cs)" using assms(2) by (metis length_Cons length_queued)
  then have n: "gap ?h ?t = Suc (length cs)" by (simp add: ring_len_gap)
  have "[0..<Suc (length cs)] = 0 # map Suc [0..<length cs]" by (simp add: upt_conv_Cons map_Suc_upt del: upt_Suc)
  then have "queued q = ioq_buf q ! (?t mod 64) # map (\<lambda>k. ioq_buf q ! ((?t + Suc k) mod 64)) [0..<length cs]"
    by (simp add: queued_def ring_len_gap n comp_def del: upt_Suc)
  then have c: "ioq_buf q ! (?t mod 64) = c" and cs: "map (\<lambda>k. ioq_buf q ! ((?t + Suc k) mod 64)) [0..<length cs] = cs"
    using assms(2) by simp_all
  show "ioq_buf q ! ?t = c" using c r by simp
  have "((?t + 1) mod 64 + k) mod 64 = (?t + Suc k) mod 64" for k by (simp add: mod_add_left_eq)
  then show "queued (q\<lparr>ioq_tail := next_pos (ioq_tail q)\<rparr>) = cs"
    using cs next_pos_unat [OF r(2)] gap_take [OF r n] by (simp add: queued_def ring_len_gap)
qed

lemma queued_empty: "ring_ok q \<Longrightarrow> queued q = [] \<longleftrightarrow> ioq_head q = ioq_tail q"
  using gap_facts(2) [of "unat (ioq_head q)" "unat (ioq_tail q)"]
  by (simp add: ring_ok_def ring_len_gap word_unat_eq_iff flip: length_0_conv)

lemma queued_full: "ring_ok q \<Longrightarrow> ring_len q = 63 \<longleftrightarrow> next_pos (ioq_head q) = ioq_tail q"
  using gap_facts(3) [of "unat (ioq_head q)" "unat (ioq_tail q)"]
  by (simp add: ring_ok_def ring_len_gap word_unat_eq_iff next_pos_unat)

section \<open>The operations\<close>

text \<open>A registered waiter is a blocked thread that is not in the ready queue.\<close>

definition wakeable :: "side \<Rightarrow> 'a io_scheme \<Rightarrow> bool" where
  "wakeable w s \<longleftrightarrow> (let t = waiter_of w (kbd_buf s)
     in t = NULL \<or> status (task s t) \<in> {TASK_BLOCKED, TASK_HANGING, TASK_WAITING} \<and>
        (\<exists>xs. dlist s (thread_ready_list s) xs \<and> general_tag t \<notin> set xs))"

definition woken :: "side \<Rightarrow> 'a io_scheme \<Rightarrow> 'a io_scheme" where
  "woken w s = (let t = waiter_of w (kbd_buf s)
     in if t = NULL then s
        else (upd_task t (status_update (\<lambda>_. TASK_READY)) (list_push (thread_ready_list s) (general_tag t) s))
               \<lparr>kbd_buf := set_waiter w NULL (kbd_buf s)\<rparr>)"

lemma kbd_buf_keep [simp]:
  "kbd_buf (upd_task t f s) = kbd_buf s" "kbd_buf (list_push l e s) = kbd_buf s"
  by (simp_all add: upd_task_def node_ops)

lemma wakeup_ok:
  assumes "intr_get_status s = INTR_OFF" and "wakeable w s"
  shows "(if waiter_of w (kbd_buf s) \<noteq> NULL then wakeup w s else Inr s) = Inr (woken w s)"
proof (cases "waiter_of w (kbd_buf s) = NULL")
  case False
  then obtain xs where "dlist s (thread_ready_list s) xs" "general_tag (waiter_of w (kbd_buf s)) \<notin> set xs"
    "status (task s (waiter_of w (kbd_buf s))) \<in> {TASK_BLOCKED, TASK_HANGING, TASK_WAITING}"
    using assms(2) by (auto simp: wakeable_def Let_def)
  from thread_unblock_spec [OF assms(1) this] False show ?thesis by (simp add: wakeup_def woken_def Let_def)
qed (simp add: woken_def)

lemma queued_waiter [simp]: "queued (set_waiter w t q) = queued q" "ring_ok (set_waiter w t q) = ring_ok q"
  by (cases w; simp add: queued_def ring_len_def ring_ok_def)+

lemma kbd_woken: "queued (kbd_buf (woken w s)) = queued (kbd_buf s)" "ring_ok (kbd_buf (woken w s)) = ring_ok (kbd_buf s)"
  by (simp_all add: woken_def Let_def)

lemma woken_Consumer: "consumer (kbd_buf (woken Consumer s)) = NULL \<and>
  (consumer (kbd_buf s) = NULL \<or> status (task (woken Consumer s) (consumer (kbd_buf s))) = TASK_READY)"
  by (simp add: woken_def Let_def)

lemma woken_Producer: "producer (kbd_buf (woken Producer s)) = NULL \<and>
  (producer (kbd_buf s) = NULL \<or> status (task (woken Producer s) (producer (kbd_buf s))) = TASK_READY)"
  by (simp add: woken_def Let_def)

definition put_in :: "u8 \<Rightarrow> ioqueue \<Rightarrow> ioqueue" where
  "put_in b q = q\<lparr>ioq_buf := (ioq_buf q)[unat (ioq_head q) := b], ioq_head := next_pos (ioq_head q)\<rparr>"

definition take_out :: "ioqueue \<Rightarrow> ioqueue" where
  "take_out q = q\<lparr>ioq_tail := next_pos (ioq_tail q)\<rparr>"

lemma waiter_ring [simp]: "waiter_of w (put_in b q) = waiter_of w q" "waiter_of w (take_out q) = waiter_of w q"
  by (cases w; simp add: put_in_def take_out_def)+

lemma ring_put: "ring_ok q \<Longrightarrow> ring_ok (put_in b q)"
  by (simp add: ring_ok_def put_in_def next_pos_unat)

lemma ring_take: "ring_ok q \<Longrightarrow> ring_ok (take_out q)"
  by (simp add: ring_ok_def take_out_def next_pos_unat)

lemma wakeable_buf:
  assumes "waiter_of w q = waiter_of w (kbd_buf s)"
  shows "wakeable w (s\<lparr>kbd_buf := q\<rparr>) = wakeable w s"
  using assms by (simp add: wakeable_def dlist_def)

lemma io_update_eflags [simp]: "intr_get_status (s\<lparr>kbd_buf := q\<rparr>) = intr_get_status s"
  by (simp add: intr_get_status_def)

lemma putchar_room:
  assumes "ring_ok (kbd_buf s)" and "intr_get_status s = INTR_OFF" and "wakeable Consumer s"
    and "ring_len (kbd_buf s) < 63"
  shows "ioq_putchar b s = Inr (Some (), woken Consumer (s\<lparr>kbd_buf := put_in b (kbd_buf s)\<rparr>))"
proof -
  let ?s = "s\<lparr>kbd_buf := put_in b (kbd_buf s)\<rparr>"
  have "ioq_full s = Inr False" using assms queued_full [OF assms(1)] by (simp add: ioq_full_def)
  moreover have "set_buf_at (ioq_head (kbd_buf s)) b s =
      Inr (s\<lparr>kbd_buf := (kbd_buf s)\<lparr>ioq_buf := (ioq_buf (kbd_buf s))[unat (ioq_head (kbd_buf s)) := b]\<rparr>\<rparr>)"
    using assms(1) by (simp add: set_buf_at_def ring_ok_def)
  moreover have "wakeable Consumer ?s" using assms(3) by (simp add: wakeable_buf)
  ultimately show ?thesis
    using wakeup_ok [of ?s Consumer] assms(2) unfolding put_in_def by (simp add: ioq_putchar_def Let_def split: if_splits)
qed

lemma getchar_some:
  assumes "ring_ok (kbd_buf s)" and "intr_get_status s = INTR_OFF" and "wakeable Producer s"
    and "queued (kbd_buf s) = c # cs"
  shows "ioq_getchar s = Inr (Some c, woken Producer (s\<lparr>kbd_buf := take_out (kbd_buf s)\<rparr>))"
proof -
  let ?s = "s\<lparr>kbd_buf := take_out (kbd_buf s)\<rparr>"
  have "ioq_empty s = Inr False" using assms queued_empty [OF assms(1)] by (simp add: ioq_empty_def)
  moreover have "buf_at (ioq_tail (kbd_buf s)) s = Inr c"
    using assms(1) queued_take(1) [OF assms(1,4)] by (simp add: buf_at_def ring_ok_def)
  moreover have "wakeable Producer ?s" using assms(3) by (simp add: wakeable_buf)
  ultimately show ?thesis
    using wakeup_ok [of ?s Producer] assms(2) unfolding take_out_def by (simp add: ioq_getchar_def Let_def split: if_splits)
qed

text \<open>With nothing to read (or no room) the caller takes the lock, registers itself and goes to sleep.\<close>

definition sleeping :: "side \<Rightarrow> 'a io_scheme \<Rightarrow> 'a io_scheme res" where
  "sleeping w s = (let s = set_lock (io_lock (kbd_buf s)) (running_thread s) 0 1 s
     in thread_block TASK_BLOCKED (s\<lparr>kbd_buf := set_waiter w (running_thread s) (kbd_buf s)\<rparr>))"

lemma kbd_buf_lock [simp]: "kbd_buf (set_lock l t v n s) = kbd_buf s"
  by (simp add: set_lock_def)

lemma ioq_wait_sleeps:
  assumes "lock_free (io_lock (kbd_buf s)) s" and "running_thread s \<noteq> NULL" and "waiter_of w (kbd_buf s) = NULL"
  shows "bindr (acquire_now (io_lock (kbd_buf s)) s) (\<lambda>s. bindr (ioq_wait w s) (\<lambda>s. Inr (None, s))) =
    bindr (sleeping w s) (\<lambda>s. Inr (None, s))"
  using acquire_free [OF assms(1,2)] assms(3) by (simp add: ioq_wait_def sleeping_def Let_def)

lemma getchar_none:
  assumes "ring_ok (kbd_buf s)" and "intr_get_status s = INTR_OFF" and "queued (kbd_buf s) = []"
    and "lock_free (io_lock (kbd_buf s)) s" and "running_thread s \<noteq> NULL" and "consumer (kbd_buf s) = NULL"
  shows "ioq_getchar s = bindr (sleeping Consumer s) (\<lambda>s. Inr (None, s))"
proof -
  have "ioq_empty s = Inr True" using assms queued_empty [OF assms(1)] by (simp add: ioq_empty_def)
  then show ?thesis using ioq_wait_sleeps [OF assms(4,5), of Consumer] assms(2,6) by (simp add: ioq_getchar_def)
qed

lemma putchar_full:
  assumes "ring_ok (kbd_buf s)" and "intr_get_status s = INTR_OFF" and "ring_len (kbd_buf s) = 63"
    and "lock_free (io_lock (kbd_buf s)) s" and "running_thread s \<noteq> NULL" and "producer (kbd_buf s) = NULL"
  shows "ioq_putchar b s = bindr (sleeping Producer s) (\<lambda>s. Inr (None, s))"
proof -
  have "ioq_full s = Inr True" using assms queued_full [OF assms(1)] by (simp add: ioq_full_def)
  then show ?thesis using ioq_wait_sleeps [OF assms(4,5), of Producer] assms(2,6) by (simp add: ioq_putchar_def)
qed

section \<open>The interface: a bounded queue\<close>

text \<open>
  What the keyboard and the readers share: within its bounds, the buffer is a list with two ends.
  A run of operations gives the characters that were taken out.
\<close>

datatype 'e queue_op = Enter 'e | Take

fun run_queue :: "('e \<Rightarrow> 's \<Rightarrow> (unit option \<times> 's) res) \<Rightarrow> ('s \<Rightarrow> ('e option \<times> 's) res) \<Rightarrow> 'e queue_op list \<Rightarrow>
    's \<Rightarrow> ('e list \<times> 's) res" where
  "run_queue put get [] s = Inr ([], s)"
| "run_queue put get (Enter b # ops) s =
     bindr (put b s) (\<lambda>(r, s). if r = None then Inl Blocked else run_queue put get ops s)"
| "run_queue put get (Take # ops) s =
     bindr (get s) (\<lambda>(r, s). case r of None \<Rightarrow> Inl Blocked
       | Some c \<Rightarrow> bindr (run_queue put get ops s) (\<lambda>(cs, s). Inr (c # cs, s)))"

text \<open>The reference: a list of at most \<open>room\<close> elements.\<close>

fun list_run :: "nat \<Rightarrow> 'e queue_op list \<Rightarrow> 'e list \<Rightarrow> ('e list \<times> 'e list) option" where
  "list_run room [] xs = Some ([], xs)"
| "list_run room (Enter b # ops) xs = (if length xs < room then list_run room ops (xs @ [b]) else None)"
| "list_run room (Take # ops) [] = None"
| "list_run room (Take # ops) (c # xs) = map_option (apfst ((#) c)) (list_run room ops xs)"

locale bounded_queue =
  fixes inv :: "'s \<Rightarrow> bool"
    and contents :: "'s \<Rightarrow> 'e list"
    and room :: nat
    and put :: "'e \<Rightarrow> 's \<Rightarrow> (unit option \<times> 's) res"
    and get :: "'s \<Rightarrow> ('e option \<times> 's) res"
  assumes put_ok: "inv s \<Longrightarrow> length (contents s) < room \<Longrightarrow>
      \<exists>t. put b s = Inr (Some (), t) \<and> inv t \<and> contents t = contents s @ [b]"
    and get_ok: "inv s \<Longrightarrow> contents s = c # cs \<Longrightarrow> \<exists>t. get s = Inr (Some c, t) \<and> inv t \<and> contents t = cs"
begin

lemma run_agrees:
  "inv s \<Longrightarrow> list_run room ops (contents s) = Some (out, rest) \<Longrightarrow>
    \<exists>t. run_queue put get ops s = Inr (out, t) \<and> inv t \<and> contents t = rest"
proof (induction ops arbitrary: s out)
  case (Cons x ops)
  show ?case
  proof (cases x)
    case (Enter b)
    then have room: "length (contents s) < room" "list_run room ops (contents s @ [b]) = Some (out, rest)"
      using Cons.prems(2) by (simp_all split: if_splits)
    from put_ok [OF Cons.prems(1) room(1)] obtain t where t: "put b s = Inr (Some (), t)" "inv t"
      "contents t = contents s @ [b]" by blast
    from Cons.IH [OF t(2), of out] room(2) show ?thesis by (simp add: Enter t)
  next
    case Take
    with Cons.prems(2) obtain c cs o' where c: "contents s = c # cs" "list_run room ops cs = Some (o', rest)" "out = c # o'"
      by (cases "contents s") auto
    from get_ok [OF Cons.prems(1) c(1)] obtain t where t: "get s = Inr (Some c, t)" "inv t" "contents t = cs" by blast
    from Cons.IH [OF t(2), of o'] c(2,3) show ?thesis by (auto simp: Take t)
  qed
qed simp

text \<open>What goes in comes out in order.\<close>

lemma list_run_enter: "length xs + length bs \<le> room \<Longrightarrow>
    list_run room (map Enter bs @ ops) xs = list_run room ops (xs @ bs)"
  by (induction bs arbitrary: xs) simp_all

lemma list_run_take: "list_run room (replicate (length bs) Take) (bs @ xs) = Some (bs, xs)"
  by (induction bs) simp_all

lemma in_order:
  assumes "inv s" and "contents s = []" and "length bs \<le> room"
  shows "\<exists>t. run_queue put get (map Enter bs @ replicate (length bs) Take) s = Inr (bs, t) \<and> contents t = []"
  using run_agrees [OF assms(1), of "map Enter bs @ replicate (length bs) Take" bs "[]"]
    list_run_enter [of "[]" bs "replicate (length bs) Take"] list_run_take [of bs "[]"] assms(2,3) by auto

end

text \<open>At most one side waits.\<close>

definition io_inv :: "'a io_scheme \<Rightarrow> bool" where
  "io_inv s \<longleftrightarrow> ring_ok (kbd_buf s) \<and> intr_get_status s = INTR_OFF \<and> wakeable Producer s \<and> wakeable Consumer s \<and>
     (producer (kbd_buf s) = NULL \<or> consumer (kbd_buf s) = NULL)"

lemma woken_status: "intr_get_status (woken w s) = intr_get_status s"
  by (simp add: woken_def Let_def intr_get_status_def upd_task_def node_ops)

lemma woken_waits:
  assumes "wakeable v s" and "waiter_of v (kbd_buf s) = NULL \<or> waiter_of w (kbd_buf s) = NULL"
  shows "wakeable v (woken w s)"
proof (cases "waiter_of w (kbd_buf s) = NULL")
  case True
  then show ?thesis using assms(1) by (simp add: woken_def)
next
  case False
  then have "waiter_of v (kbd_buf s) = NULL" using assms(2) by simp
  then have "waiter_of v (kbd_buf (woken w s)) = NULL"
    by (cases v; cases w; simp add: woken_def Let_def)
  then show ?thesis by (simp add: wakeable_def)
qed

lemma woken_nobody: "waiter_of w (kbd_buf (woken w s)) = NULL"
  by (cases w; simp add: woken_def Let_def)

lemma wakeable_nobody: "waiter_of w (kbd_buf s) = NULL \<Longrightarrow> wakeable w s"
  by (simp add: wakeable_def)

interpretation ioq: bounded_queue io_inv "\<lambda>s. queued (kbd_buf s)" 63 ioq_putchar ioq_getchar
proof unfold_locales
  fix s :: "'a io_scheme" and b c cs
  assume i: "io_inv s"
  then have f: "ring_ok (kbd_buf s)" "intr_get_status s = INTR_OFF" "wakeable Producer s" "wakeable Consumer s"
    by (simp_all add: io_inv_def)
  have keep: "io_inv (woken w (s\<lparr>kbd_buf := q\<rparr>))"
    if "ring_ok q" "\<And>v. waiter_of v q = waiter_of v (kbd_buf s)" for w q
  proof -
    let ?t = "s\<lparr>kbd_buf := q\<rparr>"
    have wk: "wakeable Producer ?t" "wakeable Consumer ?t" using f(3,4) wakeable_buf that(2) by blast+
    have one: "producer q = NULL \<or> consumer q = NULL"
      using i that(2) [of Producer] that(2) [of Consumer] by (simp add: io_inv_def)
    have "wakeable Producer (woken w ?t)" "wakeable Consumer (woken w ?t)"
      by (cases w; use woken_waits [OF wk(1), of w] woken_waits [OF wk(2), of w] wakeable_nobody [OF woken_nobody] one in auto)+
    moreover have "producer (kbd_buf (woken w ?t)) = NULL \<or> consumer (kbd_buf (woken w ?t)) = NULL"
      using woken_nobody [of w ?t] by (cases w) simp_all
    ultimately show ?thesis using that(1) f(2) by (simp add: io_inv_def kbd_woken woken_status)
  qed
  show "\<exists>t. ioq_putchar b s = Inr (Some (), t) \<and> io_inv t \<and> queued (kbd_buf t) = queued (kbd_buf s) @ [b]"
    if "length (queued (kbd_buf s)) < 63"
    using putchar_room [OF f(1,2,4)] queued_put [OF f(1), of b] keep [OF ring_put [OF f(1)], of b Consumer] that
    by (simp add: kbd_woken put_in_def [symmetric])
  show "\<exists>t. ioq_getchar s = Inr (Some c, t) \<and> io_inv t \<and> queued (kbd_buf t) = cs"
    if "queued (kbd_buf s) = c # cs"
    using getchar_some [OF f(1-3) that] queued_take [OF f(1) that] keep [OF ring_take [OF f(1)], of Producer]
    by (simp add: kbd_woken take_out_def [symmetric])
qed

section \<open>Properties\<close>

text \<open>C25 The ring buffer implements a queue of at most 63 characters: a character put in goes to its end, a
  character taken out is its first one, and the waiting thread of the other side becomes ready; a reader of
  an empty queue and a writer of a full one go to sleep.\<close>

theorem ioq_refines_fifo:
  assumes "ring_ok (kbd_buf s)" and "intr_get_status s = INTR_OFF" and "wakeable Producer s" and "wakeable Consumer s"
    and "running_thread s \<noteq> NULL"
  shows "(if length (queued (kbd_buf s)) < 63 then
      \<exists>s'. ioq_putchar b s = Inr (Some (), s') \<and> ring_ok (kbd_buf s') \<and>
        queued (kbd_buf s') = queued (kbd_buf s) @ [b] \<and> consumer (kbd_buf s') = NULL \<and>
        (consumer (kbd_buf s) = NULL \<or> status (task s' (consumer (kbd_buf s))) = TASK_READY)
    else lock_free (io_lock (kbd_buf s)) s \<and> producer (kbd_buf s) = NULL \<longrightarrow>
      ioq_putchar b s = bindr (sleeping Producer s) (\<lambda>s. Inr (None, s))) \<and>
   (case queued (kbd_buf s) of
      c # cs \<Rightarrow> \<exists>s'. ioq_getchar s = Inr (Some c, s') \<and> ring_ok (kbd_buf s') \<and> queued (kbd_buf s') = cs \<and>
        producer (kbd_buf s') = NULL \<and>
        (producer (kbd_buf s) = NULL \<or> status (task s' (producer (kbd_buf s))) = TASK_READY)
    | [] \<Rightarrow> lock_free (io_lock (kbd_buf s)) s \<and> consumer (kbd_buf s) = NULL \<longrightarrow>
        ioq_getchar s = bindr (sleeping Consumer s) (\<lambda>s. Inr (None, s)))"
proof (intro conjI)
  show "if length (queued (kbd_buf s)) < 63 then
      \<exists>s'. ioq_putchar b s = Inr (Some (), s') \<and> ring_ok (kbd_buf s') \<and>
        queued (kbd_buf s') = queued (kbd_buf s) @ [b] \<and> consumer (kbd_buf s') = NULL \<and>
        (consumer (kbd_buf s) = NULL \<or> status (task s' (consumer (kbd_buf s))) = TASK_READY)
    else lock_free (io_lock (kbd_buf s)) s \<and> producer (kbd_buf s) = NULL \<longrightarrow>
      ioq_putchar b s = bindr (sleeping Producer s) (\<lambda>s. Inr (None, s))"
  proof (cases "ring_len (kbd_buf s) < 63")
    case True
    then show ?thesis
      using putchar_room [OF assms(1,2,4)] queued_put [OF assms(1), of b] ring_put [OF assms(1), of b]
        woken_Consumer [of "s\<lparr>kbd_buf := put_in b (kbd_buf s)\<rparr>"]
      by (simp add: kbd_woken put_in_def)
  next
    case False
    then have "ring_len (kbd_buf s) = 63"
      using gap_less [of "unat (ioq_head (kbd_buf s))" "unat (ioq_tail (kbd_buf s))"] by (simp add: ring_len_gap)
    then show ?thesis using putchar_full [OF assms(1,2)] assms(5) by simp
  qed
  show "case queued (kbd_buf s) of
      c # cs \<Rightarrow> \<exists>s'. ioq_getchar s = Inr (Some c, s') \<and> ring_ok (kbd_buf s') \<and> queued (kbd_buf s') = cs \<and>
        producer (kbd_buf s') = NULL \<and>
        (producer (kbd_buf s) = NULL \<or> status (task s' (producer (kbd_buf s))) = TASK_READY)
    | [] \<Rightarrow> lock_free (io_lock (kbd_buf s)) s \<and> consumer (kbd_buf s) = NULL \<longrightarrow>
        ioq_getchar s = bindr (sleeping Consumer s) (\<lambda>s. Inr (None, s))"
  proof (cases "queued (kbd_buf s)")
    case Nil
    then show ?thesis using getchar_none [OF assms(1,2)] assms(5) by simp
  next
    case (Cons c cs)
    then show ?thesis
      using getchar_some [OF assms(1-3) Cons] queued_take [OF assms(1) Cons] ring_take [OF assms(1)]
        woken_Producer [of "s\<lparr>kbd_buf := take_out (kbd_buf s)\<rparr>"]
      by (simp add: kbd_woken take_out_def)
  qed
qed

definition fresh_io :: io where
  "fresh_io = screen.extend (screen.truncate fresh_screen) \<lparr>kbd_buf = \<lparr>io_lock = 0x500, producer = NULL, consumer = NULL,
     ioq_buf = replicate 64 0, ioq_head = 63, ioq_tail = 63\<rparr>\<rparr>"

lemma fresh_io_fields: "kbd_buf fresh_io = \<lparr>io_lock = 0x500, producer = NULL, consumer = NULL,
     ioq_buf = replicate 64 0, ioq_head = 63, ioq_tail = 63\<rparr>" "eflags fresh_io = 0" "esp fresh_io = 0xc009efff"
  by (simp_all add: fresh_io_def fresh_screen_def screen.defs list_init_def set_nxt_def set_prev_def Let_def)

theorem ioq_refines_fifo_witness:
  "\<exists>s'. ioq_putchar 65 fresh_io = Inr (Some (), s') \<and> queued (kbd_buf s') = [65]"
proof -
  have "ring_ok (kbd_buf fresh_io)" "queued (kbd_buf fresh_io) = []"
    by (simp_all add: fresh_io_fields ring_ok_def queued_def ring_len_def)
  moreover have "intr_get_status fresh_io = INTR_OFF" "running_thread fresh_io \<noteq> NULL"
    by (simp_all add: intr_get_status_def running_thread_def fresh_io_fields)
  moreover have "wakeable Producer fresh_io" "wakeable Consumer fresh_io"
    by (simp_all add: wakeable_def fresh_io_fields)
  ultimately show ?thesis using ioq_refines_fifo [of fresh_io 65] by auto
qed

text \<open>
  The kernel never calls \<open>ioqueue_init\<close> for \<open>kbd_buf\<close>: its lock is still the zeroes that the loader put
  there, so its semaphore is taken although nobody holds the lock, and the first reader of an empty queue
  does not get past \<open>lock_acquire\<close>.
\<close>

lemma kbd_buf_never_initialised:
  assumes "intr_get_status s = INTR_OFF" and "ioq_head (kbd_buf s) = 0" and "ioq_tail (kbd_buf s) = 0"
    and "holder s (io_lock (kbd_buf s)) = NULL" and "sem_value s (semaphore_of (io_lock (kbd_buf s))) = 0"
    and "running_thread s \<noteq> NULL"
  shows "ioq_getchar s = Inl Blocked"
  using assms by (simp add: ioq_getchar_def ioq_empty_def acquire_now_def)

text \<open>Runs of the two operations within the bounds of the buffer agree with the list; what is typed into an
  empty buffer is read in order.\<close>

lemma ioq_runs_like_list:
  assumes "io_inv s" and "list_run 63 ops (queued (kbd_buf s)) = Some (out, rest)"
  shows "\<exists>t. run_queue ioq_putchar ioq_getchar ops s = Inr (out, t) \<and> io_inv t \<and> queued (kbd_buf t) = rest"
  using assms by (rule ioq.run_agrees)

lemma ioq_in_order:
  assumes "io_inv s" and "queued (kbd_buf s) = []" and "length bs \<le> 63"
  shows "\<exists>t. run_queue ioq_putchar ioq_getchar (map Enter bs @ replicate (length bs) Take) s = Inr (bs, t) \<and>
    queued (kbd_buf t) = []"
  using assms by (rule ioq.in_order)

end
