(* ===== verification/Keyboard.thy ===== *)
theory Keyboard
  imports Ioqueue
begin

unbundle bit_operations_syntax

text \<open>
  \<^verbatim>\<open>device/keyboard.c\<close>: the handler of the keyboard interrupt. Each interrupt brings one byte of a scancode;
  the handler keeps the state of the modifier keys, looks a key up in \<open>keymap\<close>, shows its character on
  the screen and puts it into \<open>kbd_buf\<close>.
\<close>

section \<open>The code\<close>

record kbd = io +
  ctrl_status :: bool
  shift_status :: bool
  alt_status :: bool
  caps_lock_status :: bool
  ext_scancode :: bool

definition keymap :: "(u8 \<times> u8) list" where
  "keymap = [
     (0, 0), (27, 27), (49, 33), (50, 64), (51, 35), (52, 36), (53, 37), (54, 94),
     (55, 38), (56, 42), (57, 40), (48, 41), (45, 95), (61, 43), (8, 8), (9, 9),
     (113, 81), (119, 87), (101, 69), (114, 82), (116, 84), (121, 89), (117, 85), (105, 73),
     (111, 79), (112, 80), (91, 123), (93, 125), (13, 13), (0, 0), (97, 65), (115, 83),
     (100, 68), (102, 70), (103, 71), (104, 72), (106, 74), (107, 75), (108, 76), (59, 58),
     (39, 34), (96, 126), (0, 0), (92, 124), (122, 90), (120, 88), (99, 67), (118, 86),
     (98, 66), (110, 78), (109, 77), (44, 60), (46, 62), (47, 63), (0, 0), (42, 42),
     (0, 0), (32, 32), (0, 0)]"

definition ctrl_l_make :: u16 where "ctrl_l_make = 0x1d"
definition ctrl_r_make :: u16 where "ctrl_r_make = 0xe01d"
definition shift_l_make :: u16 where "shift_l_make = 0x2a"
definition shift_r_make :: u16 where "shift_r_make = 0x36"
definition alt_l_make :: u16 where "alt_l_make = 0x38"
definition alt_r_make :: u16 where "alt_r_make = 0xe038"
definition caps_lock_make :: u16 where "caps_lock_make = 0x3a"

lemmas make_codes = ctrl_l_make_def ctrl_r_make_def shift_l_make_def shift_r_make_def alt_l_make_def
  alt_r_make_def caps_lock_make_def

text \<open>\<open>keymap[index][shift]\<close>\<close>

definition keymap_at :: "u8 \<Rightarrow> bool \<Rightarrow> u8 res" where
  "keymap_at index shift =
     (if unat index < length keymap
      then Inr (if shift then snd (keymap ! unat index) else fst (keymap ! unat index)) else Inl OutOfBounds)"

text \<open>A key that goes up.\<close>

definition key_break :: "u16 \<Rightarrow> 'a kbd_scheme \<Rightarrow> 'a kbd_scheme" where
  "key_break scancode s =
     (let make_code = scancode AND 0xff7f
      in if make_code = ctrl_l_make \<or> make_code = ctrl_r_make then s\<lparr>ctrl_status := False\<rparr>
         else if make_code = shift_l_make \<or> make_code = shift_r_make then s\<lparr>shift_status := False\<rparr>
         else if make_code = alt_l_make \<or> make_code = alt_r_make then s\<lparr>alt_status := False\<rparr>
         else s)"

text \<open>The column of \<open>keymap\<close> for a key that goes down.\<close>

definition shift_for :: "u16 \<Rightarrow> bool \<Rightarrow> bool \<Rightarrow> bool" where
  "shift_for scancode shift_down_last caps_lock_last =
     (if scancode < 0x0e \<or> scancode = 0x29 \<or> scancode = 0x1a \<or> scancode = 0x1b \<or> scancode = 0x2b \<or>
         scancode = 0x27 \<or> scancode = 0x28 \<or> scancode = 0x33 \<or> scancode = 0x34 \<or> scancode = 0x35
      then shift_down_last
      else if shift_down_last \<and> caps_lock_last then False
      else if shift_down_last \<or> caps_lock_last then True else False)"

definition key_make :: "u16 \<Rightarrow> 'a kbd_scheme \<Rightarrow> 'a kbd_scheme res" where
  "key_make scancode s =
     (let shift = shift_for scancode (shift_status s) (caps_lock_status s);
          scancode = scancode AND 0x00ff;
          index = ucast scancode
      in bindr (keymap_at index shift) (\<lambda>cur_char.
         if cur_char \<noteq> 0 then
           bindr (ioq_full s) (\<lambda>full.
           if \<not> full then bindr (put_char cur_char s) (\<lambda>s. bindr (ioq_putchar cur_char s) (\<lambda>(_, s). Inr s))
           else Inr s)
         else if scancode = ctrl_l_make \<or> scancode = ctrl_r_make then Inr (s\<lparr>ctrl_status := True\<rparr>)
         else if scancode = shift_l_make \<or> scancode = shift_r_make then Inr (s\<lparr>shift_status := True\<rparr>)
         else if scancode = alt_l_make \<or> scancode = alt_r_make then Inr (s\<lparr>alt_status := True\<rparr>)
         else if scancode = caps_lock_make then Inr (s\<lparr>caps_lock_status := \<not> caps_lock_status s\<rparr>)
         else Inr s))"

text \<open>\<open>unknown key\<close> and a line feed.\<close>

definition unknown_key :: "u8 list" where
  "unknown_key = [117, 110, 107, 110, 111, 119, 110, 32, 107, 101, 121, 10]"

text \<open>The argument is the byte that \<open>inb\<close> reads from the port of the keyboard.\<close>

definition intr_keyboard_handler :: "u8 \<Rightarrow> 'a kbd_scheme \<Rightarrow> 'a kbd_scheme res" where
  "intr_keyboard_handler port s =
     (let scancode = ucast port
      in if scancode = 0xe0 then Inr (s\<lparr>ext_scancode := True\<rparr>)
         else
           let (scancode, s) = (if ext_scancode s then (0xe000 OR scancode, s\<lparr>ext_scancode := False\<rparr>) else (scancode, s))
           in if scancode AND 0x0080 \<noteq> 0 then Inr (key_break scancode s)
              else if (0x00 < scancode \<and> scancode < 0x3b) \<or> scancode = alt_r_make \<or> scancode = ctrl_r_make
              then key_make scancode s
              else put_str unknown_key s)"

section \<open>Reading the keyboard\<close>

text \<open>The character that a key stands for: letters are capital when exactly one of shift and caps lock is
  on, the other keys follow shift alone.\<close>

definition letter :: "u8 \<Rightarrow> bool" where
  "letter c \<longleftrightarrow> 97 \<le> c \<and> c \<le> 122"

definition key_char :: "u8 \<Rightarrow> bool \<Rightarrow> bool \<Rightarrow> u8" where
  "key_char key shift caps =
     (let (plain, shifted) = keymap ! unat key
      in if letter plain then (if shift \<noteq> caps then plain - 32 else plain)
         else if shift then shifted else plain)"

lemma keymap_length: "length keymap = 59"
  by (simp add: keymap_def)

lemma keymap_table: "list_all (\<lambda>k. list_all (\<lambda>sh. list_all (\<lambda>caps.
    (if shift_for (of_nat k) sh caps then snd (keymap ! k) else fst (keymap ! k)) = key_char (of_nat k) sh caps)
    [False, True]) [False, True]) [0..<59]"
  by code_simp

lemma keymap_shift:
  "k < 59 \<Longrightarrow> (if shift_for (of_nat k) sh caps then snd (keymap ! k) else fst (keymap ! k)) = key_char (of_nat k) sh caps"
proof -
  assume "k < 59"
  then have "k \<in> set [0..<59]" "sh \<in> set [False, True]" "caps \<in> set [False, True]" by auto
  with keymap_table show ?thesis unfolding list_all_iff by blast
qed

text \<open>The state in which the handler runs: interrupts are off, the cursor is on the screen, the queue is well
  formed, and a thread that waits for a character can be woken.\<close>

definition kbd_ok :: "'a kbd_scheme \<Rightarrow> bool" where
  "kbd_ok s \<longleftrightarrow> intr_get_status s = INTR_OFF \<and> unat (cursor s) < 2000 \<and> ring_ok (kbd_buf s) \<and> wakeable Consumer s"

definition typing :: "'a kbd_scheme \<Rightarrow> u8 list \<times> nat" where
  "typing s = (text_of s, unat (cursor s))"

lemma kbd_ok_typing: "kbd_ok s \<Longrightarrow> screen_rel s (typing s)"
  by (simp add: kbd_ok_def screen_rel_def typing_def)

lemma screen_rel_cursor: "screen_rel s tp \<Longrightarrow> unat (cursor s) < 2000"
  by (auto simp: screen_rel_def unat_pos)

lemma kbd_ok_flags [simp]:
  "kbd_ok (s\<lparr>ctrl_status := b\<rparr>) = kbd_ok s" "kbd_ok (s\<lparr>shift_status := b\<rparr>) = kbd_ok s"
  "kbd_ok (s\<lparr>alt_status := b\<rparr>) = kbd_ok s" "kbd_ok (s\<lparr>caps_lock_status := b\<rparr>) = kbd_ok s"
  "kbd_ok (s\<lparr>ext_scancode := b\<rparr>) = kbd_ok s"
  by (simp_all add: kbd_ok_def intr_get_status_def wakeable_def dlist_def)

definition flags :: "'a kbd_scheme \<Rightarrow> bool \<times> bool \<times> bool \<times> bool \<times> bool" where
  "flags s = (ctrl_status s, shift_status s, alt_status s, caps_lock_status s, ext_scancode s)"

lemma shown_facts:
  assumes "shown s (s' :: 'a kbd_scheme)"
  shows "kbd_buf s' = kbd_buf s" and "intr_get_status s' = intr_get_status s" and "wakeable w s' = wakeable w s"
    and "flags s' = flags s" and "task s' = task s"
proof -
  obtain v c where "s' = s\<lparr>video := v, cursor := c\<rparr>" using assms by (auto simp: shown_def)
  then show "kbd_buf s' = kbd_buf s" and "intr_get_status s' = intr_get_status s" and "wakeable w s' = wakeable w s"
    and "flags s' = flags s" and "task s' = task s"
    by (simp_all add: intr_get_status_def wakeable_def dlist_def flags_def)
qed

lemma woken_facts:
  "text_of (woken w s) = text_of s" "cursor (woken w s) = cursor s" "eflags (woken w s) = eflags s"
  "flags (woken w s) = flags s" "screen_rel (woken w s) tp = screen_rel s tp"
  by (simp_all add: woken_def Let_def upd_task_def node_ops text_of_def flags_def screen_rel_def)

text \<open>A character is shown and put into the queue.\<close>

lemma char_accepted:
  assumes "kbd_ok s" and "ring_len (kbd_buf s) < 63" and "c = 8 \<Longrightarrow> cursor s \<noteq> 0"
  obtains s' where
    "bindr (ioq_full s) (\<lambda>full. if \<not> full then bindr (put_char c s) (\<lambda>s. bindr (ioq_putchar c s) (\<lambda>(_, s). Inr s)) else Inr s) = Inr s'"
    and "kbd_ok s'" and "screen_rel s' (type_char c (typing s))" and "queued (kbd_buf s') = queued (kbd_buf s) @ [c]"
    and "flags s' = flags s"
    and "consumer (kbd_buf s) = NULL \<or> status (task s' (consumer (kbd_buf s))) = TASK_READY"
proof -
  have k: "intr_get_status s = INTR_OFF" "ring_ok (kbd_buf s)" "wakeable Consumer s" using assms(1) by (simp_all add: kbd_ok_def)
  have "c = 8 \<Longrightarrow> 0 < snd (typing s)" using assms(3) by (simp add: typing_def unat_gt_0)
  then obtain s1 where s1: "put_char c s = Inr s1" "screen_rel s1 (type_char c (typing s))" "shown s s1"
    by (rule put_char_shown [OF kbd_ok_typing [OF assms(1)]])
  note f = shown_facts [OF s1(3)]
  define s2 where "s2 = woken Consumer (s1\<lparr>kbd_buf := put_in c (kbd_buf s)\<rparr>)"
  have p: "ioq_putchar c s1 = Inr (Some (), s2)"
    using putchar_room [of s1 c] k f assms(2) by (simp add: s2_def)
  have full: "ioq_full s = Inr False" using queued_full [OF k(2)] k(1) assms(2) by (simp add: ioq_full_def)
  show ?thesis
  proof (rule that)
    show "bindr (ioq_full s) (\<lambda>full. if \<not> full then bindr (put_char c s) (\<lambda>s. bindr (ioq_putchar c s) (\<lambda>(_, s). Inr s)) else Inr s) = Inr s2"
      by (simp add: full s1(1) p)
    have "screen_rel s2 (type_char c (typing s)) = screen_rel s1 (type_char c (typing s))"
      unfolding s2_def woken_facts(5) by (simp add: screen_rel_def text_of_def)
    then show rel: "screen_rel s2 (type_char c (typing s))" using s1(2) by simp
    show "queued (kbd_buf s2) = queued (kbd_buf s) @ [c]"
      using queued_put [OF k(2) assms(2), of c] by (simp add: s2_def kbd_woken put_in_def)
    show "flags s2 = flags s" using f(4) by (simp add: s2_def woken_facts) (simp add: flags_def)
    show "consumer (kbd_buf s) = NULL \<or> status (task s2 (consumer (kbd_buf s))) = TASK_READY"
      using woken_Consumer [of "s1\<lparr>kbd_buf := put_in c (kbd_buf s)\<rparr>"] by (simp add: s2_def put_in_def)
    have "intr_get_status s2 = INTR_OFF" using k(1) f(2) by (simp add: s2_def intr_get_status_def woken_facts)
    moreover have "ring_ok (kbd_buf s2)" using ring_put [OF k(2), of c] by (simp add: s2_def kbd_woken)
    moreover have "consumer (kbd_buf s2) = NULL"
      using woken_Consumer [of "s1\<lparr>kbd_buf := put_in c (kbd_buf s)\<rparr>"] by (simp add: s2_def)
    ultimately show "kbd_ok s2" using screen_rel_cursor [OF rel] by (simp add: kbd_ok_def wakeable_def)
  qed
qed

lemma keymap_at_ok: "unat index < 59 \<Longrightarrow>
    keymap_at index sh = Inr (if sh then snd (keymap ! unat index) else fst (keymap ! unat index))"
  by (simp add: keymap_at_def keymap_length)

lemma backspace_key: "k < 59 \<Longrightarrow> (if sh then snd (keymap ! k) else fst (keymap ! k)) = 8 \<Longrightarrow> k = 0x0e"
proof -
  have t: "list_all (\<lambda>k. list_all (\<lambda>sh. (if sh then snd (keymap ! k) else fst (keymap ! k)) \<noteq> 8 \<or> k = 0x0e)
      [False, True]) [0..<59]"
    by code_simp
  assume "k < 59" and "(if sh then snd (keymap ! k) else fst (keymap ! k)) = 8"
  moreover from this have "k \<in> set [0..<59]" "sh \<in> set [False, True]" by auto
  ultimately show ?thesis using t unfolding list_all_iff by blast
qed

lemma room: "ring_ok q \<Longrightarrow> \<not> ring_len q < 63 \<Longrightarrow> next_pos (ioq_head q) = ioq_tail q"
  using queued_full [of q] gap_less [of "unat (ioq_head q)" "unat (ioq_tail q)"] by (simp add: ring_len_gap)

lemma key_make_ok:
  assumes "kbd_ok s" and i: "unat (ucast (scancode AND 0x00ff) :: u8) < 59"
    and "ucast (scancode AND 0x00ff) = (0x0e :: u8) \<Longrightarrow> ring_len (kbd_buf s) < 63 \<Longrightarrow> cursor s \<noteq> 0"
  shows "\<exists>s'. key_make scancode s = Inr s' \<and> kbd_ok s'"
proof -
  define sh where "sh = shift_for scancode (shift_status s) (caps_lock_status s)"
  define index where "index = (ucast (scancode AND 0x00ff) :: u8)"
  define c where "c = (if sh then snd (keymap ! unat index) else fst (keymap ! unat index))"
  have at: "keymap_at index sh = Inr c" using i by (simp add: keymap_at_ok index_def c_def)
  have off: "intr_get_status s = INTR_OFF" and ring: "ring_ok (kbd_buf s)" using assms(1) by (simp_all add: kbd_ok_def)
  show ?thesis
  proof (cases "c = 0")
    case True
    then show ?thesis using at assms(1) by (simp add: key_make_def Let_def sh_def index_def)
  next
    case False
    note body = key_make_def [of scancode s, unfolded Let_def, folded sh_def index_def, unfolded at bindr_Inr]
    show ?thesis
    proof (cases "ring_len (kbd_buf s) < 63")
      case True
      have "c = 8 \<Longrightarrow> cursor s \<noteq> 0"
        using backspace_key [of "unat index" sh] i assms(3) True by (simp add: c_def index_def word_unat_eq_iff)
      then obtain s' where "bindr (ioq_full s) (\<lambda>full. if \<not> full then bindr (put_char c s) (\<lambda>s. bindr (ioq_putchar c s) (\<lambda>(_, s). Inr s)) else Inr s) = Inr s'"
        "kbd_ok s'" by (rule char_accepted [OF assms(1) True])
      then show ?thesis using False by (simp add: body)
    next
      case full: False
      then have "ioq_full s = Inr True" using room [OF ring] off by (simp add: ioq_full_def)
      then show ?thesis using False assms(1) by (simp add: body)
    qed
  qed
qed

lemma key_break_ok: "kbd_ok s \<Longrightarrow> kbd_ok (key_break sc s)"
  by (simp add: key_break_def Let_def)

lemma unknown_ok:
  assumes "kbd_ok s"
  shows "\<exists>s'. put_str unknown_key s = Inr s' \<and> kbd_ok s'"
proof -
  obtain s' where s': "put_str unknown_key s = Inr s'" "screen_rel s' (fold type_char unknown_key (typing s))" "shown s s'"
    using put_str_typed [OF kbd_ok_typing [OF assms], of unknown_key] by (auto simp: unknown_key_def)
  then have "kbd_ok s'" using assms shown_facts [OF s'(3)] screen_rel_cursor [OF s'(2)] by (simp add: kbd_ok_def)
  with s'(1) show ?thesis by blast
qed

text \<open>The scancodes below \<open>0x3b\<close> and the two extended ones have their low byte in the table.\<close>

lemma unat_low: "unat (ucast (x :: u16) :: u8) = unat x mod 256" "unat (ucast (y :: u8) :: u16) = unat y"
  using unsigned_less [of y, where ?'a = nat] by (simp_all add: unsigned_ucast_eq take_bit_eq_mod)

lemma low_byte_same: "unat (sc :: u16) < 256 \<Longrightarrow> sc AND 0x00ff = sc"
proof -
  assume "unat sc < 256"
  then have "take_bit 8 sc = sc" by (simp add: word_unat_eq_iff unsigned_take_bit_eq take_bit_nat_eq_self)
  then show ?thesis by (simp add: take_bit_eq_mask mask_eq_exp_minus_1)
qed

lemma key_low_byte:
  fixes sc :: u16
  assumes "(0 < sc \<and> sc < 0x3b) \<or> sc = alt_r_make \<or> sc = ctrl_r_make"
  shows "unat (ucast (sc AND 0x00ff) :: u8) < 59"
proof -
  have "unat sc < 59 \<or> sc = 0xe038 \<or> sc = 0xe01d"
    using assms by (auto simp: make_codes word_less_nat_alt)
  then show ?thesis
  proof (elim disjE)
    assume k: "unat sc < 59"
    then show ?thesis using low_byte_same [of sc] by (simp add: unat_low)
  qed simp_all
qed

section \<open>Properties\<close>

text \<open>C26 A key that stands for a character shows that character at the cursor and puts it into the queue of the
  readers, whose waiting thread becomes ready; letters are capital when exactly one of shift and caps lock is
  on. The modifiers stay as they are.\<close>

theorem keyboard_types:
  assumes "kbd_ok s" and "\<not> ext_scancode s" and "0 < key" and "key < 0x3b"
    and "c = key_char key (shift_status s) (caps_lock_status s)" and "c \<noteq> 0"
    and "ring_len (kbd_buf s) < 63" and "c = 8 \<Longrightarrow> cursor s \<noteq> 0"
  shows "\<exists>s'. intr_keyboard_handler key s = Inr s' \<and> kbd_ok s' \<and> screen_rel s' (type_char c (typing s)) \<and>
    queued (kbd_buf s') = queued (kbd_buf s) @ [c] \<and> flags s' = flags s \<and>
    (consumer (kbd_buf s) = NULL \<or> status (task s' (consumer (kbd_buf s))) = TASK_READY)"
proof -
  define sc where "sc = (ucast key :: u16)"
  have k: "unat key < 59" using assms(4) by (simp add: word_less_nat_alt)
  have u: "unat sc = unat key" using k by (simp add: sc_def unat_low)
  have low: "sc AND 0x00ff = sc" using u k low_byte_same [of sc] by simp
  have key: "(ucast sc :: u8) = key" using u k by (simp add: word_unat_eq_iff unat_low)
  have sc: "sc \<noteq> 0xe0" "0 < sc" "sc < 0x3b"
    using u k assms(3) by (auto simp: word_less_nat_alt)
  have "\<not> bit (unat sc) 7" using u k by (simp add: bit_iff_odd)
  then have "\<not> bit sc 7" by (simp add: bit_unsigned_iff)
  then have nb: "sc AND 0x0080 = 0"
    using and_exp_eq_0_iff_not_bit [of sc 7] by simp
  define sh where "sh = shift_for sc (shift_status s) (caps_lock_status s)"
  have "sc = of_nat (unat key)" using u by (simp add: word_unat_eq_iff sc_def)
  then have "(if sh then snd (keymap ! unat key) else fst (keymap ! unat key)) = c"
    using keymap_shift [OF k, of "shift_status s" "caps_lock_status s"] assms(5) by (simp add: sh_def)
  then have at: "keymap_at key sh = Inr c" using k by (simp add: keymap_at_ok)
  obtain s' where s': "bindr (ioq_full s) (\<lambda>full. if \<not> full then bindr (put_char c s) (\<lambda>s. bindr (ioq_putchar c s) (\<lambda>(_, s). Inr s)) else Inr s) = Inr s'"
    "kbd_ok s'" "screen_rel s' (type_char c (typing s))" "queued (kbd_buf s') = queued (kbd_buf s) @ [c]" "flags s' = flags s"
    "consumer (kbd_buf s) = NULL \<or> status (task s' (consumer (kbd_buf s))) = TASK_READY"
    by (rule char_accepted [OF assms(1,7,8)])
  have "key_make sc s = Inr s'"
    unfolding key_make_def Let_def low key sh_def [symmetric] at bindr_Inr using assms(6) s'(1) by simp
  then have "intr_keyboard_handler key s = Inr s'"
    using sc nb assms(2) by (simp add: intr_keyboard_handler_def sc_def [symmetric] Let_def)
  then show ?thesis using s'(2-) by blast
qed

definition fresh_kbd :: kbd where
  "fresh_kbd = io.extend (io.truncate fresh_io)
     \<lparr>ctrl_status = False, shift_status = True, alt_status = False, caps_lock_status = False, ext_scancode = False\<rparr>"

lemma fresh_kbd_fields:
  "kbd_buf fresh_kbd = kbd_buf fresh_io" "eflags fresh_kbd = 0" "cursor fresh_kbd = 0" "shift_status fresh_kbd = True"
  "caps_lock_status fresh_kbd = False" "ext_scancode fresh_kbd = False"
  by (simp_all add: fresh_kbd_def fresh_io_def fresh_screen_def screen.defs io.defs list_init_def set_nxt_def set_prev_def Let_def)

lemma fresh_kbd_ok: "kbd_ok fresh_kbd" "ring_len (kbd_buf fresh_kbd) = 0" "queued (kbd_buf fresh_kbd) = []"
  by (simp_all add: kbd_ok_def fresh_kbd_fields fresh_io_fields intr_get_status_def ring_ok_def wakeable_def ring_len_def queued_def)

theorem keyboard_types_witness:
  "\<exists>s'. intr_keyboard_handler 0x1e fresh_kbd = Inr s' \<and> queued (kbd_buf s') = [65]"
proof -
  have "key_char 0x1e True False = 65" by code_simp
  then show ?thesis
    using keyboard_types [OF fresh_kbd_ok(1), of "0x1e" 65] by (auto simp: fresh_kbd_fields fresh_kbd_ok [unfolded fresh_kbd_fields])
qed

text \<open>A backspace at the top left corner of the screen.\<close>

definition corner_backspace :: "u8 \<Rightarrow> 'a kbd_scheme \<Rightarrow> bool" where
  "corner_backspace port s \<longleftrightarrow> port = 0x0e \<and> \<not> ext_scancode s \<and> cursor s = 0 \<and> ring_len (kbd_buf s) < 63"

lemma corner_backspace_faults:
  assumes "kbd_ok s" and "corner_backspace port s"
  shows "intr_keyboard_handler port s = Inl OutOfBounds"
proof -
  have c: "port = 0x0e" "\<not> ext_scancode s" "cursor s = 0" "ring_len (kbd_buf s) < 63"
    using assms(2) by (simp_all add: corner_backspace_def)
  have "ioq_full s = Inr False" using queued_full [of "kbd_buf s"] assms(1) c(4) by (simp add: ioq_full_def kbd_ok_def)
  moreover have "put_char 8 s = Inl OutOfBounds" by (rule put_char_home [OF c(3)])
  moreover have "keymap_at 0x0e sh = Inr 8" for sh by (simp add: keymap_at_def keymap_def)
  ultimately show ?thesis using c by (simp add: intr_keyboard_handler_def key_make_def Let_def)
qed

lemma keyboard_returns:
  assumes "kbd_ok s" and "\<not> corner_backspace port s"
  shows "\<exists>s'. intr_keyboard_handler port s = Inr s' \<and> kbd_ok s'"
proof (cases "port = 0xe0")
  case True
  then show ?thesis using assms(1) by (simp add: intr_keyboard_handler_def)
next
  case False
  have p: "(ucast port :: u16) \<noteq> 0xe0"
  proof
    assume "(ucast port :: u16) = 0xe0"
    then have "unat (ucast port :: u16) = 0xe0" by simp
    then have "unat port = 0xe0" using unsigned_less [of port, where ?'a = nat] by (simp add: unat_low)
    then show False using False by (simp add: word_unat_eq_iff)
  qed
  define sc where "sc = (if ext_scancode s then 0xe000 OR ucast port else (ucast port :: u16))"
  define t where "t = (if ext_scancode s then s\<lparr>ext_scancode := False\<rparr> else s)"
  have t: "kbd_ok t" "cursor t = cursor s" using assms(1) by (simp_all add: t_def)
  have h: "intr_keyboard_handler port s =
      (if sc AND 0x0080 \<noteq> 0 then Inr (key_break sc t)
       else if (0x00 < sc \<and> sc < 0x3b) \<or> sc = alt_r_make \<or> sc = ctrl_r_make then key_make sc t
       else put_str unknown_key t)"
    using p by (simp add: intr_keyboard_handler_def Let_def sc_def t_def)
  have "ucast (sc AND 0x00ff) = port"
  proof -
    obtain x where x: "(0xe000 :: u16) = push_bit 8 x"
      by (rule that [of "0xe0"]) (simp add: push_bit_eq_mult)
    have "w AND 0x00ff = take_bit 8 w" for w :: u16 by (simp add: take_bit_eq_mask mask_eq_exp_minus_1)
    then show ?thesis unfolding sc_def x by (intro bit_word_eqI) (auto simp: bit_simps)
  qed
  then have low: "ucast (sc AND 0x00ff) = (0x0e :: u8) \<Longrightarrow> port = 0x0e" by simp
  have bs: "cursor t \<noteq> 0" if "ucast (sc AND 0x00ff) = (0x0e :: u8)" "ring_len (kbd_buf t) < 63"
    and made: "(0x00 < sc \<and> sc < 0x3b) \<or> sc = alt_r_make \<or> sc = ctrl_r_make"
  proof -
    have port: "port = 0x0e" by (rule low [OF that(1)])
    have "\<not> ext_scancode s" using made port by (auto simp: sc_def make_codes)
    then show ?thesis using assms(2) port that(2) t(2) by (simp add: corner_backspace_def t_def)
  qed
  consider "sc AND 0x0080 \<noteq> 0"
    | "sc AND 0x0080 = 0" "(0x00 < sc \<and> sc < 0x3b) \<or> sc = alt_r_make \<or> sc = ctrl_r_make"
    | "sc AND 0x0080 = 0" "\<not> ((0x00 < sc \<and> sc < 0x3b) \<or> sc = alt_r_make \<or> sc = ctrl_r_make)" by blast
  then show ?thesis
  proof cases
    case 1
    then show ?thesis using h key_break_ok [OF t(1)] by simp
  next
    case 2
    then show ?thesis using h key_make_ok [OF t(1) key_low_byte [OF 2(2)] bs [OF _ _ 2(2)]] by simp
  next
    case 3
    then show ?thesis using h unknown_ok [OF t(1)] by (simp only: if_False simp_thms)
  qed
qed

text \<open>C27 What the handler does on every byte that the keyboard may send, from a well-formed state: it returns with a
  well-formed state, whatever the modifiers are and however full the queue is; the look-up stays within the
  table, and a writer is never put to sleep. The one exception is a backspace with the cursor in the top
  left corner and room in the queue, where the handler writes behind the video segment.\<close>

theorem keyboard_preserves:
  assumes "kbd_ok s"
  shows "if corner_backspace port s then intr_keyboard_handler port s = Inl OutOfBounds
    else \<exists>s'. intr_keyboard_handler port s = Inr s' \<and> kbd_ok s'"
  using corner_backspace_faults [OF assms] keyboard_returns [OF assms] by simp

theorem keyboard_preserves_witness:
  "(\<exists>s'. intr_keyboard_handler 0x2a fresh_kbd = Inr s' \<and> kbd_ok s') \<and> intr_keyboard_handler 0x0e fresh_kbd = Inl OutOfBounds"
  using keyboard_preserves [OF fresh_kbd_ok(1), of "0x2a"] keyboard_preserves [OF fresh_kbd_ok(1), of "0x0e"]
  by (simp add: corner_backspace_def fresh_kbd_fields fresh_kbd_ok(2) [unfolded fresh_kbd_fields])

end
