(* ===== verification/Descriptors.thy ===== *)
theory Descriptors
  imports Screen
begin

unbundle bit_operations_syntax

text \<open>
  The tables of the processor: \<^verbatim>\<open>kernel/interrupt.c\<close> builds the interrupt descriptor table, the table of the
  C handlers with the names of the exceptions, and programs the interrupt controller; \<^verbatim>\<open>userprog/tss.c\<close>
  builds the segment descriptors of \<^verbatim>\<open>kernel/global.h\<close>. The addresses of the assembler entries and of the C
  functions are those that the linker gives them: they are arguments.
\<close>

section \<open>Gates\<close>

record gate_desc =
  func_offset_low_word :: u16
  selector :: u16
  dcount :: u8
  attribute :: u8
  func_offset_high_word :: u16

definition IDT_DESC_CNT :: nat where "IDT_DESC_CNT = 0x81"
definition SELECTOR_K_CODE :: u16 where "SELECTOR_K_CODE = push_bit 3 1 + push_bit 2 0 + 0"
definition IDT_DESC_ATTR_DPL0 :: u8 where "IDT_DESC_ATTR_DPL0 = push_bit 7 1 + push_bit 5 0 + 0xe"
definition IDT_DESC_ATTR_DPL3 :: u8 where "IDT_DESC_ATTR_DPL3 = push_bit 7 1 + push_bit 5 3 + 0xe"

definition make_idt_desc :: "u8 \<Rightarrow> addr \<Rightarrow> gate_desc" where
  "make_idt_desc attr function =
     \<lparr>func_offset_low_word = ucast (function AND 0x0000FFFF), selector = SELECTOR_K_CODE, dcount = 0, attribute = attr,
      func_offset_high_word = ucast (drop_bit 16 (function AND 0xFFFF0000))\<rparr>"

text \<open>The state: the descriptor table, the handlers and names, the bytes sent to the ports in order, and the
  register \<open>cr2\<close> with the address of the last page fault.\<close>

record machine = screen +
  idt :: "gate_desc list"
  idt_table :: "addr list"
  intr_name :: "u8 list list"
  port_writes :: "(u16 \<times> u8) list"
  idtr :: "64 word"
  cr2 :: u32

text \<open>\<open>intr_entry_table i\<close> is the word at index \<open>i\<close> of the table of entries.\<close>

primrec idt_desc_loop :: "(nat \<Rightarrow> addr) \<Rightarrow> nat \<Rightarrow> nat \<Rightarrow> gate_desc list \<Rightarrow> gate_desc list" where
  "idt_desc_loop intr_entry_table 0 i tab = tab"
| "idt_desc_loop intr_entry_table (Suc n) i tab =
     idt_desc_loop intr_entry_table n (Suc i) (tab[i := make_idt_desc IDT_DESC_ATTR_DPL0 (intr_entry_table i)])"

definition idt_desc_init :: "(nat \<Rightarrow> addr) \<Rightarrow> addr \<Rightarrow> 'a machine_scheme \<Rightarrow> 'a machine_scheme" where
  "idt_desc_init intr_entry_table syscall_entry s =
     (let lastindex = IDT_DESC_CNT - 1;
          tab = idt_desc_loop intr_entry_table IDT_DESC_CNT 0 (idt s)
      in s\<lparr>idt := tab[lastindex := make_idt_desc IDT_DESC_ATTR_DPL3 syscall_entry]\<rparr>)"

section \<open>Handlers and the interrupt controller\<close>

definition put_ports :: "(u16 \<times> u8) list \<Rightarrow> 'a machine_scheme \<Rightarrow> 'a machine_scheme" where
  "put_ports ws s = s\<lparr>port_writes := port_writes s @ ws\<rparr>"

definition pic_init :: "'a machine_scheme \<Rightarrow> 'a machine_scheme" where
  "pic_init s = put_ports
     [(0x20, 0x11), (0x21, 0x20), (0x21, 0x04), (0x21, 0x01),
      (0xa0, 0x11), (0xa1, 0x28), (0xa1, 0x02), (0xa1, 0x01),
      (0x21, 0xf8), (0xa1, 0xbf)] s"

text \<open>The names as byte strings.\<close>

definition chars :: "string \<Rightarrow> u8 list" where
  "chars = map (\<lambda>c. of_nat (of_char c))"

definition exception_names :: "u8 list list" where
  "exception_names = map chars
     [''#DE Divide Error'', ''#DE Debug Exception'', ''NMI Interrupt'', ''#BP Breakpoint Exception'',
      ''#OF Overflow Exception'', ''#BR BOUND Range Exceeded Exception'', ''#UD Invalid Opcode Exception'',
      ''#NM Device Not Available Exception'', ''#DF Double Fault Exception'', ''Coprocessor Segment Overrun'',
      ''#TS Invalid TSS Exception'', ''#NP Segment Not Present'', ''#SS Stack Fault Exception'',
      ''#GP General Protection Exception'', ''#PF Page-Fault Exception'', ''unknown'',
      ''#MF x87 FPU Floating-Point Error'', ''#AC Alignment Check Exception'', ''#MC Machine-Check Exception'',
      ''#XF SIMD Floating-Point Exception'']"

definition exception_init :: "addr \<Rightarrow> 'a machine_scheme \<Rightarrow> 'a machine_scheme" where
  "exception_init general s =
     s\<lparr>idt_table := replicate IDT_DESC_CNT general,
       intr_name := exception_names @ replicate (IDT_DESC_CNT - length exception_names) (chars ''unknown'')\<rparr>"

definition register_handler :: "u8 \<Rightarrow> addr \<Rightarrow> 'a machine_scheme \<Rightarrow> 'a machine_scheme res" where
  "register_handler vector_no function s =
     (if unat vector_no < length (idt_table s) then Inr (s\<lparr>idt_table := (idt_table s)[unat vector_no := function]\<rparr>)
      else Inl OutOfBounds)"

text \<open>\<open>keyboard_init\<close> of \<^verbatim>\<open>device/keyboard.c\<close>, without its messages.\<close>

definition keyboard_init :: "addr \<Rightarrow> 'a machine_scheme \<Rightarrow> 'a machine_scheme res" where
  "keyboard_init intr_keyboard_handler s = register_handler 0x21 intr_keyboard_handler s"

text \<open>The messages that the initialisation prints are left out. \<open>idt_at\<close> is the address of the table.\<close>

definition idt_init :: "(nat \<Rightarrow> addr) \<Rightarrow> addr \<Rightarrow> addr \<Rightarrow> addr \<Rightarrow> 'a machine_scheme \<Rightarrow> 'a machine_scheme" where
  "idt_init intr_entry_table syscall_entry general idt_at s =
     (let s = idt_desc_init intr_entry_table syscall_entry s;
          s = exception_init general s;
          s = pic_init s
      in s\<lparr>idtr := (of_nat (8 * IDT_DESC_CNT) - 1) OR push_bit 16 (ucast idt_at)\<rparr>)"

text \<open>The default handler: \<open>True\<close> when it returns, \<open>False\<close> when it stops the machine in its endless loop
  after the message.\<close>

primrec blanks :: "nat \<Rightarrow> 'a machine_scheme \<Rightarrow> 'a machine_scheme res" where
  "blanks 0 s = Inr s"
| "blanks (Suc n) s = bindr (put_char 0x20 s) (blanks n)"

definition general_intr_handler :: "u8 \<Rightarrow> 'a machine_scheme \<Rightarrow> (bool \<times> 'a machine_scheme) res" where
  "general_intr_handler vec_nr s =
     (if vec_nr = 0x27 \<or> vec_nr = 0x2f then Inr (True, s)
      else bindr (blanks 320 (set_cursor 0 s)) (\<lambda>s.
           bindr (put_str (chars ''!!!!!!!!!!        excetion messqage begin        !!!!!!!!!!'') (set_cursor 0 s)) (\<lambda>s.
           if length (intr_name s) \<le> unat vec_nr then Inl OutOfBounds
           else bindr (put_str (intr_name s ! unat vec_nr) (set_cursor 88 s)) (\<lambda>s.
                bindr (if vec_nr = 14 then bindr (put_str (10 # chars '' page fault addr is '') s) (put_int (cr2 s)) else Inr s) (\<lambda>s.
                bindr (put_str (10 # chars '' !!!!!!!!!!        excetion message end        !!!!!!!!!!!'') s) (\<lambda>s.
                Inr (False, s)))))))"

section \<open>Segment descriptors\<close>

record gdt_desc =
  limit_low_word :: u16
  base_low_word :: u16
  base_mid_byte :: u8
  attr_low_byte :: u8
  limit_high_attr_high :: u8
  base_high_byte :: u8

definition make_gdt_desc :: "addr \<Rightarrow> u32 \<Rightarrow> u8 \<Rightarrow> u8 \<Rightarrow> gdt_desc" where
  "make_gdt_desc desc_base limit attr_low attr_high =
     \<lparr>limit_low_word = ucast (limit AND 0x0000ffff), base_low_word = ucast (desc_base AND 0x0000ffff),
      base_mid_byte = ucast (drop_bit 16 (desc_base AND 0x00ff0000)), attr_low_byte = attr_low,
      limit_high_attr_high = ucast (drop_bit 16 (limit AND 0x000f0000)) + attr_high,
      base_high_byte = ucast (drop_bit 24 desc_base)\<rparr>"

definition GDT_ATTR_HIGH :: u8 where
  "GDT_ATTR_HIGH = push_bit 7 1 + push_bit 6 1 + push_bit 5 0 + push_bit 4 0"
definition GDT_CODE_ATTR_LOW_DPL3 :: u8 where
  "GDT_CODE_ATTR_LOW_DPL3 = push_bit 7 1 + push_bit 5 3 + push_bit 4 1 + 8"
definition GDT_DATA_ATTR_LOW_DPL3 :: u8 where
  "GDT_DATA_ATTR_LOW_DPL3 = push_bit 7 1 + push_bit 5 3 + push_bit 4 1 + 2"
definition TSS_ATTR_HIGH :: u8 where
  "TSS_ATTR_HIGH = push_bit 7 1 + push_bit 6 0 + push_bit 5 0 + push_bit 4 0 + 0"
definition TSS_ATTR_LOW :: u8 where
  "TSS_ATTR_LOW = push_bit 7 1 + push_bit 5 0 + push_bit 4 0 + 9"
definition SELECTOR_K_STACK :: u32 where "SELECTOR_K_STACK = push_bit 3 2 + push_bit 2 0 + 0"
definition SELECTOR_TSS :: u16 where "SELECTOR_TSS = push_bit 3 4 + push_bit 2 0 + 0"

lemmas descriptor_constants = IDT_DESC_CNT_def SELECTOR_K_CODE_def IDT_DESC_ATTR_DPL0_def IDT_DESC_ATTR_DPL3_def
  GDT_ATTR_HIGH_def GDT_CODE_ATTR_LOW_DPL3_def GDT_DATA_ATTR_LOW_DPL3_def TSS_ATTR_HIGH_def TSS_ATTR_LOW_def
  SELECTOR_K_STACK_def SELECTOR_TSS_def

text \<open>\<open>struct tss\<close> is 27 words; \<open>esp0\<close>, the second, is the field \<open>tss_esp0\<close> of the scheduler's state, so the
  list has a hole there.\<close>

record segments = machine +
  tss_words :: "u32 list"
  gdt :: "addr \<Rightarrow> gdt_desc"
  gdtr :: "64 word"
  task_register :: u16

definition tss_init :: "addr \<Rightarrow> 'a segments_scheme \<Rightarrow> 'a segments_scheme" where
  "tss_init tss_at s =
     (let tss_size = 108;
          s = s\<lparr>tss_words := replicate 27 0, tss_esp0 := 0\<rparr>;
          s = s\<lparr>tss_words := (tss_words s)[2 := SELECTOR_K_STACK, 26 := tss_size]\<rparr>;
          s = s\<lparr>gdt := (gdt s)(0xc0000920 := make_gdt_desc tss_at (tss_size - 1) TSS_ATTR_LOW TSS_ATTR_HIGH)\<rparr>;
          s = s\<lparr>gdt := (gdt s)(0xc0000928 := make_gdt_desc 0 0xfffff GDT_CODE_ATTR_LOW_DPL3 GDT_ATTR_HIGH)\<rparr>;
          s = s\<lparr>gdt := (gdt s)(0xc0000930 := make_gdt_desc 0 0xfffff GDT_DATA_ATTR_LOW_DPL3 GDT_ATTR_HIGH)\<rparr>
      in s\<lparr>gdtr := (8 * 7 - 1) OR push_bit 16 (ucast (0xc0000900 :: u32)), task_register := SELECTOR_TSS\<rparr>)"

section \<open>What the processor reads from the tables\<close>

definition gate_target :: "gate_desc \<Rightarrow> addr" where
  "gate_target g = push_bit 16 (ucast (func_offset_high_word g)) OR ucast (func_offset_low_word g)"

definition gate_dpl :: "gate_desc \<Rightarrow> nat" where
  "gate_dpl g = unat (drop_bit 5 (attribute g) AND 3)"

definition interrupt_gate :: "gate_desc \<Rightarrow> bool" where
  "interrupt_gate g \<longleftrightarrow> bit (attribute g) 7 \<and> attribute g AND 0x1f = 0xe \<and> dcount g = 0"

lemma low_half: "(x :: u32) AND 0x0000FFFF = take_bit 16 x"
  by (simp add: take_bit_eq_mask mask_eq_exp_minus_1)

lemma high_half: "(x :: u32) AND 0xFFFF0000 = push_bit 16 (drop_bit 16 x)"
proof -
  have m: "(0xFFFF0000 :: u32) = NOT (mask 16)" by (simp add: mask_eq_exp_minus_1 not_eq_complement)
  show ?thesis unfolding m by (rule bit_word_eqI) (auto simp: bit_simps)
qed

lemma gate_target_make: "gate_target (make_idt_desc a f) = f"
  unfolding gate_target_def make_idt_desc_def low_half high_half
  by (rule bit_word_eqI) (auto simp: bit_simps)

lemma gate_kinds:
  "interrupt_gate (make_idt_desc IDT_DESC_ATTR_DPL0 f)" "gate_dpl (make_idt_desc IDT_DESC_ATTR_DPL0 f) = 0"
  "interrupt_gate (make_idt_desc IDT_DESC_ATTR_DPL3 f)" "gate_dpl (make_idt_desc IDT_DESC_ATTR_DPL3 f) = 3"
  by (simp_all add: interrupt_gate_def gate_dpl_def make_idt_desc_def descriptor_constants)

lemma idt_desc_loop_nth:
  "i + n \<le> length tab \<Longrightarrow> idt_desc_loop entries n i tab ! k =
     (if i \<le> k \<and> k < i + n then make_idt_desc IDT_DESC_ATTR_DPL0 (entries k) else tab ! k)"
  by (induction n arbitrary: i tab) (auto simp: nth_list_update)

lemma idt_desc_loop_length [simp]: "length (idt_desc_loop entries n i tab) = length tab"
  by (induction n arbitrary: i tab) auto

lemma exception_names_length: "length exception_names = 20"
  by (simp add: exception_names_def)

section \<open>Properties\<close>

text \<open>After \<open>idt_init\<close> every vector below \<open>0x80\<close> has an interrupt gate of ring 0 to the word of the entry table
  with its number, vector \<open>0x80\<close> a gate that programs may use to the entry of the system calls, every handler is
  the default one, and the register of the table names 129 gates of 8 bytes.\<close>

theorem idt_dispatches:
  assumes "length (idt s) = IDT_DESC_CNT" and "s' = idt_init entries syscall_entry general idt_at s"
  shows "(\<forall>i < 0x80. gate_target (idt s' ! i) = entries i \<and> interrupt_gate (idt s' ! i) \<and> gate_dpl (idt s' ! i) = 0) \<and>
    gate_target (idt s' ! 0x80) = syscall_entry \<and> interrupt_gate (idt s' ! 0x80) \<and> gate_dpl (idt s' ! 0x80) = 3 \<and>
    idt_table s' = replicate 0x81 general \<and> length (intr_name s') = 0x81 \<and>
    take_bit 16 (idtr s') = 8 * 0x81 - 1 \<and> drop_bit 16 (idtr s') = ucast idt_at"
proof -
  have tab: "idt s' = (idt_desc_loop entries 0x81 0 (idt s))[0x80 := make_idt_desc IDT_DESC_ATTR_DPL3 syscall_entry]"
    and len: "length (idt s) = 0x81"
    using assms by (simp_all add: idt_init_def idt_desc_init_def exception_init_def pic_init_def put_ports_def IDT_DESC_CNT_def)
  have "idt s' ! i = make_idt_desc IDT_DESC_ATTR_DPL0 (entries i)" if "i < 0x80" for i
    using that len by (simp add: tab idt_desc_loop_nth)
  moreover have "idt s' ! 0x80 = make_idt_desc IDT_DESC_ATTR_DPL3 syscall_entry" using len by (simp add: tab)
  moreover have "idt_table s' = replicate 0x81 general \<and> length (intr_name s') = 0x81"
    using assms(2) exception_names_length by (simp add: idt_init_def exception_init_def pic_init_def put_ports_def IDT_DESC_CNT_def Let_def)
  moreover have "take_bit 16 (idtr s') = 8 * 0x81 - 1 \<and> drop_bit 16 (idtr s') = ucast idt_at"
  proof -
    have i: "idtr s' = 1031 OR push_bit 16 (ucast idt_at)" using assms(2) by (simp add: idt_init_def Let_def IDT_DESC_CNT_def)
    have lo: "take_bit 16 (1031 :: 64 word) = 1031" "drop_bit 16 (1031 :: 64 word) = 0" by simp_all
    have "take_bit 16 (push_bit 16 (ucast idt_at :: 64 word)) = 0" by (rule bit_word_eqI) (auto simp: bit_simps)
    moreover have "drop_bit 16 (push_bit 16 (ucast idt_at :: 64 word)) = ucast idt_at"
      by (rule bit_word_eqI) (auto simp: bit_simps dest: bit_imp_le_length)
    ultimately show ?thesis unfolding i take_bit_or drop_bit_or lo by simp
  qed
  ultimately show ?thesis by (simp add: gate_target_make gate_kinds)
qed

definition desc_base :: "gdt_desc \<Rightarrow> addr" where
  "desc_base d = push_bit 24 (ucast (base_high_byte d)) OR push_bit 16 (ucast (base_mid_byte d)) OR ucast (base_low_word d)"

definition desc_limit :: "gdt_desc \<Rightarrow> u32" where
  "desc_limit d = push_bit 16 (ucast (take_bit 4 (limit_high_attr_high d))) OR ucast (limit_low_word d)"

text \<open>The last offset within the segment: the limit counts pages when the granularity bit is set.\<close>

definition last_offset :: "gdt_desc \<Rightarrow> u32" where
  "last_offset d = (if bit (limit_high_attr_high d) 7 then push_bit 12 (desc_limit d) OR 0xfff else desc_limit d)"

text \<open>The processor reads from a descriptor the base and the limit of 20 bits that it was made for, and the
  attributes, whose upper byte leaves room for the limit.\<close>

theorem gdt_desc_encodes:
  assumes "limit < 0x100000" and "take_bit 4 attr_high = 0" and "d = make_gdt_desc base limit attr_low attr_high"
  shows "desc_base d = base \<and> desc_limit d = limit \<and> attr_low_byte d = attr_low \<and>
    drop_bit 4 (limit_high_attr_high d) = drop_bit 4 attr_high"
proof -
  have hi: "\<not> bit attr_high n" if "n < 4" for n
    using assms(2) that by (metis bit_take_bit_iff bit_0_eq bot_apply bot_bool_def)
  have lim: "\<not> bit limit n" if "20 \<le> n" for n
  proof
    assume "bit limit n"
    moreover have "take_bit 20 limit = limit" using assms(1) by (simp add: word_unat_eq_iff unsigned_take_bit_eq take_bit_nat_eq_self word_less_nat_alt)
    ultimately show False using that by (metis bit_take_bit_iff leD)
  qed
  have lim_high: "n - 16 < 4" if "bit limit n" for n
    using lim [of n] that by linarith
  have m: "x AND 0x000f0000 = push_bit 16 (take_bit 4 (drop_bit 16 x))" "x AND 0x00ff0000 = push_bit 16 (take_bit 8 (drop_bit 16 x))" for x :: u32
  proof -
    have c: "(0x000f0000 :: u32) = push_bit 16 (mask 4)" "(0x00ff0000 :: u32) = push_bit 16 (mask 8)"
      by (simp_all add: mask_eq_exp_minus_1 push_bit_eq_mult)
    show "x AND 0x000f0000 = push_bit 16 (take_bit 4 (drop_bit 16 x))" "x AND 0x00ff0000 = push_bit 16 (take_bit 8 (drop_bit 16 x))"
      unfolding c take_bit_eq_mask by (rule bit_word_eqI; auto simp: bit_simps)+
  qed
  define l where "l = (ucast (drop_bit 16 (limit AND 0x000f0000)) :: u8)"
  have l: "bit l n \<longleftrightarrow> n < 4 \<and> bit limit (n + 16)" for n
    unfolding l_def m by (auto simp: bit_simps add.commute)
  have "l AND attr_high = 0" using l hi by (intro bit_word_eqI) (auto simp: bit_simps)
  then have "l + attr_high = l OR attr_high" by (rule disjunctive_add_eq_or)
  then have d: "limit_high_attr_high d = l OR attr_high" "base_mid_byte d = ucast (drop_bit 16 (base AND 0x00ff0000))"
    "limit_low_word d = ucast (limit AND 0xffff)" "base_low_word d = ucast (base AND 0xffff)"
    "base_high_byte d = ucast (drop_bit 24 base)" "attr_low_byte d = attr_low"
    by (simp_all add: assms(3) make_gdt_desc_def l_def)
  have "desc_base d = base"
    unfolding desc_base_def d low_half m
  proof (rule bit_word_eqI)
    fix n :: nat
    assume "n < LENGTH(32)"
    then have n: "n < 32" by simp
    consider "n < 16" | "16 \<le> n" "n - 16 < 8" "n < 24" | "24 \<le> n" "\<not> n - 16 < 8" "24 + (n - 24) = n" by linarith
    then show "bit (push_bit 24 (ucast (ucast (drop_bit 24 base) :: u8)) OR
        push_bit 16 (ucast (ucast (drop_bit 16 (push_bit 16 (take_bit 8 (drop_bit 16 base)))) :: u8)) OR
        ucast (ucast (take_bit 16 base) :: u16) :: u32) n = bit base n"
      using n by cases (auto simp: bit_simps)
  qed
  moreover have "desc_limit d = limit"
    unfolding desc_limit_def d low_half
    by (rule bit_word_eqI) (auto simp: bit_simps l dest: lim_high hi)
  moreover have "drop_bit 4 (limit_high_attr_high d) = drop_bit 4 attr_high"
    unfolding d by (rule bit_word_eqI) (auto simp: bit_simps l)
  ultimately show ?thesis using d by simp
qed

definition fresh_screen_seg :: segments where
  "fresh_screen_seg = screen.extend (screen.truncate fresh_screen)
     \<lparr>idt = replicate 0x81 \<lparr>func_offset_low_word = 0, selector = 0, dcount = 0, attribute = 0, func_offset_high_word = 0\<rparr>,
      idt_table = [], intr_name = [], port_writes = [], idtr = 0, cr2 = 0, tss_words = [], gdt = (\<lambda>_. make_gdt_desc 0 0 0 0),
      gdtr = 0, task_register = 0\<rparr>"

theorem idt_dispatches_witness:
  "gate_target (idt (idt_init (\<lambda>i. 0xc0001500 + of_nat i) 0xc0001a00 0xc0002000 0xc0010000 fresh_screen_seg) ! 0x21) = 0xc0001521"
proof -
  have "length (idt fresh_screen_seg) = IDT_DESC_CNT" by (simp add: fresh_screen_seg_def screen.defs IDT_DESC_CNT_def)
  from idt_dispatches [OF this refl, of "\<lambda>i. 0xc0001500 + of_nat i" "0xc0001a00" "0xc0002000" "0xc0010000"]
  show ?thesis by simp
qed

theorem gdt_desc_encodes_witness:
  "desc_base (make_gdt_desc 0xc0012345 0xfffff GDT_CODE_ATTR_LOW_DPL3 GDT_ATTR_HIGH) = 0xc0012345"
  using gdt_desc_encodes [of "0xfffff" GDT_ATTR_HIGH _ "0xc0012345" GDT_CODE_ATTR_LOW_DPL3]
  by (simp add: GDT_ATTR_HIGH_def)

text \<open>The segment of the TSS is meant to end with its 108 bytes, behind which \<open>io_base\<close> points; but its descriptor
  counts pages, so the processor takes the bytes behind the TSS for a map of ports.\<close>

lemma tss_limit_counts_pages:
  assumes "d = gdt (tss_init tss_at s) 0xc0000920"
  shows "last_offset d = 442367" and "tss_words (tss_init tss_at s) ! 26 = 108"
proof -
  have d: "d = make_gdt_desc tss_at 107 TSS_ATTR_LOW TSS_ATTR_HIGH"
    using assms by (simp add: tss_init_def Let_def)
  show "last_offset d = 442367"
    unfolding d last_offset_def desc_limit_def make_gdt_desc_def TSS_ATTR_HIGH_def by simp
  show "tss_words (tss_init tss_at s) ! 26 = 108" by (simp add: tss_init_def Let_def)
qed

end
