(* ===== verification/Traps.thy ===== *)
theory Traps
  imports Prelude
begin

unbundle bit_operations_syntax

text \<open>
  The way into the kernel and back: the entries of \<^verbatim>\<open>kernel/kernel.S\<close>, which save the registers of the
  interrupted program in the order of \<open>struct intr_stack\<close> (\<^verbatim>\<open>thread/thread.h\<close>) and restore them in
  \<open>intr_exit\<close>; the table of system calls (\<^verbatim>\<open>userprog/syscall-init.c\<close>); and the stubs of the programs
  (\<^verbatim>\<open>lib/user/syscall.c\<close>). The kernel stack is the list of its words, the top first. What the processor
  pushes and pops for an interrupt and for \<open>iretd\<close> is its documented behaviour: the stack pointer and its
  segment are saved only when the interrupted code ran in ring 3.
\<close>

section \<open>Registers and the frame\<close>

record regs =
  eax :: u32
  ecx :: u32
  edx :: u32
  ebx :: u32
  ebp :: u32
  esi :: u32
  edi :: u32
  gs :: u32
  fs_seg :: u32
  es :: u32
  ds :: u32
  eip :: u32
  cs :: u32
  flags_reg :: u32
  esp_reg :: u32
  ss :: u32

record intr_stack =
  f_vec_no :: u32
  f_edi :: u32
  f_esi :: u32
  f_ebp :: u32
  f_esp_dummy :: u32
  f_ebx :: u32
  f_edx :: u32
  f_ecx :: u32
  f_eax :: u32
  f_gs :: u32
  f_fs :: u32
  f_es :: u32
  f_ds :: u32
  f_err_code :: u32
  f_eip :: u32
  f_cs :: u32
  f_eflags :: u32
  f_esp :: u32
  f_ss :: u32

text \<open>The words of the structure, from its lowest address on.\<close>

definition intr_words :: "intr_stack \<Rightarrow> u32 list" where
  "intr_words f = [f_vec_no f, f_edi f, f_esi f, f_ebp f, f_esp_dummy f, f_ebx f, f_edx f, f_ecx f, f_eax f,
     f_gs f, f_fs f, f_es f, f_ds f, f_err_code f, f_eip f, f_cs f, f_eflags f, f_esp f, f_ss f]"

abbreviation ring3 :: "u32 \<Rightarrow> bool" where
  "ring3 sel \<equiv> sel AND 3 = 3"

type_synonym stack = "u32 list"

definition push :: "u32 \<Rightarrow> stack \<Rightarrow> stack" where
  "push x st = x # st"

text \<open>The processor saves the program's stack pointer (from ring 3), the flags and the return address.\<close>

definition cpu_interrupt :: "regs \<Rightarrow> stack \<Rightarrow> stack" where
  "cpu_interrupt r st =
     (let st = (if ring3 (cs r) then push (esp_reg r) (push (ss r) st) else st)
      in push (eip r) (push (cs r) (push (flags_reg r) st)))"

text \<open>\<open>pushad\<close> saves the stack pointer as it is at that moment; \<open>popad\<close> skips it.\<close>

definition pushad :: "u32 \<Rightarrow> regs \<Rightarrow> stack \<Rightarrow> stack" where
  "pushad esp_now r st = push (edi r) (push (esi r) (push (ebp r) (push esp_now
     (push (ebx r) (push (edx r) (push (ecx r) (push (eax r) st)))))))"

definition save_segments :: "regs \<Rightarrow> stack \<Rightarrow> stack" where
  "save_segments r st = push (gs r) (push (fs_seg r) (push (es r) (push (ds r) st)))"

text \<open>The macro \<open>VECTOR\<close>: the processor itself pushes an error code for some exceptions (\<open>Some\<close>), for the
  others the entry pushes 0.\<close>

definition vector_entry :: "u32 \<Rightarrow> u32 option \<Rightarrow> u32 \<Rightarrow> regs \<Rightarrow> stack \<Rightarrow> stack" where
  "vector_entry vec_no error_code esp_now r st =
     (let st = cpu_interrupt r st;
          st = (case error_code of Some e \<Rightarrow> push e st | None \<Rightarrow> push 0 st);
          st = save_segments r st;
          st = pushad esp_now r st
      in push vec_no st)"

text \<open>The uses of the macro: the vectors with \<open>ERROR_CODE\<close>, for which the entry pushes nothing itself, among the 48.
  \<open>cpu_code\<close> is what the processor has pushed.\<close>

definition error_code_vectors :: "nat list" where
  "error_code_vectors = [0x08, 0x0a, 0x0b, 0x0d, 0x0e, 0x11, 0x18, 0x1a, 0x1b, 0x1d, 0x1e]"

definition intr_entry :: "nat \<Rightarrow> u32 option \<Rightarrow> u32 \<Rightarrow> regs \<Rightarrow> stack \<Rightarrow> stack res" where
  "intr_entry n cpu_code esp_now r st =
     (if 48 \<le> n then Inl OutOfBounds
      else let st = cpu_interrupt r st;
               st = (case cpu_code of Some e \<Rightarrow> push e st | None \<Rightarrow> st);
               st = (if n \<in> set error_code_vectors then st else push 0 st)
           in Inr (push (of_nat n) (pushad esp_now r (save_segments r st))))"

text \<open>\<open>intr_exit\<close>, with the registers as the kernel leaves them: what is not on the stack stays.\<close>

fun iretd :: "regs \<Rightarrow> stack \<Rightarrow> (regs \<times> stack) res" where
  "iretd r (ip # c # fl # st) =
     (let r = r\<lparr>eip := ip, cs := c, flags_reg := fl\<rparr>
      in if ring3 c then
           (case st of sp # s # st \<Rightarrow> Inr (r\<lparr>esp_reg := sp, ss := s\<rparr>, st) | _ \<Rightarrow> Inl OutOfBounds)
         else Inr (r, st))"
| "iretd r _ = Inl OutOfBounds"

fun intr_exit :: "regs \<Rightarrow> stack \<Rightarrow> (regs \<times> stack) res" where
  "intr_exit r (vec_no # di # si # bp # dummy # bx # dx # cx # ax # g # f # e # d # err # st) =
     iretd (r\<lparr>edi := di, esi := si, ebp := bp, ebx := bx, edx := dx, ecx := cx, eax := ax,
              gs := g, fs_seg := f, es := e, ds := d\<rparr>) st"
| "intr_exit r _ = Inl OutOfBounds"

section \<open>System calls\<close>

datatype SYSCALL_NR = SYS_GETPID | SYS_WRITE | SYS_MALLOC | SYS_FREE | SYS_FORK | SYS_READ | SYS_PUTCHAR | SYS_CLEAR

fun syscall_number :: "SYSCALL_NR \<Rightarrow> u32" where
  "syscall_number SYS_GETPID = 0"
| "syscall_number SYS_WRITE = 1"
| "syscall_number SYS_MALLOC = 2"
| "syscall_number SYS_FREE = 3"
| "syscall_number SYS_FORK = 4"
| "syscall_number SYS_READ = 5"
| "syscall_number SYS_PUTCHAR = 6"
| "syscall_number SYS_CLEAR = 7"

text \<open>The kernel's functions behind the calls; an entry that was never written is a null pointer. The line that would
  install \<open>sys_putchar\<close> is a comment.\<close>

datatype service = Sys_getpid | Sys_write | Sys_malloc | Sys_free | Sys_fork | Sys_read | Sys_putchar | Cls_screen

definition syscall_init :: "service option list" where
  "syscall_init = (replicate 32 None)
     [unat (syscall_number SYS_GETPID) := Some Sys_getpid, unat (syscall_number SYS_WRITE) := Some Sys_write,
      unat (syscall_number SYS_MALLOC) := Some Sys_malloc, unat (syscall_number SYS_FREE) := Some Sys_free,
      unat (syscall_number SYS_FORK) := Some Sys_fork, unat (syscall_number SYS_READ) := Some Sys_read,
      unat (syscall_number SYS_CLEAR) := Some Cls_screen]"

text \<open>
  The entry of interrupt \<open>0x80\<close>. \<open>serve\<close> stands for the C functions: it gets the three arguments that the
  entry pushes and the stack below them, and gives the value that the function leaves in \<open>eax\<close> and the registers
  that a C function may change. A call through a null pointer or past the table has no meaning.
\<close>

definition syscall_handler ::
  "service option list \<Rightarrow> (service \<Rightarrow> u32 \<Rightarrow> u32 \<Rightarrow> u32 \<Rightarrow> 'a \<Rightarrow> (u32 \<times> 'a) res) \<Rightarrow> u32 \<Rightarrow> regs \<Rightarrow> stack \<Rightarrow> 'a
    \<Rightarrow> (regs \<times> stack \<times> 'a) res" where
  "syscall_handler syscall_table serve esp_now r st s =
     (let st = vector_entry 0x80 None esp_now r st;
          args = push (ebx r) (push (ecx r) (push (edx r) st))
      in if length syscall_table \<le> unat (eax r) then Inl OutOfBounds
         else case syscall_table ! unat (eax r) of None \<Rightarrow> Inl OutOfBounds
              | Some f \<Rightarrow>
                  bindr (serve f (args ! 0) (args ! 1) (args ! 2) s) (\<lambda>(retval, s).
                  let st = drop 3 args; st = st[8 := retval]
                  in bindr (intr_exit r st) (\<lambda>(r, st). Inr (r, st, s))))"

text \<open>The stubs of the user programs: the number in \<open>eax\<close>, the arguments in \<open>ebx\<close>, \<open>ecx\<close> and \<open>edx\<close>.\<close>

definition syscall0 where
  "syscall0 trap number r = trap (r\<lparr>eax := syscall_number number\<rparr>)"

definition syscall1 where
  "syscall1 trap number arg1 r = trap (r\<lparr>eax := syscall_number number, ebx := arg1\<rparr>)"

definition syscall2 where
  "syscall2 trap number arg1 arg2 r = trap (r\<lparr>eax := syscall_number number, ebx := arg1, ecx := arg2\<rparr>)"

definition syscall3 where
  "syscall3 trap number arg1 arg2 arg3 r =
     trap (r\<lparr>eax := syscall_number number, ebx := arg1, ecx := arg2, edx := arg3\<rparr>)"

definition user_getpid where "user_getpid trap r = syscall0 trap SYS_GETPID r"
definition user_malloc where "user_malloc trap sz r = syscall1 trap SYS_MALLOC sz r"
definition user_free where "user_free trap p r = syscall1 trap SYS_FREE p r"
definition user_write where "user_write trap fd buf count r = syscall3 trap SYS_WRITE fd buf count r"
definition user_fork where "user_fork trap r = syscall0 trap SYS_FORK r"
definition user_read where "user_read trap fd buf count r = syscall3 trap SYS_READ fd buf count r"
definition user_putchar where "user_putchar trap char_asci r = syscall1 trap SYS_PUTCHAR char_asci r"
definition user_clear where "user_clear trap r = syscall0 trap SYS_CLEAR r"

lemmas stubs = user_getpid_def user_malloc_def user_free_def user_write_def user_fork_def user_read_def user_putchar_def user_clear_def
  syscall0_def syscall1_def syscall2_def syscall3_def

section \<open>Saving and restoring\<close>

lemmas entry_defs = vector_entry_def cpu_interrupt_def pushad_def save_segments_def push_def Let_def

lemma exit_entry:
  "intr_exit k (vector_entry v e n r st) =
     Inr (if ring3 (cs r) then r else r\<lparr>esp_reg := esp_reg k, ss := ss k\<rparr>, st)"
  by (cases e) (simp_all add: entry_defs)

lemma set_eax: "(vector_entry v e n r st)[8 := x] = vector_entry v e n (r\<lparr>eax := x\<rparr>) st"
  by (cases e) (simp_all add: entry_defs numeral_eq_Suc)

lemma syscall_installed:
  assumes "unat (eax r) < length tab" and "tab ! unat (eax r) = Some f" and "serve f (ebx r) (ecx r) (edx r) s = Inr (v, s')"
  shows "syscall_handler tab serve n r st s =
    Inr (if ring3 (cs r) then r\<lparr>eax := v\<rparr> else (r\<lparr>eax := v\<rparr>)\<lparr>esp_reg := esp_reg r, ss := ss r\<rparr>, st, s')"
proof -
  have "drop 3 (push (ebx r) (push (ecx r) (push (edx r) w))) = w" for w by (simp add: push_def)
  then show ?thesis
    unfolding syscall_handler_def Let_def using assms by (simp add: push_def set_eax exit_entry)
qed

section \<open>Properties\<close>

text \<open>The frame that an entry leaves on the kernel stack is \<open>struct intr_stack\<close>, with the vector at its
  lowest address, and \<open>intr_exit\<close> gives the interrupted program of ring 3 every register back and leaves the
  kernel stack as it was.\<close>

theorem trap_roundtrip:
  assumes "ring3 (cs r)"
  shows "vector_entry vec_no error_code esp_now r st = intr_words
      \<lparr>f_vec_no = vec_no, f_edi = edi r, f_esi = esi r, f_ebp = ebp r, f_esp_dummy = esp_now, f_ebx = ebx r, f_edx = edx r,
       f_ecx = ecx r, f_eax = eax r, f_gs = gs r, f_fs = fs_seg r, f_es = es r, f_ds = ds r,
       f_err_code = (case error_code of Some e \<Rightarrow> e | None \<Rightarrow> 0), f_eip = eip r, f_cs = cs r, f_eflags = flags_reg r,
       f_esp = esp_reg r, f_ss = ss r\<rparr> @ st \<and>
    intr_exit k (vector_entry vec_no error_code esp_now r st) = Inr (r, st)"
proof
  show "intr_exit k (vector_entry vec_no error_code esp_now r st) = Inr (r, st)"
    using assms by (simp add: exit_entry)
qed (use assms in \<open>cases error_code; simp add: entry_defs intr_words_def\<close>)

definition user_regs :: regs where
  "user_regs = \<lparr>eax = 1, ecx = 2, edx = 3, ebx = 4, ebp = 5, esi = 6, edi = 7, gs = 0, fs_seg = 0x33, es = 0x33, ds = 0x33,
     eip = 0x8048000, cs = 0x2b, flags_reg = 0x202, esp_reg = 0xbffff000, ss = 0x33\<rparr>"

lemma user_regs_ring3: "ring3 (cs user_regs)"
  by (simp add: user_regs_def)

theorem trap_roundtrip_witness:
  "intr_exit (user_regs\<lparr>eax := 9\<rparr>) (vector_entry 0x20 None 0xc009f000 user_regs []) = Inr (user_regs, [])"
  using trap_roundtrip [OF user_regs_ring3] by blast

text \<open>The functions that the calls are meant for.\<close>

fun service_of :: "SYSCALL_NR \<Rightarrow> service" where
  "service_of SYS_GETPID = Sys_getpid"
| "service_of SYS_WRITE = Sys_write"
| "service_of SYS_MALLOC = Sys_malloc"
| "service_of SYS_FREE = Sys_free"
| "service_of SYS_FORK = Sys_fork"
| "service_of SYS_READ = Sys_read"
| "service_of SYS_PUTCHAR = Sys_putchar"
| "service_of SYS_CLEAR = Cls_screen"

lemma syscall_table: "number \<noteq> SYS_PUTCHAR \<Longrightarrow> syscall_init ! unat (syscall_number number) = Some (service_of number)"
  "unat (syscall_number number) < length syscall_init" "syscall_init ! 6 = None"
  by (cases number; simp add: syscall_init_def)+

text \<open>C29 A system call from a program: every call but \<open>putchar\<close> reaches the kernel's function of its name with the
  arguments of the stub in order; the program goes on with the function's value in \<open>eax\<close> and all its other
  registers as the stub has loaded them, and the kernel stack is as it was.\<close>

theorem syscall_passes:
  assumes "ring3 (cs r)" and "number \<noteq> SYS_PUTCHAR" and "serve (service_of number) a b c s = Inr (v, s')"
    and "trap = (\<lambda>r. syscall_handler syscall_init serve esp_now r st s)"
  shows "syscall3 trap number a b c r = Inr (r\<lparr>eax := v, ebx := a, ecx := b, edx := c\<rparr>, st, s') \<and>
    syscall2 trap number a b (r\<lparr>edx := c\<rparr>) = Inr (r\<lparr>eax := v, ebx := a, ecx := b, edx := c\<rparr>, st, s') \<and>
    syscall1 trap number a (r\<lparr>ecx := b, edx := c\<rparr>) = Inr (r\<lparr>eax := v, ebx := a, ecx := b, edx := c\<rparr>, st, s') \<and>
    syscall0 trap number (r\<lparr>ebx := a, ecx := b, edx := c\<rparr>) = Inr (r\<lparr>eax := v, ebx := a, ecx := b, edx := c\<rparr>, st, s')"
  using assms syscall_table by (simp add: stubs syscall_installed)

theorem syscall_passes_witness:
  "user_write (\<lambda>r. syscall_handler syscall_init (\<lambda>f a b c s. Inr (c, a)) 0xc009f000 r [] 0) 1 0x8048100 12 user_regs =
     Inr (user_regs\<lparr>eax := 12, ebx := 1, ecx := 0x8048100, edx := 12\<rparr>, [], 1)"
  using syscall_passes [OF user_regs_ring3, where number = SYS_WRITE and serve = "\<lambda>f a b c s. Inr (c, a)" and a = 1]
  by (simp add: user_write_def)

text \<open>The entry of \<open>putchar\<close> is not installed: the call goes through a null pointer.\<close>

lemma putchar_not_installed:
  "user_putchar (\<lambda>r. syscall_handler syscall_init serve n r st s) ch r = Inl OutOfBounds"
  by (simp add: user_putchar_def syscall1_def syscall_handler_def Let_def syscall_table)

text \<open>An entry is the macro where processor and table agree on the error code. For a stack fault they do not: the
  error code is taken for the address to return to.\<close>

lemma intr_entry_agrees:
  "n < 48 \<Longrightarrow> (cpu_code \<noteq> None) = (n \<in> set error_code_vectors) \<Longrightarrow>
   intr_entry n cpu_code esp_now r st = Inr (vector_entry (of_nat n) cpu_code esp_now r st)"
  by (auto simp: intr_entry_def vector_entry_def Let_def split: option.splits)

lemma stack_fault_returns_wrong:
  assumes "intr_entry 0x0c (Some e) esp_now r st = Inr fr" and "\<not> ring3 (eip r)" and "intr_exit k fr = Inr (r', st')"
  shows "eip r' = e \<and> cs r' = eip r"
  using assms by (auto simp: intr_entry_def error_code_vectors_def cpu_interrupt_def pushad_def save_segments_def push_def Let_def split: if_splits)

end
