(* ===== verification/Process.thy ===== *)
theory Process
  imports Arena Traps
begin

unbundle bit_operations_syntax

text \<open>
  Making threads and processes: the rest of \<^verbatim>\<open>thread/thread.c\<close> and \<^verbatim>\<open>userprog/process.c\<close>, and \<^verbatim>\<open>userprog/fork.c\<close>.
  Kernel stacks, page directories and the pages of programs are words that are reached through the page
  tables (\<open>load\<close>, \<open>store\<close>); a process control block is the record at its address. The addresses of functions are
  those that the linker gives them. The messages that the code prints are left out.
\<close>

section \<open>The state\<close>

record procs = arenas +
  main_thread :: addr
  pid_lock :: addr
  next_pid :: u16
  kernel_thread_at :: addr
  start_process_at :: addr
  intr_exit_at :: addr
  idle_at :: addr
  fd_inodes :: "addr list"
  open_cnts :: "addr \<Rightarrow> u32"

text \<open>The open file table is seen through the inodes of its entries and the counters of these inodes.\<close>

definition mem_init :: "'a arenas_scheme \<Rightarrow> 'a arenas_scheme res" where
  "mem_init s =
     bindr (load s 0xb00) (\<lambda>mem_bytes_total.
     bindr (mem_pool_init mem_bytes_total s) (\<lambda>s. Inr (block_desc_init (k_block_descs s) s)))"

section \<open>Words of memory\<close>

primrec store_words :: "(addr \<times> u32) list \<Rightarrow> 'a hw_scheme \<Rightarrow> 'a hw_scheme res" where
  "store_words [] s = Inr s"
| "store_words (w # ws) s = bindr (store (fst w) (snd w) s) (store_words ws)"

primrec load_words :: "'a hw_scheme \<Rightarrow> addr \<Rightarrow> nat \<Rightarrow> u32 list res" where
  "load_words s v 0 = Inr []"
| "load_words s v (Suc n) = bindr (load s v) (\<lambda>w. bindr (load_words s (v + 4) n) (\<lambda>ws. Inr (w # ws)))"

primrec copy_words :: "addr \<Rightarrow> addr \<Rightarrow> nat \<Rightarrow> 'a hw_scheme \<Rightarrow> 'a hw_scheme res" where
  "copy_words dst src 0 s = Inr s"
| "copy_words dst src (Suc n) s = bindr (load s src) (\<lambda>w. bindr (store dst w s) (copy_words (dst + 4) (src + 4) n))"

text \<open>\<open>memcpy\<close> of \<open>n\<close> bytes: the words, and what lies there as bytes and as list nodes.\<close>

definition memcpy_mem :: "addr \<Rightarrow> addr \<Rightarrow> nat \<Rightarrow> 'a hw_scheme \<Rightarrow> 'a hw_scheme res" where
  "memcpy_mem dst src n s =
     bindr (ASSERT (dst \<noteq> NULL \<and> src \<noteq> NULL)) (\<lambda>_.
     bindr (copy_words dst src (n div 4) s) (\<lambda>s.
     Inr (s\<lparr>bytes := memcpy_loop (bytes s) dst src n,
            prev := (\<lambda>a. if within a dst n then prev s (a - dst + src) else prev s a),
            nxt := (\<lambda>a. if within (a + 4) dst n then nxt s (a - dst + src) else nxt s a)\<rparr>)))"

section \<open>Threads\<close>

definition allocate_pid :: "'a procs_scheme \<Rightarrow> (u16 \<times> 'a procs_scheme) res" where
  "allocate_pid s =
     bindr (acquire_now (pid_lock s) s) (\<lambda>s.
     let s = s\<lparr>next_pid := next_pid s + 1\<rparr>
     in bindr (release_now (pid_lock s) s) (\<lambda>s. Inr (next_pid s, s)))"

definition fork_pid :: "'a procs_scheme \<Rightarrow> (u16 \<times> 'a procs_scheme) res" where
  "fork_pid s = allocate_pid s"

text \<open>What a new thread starts with: \<open>function\<close> is the C function that the pointer stands for.\<close>

definition kernel_thread :: "(addr \<Rightarrow> 'a cpu_scheme \<Rightarrow> 'b) \<Rightarrow> addr \<Rightarrow> 'a cpu_scheme \<Rightarrow> 'b" where
  "kernel_thread function func_arg s = function func_arg (snd (intr_enable s))"

lemma kernel_thread_interruptible: "kernel_thread (\<lambda>a s. intr_get_status s) func_arg s = INTR_ON"
  using intr_set_status_sets [of INTR_ON s] by (simp add: kernel_thread_def intr_set_status_def)

text \<open>\<open>self_kstack\<close> is a pointer to words, so the sizes 76 and 32 that are subtracted count words.\<close>

definition thread_create :: "addr \<Rightarrow> addr \<Rightarrow> u32 \<Rightarrow> 'a procs_scheme \<Rightarrow> 'a procs_scheme res" where
  "thread_create pthread function func_arg s =
     (let s = upd_task pthread (\<lambda>t. t\<lparr>self_kstack := self_kstack t - 4 * 76\<rparr>) s;
          s = upd_task pthread (\<lambda>t. t\<lparr>self_kstack := self_kstack t - 4 * 32\<rparr>) s;
          kthread_stack = self_kstack (task s pthread)
      in store_words [(kthread_stack + 16, kernel_thread_at s), (kthread_stack + 24, function), (kthread_stack + 28, func_arg),
                      (kthread_stack + 8, 0), (kthread_stack + 12, 0), (kthread_stack + 4, 0), (kthread_stack, 0)] s)"

definition zero_task :: task_struct where
  "zero_task = \<lparr>self_kstack = 0, status = TASK_RUNNING, pid = 0, priority = 0, tname = replicate 16 0, ticks = 0,
     elapsed_ticks = 0, pgdir = NULL, stack_magic = 0,
     userprog_vaddr = \<lparr>vaddr_bitmap = \<lparr>btmp_bytes_len = 0, bits = 0\<rparr>, vaddr_start = 0\<rparr>,
     fd_table = replicate 8 0, cwd_inode_nr = 0, parent_pid = 0\<rparr>"

text \<open>\<open>strcpy\<close> into the 16 bytes of the name, with the 0 at the end.\<close>

definition set_name :: "u8 list \<Rightarrow> u8 list \<Rightarrow> u8 list res" where
  "set_name old name = (if length old < length name + 1 then Inl OutOfBounds
     else Inr (name @ [0] @ drop (length name + 1) old))"

definition memset_task :: "addr \<Rightarrow> 'a procs_scheme \<Rightarrow> 'a procs_scheme res" where
  "memset_task t s =
     bindr (memset_heap t 276 s) (\<lambda>s.
     Inr (upd_task t (\<lambda>_. zero_task) (s\<lparr>block_size := (\<lambda>d. if within d t 276 then 0 else block_size s d),
       blocks_per_arena := (\<lambda>d. if within (d + 4) t 276 then 0 else blocks_per_arena s d)\<rparr>)))"

definition init_thread :: "addr \<Rightarrow> u8 list \<Rightarrow> u32 \<Rightarrow> 'a procs_scheme \<Rightarrow> 'a procs_scheme res" where
  "init_thread pthread name prio s =
     bindr (memset_task pthread s) (\<lambda>s.
     bindr (set_name (tname (task s pthread)) name) (\<lambda>nm.
     let s = upd_task pthread (tname_update (\<lambda>_. nm)) s
     in bindr (allocate_pid s) (\<lambda>(new_pid, s).
        let s = upd_task pthread (pid_update (\<lambda>_. new_pid)) s;
            s = upd_task pthread (status_update (\<lambda>_. if pthread = main_thread s then TASK_RUNNING else TASK_READY)) s
        in Inr (upd_task pthread (\<lambda>t. t\<lparr>fd_table := [0, 1, 2, -1, -1, -1, -1, -1], self_kstack := pthread + PG_SIZE,
             priority := ucast prio, ticks := ucast prio, elapsed_ticks := 0, pgdir := NULL, stack_magic := 0x19870916,
             cwd_inode_nr := 0, parent_pid := -1\<rparr>) s))))"

text \<open>Both lists get the new thread, which must not be in one of them yet.\<close>

definition enlist :: "addr \<Rightarrow> addr \<Rightarrow> 'a procs_scheme \<Rightarrow> 'a procs_scheme res" where
  "enlist l tag s = bindr (elem_find l tag s) (\<lambda>found. bindr (ASSERT (\<not> found)) (\<lambda>_. Inr (list_append l tag s)))"

definition thread_start :: "u8 list \<Rightarrow> u32 \<Rightarrow> addr \<Rightarrow> u32 \<Rightarrow> 'a procs_scheme \<Rightarrow> (addr \<times> 'a procs_scheme) res" where
  "thread_start name prio function func_arg s =
     bindr (get_kernel_pages 1 s) (\<lambda>(t, s).
     bindr (init_thread t name prio s) (\<lambda>s.
     bindr (thread_create t function func_arg s) (\<lambda>s.
     bindr (enlist (thread_ready_list s) (general_tag t) s) (\<lambda>s.
     bindr (enlist (thread_all_list s) (all_list_tag t) s) (\<lambda>s. Inr (t, s))))))"

definition make_main_thread :: "'a procs_scheme \<Rightarrow> 'a procs_scheme res" where
  "make_main_thread s =
     (let s = s\<lparr>main_thread := running_thread s\<rparr>
      in bindr (init_thread (main_thread s) [109, 97, 105, 110] 32 s) (\<lambda>s.
         enlist (thread_all_list s) (all_list_tag (main_thread s)) s))"

definition thread_init :: "'a procs_scheme \<Rightarrow> 'a procs_scheme res" where
  "thread_init s =
     (let s = list_init (thread_ready_list s) s;
          s = list_init (thread_all_list s) s;
          s = lock_init (pid_lock s) s
      in bindr (make_main_thread s) (\<lambda>s.
         bindr (thread_start [105, 100, 108, 101] 10 (idle_at s) NULL s) (\<lambda>(t, s). Inr (s\<lparr>idle_thread := t\<rparr>))))"

section \<open>Processes\<close>

definition USER_VADDR_START :: u32 where "USER_VADDR_START = 0x8048000"
definition USER_STACK3_VADDR :: u32 where "USER_STACK3_VADDR = 0xc0000000 - 0x1000"
definition SELECTOR_U_CODE :: u32 where "SELECTOR_U_CODE = push_bit 3 5 + push_bit 2 0 + 3"
definition SELECTOR_U_DATA :: u32 where "SELECTOR_U_DATA = push_bit 3 6 + push_bit 2 0 + 3"

definition create_page_dir :: "'a procs_scheme \<Rightarrow> (addr \<times> 'a procs_scheme) res" where
  "create_page_dir s =
     bindr (get_kernel_pages 1 s) (\<lambda>(page_dir_vaddr, s).
     if page_dir_vaddr = NULL then Inr (NULL, s)
     else bindr (copy_words (page_dir_vaddr + 0x300 * 4) (0xfffff000 + 0x300 * 4) (1024 div 4) s) (\<lambda>s.
          bindr (addr_v2p page_dir_vaddr s) (\<lambda>new_page_dir_phy_addr.
          bindr (store (page_dir_vaddr + 1023 * 4) (new_page_dir_phy_addr OR PG_US_U OR PG_RW_W OR PG_P_1) s) (\<lambda>s.
          Inr (page_dir_vaddr, s)))))"

definition bitmap_pg_cnt :: u32 where
  "bitmap_pg_cnt = ((0xc0000000 - USER_VADDR_START) div PG_SIZE div 8 + PG_SIZE - 1) div PG_SIZE"

definition create_user_vaddr_bitmap :: "addr \<Rightarrow> 'a procs_scheme \<Rightarrow> 'a procs_scheme res" where
  "create_user_vaddr_bitmap user_prog s =
     (let set_va = (\<lambda>f s. upd_task user_prog (userprog_vaddr_update f) s);
          s = set_va (vaddr_start_update (\<lambda>_. USER_VADDR_START)) s
      in bindr (get_kernel_pages bitmap_pg_cnt s) (\<lambda>(v, s).
         let s = set_va (vaddr_bitmap_update (bits_update (\<lambda>_. v))) s;
             s = set_va (vaddr_bitmap_update (btmp_bytes_len_update (\<lambda>_. (0xc0000000 - USER_VADDR_START) div PG_SIZE div 8))) s
         in bindr (bitmap_init (bytes s) (vaddr_bitmap (userprog_vaddr (task s user_prog)))) (\<lambda>m. Inr (s\<lparr>bytes := m\<rparr>))))"

definition process_execute :: "u32 \<Rightarrow> u8 list \<Rightarrow> 'a procs_scheme \<Rightarrow> 'a procs_scheme res" where
  "process_execute filename name s =
     bindr (get_kernel_pages 1 s) (\<lambda>(thread, s).
     bindr (init_thread thread name 32 s) (\<lambda>s.
     bindr (create_user_vaddr_bitmap thread s) (\<lambda>s.
     bindr (thread_create thread (start_process_at s) filename s) (\<lambda>s.
     bindr (create_page_dir s) (\<lambda>(dir, s).
     let s = upd_task thread (pgdir_update (\<lambda>_. dir)) s;
         s = block_desc_init (u_block_desc thread) s;
         (old_status, s) = intr_disable s
     in bindr (enlist (thread_ready_list s) (general_tag thread) s) (\<lambda>s.
        bindr (enlist (thread_all_list s) (all_list_tag thread) s) (\<lambda>s.
        Inr (snd (intr_set_status old_status s)))))))))"

text \<open>The words of the frame that \<open>start_process\<close> fills in, by their offsets in \<open>struct intr_stack\<close>; the vector
  and the error code stay as they are.\<close>

definition proc_frame :: "addr \<Rightarrow> u32 \<Rightarrow> (u32 \<times> u32) list" where
  "proc_frame function sp =
     [(16, 0), (12, 0), (8, 0), (4, 0), (32, 0), (28, 0), (24, 0), (20, 0), (36, 0),
      (40, SELECTOR_U_DATA), (44, SELECTOR_U_DATA), (48, SELECTOR_U_DATA), (56, function), (60, SELECTOR_U_CODE),
      (64, push_bit 12 0 OR push_bit 1 1 OR push_bit 9 1), (68, sp), (72, SELECTOR_U_DATA)]"

text \<open>\<open>start_process\<close> up to its jump to \<open>intr_exit\<close>, with the stack pointer that it loads.\<close>

definition start_process :: "addr \<Rightarrow> 'a procs_scheme \<Rightarrow> (addr \<times> 'a procs_scheme) res" where
  "start_process filename s =
     (let cur = running_thread s;
          s = upd_task cur (\<lambda>t. t\<lparr>self_kstack := self_kstack t + 4 * 32\<rparr>) s;
          proc_stack = self_kstack (task s cur);
          at = map (\<lambda>(off, x). (proc_stack + off, x))
      in bindr (store_words (at (take 15 (proc_frame filename 0))) s) (\<lambda>s.
         bindr (get_a_page PF_USER USER_STACK3_VADDR s) (\<lambda>(v, s).
         bindr (store_words (at (drop 15 (proc_frame filename (v + PG_SIZE)))) s) (\<lambda>s.
         Inr (proc_stack, s\<lparr>esp := proc_stack\<rparr>)))))"

section \<open>A page of kernel memory\<close>

text \<open>The page at \<open>t\<close> lies in the frame \<open>p\<close>, which holds none of the tables that its translation reads.\<close>

definition mapped_page :: "addr \<Rightarrow> u32 \<Rightarrow> 'a hw_scheme \<Rightarrow> bool" where
  "mapped_page t p s \<longleftrightarrow> frame_of t = t \<and> frame_of p = p \<and> present (phys s (pde_slot s t)) \<and>
     present (phys s (pte_slot s t)) \<and> frame_of (phys s (pte_slot s t)) = p \<and>
     frame_of (pde_slot s t) \<noteq> p \<and> frame_of (pte_slot s t) \<noteq> p"

lemma page_addr:
  assumes "frame_of t = t" and "unat k < 4096"
  shows "frame_of (t + k) = t" and "(t + k) AND 0xfff = k"
proof -
  define q where "q = unat t div 4096"
  have t: "unat t = q * 4096" using assms(1) unat_frame_of [of t] by (simp add: q_def)
  have "q < 1048576" unfolding q_def using unat_u32_bound [of t] by (intro less_mult_imp_div_less) simp
  then have u: "unat (t + k) = q * 4096 + unat k" using assms(2) t by (simp add: unat_plus_if')
  show "frame_of (t + k) = t" using assms(2) by (simp add: word_unat_eq_iff unat_frame_of u t)
  show "(t + k) AND 0xfff = k" using assms(2) by (simp add: word_unat_eq_iff unat_off u)
qed

lemma mmu_page:
  assumes "mapped_page t p s" and "frame_of v = t"
  shows "mmu s v = Some (p + (v AND 0xfff))"
proof -
  have "PDE_IDX v = PDE_IDX t" "PTE_IDX v = PTE_IDX t" using assms same_page [of v t] by (simp_all add: mapped_page_def)
  then have "pde_slot s v = pde_slot s t" "pte_slot s v = pte_slot s t" by (simp_all add: pde_slot_def pte_slot_def)
  then show ?thesis using assms(1) by (simp add: mmu_slots mapped_page_def)
qed

lemma mapped_page_write:
  assumes "mapped_page t p s" and "frame_of a = p"
  shows "mapped_page t p (s\<lparr>phys := (phys s)(a := x)\<rparr>)"
proof -
  have d: "pde_slot (s\<lparr>phys := (phys s)(a := x)\<rparr>) t = pde_slot s t" by (simp add: pde_slot_def)
  have "a \<noteq> pde_slot s t" "a \<noteq> pte_slot s t" using assms by (auto simp: mapped_page_def)
  moreover from this have "pte_slot (s\<lparr>phys := (phys s)(a := x)\<rparr>) t = pte_slot s t" by (simp add: pte_slot_def d) 
  ultimately show ?thesis using assms(1) by (simp add: mapped_page_def d)
qed

text \<open>The words of the page, by their offsets.\<close>

lemma store_page:
  assumes "mapped_page t p s" and "unat k < 4096"
  shows "store (t + k) x s = Inr (s\<lparr>phys := (phys s)(p + k := x)\<rparr>)"
    and "mapped_page t p (s\<lparr>phys := (phys s)(p + k := x)\<rparr>)"
proof -
  have t: "frame_of t = t" "frame_of p = p" using assms(1) by (simp_all add: mapped_page_def)
  note a = page_addr [OF t(1) assms(2)] and b = page_addr [OF t(2) assms(2)]
  show "store (t + k) x s = Inr (s\<lparr>phys := (phys s)(p + k := x)\<rparr>)"
    using mmu_page [OF assms(1) a(1)] by (simp add: store_def a(2))
  show "mapped_page t p (s\<lparr>phys := (phys s)(p + k := x)\<rparr>)" by (rule mapped_page_write [OF assms(1) b(1)])
qed

lemma load_page:
  assumes "mapped_page t p s" and "unat k < 4096"
  shows "load s (t + k) = Inr (phys s (p + k))"
proof -
  have t: "frame_of t = t" using assms(1) by (simp add: mapped_page_def)
  note a = page_addr [OF t assms(2)]
  show ?thesis using mmu_page [OF assms(1) a(1)] by (simp add: load_def a(2))
qed

definition put_words :: "u32 \<Rightarrow> (u32 \<times> u32) list \<Rightarrow> 'a hw_scheme \<Rightarrow> 'a hw_scheme" where
  "put_words p ws s = s\<lparr>phys := fold (\<lambda>w m. m(p + fst w := snd w)) ws (phys s)\<rparr>"

lemma store_words_page:
  "mapped_page t p s \<Longrightarrow> \<forall>w\<in>set ws. unat (fst w) < 4096 \<Longrightarrow>
    store_words (map (\<lambda>w. (t + fst w, snd w)) ws) s = Inr (put_words p ws s) \<and> mapped_page t p (put_words p ws s)"
proof (induction ws arbitrary: s)
  case Nil
  then show ?case by (simp add: put_words_def)
next
  case (Cons w ws)
  define s1 where "s1 = s\<lparr>phys := (phys s)(p + fst w := snd w)\<rparr>"
  have s1: "store (t + fst w) (snd w) s = Inr s1" "mapped_page t p s1"
    using store_page [OF Cons.prems(1), of "fst w"] Cons.prems(2) by (simp_all add: s1_def)
  have "put_words p ws s1 = put_words p (w # ws) s" by (simp add: put_words_def s1_def)
  with Cons.IH [OF s1(2)] Cons.prems(2) s1(1) show ?case by simp
qed

lemma load_words_page:
  "mapped_page t p s \<Longrightarrow> unat k + 4 * n \<le> 4096 \<Longrightarrow>
    load_words s (t + k) n = Inr (map (\<lambda>i. phys s (p + k + of_nat (4 * i))) [0..<n])"
proof (induction n arbitrary: k)
  case (Suc n)
  have "unat k < 4096" using Suc.prems(2) by simp
  note l = load_page [OF Suc.prems(1) this]
  have "load_words s (t + (k + 4)) n = Inr (map (\<lambda>i. phys s (p + (k + 4) + of_nat (4 * i))) [0..<n])"
    if "n > 0" using that Suc by (intro Suc.IH) (simp_all add: unat_plus_if')
  then have "load_words s (t + k + 4) n = Inr (map (\<lambda>i. phys s (p + k + of_nat (4 * Suc i))) [0..<n])"
    by (cases "n = 0") (simp_all add: algebra_simps)
  then show ?case
    using l by (simp add: upt_conv_Cons map_Suc_upt [symmetric] comp_def del: upt_Suc)
qed simp

lemma put_words_other [simp]:
  "task (put_words p ws s) = task s" "sched.more (put_words p ws s) = sched.more s" "eflags (put_words p ws s) = eflags s"
  by (simp_all add: put_words_def)

section \<open>Properties\<close>

text \<open>\<open>thread_create\<close> prepares the stack of a new thread such that the first switch to it loads zeroes into the
  saved registers and returns into \<open>kernel_thread\<close>, which finds the function and its argument as its two
  arguments.\<close>

theorem thread_create_enters:
  assumes "mapped_page t p s" and "self_kstack (task s t) = t + PG_SIZE"
  shows "\<exists>s'. thread_create t function func_arg s = Inr s' \<and>
    task s' = (task s)(t := (task s t)\<lparr>self_kstack := t + 3664\<rparr>) \<and>
    load_words s' (self_kstack (task s' t)) 5 = Inr [0, 0, 0, 0, kernel_thread_at s] \<and>
    load_words s' (self_kstack (task s' t) + 20 + 4) 2 = Inr [function, func_arg]"
proof -
  let ?s = "upd_task t (\<lambda>u. u\<lparr>self_kstack := t + 3664\<rparr>) s"
  define ws where "ws = [(3664 + 16, kernel_thread_at s), (3664 + 24, function), (3664 + 28, func_arg),
                      (3664 + 8, 0), (3664 + 12, 0), (3664 + 4, 0), (3664 :: u32, 0)]"
  have m: "mapped_page t p ?s" using assms(1) by (simp add: mapped_page_def pde_slot_def pte_slot_def)
  have "\<forall>w\<in>set ws. unat (fst w) < 4096" by (simp add: ws_def)
  note S = store_words_page [OF m this]
  have "thread_create t function func_arg s = store_words (map (\<lambda>w. (t + fst w, snd w)) ws) ?s"
    using assms(2) by (simp add: thread_create_def Let_def ws_def upd_task_def algebra_simps)
  then have c: "thread_create t function func_arg s = Inr (put_words p ws ?s)" using S by simp
  have l: "load_words (put_words p ws ?s) (t + 3664) 5 = Inr [0, 0, 0, 0, kernel_thread_at s]"
    "load_words (put_words p ws ?s) (t + 3688) 2 = Inr [function, func_arg]"
    using load_words_page [of t p "put_words p ws ?s" 3664 5] load_words_page [of t p "put_words p ws ?s" 3688 2] S
    by (simp_all add: ws_def put_words_def upt_rec)
  show ?thesis using c l by (simp add: add.commute)
qed

text \<open>What \<open>start_process\<close> leaves at its stack pointer is a frame from which \<open>intr_exit\<close> enters the program: in
  ring 3, at its first instruction, on its own stack, with interrupts on, without rights on ports, with the
  segments of user data, and with zeroes in the other registers.\<close>

theorem start_process_enters:
  assumes "mapped_page t p s" and "unat off + 76 \<le> 4096"
  shows "\<exists>s' ws. store_words (map (\<lambda>(o', x). (t + off + o', x)) (proc_frame function sp)) s = Inr s' \<and>
    load_words s' (t + off) 19 = Inr ws \<and>
    intr_exit k (ws @ st) = Inr (\<lparr>eax = 0, ecx = 0, edx = 0, ebx = 0, ebp = 0, esi = 0, edi = 0, gs = 0,
        fs_seg = SELECTOR_U_DATA, es = SELECTOR_U_DATA, ds = SELECTOR_U_DATA, eip = function, cs = SELECTOR_U_CODE,
        flags_reg = 0x202, esp_reg = sp, ss = SELECTOR_U_DATA\<rparr>, st) \<and> ring3 SELECTOR_U_CODE"
proof -
  define ws where "ws = map (\<lambda>(o', x). (off + o', x)) (proc_frame function sp)"
  have "unat (off + c) < 4096" if "unat c \<le> 72" for c
    using that assms(2) by (simp add: unat_plus_if')
  then have "\<forall>w\<in>set ws. unat (fst w) < 4096" by (simp add: ws_def proc_frame_def)
  note S = store_words_page [OF assms(1) this]
  have e: "map (\<lambda>(o', x). (t + off + o', x)) (proc_frame function sp) = map (\<lambda>w. (t + fst w, snd w)) ws"
    by (simp add: ws_def case_prod_beta comp_def add.assoc)
  have "load_words (put_words p ws s) (t + off) 19 = Inr (map (\<lambda>i. phys (put_words p ws s) (p + off + of_nat (4 * i))) [0..<19])"
    by (rule load_words_page) (use S assms(2) in simp_all)
  moreover have "map (\<lambda>i. phys (put_words p ws s) (p + off + of_nat (4 * i))) [0..<19] =
      [phys s (p + off), 0, 0, 0, 0, 0, 0, 0, 0, 0, SELECTOR_U_DATA, SELECTOR_U_DATA, SELECTOR_U_DATA,
       phys s (p + off + 52), function, SELECTOR_U_CODE, 0x202, sp, SELECTOR_U_DATA]"
    by (simp add: put_words_def ws_def proc_frame_def upt_rec add.assoc)
  ultimately show ?thesis unfolding e using S
    by (intro exI [of _ "put_words p ws s"]) (simp add: SELECTOR_U_CODE_def)
qed

text \<open>A state for the witnesses: the page at \<open>0xc0009000\<close> lies in the frame \<open>0x9000\<close>.\<close>

definition small_procs :: procs where
  "small_procs = mm.extend tiny
     \<lparr>k_block_descs = 0, block_size = (\<lambda>_. 0), blocks_per_arena = (\<lambda>_. 0), arena_desc = (\<lambda>_. 0), arena_cnt = (\<lambda>_. 0),
      arena_large = (\<lambda>_. 0), main_thread = 0, pid_lock = 0x600, next_pid = 0, kernel_thread_at = 0xc0001700,
      start_process_at = 0xc0001800, intr_exit_at = 0xc0001500, idle_at = 0xc0001900, fd_inodes = replicate 32 0,
      open_cnts = (\<lambda>_. 0)\<rparr>
     \<lparr>phys := (\<lambda>_. 0)(0x100c00 := 0x101007, 0x101024 := 0x9007), cr3 := 0x100000,
      task := (\<lambda>t. zero_task\<lparr>self_kstack := t + PG_SIZE\<rparr>)\<rparr>"

lemma small_procs_fields:
  "phys small_procs = (\<lambda>_. 0)(0x100c00 := 0x101007, 0x101024 := 0x9007)" "cr3 small_procs = 0x100000"
  "self_kstack (task small_procs t) = t + PG_SIZE" "kernel_thread_at small_procs = 0xc0001700"
  "intr_exit_at small_procs = 0xc0001500"
  by (simp_all add: small_procs_def mm.defs)

lemma small_procs_page: "mapped_page 0xc0009000 0x9000 small_procs"
  by (simp add: mapped_page_def small_procs_fields pde_slot_def pte_slot_def PDE_IDX_def PTE_IDX_def frame_of_def present_def)

theorem thread_create_enters_witness:
  "\<exists>s'. thread_create 0xc0009000 0xc0002000 7 small_procs = Inr s' \<and> load_words s' 0xc0009e50 5 = Inr [0, 0, 0, 0, 0xc0001700]"
  using thread_create_enters [OF small_procs_page small_procs_fields(3), of "0xc0002000" 7]
  by (auto simp: small_procs_fields)

theorem start_process_enters_witness:
  "\<exists>s'. store_words (map (\<lambda>(o', x). (0xc0009000 + 3792 + o', x)) (proc_frame 0x8048000 0xc0000000)) small_procs = Inr s'"
  using start_process_enters [OF small_procs_page, of 3792 "0x8048000" "0xc0000000"] by auto

end
