(* ===== verification/Fork.thy ===== *)
theory Fork
  imports Process
begin

unbundle bit_operations_syntax

text \<open>
  \<^verbatim>\<open>userprog/fork.c\<close>: the child gets a copy of the page with the control block and the kernel stack of its
  parent, a copy of the bitmap of virtual addresses, a page directory of its own, copies of all pages of the
  program, and a kernel stack from which \<open>switch_to\<close> returns to \<open>intr_exit\<close> with 0 in \<open>eax\<close>.
  The functions answer \<open>False\<close> where the code returns -1.
\<close>

section \<open>The code\<close>

text \<open>\<open>memcpy (child, parent, PG_SIZE)\<close>: the memory and the control block in it.\<close>

definition copy_pcb :: "addr \<Rightarrow> addr \<Rightarrow> 'a procs_scheme \<Rightarrow> 'a procs_scheme res" where
  "copy_pcb child parent s =
     bindr (memcpy_mem child parent 4096 s) (\<lambda>s.
     Inr (upd_task child (\<lambda>_. task s parent) (s\<lparr>
       block_size := (\<lambda>d. if within d child 4096 then block_size s (d - child + parent) else block_size s d),
       blocks_per_arena := (\<lambda>d. if within (d + 4) child 4096 then blocks_per_arena s (d - child + parent)
                               else blocks_per_arena s d)\<rparr>)))"

definition clear_tag :: "addr \<Rightarrow> 'a nodes_scheme \<Rightarrow> 'a nodes_scheme" where
  "clear_tag e s = set_prev e NULL (set_nxt e NULL s)"

text \<open>\<open>strlen\<close> and \<open>strcat\<close> on the name.\<close>

definition name_of :: "u8 list \<Rightarrow> u8 list" where
  "name_of bs = takeWhile (\<lambda>c. c \<noteq> 0) bs"

definition set_bits :: "addr \<Rightarrow> task_struct \<Rightarrow> task_struct" where
  "set_bits v = userprog_vaddr_update (vaddr_bitmap_update (bits_update (\<lambda>_. v)))"

definition copy_pcb_vaddrbitmap_stack0 :: "addr \<Rightarrow> addr \<Rightarrow> 'a procs_scheme \<Rightarrow> (bool \<times> 'a procs_scheme) res" where
  "copy_pcb_vaddrbitmap_stack0 child parent s =
     bindr (copy_pcb child parent s) (\<lambda>s.
     bindr (fork_pid s) (\<lambda>(new_pid, s).
     let s = upd_task child (\<lambda>t. t\<lparr>pid := new_pid, elapsed_ticks := 0, status := TASK_READY, ticks := priority t,
               parent_pid := pid (task s parent)\<rparr>) s;
         s = clear_tag (all_list_tag child) (clear_tag (general_tag child) s);
         s = block_desc_init (u_block_desc child) s
     in bindr (get_kernel_pages bitmap_pg_cnt s) (\<lambda>(vaddr_btmp, s).
        if vaddr_btmp = NULL then Inr (False, s)
        else bindr (memcpy_mem vaddr_btmp (bits (vaddr_bitmap (userprog_vaddr (task s child)))) (unat (bitmap_pg_cnt * PG_SIZE)) s) (\<lambda>s.
             let s = upd_task child (set_bits vaddr_btmp) s
             in bindr (ASSERT (length (name_of (tname (task s child))) < 11)) (\<lambda>_.
                bindr (set_name (tname (task s child)) (name_of (tname (task s child)) @ [95, 102, 111, 114, 107])) (\<lambda>nm.
                Inr (True, upd_task child (tname_update (\<lambda>_. nm)) s)))))))"

text \<open>One page of the program, through the buffer in the kernel.\<close>

definition copy_page :: "addr \<Rightarrow> addr \<Rightarrow> addr \<Rightarrow> addr \<Rightarrow> 'a procs_scheme \<Rightarrow> 'a procs_scheme res" where
  "copy_page child parent buf_page prog_vaddr s =
     bindr (memcpy_mem buf_page prog_vaddr 4096 s) (\<lambda>s.
     bindr (page_dir_activate child s) (\<lambda>s.
     bindr (get_a_page_without_opvaddrbitmap PF_USER prog_vaddr s) (\<lambda>(_, s).
     bindr (memcpy_mem prog_vaddr buf_page 4096 s) (\<lambda>s.
     page_dir_activate parent s))))"

primrec copy_bits :: "addr \<Rightarrow> addr \<Rightarrow> addr \<Rightarrow> u32 \<Rightarrow> nat \<Rightarrow> u32 \<Rightarrow> 'a procs_scheme \<Rightarrow> 'a procs_scheme res" where
  "copy_bits child parent buf_page idx_byte 0 idx_bit s = Inr s"
| "copy_bits child parent buf_page idx_byte (Suc n) idx_bit s =
     (let va = userprog_vaddr (task s parent)
      in bindr (if push_bit (unat idx_bit) 1 AND bytes s (bits (vaddr_bitmap va) + idx_byte) \<noteq> 0
                then copy_page child parent buf_page ((idx_byte * 8 + idx_bit) * PG_SIZE + vaddr_start va) s
                else Inr s) (copy_bits child parent buf_page idx_byte n (idx_bit + 1)))"

primrec copy_bytes :: "addr \<Rightarrow> addr \<Rightarrow> addr \<Rightarrow> nat \<Rightarrow> u32 \<Rightarrow> 'a procs_scheme \<Rightarrow> 'a procs_scheme res" where
  "copy_bytes child parent buf_page 0 idx_byte s = Inr s"
| "copy_bytes child parent buf_page (Suc n) idx_byte s =
     bindr (if bytes s (bits (vaddr_bitmap (userprog_vaddr (task s parent))) + idx_byte) \<noteq> 0
            then copy_bits child parent buf_page idx_byte 8 0 s else Inr s)
       (copy_bytes child parent buf_page n (idx_byte + 1))"

definition copy_body_stack3 :: "addr \<Rightarrow> addr \<Rightarrow> addr \<Rightarrow> 'a procs_scheme \<Rightarrow> 'a procs_scheme res" where
  "copy_body_stack3 child parent buf_page s =
     copy_bytes child parent buf_page (unat (btmp_bytes_len (vaddr_bitmap (userprog_vaddr (task s parent))))) 0 s"

definition build_child_stack :: "addr \<Rightarrow> 'a procs_scheme \<Rightarrow> 'a procs_scheme res" where
  "build_child_stack child s =
     (let intr_0_stack = child + PG_SIZE - 76
      in bindr (store_words [(intr_0_stack + 32, 0), (intr_0_stack - 4, intr_exit_at s),
                (intr_0_stack - 8, 0), (intr_0_stack - 12, 0), (intr_0_stack - 16, 0), (intr_0_stack - 20, 0)] s) (\<lambda>s.
         Inr (upd_task child (self_kstack_update (\<lambda>_. intr_0_stack - 20)) s)))"

text \<open>The loop over the descriptors from \<open>local_fd\<close> on. The comparison with 32 is one of signed numbers.\<close>

primrec update_counts :: "u32 list \<Rightarrow> 'a procs_scheme \<Rightarrow> 'a procs_scheme res" where
  "update_counts [] s = Inr s"
| "update_counts (global_fd # fds) s =
     bindr (ASSERT (sint global_fd < 32)) (\<lambda>_.
     bindr (if global_fd \<noteq> -1 then
              if length (fd_inodes s) \<le> unat global_fd then Inl OutOfBounds
              else let i = fd_inodes s ! unat global_fd
                   in Inr (s\<lparr>open_cnts := (open_cnts s)(i := open_cnts s i + 1)\<rparr>)
            else Inr s) (update_counts fds))"

definition update_inode_open_cnts :: "addr \<Rightarrow> 'a procs_scheme \<Rightarrow> 'a procs_scheme res" where
  "update_inode_open_cnts thread s = update_counts (drop 3 (fd_table (task s thread))) s"

definition copy_process :: "addr \<Rightarrow> addr \<Rightarrow> 'a procs_scheme \<Rightarrow> (bool \<times> 'a procs_scheme) res" where
  "copy_process child parent s =
     bindr (get_kernel_pages 1 s) (\<lambda>(buf_page, s).
     if buf_page = NULL then Inr (False, s)
     else bindr (copy_pcb_vaddrbitmap_stack0 child parent s) (\<lambda>(ok, s).
          if \<not> ok then Inr (False, s)
          else bindr (create_page_dir s) (\<lambda>(dir, s).
               let s = upd_task child (pgdir_update (\<lambda>_. dir)) s
               in if dir = NULL then Inr (False, s)
                  else bindr (copy_body_stack3 child parent buf_page s) (\<lambda>s.
                       bindr (build_child_stack child s) (\<lambda>s.
                       bindr (update_inode_open_cnts child s) (\<lambda>s.
                       bindr (mfree_page PF_KERNEL buf_page 1 s) (\<lambda>s. Inr (True, s))))))))"

definition sys_fork :: "'a procs_scheme \<Rightarrow> (u16 \<times> 'a procs_scheme) res" where
  "sys_fork s =
     (let parent = running_thread s
      in bindr (get_kernel_pages 1 s) (\<lambda>(child, s).
         if child = NULL then Inr (-1, s)
         else bindr (ASSERT (INTR_OFF = intr_get_status s \<and> pgdir (task s parent) \<noteq> NULL)) (\<lambda>_.
              bindr (copy_process child parent s) (\<lambda>(ok, s).
              if \<not> ok then Inr (-1, s)
              else bindr (enlist (thread_ready_list s) (general_tag child) s) (\<lambda>s.
                   bindr (enlist (thread_all_list s) (all_list_tag child) s) (\<lambda>s.
                   Inr (pid (task s child), s)))))))"

section \<open>The copy of a page\<close>

lemma put_words_append: "put_words p (ws @ vs) s = put_words p vs (put_words p ws s)"
  by (simp add: put_words_def)

lemma put_words_skip: "(\<And>w. w \<in> set ws \<Longrightarrow> a \<noteq> p + fst w) \<Longrightarrow> phys (put_words p ws s) a = phys s a"
  by (induction ws arbitrary: s rule: rev_induct) (auto simp: put_words_def)

lemma put_words_get: "distinct (map fst ws) \<Longrightarrow> (k, x) \<in> set ws \<Longrightarrow> phys (put_words p ws s) (p + k) = x"
  by (induction ws rule: rev_induct) (auto simp: put_words_def rev_image_eqI)

lemma copy_words_page:
  assumes "mapped_page t p s" and "mapped_page u q s" and "p \<noteq> q"
    and "frame_of (pde_slot s u) \<noteq> p" and "frame_of (pte_slot s u) \<noteq> p" and "unat k + 4 * n \<le> 4096"
  shows "copy_words (t + k) (u + k) n s =
    Inr (put_words p (map (\<lambda>i. (k + of_nat (4 * i), phys s (q + (k + of_nat (4 * i))))) [0..<n]) s)"
  using assms
proof (induction n arbitrary: k s)
  case 0
  then show ?case by (simp add: put_words_def)
next
  case (Suc n)
  have k: "unat k < 4096" using Suc.prems(6) by simp
  define s1 where "s1 = s\<lparr>phys := (phys s)(p + k := phys s (q + k))\<rparr>"
  note ld = load_page [OF Suc.prems(2) k] and st = store_page [OF Suc.prems(1) k, of "phys s (q + k)", folded s1_def]
  have pk: "frame_of (p + k) = p" using page_addr(1) [of p k] Suc.prems(1) k by (simp add: mapped_page_def)
  have same: "phys s1 a = phys s a" if "frame_of a \<noteq> p" for a using that pk by (auto simp: s1_def)
  have d: "pde_slot s1 u = pde_slot s u" by (simp add: s1_def pde_slot_def)
  then have slots: "pde_slot s1 u = pde_slot s u" "pte_slot s1 u = pte_slot s u"
    using same [OF Suc.prems(4)] by (simp_all add: pte_slot_def)
  have u1: "mapped_page u q s1"
    using Suc.prems(2) same [OF Suc.prems(4)] same [OF Suc.prems(5)] slots by (simp add: mapped_page_def)
  show ?case
  proof (cases n)
    case 0
    then show ?thesis using ld st by (simp add: s1_def put_words_def)
  next
    case (Suc m)
    have k4: "unat (k + 4) = unat k + 4" using Suc.prems(6) Suc by (simp add: unat_plus_if')
    have IH: "copy_words (t + (k + 4)) (u + (k + 4)) n s1 =
      Inr (put_words p (map (\<lambda>i. (k + 4 + of_nat (4 * i), phys s1 (q + (k + 4 + of_nat (4 * i))))) [0..<n]) s1)"
      using Suc.prems slots k4 by (intro Suc.IH [OF st(2) u1 Suc.prems(3)]) simp_all
    have q: "phys s1 (q + (k + 4 + of_nat (4 * i))) = phys s (q + (k + of_nat (4 * Suc i)))" if "i < n" for i
    proof -
      define c where "c = (of_nat (4 * Suc i) :: u32)"
      have "unat c = 4 * Suc i" unfolding c_def using that Suc.prems(6) by (intro unat_of_nat_u32) simp
      then have "unat (k + c) < 4096" using that Suc.prems(6) by (simp add: unat_plus_if')
      then have "unat (k + of_nat (4 * Suc i)) < 4096" by (simp only: c_def)
      then have "frame_of (q + (k + of_nat (4 * Suc i))) = q"
        using page_addr(1) [of q "k + of_nat (4 * Suc i)"] Suc.prems(2) by (simp add: mapped_page_def)
      then have "phys s1 (q + (k + of_nat (4 * Suc i))) = phys s (q + (k + of_nat (4 * Suc i)))"
        using same Suc.prems(3) by metis
      then show ?thesis by (simp add: add.assoc)
    qed
    have "[0..<Suc n] = 0 # map Suc [0..<n]" by (simp add: upt_conv_Cons map_Suc_upt del: upt_Suc)
    then have "put_words p (map (\<lambda>i. (k + of_nat (4 * i), phys s (q + (k + of_nat (4 * i))))) [0..<Suc n]) s =
      put_words p (map (\<lambda>i. (k + of_nat (4 * Suc i), phys s (q + (k + of_nat (4 * Suc i))))) [0..<n]) s1"
      by (simp add: s1_def put_words_def comp_def del: upt_Suc of_nat_Suc mult_Suc_right)
    also have "map (\<lambda>i. (k + of_nat (4 * Suc i), phys s (q + (k + of_nat (4 * Suc i))))) [0..<n] =
      map (\<lambda>i. (k + 4 + of_nat (4 * i), phys s1 (q + (k + 4 + of_nat (4 * i))))) [0..<n]"
      using q by (intro map_cong) simp_all
    finally show ?thesis using IH ld st(1) by (simp add: s1_def add.assoc del: upt_Suc)
  qed
qed

definition page_copy :: "u32 \<Rightarrow> u32 \<Rightarrow> 'a hw_scheme \<Rightarrow> 'a hw_scheme" where
  "page_copy p q s = put_words p (map (\<lambda>i. (of_nat (4 * i), phys s (q + of_nat (4 * i)))) [0..<1024]) s"

lemma copy_page_words:
  assumes "mapped_page t p s" and "mapped_page u q s" and "p \<noteq> q"
    and "frame_of (pde_slot s u) \<noteq> p" and "frame_of (pte_slot s u) \<noteq> p"
  shows "copy_words t u 1024 s = Inr (page_copy p q s)"
  using copy_words_page [OF assms, of 0 1024] by (simp add: page_copy_def)

lemma page_copy_word:
  assumes "unat c < 4096" and "unat c mod 4 = 0"
  shows "phys (page_copy p q s) (p + c) = phys s (q + c)"
proof -
  define j where "j = unat c div 4"
  have j: "j < 1024" "unat c = 4 * j" using assms by (auto simp: j_def)
  have c: "c = of_nat (4 * j)" using j by (simp add: word_unat_eq_iff unat_of_nat_u32 del: of_nat_mult)
  have "inj_on (\<lambda>i. of_nat (4 * i) :: u32) {0..<1024}"
    by (rule inj_onI) (simp add: of_nat_u32_inj del: of_nat_mult)
  then have "distinct (map (\<lambda>i. of_nat (4 * i) :: u32) [0..<1024])" by (simp add: distinct_map del: of_nat_mult upt_Suc)
  then show ?thesis unfolding page_copy_def c
    by (intro put_words_get) (use j in \<open>auto simp: comp_def simp del: of_nat_mult upt_Suc\<close>)
qed

lemma page_copy_mapped:
  assumes "mapped_page t p s"
  shows "mapped_page t p (page_copy p q s)"
proof -
  have "\<forall>w\<in>set (map (\<lambda>i. (of_nat (4 * i) :: u32, phys s (q + of_nat (4 * i)))) [0..<1024]). unat (fst w) < 4096"
    by (simp add: unat_of_nat_u32 del: of_nat_mult upt_Suc)
  from store_words_page [OF assms this] show ?thesis by (simp add: page_copy_def del: upt_Suc)
qed

lemma page_copy_frame:
  assumes "frame_of p = p" and "frame_of a \<noteq> p"
  shows "phys (page_copy p q s) a = phys s a"
  unfolding page_copy_def
proof (rule put_words_skip)
  fix w :: "u32 \<times> u32" assume "w \<in> set (map (\<lambda>i. (of_nat (4 * i), phys s (q + of_nat (4 * i)))) [0..<1024])"
  then obtain i where i: "i < 1024" "w = (of_nat (4 * i), phys s (q + of_nat (4 * i)))" by auto
  have "unat (of_nat (4 * i) :: u32) = 4 * i" using i(1) by (intro unat_of_nat_u32) simp
  then have "frame_of (p + fst w) = p" using i page_addr(1) [OF assms(1), of "of_nat (4 * i)"] by simp
  then show "a \<noteq> p + fst w" using assms(2) by metis
qed

text \<open>A page is seen in the same way where its directory and table entry, and its words, are the same.\<close>

lemma mapped_page_cong:
  assumes "mapped_page v q s" and "cr3 t = cr3 s" and "phys t (pde_slot s v) = phys s (pde_slot s v)"
    and "phys t (pte_slot s v) = phys s (pte_slot s v)"
  shows "mapped_page v q t"
  using assms by (simp add: mapped_page_def pde_slot_def pte_slot_def)

lemma page_copy_source:
  assumes "mapped_page v q s" and "mapped_page u p s" and "p \<noteq> q"
    and "frame_of (pde_slot s v) \<noteq> p" and "frame_of (pte_slot s v) \<noteq> p" and "unat k + 4 * n \<le> 4096"
  shows "load_words (page_copy p q s) (v + k) n = load_words s (v + k) n"
proof -
  have p: "frame_of p = p" using assms(2) by (simp add: mapped_page_def)
  have m: "mapped_page v q (page_copy p q s)"
    using assms(4,5) page_copy_frame [OF p] by (intro mapped_page_cong [OF assms(1)]) (simp_all add: page_copy_def put_words_def)
  show ?thesis unfolding load_words_page [OF m assms(6)] load_words_page [OF assms(1,6)]
  proof (intro arg_cong [where f = Inr] map_cong refl)
    fix i assume i: "i \<in> set [0..<n]"
    have "unat (of_nat (4 * i) :: u32) = 4 * i" using i assms(6) by (intro unat_of_nat_u32) simp
    then have "unat (k + of_nat (4 * i)) < 4096" using i assms(6) by (simp add: unat_plus_if')
    then have "frame_of (q + (k + of_nat (4 * i))) = q"
      using page_addr(1) [of q "k + of_nat (4 * i)"] assms(1) by (simp add: mapped_page_def)
    then show "phys (page_copy p q s) (q + k + of_nat (4 * i)) = phys s (q + k + of_nat (4 * i))"
      using page_copy_frame [OF p] assms(3) by (metis add.assoc)
  qed
qed

lemma copy_pcb_copies:
  assumes "mapped_page child p s" and "mapped_page parent q s" and "p \<noteq> q"
    and "frame_of (pde_slot s parent) \<noteq> p" and "frame_of (pte_slot s parent) \<noteq> p" and "child \<noteq> NULL" and "parent \<noteq> NULL"
  obtains s1 where "copy_pcb child parent s = Inr s1" and "phys s1 = phys (page_copy p q s)" and "cr3 s1 = cr3 s"
    and "task s1 child = task s parent" and "intr_exit_at s1 = intr_exit_at s"
proof -
  define x where "x = phys (page_copy p q s)"
  have "page_copy p q s = s\<lparr>phys := x\<rparr>" by (simp add: x_def page_copy_def put_words_def)
  then have "copy_words child parent 1024 s = Inr (s\<lparr>phys := x\<rparr>)" using copy_page_words [OF assms(1-5)] by simp
  moreover have "(4096 :: nat) div 4 = 1024" by simp
  ultimately obtain m where m: "memcpy_mem child parent 4096 s = Inr m" "phys m = x" "cr3 m = cr3 s" "task m = task s"
    "intr_exit_at m = intr_exit_at s"
    using assms(6,7) by (simp add: memcpy_mem_def)
  show ?thesis
  proof (rule that)
    show "copy_pcb child parent s = Inr (upd_task child (\<lambda>_. task m parent) (m\<lparr>
       block_size := (\<lambda>d. if within d child 4096 then block_size m (d - child + parent) else block_size m d),
       blocks_per_arena := (\<lambda>d. if within (d + 4) child 4096 then blocks_per_arena m (d - child + parent)
                               else blocks_per_arena m d)\<rparr>))"
      by (simp only: copy_pcb_def m(1) bindr_Inr)
  qed (simp_all add: m upd_task_def x_def)
qed

section \<open>The stack of the child\<close>

lemma build_child_stack_ok:
  assumes m: "mapped_page child p t" and fr: "map (\<lambda>i. phys t (p + 4020 + of_nat (4 * i))) [0..<19] = fr"
  obtains s2 where "build_child_stack child t = Inr s2" and "self_kstack (task s2 child) = child + 4000"
    and "mapped_page child p s2" and "load_words s2 (child + 4000) 5 = Inr [0, 0, 0, 0, intr_exit_at t]"
    and "load_words s2 (child + 4020) 19 = Inr (fr[8 := 0])"
proof -
  define ws where "ws = [(4020 + 32, 0), (4020 - 4, intr_exit_at t), (4020 - 8, 0), (4020 - 12, 0), (4020 - 16, 0), (4020 - 20 :: u32, 0)]"
  define s2 where "s2 = upd_task child (self_kstack_update (\<lambda>_. child + 4000)) (put_words p ws t)"
  have "\<forall>w\<in>set ws. unat (fst w) < 4096" by (simp add: ws_def)
  note S = store_words_page [OF m this]
  have a: "child + PG_SIZE - 76 = child + 4020" by simp
  have b: "build_child_stack child t = Inr s2"
    using S by (simp add: build_child_stack_def Let_def a ws_def s2_def algebra_simps)
  have m2: "mapped_page child p s2" using S by (simp add: s2_def mapped_page_def pde_slot_def pte_slot_def)
  have p2: "phys s2 = phys (put_words p ws t)" by (simp add: s2_def)
  have top: "load_words s2 (child + 4000) 5 = Inr [0, 0, 0, 0, intr_exit_at t]"
    using load_words_page [OF m2, of 4000 5] by (simp add: p2 put_words_def ws_def upt_rec)
  have "load_words s2 (child + 4020) 19 = Inr (map (\<lambda>i. phys s2 (p + 4020 + of_nat (4 * i))) [0..<19])"
    by (rule load_words_page [OF m2]) simp
  also have "map (\<lambda>i. phys s2 (p + 4020 + of_nat (4 * i))) [0..<19] = fr[8 := 0]"
  proof (rule nth_equalityI)
    fix i assume "i < length (map (\<lambda>i. phys s2 (p + 4020 + of_nat (4 * i))) [0..<19])"
    then have i: "i < 19" by simp
    define c where "c = (4020 + of_nat (4 * i) :: u32)"
    have "unat (of_nat (4 * i) :: u32) = 4 * i" using i by (intro unat_of_nat_u32) simp
    then have u: "unat c = 4020 + 4 * i" using i unfolding c_def by (subst unat_add_u32) simp_all
    have "c = 4052 \<longleftrightarrow> i = 8" "c \<noteq> 4016" "c \<noteq> 4012" "c \<noteq> 4008" "c \<noteq> 4004" "c \<noteq> 4000"
      using u by (auto simp: word_unat_eq_iff)
    then have "phys s2 (p + c) = (if i = 8 then 0 else phys t (p + c))" by (simp add: p2 put_words_def ws_def)
    then have "phys s2 (p + 4020 + of_nat (4 * i)) = (if i = 8 then 0 else phys t (p + 4020 + of_nat (4 * i)))"
      by (simp only: c_def add.assoc)
    then show "map (\<lambda>i. phys s2 (p + 4020 + of_nat (4 * i))) [0..<19] ! i = fr[8 := 0] ! i"
      using i unfolding fr [symmetric] by (simp add: nth_list_update del: of_nat_mult)
  qed (simp add: fr [symmetric])
  finally have "load_words s2 (child + 4020) 19 = Inr (fr[8 := 0])" .
  with b m2 top show ?thesis by (intro that) (simp_all add: s2_def)
qed

lemma switch_to_loads: "load_words (switch_to cur t s) v n = load_words s v n"
proof (induction n arbitrary: v)
  case (Suc n)
  have "load (switch_to cur t s) v = load s v" by (simp add: switch_to_def load_def mmu_def Let_def upd_task_def)
  with Suc show ?case by simp
qed simp

section \<open>Properties\<close>

text \<open>C28 \<open>fork\<close> returns twice. \<open>copy_pcb\<close> gives the child the control block and the kernel stack of its parent, whose own
  frame of the system call stays. Whatever happens then to the rest of the memory, \<open>build_child_stack\<close> makes a stack
  with which \<open>switch_to\<close> gets to \<open>intr_exit\<close> with the stack pointer at the copy of that frame, and \<open>intr_exit\<close> gives the
  child every register of its parent but \<open>eax\<close>, which is 0.\<close>

theorem fork_child_resumes:
  assumes "mapped_page child p s" and "mapped_page parent q s" and "p \<noteq> q"
    and "frame_of (pde_slot s parent) \<noteq> p" and "frame_of (pte_slot s parent) \<noteq> p" and "child \<noteq> NULL" and "parent \<noteq> NULL"
    and "load_words s (parent + PG_SIZE - 76) 19 = Inr (vector_entry 0x80 None esp_now r [])" and "ring3 (cs r)" and "cur \<noteq> child"
  shows "\<exists>s1. copy_pcb child parent s = Inr s1 \<and> task s1 child = task s parent \<and>
    load_words s1 (parent + PG_SIZE - 76) 19 = Inr (vector_entry 0x80 None esp_now r []) \<and>
    (\<forall>t. mapped_page child p t \<and> (\<forall>a. frame_of a = p \<longrightarrow> phys t a = phys s1 a) \<longrightarrow>
      (\<exists>s2 u ws. build_child_stack child t = Inr s2 \<and> u = switch_to cur child s2 \<and>
        load_words u (esp u) 5 = Inr [0, 0, 0, 0, intr_exit_at t] \<and> esp u + 20 = child + PG_SIZE - 76 \<and>
        load_words u (child + PG_SIZE - 76) 19 = Inr ws \<and> intr_exit k ws = Inr (r\<lparr>eax := 0\<rparr>, [])))"
proof -
  have a: "child + PG_SIZE - 76 = child + 4020" "parent + PG_SIZE - 76 = parent + 4020" by simp_all
  obtain s1 where s1: "copy_pcb child parent s = Inr s1" "phys s1 = phys (page_copy p q s)" "cr3 s1 = cr3 s"
    "task s1 child = task s parent" by (rule copy_pcb_copies [OF assms(1-7)])
  have same: "load_words s1 v n = load_words (page_copy p q s) v n" for v n
  proof (induction n arbitrary: v)
    case (Suc n)
    have "cr3 (page_copy p q s) = cr3 s" by (simp add: page_copy_def put_words_def)
    then have "load s1 v = load (page_copy p q s) v" by (simp add: load_def mmu_def Let_def s1(2,3))
    with Suc show ?case by simp
  qed simp
  have par: "load_words s1 (parent + 4020) 19 = Inr (vector_entry 0x80 None esp_now r [])"
    using page_copy_source [OF assms(2,1,3,4,5), of 4020 19] assms(8) unfolding same a by simp
  have q: "map (\<lambda>i. phys s (q + 4020 + of_nat (4 * i))) [0..<19] = vector_entry 0x80 None esp_now r []"
    using load_words_page [OF assms(2), of 4020 19] assms(8) unfolding a by simp
  have "\<exists>s2 u ws. build_child_stack child t = Inr s2 \<and> u = switch_to cur child s2 \<and>
      load_words u (esp u) 5 = Inr [0, 0, 0, 0, intr_exit_at t] \<and> esp u + 20 = child + PG_SIZE - 76 \<and>
      load_words u (child + PG_SIZE - 76) 19 = Inr ws \<and> intr_exit k ws = Inr (r\<lparr>eax := 0\<rparr>, [])"
    if t: "mapped_page child p t" "\<forall>a. frame_of a = p \<longrightarrow> phys t a = phys s1 a" for t
  proof -
    have "phys t (p + 4020 + of_nat (4 * i)) = phys s (q + 4020 + of_nat (4 * i))" if i: "i < 19" for i
    proof -
      define c where "c = (4020 + of_nat (4 * i) :: u32)"
      have "unat (of_nat (4 * i) :: u32) = 4 * i" using i by (intro unat_of_nat_u32) simp
      then have u: "unat c = 4020 + 4 * i" using i unfolding c_def by (subst unat_add_u32) simp_all
      then have c: "unat c < 4096" "unat c mod 4 = 0" using i by simp_all
      then have "frame_of (p + c) = p" using page_addr(1) [of p c] t(1) by (simp add: mapped_page_def)
      then have "phys t (p + c) = phys s (q + c)" using t(2) page_copy_word [OF c] s1(2) by simp
      then show ?thesis by (simp only: c_def add.assoc)
    qed
    then have "map (\<lambda>i. phys t (p + 4020 + of_nat (4 * i))) [0..<19] = vector_entry 0x80 None esp_now r []"
      unfolding q [symmetric] by (intro map_cong) simp_all
    from build_child_stack_ok [OF t(1) this] obtain s2 where s2: "build_child_stack child t = Inr s2"
      "self_kstack (task s2 child) = child + 4000" "load_words s2 (child + 4000) 5 = Inr [0, 0, 0, 0, intr_exit_at t]"
      "load_words s2 (child + 4020) 19 = Inr (vector_entry 0x80 None esp_now (r\<lparr>eax := 0\<rparr>) [])" unfolding set_eax by blast
    have e: "esp (switch_to cur child s2) = child + 4000" using s2(2) assms(10) by (simp add: switch_to_def Let_def upd_task_def)
    have "intr_exit k (vector_entry 0x80 None esp_now (r\<lparr>eax := 0\<rparr>) []) = Inr (r\<lparr>eax := 0\<rparr>, [])"
      using assms(9) by (simp add: exit_entry)
    then show ?thesis using s2 e by (intro exI [of _ s2] exI [of _ "switch_to cur child s2"]) (simp add: switch_to_loads a add.commute)
  qed
  then show ?thesis using s1(1,4) par unfolding a by blast
qed

definition forking :: procs where
  "forking = small_procs\<lparr>phys := (\<lambda>a. if frame_of a = 0xa000 then vector_entry 0x80 None 0 user_regs [] ! (unat (a - 0xafb4) div 4) else 0)
     (0x100c00 := 0x101007, 0x101024 := 0x9007, 0x101028 := 0xa007)\<rparr>"

lemma forking_fields:
  "phys forking = (\<lambda>a. if frame_of a = 0xa000 then vector_entry 0x80 None 0 user_regs [] ! (unat (a - 0xafb4) div 4) else 0)
     (0x100c00 := 0x101007, 0x101024 := 0x9007, 0x101028 := 0xa007)" "cr3 forking = 0x100000"
  by (simp_all add: forking_def small_procs_fields)

lemma forking_pages: "mapped_page 0xc0009000 0x9000 forking" "mapped_page 0xc000a000 0xa000 forking"
  "frame_of (pde_slot forking 0xc000a000) \<noteq> 0x9000" "frame_of (pte_slot forking 0xc000a000) \<noteq> 0x9000"
  by (simp_all add: mapped_page_def forking_fields pde_slot_def pte_slot_def PDE_IDX_def PTE_IDX_def frame_of_def present_def)

lemma forking_trap: "load_words forking (0xc000a000 + PG_SIZE - 76) 19 = Inr (vector_entry 0x80 None 0 user_regs [])"
  using load_words_page [OF forking_pages(2), of 4020 19]
  by (simp add: forking_fields upt_rec frame_of_def entry_defs user_regs_def)

theorem fork_child_resumes_witness:
  "\<exists>s1 s2 u ws. copy_pcb 0xc0009000 0xc000a000 forking = Inr s1 \<and> build_child_stack 0xc0009000 s1 = Inr s2 \<and>
     u = switch_to 0xc000a000 0xc0009000 s2 \<and> load_words u (esp u + 20) 19 = Inr ws \<and>
     intr_exit user_regs ws = Inr (user_regs\<lparr>eax := 0\<rparr>, [])"
proof -
  obtain s1 where s1: "copy_pcb 0xc0009000 0xc000a000 forking = Inr s1" "phys s1 = phys (page_copy 0x9000 0xa000 forking)" "cr3 s1 = cr3 forking"
    by (rule copy_pcb_copies [OF forking_pages(1,2) _ forking_pages(3,4)]) simp_all
  have "mapped_page 0xc0009000 0x9000 s1"
    using page_copy_mapped [OF forking_pages(1), where q = "0xa000"] s1(2,3)
    by (simp add: mapped_page_def pde_slot_def pte_slot_def page_copy_def put_words_def)
  then show ?thesis
    using fork_child_resumes [OF forking_pages(1,2) _ forking_pages(3,4) _ _ forking_trap user_regs_ring3, where cur = "0xc000a000" and k = user_regs] s1(1)
    by fastforce
qed

end
