(* ===== verification/Shell.thy ===== *)
theory Shell
  imports Traps
begin

text \<open>
  \<^verbatim>\<open>shell/shell.c\<close>: the line editor. The keys that the calls of \<open>read\<close> deliver are a list, whose end is the
  answer -1; the characters that go out through \<open>putchar\<close> and \<open>printf\<close> are a list. \<open>putchar\<close> is a system call: it
  goes through the entry of the kernel and its table, which is an argument of the functions here. The line is the list of the
  bytes of \<open>cmd_line\<close>, \<open>pos\<close> the index that the pointer stands for.
\<close>

section \<open>The code\<close>

definition cmd_len :: nat where "cmd_len = 128"

definition print_prompt :: "u8 list \<Rightarrow> u8 list" where
  "print_prompt cwd_cache = text_bytes ''[zhuheqin@localhost '' @ takeWhile (\<lambda>c. c \<noteq> 0) cwd_cache @ text_bytes ''] $ ''"

definition no_enter :: "u8 list" where
  "no_enter = text_bytes ''readline: can`t find enter_key in the cmd_line, max num of char is 128'' @ [10]"

text \<open>What the services do to the characters on the screen, and \<open>putchar\<close>: its trap, with the program's registers.\<close>

definition show_char :: "service \<Rightarrow> u32 \<Rightarrow> u32 \<Rightarrow> u32 \<Rightarrow> u8 list \<Rightarrow> (u32 \<times> u8 list) res" where
  "show_char f arg1 arg2 arg3 out = Inr (0, if f = Sys_putchar then out @ [ucast arg1] else out)"

definition putchar :: "service option list \<Rightarrow> u8 \<Rightarrow> u8 list \<Rightarrow> u8 list res" where
  "putchar table char_asci out =
     bindr (user_putchar (\<lambda>r. syscall_handler table show_char 0 r [] out) (ucast char_asci) user_regs) (\<lambda>(r, st, out). Inr out)"

text \<open>The loop of \<open>readline\<close>: \<open>read\<close> stores the key at \<open>pos\<close> before \<open>pos\<close> is compared with \<open>count\<close>.\<close>

primrec readline_loop :: "service option list \<Rightarrow> u8 list \<Rightarrow> u8 list \<Rightarrow> nat \<Rightarrow> nat \<Rightarrow> u8 list \<Rightarrow> (u8 list \<times> u8 list \<times> u8 list) res" where
  "readline_loop table [] buf count pos out = Inr (buf, out @ no_enter, [])"
| "readline_loop table (key # keys) buf count pos out =
     (if length buf \<le> pos then Inl OutOfBounds
      else let buf = buf[pos := key]
           in if \<not> pos < count then Inr (buf, out @ no_enter, keys)
              else if key = 10 \<or> key = 13 then bindr (putchar table 10 out) (\<lambda>out. Inr (buf[pos := 0], out, keys))
              else if key = 8 then
                if buf ! 0 \<noteq> 8 then bindr (putchar table 8 out) (readline_loop table keys buf count (pos - 1))
                else readline_loop table keys buf count pos out
              else bindr (putchar table key out) (readline_loop table keys buf count (pos + 1)))"

definition readline :: "service option list \<Rightarrow> u8 list \<Rightarrow> u8 list \<Rightarrow> nat \<Rightarrow> (u8 list \<times> u8 list \<times> u8 list) res" where
  "readline table keys buf count = bindr (ASSERT (count > 0)) (\<lambda>_. readline_loop table keys buf count 0 [])"

text \<open>One turn of the endless loop of \<open>my_shell\<close>: the line, what was printed, and the keys that are left.\<close>

definition my_shell_turn :: "service option list \<Rightarrow> u8 list \<Rightarrow> u8 list \<Rightarrow> (u8 list \<times> u8 list \<times> u8 list) res" where
  "my_shell_turn table cwd_cache keys =
     bindr (readline table keys (replicate cmd_len 0) cmd_len) (\<lambda>(line, out, keys). Inr (line, print_prompt cwd_cache @ out, keys))"

text \<open>\<open>my_shell\<close> for \<open>n\<close> turns of its loop: the lines, what was printed, and the keys that are left.\<close>

primrec shell_loop :: "service option list \<Rightarrow> nat \<Rightarrow> u8 list \<Rightarrow> u8 list \<Rightarrow> (u8 list list \<times> u8 list \<times> u8 list) res" where
  "shell_loop table 0 cwd_cache keys = Inr ([], [], keys)"
| "shell_loop table (Suc n) cwd_cache keys =
     bindr (my_shell_turn table cwd_cache keys) (\<lambda>(line, out, keys).
     bindr (shell_loop table n cwd_cache keys) (\<lambda>(lines, out', keys). Inr (line # lines, out @ out', keys)))"

definition my_shell :: "service option list \<Rightarrow> nat \<Rightarrow> u8 list \<Rightarrow> (u8 list list \<times> u8 list \<times> u8 list) res" where
  "my_shell table n keys = shell_loop table n ((replicate 64 0)[0 := 47]) keys"

section \<open>Showing a character\<close>

text \<open>The table with the line of \<open>syscall_init\<close> that is a comment.\<close>

definition table_with_putchar :: "service option list" where
  "table_with_putchar = syscall_init[unat (syscall_number SYS_PUTCHAR) := Some Sys_putchar]"

lemma putchar_shows: "putchar table_with_putchar c out = Inr (out @ [c])"
proof -
  have "table_with_putchar ! 6 = Some Sys_putchar" "length table_with_putchar = 32"
    by (simp_all add: table_with_putchar_def syscall_init_def)
  moreover have "ucast (ucast c :: u32) = c" by (rule bit_word_eqI) (simp add: bit_simps)
  ultimately show ?thesis
    by (simp add: putchar_def user_putchar_def syscall1_def syscall_handler_def show_char_def Let_def push_def set_eax exit_entry user_regs_ring3)
qed

lemma putchar_faults: "putchar syscall_init c out = Inl OutOfBounds"
  by (simp add: putchar_def putchar_not_installed)

text \<open>With the table as it is, every key that ends a line or goes into it stops the shell.\<close>

lemma readline_faults:
  "\<exists>k\<in>set keys. k \<noteq> 8 \<Longrightarrow> buf \<noteq> [] \<Longrightarrow> 0 < count \<Longrightarrow> readline_loop syscall_init keys buf count 0 out = Inl OutOfBounds"
proof (induction keys arbitrary: buf)
  case (Cons key keys)
  then show ?case by (cases "key = 8") (auto simp: putchar_faults Let_def)
qed simp

lemma shell_faults: "\<exists>k\<in>set keys. k \<noteq> 8 \<Longrightarrow> my_shell syscall_init (Suc n) keys = Inl OutOfBounds"
  using readline_faults [of keys "replicate cmd_len 0" cmd_len]
  by (simp add: my_shell_def my_shell_turn_def readline_def cmd_len_def)

section \<open>Editing a line\<close>

text \<open>The reference: a key is added to the end of the line, a backspace takes the last one away.\<close>

definition edit :: "u8 \<Rightarrow> u8 list \<Rightarrow> u8 list" where
  "edit key line = (if key = 8 then butlast line else line @ [key])"

text \<open>What is shown while a line is typed: a backspace only when there is something to take back.\<close>

fun echo :: "u8 list \<Rightarrow> u8 list \<Rightarrow> u8 list" where
  "echo [] line = []"
| "echo (key # keys) line = (if key = 8 \<and> line = [] then [] else [key]) @ echo keys (edit key line)"

definition plain :: "u8 \<Rightarrow> bool" where
  "plain key \<longleftrightarrow> key \<noteq> 0 \<and> key \<noteq> 10 \<and> key \<noteq> 13"

definition line_ok :: "u8 list \<Rightarrow> u8 list \<Rightarrow> nat \<Rightarrow> bool" where
  "line_ok line buf pos \<longleftrightarrow> pos = length line \<and> take pos buf = line \<and> 8 \<notin> set line \<and> 0 \<notin> set line \<and> pos \<le> length buf"

lemma line_first: "line_ok line buf pos \<Longrightarrow> pos < length buf \<Longrightarrow> buf[pos := 8] ! 0 \<noteq> 8 \<longleftrightarrow> line \<noteq> []"
proof (cases line)
  case (Cons c cs)
  assume ok: "line_ok line buf pos" and "pos < length buf"
  then have "0 < pos" "buf ! 0 = line ! 0" using Cons by (auto simp: line_ok_def) (metis nth_take zero_less_Suc nth_Cons_0)
  then show ?thesis using ok Cons by (auto simp: line_ok_def)
qed (simp add: line_ok_def)

lemma line_ok_key:
  assumes "line_ok line buf pos" and "pos < length buf" and "key \<noteq> 8" and "key \<noteq> 0"
  shows "line_ok (line @ [key]) (buf[pos := key]) (pos + 1)"
proof -
  have n: "pos = length line" and t: "take pos buf = line" and z: "8 \<notin> set line" "0 \<notin> set line"
    using assms(1) unfolding line_ok_def by blast+
  have "take (pos + 1) (buf[pos := key]) = take pos buf @ [key]" using assms(2) by (simp add: take_Suc_conv_app_nth)
  then have "take (pos + 1) (buf[pos := key]) = line @ [key]" unfolding t .
  then show ?thesis using z assms(2-) by (simp add: line_ok_def n)
qed

lemma line_ok_back:
  assumes "line_ok line buf pos"
  shows "line_ok (butlast line) (buf[pos := x]) (pos - 1)"
proof -
  have "take (pos - 1) (buf[pos := x]) = butlast (take pos buf)"
    using assms by (simp add: line_ok_def butlast_take)
  then show ?thesis using assms by (auto simp: line_ok_def dest: in_set_butlastD)
qed

lemma line_ok_line: "line_ok line buf pos \<Longrightarrow> pos < length buf \<Longrightarrow> takeWhile (\<lambda>c. c \<noteq> 0) (buf[pos := 0]) = line"
proof -
  assume ok: "line_ok line buf pos" and p: "pos < length buf"
  have t: "take pos buf = line" using ok unfolding line_ok_def by blast
  have "buf[pos := 0] = line @ 0 # drop (Suc pos) buf"
    unfolding upd_conv_take_nth_drop [OF p] t ..
  moreover have "takeWhile (\<lambda>c. c \<noteq> 0) (line @ 0 # zs) = line" for zs
    using ok by (subst takeWhile_append2) (auto simp: line_ok_def)
  ultimately show ?thesis by simp
qed

lemma readline_loop_edits:
  "\<forall>c\<in>set keys. plain c \<Longrightarrow> line_ok line buf pos \<Longrightarrow> \<forall>k\<le>length keys. length (fold edit (take k keys) line) < length buf \<Longrightarrow>
   length buf \<le> count \<Longrightarrow> enter = 10 \<or> enter = 13 \<Longrightarrow>
   \<exists>buf'. readline_loop table_with_putchar (keys @ enter # rest) buf count pos out = Inr (buf', out @ echo keys line @ [10], rest) \<and>
     takeWhile (\<lambda>c. c \<noteq> 0) buf' = fold edit keys line \<and> length buf' = length buf"
proof (induction keys arbitrary: line buf pos out)
  case Nil
  then have "pos < length buf" by (simp add: line_ok_def)
  then show ?case using Nil line_ok_line [of line buf pos] by (auto simp: Let_def putchar_shows)
next
  case (Cons key keys)
  have "length line < length buf" using Cons.prems(3) [rule_format, of 0] by simp
  then have p: "pos < length buf" using Cons.prems(2) by (simp add: line_ok_def)
  have key: "key \<noteq> 0" "key \<noteq> 10" "key \<noteq> 13" and keys: "\<forall>c\<in>set keys. plain c" using Cons.prems(1) by (auto simp: plain_def)
  have fits: "\<forall>k\<le>length keys. length (fold edit (take k keys) (edit key line)) < length (buf[pos := key])"
    using Cons.prems(3) by (metis Suc_le_mono fold_simps(2) length_Cons length_list_update take_Suc_Cons)
  show ?case
  proof (cases "key = 8")
    case True
    have next_ok: "line_ok (edit key line) (buf[pos := key]) (if line = [] then pos else pos - 1)"
      using line_ok_back [OF Cons.prems(2)] Cons.prems(2) True by (auto simp: line_ok_def edit_def)
    have "readline_loop table_with_putchar ((key # keys) @ enter # rest) buf count pos out =
        readline_loop table_with_putchar (keys @ enter # rest) (buf[pos := key]) count (if line = [] then pos else pos - 1) (out @ (if line = [] then [] else [8]))"
      using True p Cons.prems(4) line_first [OF Cons.prems(2) p] by (cases "line = []") (auto simp: Let_def putchar_shows)
    then show ?thesis
      using Cons.IH [OF keys next_ok fits, of "out @ (if line = [] then [] else [8])"] Cons.prems(4,5) True by auto
  next
    case False
    have "line_ok (edit key line) (buf[pos := key]) (pos + 1)"
      using line_ok_key [OF Cons.prems(2) p False key(1)] False by (simp add: edit_def)
    from Cons.IH [OF keys this fits, of "out @ [key]"] show ?thesis
      using False key p Cons.prems(4,5) by (simp add: Let_def putchar_shows)
  qed
qed

text \<open>The keys of a line, with the one that ends it, and what the line shows.\<close>

definition line_keys :: "u8 list \<Rightarrow> u8 \<Rightarrow> bool" where
  "line_keys keys enter \<longleftrightarrow> (\<forall>c\<in>set keys. plain c) \<and> (\<forall>k\<le>length keys. length (fold edit (take k keys) []) < 128) \<and> enter \<in> {10, 13}"

lemma my_shell_turn_ok:
  assumes "line_keys keys enter"
  shows "\<exists>line. my_shell_turn table_with_putchar cwd_cache (keys @ enter # rest) = Inr (line, print_prompt cwd_cache @ echo keys [] @ [10], rest) \<and>
    takeWhile (\<lambda>c. c \<noteq> 0) line = fold edit keys [] \<and> length line = 128"
proof -
  have "line_ok [] (replicate cmd_len 0) 0" by (simp add: line_ok_def)
  from readline_loop_edits [OF _ this, of keys cmd_len enter rest "[]"] assms
  obtain line where "readline_loop table_with_putchar (keys @ enter # rest) (replicate cmd_len 0) cmd_len 0 [] = Inr (line, echo keys [] @ [10], rest)"
    "takeWhile (\<lambda>c. c \<noteq> 0) line = fold edit keys []" "length line = 128"
    by (auto simp: cmd_len_def line_keys_def)
  then show ?thesis by (simp add: my_shell_turn_def readline_def cmd_len_def)
qed

lemma edit_length: "length (fold edit xs line) \<le> length line + length xs"
proof (induction xs arbitrary: line)
  case (Cons x xs)
  have "length (edit x line) \<le> length line + 1" by (auto simp: edit_def)
  then show ?case using Cons.IH [of "edit x line"] by simp
qed simp

lemma shell_loop_ok:
  "\<forall>(keys, enter)\<in>set ls. line_keys keys enter \<Longrightarrow>
   \<exists>lines. shell_loop table_with_putchar (length ls) cwd (concat (map (\<lambda>(keys, enter). keys @ [enter]) ls) @ rest) =
       Inr (lines, concat (map (\<lambda>(keys, enter). print_prompt cwd @ echo keys [] @ [10]) ls), rest) \<and>
     map (takeWhile (\<lambda>c. c \<noteq> 0)) lines = map (\<lambda>(keys, enter). fold edit keys []) ls"
proof (induction ls)
  case (Cons l ls)
  obtain keys enter where l: "l = (keys, enter)" by (cases l)
  have k: "line_keys keys enter" and ls: "\<forall>(keys, enter)\<in>set ls. line_keys keys enter" using Cons.prems by (auto simp: l)
  from Cons.IH [OF ls] obtain lines where "shell_loop table_with_putchar (length ls) cwd (concat (map (\<lambda>(keys, enter). keys @ [enter]) ls) @ rest) =
       Inr (lines, concat (map (\<lambda>(keys, enter). print_prompt cwd @ echo keys [] @ [10]) ls), rest)"
     "map (takeWhile (\<lambda>c. c \<noteq> 0)) lines = map (\<lambda>(keys, enter). fold edit keys []) ls" by blast
  then show ?case
    using my_shell_turn_ok [OF k, of cwd "concat (map (\<lambda>(keys, enter). keys @ [enter]) ls) @ rest"] by (auto simp: l)
qed simp

section \<open>Properties\<close>

text \<open>C39 The shell and its system call: with the table that \<open>syscall_init\<close> fills in, the shell shows its prompt and stops at
  the first key that is not a backspace, calling through a null pointer. With the entry of \<open>putchar\<close> in the table, which
  is a comment in the code, it reads line after line: what is in \<open>cmd_line\<close> after the key that ends a line is what
  its keys spell, where a backspace takes back the last character of this line and nothing before it; after the
  prompt it shows the keys, but no backspace on an empty line. That holds for all lines that never grow to 128
  characters, however many keys they take; the keys behind the last line are left.\<close>

theorem shell_reads_lines:
  assumes "\<forall>(keys, enter)\<in>set ls. line_keys keys enter"
  shows "(\<forall>n keys. (\<exists>k\<in>set keys. k \<noteq> 8) \<longrightarrow> my_shell syscall_init (Suc n) keys = Inl OutOfBounds) \<and>
    (\<exists>lines. my_shell table_with_putchar (length ls) (concat (map (\<lambda>(keys, enter). keys @ [enter]) ls) @ rest) =
      Inr (lines, concat (map (\<lambda>(keys, enter). print_prompt [47] @ echo keys [] @ [10]) ls), rest) \<and>
    map (takeWhile (\<lambda>c. c \<noteq> 0)) lines = map (\<lambda>(keys, enter). fold edit keys []) ls)"
proof -
  have "(replicate 64 (0 :: u8))[0 := 47] = 47 # replicate 63 0" by (simp add: numeral_eq_Suc)
  then have "print_prompt ((replicate 64 0)[0 := 47]) = print_prompt [47]" by (simp add: print_prompt_def)
  then show ?thesis using shell_loop_ok [OF assms, of "(replicate 64 0)[0 := 47]" rest] shell_faults by (simp add: my_shell_def)
qed

theorem shell_reads_lines_witness:
  "my_shell syscall_init 1 [8, 108, 109] = Inl OutOfBounds \<and>
   (\<exists>lines. my_shell table_with_putchar 2 [8, 108, 109, 8, 115, 13, 97, 10, 98] =
      Inr (lines, print_prompt [47] @ [108, 109, 8, 115, 10] @ print_prompt [47] @ [97, 10], [98]) \<and>
    map (takeWhile (\<lambda>c. c \<noteq> 0)) lines = [[108, 115], [97]])"
proof -
  have short: "length xs < 128 \<Longrightarrow> length (fold edit (take k xs) []) < 128" for xs k
    using edit_length [of "take k xs" "[]"] by simp
  have "line_keys [8, 108, 109, 8, 115] 13" "line_keys [97] 10" using short by (simp_all add: line_keys_def plain_def)
  then have "\<forall>(keys, enter)\<in>set [([8, 108, 109, 8, 115], 13), ([97 :: u8], 10)]. line_keys keys enter" by simp
  note r = shell_reads_lines [OF this, of "[98]"]
  have "my_shell syscall_init (Suc 0) [8, 108, 109] = Inl OutOfBounds" using conjunct1 [OF r] by simp
  moreover note conjunct2 [OF r]
  ultimately show ?thesis by (simp add: edit_def flip: numeral_2_eq_2)
qed

text \<open>The key after 128 characters is stored behind the end of the line before the loop notices.\<close>

lemma readline_stores_behind:
  "readline_loop table (key # keys) buf (length buf) (length buf) out = Inl OutOfBounds"
  by simp

end
