(* ===== verification/Spec2Isabelle.thy ===== *)
theory Spec2Isabelle
  imports Locking Malloc Format Mkdir Printk Keyboard Descriptors Fork Shell
begin

text \<open>
  A verification of the zhuOS kernel, a 32-bit teaching kernel in C with a file system on IDE disks.

  \<^bold>\<open>The parts and their theories.\<close> Every function of the source has a definition of its name (a suffix where
  the name is taken), a loop in the middle of a function a definition of its own.

  \<^item> \<^verbatim>\<open>Prelude\<close>: machine words, the outcome of a call (a value, or \<open>Panic\<close>, \<open>Hang\<close>, \<open>PageFault\<close>, \<open>Blocked\<close>,
    \<open>OutOfBounds\<close>), ranges of addresses.
  \<^item> \<^verbatim>\<open>CString\<close>: \<^verbatim>\<open>lib/string.c\<close>; \<^verbatim>\<open>Stdio\<close>: \<^verbatim>\<open>lib/stdio.c\<close>; both over a map from addresses to bytes.
  \<^item> \<^verbatim>\<open>Bitmap\<close>: \<^verbatim>\<open>lib/kernel/bitmap.c\<close>; \<^verbatim>\<open>DList\<close>: \<^verbatim>\<open>lib/kernel/list.c\<close>, linked nodes as two maps of pointers.
  \<^item> \<^verbatim>\<open>Interrupt\<close>: the interrupt flag of \<^verbatim>\<open>kernel/interrupt.c\<close>; \<^verbatim>\<open>Descriptors\<close>: the rest of that file (gates,
    handlers, interrupt controller) and the segment descriptors of \<^verbatim>\<open>userprog/tss.c\<close>.
  \<^item> \<^verbatim>\<open>Traps\<close>: the entries and the exit of \<^verbatim>\<open>kernel/kernel.S\<close>, the system call table of
    \<^verbatim>\<open>userprog/syscall-init.c\<close> and the stubs of \<^verbatim>\<open>lib/user/syscall.c\<close>.
  \<^item> \<^verbatim>\<open>Paging\<close>, \<^verbatim>\<open>PageAlloc\<close>, \<^verbatim>\<open>Arena\<close>, \<^verbatim>\<open>Malloc\<close>: \<^verbatim>\<open>kernel/memory.c\<close>: translation, pools of frames and of
    virtual addresses, mapping and unmapping, and the block allocator behind \<open>sys_malloc\<close> and \<open>sys_free\<close>.
  \<^item> \<^verbatim>\<open>Thread\<close>, \<^verbatim>\<open>Timer\<close>, \<^verbatim>\<open>Sync\<close>, \<^verbatim>\<open>Locking\<close>: the scheduler of \<^verbatim>\<open>thread/thread.c\<close>, \<^verbatim>\<open>device/timer.c\<close>,
    \<^verbatim>\<open>thread/sync.c\<close>, and all of them together as a transition system.
  \<^item> \<^verbatim>\<open>Process\<close>, \<^verbatim>\<open>Fork\<close>: making threads and processes, \<^verbatim>\<open>userprog/process.c\<close> and \<^verbatim>\<open>userprog/fork.c\<close>.
  \<^item> \<^verbatim>\<open>Screen\<close>: \<^verbatim>\<open>lib/kernel/print.S\<close> and \<^verbatim>\<open>device/console.c\<close>; \<^verbatim>\<open>Ioqueue\<close>: \<^verbatim>\<open>device/ioqueue.c\<close>;
    \<^verbatim>\<open>Keyboard\<close>: \<^verbatim>\<open>device/keyboard.c\<close>; \<^verbatim>\<open>Shell\<close>: \<^verbatim>\<open>shell/shell.c\<close>; \<^verbatim>\<open>Stdio\<close> and \<^verbatim>\<open>Printk\<close>: formatting, \<open>printk\<close>,
    and what a failed assertion prints (\<^verbatim>\<open>kernel/debug.c\<close>).
  \<^item> \<^verbatim>\<open>Ide\<close>: \<^verbatim>\<open>device/ide.c\<close>; \<^verbatim>\<open>Inode\<close>, \<^verbatim>\<open>Dir\<close>, \<^verbatim>\<open>File\<close>: the files of that name in \<^verbatim>\<open>fs\<close>; \<^verbatim>\<open>Path\<close>, \<^verbatim>\<open>Fs\<close>,
    \<^verbatim>\<open>Format\<close>: \<^verbatim>\<open>fs/fs.c\<close> (paths, system calls, formatting and mounting).
  \<^item> \<^verbatim>\<open>Layout\<close>, \<^verbatim>\<open>Content\<close>, \<^verbatim>\<open>Files\<close>, \<^verbatim>\<open>Entries\<close>, \<^verbatim>\<open>Removal\<close>, \<^verbatim>\<open>Creation\<close>,
    \<^verbatim>\<open>Release\<close>, \<^verbatim>\<open>Calls\<close>, \<^verbatim>\<open>Walk\<close>, \<^verbatim>\<open>Lookup\<close>, \<^verbatim>\<open>Mkdir\<close>: what a partition means (regions,
    contents of files, entries of directories, the tree of the directories) and the proofs that the operations do what they should.

  \<^bold>\<open>The state.\<close> There are two chains of extensible records, each component adding its fields. The kernel:
  \<open>cpu\<close> (flags), \<open>nodes\<close> (list elements), \<open>hw\<close> (physical words, \<open>cr3\<close>, bytes of the address space), \<open>sched\<close>
  (control blocks by address, the calls that a suspended thread is in, the queues), \<open>timed\<close>, \<open>sync\<close> (semaphores
  and locks by address); from there \<open>mm\<close>, \<open>arenas\<close>, \<open>procs\<close> for memory and processes, and \<open>screen\<close>, \<open>io\<close>, \<open>kbd\<close>,
  \<open>machine\<close>, \<open>segments\<close> for the devices. The file system: \<open>ata\<close> (registers, channels and sectors of the disks)
  and \<open>fs\<close> (the mounted partition, the inodes in memory, the file table, the tasks' descriptors). Pointers are
  numbers; a structure at a pointer is a map from addresses to its fields; arrays of known length are lists, and an
  index past the end is \<open>OutOfBounds\<close>. The order of the fields and of the assignments is that of the code.

  \<^bold>\<open>How control flow is modelled.\<close> A thread that gives the processor away inside a call keeps the rest of the
  call as a list of frames, which \<open>resume\<close> goes on with; \<open>kreach\<close> of \<^verbatim>\<open>Locking\<close> interleaves the threads and the
  clock interrupt in every possible way. Code that takes a lock and is not about scheduling uses the sequential
  \<open>acquire_now\<close> and \<open>release_now\<close>, which end as \<open>Blocked\<close> where the thread would have to wait. A caller of the
  keyboard buffer that has to wait answers \<open>None\<close> and goes on with the function of the suffix \<open>woken\<close>.

  \<^bold>\<open>Bounds and fuel.\<close> Loops over arrays recur on the number of elements that are left. \<open>list_traversal\<close>,
  \<open>itoa\<close>, \<open>vsprintf\<close> and the string loops are \<open>partial_function (option)\<close>: no return is the value \<open>None\<close>, and the
  theorems give \<open>Some\<close> on proper lists and strings and for every base but 1 (base 0 is \<open>DivideError\<close>). The loops of \<open>ide_read\<close> and
  \<open>ide_write\<close> have one turn more than sectors, those of \<open>file_read\<close> and \<open>file_write\<close> one more than bytes; every
  turn handles at least one, so the fuel never ends, as the theorems on whole calls show. \<open>busy_wait\<close> counts
  its own limit.

  \<^bold>\<open>Interfaces.\<close> \<^verbatim>\<open>DList\<close> states the contract of the queues of the kernel as a locale, interpreted by the pointer
  operations (\<open>dl\<close>); the scheduler, the semaphores and the arenas rest on its facts. \<open>mutex\<close> in \<^verbatim>\<open>Sync\<close> is what the
  users of a lock rely on, interpreted by \<open>acquire_now\<close> and \<open>release_now\<close> for every lock (\<open>lk\<close>; the console).
  \<open>block_device\<close> in \<^verbatim>\<open>Ide\<close> is the contract of a disk, interpreted by the driver (\<open>drv\<close>) and by the accesses of the
  file system (\<open>fsd\<close>), which gives that the two see the same sectors. \<open>bounded_queue\<close> in \<^verbatim>\<open>Ioqueue\<close> is the buffer
  between the keyboard and the readers (\<open>ioq\<close>).

  \<^bold>\<open>What is shown.\<close>
  \<^item> The kernel that threads use at the same time: no assertion of the scheduler, the semaphores and the locks
    fails in any reachable state, a lock has one owner, no wakeup is lost, the ready queue is exactly the threads
    that are ready (\<^verbatim>\<open>Locking\<close>); \<open>schedule\<close> is round robin (\<^verbatim>\<open>Thread\<close>, \<^verbatim>\<open>Locking\<close>).
  \<^item> Memory: page tables change at one entry, allocation and release of pages are inverse, chunks handed out by
    \<open>sys_malloc\<close> are large enough and taken back exactly, and over any sequence of requests and releases the blocks
    in use stay disjoint (\<^verbatim>\<open>PageAlloc\<close>, \<^verbatim>\<open>Arena\<close>, \<^verbatim>\<open>Malloc\<close>).
  \<^item> Entering and leaving the kernel: registers are saved and restored, arguments and results of system calls get
    through, new threads, programs and the children of \<open>fork\<close> start with the registers they should (\<^verbatim>\<open>Traps\<close>,
    \<^verbatim>\<open>Process\<close>, \<^verbatim>\<open>Fork\<close>). For \<open>fork\<close> these are the steps \<open>copy_pcb\<close>, \<open>build_child_stack\<close> and \<open>switch_to\<close>; that the
    copies of the other pages in between leave the page of the child alone is a hypothesis there.
  \<^item> Devices: the driver reads and writes exactly the sectors asked for, the keyboard handler returns on every byte but
    a backspace at the top left corner and types the right characters, the ring buffer is a queue, the console types on a screen of 25 rows.
  \<^item> The shell: with the system call table as it is, without \<open>putchar\<close>, it stops at the first key; with the entry that is
    a comment in the code it reads lines (\<^verbatim>\<open>Shell\<close>).
  \<^item> The file system: \<open>file_write\<close> appends to the contents of a file and leaves all other blocks in use alone,
    \<open>file_read\<close> delivers a piece of the contents, directories are multisets of entries that \<open>sync_dir_entry\<close> adds
    to, \<open>search_dir_entry\<close> looks up and \<open>delete_dir_entry\<close> removes from, \<open>file_create\<close> makes an empty file, inodes
    survive the way to the disk and back, a formatted partition is mounted with its super block, the cache of open
    inodes counts its users. Together (\<^verbatim>\<open>Calls\<close>): what \<open>sys_open\<close>, \<open>sys_write\<close> and \<open>sys_close\<close> put into the root
    directory comes back from \<open>sys_open\<close> and \<open>sys_read\<close>, and \<open>sys_unlink\<close> takes it away without a trace.
    Paths (\<^verbatim>\<open>Walk\<close>, \<^verbatim>\<open>Lookup\<close>): \<open>search_file\<close> is a walk down the tree of the directories on the disk, for paths
    of any depth; from it, where \<open>sys_chdir\<close> goes and which paths \<open>sys_open\<close> refuses; \<open>sys_mkdir\<close> adds
    a directory to the tree and keeps the rest of it (\<^verbatim>\<open>Mkdir\<close>).
  \<^item> Where the code does not do what it means to, the lemma that shows it stands beside the properties
    (\<open>bitmap_scan_full_panics\<close>, \<open>user_pages_overlap\<close>, \<open>mem_pool_init_wraps\<close>, \<open>inode_sync_wrong_slot\<close>,
    \<open>file_write_limit\<close>, \<open>kbd_buf_never_initialised\<close>, \<open>tss_limit_counts_pages\<close> and others).

  \<^bold>\<open>Abstractions.\<close> The file system runs as one thread: the lock of a channel is a flag, the interrupt of the disk
  comes while the driver waits for it, and \<open>sys_malloc\<close> inside the file system answers from a list of outcomes
  (so every failure is covered) whose blocks are disjoint; buffers are lists of bytes. One partition is mounted.
  What functions print is left out there. The disk keeps what is written to its sectors and answers with it, the
  documented behaviour of ATA. Memory is seen as words through the page tables, as bytes, and as list elements;
  clearing and copying act on all views. C's \<open>char\<close> is signed, as with gcc on this processor.

  \<^bold>\<open>Not modelled.\<close> The boot sector and the loader (the page tables they leave are hypotheses); \<open>main\<close> and
  \<open>init_all\<close>, a demonstration and a sequence of calls over both chains of records; the calls of \<open>printk\<close> in the
  components, whose messages are left out; the acknowledgement of the interrupt controller in the entries.
\<close>

end
